(* ===== verification/Fastbook_Prelude.thy ===== *)
theory Fastbook_Prelude
  imports Main "HOL-Library.Word"
begin

section \<open>Shared types, faults and library facts\<close>

text \<open>
  The vocabulary every component of the model shares: the machine integer types of the C++
  code, pointers, the ways a call can fail to return normally, the standard algorithms the
  sources call (\<open>std::lower_bound\<close>, \<open>std::upper_bound\<close>, \<open>std::shift_left\<close>,
  \<open>std::shift_right\<close>), and the facts about them the component proofs use.

  Assertions are modelled as they are in the release build (\<open>NDEBUG\<close>): they do nothing.
  Where an assertion guards a memory access, the model checks the access itself and yields
  \<open>Bad_Access\<close>.
\<close>

unbundle bit_operations_syntax

subsection \<open>Machine integers, pointers, faults\<close>

type_synonym u8 = "8 word"
type_synonym u16 = "16 word"
type_synonym u32 = "32 word"
type_synonym u64 = "64 word"
type_synonym byte = "8 word"

text \<open>An address is a natural number; \<open>nullptr\<close> is 0.\<close>

type_synonym ptr = nat

abbreviation (input) nullptr :: ptr where
  "nullptr \<equiv> 0"

text \<open>
  \<open>Bad_Access\<close>: undefined behaviour, a read or write outside an object.
  \<open>Terminated\<close>: \<open>std::terminate\<close>. \<open>Diverged\<close>: a loop that never ends.
\<close>

datatype fault = Bad_Access | Terminated | Diverged

type_synonym 'a res = "fault + 'a"

fun bind_res :: "'a res \<Rightarrow> ('a \<Rightarrow> 'b res) \<Rightarrow> 'b res" where
  "bind_res (Inl e) f = Inl e"
| "bind_res (Inr a) f = f a"

subsection \<open>Standard algorithms\<close>

text \<open>\<open>std::countr_zero\<close> and \<open>std::has_single_bit\<close> of a 64-bit unsigned value.\<close>

fun countr_zero :: "nat \<Rightarrow> nat" where
  "countr_zero n = (if n = 0 then 64 else if odd n then 0 else Suc (countr_zero (n div 2)))"

declare countr_zero.simps [simp del]

definition has_single_bit :: "nat \<Rightarrow> bool" where
  "has_single_bit n \<longleftrightarrow> n \<noteq> 0 \<and> n = 2 ^ countr_zero n"

text \<open>
  The binary search behind \<open>std::lower_bound\<close> and \<open>std::upper_bound\<close>: the first position
  of \<open>[first, first + len)\<close> whose element does not satisfy \<open>before\<close>.
\<close>

fun partition_search :: "('a \<Rightarrow> bool) \<Rightarrow> 'a list \<Rightarrow> nat \<Rightarrow> nat \<Rightarrow> nat" where
  "partition_search before xs first len =
     (if len = 0 then first
      else let half = len div 2; middle = first + half in
        if before (xs ! middle)
        then partition_search before xs (middle + 1) (len - half - 1)
        else partition_search before xs first half)"

declare partition_search.simps [simp del]

definition lower_bound :: "('a \<Rightarrow> 'a \<Rightarrow> bool) \<Rightarrow> 'a list \<Rightarrow> nat \<Rightarrow> 'a \<Rightarrow> nat" where
  "lower_bound lt xs n v = partition_search (\<lambda>x. lt x v) xs 0 n"

definition upper_bound :: "('a \<Rightarrow> 'a \<Rightarrow> bool) \<Rightarrow> 'a list \<Rightarrow> nat \<Rightarrow> 'a \<Rightarrow> nat" where
  "upper_bound lt xs n v = partition_search (\<lambda>x. \<not> lt v x) xs 0 n"

text \<open>
  Shifts of the range \<open>[b, e)\<close> by \<open>n\<close> places. The elements are trivially copyable, so the
  places nothing is moved into keep their old contents.
\<close>

definition shift_left :: "'a list \<Rightarrow> nat \<Rightarrow> nat \<Rightarrow> nat \<Rightarrow> 'a list" where
  "shift_left xs b e n =
     (if n = 0 \<or> e - b \<le> n then xs
      else take b xs @ take (e - b - n) (drop (b + n) xs) @ drop (e - n) xs)"

definition shift_right :: "'a list \<Rightarrow> nat \<Rightarrow> nat \<Rightarrow> nat \<Rightarrow> 'a list" where
  "shift_right xs b e n =
     (if n = 0 \<or> e - b \<le> n then xs
      else take (b + n) xs @ take (e - b - n) (drop b xs) @ drop e xs)"

subsection \<open>Facts\<close>

lemma bind_res_Inr_iff: "bind_res m f = Inr y \<longleftrightarrow> (\<exists>x. m = Inr x \<and> f x = Inr y)"
  by (cases m) auto

lemma countr_zero_power [simp]: "countr_zero (2 ^ c) = c"
proof (induction c)
  case 0
  then show ?case by (simp add: countr_zero.simps)
next
  case (Suc c)
  then show ?case by (subst countr_zero.simps) simp
qed

lemma has_single_bit_iff: "has_single_bit n \<longleftrightarrow> (\<exists>c. n = 2 ^ c)"
  by (auto simp: has_single_bit_def)

lemma and_mask_nat: "x AND (2 ^ c - 1) = x mod (2 ^ c :: nat)"
  by (metis mask_eq_exp_minus_1 take_bit_eq_mask take_bit_eq_mod)

lemma and_mask_nat_Suc [simp]: "x AND (2 ^ c - Suc 0) = x mod (2 ^ c :: nat)"
  using and_mask_nat by simp

lemma unat_u16_of_nat: "n < 2 ^ 16 \<Longrightarrow> unat (word_of_nat n :: u16) = n"
  by (simp add: unsigned_of_nat take_bit_nat_eq_self)

lemma unat_u32_of_nat: "n < 2 ^ 32 \<Longrightarrow> unat (word_of_nat n :: u32) = n"
  by (simp add: unsigned_of_nat take_bit_nat_eq_self)

lemma unat_u64_of_nat: "n < 2 ^ 64 \<Longrightarrow> unat (word_of_nat n :: u64) = n"
  by (simp add: unsigned_of_nat take_bit_nat_eq_self)

text \<open>The binary search finds the partition point of a partitioned range.\<close>

lemma partition_search_spec:
  assumes "\<And>i j. first \<le> i \<Longrightarrow> i < j \<Longrightarrow> j < first + len \<Longrightarrow> before (xs ! j) \<Longrightarrow> before (xs ! i)"
  shows "first \<le> partition_search before xs first len
    \<and> partition_search before xs first len \<le> first + len
    \<and> (\<forall>i. first \<le> i \<and> i < partition_search before xs first len \<longrightarrow> before (xs ! i))
    \<and> (\<forall>i. partition_search before xs first len \<le> i \<and> i < first + len \<longrightarrow> \<not> before (xs ! i))"
  using assms
proof (induction before xs first len rule: partition_search.induct)
  case (1 before xs first len)
  let ?half = "len div 2"
  let ?mid = "first + ?half"
  show ?case
  proof (cases "len = 0")
    case True
    then show ?thesis by (auto simp: partition_search.simps)
  next
    case False
    then have mid: "?mid < first + len" by simp
    show ?thesis
    proof (cases "before (xs ! ?mid)")
      case True
      let ?r = "partition_search before xs (?mid + 1) (len - ?half - 1)"
      have sum: "?mid + 1 + (len - ?half - 1) = first + len"
        using False by simp
      have IH: "?mid + 1 \<le> ?r \<and> ?r \<le> ?mid + 1 + (len - ?half - 1)
          \<and> (\<forall>i. ?mid + 1 \<le> i \<and> i < ?r \<longrightarrow> before (xs ! i))
          \<and> (\<forall>i. ?r \<le> i \<and> i < ?mid + 1 + (len - ?half - 1) \<longrightarrow> \<not> before (xs ! i))"
        by (rule "1.IH"(1) [OF False refl refl True]) (use "1.prems" sum in auto)
      have left: "before (xs ! i)" if "first \<le> i" "i \<le> ?mid" for i
        using that "1.prems" [of i ?mid] True mid by (cases "i = ?mid") auto
      have "partition_search before xs first len = ?r"
        using False True by (simp add: partition_search.simps [of before xs first len] Let_def)
      moreover have "before (xs ! i)" if "first \<le> i" "i < ?r" for i
        using that left [of i] IH by (cases "i \<le> ?mid") auto
      ultimately show ?thesis
        using IH unfolding sum by auto
    next
      case notb: False
      let ?r = "partition_search before xs first ?half"
      have IH: "first \<le> ?r \<and> ?r \<le> first + ?half
          \<and> (\<forall>i. first \<le> i \<and> i < ?r \<longrightarrow> before (xs ! i))
          \<and> (\<forall>i. ?r \<le> i \<and> i < first + ?half \<longrightarrow> \<not> before (xs ! i))"
        by (rule "1.IH"(2) [OF False refl refl notb]) (use "1.prems" mid in auto)
      have right: "\<not> before (xs ! i)" if "?mid \<le> i" "i < first + len" for i
        using that "1.prems" [of ?mid i] notb by (cases "i = ?mid") auto
      have "partition_search before xs first len = ?r"
        using False notb by (simp add: partition_search.simps [of before xs first len] Let_def)
      moreover have "\<not> before (xs ! i)" if "?r \<le> i" "i < first + len" for i
        using that right [of i] IH by (cases "i < ?mid") auto
      ultimately show ?thesis
        using IH mid by auto
    qed
  qed
qed

lemma length_shift_left [simp]: "e \<le> length xs \<Longrightarrow> length (shift_left xs b e n) = length xs"
  by (auto simp: shift_left_def)

lemma length_shift_right [simp]: "e \<le> length xs \<Longrightarrow> length (shift_right xs b e n) = length xs"
  by (auto simp: shift_right_def)

lemma shift_left_last [simp]: "shift_left xs (n - Suc 0) n (Suc 0) = xs"
  by (simp add: shift_left_def)

lemma nth_shift_left_1:
  assumes "e \<le> length xs" "j < length xs"
  shows "shift_left xs b e (Suc 0) ! j = (if b \<le> j \<and> Suc j < e then xs ! Suc j else xs ! j)"
proof (cases "e - b \<le> 1")
  case True
  then show ?thesis by (auto simp: shift_left_def)
next
  case False
  then have len: "length (take (e - b - 1) (drop (b + 1) xs)) = e - b - 1"
    using assms(1) by simp
  consider "j < b" | "b \<le> j" "Suc j < e" | "e \<le> Suc j" "b \<le> j"
    by linarith
  then show ?thesis
    using False assms len by cases (auto simp: shift_left_def nth_append)
qed

lemma nth_shift_right_1:
  assumes "e \<le> length xs" "j < length xs"
  shows "shift_right xs b e (Suc 0) ! j = (if b < j \<and> j < e then xs ! (j - 1) else xs ! j)"
  using assms by (auto simp: shift_right_def nth_append min_def)

end
