(* ===== verification/Market_Types.thy ===== *)
theory Market_Types
  imports Fastbook_Prelude
begin

section \<open>Market data types (src/common/types.hpp)\<close>

text \<open>
  The event type that flows from the parser through the rings to the book builders, the
  enumerations of sides, event kinds and exchanges, and the case-insensitive lookup of an
  exchange name.
\<close>

type_synonym instrument_t = u32
type_synonym timestamp_t = u64
type_synonym oid_t = u64

datatype side = BID | ASK

datatype event_type = ADDED | EXECUTED | REPLACED | CANCELLED | DELETED

record mbo_event =
  ev_etype :: event_type
  ev_side :: side
  ev_printable :: bool
  ev_instrument :: instrument_t
  ev_timestamp :: timestamp_t
  ev_oid :: oid_t
  ev_orig_oid :: oid_t
  ev_price :: u32
  ev_qty :: u32
  ev_rx_tsc :: u64

text \<open>The value-initialised event: the fields a designated initialiser leaves out are zero.\<close>

definition MboEvent_init :: mbo_event where
  "MboEvent_init = \<lparr>ev_etype = ADDED, ev_side = BID, ev_printable = False, ev_instrument = 0,
     ev_timestamp = 0, ev_oid = 0, ev_orig_oid = 0, ev_price = 0, ev_qty = 0, ev_rx_tsc = 0\<rparr>"

datatype exchange = NASDAQ | CME | CBOE | NYSE | EUREX

text \<open>\<open>std::toupper\<close> in the C locale.\<close>

definition toupper :: "char \<Rightarrow> char" where
  "toupper c = (let n = (of_char c :: nat) in if 97 \<le> n \<and> n \<le> 122 then char_of (n - 32) else c)"

fun iequals_from :: "string \<Rightarrow> string \<Rightarrow> bool" where
  "iequals_from (x # xs) (y # ys) = (if toupper x \<noteq> toupper y then False else iequals_from xs ys)"
| "iequals_from _ _ = True"

definition iequals :: "string \<Rightarrow> string \<Rightarrow> bool" where
  "iequals a b = (if length a \<noteq> length b then False else iequals_from a b)"

definition str_to_exchange :: "string \<Rightarrow> exchange option" where
  "str_to_exchange ex_sv =
     (if iequals ex_sv ''nasdaq'' then Some NASDAQ
      else if iequals ex_sv ''cme'' then Some CME
      else if iequals ex_sv ''cboe'' then Some CBOE
      else if iequals ex_sv ''nyse'' then Some NYSE
      else if iequals ex_sv ''eurex'' then Some EUREX
      else None)"

definition exchange_name :: "exchange \<Rightarrow> string" where
  "exchange_name e = (case e of NASDAQ \<Rightarrow> ''NASDAQ'' | CME \<Rightarrow> ''CME'' | CBOE \<Rightarrow> ''CBOE''
     | NYSE \<Rightarrow> ''NYSE'' | EUREX \<Rightarrow> ''EUREX'')"

lemma iequals_map: "iequals a b \<longleftrightarrow> map toupper a = map toupper b"
proof (cases "length a = length b")
  case True
  then have "iequals_from a b \<longleftrightarrow> map toupper a = map toupper b"
    by (induction rule: list_induct2) auto
  with True show ?thesis by (simp add: iequals_def)
next
  case False
  then show ?thesis by (metis iequals_def length_map)
qed

lemma upper_names:
  "map toupper ''nasdaq'' = ''NASDAQ''" "map toupper ''cme'' = ''CME''"
  "map toupper ''cboe'' = ''CBOE''" "map toupper ''nyse'' = ''NYSE''"
  "map toupper ''eurex'' = ''EUREX''"
  by code_simp+

text \<open>An exchange is recognised exactly when the upper-cased argument is its name.\<close>

lemma str_to_exchange_eq:
  "str_to_exchange s = Some e \<longleftrightarrow> map toupper s = exchange_name e"
proof -
  have "iequals s ''nasdaq'' \<longleftrightarrow> map toupper s = ''NASDAQ''"
    "iequals s ''cme'' \<longleftrightarrow> map toupper s = ''CME''"
    "iequals s ''cboe'' \<longleftrightarrow> map toupper s = ''CBOE''"
    "iequals s ''nyse'' \<longleftrightarrow> map toupper s = ''NYSE''"
    "iequals s ''eurex'' \<longleftrightarrow> map toupper s = ''EUREX''"
    unfolding iequals_map by (simp_all only: upper_names)
  then have "str_to_exchange s =
      (if map toupper s = ''NASDAQ'' then Some NASDAQ else if map toupper s = ''CME'' then Some CME
       else if map toupper s = ''CBOE'' then Some CBOE else if map toupper s = ''NYSE'' then Some NYSE
       else if map toupper s = ''EUREX'' then Some EUREX else None)"
    by (simp only: str_to_exchange_def)
  then show ?thesis
    by (cases e) (simp_all add: exchange_name_def del: list.map)
qed

end
