(* ===== verification/Two_Tier_Levels.thy ===== *)
theory Two_Tier_Levels
  imports Market_Types
begin

section \<open>Two-tier price levels (src/orderbook/two\_tier\_levels.hpp)\<close>

text \<open>
  One side of a book: the \<open>K\<close> best price levels in a small unsorted hot array, the others in
  a sorted cold array whose best level is last. \<open>S\<close>, \<open>K\<close> and \<open>ColdCap\<close> are the template
  parameters: the side is an argument of every operation, the two capacities are the lengths
  of the arrays. A \<open>LevelData *\<close> into one of the two arrays is a \<open>loc\<close>; \<open>nullptr\<close> is
  \<open>None\<close>.
\<close>

record level_data =
  ld_head :: ptr
  ld_tail :: ptr
  ld_total_qty :: u64

definition LevelData_init :: level_data where
  "LevelData_init = \<lparr>ld_head = nullptr, ld_tail = nullptr, ld_total_qty = 0\<rparr>"

definition EMPTY :: "side \<Rightarrow> u32" where
  "EMPTY S = (if S = BID then 0 else 0xFFFFFFFF)"

definition BEST_POSSIBLE :: "side \<Rightarrow> u32" where
  "BEST_POSSIBLE S = (if S = BID then 0xFFFFFFFF else 0)"

definition better :: "side \<Rightarrow> u32 \<Rightarrow> u32 \<Rightarrow> bool" where
  "better S a b = (if S = BID then b < a else a < b)"

definition comp_t :: "side \<Rightarrow> u32 \<Rightarrow> u32 \<Rightarrow> bool" where
  "comp_t S a b = (if S = BID then a < b else b < a)"

record level =
  lv_prices :: "u32 list"
  lv_levels :: "level_data list"
  lv_size :: nat
  lv_best_price :: u32
  lv_best_idx :: nat

definition Level_init :: "side \<Rightarrow> nat \<Rightarrow> level" where
  "Level_init S n = \<lparr>lv_prices = replicate n (EMPTY S), lv_levels = replicate n LevelData_init,
     lv_size = 0, lv_best_price = EMPTY S, lv_best_idx = 0\<rparr>"

record two_tier =
  tt_hot :: level
  tt_cold :: level

definition TwoTierLevels_init :: "side \<Rightarrow> nat \<Rightarrow> nat \<Rightarrow> two_tier" where
  "TwoTierLevels_init S K ColdCap = \<lparr>tt_hot = Level_init S K, tt_cold = Level_init S ColdCap\<rparr>"

datatype tier = NONE | HOT | COLD

record loc =
  loc_tier :: tier
  loc_idx :: nat

text \<open>The scan of the hot prices for an equal price.\<close>

fun hot_index :: "u32 list \<Rightarrow> u32 \<Rightarrow> nat \<Rightarrow> nat option" where
  "hot_index [] price i = None"
| "hot_index (p # ps) price i = (if p = price then Some i else hot_index ps price (Suc i))"

definition find_idx :: "side \<Rightarrow> two_tier \<Rightarrow> u32 \<Rightarrow> loc" where
  "find_idx S tt price =
     (case hot_index (lv_prices (tt_hot tt)) price 0 of
        Some i \<Rightarrow> \<lparr>loc_tier = HOT, loc_idx = i\<rparr>
      | None \<Rightarrow>
          (let prices_cold = lv_prices (tt_cold tt); end = lv_size (tt_cold tt);
               it = lower_bound (comp_t S) prices_cold end price
           in if it = end \<or> prices_cold ! it \<noteq> price then \<lparr>loc_tier = NONE, loc_idx = 0\<rparr>
              else \<lparr>loc_tier = COLD, loc_idx = it\<rparr>))"

definition tt_find :: "side \<Rightarrow> two_tier \<Rightarrow> u32 \<Rightarrow> loc option" where
  "tt_find S tt price =
     (let loc = find_idx S tt price in
      case loc_tier loc of NONE \<Rightarrow> None | HOT \<Rightarrow> Some loc | COLD \<Rightarrow> Some loc)"

definition insert_to_cold :: "side \<Rightarrow> two_tier \<Rightarrow> u32 \<Rightarrow> level_data \<Rightarrow> (bool \<times> nat) \<times> two_tier" where
  "insert_to_cold S tt price level_data =
     (let c = tt_cold tt in
      if length (lv_prices c) \<le> lv_size c then ((False, 0), tt)
      else let end = lv_size c;
               it = upper_bound (comp_t S) (lv_prices c) end price;
               prices = (shift_right (lv_prices c) it (end + 1) 1)[it := price];
               levels = (shift_right (lv_levels c) it (end + 1) 1)[it := level_data]
           in ((True, it),
               tt\<lparr>tt_cold := c\<lparr>lv_prices := prices, lv_levels := levels, lv_size := end + 1\<rparr>\<rparr>))"

text \<open>The loop of \<open>belongs_to_hot\<close>: the first slot with the worst price.\<close>

fun worst_scan :: "side \<Rightarrow> u32 list \<Rightarrow> nat \<Rightarrow> u32 \<Rightarrow> nat \<Rightarrow> u32 \<times> nat" where
  "worst_scan S [] i worst idx = (worst, idx)"
| "worst_scan S (p # ps) i worst idx =
     (let is_worse = better S worst p in
      worst_scan S ps (Suc i) (if is_worse then p else worst) (if is_worse then i else idx))"

definition belongs_to_hot :: "side \<Rightarrow> two_tier \<Rightarrow> u32 \<Rightarrow> bool \<times> nat" where
  "belongs_to_hot S tt price =
     (case worst_scan S (lv_prices (tt_hot tt)) 0 (BEST_POSSIBLE S) 0 of
        (worst, idx) \<Rightarrow> (better S price worst, idx))"

definition find_or_insert :: "side \<Rightarrow> two_tier \<Rightarrow> u32 \<Rightarrow> loc option \<times> two_tier" where
  "find_or_insert S tt price =
     (case tt_find S tt price of
        Some l \<Rightarrow> (Some l, tt)
      | None \<Rightarrow>
          (case belongs_to_hot S tt price of
             (False, _) \<Rightarrow>
               (case insert_to_cold S tt price LevelData_init of
                  ((False, _), _) \<Rightarrow> (None, tt)
                | ((True, i), tt') \<Rightarrow> (Some \<lparr>loc_tier = COLD, loc_idx = i\<rparr>, tt'))
           | (True, i) \<Rightarrow>
               (let level_price = lv_prices (tt_hot tt) ! i;
                    (ok, tt') =
                      (if level_price \<noteq> EMPTY S
                       then case insert_to_cold S tt level_price (lv_levels (tt_hot tt) ! i) of
                              ((done, _), tt') \<Rightarrow> (done, tt')
                       else (True, tt))
                in if \<not> ok then (None, tt)
                   else let h = tt_hot tt'; is_better = better S price (lv_best_price h);
                            h' = h\<lparr>lv_prices := (lv_prices h)[i := price],
                                   lv_levels := (lv_levels h)[i := LevelData_init],
                                   lv_best_price := (if is_better then price else lv_best_price h),
                                   lv_best_idx := (if is_better then i else lv_best_idx h)\<rparr>
                        in (Some \<lparr>loc_tier = HOT, loc_idx = i\<rparr>, tt'\<lparr>tt_hot := h'\<rparr>))))"

text \<open>The rescan of \<open>erase\<close>: the first slot with the best price.\<close>

fun best_scan :: "side \<Rightarrow> u32 list \<Rightarrow> nat \<Rightarrow> u32 \<Rightarrow> nat \<Rightarrow> u32 \<times> nat" where
  "best_scan S [] i new_best new_best_idx = (new_best, new_best_idx)"
| "best_scan S (p # ps) i new_best new_best_idx =
     (let is_better = better S p new_best in
      best_scan S ps (Suc i) (if is_better then p else new_best)
        (if is_better then i else new_best_idx))"

definition tt_erase :: "side \<Rightarrow> two_tier \<Rightarrow> u32 \<Rightarrow> two_tier" where
  "tt_erase S tt price =
     (let loc = find_idx S tt price; i = loc_idx loc; h = tt_hot tt; c = tt_cold tt in
      case loc_tier loc of
        NONE \<Rightarrow> tt
      | HOT \<Rightarrow>
          (let (h', c') =
             (if 0 < lv_size c
              then (h\<lparr>lv_prices := (lv_prices h)[i := lv_prices c ! (lv_size c - 1)],
                      lv_levels := (lv_levels h)[i := lv_levels c ! (lv_size c - 1)]\<rparr>,
                    c\<lparr>lv_size := lv_size c - 1\<rparr>)
              else (h\<lparr>lv_prices := (lv_prices h)[i := EMPTY S]\<rparr>, c));
             h'' =
             (if i = lv_best_idx h'
              then case best_scan S (lv_prices h') 0 (EMPTY S) 0 of
                     (new_best, new_best_idx) \<Rightarrow>
                       h'\<lparr>lv_best_price := new_best, lv_best_idx := new_best_idx\<rparr>
              else h')
           in \<lparr>tt_hot = h'', tt_cold = c'\<rparr>)
      | COLD \<Rightarrow>
          tt\<lparr>tt_cold := c\<lparr>lv_prices := shift_left (lv_prices c) i (lv_size c) 1,
                          lv_levels := shift_left (lv_levels c) i (lv_size c) 1,
                          lv_size := lv_size c - 1\<rparr>\<rparr>)"

definition tt_best_price :: "two_tier \<Rightarrow> u32" where
  "tt_best_price tt = lv_best_price (tt_hot tt)"

definition tt_best :: "side \<Rightarrow> two_tier \<Rightarrow> loc option" where
  "tt_best S tt = (if lv_best_price (tt_hot tt) = EMPTY S then None
     else Some \<lparr>loc_tier = HOT, loc_idx = lv_best_idx (tt_hot tt)\<rparr>)"

text \<open>Reading and writing through a \<open>LevelData *\<close>.\<close>

definition level_at :: "two_tier \<Rightarrow> loc \<Rightarrow> level_data" where
  "level_at tt l = (if loc_tier l = COLD then lv_levels (tt_cold tt) ! loc_idx l
     else lv_levels (tt_hot tt) ! loc_idx l)"

definition set_level_at :: "two_tier \<Rightarrow> loc \<Rightarrow> level_data \<Rightarrow> two_tier" where
  "set_level_at tt l d =
     (if loc_tier l = COLD
      then tt\<lparr>tt_cold := (tt_cold tt)\<lparr>lv_levels := (lv_levels (tt_cold tt))[loc_idx l := d]\<rparr>\<rparr>
      else tt\<lparr>tt_hot := (tt_hot tt)\<lparr>lv_levels := (lv_levels (tt_hot tt))[loc_idx l := d]\<rparr>\<rparr>)"

subsection \<open>Order of prices\<close>

definition rank :: "side \<Rightarrow> u32 \<Rightarrow> nat" where
  "rank S p = (if S = BID then unat p else 2 ^ 32 - 1 - unat p)"

lemma unat_u32_le: "unat (p :: u32) \<le> 2 ^ 32 - 1"
  using unsigned_less [where 'a = nat, of p] by simp

lemma rank_inj: "rank S p = rank S q \<longleftrightarrow> p = q"
  using unat_u32_le [of p] unat_u32_le [of q] by (auto simp: rank_def word_unat_eq_iff)

lemma better_rank: "better S a b \<longleftrightarrow> rank S b < rank S a"
  using unat_u32_le [of a] unat_u32_le [of b]
  by (auto simp: better_def rank_def word_less_nat_alt)

lemma comp_t_rank: "comp_t S a b \<longleftrightarrow> rank S a < rank S b"
  using unat_u32_le [of a] unat_u32_le [of b]
  by (auto simp: comp_t_def rank_def word_less_nat_alt)

lemma rank_EMPTY [simp]: "rank S (EMPTY S) = 0"
  by (simp add: rank_def EMPTY_def)

lemma rank_BEST [simp]: "rank S (BEST_POSSIBLE S) = 2 ^ 32 - 1"
  by (simp add: rank_def BEST_POSSIBLE_def)

lemma rank_le_BEST: "rank S p \<le> 2 ^ 32 - 1"
  using unat_u32_le [of p] by (simp add: rank_def)

lemma rank_0_iff: "rank S p = 0 \<longleftrightarrow> p = EMPTY S"
  using rank_inj [of S p "EMPTY S"] by simp


subsection \<open>The scans\<close>

lemma hot_index_Some:
  "hot_index ps price i = Some k \<Longrightarrow>
     i \<le> k \<and> k < i + length ps \<and> ps ! (k - i) = price \<and> (\<forall>j. j < k - i \<longrightarrow> ps ! j \<noteq> price)"
proof (induction ps arbitrary: i)
  case Nil
  then show ?case by simp
next
  case (Cons p ps)
  show ?case
  proof (cases "p = price")
    case True
    with Cons.prems show ?thesis by simp
  next
    case False
    with Cons.prems have "hot_index ps price (Suc i) = Some k" by simp
    from Cons.IH [OF this] have IH: "Suc i \<le> k \<and> k < Suc i + length ps \<and> ps ! (k - Suc i) = price
      \<and> (\<forall>j. j < k - Suc i \<longrightarrow> ps ! j \<noteq> price)" .
    then have "k - i = Suc (k - Suc i)" by (metis Suc_diff_Suc Suc_le_eq)
    moreover from IH have "i \<le> k" "k < i + length (p # ps)" by auto
    ultimately show ?thesis using IH False by (auto simp: nth_Cons split: nat.splits)
  qed
qed

lemma hot_index_None: "hot_index ps price i = None \<longleftrightarrow> price \<notin> set ps"
  by (induction ps arbitrary: i) auto

lemma worst_scan_spec:
  assumes "worst_scan S ps i w k = (w', k')"
  shows "rank S w' \<le> rank S w \<and> (\<forall>p \<in> set ps. rank S w' \<le> rank S p)
    \<and> (w' = w \<and> k' = k \<or> (\<exists>j < length ps. k' = i + j \<and> ps ! j = w'))"
  using assms
proof (induction ps arbitrary: i w k)
  case Nil
  then show ?case by simp
next
  case (Cons p ps)
  let ?w = "if better S w p then p else w"
  let ?k = "if better S w p then i else k"
  from Cons.prems have "worst_scan S ps (Suc i) ?w ?k = (w', k')"
    by (simp add: Let_def)
  from Cons.IH [OF this] have IH: "rank S w' \<le> rank S ?w" "\<forall>p \<in> set ps. rank S w' \<le> rank S p"
    "w' = ?w \<and> k' = ?k \<or> (\<exists>j < length ps. k' = Suc i + j \<and> ps ! j = w')"
    by blast+
  have "w' = w \<and> k' = k \<or> (\<exists>j < length (p # ps). k' = i + j \<and> (p # ps) ! j = w')"
    using IH(3)
  proof
    assume "w' = ?w \<and> k' = ?k"
    then show ?thesis by (cases "better S w p") (auto intro: exI [of _ 0])
  next
    assume "\<exists>j < length ps. k' = Suc i + j \<and> ps ! j = w'"
    then obtain j where "j < length ps" "k' = Suc i + j" "ps ! j = w'" by blast
    then show ?thesis by (intro disjI2 exI [of _ "Suc j"]) simp
  qed
  with IH(1,2) show ?case by (auto simp: better_rank split: if_splits)
qed

lemma best_scan_spec:
  assumes "best_scan S ps i w k = (w', k')"
  shows "rank S w \<le> rank S w' \<and> (\<forall>p \<in> set ps. rank S p \<le> rank S w')
    \<and> (w' = w \<and> k' = k \<or> (\<exists>j < length ps. k' = i + j \<and> ps ! j = w'))"
  using assms
proof (induction ps arbitrary: i w k)
  case Nil
  then show ?case by simp
next
  case (Cons p ps)
  let ?w = "if better S p w then p else w"
  let ?k = "if better S p w then i else k"
  from Cons.prems have "best_scan S ps (Suc i) ?w ?k = (w', k')"
    by (simp add: Let_def)
  from Cons.IH [OF this] have IH: "rank S ?w \<le> rank S w'" "\<forall>p \<in> set ps. rank S p \<le> rank S w'"
    "w' = ?w \<and> k' = ?k \<or> (\<exists>j < length ps. k' = Suc i + j \<and> ps ! j = w')"
    by blast+
  have "w' = w \<and> k' = k \<or> (\<exists>j < length (p # ps). k' = i + j \<and> (p # ps) ! j = w')"
    using IH(3)
  proof
    assume "w' = ?w \<and> k' = ?k"
    then show ?thesis by (cases "better S p w") (auto intro: exI [of _ 0])
  next
    assume "\<exists>j < length ps. k' = Suc i + j \<and> ps ! j = w'"
    then obtain j where "j < length ps" "k' = Suc i + j" "ps ! j = w'" by blast
    then show ?thesis by (intro disjI2 exI [of _ "Suc j"]) simp
  qed
  with IH(1,2) show ?case by (auto simp: better_rank split: if_splits)
qed

lemma worst_slot:
  assumes "ps \<noteq> []" "worst_scan S ps 0 (BEST_POSSIBLE S) 0 = (w, k)"
  shows "k < length ps" "ps ! k = w" "\<forall>p \<in> set ps. rank S w \<le> rank S p"
proof -
  note spec = worst_scan_spec [OF assms(2)]
  have first: "ps ! 0 = BEST_POSSIBLE S" if "w = BEST_POSSIBLE S"
  proof -
    have "rank S (BEST_POSSIBLE S) \<le> rank S (ps ! 0)"
      using spec that assms(1) by auto
    with rank_le_BEST [of S "ps ! 0"] show ?thesis
      by (simp flip: rank_inj [of S])
  qed
  show "k < length ps" "ps ! k = w" "\<forall>p \<in> set ps. rank S w \<le> rank S p"
    using spec first assms(1) by auto
qed

lemma best_slot:
  assumes "ps \<noteq> []" "best_scan S ps 0 (EMPTY S) 0 = (w, k)"
  shows "k < length ps" "ps ! k = w" "\<forall>p \<in> set ps. rank S p \<le> rank S w"
proof -
  note spec = best_scan_spec [OF assms(2)]
  have first: "ps ! 0 = EMPTY S" if "w = EMPTY S"
  proof -
    have "rank S (ps ! 0) \<le> rank S (EMPTY S)"
      using spec that assms(1) by auto
    then show ?thesis by (simp add: rank_0_iff)
  qed
  show "k < length ps" "ps ! k = w" "\<forall>p \<in> set ps. rank S p \<le> rank S w"
    using spec first assms(1) by auto
qed

subsection \<open>Invariant and abstraction\<close>

definition cold_inv :: "side \<Rightarrow> nat \<Rightarrow> level \<Rightarrow> bool" where
  "cold_inv S C c \<longleftrightarrow> length (lv_prices c) = C \<and> length (lv_levels c) = C \<and> lv_size c \<le> C
     \<and> (\<forall>i j. i < j \<and> j < lv_size c \<longrightarrow> rank S (lv_prices c ! i) < rank S (lv_prices c ! j))
     \<and> (\<forall>j < lv_size c. lv_prices c ! j \<noteq> EMPTY S)"

definition hot_inv :: "side \<Rightarrow> nat \<Rightarrow> level \<Rightarrow> bool" where
  "hot_inv S K h \<longleftrightarrow> 0 < K \<and> length (lv_prices h) = K \<and> length (lv_levels h) = K
     \<and> (\<forall>i < K. \<forall>j < K. lv_prices h ! i = lv_prices h ! j \<and> lv_prices h ! i \<noteq> EMPTY S \<longrightarrow> i = j)"

definition best_inv :: "side \<Rightarrow> nat \<Rightarrow> level \<Rightarrow> bool" where
  "best_inv S K h \<longleftrightarrow> lv_best_idx h < K \<and> lv_best_price h = lv_prices h ! lv_best_idx h
     \<and> (\<forall>i < K. rank S (lv_prices h ! i) \<le> rank S (lv_best_price h))"

definition tiers_ordered :: "side \<Rightarrow> nat \<Rightarrow> level \<Rightarrow> level \<Rightarrow> bool" where
  "tiers_ordered S K h c \<longleftrightarrow>
     (\<forall>i < K. \<forall>j < lv_size c. rank S (lv_prices c ! j) < rank S (lv_prices h ! i))"

definition tt_inv :: "side \<Rightarrow> nat \<Rightarrow> nat \<Rightarrow> two_tier \<Rightarrow> bool" where
  "tt_inv S K C tt \<longleftrightarrow> hot_inv S K (tt_hot tt) \<and> best_inv S K (tt_hot tt)
     \<and> cold_inv S C (tt_cold tt) \<and> tiers_ordered S K (tt_hot tt) (tt_cold tt)"

text \<open>The levels a side holds: a map from price to level data.\<close>

definition tt_map :: "side \<Rightarrow> two_tier \<Rightarrow> u32 \<Rightarrow> level_data option" where
  "tt_map S tt p =
     (if p = EMPTY S then None
      else map_of (zip (lv_prices (tt_hot tt)) (lv_levels (tt_hot tt))
        @ zip (take (lv_size (tt_cold tt)) (lv_prices (tt_cold tt)))
              (take (lv_size (tt_cold tt)) (lv_levels (tt_cold tt)))) p)"

definition hot_set :: "side \<Rightarrow> level \<Rightarrow> (u32 \<times> level_data) set" where
  "hot_set S h = {(lv_prices h ! i, lv_levels h ! i) |i.
     i < length (lv_prices h) \<and> lv_prices h ! i \<noteq> EMPTY S}"

definition cold_set :: "level \<Rightarrow> (u32 \<times> level_data) set" where
  "cold_set c = {(lv_prices c ! i, lv_levels c ! i) |i. i < lv_size c}"

lemmas tt_invs = tt_inv_def hot_inv_def best_inv_def cold_inv_def tiers_ordered_def

lemma map_of_zip_nth:
  "length xs = length ys \<Longrightarrow> map_of (zip xs ys) x = Some y \<Longrightarrow> \<exists>i < length xs. xs ! i = x \<and> ys ! i = y"
  by (auto dest!: map_of_SomeD simp: set_zip)

lemma tt_map_Some_iff:
  assumes "tt_inv S K C tt"
  shows "tt_map S tt p = Some l \<longleftrightarrow> (p, l) \<in> hot_set S (tt_hot tt) \<union> cold_set (tt_cold tt)"
proof -
  let ?h = "tt_hot tt" and ?c = "tt_cold tt"
  let ?n = "lv_size ?c"
  have len: "length (lv_prices ?h) = K" "length (lv_levels ?h) = K"
    "length (take ?n (lv_prices ?c)) = ?n" "length (take ?n (lv_levels ?c)) = ?n"
    using assms by (auto simp: tt_invs)
  have hotE: "\<exists>i < K. lv_prices ?h ! i = p \<and> lv_levels ?h ! i = l"
    if "map_of (zip (lv_prices ?h) (lv_levels ?h)) p = Some l" for p l
    using map_of_zip_nth [OF _ that] len by auto
  have hotI: "map_of (zip (lv_prices ?h) (lv_levels ?h)) (lv_prices ?h ! i) = Some (lv_levels ?h ! i)"
    if i: "i < K" and ne: "lv_prices ?h ! i \<noteq> EMPTY S" for i
  proof -
    have "lv_prices ?h ! i \<in> set (lv_prices ?h)" using len i by simp
    then obtain l where l: "map_of (zip (lv_prices ?h) (lv_levels ?h)) (lv_prices ?h ! i) = Some l"
      using map_of_zip_is_Some [of "lv_prices ?h" "lv_levels ?h"] len by auto
    then obtain j where "j < K" "lv_prices ?h ! j = lv_prices ?h ! i" "lv_levels ?h ! j = l"
      using hotE by blast
    moreover have "j = i" using calculation assms i ne by (auto simp: tt_invs)
    ultimately show ?thesis using l by simp
  qed
  have coldE: "\<exists>i < ?n. lv_prices ?c ! i = p \<and> lv_levels ?c ! i = l"
    if "map_of (zip (take ?n (lv_prices ?c)) (take ?n (lv_levels ?c))) p = Some l" for p l
    using map_of_zip_nth [OF _ that] len by auto
  have coldI: "map_of (zip (take ?n (lv_prices ?c)) (take ?n (lv_levels ?c))) (lv_prices ?c ! i)
      = Some (lv_levels ?c ! i)" if i: "i < ?n" for i
  proof -
    have "take ?n (lv_prices ?c) ! i \<in> set (take ?n (lv_prices ?c))"
      using i len by (intro nth_mem) simp
    then have "lv_prices ?c ! i \<in> set (take ?n (lv_prices ?c))" using i by simp
    then obtain l where l: "map_of (zip (take ?n (lv_prices ?c)) (take ?n (lv_levels ?c)))
        (lv_prices ?c ! i) = Some l"
      using map_of_zip_is_Some [of "take ?n (lv_prices ?c)" "take ?n (lv_levels ?c)"] len by auto
    then obtain j where j: "j < ?n" "lv_prices ?c ! j = lv_prices ?c ! i" "lv_levels ?c ! j = l"
      using coldE by blast
    have "\<forall>i j. i < j \<and> j < ?n \<longrightarrow> rank S (lv_prices ?c ! i) < rank S (lv_prices ?c ! j)"
      using assms by (simp add: tt_invs)
    then have "j = i" using j i by (metis less_irrefl linorder_neqE_nat)
    with l j show ?thesis by simp
  qed
  have hotN: "map_of (zip (lv_prices ?h) (lv_levels ?h)) (lv_prices ?c ! i) = None" if "i < ?n" for i
  proof (rule ccontr)
    assume "\<not> ?thesis"
    then obtain l where "map_of (zip (lv_prices ?h) (lv_levels ?h)) (lv_prices ?c ! i) = Some l"
      by auto
    then obtain j where "j < K" "lv_prices ?h ! j = lv_prices ?c ! i" using hotE by blast
    moreover have "rank S (lv_prices ?c ! i) < rank S (lv_prices ?h ! j)"
      using assms that calculation(1) unfolding tt_inv_def tiers_ordered_def by blast
    ultimately show False by simp
  qed
  have coldne: "lv_prices ?c ! i \<noteq> EMPTY S" if "i < ?n" for i
    using assms that by (simp add: tt_invs)
  show ?thesis
  proof
    assume "tt_map S tt p = Some l"
    then have ne: "p \<noteq> EMPTY S" and
      "map_of (zip (lv_prices ?h) (lv_levels ?h)) p = Some l \<or>
       map_of (zip (take ?n (lv_prices ?c)) (take ?n (lv_levels ?c))) p = Some l"
      by (auto simp: tt_map_def map_add_Some_iff split: if_splits)
    then have "(\<exists>i < K. lv_prices ?h ! i = p \<and> lv_levels ?h ! i = l)
      \<or> (\<exists>i < ?n. lv_prices ?c ! i = p \<and> lv_levels ?c ! i = l)"
      using hotE coldE by blast
    with ne len(1) show "(p, l) \<in> hot_set S ?h \<union> cold_set ?c"
      unfolding hot_set_def cold_set_def by auto
  next
    assume "(p, l) \<in> hot_set S ?h \<union> cold_set ?c"
    then consider i where "i < K" "p = lv_prices ?h ! i" "l = lv_levels ?h ! i" "p \<noteq> EMPTY S"
      | i where "i < ?n" "p = lv_prices ?c ! i" "l = lv_levels ?c ! i"
      using len(1) unfolding hot_set_def cold_set_def by blast
    then show "tt_map S tt p = Some l"
    proof cases
      case 1
      then show ?thesis using hotI [of i] by (simp add: tt_map_def map_add_def)
    next
      case 2
      then show ?thesis
        using coldI [of i] hotN [of i] coldne [of i] by (simp add: tt_map_def map_add_def)
    qed
  qed
qed

subsection \<open>Lookup\<close>

lemma cold_lower_bound:
  fixes p :: u32
  assumes "cold_inv S C c"
  defines "r \<equiv> lower_bound (comp_t S) (lv_prices c) (lv_size c) p"
  shows "r \<le> lv_size c" "\<And>i. i < r \<Longrightarrow> rank S (lv_prices c ! i) < rank S p"
    "\<And>i. r \<le> i \<Longrightarrow> i < lv_size c \<Longrightarrow> rank S p \<le> rank S (lv_prices c ! i)"
proof -
  have "\<And>i j. i < j \<Longrightarrow> j < 0 + lv_size c \<Longrightarrow> comp_t S (lv_prices c ! j) p \<Longrightarrow> comp_t S (lv_prices c ! i) p"
    using assms(1) by (fastforce simp: cold_inv_def comp_t_rank)
  then have spec: "0 \<le> r \<and> r \<le> 0 + lv_size c \<and> (\<forall>i. 0 \<le> i \<and> i < r \<longrightarrow> comp_t S (lv_prices c ! i) p)
      \<and> (\<forall>i. r \<le> i \<and> i < 0 + lv_size c \<longrightarrow> \<not> comp_t S (lv_prices c ! i) p)"
    unfolding r_def lower_bound_def by (intro partition_search_spec) blast
  show "r \<le> lv_size c" "\<And>i. i < r \<Longrightarrow> rank S (lv_prices c ! i) < rank S p"
    "\<And>i. r \<le> i \<Longrightarrow> i < lv_size c \<Longrightarrow> rank S p \<le> rank S (lv_prices c ! i)"
    using spec by (auto simp: comp_t_rank not_less)
qed

lemma cold_upper_bound:
  fixes p :: u32
  assumes "cold_inv S C c"
  defines "r \<equiv> upper_bound (comp_t S) (lv_prices c) (lv_size c) p"
  shows "r \<le> lv_size c" "\<And>i. i < r \<Longrightarrow> rank S (lv_prices c ! i) \<le> rank S p"
    "\<And>i. r \<le> i \<Longrightarrow> i < lv_size c \<Longrightarrow> rank S p < rank S (lv_prices c ! i)"
proof -
  have "\<And>i j. i < j \<Longrightarrow> j < 0 + lv_size c \<Longrightarrow> \<not> comp_t S p (lv_prices c ! j) \<Longrightarrow> \<not> comp_t S p (lv_prices c ! i)"
    using assms(1) by (fastforce simp: cold_inv_def comp_t_rank)
  then have spec: "0 \<le> r \<and> r \<le> 0 + lv_size c \<and> (\<forall>i. 0 \<le> i \<and> i < r \<longrightarrow> \<not> comp_t S p (lv_prices c ! i))
      \<and> (\<forall>i. r \<le> i \<and> i < 0 + lv_size c \<longrightarrow> \<not> \<not> comp_t S p (lv_prices c ! i))"
    unfolding r_def upper_bound_def by (intro partition_search_spec) blast
  show "r \<le> lv_size c" "\<And>i. i < r \<Longrightarrow> rank S (lv_prices c ! i) \<le> rank S p"
    "\<And>i. r \<le> i \<Longrightarrow> i < lv_size c \<Longrightarrow> rank S p < rank S (lv_prices c ! i)"
    using spec by (auto simp: comp_t_rank not_less)
qed

lemma find_idx_cases:
  assumes inv: "tt_inv S K C tt"
  obtains (hot) i where "find_idx S tt p = \<lparr>loc_tier = HOT, loc_idx = i\<rparr>" "i < K"
      "lv_prices (tt_hot tt) ! i = p"
  | (cold) i where "find_idx S tt p = \<lparr>loc_tier = COLD, loc_idx = i\<rparr>" "i < lv_size (tt_cold tt)"
      "lv_prices (tt_cold tt) ! i = p" "p \<notin> set (lv_prices (tt_hot tt))"
  | (none) "find_idx S tt p = \<lparr>loc_tier = NONE, loc_idx = 0\<rparr>" "p \<notin> set (lv_prices (tt_hot tt))"
      "\<forall>i < lv_size (tt_cold tt). lv_prices (tt_cold tt) ! i \<noteq> p"
proof (cases "hot_index (lv_prices (tt_hot tt)) p 0")
  case (Some i)
  have "length (lv_prices (tt_hot tt)) = K" using inv by (simp add: tt_invs)
  then show ?thesis
    using hot_index_Some [OF Some] Some by (intro hot [of i]) (auto simp: find_idx_def)
next
  case None
  let ?c = "tt_cold tt"
  let ?r = "lower_bound (comp_t S) (lv_prices ?c) (lv_size ?c) p"
  have nh: "p \<notin> set (lv_prices (tt_hot tt))" using None hot_index_None by metis
  have ci: "cold_inv S C ?c" using inv by (simp add: tt_inv_def)
  note lb = cold_lower_bound [OF ci, where p = p]
  show ?thesis
  proof (cases "?r = lv_size ?c \<or> lv_prices ?c ! ?r \<noteq> p")
    case True
    have "lv_prices ?c ! i \<noteq> p" if i: "i < lv_size ?c" for i
    proof (cases "i < ?r")
      case True
      then show ?thesis using lb(2) by fastforce
    next
      case False
      with i lb(1) True have "lv_prices ?c ! ?r \<noteq> p" "?r < lv_size ?c" by auto
      moreover have "rank S (lv_prices ?c ! ?r) \<le> rank S (lv_prices ?c ! i)"
        using ci i False by (cases "i = ?r") (auto simp: cold_inv_def less_imp_le)
      moreover have "rank S p \<le> rank S (lv_prices ?c ! ?r)"
        using lb(3) calculation(2) by simp
      ultimately show ?thesis using rank_inj [of S] by (metis le_antisym)
    qed
    then show ?thesis using None True nh by (intro none) (auto simp: find_idx_def Let_def)
  next
    case False
    then show ?thesis
      using None nh lb(1) by (intro cold [of ?r]) (auto simp: find_idx_def Let_def)
  qed
qed

lemma tt_find_map:
  assumes inv: "tt_inv S K C tt" and p: "p \<noteq> EMPTY S"
  shows "tt_map S tt p = map_option (level_at tt) (tt_find S tt p)"
proof -
  have len: "length (lv_prices (tt_hot tt)) = K" using inv by (simp add: tt_invs)
  show ?thesis
  proof (cases rule: find_idx_cases [OF inv, of p, case_names hot cold none])
    case (hot i)
    then have "(p, lv_levels (tt_hot tt) ! i) \<in> hot_set S (tt_hot tt) \<union> cold_set (tt_cold tt)"
      using len p by (auto simp: hot_set_def)
    then show ?thesis
      using hot tt_map_Some_iff [OF inv] by (simp add: tt_find_def level_at_def)
  next
    case (cold i)
    then have "(p, lv_levels (tt_cold tt) ! i) \<in> hot_set S (tt_hot tt) \<union> cold_set (tt_cold tt)"
      by (auto simp: cold_set_def)
    then show ?thesis
      using cold tt_map_Some_iff [OF inv] by (simp add: tt_find_def level_at_def)
  next
    case none
    then have "\<And>l. (p, l) \<notin> hot_set S (tt_hot tt) \<union> cold_set (tt_cold tt)"
      by (auto simp: hot_set_def cold_set_def)
    then have "tt_map S tt p = None"
      using tt_map_Some_iff [OF inv] by (cases "tt_map S tt p") auto
    then show ?thesis using none by (simp add: tt_find_def)
  qed
qed

subsection \<open>Insertion into the cold tier\<close>

lemma insert_to_cold_spec:
  assumes ci: "cold_inv S C (tt_cold tt)"
    and new: "\<forall>i < lv_size (tt_cold tt). lv_prices (tt_cold tt) ! i \<noteq> p" and p: "p \<noteq> EMPTY S"
    and room: "lv_size (tt_cold tt) < C"
  obtains i c' where "insert_to_cold S tt p d = ((True, i), tt\<lparr>tt_cold := c'\<rparr>)"
    "cold_inv S C c'" "lv_size c' = Suc (lv_size (tt_cold tt))" "i < lv_size c'"
    "lv_prices c' ! i = p" "lv_levels c' ! i = d"
    "cold_set c' = insert (p, d) (cold_set (tt_cold tt))"
    "\<And>j. j < lv_size c' \<Longrightarrow> lv_prices c' ! j = p
       \<or> (\<exists>k < lv_size (tt_cold tt). lv_prices c' ! j = lv_prices (tt_cold tt) ! k)"
proof -
  let ?c = "tt_cold tt"
  let ?n = "lv_size ?c"
  let ?r = "upper_bound (comp_t S) (lv_prices ?c) ?n p"
  let ?ps = "(shift_right (lv_prices ?c) ?r (?n + 1) 1)[?r := p]"
  let ?ls = "(shift_right (lv_levels ?c) ?r (?n + 1) 1)[?r := d]"
  let ?c' = "?c\<lparr>lv_prices := ?ps, lv_levels := ?ls, lv_size := ?n + 1\<rparr>"
  note ub = cold_upper_bound [OF ci, where p = p]
  have lp: "length (lv_prices ?c) = C" and ll: "length (lv_levels ?c) = C"
    and mono: "\<And>i j. i < j \<Longrightarrow> j < ?n \<Longrightarrow> rank S (lv_prices ?c ! i) < rank S (lv_prices ?c ! j)"
    and ne: "\<And>j. j < ?n \<Longrightarrow> lv_prices ?c ! j \<noteq> EMPTY S"
    using ci by (auto simp: cold_inv_def)
  have below: "rank S (lv_prices ?c ! i) < rank S p" if "i < ?r" for i
  proof -
    have "lv_prices ?c ! i \<noteq> p" using new that ub(1) by simp
    with ub(2) [OF that] rank_inj [of S "lv_prices ?c ! i" p] show ?thesis by simp
  qed
  have ps: "?ps ! j = (if j < ?r then lv_prices ?c ! j else if j = ?r then p else lv_prices ?c ! (j - 1))"
    if "j < ?n + 1" for j
    using that room ub(1) lp by (auto simp: nth_list_update nth_shift_right_1)
  have ls: "?ls ! j = (if j < ?r then lv_levels ?c ! j else if j = ?r then d else lv_levels ?c ! (j - 1))"
    if "j < ?n + 1" for j
    using that room ub(1) ll by (auto simp: nth_list_update nth_shift_right_1)
  have eq: "insert_to_cold S tt p d = ((True, ?r), tt\<lparr>tt_cold := ?c'\<rparr>)"
    using room lp by (simp add: insert_to_cold_def Let_def)
  have mono': "rank S (?ps ! i) < rank S (?ps ! j)" if "i < j" "j < ?n + 1" for i j
    using that ps [of i] ps [of j] mono [of i j] mono [of i "j - 1"] mono [of "i - 1" "j - 1"]
      below [of i] ub(3) [of "j - 1"] ub(1) by (cases "j < ?r"; cases "j = ?r"; cases "i < ?r") auto
  have inv': "cold_inv S C ?c'"
    using room lp ll ub(1) mono' ps ne p by (auto simp: cold_inv_def)
  have set': "cold_set ?c' = insert (p, d) (cold_set ?c)"
  proof (rule set_eqI)
    fix x
    have "x \<in> cold_set ?c' \<longleftrightarrow> (\<exists>j < ?n + 1. x = (?ps ! j, ?ls ! j))"
      by (auto simp: cold_set_def)
    also have "\<dots> \<longleftrightarrow> x = (p, d) \<or> (\<exists>j < ?n. x = (lv_prices ?c ! j, lv_levels ?c ! j))"
    proof
      assume "\<exists>j < ?n + 1. x = (?ps ! j, ?ls ! j)"
      then obtain j where j: "j < ?n + 1" "x = (?ps ! j, ?ls ! j)" by blast
      then show "x = (p, d) \<or> (\<exists>j < ?n. x = (lv_prices ?c ! j, lv_levels ?c ! j))"
        using ps [of j] ls [of j] ub(1)
        by (cases "j < ?r"; cases "j = ?r") (auto intro: exI [of _ j] exI [of _ "j - 1"])
    next
      assume "x = (p, d) \<or> (\<exists>j < ?n. x = (lv_prices ?c ! j, lv_levels ?c ! j))"
      then show "\<exists>j < ?n + 1. x = (?ps ! j, ?ls ! j)"
      proof
        assume "x = (p, d)"
        then show ?thesis using ps [of ?r] ls [of ?r] ub(1) by (intro exI [of _ ?r]) auto
      next
        assume "\<exists>j < ?n. x = (lv_prices ?c ! j, lv_levels ?c ! j)"
        then obtain j where j: "j < ?n" "x = (lv_prices ?c ! j, lv_levels ?c ! j)" by blast
        then show ?thesis
          using ps [of j] ls [of j] ps [of "Suc j"] ls [of "Suc j"]
          by (cases "j < ?r") (auto intro: exI [of _ j] exI [of _ "Suc j"])
      qed
    qed
    finally show "x \<in> cold_set ?c' \<longleftrightarrow> x \<in> insert (p, d) (cold_set ?c)"
      by (auto simp: cold_set_def)
  qed
  have old: "?ps ! j = p \<or> (\<exists>k < ?n. ?ps ! j = lv_prices ?c ! k)" if "j < ?n + 1" for j
  proof -
    have "(?ps ! j, ?ls ! j) \<in> cold_set ?c'" using that by (auto simp: cold_set_def)
    then show ?thesis unfolding set' by (auto simp: cold_set_def)
  qed
  show thesis
    using that [OF eq inv'] set' old ps [of ?r] ls [of ?r] ub(1) by simp
qed

subsection \<open>Writing through a level pointer\<close>

lemma tt_find_loc:
  assumes "tt_inv S K C tt" "tt_find S tt p = Some l"
  shows "loc_tier l = HOT \<and> loc_idx l < K \<and> lv_prices (tt_hot tt) ! loc_idx l = p
    \<or> loc_tier l = COLD \<and> loc_idx l < lv_size (tt_cold tt) \<and> lv_prices (tt_cold tt) ! loc_idx l = p"
  using assms
  by (cases rule: find_idx_cases [OF assms(1), of p, case_names hot cold none])
    (auto simp: tt_find_def)

text \<open>\<open>tt_ptr S tt p l\<close>: the pointer \<open>l\<close> is the level of price \<open>p\<close>.\<close>

definition tt_ptr :: "nat \<Rightarrow> two_tier \<Rightarrow> u32 \<Rightarrow> loc \<Rightarrow> bool" where
  "tt_ptr K tt p l \<longleftrightarrow> loc_tier l = HOT \<and> loc_idx l < K \<and> lv_prices (tt_hot tt) ! loc_idx l = p
    \<or> loc_tier l = COLD \<and> loc_idx l < lv_size (tt_cold tt) \<and> lv_prices (tt_cold tt) ! loc_idx l = p"

lemma hot_set_iff: "(q, e) \<in> hot_set S h \<longleftrightarrow>
    (\<exists>i < length (lv_prices h). q = lv_prices h ! i \<and> e = lv_levels h ! i \<and> q \<noteq> EMPTY S)"
  by (auto simp: hot_set_def)

lemma cold_set_iff: "(q, e) \<in> cold_set c \<longleftrightarrow>
    (\<exists>i < lv_size c. q = lv_prices c ! i \<and> e = lv_levels c ! i)"
  by (auto simp: cold_set_def)

lemma set_level_at_inv:
  assumes "tt_inv S K C tt"
  shows "tt_inv S K C (set_level_at tt l d)"
  using assms by (auto simp: set_level_at_def tt_invs)

lemma set_level_at_map:
  assumes inv: "tt_inv S K C tt" and l: "tt_ptr K tt p l" and p: "p \<noteq> EMPTY S"
  shows "tt_map S (set_level_at tt l d) = (tt_map S tt)(p \<mapsto> d)"
proof -
  let ?tt = "set_level_at tt l d"
  note inv' = set_level_at_inv [OF inv, of l d]
  have len: "length (lv_prices (tt_hot tt)) = K" "length (lv_levels (tt_hot tt)) = K"
    "length (lv_levels (tt_cold tt)) = C" "lv_size (tt_cold tt) \<le> C"
    and hotd: "\<And>i j. i < K \<Longrightarrow> j < K \<Longrightarrow> lv_prices (tt_hot tt) ! i = lv_prices (tt_hot tt) ! j \<Longrightarrow>
      lv_prices (tt_hot tt) ! i \<noteq> EMPTY S \<Longrightarrow> i = j"
    and coldd: "\<And>i j. i < j \<Longrightarrow> j < lv_size (tt_cold tt) \<Longrightarrow>
      rank S (lv_prices (tt_cold tt) ! i) < rank S (lv_prices (tt_cold tt) ! j)"
    and cross: "\<And>i j. i < K \<Longrightarrow> j < lv_size (tt_cold tt) \<Longrightarrow>
      rank S (lv_prices (tt_cold tt) ! j) < rank S (lv_prices (tt_hot tt) ! i)"
    using inv by (auto simp: tt_invs)
  have same: "(q, e) \<in> hot_set S (tt_hot ?tt) \<union> cold_set (tt_cold ?tt)
     \<longleftrightarrow> (if q = p then e = d else (q, e) \<in> hot_set S (tt_hot tt) \<union> cold_set (tt_cold tt))" for q e
    using l [unfolded tt_ptr_def]
  proof
    assume h: "loc_tier l = HOT \<and> loc_idx l < K \<and> lv_prices (tt_hot tt) ! loc_idx l = p"
    have ex: "(q, e) \<in> hot_set S (tt_hot ?tt) \<longleftrightarrow> (\<exists>i < K. q = lv_prices (tt_hot tt) ! i
        \<and> e = (if loc_idx l = i then d else lv_levels (tt_hot tt) ! i) \<and> q \<noteq> EMPTY S)"
      using h len by (simp add: hot_set_iff set_level_at_def nth_list_update cong: conj_cong)
    have uniq: "i = loc_idx l" if "i < K" "lv_prices (tt_hot tt) ! i = p" for i
      using hotd [of i "loc_idx l"] that h p by simp
    have "(q, e) \<in> hot_set S (tt_hot ?tt) \<longleftrightarrow>
      (if q = p then e = d else (q, e) \<in> hot_set S (tt_hot tt))"
    proof (cases "q = p")
      case True
      then show ?thesis unfolding ex using uniq h p by metis
    next
      case False
      then have "loc_idx l \<noteq> i" if "q = lv_prices (tt_hot tt) ! i" for i using that h by auto
      with False len(1) show ?thesis unfolding ex by (simp add: hot_set_iff cong: conj_cong)
    qed
    moreover have "(p, x) \<notin> cold_set (tt_cold tt)" for x
      using cross [of "loc_idx l"] h by (fastforce simp: cold_set_def)
    ultimately show ?thesis using h by (auto simp: set_level_at_def)
  next
    assume c: "loc_tier l = COLD \<and> loc_idx l < lv_size (tt_cold tt)
      \<and> lv_prices (tt_cold tt) ! loc_idx l = p"
    have ex: "(q, e) \<in> cold_set (tt_cold ?tt) \<longleftrightarrow> (\<exists>i < lv_size (tt_cold tt).
        q = lv_prices (tt_cold tt) ! i \<and> e = (if loc_idx l = i then d else lv_levels (tt_cold tt) ! i))"
      using c len by (simp add: cold_set_iff set_level_at_def nth_list_update cong: conj_cong)
    have uniq: "i = loc_idx l" if "i < lv_size (tt_cold tt)" "lv_prices (tt_cold tt) ! i = p" for i
      using coldd [of i "loc_idx l"] coldd [of "loc_idx l" i] that c
      by (metis less_irrefl linorder_neqE_nat)
    have "(q, e) \<in> cold_set (tt_cold ?tt) \<longleftrightarrow>
      (if q = p then e = d else (q, e) \<in> cold_set (tt_cold tt))"
    proof (cases "q = p")
      case True
      then show ?thesis unfolding ex using uniq c by metis
    next
      case False
      then have "loc_idx l \<noteq> i" if "q = lv_prices (tt_cold tt) ! i" for i using that c by auto
      with False show ?thesis unfolding ex by (simp add: cold_set_iff cong: conj_cong)
    qed
    moreover have "(p, x) \<notin> hot_set S (tt_hot tt)" for x
      using cross [of _ "loc_idx l"] c len by (fastforce simp: hot_set_def)
    ultimately show ?thesis using c by (auto simp: set_level_at_def)
  qed
  show ?thesis
  proof
    fix q
    have "tt_map S ?tt q = Some e \<longleftrightarrow> ((tt_map S tt)(p \<mapsto> d)) q = Some e" for e
      using same tt_map_Some_iff [OF inv] tt_map_Some_iff [OF inv'] by auto
    then show "tt_map S ?tt q = ((tt_map S tt)(p \<mapsto> d)) q"
      by (metis not_Some_eq)
  qed
qed

lemma level_at_map:
  assumes "tt_inv S K C tt" "tt_ptr K tt p l" "p \<noteq> EMPTY S"
  shows "tt_map S tt p = Some (level_at tt l)"
proof -
  have "(p, level_at tt l) \<in> hot_set S (tt_hot tt) \<union> cold_set (tt_cold tt)"
    using assms by (auto simp: tt_ptr_def level_at_def hot_set_def cold_set_def tt_invs)
  then show ?thesis using tt_map_Some_iff [OF assms(1)] by simp
qed

subsection \<open>Replacing a hot slot\<close>

lemma tt_map_eqI:
  assumes "tt_inv S K C tt"
    and "\<And>q e. (q, e) \<in> hot_set S (tt_hot tt) \<union> cold_set (tt_cold tt) \<longleftrightarrow> m q = Some e"
  shows "tt_map S tt = m"
proof
  fix q
  have "tt_map S tt q = Some e \<longleftrightarrow> m q = Some e" for e
    using assms(2) tt_map_Some_iff [OF assms(1)] by simp
  then show "tt_map S tt q = m q" by (metis not_Some_eq)
qed

lemma tt_map_NoneD:
  assumes "tt_inv S K C tt" "tt_map S tt p = None"
  shows "(p, e) \<notin> hot_set S (tt_hot tt)" "(p, e) \<notin> cold_set (tt_cold tt)"
  using assms(2) tt_map_Some_iff [OF assms(1), of p e] by auto

lemma hot_replace:
  assumes inv: "hot_inv S K h" and i: "i < K"
    and new: "p = EMPTY S \<or> p \<notin> set (lv_prices h)"
    and h': "lv_prices h' = (lv_prices h)[i := p]"
      "lv_levels h' = (lv_levels h)[i := d] \<or> p = EMPTY S \<and> lv_levels h' = lv_levels h"
  shows "hot_inv S K h'"
    and "hot_set S h' = (if p = EMPTY S then {} else {(p, d)}) \<union> (hot_set S h - {(lv_prices h ! i, lv_levels h ! i)})"
proof -
  have len: "length (lv_prices h) = K" "length (lv_levels h) = K"
    and uniq: "\<And>j k. j < K \<Longrightarrow> k < K \<Longrightarrow> lv_prices h ! j = lv_prices h ! k \<Longrightarrow>
      lv_prices h ! j \<noteq> EMPTY S \<Longrightarrow> j = k"
    using inv by (auto simp: hot_inv_def)
  have nin: "lv_prices h ! j \<noteq> p" if "j < K" "p \<noteq> EMPTY S" for j
    using new that len(1) nth_mem by metis
  have len': "length (lv_levels h') = K" using h'(2) len by auto
  show "hot_inv S K h'"
    unfolding hot_inv_def
    using inv len len' i nin uniq
    by (auto simp: hot_inv_def h'(1) nth_list_update)
  have lv: "lv_levels h' ! j = lv_levels h ! j" if "j \<noteq> i" for j
    using h'(2) that by auto
  show "hot_set S h' = (if p = EMPTY S then {} else {(p, d)}) \<union> (hot_set S h - {(lv_prices h ! i, lv_levels h ! i)})"
  proof (rule set_eqI, clarify)
    fix q e
    have "(q, e) \<in> hot_set S h' \<longleftrightarrow> (\<exists>j < K. q = (lv_prices h)[i := p] ! j \<and> e = lv_levels h' ! j \<and> q \<noteq> EMPTY S)"
      by (simp add: hot_set_iff h'(1) len)
    also have "\<dots> \<longleftrightarrow> (q = p \<and> e = d \<and> p \<noteq> EMPTY S) \<or>
        (\<exists>j < K. j \<noteq> i \<and> q = lv_prices h ! j \<and> e = lv_levels h ! j \<and> q \<noteq> EMPTY S)" (is "_ \<longleftrightarrow> ?R")
    proof
      assume "\<exists>j < K. q = (lv_prices h)[i := p] ! j \<and> e = lv_levels h' ! j \<and> q \<noteq> EMPTY S"
      then obtain j where j: "j < K" "q = (lv_prices h)[i := p] ! j" "e = lv_levels h' ! j" "q \<noteq> EMPTY S"
        by blast
      show ?R
      proof (cases "j = i")
        case True
        then show ?thesis using j i len h'(2) by auto
      next
        case False
        then show ?thesis using j lv by auto
      qed
    next
      assume ?R
      then show "\<exists>j < K. q = (lv_prices h)[i := p] ! j \<and> e = lv_levels h' ! j \<and> q \<noteq> EMPTY S"
      proof
        assume "q = p \<and> e = d \<and> p \<noteq> EMPTY S"
        then show ?thesis using i len h'(2) by (intro exI [of _ i]) auto
      next
        assume "\<exists>j < K. j \<noteq> i \<and> q = lv_prices h ! j \<and> e = lv_levels h ! j \<and> q \<noteq> EMPTY S"
        then obtain j where "j < K" "j \<noteq> i" "q = lv_prices h ! j" "e = lv_levels h ! j" "q \<noteq> EMPTY S"
          by blast
        then show ?thesis using lv by (intro exI [of _ j]) auto
      qed
    qed
    also have "(\<exists>j < K. j \<noteq> i \<and> q = lv_prices h ! j \<and> e = lv_levels h ! j \<and> q \<noteq> EMPTY S) \<longleftrightarrow>
        (q, e) \<in> hot_set S h - {(lv_prices h ! i, lv_levels h ! i)}"
    proof -
      have "q \<noteq> lv_prices h ! i" if "j < K" "j \<noteq> i" "q = lv_prices h ! j" "q \<noteq> EMPTY S" for j
        using uniq [of j i] that i by auto
      then show ?thesis by (auto simp: hot_set_iff len)
    qed
    finally show "(q, e) \<in> hot_set S h' \<longleftrightarrow> (q, e) \<in> (if p = EMPTY S then {} else {(p, d)}) \<union>
        (hot_set S h - {(lv_prices h ! i, lv_levels h ! i)})"
      by auto
  qed
qed

lemma EMPTY_notin_hot_set [simp]: "(EMPTY S, e) \<notin> hot_set S h"
  by (simp add: hot_set_iff)

lemma hot_EMPTY_cold_empty:
  assumes "tiers_ordered S K h c" "i < K" "lv_prices h ! i = EMPTY S"
  shows "lv_size c = 0"
  using assms by (fastforce simp: tiers_ordered_def)

subsection \<open>find\_or\_insert\<close>

lemma tt_find_None:
  assumes "tt_inv S K C tt" "tt_find S tt p = None"
  shows "p \<notin> set (lv_prices (tt_hot tt))" "\<forall>i < lv_size (tt_cold tt). lv_prices (tt_cold tt) ! i \<noteq> p"
  using assms
  by (cases rule: find_idx_cases [OF assms(1), of p, case_names hot cold none]; auto simp: tt_find_def)+

lemma insert_cold_only:
  assumes inv: "tt_inv S K C tt" and p: "p \<noteq> EMPTY S" and none: "tt_find S tt p = None"
    and low: "\<forall>i < K. rank S p \<le> rank S (lv_prices (tt_hot tt) ! i)"
    and room: "lv_size (tt_cold tt) < C"
    and ins: "insert_to_cold S tt p d = ((ok, i), tt')"
  shows "ok \<and> tt_inv S K C tt' \<and> tt_ptr K tt' p \<lparr>loc_tier = COLD, loc_idx = i\<rparr>
    \<and> tt_map S tt' = (tt_map S tt)(p \<mapsto> d)"
proof -
  note nf = tt_find_None [OF inv none]
  have ci: "cold_inv S C (tt_cold tt)" and len: "length (lv_prices (tt_hot tt)) = K"
    using inv by (simp_all add: tt_invs)
  obtain c' where ok: "ok" and tt': "tt' = tt\<lparr>tt_cold := c'\<rparr>" and c': "cold_inv S C c'" "i < lv_size c'"
    "lv_prices c' ! i = p" "cold_set c' = insert (p, d) (cold_set (tt_cold tt))"
    and old: "\<And>j. j < lv_size c' \<Longrightarrow> lv_prices c' ! j = p
       \<or> (\<exists>k < lv_size (tt_cold tt). lv_prices c' ! j = lv_prices (tt_cold tt) ! k)"
  proof (rule insert_to_cold_spec [OF ci nf(2) p room, of d])
    fix j c'
    assume a: "insert_to_cold S tt p d = ((True, j), tt\<lparr>tt_cold := c'\<rparr>)"
      "cold_inv S C c'" "j < lv_size c'" "lv_prices c' ! j = p"
      "cold_set c' = insert (p, d) (cold_set (tt_cold tt))"
      "\<And>j. j < lv_size c' \<Longrightarrow> lv_prices c' ! j = p
         \<or> (\<exists>k < lv_size (tt_cold tt). lv_prices c' ! j = lv_prices (tt_cold tt) ! k)"
    show thesis
      by (rule that [of c']) (use a ins in auto)
  qed
  have lt: "rank S p < rank S (lv_prices (tt_hot tt) ! j)" if "j < K" for j
  proof -
    have "lv_prices (tt_hot tt) ! j \<noteq> p" using nf(1) that len nth_mem by metis
    with low that rank_inj [of S p "lv_prices (tt_hot tt) ! j"] show ?thesis
      by (auto simp: le_less)
  qed
  have "tiers_ordered S K (tt_hot tt) c'"
    unfolding tiers_ordered_def
  proof (intro allI impI)
    fix j k
    assume "j < K" "k < lv_size c'"
    then show "rank S (lv_prices c' ! k) < rank S (lv_prices (tt_hot tt) ! j)"
      using old [of k] lt [of j] inv by (auto simp: tt_inv_def tiers_ordered_def)
  qed
  then have inv': "tt_inv S K C tt'" using inv c' tt' by (simp add: tt_inv_def)
  have "tt_map S tt p = None" using tt_find_map [OF inv p] none by simp
  then have "tt_map S tt' = (tt_map S tt)(p \<mapsto> d)"
    using tt_map_Some_iff [OF inv] tt_map_NoneD [OF inv]
    by (intro tt_map_eqI [OF inv']) (auto simp: tt' c')
  with inv' ok c' tt' show ?thesis by (simp add: tt_ptr_def)
qed

lemma insert_hot_slot:
  fixes d :: level_data
  assumes inv: "tt_inv S K C tt" and p: "p \<noteq> EMPTY S" "p \<notin> set (lv_prices (tt_hot tt))"
    and i: "i < K" and worst: "\<forall>j < K. rank S (lv_prices (tt_hot tt) ! i) \<le> rank S (lv_prices (tt_hot tt) ! j)"
    and bet: "rank S (lv_prices (tt_hot tt) ! i) < rank S p"
    and c': "cold_inv S C c'"
      "cold_set c' = (hot_set S (tt_hot tt) \<inter> {(lv_prices (tt_hot tt) ! i, lv_levels (tt_hot tt) ! i)}) \<union> cold_set (tt_cold tt)"
    and none: "tt_map S tt p = None"
  defines "h \<equiv> tt_hot tt"
  defines "h' \<equiv> h\<lparr>lv_prices := (lv_prices h)[i := p], lv_levels := (lv_levels h)[i := d],
      lv_best_price := (if better S p (lv_best_price h) then p else lv_best_price h),
      lv_best_idx := (if better S p (lv_best_price h) then i else lv_best_idx h)\<rparr>"
  shows "tt_inv S K C (tt\<lparr>tt_cold := c', tt_hot := h'\<rparr>)
    \<and> tt_map S (tt\<lparr>tt_cold := c', tt_hot := h'\<rparr>) = (tt_map S tt)(p \<mapsto> d)"
proof -
  let ?tt = "tt\<lparr>tt_cold := c', tt_hot := h'\<rparr>"
  have hi: "hot_inv S K h" and bi: "best_inv S K h" and len: "length (lv_prices h) = K"
    using inv by (auto simp: tt_invs h_def)
  have rep: "hot_inv S K h'"
    "hot_set S h' = (if p = EMPTY S then {} else {(p, d)}) \<union> (hot_set S h - {(lv_prices h ! i, lv_levels h ! i)})"
    using hot_replace [OF hi i, of p h' d] p by (auto simp: h'_def h_def)
  have best: "best_inv S K h'"
    using bi i len worst bet unfolding h_def [symmetric]
    by (auto simp: best_inv_def h'_def nth_list_update better_rank not_less less_imp_le intro: le_less_trans)
  have cold: "rank S q < rank S (lv_prices h' ! j)" if "(q, e) \<in> cold_set c'" "j < K" for q e j
  proof -
    have "rank S q \<le> rank S (lv_prices h ! i) \<and> (q \<noteq> lv_prices h ! i \<longrightarrow> rank S q < rank S (lv_prices h ! i))"
      using that(1) inv i unfolding c' h_def [symmetric]
      by (fastforce simp: cold_set_iff tt_inv_def tiers_ordered_def h_def)
    moreover have "q \<noteq> EMPTY S"
      using that(1) c'(1) by (auto simp: cold_set_iff cold_inv_def)
    moreover have "rank S (lv_prices h ! i) < rank S (lv_prices h' ! j) \<or> j \<noteq> i
        \<and> rank S (lv_prices h ! i) \<le> rank S (lv_prices h' ! j) \<and> lv_prices h' ! j = lv_prices h ! j"
      using that i len bet worst unfolding h_def [symmetric]
      by (auto simp: h'_def nth_list_update)
    moreover have "lv_prices h ! i = lv_prices h ! j \<Longrightarrow> lv_prices h ! i \<noteq> EMPTY S \<Longrightarrow> i = j"
      using hi that(2) i by (auto simp: hot_inv_def)
    ultimately show ?thesis
      using rank_inj [of S "lv_prices h ! i" "lv_prices h ! j"]
      by (cases "q = lv_prices h ! i") auto
  qed
  have "tiers_ordered S K h' c'"
    unfolding tiers_ordered_def using cold by (auto simp: cold_set_iff)
  with rep best c' have inv': "tt_inv S K C ?tt" by (simp add: tt_inv_def)
  have "tt_map S ?tt = (tt_map S tt)(p \<mapsto> d)"
  proof (rule tt_map_eqI [OF inv'])
    fix q e
    show "(q, e) \<in> hot_set S (tt_hot ?tt) \<union> cold_set (tt_cold ?tt) \<longleftrightarrow> ((tt_map S tt)(p \<mapsto> d)) q = Some e"
      using tt_map_Some_iff [OF inv] tt_map_NoneD [OF inv none] p rep(2) c'(2)
      by (auto simp: h_def)
  qed
  with inv' show ?thesis by simp
qed

lemma belongs_to_hotD:
  assumes inv: "tt_inv S K C tt" and b: "belongs_to_hot S tt p = (b, i)"
  shows "i < K" "\<forall>j < K. rank S (lv_prices (tt_hot tt) ! i) \<le> rank S (lv_prices (tt_hot tt) ! j)"
    "b \<longleftrightarrow> rank S (lv_prices (tt_hot tt) ! i) < rank S p"
proof -
  have ne: "lv_prices (tt_hot tt) \<noteq> []" and len: "length (lv_prices (tt_hot tt)) = K"
    using inv by (auto simp: tt_invs)
  obtain w where w: "worst_scan S (lv_prices (tt_hot tt)) 0 (BEST_POSSIBLE S) 0 = (w, i)"
    "b = better S p w"
    using b by (auto simp: belongs_to_hot_def split: prod.splits)
  note slot = worst_slot [OF ne w(1)]
  show "i < K" "\<forall>j < K. rank S (lv_prices (tt_hot tt) ! i) \<le> rank S (lv_prices (tt_hot tt) ! j)"
    "b \<longleftrightarrow> rank S (lv_prices (tt_hot tt) ! i) < rank S p"
    using slot len w(2) by (auto simp: better_rank)
qed

lemma tt_ptr_find:
  assumes "tt_inv S K C tt" "tt_find S tt p = Some l"
  shows "tt_ptr K tt p l"
  using tt_find_loc [OF assms] by (simp add: tt_ptr_def)

lemma find_or_insert_spec:
  assumes inv: "tt_inv S K C tt" and p: "p \<noteq> EMPTY S"
  shows "case find_or_insert S tt p of
      (Some l, tt') \<Rightarrow> tt_inv S K C tt' \<and> tt_ptr K tt' p l
        \<and> tt_map S tt' = (case tt_map S tt p of Some d \<Rightarrow> tt_map S tt
            | None \<Rightarrow> (tt_map S tt)(p \<mapsto> LevelData_init))
    | (None, tt') \<Rightarrow> tt' = tt \<and> tt_map S tt p = None
        \<and> lv_size (tt_cold tt) = C \<and> (\<forall>i < K. lv_prices (tt_hot tt) ! i \<noteq> EMPTY S)"
proof (cases "tt_find S tt p")
  case (Some l)
  then have "tt_map S tt p = Some (level_at tt l)" using tt_find_map [OF inv p] by simp
  with Some inv tt_ptr_find [OF inv Some] show ?thesis by (simp add: find_or_insert_def)
next
  case None
  have none: "tt_map S tt p = None" using tt_find_map [OF inv p] None by simp
  note nf = tt_find_None [OF inv None]
  have ci: "cold_inv S C (tt_cold tt)" and cl: "length (lv_prices (tt_cold tt)) = C"
    and nC: "lv_size (tt_cold tt) \<le> C" and hl: "length (lv_prices (tt_hot tt)) = K"
    using inv by (simp_all add: tt_invs)
  obtain b i where b: "belongs_to_hot S tt p = (b, i)" by fastforce
  note bh = belongs_to_hotD [OF inv b]
  have full: "insert_to_cold S tt q d = ((False, 0), tt)" if "\<not> lv_size (tt_cold tt) < C" for q d
    using that cl by (simp add: insert_to_cold_def)
  show ?thesis
  proof (cases b)
    case False
    then have low: "\<forall>j < K. rank S p \<le> rank S (lv_prices (tt_hot tt) ! j)" using bh by auto
    have "rank S p \<noteq> 0" using p by (simp add: rank_0_iff)
    then have nE: "\<forall>j < K. lv_prices (tt_hot tt) ! j \<noteq> EMPTY S" using low by fastforce
    obtain ok j tt' where ins: "insert_to_cold S tt p LevelData_init = ((ok, j), tt')"
      by (metis prod.collapse)
    show ?thesis
    proof (cases "lv_size (tt_cold tt) < C")
      case True
      from insert_cold_only [OF inv p None low True ins]
      show ?thesis using None b False ins none by (simp add: find_or_insert_def)
    next
      case room: False
      then show ?thesis using None b False full [OF room] none nE nC
        by (simp add: find_or_insert_def)
    qed
  next
    case True
    let ?h = "tt_hot tt" and ?w = "lv_prices (tt_hot tt) ! i" and ?d = "lv_levels (tt_hot tt) ! i"
    have bet: "rank S ?w < rank S p" using bh True by simp
    show ?thesis
    proof (cases "?w = EMPTY S")
      case E: True
      have "cold_set (tt_cold tt) = (hot_set S ?h \<inter> {(?w, ?d)}) \<union> cold_set (tt_cold tt)"
        using E by simp
      from insert_hot_slot [OF inv p nf(1) bh(1,2) bet ci this none, of LevelData_init]
      show ?thesis using None b True E none bh(1) hl
        by (cases "better S p (lv_best_price (tt_hot tt))")
          (simp_all add: find_or_insert_def Let_def tt_ptr_def)
    next
      case N: False
      have wn: "\<forall>j < lv_size (tt_cold tt). lv_prices (tt_cold tt) ! j \<noteq> ?w"
        using inv bh(1) by (fastforce simp: tt_inv_def tiers_ordered_def)
      show ?thesis
      proof (cases "lv_size (tt_cold tt) < C")
        case room: True
        obtain j c' where c': "insert_to_cold S tt ?w ?d = ((True, j), tt\<lparr>tt_cold := c'\<rparr>)"
          "cold_inv S C c'" "cold_set c' = insert (?w, ?d) (cold_set (tt_cold tt))"
          using insert_to_cold_spec [OF ci wn N room, of ?d] by metis
        have "(?w, ?d) \<in> hot_set S ?h" using N bh(1) inv by (auto simp: hot_set_iff tt_invs)
        then have "cold_set c' = (hot_set S ?h \<inter> {(?w, ?d)}) \<union> cold_set (tt_cold tt)"
          using c'(3) by auto
        from insert_hot_slot [OF inv p nf(1) bh(1,2) bet c'(2) this none, of LevelData_init]
        show ?thesis using None b True N none bh(1) hl c'(1)
          by (cases "better S p (lv_best_price (tt_hot tt))")
            (simp_all add: find_or_insert_def Let_def tt_ptr_def)
      next
        case room: False
        have "\<forall>j < K. lv_prices (tt_hot tt) ! j \<noteq> EMPTY S"
        proof (intro allI impI notI)
          fix j
          assume "j < K" "lv_prices (tt_hot tt) ! j = EMPTY S"
          with bh(2) have "rank S ?w = 0" by fastforce
          with N show False by (simp add: rank_0_iff)
        qed
        then show ?thesis using None b True N full [OF room] none nC room
          by (simp add: find_or_insert_def Let_def)
      qed
    qed
  qed
qed

subsection \<open>erase\<close>

lemma cold_shrink:
  assumes ci: "cold_inv S C c" and i: "i < lv_size c"
    and c': "lv_prices c' = shift_left (lv_prices c) i (lv_size c) 1"
      "lv_levels c' = shift_left (lv_levels c) i (lv_size c) 1" "lv_size c' = lv_size c - 1"
  shows "cold_inv S C c'" "cold_set c' = cold_set c - {(lv_prices c ! i, lv_levels c ! i)}"
proof -
  let ?n = "lv_size c"
  have len: "length (lv_prices c) = C" "length (lv_levels c) = C" "?n \<le> C"
    and mono: "\<And>i j. i < j \<Longrightarrow> j < ?n \<Longrightarrow> rank S (lv_prices c ! i) < rank S (lv_prices c ! j)"
    and ne: "\<And>j. j < ?n \<Longrightarrow> lv_prices c ! j \<noteq> EMPTY S"
    using ci by (auto simp: cold_inv_def)
  let ?s = "\<lambda>j. if i \<le> j then Suc j else j"
  have ps: "lv_prices c' ! j = lv_prices c ! ?s j" if "j < ?n - 1" for j
    using that len by (auto simp: c' nth_shift_left_1)
  have ls: "lv_levels c' ! j = lv_levels c ! ?s j" if "j < ?n - 1" for j
    using that len by (auto simp: c' nth_shift_left_1)
  have "rank S (lv_prices c' ! j) < rank S (lv_prices c' ! k)" if "j < k" "k < ?n - 1" for j k
  proof -
    have "?s j < ?s k" "?s k < ?n" using that by auto
    with mono ps [of j] ps [of k] that show ?thesis by (metis less_trans)
  qed
  moreover have "lv_prices c' ! j \<noteq> EMPTY S" if "j < ?n - 1" for j
  proof -
    have "?s j < ?n" using that by auto
    with ne ps [OF that] show ?thesis by metis
  qed
  ultimately show "cold_inv S C c'" using len by (auto simp: cold_inv_def c')
  show "cold_set c' = cold_set c - {(lv_prices c ! i, lv_levels c ! i)}"
  proof (rule set_eqI, clarify)
    fix q e
    have "(q, e) \<in> cold_set c' \<longleftrightarrow> (\<exists>j < ?n - 1. q = lv_prices c ! ?s j \<and> e = lv_levels c ! ?s j)"
      by (simp add: cold_set_iff c'(3) ps ls cong: conj_cong)
    also have "\<dots> \<longleftrightarrow> (\<exists>k < ?n. k \<noteq> i \<and> q = lv_prices c ! k \<and> e = lv_levels c ! k)" (is "?L \<longleftrightarrow> ?R")
    proof
      assume ?L
      then obtain j where "j < ?n - 1" "q = lv_prices c ! ?s j" "e = lv_levels c ! ?s j" by blast
      then show ?R by (intro exI [of _ "?s j"]) auto
    next
      assume ?R
      then obtain k where k: "k < ?n" "k \<noteq> i" "q = lv_prices c ! k" "e = lv_levels c ! k" by blast
      then show ?L using i by (intro exI [of _ "if k < i then k else k - 1"]) auto
    qed
    also have "\<dots> \<longleftrightarrow> (q, e) \<in> cold_set c - {(lv_prices c ! i, lv_levels c ! i)}"
    proof -
      have "q \<noteq> lv_prices c ! i" if "k < ?n" "k \<noteq> i" "q = lv_prices c ! k" for k
        using mono [of k i] mono [of i k] that i by (metis less_irrefl linorder_neqE_nat)
      then show ?thesis by (auto simp: cold_set_iff)
    qed
    finally show "(q, e) \<in> cold_set c' \<longleftrightarrow> (q, e) \<in> cold_set c - {(lv_prices c ! i, lv_levels c ! i)}" .
  qed
qed

lemma best_inv_rescan:
  assumes "hot_inv S K h" "best_scan S (lv_prices h) 0 (EMPTY S) 0 = (w, k)"
  shows "best_inv S K (h\<lparr>lv_best_price := w, lv_best_idx := k\<rparr>)"
proof -
  have "lv_prices h \<noteq> []" "length (lv_prices h) = K" using assms(1) by (auto simp: hot_inv_def)
  with best_slot [OF _ assms(2)] show ?thesis by (simp add: best_inv_def)
qed

lemma hot_inv_best_upd [simp]:
  "hot_inv S K (h\<lparr>lv_best_price := w, lv_best_idx := k\<rparr>) = hot_inv S K h"
  by (simp add: hot_inv_def)

lemma hot_set_best_upd [simp]:
  "hot_set S (h\<lparr>lv_best_price := w, lv_best_idx := k\<rparr>) = hot_set S h"
  by (simp add: hot_set_def)

lemma tiers_ordered_best_upd [simp]:
  "tiers_ordered S K (h\<lparr>lv_best_price := w, lv_best_idx := k\<rparr>) c = tiers_ordered S K h c"
  by (simp add: tiers_ordered_def)

text \<open>Erasing the hot slot \<open>i\<close>: \<open>q\<close> is what takes its place.\<close>

lemma erase_hot:
  assumes inv: "tt_inv S K C tt" and i: "i < K" and p: "lv_prices (tt_hot tt) ! i = p" "p \<noteq> EMPTY S"
    and q: "q = EMPTY S \<or> q \<notin> set (lv_prices (tt_hot tt))"
      "\<forall>j < K. j \<noteq> i \<longrightarrow> rank S q \<le> rank S (lv_prices (tt_hot tt) ! j)"
    and ha: "lv_prices ha = (lv_prices (tt_hot tt))[i := q]"
      "lv_levels ha = (lv_levels (tt_hot tt))[i := d] \<or> q = EMPTY S \<and> lv_levels ha = lv_levels (tt_hot tt)"
      "lv_best_price ha = lv_best_price (tt_hot tt)" "lv_best_idx ha = lv_best_idx (tt_hot tt)"
    and c': "cold_inv S C c'" "tiers_ordered S K ha c'"
      "(if q = EMPTY S then {} else {(q, d)}) \<union> cold_set c' = cold_set (tt_cold tt)"
    and hb: "hb = (if i = lv_best_idx ha
      then case best_scan S (lv_prices ha) 0 (EMPTY S) 0 of
             (nb, nbi) \<Rightarrow> ha\<lparr>lv_best_price := nb, lv_best_idx := nbi\<rparr>
      else ha)"
  shows "tt_inv S K C \<lparr>tt_hot = hb, tt_cold = c'\<rparr>
    \<and> tt_map S \<lparr>tt_hot = hb, tt_cold = c'\<rparr> = (tt_map S tt)(p := None)"
proof -
  let ?h = "tt_hot tt"
  have hi: "hot_inv S K ?h" and bi: "best_inv S K ?h" and len: "length (lv_prices ?h) = K"
    using inv by (auto simp: tt_invs)
  note rep = hot_replace [OF hi i q(1) ha(1,2)]
  have hb': "hot_inv S K hb \<and> hot_set S hb = hot_set S ha \<and> tiers_ordered S K hb c' \<and> best_inv S K hb"
  proof (cases "i = lv_best_idx ha")
    case True
    obtain nb nbi where "best_scan S (lv_prices ha) 0 (EMPTY S) 0 = (nb, nbi)" by fastforce
    with True rep(1) best_inv_rescan [OF rep(1) this] c'(2) show ?thesis by (simp add: hb)
  next
    case False
    let ?b = "lv_best_idx ?h"
    have b: "?b < K" "lv_best_price ?h = lv_prices ?h ! ?b" "?b \<noteq> i"
      using bi False ha by (auto simp: best_inv_def)
    have "rank S (lv_prices ha ! j) \<le> rank S (lv_best_price ?h)" if "j < K" for j
      using that bi b q(2) len by (cases "j = i") (auto simp: ha best_inv_def)
    then have "best_inv S K ha" using b by (simp add: best_inv_def ha)
    with False rep(1) c'(2) show ?thesis by (simp add: hb)
  qed
  then have inv': "tt_inv S K C \<lparr>tt_hot = hb, tt_cold = c'\<rparr>"
    using c'(1) by (simp add: tt_inv_def)
  have uniq: "(p, e) \<in> hot_set S ?h \<union> cold_set (tt_cold tt) \<longleftrightarrow> e = lv_levels ?h ! i" for e
  proof -
    have "(p, lv_levels ?h ! i) \<in> hot_set S ?h" using p i len by (auto simp: hot_set_iff)
    then have "tt_map S tt p = Some (lv_levels ?h ! i)" using tt_map_Some_iff [OF inv] by simp
    then show ?thesis unfolding tt_map_Some_iff [OF inv, symmetric] by auto
  qed
  have qp: "q \<noteq> p" using q(1) p i len nth_mem by metis
  have items: "hot_set S hb \<union> cold_set c' = hot_set S ?h \<union> cold_set (tt_cold tt) - {(p, lv_levels ?h ! i)}"
  proof -
    have "(p, e) \<notin> cold_set (tt_cold tt)" for e
      using inv i p by (fastforce simp: cold_set_iff tt_inv_def tiers_ordered_def)
    moreover have "hot_set S hb \<union> cold_set c' = (hot_set S ?h - {(p, lv_levels ?h ! i)})
        \<union> ((if q = EMPTY S then {} else {(q, d)}) \<union> cold_set c')"
      using hb' rep(2) p(1) by auto
    ultimately show ?thesis unfolding c'(3) by auto
  qed
  have "tt_map S \<lparr>tt_hot = hb, tt_cold = c'\<rparr> = (tt_map S tt)(p := None)"
    using tt_map_Some_iff [OF inv] uniq items by (intro tt_map_eqI [OF inv']) auto
  with inv' show ?thesis by simp
qed

lemma tt_erase_spec:
  assumes inv: "tt_inv S K C tt" and p: "p \<noteq> EMPTY S"
  shows "tt_inv S K C (tt_erase S tt p) \<and> tt_map S (tt_erase S tt p) = (tt_map S tt)(p := None)"
proof -
  let ?h = "tt_hot tt" and ?c = "tt_cold tt"
  let ?n = "lv_size ?c"
  have ci: "cold_inv S C ?c" and len: "length (lv_prices ?h) = K" and nC: "?n \<le> C"
    "length (lv_prices ?c) = C" "length (lv_levels ?c) = C"
    and to: "tiers_ordered S K ?h ?c"
    using inv by (auto simp: tt_invs)
  show ?thesis
  proof (cases rule: find_idx_cases [OF inv, of p, case_names hot cold none])
    case (hot i)
    let ?hE = "?h\<lparr>lv_prices := (lv_prices ?h)[i := EMPTY S]\<rparr>"
    let ?q = "lv_prices ?c ! (?n - 1)" and ?d = "lv_levels ?c ! (?n - 1)"
    let ?hR = "?h\<lparr>lv_prices := (lv_prices ?h)[i := ?q], lv_levels := (lv_levels ?h)[i := ?d]\<rparr>"
    let ?cS = "?c\<lparr>lv_size := ?n - 1\<rparr>"
    let ?fin = "\<lambda>h. if i = lv_best_idx h
      then case best_scan S (lv_prices h) 0 (EMPTY S) 0 of
             (nb, nbi) \<Rightarrow> h\<lparr>lv_best_price := nb, lv_best_idx := nbi\<rparr>
      else h"
    show ?thesis
    proof (cases "0 < ?n")
      case False
      have c0: "cold_set ?c = {}" "tiers_ordered S K ?hE ?c"
        using False by (auto simp: cold_set_iff tiers_ordered_def)
      have er: "tt_erase S tt p = \<lparr>tt_hot = ?fin ?hE, tt_cold = ?c\<rparr>"
        using False hot(1) by (simp add: tt_erase_def Let_def)
      show ?thesis
        unfolding er
        by (rule erase_hot [OF inv hot(2,3) p, where q = "EMPTY S" and ha = ?hE])
          (use ci c0 in simp_all)
    next
      case True
      then have nn: "?n - 1 < ?n" by simp
      have lt: "\<forall>j < K. rank S ?q < rank S (lv_prices ?h ! j)"
      proof (intro allI impI)
        fix j
        assume j: "j < K"
        show "rank S ?q < rank S (lv_prices ?h ! j)"
          by (rule to [unfolded tiers_ordered_def, rule_format, OF j nn])
      qed
      have qne: "?q \<noteq> EMPTY S" using ci nn by (simp add: cold_inv_def)
      have qn: "?q \<notin> set (lv_prices ?h)"
        using lt len by (auto simp: in_set_conv_nth)
      have mono: "\<And>j. j < ?n - 1 \<Longrightarrow> rank S (lv_prices ?c ! j) < rank S ?q"
        using ci nn by (simp add: cold_inv_def)
      have sh: "cold_inv S C ?cS" "cold_set ?cS = cold_set ?c - {(?q, ?d)}"
        using cold_shrink [OF ci nn, of ?cS] by simp_all
      have to1: "tiers_ordered S K ?hR ?cS"
        using to mono len hot(2) by (auto simp: tiers_ordered_def nth_list_update)
      have items: "{(?q, ?d)} \<union> cold_set ?cS = cold_set ?c"
        unfolding sh(2) using nn by (auto simp: cold_set_iff)
      have er: "tt_erase S tt p = \<lparr>tt_hot = ?fin ?hR, tt_cold = ?cS\<rparr>"
        using True hot(1) by (simp add: tt_erase_def Let_def)
      show ?thesis
        unfolding er
        by (rule erase_hot [OF inv hot(2,3) p, where q = ?q and ha = ?hR and d = ?d])
          (use qn qne lt items sh(1) to1 in \<open>simp_all add: less_imp_le\<close>)
    qed
  next
    case (cold i)
    let ?cS = "?c\<lparr>lv_prices := shift_left (lv_prices ?c) i ?n 1,
      lv_levels := shift_left (lv_levels ?c) i ?n 1, lv_size := ?n - 1\<rparr>"
    have er: "tt_erase S tt p = tt\<lparr>tt_cold := ?cS\<rparr>" using cold(1) by (simp add: tt_erase_def Let_def)
    have sh: "cold_inv S C ?cS" "cold_set ?cS = cold_set ?c - {(p, lv_levels ?c ! i)}"
      using cold_shrink [OF ci cold(2), of ?cS] cold(3) by auto
    have "tiers_ordered S K ?h ?cS"
      unfolding tiers_ordered_def
    proof (intro allI impI)
      fix j k
      assume j: "j < K" and k: "k < lv_size ?cS"
      have "(lv_prices ?cS ! k, lv_levels ?cS ! k) \<in> cold_set ?cS"
        unfolding cold_set_iff using k by blast
      then have "(lv_prices ?cS ! k, lv_levels ?cS ! k) \<in> cold_set ?c"
        using sh(2) by blast
      then obtain m where "m < ?n" "lv_prices ?cS ! k = lv_prices ?c ! m"
        by (auto simp: cold_set_iff)
      then show "rank S (lv_prices ?cS ! k) < rank S (lv_prices ?h ! j)"
        using to j by (simp add: tiers_ordered_def)
    qed
    then have inv': "tt_inv S K C (tt\<lparr>tt_cold := ?cS\<rparr>)" using inv sh(1) by (simp add: tt_inv_def)
    have "(p, lv_levels ?c ! i) \<in> cold_set ?c" using cold by (auto simp: cold_set_iff)
    then have "tt_map S tt p = Some (lv_levels ?c ! i)" using tt_map_Some_iff [OF inv] by simp
    then have uniq: "\<And>e. (p, e) \<in> hot_set S ?h \<union> cold_set ?c \<longleftrightarrow> e = lv_levels ?c ! i"
      unfolding tt_map_Some_iff [OF inv, symmetric] by auto
    have nh: "\<And>e. (p, e) \<notin> hot_set S ?h" using cold(4) by (auto simp: hot_set_iff)
    have "tt_map S (tt\<lparr>tt_cold := ?cS\<rparr>) = (tt_map S tt)(p := None)"
      using tt_map_Some_iff [OF inv] uniq nh sh(2) by (intro tt_map_eqI [OF inv']) auto
    with inv' er show ?thesis by simp
  next
    case none
    then have "tt_find S tt p = None" by (simp add: tt_find_def)
    then have "tt_map S tt p = None" using tt_find_map [OF inv p] by simp
    then show ?thesis using none inv by (auto simp: tt_erase_def)
  qed
qed

subsection \<open>Construction, best level, capacity\<close>

lemma TwoTierLevels_init_spec:
  assumes "0 < K"
  shows "tt_inv S K C (TwoTierLevels_init S K C) \<and> tt_map S (TwoTierLevels_init S K C) = Map.empty"
proof -
  let ?tt = "TwoTierLevels_init S K C"
  have inv: "tt_inv S K C ?tt"
    using assms by (auto simp: TwoTierLevels_init_def Level_init_def tt_invs)
  have "tt_map S ?tt = Map.empty"
    by (rule tt_map_eqI [OF inv])
      (auto simp: TwoTierLevels_init_def Level_init_def hot_set_iff cold_set_iff)
  with inv show ?thesis by simp
qed

text \<open>\<open>best_price\<close> is the best price of the map, or \<open>EMPTY\<close> when the side is empty.\<close>

lemma tt_best_price_spec:
  assumes inv: "tt_inv S K C tt"
  shows "if tt_map S tt = Map.empty then tt_best_price tt = EMPTY S
    else tt_best_price tt \<in> dom (tt_map S tt)
      \<and> (\<forall>q \<in> dom (tt_map S tt). q = tt_best_price tt \<or> better S (tt_best_price tt) q)"
proof -
  let ?h = "tt_hot tt" and ?b = "tt_best_price tt"
  have bi: "best_inv S K ?h" and len: "length (lv_prices ?h) = K" "0 < K"
    and to: "tiers_ordered S K ?h (tt_cold tt)"
    using inv by (auto simp: tt_invs)
  have b: "lv_best_idx ?h < K" "?b = lv_prices ?h ! lv_best_idx ?h"
    using bi by (auto simp: best_inv_def tt_best_price_def)
  have top: "rank S q \<le> rank S ?b" if "(q, e) \<in> hot_set S ?h \<union> cold_set (tt_cold tt)" for q e
    using that
  proof
    assume "(q, e) \<in> hot_set S ?h"
    then show ?thesis using bi len by (auto simp: hot_set_iff best_inv_def tt_best_price_def)
  next
    assume "(q, e) \<in> cold_set (tt_cold tt)"
    then show ?thesis using to b by (auto simp: cold_set_iff tiers_ordered_def less_imp_le)
  qed
  have mem: "?b \<in> dom (tt_map S tt)" if "?b \<noteq> EMPTY S"
  proof -
    have "(?b, lv_levels ?h ! lv_best_idx ?h) \<in> hot_set S ?h"
      using b that len by (auto simp: hot_set_iff)
    then have "tt_map S tt ?b = Some (lv_levels ?h ! lv_best_idx ?h)"
      using tt_map_Some_iff [OF inv] by simp
    then show ?thesis by (simp add: domI)
  qed
  show ?thesis
  proof (cases "tt_map S tt = Map.empty")
    case True
    then have "?b = EMPTY S" using mem by (cases "?b = EMPTY S") auto
    with True show ?thesis by simp
  next
    case False
    then obtain q e where qe: "tt_map S tt q = Some e" by (metis not_Some_eq ext)
    then have "q \<noteq> EMPTY S" by (auto simp: tt_map_def)
    moreover have "(q, e) \<in> hot_set S ?h \<union> cold_set (tt_cold tt)"
      using qe tt_map_Some_iff [OF inv] by blast
    ultimately have q: "(q, e) \<in> hot_set S ?h \<union> cold_set (tt_cold tt)" "q \<noteq> EMPTY S" by blast+
    have ne: "?b \<noteq> EMPTY S" using top [OF q(1)] q(2) by (metis le_zero_eq rank_0_iff rank_EMPTY)
    have "q = ?b \<or> better S ?b q" if dq: "q \<in> dom (tt_map S tt)" for q
    proof -
      obtain e where "tt_map S tt q = Some e" using dq by (auto simp: dom_def)
      then have "rank S q \<le> rank S ?b" using top tt_map_Some_iff [OF inv] by blast
      then show ?thesis using rank_inj [of S q ?b] by (auto simp: better_rank le_less)
    qed
    with False mem [OF ne] show ?thesis by simp
  qed
qed

lemma tt_best_spec:
  assumes inv: "tt_inv S K C tt"
  shows "map_option (level_at tt) (tt_best S tt) = tt_map S tt (tt_best_price tt)"
proof (cases "tt_best_price tt = EMPTY S")
  case True
  then show ?thesis by (simp add: tt_best_def tt_best_price_def tt_map_def)
next
  case False
  have "tt_ptr K tt (tt_best_price tt) \<lparr>loc_tier = HOT, loc_idx = lv_best_idx (tt_hot tt)\<rparr>"
    using inv by (simp add: tt_ptr_def tt_invs tt_best_price_def)
  then show ?thesis
    using level_at_map [OF inv _ False] False by (simp add: tt_best_def tt_best_price_def)
qed

text \<open>A side holds at most \<open>K + ColdCap\<close> levels, and is full exactly when both tiers are.\<close>

lemma dom_tt_map:
  assumes "tt_inv S K C tt"
  shows "dom (tt_map S tt) = ((\<lambda>i. lv_prices (tt_hot tt) ! i) ` {i. i < K \<and> lv_prices (tt_hot tt) ! i \<noteq> EMPTY S})
    \<union> ((\<lambda>i. lv_prices (tt_cold tt) ! i) ` {..< lv_size (tt_cold tt)})"
proof -
  have "length (lv_prices (tt_hot tt)) = K" using assms by (simp add: tt_invs)
  then show ?thesis
    by (auto simp: dom_def tt_map_Some_iff [OF assms] hot_set_iff cold_set_iff)
qed

lemma card_dom_tt_map:
  assumes inv: "tt_inv S K C tt"
  shows "card (dom (tt_map S tt)) = card {i. i < K \<and> lv_prices (tt_hot tt) ! i \<noteq> EMPTY S} + lv_size (tt_cold tt)"
proof -
  let ?H = "{i. i < K \<and> lv_prices (tt_hot tt) ! i \<noteq> EMPTY S}" and ?n = "lv_size (tt_cold tt)"
  have uniq: "\<And>i j. i < K \<Longrightarrow> j < K \<Longrightarrow> lv_prices (tt_hot tt) ! i = lv_prices (tt_hot tt) ! j \<Longrightarrow>
      lv_prices (tt_hot tt) ! i \<noteq> EMPTY S \<Longrightarrow> i = j"
    and mono: "\<And>i j. i < j \<Longrightarrow> j < ?n \<Longrightarrow> rank S (lv_prices (tt_cold tt) ! i) < rank S (lv_prices (tt_cold tt) ! j)"
    and to: "\<And>i j. i < K \<Longrightarrow> j < ?n \<Longrightarrow> rank S (lv_prices (tt_cold tt) ! j) < rank S (lv_prices (tt_hot tt) ! i)"
    using inv by (auto simp: tt_invs)
  have "inj_on (\<lambda>i. lv_prices (tt_hot tt) ! i) ?H" using uniq by (auto simp: inj_on_def)
  moreover have "inj_on (\<lambda>i. lv_prices (tt_cold tt) ! i) {..< ?n}"
  proof (rule linorder_inj_onI)
    fix i j
    assume "i < j" "i \<in> {..< ?n}" "j \<in> {..< ?n}"
    with mono [of i j] show "lv_prices (tt_cold tt) ! i \<noteq> lv_prices (tt_cold tt) ! j" by auto
  qed auto
  moreover have "(\<lambda>i. lv_prices (tt_hot tt) ! i) ` ?H \<inter> (\<lambda>i. lv_prices (tt_cold tt) ! i) ` {..< ?n} = {}"
  proof (rule ccontr)
    assume "\<not> ?thesis"
    then obtain i j where "i < K" "j < ?n" "lv_prices (tt_hot tt) ! i = lv_prices (tt_cold tt) ! j" by blast
    with to [of i j] show False by simp
  qed
  ultimately show ?thesis
    by (simp add: dom_tt_map [OF inv] card_Un_disjoint card_image)
qed

lemma tt_full_iff:
  assumes inv: "tt_inv S K C tt"
  shows "K + C \<le> card (dom (tt_map S tt)) \<longleftrightarrow>
    lv_size (tt_cold tt) = C \<and> (\<forall>i < K. lv_prices (tt_hot tt) ! i \<noteq> EMPTY S)"
proof -
  let ?H = "{i. i < K \<and> lv_prices (tt_hot tt) ! i \<noteq> EMPTY S}"
  have n: "lv_size (tt_cold tt) \<le> C" using inv by (simp add: tt_invs)
  have sub: "?H \<subseteq> {..< K}" by auto
  then have le: "card ?H \<le> K" using card_mono [OF finite_lessThan sub] by simp
  have "card ?H = K \<longleftrightarrow> ?H = {..< K}"
  proof
    assume "card ?H = K"
    then show "?H = {..< K}" by (intro card_subset_eq [OF finite_lessThan sub]) simp
  next
    assume "?H = {..< K}"
    then show "card ?H = K" by (simp only: card_lessThan)
  qed
  then have eq: "(\<forall>i < K. lv_prices (tt_hot tt) ! i \<noteq> EMPTY S) \<longleftrightarrow> card ?H = K" by auto
  show ?thesis unfolding card_dom_tt_map [OF inv] eq using n le by arith
qed

subsection \<open>The contract of a side's levels\<close>

text \<open>
  What the order book relies on: prices map to level data, \<open>acquire\<close> hands out a pointer to
  the level of a price (creating it), \<open>search\<close> a pointer to an existing level, writes through
  a pointer change that level only. \<open>ok\<close> delimits the prices for which the contract holds.
\<close>

locale price_levels =
  fixes inv :: "'t \<Rightarrow> bool"
    and lookup :: "'t \<Rightarrow> u32 \<Rightarrow> level_data option"
    and ok :: "u32 \<Rightarrow> bool"
    and points :: "'t \<Rightarrow> u32 \<Rightarrow> 'l \<Rightarrow> bool"
    and search :: "'t \<Rightarrow> u32 \<Rightarrow> 'l option"
    and acquire :: "'t \<Rightarrow> u32 \<Rightarrow> 'l option \<times> 't"
    and remove :: "'t \<Rightarrow> u32 \<Rightarrow> 't"
    and get :: "'t \<Rightarrow> 'l \<Rightarrow> level_data"
    and put :: "'t \<Rightarrow> 'l \<Rightarrow> level_data \<Rightarrow> 't"
    and full :: "'t \<Rightarrow> bool"
  assumes search_points: "inv t \<Longrightarrow> ok p \<Longrightarrow> search t p = Some l \<Longrightarrow> points t p l"
    and search_lookup: "inv t \<Longrightarrow> ok p \<Longrightarrow> search t p = None \<longleftrightarrow> lookup t p = None"
    and get_lookup: "inv t \<Longrightarrow> ok p \<Longrightarrow> points t p l \<Longrightarrow> lookup t p = Some (get t l)"
    and put_inv: "inv t \<Longrightarrow> inv (put t l d)"
    and put_lookup: "inv t \<Longrightarrow> ok p \<Longrightarrow> points t p l \<Longrightarrow> lookup (put t l d) = (lookup t)(p \<mapsto> d)"
    and acquire_Some: "inv t \<Longrightarrow> ok p \<Longrightarrow> acquire t p = (Some l, t') \<Longrightarrow> inv t' \<and> points t' p l
      \<and> lookup t' = (lookup t)(p \<mapsto> case lookup t p of None \<Rightarrow> LevelData_init | Some d \<Rightarrow> d)"
    and acquire_None: "inv t \<Longrightarrow> ok p \<Longrightarrow> acquire t p = (None, t') \<Longrightarrow>
      t' = t \<and> lookup t p = None \<and> full t"
    and remove_inv: "inv t \<Longrightarrow> ok p \<Longrightarrow> inv (remove t p)"
    and remove_lookup: "inv t \<Longrightarrow> ok p \<Longrightarrow> lookup (remove t p) = (lookup t)(p := None)"
begin

lemma search_SomeD:
  assumes "inv t" "ok p" "search t p = Some l"
  shows "points t p l" "lookup t p = Some (get t l)"
  using assms search_points get_lookup by auto

lemma search_dom:
  assumes "inv t" "ok p" "lookup t p = Some d"
  obtains l where "search t p = Some l" "points t p l" "get t l = d"
proof (cases "search t p")
  case None
  then show ?thesis using search_lookup [OF assms(1,2)] assms(3) by simp
next
  case (Some l)
  then show ?thesis using that [of l] search_SomeD [OF assms(1,2) Some] assms(3) by simp
qed

text \<open>Update of an existing level, and creation followed by the first write.\<close>

lemma search_put:
  assumes "inv t" "ok p" "search t p = Some l"
  shows "inv (put t l d)" "lookup (put t l d) = (lookup t)(p \<mapsto> d)"
  using assms put_inv put_lookup search_points by auto

lemma acquire_put:
  assumes "inv t" "ok p" "acquire t p = (Some l, t')"
  shows "inv (put t' l d)" "lookup (put t' l d) = (lookup t)(p \<mapsto> d)"
    "get t' l = (case lookup t p of None \<Rightarrow> LevelData_init | Some d \<Rightarrow> d)"
proof -
  have t': "inv t'" "points t' p l"
    "lookup t' = (lookup t)(p \<mapsto> case lookup t p of None \<Rightarrow> LevelData_init | Some d \<Rightarrow> d)"
    using acquire_Some [OF assms] by auto
  show "inv (put t' l d)" using t' put_inv by blast
  show "lookup (put t' l d) = (lookup t)(p \<mapsto> d)"
    using put_lookup [OF t'(1) assms(2) t'(2)] t'(3) by simp
  show "get t' l = (case lookup t p of None \<Rightarrow> LevelData_init | Some d \<Rightarrow> d)"
    using get_lookup [OF t'(1) assms(2) t'(2)] t'(3) by simp
qed

lemma acquire_dom:
  assumes "inv t" "ok p" "lookup t p = Some d"
  obtains l t' where "acquire t p = (Some l, t')" "inv t'" "points t' p l" "get t' l = d"
    "lookup t' = lookup t"
proof (cases "acquire t p")
  case (Pair r t')
  then obtain l where r: "r = Some l"
    using acquire_None [OF assms(1,2), of t'] assms(3) by (cases r) auto
  note a = acquire_Some [OF assms(1,2), of l t'] acquire_put(3) [OF assms(1,2), of l t']
  show ?thesis
    by (rule that [of l t']) (use a Pair r assms(3) in \<open>auto simp: fun_upd_idem\<close>)
qed

end

lemma tt_find_None_iff:
  assumes "tt_inv S K C tt" "p \<noteq> EMPTY S"
  shows "tt_find S tt p = None \<longleftrightarrow> tt_map S tt p = None"
  using tt_find_map [OF assms] by auto

definition tt_full :: "nat \<Rightarrow> nat \<Rightarrow> side \<Rightarrow> two_tier \<Rightarrow> bool" where
  "tt_full K C S tt \<longleftrightarrow> card (dom (tt_map S tt)) = K + C"

lemma card_dom_le:
  assumes "tt_inv S K C tt"
  shows "card (dom (tt_map S tt)) \<le> K + C" "finite (dom (tt_map S tt))"
proof -
  have "card {i. i < K \<and> lv_prices (tt_hot tt) ! i \<noteq> EMPTY S} \<le> K"
    using card_mono [of "{..<K}" "{i. i < K \<and> lv_prices (tt_hot tt) ! i \<noteq> EMPTY S}"] by auto
  moreover have "lv_size (tt_cold tt) \<le> C"
    using assms by (simp add: tt_invs)
  ultimately show "card (dom (tt_map S tt)) \<le> K + C"
    using card_dom_tt_map [OF assms] by simp
  show "finite (dom (tt_map S tt))"
    using dom_tt_map [OF assms] by simp
qed

lemma find_or_insert_Some:
  assumes "tt_inv S K C tt" "p \<noteq> EMPTY S" "find_or_insert S tt p = (Some l, tt')"
  shows "tt_inv S K C tt' \<and> tt_ptr K tt' p l
    \<and> tt_map S tt' = (tt_map S tt)(p \<mapsto> case tt_map S tt p of None \<Rightarrow> LevelData_init | Some d \<Rightarrow> d)"
  using find_or_insert_spec [OF assms(1,2)] assms(3)
  by (auto simp: fun_upd_idem split: option.splits)

lemma find_or_insert_None:
  assumes "tt_inv S K C tt" "p \<noteq> EMPTY S" "find_or_insert S tt p = (None, tt')"
  shows "tt' = tt \<and> tt_map S tt p = None \<and> tt_full K C S tt"
  using find_or_insert_spec [OF assms(1,2)] assms(3) tt_full_iff [OF assms(1)] card_dom_le [OF assms(1)]
  by (auto simp: tt_full_def)

interpretation tt: price_levels "tt_inv S K C" "tt_map S" "\<lambda>p. p \<noteq> EMPTY S" "tt_ptr K"
  "tt_find S" "find_or_insert S" "tt_erase S" level_at set_level_at "tt_full K C S" for S K C
proof unfold_locales
  show "tt_inv S K C t \<Longrightarrow> p \<noteq> EMPTY S \<Longrightarrow> find_or_insert S t p = (Some l, t') \<Longrightarrow>
      tt_inv S K C t' \<and> tt_ptr K t' p l \<and> tt_map S t' =
        (tt_map S t)(p \<mapsto> case tt_map S t p of None \<Rightarrow> LevelData_init | Some d \<Rightarrow> d)" for t p l t'
    by (rule find_or_insert_Some)
qed (simp_all add: tt_ptr_find tt_find_None_iff level_at_map set_level_at_inv set_level_at_map
       find_or_insert_None tt_erase_spec)

lemma find_or_insert_None_iff:
  assumes inv: "tt_inv S K C tt" and p: "p \<noteq> EMPTY S"
  shows "fst (find_or_insert S tt p) = None \<longleftrightarrow> tt_map S tt p = None \<and> tt_full K C S tt"
proof (cases "find_or_insert S tt p")
  case (Pair r tt')
  show ?thesis
  proof (cases r)
    case None
    then show ?thesis using find_or_insert_None [OF inv p] Pair by auto
  next
    case (Some l)
    note a = find_or_insert_Some [OF inv p, of l tt']
    have "\<not> tt_full K C S tt" if "tt_map S tt p = None"
    proof
      assume "tt_full K C S tt"
      with that a Some Pair have "card (dom (tt_map S tt')) = Suc (K + C)"
        by (simp add: tt_full_def card_insert_if card_dom_le [OF inv] domIff)
      then show False using a Some Pair card_dom_le(1) [of S K C tt'] by simp
    qed
    then show ?thesis using Some Pair by auto
  qed
qed

text \<open>A book side reached from an empty one, by the operations the book uses.\<close>

datatype level_op = Acquire u32 level_data | Modify u32 level_data | Erase_level u32

fun level_op_price :: "level_op \<Rightarrow> u32" where
  "level_op_price (Acquire p d) = p"
| "level_op_price (Modify p d) = p"
| "level_op_price (Erase_level p) = p"

fun run_level_op :: "side \<Rightarrow> level_op \<Rightarrow> two_tier \<Rightarrow> two_tier" where
  "run_level_op S (Acquire p d) tt = (case find_or_insert S tt p of
     (None, tt') \<Rightarrow> tt' | (Some l, tt') \<Rightarrow> set_level_at tt' l d)"
| "run_level_op S (Modify p d) tt = (case tt_find S tt p of
     None \<Rightarrow> tt | Some l \<Rightarrow> set_level_at tt l d)"
| "run_level_op S (Erase_level p) tt = tt_erase S tt p"

text \<open>The specification of the same operations on a map of at most \<open>cap\<close> prices.\<close>

fun spec_level_op :: "nat \<Rightarrow> level_op \<Rightarrow> (u32 \<rightharpoonup> level_data) \<Rightarrow> (u32 \<rightharpoonup> level_data)" where
  "spec_level_op cap (Acquire p d) m = (if m p = None \<and> card (dom m) = cap then m else m(p \<mapsto> d))"
| "spec_level_op cap (Modify p d) m = (if m p = None then m else m(p \<mapsto> d))"
| "spec_level_op cap (Erase_level p) m = m(p := None)"

lemma run_level_op_spec:
  assumes inv: "tt_inv S K C tt" and p: "level_op_price oper \<noteq> EMPTY S"
  shows "tt_inv S K C (run_level_op S oper tt)
    \<and> tt_map S (run_level_op S oper tt) = spec_level_op (K + C) oper (tt_map S tt)"
proof (cases oper)
  case (Acquire q d)
  note p' = p [unfolded Acquire level_op_price.simps]
  show ?thesis
  proof (cases "find_or_insert S tt q")
    case (Pair r tt')
    then show ?thesis
      using find_or_insert_None_iff [OF inv p'] tt.acquire_put [OF inv p'] find_or_insert_None [OF inv p']
      by (cases r) (auto simp: Acquire inv tt_full_def)
  qed
next
  case (Modify q d)
  note p' = p [unfolded Modify level_op_price.simps]
  show ?thesis
    using tt.search_put [OF inv p'] tt_find_None_iff [OF inv p'] inv
    by (cases "tt_find S tt q") (auto simp: Modify)
next
  case (Erase_level q)
  then show ?thesis using tt_erase_spec [OF inv] p by simp
qed

lemma run_level_ops_spec:
  assumes "tt_inv S K C tt" "\<forall>oper \<in> set ops. level_op_price oper \<noteq> EMPTY S"
  shows "tt_inv S K C (fold (run_level_op S) ops tt)
    \<and> tt_map S (fold (run_level_op S) ops tt) = fold (spec_level_op (K + C)) ops (tt_map S tt)"
  using assms
proof (induction ops arbitrary: tt)
  case (Cons oper ops)
  then show ?case using run_level_op_spec [of S K C tt oper] by simp
qed simp

lemma worst_scan_stays: "worst_scan S ps i (EMPTY S) k = (EMPTY S, k)"
  by (induction ps arbitrary: i) (simp_all add: Let_def better_rank)

lemma worst_scan_EMPTY:
  "hot_index ps (EMPTY S) i = Some j \<Longrightarrow> w \<noteq> EMPTY S \<Longrightarrow> worst_scan S ps i w k = (EMPTY S, j)"
proof (induction ps arbitrary: i w k)
  case (Cons p ps)
  show ?case
  proof (cases "p = EMPTY S")
    case True
    then have "better S w p"
      using Cons.prems(2) rank_0_iff [of S w] by (simp add: better_rank)
    with True Cons.prems show ?thesis
      by (simp add: Let_def worst_scan_stays)
  next
    case False
    with Cons show ?thesis by (simp add: Let_def)
  qed
qed simp

lemma set_level_at_prices [simp]:
  "lv_prices (tt_hot (set_level_at tt l d)) = lv_prices (tt_hot tt)"
  "lv_prices (tt_cold (set_level_at tt l d)) = lv_prices (tt_cold tt)"
  "lv_size (tt_cold (set_level_at tt l d)) = lv_size (tt_cold tt)"
  by (simp_all add: set_level_at_def)

lemma tt_find_set_level_at [simp]: "tt_find S (set_level_at tt l d) p = tt_find S tt p"
  by (simp only: tt_find_def find_idx_def set_level_at_prices)

text \<open>A free hot slot is taken by the next new price, and its level data is cleared.\<close>

lemma find_or_insert_free_slot:
  assumes "hot_index (lv_prices (tt_hot tt)) (EMPTY S) 0 = Some i" "i < length (lv_levels (tt_hot tt))"
    "lv_prices (tt_hot tt) ! i = EMPTY S" "p \<noteq> EMPTY S" "tt_find S tt p = None"
  obtains tt' where "find_or_insert S tt p = (Some \<lparr>loc_tier = HOT, loc_idx = i\<rparr>, tt')"
    "level_at tt' \<lparr>loc_tier = HOT, loc_idx = i\<rparr> = LevelData_init"
proof -
  have "BEST_POSSIBLE S \<noteq> EMPTY S" by (simp add: BEST_POSSIBLE_def EMPTY_def)
  then have b: "belongs_to_hot S tt p = (True, i)"
    using worst_scan_EMPTY [OF assms(1), of "BEST_POSSIBLE S" 0] assms(4) rank_0_iff [of S p]
    by (simp add: belongs_to_hot_def better_rank)
  show ?thesis
  proof (rule that)
    show "find_or_insert S tt p = (Some \<lparr>loc_tier = HOT, loc_idx = i\<rparr>, snd (find_or_insert S tt p))"
      using assms(3,5) b by (simp add: find_or_insert_def Let_def)
    show "level_at (snd (find_or_insert S tt p)) \<lparr>loc_tier = HOT, loc_idx = i\<rparr> = LevelData_init"
      using assms(2,3,5) b by (simp add: find_or_insert_def Let_def level_at_def)
  qed
qed

text \<open>
  C6. A side of the book behaves as a map from prices to levels with \<open>K + ColdCap\<close> entries:
  after any sequence of level creations, updates through the returned pointer, updates of
  existing levels and erasures, looking up any price gives what the map would give, the
  side's invariant (distinct hot prices, sorted cold prices, every hot price better than
  every cold one, exact best price and index) holds, and creation is refused exactly when the
  map holds \<open>K + ColdCap\<close> other prices. Prices equal to the side's \<open>EMPTY\<close> are excluded.
\<close>

theorem levels_refine_map:
  assumes "0 < K" "\<forall>oper \<in> set ops. level_op_price oper \<noteq> EMPTY S"
  shows "let tt = fold (run_level_op S) ops (TwoTierLevels_init S K C);
      m = fold (spec_level_op (K + C)) ops Map.empty
    in tt_inv S K C tt \<and> (\<forall>p. p \<noteq> EMPTY S \<longrightarrow> m p = map_option (level_at tt) (tt_find S tt p)
      \<and> (fst (find_or_insert S tt p) = None \<longleftrightarrow> m p = None \<and> card (dom m) = K + C))"
proof -
  let ?tt = "fold (run_level_op S) ops (TwoTierLevels_init S K C)"
  let ?m = "fold (spec_level_op (K + C)) ops Map.empty"
  have spec: "tt_inv S K C ?tt" "tt_map S ?tt = ?m"
    using run_level_ops_spec [of S K C "TwoTierLevels_init S K C" ops] TwoTierLevels_init_spec [OF assms(1)]
      assms(2) by simp_all
  show ?thesis
    unfolding Let_def
    using spec tt_find_map [OF spec(1)] find_or_insert_None_iff [OF spec(1)]
    by (simp add: tt_full_def)
qed

theorem levels_refine_map_witness:
  "tt_inv BID 2 1 (fold (run_level_op BID)
     [Acquire 100 LevelData_init, Acquire 102 LevelData_init, Acquire 101 LevelData_init, Erase_level 102]
     (TwoTierLevels_init BID 2 1))"
  using levels_refine_map [where S = BID and K = 2 and C = 1 and ops =
     "[Acquire 100 LevelData_init, Acquire 102 LevelData_init, Acquire 101 LevelData_init, Erase_level 102]"]
  by (simp add: EMPTY_def Let_def)

text \<open>
  The reported best price is the best price held: the largest bid or the smallest ask, and
  the level \<open>best()\<close> points to is the level of that price; an empty side reports \<open>EMPTY\<close>
  and \<open>best()\<close> is null.
\<close>

lemma best_is_best:
  assumes "tt_inv S K C tt"
  shows "if tt_map S tt = Map.empty then tt_best_price tt = EMPTY S \<and> tt_best S tt = None
    else tt_best_price tt \<in> dom (tt_map S tt)
      \<and> (\<forall>q \<in> dom (tt_map S tt). q = tt_best_price tt \<or> better S (tt_best_price tt) q)
      \<and> (\<exists>l. tt_best S tt = Some l \<and> tt_map S tt (tt_best_price tt) = Some (level_at tt l))"
  using tt_best_price_spec [OF assms] tt_best_spec [OF assms] by (auto simp: domIff)

lemma best_is_best_witness:
  "tt_best_price (run_level_op BID (Acquire 100 LevelData_init) (TwoTierLevels_init BID 2 1)) = 100"
proof -
  let ?tt = "run_level_op BID (Acquire 100 LevelData_init) (TwoTierLevels_init BID 2 1)"
  have i: "tt_inv BID 2 1 (TwoTierLevels_init BID 2 1)" "tt_map BID (TwoTierLevels_init BID 2 1) = Map.empty"
    using TwoTierLevels_init_spec [of 2 BID 1] by auto
  have "tt_inv BID 2 1 ?tt" "tt_map BID ?tt = [100 \<mapsto> LevelData_init]"
    using run_level_op_spec [OF i(1), of "Acquire 100 LevelData_init"] i(2) by (simp_all add: EMPTY_def)
  with best_is_best [OF this(1)] show ?thesis by simp
qed

text \<open>
  C32. The price equal to \<open>EMPTY\<close> (0 for bids, \<open>UINT32_MAX\<close> for asks) is not stored: as
  long as a hot slot is free, \<open>find_or_insert\<close> returns that free slot for it and records no
  price, and the next better price takes the same slot and clears it, so the level written
  through the first pointer is lost.
\<close>

theorem empty_price_level_lost:
  assumes "tt_inv S K C tt" "EMPTY S \<in> set (lv_prices (tt_hot tt))"
  shows "\<exists>l. tt_find S tt (EMPTY S) = Some l \<and> find_or_insert S tt (EMPTY S) = (Some l, tt)
    \<and> (\<forall>p d. p \<noteq> EMPTY S \<and> tt_map S tt p = None \<longrightarrow>
        (case find_or_insert S (set_level_at tt l d) p of
           (l', tt') \<Rightarrow> l' = Some l \<and> level_at tt' l = LevelData_init))"
proof -
  obtain i where i: "hot_index (lv_prices (tt_hot tt)) (EMPTY S) 0 = Some i"
    using assms(2) hot_index_None [of "lv_prices (tt_hot tt)" "EMPTY S" 0] by auto
  let ?l = "\<lparr>loc_tier = HOT, loc_idx = i\<rparr>"
  have il: "i < length (lv_levels (tt_hot tt))" "lv_prices (tt_hot tt) ! i = EMPTY S"
    using hot_index_Some [OF i] assms(1) by (auto simp: tt_invs)
  have "case find_or_insert S (set_level_at tt ?l d) p of
      (l', tt') \<Rightarrow> l' = Some ?l \<and> level_at tt' ?l = LevelData_init"
    if p: "p \<noteq> EMPTY S" "tt_map S tt p = None" for p d
  proof -
    have "i < length (lv_levels (tt_hot (set_level_at tt ?l d)))"
      using il by (simp add: set_level_at_def)
    then obtain tt' where "find_or_insert S (set_level_at tt ?l d) p = (Some ?l, tt')"
      "level_at tt' ?l = LevelData_init"
      using find_or_insert_free_slot [of "set_level_at tt ?l d" S i p] i il p(1)
        tt_find_None_iff [OF assms(1) p(1)] p(2) by auto
    then show ?thesis by simp
  qed
  moreover have "tt_find S tt (EMPTY S) = Some ?l"
    using i by (simp add: tt_find_def find_idx_def)
  ultimately show ?thesis
    by (intro exI [of _ ?l]) (simp add: find_or_insert_def)
qed

theorem empty_price_level_lost_witness:
  "let d = \<lparr>ld_head = 7, ld_tail = 7, ld_total_qty = 5\<rparr>;
       (l, tt) = find_or_insert BID (TwoTierLevels_init BID 2 1) 0;
       tt = set_level_at tt (the l) d;
       (l', tt') = find_or_insert BID tt 100
   in l' = l \<and> level_at tt' (the l') = LevelData_init"
proof -
  let ?tt = "TwoTierLevels_init BID 2 1"
  have "tt_inv BID 2 1 ?tt" "tt_map BID ?tt = Map.empty" "EMPTY BID \<in> set (lv_prices (tt_hot ?tt))"
    using TwoTierLevels_init_spec [of 2 BID 1] by (auto simp: TwoTierLevels_init_def Level_init_def)
  note at_init = empty_price_level_lost [OF this(1,3)] this(2)
  then obtain l where l: "find_or_insert BID ?tt 0 = (Some l, ?tt)"
    "\<And>d. case find_or_insert BID (set_level_at ?tt l d) 100 of
       (l', tt') \<Rightarrow> l' = Some l \<and> level_at tt' l = LevelData_init"
    by (auto simp: EMPTY_def)
  show ?thesis
    using l(1) l(2) [of "\<lparr>ld_head = 7, ld_tail = 7, ld_total_qty = 5\<rparr>"]
    by (simp add: Let_def split: prod.splits)
qed

end
