(* ===== verification/Linear_Probing_Table.thy ===== *)
theory Linear_Probing_Table
  imports Market_Types
begin

section \<open>Linear probing hash table (src/common/linear\_probing\_table.hpp)\<close>

text \<open>
  The open-addressing table that maps order ids to orders and instruments to books. A slot is
  a key and a pointer: \<open>nullptr\<close> marks an empty slot, the sentinel \<open>reinterpret_cast<V>(1)\<close>
  a deleted one (tombstone mode). The template parameters are the key type, the hash and the
  erase mode. \<open>size_t\<close> sums of indices stay far below \<open>2^64\<close> and are natural numbers; the
  differences in \<open>erase\<close> rely on unsigned wrap-around and are 64-bit words.
\<close>

definition FibHash64 :: "u64 \<Rightarrow> u64" where
  "FibHash64 key = key * 0x9e3779b97f4a7c15"

definition FibHash32 :: "u32 \<Rightarrow> u64" where
  "FibHash32 key = ucast key * 0x9e3779b97f4a7c15"

datatype erase_mode = BackwardShift | Tombstone

record 'k lpt =
  lp_data :: "('k \<times> ptr) list"
  lp_size :: nat
  lp_capacity :: nat
  lp_shift :: nat

definition lp_get_pos :: "('k \<Rightarrow> u64) \<Rightarrow> nat \<Rightarrow> 'k \<Rightarrow> nat" where
  "lp_get_pos hash shift key = unat (drop_bit shift (hash key))"

definition is_empty :: "('k \<times> ptr) list \<Rightarrow> nat \<Rightarrow> bool" where
  "is_empty data slot = (snd (data ! slot) = nullptr)"

definition set_empty :: "('k \<times> ptr) list \<Rightarrow> nat \<Rightarrow> ('k \<times> ptr) list" where
  "set_empty data slot = data[slot := (fst (data ! slot), nullptr)]"

definition is_deleted :: "('k \<times> ptr) list \<Rightarrow> nat \<Rightarrow> bool" where
  "is_deleted data slot = (snd (data ! slot) = 1)"

definition set_deleted :: "('k \<times> ptr) list \<Rightarrow> nat \<Rightarrow> ('k \<times> ptr) list" where
  "set_deleted data slot = data[slot := (fst (data ! slot), 1)]"

text \<open>The probe loops: \<open>i\<close> is the loop counter, the last argument the iterations left.\<close>

fun find_key_loop :: "erase_mode \<Rightarrow> 'k lpt \<Rightarrow> 'k \<Rightarrow> nat \<Rightarrow> nat \<Rightarrow> nat \<Rightarrow> nat" where
  "find_key_loop mode t key pos i 0 = lp_capacity t"
| "find_key_loop mode t key pos i (Suc left) =
     (let slot = (pos + i) AND (lp_capacity t - 1) in
      if is_empty (lp_data t) slot then lp_capacity t
      else if mode = Tombstone \<and> is_deleted (lp_data t) slot
      then find_key_loop mode t key pos (i + 1) left
      else if fst (lp_data t ! slot) = key then slot
      else find_key_loop mode t key pos (i + 1) left)"

definition find_key :: "erase_mode \<Rightarrow> ('k \<Rightarrow> u64) \<Rightarrow> 'k lpt \<Rightarrow> 'k \<Rightarrow> nat" where
  "find_key mode hash t key =
     find_key_loop mode t key (lp_get_pos hash (lp_shift t) key) 0 (lp_capacity t)"

text \<open>The constructor: the allocation comes first, then the check of the capacity.\<close>

datatype lp_exception = Bad_Alloc | Runtime_Error

definition LinearProbingTable :: "bool \<Rightarrow> nat \<Rightarrow> 'k \<Rightarrow> lp_exception + 'k lpt" where
  "LinearProbingTable alloc_ok capacity zero_key =
     (let cap2 = (capacity * 2) mod 2 ^ 64 in
      if \<not> alloc_ok then Inl Bad_Alloc
      else if \<not> has_single_bit capacity then Inl Runtime_Error
      else Inr \<lparr>lp_data = replicate cap2 (zero_key, nullptr), lp_size = 0, lp_capacity = cap2,
                lp_shift = 64 - countr_zero cap2\<rparr>)"

fun lp_insert_loop ::
  "erase_mode \<Rightarrow> 'k lpt \<Rightarrow> 'k \<Rightarrow> ptr \<Rightarrow> nat \<Rightarrow> nat \<Rightarrow> nat \<Rightarrow> nat \<Rightarrow> bool \<times> 'k lpt" where
  "lp_insert_loop mode t key v pos first_deleted i 0 =
     (if first_deleted \<noteq> lp_capacity t
      then (True, t\<lparr>lp_data := (lp_data t)[first_deleted := (key, v)], lp_size := lp_size t + 1\<rparr>)
      else (False, t))"
| "lp_insert_loop mode t key v pos first_deleted i (Suc left) =
     (let slot = (pos + i) AND (lp_capacity t - 1) in
      if mode = Tombstone \<and> is_deleted (lp_data t) slot
      then lp_insert_loop mode t key v pos
             (if first_deleted = lp_capacity t then slot else first_deleted) (i + 1) left
      else if is_empty (lp_data t) slot
      then let insert_slot = (if first_deleted \<noteq> lp_capacity t then first_deleted else slot)
           in (True, t\<lparr>lp_data := (lp_data t)[insert_slot := (key, v)], lp_size := lp_size t + 1\<rparr>)
      else if fst (lp_data t ! slot) = key then (False, t)
      else lp_insert_loop mode t key v pos first_deleted (i + 1) left)"

definition lp_insert :: "erase_mode \<Rightarrow> ('k \<Rightarrow> u64) \<Rightarrow> 'k lpt \<Rightarrow> 'k \<Rightarrow> ptr \<Rightarrow> bool \<times> 'k lpt" where
  "lp_insert mode hash t key v =
     lp_insert_loop mode t key v (lp_get_pos hash (lp_shift t) key) (lp_capacity t) 0 (lp_capacity t)"

definition lp_find :: "erase_mode \<Rightarrow> ('k \<Rightarrow> u64) \<Rightarrow> 'k lpt \<Rightarrow> 'k \<Rightarrow> ptr" where
  "lp_find mode hash t key =
     (let pos = find_key mode hash t key in
      if pos = lp_capacity t then nullptr else snd (lp_data t ! pos))"

text \<open>
  The backward shift. \<open>hole\<close> is the variable \<open>empty\<close>, \<open>current\<close> the slot looked at; the step counts are
  unsigned 64-bit differences masked to the capacity. The loop ends at the first empty slot.
\<close>

definition lp_steps :: "nat \<Rightarrow> nat \<Rightarrow> nat \<Rightarrow> nat" where
  "lp_steps cap to wanted = unat ((word_of_nat to - word_of_nat wanted :: u64) AND word_of_nat (cap - 1))"

partial_function (option) lp_shift_loop ::
  "('k \<Rightarrow> nat) \<Rightarrow> nat \<Rightarrow> ('k \<times> ptr) list \<Rightarrow> nat \<Rightarrow> nat \<Rightarrow> ('k \<times> ptr) list option" where
  "lp_shift_loop get_pos cap data hole current =
     (if is_empty data current then Some data
      else let wanted = get_pos (fst (data ! current));
               next = (current + 1) AND (cap - 1)
           in if lp_steps cap hole wanted < lp_steps cap current wanted
              then lp_shift_loop get_pos cap (set_empty (data[hole := data ! current]) current) current next
              else lp_shift_loop get_pos cap data hole next)"

definition lp_erase :: "erase_mode \<Rightarrow> ('k \<Rightarrow> u64) \<Rightarrow> 'k lpt \<Rightarrow> 'k \<Rightarrow> (bool \<times> 'k lpt) res" where
  "lp_erase mode hash t key =
     (let pos = find_key mode hash t key in
      if pos = lp_capacity t then Inr (False, t)
      else let t = t\<lparr>lp_size := lp_size t - 1\<rparr> in
        case mode of
          Tombstone \<Rightarrow> Inr (True, t\<lparr>lp_data := set_deleted (lp_data t) pos\<rparr>)
        | BackwardShift \<Rightarrow>
            (case lp_shift_loop (lp_get_pos hash (lp_shift t)) (lp_capacity t)
                    (set_empty (lp_data t) pos) pos ((pos + 1) AND (lp_capacity t - 1)) of
               None \<Rightarrow> Inl Diverged
             | Some data \<Rightarrow> Inr (True, t\<lparr>lp_data := data\<rparr>)))"

text \<open>
  \<open>rehash\<close> is \<open>noexcept\<close> and catches \<open>std::bad_alloc\<close> only: the \<open>std::runtime_error\<close> of a
  capacity that is no power of two ends the process. \<open>size_\<close> is not swapped.
\<close>

fun rehash_loop :: "erase_mode \<Rightarrow> ('k \<Rightarrow> u64) \<Rightarrow> ('k \<times> ptr) list \<Rightarrow> 'k lpt \<Rightarrow> 'k lpt" where
  "rehash_loop mode hash [] new_table = new_table"
| "rehash_loop mode hash ((k, v) # slots) new_table =
     (if v = nullptr \<or> v = 1 then rehash_loop mode hash slots new_table
      else rehash_loop mode hash slots (snd (lp_insert mode hash new_table k v)))"

definition lp_rehash :: "erase_mode \<Rightarrow> ('k \<Rightarrow> u64) \<Rightarrow> bool \<Rightarrow> 'k \<Rightarrow> 'k lpt \<Rightarrow> nat \<Rightarrow> (bool \<times> 'k lpt) res" where
  "lp_rehash mode hash alloc_ok zero_key t new_capacity =
     (case LinearProbingTable alloc_ok new_capacity zero_key of
        Inl Bad_Alloc \<Rightarrow> Inr (False, t)
      | Inl Runtime_Error \<Rightarrow> Inl Terminated
      | Inr new_table \<Rightarrow>
          let nt = rehash_loop mode hash (lp_data t) new_table in
          Inr (True, t\<lparr>lp_data := lp_data nt, lp_capacity := lp_capacity nt, lp_shift := lp_shift nt\<rparr>))"

subsection \<open>Distances around the table\<close>

text \<open>The number of steps from slot \<open>a\<close> to slot \<open>b\<close>, walking up with wrap-around.\<close>

definition dist :: "nat \<Rightarrow> nat \<Rightarrow> nat \<Rightarrow> nat" where
  "dist n a b = (b + n - a) mod n"

lemma dist_less [simp]: "0 < n \<Longrightarrow> dist n a b < n"
  by (simp add: dist_def)

lemma dist_alt: "a < n \<Longrightarrow> b < n \<Longrightarrow> dist n a b = (if a \<le> b then b - a else b + n - a)"
  by (auto simp: dist_def mod_if)

lemma slot_dist [simp]: "a < n \<Longrightarrow> b < n \<Longrightarrow> (a + dist n a b) mod n = b"
  by (auto simp: dist_alt mod_if)

lemma dist_slot: "a < n \<Longrightarrow> m < n \<Longrightarrow> dist n a ((a + m) mod n) = m"
  by (auto simp: dist_alt mod_if)

lemma dist_0_iff: "a < n \<Longrightarrow> b < n \<Longrightarrow> dist n a b = 0 \<longleftrightarrow> a = b"
  by (auto simp: dist_alt)

lemma dist_inj: "a < n \<Longrightarrow> b < n \<Longrightarrow> c < n \<Longrightarrow> dist n a b = dist n a c \<longleftrightarrow> b = c"
  by (auto simp: dist_alt split: if_splits)

lemma dist_split:
  "h < n \<Longrightarrow> e < n \<Longrightarrow> i < n \<Longrightarrow> dist n h e < dist n h i \<Longrightarrow> dist n h i = dist n h e + dist n e i"
  by (auto simp: dist_alt split: if_splits)

lemma dist_add:
  "h < n \<Longrightarrow> e < n \<Longrightarrow> c < n \<Longrightarrow> dist n h e + dist n e c < n \<Longrightarrow> dist n h c = dist n h e + dist n e c"
  by (auto simp: dist_alt split: if_splits)

lemma dist_next:
  "e < n \<Longrightarrow> c < n \<Longrightarrow> (c + 1) mod n \<noteq> e \<Longrightarrow> dist n e ((c + 1) mod n) = dist n e c + 1"
  by (auto simp: dist_alt mod_if split: if_splits)

lemma dist_next_wrap:
  "e < n \<Longrightarrow> c < n \<Longrightarrow> (c + 1) mod n = e \<Longrightarrow> dist n e c + 1 = n"
  by (auto simp: dist_alt mod_if split: if_splits)

lemma lp_steps_dist:
  assumes "cap = 2 ^ c" "c < 64" "to < cap" "wanted < cap"
  shows "lp_steps cap to wanted = dist cap wanted to"
proof -
  let ?d = "word_of_nat to - word_of_nat wanted :: u64"
  have lt: "to < 2 ^ 64" "wanted < 2 ^ 64"
    using assms power_strict_increasing [of c 64 "2 :: nat"] by auto
  have "word_of_nat (cap - 1) = (mask c :: u64)"
    by (simp add: assms(1) mask_eq_exp_minus_1 of_nat_diff)
  then have "lp_steps cap to wanted = unat (take_bit c ?d)"
    by (simp add: lp_steps_def take_bit_eq_mask)
  also have "\<dots> = unat ?d mod cap"
    unfolding unsigned_take_bit_eq by (simp add: take_bit_eq_mod assms(1))
  also have "\<dots> = dist cap wanted to"
  proof -
    have u: "unat (word_of_nat to :: u64) = to" "unat (word_of_nat wanted :: u64) = wanted"
      using lt by (simp_all add: unsigned_of_nat take_bit_nat_eq_self)
    obtain k where k: "(2 :: nat) ^ 64 = cap * k"
      using assms(1,2) by (metis le_add_diff_inverse less_imp_le power_add)
    have "unat ?d = (if wanted \<le> to then to - wanted else 2 ^ 64 + to - wanted)"
      using lt u unat_sub_if' [of "word_of_nat to :: u64" "word_of_nat wanted"]
      by (auto simp: word_le_nat_alt)
    moreover have "(2 ^ 64 + to - wanted) mod cap = (cap + to - wanted) mod cap" if "\<not> wanted \<le> to"
    proof -
      have "0 < k" using k by (cases k) auto
      then have "cap \<le> cap * k" by simp
      then have "2 ^ 64 + to - wanted = cap * (k - 1) + (cap + to - wanted)"
        using k assms(4) \<open>0 < k\<close> by (simp only: diff_mult_distrib2)
      then show ?thesis by simp
    qed
    ultimately show ?thesis using assms(3,4) by (simp add: dist_alt [OF assms(4,3)] add.commute)
  qed
  finally show ?thesis .
qed

lemma lp_get_pos_less:
  assumes "c < 64" "shift = 64 - c"
  shows "lp_get_pos hash shift key < 2 ^ c"
proof -
  have "unat (drop_bit shift (hash key)) = unat (hash key) div 2 ^ shift"
    unfolding unsigned_drop_bit_eq
    using unsigned_less [where 'a = nat, of "hash key"] by (simp add: drop_bit_eq_div take_bit_nat_eq_self)
  moreover have "unat (hash key) < 2 ^ c * 2 ^ shift"
    using unsigned_less [where 'a = nat, of "hash key"] assms by (simp flip: power_add)
  ultimately show ?thesis by (simp add: lp_get_pos_def less_mult_imp_div_less)
qed

subsection \<open>Invariant and abstraction\<close>

text \<open>
  \<open>home k\<close> is the slot the hash selects. A slot is used unless it is empty, live when it holds
  a real pointer. Every slot on the way from the home of a live key to its slot is used, live
  keys are distinct, and a table in backward shift mode has no deleted slots.
\<close>

definition live :: "('k \<times> ptr) list \<Rightarrow> nat \<Rightarrow> bool" where
  "live d i \<longleftrightarrow> 2 \<le> snd (d ! i)"

definition probe_ok :: "('k \<Rightarrow> nat) \<Rightarrow> ('k \<times> ptr) list \<Rightarrow> bool" where
  "probe_ok home d \<longleftrightarrow> (\<forall>i < length d. live d i \<longrightarrow>
     (\<forall>m < dist (length d) (home (fst (d ! i))) i.
        snd (d ! ((home (fst (d ! i)) + m) mod length d)) \<noteq> 0))"

definition keys_distinct :: "('k \<times> ptr) list \<Rightarrow> bool" where
  "keys_distinct d \<longleftrightarrow> (\<forall>i < length d. \<forall>j < length d.
     live d i \<and> live d j \<and> fst (d ! i) = fst (d ! j) \<longrightarrow> i = j)"

definition lp_data_map :: "('k \<times> ptr) list \<Rightarrow> 'k \<rightharpoonup> ptr" where
  "lp_data_map d k = (if \<exists>i < length d. live d i \<and> fst (d ! i) = k
     then Some (snd (d ! (LEAST i. i < length d \<and> live d i \<and> fst (d ! i) = k))) else None)"

definition lp_inv :: "erase_mode \<Rightarrow> ('k \<Rightarrow> u64) \<Rightarrow> 'k lpt \<Rightarrow> bool" where
  "lp_inv mode hash t \<longleftrightarrow> (\<exists>c. 0 < c \<and> c < 64 \<and> lp_capacity t = 2 ^ c \<and> lp_shift t = 64 - c)
     \<and> length (lp_data t) = lp_capacity t
     \<and> keys_distinct (lp_data t) \<and> probe_ok (lp_get_pos hash (lp_shift t)) (lp_data t)
     \<and> (mode = BackwardShift \<longrightarrow> (\<forall>i < lp_capacity t. snd (lp_data t ! i) \<noteq> 1))
     \<and> lp_size t = card {i. i < lp_capacity t \<and> live (lp_data t) i}"

definition lp_map :: "'k lpt \<Rightarrow> 'k \<rightharpoonup> ptr" where
  "lp_map t = lp_data_map (lp_data t)"

lemma lp_data_map_Some_iff:
  assumes "keys_distinct d"
  shows "lp_data_map d k = Some v \<longleftrightarrow> (\<exists>i < length d. live d i \<and> d ! i = (k, v))"
proof -
  have key: "(LEAST i. i < length d \<and> live d i \<and> fst (d ! i) = k) = i"
    if "i < length d" "live d i" "fst (d ! i) = k" for i
    by (rule Least_equality) (use that assms in \<open>auto simp: keys_distinct_def\<close>)
  show ?thesis
  proof (cases "\<exists>i < length d. live d i \<and> fst (d ! i) = k")
    case True
    then obtain i where i: "i < length d" "live d i" "fst (d ! i) = k" by blast
    have "lp_data_map d k = Some (snd (d ! i))"
      using True key [OF i] by (auto simp: lp_data_map_def)
    moreover have "d ! i = (k, snd (d ! i))" using i(3) by (auto simp: prod_eq_iff)
    moreover have "snd (d ! i) = v" if "j < length d" "live d j" "d ! j = (k, v)" for j
      using that i assms unfolding keys_distinct_def by (metis fst_conv snd_conv)
    ultimately show ?thesis using i by auto
  next
    case False
    then show ?thesis by (auto simp: lp_data_map_def)
  qed
qed

lemma lp_data_map_None_iff: "lp_data_map d k = None \<longleftrightarrow> (\<forall>i < length d. live d i \<longrightarrow> fst (d ! i) \<noteq> k)"
  by (auto simp: lp_data_map_def)

text \<open>Two tables with the same live entries have the same map.\<close>

definition entries :: "('k \<times> ptr) list \<Rightarrow> ('k \<times> ptr) set" where
  "entries d = {d ! i |i. i < length d \<and> live d i}"

lemma entries_iff: "(k, v) \<in> entries d \<longleftrightarrow> (\<exists>i < length d. live d i \<and> d ! i = (k, v))"
  by (auto simp: entries_def) metis

lemma lp_data_map_entries:
  assumes "keys_distinct d"
  shows "lp_data_map d k = Some v \<longleftrightarrow> (k, v) \<in> entries d"
  using lp_data_map_Some_iff [OF assms] by (simp add: entries_iff)

lemma lp_data_map_eqI:
  assumes "keys_distinct d" "\<And>k v. (k, v) \<in> entries d \<longleftrightarrow> m k = Some v"
  shows "lp_data_map d = m"
proof
  fix k show "lp_data_map d k = m k"
    using assms(2) lp_data_map_entries [OF assms(1)] by (cases "m k") (metis not_None_eq, simp)
qed

lemma card_live:
  assumes "keys_distinct d"
  shows "card {i. i < length d \<and> live d i} = card (dom (lp_data_map d))" "finite (dom (lp_data_map d))"
proof -
  let ?L = "{i. i < length d \<and> live d i}"
  have "dom (lp_data_map d) = (\<lambda>i. fst (d ! i)) ` ?L"
    by (auto simp: lp_data_map_def image_iff split: if_splits)
  moreover have "inj_on (\<lambda>i. fst (d ! i)) ?L"
    using assms by (auto simp: inj_on_def keys_distinct_def)
  ultimately show "card ?L = card (dom (lp_data_map d))" "finite (dom (lp_data_map d))"
    by (simp_all add: card_image)
qed

subsection \<open>Search\<close>

text \<open>
  The search walks from the home slot: it stops at the first empty slot, or at the first used
  one that holds the key.
\<close>

definition matches :: "('k \<times> ptr) list \<Rightarrow> 'k \<Rightarrow> nat \<Rightarrow> bool" where
  "matches d key i \<longleftrightarrow> live d i \<and> fst (d ! i) = key"

lemma find_key_loop_spec:
  assumes "lp_capacity t = 2 ^ c" "mode = BackwardShift \<longrightarrow> (\<forall>i < lp_capacity t. snd (lp_data t ! i) \<noteq> 1)"
    and "n = lp_capacity t" "d = lp_data t"
  shows "(\<exists>m < left. find_key_loop mode t key pos i left = (pos + i + m) mod n
        \<and> matches d key ((pos + i + m) mod n)
        \<and> (\<forall>m' < m. snd (d ! ((pos + i + m') mod n)) \<noteq> 0))
    \<or> find_key_loop mode t key pos i left = n
      \<and> (\<forall>m < left. matches d key ((pos + i + m) mod n) \<longrightarrow>
          (\<exists>m' < m. snd (d ! ((pos + i + m') mod n)) = 0))"
proof (induction left arbitrary: i)
  case 0
  then show ?case by (simp add: assms)
next
  case (Suc left)
  let ?s = "(pos + i) mod n"
  have s: "(pos + i) AND (lp_capacity t - 1) = ?s" and sn: "?s < n"
    by (simp_all add: assms)
  note unf = find_key_loop.simps(2) [of mode t key pos i left] is_empty_def is_deleted_def
  note IH = Suc.IH [of "i + 1"]
  show ?case
  proof (cases "snd (d ! ?s) = 0")
    case True
    then have "find_key_loop mode t key pos i (Suc left) = n"
      using s assms by (simp add: unf)
    moreover have "\<not> matches d key ?s" using True by (simp add: matches_def live_def)
    ultimately show ?thesis
      using True by (intro disjI2) (auto simp: intro!: exI [of _ 0] gr0I)
  next
    case used: False
    show ?thesis
    proof (cases "matches d key ?s")
      case True
      then have "find_key_loop mode t key pos i (Suc left) = ?s"
        using s used assms by (auto simp: unf matches_def live_def)
      with True show ?thesis by (intro disjI1 exI [of _ 0]) auto
    next
      case nm: False
      have "find_key_loop mode t key pos i (Suc left) = find_key_loop mode t key pos (i + 1) left"
      proof (cases "snd (d ! ?s) = 1")
        case True
        then have "mode = Tombstone" using assms sn by (cases mode) auto
        with True s assms show ?thesis by (simp add: unf)
      next
        case False
        then have "fst (d ! ?s) \<noteq> key" using used nm by (auto simp: matches_def live_def)
        with False used s assms show ?thesis by (simp add: unf)
      qed
      with IH consider
        (hit) m where "m < left" "find_key_loop mode t key pos i (Suc left) = (pos + (i + 1) + m) mod n"
          "matches d key ((pos + (i + 1) + m) mod n)"
          "\<forall>m' < m. snd (d ! ((pos + (i + 1) + m') mod n)) \<noteq> 0"
        | (miss) "find_key_loop mode t key pos i (Suc left) = n"
          "\<forall>m < left. matches d key ((pos + (i + 1) + m) mod n) \<longrightarrow>
             (\<exists>m' < m. snd (d ! ((pos + (i + 1) + m') mod n)) = 0)"
        by auto
      then show ?thesis
      proof cases
        case hit
        have "snd (d ! ((pos + i + m') mod n)) \<noteq> 0" if "m' < Suc m" for m'
          using that hit(4) used by (cases m') auto
        with hit(1-3) show ?thesis by (intro disjI1 exI [of _ "Suc m"]) auto
      next
        case miss
        have "\<exists>m' < m. snd (d ! ((pos + i + m') mod n)) = 0"
          if "m < Suc left" "matches d key ((pos + i + m) mod n)" for m
        proof (cases m)
          case 0
          with that nm show ?thesis by simp
        next
          case (Suc k)
          with that miss(2) obtain m' where "m' < k" "snd (d ! ((pos + (i + 1) + m') mod n)) = 0" by auto
          with Suc show ?thesis by (intro exI [of _ "Suc m'"]) auto
        qed
        with miss(1) show ?thesis by blast
      qed
    qed
  qed
qed

lemma lp_invD:
  assumes "lp_inv mode hash t"
  obtains c where "0 < c" "c < 64" "lp_capacity t = 2 ^ c" "lp_shift t = 64 - c"
    "length (lp_data t) = lp_capacity t" "\<And>k. lp_get_pos hash (lp_shift t) k < lp_capacity t"
proof -
  obtain c where c: "0 < c" "c < 64" "lp_capacity t = 2 ^ c" "lp_shift t = 64 - c"
    "length (lp_data t) = lp_capacity t"
    using assms unfolding lp_inv_def by blast
  show ?thesis by (rule that [OF c]) (simp only: c(3) lp_get_pos_less [OF c(2) c(4)])
qed

lemma lp_inv_facts:
  assumes "lp_inv mode hash t"
  shows "keys_distinct (lp_data t)" "probe_ok (lp_get_pos hash (lp_shift t)) (lp_data t)"
    "mode = BackwardShift \<longrightarrow> (\<forall>i < lp_capacity t. snd (lp_data t ! i) \<noteq> 1)"
    "length (lp_data t) = lp_capacity t" "lp_size t = card (dom (lp_map t))" "finite (dom (lp_map t))"
    "card (dom (lp_map t)) = card {i. i < lp_capacity t \<and> live (lp_data t) i}"
  using assms card_live [of "lp_data t"] by (auto simp: lp_inv_def lp_map_def)

lemma probe_path:
  assumes "probe_ok home d" "i < length d" "matches d key i" "home key < length d"
    "m < dist (length d) (home key) i"
  shows "snd (d ! ((home key + m) mod length d)) \<noteq> 0"
  using assms by (auto simp: probe_ok_def matches_def)

lemma find_key_spec:
  assumes inv: "lp_inv mode hash t"
  shows "case lp_map t key of None \<Rightarrow> find_key mode hash t key = lp_capacity t
    | Some v \<Rightarrow> find_key mode hash t key < lp_capacity t \<and> live (lp_data t) (find_key mode hash t key)
        \<and> lp_data t ! find_key mode hash t key = (key, v)"
proof -
  obtain c where c: "lp_capacity t = 2 ^ c" "\<And>k. lp_get_pos hash (lp_shift t) k < lp_capacity t"
    using lp_invD [OF inv] by blast
  note f = lp_inv_facts [OF inv]
  let ?n = "lp_capacity t" and ?d = "lp_data t" and ?pos = "lp_get_pos hash (lp_shift t) key"
  have map: "lp_map t key = Some v \<longleftrightarrow> (\<exists>i < ?n. matches ?d key i \<and> snd (?d ! i) = v)" for v
    using lp_data_map_Some_iff [OF f(1), of key v] f(4)
    by (auto simp: lp_map_def matches_def prod_eq_iff)
  from find_key_loop_spec [OF c(1) f(3) refl refl, of ?n key ?pos 0]
  consider (hit) m where "find_key mode hash t key = (?pos + m) mod ?n" "matches ?d key ((?pos + m) mod ?n)"
    | (miss) "find_key mode hash t key = ?n"
      "\<forall>m < ?n. matches ?d key ((?pos + m) mod ?n) \<longrightarrow> (\<exists>m' < m. snd (?d ! ((?pos + m') mod ?n)) = 0)"
    by (auto simp: find_key_def)
  then show ?thesis
  proof cases
    case hit
    have "(?pos + m) mod ?n < ?n" using c(1) by simp
    then have "lp_map t key = Some (snd (?d ! ((?pos + m) mod ?n)))" using hit map by blast
    then show ?thesis using hit c(1) by (auto simp: matches_def prod_eq_iff)
  next
    case miss
    have "\<not> matches ?d key i" if i: "i < ?n" for i
    proof
      assume m: "matches ?d key i"
      have "0 < ?n" using i by simp
      then have "dist ?n ?pos i < ?n" "matches ?d key ((?pos + dist ?n ?pos i) mod ?n)"
        using i m c(2) by simp_all
      with miss(2) obtain m' where "m' < dist ?n ?pos i" "snd (?d ! ((?pos + m') mod ?n)) = 0" by blast
      with probe_path [OF f(2), of i key m'] i m c(2) f(4) show False by simp
    qed
    then have "lp_map t key = None" using map by (cases "lp_map t key") auto
    with miss(1) show ?thesis by simp
  qed
qed

lemma lp_find_spec:
  assumes inv: "lp_inv mode hash t"
  shows "lp_find mode hash t key = (case lp_map t key of None \<Rightarrow> nullptr | Some v \<Rightarrow> v)"
  using find_key_spec [OF inv, of key] by (auto simp: lp_find_def Let_def split: option.splits)

lemma lp_map_ge2:
  assumes "lp_inv mode hash t" "lp_map t key = Some v"
  shows "2 \<le> v"
  using find_key_spec [OF assms(1), of key] assms(2) by (auto simp: live_def)

subsection \<open>Insertion\<close>

text \<open>
  What the insertion loop returns from the slots \<open>s 0, s 1, \<dots>\<close> it looks at: it refuses when
  it meets the key or finds every slot live, and otherwise writes to the first deleted slot
  seen before, or else to the first slot that is not live.
\<close>

definition ins_out :: "('k \<times> ptr) list \<Rightarrow> 'k \<Rightarrow> nat \<Rightarrow> nat \<Rightarrow> (nat \<Rightarrow> nat) \<Rightarrow> nat \<Rightarrow> 'k lpt \<Rightarrow>
    (nat \<Rightarrow> 'k lpt) \<Rightarrow> bool \<times> 'k lpt \<Rightarrow> bool" where
  "ins_out d key n fd s left t t' r \<longleftrightarrow>
     r = (False, t) \<and> (\<exists>m < left. matches d key (s m))
   \<or> r = (False, t) \<and> fd = n \<and> (\<forall>m < left. live d (s m))
   \<or> (\<exists>e. r = (True, t' e)
        \<and> (\<forall>m < left. matches d key (s m) \<longrightarrow> (\<exists>m' < m. snd (d ! s m') = 0))
        \<and> (if fd \<noteq> n then e = fd
           else \<exists>m < left. e = s m \<and> \<not> live d e \<and> (\<forall>m' < m. live d (s m'))))"

lemma ins_out_live:
  assumes "ins_out d key n fd (\<lambda>m. s (Suc m)) left t t' r" "live d (s 0)" "fst (d ! s 0) \<noteq> key"
  shows "ins_out d key n fd s (Suc left) t t' r"
  using assms(1) [unfolded ins_out_def]
proof (elim disjE exE conjE)
  fix e assume "r = (True, t' e)"
    "\<forall>m < left. matches d key (s (Suc m)) \<longrightarrow> (\<exists>m' < m. snd (d ! s (Suc m')) = 0)"
    "if fd \<noteq> n then e = fd else \<exists>m < left. e = s (Suc m) \<and> \<not> live d e \<and> (\<forall>m' < m. live d (s (Suc m')))"
  with assms(2,3) show "ins_out d key n fd s (Suc left) t t' r"
    unfolding ins_out_def by (intro disjI2 exI [of _ e]) (auto simp: All_less_Suc2 Ex_less_Suc2 matches_def)
qed (use assms(2,3) in \<open>auto simp: ins_out_def All_less_Suc2 Ex_less_Suc2\<close>)

lemma ins_out_deleted:
  assumes "ins_out d key n (if fd = n then s 0 else fd) (\<lambda>m. s (Suc m)) left t t' r" "\<not> live d (s 0)" "s 0 \<noteq> n"
  shows "ins_out d key n fd s (Suc left) t t' r"
  using assms(1) [unfolded ins_out_def]
proof (elim disjE exE conjE)
  fix e assume "r = (True, t' e)"
    "\<forall>m < left. matches d key (s (Suc m)) \<longrightarrow> (\<exists>m' < m. snd (d ! s (Suc m')) = 0)"
    "if (if fd = n then s 0 else fd) \<noteq> n then e = (if fd = n then s 0 else fd) else
       \<exists>m < left. e = s (Suc m) \<and> \<not> live d e \<and> (\<forall>m' < m. live d (s (Suc m')))"
  with assms(2,3) show "ins_out d key n fd s (Suc left) t t' r"
    unfolding ins_out_def
    by (intro disjI2 exI [of _ e]) (auto simp: All_less_Suc2 Ex_less_Suc2 matches_def split: if_splits)
qed (use assms(2,3) in \<open>auto simp: ins_out_def All_less_Suc2 Ex_less_Suc2 split: if_splits\<close>)

lemma lp_insert_loop_spec:
  assumes "lp_capacity t = 2 ^ c" "mode = BackwardShift \<longrightarrow> (\<forall>i < lp_capacity t. snd (lp_data t ! i) \<noteq> 1)"
    and "n = lp_capacity t" "d = lp_data t"
  shows "ins_out d key n fd (\<lambda>m. (pos + (i + m)) mod n) left t
    (\<lambda>e. t\<lparr>lp_data := d[e := (key, v)], lp_size := lp_size t + 1\<rparr>) (lp_insert_loop mode t key v pos fd i left)"
proof (induction left arbitrary: i fd)
  case 0
  then show ?case by (auto simp: ins_out_def assms)
next
  case (Suc left)
  let ?s = "(pos + i) mod n" and ?t' = "\<lambda>e. t\<lparr>lp_data := d[e := (key, v)], lp_size := lp_size t + 1\<rparr>"
  have s: "(pos + i) AND (lp_capacity t - 1) = ?s" and sn: "?s < n"
    by (simp_all add: assms)
  note unf = lp_insert_loop.simps(2) [of mode t key v pos fd i left, unfolded s Let_def is_empty_def is_deleted_def]
  note IH = Suc.IH [of _ "i + 1", simplified]
  consider (zero) "snd (d ! ?s) = 0" | (del) "snd (d ! ?s) = 1" | (match) "matches d key ?s"
    | (other) "live d ?s" "fst (d ! ?s) \<noteq> key"
    unfolding matches_def live_def by linarith
  then show ?case
  proof cases
    case zero
    have "lp_insert_loop mode t key v pos fd i (Suc left) = (True, ?t' (if fd \<noteq> n then fd else ?s))"
      using zero by (simp add: unf assms del: lp_insert_loop.simps)
    then show ?thesis
      using zero by (auto simp: ins_out_def matches_def live_def All_less_Suc2 Ex_less_Suc2
          simp del: lp_insert_loop.simps)
  next
    case del
    have "mode = Tombstone" using del assms sn by (cases mode) auto
    then have "lp_insert_loop mode t key v pos fd i (Suc left) =
        lp_insert_loop mode t key v pos (if fd = n then ?s else fd) (Suc i) left"
      unfolding unf using del by (simp add: assms del: lp_insert_loop.simps)
    moreover have "ins_out d key n fd (\<lambda>m. (pos + (i + m)) mod n) (Suc left) t ?t'
        (lp_insert_loop mode t key v pos (if fd = n then ?s else fd) (Suc i) left)"
      by (rule ins_out_deleted) (use IH del sn in \<open>simp_all add: live_def del: if_split\<close>)
    ultimately show ?thesis by (simp only:)
  next
    case match
    then have "lp_insert_loop mode t key v pos fd i (Suc left) = (False, t)"
      by (simp add: unf assms matches_def live_def del: lp_insert_loop.simps)
    with match show ?thesis by (auto simp: ins_out_def Ex_less_Suc2 simp del: lp_insert_loop.simps)
  next
    case other
    then have "lp_insert_loop mode t key v pos fd i (Suc left) = lp_insert_loop mode t key v pos fd (Suc i) left"
      by (simp add: unf assms live_def del: lp_insert_loop.simps)
    moreover have "ins_out d key n fd (\<lambda>m. (pos + (i + m)) mod n) (Suc left) t ?t'
        (lp_insert_loop mode t key v pos fd (Suc i) left)"
      by (rule ins_out_live) (use IH other in simp_all)
    ultimately show ?thesis by (simp only:)
  qed
qed

text \<open>Writing a live entry for a new key to a slot that is not live.\<close>

lemma live_update:
  assumes "e < length d" "2 \<le> v"
  shows "live (d[e := (key, v)]) i \<longleftrightarrow> i = e \<or> live d i"
  using assms by (cases "i = e") (auto simp: live_def)

lemma entries_update:
  assumes "e < length d" "\<not> live d e" "2 \<le> v"
  shows "entries (d[e := (key, v)]) = insert (key, v) (entries d)"
proof -
  have "x \<in> entries (d[e := (key, v)]) \<longleftrightarrow> x \<in> insert (key, v) (entries d)" for x
    using assms by (auto simp: entries_def live_update nth_list_update)
  then show ?thesis by blast
qed

lemma keys_distinct_update:
  assumes "e < length d" "keys_distinct d" "\<not> live d e" "2 \<le> v" "lp_data_map d key = None"
  shows "keys_distinct (d[e := (key, v)])"
  using assms by (auto simp: keys_distinct_def live_update nth_list_update lp_data_map_None_iff)

lemma probe_ok_update:
  assumes "e < length d" "probe_ok home d" "2 \<le> v"
    "\<And>m. m < dist (length d) (home key) e \<Longrightarrow> snd (d ! ((home key + m) mod length d)) \<noteq> 0"
  shows "probe_ok home (d[e := (key, v)])"
  using assms unfolding probe_ok_def
  by (auto simp: live_update nth_list_update split: if_splits)

lemma lp_insert_True:
  assumes inv: "lp_inv mode hash t" and v: "2 \<le> v" and e: "e < lp_capacity t" "\<not> live (lp_data t) e"
    and new: "lp_map t key = None"
    and path: "\<And>m. m < dist (lp_capacity t) (lp_get_pos hash (lp_shift t) key) e \<Longrightarrow>
      snd (lp_data t ! ((lp_get_pos hash (lp_shift t) key + m) mod lp_capacity t)) \<noteq> 0"
    and t': "t' = t\<lparr>lp_data := (lp_data t)[e := (key, v)], lp_size := lp_size t + 1\<rparr>"
  shows "lp_inv mode hash t' \<and> lp_map t' = (lp_map t)(key \<mapsto> v)"
proof -
  note f = lp_inv_facts [OF inv]
  let ?d = "lp_data t" and ?d' = "(lp_data t)[e := (key, v)]"
  have len: "e < length ?d" using e f by simp
  have kd: "keys_distinct ?d'"
    using keys_distinct_update len f e v new by (metis lp_map_def)
  have map: "lp_data_map ?d' = (lp_data_map ?d)(key \<mapsto> v)"
    using new
    by (intro lp_data_map_eqI [OF kd])
      (auto simp: entries_update [OF len e(2) v] lp_map_def lp_data_map_entries [OF f(1), symmetric])
  moreover have "probe_ok (lp_get_pos hash (lp_shift t)) ?d'"
    using probe_ok_update [OF len f(2) v] path f(4) by simp
  moreover have "{i. i < lp_capacity t \<and> live ?d' i} = insert e {i. i < lp_capacity t \<and> live ?d i}"
    using e(1) by (auto simp: live_update [OF len v])
  moreover have "\<forall>i < lp_capacity t. snd (?d' ! i) \<noteq> 1" if "\<forall>i < lp_capacity t. snd (?d ! i) \<noteq> 1"
    using that v len by (auto simp: nth_list_update)
  ultimately show ?thesis
    using inv kd e(2) by (auto simp: t' lp_inv_def lp_map_def)
qed

lemma lp_full_iff:
  assumes inv: "lp_inv mode hash t"
  shows "card (dom (lp_map t)) = lp_capacity t \<longleftrightarrow> (\<forall>i < lp_capacity t. live (lp_data t) i)"
    "card (dom (lp_map t)) \<le> lp_capacity t"
proof -
  let ?L = "{i. i < lp_capacity t \<and> live (lp_data t) i}"
  have sub: "?L \<subseteq> {..< lp_capacity t}" by auto
  note c = lp_inv_facts(7) [OF inv]
  show "card (dom (lp_map t)) = lp_capacity t \<longleftrightarrow> (\<forall>i < lp_capacity t. live (lp_data t) i)"
  proof -
    have "(\<forall>i < lp_capacity t. live (lp_data t) i) \<longleftrightarrow> ?L = {..< lp_capacity t}" by auto
    then show ?thesis using card_subset_eq [OF _ sub] unfolding c by auto
  qed
  show "card (dom (lp_map t)) \<le> lp_capacity t"
    using card_mono [OF _ sub] unfolding c by simp
qed

lemma lp_insert_spec:
  assumes inv: "lp_inv mode hash t" and v: "2 \<le> v"
  shows "if lp_map t key = None \<and> card (dom (lp_map t)) < lp_capacity t
    then \<exists>t'. lp_insert mode hash t key v = (True, t') \<and> lp_inv mode hash t'
      \<and> lp_map t' = (lp_map t)(key \<mapsto> v) \<and> lp_capacity t' = lp_capacity t \<and> lp_shift t' = lp_shift t
    else lp_insert mode hash t key v = (False, t)"
proof -
  let ?n = "lp_capacity t" and ?d = "lp_data t" and ?pos = "lp_get_pos hash (lp_shift t) key"
  let ?t' = "\<lambda>e. t\<lparr>lp_data := ?d[e := (key, v)], lp_size := lp_size t + 1\<rparr>"
  obtain c where c: "?n = 2 ^ c" "\<And>k. lp_get_pos hash (lp_shift t) k < ?n"
    using lp_invD [OF inv] by blast
  note f = lp_inv_facts [OF inv]
  have slots: "\<exists>m < ?n. (?pos + m) mod ?n = i" if "i < ?n" for i
    using that slot_dist [OF c(2) that, of key] by (intro exI [of _ "dist ?n ?pos i"]) simp
  have present: "lp_map t key \<noteq> None" if "matches ?d key i" "i < ?n" for i
    using that f(4) by (auto simp: lp_map_def lp_data_map_None_iff matches_def)
  have sn: "(?pos + m) mod ?n < ?n" for m using c(1) by simp
  have "ins_out ?d key ?n ?n (\<lambda>m. (?pos + m) mod ?n) ?n t ?t' (lp_insert mode hash t key v)"
    using lp_insert_loop_spec [OF c(1) f(3) refl refl, of key ?n ?pos 0 ?n v] by (simp add: lp_insert_def)
  then show ?thesis
    unfolding ins_out_def
  proof (elim disjE exE conjE)
    fix m assume "lp_insert mode hash t key v = (False, t)" "matches ?d key ((?pos + m) mod ?n)"
    with present [OF _ sn] show ?thesis by auto
  next
    assume r: "lp_insert mode hash t key v = (False, t)" "\<forall>m < ?n. live ?d ((?pos + m) mod ?n)"
    then have "\<forall>i < ?n. live ?d i" using slots by metis
    with r(1) lp_full_iff(1) [OF inv] show ?thesis by auto
  next
    fix e assume r: "lp_insert mode hash t key v = (True, ?t' e)"
      and no: "\<forall>m < ?n. matches ?d key ((?pos + m) mod ?n) \<longrightarrow> (\<exists>m' < m. snd (?d ! ((?pos + m') mod ?n)) = 0)"
      and e: "if ?n \<noteq> ?n then e = ?n else \<exists>m < ?n. e = (?pos + m) mod ?n \<and> \<not> live ?d e
        \<and> (\<forall>m' < m. live ?d ((?pos + m') mod ?n))"
    obtain m where m: "m < ?n" "e = (?pos + m) mod ?n" "\<not> live ?d e" "\<forall>m' < m. live ?d ((?pos + m') mod ?n)"
      using e by auto
    have en: "e < ?n" using m sn by simp
    have new: "lp_map t key = None"
    proof (rule ccontr)
      assume "lp_map t key \<noteq> None"
      then obtain i where i: "i < ?n" "matches ?d key i"
        using f(4) by (auto simp: lp_map_def lp_data_map_None_iff matches_def)
      have "dist ?n ?pos i < ?n" using i(1) by simp
      with no [rule_format, of "dist ?n ?pos i"] i(2) slot_dist [OF c(2) i(1), of key] obtain m' where
        "m' < dist ?n ?pos i" "snd (?d ! ((?pos + m') mod ?n)) = 0" by auto
      with probe_path [OF f(2), of i key m'] i c(2) f(4) show False by simp
    qed
    have "dist ?n ?pos e = m" using dist_slot [OF c(2) m(1)] m(2) by simp
    then have "lp_inv mode hash (?t' e) \<and> lp_map (?t' e) = (lp_map t)(key \<mapsto> v)"
      using m(4) by (intro lp_insert_True [OF inv v en m(3) new _ refl]) (auto simp: live_def)
    moreover have "card (dom (lp_map t)) < ?n"
      using lp_full_iff [OF inv] m(3) en by (metis le_neq_implies_less)
    ultimately show ?thesis using r new by auto
  qed
qed

subsection \<open>Erasure\<close>

lemma probe_ok_slots:
  assumes "\<And>k. home k < length d"
  shows "probe_ok home d \<longleftrightarrow> (\<forall>i < length d. live d i \<longrightarrow>
    (\<forall>s < length d. dist (length d) (home (fst (d ! i))) s < dist (length d) (home (fst (d ! i))) i \<longrightarrow>
      snd (d ! s) \<noteq> 0))"
proof -
  have "(\<forall>m < dist (length d) h i. snd (d ! ((h + m) mod length d)) \<noteq> 0) \<longleftrightarrow>
      (\<forall>s < length d. dist (length d) h s < dist (length d) h i \<longrightarrow> snd (d ! s) \<noteq> 0)"
    if "h < length d" "i < length d" for h i
  proof (intro iffI allI impI)
    fix m assume a: "\<forall>s < length d. dist (length d) h s < dist (length d) h i \<longrightarrow> snd (d ! s) \<noteq> 0"
      "m < dist (length d) h i"
    have n: "0 < length d" using that(2) by linarith
    then have "m < length d" using a(2) dist_less [OF n, of h i] by linarith
    with a n dist_slot [OF that(1), of m] show "snd (d ! ((h + m) mod length d)) \<noteq> 0" by simp
  next
    fix s assume "\<forall>m < dist (length d) h i. snd (d ! ((h + m) mod length d)) \<noteq> 0" "s < length d"
      "dist (length d) h s < dist (length d) h i"
    then show "snd (d ! s) \<noteq> 0" using slot_dist [OF that(1), of s] by metis
  qed
  with assms show ?thesis unfolding probe_ok_def by simp
qed

text \<open>
  The invariant of the backward shift. \<open>e\<close> is the hole: the only slot that may break a probe
  path. The live slots between the hole and the current slot have paths that avoid the hole;
  a full round is \<open>length d\<close> steps.
\<close>

definition gap :: "nat \<Rightarrow> nat \<Rightarrow> nat \<Rightarrow> nat" where
  "gap n e cur = (if cur = e then n else dist n e cur)"

definition shift_inv :: "('k \<Rightarrow> nat) \<Rightarrow> ('k \<times> ptr) list \<Rightarrow> nat \<Rightarrow> nat \<Rightarrow> bool" where
  "shift_inv home d e cur \<longleftrightarrow> e < length d \<and> cur < length d \<and> 2 \<le> length d \<and> snd (d ! e) = 0
     \<and> (\<forall>i < length d. snd (d ! i) \<noteq> 1) \<and> keys_distinct d
     \<and> (\<forall>i < length d. live d i \<longrightarrow>
         (\<forall>s < length d. dist (length d) (home (fst (d ! i))) s < dist (length d) (home (fst (d ! i))) i \<longrightarrow>
           s = e \<or> snd (d ! s) \<noteq> 0))
     \<and> (\<forall>i < length d. live d i \<and> dist (length d) e i < gap (length d) e cur \<longrightarrow>
         dist (length d) (home (fst (d ! i))) i \<le> dist (length d) (home (fst (d ! i))) e)"

definition displacement :: "('k \<Rightarrow> nat) \<Rightarrow> ('k \<times> ptr) list \<Rightarrow> nat" where
  "displacement home d = (\<Sum>i | i < length d \<and> live d i. dist (length d) (home (fst (d ! i))) i)"

lemma shift_inv_end:
  assumes inv: "shift_inv home d e cur" and home: "\<And>k. home k < length d" and empty_cur: "snd (d ! cur) = 0"
  shows "probe_ok home d"
  unfolding probe_ok_slots [OF home]
proof (intro allI impI)
  let ?n = "length d"
  fix i s assume i: "i < ?n" "live d i" and s: "s < ?n" "dist ?n (home (fst (d ! i))) s < dist ?n (home (fst (d ! i))) i"
  let ?h = "home (fst (d ! i))"
  have n: "0 < ?n" using i(1) by linarith
  have lt: "e < ?n" "cur < ?n" and gap: "dist ?n e i < gap ?n e cur \<Longrightarrow> dist ?n ?h i \<le> dist ?n ?h e"
    and path: "\<And>s. s < ?n \<Longrightarrow> dist ?n ?h s < dist ?n ?h i \<Longrightarrow> s = e \<or> snd (d ! s) \<noteq> 0"
    using inv i by (simp_all add: shift_inv_def)
  have "\<not> dist ?n ?h e < dist ?n ?h i"
  proof
    assume before: "dist ?n ?h e < dist ?n ?h i"
    then have "gap ?n e cur \<le> dist ?n e i" using gap by linarith
    then have ne: "cur \<noteq> e" and le: "dist ?n e cur \<le> dist ?n e i"
      using dist_less [OF n, of e i] by (auto simp: gap_def split: if_splits)
    have "cur \<noteq> i" using empty_cur i(2) by (auto simp: live_def)
    then have "dist ?n e cur < dist ?n e i"
      using le dist_inj [OF lt i(1)] by linarith
    moreover have sum: "dist ?n ?h i = dist ?n ?h e + dist ?n e i"
      using dist_split [OF home lt(1) i(1) before] .
    ultimately have "dist ?n ?h cur < dist ?n ?h i"
      using dist_add [OF home lt, of "fst (d ! i)"] dist_less [OF n, of ?h i] by linarith
    with path [OF lt(2)] ne empty_cur show False by simp
  qed
  with path [OF s] s show "snd (d ! s) \<noteq> 0" by auto
qed

lemma shift_inv_stay:
  assumes inv: "shift_inv home d e cur" and home: "\<And>k. home k < length d" and used: "snd (d ! cur) \<noteq> 0"
    and stay: "\<not> dist (length d) (home (fst (d ! cur))) e < dist (length d) (home (fst (d ! cur))) cur"
  shows "shift_inv home d e ((cur + 1) mod length d)"
    "length d - gap (length d) e ((cur + 1) mod length d) < length d - gap (length d) e cur"
proof -
  let ?n = "length d" and ?c = "(cur + 1) mod length d"
  have "0 < ?n" "e < ?n" "cur < ?n" using inv unfolding shift_inv_def by linarith+
  then have lt: "e < ?n" "cur < ?n" "?c < ?n" "0 < ?n" by (simp_all del: length_greater_0_conv)
  have ne: "cur \<noteq> e" using inv used by (auto simp: shift_inv_def)
  have gap: "gap ?n e ?c = dist ?n e cur + 1" "gap ?n e cur = dist ?n e cur"
    using dist_next [OF lt(1,2)] dist_next_wrap [OF lt(1,2)] ne by (auto simp: gap_def)
  have "dist ?n (home (fst (d ! i))) i \<le> dist ?n (home (fst (d ! i))) e"
    if "i < ?n" "live d i" "dist ?n e i < gap ?n e ?c" for i
  proof (cases "i = cur")
    case True
    with stay show ?thesis by simp
  next
    case False
    then have "dist ?n e i \<noteq> dist ?n e cur" using dist_inj [OF lt(1) that(1) lt(2)] by simp
    with that inv gap show ?thesis by (simp add: shift_inv_def)
  qed
  with inv lt(3) show "shift_inv home d e ?c" unfolding shift_inv_def by blast
  show "?n - gap ?n e ?c < ?n - gap ?n e cur"
    using gap dist_less [OF lt(4), of e cur] by simp
qed

definition move_back :: "('k \<times> ptr) list \<Rightarrow> nat \<Rightarrow> nat \<Rightarrow> ('k \<times> ptr) list" where
  "move_back d e cur = set_empty (d[e := d ! cur]) cur"

lemma move_back_facts:
  assumes "e < length d" "cur < length d" "cur \<noteq> e" "\<not> live d e" "live d cur"
  shows "length (move_back d e cur) = length d"
    "i < length d \<Longrightarrow> move_back d e cur ! i = (if i = cur then (fst (d ! cur), 0) else if i = e then d ! cur else d ! i)"
    "i < length d \<Longrightarrow> live (move_back d e cur) i \<longleftrightarrow> i \<noteq> cur \<and> (i = e \<or> live d i)"
  using assms by (auto simp: move_back_def set_empty_def live_def nth_list_update)

lemma move_back_entries:
  assumes "e < length d" "cur < length d" "cur \<noteq> e" "\<not> live d e" "live d cur"
  shows "entries (move_back d e cur) = entries d"
proof -
  note mb = move_back_facts [OF assms]
  have "x \<in> entries (move_back d e cur)" if x: "x \<in> entries d" for x
  proof -
    obtain i where "x = d ! i" "i < length d" "live d i" using x unfolding entries_def by blast
    then have "\<exists>j < length d. live (move_back d e cur) j \<and> x = move_back d e cur ! j"
      using assms mb by (cases "i = cur") (auto intro!: exI [of _ "if i = cur then e else i"])
    then show ?thesis using mb(1) by (auto simp: entries_def)
  qed
  moreover have "x \<in> entries d" if "x \<in> entries (move_back d e cur)" for x
    using that assms mb by (auto simp: entries_def split: if_splits)
  ultimately show ?thesis by blast
qed

lemma move_back_displacement:
  assumes "e < length d" "cur < length d" "cur \<noteq> e" "\<not> live d e" "live d cur"
    "dist (length d) (home (fst (d ! cur))) e < dist (length d) (home (fst (d ! cur))) cur"
  shows "displacement home (move_back d e cur) < displacement home d"
proof -
  note mb = move_back_facts [OF assms(1-5)]
  let ?n = "length d" and ?d = "move_back d e cur"
  let ?R = "{i. i < ?n \<and> live d i} - {cur}"
  have "{i. i < ?n \<and> live ?d i} = insert e ?R"
    using assms mb(3) by auto
  moreover have "e \<notin> ?R" using assms(4) by simp
  moreover have "(\<Sum>i \<in> ?R. dist ?n (home (fst (?d ! i))) i) = (\<Sum>i \<in> ?R. dist ?n (home (fst (d ! i))) i)"
    using assms(4) mb(2) by (intro sum.cong) auto
  ultimately have "displacement home ?d = dist ?n (home (fst (d ! cur))) e + (\<Sum>i \<in> ?R. dist ?n (home (fst (d ! i))) i)"
    using mb(1) mb(2) [of e] assms(1,3) by (simp add: displacement_def)
  moreover have "displacement home d = dist ?n (home (fst (d ! cur))) cur + (\<Sum>i \<in> ?R. dist ?n (home (fst (d ! i))) i)"
    using assms(2,5) unfolding displacement_def by (subst sum.remove [of _ cur]) auto
  ultimately show ?thesis using assms(6) by simp
qed

lemma shift_inv_move:
  assumes inv: "shift_inv home d e cur" and home: "\<And>k. home k < length d" and used: "snd (d ! cur) \<noteq> 0"
    and move: "dist (length d) (home (fst (d ! cur))) e < dist (length d) (home (fst (d ! cur))) cur"
  shows "shift_inv home (move_back d e cur) cur ((cur + 1) mod length d)"
proof -
  let ?n = "length d" and ?c = "(cur + 1) mod length d" and ?d = "move_back d e cur"
  have "0 < ?n" "2 \<le> ?n" "e < ?n" "cur < ?n" using inv unfolding shift_inv_def by linarith+
  then have lt: "e < ?n" "cur < ?n" "?c < ?n" "2 \<le> ?n" by (simp_all del: length_greater_0_conv)
  have ne: "cur \<noteq> e" "\<not> live d e" "live d cur" and kd: "keys_distinct d"
    using inv used by (auto simp: shift_inv_def live_def Suc_lessI intro: le_neq_implies_less)
  note mb = move_back_facts [OF lt(1,2) ne]
  have c: "?c \<noteq> cur" using lt by (auto simp: mod_if split: if_splits)
  then have gap: "gap ?n cur ?c = 1"
    using dist_next [OF lt(2) lt(2)] dist_0_iff [OF lt(2) lt(2)] by (simp add: gap_def)
  have path: "s = cur \<or> snd (?d ! s) \<noteq> 0"
    if i: "i < ?n" "live ?d i" and s: "s < ?n"
      "dist ?n (home (fst (?d ! i))) s < dist ?n (home (fst (?d ! i))) i" for i s
  proof (cases "i = e")
    case True
    with s mb(2) [OF i(1)] ne have "dist ?n (home (fst (d ! cur))) s < dist ?n (home (fst (d ! cur))) e" by simp
    then have "s \<noteq> e" "dist ?n (home (fst (d ! cur))) s < dist ?n (home (fst (d ! cur))) cur" using move by auto
    then have "snd (d ! s) \<noteq> 0" using inv s(1) lt(2) ne(3) unfolding shift_inv_def by blast
    then show ?thesis using mb(2) [OF s(1)] \<open>s \<noteq> e\<close> by simp
  next
    case False
    with i mb have i': "live d i" "i \<noteq> cur" "?d ! i = d ! i" by auto
    with s i(1) inv have "s = e \<or> snd (d ! s) \<noteq> 0" unfolding shift_inv_def by simp
    then show ?thesis using mb(2) [OF s(1)] used by auto
  qed
  have near: "\<not> (live ?d i \<and> dist ?n cur i < gap ?n cur ?c)" if "i < ?n" for i
    using that gap dist_0_iff [OF lt(2) that] mb(3) [OF that] by auto
  have kd': "keys_distinct ?d"
    using kd ne lt mb unfolding keys_distinct_def by (auto split: if_splits)
  have no1: "\<forall>i < ?n. snd (?d ! i) \<noteq> 1"
    using inv mb(2) by (auto simp: shift_inv_def)
  show ?thesis
    unfolding shift_inv_def mb(1) using lt mb(2) [OF lt(2)] no1 kd' path near
    by (intro conjI allI impI) auto
qed

lemma lp_shift_loop_spec:
  assumes inv: "shift_inv home d e cur" and home: "\<And>k. home k < length d" and n: "length d = 2 ^ c" "c < 64"
  shows "\<exists>d'. lp_shift_loop home (length d) d e cur = Some d' \<and> length d' = length d \<and> probe_ok home d'
    \<and> keys_distinct d' \<and> entries d' = entries d \<and> (\<forall>i < length d. snd (d' ! i) \<noteq> 1)"
  using inv home n
proof (induction "(displacement home d, length d - gap (length d) e cur)" arbitrary: d e cur
    rule: wf_induct_rule [OF wf_lex_prod [OF wf_less wf_less]])
  case 1
  note inv = "1.prems"(1) and home = "1.prems"(2) and len = "1.prems"(3)
  note IH = "1.hyps"
  let ?n = "length d" and ?w = "home (fst (d ! cur))"
  have lt: "e < ?n" "cur < ?n" using inv by (auto simp: shift_inv_def)
  note unf = lp_shift_loop.simps [of home ?n d e cur, unfolded Let_def is_empty_def]
  have next_c: "(cur + 1) AND (?n - 1) = (cur + 1) mod ?n" by (simp add: len)
  have steps: "lp_steps ?n e ?w < lp_steps ?n cur ?w \<longleftrightarrow> dist ?n ?w e < dist ?n ?w cur"
    using lp_steps_dist [OF len n(2) _ home] lt by simp
  consider (stop) "snd (d ! cur) = 0" | (move) "snd (d ! cur) \<noteq> 0" "dist ?n ?w e < dist ?n ?w cur"
    | (stay) "snd (d ! cur) \<noteq> 0" "\<not> dist ?n ?w e < dist ?n ?w cur" by blast
  then show ?case
  proof cases
    case stop
    with shift_inv_end [OF inv home stop] inv show ?thesis by (simp add: unf shift_inv_def)
  next
    case move
    let ?d = "move_back d e cur"
    have facts: "cur \<noteq> e" "\<not> live d e" "live d cur"
      using inv move lt by (auto simp: shift_inv_def live_def intro: le_neq_implies_less Suc_lessI)
    note mb = move_back_facts [OF lt facts]
    have run: "lp_shift_loop home ?n d e cur = lp_shift_loop home (length ?d) ?d cur ((cur + 1) mod ?n)"
      using move by (subst unf) (simp only: steps next_c mb(1) move_back_def [symmetric] if_True if_False)
    show ?thesis
      unfolding run
      using IH [of ?d cur "(cur + 1) mod ?n"] move_back_displacement [of e d cur home, OF lt facts move(2)]
        shift_inv_move [OF inv home move] home len mb(1) move_back_entries [OF lt facts] n(2)
      by (simp del: One_nat_def)
  next
    case stay
    have run: "lp_shift_loop home ?n d e cur = lp_shift_loop home ?n d e ((cur + 1) mod ?n)"
      using stay by (subst unf) (simp only: steps next_c if_True if_False)
    show ?thesis
      unfolding run
      using IH [of d e "(cur + 1) mod ?n"] shift_inv_stay [OF inv home stay] home len n(2)
      by (simp del: One_nat_def)
  qed
qed

text \<open>Killing one live slot: its entry leaves the table.\<close>

lemma live_kill: "p < length d \<Longrightarrow> x < 2 \<Longrightarrow> live (d[p := (k, x)]) i \<longleftrightarrow> i \<noteq> p \<and> live d i"
  by (cases "i = p") (auto simp: live_def)

lemma keys_distinct_kill:
  "p < length d \<Longrightarrow> x < 2 \<Longrightarrow> keys_distinct d \<Longrightarrow> keys_distinct (d[p := (k, x)])"
  unfolding keys_distinct_def by (auto simp: live_kill)

lemma entries_kill:
  assumes "p < length d" "x < 2" "keys_distinct d" "live d p"
  shows "entries (d[p := (k, x)]) = entries d - {d ! p}"
proof -
  have "d ! i \<noteq> d ! p" if "i < length d" "live d i" "i \<noteq> p" for i
    using that assms unfolding keys_distinct_def by metis
  then have "(\<exists>i < length d. i \<noteq> p \<and> live d i \<and> y = d ! i) \<longleftrightarrow> y \<in> entries d - {d ! p}" for y
    by (auto simp: entries_def)
  moreover have "y \<in> entries (d[p := (k, x)]) \<longleftrightarrow> (\<exists>i < length d. i \<noteq> p \<and> live d i \<and> y = d ! i)" for y
    using live_kill [OF assms(1,2)] unfolding entries_def mem_Collect_eq
    by (metis length_list_update nth_list_update_neq)
  ultimately show ?thesis by blast
qed

lemma lp_data_map_kill:
  assumes "p < length d" "keys_distinct d" "live d p" "fst (d ! p) = key" "keys_distinct d'"
    "entries d' = entries d - {d ! p}"
  shows "lp_data_map d' = (lp_data_map d)(key := None)"
proof (rule lp_data_map_eqI [OF assms(5)])
  fix k v
  have "(key, v) \<in> entries d \<Longrightarrow> (key, v) = d ! p"
    using assms(1-4) unfolding entries_iff keys_distinct_def by (metis fst_conv)
  moreover have "d ! p \<in> entries d" using assms by (auto simp: entries_def)
  ultimately show "(k, v) \<in> entries d' \<longleftrightarrow> ((lp_data_map d)(key := None)) k = Some v"
    using assms(4,6) lp_data_map_entries [OF assms(2), of k v] by (auto simp: prod_eq_iff)
qed

lemma lp_inv_erased:
  assumes inv: "lp_inv mode hash t" and old: "lp_map t key = Some v"
    and new: "length d' = lp_capacity t" "keys_distinct d'" "probe_ok (lp_get_pos hash (lp_shift t)) d'"
      "mode = BackwardShift \<longrightarrow> (\<forall>i < lp_capacity t. snd (d' ! i) \<noteq> 1)"
      "lp_data_map d' = (lp_map t)(key := None)"
    and t': "t' = t\<lparr>lp_size := lp_size t - 1, lp_data := d'\<rparr>"
  shows "lp_inv mode hash t' \<and> lp_map t' = (lp_map t)(key := None) \<and> lp_capacity t' = lp_capacity t"
proof -
  note f = lp_inv_facts [OF inv]
  have "card {i. i < lp_capacity t \<and> live d' i} = lp_size t - 1"
    using card_live(1) [OF new(2)] new(1,5) f(5,6) old by (simp add: card_Diff_singleton_if domIff)
  then show ?thesis
    using inv new by (simp add: t' lp_inv_def lp_map_def)
qed

lemma erase_shift_start:
  assumes inv: "lp_inv BackwardShift hash t" and p: "p < lp_capacity t" "live (lp_data t) p"
  defines "home \<equiv> lp_get_pos hash (lp_shift t)"
  shows "shift_inv home (set_empty (lp_data t) p) p ((p + 1) mod lp_capacity t)"
proof -
  note f = lp_inv_facts [OF inv]
  obtain c where c: "0 < c" "lp_capacity t = 2 ^ c" and home: "\<And>k. home k < lp_capacity t"
    using lp_invD [OF inv] unfolding home_def by metis
  let ?n = "lp_capacity t" and ?d = "lp_data t" and ?e = "(lp_data t)[p := (fst (lp_data t ! p), 0)]"
  have n2: "2 \<le> ?n" using c power_increasing [of 1 c "2 :: nat"] by simp
  have path: "s = p \<or> snd (?e ! s) \<noteq> 0"
    if "i < ?n" "live ?e i" "s < ?n" "dist ?n (home (fst (?e ! i))) s < dist ?n (home (fst (?e ! i))) i" for i s
  proof -
    have i: "i \<noteq> p" "live ?d i" using that p f(4) by (simp_all add: live_kill)
    have "snd (?d ! s) \<noteq> 0"
      using f(2) that i f(4) home unfolding home_def [symmetric] by (simp add: probe_ok_slots)
    then show ?thesis by (cases "s = p") simp_all
  qed
  have c1: "(p + 1) mod ?n \<noteq> p" using p n2 by (auto simp: mod_if split: if_splits)
  then have "gap ?n p ((p + 1) mod ?n) = 1"
    using dist_next [OF p(1) p(1)] dist_0_iff [OF p(1) p(1)] by (simp add: gap_def)
  then have near: "\<not> (live ?e i \<and> dist ?n p i < gap ?n p ((p + 1) mod ?n))" if "i < ?n" for i
    using that p f(4) dist_0_iff [OF p(1) that] by (auto simp: live_kill)
  have "\<forall>i < ?n. snd (?e ! i) \<noteq> 1"
    using f(3,4) p(1) by (auto simp: nth_list_update)
  moreover have "keys_distinct ?e" using keys_distinct_kill [OF _ _ f(1)] p(1) f(4) by simp
  moreover have "(p + 1) mod ?n < ?n" using n2 by simp
  ultimately show ?thesis
    unfolding shift_inv_def set_empty_def length_list_update f(4) using p(1) f(4) path near n2
    by (intro conjI allI impI) auto
qed

lemma lp_erase_spec:
  assumes inv: "lp_inv mode hash t"
  shows "\<exists>t'. lp_erase mode hash t key = Inr (lp_map t key \<noteq> None, t') \<and> lp_inv mode hash t'
    \<and> lp_map t' = (lp_map t)(key := None) \<and> lp_capacity t' = lp_capacity t"
proof (cases "lp_map t key")
  case None
  then have "find_key mode hash t key = lp_capacity t"
    using find_key_spec [OF inv, of key] by simp
  with None inv show ?thesis by (simp add: lp_erase_def fun_upd_idem)
next
  case (Some v)
  let ?p = "find_key mode hash t key" and ?d = "lp_data t" and ?home = "lp_get_pos hash (lp_shift t)"
  note f = lp_inv_facts [OF inv]
  obtain c where c: "c < 64" "lp_capacity t = 2 ^ c" and home: "\<And>k. ?home k < lp_capacity t"
    using lp_invD [OF inv] by metis
  have p: "?p < lp_capacity t" "live ?d ?p" "?d ! ?p = (key, v)"
    using find_key_spec [OF inv, of key] Some by auto
  note erased = lp_inv_erased [OF inv Some]
  note killed = lp_data_map_kill [of ?p ?d key, folded lp_map_def]
  show ?thesis
  proof (cases mode)
    case Tombstone
    let ?e = "?d[?p := (key, 1)]"
    have kd: "keys_distinct ?e" using keys_distinct_kill [OF _ _ f(1)] p(1) f(4) by simp
    moreover have "probe_ok ?home ?e"
      using f(2) p f(4) unfolding probe_ok_def by (auto simp: live_kill nth_list_update)
    moreover have "lp_data_map ?e = (lp_map t)(key := None)"
      using killed [OF _ f(1) p(2) _ kd] entries_kill [OF _ _ f(1) p(2), of 1 key] p f(4) by simp
    ultimately show ?thesis
      using erased [OF _ _ _ _ _ refl, of ?e] p f(4) Some Tombstone
      by (simp add: lp_erase_def Let_def set_deleted_def)
  next
    case BackwardShift
    let ?e = "set_empty ?d ?p"
    have len: "length ?e = lp_capacity t" using f(4) by (simp add: set_empty_def)
    have start: "shift_inv ?home ?e ?p ((?p + 1) mod lp_capacity t)"
      using erase_shift_start [of hash t ?p] inv p BackwardShift by simp
    obtain d' where d': "lp_shift_loop ?home (lp_capacity t) ?e ?p ((?p + 1) mod lp_capacity t) = Some d'"
      "length d' = lp_capacity t" "probe_ok ?home d'" "keys_distinct d'" "entries d' = entries ?e"
      "\<forall>i < lp_capacity t. snd (d' ! i) \<noteq> 1"
      using lp_shift_loop_spec [OF start _ _ c(1)] home c(2) unfolding len by auto
    have "entries d' = entries ?d - {?d ! ?p}"
      using d'(5) entries_kill [OF _ _ f(1) p(2), of 0 key] p f(4) by (simp add: set_empty_def)
    then have "lp_data_map d' = (lp_map t)(key := None)"
      using killed [OF _ f(1) p(2) _ d'(4)] p f(4) by simp
    then have "lp_inv mode hash (t\<lparr>lp_size := lp_size t - 1, lp_data := d'\<rparr>) \<and>
        lp_map (t\<lparr>lp_size := lp_size t - 1, lp_data := d'\<rparr>) = (lp_map t)(key := None)"
      using erased [OF d'(2,4,3) _ _ refl] d'(6) by simp
    moreover have "(?p + 1) AND (lp_capacity t - 1) = (?p + 1) mod lp_capacity t" by (simp add: c)
    ultimately show ?thesis
      using d'(1) p(1) Some BackwardShift by (simp add: lp_erase_def Let_def del: One_nat_def add_Suc_right)
  qed
qed

subsection \<open>Construction and rehash\<close>

lemma LinearProbingTable_spec:
  assumes "c < 63"
  shows "\<exists>t. LinearProbingTable True (2 ^ c) zero_key = Inr t \<and> lp_inv mode hash t \<and> lp_map t = Map.empty
    \<and> lp_capacity t = 2 ^ (c + 1)"
proof -
  have "(2 :: nat) ^ c * 2 < 2 ^ 64"
    using assms power_strict_increasing [of "c + 1" 64 "2 :: nat"] by simp
  then have cap: "(2 ^ c * 2) mod 2 ^ 64 = (2 :: nat) ^ (c + 1)" by simp
  have live: "\<not> live (replicate n (zero_key, 0)) i" if "i < n" for i n
    using that by (simp add: live_def)
  let ?t = "\<lparr>lp_data = replicate (2 ^ (c + 1)) (zero_key, 0), lp_size = 0, lp_capacity = 2 ^ (c + 1),
    lp_shift = 64 - (c + 1)\<rparr>"
  have "LinearProbingTable True (2 ^ c) zero_key = Inr ?t"
    unfolding LinearProbingTable_def cap Let_def countr_zero_power by (simp add: has_single_bit_iff)
  moreover have "lp_inv mode hash ?t"
    using assms live
    by (auto simp: lp_inv_def keys_distinct_def probe_ok_def intro!: exI [of _ "c + 1"])
  moreover have "lp_map ?t = Map.empty"
    using live by (auto simp: lp_map_def lp_data_map_None_iff)
  ultimately show ?thesis by auto
qed

lemma keys_distinct_Cons: "keys_distinct (x # d) \<Longrightarrow> keys_distinct d"
  unfolding keys_distinct_def live_def by (metis Suc_less_eq length_Cons nth_Cons_Suc nat.inject)

definition live_slots :: "('k \<times> ptr) list \<Rightarrow> ('k \<times> ptr) list" where
  "live_slots d = filter (\<lambda>s. 2 \<le> snd s) d"

lemma set_live_slots: "set (live_slots d) = entries d"
  by (auto simp: live_slots_def entries_def live_def in_set_conv_nth) (metis snd_conv)

lemma distinct_live_slots: "keys_distinct d \<Longrightarrow> distinct (map fst (live_slots d))"
proof (induction d)
  case (Cons x d)
  have "fst x \<notin> fst ` entries d" if "2 \<le> snd x"
  proof
    assume "fst x \<in> fst ` entries d"
    then obtain i where "i < length d" "live d i" "fst (d ! i) = fst x" by (auto simp: entries_def)
    then have "0 = Suc i"
      using Cons.prems that unfolding keys_distinct_def live_def
      by (metis Suc_less_eq length_Cons nth_Cons_0 nth_Cons_Suc zero_less_Suc)
    then show False by simp
  qed
  with Cons.IH [OF keys_distinct_Cons [OF Cons.prems]] show ?case
    using set_live_slots [of d] by (auto simp: live_slots_def)
qed (simp add: live_slots_def)

lemma rehash_loop_spec:
  assumes "lp_inv mode hash nt" "distinct (map fst (live_slots slots))"
    "fst ` set (live_slots slots) \<inter> dom (lp_map nt) = {}"
    "card (dom (lp_map nt)) + length (live_slots slots) \<le> lp_capacity nt"
  shows "lp_inv mode hash (rehash_loop mode hash slots nt)
    \<and> lp_map (rehash_loop mode hash slots nt) = lp_map nt ++ map_of (live_slots slots)
    \<and> lp_capacity (rehash_loop mode hash slots nt) = lp_capacity nt
    \<and> lp_shift (rehash_loop mode hash slots nt) = lp_shift nt"
  using assms
proof (induction slots arbitrary: nt)
  case Nil
  then show ?case by (simp add: live_slots_def)
next
  case (Cons s slots)
  obtain k v where s: "s = (k, v)" by (cases s)
  show ?case
  proof (cases "2 \<le> v")
    case True
    have new: "lp_map nt k = None" and room: "card (dom (lp_map nt)) < lp_capacity nt"
      using Cons.prems True by (auto simp: s live_slots_def domIff)
    obtain nt' where nt': "lp_insert mode hash nt k v = (True, nt')" "lp_inv mode hash nt'"
      "lp_map nt' = (lp_map nt)(k \<mapsto> v)" "lp_capacity nt' = lp_capacity nt" "lp_shift nt' = lp_shift nt"
      using lp_insert_spec [OF Cons.prems(1) True, of k] new room by auto
    have kn: "k \<notin> fst ` set (live_slots slots)" using Cons.prems(2) True by (simp add: s live_slots_def)
    have "card (dom (lp_map nt')) = Suc (card (dom (lp_map nt)))"
      using nt'(3) new lp_inv_facts(6) [OF Cons.prems(1)] by (simp add: card_insert_if domIff)
    then have c': "card (dom (lp_map nt')) + length (live_slots slots) \<le> lp_capacity nt'"
      using Cons.prems(4) True nt'(4) by (simp add: s live_slots_def)
    have d': "fst ` set (live_slots slots) \<inter> dom (lp_map nt') = {}"
      using Cons.prems(3) kn True by (auto simp: s live_slots_def nt'(3) split: if_splits)
    have IH: "lp_inv mode hash (rehash_loop mode hash slots nt')
        \<and> lp_map (rehash_loop mode hash slots nt') = lp_map nt' ++ map_of (live_slots slots)
        \<and> lp_capacity (rehash_loop mode hash slots nt') = lp_capacity nt'
        \<and> lp_shift (rehash_loop mode hash slots nt') = lp_shift nt'"
      using Cons.prems(2) True by (intro Cons.IH [OF nt'(2) _ d' c']) (simp add: s live_slots_def)
    have "map_of (live_slots slots) k = None" using kn by (simp add: map_of_eq_None_iff)
    then have "lp_map nt' ++ map_of (live_slots slots) = lp_map nt ++ map_of (live_slots (s # slots))"
      using True by (auto simp: nt'(3) s live_slots_def map_add_def fun_eq_iff split: option.splits)
    with IH nt' True show ?thesis by (simp add: s)
  next
    case False
    then have "v = 0 \<or> v = 1" by linarith
    with False Cons show ?thesis by (auto simp: s live_slots_def)
  qed
qed

lemma lp_rehash_spec:
  assumes inv: "lp_inv mode hash t" and c: "c < 63" and room: "lp_size t \<le> 2 ^ (c + 1)"
  shows "\<exists>t'. lp_rehash mode hash True zero_key t (2 ^ c) = Inr (True, t') \<and> lp_inv mode hash t'
    \<and> lp_map t' = lp_map t \<and> lp_capacity t' = 2 ^ (c + 1) \<and> lp_size t' = lp_size t"
proof -
  note f = lp_inv_facts [OF inv]
  obtain nt where nt: "LinearProbingTable True (2 ^ c) zero_key = Inr nt" "lp_inv mode hash nt"
    "lp_map nt = Map.empty" "lp_capacity nt = 2 ^ (c + 1)"
    using LinearProbingTable_spec [OF c] by metis
  let ?slots = "live_slots (lp_data t)" and ?r = "rehash_loop mode hash (lp_data t) nt"
  have dist: "distinct (map fst ?slots)" using distinct_live_slots [OF f(1)] .
  have map: "map_of ?slots = lp_map t"
    unfolding lp_map_def
    by (rule lp_data_map_eqI [OF f(1), symmetric]) (simp add: map_of_eq_Some_iff [OF dist] set_live_slots)
  have "dom (map_of ?slots) = fst ` set ?slots" by (simp add: dom_map_of_conv_image_fst)
  then have "length ?slots = lp_size t"
    using distinct_card [OF dist] f(5) map by (metis length_map set_map)
  then have r: "lp_inv mode hash ?r" "lp_map ?r = lp_map t" "lp_capacity ?r = 2 ^ (c + 1)"
    using rehash_loop_spec [OF nt(2) dist] room nt(3,4) map by auto
  let ?t = "t\<lparr>lp_data := lp_data ?r, lp_capacity := lp_capacity ?r, lp_shift := lp_shift ?r\<rparr>"
  have "lp_map ?t = lp_map t" using r(2) by (simp add: lp_map_def)
  moreover have "lp_inv mode hash ?t"
    using r(1) f(5) r(2) lp_inv_facts(5) [OF r(1)] by (simp add: lp_inv_def)
  ultimately show ?thesis using nt(1) r by (simp add: lp_rehash_def Let_def)
qed

subsection \<open>The contract of a pointer table\<close>

text \<open>
  What the order book and the book builder rely on: a finite map from keys to live pointers of
  bounded size. \<open>erase\<close> always returns.
\<close>

locale ptr_table =
  fixes inv :: "'t \<Rightarrow> bool"
    and lookup :: "'t \<Rightarrow> 'k \<Rightarrow> ptr option"
    and room :: "'t \<Rightarrow> nat"
    and ins :: "'t \<Rightarrow> 'k \<Rightarrow> ptr \<Rightarrow> bool \<times> 't"
    and find :: "'t \<Rightarrow> 'k \<Rightarrow> ptr"
    and del :: "'t \<Rightarrow> 'k \<Rightarrow> (bool \<times> 't) res"
  assumes lookup_live: "inv t \<Longrightarrow> lookup t k = Some v \<Longrightarrow> 2 \<le> v"
    and lookup_finite: "inv t \<Longrightarrow> finite (dom (lookup t)) \<and> card (dom (lookup t)) \<le> room t"
    and find_lookup: "inv t \<Longrightarrow> find t k = (case lookup t k of None \<Rightarrow> nullptr | Some v \<Rightarrow> v)"
    and ins_room: "inv t \<Longrightarrow> 2 \<le> v \<Longrightarrow> lookup t k = None \<Longrightarrow> card (dom (lookup t)) < room t \<Longrightarrow>
      \<exists>t'. ins t k v = (True, t') \<and> inv t' \<and> lookup t' = (lookup t)(k \<mapsto> v) \<and> room t' = room t"
    and ins_refused: "inv t \<Longrightarrow> 2 \<le> v \<Longrightarrow> lookup t k \<noteq> None \<or> card (dom (lookup t)) = room t \<Longrightarrow>
      ins t k v = (False, t)"
    and del_lookup: "inv t \<Longrightarrow>
      \<exists>t'. del t k = Inr (lookup t k \<noteq> None, t') \<and> inv t' \<and> lookup t' = (lookup t)(k := None) \<and> room t' = room t"
begin

lemma find_null_iff: "inv t \<Longrightarrow> find t k = nullptr \<longleftrightarrow> lookup t k = None"
  using lookup_live [of t k] by (auto simp: find_lookup split: option.splits)

lemma find_eq_iff: "inv t \<Longrightarrow> v \<noteq> nullptr \<Longrightarrow> find t k = v \<longleftrightarrow> lookup t k = Some v"
  by (auto simp: find_lookup split: option.splits)

lemma ins_cases:
  assumes "inv t" "2 \<le> v"
  obtains (added) t' where "ins t k v = (True, t')" "inv t'" "lookup t k = None" "card (dom (lookup t)) < room t"
      "lookup t' = (lookup t)(k \<mapsto> v)" "room t' = room t"
    | (refused) "ins t k v = (False, t)" "lookup t k \<noteq> None \<or> card (dom (lookup t)) = room t"
proof (cases "lookup t k = None \<and> card (dom (lookup t)) < room t")
  case True
  then show ?thesis using ins_room [OF assms] added by blast
next
  case False
  then have "lookup t k \<noteq> None \<or> card (dom (lookup t)) = room t"
    using lookup_finite [OF assms(1)] by linarith
  then show ?thesis using ins_refused [OF assms] refused by blast
qed

text \<open>After a successful insertion the table needs room for the next one.\<close>

lemma card_after_ins:
  assumes "inv t" "lookup t k = None" "lookup t' = (lookup t)(k \<mapsto> v)"
  shows "card (dom (lookup t')) = Suc (card (dom (lookup t)))"
  using assms lookup_finite [OF assms(1)] by (simp add: card_insert_if domIff)

lemma card_after_del:
  assumes "inv t" "lookup t k = Some v" "lookup t' = (lookup t)(k := None)"
  shows "card (dom (lookup t)) = Suc (card (dom (lookup t')))"
proof -
  have "k \<in> dom (lookup t)" using assms(2) by auto
  moreover have "dom (lookup t') = dom (lookup t) - {k}" using assms(3) by simp
  ultimately show ?thesis
    using lookup_finite [OF assms(1)] card_Suc_Diff1 [of "dom (lookup t)" k] by (simp only:)
qed

end

interpretation lp: ptr_table "lp_inv mode hash" lp_map lp_capacity "lp_insert mode hash"
  "lp_find mode hash" "lp_erase mode hash" for mode hash
proof unfold_locales
  fix t k v assume inv: "lp_inv mode hash t"
  show "lp_map t k = Some v \<Longrightarrow> 2 \<le> v" by (rule lp_map_ge2 [OF inv])
  show "finite (dom (lp_map t)) \<and> card (dom (lp_map t)) \<le> lp_capacity t"
    using lp_inv_facts(6) [OF inv] lp_full_iff(2) [OF inv] by simp
  show "lp_find mode hash t k = (case lp_map t k of None \<Rightarrow> nullptr | Some v \<Rightarrow> v)"
    by (rule lp_find_spec [OF inv])
  show "\<exists>t'. lp_erase mode hash t k = Inr (lp_map t k \<noteq> None, t') \<and> lp_inv mode hash t'
      \<and> lp_map t' = (lp_map t)(k := None) \<and> lp_capacity t' = lp_capacity t"
    by (rule lp_erase_spec [OF inv])
  assume v: "2 \<le> v"
  show "\<exists>t'. lp_insert mode hash t k v = (True, t') \<and> lp_inv mode hash t'
      \<and> lp_map t' = (lp_map t)(k \<mapsto> v) \<and> lp_capacity t' = lp_capacity t"
    if "lp_map t k = None" "card (dom (lp_map t)) < lp_capacity t"
    using lp_insert_spec [OF inv v, of k] that by auto
  show "lp_insert mode hash t k v = (False, t)"
    if "lp_map t k \<noteq> None \<or> card (dom (lp_map t)) = lp_capacity t"
    using lp_insert_spec [OF inv v, of k] that by (auto split: if_splits)
qed

text \<open>Sequences of insertions and erasures, and the bounded map they refine.\<close>

datatype 'k table_op = Insert_op 'k ptr | Erase_op 'k

fun run_table :: "('t \<Rightarrow> 'k \<Rightarrow> ptr \<Rightarrow> bool \<times> 't) \<Rightarrow> ('t \<Rightarrow> 'k \<Rightarrow> (bool \<times> 't) res) \<Rightarrow>
    'k table_op list \<Rightarrow> 't \<Rightarrow> (bool list \<times> 't) res" where
  "run_table ins del [] t = Inr ([], t)"
| "run_table ins del (Insert_op k v # ops) t =
     (case ins t k v of (b, t) \<Rightarrow>
        bind_res (run_table ins del ops t) (\<lambda>(bs, t). Inr (b # bs, t)))"
| "run_table ins del (Erase_op k # ops) t =
     bind_res (del t k) (\<lambda>(b, t).
        bind_res (run_table ins del ops t) (\<lambda>(bs, t). Inr (b # bs, t)))"

fun spec_table :: "nat \<Rightarrow> 'k table_op list \<Rightarrow> ('k \<rightharpoonup> ptr) \<Rightarrow> bool list \<times> ('k \<rightharpoonup> ptr)" where
  "spec_table cap [] m = ([], m)"
| "spec_table cap (Insert_op k v # ops) m =
     (let b = (m k = None \<and> card (dom m) < cap);
          (bs, m') = spec_table cap ops (if b then m(k \<mapsto> v) else m)
      in (b # bs, m'))"
| "spec_table cap (Erase_op k # ops) m =
     (let (bs, m') = spec_table cap ops (m(k := None)) in ((m k \<noteq> None) # bs, m'))"

fun op_live :: "'k table_op \<Rightarrow> bool" where
  "op_live (Insert_op k v) \<longleftrightarrow> 2 \<le> v"
| "op_live (Erase_op k) \<longleftrightarrow> True"

context ptr_table
begin

lemma run_table_refines:
  assumes "inv t" "\<forall>oper \<in> set ops. op_live oper"
  shows "\<exists>t'. run_table ins del ops t = Inr (fst (spec_table (room t) ops (lookup t)), t')
    \<and> inv t' \<and> lookup t' = snd (spec_table (room t) ops (lookup t)) \<and> room t' = room t"
  using assms
proof (induction ops arbitrary: t)
  case Nil
  then show ?case by simp
next
  case (Cons oper ops)
  show ?case
  proof (cases oper)
    case (Insert_op k v)
    then have v: "2 \<le> v" using Cons.prems by simp
    show ?thesis
    proof (cases rule: ins_cases [OF Cons.prems(1) v, of k, case_names added refused])
      case (added t')
      from added(1-4) Cons.IH [OF added(2), unfolded added(5,6)] Cons.prems(2) show ?thesis
        by (auto simp: Insert_op simp del: fun_upd_apply split: prod.splits)
    next
      case refused
      with Cons.IH [OF Cons.prems(1)] Cons.prems(2) show ?thesis
        by (auto simp: Insert_op simp del: fun_upd_apply split: prod.splits)
    qed
  next
    case (Erase_op k)
    obtain t' where t': "del t k = Inr (lookup t k \<noteq> None, t')" "inv t'"
      "lookup t' = (lookup t)(k := None)" "room t' = room t"
      using del_lookup [OF Cons.prems(1)] by blast
    from t'(1,2) Cons.IH [OF t'(2), unfolded t'(3,4)] Cons.prems(2) show ?thesis
      by (auto simp: Erase_op simp del: fun_upd_apply split: prod.splits)
  qed
qed

end

text \<open>
  C7. The linear probing table behaves as a map of bounded size. From a new table, any
  sequence of insertions of live pointers and erasures ends (the backward shift loop of
  \<open>erase\<close> always reaches an empty slot), returns the same answers as the map, and afterwards
  \<open>find\<close> gives the map's value for every key, in both erase modes and for every hash.
\<close>

theorem lp_table_refines_map:
  assumes "c < 63" "\<forall>oper \<in> set ops. op_live oper"
  shows "\<exists>t t'. LinearProbingTable True (2 ^ c) zero_key = Inr t
    \<and> run_table (lp_insert mode hash) (lp_erase mode hash) ops t
        = Inr (fst (spec_table (2 ^ (c + 1)) ops Map.empty), t')
    \<and> (\<forall>k. lp_find mode hash t' k =
        (case snd (spec_table (2 ^ (c + 1)) ops Map.empty) k of None \<Rightarrow> nullptr | Some v \<Rightarrow> v))"
proof -
  obtain t where t: "LinearProbingTable True (2 ^ c) zero_key = Inr t" "lp_inv mode hash t"
    "lp_map t = Map.empty" "lp_capacity t = 2 ^ (c + 1)"
    using LinearProbingTable_spec [OF assms(1)] by metis
  from lp.run_table_refines [OF t(2) assms(2)] obtain t' where
    "run_table (lp_insert mode hash) (lp_erase mode hash) ops t =
       Inr (fst (spec_table (2 ^ (c + 1)) ops Map.empty), t')"
    "lp_inv mode hash t'" "lp_map t' = snd (spec_table (2 ^ (c + 1)) ops Map.empty)"
    unfolding t(3,4) by blast
  with t(1) lp_find_spec show ?thesis by metis
qed

theorem lp_table_refines_map_witness:
  "\<exists>t t'. LinearProbingTable True 1 (0 :: oid_t) = Inr t
    \<and> run_table (lp_insert BackwardShift FibHash64) (lp_erase BackwardShift FibHash64)
        [Insert_op 5 20, Insert_op 6 30, Insert_op 7 40, Erase_op 5] t = Inr ([True, True, False, True], t')
    \<and> lp_find BackwardShift FibHash64 t' 6 = 30"
proof -
  have spec: "spec_table 2 [Insert_op (5 :: oid_t) 20, Insert_op 6 30, Insert_op 7 40, Erase_op 5] Map.empty
      = ([True, True, False, True], [6 \<mapsto> 30])"
    by (auto simp: Let_def)
  show ?thesis
    using lp_table_refines_map [of 0 "[Insert_op 5 20, Insert_op 6 30, Insert_op 7 40, Erase_op (5 :: oid_t)]"
        0 BackwardShift FibHash64] spec
    by (auto simp del: spec_table.simps run_table.simps)
qed

text \<open>
  Rehashing to a power of two large enough for the entries keeps every entry and the size,
  and gives a table of twice the requested capacity; an allocation failure leaves the table as
  it was; a capacity that is no power of two ends the process, because the exception leaves
  a \<open>noexcept\<close> function.
\<close>

lemma lp_rehash_keeps_entries:
  assumes "lp_inv mode hash t"
  shows "(c < 63 \<and> lp_size t \<le> 2 ^ (c + 1) \<longrightarrow>
      (\<exists>t'. lp_rehash mode hash True zero_key t (2 ^ c) = Inr (True, t') \<and> lp_inv mode hash t'
        \<and> (\<forall>k. lp_find mode hash t' k = lp_find mode hash t k) \<and> lp_size t' = lp_size t
        \<and> lp_capacity t' = 2 ^ (c + 1)))
    \<and> lp_rehash mode hash False zero_key t n = Inr (False, t)
    \<and> ((\<nexists>c. n = 2 ^ c) \<longrightarrow> lp_rehash mode hash True zero_key t n = Inl Terminated)"
proof (intro conjI impI)
  assume "c < 63 \<and> lp_size t \<le> 2 ^ (c + 1)"
  then show "\<exists>t'. lp_rehash mode hash True zero_key t (2 ^ c) = Inr (True, t') \<and> lp_inv mode hash t'
      \<and> (\<forall>k. lp_find mode hash t' k = lp_find mode hash t k) \<and> lp_size t' = lp_size t
      \<and> lp_capacity t' = 2 ^ (c + 1)"
    using lp_rehash_spec [OF assms, of c zero_key] lp_find_spec lp_find_spec [OF assms] by metis
qed (auto simp: lp_rehash_def LinearProbingTable_def has_single_bit_iff Let_def)

lemma lp_rehash_keeps_entries_witness:
  "\<exists>t t'. LinearProbingTable True 1 (0 :: oid_t) = Inr t
    \<and> lp_rehash Tombstone FibHash64 True 0 t 4 = Inr (True, t') \<and> lp_capacity t' = 8
    \<and> lp_rehash Tombstone FibHash64 True 0 t 3 = Inl Terminated"
proof -
  obtain t where t: "LinearProbingTable True 1 (0 :: oid_t) = Inr t" "lp_inv Tombstone FibHash64 t"
    "lp_map t = Map.empty"
    using LinearProbingTable_spec [of 0 "0 :: oid_t" Tombstone FibHash64] by auto
  have "lp_size t = 0" using lp_inv_facts(5) [OF t(2)] t(3) by simp
  moreover have "(\<nexists>c. 3 = (2 :: nat) ^ c)"
  proof
    assume "\<exists>c. 3 = (2 :: nat) ^ c"
    then obtain c where "3 = (2 :: nat) ^ c" by blast
    then show False by (cases c) (auto, presburger)
  qed
  ultimately show ?thesis
    using t(1) lp_rehash_keeps_entries [OF t(2), of 2 0 3] by auto
qed

end
