(* ===== verification/Object_Pool.thy ===== *)
theory Object_Pool
  imports Market_Types
begin

section \<open>Object pool (src/common/object\_pool.hpp)\<close>

text \<open>
  A stack of free objects. The storage is a range of addresses \<open>base + i * sz\<close>; the array
  \<open>free_\<close> is a list of \<open>capacity_\<close> addresses of which the first \<open>n_free_\<close> count. The
  template's \<open>Reset\<close> and the construction of an object act on the memory the client owns and
  are parameters. An index outside \<open>free_\<close> is a \<open>Bad_Access\<close>.
\<close>

record obj_pool =
  op_free :: "ptr list"
  op_capacity :: nat
  op_n_free :: nat

definition NoReset :: "ptr \<Rightarrow> 'h \<Rightarrow> 'h" where
  "NoReset obj h = h"

definition chunk :: "ptr \<Rightarrow> nat \<Rightarrow> nat \<Rightarrow> ptr list" where
  "chunk base sz n = map (\<lambda>i. base + i * sz) [0..<n]"

text \<open>The constructor: \<open>free_[i] = &storage_[n_objects - 1 - i]\<close>.\<close>

definition ObjectPool :: "ptr \<Rightarrow> nat \<Rightarrow> nat \<Rightarrow> obj_pool" where
  "ObjectPool storage sz n_objects =
     \<lparr>op_free = map (\<lambda>i. storage + (n_objects - 1 - i) * sz) [0..<n_objects],
      op_capacity = n_objects, op_n_free = n_objects\<rparr>"

definition op_get :: "obj_pool \<Rightarrow> (ptr \<times> obj_pool) res" where
  "op_get p =
     (if op_n_free p = 0 then Inr (nullptr, p)
      else let n = op_n_free p - 1 in
        if n < length (op_free p) then Inr (op_free p ! n, p\<lparr>op_n_free := n\<rparr>) else Inl Bad_Access)"

definition op_restore :: "(ptr \<Rightarrow> 'h \<Rightarrow> 'h) \<Rightarrow> obj_pool \<Rightarrow> 'h \<Rightarrow> ptr \<Rightarrow> ('h \<times> obj_pool) res" where
  "op_restore reset p h obj =
     (if obj = nullptr then Inr (h, p)
      else if op_n_free p < length (op_free p)
      then Inr (reset obj h, p\<lparr>op_free := (op_free p)[op_n_free p := obj], op_n_free := op_n_free p + 1\<rparr>)
      else Inl Bad_Access)"

text \<open>
  \<open>alloc_ok\<close> says whether \<open>make_unique\<close> gets its memory; \<open>construct\<close> is the placement
  \<open>new\<close> of one object.
\<close>

definition op_add_chunk ::
  "(ptr \<Rightarrow> 'h \<Rightarrow> 'h) \<Rightarrow> bool \<Rightarrow> nat \<Rightarrow> obj_pool \<Rightarrow> 'h \<Rightarrow> ptr \<Rightarrow> nat \<Rightarrow> (bool \<times> 'h \<times> obj_pool) res" where
  "op_add_chunk construct alloc_ok sz p h mem n =
     (if \<not> alloc_ok then Inr (False, h, p)
      else if length (op_free p) < op_n_free p then Inl Bad_Access
      else let new_free = take (op_n_free p) (op_free p) @ chunk mem sz n in
        if op_capacity p + n < length new_free then Inl Bad_Access
        else Inr (True, fold construct (chunk mem sz n) h,
          \<lparr>op_free = new_free @ replicate (op_capacity p + n - length new_free) nullptr,
           op_capacity = op_capacity p + n, op_n_free = op_n_free p + n\<rparr>))"

definition op_capacity_of :: "obj_pool \<Rightarrow> nat" where
  "op_capacity_of p = op_capacity p"

definition op_available :: "obj_pool \<Rightarrow> nat" where
  "op_available p = op_n_free p"

subsection \<open>Invariant and abstraction\<close>

definition op_inv :: "obj_pool \<Rightarrow> bool" where
  "op_inv p \<longleftrightarrow> length (op_free p) = op_capacity p \<and> op_n_free p \<le> op_capacity p"

text \<open>The free objects, the next one to hand out first.\<close>

definition op_stack :: "obj_pool \<Rightarrow> ptr list" where
  "op_stack p = rev (take (op_n_free p) (op_free p))"

lemma length_op_stack: "op_inv p \<Longrightarrow> length (op_stack p) = op_n_free p"
  by (simp add: op_inv_def op_stack_def)

lemma length_chunk [simp]: "length (chunk base sz n) = n"
  by (simp add: chunk_def)

lemma set_chunk: "set (chunk base sz n) = {base + i * sz |i. i < n}"
  by (auto simp: chunk_def)

lemma distinct_chunk: "0 < sz \<Longrightarrow> distinct (chunk base sz n)"
  by (simp add: chunk_def distinct_map inj_on_def)

lemma ObjectPool_spec: "op_inv (ObjectPool storage sz n)" "op_stack (ObjectPool storage sz n) = chunk storage sz n"
proof -
  show "op_inv (ObjectPool storage sz n)" by (simp add: op_inv_def ObjectPool_def)
  have "rev (map (\<lambda>i. storage + (n - 1 - i) * sz) [0..<n]) ! j = chunk storage sz n ! j" if "j < n" for j
    using that by (simp add: chunk_def rev_nth)
  then show "op_stack (ObjectPool storage sz n) = chunk storage sz n"
    by (intro nth_equalityI) (simp_all add: op_stack_def ObjectPool_def)
qed

lemma op_get_spec:
  assumes "op_inv p"
  shows "case op_stack p of [] \<Rightarrow> op_get p = Inr (nullptr, p)
    | a # as \<Rightarrow> \<exists>p'. op_get p = Inr (a, p') \<and> op_inv p' \<and> op_stack p' = as \<and> op_capacity p' = op_capacity p"
proof (cases "op_n_free p")
  case 0
  then show ?thesis by (simp add: op_stack_def op_get_def)
next
  case (Suc n)
  then have n: "n < length (op_free p)" using assms by (simp add: op_inv_def)
  then have "op_stack p = op_free p ! n # rev (take n (op_free p))"
    by (simp add: op_stack_def Suc take_Suc_conv_app_nth)
  with n Suc assms show ?thesis by (simp add: op_get_def op_inv_def op_stack_def)
qed

lemma op_restore_spec:
  assumes "op_inv p" "op_n_free p < op_capacity p" "obj \<noteq> nullptr"
  shows "\<exists>p'. op_restore reset p h obj = Inr (reset obj h, p') \<and> op_inv p' \<and> op_stack p' = obj # op_stack p
    \<and> op_capacity p' = op_capacity p"
  using assms by (simp add: op_restore_def op_inv_def op_stack_def take_Suc_conv_app_nth)

lemma op_add_chunk_spec:
  assumes "op_inv p"
  shows "\<exists>p'. op_add_chunk construct True sz p h mem n = Inr (True, fold construct (chunk mem sz n) h, p')
    \<and> op_inv p' \<and> op_stack p' = rev (chunk mem sz n) @ op_stack p \<and> op_capacity p' = op_capacity p + n"
  using assms by (simp add: op_add_chunk_def op_inv_def op_stack_def Let_def)

subsection \<open>The contract of a pool\<close>

text \<open>
  A pool holds a stack of free addresses and never more of them than its capacity; what it
  hands out is the top of the stack, and what is given back is handed out next.
\<close>

locale object_pool =
  fixes inv :: "'p \<Rightarrow> bool"
    and stack :: "'p \<Rightarrow> ptr list"
    and size_of :: "'p \<Rightarrow> nat"
    and get :: "'p \<Rightarrow> (ptr \<times> 'p) res"
    and give :: "'p \<Rightarrow> 'h \<Rightarrow> ptr \<Rightarrow> ('h \<times> 'p) res"
  assumes stack_size: "inv p \<Longrightarrow> length (stack p) \<le> size_of p"
    and get_none: "inv p \<Longrightarrow> stack p = [] \<Longrightarrow> get p = Inr (nullptr, p)"
    and get_some: "inv p \<Longrightarrow> stack p = a # as \<Longrightarrow>
      \<exists>p'. get p = Inr (a, p') \<and> inv p' \<and> stack p' = as \<and> size_of p' = size_of p"
    and give_back: "inv p \<Longrightarrow> length (stack p) < size_of p \<Longrightarrow> a \<noteq> nullptr \<Longrightarrow>
      \<exists>p'. give p h a = Inr (h, p') \<and> inv p' \<and> stack p' = a # stack p \<and> size_of p' = size_of p"
begin

text \<open>Giving back what was just taken restores the pool's stack.\<close>

lemma get_give:
  assumes "inv p" "stack p = a # as" "a \<noteq> nullptr"
  shows "\<exists>p' p''. get p = Inr (a, p') \<and> give p' h a = Inr (h, p'') \<and> inv p'' \<and> stack p'' = stack p
    \<and> size_of p'' = size_of p"
proof -
  obtain p' where p': "get p = Inr (a, p')" "inv p'" "stack p' = as" "size_of p' = size_of p"
    using get_some [OF assms(1,2)] by blast
  have "length (stack p') < size_of p'"
    using stack_size [OF assms(1)] p' assms(2) by simp
  from give_back [OF p'(2) this assms(3)] p' assms(2) show ?thesis by fastforce
qed

end

interpretation op: object_pool op_inv op_stack op_capacity op_get "op_restore NoReset"
proof unfold_locales
  show "op_inv p \<Longrightarrow> length (op_stack p) \<le> op_capacity p" for p
    by (simp add: op_inv_def op_stack_def)
  show "op_inv p \<Longrightarrow> op_stack p = [] \<Longrightarrow> op_get p = Inr (nullptr, p)" for p
    using op_get_spec [of p] by simp
  show "op_inv p \<Longrightarrow> op_stack p = a # as \<Longrightarrow>
      \<exists>p'. op_get p = Inr (a, p') \<and> op_inv p' \<and> op_stack p' = as \<and> op_capacity p' = op_capacity p" for p a as
    using op_get_spec [of p] by simp
  show "op_inv p \<Longrightarrow> length (op_stack p) < op_capacity p \<Longrightarrow> a \<noteq> nullptr \<Longrightarrow>
      \<exists>p'. op_restore NoReset p h a = Inr (h, p') \<and> op_inv p' \<and> op_stack p' = a # op_stack p
        \<and> op_capacity p' = op_capacity p" for p h a
    using op_restore_spec [of p a NoReset h] length_op_stack [of p] by (simp add: NoReset_def)
qed

text \<open>A client of the pool: what is taken out and what is given back.\<close>

datatype pool_op = Get | Restore ptr | Add_chunk ptr nat

fun run_pool_op :: "nat \<Rightarrow> pool_op \<Rightarrow> obj_pool \<Rightarrow> (ptr \<times> obj_pool) res" where
  "run_pool_op sz Get p = op_get p"
| "run_pool_op sz (Restore a) p = bind_res (op_restore NoReset p () a) (\<lambda>(_, p). Inr (a, p))"
| "run_pool_op sz (Add_chunk mem n) p =
     bind_res (op_add_chunk (\<lambda>_ h. h) True sz p () mem n) (\<lambda>(_, _, p). Inr (mem, p))"

text \<open>
  Running operations with the addresses in use as a ghost set; \<open>None\<close> when the client breaks
  the protocol: it gives back an address that is not in use, or adds memory the pool has already.
\<close>

fun run_pool :: "nat \<Rightarrow> pool_op list \<Rightarrow> ptr set \<Rightarrow> obj_pool \<Rightarrow> (ptr set \<times> obj_pool) res option" where
  "run_pool sz [] used p = Some (Inr (used, p))"
| "run_pool sz (oper # ops) used p =
     (case oper of
        Restore a \<Rightarrow> if a \<notin> used then None else
          (case run_pool_op sz oper p of Inl e \<Rightarrow> Some (Inl e)
           | Inr (_, p') \<Rightarrow> run_pool sz ops (used - {a}) p')
      | Get \<Rightarrow>
          (case run_pool_op sz oper p of Inl e \<Rightarrow> Some (Inl e)
           | Inr (a, p') \<Rightarrow> run_pool sz ops (if a = nullptr then used else insert a used) p')
      | Add_chunk mem n \<Rightarrow>
          if mem = nullptr \<or> set (chunk mem sz n) \<inter> (used \<union> set (op_stack p)) \<noteq> {} then None else
          (case run_pool_op sz oper p of Inl e \<Rightarrow> Some (Inl e)
           | Inr (_, p') \<Rightarrow> run_pool sz ops used p'))"

definition pool_ok :: "ptr set \<Rightarrow> obj_pool \<Rightarrow> bool" where
  "pool_ok used p \<longleftrightarrow> op_inv p \<and> finite used \<and> distinct (op_stack p) \<and> used \<inter> set (op_stack p) = {}
     \<and> nullptr \<notin> used \<union> set (op_stack p) \<and> op_n_free p + card used = op_capacity p"

lemma pool_ok_get:
  assumes "pool_ok used p"
  shows "\<exists>a p'. op_get p = Inr (a, p') \<and> pool_ok (if a = nullptr then used else insert a used) p'
    \<and> (a = nullptr \<longleftrightarrow> card used = op_capacity p) \<and> a \<notin> used
    \<and> op_stack p = (if a = nullptr then [] else a # op_stack p') \<and> op_capacity p' = op_capacity p
    \<and> (a = nullptr \<longrightarrow> p' = p)"
proof (cases "op_stack p")
  case Nil
  then show ?thesis
    using assms op_get_spec [of p] length_op_stack [of p] by (auto simp: pool_ok_def)
next
  case (Cons a as)
  then obtain p' where p': "op_get p = Inr (a, p')" "op_inv p'" "op_stack p' = as" "op_capacity p' = op_capacity p"
    using assms op_get_spec [of p] by (auto simp: pool_ok_def)
  then have "a \<notin> used" "a \<noteq> nullptr" using assms Cons by (auto simp: pool_ok_def)
  moreover have "op_n_free p = Suc (op_n_free p')"
    using length_op_stack [of p] length_op_stack [of p'] p' assms Cons by (simp add: pool_ok_def)
  ultimately show ?thesis
    using p' assms Cons by (auto simp: pool_ok_def)
qed

lemma pool_ok_restore:
  assumes "pool_ok used p" "a \<in> used"
  shows "\<exists>p'. op_restore NoReset p h a = Inr (h, p') \<and> pool_ok (used - {a}) p'
    \<and> op_stack p' = a # op_stack p \<and> op_capacity p' = op_capacity p"
proof -
  have "card (used - {a}) = card used - 1" "0 < card used"
    using assms by (auto simp: pool_ok_def card_gt_0_iff)
  moreover have inv: "op_inv p" and a: "a \<noteq> nullptr" using assms by (auto simp: pool_ok_def)
  moreover from calculation assms have "op_n_free p < op_capacity p" by (simp add: pool_ok_def)
  with op_restore_spec [OF inv _ a, of NoReset h] obtain p' where
    p': "op_restore NoReset p h a = Inr (h, p')" "op_inv p'" "op_stack p' = a # op_stack p"
      "op_capacity p' = op_capacity p"
    by (auto simp: NoReset_def)
  moreover have "op_n_free p' = Suc (op_n_free p)"
    using length_op_stack [OF p'(2)] length_op_stack [OF inv] p'(3) by simp
  ultimately show ?thesis using assms by (auto simp: pool_ok_def)
qed

lemma pool_ok_add_chunk:
  assumes "pool_ok used p" "0 < sz" "mem \<noteq> nullptr" "set (chunk mem sz n) \<inter> (used \<union> set (op_stack p)) = {}"
  shows "\<exists>p'. op_add_chunk construct True sz p h mem n = Inr (True, fold construct (chunk mem sz n) h, p')
    \<and> pool_ok used p' \<and> op_capacity p' = op_capacity p + n
    \<and> op_stack p' = rev (chunk mem sz n) @ op_stack p"
proof -
  have inv: "op_inv p" using assms by (simp add: pool_ok_def)
  from op_add_chunk_spec [OF inv, of construct sz h mem n] obtain p' where
    p': "op_add_chunk construct True sz p h mem n = Inr (True, fold construct (chunk mem sz n) h, p')"
      "op_inv p'" "op_stack p' = rev (chunk mem sz n) @ op_stack p" "op_capacity p' = op_capacity p + n"
    by blast
  have "op_n_free p' = op_n_free p + n"
    using length_op_stack [OF p'(2)] length_op_stack [OF inv] p'(3) by simp
  with p' assms distinct_chunk [OF assms(2), of mem n] show ?thesis
    by (auto simp: pool_ok_def set_chunk)
qed

text \<open>
  C16. The object pool never hands out an address twice: over any sequence of \<open>get\<close>,
  \<open>restore\<close> of an address in use and \<open>add_chunk\<close> of fresh memory, no access leaves the free
  array, the addresses in use and the free ones stay disjoint and free of duplicates, their
  number is the capacity, and \<open>get\<close> returns null exactly when everything is in use.
\<close>

theorem pool_no_double_use:
  assumes "0 < sz" "nullptr < storage" "run_pool sz ops {} (ObjectPool storage sz n) = Some r"
  shows "\<exists>used p a p'. r = Inr (used, p) \<and> pool_ok used p
    \<and> op_get p = Inr (a, p') \<and> a \<notin> used \<and> (a = nullptr \<longleftrightarrow> card used = op_capacity p)"
proof -
  have "\<exists>used' p'. r = Inr (used', p') \<and> pool_ok used' p'"
    if "run_pool sz ops used p = Some r" "pool_ok used p" for used p
    using that
  proof (induction ops arbitrary: used p)
    case (Cons oper ops)
    show ?case
    proof (cases oper)
      case Get
      then show ?thesis using Cons pool_ok_get [OF Cons.prems(2)] by auto
    next
      case (Restore a)
      with Cons.prems(1) have a: "a \<in> used" by (auto split: if_splits)
      from pool_ok_restore [OF Cons.prems(2) a, of "()"] obtain p' where
        "run_pool_op sz oper p = Inr (a, p')" "pool_ok (used - {a}) p'"
        by (auto simp: Restore)
      with Cons.IH [of "used - {a}" p'] Cons.prems(1) a show ?thesis by (simp add: Restore)
    next
      case (Add_chunk mem k)
      with Cons.prems(1) have c: "mem \<noteq> nullptr" "set (chunk mem sz k) \<inter> (used \<union> set (op_stack p)) = {}"
        by (auto split: if_splits)
      from pool_ok_add_chunk [OF Cons.prems(2) assms(1) c, of "\<lambda>_ h. h" "()"] obtain p' where
        "run_pool_op sz oper p = Inr (mem, p')" "pool_ok used p'"
        by (auto simp: Add_chunk)
      with Cons.IH [of used p'] Cons.prems(1) c show ?thesis by (simp add: Add_chunk)
    qed
  qed auto
  moreover have "pool_ok {} (ObjectPool storage sz n)"
    using ObjectPool_spec [of storage sz n] distinct_chunk [OF assms(1)] assms(2)
    by (auto simp: pool_ok_def set_chunk ObjectPool_def)
  ultimately obtain used p where "r = Inr (used, p)" "pool_ok used p" using assms(3) by blast
  with pool_ok_get [of used p] show ?thesis by blast
qed

theorem pool_no_double_use_witness:
  "\<exists>used p a p'. run_pool 40 [Get, Get, Restore 1000, Get, Get, Add_chunk 5000 1, Get] {} (ObjectPool 1000 40 2)
     = Some (Inr (used, p)) \<and> pool_ok used p \<and> used = {1000, 1040, 5000} \<and> op_get p = Inr (a, p') \<and> a = nullptr"
proof -
  let ?p = "\<lparr>op_free = [5000, 0, 0], op_capacity = 3, op_n_free = 0\<rparr>"
  have "run_pool 40 [Get, Get, Restore 1000, Get, Get, Add_chunk 5000 1, Get] {} (ObjectPool 1000 40 2)
      = Some (Inr ({1000, 1040, 5000}, ?p))"
    by code_simp
  from pool_no_double_use [OF _ _ this] show ?thesis
    unfolding \<open>run_pool 40 _ _ _ = _\<close> by (simp add: op_get_def)
qed

end
