(* ===== verification/Order_Book.thy ===== *)
theory Order_Book
  imports Two_Tier_Levels Linear_Probing_Table Object_Pool
begin

section \<open>Order book (src/orderbook/order\_book.hpp)\<close>

text \<open>
  A book by order: two sides of price levels, each level a doubly linked queue of orders in
  time order, a pool of order objects and a table from order ids to orders. Orders live in a
  heap, a map from addresses to objects; dereferencing an address without an object is
  \<open>Bad_Access\<close>. The answers of the allocators that \<open>grow\<close> asks are an argument.
\<close>

record order =
  o_num :: u64
  o_shares :: u32
  o_price :: u32
  o_side :: side
  o_next :: ptr
  o_prev :: ptr

definition Order_init :: order where
  "Order_init = \<lparr>o_num = 0, o_shares = 0, o_price = 0, o_side = BID, o_next = nullptr, o_prev = nullptr\<rparr>"

definition sizeof_Order :: nat where
  "sizeof_Order = 40"

definition MAX_ORDERS :: u32 where
  "MAX_ORDERS = push_bit 12 1"

datatype add_order_error = DuplicateOrderId | LevelsFull

type_synonym heap = "ptr \<Rightarrow> order option"

record order_book =
  ob_bids :: two_tier
  ob_asks :: two_tier
  ob_max_orders :: u32
  ob_pool :: obj_pool
  ob_orders :: "oid_t lpt"
  ob_heap :: heap

text \<open>Memory accesses through an \<open>Order *\<close>.\<close>

definition get_obj :: "heap \<Rightarrow> ptr \<Rightarrow> order res" where
  "get_obj h a = (case h a of None \<Rightarrow> Inl Bad_Access | Some ord \<Rightarrow> Inr ord)"

definition upd_obj :: "heap \<Rightarrow> ptr \<Rightarrow> (order \<Rightarrow> order) \<Rightarrow> heap res" where
  "upd_obj h a f = (case h a of None \<Rightarrow> Inl Bad_Access | Some ord \<Rightarrow> Inr (h(a \<mapsto> f ord)))"

definition ob_side :: "side \<Rightarrow> order_book \<Rightarrow> two_tier" where
  "ob_side s b = (if s = BID then ob_bids b else ob_asks b)"

definition set_ob_side :: "side \<Rightarrow> two_tier \<Rightarrow> order_book \<Rightarrow> order_book" where
  "set_ob_side s tt b = (if s = BID then b\<lparr>ob_bids := tt\<rparr> else b\<lparr>ob_asks := tt\<rparr>)"

definition ob_find :: "order_book \<Rightarrow> oid_t \<Rightarrow> ptr" where
  "ob_find b oid = lp_find BackwardShift FibHash64 (ob_orders b) oid"

text \<open>The answers \<open>grow\<close> gets: the chunk from the buffer pool, and whether the two arrays are allocated.\<close>

record grow_env =
  ge_mem :: ptr
  ge_free_ok :: bool
  ge_table_ok :: bool

definition grow :: "grow_env \<Rightarrow> order_book \<Rightarrow> (bool \<times> order_book) res" where
  "grow env b =
     (let n = unat (ob_max_orders b); mem = ge_mem env in
      if mem = nullptr then Inr (False, b)
      else bind_res (op_add_chunk (\<lambda>a h. h(a \<mapsto> Order_init)) (ge_free_ok env) sizeof_Order (ob_pool b)
                       (ob_heap b) mem n) (\<lambda>(ok, h, pool).
        let b = b\<lparr>ob_heap := h, ob_pool := pool\<rparr> in
        if \<not> ok then Inr (False, b)
        else bind_res (lp_rehash BackwardShift FibHash64 (ge_table_ok env) 0 (ob_orders b)
                         (unat (ob_max_orders b) + n)) (\<lambda>(ok, tbl).
          let b = b\<lparr>ob_orders := tbl\<rparr> in
          if \<not> ok then Inr (False, b)
          else Inr (True, b\<lparr>ob_max_orders := ob_max_orders b + word_of_nat n\<rparr>))))"

definition find_level :: "side \<Rightarrow> u32 \<Rightarrow> order_book \<Rightarrow> loc option" where
  "find_level s price b = (if s = BID then tt_find BID (ob_bids b) price else tt_find ASK (ob_asks b) price)"

definition find_or_insert_level :: "side \<Rightarrow> u32 \<Rightarrow> order_book \<Rightarrow> loc option \<times> order_book" where
  "find_or_insert_level s price b =
     (case find_or_insert s (ob_side s b) price of (l, tt) \<Rightarrow> (l, set_ob_side s tt b))"

definition erase_level :: "side \<Rightarrow> u32 \<Rightarrow> order_book \<Rightarrow> order_book" where
  "erase_level s price b = set_ob_side s (tt_erase s (ob_side s b) price) b"

definition put_level :: "side \<Rightarrow> loc \<Rightarrow> level_data \<Rightarrow> order_book \<Rightarrow> order_book" where
  "put_level s l d b = set_ob_side s (set_level_at (ob_side s b) l d) b"

definition add_to_price_queue :: "ptr \<Rightarrow> order_book \<Rightarrow> (bool \<times> order_book) res" where
  "add_to_price_queue order b =
     bind_res (get_obj (ob_heap b) order) (\<lambda>ord.
     case find_or_insert_level (o_side ord) (o_price ord) b of
       (None, b) \<Rightarrow> Inr (False, b)
     | (Some l, b) \<Rightarrow>
         let level = level_at (ob_side (o_side ord) b) l in
         bind_res
           (if ld_head level = nullptr then Inr (level\<lparr>ld_head := order\<rparr>, ob_heap b)
            else bind_res (upd_obj (ob_heap b) (ld_tail level) (\<lambda>t. t\<lparr>o_next := order\<rparr>)) (\<lambda>h.
                 bind_res (upd_obj h order (\<lambda>t. t\<lparr>o_prev := ld_tail level\<rparr>)) (\<lambda>h. Inr (level, h))))
           (\<lambda>(level, h).
              let level = level\<lparr>ld_tail := order, ld_total_qty := ld_total_qty level + ucast (o_shares ord)\<rparr>
              in Inr (True, put_level (o_side ord) l level (b\<lparr>ob_heap := h\<rparr>))))"

definition remove_from_price_queue :: "ptr \<Rightarrow> order_book \<Rightarrow> (bool \<times> order_book) res" where
  "remove_from_price_queue order b =
     bind_res (get_obj (ob_heap b) order) (\<lambda>ord.
     case find_level (o_side ord) (o_price ord) b of
       None \<Rightarrow> Inr (False, b)
     | Some l \<Rightarrow>
         let level = level_at (ob_side (o_side ord) b) l in
         bind_res (if o_prev ord \<noteq> nullptr
                   then bind_res (upd_obj (ob_heap b) (o_prev ord) (\<lambda>t. t\<lparr>o_next := o_next ord\<rparr>))
                          (\<lambda>h. Inr (level, h))
                   else Inr (level\<lparr>ld_head := o_next ord\<rparr>, ob_heap b)) (\<lambda>(level, h).
         bind_res (if o_next ord \<noteq> nullptr
                   then bind_res (upd_obj h (o_next ord) (\<lambda>t. t\<lparr>o_prev := o_prev ord\<rparr>))
                          (\<lambda>h. Inr (level, h))
                   else Inr (level\<lparr>ld_tail := o_prev ord\<rparr>, h)) (\<lambda>(level, h).
         let level = level\<lparr>ld_total_qty := ld_total_qty level - ucast (o_shares ord)\<rparr>;
             b = put_level (o_side ord) l level (b\<lparr>ob_heap := h\<rparr>)
         in Inr (True, if ld_head level = nullptr then erase_level (o_side ord) (o_price ord) b else b))))"

text \<open>
  The constructor. \<open>storage\<close> is the address of the pool's array of \<open>n\<close> orders, whose fields are
  uninitialised (\<open>junk\<close>); \<open>K\<close> and \<open>ColdCap\<close> are the template parameters.
\<close>

definition OrderBook :: "nat \<Rightarrow> nat \<Rightarrow> ptr \<Rightarrow> (ptr \<Rightarrow> order) \<Rightarrow> bool \<Rightarrow> lp_exception + order_book" where
  "OrderBook K ColdCap storage junk alloc_ok =
     (let n = unat MAX_ORDERS in
      case LinearProbingTable alloc_ok n 0 of
        Inl e \<Rightarrow> Inl e
      | Inr tbl \<Rightarrow> Inr
          \<lparr>ob_bids = TwoTierLevels_init BID K ColdCap, ob_asks = TwoTierLevels_init ASK K ColdCap,
           ob_max_orders = MAX_ORDERS, ob_pool = ObjectPool storage sizeof_Order n, ob_orders = tbl,
           ob_heap = (\<lambda>a. if a \<in> set (chunk storage sizeof_Order n) then Some (junk a) else None)\<rparr>)"

definition add_order ::
  "grow_env \<Rightarrow> oid_t \<Rightarrow> u32 \<Rightarrow> u32 \<Rightarrow> side \<Rightarrow> order_book \<Rightarrow> ((add_order_error + unit) \<times> order_book) res" where
  "add_order env oid shares price side b =
     (if ob_find b oid \<noteq> nullptr then Inr (Inl DuplicateOrderId, b)
      else bind_res (op_get (ob_pool b)) (\<lambda>(new_order, pool).
        bind_res
          (if new_order = nullptr
           then bind_res (grow env (b\<lparr>ob_pool := pool\<rparr>)) (\<lambda>(ok, b).
                  if \<not> ok then Inl Terminated
                  else bind_res (op_get (ob_pool b)) (\<lambda>(new_order, pool). Inr (new_order, b\<lparr>ob_pool := pool\<rparr>)))
           else Inr (new_order, b\<lparr>ob_pool := pool\<rparr>)) (\<lambda>(new_order, b).
        bind_res (upd_obj (ob_heap b) new_order (\<lambda>t. t\<lparr>o_num := oid, o_price := price, o_shares := shares,
                    o_side := side, o_next := nullptr, o_prev := nullptr\<rparr>)) (\<lambda>h.
        bind_res (add_to_price_queue new_order (b\<lparr>ob_heap := h\<rparr>)) (\<lambda>(queued, b).
        if \<not> queued
        then bind_res (op_restore NoReset (ob_pool b) (ob_heap b) new_order) (\<lambda>(h, pool).
               Inr (Inl LevelsFull, b\<lparr>ob_heap := h, ob_pool := pool\<rparr>))
        else Inr (Inr (), b\<lparr>ob_orders :=
               snd (lp_insert BackwardShift FibHash64 (ob_orders b) oid new_order)\<rparr>))))))"

definition cancel_order :: "oid_t \<Rightarrow> order_book \<Rightarrow> (bool \<times> order_book) res" where
  "cancel_order oid b =
     (let order = ob_find b oid in
      if order = nullptr then Inr (False, b)
      else bind_res (remove_from_price_queue order b) (\<lambda>(removed, b).
        if \<not> removed then Inr (False, b)
        else bind_res (lp_erase BackwardShift FibHash64 (ob_orders b) oid) (\<lambda>(_, tbl).
        bind_res (op_restore NoReset (ob_pool b) (ob_heap b) order) (\<lambda>(h, pool).
        Inr (True, b\<lparr>ob_orders := tbl, ob_heap := h, ob_pool := pool\<rparr>)))))"

definition execute_order :: "oid_t \<Rightarrow> u32 \<Rightarrow> order_book \<Rightarrow> (bool \<times> order_book) res" where
  "execute_order oid executed_shares b =
     (let order = ob_find b oid in
      if order = nullptr then Inr (False, b)
      else bind_res (get_obj (ob_heap b) order) (\<lambda>ord.
        if o_shares ord \<le> executed_shares then cancel_order oid b
        else case find_level (o_side ord) (o_price ord) b of
          None \<Rightarrow> Inl Bad_Access
        | Some l \<Rightarrow>
            bind_res (upd_obj (ob_heap b) order (\<lambda>t. t\<lparr>o_shares := o_shares t - executed_shares\<rparr>)) (\<lambda>h.
            let level = level_at (ob_side (o_side ord) b) l;
                level = level\<lparr>ld_total_qty := ld_total_qty level - ucast executed_shares\<rparr>
            in Inr (True, put_level (o_side ord) l level (b\<lparr>ob_heap := h\<rparr>)))))"

definition reduce_order :: "oid_t \<Rightarrow> u32 \<Rightarrow> order_book \<Rightarrow> (bool \<times> order_book) res" where
  "reduce_order oid cancelled_shares b = execute_order oid cancelled_shares b"

definition get_order_by_oid :: "oid_t \<Rightarrow> order_book \<Rightarrow> ptr" where
  "get_order_by_oid oid b = (let order = ob_find b oid in if order = nullptr then nullptr else order)"

definition get_first_order :: "side \<Rightarrow> u32 \<Rightarrow> order_book \<Rightarrow> ptr" where
  "get_first_order s price b =
     (case find_level s price b of None \<Rightarrow> nullptr | Some l \<Rightarrow> ld_head (level_at (ob_side s b) l))"

definition best_price :: "side \<Rightarrow> order_book \<Rightarrow> u32" where
  "best_price s b = (if s = BID then tt_best_price (ob_bids b) else tt_best_price (ob_asks b))"

subsection \<open>Doubly linked queues\<close>

text \<open>
  \<open>dseg h s p prv xs nxt\<close>: the orders \<open>xs\<close> of side \<open>s\<close> and price \<open>p\<close> are linked in both
  directions; the order before the first is \<open>prv\<close>, the one after the last \<open>nxt\<close>.
\<close>

definition first_of :: "ptr list \<Rightarrow> ptr \<Rightarrow> ptr" where
  "first_of xs nxt = (case xs of [] \<Rightarrow> nxt | x # _ \<Rightarrow> x)"

definition last_of :: "ptr \<Rightarrow> ptr list \<Rightarrow> ptr" where
  "last_of prv xs = (if xs = [] then prv else last xs)"

fun dseg :: "heap \<Rightarrow> side \<Rightarrow> u32 \<Rightarrow> ptr \<Rightarrow> ptr list \<Rightarrow> ptr \<Rightarrow> bool" where
  "dseg h s p prv [] nxt \<longleftrightarrow> True"
| "dseg h s p prv (a # xs) nxt \<longleftrightarrow> a \<noteq> nullptr
     \<and> (\<exists>ord. h a = Some ord \<and> o_side ord = s \<and> o_price ord = p \<and> o_prev ord = prv \<and> o_next ord = first_of xs nxt)
     \<and> dseg h s p a xs nxt"

lemma first_of_simps [simp]: "first_of [] nxt = nxt" "first_of (x # xs) nxt = x"
  "first_of (xs @ ys) nxt = first_of xs (first_of ys nxt)"
  by (cases xs; simp add: first_of_def)+

lemma last_of_simps [simp]: "last_of prv [] = prv" "last_of prv (x # xs) = last_of x xs"
  "last_of prv (xs @ [x]) = x"
  by (simp_all add: last_of_def)

lemma dseg_append [simp]:
  "dseg h s p prv (xs @ ys) nxt \<longleftrightarrow> dseg h s p prv xs (first_of ys nxt) \<and> dseg h s p (last_of prv xs) ys nxt"
  by (induction xs arbitrary: prv) auto

lemma dseg_cong: "(\<And>a. a \<in> set xs \<Longrightarrow> h' a = h a) \<Longrightarrow> dseg h' s p prv xs nxt \<longleftrightarrow> dseg h s p prv xs nxt"
  by (induction xs arbitrary: prv) auto

lemma dseg_upd_other [simp]: "a \<notin> set xs \<Longrightarrow> dseg (h(a \<mapsto> ord)) s p prv xs nxt \<longleftrightarrow> dseg h s p prv xs nxt"
  by (rule dseg_cong) auto

lemma dsegD:
  assumes "dseg h s p prv xs nxt" "a \<in> set xs"
  shows "a \<noteq> nullptr" "\<exists>ord. h a = Some ord \<and> o_side ord = s \<and> o_price ord = p"
  using assms by (induction xs arbitrary: prv) auto

lemma dseg_split:
  assumes "dseg h s p prv (xs @ a # ys) nxt" "h a = Some ord"
  shows "o_prev ord = last_of prv xs" "o_next ord = first_of ys nxt" "o_side ord = s" "o_price ord = p"
  using assms by auto

text \<open>Writing the link of an end.\<close>

lemma dseg_set_next:
  assumes "dseg h s p prv xs nxt" "distinct xs" "xs \<noteq> []" "h (last xs) = Some ord"
  shows "dseg (h(last xs \<mapsto> ord\<lparr>o_next := n\<rparr>)) s p prv xs n"
proof -
  obtain ys y where xs: "xs = ys @ [y]" using assms(3) by (cases xs rule: rev_cases) auto
  with assms show ?thesis by auto
qed

lemma dseg_set_prev:
  assumes "dseg h s p prv xs nxt" "distinct xs" "xs \<noteq> []" "h (hd xs) = Some ord"
  shows "dseg (h(hd xs \<mapsto> ord\<lparr>o_prev := q\<rparr>)) s p q xs nxt"
  using assms by (cases xs) auto

text \<open>The parts of an order the links do not touch.\<close>

definition data_at :: "heap \<Rightarrow> ptr \<Rightarrow> (u64 \<times> u32 \<times> u32 \<times> side) option" where
  "data_at h a = map_option (\<lambda>ord. (o_num ord, o_shares ord, o_price ord, o_side ord)) (h a)"

definition shares_at :: "heap \<Rightarrow> ptr \<Rightarrow> u32" where
  "shares_at h a = (case data_at h a of None \<Rightarrow> 0 | Some d \<Rightarrow> fst (snd d))"

definition num_at :: "heap \<Rightarrow> ptr \<Rightarrow> u64" where
  "num_at h a = (case data_at h a of None \<Rightarrow> 0 | Some d \<Rightarrow> fst d)"

lemma shares_at_Some [simp]: "h a = Some ord \<Longrightarrow> shares_at h a = o_shares ord"
  by (simp add: shares_at_def data_at_def)

lemma num_at_Some [simp]: "h a = Some ord \<Longrightarrow> num_at h a = o_num ord"
  by (simp add: num_at_def data_at_def)

lemma data_at_upd [simp]:
  "data_at (h(a \<mapsto> ord)) = (data_at h)(a \<mapsto> (o_num ord, o_shares ord, o_price ord, o_side ord))"
  by (auto simp: data_at_def)

lemma data_at_links:
  assumes "h a = Some ord" "o_num ord' = o_num ord" "o_shares ord' = o_shares ord" "o_price ord' = o_price ord"
    "o_side ord' = o_side ord"
  shows "data_at (h(a \<mapsto> ord')) = data_at h"
  using assms by (auto simp: data_at_def)

definition qty_of :: "heap \<Rightarrow> ptr list \<Rightarrow> u64" where
  "qty_of h xs = sum_list (map (\<lambda>a. ucast (shares_at h a)) xs)"

lemma qty_of_cong: "(\<And>a. a \<in> set xs \<Longrightarrow> data_at h' a = data_at h a) \<Longrightarrow> qty_of h' xs = qty_of h xs"
  unfolding qty_of_def shares_at_def by (intro arg_cong [where f = sum_list] map_cong) auto

lemma qty_of_append [simp]: "qty_of h (xs @ ys) = qty_of h xs + qty_of h ys"
  by (simp add: qty_of_def)

lemma qty_of_Cons [simp]: "qty_of h (x # xs) = ucast (shares_at h x) + qty_of h xs" "qty_of h [] = 0"
  by (simp_all add: qty_of_def)

text \<open>The level a queue must have.\<close>

definition level_of :: "heap \<Rightarrow> ptr list \<Rightarrow> level_data option" where
  "level_of h xs = (if xs = [] then None
     else Some \<lparr>ld_head = hd xs, ld_tail = last xs, ld_total_qty = qty_of h xs\<rparr>)"

subsection \<open>Levels and queues\<close>

type_synonym queues = "side \<Rightarrow> u32 \<Rightarrow> ptr list"

definition upd_queue :: "queues \<Rightarrow> side \<Rightarrow> u32 \<Rightarrow> ptr list \<Rightarrow> queues" where
  "upd_queue Q s p xs = Q(s := (Q s)(p := xs))"

lemma upd_queue_apply [simp]: "upd_queue Q s p xs s' p' = (if s' = s \<and> p' = p then xs else Q s' p')"
  by (auto simp: upd_queue_def)

definition live_orders :: "queues \<Rightarrow> ptr set" where
  "live_orders Q = (\<Union>s p. set (Q s p))"

lemma live_orders_iff: "a \<in> live_orders Q \<longleftrightarrow> (\<exists>s p. a \<in> set (Q s p))"
  by (simp add: live_orders_def)

definition levels_rel :: "nat \<Rightarrow> nat \<Rightarrow> (side \<Rightarrow> two_tier) \<Rightarrow> heap \<Rightarrow> queues \<Rightarrow> bool" where
  "levels_rel K C tt h Q \<longleftrightarrow> (\<forall>s. tt_inv s K C (tt s))
     \<and> (\<forall>s p. tt_map s (tt s) p = level_of h (Q s p))
     \<and> (\<forall>s p. dseg h s p nullptr (Q s p) nullptr \<and> distinct (Q s p))"

lemma ob_side_simps [simp]:
  "ob_side s (set_ob_side s' tt b) = (if s = s' then tt else ob_side s b)"
  "ob_side s (b\<lparr>ob_heap := h\<rparr>) = ob_side s b" "ob_side s (b\<lparr>ob_pool := pl\<rparr>) = ob_side s b"
  "ob_side s (b\<lparr>ob_orders := tb\<rparr>) = ob_side s b" "ob_side s (b\<lparr>ob_max_orders := n\<rparr>) = ob_side s b"
  by (cases s; cases s'; simp add: ob_side_def set_ob_side_def; fail)
    (simp_all add: ob_side_def)

lemma set_ob_side_simps [simp]:
  "ob_heap (set_ob_side s tt b) = ob_heap b" "ob_pool (set_ob_side s tt b) = ob_pool b"
  "ob_orders (set_ob_side s tt b) = ob_orders b" "ob_max_orders (set_ob_side s tt b) = ob_max_orders b"
  by (simp_all add: set_ob_side_def)

lemma find_level_eq: "find_level s p b = tt_find s (ob_side s b) p"
  by (cases s) (simp_all add: find_level_def ob_side_def)

lemma best_price_eq: "best_price s b = tt_best_price (ob_side s b)"
  by (cases s) (simp_all add: best_price_def ob_side_def)

lemma levels_rel_EMPTY:
  assumes "levels_rel K C tt h Q"
  shows "Q s (EMPTY s) = []"
proof -
  have "level_of h (Q s (EMPTY s)) = None"
    using assms by (metis levels_rel_def tt_map_def)
  then show ?thesis by (simp add: level_of_def split: if_splits)
qed

lemma levels_rel_queueD:
  assumes "levels_rel K C tt h Q" "a \<in> set (Q s p)"
  shows "a \<noteq> nullptr" "\<exists>ord. h a = Some ord \<and> o_side ord = s \<and> o_price ord = p" "p \<noteq> EMPTY s"
  using assms dsegD [of h s p nullptr "Q s p" nullptr a] levels_rel_EMPTY [OF assms(1), of s]
  by (auto simp: levels_rel_def)

lemma levels_rel_disjoint:
  assumes "levels_rel K C tt h Q" "a \<in> set (Q s p)" "a \<in> set (Q s' p')"
  shows "s' = s \<and> p' = p"
  using levels_rel_queueD(2) [OF assms(1,2)] levels_rel_queueD(2) [OF assms(1,3)] by auto

text \<open>A change of one queue, its level and the orders in it keeps the relation.\<close>

lemma levels_rel_upd:
  assumes rel: "levels_rel K C tt h Q" and inv: "tt_inv s K C tts"
    and map: "tt_map s tts = (tt_map s (tt s))(p := level_of h' xs)"
    and seg: "dseg h' s p nullptr xs nullptr" "distinct xs"
    and other: "\<And>s' p' a. (s', p') \<noteq> (s, p) \<Longrightarrow> a \<in> set (Q s' p') \<Longrightarrow> h' a = h a"
  shows "levels_rel K C (tt(s := tts)) h' (upd_queue Q s p xs)"
proof -
  have "dseg h' s' p' nullptr (Q s' p') nullptr \<longleftrightarrow> dseg h s' p' nullptr (Q s' p') nullptr"
    "level_of h' (Q s' p') = level_of h (Q s' p')" if "(s', p') \<noteq> (s, p)" for s' p'
  proof -
    show "dseg h' s' p' nullptr (Q s' p') nullptr \<longleftrightarrow> dseg h s' p' nullptr (Q s' p') nullptr"
      by (rule dseg_cong) (rule other [OF that])
    have "qty_of h' (Q s' p') = qty_of h (Q s' p')"
      by (rule qty_of_cong) (simp add: data_at_def other [OF that])
    then show "level_of h' (Q s' p') = level_of h (Q s' p')" by (simp add: level_of_def)
  qed
  with rel inv map seg show ?thesis unfolding levels_rel_def by auto
qed

lemma set_ob_side_id [simp]: "set_ob_side s (ob_side s b) b = b"
  by (cases s) (simp_all add: set_ob_side_def ob_side_def)

lemma ob_side_fun: "(\<lambda>s. ob_side s (set_ob_side s' tt b)) = (\<lambda>s. ob_side s b)(s' := tt)"
  by auto

definition same_rest :: "order_book \<Rightarrow> order_book \<Rightarrow> bool" where
  "same_rest b b' \<longleftrightarrow> ob_pool b' = ob_pool b \<and> ob_orders b' = ob_orders b \<and> ob_max_orders b' = ob_max_orders b"

abbreviation sides :: "order_book \<Rightarrow> side \<Rightarrow> two_tier" where
  "sides b \<equiv> (\<lambda>s. ob_side s b)"

lemma dseg_snoc:
  assumes "dseg h s p nullptr xs nullptr" "distinct xs" "a \<notin> set xs" "a \<noteq> nullptr" "xs \<noteq> []"
    and "h a = Some ord" "o_side ord = s" "o_price ord = p" "o_next ord = nullptr"
    and "h (last xs) = Some t"
  shows "dseg (h(last xs \<mapsto> t\<lparr>o_next := a\<rparr>, a \<mapsto> ord\<lparr>o_prev := last xs\<rparr>)) s p nullptr (xs @ [a]) nullptr"
  using assms dseg_set_next [OF assms(1,2,5,10), of a] by (simp add: last_of_def)

lemma add_to_price_queue_spec:
  assumes rel: "levels_rel K C (sides b) (ob_heap b) Q"
    and a: "ob_heap b a = Some ord" "o_next ord = nullptr" "o_prev ord = nullptr" "a \<noteq> nullptr" "a \<notin> live_orders Q"
    and sp: "o_side ord = s" "o_price ord = p" "p \<noteq> EMPTY s"
  shows "if Q s p = [] \<and> tt_full K C s (ob_side s b) then add_to_price_queue a b = Inr (False, b)
    else \<exists>b'. add_to_price_queue a b = Inr (True, b')
      \<and> levels_rel K C (sides b') (ob_heap b') (upd_queue Q s p (Q s p @ [a]))
      \<and> data_at (ob_heap b') = data_at (ob_heap b) \<and> same_rest b b'"
proof -
  let ?h = "ob_heap b" and ?xs = "Q s p"
  have inv: "tt_inv s K C (ob_side s b)" and map: "tt_map s (ob_side s b) p = level_of ?h ?xs"
    and seg: "dseg ?h s p nullptr ?xs nullptr" "distinct ?xs"
    using rel by (auto simp: levels_rel_def)
  have axs: "a \<notin> set ?xs" using a(5) by (auto simp: live_orders_iff)
  obtain r tt' where foi: "find_or_insert s (ob_side s b) p = (r, tt')" by (cases "find_or_insert s (ob_side s b) p")
  have none: "r = None \<longleftrightarrow> ?xs = [] \<and> tt_full K C s (ob_side s b)"
    using find_or_insert_None_iff [OF inv sp(3)] foi map by (simp add: level_of_def)
  show ?thesis
  proof (cases r)
    case None
    then show ?thesis
      using none foi find_or_insert_None [OF inv sp(3)] a(1) sp
      by (simp add: add_to_price_queue_def get_obj_def find_or_insert_level_def)
  next
    case (Some l)
    note put = tt.acquire_put [OF inv sp(3) foi [unfolded Some]]
    have lev: "level_at tt' l = (if ?xs = [] then LevelData_init
        else \<lparr>ld_head = hd ?xs, ld_tail = last ?xs, ld_total_qty = qty_of ?h ?xs\<rparr>)"
      using put(3) map by (simp add: level_of_def)
    have "\<exists>h' d. add_to_price_queue a b = Inr (True, put_level s l d (set_ob_side s tt' b\<lparr>ob_heap := h'\<rparr>))
        \<and> Some d = level_of h' (?xs @ [a]) \<and> dseg h' s p nullptr (?xs @ [a]) nullptr
        \<and> data_at h' = data_at ?h \<and> (\<forall>x. x \<notin> set (?xs @ [a]) \<longrightarrow> h' x = ?h x)"
    proof (cases "?xs = []")
      case True
      with lev a sp show ?thesis
        by (intro exI [of _ ?h] exI [of _ "\<lparr>ld_head = a, ld_tail = a, ld_total_qty = ucast (o_shares ord)\<rparr>"])
          (simp add: add_to_price_queue_def get_obj_def find_or_insert_level_def foi Some LevelData_init_def level_of_def)
    next
      case False
      obtain t where t: "?h (last ?xs) = Some t"
        using dsegD(2) [OF seg(1), of "last ?xs"] False by auto
      have ne: "last ?xs \<noteq> a" "hd ?xs \<noteq> nullptr"
        using axs False dsegD(1) [OF seg(1) hd_in_set [OF False]] last_in_set [OF False] by auto
      let ?h' = "?h(last ?xs \<mapsto> t\<lparr>o_next := a\<rparr>, a \<mapsto> ord\<lparr>o_prev := last ?xs\<rparr>)"
      let ?d = "\<lparr>ld_head = hd ?xs, ld_tail = a, ld_total_qty = qty_of ?h ?xs + ucast (o_shares ord)\<rparr>"
      have "data_at ?h' = data_at ?h"
        using t a(1) ne by (auto simp: data_at_def)
      moreover from this have "Some ?d = level_of ?h' (?xs @ [a])"
        using False qty_of_cong [of "?xs" ?h' ?h] by (simp add: level_of_def)
      moreover have "dseg ?h' s p nullptr (?xs @ [a]) nullptr"
        by (rule dseg_snoc [OF seg axs a(4) False a(1) sp(1,2) a(2) t])
      moreover have "add_to_price_queue a b = Inr (True, put_level s l ?d (set_ob_side s tt' b\<lparr>ob_heap := ?h'\<rparr>))"
        using False lev ne t a sp
        by (simp add: add_to_price_queue_def get_obj_def upd_obj_def find_or_insert_level_def foi Some)
      moreover have "\<forall>x. x \<notin> set (?xs @ [a]) \<longrightarrow> ?h' x = ?h x"
        using last_in_set [OF False] by auto
      ultimately show ?thesis by blast
    qed
    then obtain h' d where res: "add_to_price_queue a b = Inr (True, put_level s l d (set_ob_side s tt' b\<lparr>ob_heap := h'\<rparr>))"
      and d: "Some d = level_of h' (?xs @ [a])" and seg': "dseg h' s p nullptr (?xs @ [a]) nullptr"
      and dat: "data_at h' = data_at ?h" and frame: "\<And>x. x \<notin> set (?xs @ [a]) \<Longrightarrow> h' x = ?h x"
      by blast
    let ?b' = "put_level s l d (set_ob_side s tt' b\<lparr>ob_heap := h'\<rparr>)"
    have "levels_rel K C ((sides b)(s := set_level_at tt' l d)) h' (upd_queue Q s p (?xs @ [a]))"
    proof (rule levels_rel_upd [OF rel put(1)])
      show "tt_map s (set_level_at tt' l d) = (tt_map s (ob_side s b))(p := level_of h' (?xs @ [a]))"
        using put(2) d by simp
      show "h' x = ?h x" if "(s', p') \<noteq> (s, p)" "x \<in> set (Q s' p')" for s' p' x
        using that levels_rel_disjoint [OF rel, of x s' p' s p] a(5)
        by (intro frame) (auto simp: live_orders_iff)
    qed (use seg' seg(2) axs in auto)
    moreover have "sides ?b' = (sides b)(s := set_level_at tt' l d)"
      by (auto simp: put_level_def)
    moreover have "ob_heap ?b' = h'" by (simp add: put_level_def)
    ultimately show ?thesis
      using res dat none Some by (auto simp: same_rest_def put_level_def)
  qed
qed

text \<open>Unlinking an order from the middle, the front or the back of its queue.\<close>

definition unlink :: "heap \<Rightarrow> ptr list \<Rightarrow> ptr list \<Rightarrow> heap" where
  "unlink h l r =
     (let h1 = (if l = [] then h else h(last l \<mapsto> (the (h (last l)))\<lparr>o_next := first_of r nullptr\<rparr>))
      in if r = [] then h1 else h1(hd r \<mapsto> (the (h1 (hd r)))\<lparr>o_prev := last_of nullptr l\<rparr>))"

lemma unlink_facts:
  assumes seg: "dseg h s p nullptr (l @ a # r) nullptr" and dist: "distinct (l @ a # r)"
  shows "dseg (unlink h l r) s p nullptr (l @ r) nullptr" "data_at (unlink h l r) = data_at h"
    "unlink h l r a = h a" "x \<notin> set (l @ r) \<Longrightarrow> unlink h l r x = h x"
proof -
  let ?h1 = "if l = [] then h else h(last l \<mapsto> (the (h (last l)))\<lparr>o_next := first_of r nullptr\<rparr>)"
  have segs: "dseg h s p nullptr l a" "dseg h s p a r nullptr" "distinct l" "distinct r"
    using seg dist by auto
  have hl: "\<exists>t. h (last l) = Some t" if "l \<noteq> []" using dsegD(2) [OF segs(1), of "last l"] that by auto
  have hr: "\<exists>t. h (hd r) = Some t" if "r \<noteq> []" using dsegD(2) [OF segs(2), of "hd r"] that by auto
  have ends: "l \<noteq> [] \<Longrightarrow> last l \<in> set l" "r \<noteq> [] \<Longrightarrow> hd r \<in> set r" by auto
  have h1: "data_at ?h1 = data_at h" "?h1 a = h a" "x \<notin> set l \<Longrightarrow> ?h1 x = h x" for x
    using hl dist ends data_at_links [of h "last l"] by (auto simp del: data_at_upd)
  have l1: "dseg ?h1 s p nullptr l (first_of r nullptr)"
    using dseg_set_next [OF segs(1,3)] hl by (cases "l = []") auto
  have r1: "dseg ?h1 s p a r nullptr"
  proof -
    have "?h1 x = h x" if "x \<in> set r" for x
      using that dist by (intro h1(3)) auto
    with segs(2) dseg_cong [of r ?h1 h] show ?thesis by blast
  qed
  have hr1: "\<exists>t. ?h1 (hd r) = Some t" if "r \<noteq> []"
    using hr [OF that] h1(3) [of "hd r"] ends(2) [OF that] dist by (metis IntI append_is_Nil_conv distinct_append empty_iff list.distinct(1) list.set_intros(2))
  have unl: "unlink h l r = (if r = [] then ?h1 else ?h1(hd r \<mapsto> (the (?h1 (hd r)))\<lparr>o_prev := last_of nullptr l\<rparr>))"
    by (simp add: unlink_def)
  show "data_at (unlink h l r) = data_at h"
    unfolding unl using hr1 h1(1) data_at_links [of ?h1 "hd r"] by (auto simp del: data_at_upd fun_upd_apply)
  have "r \<noteq> [] \<Longrightarrow> hd r \<noteq> a" using ends(2) dist by auto
  then show "unlink h l r a = h a" unfolding unl using h1(2) by (cases "r = []") simp_all
  have "x \<notin> set (l @ r) \<Longrightarrow> r \<noteq> [] \<Longrightarrow> hd r \<noteq> x" using ends(2) by auto
  then show "x \<notin> set (l @ r) \<Longrightarrow> unlink h l r x = h x"
    unfolding unl using h1(3) [of x] by (cases "r = []") simp_all
  show "dseg (unlink h l r) s p nullptr (l @ r) nullptr"
  proof (cases "r = []")
    case True
    then show ?thesis using l1 unfolding unl by simp
  next
    case False
    obtain t where t: "?h1 (hd r) = Some t" using hr1 [OF False] by blast
    have "dseg (?h1(hd r \<mapsto> t\<lparr>o_prev := last_of nullptr l\<rparr>)) s p (last_of nullptr l) r nullptr"
      by (rule dseg_set_prev [OF r1 segs(4) False t])
    moreover have "dseg (?h1(hd r \<mapsto> t\<lparr>o_prev := last_of nullptr l\<rparr>)) s p nullptr l (first_of r nullptr)"
      using l1 dist ends(2) [OF False] by (subst dseg_upd_other) auto
    ultimately show ?thesis unfolding unl using False t by simp
  qed
qed

lemma last_of_append: "last_of prv (xs @ ys) = last_of (last_of prv xs) ys"
  by (simp add: last_of_def)

lemma level_of_alt: "level_of h xs = (if xs = [] then None
    else Some \<lparr>ld_head = first_of xs nullptr, ld_tail = last_of nullptr xs, ld_total_qty = qty_of h xs\<rparr>)"
  by (cases xs) (simp_all add: level_of_def last_of_def)

lemma remove_from_price_queue_spec:
  assumes rel: "levels_rel K C (sides b) (ob_heap b) Q" and a: "a \<in> set (Q s p)"
  shows "\<exists>b'. remove_from_price_queue a b = Inr (True, b')
    \<and> levels_rel K C (sides b') (ob_heap b') (upd_queue Q s p (remove1 a (Q s p)))
    \<and> data_at (ob_heap b') = data_at (ob_heap b) \<and> same_rest b b'"
proof -
  let ?h = "ob_heap b"
  obtain l r where xs: "Q s p = l @ a # r" using split_list [OF a] by blast
  have inv: "tt_inv s K C (ob_side s b)" and map: "tt_map s (ob_side s b) p = level_of ?h (l @ a # r)"
    and seg: "dseg ?h s p nullptr (l @ a # r) nullptr" and dist: "distinct (l @ a # r)"
    using rel by (auto simp: levels_rel_def simp flip: xs)
  have p: "p \<noteq> EMPTY s" using levels_rel_queueD(3) [OF rel a] .
  obtain ord where ord: "?h a = Some ord" "o_side ord = s" "o_price ord = p"
    using levels_rel_queueD(2) [OF rel a] by blast
  have links: "o_prev ord = last_of nullptr l" "o_next ord = first_of r nullptr"
    using dseg_split [OF seg ord(1)] by auto
  have nn: "x \<noteq> nullptr" if "x \<in> set (l @ a # r)" for x using dsegD(1) [OF seg that] .
  have prev0: "o_prev ord = nullptr \<longleftrightarrow> l = []" and next0: "o_next ord = nullptr \<longleftrightarrow> r = []"
    using nn links by (auto simp: last_of_def first_of_def split: list.splits)
  let ?h' = "unlink ?h l r"
  note unl = unlink_facts [OF seg dist]
  have lev: "level_of ?h (l @ a # r) = Some \<lparr>ld_head = first_of l a, ld_tail = last_of a r, ld_total_qty = qty_of ?h (l @ a # r)\<rparr>"
    by (cases l) (simp_all add: level_of_def last_of_def)
  obtain lc where lc: "tt_find s (ob_side s b) p = Some lc"
    "level_at (ob_side s b) lc = \<lparr>ld_head = first_of l a, ld_tail = last_of a r, ld_total_qty = qty_of ?h (l @ a # r)\<rparr>"
    using tt.search_dom [OF inv p map [unfolded lev]] by metis
  let ?d = "\<lparr>ld_head = first_of (l @ r) nullptr, ld_tail = last_of nullptr (l @ r), ld_total_qty = qty_of ?h (l @ r)\<rparr>"
  have hl: "\<exists>t. ?h (last l) = Some t" if "l \<noteq> []" using dsegD(2) [OF seg, of "last l"] that by auto
  have hr: "\<exists>t. ?h (hd r) = Some t" if "r \<noteq> []" using dsegD(2) [OF seg, of "hd r"] that by auto
  have neq: "last l \<noteq> hd r" if "l \<noteq> []" "r \<noteq> []"
    using dist last_in_set [OF that(1)] hd_in_set [OF that(2)] by auto
  let ?b1 = "put_level s lc ?d (b\<lparr>ob_heap := ?h'\<rparr>)"
  let ?b' = "if l @ r = [] then erase_level s p ?b1 else ?b1"
  have run: "remove_from_price_queue a b = Inr (True, ?b')"
  proof -
    have d: "first_of l x = hd l" "last_of x l = last l" "hd l \<noteq> nullptr" "last l \<noteq> nullptr" if "l \<noteq> []" for x
      using that nn last_in_set [OF that] by (cases l; auto simp: last_of_def)+
    have e: "last_of a r = last r" if "r \<noteq> []" using that by (simp add: last_of_def)
    have q: "qty_of ?h (l @ a # r) - ucast (o_shares ord) = qty_of ?h (l @ r)"
      using ord(1) by simp
    have fr: "first_of r nullptr = hd r" "last_of x r = last r" "hd r \<noteq> nullptr" if "r \<noteq> []" for x
      using that nn by (cases r; simp add: last_of_def)+
    have hda: "first_of (l @ r) nullptr = nullptr \<longleftrightarrow> l @ r = []"
      using nn by (cases l; cases r) auto
    note defs = remove_from_price_queue_def get_obj_def ord find_level_eq lc links prev0 [unfolded links]
      next0 [unfolded links] upd_obj_def
    consider "l = []" "r = []" | "l = []" "r \<noteq> []" | "l \<noteq> []" "r = []" | "l \<noteq> []" "r \<noteq> []" by blast
    then show ?thesis
    proof cases
      case 1
      then show ?thesis by (simp add: defs unlink_def put_level_def)
    next
      case 2
      then obtain t where "?h (hd r) = Some t" using hr by blast
      with 2 show ?thesis
        using hda q e fr by (simp add: defs unlink_def put_level_def)
    next
      case 3
      then obtain t where "?h (last l) = Some t" using hl by blast
      with 3 show ?thesis
        using hda q d by (simp add: defs unlink_def put_level_def)
    next
      case 4
      then obtain t u where "?h (last l) = Some t" "?h (hd r) = Some u" using hl hr by blast
      with 4 show ?thesis
        using hda q d e fr neq by (simp add: defs unlink_def put_level_def last_of_append)
    qed
  qed
  have p1: "tt_inv s K C (set_level_at (ob_side s b) lc ?d)"
    "tt_map s (set_level_at (ob_side s b) lc ?d) = (tt_map s (ob_side s b))(p \<mapsto> ?d)"
    using tt.search_put [OF inv p lc(1)] by auto
  define tts where "tts = (if l @ r = [] then tt_erase s (set_level_at (ob_side s b) lc ?d) p
    else set_level_at (ob_side s b) lc ?d)"
  have qty: "qty_of ?h' (l @ r) = qty_of ?h (l @ r)"
    by (rule qty_of_cong) (simp add: unl(2))
  have lev': "level_of ?h' (l @ r) = (if l @ r = [] then None else Some ?d)"
    unfolding level_of_alt qty by (rule refl)
  have "levels_rel K C ((sides b)(s := tts)) ?h' (upd_queue Q s p (l @ r))"
  proof (rule levels_rel_upd [OF rel])
    show "tt_inv s K C tts"
      using p1 tt_erase_spec [OF p1(1) p] by (cases "l @ r = []") (simp_all only: tts_def if_True if_False simp_thms)
    show "tt_map s tts = (tt_map s (ob_side s b))(p := level_of ?h' (l @ r))"
      using p1 tt_erase_spec [OF p1(1) p] unfolding lev'
      by (cases "l @ r = []") (simp_all only: tts_def if_True if_False simp_thms fun_upd_upd)
    show "?h' x = ?h x" if "(s', p') \<noteq> (s, p)" "x \<in> set (Q s' p')" for s' p' x
      using that levels_rel_disjoint [OF rel, of x s' p' s p] by (intro unl(4)) (auto simp: xs)
  qed (use unl(1) dist in auto)
  moreover have "sides ?b' = (sides b)(s := tts)" "ob_heap ?b' = ?h'"
    by (auto simp: put_level_def erase_level_def tts_def)
  moreover have "remove1 a (Q s p) = l @ r"
    using xs dist by (simp add: remove1_append)
  moreover have "same_rest b ?b'"
    by (simp add: same_rest_def put_level_def erase_level_def)
  ultimately show ?thesis using run unl(2) by (intro exI [of _ ?b']) (simp only: simp_thms)
qed

subsection \<open>Specification: a book with price-time priority\<close>

text \<open>
  The specification keeps, for every order id, its side, price and open quantity, and for every
  side and price the queue of order ids, oldest first.
\<close>

record spec_book =
  sb_orders :: "oid_t \<Rightarrow> (side \<times> u32 \<times> u32) option"
  sb_queue :: "side \<Rightarrow> u32 \<Rightarrow> oid_t list"

definition spec_empty :: spec_book where
  "spec_empty = \<lparr>sb_orders = Map.empty, sb_queue = (\<lambda>_ _. [])\<rparr>"

definition spec_add :: "nat \<Rightarrow> oid_t \<Rightarrow> u32 \<Rightarrow> u32 \<Rightarrow> side \<Rightarrow> spec_book \<Rightarrow> (add_order_error + unit) \<times> spec_book" where
  "spec_add cap oid shares price s sb =
     (if sb_orders sb oid \<noteq> None then (Inl DuplicateOrderId, sb)
      else if sb_queue sb s price = [] \<and> card {q. sb_queue sb s q \<noteq> []} = cap then (Inl LevelsFull, sb)
      else (Inr (), \<lparr>sb_orders = (sb_orders sb)(oid \<mapsto> (s, price, shares)),
        sb_queue = (sb_queue sb)(s := (sb_queue sb s)(price := sb_queue sb s price @ [oid]))\<rparr>))"

definition spec_cancel :: "oid_t \<Rightarrow> spec_book \<Rightarrow> bool \<times> spec_book" where
  "spec_cancel oid sb = (case sb_orders sb oid of
     None \<Rightarrow> (False, sb)
   | Some (s, price, shares) \<Rightarrow> (True, \<lparr>sb_orders = (sb_orders sb)(oid := None),
       sb_queue = (sb_queue sb)(s := (sb_queue sb s)(price := remove1 oid (sb_queue sb s price)))\<rparr>))"

definition spec_execute :: "oid_t \<Rightarrow> u32 \<Rightarrow> spec_book \<Rightarrow> bool \<times> spec_book" where
  "spec_execute oid n sb = (case sb_orders sb oid of
     None \<Rightarrow> (False, sb)
   | Some (s, price, shares) \<Rightarrow> if shares \<le> n then spec_cancel oid sb
       else (True, sb\<lparr>sb_orders := (sb_orders sb)(oid \<mapsto> (s, price, shares - n))\<rparr>))"

subsection \<open>The invariant of the book and its abstraction\<close>

definition book_rel :: "nat \<Rightarrow> nat \<Rightarrow> order_book \<Rightarrow> queues \<Rightarrow> bool" where
  "book_rel K C b Q \<longleftrightarrow> levels_rel K C (sides b) (ob_heap b) Q
     \<and> lp_inv BackwardShift FibHash64 (ob_orders b)
     \<and> lp_capacity (ob_orders b) = 2 * unat (ob_max_orders b) \<and> (\<exists>k. unat (ob_max_orders b) = 2 ^ k)
     \<and> (\<forall>oid a. lp_map (ob_orders b) oid = Some a \<longleftrightarrow> a \<in> live_orders Q \<and> num_at (ob_heap b) a = oid)
     \<and> pool_ok (live_orders Q) (ob_pool b) \<and> op_capacity (ob_pool b) = unat (ob_max_orders b)
     \<and> set (op_stack (ob_pool b)) \<subseteq> dom (ob_heap b) \<and> (\<forall>a \<in> dom (ob_heap b). 2 \<le> a)"

definition abs_book :: "order_book \<Rightarrow> queues \<Rightarrow> spec_book" where
  "abs_book b Q =
     \<lparr>sb_orders = (\<lambda>oid. case lp_map (ob_orders b) oid of None \<Rightarrow> None
        | Some a \<Rightarrow> map_option (\<lambda>(n, sh, p, s). (s, p, sh)) (data_at (ob_heap b) a)),
      sb_queue = (\<lambda>s p. map (num_at (ob_heap b)) (Q s p))\<rparr>"

text \<open>
  What the environment owes \<open>grow\<close> when the pool is exhausted: memory that the book does not
  use yet, successful allocations, and a number of orders that still fits 32 bits when doubled.
\<close>

definition env_ok :: "grow_env \<Rightarrow> order_book \<Rightarrow> bool" where
  "env_ok env b \<longleftrightarrow> (op_available (ob_pool b) = 0 \<longrightarrow>
     2 \<le> ge_mem env \<and> ge_free_ok env \<and> ge_table_ok env \<and> unat (ob_max_orders b) < 2 ^ 31
     \<and> (\<forall>a \<in> set (chunk (ge_mem env) sizeof_Order (unat (ob_max_orders b))). ob_heap b a = None))"

lemma book_relD:
  assumes "book_rel K C b Q"
  shows "levels_rel K C (sides b) (ob_heap b) Q" "lp_inv BackwardShift FibHash64 (ob_orders b)"
    "lp_capacity (ob_orders b) = 2 * unat (ob_max_orders b)" "\<exists>k. unat (ob_max_orders b) = 2 ^ k"
    "\<And>oid a. lp_map (ob_orders b) oid = Some a \<longleftrightarrow> a \<in> live_orders Q \<and> num_at (ob_heap b) a = oid"
    "pool_ok (live_orders Q) (ob_pool b)" "op_capacity (ob_pool b) = unat (ob_max_orders b)"
    "set (op_stack (ob_pool b)) \<subseteq> dom (ob_heap b)" "\<And>a. a \<in> dom (ob_heap b) \<Longrightarrow> 2 \<le> a"
  using assms unfolding book_rel_def by blast+

lemma num_at_cong: "data_at h' a = data_at h a \<Longrightarrow> num_at h' a = num_at h a"
  by (simp add: num_at_def)

lemma dom_data_at: "data_at h' = data_at h \<Longrightarrow> dom h' = dom h"
proof -
  have "dom f = dom (data_at f)" for f by (auto simp: data_at_def dom_def)
  then show "data_at h' = data_at h \<Longrightarrow> dom h' = dom h" by metis
qed

lemma levels_rel_heap:
  assumes "levels_rel K C tt h Q" "\<And>a. a \<in> live_orders Q \<Longrightarrow> h' a = h a"
  shows "levels_rel K C tt h' Q"
proof -
  have "dseg h' s p nullptr (Q s p) nullptr \<longleftrightarrow> dseg h s p nullptr (Q s p) nullptr"
    "level_of h' (Q s p) = level_of h (Q s p)" for s p
  proof -
    have eq: "h' a = h a" if "a \<in> set (Q s p)" for a
      using that assms(2) by (auto simp: live_orders_iff)
    show "dseg h' s p nullptr (Q s p) nullptr \<longleftrightarrow> dseg h s p nullptr (Q s p) nullptr"
      by (rule dseg_cong) (rule eq)
    have "qty_of h' (Q s p) = qty_of h (Q s p)"
      by (rule qty_of_cong) (simp add: data_at_def eq)
    then show "level_of h' (Q s p) = level_of h (Q s p)" by (simp add: level_of_def)
  qed
  with assms(1) show ?thesis unfolding levels_rel_def by simp
qed

lemma live_in_heap:
  assumes "levels_rel K C tt h Q" "a \<in> live_orders Q"
  obtains s p ord where "a \<in> set (Q s p)" "h a = Some ord" "o_side ord = s" "o_price ord = p" "p \<noteq> EMPTY s"
  using assms levels_rel_queueD [OF assms(1)] unfolding live_orders_iff by metis

lemma abs_book_cong:
  assumes "ob_orders b' = ob_orders b \<or> lp_map (ob_orders b') = lp_map (ob_orders b)"
    "\<And>oid a. lp_map (ob_orders b) oid = Some a \<Longrightarrow> a \<in> live_orders Q"
    "\<And>a. a \<in> live_orders Q \<Longrightarrow> data_at (ob_heap b') a = data_at (ob_heap b) a"
  shows "abs_book b' Q = abs_book b Q"
proof -
  have m: "lp_map (ob_orders b') = lp_map (ob_orders b)" using assms(1) by auto
  have "map (num_at (ob_heap b')) (Q s p) = map (num_at (ob_heap b)) (Q s p)" for s p
    using assms(3) by (intro map_cong) (auto intro!: num_at_cong simp: live_orders_iff)
  with assms(2,3) m show ?thesis
    by (auto simp: abs_book_def fun_eq_iff split: option.splits)
qed

text \<open>Levels of a side are counted by their queues.\<close>

lemma full_queues:
  assumes "levels_rel K C tt h Q"
  shows "tt_full K C s (tt s) \<longleftrightarrow> card {q. Q s q \<noteq> []} = K + C"
proof -
  have "dom (tt_map s (tt s)) = {q. Q s q \<noteq> []}"
    using assms by (auto simp: levels_rel_def level_of_def dom_def)
  then show ?thesis by (simp add: tt_full_def)
qed

subsection \<open>Growing the book\<close>

lemma fold_construct:
  "fold (\<lambda>a h. h(a \<mapsto> v)) as h = (\<lambda>x. if x \<in> set as then Some v else h x)"
  by (induction as arbitrary: h) auto

lemma grow_spec:
  assumes rel: "book_rel K C b Q" and env: "env_ok env b" and ex: "op_stack (ob_pool b) = []"
  shows "\<exists>b'. grow env b = Inr (True, b') \<and> book_rel K C b' Q \<and> abs_book b' Q = abs_book b Q
    \<and> lp_map (ob_orders b') = lp_map (ob_orders b) \<and> op_stack (ob_pool b') \<noteq> []"
proof -
  note r = book_relD [OF rel]
  let ?n = "unat (ob_max_orders b)" and ?mem = "ge_mem env" and ?as = "chunk (ge_mem env) sizeof_Order (unat (ob_max_orders b))"
  obtain k where k: "?n = 2 ^ k" using r(4) by blast
  have "op_inv (ob_pool b)" using r(6) by (simp add: pool_ok_def)
  then have "op_available (ob_pool b) = 0"
    using length_op_stack [of "ob_pool b"] ex by (simp add: op_available_def)
  then have e: "2 \<le> ?mem" "ge_free_ok env" "ge_table_ok env" "?n < 2 ^ 31" "\<And>a. a \<in> set ?as \<Longrightarrow> ob_heap b a = None"
    using env by (auto simp: env_ok_def)
  have k31: "k < 31"
    by (rule power_less_imp_less_exp [of "2 :: nat"]) (use e(4) k in simp_all)
  define h' where "h' = (\<lambda>x. if x \<in> set ?as then Some Order_init else ob_heap b x)"
  have live: "ob_heap b a \<noteq> None" if "a \<in> live_orders Q" for a
    using live_in_heap [OF r(1) that] by blast
  have disj: "set ?as \<inter> (live_orders Q \<union> set (op_stack (ob_pool b))) = {}"
    using e(5) live ex by fastforce
  have sz: "0 < sizeof_Order" by (simp add: sizeof_Order_def)
  have mem0: "?mem \<noteq> nullptr" using e(1) by simp
  obtain pl where pl: "op_add_chunk (\<lambda>a h. h(a \<mapsto> Order_init)) True sizeof_Order (ob_pool b) (ob_heap b) ?mem ?n
      = Inr (True, h', pl)" "pool_ok (live_orders Q) pl" "op_capacity pl = 2 * ?n"
      "op_stack pl = rev ?as @ op_stack (ob_pool b)"
    using pool_ok_add_chunk [OF r(6) sz mem0 disj, of "\<lambda>a h. h(a \<mapsto> Order_init)" "ob_heap b"] r(7)
    unfolding fold_construct h'_def [symmetric] by auto
  have sum: "?n + ?n = 2 ^ (k + 1)" by (simp add: k)
  have "lp_size (ob_orders b) \<le> 2 ^ (k + 1 + 1)"
    using lp_inv_facts(5) [OF r(2)] lp_full_iff(2) [OF r(2)] r(3) by (simp add: k)
  then obtain tb where tb: "lp_rehash BackwardShift FibHash64 True 0 (ob_orders b) (?n + ?n) = Inr (True, tb)"
    "lp_inv BackwardShift FibHash64 tb" "lp_map tb = lp_map (ob_orders b)" "lp_capacity tb = 2 ^ (k + 2)"
    using lp_rehash_spec [OF r(2), of "k + 1" 0] k31 unfolding sum by auto
  have "(2 :: nat) ^ (k + 1) \<le> 2 ^ 31" using k31 by (intro power_increasing) auto
  then have mx: "unat (ob_max_orders b + word_of_nat ?n) = 2 ^ (k + 1)"
    using sum e(4) by (subst unat_add_lem [THEN iffD1]) (auto simp: unsigned_of_nat)
  let ?b' = "b\<lparr>ob_heap := h', ob_pool := pl, ob_orders := tb, ob_max_orders := ob_max_orders b + word_of_nat ?n\<rparr>"
  have "grow env b = Inr (True, ?b')"
    using pl(1) tb(1) e(2,3) mem0 by (simp add: grow_def Let_def)
  moreover have hh: "h' a = ob_heap b a" if "a \<in> live_orders Q" for a
    using that disj by (auto simp: h'_def)
  have dat: "data_at h' a = data_at (ob_heap b) a" if "a \<in> live_orders Q" for a
    using hh [OF that] by (simp add: data_at_def)
  have "book_rel K C ?b' Q"
    unfolding book_rel_def
  proof (intro conjI allI)
    show "levels_rel K C (sides ?b') (ob_heap ?b') Q"
      using levels_rel_heap [OF r(1) hh] by simp
    show "\<exists>k. unat (ob_max_orders ?b') = 2 ^ k"
      using mx by (intro exI [of _ "k + 1"]) simp
    show "lp_map (ob_orders ?b') oid = Some a \<longleftrightarrow> a \<in> live_orders Q \<and> num_at (ob_heap ?b') a = oid" for oid a
      using tb(3) r(5) [of oid a] dat [of a] num_at_cong [of h' a "ob_heap b"] by auto
    show "set (op_stack (ob_pool ?b')) \<subseteq> dom (ob_heap ?b')"
      using pl(4) ex by (auto simp: h'_def)
    show "\<forall>a \<in> dom (ob_heap ?b'). 2 \<le> a"
    proof
      fix a assume "a \<in> dom (ob_heap ?b')"
      then have "a \<in> set ?as \<or> a \<in> dom (ob_heap b)" by (auto simp: h'_def split: if_splits)
      then show "2 \<le> a" using r(9) e(1) by (auto simp: set_chunk)
    qed
  qed (use tb pl mx k in auto)
  moreover have "abs_book ?b' Q = abs_book b Q"
    using tb(3) r(5) dat by (intro abs_book_cong) auto
  moreover have "op_stack pl \<noteq> []"
    using pl(4) k by (auto simp: chunk_def)
  ultimately show ?thesis using tb(3) by (intro exI [of _ ?b']) simp
qed

subsection \<open>Adding an order\<close>

definition fresh_order :: "oid_t \<Rightarrow> u32 \<Rightarrow> u32 \<Rightarrow> side \<Rightarrow> order" where
  "fresh_order oid shares price s = \<lparr>o_num = oid, o_shares = shares, o_price = price, o_side = s,
     o_next = nullptr, o_prev = nullptr\<rparr>"

text \<open>The new object: from the pool, or from the pool after it has grown.\<close>

lemma take_order:
  assumes rel: "book_rel K C b Q" and env: "env_ok env b"
  obtains a pl b1 where
    "bind_res (op_get (ob_pool b)) (\<lambda>(new_order, pool).
       if new_order = nullptr
       then bind_res (grow env (b\<lparr>ob_pool := pool\<rparr>)) (\<lambda>(ok, b).
              if \<not> ok then Inl Terminated
              else bind_res (op_get (ob_pool b)) (\<lambda>(new_order, pool). Inr (new_order, b\<lparr>ob_pool := pool\<rparr>)))
       else Inr (new_order, b\<lparr>ob_pool := pool\<rparr>)) = Inr (a, b1\<lparr>ob_pool := pl\<rparr>)"
    "book_rel K C b1 Q" "abs_book b1 Q = abs_book b Q" "lp_map (ob_orders b1) = lp_map (ob_orders b)"
    "pool_ok (insert a (live_orders Q)) pl"
    "op_stack (ob_pool b1) = a # op_stack pl" "op_capacity pl = op_capacity (ob_pool b1)"
    "a \<notin> live_orders Q" "a \<noteq> nullptr"
proof -
  note r = book_relD [OF rel]
  have pick: "\<exists>a pl. op_get (ob_pool b1) = Inr (a, pl) \<and> pool_ok (insert a (live_orders Q)) pl
      \<and> op_stack (ob_pool b1) = a # op_stack pl \<and> op_capacity pl = op_capacity (ob_pool b1)
      \<and> a \<notin> live_orders Q \<and> a \<noteq> nullptr"
    if "book_rel K C b1 Q" "op_stack (ob_pool b1) \<noteq> []" for b1
    using pool_ok_get [OF book_relD(6) [OF that(1)]] that(2) by (auto split: if_splits)
  show ?thesis
  proof (cases "op_stack (ob_pool b) = []")
    case True
    have "op_inv (ob_pool b)" using r(6) by (simp add: pool_ok_def)
    then have "op_get (ob_pool b) = Inr (nullptr, ob_pool b)" by (rule op.get_none [OF _ True])
    moreover obtain b1 where "grow env b = Inr (True, b1)" "book_rel K C b1 Q" "abs_book b1 Q = abs_book b Q"
      "lp_map (ob_orders b1) = lp_map (ob_orders b)" "op_stack (ob_pool b1) \<noteq> []"
      using grow_spec [OF rel env True] by blast
    moreover from pick [OF this(2,5)] obtain a pl where "op_get (ob_pool b1) = Inr (a, pl)"
      "pool_ok (insert a (live_orders Q)) pl" "op_stack (ob_pool b1) = a # op_stack pl"
      "op_capacity pl = op_capacity (ob_pool b1)" "a \<notin> live_orders Q" "a \<noteq> nullptr" by blast
    ultimately show ?thesis by (intro that [of a pl b1]) simp_all
  next
    case False
    from pick [OF rel this] obtain a pl where "op_get (ob_pool b) = Inr (a, pl)"
      "pool_ok (insert a (live_orders Q)) pl" "op_stack (ob_pool b) = a # op_stack pl"
      "op_capacity pl = op_capacity (ob_pool b)" "a \<notin> live_orders Q" "a \<noteq> nullptr" by blast
    then show ?thesis using rel by (intro that [of a pl b]) simp_all
  qed
qed

lemma card_table:
  assumes "book_rel K C b Q"
  shows "card (dom (lp_map (ob_orders b))) \<le> card (live_orders Q)"
proof -
  note r = book_relD [OF assms]
  have "dom (lp_map (ob_orders b)) \<subseteq> num_at (ob_heap b) ` live_orders Q"
    using r(5) by auto
  moreover have "finite (live_orders Q)" using r(6) by (simp add: pool_ok_def)
  ultimately show ?thesis by (meson card_image_le card_mono finite_imageI le_trans)
qed

lemma live_upd_queue:
  assumes "set xs = A \<union> set (Q s p)"
  shows "live_orders (upd_queue Q s p xs) = A \<union> live_orders Q"
proof -
  have "x \<in> live_orders (upd_queue Q s p ys) \<longleftrightarrow>
      x \<in> set ys \<or> (\<exists>s' p'. \<not> (s' = s \<and> p' = p) \<and> x \<in> set (Q s' p'))" for x ys
    by (auto simp: live_orders_iff split: if_splits)
  from this [of _ xs] this [of _ "Q s p"] show ?thesis
    using assms by (auto simp: upd_queue_def)
qed

lemma abs_queue_full:
  assumes "levels_rel K C tt h Q"
  shows "sb_queue (abs_book b Q) s p = [] \<longleftrightarrow> Q s p = []"
    "card {q. sb_queue (abs_book b Q) s q \<noteq> []} = K + C \<longleftrightarrow> tt_full K C s (tt s)"
  using full_queues [OF assms] by (simp_all add: abs_book_def)

lemma bind_res_assoc: "bind_res (bind_res m f) g = bind_res m (\<lambda>x. bind_res (f x) g)"
  by (cases m) auto

lemma add_order_start:
  assumes "ob_find b oid = nullptr"
    "bind_res (op_get (ob_pool b)) (\<lambda>(new_order, pool).
       if new_order = nullptr
       then bind_res (grow env (b\<lparr>ob_pool := pool\<rparr>)) (\<lambda>(ok, b).
              if \<not> ok then Inl Terminated
              else bind_res (op_get (ob_pool b)) (\<lambda>(new_order, pool). Inr (new_order, b\<lparr>ob_pool := pool\<rparr>)))
       else Inr (new_order, b\<lparr>ob_pool := pool\<rparr>)) = Inr (a, b1\<lparr>ob_pool := pl\<rparr>)"
    "ob_heap b1 a = Some old"
  shows "add_order env oid shares price s b =
      bind_res (add_to_price_queue a (b1\<lparr>ob_pool := pl,
          ob_heap := (ob_heap b1)(a \<mapsto> fresh_order oid shares price s)\<rparr>))
        (\<lambda>(queued, b).
          if \<not> queued
          then bind_res (op_restore NoReset (ob_pool b) (ob_heap b) a) (\<lambda>(h, pool).
                 Inr (Inl LevelsFull, b\<lparr>ob_heap := h, ob_pool := pool\<rparr>))
          else Inr (Inr (), b\<lparr>ob_orders := snd (lp_insert BackwardShift FibHash64 (ob_orders b) oid a)\<rparr>))"
proof -
  have assoc: "bind_res m (\<lambda>(x, y). bind_res (f x y) g) = bind_res (bind_res m (\<lambda>(x, y). f x y)) g"
    for m :: "(ptr \<times> obj_pool) res" and f and g :: "ptr \<times> order_book \<Rightarrow> ((add_order_error + unit) \<times> order_book) res"
    by (cases m) auto
  have "old\<lparr>o_num := oid, o_price := price, o_shares := shares, o_side := s, o_next := nullptr, o_prev := nullptr\<rparr>
      = fresh_order oid shares price s"
    by (cases old) (simp add: fresh_order_def)
  then show ?thesis
    using assms(1,3) unfolding add_order_def assoc assms(2) by (simp add: upd_obj_def)
qed

lemma add_order_spec:
  assumes rel: "book_rel K C b Q" and env: "env_ok env b" and p: "price \<noteq> EMPTY s"
  shows "\<exists>b' Q'. add_order env oid shares price s b =
      Inr (fst (spec_add (K + C) oid shares price s (abs_book b Q)), b')
    \<and> book_rel K C b' Q' \<and> abs_book b' Q' = snd (spec_add (K + C) oid shares price s (abs_book b Q))"
proof (cases "lp_map (ob_orders b) oid")
  case (Some a)
  note r = book_relD [OF rel]
  have "ob_find b oid \<noteq> nullptr" using lp.find_null_iff [OF r(2)] Some by (simp add: ob_find_def)
  moreover obtain ord where "ob_heap b a = Some ord"
    using r(5) [of oid a] Some live_in_heap [OF r(1)] by metis
  ultimately show ?thesis
    using Some rel by (auto simp: add_order_def spec_add_def abs_book_def data_at_def)
next
  case None
  obtain a pl b1 where tk:
    "bind_res (op_get (ob_pool b)) (\<lambda>(new_order, pool).
       if new_order = nullptr
       then bind_res (grow env (b\<lparr>ob_pool := pool\<rparr>)) (\<lambda>(ok, b).
              if \<not> ok then Inl Terminated
              else bind_res (op_get (ob_pool b)) (\<lambda>(new_order, pool). Inr (new_order, b\<lparr>ob_pool := pool\<rparr>)))
       else Inr (new_order, b\<lparr>ob_pool := pool\<rparr>)) = Inr (a, b1\<lparr>ob_pool := pl\<rparr>)"
    and rel1: "book_rel K C b1 Q" and abs1: "abs_book b1 Q = abs_book b Q"
    and map1: "lp_map (ob_orders b1) = lp_map (ob_orders b)"
    and pl: "pool_ok (insert a (live_orders Q)) pl" "op_stack (ob_pool b1) = a # op_stack pl"
      "op_capacity pl = op_capacity (ob_pool b1)" and a: "a \<notin> live_orders Q" "a \<noteq> nullptr"
    by (rule take_order [OF rel env])
  note r = book_relD [OF rel] and r1 = book_relD [OF rel1]
  let ?ord = "fresh_order oid shares price s"
  obtain old where old: "ob_heap b1 a = Some old" using r1(8) pl(2) by auto
  let ?h = "(ob_heap b1)(a \<mapsto> ?ord)"
  let ?b2 = "b1\<lparr>ob_pool := pl, ob_heap := ?h\<rparr>"
  have lv2: "levels_rel K C (sides ?b2) (ob_heap ?b2) Q"
  proof -
    have "levels_rel K C (sides b1) ?h Q" by (rule levels_rel_heap [OF r1(1)]) (use a(1) in auto)
    then show ?thesis by simp
  qed
  have num2: "num_at ?h x = num_at (ob_heap b1) x" "data_at ?h x = data_at (ob_heap b1) x"
    if "x \<in> live_orders Q" for x
    using that a(1) by (auto intro!: num_at_cong simp: data_at_def)
  have dom2: "dom ?h = dom (ob_heap b1)" using old by auto
  have find0: "ob_find b oid = nullptr" using lp.find_null_iff [OF r(2)] None by (simp add: ob_find_def)
  have start: "add_order env oid shares price s b =
      bind_res (add_to_price_queue a ?b2) (\<lambda>(queued, b).
        if \<not> queued
        then bind_res (op_restore NoReset (ob_pool b) (ob_heap b) a) (\<lambda>(h, pool).
               Inr (Inl LevelsFull, b\<lparr>ob_heap := h, ob_pool := pool\<rparr>))
        else Inr (Inr (), b\<lparr>ob_orders := snd (lp_insert BackwardShift FibHash64 (ob_orders b) oid a)\<rparr>))"
    by (rule add_order_start [OF find0 tk old])
  have q: "sb_queue (abs_book b Q) s price = [] \<longleftrightarrow> Q s price = []"
    "card {q. sb_queue (abs_book b Q) s q \<noteq> []} = K + C \<longleftrightarrow> tt_full K C s (ob_side s b1)"
    using abs_queue_full [OF r1(1), of b1] unfolding abs1 by auto
  have o: "sb_orders (abs_book b Q) oid = None" using None by (simp add: abs_book_def)
  note atp = add_to_price_queue_spec [OF lv2, of a ?ord s price]
  show ?thesis
  proof (cases "Q s price = [] \<and> tt_full K C s (ob_side s b1)")
    case True
    then have "add_to_price_queue a ?b2 = Inr (False, ?b2)"
      using atp a p by (simp add: fresh_order_def)
    moreover obtain pl' where pl': "op_restore NoReset pl ?h a = Inr (?h, pl')"
      "pool_ok (live_orders Q) pl'" "op_stack pl' = a # op_stack pl" "op_capacity pl' = op_capacity pl"
      using pool_ok_restore [OF pl(1), of a ?h] a(1) by auto
    ultimately have "add_order env oid shares price s b = Inr (Inl LevelsFull, ?b2\<lparr>ob_pool := pl'\<rparr>)"
      unfolding start by simp
    moreover have "book_rel K C (?b2\<lparr>ob_pool := pl'\<rparr>) Q"
      unfolding book_rel_def
    proof (intro conjI allI)
      show "lp_map (ob_orders (?b2\<lparr>ob_pool := pl'\<rparr>)) oid = Some x \<longleftrightarrow>
          x \<in> live_orders Q \<and> num_at (ob_heap (?b2\<lparr>ob_pool := pl'\<rparr>)) x = oid" for oid x
        using r1(5) [of oid x] num2(1) [of x] by auto
    qed (use lv2 r1 pl pl' dom2 in auto)
    moreover have "abs_book (?b2\<lparr>ob_pool := pl'\<rparr>) Q = abs_book b Q"
      unfolding abs1 [symmetric] using r1(5) a(1) by (intro abs_book_cong) auto
    ultimately show ?thesis
      using True q o by (auto simp: spec_add_def)
  next
    case False
    then obtain b3 where b3: "add_to_price_queue a ?b2 = Inr (True, b3)"
      "levels_rel K C (sides b3) (ob_heap b3) (upd_queue Q s price (Q s price @ [a]))"
      "data_at (ob_heap b3) = data_at ?h" "same_rest ?b2 b3"
      using atp a p by (auto simp: fresh_order_def)
    let ?Q = "upd_queue Q s price (Q s price @ [a])"
    have live: "live_orders ?Q = insert a (live_orders Q)"
      using live_upd_queue [of "Q s price @ [a]" "{a}" Q s price] by simp
    have rest: "ob_pool b3 = pl" "ob_orders b3 = ob_orders b1" "ob_max_orders b3 = ob_max_orders b1"
      using b3(4) by (auto simp: same_rest_def)
    have dom3: "dom (ob_heap b3) = dom (ob_heap b1)" using dom_data_at [OF b3(3)] dom2 by simp
    have num3: "num_at (ob_heap b3) x = (if x = a then oid else num_at (ob_heap b1) x)"
      if "x \<in> live_orders ?Q" for x
      using that live num2 b3(3) num_at_cong [of "ob_heap b3" x ?h]
      by (auto simp: fresh_order_def num_at_def)
    have new1: "lp_map (ob_orders b1) oid = None" using None map1 by simp
    have a2: "2 \<le> a" using r1(9) old by auto
    have "card (live_orders Q) \<le> op_capacity (ob_pool b1)" using r1(6) by (simp add: pool_ok_def)
    then have "card (dom (lp_map (ob_orders b1))) < lp_capacity (ob_orders b1)"
    proof -
      have "0 < unat (ob_max_orders b1)" using r1(4) by auto
      with card_table [OF rel1] r1(3,7) \<open>card (live_orders Q) \<le> _\<close> show ?thesis by linarith
    qed
    then obtain tb where tb: "lp_insert BackwardShift FibHash64 (ob_orders b1) oid a = (True, tb)"
      "lp_inv BackwardShift FibHash64 tb" "lp_map tb = (lp_map (ob_orders b1))(oid \<mapsto> a)"
      "lp_capacity tb = lp_capacity (ob_orders b1)"
      using lp.ins_room [OF r1(2) a2 new1] by blast
    let ?b4 = "b3\<lparr>ob_orders := tb\<rparr>"
    have "add_order env oid shares price s b = Inr (Inr (), ?b4)"
      unfolding start b3(1) using rest tb by simp
    moreover have "book_rel K C ?b4 ?Q"
      unfolding book_rel_def
    proof (intro conjI allI)
      show "lp_map (ob_orders ?b4) i = Some x \<longleftrightarrow> x \<in> live_orders ?Q \<and> num_at (ob_heap ?b4) x = i" for i x
        using tb(3) r1(5) [of i x] r1(5) [of oid x] num3 [of x] live new1 a(1)
        by (cases "x = a"; cases "i = oid") auto
    qed (use b3(2) r1 pl live tb rest dom3 in auto)
    moreover have "abs_book ?b4 ?Q = snd (spec_add (K + C) oid shares price s (abs_book b Q))"
    proof -
      have "num_at (ob_heap b3) x = num_at (ob_heap b1) x" if "x \<in> live_orders Q" for x
        using num3 [of x] live a(1) that by auto
      then have "map (num_at (ob_heap b3)) (Q s' p') = map (num_at (ob_heap b1)) (Q s' p')" for s' p'
        by (auto simp: live_orders_iff)
      moreover have "num_at (ob_heap b3) a = oid" using num3 live by simp
      moreover have "data_at (ob_heap b3) x = data_at (ob_heap b1) x" if "lp_map (ob_orders b1) i = Some x" for i x
        using that r1(5) [of i x] num2(2) b3(3) by simp
      moreover have "data_at (ob_heap b3) a = Some (oid, shares, price, s)"
        using b3(3) by (simp add: fresh_order_def)
      ultimately have "abs_book ?b4 ?Q = snd (spec_add (K + C) oid shares price s (abs_book b1 Q))"
        using q o False unfolding abs1 [symmetric] spec_add_def
        by (auto simp: abs_book_def tb(3) fun_eq_iff split: option.splits)
      then show ?thesis unfolding abs1 .
    qed
    ultimately show ?thesis using q o False by (auto simp: spec_add_def)
  qed
qed

subsection \<open>Cancelling and executing\<close>

lemma map_remove1_inj:
  "inj_on f (insert x (set xs)) \<Longrightarrow> map f (remove1 x xs) = remove1 (f x) (map f xs)"
  by (induction xs) (auto simp: inj_on_def)

lemma live_remove:
  assumes "levels_rel K C tt h Q" "a \<in> set (Q s p)"
  shows "live_orders (upd_queue Q s p (remove1 a (Q s p))) = live_orders Q - {a}"
proof -
  define other where "other x \<longleftrightarrow> (\<exists>s' p'. \<not> (s' = s \<and> p' = p) \<and> x \<in> set (Q s' p'))" for x
  have "distinct (Q s p)" using assms(1) by (simp add: levels_rel_def)
  then have "set (remove1 a (Q s p)) = set (Q s p) - {a}" by simp
  then have "x \<in> live_orders (upd_queue Q s p (remove1 a (Q s p))) \<longleftrightarrow> x \<in> set (Q s p) - {a} \<or> other x" for x
    by (auto simp: live_orders_iff other_def split: if_splits)
  moreover have "x \<in> live_orders Q \<longleftrightarrow> x \<in> set (Q s p) \<or> other x" for x
    unfolding live_orders_iff other_def by metis
  moreover have "\<not> other a"
    using levels_rel_disjoint [OF assms] unfolding other_def by metis
  ultimately show ?thesis by auto
qed

lemma book_order:
  assumes rel: "book_rel K C b Q" and oid: "lp_map (ob_orders b) oid = Some a"
  obtains ord s p where "ob_find b oid = a" "a \<noteq> nullptr" "ob_heap b a = Some ord" "o_num ord = oid"
    "o_side ord = s" "o_price ord = p" "a \<in> set (Q s p)" "a \<in> live_orders Q"
    "sb_orders (abs_book b Q) oid = Some (s, p, o_shares ord)"
proof -
  note r = book_relD [OF rel]
  have a: "a \<in> live_orders Q" "num_at (ob_heap b) a = oid" using r(5) oid by auto
  obtain s p ord where o: "a \<in> set (Q s p)" "ob_heap b a = Some ord" "o_side ord = s" "o_price ord = p"
    using live_in_heap [OF r(1) a(1)] by metis
  have "2 \<le> a" using lp.lookup_live [OF r(2) oid] .
  then have "ob_find b oid = a" using lp.find_eq_iff [OF r(2), of a] oid by (simp add: ob_find_def)
  with o a oid \<open>2 \<le> a\<close> show ?thesis by (intro that [of ord s p]) (simp_all add: abs_book_def data_at_def)
qed

lemma book_no_order:
  assumes rel: "book_rel K C b Q" and oid: "lp_map (ob_orders b) oid = None"
  shows "ob_find b oid = nullptr" "sb_orders (abs_book b Q) oid = None"
  using lp.find_null_iff [OF book_relD(2) [OF rel]] oid by (simp_all add: ob_find_def abs_book_def)

lemma num_inj:
  assumes "book_rel K C b Q"
  shows "inj_on (num_at (ob_heap b)) (live_orders Q)"
proof (rule inj_onI)
  fix x y assume "x \<in> live_orders Q" "y \<in> live_orders Q" "num_at (ob_heap b) x = num_at (ob_heap b) y"
  then have "lp_map (ob_orders b) (num_at (ob_heap b) x) = Some x"
    "lp_map (ob_orders b) (num_at (ob_heap b) x) = Some y"
    using book_relD(5) [OF assms] by auto
  then show "x = y" by simp
qed

lemma cancel_order_spec:
  assumes rel: "book_rel K C b Q"
  shows "\<exists>b' Q'. cancel_order oid b = Inr (fst (spec_cancel oid (abs_book b Q)), b')
    \<and> book_rel K C b' Q' \<and> abs_book b' Q' = snd (spec_cancel oid (abs_book b Q))"
proof (cases "lp_map (ob_orders b) oid")
  case None
  then show ?thesis
    using book_no_order [OF rel None] rel by (auto simp: cancel_order_def spec_cancel_def)
next
  case (Some a)
  note r = book_relD [OF rel]
  obtain ord s p where o: "ob_find b oid = a" "a \<noteq> nullptr" "ob_heap b a = Some ord" "o_num ord = oid"
    "o_side ord = s" "o_price ord = p" "a \<in> set (Q s p)" "a \<in> live_orders Q"
    "sb_orders (abs_book b Q) oid = Some (s, p, o_shares ord)"
    by (rule book_order [OF rel Some])
  let ?Q = "upd_queue Q s p (remove1 a (Q s p))"
  obtain b2 where b2: "remove_from_price_queue a b = Inr (True, b2)"
    "levels_rel K C (sides b2) (ob_heap b2) ?Q" "data_at (ob_heap b2) = data_at (ob_heap b)" "same_rest b b2"
    using remove_from_price_queue_spec [OF r(1) o(7)] by blast
  have rest: "ob_pool b2 = ob_pool b" "ob_orders b2 = ob_orders b" "ob_max_orders b2 = ob_max_orders b"
    using b2(4) by (auto simp: same_rest_def)
  have live: "live_orders ?Q = live_orders Q - {a}" by (rule live_remove [OF r(1) o(7)])
  have num: "num_at (ob_heap b2) = num_at (ob_heap b)" using b2(3) by (simp add: fun_eq_iff num_at_def)
  obtain tb where tb: "lp_erase BackwardShift FibHash64 (ob_orders b) oid = Inr (True, tb)"
    "lp_inv BackwardShift FibHash64 tb" "lp_map tb = (lp_map (ob_orders b))(oid := None)"
    "lp_capacity tb = lp_capacity (ob_orders b)"
    using lp.del_lookup [OF r(2), of oid] Some by auto
  obtain pl where pl: "op_restore NoReset (ob_pool b) (ob_heap b2) a = Inr (ob_heap b2, pl)"
    "pool_ok (live_orders Q - {a}) pl" "op_stack pl = a # op_stack (ob_pool b)" "op_capacity pl = op_capacity (ob_pool b)"
    using pool_ok_restore [OF r(6) o(8), of "ob_heap b2"] by blast
  let ?b' = "b2\<lparr>ob_orders := tb, ob_heap := ob_heap b2, ob_pool := pl\<rparr>"
  have "cancel_order oid b = Inr (True, ?b')"
    using o(1,2) b2(1) tb(1) pl(1) rest by (simp add: cancel_order_def)
  moreover have "book_rel K C ?b' ?Q"
    unfolding book_rel_def
  proof (intro conjI allI)
    show "lp_map (ob_orders ?b') i = Some x \<longleftrightarrow> x \<in> live_orders ?Q \<and> num_at (ob_heap ?b') x = i" for i x
    proof -
      have "num_at (ob_heap b) a = oid" using o(3,4) by simp
      then show ?thesis
        using r(5) [of i x] Some unfolding live by (cases "i = oid") (auto simp: tb(3) num)
    qed
  qed (use b2(2) r tb pl rest live dom_data_at [OF b2(3)] o(3) in auto)
  moreover have "abs_book ?b' ?Q = snd (spec_cancel oid (abs_book b Q))"
  proof -
    have "num_at (ob_heap b) a = oid" using o(3,4) by simp
    moreover have "inj_on (num_at (ob_heap b)) (insert a (set (Q s p)))"
      by (rule inj_on_subset [OF num_inj [OF rel]]) (use o(7) live_upd_queue [of "Q s p" "{}" Q s p] in \<open>unfold live_orders_def, blast\<close>)
    ultimately have "map (num_at (ob_heap b)) (remove1 a (Q s p)) = remove1 oid (map (num_at (ob_heap b)) (Q s p))"
      using map_remove1_inj by metis
    with o(9) show ?thesis
      by (auto simp: spec_cancel_def abs_book_def tb(3) b2(3) num fun_eq_iff split: option.splits)
  qed
  ultimately show ?thesis using o(9) by (auto simp: spec_cancel_def)
qed

lemma dseg_shares:
  "h a = Some ord \<Longrightarrow> dseg (h(a \<mapsto> ord\<lparr>o_shares := x\<rparr>)) s p prv xs nxt \<longleftrightarrow> dseg h s p prv xs nxt"
  by (induction xs arbitrary: prv) auto

lemma unat_ucast_64: "unat (ucast (n :: u32) :: u64) = unat n"
  using unsigned_less [where 'a = nat, of n] by (simp add: unsigned_ucast_eq take_bit_nat_eq_self)

lemma ucast_minus:
  assumes "(n :: u32) < sh"
  shows "(ucast (sh - n) :: u64) = ucast sh - ucast n"
proof -
  have "n \<le> sh" "(ucast n :: u64) \<le> ucast sh"
    using assms by (simp_all add: word_le_nat_alt word_less_nat_alt unat_ucast_64)
  then show ?thesis
    unfolding word_unat_eq_iff by (simp add: unat_sub unat_ucast_64)
qed

lemma qty_of_shares:
  assumes "h a = Some ord" "a \<in> set xs" "distinct xs" "n < o_shares ord"
  shows "qty_of (h(a \<mapsto> ord\<lparr>o_shares := o_shares ord - n\<rparr>)) xs = qty_of h xs - ucast n"
proof -
  let ?h = "h(a \<mapsto> ord\<lparr>o_shares := o_shares ord - n\<rparr>)"
  obtain l r where xs: "xs = l @ a # r" using split_list [OF assms(2)] by blast
  have "qty_of ?h l = qty_of h l" "qty_of ?h r = qty_of h r"
    using assms(3) xs by (auto intro!: qty_of_cong)
  moreover have "shares_at ?h a = o_shares ord - n" by simp
  ultimately show ?thesis using assms(1) ucast_minus [OF assms(4)] by (simp add: xs del: data_at_upd)
qed

lemma execute_order_spec:
  assumes rel: "book_rel K C b Q"
  shows "\<exists>b' Q'. execute_order oid n b = Inr (fst (spec_execute oid n (abs_book b Q)), b')
    \<and> book_rel K C b' Q' \<and> abs_book b' Q' = snd (spec_execute oid n (abs_book b Q))"
proof (cases "lp_map (ob_orders b) oid")
  case None
  then show ?thesis
    using book_no_order [OF rel None] rel by (auto simp: execute_order_def spec_execute_def)
next
  case (Some a)
  note r = book_relD [OF rel]
  obtain ord s p where o: "ob_find b oid = a" "a \<noteq> nullptr" "ob_heap b a = Some ord" "o_num ord = oid"
    "o_side ord = s" "o_price ord = p" "a \<in> set (Q s p)" "a \<in> live_orders Q"
    "sb_orders (abs_book b Q) oid = Some (s, p, o_shares ord)"
    by (rule book_order [OF rel Some])
  show ?thesis
  proof (cases "o_shares ord \<le> n")
    case True
    then show ?thesis
      using cancel_order_spec [OF rel, of oid] o by (auto simp: execute_order_def get_obj_def spec_execute_def)
  next
    case False
    let ?h = "(ob_heap b)(a \<mapsto> ord\<lparr>o_shares := o_shares ord - n\<rparr>)" and ?xs = "Q s p"
    have p: "p \<noteq> EMPTY s" using levels_rel_queueD(3) [OF r(1) o(7)] .
    have inv: "tt_inv s K C (ob_side s b)" and map: "tt_map s (ob_side s b) p = level_of (ob_heap b) ?xs"
      and seg: "dseg (ob_heap b) s p nullptr ?xs nullptr" "distinct ?xs"
      using r(1) by (auto simp: levels_rel_def)
    have ne: "?xs \<noteq> []" using o(7) by auto
    obtain lc where lc: "tt_find s (ob_side s b) p = Some lc"
      "level_at (ob_side s b) lc = \<lparr>ld_head = hd ?xs, ld_tail = last ?xs, ld_total_qty = qty_of (ob_heap b) ?xs\<rparr>"
      using tt.search_dom [OF inv p, of "\<lparr>ld_head = hd ?xs, ld_tail = last ?xs, ld_total_qty = qty_of (ob_heap b) ?xs\<rparr>"]
        map ne by (auto simp: level_of_def)
    let ?d = "\<lparr>ld_head = hd ?xs, ld_tail = last ?xs, ld_total_qty = qty_of (ob_heap b) ?xs - ucast n\<rparr>"
    let ?b' = "put_level s lc ?d (b\<lparr>ob_heap := ?h\<rparr>)"
    have run: "execute_order oid n b = Inr (True, ?b')"
      using o lc False by (simp add: execute_order_def get_obj_def upd_obj_def find_level_eq)
    have "levels_rel K C ((sides b)(s := set_level_at (ob_side s b) lc ?d)) ?h (upd_queue Q s p ?xs)"
    proof (rule levels_rel_upd [OF r(1)])
      show "tt_inv s K C (set_level_at (ob_side s b) lc ?d)"
        using tt.search_put(1) [OF inv p lc(1)] .
      show "tt_map s (set_level_at (ob_side s b) lc ?d) = (tt_map s (ob_side s b))(p := level_of ?h ?xs)"
        using tt.search_put(2) [OF inv p lc(1)] qty_of_shares [of "ob_heap b", OF o(3,7) seg(2), of n] False ne
        by (simp add: level_of_def)
      show "dseg ?h s p nullptr ?xs nullptr" using seg(1) dseg_shares [of "ob_heap b", OF o(3)] by blast
      show "?h x = ob_heap b x" if "(s', p') \<noteq> (s, p)" "x \<in> set (Q s' p')" for s' p' x
        using that levels_rel_disjoint [OF r(1) o(7), of s' p'] by auto
    qed (rule seg)
    moreover have "sides ?b' = (sides b)(s := set_level_at (ob_side s b) lc ?d)" "upd_queue Q s p ?xs = Q"
      by (auto simp: put_level_def upd_queue_def)
    ultimately have lev: "levels_rel K C (sides ?b') (ob_heap ?b') Q"
      by (simp add: put_level_def)
    have num: "num_at ?h = num_at (ob_heap b)" using o(3) by (auto simp: fun_eq_iff num_at_def data_at_def)
    have rest: "ob_heap ?b' = ?h" "ob_pool ?b' = ob_pool b" "ob_orders ?b' = ob_orders b"
      "ob_max_orders ?b' = ob_max_orders b" by (simp_all add: put_level_def)
    have "dom ?h = dom (ob_heap b)" using o(3) by auto
    then have "book_rel K C ?b' Q"
      using r lev unfolding book_rel_def rest num by blast
    moreover have "abs_book ?b' Q = snd (spec_execute oid n (abs_book b Q))"
    proof -
      have "data_at ?h x = data_at (ob_heap b) x" if "lp_map (ob_orders b) i = Some x" "i \<noteq> oid" for i x
        using that r(5) [of i x] o(3,4) by (auto simp: data_at_def)
      then show ?thesis
        using o(3,5,6,9) False Some unfolding abs_book_def rest num spec_execute_def
        by (auto simp: fun_eq_iff split: option.splits simp del: data_at_upd)
          (simp_all add: data_at_def)
    qed
    ultimately show ?thesis using run o(9) False by (auto simp: spec_execute_def)
  qed
qed

end
