(* ===== verification/Order_Book_Runs.thy ===== *)
theory Order_Book_Runs
  imports Order_Book
begin

section \<open>Runs of the order book\<close>

text \<open>
  Sequences of calls on a new book, the specification's answers to the same calls, and what a
  client observes: the queues, the lookup by id, the level totals, the best price.
\<close>

subsection \<open>Runs of the book\<close>

datatype book_op = Add_order oid_t u32 u32 side | Cancel_order oid_t | Execute_order oid_t u32
  | Reduce_order oid_t u32

datatype book_out = Add_result "add_order_error + unit" | Done bool

definition as_out :: "('a \<Rightarrow> book_out) \<Rightarrow> ('a \<times> order_book) res \<Rightarrow> (book_out \<times> order_book) res" where
  "as_out f r = bind_res r (\<lambda>(x, b). Inr (f x, b))"

fun run_book_op :: "grow_env \<Rightarrow> book_op \<Rightarrow> order_book \<Rightarrow> (book_out \<times> order_book) res" where
  "run_book_op env (Add_order oid shares price s) b = as_out Add_result (add_order env oid shares price s b)"
| "run_book_op env (Cancel_order oid) b = as_out Done (cancel_order oid b)"
| "run_book_op env (Execute_order oid n) b = as_out Done (execute_order oid n b)"
| "run_book_op env (Reduce_order oid n) b = as_out Done (reduce_order oid n b)"

fun spec_book_op :: "nat \<Rightarrow> book_op \<Rightarrow> spec_book \<Rightarrow> book_out \<times> spec_book" where
  "spec_book_op cap (Add_order oid shares price s) sb = map_prod Add_result id (spec_add cap oid shares price s sb)"
| "spec_book_op cap (Cancel_order oid) sb = map_prod Done id (spec_cancel oid sb)"
| "spec_book_op cap (Execute_order oid n) sb = map_prod Done id (spec_execute oid n sb)"
| "spec_book_op cap (Reduce_order oid n) sb = map_prod Done id (spec_execute oid n sb)"

fun spec_run :: "nat \<Rightarrow> book_op list \<Rightarrow> spec_book \<Rightarrow> book_out list \<times> spec_book" where
  "spec_run cap [] sb = ([], sb)"
| "spec_run cap (oper # ops) sb =
     (case spec_book_op cap oper sb of (out, sb) \<Rightarrow>
      case spec_run cap ops sb of (outs, sb) \<Rightarrow> (out # outs, sb))"

text \<open>
  The operations the theorems on runs are about: no order is added at the \<open>EMPTY\<close> price of its
  side. The book itself accepts such an order.
\<close>

fun price_ok :: "book_op \<Rightarrow> bool" where
  "price_ok (Add_order oid shares price s) \<longleftrightarrow> price \<noteq> EMPTY s"
| "price_ok _ \<longleftrightarrow> True"

text \<open>
  The traces of a book: every operation finds an environment that keeps its promise to
  \<open>grow\<close>, and the operation's result is the program's.
\<close>

inductive book_trace :: "order_book \<Rightarrow> (book_op \<times> book_out) list \<Rightarrow> order_book \<Rightarrow> bool" for b0 where
  start: "book_trace b0 [] b0"
| step: "book_trace b0 tr b \<Longrightarrow> env_ok env b \<Longrightarrow> run_book_op env oper b = Inr (out, b') \<Longrightarrow>
    book_trace b0 (tr @ [(oper, out)]) b'"

lemma run_book_op_spec:
  assumes "book_rel K C b Q" "env_ok env b" "price_ok oper"
  shows "\<exists>b' Q'. run_book_op env oper b = Inr (fst (spec_book_op (K + C) oper (abs_book b Q)), b')
    \<and> book_rel K C b' Q' \<and> abs_book b' Q' = snd (spec_book_op (K + C) oper (abs_book b Q))"
proof (cases oper)
  case (Add_order oid shares price s)
  with add_order_spec [OF assms(1,2), of price s oid shares] assms(3) show ?thesis
    by (auto simp: as_out_def)
next
  case (Cancel_order oid)
  with cancel_order_spec [OF assms(1), of oid] show ?thesis by (auto simp: as_out_def)
next
  case (Execute_order oid n)
  with execute_order_spec [OF assms(1), of oid n] show ?thesis by (auto simp: as_out_def)
next
  case (Reduce_order oid n)
  with execute_order_spec [OF assms(1), of oid n] show ?thesis by (auto simp: as_out_def reduce_order_def)
qed

lemma spec_run_snoc:
  "spec_run cap (ops @ [oper]) sb =
     (case spec_run cap ops sb of (outs, sb) \<Rightarrow>
      case spec_book_op cap oper sb of (out, sb) \<Rightarrow> (outs @ [out], sb))"
  by (induction ops arbitrary: sb) (auto split: prod.splits)

lemma book_trace_rel:
  assumes "book_trace b0 tr b" "book_rel K C b0 Q0" "\<forall>x \<in> set tr. price_ok (fst x)"
  shows "\<exists>Q. book_rel K C b Q \<and> spec_run (K + C) (map fst tr) (abs_book b0 Q0) = (map snd tr, abs_book b Q)"
  using assms
proof (induction rule: book_trace.induct)
  case start
  then show ?case by auto
next
  case (step tr b env oper out b')
  then obtain Q where Q: "book_rel K C b Q"
    "spec_run (K + C) (map fst tr) (abs_book b0 Q0) = (map snd tr, abs_book b Q)" by auto
  have "price_ok oper" using step.prems(2) by simp
  from run_book_op_spec [OF Q(1) step.hyps(2) this] step.hyps(3) obtain Q' where
    "out = fst (spec_book_op (K + C) oper (abs_book b Q))" "book_rel K C b' Q'"
    "abs_book b' Q' = snd (spec_book_op (K + C) oper (abs_book b Q))" by auto
  with Q(2) show ?case by (auto simp: spec_run_snoc split: prod.splits)
qed

subsection \<open>The new book\<close>

lemma unat_MAX_ORDERS: "unat MAX_ORDERS = 2 ^ 12"
  by (simp add: MAX_ORDERS_def)

lemma OrderBook_spec:
  assumes "0 < K" "2 \<le> storage"
  shows "\<exists>b. OrderBook K C storage junk True = Inr b \<and> book_rel K C b (\<lambda>_ _. [])
    \<and> abs_book b (\<lambda>_ _. []) = spec_empty"
proof -
  obtain tb :: "oid_t lpt" where tb: "LinearProbingTable True (2 ^ 12) 0 = Inr tb"
    "lp_inv BackwardShift FibHash64 tb" "lp_map tb = Map.empty" "lp_capacity tb = 2 ^ (12 + 1)"
    using LinearProbingTable_spec [of 12 "0 :: oid_t" BackwardShift FibHash64] by auto
  let ?as = "chunk storage sizeof_Order (2 ^ 12)"
  let ?b = "\<lparr>ob_bids = TwoTierLevels_init BID K C, ob_asks = TwoTierLevels_init ASK K C,
    ob_max_orders = MAX_ORDERS, ob_pool = ObjectPool storage sizeof_Order (2 ^ 12), ob_orders = tb,
    ob_heap = (\<lambda>a. if a \<in> set ?as then Some (junk a) else None)\<rparr>"
  have run: "OrderBook K C storage junk True = Inr ?b"
    unfolding OrderBook_def unat_MAX_ORDERS Let_def tb(1) by simp
  have sides: "ob_side s ?b = TwoTierLevels_init s K C" for s
    by (cases s) (simp_all add: ob_side_def)
  have lev: "levels_rel K C (sides ?b) (ob_heap ?b) (\<lambda>_ _. [])"
    unfolding levels_rel_def sides using TwoTierLevels_init_spec [OF assms(1)] by (simp add: level_of_def)
  have live: "live_orders (\<lambda>_ _. []) = {}" by (simp add: live_orders_def)
  have "distinct ?as" "nullptr \<notin> set ?as" "\<forall>a \<in> set ?as. 2 \<le> a"
    using assms(2) distinct_chunk [of sizeof_Order storage] by (auto simp: sizeof_Order_def set_chunk)
  moreover have "op_n_free (ob_pool ?b) = 2 ^ 12" "op_capacity (ob_pool ?b) = 2 ^ 12" by (simp_all add: ObjectPool_def)
  ultimately have "pool_ok {} (ob_pool ?b)" "set (op_stack (ob_pool ?b)) \<subseteq> dom (ob_heap ?b)"
    "\<forall>a \<in> dom (ob_heap ?b). 2 \<le> a" "op_capacity (ob_pool ?b) = 2 ^ 12"
    using ObjectPool_spec [of storage sizeof_Order "2 ^ 12"] by (auto simp: pool_ok_def dom_def)
  then have "book_rel K C ?b (\<lambda>_ _. [])"
    unfolding book_rel_def live using lev tb unat_MAX_ORDERS by (auto simp: live intro: exI [of _ 12])
  moreover have "abs_book ?b (\<lambda>_ _. []) = spec_empty"
    using tb(3) by (simp add: abs_book_def spec_empty_def)
  ultimately show ?thesis using run by blast
qed

subsection \<open>What a client sees\<close>

text \<open>Walking a queue from its head along \<open>next\<close>, for at most \<open>n\<close> orders.\<close>

fun walk :: "heap \<Rightarrow> nat \<Rightarrow> ptr \<Rightarrow> (oid_t \<times> u32) list" where
  "walk h 0 a = []"
| "walk h (Suc n) a = (if a = nullptr then [] else
     case h a of None \<Rightarrow> [] | Some ord \<Rightarrow> (o_num ord, o_shares ord) # walk h n (o_next ord))"

definition spec_queue :: "spec_book \<Rightarrow> side \<Rightarrow> u32 \<Rightarrow> (oid_t \<times> u32) list" where
  "spec_queue sb s p = map (\<lambda>oid. (oid, case sb_orders sb oid of None \<Rightarrow> 0 | Some (_, _, sh) \<Rightarrow> sh)) (sb_queue sb s p)"

lemma walk_dseg:
  "dseg h s p prv xs nullptr \<Longrightarrow> length xs \<le> n \<Longrightarrow>
     walk h n (first_of xs nullptr) = map (\<lambda>a. (num_at h a, shares_at h a)) xs"
proof (induction xs arbitrary: prv n)
  case Nil
  then show ?case by (cases n) auto
next
  case (Cons a xs)
  then show ?case by (cases n) auto
qed

lemma queue_length:
  assumes "book_rel K C b Q"
  shows "length (Q s p) \<le> unat (ob_max_orders b)"
proof -
  note r = book_relD [OF assms]
  have "length (Q s p) = card (set (Q s p))"
    using r(1) by (simp add: levels_rel_def distinct_card)
  also have "\<dots> \<le> card (live_orders Q)"
    using r(6) by (intro card_mono) (auto simp: pool_ok_def live_orders_def)
  also have "\<dots> \<le> unat (ob_max_orders b)" using r(6,7) by (simp add: pool_ok_def)
  finally show ?thesis .
qed

lemma get_first_order_eq:
  assumes "book_rel K C b Q" "p \<noteq> EMPTY s"
  shows "get_first_order s p b = first_of (Q s p) nullptr"
proof -
  note r = book_relD [OF assms(1)]
  have inv: "tt_inv s K C (ob_side s b)" and map: "tt_map s (ob_side s b) p = level_of (ob_heap b) (Q s p)"
    using r(1) by (auto simp: levels_rel_def)
  show ?thesis
    using tt_find_map [OF inv assms(2)] map
    by (cases "tt_find s (ob_side s b) p"; cases "Q s p")
      (auto simp: get_first_order_def find_level_eq level_of_def dest!: arg_cong [where f = ld_head])
qed

lemma book_queue_walk:
  assumes rel: "book_rel K C b Q" and p: "p \<noteq> EMPTY s"
  shows "walk (ob_heap b) (unat (ob_max_orders b)) (get_first_order s p b) = spec_queue (abs_book b Q) s p"
proof -
  note r = book_relD [OF rel]
  have seg: "dseg (ob_heap b) s p nullptr (Q s p) nullptr" using r(1) by (simp add: levels_rel_def)
  have "(case sb_orders (abs_book b Q) (num_at (ob_heap b) a) of None \<Rightarrow> 0 | Some (_, _, sh) \<Rightarrow> sh)
      = shares_at (ob_heap b) a" if "a \<in> set (Q s p)" for a
  proof -
    have "a \<in> live_orders Q" using that by (auto simp: live_orders_def)
    then have "lp_map (ob_orders b) (num_at (ob_heap b) a) = Some a" using r(5) by blast
    from book_order [OF rel this] show ?thesis by (metis (no_types, lifting) case_prod_conv option.simps(5) shares_at_Some)
  qed
  then show ?thesis
    using walk_dseg [OF seg queue_length [OF rel]] get_first_order_eq [OF rel p]
    by (simp add: spec_queue_def abs_book_def)
qed

lemma book_lookup:
  assumes rel: "book_rel K C b Q"
  shows "case sb_orders (abs_book b Q) oid of None \<Rightarrow> get_order_by_oid oid b = nullptr
    | Some (s, p, sh) \<Rightarrow> \<exists>ord. ob_heap b (get_order_by_oid oid b) = Some ord \<and> o_num ord = oid \<and> o_side ord = s
        \<and> o_price ord = p \<and> o_shares ord = sh"
proof (cases "lp_map (ob_orders b) oid")
  case None
  with book_no_order [OF rel None] show ?thesis by (simp add: get_order_by_oid_def)
next
  case (Some a)
  obtain ord s p where "ob_find b oid = a" "a \<noteq> nullptr" "ob_heap b a = Some ord" "o_num ord = oid"
    "o_side ord = s" "o_price ord = p" "sb_orders (abs_book b Q) oid = Some (s, p, o_shares ord)"
    by (rule book_order [OF rel Some])
  then show ?thesis by (simp add: get_order_by_oid_def)
qed

text \<open>The total of a level never wraps: 32-bit quantities of fewer than \<open>2^32\<close> orders.\<close>

lemma unat_qty_of:
  assumes "length xs < 2 ^ 32"
  shows "unat (qty_of h xs) = sum_list (map (\<lambda>a. unat (shares_at h a)) xs)
    \<and> unat (qty_of h xs) \<le> length xs * (2 ^ 32 - 1)"
  using assms
proof (induction xs)
  case (Cons a xs)
  then have IH: "unat (qty_of h xs) = sum_list (map (\<lambda>a. unat (shares_at h a)) xs)"
    "unat (qty_of h xs) \<le> length xs * (2 ^ 32 - 1)" by auto
  have sh: "unat (ucast (shares_at h a) :: u64) = unat (shares_at h a)" "unat (shares_at h a) \<le> 2 ^ 32 - 1"
    using unat_ucast_64 [of "shares_at h a"] unat_u32_le [of "shares_at h a"] by auto
  have "length (a # xs) * (2 ^ 32 - 1) < (2 ^ 64 :: nat)"
    using Cons.prems mult_strict_right_mono [of "length (a # xs)" "2 ^ 32" "2 ^ 32 - 1 :: nat"] by simp
  then have "unat (ucast (shares_at h a) :: u64) + unat (qty_of h xs) < 2 ^ 64"
    using IH(2) sh by simp
  then have "unat (qty_of h (a # xs)) = unat (shares_at h a) + unat (qty_of h xs)"
    using sh(1) by (simp add: unat_word_ariths)
  with IH sh show ?case by simp
qed simp

lemma book_level_qty:
  assumes rel: "book_rel K C b Q" and p: "p \<noteq> EMPTY s"
  shows "case find_level s p b of None \<Rightarrow> spec_queue (abs_book b Q) s p = []
    | Some l \<Rightarrow> spec_queue (abs_book b Q) s p \<noteq> []
        \<and> unat (ld_total_qty (level_at (ob_side s b) l)) = sum_list (map (unat \<circ> snd) (spec_queue (abs_book b Q) s p))"
proof -
  note r = book_relD [OF rel]
  have inv: "tt_inv s K C (ob_side s b)" and map: "tt_map s (ob_side s b) p = level_of (ob_heap b) (Q s p)"
    and seg: "dseg (ob_heap b) s p nullptr (Q s p) nullptr"
    using r(1) by (auto simp: levels_rel_def)
  have len: "length (Q s p) < 2 ^ 32"
    using queue_length [OF rel, of s p] unat_u32_le [of "ob_max_orders b"] by simp
  have "spec_queue (abs_book b Q) s p = map (\<lambda>a. (num_at (ob_heap b) a, shares_at (ob_heap b) a)) (Q s p)"
    using book_queue_walk [OF rel p] walk_dseg [OF seg queue_length [OF rel]] get_first_order_eq [OF rel p] by simp
  then show ?thesis
    using tt_find_map [OF inv p] map unat_qty_of [OF len, of "ob_heap b"]
    by (cases "tt_find s (ob_side s b) p"; cases "Q s p = []")
      (auto simp: find_level_eq level_of_def comp_def dest!: arg_cong [where f = ld_total_qty])
qed

lemma book_best:
  assumes rel: "book_rel K C b Q"
  shows "if \<forall>p. spec_queue (abs_book b Q) s p = [] then best_price s b = EMPTY s
    else spec_queue (abs_book b Q) s (best_price s b) \<noteq> []
      \<and> (\<forall>p. spec_queue (abs_book b Q) s p \<noteq> [] \<longrightarrow> p = best_price s b \<or> better s (best_price s b) p)"
proof -
  note r = book_relD [OF rel]
  have inv: "tt_inv s K C (ob_side s b)" and map: "\<And>p. tt_map s (ob_side s b) p = level_of (ob_heap b) (Q s p)"
    using r(1) by (auto simp: levels_rel_def)
  have dom: "p \<in> dom (tt_map s (ob_side s b)) \<longleftrightarrow> spec_queue (abs_book b Q) s p \<noteq> []" for p
    using map by (simp add: dom_def level_of_def spec_queue_def abs_book_def)
  moreover have "tt_map s (ob_side s b) = Map.empty \<longleftrightarrow> (\<forall>p. p \<notin> dom (tt_map s (ob_side s b)))"
    by (auto simp: fun_eq_iff domIff)
  ultimately have "tt_map s (ob_side s b) = Map.empty \<longleftrightarrow> (\<forall>p. spec_queue (abs_book b Q) s p = [])"
    by simp
  then show ?thesis
    using tt_best_price_spec [OF inv] dom by (auto simp: best_price_eq split: if_splits)
qed

text \<open>A run of one order, for use in examples.\<close>

lemma sample_trace:
  obtains b0 b where "OrderBook 2 1 1000 (\<lambda>_. Order_init) True = Inr b0"
    "book_trace b0 [(Add_order 7 50 100 BID, Add_result (Inr ()))] b"
    "spec_run 3 [Add_order 7 50 100 BID] spec_empty = ([Add_result (Inr ())],
       \<lparr>sb_orders = [7 \<mapsto> (BID, 100, 50)], sb_queue = (\<lambda>_ _. [])(BID := (\<lambda>_. [])(100 := [7]))\<rparr>)"
proof -
  obtain b0 where b0: "OrderBook 2 1 1000 (\<lambda>_. Order_init) True = Inr b0" "book_rel 2 1 b0 (\<lambda>_ _. [])"
    "abs_book b0 (\<lambda>_ _. []) = spec_empty"
    using OrderBook_spec [of 2 1000 1] by auto
  note r = book_relD [OF b0(2)]
  have "ob_max_orders b0 = MAX_ORDERS"
    using b0(1) by (auto simp: OrderBook_def Let_def split: sum.splits)
  then have "op_available (ob_pool b0) \<noteq> 0"
    using r(6,7) unat_MAX_ORDERS by (simp add: pool_ok_def op_available_def live_orders_def)
  then have env: "env_ok env b0" for env by (simp add: env_ok_def)
  have "price_ok (Add_order 7 50 100 BID)" by (simp add: EMPTY_def)
  from run_book_op_spec [OF b0(2) env this] obtain b where
    "run_book_op \<lparr>ge_mem = 0, ge_free_ok = False, ge_table_ok = False\<rparr> (Add_order 7 50 100 BID) b0 = Inr (Add_result (Inr ()), b)"
    unfolding b0(3) by (auto simp: spec_add_def spec_empty_def)
  then have "book_trace b0 ([] @ [(Add_order 7 50 100 BID, Add_result (Inr ()))]) b"
    by (rule book_trace.step [OF book_trace.start env])
  then show ?thesis
    by (intro that [OF b0(1), of b]) (simp_all add: spec_add_def spec_empty_def)
qed

subsection \<open>Properties\<close>

lemma trace_rel:
  assumes "0 < K" "2 \<le> storage" "OrderBook K C storage junk True = Inr b0" "book_trace b0 tr b"
    "\<forall>x \<in> set tr. price_ok (fst x)"
  obtains Q where "book_rel K C b Q"
    "spec_run (K + C) (map fst tr) spec_empty = (map snd tr, abs_book b Q)"
proof -
  have "book_rel K C b0 (\<lambda>_ _. [])" "abs_book b0 (\<lambda>_ _. []) = spec_empty"
    using OrderBook_spec [OF assms(1,2), of C junk] assms(3) by auto
  with book_trace_rel [OF assms(4) this(1) assms(5)] that show ?thesis by auto
qed

text \<open>
  C1. The order book implements price-time priority. In every run of a new book, with prices
  other than the \<open>EMPTY\<close> sentinels, every answer (accepted, duplicate id, levels full, order
  found or not) is the specification's; walking the orders of any price from
  \<open>get_first_order\<close> along \<open>next\<close> gives the ids and open quantities in time order; and
  \<open>get_order_by_oid\<close> finds exactly the open orders, with their side, price and quantity.
\<close>

theorem book_price_time_priority:
  assumes "0 < K" "2 \<le> storage" "OrderBook K C storage junk True = Inr b0" "book_trace b0 tr b"
    "\<forall>x \<in> set tr. price_ok (fst x)"
  shows "\<exists>sb. spec_run (K + C) (map fst tr) spec_empty = (map snd tr, sb)
    \<and> (\<forall>s p. p \<noteq> EMPTY s \<longrightarrow>
        walk (ob_heap b) (unat (ob_max_orders b)) (get_first_order s p b) = spec_queue sb s p)
    \<and> (\<forall>oid. case sb_orders sb oid of None \<Rightarrow> get_order_by_oid oid b = nullptr
        | Some (s, p, sh) \<Rightarrow> \<exists>ord. ob_heap b (get_order_by_oid oid b) = Some ord \<and> o_num ord = oid
            \<and> o_side ord = s \<and> o_price ord = p \<and> o_shares ord = sh)"
proof -
  obtain Q where Q: "book_rel K C b Q" "spec_run (K + C) (map fst tr) spec_empty = (map snd tr, abs_book b Q)"
    by (rule trace_rel [OF assms])
  show ?thesis
    by (intro exI [of _ "abs_book b Q"] conjI allI impI) (rule Q(2) book_queue_walk [OF Q(1)] book_lookup [OF Q(1)], assumption?)+
qed

theorem book_price_time_priority_witness:
  "\<exists>b0 b. OrderBook 2 1 1000 (\<lambda>_. Order_init) True = Inr b0
    \<and> book_trace b0 [(Add_order 7 50 100 BID, Add_result (Inr ()))] b
    \<and> walk (ob_heap b) (unat (ob_max_orders b)) (get_first_order BID 100 b) = [(7, 50)]"
proof -
  obtain b0 b where tr: "OrderBook 2 1 1000 (\<lambda>_. Order_init) True = Inr b0"
    "book_trace b0 [(Add_order 7 50 100 BID, Add_result (Inr ()))] b"
    "spec_run 3 [Add_order 7 50 100 BID] spec_empty = ([Add_result (Inr ())],
       \<lparr>sb_orders = [7 \<mapsto> (BID, 100, 50)], sb_queue = (\<lambda>_ _. [])(BID := (\<lambda>_. [])(100 := [7]))\<rparr>)"
    by (rule sample_trace)
  from book_price_time_priority [OF _ _ tr(1,2)] tr(1,2,3) show ?thesis
    by (auto simp: EMPTY_def spec_queue_def simp del: spec_run.simps)
qed

lemma execute_without_level:
  assumes "ob_find b oid \<noteq> nullptr" "ob_heap b (ob_find b oid) = Some ord" "executed_shares < o_shares ord"
    "find_level (o_side ord) (o_price ord) b = None"
  shows "execute_order oid executed_shares b = Inl Bad_Access"
  using assms by (auto simp: execute_order_def get_obj_def Let_def)

text \<open>
  C15. Without orders at the \<open>EMPTY\<close> price of their side (bid 0, ask \<open>UINT32_MAX\<close>) the book never
  faults: in every state a new book reaches by operations that add no such order, every such
  operation returns. No null or dangling order is dereferenced, no pool or level access is out of
  range, the erase loop ends, and \<open>std::terminate\<close> is not reached, provided the environment
  supplies memory when the pool is exhausted. The code does not check the price, and the
  restriction is needed: the level of an order at \<open>EMPTY\<close> is overwritten by the next new price
  (\<open>empty_price_level_lost\<close>), and once other prices fill the hot tier \<open>find_level\<close> answers null,
  which a partial execution of that order dereferences (\<open>execute_without_level\<close>).
\<close>

theorem book_never_faults:
  assumes "0 < K" "2 \<le> storage" "OrderBook K C storage junk True = Inr b0" "book_trace b0 tr b"
    "\<forall>x \<in> set tr. price_ok (fst x)" "env_ok env b" "price_ok oper"
  shows "\<exists>out b'. run_book_op env oper b = Inr (out, b')"
proof -
  obtain Q where "book_rel K C b Q" by (rule trace_rel [OF assms(1-5)])
  from run_book_op_spec [OF this assms(6,7)] show ?thesis by blast
qed

theorem book_never_faults_witness:
  "\<exists>b0 env out b'. OrderBook 2 1 1000 (\<lambda>_. Order_init) True = Inr b0
    \<and> run_book_op env (Add_order 7 50 100 BID) b0 = Inr (out, b')"
proof -
  obtain b0 where b0: "OrderBook 2 1 1000 (\<lambda>_. Order_init) True = Inr b0" "book_rel 2 1 b0 (\<lambda>_ _. [])"
    using OrderBook_spec [of 2 1000 1 "\<lambda>_. Order_init"] by auto
  have "op_available (ob_pool b0) \<noteq> 0"
    using book_relD(4,6,7) [OF b0(2)] by (auto simp: pool_ok_def op_available_def live_orders_def)
  then have env: "env_ok env b0" for env by (simp add: env_ok_def)
  have "\<exists>out b'. run_book_op \<lparr>ge_mem = 0, ge_free_ok = False, ge_table_ok = False\<rparr> (Add_order 7 50 100 BID) b0
      = Inr (out, b')"
    by (rule book_never_faults [OF _ _ b0(1) book_trace.start _ env]) (simp_all add: EMPTY_def)
  with b0(1) show ?thesis by blast
qed

text \<open>
  C33. In every run of a new book that adds no order at the \<open>EMPTY\<close> price of its side, the level of
  every price other than \<open>EMPTY\<close> carries the exact sum of the open quantities in its queue: the
  64-bit total never wraps, and a level exists exactly when its queue is not empty. (At \<open>EMPTY\<close>
  itself \<open>find\<close> answers a free slot, which is not a level.)
\<close>

theorem book_level_totals:
  assumes "0 < K" "2 \<le> storage" "OrderBook K C storage junk True = Inr b0" "book_trace b0 tr b"
    "\<forall>x \<in> set tr. price_ok (fst x)" "p \<noteq> EMPTY s"
  shows "case find_level s p b of
      None \<Rightarrow> spec_queue (snd (spec_run (K + C) (map fst tr) spec_empty)) s p = []
    | Some l \<Rightarrow> spec_queue (snd (spec_run (K + C) (map fst tr) spec_empty)) s p \<noteq> []
        \<and> unat (ld_total_qty (level_at (ob_side s b) l))
          = sum_list (map (unat \<circ> snd) (spec_queue (snd (spec_run (K + C) (map fst tr) spec_empty)) s p))"
proof -
  obtain Q where Q: "book_rel K C b Q" "spec_run (K + C) (map fst tr) spec_empty = (map snd tr, abs_book b Q)"
    by (rule trace_rel [OF assms(1-5)])
  show ?thesis using book_level_qty [OF Q(1) assms(6)] unfolding Q(2) snd_conv .
qed

text \<open>
  C34. In every run of a new book that adds no order at the \<open>EMPTY\<close> price of its side, the best
  price of a side is the best price with an open order: the highest bid or the lowest ask, and the
  \<open>EMPTY\<close> sentinel when the side has no orders.
\<close>

theorem book_best_price:
  assumes "0 < K" "2 \<le> storage" "OrderBook K C storage junk True = Inr b0" "book_trace b0 tr b"
    "\<forall>x \<in> set tr. price_ok (fst x)" "sb = snd (spec_run (K + C) (map fst tr) spec_empty)"
  shows "if \<forall>p. spec_queue sb s p = [] then best_price s b = EMPTY s
    else spec_queue sb s (best_price s b) \<noteq> []
      \<and> (\<forall>p. spec_queue sb s p \<noteq> [] \<longrightarrow> p = best_price s b \<or> better s (best_price s b) p)"
proof -
  obtain Q where Q: "book_rel K C b Q" "spec_run (K + C) (map fst tr) spec_empty = (map snd tr, abs_book b Q)"
    by (rule trace_rel [OF assms(1-5)])
  show ?thesis using book_best [OF Q(1)] unfolding assms(6) Q(2) snd_conv .
qed

theorem book_best_price_witness:
  "\<exists>b0 b. OrderBook 2 1 1000 (\<lambda>_. Order_init) True = Inr b0
    \<and> book_trace b0 [(Add_order 7 50 100 BID, Add_result (Inr ()))] b \<and> best_price BID b = 100"
proof -
  obtain b0 b where tr: "OrderBook 2 1 1000 (\<lambda>_. Order_init) True = Inr b0"
    "book_trace b0 [(Add_order 7 50 100 BID, Add_result (Inr ()))] b"
    "spec_run 3 [Add_order 7 50 100 BID] spec_empty = ([Add_result (Inr ())],
       \<lparr>sb_orders = [7 \<mapsto> (BID, 100, 50)], sb_queue = (\<lambda>_ _. [])(BID := (\<lambda>_. [])(100 := [7]))\<rparr>)"
    by (rule sample_trace)
  from book_best_price [OF _ _ tr(1,2) _ refl, of BID] tr(3) have "best_price BID b = 100"
    by (auto simp: EMPTY_def spec_queue_def simp del: spec_run.simps split: if_splits)
  with tr show ?thesis by blast
qed

theorem book_level_totals_witness:
  "\<exists>b0 b. OrderBook 2 1 1000 (\<lambda>_. Order_init) True = Inr b0
    \<and> book_trace b0 [(Add_order 7 50 100 BID, Add_result (Inr ()))] b
    \<and> (\<exists>l. find_level BID 100 b = Some l \<and> unat (ld_total_qty (level_at (ob_side BID b) l)) = 50)"
proof -
  obtain b0 b where tr: "OrderBook 2 1 1000 (\<lambda>_. Order_init) True = Inr b0"
    "book_trace b0 [(Add_order 7 50 100 BID, Add_result (Inr ()))] b"
    "spec_run 3 [Add_order 7 50 100 BID] spec_empty = ([Add_result (Inr ())],
       \<lparr>sb_orders = [7 \<mapsto> (BID, 100, 50)], sb_queue = (\<lambda>_ _. [])(BID := (\<lambda>_. [])(100 := [7]))\<rparr>)"
    by (rule sample_trace)
  from book_level_totals [OF _ _ tr(1,2), of 100 BID] tr(3)
  have "\<exists>l. find_level BID 100 b = Some l \<and> unat (ld_total_qty (level_at (ob_side BID b) l)) = 50"
    by (auto simp: EMPTY_def spec_queue_def simp del: spec_run.simps split: option.splits)
  with tr show ?thesis by blast
qed

text \<open>
  When the pool is exhausted and the buffer pool, the free list or the table cannot get
  memory, \<open>add_order\<close> of a new id ends in \<open>std::terminate\<close>; nothing else is tried.
\<close>

lemma add_order_out_of_memory:
  assumes "op_inv (ob_pool b)" "op_available (ob_pool b) = 0" "get_order_by_oid oid b = nullptr"
    "ge_mem env = nullptr \<or> \<not> ge_free_ok env \<or> \<not> ge_table_ok env"
  shows "add_order env oid shares price s b = Inl Terminated"
proof -
  have "op_stack (ob_pool b) = []"
    using length_op_stack [OF assms(1)] assms(2) by (simp add: op_available_def)
  then have get: "op_get (ob_pool b) = Inr (nullptr, ob_pool b)" by (rule op.get_none [OF assms(1)])
  have find: "ob_find b oid = nullptr" using assms(3) by (simp add: get_order_by_oid_def Let_def split: if_splits)
  have "\<exists>b'. grow env b = Inr (False, b')"
  proof (cases "ge_mem env = nullptr \<or> \<not> ge_free_ok env")
    case True
    then show ?thesis by (auto simp: grow_def Let_def op_add_chunk_def)
  next
    case False
    then have "\<not> ge_table_ok env" using assms(4) by simp
    with False op_add_chunk_spec [OF assms(1), of "\<lambda>a h. h(a \<mapsto> Order_init)" sizeof_Order "ob_heap b"
        "ge_mem env" "unat (ob_max_orders b)"]
    show ?thesis by (auto simp: grow_def Let_def lp_rehash_def LinearProbingTable_def)
  qed
  with get find show ?thesis by (auto simp: add_order_def)
qed

lemma add_order_out_of_memory_witness:
  "\<exists>b. add_order \<lparr>ge_mem = 5000, ge_free_ok = True, ge_table_ok = False\<rparr> 7 50 100 BID b = Inl Terminated"
proof -
  obtain b0 where b0: "OrderBook 2 1 1000 (\<lambda>_. Order_init) True = Inr b0" "book_rel 2 1 b0 (\<lambda>_ _. [])"
    "abs_book b0 (\<lambda>_ _. []) = spec_empty"
    using OrderBook_spec [of 2 1000 1 "\<lambda>_. Order_init"] by auto
  let ?b = "b0\<lparr>ob_pool := ObjectPool 2 40 0\<rparr>"
  have "get_order_by_oid 7 b0 = nullptr"
    using book_lookup [OF b0(2), of 7] b0(3) by (simp add: spec_empty_def)
  then have "get_order_by_oid 7 ?b = nullptr" by (simp add: get_order_by_oid_def ob_find_def)
  moreover have "op_inv (ob_pool ?b)" "op_available (ob_pool ?b) = 0"
    by (simp_all add: op_available_def ObjectPool_def op_inv_def)
  ultimately show ?thesis
    using add_order_out_of_memory [of ?b 7 "\<lparr>ge_mem = 5000, ge_free_ok = True, ge_table_ok = False\<rparr>"] by auto
qed

end
