(* ===== verification/Spsc_Queue.thy ===== *)
theory Spsc_Queue
  imports Market_Types
begin

section \<open>Single-producer single-consumer ring (src/common/spsc\_queue.hpp)\<close>

text \<open>
  The ring buffer between the parser thread and a book builder. A slot holds an object or
  none (raw memory). The four indices are natural numbers below \<open>N\<close>, the length of the
  buffer. Loads of the index the other thread owns may be stale under the C++ memory model, so
  the loaded value is an argument of the operations that load it; called by one thread alone,
  the loaded value is the current one.
\<close>

record 'a spsc =
  q_buf :: "'a option list"
  q_head :: nat
  q_cached_tail :: nat
  q_tail :: nat
  q_cached_head :: nat

definition SPSCQueue :: "nat \<Rightarrow> 'a spsc" where
  "SPSCQueue N = \<lparr>q_buf = replicate N None, q_head = 0, q_cached_tail = 0, q_tail = 0, q_cached_head = 0\<rparr>"

definition q_next :: "'a spsc \<Rightarrow> nat \<Rightarrow> nat" where
  "q_next q i = (i + 1) AND (length (q_buf q) - 1)"

definition empty_at :: "nat \<Rightarrow> nat \<Rightarrow> 'a spsc \<Rightarrow> bool \<times> 'a spsc" where
  "empty_at head_load tail_val q =
     (if tail_val \<noteq> q_cached_head q then (False, q)
      else let head_val = head_load in
        if head_val = tail_val then (True, q) else (False, q\<lparr>q_cached_head := head_val\<rparr>))"

definition q_empty :: "nat \<Rightarrow> 'a spsc \<Rightarrow> bool" where
  "q_empty head_load q \<longleftrightarrow> head_load = q_tail q"

definition full_at :: "nat \<Rightarrow> nat \<Rightarrow> 'a spsc \<Rightarrow> bool \<times> 'a spsc" where
  "full_at tail_load head_val q =
     (let next = q_next q head_val in
      if next \<noteq> q_cached_tail q then (False, q)
      else let tail_val = tail_load in
        if tail_val = next then (True, q) else (False, q\<lparr>q_cached_tail := tail_val\<rparr>))"

definition q_full :: "nat \<Rightarrow> 'a spsc \<Rightarrow> bool" where
  "q_full tail_load q \<longleftrightarrow> q_next q (q_head q) = tail_load"

definition try_reserve :: "nat \<Rightarrow> 'a spsc \<Rightarrow> nat option \<times> 'a spsc" where
  "try_reserve tail_load q =
     (let head_val = q_head q in
      case full_at tail_load head_val q of
        (True, q) \<Rightarrow> (None, q)
      | (False, q) \<Rightarrow> (Some head_val, q))"

definition commit :: "'a spsc \<Rightarrow> 'a spsc" where
  "commit q = (let head_val = q_head q in q\<lparr>q_head := q_next q head_val\<rparr>)"

text \<open>Placement new into a slot, and moving an object out of a slot.\<close>

definition write_slot :: "nat \<Rightarrow> 'a \<Rightarrow> 'a spsc \<Rightarrow> 'a spsc" where
  "write_slot i v q = q\<lparr>q_buf := (q_buf q)[i := Some v]\<rparr>"

definition take_slot :: "nat \<Rightarrow> 'a spsc \<Rightarrow> ('a \<times> 'a spsc) res" where
  "take_slot i q =
     (if i < length (q_buf q)
      then case q_buf q ! i of None \<Rightarrow> Inl Bad_Access | Some v \<Rightarrow> Inr (v, q\<lparr>q_buf := (q_buf q)[i := None]\<rparr>)
      else Inl Bad_Access)"

definition push :: "nat \<Rightarrow> 'a \<Rightarrow> 'a spsc \<Rightarrow> bool \<times> 'a spsc" where
  "push tail_load v q =
     (case try_reserve tail_load q of
        (None, q) \<Rightarrow> (False, q)
      | (Some slot, q) \<Rightarrow> (True, commit (write_slot slot v q)))"

definition advance_tail :: "nat \<Rightarrow> 'a spsc \<Rightarrow> 'a spsc" where
  "advance_tail tail_val q = q\<lparr>q_tail := q_next q tail_val\<rparr>"

definition pop :: "nat \<Rightarrow> 'a spsc \<Rightarrow> ('a option \<times> 'a spsc) res" where
  "pop head_load q =
     (let tail_val = q_tail q in
      case empty_at head_load tail_val q of
        (True, q) \<Rightarrow> Inr (None, q)
      | (False, q) \<Rightarrow> bind_res (take_slot tail_val q) (\<lambda>(value, q). Inr (Some value, advance_tail tail_val q)))"

text \<open>The destructor's loop destroys the objects from tail to head; \<open>None\<close> if it never ends.\<close>

partial_function (option) destroy_loop :: "nat \<Rightarrow> nat \<Rightarrow> 'a spsc \<Rightarrow> 'a spsc res option" where
  "destroy_loop i head_val q =
     (if i = head_val then Some (Inr q)
      else case take_slot i q of
        Inl e \<Rightarrow> Some (Inl e)
      | Inr (_, q) \<Rightarrow> destroy_loop (q_next q i) head_val q)"

definition SPSCQueue_destroy :: "'a spsc \<Rightarrow> 'a spsc res option" where
  "SPSCQueue_destroy q = destroy_loop (q_tail q) (q_head q) q"

subsection \<open>Counting invariant\<close>

text \<open>
  \<open>H\<close> objects were committed and \<open>T\<close> taken out since the construction; the consumer knows of
  \<open>CH\<close> commits, the producer of \<open>CT\<close> removals. The indices are the counters modulo \<open>N\<close>.
\<close>

definition ring_inv :: "nat \<Rightarrow> 'a spsc \<Rightarrow> nat \<Rightarrow> nat \<Rightarrow> nat \<Rightarrow> nat \<Rightarrow> bool" where
  "ring_inv N q H T CH CT \<longleftrightarrow> (\<exists>c. N = 2 ^ c) \<and> length (q_buf q) = N
     \<and> q_head q = H mod N \<and> q_tail q = T mod N \<and> q_cached_head q = CH mod N \<and> q_cached_tail q = CT mod N
     \<and> CT \<le> T \<and> T \<le> CH \<and> CH \<le> H \<and> H < CT + N"

lemma mod_window:
  fixes a b N :: nat
  assumes "a \<le> b" "b < a + N"
  shows "a mod N = b mod N \<longleftrightarrow> a = b"
proof
  assume "a mod N = b mod N"
  then have "N dvd b - a" using assms(1) by (metis mod_eq_dvd_iff_nat)
  moreover have "b - a < N" using assms by linarith
  ultimately show "a = b" using assms(1) by (auto dest: dvd_imp_le)
qed simp

lemma ring_next:
  assumes "ring_inv N q H T CH CT"
  shows "q_next q (i mod N) = Suc i mod N"
proof -
  obtain c where "length (q_buf q) = 2 ^ c" "N = 2 ^ c" using assms by (auto simp: ring_inv_def)
  then show ?thesis by (simp add: q_next_def mod_Suc_eq)
qed

lemma full_at_spec:
  assumes inv: "ring_inv N q H T CH CT" and j: "CT \<le> j" "j \<le> T"
  shows "case full_at (j mod N) (q_head q) q of
      (True, q') \<Rightarrow> q' = q \<and> Suc H = j + N
    | (False, q') \<Rightarrow> \<exists>CT'. ring_inv N q' H T CH CT' \<and> CT' = (if q' = q then CT else j)
        \<and> Suc H < CT' + N \<and> q_buf q' = q_buf q"
proof -
  note i = inv [unfolded ring_inv_def]
  have nx: "q_next q (q_head q) = Suc H mod N" using ring_next [OF inv] i by simp
  have a: "Suc H mod N = CT mod N \<longleftrightarrow> Suc H = CT + N"
  proof -
    have "Suc H mod N = (CT + N) mod N \<longleftrightarrow> Suc H = CT + N"
      using i by (intro mod_window) linarith+
    then show ?thesis by simp
  qed
  have b: "j mod N = Suc H mod N \<longleftrightarrow> Suc H = j + N" if "Suc H = CT + N"
  proof (cases "j = CT")
    case True
    then show ?thesis using a that by simp
  next
    case False
    then have "Suc H < j + N" using j that by simp
    moreover have "j \<le> Suc H" using i j by linarith
    ultimately show ?thesis using mod_window [of j "Suc H" N] i j that by auto
  qed
  have upd: "q\<lparr>q_cached_tail := x\<rparr> = q \<longleftrightarrow> x = q_cached_tail q" for x by (cases q) auto
  show ?thesis
  proof (cases "Suc H = CT + N")
    case True
    then have c: "q_cached_tail q = Suc H mod N" using i a by simp
    show ?thesis
    proof (cases "Suc H = j + N")
      case True
      then show ?thesis using c b nx by (simp add: full_at_def \<open>Suc H = CT + N\<close>)
    next
      case False
      then have "Suc H < j + N" "j mod N \<noteq> Suc H mod N" using True j b by auto
      then show ?thesis using c nx i j by (auto simp: full_at_def upd ring_inv_def)
    qed
  next
    case False
    then have "q_cached_tail q \<noteq> Suc H mod N" "Suc H < CT + N" using i a by auto
    then show ?thesis using nx inv by (simp add: full_at_def)
  qed
qed

lemma empty_at_spec:
  assumes inv: "ring_inv N q H T CH CT" and j: "CH \<le> j" "j \<le> H"
  shows "case empty_at (j mod N) (q_tail q) q of
      (True, q') \<Rightarrow> q' = q \<and> j = T
    | (False, q') \<Rightarrow> \<exists>CH'. ring_inv N q' H T CH' CT \<and> CH' = (if q' = q then CH else j)
        \<and> T < CH' \<and> q_buf q' = q_buf q"
proof -
  note i = inv [unfolded ring_inv_def]
  have a: "T mod N = CH mod N \<longleftrightarrow> T = CH" using i by (intro mod_window) linarith+
  have b: "T mod N = j mod N \<longleftrightarrow> T = j" using i j by (intro mod_window) linarith+
  have upd: "q\<lparr>q_cached_head := x\<rparr> = q \<longleftrightarrow> x = q_cached_head q" for x by (cases q) auto
  show ?thesis
  proof (cases "T = CH")
    case True
    then have c: "q_cached_head q = T mod N" "q_tail q = T mod N" using i by auto
    show ?thesis
    proof (cases "T = j")
      case True
      then show ?thesis using c by (simp add: empty_at_def)
    next
      case False
      then have "T < j" "j mod N \<noteq> T mod N" using \<open>T = CH\<close> j b by auto
      then show ?thesis using c i j by (auto simp: empty_at_def upd ring_inv_def)
    qed
  next
    case False
    then have "q_cached_head q \<noteq> q_tail q" "T < CH" using i a by auto
    then show ?thesis using inv by (simp add: empty_at_def)
  qed
qed

subsection \<open>Contents of the slots\<close>

text \<open>The objects \<open>T, \<dots>, H - 1\<close> of the sequence \<open>P\<close> are in their slots; all other slots are raw.\<close>

definition filled :: "nat \<Rightarrow> 'a option list \<Rightarrow> 'a list \<Rightarrow> nat \<Rightarrow> nat \<Rightarrow> bool" where
  "filled N buf P T H \<longleftrightarrow> length buf = N \<and> T \<le> H \<and> H \<le> T + N
     \<and> (\<forall>i. T \<le> i \<and> i < H \<longrightarrow> buf ! (i mod N) = Some (P ! i))
     \<and> (\<forall>i. H \<le> i \<and> i < T + N \<longrightarrow> buf ! (i mod N) = None)"

lemma filled_write:
  assumes f: "filled N buf P T H" and P: "length P = H" and room: "H < T + N"
  shows "filled N (buf[H mod N := Some v]) (P @ [v]) T (Suc H)" "buf ! (H mod N) = None"
proof -
  have N: "0 < N" using f room by (auto simp: filled_def)
  have "(buf[H mod N := Some v]) ! (i mod N) = (if i = H then Some v else buf ! (i mod N))"
    if "T \<le> i" "i < T + N" for i
  proof -
    have "H mod N = i mod N \<longleftrightarrow> H = i"
    proof (cases "H \<le> i")
      case True
      then show ?thesis using f that by (intro mod_window) (auto simp: filled_def)
    next
      case False
      then show ?thesis using mod_window [of i H N] f that room by (auto simp: filled_def)
    qed
    then show ?thesis using N f by (auto simp: filled_def nth_list_update)
  qed
  then show "filled N (buf[H mod N := Some v]) (P @ [v]) T (Suc H)"
    using f P room by (auto simp: filled_def nth_append)
  show "buf ! (H mod N) = None" using f room by (auto simp: filled_def)
qed

lemma filled_take:
  assumes f: "filled N buf P T H" and some: "T < H"
  shows "filled N (buf[T mod N := None]) P (Suc T) H" "buf ! (T mod N) = Some (P ! T)" "T mod N < length buf"
proof -
  have N: "0 < N" using f some by (auto simp: filled_def)
  have "(buf[T mod N := None]) ! (i mod N) = (if i = T \<or> i = T + N then None else buf ! (i mod N))"
    if "T \<le> i" "i \<le> T + N" for i
  proof (cases "i = T + N")
    case True
    then show ?thesis using N f by (simp add: filled_def)
  next
    case False
    then have "T mod N = i mod N \<longleftrightarrow> T = i" using that by (intro mod_window) auto
    then show ?thesis using N f False by (auto simp: filled_def nth_list_update)
  qed
  then show "filled N (buf[T mod N := None]) P (Suc T) H"
    using f some by (auto simp: filled_def)
  show "buf ! (T mod N) = Some (P ! T)" "T mod N < length buf" using f some N by (auto simp: filled_def)
qed

lemma filled_cong:
  assumes "filled N buf P T H" "\<And>i. T \<le> i \<Longrightarrow> i < H \<Longrightarrow> P' ! i = P ! i"
  shows "filled N buf P' T H"
  using assms by (auto simp: filled_def)

subsection \<open>Two threads\<close>

text \<open>
  The threads interleave at every access to shared memory. The producer is idle, has reserved a
  slot for a value, or has written it; the consumer is idle, has found a slot, or has moved its
  object out. \<open>rs_heads\<close> and \<open>rs_tails\<close> are the modification orders of the two atomics: an
  acquire load returns any value not older than the last one the thread has seen.
\<close>

datatype 'a prod_pc = P_idle | P_reserved nat 'a | P_written 'a
datatype 'a cons_pc = C_idle | C_checked nat | C_taken nat 'a

record 'a ring_sys =
  rs_q :: "'a spsc"
  rs_prod :: "'a prod_pc"
  rs_cons :: "'a cons_pc"
  rs_heads :: "nat list"
  rs_tails :: "nat list"
  rs_seen_head :: nat
  rs_seen_tail :: nat
  rs_pushed :: "'a list"
  rs_popped :: "'a list"

definition ring_start :: "nat \<Rightarrow> 'a ring_sys" where
  "ring_start N = \<lparr>rs_q = SPSCQueue N, rs_prod = P_idle, rs_cons = C_idle, rs_heads = [0], rs_tails = [0],
     rs_seen_head = 0, rs_seen_tail = 0, rs_pushed = [], rs_popped = []\<rparr>"

inductive ring_step :: "'a ring_sys \<Rightarrow> 'a ring_sys \<Rightarrow> bool" where
  p_reserve: "rs_prod s = P_idle \<Longrightarrow> rs_seen_tail s \<le> j \<Longrightarrow> j < length (rs_tails s) \<Longrightarrow>
    try_reserve (rs_tails s ! j) (rs_q s) = (Some slot, q) \<Longrightarrow>
    ring_step s (s\<lparr>rs_q := q, rs_prod := P_reserved slot v,
      rs_seen_tail := (if q = rs_q s then rs_seen_tail s else j)\<rparr>)"
| p_full: "rs_prod s = P_idle \<Longrightarrow> rs_seen_tail s \<le> j \<Longrightarrow> j < length (rs_tails s) \<Longrightarrow>
    try_reserve (rs_tails s ! j) (rs_q s) = (None, q) \<Longrightarrow> ring_step s (s\<lparr>rs_q := q\<rparr>)"
| p_write: "rs_prod s = P_reserved slot v \<Longrightarrow>
    ring_step s (s\<lparr>rs_q := write_slot slot v (rs_q s), rs_prod := P_written v\<rparr>)"
| p_commit: "rs_prod s = P_written v \<Longrightarrow> q = commit (rs_q s) \<Longrightarrow>
    ring_step s (s\<lparr>rs_q := q, rs_prod := P_idle, rs_heads := rs_heads s @ [q_head q], rs_pushed := rs_pushed s @ [v]\<rparr>)"
| c_check: "rs_cons s = C_idle \<Longrightarrow> rs_seen_head s \<le> j \<Longrightarrow> j < length (rs_heads s) \<Longrightarrow>
    empty_at (rs_heads s ! j) (q_tail (rs_q s)) (rs_q s) = (False, q) \<Longrightarrow>
    ring_step s (s\<lparr>rs_q := q, rs_cons := C_checked (q_tail (rs_q s)),
      rs_seen_head := (if q = rs_q s then rs_seen_head s else j)\<rparr>)"
| c_empty: "rs_cons s = C_idle \<Longrightarrow> rs_seen_head s \<le> j \<Longrightarrow> j < length (rs_heads s) \<Longrightarrow>
    empty_at (rs_heads s ! j) (q_tail (rs_q s)) (rs_q s) = (True, q) \<Longrightarrow> ring_step s (s\<lparr>rs_q := q\<rparr>)"
| c_take: "rs_cons s = C_checked slot \<Longrightarrow> take_slot slot (rs_q s) = Inr (v, q) \<Longrightarrow>
    ring_step s (s\<lparr>rs_q := q, rs_cons := C_taken slot v\<rparr>)"
| c_advance: "rs_cons s = C_taken slot v \<Longrightarrow> q = advance_tail slot (rs_q s) \<Longrightarrow>
    ring_step s (s\<lparr>rs_q := q, rs_cons := C_idle, rs_tails := rs_tails s @ [q_tail q], rs_popped := rs_popped s @ [v]\<rparr>)"

inductive_cases ring_stepE: "ring_step s s'"

definition mod_seq :: "nat \<Rightarrow> nat \<Rightarrow> nat list" where
  "mod_seq N n = map (\<lambda>i. i mod N) [0..<Suc n]"

lemma mod_seq_nth [simp]: "i \<le> n \<Longrightarrow> mod_seq N n ! i = i mod N" "length (mod_seq N n) = Suc n"
  unfolding mod_seq_def by (simp_all add: nth_map [of i] del: upt_Suc)

lemma mod_seq_Suc: "mod_seq N n @ [Suc n mod N] = mod_seq N (Suc n)"
  by (simp add: mod_seq_def)

text \<open>What the producer still has to do, and what the consumer has already taken.\<close>

definition written :: "'a prod_pc \<Rightarrow> 'a list" where
  "written pc = (case pc of P_written v \<Rightarrow> [v] | _ \<Rightarrow> [])"

definition taken :: "'a cons_pc \<Rightarrow> nat" where
  "taken pc = (case pc of C_taken slot v \<Rightarrow> 1 | _ \<Rightarrow> 0)"

definition prod_ok :: "nat \<Rightarrow> nat \<Rightarrow> nat \<Rightarrow> 'a prod_pc \<Rightarrow> bool" where
  "prod_ok N H CT pc \<longleftrightarrow> (case pc of P_idle \<Rightarrow> True | P_reserved slot v \<Rightarrow> slot = H mod N \<and> Suc H < CT + N
     | P_written v \<Rightarrow> Suc H < CT + N)"

definition cons_ok :: "nat \<Rightarrow> nat \<Rightarrow> nat \<Rightarrow> 'a list \<Rightarrow> 'a cons_pc \<Rightarrow> bool" where
  "cons_ok N T CH P pc \<longleftrightarrow> (case pc of C_idle \<Rightarrow> True | C_checked slot \<Rightarrow> slot = T mod N \<and> T < CH
     | C_taken slot v \<Rightarrow> slot = T mod N \<and> T < CH \<and> v = P ! T)"

definition ring_sys_rel :: "nat \<Rightarrow> 'a ring_sys \<Rightarrow> nat \<Rightarrow> nat \<Rightarrow> nat \<Rightarrow> nat \<Rightarrow> bool" where
  "ring_sys_rel N s H T CH CT \<longleftrightarrow> ring_inv N (rs_q s) H T CH CT
     \<and> rs_heads s = mod_seq N H \<and> rs_tails s = mod_seq N T \<and> rs_seen_head s = CH \<and> rs_seen_tail s = CT
     \<and> length (rs_pushed s) = H \<and> rs_popped s = take T (rs_pushed s)
     \<and> prod_ok N H CT (rs_prod s) \<and> cons_ok N T CH (rs_pushed s) (rs_cons s)
     \<and> filled N (q_buf (rs_q s)) (rs_pushed s @ written (rs_prod s)) (T + taken (rs_cons s))
         (H + length (written (rs_prod s)))"

lemmas pc_defs = written_def taken_def prod_ok_def cons_ok_def

lemma ring_start_rel:
  assumes "N = 2 ^ c"
  shows "ring_sys_rel N (ring_start N) 0 0 0 0"
  using assms by (auto simp: ring_sys_rel_def ring_start_def ring_inv_def SPSCQueue_def filled_def mod_seq_def pc_defs)

lemma p_reserve_rel:
  assumes rel: "ring_sys_rel N s H T CH CT" and idle: "rs_prod s = P_idle"
    and j: "rs_seen_tail s \<le> j" "j < length (rs_tails s)"
    and res: "try_reserve (rs_tails s ! j) (rs_q s) = (r, q)"
  shows "case r of None \<Rightarrow> q = rs_q s \<and> Suc H = j + N
    | Some slot \<Rightarrow> \<exists>CT'. ring_sys_rel N (s\<lparr>rs_q := q, rs_prod := P_reserved slot v,
        rs_seen_tail := (if q = rs_q s then rs_seen_tail s else j)\<rparr>) H T CH CT'"
proof -
  note r = rel [unfolded ring_sys_rel_def]
  have j: "CT \<le> j" "j \<le> T" "rs_tails s ! j = j mod N" using j r by auto
  obtain full where fa: "full_at (j mod N) (q_head (rs_q s)) (rs_q s) = (full, q)"
    and r': "r = (if full then None else Some (q_head (rs_q s)))"
    using res j by (auto simp: try_reserve_def Let_def split: prod.splits bool.splits)
  have "case (full, q) of (True, q') \<Rightarrow> q' = rs_q s \<and> Suc H = j + N
      | (False, q') \<Rightarrow> \<exists>CT'. ring_inv N q' H T CH CT' \<and> CT' = (if q' = rs_q s then CT else j)
        \<and> Suc H < CT' + N \<and> q_buf q' = q_buf (rs_q s)"
    using full_at_spec [of N "rs_q s" H T CH CT j] r j fa by simp
  then consider (full) "full" "q = rs_q s" "Suc H = j + N"
    | (room) CT' where "\<not> full" "ring_inv N q H T CH CT'" "CT' = (if q = rs_q s then CT else j)"
        "Suc H < CT' + N" "q_buf q = q_buf (rs_q s)"
    by (cases full) auto
  then show ?thesis
  proof cases
    case full
    with r' show ?thesis by simp
  next
    case room
    have "q_head (rs_q s) = H mod N" using r by (simp add: ring_inv_def)
    with r r' idle room have "ring_sys_rel N (s\<lparr>rs_q := q, rs_prod := P_reserved (q_head (rs_q s)) v,
        rs_seen_tail := (if q = rs_q s then rs_seen_tail s else j)\<rparr>) H T CH CT'"
      by (simp add: ring_sys_rel_def prod_ok_def written_def)
    with r' room(1) show ?thesis by (auto split del: if_split)
  qed
qed

lemma c_check_rel:
  assumes rel: "ring_sys_rel N s H T CH CT" and idle: "rs_cons s = C_idle"
    and j: "rs_seen_head s \<le> j" "j < length (rs_heads s)"
    and res: "empty_at (rs_heads s ! j) (q_tail (rs_q s)) (rs_q s) = (none, q)"
  shows "if none then q = rs_q s \<and> j = T
    else \<exists>CH'. ring_sys_rel N (s\<lparr>rs_q := q, rs_cons := C_checked (q_tail (rs_q s)),
        rs_seen_head := (if q = rs_q s then rs_seen_head s else j)\<rparr>) H T CH' CT"
proof -
  note r = rel [unfolded ring_sys_rel_def]
  have j: "CH \<le> j" "j \<le> H" "rs_heads s ! j = j mod N" using j r by auto
  have "case (none, q) of (True, q') \<Rightarrow> q' = rs_q s \<and> j = T
      | (False, q') \<Rightarrow> \<exists>CH'. ring_inv N q' H T CH' CT \<and> CH' = (if q' = rs_q s then CH else j)
        \<and> T < CH' \<and> q_buf q' = q_buf (rs_q s)"
    using empty_at_spec [of N "rs_q s" H T CH CT j] r j res by simp
  then consider (none) "none" "q = rs_q s" "j = T"
    | (some) CH' where "\<not> none" "ring_inv N q H T CH' CT" "CH' = (if q = rs_q s then CH else j)"
        "T < CH'" "q_buf q = q_buf (rs_q s)"
    by (cases none) auto
  then show ?thesis
  proof cases
    case none
    then show ?thesis by simp
  next
    case some
    have "q_tail (rs_q s) = T mod N" using r by (simp add: ring_inv_def)
    with r idle some have "ring_sys_rel N (s\<lparr>rs_q := q, rs_cons := C_checked (q_tail (rs_q s)),
        rs_seen_head := (if q = rs_q s then rs_seen_head s else j)\<rparr>) H T CH' CT"
      by (simp add: ring_sys_rel_def cons_ok_def taken_def)
    with some(1) show ?thesis by (auto split del: if_split)
  qed
qed

lemma p_write_rel:
  assumes rel: "ring_sys_rel N s H T CH CT" and pc: "rs_prod s = P_reserved slot v"
  shows "ring_sys_rel N (s\<lparr>rs_q := write_slot slot v (rs_q s), rs_prod := P_written v\<rparr>) H T CH CT"
    "q_buf (rs_q s) ! slot = None" "slot < length (q_buf (rs_q s))" "slot = H mod N" "Suc H < CT + N"
proof -
  note r = rel [unfolded ring_sys_rel_def pc_defs pc]
  have f: "filled N (q_buf (rs_q s)) (rs_pushed s) (T + taken (rs_cons s)) H"
    using rel by (simp add: ring_sys_rel_def pc written_def)
  have lt: "H < T + taken (rs_cons s) + N" using r by (auto simp: ring_inv_def)
  have "length (rs_pushed s) = H" and slot: "slot = H mod N" using r by auto
  from filled_write [OF f this(1) lt] slot r
  show "ring_sys_rel N (s\<lparr>rs_q := write_slot slot v (rs_q s), rs_prod := P_written v\<rparr>) H T CH CT"
    "q_buf (rs_q s) ! slot = None"
    by (auto simp: ring_sys_rel_def pc_defs write_slot_def ring_inv_def)
  have "0 < N" using r by (auto simp: ring_inv_def)
  then show "slot < length (q_buf (rs_q s))" using r slot by (auto simp: ring_inv_def)
  show "slot = H mod N" "Suc H < CT + N" using r by auto
qed

lemma p_commit_rel:
  assumes rel: "ring_sys_rel N s H T CH CT" and pc: "rs_prod s = P_written v"
  shows "ring_sys_rel N (s\<lparr>rs_q := commit (rs_q s), rs_prod := P_idle,
    rs_heads := rs_heads s @ [q_head (commit (rs_q s))], rs_pushed := rs_pushed s @ [v]\<rparr>) (Suc H) T CH CT"
proof -
  note r = rel [unfolded ring_sys_rel_def]
  have "q_next (rs_q s) (H mod N) = Suc H mod N" using ring_next r by blast
  then have head: "q_head (commit (rs_q s)) = Suc H mod N" using r by (simp add: commit_def ring_inv_def)
  have inv: "ring_inv N (commit (rs_q s)) (Suc H) T CH CT"
    using r pc head by (auto simp: ring_inv_def commit_def prod_ok_def Let_def)
  have "cons_ok N T CH (rs_pushed s @ [v]) (rs_cons s)"
    using r by (auto simp: cons_ok_def ring_inv_def nth_append split: cons_pc.splits)
  moreover have "q_buf (commit (rs_q s)) = q_buf (rs_q s)" by (simp add: commit_def Let_def)
  moreover have "T \<le> H" using r by (simp add: ring_inv_def)
  ultimately show ?thesis
    using r inv pc head mod_seq_Suc [of N H] by (simp add: ring_sys_rel_def written_def prod_ok_def)
qed

lemma c_take_rel:
  assumes rel: "ring_sys_rel N s H T CH CT" and pc: "rs_cons s = C_checked slot"
  shows "\<exists>q. take_slot slot (rs_q s) = Inr (rs_pushed s ! T, q)
    \<and> ring_sys_rel N (s\<lparr>rs_q := q, rs_cons := C_taken slot (rs_pushed s ! T)\<rparr>) H T CH CT"
    "slot = T mod N" "T < CH"
proof -
  note r = rel [unfolded ring_sys_rel_def]
  show slot: "slot = T mod N" and T: "T < CH" using r pc by (auto simp: cons_ok_def)
  have TH: "T < H" using T r by (auto simp: ring_inv_def)
  have f: "filled N (q_buf (rs_q s)) (rs_pushed s @ written (rs_prod s)) T (H + length (written (rs_prod s)))"
    using r pc by (simp add: taken_def)
  have "T < H + length (written (rs_prod s))" using TH by simp
  note ft = filled_take [OF f this]
  have val: "(rs_pushed s @ written (rs_prod s)) ! T = rs_pushed s ! T" using TH r by (simp add: nth_append)
  show "\<exists>q. take_slot slot (rs_q s) = Inr (rs_pushed s ! T, q)
    \<and> ring_sys_rel N (s\<lparr>rs_q := q, rs_cons := C_taken slot (rs_pushed s ! T)\<rparr>) H T CH CT"
    using ft r pc slot T val
    by (auto simp: take_slot_def ring_sys_rel_def taken_def cons_ok_def ring_inv_def)
qed

lemma c_advance_rel:
  assumes rel: "ring_sys_rel N s H T CH CT" and pc: "rs_cons s = C_taken slot v"
  shows "ring_sys_rel N (s\<lparr>rs_q := advance_tail slot (rs_q s), rs_cons := C_idle,
    rs_tails := rs_tails s @ [q_tail (advance_tail slot (rs_q s))], rs_popped := rs_popped s @ [v]\<rparr>) H (Suc T) CH CT"
proof -
  note r = rel [unfolded ring_sys_rel_def]
  have slot: "slot = T mod N" "T < CH" "v = rs_pushed s ! T" using r pc by (auto simp: cons_ok_def)
  have "q_next (rs_q s) (T mod N) = Suc T mod N" using ring_next r by blast
  then have tail: "q_tail (advance_tail slot (rs_q s)) = Suc T mod N" by (simp add: advance_tail_def slot)
  have inv: "ring_inv N (advance_tail slot (rs_q s)) H (Suc T) CH CT"
    using r tail slot by (auto simp: ring_inv_def advance_tail_def)
  have "T < length (rs_pushed s)" using slot r by (auto simp: ring_inv_def)
  then show ?thesis
    using r inv pc tail slot mod_seq_Suc [of N T]
    by (simp add: ring_sys_rel_def taken_def cons_ok_def advance_tail_def take_Suc_conv_app_nth)
qed

lemma ring_step_rel:
  assumes "ring_step s s'" "ring_sys_rel N s H T CH CT"
  shows "\<exists>H T CH CT. ring_sys_rel N s' H T CH CT"
  using assms(1)
proof (cases rule: ring_step.cases)
  case (p_reserve j slot q v)
  from p_reserve_rel [OF assms(2) p_reserve(2-5), of v] p_reserve(1)
  have "\<exists>CT'. ring_sys_rel N s' H T CH CT'" by (simp split del: if_split)
  then show ?thesis by blast
next
  case (p_full j q)
  from p_reserve_rel [OF assms(2) p_full(2-5)] p_full(1) assms(2) have "ring_sys_rel N s' H T CH CT" by simp
  then show ?thesis by blast
next
  case (p_write slot v)
  from p_write_rel(1) [OF assms(2) p_write(2)] p_write(1) show ?thesis by blast
next
  case (p_commit v q)
  from p_commit_rel [OF assms(2) p_commit(2)] p_commit show ?thesis by blast
next
  case (c_check j q)
  from c_check_rel [OF assms(2) c_check(2-5)] c_check(1)
  have "\<exists>CH'. ring_sys_rel N s' H T CH' CT" by (simp split del: if_split)
  then show ?thesis by blast
next
  case (c_empty j q)
  from c_check_rel [OF assms(2) c_empty(2-5)] c_empty(1) assms(2) have "ring_sys_rel N s' H T CH CT" by simp
  then show ?thesis by blast
next
  case (c_take slot v q)
  from c_take_rel(1) [OF assms(2) c_take(2)] c_take have "ring_sys_rel N s' H T CH CT" by auto
  then show ?thesis by blast
next
  case (c_advance slot v q)
  from c_advance_rel [OF assms(2) c_advance(2)] c_advance show ?thesis by blast
qed

lemma ring_reach_rel:
  assumes "ring_step\<^sup>*\<^sup>* (ring_start N) s" "N = 2 ^ c"
  shows "\<exists>H T CH CT. ring_sys_rel N s H T CH CT"
  using assms(1)
proof (induction rule: rtranclp_induct)
  case base
  then show ?case using ring_start_rel [OF assms(2)] by blast
next
  case (step y z)
  then show ?case using ring_step_rel by blast
qed

subsection \<open>The contract of a bounded queue\<close>

text \<open>
  What one thread that calls both ends sees: a first-in first-out queue of at most \<open>cap\<close>
  elements whose operations always return.
\<close>

locale bounded_queue =
  fixes holds :: "'q \<Rightarrow> 'a list \<Rightarrow> bool"
    and cap :: nat
    and enq :: "'a \<Rightarrow> 'q \<Rightarrow> bool \<times> 'q"
    and deq :: "'q \<Rightarrow> ('a option \<times> 'q) res"
  assumes holds_cap: "holds q xs \<Longrightarrow> length xs \<le> cap"
    and enq_room: "holds q xs \<Longrightarrow> length xs < cap \<Longrightarrow> \<exists>q'. enq v q = (True, q') \<and> holds q' (xs @ [v])"
    and enq_full: "holds q xs \<Longrightarrow> length xs = cap \<Longrightarrow> \<exists>q'. enq v q = (False, q') \<and> holds q' xs"
    and deq_some: "holds q (x # xs) \<Longrightarrow> \<exists>q'. deq q = Inr (Some x, q') \<and> holds q' xs"
    and deq_none: "holds q [] \<Longrightarrow> \<exists>q'. deq q = Inr (None, q') \<and> holds q' []"

datatype 'a queue_op = Enq 'a | Deq

text \<open>Answers: \<open>Inl\<close> of an enqueue, \<open>Inr\<close> of a dequeue.\<close>

fun run_queue :: "('a \<Rightarrow> 'q \<Rightarrow> bool \<times> 'q) \<Rightarrow> ('q \<Rightarrow> ('a option \<times> 'q) res) \<Rightarrow> 'a queue_op list \<Rightarrow> 'q \<Rightarrow>
    ((bool + 'a option) list \<times> 'q) res" where
  "run_queue enq deq [] q = Inr ([], q)"
| "run_queue enq deq (Enq v # ops) q =
     (case enq v q of (b, q) \<Rightarrow> bind_res (run_queue enq deq ops q) (\<lambda>(outs, q). Inr (Inl b # outs, q)))"
| "run_queue enq deq (Deq # ops) q =
     bind_res (deq q) (\<lambda>(r, q). bind_res (run_queue enq deq ops q) (\<lambda>(outs, q). Inr (Inr r # outs, q)))"

fun spec_queue_run :: "nat \<Rightarrow> 'a queue_op list \<Rightarrow> 'a list \<Rightarrow> (bool + 'a option) list \<times> 'a list" where
  "spec_queue_run cap [] xs = ([], xs)"
| "spec_queue_run cap (Enq v # ops) xs =
     (let b = (length xs < cap); (outs, ys) = spec_queue_run cap ops (if b then xs @ [v] else xs)
      in (Inl b # outs, ys))"
| "spec_queue_run cap (Deq # ops) xs =
     (let (outs, ys) = spec_queue_run cap ops (tl xs)
      in (Inr (case xs of [] \<Rightarrow> None | x # _ \<Rightarrow> Some x) # outs, ys))"

context bounded_queue
begin

lemma run_queue_refines:
  assumes "holds q xs"
  shows "\<exists>q'. run_queue enq deq ops q = Inr (fst (spec_queue_run cap ops xs), q')
    \<and> holds q' (snd (spec_queue_run cap ops xs))"
  using assms
proof (induction ops arbitrary: q xs)
  case Nil
  then show ?case by simp
next
  case (Cons oper ops)
  show ?case
  proof (cases oper)
    case (Enq v)
    obtain q' where q': "enq v q = (length xs < cap, q')" "holds q' (if length xs < cap then xs @ [v] else xs)"
      using enq_room [OF Cons.prems, of v] enq_full [OF Cons.prems, of v] holds_cap [OF Cons.prems]
      by (cases "length xs < cap") auto
    from Cons.IH [OF q'(2)] q'(1) show ?thesis
      by (auto simp: Enq Let_def split: prod.splits split del: if_split)
  next
    case Deq
    obtain q' where q': "deq q = Inr (case xs of [] \<Rightarrow> None | x # _ \<Rightarrow> Some x, q')" "holds q' (tl xs)"
      using deq_some [of q] deq_none [of q] Cons.prems by (cases xs) fastforce+
    from Cons.IH [OF q'(2)] q'(1) show ?thesis
      by (auto simp: Deq split: prod.splits)
  qed
qed

end

text \<open>A ring used by one thread.\<close>

definition ring_holds :: "nat \<Rightarrow> 'a spsc \<Rightarrow> 'a list \<Rightarrow> bool" where
  "ring_holds N q xs \<longleftrightarrow> (\<exists>H T CH CT P. ring_inv N q H T CH CT \<and> length P = H
     \<and> filled N (q_buf q) P T H \<and> xs = drop T P)"

lemma ring_holdsI:
  "ring_inv N q H T CH CT \<Longrightarrow> length P = H \<Longrightarrow> filled N (q_buf q) P T H \<Longrightarrow> ring_holds N q (drop T P)"
  unfolding ring_holds_def by blast

lemma SPSCQueue_holds: "N = 2 ^ c \<Longrightarrow> ring_holds N (SPSCQueue N) []"
  using ring_holdsI [of N "SPSCQueue N" 0 0 0 0 "[]"]
  by (auto simp: ring_inv_def SPSCQueue_def filled_def)

lemma push_spec:
  assumes "ring_holds N q xs"
  shows "if Suc (length xs) < N then \<exists>q'. push (q_tail q) v q = (True, q') \<and> ring_holds N q' (xs @ [v])
    else push (q_tail q) v q = (False, q) \<and> Suc (length xs) = N"
proof -
  obtain H T CH CT P where r: "ring_inv N q H T CH CT" "length P = H" "filled N (q_buf q) P T H" "xs = drop T P"
    using assms by (auto simp: ring_holds_def)
  have le: "CT \<le> T" "T \<le> H" "q_tail q = T mod N" "q_head q = H mod N" using r(1) by (auto simp: ring_inv_def)
  have len: "length xs = H - T" using r(2,4) by simp
  have fa: "case full_at (q_tail q) (q_head q) q of (True, q') \<Rightarrow> q' = q \<and> Suc H = T + N
      | (False, q') \<Rightarrow> \<exists>CT'. ring_inv N q' H T CH CT' \<and> CT' = (if q' = q then CT else T)
        \<and> Suc H < CT' + N \<and> q_buf q' = q_buf q"
    using full_at_spec [OF r(1) le(1), of] le by simp
  show ?thesis
  proof (cases "full_at (q_tail q) (q_head q) q")
    case (Pair full q1)
    show ?thesis
    proof (cases full)
      case True
      with fa Pair le len show ?thesis by (auto simp: push_def try_reserve_def)
    next
      case False
      with fa Pair obtain CT' where q1: "ring_inv N q1 H T CH CT'" "Suc H < CT' + N" "q_buf q1 = q_buf q" by auto
      let ?q = "commit (write_slot (H mod N) v q1)"
      have T': "CT' \<le> T" using q1(1) by (simp add: ring_inv_def)
      have "H < T + N" using q1(2) T' by simp
      note fw = filled_write(1) [OF r(3,2) this, of v]
      have w: "ring_inv N (write_slot (H mod N) v q1) H T CH CT'"
        using q1(1) by (simp add: ring_inv_def write_slot_def)
      then have "ring_inv N ?q (Suc H) T CH CT'"
        using ring_next [OF w, of H] q1(2) by (auto simp: ring_inv_def commit_def Let_def q_next_def)
      moreover have "q_buf ?q = (q_buf q)[H mod N := Some v]"
        using q1(3) by (simp add: commit_def write_slot_def Let_def)
      ultimately have "ring_holds N ?q (drop T (P @ [v]))"
        using fw r(2) by (intro ring_holdsI) auto
      then have "ring_holds N ?q (xs @ [v])" using r(2,4) le(2) by simp
      moreover have "push (q_tail q) v q = (True, ?q)"
        using Pair False le by (simp add: push_def try_reserve_def)
      moreover have "Suc (length xs) < N" using q1(2) T' len le(2) by linarith
      ultimately show ?thesis by simp
    qed
  qed
qed

lemma pop_spec:
  assumes "ring_holds N q xs"
  shows "case xs of [] \<Rightarrow> pop (q_head q) q = Inr (None, q)
    | x # xs' \<Rightarrow> \<exists>q'. pop (q_head q) q = Inr (Some x, q') \<and> ring_holds N q' xs'"
proof -
  obtain H T CH CT P where r: "ring_inv N q H T CH CT" "length P = H" "filled N (q_buf q) P T H" "xs = drop T P"
    using assms by (auto simp: ring_holds_def)
  have le: "CH \<le> H" "T \<le> H" "q_tail q = T mod N" "q_head q = H mod N" using r(1) by (auto simp: ring_inv_def)
  have ea: "case empty_at (q_head q) (q_tail q) q of (True, q') \<Rightarrow> q' = q \<and> H = T
      | (False, q') \<Rightarrow> \<exists>CH'. ring_inv N q' H T CH' CT \<and> CH' = (if q' = q then CH else H)
        \<and> T < CH' \<and> q_buf q' = q_buf q"
    using empty_at_spec [OF r(1) le(1)] le by simp
  show ?thesis
  proof (cases "empty_at (q_head q) (q_tail q) q")
    case (Pair none q1)
    show ?thesis
    proof (cases none)
      case True
      with ea Pair r(2,4) show ?thesis by (simp add: pop_def)
    next
      case False
      with ea Pair obtain CH' where q1: "ring_inv N q1 H T CH' CT" "T < CH'" "q_buf q1 = q_buf q" by auto
      have TH: "T < H" using q1 by (simp add: ring_inv_def)
      note ft = filled_take [OF r(3) TH]
      let ?q = "advance_tail (T mod N) (q1\<lparr>q_buf := (q_buf q1)[T mod N := None]\<rparr>)"
      have w: "ring_inv N (q1\<lparr>q_buf := (q_buf q1)[T mod N := None]\<rparr>) H T CH' CT"
        using q1(1) by (simp add: ring_inv_def)
      then have "ring_inv N ?q H (Suc T) CH' CT"
        using ring_next [OF w, of T] q1(2) by (auto simp: ring_inv_def advance_tail_def)
      then have "ring_holds N ?q (drop (Suc T) P)"
        using ft(1) r(2) q1(3) by (intro ring_holdsI) (auto simp: advance_tail_def)
      moreover have "xs = P ! T # drop (Suc T) P" using r(2,4) TH by (simp add: Cons_nth_drop_Suc)
      moreover have "pop (q_head q) q = Inr (Some (P ! T), ?q)"
        using Pair False le ft q1(3) by (simp add: pop_def take_slot_def Let_def)
      ultimately show ?thesis by simp
    qed
  qed
qed

interpretation ring: bounded_queue "ring_holds (2 ^ c)" "2 ^ c - 1" "\<lambda>v q. push (q_tail q) v q"
  "\<lambda>q. pop (q_head q) q" for c
proof unfold_locales
  fix q :: "'a spsc" and xs v x assume h: "ring_holds (2 ^ c) q xs"
  show "length xs \<le> 2 ^ c - 1"
    using push_spec [OF h, of v] by (auto split: if_splits)
  show "\<exists>q'. push (q_tail q) v q = (True, q') \<and> ring_holds (2 ^ c) q' (xs @ [v])" if "length xs < 2 ^ c - 1"
    using push_spec [OF h, of v] that by (simp split: if_splits)
  show "\<exists>q'. push (q_tail q) v q = (False, q') \<and> ring_holds (2 ^ c) q' xs" if "length xs = 2 ^ c - 1"
    using push_spec [OF h, of v] that h by (simp split: if_splits)
next
  fix q :: "'a spsc" and x xs assume "ring_holds (2 ^ c) q (x # xs)"
  from pop_spec [OF this] show "\<exists>q'. pop (q_head q) q = Inr (Some x, q') \<and> ring_holds (2 ^ c) q' xs" by simp
next
  fix q :: "'a spsc" assume h: "ring_holds (2 ^ c) q []"
  from pop_spec [OF h] h show "\<exists>q'. pop (q_head q) q = Inr (None, q') \<and> ring_holds (2 ^ c) q' []" by simp
qed

text \<open>The destructor's loop.\<close>

lemma destroy_loop_spec:
  assumes "ring_inv N q H T0 CH CT" "filled N (q_buf q) P T H" "H < T + N"
  shows "\<exists>q'. destroy_loop (T mod N) (H mod N) q = Some (Inr q') \<and> q_buf q' = replicate N None"
  using assms
proof (induction "H - T" arbitrary: T q)
  case 0
  then have "T = H" by (simp add: filled_def)
  moreover have "q_buf q ! i = None" if "i < N" for i
  proof -
    have "\<exists>k. H \<le> k \<and> k < H + N \<and> k mod N = i"
    proof -
      have "H mod N < N" using that by simp
      have "(H + (i + N - H mod N) mod N) mod N = (H mod N + (i + N - H mod N)) mod N"
        by (simp add: mod_add_left_eq mod_add_right_eq)
      also have "H mod N + (i + N - H mod N) = i + N" using \<open>H mod N < N\<close> by linarith
      also have "(i + N) mod N = i" using that by simp
      finally show ?thesis using that by (intro exI [of _ "H + (i + N - H mod N) mod N"]) auto
    qed
    then obtain k where "H \<le> k" "k < H + N" "k mod N = i" by blast
    then show ?thesis using 0(3) \<open>T = H\<close> by (auto simp: filled_def)
  qed
  then have "q_buf q = replicate N None"
    using 0(3) by (intro nth_equalityI) (auto simp: filled_def)
  ultimately show ?case by (subst destroy_loop.simps) auto
next
  case (Suc d)
  then have TH: "T < H" by simp
  note ft = filled_take [OF Suc.prems(2) TH]
  let ?q = "q\<lparr>q_buf := (q_buf q)[T mod N := None]\<rparr>"
  have inv: "ring_inv N ?q H T0 CH CT" using Suc.prems(1) by (simp add: ring_inv_def)
  have ne: "T mod N \<noteq> H mod N" using mod_window [of T H N] TH Suc.prems(3) by simp
  have "take_slot (T mod N) q = Inr (P ! T, ?q)" using ft by (simp add: take_slot_def)
  then have "destroy_loop (T mod N) (H mod N) q = destroy_loop (Suc T mod N) (H mod N) ?q"
    using ne ring_next [OF inv, of T] by (subst destroy_loop.simps) simp
  with Suc.hyps(1) [of "Suc T" ?q] Suc.hyps(2) inv ft(1) Suc.prems(3) show ?case by simp
qed

text \<open>A new ring holds nothing.\<close>

lemma SPSCQueue_holds_nothing:
  fixes xs :: "'a list"
  assumes "ring_holds N (SPSCQueue N) xs" "0 < N"
  shows "xs = []"
proof (rule ccontr)
  assume "xs \<noteq> []"
  obtain H T P where r: "length P = H" "filled N (q_buf (SPSCQueue N)) (P :: 'a list) T H" "xs = drop T P"
    using assms(1) unfolding ring_holds_def by blast
  then have "T < H" using \<open>xs \<noteq> []\<close> by simp
  from filled_take [OF r(2) this] have "q_buf (SPSCQueue N :: 'a spsc) ! (T mod N) = Some (P ! T)" "T mod N < N" using assms(2) by simp_all
  then show False by (simp add: SPSCQueue_def)
qed

subsection \<open>Properties\<close>

text \<open>
  C9. Between two threads the ring is a lossless first-in first-out channel: in every state
  that any interleaving of the producer's and the consumer's memory accesses reaches, with
  index loads as stale as the memory model allows, the values taken out are a prefix of the
  values put in, and at most \<open>N - 1\<close> values are in between.
\<close>

theorem ring_fifo:
  assumes "ring_step\<^sup>*\<^sup>* (ring_start N) s" "N = 2 ^ c"
  shows "rs_popped s = take (length (rs_popped s)) (rs_pushed s)
    \<and> length (rs_popped s) \<le> length (rs_pushed s)
    \<and> length (rs_pushed s) - length (rs_popped s) < N"
proof -
  obtain H T CH CT where "ring_sys_rel N s H T CH CT" using ring_reach_rel [OF assms] by blast
  then show ?thesis by (auto simp: ring_sys_rel_def ring_inv_def)
qed

text \<open>
  C25. The two threads never touch the same slot at the same time: while the producer holds a
  reserved slot, that slot is raw memory inside the buffer and is not the slot the consumer is
  reading, and the slot the consumer found holds an object, so taking it never fails.
\<close>

theorem ring_race_free:
  assumes "ring_step\<^sup>*\<^sup>* (ring_start N) s" "N = 2 ^ c"
  shows "(\<forall>slot v. rs_prod s = P_reserved slot v \<longrightarrow> slot < N \<and> q_buf (rs_q s) ! slot = None
        \<and> (\<forall>slot' v'. rs_cons s = C_checked slot' \<or> rs_cons s = C_taken slot' v' \<longrightarrow> slot' \<noteq> slot))
    \<and> (\<forall>slot. rs_cons s = C_checked slot \<longrightarrow> (\<exists>v q. take_slot slot (rs_q s) = Inr (v, q)))"
proof -
  obtain H T CH CT where rel: "ring_sys_rel N s H T CH CT" using ring_reach_rel [OF assms] by blast
  note r = rel [unfolded ring_sys_rel_def]
  have apart: "T mod N \<noteq> H mod N" if "Suc H < CT + N" "T < CH"
  proof -
    have "T < H" "H < T + N" using r that by (auto simp: ring_inv_def)
    then show ?thesis using mod_window [of T H N] by simp
  qed
  have len: "length (q_buf (rs_q s)) = N" using r by (simp add: ring_inv_def)
  have "slot' \<noteq> slot" if "rs_prod s = P_reserved slot v"
    "rs_cons s = C_checked slot' \<or> rs_cons s = C_taken slot' v'" for slot v slot' v'
    using p_write_rel(4,5) [OF rel that(1)] that(2) apart r by (auto simp: cons_ok_def)
  with p_write_rel(2,3) [OF rel] c_take_rel(1) [OF rel] len show ?thesis by metis
qed

text \<open>
  Called from one thread, the ring is a bounded queue of capacity \<open>N - 1\<close>: over any
  sequence of pushes and pops, a push succeeds exactly when fewer than \<open>N - 1\<close> values are
  held, a pop returns the oldest value or nothing, and no access fails.
\<close>

lemma ring_bounded_queue:
  "\<exists>q. run_queue (\<lambda>v q. push (q_tail q) v q) (\<lambda>q. pop (q_head q) q) ops (SPSCQueue (2 ^ c))
     = Inr (fst (spec_queue_run (2 ^ c - 1) ops []), q)"
  using ring.run_queue_refines [OF SPSCQueue_holds [OF refl], of ops c] by blast

text \<open>
  Destroying a ring ends and destroys every object left in it, each once.
\<close>

lemma ring_destroy:
  assumes "ring_step\<^sup>*\<^sup>* (ring_start N) s" "N = 2 ^ c" "rs_prod s = P_idle" "rs_cons s = C_idle"
  shows "\<exists>q. SPSCQueue_destroy (rs_q s) = Some (Inr q) \<and> q_buf q = replicate N None"
proof -
  obtain H T CH CT where "ring_sys_rel N s H T CH CT" using ring_reach_rel [OF assms(1,2)] by blast
  then have "ring_inv N (rs_q s) H T CH CT" "filled N (q_buf (rs_q s)) (rs_pushed s) T H"
    using assms(3,4) by (simp_all add: ring_sys_rel_def written_def taken_def)
  moreover from this(1) have "H < T + N" "q_tail (rs_q s) = T mod N" "q_head (rs_q s) = H mod N"
    by (auto simp: ring_inv_def)
  ultimately show ?thesis using destroy_loop_spec by (auto simp: SPSCQueue_destroy_def)
qed

text \<open>
  A run on a ring of four slots: 7 is pushed; while the producer has reserved the slot of 8 the consumer finds 7;
  then 8 is committed and 7 taken out.
\<close>

definition ring_of :: "nat option list \<Rightarrow> nat \<Rightarrow> nat \<Rightarrow> nat \<Rightarrow> nat spsc" where
  "ring_of buf head tail cached_head = \<lparr>q_buf = buf, q_head = head, q_cached_tail = 0, q_tail = tail, q_cached_head = cached_head\<rparr>"

definition sample_reserved :: "nat ring_sys" where
  "sample_reserved = \<lparr>rs_q = ring_of [Some 7, None, None, None] 1 0 1, rs_prod = P_reserved 1 8, rs_cons = C_checked 0, rs_heads = [0, 1],
     rs_tails = [0], rs_seen_head = 1, rs_seen_tail = 0, rs_pushed = [7], rs_popped = []\<rparr>"

definition sample_popped :: "nat ring_sys" where
  "sample_popped = \<lparr>rs_q = ring_of [None, Some 8, None, None] 2 1 1, rs_prod = P_idle, rs_cons = C_idle, rs_heads = [0, 1, 2],
     rs_tails = [0, 1], rs_seen_head = 1, rs_seen_tail = 0, rs_pushed = [7, 8], rs_popped = [7]\<rparr>"

lemma two_and_three: "Suc (Suc 0) AND Suc (Suc (Suc 0)) = 2"
  by (simp flip: numeral_2_eq_2 numeral_3_eq_3)

lemmas ring_ops = two_and_three ring_of_def try_reserve_def full_at_def empty_at_def write_slot_def commit_def take_slot_def advance_tail_def q_next_def Let_def

lemma ring_steps: "ring_step\<^sup>*\<^sup>* a s \<Longrightarrow> ring_step s s' \<Longrightarrow> ring_step\<^sup>*\<^sup>* a s'"
  by (rule rtranclp.rtrancl_into_rtrancl)

lemma sample_reserved_reached: "ring_step\<^sup>*\<^sup>* (ring_start 4) sample_reserved"
proof -
  let ?s0 = "\<lparr>rs_q = ring_of [None, None, None, None] 0 0 0, rs_prod = P_idle, rs_cons = C_idle, rs_heads = [0], rs_tails = [0],
     rs_seen_head = 0, rs_seen_tail = 0, rs_pushed = [], rs_popped = []\<rparr>"
  let ?s1 = "?s0\<lparr>rs_prod := P_reserved 0 7\<rparr>"
  let ?s2 = "?s0\<lparr>rs_q := ring_of [Some 7, None, None, None] 0 0 0, rs_prod := P_written 7\<rparr>"
  let ?s3 = "?s0\<lparr>rs_q := ring_of [Some 7, None, None, None] 1 0 0, rs_heads := [0, 1], rs_pushed := [7]\<rparr>"
  let ?s4 = "?s3\<lparr>rs_prod := P_reserved 1 8\<rparr>"
  have start: "ring_start 4 = ?s0" by (simp add: ring_start_def SPSCQueue_def ring_of_def eval_nat_numeral)
  have r1: "ring_step ?s0 ?s1" using ring_step.p_reserve [of ?s0 0 0 "rs_q ?s0" 7] by (simp add: ring_ops)
  have r2: "ring_step ?s1 ?s2" using ring_step.p_write [of ?s1 0 7] by (simp add: ring_ops)
  have r3: "ring_step ?s2 ?s3" using ring_step.p_commit [of ?s2 7 "rs_q ?s3"] by (simp add: ring_ops)
  have r4: "ring_step ?s3 ?s4" using ring_step.p_reserve [of ?s3 0 1 "rs_q ?s3" 8] by (simp add: ring_ops)
  have r5: "ring_step ?s4 sample_reserved" using ring_step.c_check [of ?s4 1 "rs_q sample_reserved"] by (simp add: ring_ops sample_reserved_def)
  show ?thesis unfolding start
    by (rule ring_steps [OF ring_steps [OF ring_steps [OF ring_steps [OF ring_steps [OF rtranclp.rtrancl_refl r1] r2] r3] r4] r5])
qed

lemma sample_popped_reached: "ring_step\<^sup>*\<^sup>* (ring_start 4) sample_popped"
proof -
  let ?s1 = "sample_reserved\<lparr>rs_q := ring_of [Some 7, Some 8, None, None] 1 0 1, rs_prod := P_written 8\<rparr>"
  let ?s2 = "sample_reserved\<lparr>rs_q := ring_of [Some 7, Some 8, None, None] 2 0 1, rs_prod := P_idle, rs_heads := [0, 1, 2], rs_pushed := [7, 8]\<rparr>"
  let ?s3 = "?s2\<lparr>rs_q := ring_of [None, Some 8, None, None] 2 0 1, rs_cons := C_taken 0 7\<rparr>"
  have r1: "ring_step sample_reserved ?s1" using ring_step.p_write [of sample_reserved 1 8] by (simp add: ring_ops sample_reserved_def)
  have r2: "ring_step ?s1 ?s2" using ring_step.p_commit [of ?s1 8 "rs_q ?s2"] by (simp add: ring_ops sample_reserved_def)
  have r3: "ring_step ?s2 ?s3" using ring_step.c_take [of ?s2 0 7 "rs_q ?s3"] by (simp add: ring_ops sample_reserved_def)
  have r4: "ring_step ?s3 sample_popped" using ring_step.c_advance [of ?s3 0 7 "rs_q sample_popped"]
    by (simp add: ring_ops sample_reserved_def sample_popped_def)
  show ?thesis
    by (rule ring_steps [OF ring_steps [OF ring_steps [OF ring_steps [OF sample_reserved_reached r1] r2] r3] r4])
qed

theorem ring_fifo_witness:
  "ring_step\<^sup>*\<^sup>* (ring_start 4) sample_popped \<and> rs_pushed sample_popped = [7, 8] \<and> rs_popped sample_popped = [7]
   \<and> rs_popped sample_popped = take (length (rs_popped sample_popped)) (rs_pushed sample_popped)
   \<and> length (rs_pushed sample_popped) - length (rs_popped sample_popped) < 4"
  using ring_fifo [OF sample_popped_reached, of 2] sample_popped_reached by (simp add: sample_popped_def)

theorem ring_race_free_witness:
  "ring_step\<^sup>*\<^sup>* (ring_start 4) sample_reserved \<and> rs_prod sample_reserved = P_reserved 1 8 \<and> rs_cons sample_reserved = C_checked 0
   \<and> q_buf (rs_q sample_reserved) ! 1 = None \<and> (\<exists>v q. take_slot 0 (rs_q sample_reserved) = Inr (v, q))"
proof -
  have s: "rs_prod sample_reserved = P_reserved 1 8" "rs_cons sample_reserved = C_checked 0" by (simp_all add: sample_reserved_def)
  show ?thesis using ring_race_free [OF sample_reserved_reached, of 2] sample_reserved_reached s by simp
qed

lemma ring_destroy_witness:
  "\<exists>q. SPSCQueue_destroy (rs_q (ring_start 4 :: nat ring_sys)) = Some (Inr q) \<and> q_buf q = replicate 4 None"
proof -
  have idle: "rs_prod (ring_start 4 :: nat ring_sys) = P_idle" "rs_cons (ring_start 4 :: nat ring_sys) = C_idle"
    by (simp_all add: ring_start_def)
  show ?thesis by (rule ring_destroy [OF rtranclp.rtrancl_refl _ idle, of 2]) simp
qed

end
