(* ===== verification/Profiling.thy ===== *)
theory Profiling
  imports Fastbook_Prelude
begin

section \<open>Latency histogram (src/common/profiling.hpp)\<close>

text \<open>
  The histogram of cycle counts: values below 16 have a bucket each, larger ones share buckets
  of four significant bits behind the leading one, values of \<open>2^32\<close> and more go to one overflow
  bucket. Indices into the array of buckets are checked by the model.
\<close>

subsection \<open>State and operations\<close>

definition ACCURACY_BITS :: nat where "ACCURACY_BITS = 4"

definition RANGE_BITS :: nat where "RANGE_BITS = 32"

definition SLICE_MASK :: nat where "SLICE_MASK = push_bit ACCURACY_BITS 1 - 1"

definition EXACT_LIMIT :: u64 where "EXACT_LIMIT = push_bit ACCURACY_BITS 1"

definition VALUE_LIMIT :: u64 where "VALUE_LIMIT = push_bit RANGE_BITS 1"

definition MIN_BUCKETS :: nat where "MIN_BUCKETS = unat EXACT_LIMIT"

definition MAX_BUCKETS :: nat where "MAX_BUCKETS = push_bit ACCURACY_BITS (RANGE_BITS - ACCURACY_BITS + 1)"

record histogram =
  h_samples :: "u64 list"
  h_total_samples :: u64
  h_min_value :: u64
  h_max_value :: u64

definition Histogram_init :: histogram where
  "Histogram_init = \<lparr>h_samples = replicate (MAX_BUCKETS + 1) 0, h_total_samples = 0, h_min_value = - 1, h_max_value = 0\<rparr>"

text \<open>\<open>std::bit_width\<close>.\<close>

fun bit_width :: "nat \<Rightarrow> nat" where
  "bit_width n = (if n = 0 then 0 else Suc (bit_width (n div 2)))"

declare bit_width.simps [simp del]

definition value_to_bucket :: "u64 \<Rightarrow> nat" where
  "value_to_bucket value =
     (if value < EXACT_LIMIT then unat value
      else if value < VALUE_LIMIT then
        let range_bit = bit_width (unat value) - 1;
            d = range_bit - ACCURACY_BITS;
            pos_in_range = drop_bit d value;
            group = push_bit ACCURACY_BITS d
        in group + unat pos_in_range
      else MAX_BUCKETS)"

definition bucket_to_value :: "nat \<Rightarrow> u64" where
  "bucket_to_value bucket =
     (if bucket < MIN_BUCKETS then word_of_nat bucket
      else if bucket < MAX_BUCKETS then
        let slice = bucket AND SLICE_MASK;
            d = drop_bit ACCURACY_BITS bucket - 1;
            kept = word_of_nat (push_bit ACCURACY_BITS 1 + slice) :: u64;
            bucket_max_width = push_bit d 1 :: u64;
            value_min = push_bit d kept
        in value_min + bucket_max_width - 1
      else VALUE_LIMIT)"

text \<open>The result of \<open>percentile\<close>: infinity, a value, or zero when the threshold is never met.\<close>

datatype percentile_result = Infinity | Value u64 | Zero

fun percentile_loop :: "histogram \<Rightarrow> u64 \<Rightarrow> u64 \<Rightarrow> nat \<Rightarrow> u64 list \<Rightarrow> percentile_result" where
  "percentile_loop h threshold samples_s i [] = Zero"
| "percentile_loop h threshold samples_s i (n # ns) =
     (let samples_s = samples_s + n in
      if samples_s \<ge> threshold
      then if i = MAX_BUCKETS then Infinity else Value (min (bucket_to_value i) (h_max_value h))
      else percentile_loop h threshold samples_s (i + 1) ns)"

text \<open>\<open>per_100k\<close> is the template parameter in units of \<open>10^-5\<close>.\<close>

definition percentile_threshold :: "u64 \<Rightarrow> histogram \<Rightarrow> u64" where
  "percentile_threshold per_100k h = max ((h_total_samples h * per_100k + 99999) div 100000) 1"

definition percentile :: "u64 \<Rightarrow> histogram \<Rightarrow> percentile_result" where
  "percentile per_100k h = percentile_loop h (percentile_threshold per_100k h) 0 0 (h_samples h)"

definition hist_count :: "histogram \<Rightarrow> u64" where "hist_count h = h_total_samples h"

definition hist_max :: "histogram \<Rightarrow> u64" where "hist_max h = h_max_value h"

definition hist_merge :: "histogram \<Rightarrow> histogram \<Rightarrow> histogram" where
  "hist_merge h other = \<lparr>h_samples = map2 (+) (h_samples h) (h_samples other),
     h_total_samples = h_total_samples h + h_total_samples other,
     h_min_value = min (h_min_value h) (h_min_value other),
     h_max_value = max (h_max_value h) (h_max_value other)\<rparr>"

definition hist_record :: "u64 \<Rightarrow> histogram \<Rightarrow> histogram res" where
  "hist_record value h =
     (let b = value_to_bucket value in
      if length (h_samples h) \<le> b then Inl Bad_Access
      else Inr \<lparr>h_samples = (h_samples h)[b := h_samples h ! b + 1], h_total_samples = h_total_samples h + 1,
        h_min_value = min (h_min_value h) value, h_max_value = max (h_max_value h) value\<rparr>)"

subsection \<open>Buckets\<close>

lemma hist_consts [simp]: "ACCURACY_BITS = 4" "RANGE_BITS = 32" "SLICE_MASK = 15" "MIN_BUCKETS = 16" "MAX_BUCKETS = 464"
  "EXACT_LIMIT = 16" "VALUE_LIMIT = 0x100000000"
  by (simp_all add: ACCURACY_BITS_def RANGE_BITS_def SLICE_MASK_def MIN_BUCKETS_def EXACT_LIMIT_def VALUE_LIMIT_def MAX_BUCKETS_def)

lemma bit_width_bounds: "0 < n \<Longrightarrow> 2 ^ (bit_width n - 1) \<le> n \<and> n < 2 ^ bit_width n \<and> 0 < bit_width n"
proof (induction n rule: bit_width.induct)
  case (1 n)
  show ?case
  proof (cases "n = 1")
    case True
    then show ?thesis by (simp add: bit_width.simps)
  next
    case False
    with 1 have IH: "2 ^ (bit_width (n div 2) - 1) \<le> n div 2" "n div 2 < 2 ^ bit_width (n div 2)" "0 < bit_width (n div 2)"
      by auto
    then obtain k where k: "bit_width (n div 2) = Suc k" by (cases "bit_width (n div 2)") auto
    have "bit_width n = Suc (Suc k)" using k 1(2) by (simp add: bit_width.simps [of n])
    moreover have "2 ^ k \<le> n div 2" "n div 2 < 2 * 2 ^ k" using IH k by simp_all
    ultimately show ?thesis by (simp, linarith)
  qed
qed

text \<open>The bucket of a value between the limits, in natural numbers.\<close>

lemma value_to_bucket_mid:
  assumes "16 \<le> unat v" "unat v < 2 ^ 32"
  obtains d where "d < 28" "2 ^ (d + 4) \<le> unat v" "unat v < 2 ^ (d + 5)" "value_to_bucket v = 16 * d + unat v div 2 ^ d"
proof -
  define w where "w = bit_width (unat v)"
  have b: "2 ^ (w - 1) \<le> unat v" "unat v < 2 ^ w" "0 < w" using bit_width_bounds [of "unat v"] assms(1) by (simp_all add: w_def)
  have "5 \<le> w"
  proof (rule ccontr)
    assume "\<not> 5 \<le> w"
    then have "(2 :: nat) ^ w \<le> 2 ^ 4" by (intro power_increasing) auto
    with b(2) assms(1) show False by simp
  qed
  moreover have "w \<le> 32"
  proof (rule ccontr)
    assume "\<not> w \<le> 32"
    then have "(2 :: nat) ^ 32 \<le> 2 ^ (w - 1)" by (intro power_increasing) auto
    with b(1) assms(2) show False by simp
  qed
  ultimately have w: "w - 1 - 4 < 28" "w - 1 = (w - 1 - 4) + 4" "w = (w - 1 - 4) + 5" by simp_all
  define d where "d = w - 1 - 4"
  have "\<not> v < 16" "v < 0x100000000" using assms by (simp_all add: word_less_nat_alt)
  then have "value_to_bucket v = push_bit 4 d + unat (drop_bit d v)"
    by (simp add: value_to_bucket_def Let_def w_def d_def)
  also have "unat (drop_bit d v) = unat v div 2 ^ d"
    unfolding unsigned_drop_bit_eq using unsigned_less [where 'a = nat, of v]
    by (simp add: drop_bit_eq_div take_bit_nat_eq_self)
  finally have "value_to_bucket v = 16 * d + unat v div 2 ^ d" by (simp add: push_bit_eq_mult)
  then show ?thesis using that [of d] w b by (simp add: d_def)
qed

lemma mid_quotient:
  assumes "2 ^ (d + 4) \<le> (n :: nat)" "n < 2 ^ (d + 5)"
  shows "16 \<le> n div 2 ^ d" "n div 2 ^ d < 32"
proof -
  have "(2 :: nat) ^ (d + 4) = 16 * 2 ^ d" "(2 :: nat) ^ (d + 5) = 32 * 2 ^ d" by (simp_all add: power_add)
  with assms show "16 \<le> n div 2 ^ d" "n div 2 ^ d < 32"
    by (simp_all add: less_eq_div_iff_mult_less_eq div_less_iff_less_mult)
qed

lemma bucket_to_value_mid:
  assumes "d < 28" "16 \<le> q" "q < 32"
  shows "unat (bucket_to_value (16 * d + q)) = q * 2 ^ d + 2 ^ d - 1"
proof -
  let ?b = "16 * d + q"
  have "?b AND 15 = ?b mod 16" using and_mask_nat [of ?b 4] by simp
  moreover have split: "?b = (q - 16) + 16 * Suc d" "q - 16 < 16" using assms by simp_all
  ultimately have slice: "?b AND 15 = q - 16" by (metis mod_less mod_mult_self2)
  have "?b div 16 = Suc d" using split by (metis add.commute div_less div_mult_self2 plus_nat.add_0 zero_neq_numeral)
  then have shift: "drop_bit 4 ?b - 1 = d" by (simp add: drop_bit_eq_div)
  have "\<not> ?b < 16" "?b < 464" using assms by simp_all
  then have v: "bucket_to_value ?b = push_bit d (word_of_nat q) + push_bit d 1 - 1"
    using assms(2) slice shift by (simp add: bucket_to_value_def Let_def)
  have d: "(2 :: nat) ^ d \<le> 2 ^ 27" using assms(1) by (intro power_increasing) auto
  then have small: "q * 2 ^ d + 2 ^ d < (2 :: nat) ^ 64"
    using mult_mono [of q 32 "2 ^ d" "2 ^ 27 :: nat"] assms(3) by simp
  have "push_bit d (word_of_nat q) + push_bit d 1 - 1 = (word_of_nat (q * 2 ^ d + 2 ^ d - 1) :: u64)"
  proof -
    have "1 \<le> q * 2 ^ d + 2 ^ d" by (simp add: trans_le_add2)
    from of_nat_diff [OF this, where 'a = "64 word"] show ?thesis by (simp add: push_bit_eq_mult)
  qed
  then show ?thesis using v small by (simp add: unat_u64_of_nat)
qed

text \<open>A bucket's value is at least every value in it, by less than a sixteenth.\<close>

lemma bucket_accuracy:
  assumes "unat v < 2 ^ 32"
  shows "unat v \<le> unat (bucket_to_value (value_to_bucket v))
    \<and> unat (bucket_to_value (value_to_bucket v)) \<le> unat v + unat v div 16"
    and "value_to_bucket v < MAX_BUCKETS"
proof -
  have "(unat v \<le> unat (bucket_to_value (value_to_bucket v))
    \<and> unat (bucket_to_value (value_to_bucket v)) \<le> unat v + unat v div 16) \<and> value_to_bucket v < MAX_BUCKETS"
  proof (cases "unat v < 16")
    case True
    then have "value_to_bucket v = unat v" by (simp add: value_to_bucket_def word_less_nat_alt)
    with True show ?thesis by (simp add: bucket_to_value_def)
  next
    case False
    then have "16 \<le> unat v" by simp
    then obtain d where d: "d < 28" "2 ^ (d + 4) \<le> unat v" "unat v < 2 ^ (d + 5)"
      "value_to_bucket v = 16 * d + unat v div 2 ^ d"
      by (rule value_to_bucket_mid [OF _ assms])
    define q where "q = unat v div 2 ^ d"
    note q = mid_quotient [OF d(2,3), folded q_def]
    have val: "unat (bucket_to_value (value_to_bucket v)) = q * 2 ^ d + 2 ^ d - 1"
      using bucket_to_value_mid [OF d(1) q] d(4) by (simp add: q_def)
    have split: "unat v = q * 2 ^ d + unat v mod 2 ^ d" "unat v mod 2 ^ d < 2 ^ d"
      unfolding q_def by (simp_all only: div_mult_mod_eq mod_less_divisor zero_less_power zero_less_numeral)
    have "2 ^ d \<le> unat v div 16"
      using d(2) by (simp add: power_add less_eq_div_iff_mult_less_eq)
    moreover have "unat v \<le> q * 2 ^ d + 2 ^ d - 1" "q * 2 ^ d + 2 ^ d - 1 \<le> unat v + 2 ^ d"
      using split by linarith+
    moreover have "value_to_bucket v < MAX_BUCKETS" using q d(1,4) by (simp flip: q_def)
    ultimately show ?thesis using val by linarith
  qed
  then show "unat v \<le> unat (bucket_to_value (value_to_bucket v))
    \<and> unat (bucket_to_value (value_to_bucket v)) \<le> unat v + unat v div 16" "value_to_bucket v < MAX_BUCKETS"
    by blast+
qed

lemma value_to_bucket_over: "2 ^ 32 \<le> unat v \<Longrightarrow> value_to_bucket v = MAX_BUCKETS"
  by (simp add: value_to_bucket_def word_less_nat_alt)

lemma value_to_bucket_le: "value_to_bucket v \<le> MAX_BUCKETS"
  using bucket_accuracy(2) [of v] value_to_bucket_over [of v] by linarith

lemma value_to_bucket_mono:
  assumes "v \<le> w"
  shows "value_to_bucket v \<le> value_to_bucket w"
proof -
  have le: "unat v \<le> unat w" using assms by (simp add: word_le_nat_alt)
  consider (over) "2 ^ 32 \<le> unat w" | (low) "unat w < 2 ^ 32" "unat v < 16" | (mid) "unat w < 2 ^ 32" "16 \<le> unat v"
    by linarith
  then show ?thesis
  proof cases
    case over
    then show ?thesis using value_to_bucket_over [of w] value_to_bucket_le [of v] by simp
  next
    case low
    then have v: "value_to_bucket v = unat v" by (simp add: value_to_bucket_def word_less_nat_alt)
    show ?thesis
    proof (cases "unat w < 16")
      case True
      then show ?thesis using v le by (simp add: value_to_bucket_def word_less_nat_alt)
    next
      case False
      then have "16 \<le> unat w" by simp
      then obtain d where "2 ^ (d + 4) \<le> unat w" "unat w < 2 ^ (d + 5)" "value_to_bucket w = 16 * d + unat w div 2 ^ d"
        by (rule value_to_bucket_mid [OF _ low(1)])
      with mid_quotient(1) [of d "unat w"] v low(2) show ?thesis by simp
    qed
  next
    case mid
    have "unat v < 2 ^ 32" using mid le by simp
    then obtain d where d: "2 ^ (d + 4) \<le> unat v" "unat v < 2 ^ (d + 5)" "value_to_bucket v = 16 * d + unat v div 2 ^ d"
      using value_to_bucket_mid [OF mid(2)] by metis
    have "16 \<le> unat w" using mid le by simp
    then obtain e where e: "2 ^ (e + 4) \<le> unat w" "unat w < 2 ^ (e + 5)" "value_to_bucket w = 16 * e + unat w div 2 ^ e"
      using value_to_bucket_mid [OF _ mid(1)] by metis
    have "d \<le> e"
    proof (rule ccontr)
      assume "\<not> d \<le> e"
      then have "(2 :: nat) ^ (e + 5) \<le> 2 ^ (d + 4)" by (intro power_increasing) auto
      with d(1) e(2) le show False by simp
    qed
    then consider "d = e" | "d < e" by linarith
    then show ?thesis
    proof cases
      case 1
      then show ?thesis using d(3) e(3) le by (simp add: div_le_mono)
    next
      case 2
      then show ?thesis using d(3) e(3) mid_quotient(2) [OF d(1,2)] mid_quotient(1) [OF e(1,2)] by simp
    qed
  qed
qed

subsection \<open>What a histogram holds\<close>

definition in_bucket :: "u64 list \<Rightarrow> nat \<Rightarrow> nat" where
  "in_bucket xs i = length (filter (\<lambda>x. value_to_bucket x = i) xs)"

definition hist_rel :: "u64 list \<Rightarrow> histogram \<Rightarrow> bool" where
  "hist_rel xs h \<longleftrightarrow> h_samples h = map (\<lambda>i. word_of_nat (in_bucket xs i)) [0..<MAX_BUCKETS + 1]
     \<and> h_total_samples h = word_of_nat (length xs)
     \<and> h_min_value h = Min (insert (- 1) (set xs)) \<and> h_max_value h = Max (insert 0 (set xs))"

fun record_all :: "u64 list \<Rightarrow> histogram \<Rightarrow> histogram res" where
  "record_all [] h = Inr h"
| "record_all (x # xs) h = bind_res (hist_record x h) (record_all xs)"

lemma in_bucket_append [simp]: "in_bucket (xs @ ys) i = in_bucket xs i + in_bucket ys i"
  by (simp add: in_bucket_def)

lemma in_bucket_single [simp]: "in_bucket [x] i = (if value_to_bucket x = i then 1 else 0)"
  by (simp add: in_bucket_def)

lemma hist_rel_init: "hist_rel [] Histogram_init"
  by (simp add: hist_rel_def Histogram_init_def in_bucket_def map_replicate_const)

lemma min_insert: "min (Min (insert a (set xs))) v = Min (insert a (insert v (set xs)))" for a v :: "'a :: linorder"
  by (cases "xs = []") (auto simp: min.commute min.left_commute)

lemma max_insert: "max (Max (insert a (set xs))) v = Max (insert a (insert v (set xs)))" for a v :: "'a :: linorder"
  by (cases "xs = []") (auto simp: max.commute max.left_commute)

lemma hist_record_spec:
  assumes "hist_rel xs h"
  shows "\<exists>h'. hist_record v h = Inr h' \<and> hist_rel (xs @ [v]) h'"
proof -
  let ?b = "value_to_bucket v" and ?n = "MAX_BUCKETS + 1"
  have b: "?b < ?n" using value_to_bucket_le [of v] by simp
  have s: "h_samples h = map (\<lambda>i. word_of_nat (in_bucket xs i)) [0..<?n]" using assms by (simp add: hist_rel_def)
  then have len: "length (h_samples h) = ?n" by simp
  have "(h_samples h)[?b := h_samples h ! ?b + 1] = map (\<lambda>i. word_of_nat (in_bucket (xs @ [v]) i)) [0..<?n]"
  proof (rule nth_equalityI)
    show "length ((h_samples h)[?b := h_samples h ! ?b + 1]) = length (map (\<lambda>i. word_of_nat (in_bucket (xs @ [v]) i)) [0..<?n])"
      using len by simp
    show "(h_samples h)[?b := h_samples h ! ?b + 1] ! i = map (\<lambda>i. word_of_nat (in_bucket (xs @ [v]) i)) [0..<?n] ! i"
      if "i < length ((h_samples h)[?b := h_samples h ! ?b + 1])" for i
    proof -
      have i: "i < ?n" using that len by simp
      then have "h_samples h ! i = word_of_nat (in_bucket xs i)" unfolding s by (simp del: upt_Suc)
      moreover have "map (\<lambda>i. word_of_nat (in_bucket (xs @ [v]) i)) [0..<?n] ! i = (word_of_nat (in_bucket (xs @ [v]) i) :: u64)"
        using i by (simp del: upt_Suc)
      ultimately show ?thesis using len i by (simp add: nth_list_update add.commute)
    qed
  qed
  moreover have "\<not> length (h_samples h) \<le> ?b" using b len by simp
  ultimately show ?thesis using assms
    by (simp add: hist_record_def hist_rel_def Let_def add.commute min_insert max_insert)
qed

lemma hist_merge_spec:
  assumes "hist_rel xs h" "hist_rel ys g"
  shows "hist_rel (xs @ ys) (hist_merge h g)"
proof -
  have "map2 (+) (h_samples h) (h_samples g) = map (\<lambda>i. word_of_nat (in_bucket (xs @ ys) i)) [0..<MAX_BUCKETS + 1]"
    using assms unfolding hist_rel_def by (simp add: zip_map_map zip_same_conv_map comp_def)
  moreover have "Min (insert (- 1) (set (xs @ ys))) = min (Min (insert (- 1) (set xs))) (Min (insert (- 1 :: u64) (set ys)))"
    by (subst Min_Un [symmetric]) (auto intro: arg_cong [where f = Min])
  moreover have "Max (insert 0 (set (xs @ ys))) = max (Max (insert 0 (set xs))) (Max (insert (0 :: u64) (set ys)))"
    by (subst Max_Un [symmetric]) (auto intro: arg_cong [where f = Max])
  ultimately show ?thesis using assms unfolding hist_rel_def hist_merge_def by (simp add: add.commute del: upt_Suc)
qed

lemma record_all_spec: "hist_rel xs h \<Longrightarrow> \<exists>h'. record_all ys h = Inr h' \<and> hist_rel (xs @ ys) h'"
proof (induction ys arbitrary: xs h)
  case (Cons y ys)
  obtain h1 where 1: "hist_record y h = Inr h1" "hist_rel (xs @ [y]) h1" using hist_record_spec [OF Cons.prems] by blast
  from Cons.IH [OF 1(2)] 1(1) show ?case by simp
qed simp

lemma hist_rel_unique: "hist_rel xs h \<Longrightarrow> hist_rel xs g \<Longrightarrow> h = g"
  by (simp add: hist_rel_def)

lemma hist_min_max: "hist_rel xs h \<Longrightarrow> x \<in> set xs \<Longrightarrow> h_min_value h \<le> x \<and> x \<le> h_max_value h"
  by (simp add: hist_rel_def)

subsection \<open>Percentiles\<close>

text \<open>The number of values in the buckets up to \<open>i\<close>, and the value of a rank.\<close>

definition upto_bucket :: "u64 list \<Rightarrow> nat \<Rightarrow> nat" where
  "upto_bucket xs i = length (filter (\<lambda>x. value_to_bucket x \<le> i) xs)"

lemma filter_takeWhile_sorted:
  assumes "sorted xs" "\<And>x y. x \<le> y \<Longrightarrow> P y \<Longrightarrow> P x"
  shows "filter P xs = takeWhile P xs"
  using assms(1)
proof (induction xs)
  case (Cons x xs)
  show ?case
  proof (cases "P x")
    case False
    then have "filter P xs = []" using Cons.prems assms(2) by (auto simp: filter_empty_conv)
    with False show ?thesis by simp
  qed (use Cons in simp)
qed simp

lemma rank_bucket:
  assumes "1 \<le> t" "t \<le> length xs"
  shows "t \<le> upto_bucket xs i \<longleftrightarrow> value_to_bucket (sort xs ! (t - 1)) \<le> i"
proof -
  let ?P = "\<lambda>x. value_to_bucket x \<le> i"
  have "upto_bucket xs i = length (filter ?P (sort xs))"
    unfolding upto_bucket_def by (simp add: filter_sort)
  also have "filter ?P (sort xs) = takeWhile ?P (sort xs)"
    by (rule filter_takeWhile_sorted) (auto intro: order_trans value_to_bucket_mono)
  finally have eq: "upto_bucket xs i = length (takeWhile ?P (sort xs))" .
  show ?thesis
  proof
    assume "t \<le> upto_bucket xs i"
    then have "t - 1 < length (takeWhile ?P (sort xs))" using eq assms(1) by simp
    then have "takeWhile ?P (sort xs) ! (t - 1) = sort xs ! (t - 1)" "takeWhile ?P (sort xs) ! (t - 1) \<in> set (takeWhile ?P (sort xs))"
      using takeWhile_nth nth_mem by blast+
    then show "?P (sort xs ! (t - 1))" by (metis set_takeWhileD)
  next
    assume P: "?P (sort xs ! (t - 1))"
    show "t \<le> upto_bucket xs i"
    proof (rule ccontr)
      assume "\<not> t \<le> upto_bucket xs i"
      then have l: "length (takeWhile ?P (sort xs)) \<le> t - 1" "length (takeWhile ?P (sort xs)) < length (sort xs)"
        using eq assms by simp_all
      then have "\<not> ?P (sort xs ! length (takeWhile ?P (sort xs)))" by (intro nth_length_takeWhile) simp
      moreover have "sort xs ! length (takeWhile ?P (sort xs)) \<le> sort xs ! (t - 1)"
        using l assms by (intro sorted_nth_mono) simp_all
      ultimately show False using P value_to_bucket_mono order_trans by blast
    qed
  qed
qed

lemma upto_bucket_0: "upto_bucket xs 0 = in_bucket xs 0"
  by (simp add: upto_bucket_def in_bucket_def)

lemma upto_bucket_Suc: "upto_bucket xs (Suc i) = upto_bucket xs i + in_bucket xs (Suc i)"
proof -
  have "length (filter (\<lambda>x. value_to_bucket x \<le> Suc i) xs)
      = length (filter (\<lambda>x. value_to_bucket x \<le> i) xs) + length (filter (\<lambda>x. value_to_bucket x = Suc i) xs)"
    by (induction xs) auto
  then show ?thesis by (simp add: upto_bucket_def in_bucket_def)
qed

lemma percentile_loop_step:
  assumes "hist_rel xs h" "length xs < 2 ^ 64" "1 \<le> t" "t \<le> length xs" "unat thr = t" "i \<le> MAX_BUCKETS"
  shows "percentile_loop h thr (word_of_nat (if i = 0 then 0 else upto_bucket xs (i - 1))) i (drop i (h_samples h)) =
    (if value_to_bucket (sort xs ! (t - 1)) \<le> i
     then if i = MAX_BUCKETS then Infinity else Value (min (bucket_to_value i) (h_max_value h))
     else percentile_loop h thr (word_of_nat (upto_bucket xs i)) (i + 1) (drop (Suc i) (h_samples h)))"
proof -
  have s: "h_samples h = map (\<lambda>i. word_of_nat (in_bucket xs i)) [0..<MAX_BUCKETS + 1]"
    using assms(1) by (simp add: hist_rel_def)
  then have len: "i < length (h_samples h)" and nth: "h_samples h ! i = word_of_nat (in_bucket xs i)"
    using assms(6) by (simp_all del: upt_Suc)
  have d: "drop i (h_samples h) = word_of_nat (in_bucket xs i) # drop (Suc i) (h_samples h)"
    using Cons_nth_drop_Suc [OF len] nth by simp
  have sum: "word_of_nat (if i = 0 then 0 else upto_bucket xs (i - 1)) + word_of_nat (in_bucket xs i)
      = (word_of_nat (upto_bucket xs i) :: u64)"
    by (cases i) (simp_all add: upto_bucket_0 upto_bucket_Suc)
  have "upto_bucket xs i \<le> length xs" by (simp add: upto_bucket_def)
  then have u: "unat (word_of_nat (upto_bucket xs i) :: u64) = upto_bucket xs i"
    using assms(2) by (intro unat_u64_of_nat) simp
  have "thr \<le> word_of_nat (upto_bucket xs i) \<longleftrightarrow> value_to_bucket (sort xs ! (t - 1)) \<le> i"
    unfolding word_le_nat_alt u assms(5) by (rule rank_bucket [OF assms(3,4)])
  with sum show ?thesis unfolding d by (simp add: Let_def)
qed

lemma percentile_loop_at:
  assumes "hist_rel xs h" "length xs < 2 ^ 64" "1 \<le> t" "t \<le> length xs" "unat thr = t"
    "i + n = value_to_bucket (sort xs ! (t - 1))"
  shows "percentile_loop h thr (word_of_nat (if i = 0 then 0 else upto_bucket xs (i - 1))) i (drop i (h_samples h))
    = (if i + n = MAX_BUCKETS then Infinity else Value (min (bucket_to_value (i + n)) (h_max_value h)))"
  using assms(6)
proof (induction n arbitrary: i)
  case 0
  have "i \<le> MAX_BUCKETS" using 0 value_to_bucket_le by (metis add.right_neutral)
  from percentile_loop_step [OF assms(1-5) this] 0 show ?case by simp
next
  case (Suc n)
  have "i \<le> MAX_BUCKETS" using Suc.prems value_to_bucket_le by (metis add_leD1)
  from percentile_loop_step [OF assms(1-5) this] Suc.prems Suc.IH [of "Suc i"] show ?case by simp
qed

lemma percentile_threshold_nat:
  assumes "length xs * 100000 + 99999 < 2 ^ 64" "unat per \<le> 100000" "hist_rel xs h"
  shows "unat (percentile_threshold per h) = max ((length xs * unat per + 99999) div 100000) 1"
proof -
  let ?n = "length xs * unat per + 99999"
  have "length xs * unat per \<le> length xs * 100000" using assms(2) by (intro mult_le_mono2)
  then have n: "?n < 2 ^ 64" using assms(1) by linarith
  have "h_total_samples h * per + 99999 = (word_of_nat ?n :: u64)"
    using assms(3) by (simp add: hist_rel_def)
  then have "unat (h_total_samples h * per + 99999) = ?n" using unat_u64_of_nat [OF n] by simp
  then have "unat ((h_total_samples h * per + 99999) div 100000) = ?n div 100000"
    unfolding unat_div by simp
  then show ?thesis unfolding percentile_threshold_def max_def word_le_nat_alt by simp
qed

subsection \<open>Properties\<close>

text \<open>
  C37. Percentiles are accurate: for a histogram that recorded the values \<open>xs\<close> (fewer than
  about \<open>1.8 * 10^14\<close> of them, so that nothing wraps), the percentile of \<open>per\<close> in units of
  \<open>10^-5\<close> is at least the value of the rank the percentile asks for, by at most a sixteenth;
  it is infinity exactly when that value is \<open>2^32\<close> or more.
\<close>

theorem hist_percentile:
  assumes "record_all xs Histogram_init = Inr h" "xs \<noteq> []" "length xs * 100000 + 99999 < 2 ^ 64" "unat per \<le> 100000"
    "t = max ((length xs * unat per + 99999) div 100000) 1" "r = unat (sort xs ! (t - 1))"
  shows "if 2 ^ 32 \<le> r then percentile per h = Infinity
    else \<exists>v. percentile per h = Value v \<and> r \<le> unat v \<and> unat v \<le> r + r div 16"
proof -
  have rel: "hist_rel xs h" using record_all_spec [OF hist_rel_init, of xs] assms(1) by auto
  have thr: "unat (percentile_threshold per h) = t"
    using percentile_threshold_nat [OF assms(3,4) rel] assms(5) by simp
  have "length xs * unat per \<le> length xs * 100000" using assms(4) by (intro mult_le_mono2)
  then have "(length xs * unat per + 99999) div 100000 \<le> length xs" by linarith
  moreover have "1 \<le> length xs" using assms(2) by (simp add: Suc_le_eq)
  ultimately have t: "1 \<le> t" "t \<le> length xs" using assms(5) by simp_all
  define x where "x = sort xs ! (t - 1)"
  have small: "length xs < 2 ^ 64" using assms(3) by linarith
  have p: "percentile per h = (if value_to_bucket x = MAX_BUCKETS then Infinity
      else Value (min (bucket_to_value (value_to_bucket x)) (h_max_value h)))"
    using percentile_loop_at [OF rel small t thr, of 0 "value_to_bucket x"] by (simp add: percentile_def x_def)
  show ?thesis
  proof (cases "2 ^ 32 \<le> r")
    case True
    then show ?thesis using p value_to_bucket_over [of x] assms(6) by (simp add: x_def)
  next
    case False
    then have lt: "unat x < 2 ^ 32" using assms(6) by (simp add: x_def)
    note acc = bucket_accuracy [OF lt]
    have "x \<in> set xs" unfolding x_def using t by (metis One_nat_def diff_less le_less_trans less_le_trans length_sort nth_mem set_sort zero_less_one)
    then have "unat x \<le> unat (h_max_value h)" using hist_min_max [OF rel] by (simp add: word_le_nat_alt)
    then show ?thesis using p acc False assms(6) by (auto simp: x_def min_def word_le_nat_alt)
  qed
qed

theorem hist_percentile_witness:
  "\<exists>h v. record_all [100, 3, 7] Histogram_init = Inr h \<and> percentile 50000 h = Value v \<and> unat v = 7"
proof -
  obtain h where h: "record_all [100, 3, 7] Histogram_init = Inr h" using record_all_spec [OF hist_rel_init] by blast
  have "sort [100, 3, 7 :: u64] = [3, 7, 100]" by simp
  with hist_percentile [OF h _ _ _ refl refl, of 50000] h show ?thesis by auto
qed

text \<open>
  Recording never leaves the array of buckets, and merging two histograms gives exactly
  the histogram of all their values recorded into one, with its count, minimum and maximum.
\<close>

lemma hist_merge_records:
  "\<exists>h g. record_all xs Histogram_init = Inr h \<and> record_all ys Histogram_init = Inr g
    \<and> record_all (xs @ ys) Histogram_init = Inr (hist_merge h g)
    \<and> hist_count (hist_merge h g) = word_of_nat (length xs + length ys)
    \<and> hist_max (hist_merge h g) = Max (insert 0 (set xs \<union> set ys))"
proof -
  obtain h where h: "record_all xs Histogram_init = Inr h" "hist_rel xs h"
    using record_all_spec [OF hist_rel_init, of xs] by auto
  obtain g where g: "record_all ys Histogram_init = Inr g" "hist_rel ys g"
    using record_all_spec [OF hist_rel_init, of ys] by auto
  obtain k where k: "record_all (xs @ ys) Histogram_init = Inr k" "hist_rel (xs @ ys) k"
    using record_all_spec [OF hist_rel_init, of "xs @ ys"] by auto
  have m: "hist_rel (xs @ ys) (hist_merge h g)" by (rule hist_merge_spec [OF h(2) g(2)])
  with k have "k = hist_merge h g" by (metis hist_rel_unique)
  with h g k m show ?thesis by (intro exI [of _ h] exI [of _ g]) (simp add: hist_count_def hist_max_def hist_rel_def del: upt_Suc)
qed

end
