(* ===== verification/Book_Builder.thy ===== *)
theory Book_Builder
  imports Order_Book_Runs Spsc_Queue Profiling
begin

section \<open>Book builder (src/bookbuilder/book\_builder.hpp)\<close>

text \<open>
  A builder consumes the events of one shard and keeps one book per instrument. Books live in
  the memory of the builder, a map from addresses to books; every book owns the memory of its
  orders. The answers of the allocator and the time stamp counter to one event are an
  argument. The handlers are \<open>noexcept\<close>: a failing allocation ends the process. Log messages
  are left out.
\<close>

subsection \<open>State and operations\<close>

record bb_stats =
  st_msgs :: u64
  st_dropped_adds :: u64
  st_unknown_oids :: u64

definition Stats_init :: bb_stats where
  "Stats_init = \<lparr>st_msgs = 0, st_dropped_adds = 0, st_unknown_oids = 0\<rparr>"

record book_builder =
  bb_stop :: bool
  bb_stats :: bb_stats
  bb_tick_to_book :: histogram
  bb_instrument_map :: "instrument_t lpt"
  bb_owned_books :: "ptr list"
  bb_books :: "ptr \<Rightarrow> order_book option"

text \<open>
  What the environment answers while an event is handled: the address of a new book (null if
  there is no memory), the address and the contents of its order array, whether its table is
  allocated, what \<open>grow\<close> gets, and the time stamp counter.
\<close>

record event_env =
  ee_book :: ptr
  ee_storage :: ptr
  ee_junk :: "ptr \<Rightarrow> order"
  ee_table_ok :: bool
  ee_grow :: grow_env
  ee_tsc :: u64

definition BOOK_K :: nat where "BOOK_K = 8"

definition BOOK_COLD :: nat where "BOOK_COLD = 8192"

definition INSTRUMENTS :: nat where "INSTRUMENTS = 2 ^ 13"

definition bb_find :: "book_builder \<Rightarrow> instrument_t \<Rightarrow> ptr" where
  "bb_find bb instr = lp_find BackwardShift FibHash32 (bb_instrument_map bb) instr"

definition get_or_init_book :: "event_env \<Rightarrow> instrument_t \<Rightarrow> book_builder \<Rightarrow> (ptr \<times> book_builder) res" where
  "get_or_init_book env instr bb =
     (let book = bb_find bb instr in
      if book = nullptr then
        if ee_book env = nullptr then Inl Terminated
        else case OrderBook BOOK_K BOOK_COLD (ee_storage env) (ee_junk env) (ee_table_ok env) of
          Inl _ \<Rightarrow> Inl Terminated
        | Inr owned \<Rightarrow>
            let book = ee_book env in
            Inr (book, bb\<lparr>bb_books := (bb_books bb)(book \<mapsto> owned),
              bb_owned_books := bb_owned_books bb @ [book],
              bb_instrument_map := snd (lp_insert BackwardShift FibHash32 (bb_instrument_map bb) instr book)\<rparr>)
      else Inr (book, bb))"

text \<open>A call on the book at an address.\<close>

definition with_book :: "ptr \<Rightarrow> (order_book \<Rightarrow> ('a \<times> order_book) res) \<Rightarrow> book_builder \<Rightarrow> ('a \<times> book_builder) res" where
  "with_book p f bb = (case bb_books bb p of
       None \<Rightarrow> Inl Bad_Access
     | Some b \<Rightarrow> bind_res (f b) (\<lambda>(r, b'). Inr (r, bb\<lparr>bb_books := (bb_books bb)(p \<mapsto> b')\<rparr>)))"

definition count_dropped :: "book_builder \<Rightarrow> book_builder" where
  "count_dropped bb = bb\<lparr>bb_stats := (bb_stats bb)\<lparr>st_dropped_adds := st_dropped_adds (bb_stats bb) + 1\<rparr>\<rparr>"

definition count_unknown :: "book_builder \<Rightarrow> book_builder" where
  "count_unknown bb = bb\<lparr>bb_stats := (bb_stats bb)\<lparr>st_unknown_oids := st_unknown_oids (bb_stats bb) + 1\<rparr>\<rparr>"

definition add_order_handler :: "event_env \<Rightarrow> mbo_event \<Rightarrow> book_builder \<Rightarrow> book_builder res" where
  "add_order_handler env mbo bb =
     bind_res (get_or_init_book env (ev_instrument mbo) bb) (\<lambda>(book, bb).
     bind_res (with_book book (add_order (ee_grow env) (ev_oid mbo) (ev_qty mbo) (ev_price mbo) (ev_side mbo)) bb) (\<lambda>(exp, bb).
     Inr (case exp of Inl _ \<Rightarrow> count_dropped bb | Inr _ \<Rightarrow> bb)))"

text \<open>The shape of the other handlers: a null book or a refused call counts as an unknown id.\<close>

definition known_order :: "instrument_t \<Rightarrow> (order_book \<Rightarrow> (bool \<times> order_book) res) \<Rightarrow> book_builder \<Rightarrow> book_builder res" where
  "known_order instr call bb =
     (let book = bb_find bb instr in
      if book = nullptr then Inr (count_unknown bb)
      else bind_res (with_book book call bb) (\<lambda>(ok, bb). Inr (if \<not> ok then count_unknown bb else bb)))"

definition cancel_order_handler :: "mbo_event \<Rightarrow> book_builder \<Rightarrow> book_builder res" where
  "cancel_order_handler mbo bb = known_order (ev_instrument mbo) (reduce_order (ev_oid mbo) (ev_qty mbo)) bb"

definition execute_order_handler :: "mbo_event \<Rightarrow> book_builder \<Rightarrow> book_builder res" where
  "execute_order_handler mbo bb = known_order (ev_instrument mbo) (execute_order (ev_oid mbo) (ev_qty mbo)) bb"

definition delete_order_handler :: "mbo_event \<Rightarrow> book_builder \<Rightarrow> book_builder res" where
  "delete_order_handler mbo bb = known_order (ev_instrument mbo) (cancel_order (ev_oid mbo)) bb"

definition replace_order_handler :: "event_env \<Rightarrow> mbo_event \<Rightarrow> book_builder \<Rightarrow> book_builder res" where
  "replace_order_handler env mbo bb =
     bind_res (known_order (ev_instrument mbo) (cancel_order (ev_orig_oid mbo)) bb) (add_order_handler env mbo)"

definition count_msg :: "book_builder \<Rightarrow> book_builder" where
  "count_msg bb = bb\<lparr>bb_stats := (bb_stats bb)\<lparr>st_msgs := st_msgs (bb_stats bb) + 1\<rparr>\<rparr>"

definition apply_event :: "event_env \<Rightarrow> mbo_event \<Rightarrow> book_builder \<Rightarrow> book_builder res" where
  "apply_event env mbo bb =
     (let bb = count_msg bb in
      case ev_etype mbo of
        ADDED \<Rightarrow> add_order_handler env mbo bb
      | EXECUTED \<Rightarrow> execute_order_handler mbo bb
      | REPLACED \<Rightarrow> replace_order_handler env mbo bb
      | CANCELLED \<Rightarrow> cancel_order_handler mbo bb
      | DELETED \<Rightarrow> delete_order_handler mbo bb)"

definition handle_event :: "event_env \<Rightarrow> mbo_event \<Rightarrow> book_builder \<Rightarrow> book_builder res" where
  "handle_event env mbo bb =
     bind_res (apply_event env mbo bb) (\<lambda>bb.
     bind_res (hist_record (ee_tsc env - ev_rx_tsc mbo) (bb_tick_to_book bb)) (\<lambda>h.
     Inr (bb\<lparr>bb_tick_to_book := h\<rparr>)))"

definition BookBuilder :: "bool \<Rightarrow> lp_exception + book_builder" where
  "BookBuilder table_ok =
     (case LinearProbingTable table_ok INSTRUMENTS 0 of
        Inl e \<Rightarrow> Inl e
      | Inr t \<Rightarrow> Inr \<lparr>bb_stop = False, bb_stats = Stats_init, bb_tick_to_book = Histogram_init,
          bb_instrument_map = t, bb_owned_books = [], bb_books = Map.empty\<rparr>)"

definition bb_request_stop :: "book_builder \<Rightarrow> book_builder" where
  "bb_request_stop bb = bb\<lparr>bb_stop := True\<rparr>"

definition book_count :: "book_builder \<Rightarrow> nat" where
  "book_count bb = length (bb_owned_books bb)"

text \<open>
  The loops of \<open>run\<close>. An iteration pops at most one event from the ring and handles it; the
  second loop runs until the ring is empty. One environment answers for each event; running
  out of them is \<open>Diverged\<close>.
\<close>

definition bb_iteration :: "event_env \<Rightarrow> mbo_event spsc \<times> book_builder \<Rightarrow> (bool \<times> mbo_event spsc \<times> book_builder) res" where
  "bb_iteration env = (\<lambda>(q, bb).
     bind_res (pop (q_head q) q) (\<lambda>(mbo, q).
       case mbo of
         None \<Rightarrow> Inr (False, q, bb)
       | Some e \<Rightarrow> bind_res (handle_event env e bb) (\<lambda>bb. Inr (True, q, bb))))"

fun bb_drain :: "event_env list \<Rightarrow> mbo_event spsc \<times> book_builder \<Rightarrow> (mbo_event spsc \<times> book_builder) res" where
  "bb_drain [] s = Inl Diverged"
| "bb_drain (env # envs) s =
     bind_res (bb_iteration env s) (\<lambda>(more, s). if more then bb_drain envs s else Inr s)"

subsection \<open>Specification\<close>

text \<open>One specification book per instrument that was ever added to, and the counters.\<close>

record spec_builder =
  sp_books :: "instrument_t \<rightharpoonup> spec_book"
  sp_stats :: bb_stats

abbreviation (input) book_cap :: nat where
  "book_cap \<equiv> BOOK_K + BOOK_COLD"

definition sp_unknown :: "bool \<Rightarrow> bb_stats \<Rightarrow> bb_stats" where
  "sp_unknown ok st = (if ok then st else st\<lparr>st_unknown_oids := st_unknown_oids st + 1\<rparr>)"

definition sp_call :: "instrument_t \<Rightarrow> (spec_book \<Rightarrow> bool \<times> spec_book) \<Rightarrow> spec_builder \<Rightarrow> spec_builder" where
  "sp_call instr f sp = (case sp_books sp instr of
       None \<Rightarrow> sp\<lparr>sp_stats := sp_unknown False (sp_stats sp)\<rparr>
     | Some sb \<Rightarrow> \<lparr>sp_books = (sp_books sp)(instr \<mapsto> snd (f sb)), sp_stats = sp_unknown (fst (f sb)) (sp_stats sp)\<rparr>)"

definition sp_add :: "mbo_event \<Rightarrow> spec_builder \<Rightarrow> spec_builder" where
  "sp_add mbo sp =
     (let sb = (case sp_books sp (ev_instrument mbo) of None \<Rightarrow> spec_empty | Some sb \<Rightarrow> sb);
          (r, sb') = spec_add book_cap (ev_oid mbo) (ev_qty mbo) (ev_price mbo) (ev_side mbo) sb;
          st = sp_stats sp
      in \<lparr>sp_books = (sp_books sp)(ev_instrument mbo \<mapsto> sb'),
          sp_stats = (case r of Inl _ \<Rightarrow> st\<lparr>st_dropped_adds := st_dropped_adds st + 1\<rparr> | Inr _ \<Rightarrow> st)\<rparr>)"

definition sp_apply :: "mbo_event \<Rightarrow> spec_builder \<Rightarrow> spec_builder" where
  "sp_apply mbo sp =
     (let sp = sp\<lparr>sp_stats := (sp_stats sp)\<lparr>st_msgs := st_msgs (sp_stats sp) + 1\<rparr>\<rparr>; i = ev_instrument mbo in
      case ev_etype mbo of
        ADDED \<Rightarrow> sp_add mbo sp
      | EXECUTED \<Rightarrow> sp_call i (spec_execute (ev_oid mbo) (ev_qty mbo)) sp
      | REPLACED \<Rightarrow> sp_add mbo (sp_call i (spec_cancel (ev_orig_oid mbo)) sp)
      | CANCELLED \<Rightarrow> sp_call i (spec_execute (ev_oid mbo) (ev_qty mbo)) sp
      | DELETED \<Rightarrow> sp_call i (spec_cancel (ev_oid mbo)) sp)"

definition sp_init :: spec_builder where
  "sp_init = \<lparr>sp_books = Map.empty, sp_stats = Stats_init\<rparr>"

subsection \<open>Refinement\<close>

definition book_is :: "order_book \<Rightarrow> spec_book \<Rightarrow> bool" where
  "book_is b sb \<longleftrightarrow> (\<exists>Q. book_rel BOOK_K BOOK_COLD b Q \<and> abs_book b Q = sb)"

text \<open>
  The instrument map and the memory hold exactly the books of the specification, each at an
  address of its own.
\<close>

definition books_rel :: "(instrument_t \<rightharpoonup> ptr) \<Rightarrow> (ptr \<rightharpoonup> order_book) \<Rightarrow> (instrument_t \<rightharpoonup> spec_book) \<Rightarrow> bool" where
  "books_rel M B S \<longleftrightarrow> dom S = dom M \<and> ran M = dom B
     \<and> (\<forall>i a. M i = Some a \<longrightarrow> (\<exists>b sb. B a = Some b \<and> S i = Some sb \<and> book_is b sb))
     \<and> (\<forall>i j a. M i = Some a \<longrightarrow> M j = Some a \<longrightarrow> i = j)"

definition bb_rel :: "book_builder \<Rightarrow> spec_builder \<Rightarrow> bool" where
  "bb_rel bb sp \<longleftrightarrow> lp_inv BackwardShift FibHash32 (bb_instrument_map bb)
     \<and> lp_capacity (bb_instrument_map bb) = 2 * INSTRUMENTS
     \<and> books_rel (lp_map (bb_instrument_map bb)) (bb_books bb) (sp_books sp)
     \<and> bb_stats bb = sp_stats sp
     \<and> (\<exists>xs. hist_rel xs (bb_tick_to_book bb))
     \<and> book_count bb = card (dom (sp_books sp))"

lemma books_rel_update:
  assumes "books_rel M B S" "M i = Some a" "book_is b' sb'"
  shows "books_rel M (B(a \<mapsto> b')) (S(i \<mapsto> sb'))"
proof -
  have "a \<in> dom B" "i \<in> dom S" using assms(1,2) by (auto simp: books_rel_def ran_def)
  then have d: "dom (B(a \<mapsto> b')) = dom B" "dom (S(i \<mapsto> sb')) = dom S" by auto
  have "\<exists>b sb. (B(a \<mapsto> b')) c = Some b \<and> (S(i \<mapsto> sb')) j = Some sb \<and> book_is b sb" if "M j = Some c" for j c
  proof (cases "j = i")
    case True
    with assms(2,3) that show ?thesis by simp
  next
    case False
    then have "c \<noteq> a" using assms(1,2) that by (auto simp: books_rel_def)
    with False assms(1) that show ?thesis by (simp add: books_rel_def)
  qed
  with assms(1) d show ?thesis by (simp add: books_rel_def)
qed

lemma books_rel_new:
  assumes "books_rel M B S" "M i = None" "B a = None" "book_is b sb"
  shows "books_rel (M(i \<mapsto> a)) (B(a \<mapsto> b)) (S(i \<mapsto> sb))"
proof -
  have fresh: "M j \<noteq> Some a" for j using assms(1,3) by (fastforce simp: books_rel_def)
  have "\<exists>b' sb'. (B(a \<mapsto> b)) c = Some b' \<and> (S(i \<mapsto> sb)) j = Some sb' \<and> book_is b' sb'"
    if "(M(i \<mapsto> a)) j = Some c" for j c
  proof (cases "j = i")
    case True
    with assms(4) that show ?thesis by simp
  next
    case False
    then have "M j = Some c" "c \<noteq> a" using that fresh by auto
    with False assms(1) show ?thesis by (simp add: books_rel_def)
  qed
  moreover have "j = k" if "(M(i \<mapsto> a)) j = Some c" "(M(i \<mapsto> a)) k = Some c" for j k c
    using that fresh assms(1) unfolding books_rel_def by (metis fun_upd_apply option.inject)
  moreover have "ran (M(i \<mapsto> a)) = dom (B(a \<mapsto> b))" using assms(1,2) by (simp add: books_rel_def)
  moreover have "dom (S(i \<mapsto> sb)) = dom (M(i \<mapsto> a))" using assms(1) by (simp add: books_rel_def)
  ultimately show ?thesis unfolding books_rel_def by blast
qed

lemma book_is_add:
  assumes "book_is b sb" "env_ok env b" "price \<noteq> EMPTY s"
  shows "\<exists>b'. add_order env oid n price s b = Inr (fst (spec_add book_cap oid n price s sb), b')
    \<and> book_is b' (snd (spec_add book_cap oid n price s sb))"
  using add_order_spec [OF _ assms(2,3)] assms(1) unfolding book_is_def by blast

lemma book_is_cancel:
  assumes "book_is b sb"
  shows "\<exists>b'. cancel_order oid b = Inr (fst (spec_cancel oid sb), b') \<and> book_is b' (snd (spec_cancel oid sb))"
  using cancel_order_spec assms unfolding book_is_def by blast

lemma book_is_execute:
  assumes "book_is b sb"
  shows "\<exists>b'. execute_order oid n b = Inr (fst (spec_execute oid n sb), b') \<and> book_is b' (snd (spec_execute oid n sb))"
  using execute_order_spec assms unfolding book_is_def by blast

lemma bb_find_rel:
  assumes "bb_rel bb sp"
  obtains (none) "bb_find bb i = nullptr" "sp_books sp i = None" "lp_map (bb_instrument_map bb) i = None"
  | (some) b sb where "bb_find bb i \<noteq> nullptr" "lp_map (bb_instrument_map bb) i = Some (bb_find bb i)"
      "bb_books bb (bb_find bb i) = Some b" "sp_books sp i = Some sb" "book_is b sb"
proof -
  have inv: "lp_inv BackwardShift FibHash32 (bb_instrument_map bb)" using assms by (simp add: bb_rel_def)
  have f: "bb_find bb i = (case lp_map (bb_instrument_map bb) i of None \<Rightarrow> nullptr | Some v \<Rightarrow> v)"
    unfolding bb_find_def by (rule lp.find_lookup [OF inv])
  have dom: "dom (sp_books sp) = dom (lp_map (bb_instrument_map bb))" using assms by (simp add: bb_rel_def books_rel_def)
  show ?thesis
  proof (cases "lp_map (bb_instrument_map bb) i")
    case None
    with f dom show ?thesis using none by (metis domIff option.simps(4))
  next
    case (Some a)
    have "2 \<le> a" by (rule lp.lookup_live [OF inv Some])
    with f Some have "bb_find bb i = a" "a \<noteq> nullptr" by simp_all
    moreover obtain b sb where "bb_books bb a = Some b" "sp_books sp i = Some sb" "book_is b sb"
      using assms Some unfolding bb_rel_def books_rel_def by blast
    ultimately show ?thesis using some Some by simp
  qed
qed

text \<open>A call that answers as the specification keeps the relation.\<close>

lemma bb_rel_update:
  assumes "bb_rel bb sp" "lp_map (bb_instrument_map bb) i = Some a" "book_is b' sb'" "st' = bb_stats bb'"
    "bb_books bb' = (bb_books bb)(a \<mapsto> b')" "bb_instrument_map bb' = bb_instrument_map bb"
    "bb_owned_books bb' = bb_owned_books bb" "bb_tick_to_book bb' = bb_tick_to_book bb"
  shows "bb_rel bb' \<lparr>sp_books = (sp_books sp)(i \<mapsto> sb'), sp_stats = st'\<rparr>"
proof -
  have r: "books_rel (lp_map (bb_instrument_map bb)) (bb_books bb) (sp_books sp)" using assms(1) by (simp add: bb_rel_def)
  then have "i \<in> dom (sp_books sp)" using assms(2) by (auto simp: books_rel_def)
  then have "dom ((sp_books sp)(i \<mapsto> sb')) = dom (sp_books sp)" by auto
  with books_rel_update [OF r assms(2,3)] assms(1,4-) show ?thesis
    by (simp add: bb_rel_def book_count_def del: fun_upd_apply dom_fun_upd)
qed

lemma bb_rel_stats:
  assumes "bb_rel bb sp"
  shows "bb_rel (bb\<lparr>bb_stats := st\<rparr>) (sp\<lparr>sp_stats := st\<rparr>)"
  using assms by (simp add: bb_rel_def book_count_def)

lemma known_order_rel:
  assumes rel: "bb_rel bb sp" and call: "\<And>b sb. book_is b sb \<Longrightarrow> \<exists>b'. call b = Inr (fst (f sb), b') \<and> book_is b' (snd (f sb))"
  shows "\<exists>bb'. known_order i call bb = Inr bb' \<and> bb_rel bb' (sp_call i f sp)"
  using rel
proof (cases rule: bb_find_rel [where i = i])
  case none
  have "bb_stats bb = sp_stats sp" using rel by (simp add: bb_rel_def)
  with none bb_rel_stats [OF rel] show ?thesis
    by (simp add: known_order_def sp_call_def sp_unknown_def count_unknown_def)
next
  case (some b sb)
  obtain b' where b': "call b = Inr (fst (f sb), b')" "book_is b' (snd (f sb))" using call [OF some(5)] by blast
  let ?bb = "bb\<lparr>bb_books := (bb_books bb)(bb_find bb i \<mapsto> b')\<rparr>"
  have "with_book (bb_find bb i) call bb = Inr (fst (f sb), ?bb)" using some(3) b'(1) by (simp add: with_book_def)
  then have run: "known_order i call bb = Inr (if \<not> fst (f sb) then count_unknown ?bb else ?bb)"
    using some(1) by (simp add: known_order_def Let_def)
  have st: "bb_stats bb = sp_stats sp" using rel by (simp add: bb_rel_def)
  have "bb_rel (if \<not> fst (f sb) then count_unknown ?bb else ?bb)
      \<lparr>sp_books = (sp_books sp)(i \<mapsto> snd (f sb)), sp_stats = sp_unknown (fst (f sb)) (sp_stats sp)\<rparr>"
    by (rule bb_rel_update [OF rel some(2) b'(2)]) (simp_all add: st count_unknown_def sp_unknown_def)
  then show ?thesis using run some(4) by (simp add: sp_call_def)
qed

text \<open>
  What the runs below assume of each event and of the environment. Of the event, although the
  code does not check it: an added order has a price other than the sentinel of its side, and an
  order for a new instrument comes while fewer than \<open>2 * INSTRUMENTS\<close> books exist, so that the
  instrument table has room. Of the environment: a new book finds memory at a fresh address, and
  a book whose pool is exhausted can grow.
\<close>

definition add_env_ok :: "event_env \<Rightarrow> mbo_event \<Rightarrow> book_builder \<Rightarrow> bool" where
  "add_env_ok env mbo bb \<longleftrightarrow> ev_price mbo \<noteq> EMPTY (ev_side mbo)
     \<and> (case bb_books bb (bb_find bb (ev_instrument mbo)) of
          Some b \<Rightarrow> env_ok (ee_grow env) b
        | None \<Rightarrow> 2 \<le> ee_book env \<and> bb_books bb (ee_book env) = None \<and> 2 \<le> ee_storage env \<and> ee_table_ok env
            \<and> book_count bb < 2 * INSTRUMENTS)"

definition event_ok :: "event_env \<Rightarrow> mbo_event \<Rightarrow> book_builder \<Rightarrow> bool" where
  "event_ok env mbo bb \<longleftrightarrow> (case ev_etype mbo of
       ADDED \<Rightarrow> add_env_ok env mbo (count_msg bb)
     | REPLACED \<Rightarrow> (case known_order (ev_instrument mbo) (cancel_order (ev_orig_oid mbo)) (count_msg bb) of
         Inl _ \<Rightarrow> True | Inr bb' \<Rightarrow> add_env_ok env mbo bb')
     | _ \<Rightarrow> True)"

lemma new_book:
  assumes "2 \<le> storage"
  obtains b where "OrderBook BOOK_K BOOK_COLD storage junk True = Inr b" "book_is b spec_empty" "env_ok env b"
proof -
  obtain b where b: "OrderBook BOOK_K BOOK_COLD storage junk True = Inr b" "book_rel BOOK_K BOOK_COLD b (\<lambda>_ _. [])"
    "abs_book b (\<lambda>_ _. []) = spec_empty"
    using OrderBook_spec [of BOOK_K storage BOOK_COLD junk] assms by (auto simp: BOOK_K_def)
  have "op_available (ob_pool b) \<noteq> 0"
    using book_relD(4,6,7) [OF b(2)] by (auto simp: pool_ok_def op_available_def live_orders_def)
  with b that show ?thesis by (auto simp: book_is_def env_ok_def)
qed

lemma bb_rel_card:
  assumes "bb_rel bb sp"
  shows "card (dom (lp_map (bb_instrument_map bb))) = book_count bb"
  using assms by (simp add: bb_rel_def books_rel_def)

lemma add_order_handler_rel:
  assumes rel: "bb_rel bb sp" and env: "add_env_ok env mbo bb"
  shows "\<exists>bb'. add_order_handler env mbo bb = Inr bb' \<and> bb_rel bb' (sp_add mbo sp)"
proof -
  let ?i = "ev_instrument mbo"
  have inv: "lp_inv BackwardShift FibHash32 (bb_instrument_map bb)" using rel by (simp add: bb_rel_def)
  have st: "bb_stats bb = sp_stats sp" using rel by (simp add: bb_rel_def)
  have price: "ev_price mbo \<noteq> EMPTY (ev_side mbo)" using env by (simp add: add_env_ok_def)
  have "\<exists>bb1 a b sb. get_or_init_book env ?i bb = Inr (a, bb1) \<and> bb_books bb1 a = Some b
      \<and> bb_rel bb1 (sp\<lparr>sp_books := (sp_books sp)(?i \<mapsto> sb)\<rparr>) \<and> book_is b sb \<and> env_ok (ee_grow env) b
      \<and> lp_map (bb_instrument_map bb1) ?i = Some a
      \<and> sb = (case sp_books sp ?i of None \<Rightarrow> spec_empty | Some sb \<Rightarrow> sb)"
    using rel
  proof (cases rule: bb_find_rel [where i = ?i])
    case (some b sb)
    have "env_ok (ee_grow env) b" using env some(3) by (simp add: add_env_ok_def)
    moreover have "sp\<lparr>sp_books := (sp_books sp)(?i \<mapsto> sb)\<rparr> = sp" using some(4) by (simp add: map_upd_triv)
    ultimately show ?thesis using some rel by (auto simp: get_or_init_book_def)
  next
    case none
    have "bb_books bb nullptr = None"
    proof (rule ccontr)
      assume "bb_books bb nullptr \<noteq> None"
      then have "nullptr \<in> ran (lp_map (bb_instrument_map bb))" using rel by (auto simp: bb_rel_def books_rel_def)
      then obtain j where "lp_map (bb_instrument_map bb) j = Some nullptr" by (auto simp: ran_def)
      from lp.lookup_live [OF inv this] show False by simp
    qed
    with env none(1) have e: "2 \<le> ee_book env" "bb_books bb (ee_book env) = None" "2 \<le> ee_storage env" "ee_table_ok env"
      "book_count bb < 2 * INSTRUMENTS" by (simp_all add: add_env_ok_def)
    obtain b where b: "OrderBook BOOK_K BOOK_COLD (ee_storage env) (ee_junk env) True = Inr b" "book_is b spec_empty"
      "env_ok (ee_grow env) b" by (rule new_book [OF e(3)])
    have "card (dom (lp_map (bb_instrument_map bb))) < lp_capacity (bb_instrument_map bb)"
      using bb_rel_card [OF rel] e(5) rel by (simp add: bb_rel_def)
    then obtain t' where t': "lp_insert BackwardShift FibHash32 (bb_instrument_map bb) ?i (ee_book env) = (True, t')"
      "lp_inv BackwardShift FibHash32 t'" "lp_map t' = (lp_map (bb_instrument_map bb))(?i \<mapsto> ee_book env)"
      "lp_capacity t' = lp_capacity (bb_instrument_map bb)"
      using lp.ins_room [OF inv e(1) none(3)] by blast
    let ?bb = "bb\<lparr>bb_books := (bb_books bb)(ee_book env \<mapsto> b), bb_owned_books := bb_owned_books bb @ [ee_book env],
        bb_instrument_map := t'\<rparr>"
    have "get_or_init_book env ?i bb = Inr (ee_book env, ?bb)"
      using none(1) e(1,4) b(1) t'(1) by (simp add: get_or_init_book_def Let_def)
    moreover have "books_rel (lp_map t') ((bb_books bb)(ee_book env \<mapsto> b)) ((sp_books sp)(?i \<mapsto> spec_empty))"
      unfolding t'(3) using rel none(3) e(2) b(2) by (intro books_rel_new) (simp_all add: bb_rel_def)
    then have "bb_rel ?bb (sp\<lparr>sp_books := (sp_books sp)(?i \<mapsto> spec_empty)\<rparr>)"
    proof -
      assume br: "books_rel (lp_map t') ((bb_books bb)(ee_book env \<mapsto> b)) ((sp_books sp)(?i \<mapsto> spec_empty))"
      have "finite (dom (sp_books sp))" using lp.lookup_finite [OF inv] rel by (simp add: bb_rel_def books_rel_def)
      then have "card (dom ((sp_books sp)(?i \<mapsto> spec_empty))) = Suc (card (dom (sp_books sp)))"
        using none(2) by (simp add: domIff card_insert_if)
      with br t'(2,4) rel show ?thesis by (simp add: bb_rel_def book_count_def del: fun_upd_apply dom_fun_upd)
    qed
    ultimately show ?thesis using b(2,3) t'(3) none(2) by (intro exI [of _ ?bb] exI [of _ "ee_book env"] exI [of _ b] exI [of _ spec_empty]) simp
  qed
  then obtain bb1 a b sb where 1: "get_or_init_book env ?i bb = Inr (a, bb1)" "bb_books bb1 a = Some b"
    "bb_rel bb1 (sp\<lparr>sp_books := (sp_books sp)(?i \<mapsto> sb)\<rparr>)" "book_is b sb" "env_ok (ee_grow env) b"
    "lp_map (bb_instrument_map bb1) ?i = Some a" "sb = (case sp_books sp ?i of None \<Rightarrow> spec_empty | Some sb \<Rightarrow> sb)"
    by blast
  define r where "r = spec_add book_cap (ev_oid mbo) (ev_qty mbo) (ev_price mbo) (ev_side mbo) sb"
  obtain b' where b': "add_order (ee_grow env) (ev_oid mbo) (ev_qty mbo) (ev_price mbo) (ev_side mbo) b = Inr (fst r, b')"
    "book_is b' (snd r)"
    using book_is_add [OF 1(4,5) price] unfolding r_def by blast
  let ?bb = "bb1\<lparr>bb_books := (bb_books bb1)(a \<mapsto> b')\<rparr>"
  have "with_book a (add_order (ee_grow env) (ev_oid mbo) (ev_qty mbo) (ev_price mbo) (ev_side mbo)) bb1 = Inr (fst r, ?bb)"
    using 1(2) b'(1) by (simp add: with_book_def)
  then have run: "add_order_handler env mbo bb = Inr (case fst r of Inl _ \<Rightarrow> count_dropped ?bb | Inr _ \<Rightarrow> ?bb)"
    using 1(1) by (simp add: add_order_handler_def)
  have st1: "bb_stats bb1 = sp_stats sp" using 1(3) by (simp add: bb_rel_def)
  have "bb_rel (case fst r of Inl _ \<Rightarrow> count_dropped ?bb | Inr _ \<Rightarrow> ?bb)
      \<lparr>sp_books = (sp_books (sp\<lparr>sp_books := (sp_books sp)(?i \<mapsto> sb)\<rparr>))(?i \<mapsto> snd r),
        sp_stats = (case fst r of Inl _ \<Rightarrow> (sp_stats sp)\<lparr>st_dropped_adds := st_dropped_adds (sp_stats sp) + 1\<rparr> | Inr _ \<Rightarrow> sp_stats sp)\<rparr>"
    by (rule bb_rel_update [OF 1(3,6) b'(2)]) (simp_all add: st1 count_dropped_def split: sum.splits)
  moreover have "sp_add mbo sp = \<lparr>sp_books = (sp_books sp)(?i \<mapsto> snd r),
      sp_stats = (case fst r of Inl _ \<Rightarrow> (sp_stats sp)\<lparr>st_dropped_adds := st_dropped_adds (sp_stats sp) + 1\<rparr> | Inr _ \<Rightarrow> sp_stats sp)\<rparr>"
    by (simp add: sp_add_def r_def 1(7) Let_def case_prod_unfold)
  ultimately show ?thesis using run by simp
qed

lemma count_msg_rel:
  "bb_rel bb sp \<Longrightarrow> bb_rel (count_msg bb) (sp\<lparr>sp_stats := (sp_stats sp)\<lparr>st_msgs := st_msgs (sp_stats sp) + 1\<rparr>\<rparr>)"
  using bb_rel_stats [of bb sp] by (simp add: count_msg_def bb_rel_def)

lemma apply_event_rel:
  assumes rel: "bb_rel bb sp" and ok: "event_ok env mbo bb"
  shows "\<exists>bb'. apply_event env mbo bb = Inr bb' \<and> bb_rel bb' (sp_apply mbo sp)"
proof -
  note r = count_msg_rel [OF rel]
  have cancel: "\<exists>bb'. known_order i (cancel_order oid) (count_msg bb) = Inr bb' \<and> bb_rel bb' (sp_call i (spec_cancel oid)
      (sp\<lparr>sp_stats := (sp_stats sp)\<lparr>st_msgs := st_msgs (sp_stats sp) + 1\<rparr>\<rparr>))" for i oid
    using r book_is_cancel by (rule known_order_rel)
  have execute: "\<exists>bb'. known_order i (execute_order oid n) (count_msg bb) = Inr bb' \<and> bb_rel bb' (sp_call i (spec_execute oid n)
      (sp\<lparr>sp_stats := (sp_stats sp)\<lparr>st_msgs := st_msgs (sp_stats sp) + 1\<rparr>\<rparr>))" for i oid n
    using r book_is_execute by (rule known_order_rel)
  show ?thesis
  proof (cases "ev_etype mbo")
    case ADDED
    with add_order_handler_rel [OF r, of env mbo] ok show ?thesis
      by (simp add: apply_event_def sp_apply_def event_ok_def)
  next
    case EXECUTED
    with execute show ?thesis by (simp add: apply_event_def sp_apply_def execute_order_handler_def)
  next
    case REPLACED
    obtain bb1 where 1: "known_order (ev_instrument mbo) (cancel_order (ev_orig_oid mbo)) (count_msg bb) = Inr bb1"
      "bb_rel bb1 (sp_call (ev_instrument mbo) (spec_cancel (ev_orig_oid mbo))
        (sp\<lparr>sp_stats := (sp_stats sp)\<lparr>st_msgs := st_msgs (sp_stats sp) + 1\<rparr>\<rparr>))"
      using cancel by blast
    have "add_env_ok env mbo bb1" using ok REPLACED 1(1) by (simp add: event_ok_def)
    from add_order_handler_rel [OF 1(2) this] 1(1) REPLACED show ?thesis
      by (simp add: apply_event_def sp_apply_def replace_order_handler_def)
  next
    case CANCELLED
    with execute show ?thesis by (simp add: apply_event_def sp_apply_def cancel_order_handler_def reduce_order_def [abs_def])
  next
    case DELETED
    with cancel show ?thesis by (simp add: apply_event_def sp_apply_def delete_order_handler_def)
  qed
qed

lemma handle_event_rel:
  assumes rel: "bb_rel bb sp" and ok: "event_ok env mbo bb"
  shows "\<exists>bb'. handle_event env mbo bb = Inr bb' \<and> bb_rel bb' (sp_apply mbo sp)"
proof -
  obtain bb1 where 1: "apply_event env mbo bb = Inr bb1" "bb_rel bb1 (sp_apply mbo sp)"
    using apply_event_rel [OF assms] by blast
  obtain xs where "hist_rel xs (bb_tick_to_book bb1)" using 1(2) by (auto simp: bb_rel_def)
  then obtain h where h: "hist_record (ee_tsc env - ev_rx_tsc mbo) (bb_tick_to_book bb1) = Inr h" "\<exists>xs. hist_rel xs h"
    using hist_record_spec by blast
  have "bb_rel (bb1\<lparr>bb_tick_to_book := h\<rparr>) (sp_apply mbo sp)"
    using 1(2) h(2) by (simp add: bb_rel_def book_count_def)
  with 1(1) h(1) show ?thesis by (simp add: handle_event_def)
qed

subsection \<open>Runs\<close>

fun run_events :: "(event_env \<times> mbo_event) list \<Rightarrow> book_builder \<Rightarrow> book_builder res" where
  "run_events [] bb = Inr bb"
| "run_events ((env, mbo) # evs) bb = bind_res (handle_event env mbo bb) (run_events evs)"

text \<open>Every event of a run, and the environment at it, satisfies \<open>event_ok\<close>: the restrictions on prices and instruments included.\<close>

fun events_ok :: "(event_env \<times> mbo_event) list \<Rightarrow> book_builder \<Rightarrow> bool" where
  "events_ok [] bb \<longleftrightarrow> True"
| "events_ok ((env, mbo) # evs) bb \<longleftrightarrow> event_ok env mbo bb
     \<and> (case handle_event env mbo bb of Inl _ \<Rightarrow> True | Inr bb' \<Rightarrow> events_ok evs bb')"

lemma run_events_rel:
  assumes "bb_rel bb sp" "events_ok evs bb"
  shows "\<exists>bb'. run_events evs bb = Inr bb' \<and> bb_rel bb' (fold sp_apply (map snd evs) sp)"
  using assms
proof (induction evs arbitrary: bb sp)
  case (Cons ev evs)
  obtain env mbo where ev: "ev = (env, mbo)" by (cases ev)
  obtain bb1 where 1: "handle_event env mbo bb = Inr bb1" "bb_rel bb1 (sp_apply mbo sp)"
    using handle_event_rel [OF Cons.prems(1)] Cons.prems(2) ev by auto
  then have "events_ok evs bb1" using Cons.prems(2) ev by simp
  from Cons.IH [OF 1(2) this] 1(1) ev show ?case by simp
qed simp

lemma BookBuilder_rel:
  obtains bb where "BookBuilder True = Inr bb" "bb_rel bb sp_init"
proof -
  obtain t :: "instrument_t lpt" where t: "LinearProbingTable True (2 ^ 13) 0 = Inr t"
    "lp_inv BackwardShift FibHash32 t" "lp_map t = Map.empty" "lp_capacity t = 2 ^ (13 + 1)"
    using LinearProbingTable_spec [of 13 "0 :: instrument_t" BackwardShift FibHash32] by auto
  let ?bb = "\<lparr>bb_stop = False, bb_stats = Stats_init, bb_tick_to_book = Histogram_init,
          bb_instrument_map = t, bb_owned_books = [], bb_books = Map.empty\<rparr>"
  have "BookBuilder True = Inr ?bb" unfolding BookBuilder_def INSTRUMENTS_def t(1) by simp
  moreover have "bb_rel ?bb sp_init"
    using t hist_rel_init by (auto simp: bb_rel_def sp_init_def books_rel_def book_count_def INSTRUMENTS_def)
  ultimately show ?thesis using that by blast
qed

text \<open>What a client sees of the books of a builder.\<close>

definition shows_book :: "book_builder \<Rightarrow> instrument_t \<Rightarrow> spec_book \<Rightarrow> bool" where
  "shows_book bb i sb \<longleftrightarrow> (\<exists>b. bb_books bb (bb_find bb i) = Some b
     \<and> (\<forall>s p. p \<noteq> EMPTY s \<longrightarrow> walk (ob_heap b) (unat (ob_max_orders b)) (get_first_order s p b) = spec_queue sb s p))"

lemma bb_rel_shows:
  assumes "bb_rel bb sp"
  shows "case sp_books sp i of None \<Rightarrow> bb_find bb i = nullptr | Some sb \<Rightarrow> shows_book bb i sb"
  using assms
proof (cases rule: bb_find_rel [where i = i])
  case none
  then show ?thesis by simp
next
  case (some b sb)
  then obtain Q where "book_rel BOOK_K BOOK_COLD b Q" "abs_book b Q = sb" by (auto simp: book_is_def)
  then have "\<forall>s p. p \<noteq> EMPTY s \<longrightarrow> walk (ob_heap b) (unat (ob_max_orders b)) (get_first_order s p b) = spec_queue sb s p"
    using book_queue_walk by blast
  with some show ?thesis by (auto simp: shows_book_def)
qed

text \<open>
  C2. The builder keeps one price-time priority book per instrument. Over any run of events in
  which no added or replacing order has the \<open>EMPTY\<close> price of its side (bid 0, ask \<open>UINT32_MAX\<close>),
  at most \<open>2 * INSTRUMENTS\<close> = 16384 instruments get orders, and there is memory for a new book and
  for a pool that grows, the builder never faults; its counters of messages, dropped adds and
  unknown ids, the number of its books, and every book, walked level by level, are those of the
  specification, in which events of one instrument never touch another's book, a replace is
  a cancel followed by an add, and an add for a new instrument starts an empty book. The code
  checks neither restriction on the events: what it does without them is shown by
  \<open>empty_price_level_lost\<close> and \<open>instrument_table_full\<close>.
\<close>

theorem builder_refines:
  assumes "BookBuilder True = Inr bb0" "events_ok evs bb0" "sp = fold sp_apply (map snd evs) sp_init"
  shows "\<exists>bb. run_events evs bb0 = Inr bb \<and> bb_stats bb = sp_stats sp \<and> book_count bb = card (dom (sp_books sp))
    \<and> (\<forall>i. case sp_books sp i of None \<Rightarrow> bb_find bb i = nullptr | Some sb \<Rightarrow> shows_book bb i sb)"
proof -
  obtain bb where "BookBuilder True = Inr bb" "bb_rel bb sp_init" by (rule BookBuilder_rel)
  with assms(1) have "bb_rel bb0 sp_init" by simp
  from run_events_rel [OF this assms(2)] obtain bb where bb: "run_events evs bb0 = Inr bb" "bb_rel bb sp"
    using assms(3) by blast
  with bb_rel_shows [OF bb(2)] show ?thesis by (auto simp: bb_rel_def)
qed

definition sample_env :: event_env where
  "sample_env = \<lparr>ee_book = 1000, ee_storage = 5000, ee_junk = (\<lambda>_. Order_init), ee_table_ok = True,
     ee_grow = \<lparr>ge_mem = 0, ge_free_ok = False, ge_table_ok = False\<rparr>, ee_tsc = 0\<rparr>"

definition sample_add :: mbo_event where
  "sample_add = MboEvent_init\<lparr>ev_oid := 7, ev_price := 100, ev_qty := 50\<rparr>"

lemma sample_events_ok:
  assumes "BookBuilder True = Inr bb"
  shows "events_ok [(sample_env, sample_add)] bb"
proof -
  have "bb_books bb = Map.empty" "bb_owned_books bb = []"
    using assms by (auto simp: BookBuilder_def split: sum.splits)
  then have "add_env_ok sample_env sample_add (count_msg bb)"
    by (simp add: add_env_ok_def sample_env_def sample_add_def MboEvent_init_def EMPTY_def count_msg_def book_count_def INSTRUMENTS_def)
  moreover have "ev_etype sample_add = ADDED" by (simp add: sample_add_def MboEvent_init_def)
  ultimately show ?thesis by (simp add: event_ok_def split: sum.splits)
qed

theorem builder_refines_witness:
  "\<exists>bb0 bb. BookBuilder True = Inr bb0 \<and> run_events [(sample_env, sample_add)] bb0 = Inr bb
     \<and> st_msgs (bb_stats bb) = 1 \<and> st_dropped_adds (bb_stats bb) = 0 \<and> book_count bb = 1"
proof -
  obtain bb0 where bb0: "BookBuilder True = Inr bb0" by (rule BookBuilder_rel)
  from builder_refines [OF bb0 sample_events_ok [OF bb0] refl] bb0 show ?thesis
    by (auto simp: sp_apply_def sp_add_def sp_init_def sample_add_def MboEvent_init_def Stats_init_def spec_add_def spec_empty_def
        BOOK_K_def)
qed

subsection \<open>Shutdown\<close>

lemma bb_drain_rel:
  assumes "ring_holds (2 ^ c) q es" "length es < length envs" "bb_rel bb sp" "events_ok (zip envs es) bb"
  shows "\<exists>q' bb'. bb_drain envs (q, bb) = Inr (q', bb') \<and> ring_holds (2 ^ c) q' []
    \<and> run_events (zip envs es) bb = Inr bb' \<and> bb_rel bb' (fold sp_apply es sp)"
  using assms
proof (induction es arbitrary: q envs bb sp)
  case Nil
  then obtain env envs' where "envs = env # envs'" by (cases envs) auto
  moreover obtain q' where "pop (q_head q) q = Inr (None, q')" "ring_holds (2 ^ c) q' []"
    using ring.deq_none [OF Nil.prems(1)] by blast
  ultimately show ?case using Nil.prems(3) by (simp add: bb_iteration_def)
next
  case (Cons e es)
  then obtain env envs' where envs: "envs = env # envs'" by (cases envs) auto
  obtain q1 where q1: "pop (q_head q) q = Inr (Some e, q1)" "ring_holds (2 ^ c) q1 es"
    using ring.deq_some [OF Cons.prems(1)] by blast
  obtain bb1 where 1: "handle_event env e bb = Inr bb1" "bb_rel bb1 (sp_apply e sp)"
    using handle_event_rel [OF Cons.prems(3)] Cons.prems(4) envs by auto
  have "length es < length envs'" "events_ok (zip envs' es) bb1" using Cons.prems(2,4) envs 1(1) by simp_all
  from Cons.IH [OF q1(2) this(1) 1(2) this(2)] q1(1) 1(1) envs show ?case by (simp add: bb_iteration_def)
qed

text \<open>
  Nothing is lost at shutdown: when the builder is told to stop, the second loop of
  \<open>run\<close> ends with an empty ring and has handled, in order, every event that was still in it.
\<close>

lemma builder_drains:
  assumes "BookBuilder True = Inr bb0" "events_ok past bb0" "run_events past bb0 = Inr bb"
    "ring_holds (2 ^ c) q es" "length es < length envs" "events_ok (zip envs es) (bb_request_stop bb)"
    "sp = fold sp_apply (map snd past @ es) sp_init"
  shows "\<exists>q' bb'. bb_drain envs (q, bb_request_stop bb) = Inr (q', bb') \<and> ring_holds (2 ^ c) q' []
    \<and> bb_stats bb' = sp_stats sp
    \<and> (\<forall>i. case sp_books sp i of None \<Rightarrow> bb_find bb' i = nullptr | Some sb \<Rightarrow> shows_book bb' i sb)"
proof -
  obtain bb' where "BookBuilder True = Inr bb'" "bb_rel bb' sp_init" by (rule BookBuilder_rel)
  with assms(1) have r0: "bb_rel bb0 sp_init" by simp
  from run_events_rel [OF r0 assms(2)] assms(3) have "bb_rel bb (fold sp_apply (map snd past) sp_init)" by auto
  then have rel: "bb_rel (bb_request_stop bb) (fold sp_apply (map snd past) sp_init)"
    by (simp add: bb_request_stop_def bb_rel_def book_count_def)
  from bb_drain_rel [OF assms(4,5) rel assms(6)] assms(7) obtain q' bb' where
    d: "bb_drain envs (q, bb_request_stop bb) = Inr (q', bb')" "ring_holds (2 ^ c) q' []" "bb_rel bb' sp"
    by auto
  with bb_rel_shows [OF d(3)] show ?thesis by (auto simp: bb_rel_def)
qed

lemma builder_drains_witness:
  "\<exists>bb0 q q' bb'. BookBuilder True = Inr bb0 \<and> push (q_tail (SPSCQueue (2 ^ 12) :: mbo_event spsc)) sample_add (SPSCQueue (2 ^ 12)) = (True, q)
     \<and> bb_drain [sample_env, sample_env] (q, bb_request_stop bb0) = Inr (q', bb') \<and> st_msgs (bb_stats bb') = 1"
proof -
  obtain bb0 where bb0: "BookBuilder True = Inr bb0" by (rule BookBuilder_rel)
  have h: "ring_holds (2 ^ 12) (SPSCQueue (2 ^ 12)) ([] :: mbo_event list)" by (rule SPSCQueue_holds [OF refl])
  have "length ([] :: mbo_event list) < 2 ^ 12 - 1" by simp
  from ring.enq_room [OF h this, of sample_add] obtain q where q: "push (q_tail (SPSCQueue (2 ^ 12) :: mbo_event spsc)) sample_add (SPSCQueue (2 ^ 12)) = (True, q)"
    "ring_holds (2 ^ 12) q [sample_add]"
    unfolding append_Nil by blast
  have "bb_books bb0 = Map.empty" "bb_owned_books bb0 = []"
    using bb0 by (auto simp: BookBuilder_def split: sum.splits)
  then have "add_env_ok sample_env sample_add (count_msg (bb_request_stop bb0))"
    by (simp add: add_env_ok_def sample_env_def sample_add_def MboEvent_init_def EMPTY_def count_msg_def bb_request_stop_def
        book_count_def INSTRUMENTS_def)
  moreover have "ev_etype sample_add = ADDED" by (simp add: sample_add_def MboEvent_init_def)
  ultimately have ok: "events_ok (zip [sample_env, sample_env] [sample_add]) (bb_request_stop bb0)"
    by (simp add: event_ok_def split: sum.splits)
  have "sp_stats (fold sp_apply [sample_add] sp_init) = \<lparr>st_msgs = 1, st_dropped_adds = 0, st_unknown_oids = 0\<rparr>"
    by (simp add: sp_apply_def sp_add_def sp_init_def sample_add_def MboEvent_init_def Stats_init_def spec_add_def
        spec_empty_def BOOK_K_def)
  with builder_drains [where past = "[]", OF bb0 _ _ q(2) _ ok refl] bb0 q(1) show ?thesis by fastforce
qed

subsection \<open>A full instrument table\<close>

text \<open>
  C38. The instrument table never grows: once it holds \<open>2 * INSTRUMENTS\<close> instruments, an add for
  another one builds a book and the order in it, but the table refuses the entry; the builder
  cannot find the book again, and the next add for the instrument builds yet another one.
\<close>

theorem instrument_table_full:
  assumes "bb_rel bb sp" "book_count bb = 2 * INSTRUMENTS" "sp_books sp (ev_instrument mbo) = None"
    "2 \<le> ee_book env" "2 \<le> ee_storage env" "ee_table_ok env" "ev_price mbo \<noteq> EMPTY (ev_side mbo)"
  shows "\<exists>bb'. add_order_handler env mbo bb = Inr bb' \<and> book_count bb' = book_count bb + 1
    \<and> bb_find bb' (ev_instrument mbo) = nullptr \<and> bb_stats bb' = bb_stats bb"
proof -
  let ?i = "ev_instrument mbo" and ?t = "bb_instrument_map bb"
  have inv: "lp_inv BackwardShift FibHash32 ?t" using assms(1) by (simp add: bb_rel_def)
  have find: "bb_find bb ?i = nullptr" "lp_map ?t ?i = None"
    using assms(1,3) by (cases rule: bb_find_rel [where i = ?i]; simp)+
  have "card (dom (lp_map ?t)) = lp_capacity ?t"
    using bb_rel_card [OF assms(1)] assms(1,2) by (simp add: bb_rel_def)
  then have ins: "lp_insert BackwardShift FibHash32 ?t ?i (ee_book env) = (False, ?t)"
    using lp.ins_refused [OF inv assms(4)] by blast
  obtain b where b: "OrderBook BOOK_K BOOK_COLD (ee_storage env) (ee_junk env) True = Inr b" "book_is b spec_empty"
    "env_ok (ee_grow env) b" by (rule new_book [OF assms(5)])
  have "fst (spec_add book_cap (ev_oid mbo) (ev_qty mbo) (ev_price mbo) (ev_side mbo) spec_empty) = Inr ()"
    by (simp add: spec_add_def spec_empty_def BOOK_K_def)
  then obtain b' where b': "add_order (ee_grow env) (ev_oid mbo) (ev_qty mbo) (ev_price mbo) (ev_side mbo) b = Inr (Inr (), b')"
    using book_is_add [OF b(2,3) assms(7), of "ev_oid mbo" "ev_qty mbo"] by auto
  let ?bb = "bb\<lparr>bb_books := (bb_books bb)(ee_book env \<mapsto> b'), bb_owned_books := bb_owned_books bb @ [ee_book env]\<rparr>"
  have "add_order_handler env mbo bb = Inr ?bb"
    using find(1) assms(4,6) b(1) b' ins
    by (simp add: add_order_handler_def get_or_init_book_def with_book_def Let_def)
  moreover have "bb_find ?bb ?i = nullptr" using find(1) by (simp add: bb_find_def)
  ultimately show ?thesis by (simp add: book_count_def)
qed

text \<open>A builder with any number of books up to the limit.\<close>

lemma builder_with_books:
  "n \<le> 2 * INSTRUMENTS \<Longrightarrow> \<exists>bb sp. bb_rel bb sp \<and> book_count bb = n \<and> dom (sp_books sp) = word_of_nat ` {..<n}"
proof (induction n)
  case 0
  obtain bb where "bb_rel bb sp_init" by (rule BookBuilder_rel)
  moreover from this have "book_count bb = 0" by (simp add: bb_rel_def sp_init_def)
  ultimately show ?case by (auto simp: sp_init_def intro!: exI [of _ bb] exI [of _ sp_init])
next
  case (Suc n)
  then obtain bb sp where n: "bb_rel bb sp" "book_count bb = n" "dom (sp_books sp) = word_of_nat ` {..<n}" by auto
  have inv: "lp_inv BackwardShift FibHash32 (bb_instrument_map bb)" using n(1) by (simp add: bb_rel_def)
  have "finite (dom (bb_books bb))"
    using lp.lookup_finite [OF inv] n(1) by (metis bb_rel_def books_rel_def finite_ran)
  then have "finite (dom (bb_books bb) \<union> {0, 1})" by simp
  then obtain a where a: "a \<notin> dom (bb_books bb) \<union> {0, 1}" using ex_new_if_finite [OF infinite_UNIV_nat] by blast
  let ?env = "sample_env\<lparr>ee_book := a\<rparr>" and ?mbo = "sample_add\<lparr>ev_instrument := word_of_nat n\<rparr>"
  have small: "n < 2 ^ 32" using Suc.prems by (simp add: INSTRUMENTS_def)
  have new: "(word_of_nat n :: instrument_t) \<notin> dom (sp_books sp)"
  proof
    assume "(word_of_nat n :: instrument_t) \<in> dom (sp_books sp)"
    then obtain m where "m < n" "word_of_nat n = (word_of_nat m :: u32)" unfolding n(3) by auto
    then show False using small unat_u32_of_nat [of n] unat_u32_of_nat [of m] by simp
  qed
  have none: "sp_books sp (word_of_nat n) = None" using new by auto
  have "bb_books bb nullptr = None"
  proof (rule ccontr)
    assume "bb_books bb nullptr \<noteq> None"
    then have "nullptr \<in> ran (lp_map (bb_instrument_map bb))" using n(1) by (auto simp: bb_rel_def books_rel_def)
    then obtain j where "lp_map (bb_instrument_map bb) j = Some nullptr" by (auto simp: ran_def)
    from lp.lookup_live [OF inv this] show False by simp
  qed
  moreover have "bb_find bb (word_of_nat n) = nullptr"
    using n(1) none by (cases rule: bb_find_rel [where i = "word_of_nat n"]) simp_all
  ultimately have "add_env_ok ?env ?mbo bb"
    using a n(2) Suc.prems by (auto simp: add_env_ok_def sample_env_def sample_add_def MboEvent_init_def EMPTY_def)
  from add_order_handler_rel [OF n(1) this] obtain bb' where bb': "bb_rel bb' (sp_add ?mbo sp)" by blast
  have "dom (sp_books (sp_add ?mbo sp)) = insert (word_of_nat n) (dom (sp_books sp))"
    by (simp add: sp_add_def Let_def case_prod_unfold)
  moreover have "finite (dom (sp_books sp))" unfolding n(3) by simp
  then have "card (insert (word_of_nat n) (dom (sp_books sp))) = Suc (card (dom (sp_books sp)))"
    using new by simp
  moreover have "card (dom (sp_books sp)) = n" using n(1,2) by (simp add: bb_rel_def)
  ultimately have dom': "dom (sp_books (sp_add ?mbo sp)) = insert (word_of_nat n) (dom (sp_books sp))" "book_count bb' = Suc n"
    using bb' by (simp_all add: bb_rel_def)
  have "dom (sp_books (sp_add ?mbo sp)) = word_of_nat ` {..<Suc n}" unfolding dom'(1) n(3) lessThan_Suc by simp
  with bb' dom'(2) show ?case by blast
qed

theorem instrument_table_full_witness:
  "\<exists>bb bb'. book_count bb = 16384 \<and> add_order_handler sample_env (sample_add\<lparr>ev_instrument := 16384\<rparr>) bb = Inr bb'
     \<and> book_count bb' = 16385 \<and> bb_find bb' 16384 = nullptr"
proof -
  obtain bb sp where n: "bb_rel bb sp" "book_count bb = 2 * INSTRUMENTS" "dom (sp_books sp) = word_of_nat ` {..<2 * INSTRUMENTS}"
    using builder_with_books [of "2 * INSTRUMENTS"] by blast
  have "(16384 :: u32) \<notin> word_of_nat ` {..<2 * INSTRUMENTS}"
  proof
    assume "(16384 :: u32) \<in> word_of_nat ` {..<2 * INSTRUMENTS}"
    then obtain m where "m < 16384" "(16384 :: u32) = word_of_nat m" by (auto simp: INSTRUMENTS_def)
    then have "unat (16384 :: u32) = m" using unat_u32_of_nat [of m] by simp
    with \<open>m < 16384\<close> show False by simp
  qed
  then have "sp_books sp 16384 = None" using n(3) by blast
  with instrument_table_full [OF n(1,2), of "sample_add\<lparr>ev_instrument := 16384\<rparr>" sample_env] n(2) show ?thesis
    by (auto simp: sample_env_def sample_add_def MboEvent_init_def EMPTY_def INSTRUMENTS_def)
qed

end
