(* ===== verification/Buf_IO.thy ===== *)
theory Buf_IO
  imports Market_Types
begin

section \<open>Byte buffers (src/feed/buf\_reader.hpp, src/feed/buf\_writer.hpp)\<close>

text \<open>
  A reader is the list of bytes it has left. The assertions on the remaining size are absent
  from a release build; reading past the end is \<open>Bad_Access\<close>. The machine is little-endian:
  numbers are loaded byte by byte from the low end and byte-swapped. A writer is the bytes
  written so far and the room left in its span.
\<close>

subsection \<open>Numbers in memory\<close>

definition num_bytes :: "'a :: len itself \<Rightarrow> nat" where
  "num_bytes _ = LENGTH('a) div 8"

fun le_val :: "byte list \<Rightarrow> nat" where
  "le_val [] = 0"
| "le_val (b # bs) = unat b + 256 * le_val bs"

fun le_bytes :: "nat \<Rightarrow> nat \<Rightarrow> byte list" where
  "le_bytes 0 v = []"
| "le_bytes (Suc n) v = word_of_nat v # le_bytes n (v div 256)"

definition load_native :: "byte list \<Rightarrow> 'a :: len word" where
  "load_native bs = word_of_nat (le_val bs)"

definition store_native :: "'a :: len word \<Rightarrow> byte list" where
  "store_native w = le_bytes (num_bytes TYPE('a)) (unat w)"

definition byteswap :: "'a :: len word \<Rightarrow> 'a word" where
  "byteswap w = load_native (rev (store_native w))"

subsection \<open>Reader\<close>

definition from_big_endian :: "'a :: len word \<Rightarrow> 'a word" where
  "from_big_endian value = byteswap value"

definition read_num :: "byte list \<Rightarrow> ('a :: len word \<times> byte list) res" where
  "read_num buf =
     (let n = num_bytes TYPE('a) in
      if length buf < n then Inl Bad_Access
      else Inr (from_big_endian (load_native (take n buf)), drop n buf))"

definition read_timestamp :: "byte list \<Rightarrow> (u64 \<times> byte list) res" where
  "read_timestamp buf =
     (if length buf < 6 then Inl Bad_Access
      else Inr (from_big_endian (load_native ([0, 0] @ take 6 buf)), drop 6 buf))"

definition read_chars :: "nat \<Rightarrow> byte list \<Rightarrow> (byte list \<times> byte list) res" where
  "read_chars n buf = (if length buf < n then Inl Bad_Access else Inr (take n buf, drop n buf))"

definition has_bytes :: "byte list \<Rightarrow> bool" where
  "has_bytes buf \<longleftrightarrow> length buf > 0"

definition remaining :: "byte list \<Rightarrow> nat" where
  "remaining buf = length buf"

definition take_n :: "nat \<Rightarrow> byte list \<Rightarrow> (byte list \<times> byte list) res" where
  "take_n n buf = (if length buf < n then Inl Bad_Access else Inr (take n buf, drop n buf))"

definition take_n_sv :: "nat \<Rightarrow> byte list \<Rightarrow> (byte list \<times> byte list) res" where
  "take_n_sv n buf = (if length buf < n then Inl Bad_Access else Inr (take n buf, drop n buf))"

subsection \<open>Writer\<close>

record buf_writer =
  bw_out :: "byte list"
  bw_room :: nat

definition write_bytes :: "byte list \<Rightarrow> buf_writer \<Rightarrow> buf_writer res" where
  "write_bytes bs w = (if bw_room w < length bs then Inl Bad_Access
     else Inr \<lparr>bw_out = bw_out w @ bs, bw_room = bw_room w - length bs\<rparr>)"

definition to_big_endian :: "'a :: len word \<Rightarrow> 'a word" where
  "to_big_endian value = byteswap value"

definition write_num_be :: "'a :: len word \<Rightarrow> buf_writer \<Rightarrow> buf_writer res" where
  "write_num_be val w = write_bytes (store_native (to_big_endian val)) w"

definition write_num_le :: "'a :: len word \<Rightarrow> buf_writer \<Rightarrow> buf_writer res" where
  "write_num_le val w = write_bytes (store_native val) w"

definition write_sv :: "byte list \<Rightarrow> buf_writer \<Rightarrow> buf_writer res" where
  "write_sv sv w = write_bytes sv w"

subsection \<open>Facts\<close>

lemma length_le_bytes [simp]: "length (le_bytes n v) = n"
  by (induction n arbitrary: v) auto

lemma length_store_native [simp]: "length (store_native (w :: 'a :: len word)) = num_bytes TYPE('a)"
  by (simp add: store_native_def)

lemma unat_byte_of_nat: "unat (word_of_nat v :: byte) = v mod 256"
  by (simp add: unsigned_of_nat take_bit_eq_mod)

lemma le_val_le_bytes: "le_val (le_bytes n v) = v mod 256 ^ n"
proof (induction n arbitrary: v)
  case (Suc n)
  then show ?case by (simp add: unat_byte_of_nat mod_mult2_eq)
qed (simp)

lemma le_val_less: "le_val bs < 256 ^ length bs"
proof (induction bs)
  case (Cons b bs)
  have "unat b < 256" using unsigned_less [where 'a = nat, of b] by simp
  with Cons show ?case by simp
qed simp

lemma le_bytes_le_val: "le_bytes (length bs) (le_val bs) = bs"
proof (induction bs)
  case (Cons b bs)
  have "unat b < 256" using unsigned_less [where 'a = nat, of b] by simp
  then have "(unat b + 256 * le_val bs) div 256 = le_val bs" by simp
  moreover have "word_of_nat (unat b + 256 * le_val bs) = b"
    unfolding word_unat_eq_iff unat_byte_of_nat using \<open>unat b < 256\<close> by simp
  ultimately show ?case using Cons by simp
qed simp

text \<open>The types read and written have a whole number of bytes.\<close>

definition byte_sized :: "'a :: len itself \<Rightarrow> bool" where
  "byte_sized T \<longleftrightarrow> 8 * num_bytes T = LENGTH('a)"

lemma byte_sizes [simp]: "byte_sized TYPE(8)" "byte_sized TYPE(16)" "byte_sized TYPE(32)" "byte_sized TYPE(64)"
  by (simp_all add: byte_sized_def num_bytes_def)

lemma num_bytes_simps [simp]: "num_bytes TYPE(8) = 1" "num_bytes TYPE(16) = 2" "num_bytes TYPE(32) = 4"
  "num_bytes TYPE(64) = 8"
  by (simp_all add: num_bytes_def)

lemma byte_sized_power: "byte_sized TYPE('a :: len) \<Longrightarrow> 256 ^ num_bytes TYPE('a) = (2 :: nat) ^ LENGTH('a)"
proof -
  assume "byte_sized TYPE('a)"
  then have "(2 :: nat) ^ LENGTH('a) = (2 ^ 8) ^ num_bytes TYPE('a)"
    by (simp only: byte_sized_def flip: power_mult)
  then show ?thesis by simp
qed

lemma load_store_native:
  assumes "byte_sized TYPE('a :: len)"
  shows "load_native (store_native (w :: 'a word)) = w"
  using unsigned_less [where 'a = nat, of w] byte_sized_power [OF assms]
  by (simp add: load_native_def store_native_def le_val_le_bytes)

lemma store_load_native:
  assumes "byte_sized TYPE('a :: len)" "length bs = num_bytes TYPE('a)"
  shows "store_native (load_native bs :: 'a word) = bs"
proof -
  have "unat (word_of_nat (le_val bs) :: 'a word) = le_val bs"
    using le_val_less [of bs] byte_sized_power [OF assms(1)] assms(2)
    by (simp add: unsigned_of_nat take_bit_nat_eq_self)
  then show ?thesis using le_bytes_le_val [of bs] assms(2) by (simp add: store_native_def load_native_def)
qed

lemma byteswap_byteswap:
  assumes "byte_sized TYPE('a :: len)"
  shows "byteswap (byteswap w) = (w :: 'a word)"
  by (simp add: byteswap_def store_load_native [OF assms] load_store_native [OF assms])

text \<open>A number in network byte order.\<close>

definition be_bytes :: "'a :: len word \<Rightarrow> byte list" where
  "be_bytes w = rev (store_native w)"

lemma length_be_bytes [simp]: "length (be_bytes (w :: 'a :: len word)) = num_bytes TYPE('a)"
  by (simp add: be_bytes_def)

lemma read_num_eq:
  assumes "byte_sized TYPE('a :: len)"
  shows "read_num buf = (if length buf < num_bytes TYPE('a) then Inl Bad_Access
    else Inr (word_of_nat (le_val (rev (take (num_bytes TYPE('a)) buf))) :: 'a word, drop (num_bytes TYPE('a)) buf))"
proof (cases "length buf < num_bytes TYPE('a)")
  case True
  then show ?thesis by (simp add: read_num_def)
next
  case False
  then have "store_native (load_native (take (num_bytes TYPE('a)) buf) :: 'a word) = take (num_bytes TYPE('a)) buf"
    by (intro store_load_native [OF assms]) simp
  with False show ?thesis
    by (simp add: read_num_def from_big_endian_def byteswap_def Let_def) (simp add: load_native_def)
qed

lemma read_num_be_bytes:
  assumes "byte_sized TYPE('a :: len)"
  shows "read_num (be_bytes (w :: 'a word) @ rest) = Inr (w, rest)"
  using load_store_native [OF assms, of w] by (simp add: read_num_eq [OF assms] be_bytes_def load_native_def)

lemma read_num_Some:
  assumes "byte_sized TYPE('a :: len)" "num_bytes TYPE('a) \<le> length buf"
  obtains w :: "'a :: len word" where "read_num buf = Inr (w, drop (num_bytes TYPE('a)) buf)"
    "buf = be_bytes w @ drop (num_bytes TYPE('a)) buf"
proof
  let ?n = "num_bytes TYPE('a)"
  let ?w = "load_native (rev (take ?n buf)) :: 'a word"
  show "read_num buf = Inr (?w, drop ?n buf)" using assms by (simp add: read_num_eq load_native_def)
  have "be_bytes ?w = take ?n buf" using assms by (simp add: be_bytes_def store_load_native)
  then show "buf = be_bytes ?w @ drop ?n buf" by simp
qed

lemma write_num_be_eq:
  assumes "byte_sized TYPE('a :: len)"
  shows "write_num_be (v :: 'a word) w = write_bytes (be_bytes v) w"
  by (simp add: write_num_be_def to_big_endian_def byteswap_def be_bytes_def store_load_native [OF assms])

lemma read_num_fails:
  assumes "byte_sized TYPE('a :: len)"
  shows "(read_num buf :: ('a word \<times> byte list) res) = Inl Bad_Access \<longleftrightarrow> length buf < num_bytes TYPE('a)"
  by (simp add: read_num_eq [OF assms])

text \<open>
  What the writer writes, the reader reads back: writing a number of whole bytes in
  network order and reading the bytes written gives the number and leaves the rest of the
  buffer; a write without room and a read without enough bytes are the only accesses that
  leave the span.
\<close>

lemma num_roundtrip:
  assumes "byte_sized TYPE('a :: len)"
  shows "(if bw_room w < num_bytes TYPE('a) then write_num_be (v :: 'a word) w = Inl Bad_Access
     else \<exists>bs. write_num_be v w = Inr \<lparr>bw_out = bw_out w @ bs, bw_room = bw_room w - num_bytes TYPE('a)\<rparr>
       \<and> length bs = num_bytes TYPE('a) \<and> read_num (bs @ rest) = Inr (v, rest))
    \<and> ((read_num buf :: ('a word \<times> byte list) res) = Inl Bad_Access \<longleftrightarrow> length buf < num_bytes TYPE('a))"
  using read_num_be_bytes [OF assms, of v rest] read_num_fails [OF assms, of buf]
  by (auto simp: write_num_be_eq [OF assms] write_bytes_def)

subsection \<open>MoldUDP64 packets (src/feed/mold\_udp64.hpp)\<close>

definition SESSION_SIZE :: nat where
  "SESSION_SIZE = 10"

definition HEADER_SIZE :: nat where
  "HEADER_SIZE = SESSION_SIZE + num_bytes TYPE(64) + num_bytes TYPE(16)"

definition HEARTBEAT :: u16 where
  "HEARTBEAT = 0x0000"

definition END_OF_SESSION :: u16 where
  "END_OF_SESSION = 0xFFFF"

record mold_header =
  mh_session :: "byte list"
  mh_seq_num :: u64
  mh_msg_count :: u16

definition read_header :: "byte list \<Rightarrow> (mold_header option \<times> byte list) res" where
  "read_header reader =
     (if remaining reader < HEADER_SIZE then Inr (None, reader)
      else bind_res (take_n_sv SESSION_SIZE reader) (\<lambda>(session, reader).
        bind_res (read_num reader) (\<lambda>(seq_num, reader).
        bind_res (read_num reader) (\<lambda>(msg_count, reader).
        Inr (Some \<lparr>mh_session = session, mh_seq_num = seq_num, mh_msg_count = msg_count\<rparr>, reader)))))"

definition write_header :: "mold_header \<Rightarrow> buf_writer \<Rightarrow> buf_writer res" where
  "write_header hdr w =
     bind_res (write_sv (mh_session hdr) w) (\<lambda>w.
     bind_res (write_num_be (mh_seq_num hdr) w) (\<lambda>w.
     write_num_be (mh_msg_count hdr) w))"

definition header_bytes :: "mold_header \<Rightarrow> byte list" where
  "header_bytes hdr = mh_session hdr @ be_bytes (mh_seq_num hdr) @ be_bytes (mh_msg_count hdr)"

lemma HEADER_SIZE_eq [simp]: "HEADER_SIZE = 20"
  by (simp add: HEADER_SIZE_def SESSION_SIZE_def)

lemma read_header_bytes:
  assumes "length (mh_session hdr) = SESSION_SIZE"
  shows "read_header (header_bytes hdr @ rest) = Inr (Some hdr, rest)"
proof -
  have "take_n_sv SESSION_SIZE (header_bytes hdr @ rest)
      = Inr (mh_session hdr, be_bytes (mh_seq_num hdr) @ be_bytes (mh_msg_count hdr) @ rest)"
    using assms by (simp add: take_n_sv_def header_bytes_def)
  moreover have "20 \<le> length (header_bytes hdr @ rest)"
    using assms by (simp add: header_bytes_def SESSION_SIZE_def)
  ultimately show ?thesis
    by (simp add: read_header_def remaining_def read_num_be_bytes)
qed

lemma read_header_cases:
  obtains (short) "length bs < HEADER_SIZE" "read_header bs = Inr (None, bs)"
  | (header) hdr rest where "read_header bs = Inr (Some hdr, rest)" "bs = header_bytes hdr @ rest"
      "length (mh_session hdr) = SESSION_SIZE"
proof (cases "length bs < HEADER_SIZE")
  case True
  then show ?thesis using short by (simp add: read_header_def remaining_def)
next
  case False
  let ?r1 = "drop SESSION_SIZE bs"
  have l1: "num_bytes TYPE(64) \<le> length ?r1" "num_bytes TYPE(16) \<le> length (drop 8 ?r1)"
    using False by (simp_all add: SESSION_SIZE_def)
  obtain sq :: u64 where sq: "read_num ?r1 = Inr (sq, drop 8 ?r1)" "?r1 = be_bytes sq @ drop 8 ?r1"
    using read_num_Some [OF byte_sizes(4) l1(1)] by (metis num_bytes_simps(4))
  obtain n :: u16 where n: "read_num (drop 8 ?r1) = Inr (n, drop 2 (drop 8 ?r1))"
    "drop 8 ?r1 = be_bytes n @ drop 2 (drop 8 ?r1)"
    using read_num_Some [OF byte_sizes(2) l1(2)] by (metis num_bytes_simps(2))
  let ?hdr = "\<lparr>mh_session = take SESSION_SIZE bs, mh_seq_num = sq, mh_msg_count = n\<rparr>"
  have "bs = header_bytes ?hdr @ drop 2 (drop 8 ?r1)"
    using sq(2) n(2) by (simp add: header_bytes_def) (metis append_take_drop_id)
  moreover have "read_header bs = Inr (Some ?hdr, drop 2 (drop 8 ?r1))"
    using False sq(1) n(1) by (simp add: read_header_def remaining_def take_n_sv_def SESSION_SIZE_def)
  moreover have "length (mh_session ?hdr) = SESSION_SIZE"
    using False by (simp add: SESSION_SIZE_def)
  ultimately show ?thesis using header by blast
qed

lemma length_header_bytes: "length (mh_session hdr) = SESSION_SIZE \<Longrightarrow> length (header_bytes hdr) = HEADER_SIZE"
  by (simp add: header_bytes_def SESSION_SIZE_def)

lemma write_header_bytes:
  assumes "length (mh_session hdr) = SESSION_SIZE" "HEADER_SIZE \<le> bw_room w"
  shows "write_header hdr w = Inr \<lparr>bw_out = bw_out w @ header_bytes hdr, bw_room = bw_room w - HEADER_SIZE\<rparr>"
  using assms by (simp add: write_header_def write_sv_def write_bytes_def write_num_be_eq header_bytes_def SESSION_SIZE_def) linarith

text \<open>
  A packet header survives the wire: writing a header with a ten byte session into a span
  with room for it and reading the bytes back gives the same header and the bytes behind it;
  a buffer too short for a header is refused without reading past its end, and every other
  buffer starts with the header that is read.
\<close>

lemma header_roundtrip:
  assumes "length (mh_session hdr) = SESSION_SIZE" "HEADER_SIZE \<le> bw_room w"
  shows "(\<exists>bs. write_header hdr w = Inr \<lparr>bw_out = bw_out w @ bs, bw_room = bw_room w - HEADER_SIZE\<rparr>
      \<and> read_header (bs @ rest) = Inr (Some hdr, rest))
    \<and> (if length buf < HEADER_SIZE then read_header buf = Inr (None, buf)
       else \<exists>h. read_header buf = Inr (Some h, drop HEADER_SIZE buf)
         \<and> write_header h \<lparr>bw_out = [], bw_room = HEADER_SIZE\<rparr> = Inr \<lparr>bw_out = take HEADER_SIZE buf, bw_room = 0\<rparr>)"
proof
  show "\<exists>bs. write_header hdr w = Inr \<lparr>bw_out = bw_out w @ bs, bw_room = bw_room w - HEADER_SIZE\<rparr>
      \<and> read_header (bs @ rest) = Inr (Some hdr, rest)"
    using write_header_bytes [OF assms] read_header_bytes [OF assms(1)] by blast
  show "if length buf < HEADER_SIZE then read_header buf = Inr (None, buf)
       else \<exists>h. read_header buf = Inr (Some h, drop HEADER_SIZE buf)
         \<and> write_header h \<lparr>bw_out = [], bw_room = HEADER_SIZE\<rparr> = Inr \<lparr>bw_out = take HEADER_SIZE buf, bw_room = 0\<rparr>"
  proof (cases rule: read_header_cases [of buf])
    case short
    then show ?thesis by simp
  next
    case (header h r)
    have "length (header_bytes h) = HEADER_SIZE" using header(3) by (rule length_header_bytes)
    with header write_header_bytes [OF header(3), of "\<lparr>bw_out = [], bw_room = HEADER_SIZE\<rparr>"] show ?thesis by simp
  qed
qed

lemma header_roundtrip_witness:
  "\<exists>bs. write_header \<lparr>mh_session = replicate 10 65, mh_seq_num = 7, mh_msg_count = 2\<rparr> \<lparr>bw_out = [], bw_room = 64\<rparr>
      = Inr \<lparr>bw_out = bs, bw_room = 44\<rparr>
    \<and> read_header (bs @ [1]) = Inr (Some \<lparr>mh_session = replicate 10 65, mh_seq_num = 7, mh_msg_count = 2\<rparr>, [1])"
  using header_roundtrip [of "\<lparr>mh_session = replicate 10 65, mh_seq_num = 7, mh_msg_count = 2\<rparr>"
      "\<lparr>bw_out = [], bw_room = 64\<rparr>" "[1]" "[]"]
  by (simp add: SESSION_SIZE_def)

end
