(* ===== verification/Framer.thy ===== *)
theory Framer
  imports Buf_IO
begin

section \<open>The framer interface (src/feed/framer.hpp)\<close>

text \<open>
  A framer takes the buffers a transport delivers and hands the messages in them to a sink. The
  model of a \<open>feed\<close> returns what the call returned, the messages it handed over, in order, and
  the framer after the call. The interface asks of a framer that \<open>feed\<close> returns, without a
  fault, from every state it can be in; what the clients need of runs of \<open>feed\<close> follows.
\<close>

subsection \<open>Errors\<close>

datatype stream_error = Stream_Malformed

datatype sequenced_error = Malformed | Gap | EndOfSession | SessionChanged

type_synonym ('e, 'f) feed_result = "(('e + unit) \<times> byte list list \<times> 'f) res"

subsection \<open>Message blocks\<close>

text \<open>A message on the wire: its length, then its bytes.\<close>

definition msg_block :: "byte list \<Rightarrow> byte list" where
  "msg_block m = be_bytes (word_of_nat (length m) :: u16) @ m"

lemma length_msg_block [simp]: "length (msg_block m) = 2 + length m"
  by (simp add: msg_block_def)

lemma read_num_msg_block:
  "length m < 2 ^ 16 \<Longrightarrow> read_num (msg_block m @ rest) = Inr (word_of_nat (length m) :: u16, m @ rest)"
  by (simp add: msg_block_def read_num_be_bytes)

subsection \<open>Runs\<close>

text \<open>All buffers of a list, whatever \<open>feed\<close> returns for each.\<close>

fun feed_all :: "(byte list \<Rightarrow> 'f \<Rightarrow> ('e, 'f) feed_result) \<Rightarrow> byte list list \<Rightarrow> 'f
    \<Rightarrow> (('e + unit) list \<times> byte list list \<times> 'f) res" where
  "feed_all feed [] f = Inr ([], [], f)"
| "feed_all feed (d # ds) f =
     bind_res (feed d f) (\<lambda>(r, out, f).
       bind_res (feed_all feed ds f) (\<lambda>(rs, outs, f). Inr (r # rs, out @ outs, f)))"

text \<open>The buffers of a list up to the first error.\<close>

fun feed_until :: "(byte list \<Rightarrow> 'f \<Rightarrow> ('e, 'f) feed_result) \<Rightarrow> byte list list \<Rightarrow> 'f \<Rightarrow> ('e, 'f) feed_result" where
  "feed_until feed [] f = Inr (Inr (), [], f)"
| "feed_until feed (d # ds) f =
     bind_res (feed d f) (\<lambda>(r, out, f).
       case r of
         Inl e \<Rightarrow> Inr (Inl e, out, f)
       | Inr _ \<Rightarrow> bind_res (feed_until feed ds f) (\<lambda>(r, outs, f). Inr (r, out @ outs, f)))"

subsection \<open>The contract\<close>

locale framer =
  fixes feed :: "byte list \<Rightarrow> 'f \<Rightarrow> ('e, 'f) feed_result"
    and ok :: "'f \<Rightarrow> bool"
  assumes feed_total: "ok f \<Longrightarrow> \<exists>r out f'. feed d f = Inr (r, out, f') \<and> ok f'"
begin

lemma feed_all_total: "ok f \<Longrightarrow> \<exists>rs out f'. feed_all feed ds f = Inr (rs, out, f') \<and> length rs = length ds \<and> ok f'"
proof (induction ds arbitrary: f)
  case (Cons d ds)
  obtain r out f1 where 1: "feed d f = Inr (r, out, f1)" "ok f1" using feed_total [OF Cons.prems] by blast
  obtain rs outs f2 where "feed_all feed ds f1 = Inr (rs, outs, f2)" "length rs = length ds" "ok f2"
    using Cons.IH [OF 1(2)] by blast
  with 1 show ?case by simp
qed simp

lemma feed_until_total: "ok f \<Longrightarrow> \<exists>r out f'. feed_until feed ds f = Inr (r, out, f') \<and> ok f'"
proof (induction ds arbitrary: f)
  case (Cons d ds)
  obtain r out f1 where 1: "feed d f = Inr (r, out, f1)" "ok f1" using feed_total [OF Cons.prems] by blast
  obtain r' outs f2 where "feed_until feed ds f1 = Inr (r', outs, f2)" "ok f2"
    using Cons.IH [OF 1(2)] by blast
  with 1 show ?case by (cases r) simp_all
qed simp

end

end
