(* ===== verification/Mold_Framer.thy ===== *)
theory Mold_Framer
  imports Framer
begin

section \<open>MoldUDP64 framer (src/feed/mold\_udp64\_framer.hpp)\<close>

text \<open>
  The framer turns the datagrams of a MoldUDP64 session into the messages of the session, each
  once and in order. A call of \<open>feed\<close> returns its result, the messages it handed to the sink
  in order, and the framer after the call: messages handed over before an error is found stay
  handed over.
\<close>

subsection \<open>State and operations\<close>

record mold_framer =
  mf_last_session :: "byte list"
  mf_has_session :: bool
  mf_exp_seq :: u64
  mf_gap_end :: u64

text \<open>The session bytes of a new framer are indeterminate: they are an argument.\<close>

definition MoldUDP64Framer :: "byte list \<Rightarrow> mold_framer" where
  "MoldUDP64Framer junk = \<lparr>mf_last_session = junk, mf_has_session = False, mf_exp_seq = 1, mf_gap_end = 0\<rparr>"

type_synonym mold_result = "(sequenced_error, mold_framer) feed_result"

text \<open>The loop over the messages of a packet; \<open>left\<close> is \<open>hdr.msg_count - i\<close>.\<close>

fun mold_msg_loop :: "nat \<Rightarrow> u64 \<Rightarrow> byte list \<Rightarrow> byte list list \<Rightarrow> mold_framer \<Rightarrow> mold_result" where
  "mold_msg_loop 0 current_seq reader out f = Inr (Inr (), out, f)"
| "mold_msg_loop (Suc left) current_seq reader out f =
     (if remaining reader < 2 then Inr (Inl Malformed, out, f)
      else bind_res (read_num reader) (\<lambda>(msg_length :: u16, reader).
        if remaining reader < unat msg_length then Inr (Inl Malformed, out, f)
        else bind_res (take_n (unat msg_length) reader) (\<lambda>(s, reader).
          if current_seq < mf_exp_seq f then mold_msg_loop left (current_seq + 1) reader out f
          else mold_msg_loop left (current_seq + 1) reader (out @ [s]) (f\<lparr>mf_exp_seq := mf_exp_seq f + 1\<rparr>))))"

definition mold_feed :: "byte list \<Rightarrow> mold_framer \<Rightarrow> mold_result" where
  "mold_feed data f =
     bind_res (read_header data) (\<lambda>(hdr_opt, reader).
       case hdr_opt of
         None \<Rightarrow> Inr (Inl Malformed, [], f)
       | Some hdr \<Rightarrow>
           let f = (if \<not> mf_has_session f then f\<lparr>mf_last_session := mh_session hdr, mf_has_session := True\<rparr> else f) in
           if mf_last_session f \<noteq> mh_session hdr
           then Inr (Inl SessionChanged, [], f\<lparr>mf_last_session := mh_session hdr, mf_exp_seq := 1\<rparr>)
           else if mh_seq_num hdr > mf_exp_seq f
           then Inr (Inl Gap, [], f\<lparr>mf_gap_end := mh_seq_num hdr\<rparr>)
           else if mh_msg_count hdr = END_OF_SESSION
           then Inr (Inl EndOfSession, [], f)
           else if mh_seq_num hdr + ucast (mh_msg_count hdr) \<le> mf_exp_seq f
           then Inr (Inr (), [], f)
           else mold_msg_loop (unat (mh_msg_count hdr)) (mh_seq_num hdr) reader [] f)"

definition mold_session :: "mold_framer \<Rightarrow> byte list" where
  "mold_session f = mf_last_session f"

definition mold_expected :: "mold_framer \<Rightarrow> u64" where
  "mold_expected f = mf_exp_seq f"

definition mold_gap_end :: "mold_framer \<Rightarrow> u64" where
  "mold_gap_end f = mf_gap_end f"

subsection \<open>Message blocks\<close>

lemma read_num_u16:
  assumes "2 \<le> length bs"
  obtains w :: u16 where "read_num bs = Inr (w, drop 2 bs)" "take 2 bs = be_bytes w"
proof -
  have len: "num_bytes TYPE(16) \<le> length bs" using assms by simp
  obtain w :: u16 where w: "read_num bs = Inr (w, drop (num_bytes TYPE(16)) bs)" "bs = be_bytes w @ drop (num_bytes TYPE(16)) bs"
    by (rule read_num_Some [OF byte_sizes(2) len])
  have "take 2 bs = be_bytes w" by (subst w(2)) simp
  with w(1) show ?thesis using that by simp
qed

text \<open>
  A buffer starts with a whole block, or is cut inside the length or inside the message.
\<close>

lemma mold_msg_loop_block:
  assumes "length m < 2 ^ 16"
  shows "mold_msg_loop (Suc left) cur (msg_block m @ rest) out f =
    (if cur < mf_exp_seq f then mold_msg_loop left (cur + 1) rest out f
     else mold_msg_loop left (cur + 1) rest (out @ [m]) (f\<lparr>mf_exp_seq := mf_exp_seq f + 1\<rparr>))"
  using assms by (simp add: read_num_msg_block remaining_def take_n_def unat_u16_of_nat)

lemma mold_msg_loop_cut:
  assumes "length m < 2 ^ 16" "j < 2 + length m"
  shows "mold_msg_loop (Suc left) cur (take j (msg_block m)) out f = Inr (Inl Malformed, out, f)"
proof (cases "j < 2")
  case True
  then show ?thesis by (simp add: remaining_def)
next
  case False
  then have "take j (msg_block m) = be_bytes (word_of_nat (length m) :: u16) @ take (j - 2) m"
    by (simp add: msg_block_def)
  moreover have "j - 2 < length m" using False assms(2) by simp
  ultimately show ?thesis using False assms(1) by (simp add: read_num_be_bytes remaining_def unat_u16_of_nat)
qed

text \<open>Whatever the bytes, the loop returns and reads nothing outside the packet.\<close>

lemma mold_msg_loop_total:
  "\<exists>r new f'. mold_msg_loop left cur bs out f = Inr (r, out @ new, f') \<and> r \<in> {Inr (), Inl Malformed}
     \<and> length new \<le> left
     \<and> f' = f\<lparr>mf_exp_seq := mf_exp_seq f + word_of_nat (length new)\<rparr>"
proof (induction left arbitrary: cur bs out f)
  case 0
  then show ?case by (intro exI [of _ "Inr ()"] exI [of _ "[]"]) simp
next
  case (Suc left)
  show ?case
  proof (cases "length bs < 2")
    case True
    then show ?thesis by (intro exI [of _ "Inl Malformed"] exI [of _ "[]"]) (simp add: remaining_def)
  next
    case False
    then have "2 \<le> length bs" by simp
    then obtain w :: u16 where w: "read_num bs = Inr (w, drop 2 bs)" by (rule read_num_u16)
    show ?thesis
    proof (cases "length (drop 2 bs) < unat w")
      case True
      with w False show ?thesis
        by (intro exI [of _ "Inl Malformed"] exI [of _ "[]"]) (simp add: remaining_def)
    next
      case fits: False
      let ?s = "take (unat w) (drop 2 bs)" and ?r = "drop (unat w) (drop 2 bs)"
      show ?thesis
      proof (cases "cur < mf_exp_seq f")
        case True
        obtain r new f' where *: "mold_msg_loop left (cur + 1) ?r out f = Inr (r, out @ new, f')"
          "r \<in> {Inr (), Inl Malformed}" "length new \<le> left"
          "f' = f\<lparr>mf_exp_seq := mf_exp_seq f + word_of_nat (length new)\<rparr>"
          using Suc.IH [of "cur + 1" ?r out f] by blast
        have "mold_msg_loop (Suc left) cur bs out f = Inr (r, out @ new, f')"
          using w False fits True *(1) by (simp add: remaining_def take_n_def)
        with * show ?thesis by (intro exI [of _ r] exI [of _ new] exI [of _ f']) simp
      next
        case new: False
        let ?f = "f\<lparr>mf_exp_seq := mf_exp_seq f + 1\<rparr>"
        obtain r new f' where *: "mold_msg_loop left (cur + 1) ?r (out @ [?s]) ?f = Inr (r, (out @ [?s]) @ new, f')"
          "r \<in> {Inr (), Inl Malformed}" "length new \<le> left"
          "f' = ?f\<lparr>mf_exp_seq := mf_exp_seq ?f + word_of_nat (length new)\<rparr>"
          using Suc.IH [of "cur + 1" ?r "out @ [?s]" ?f] by blast
        have "mold_msg_loop (Suc left) cur bs out f = Inr (r, out @ (?s # new), f')"
          using w False fits new *(1) by (simp add: remaining_def take_n_def)
        with * show ?thesis by (intro exI [of _ r] exI [of _ "?s # new"] exI [of _ f']) simp
      qed
    qed
  qed
qed

subsection \<open>Packets of a session\<close>

text \<open>
  A session publishes the messages \<open>stream 1\<close>, \<open>stream 2\<close>, \dots; a packet carries
  \<open>n\<close> of them from sequence number \<open>k\<close> on (none: a heartbeat).
\<close>

definition stream_blocks :: "(nat \<Rightarrow> byte list) \<Rightarrow> nat \<Rightarrow> nat \<Rightarrow> byte list" where
  "stream_blocks stream k n = concat (map (\<lambda>i. msg_block (stream i)) [k..<k + n])"

definition mold_packet :: "byte list \<Rightarrow> (nat \<Rightarrow> byte list) \<Rightarrow> nat \<Rightarrow> nat \<Rightarrow> byte list" where
  "mold_packet session stream k n =
     header_bytes \<lparr>mh_session = session, mh_seq_num = word_of_nat k, mh_msg_count = word_of_nat n\<rparr>
     @ stream_blocks stream k n"

lemma stream_blocks_0 [simp]: "stream_blocks stream k 0 = []"
  by (simp add: stream_blocks_def)

lemma stream_blocks_Suc: "stream_blocks stream k (Suc n) = msg_block (stream k) @ stream_blocks stream (Suc k) n"
proof -
  have "[k..<k + Suc n] = k # [Suc k..<Suc k + n]" by (simp add: upt_conv_Cons)
  then show ?thesis by (simp only: stream_blocks_def list.map concat.simps)
qed

lemma u64_less_iff: "a < 2 ^ 64 \<Longrightarrow> b < 2 ^ 64 \<Longrightarrow> (word_of_nat a :: u64) < word_of_nat b \<longleftrightarrow> a < b"
  by (simp add: word_less_nat_alt unat_u64_of_nat)

lemma u64_le_iff: "a < 2 ^ 64 \<Longrightarrow> b < 2 ^ 64 \<Longrightarrow> (word_of_nat a :: u64) \<le> word_of_nat b \<longleftrightarrow> a \<le> b"
  by (simp add: word_le_nat_alt unat_u64_of_nat)

text \<open>
  The loop on the messages of a packet, possibly cut short: it hands over the messages from the
  expected one on, as far as the bytes go.
\<close>

lemma mold_msg_loop_stream:
  assumes "\<And>i. length (stream i) < 2 ^ 16" "k + n < 2 ^ 64" "k \<le> e" "e < 2 ^ 64" "mf_exp_seq f = word_of_nat e"
  shows "\<exists>r m. mold_msg_loop n (word_of_nat k) (take j (stream_blocks stream k n)) out f
      = Inr (r, out @ map stream [e..<m], f\<lparr>mf_exp_seq := word_of_nat m\<rparr>)
    \<and> e \<le> m \<and> m \<le> max e (k + n) \<and> r \<in> {Inr (), Inl Malformed}
    \<and> (length (stream_blocks stream k n) \<le> j \<longrightarrow> r = Inr () \<and> m = max e (k + n))"
  using assms(2-)
proof (induction n arbitrary: k j out f e)
  case 0
  then show ?case by (intro exI [of _ "Inr ()"] exI [of _ e]) simp
next
  case (Suc n)
  let ?B = "msg_block (stream k)" and ?R = "stream_blocks stream (Suc k) n"
  show ?case
  proof (cases "j < 2 + length (stream k)")
    case True
    then have "take j (?B @ ?R) = take j ?B" by simp
    with True have "mold_msg_loop (Suc n) (word_of_nat k) (take j (?B @ ?R)) out f = Inr (Inl Malformed, out, f)"
      using mold_msg_loop_cut [OF assms(1) True, of n "word_of_nat k" out f] by (simp del: mold_msg_loop.simps)
    with True Suc.prems(4) show ?thesis
      by (intro exI [of _ "Inl Malformed"] exI [of _ e]) (simp add: stream_blocks_Suc del: mold_msg_loop.simps)
  next
    case False
    let ?j = "j - (2 + length (stream k))"
    have tk: "take j (?B @ ?R) = ?B @ take ?j ?R" using False by simp
    have lt: "word_of_nat k < mf_exp_seq f \<longleftrightarrow> k < e"
      using Suc.prems by (simp add: u64_less_iff)
    have step: "mold_msg_loop (Suc n) (word_of_nat k) (take j (stream_blocks stream k (Suc n))) out f =
      (if k < e then mold_msg_loop n (word_of_nat (Suc k)) (take ?j ?R) out f
       else mold_msg_loop n (word_of_nat (Suc k)) (take ?j ?R) (out @ [stream k]) (f\<lparr>mf_exp_seq := word_of_nat (Suc e)\<rparr>))"
      unfolding stream_blocks_Suc tk mold_msg_loop_block [OF assms(1)] lt
      using Suc.prems(4) by (simp add: add.commute)
    have len: "length (stream_blocks stream k (Suc n)) \<le> j \<longleftrightarrow> length ?R \<le> ?j"
      using False by (auto simp: stream_blocks_Suc)
    show ?thesis
    proof (cases "k < e")
      case True
      obtain r m where "mold_msg_loop n (word_of_nat (Suc k)) (take ?j ?R) out f
          = Inr (r, out @ map stream [e..<m], f\<lparr>mf_exp_seq := word_of_nat m\<rparr>)"
        "e \<le> m" "m \<le> max e (Suc k + n)" "r \<in> {Inr (), Inl Malformed}"
        "length ?R \<le> ?j \<longrightarrow> r = Inr () \<and> m = max e (Suc k + n)"
        using Suc.IH [of "Suc k" e f ?j out] Suc.prems True by auto
      with True show ?thesis
        unfolding step len by (intro exI [of _ r] exI [of _ m]) simp
    next
      case nlt: False
      then have ek: "e = k" using Suc.prems(2) by simp
      let ?f = "f\<lparr>mf_exp_seq := word_of_nat (Suc e)\<rparr>"
      obtain r m where m: "mold_msg_loop n (word_of_nat (Suc k)) (take ?j ?R) (out @ [stream k]) ?f
          = Inr (r, (out @ [stream k]) @ map stream [Suc e..<m], ?f\<lparr>mf_exp_seq := word_of_nat m\<rparr>)"
        "Suc e \<le> m" "m \<le> max (Suc e) (Suc k + n)" "r \<in> {Inr (), Inl Malformed}"
        "length ?R \<le> ?j \<longrightarrow> r = Inr () \<and> m = max (Suc e) (Suc k + n)"
        using Suc.IH [of "Suc k" "Suc e" ?f ?j "out @ [stream k]"] Suc.prems(1) ek by auto
      have "[e..<m] = e # [Suc e..<m]" using m(2) by (simp add: upt_conv_Cons)
      with m nlt ek show ?thesis
        unfolding step len by (intro exI [of _ r] exI [of _ m]) simp
    qed
  qed
qed

lemma length_mold_header [simp]:
  "length session = SESSION_SIZE \<Longrightarrow>
    length (header_bytes \<lparr>mh_session = session, mh_seq_num = s, mh_msg_count = c\<rparr>) = HEADER_SIZE"
  by (simp add: length_header_bytes del: HEADER_SIZE_eq)

text \<open>A framer that follows a session and expects sequence number \<open>e\<close>, or has seen nothing.\<close>

definition follows :: "byte list \<Rightarrow> nat \<Rightarrow> mold_framer \<Rightarrow> bool" where
  "follows session e f \<longleftrightarrow> mf_exp_seq f = word_of_nat e \<and> 1 \<le> e \<and> e < 2 ^ 64
     \<and> (mf_has_session f \<longrightarrow> mf_last_session f = session)"

definition in_session :: "byte list \<Rightarrow> mold_framer \<Rightarrow> mold_framer" where
  "in_session session f = f\<lparr>mf_last_session := session, mf_has_session := True\<rparr>"

lemma follows_in_session: "follows session e f \<Longrightarrow> follows session e (in_session session f)"
  by (simp add: follows_def in_session_def)

lemma follows_init: "follows session 1 (MoldUDP64Framer junk)"
  by (simp add: follows_def MoldUDP64Framer_def)

lemma follows_exp: "follows session e f \<Longrightarrow> e \<le> m \<Longrightarrow> m < 2 ^ 64 \<Longrightarrow> follows session m (f\<lparr>mf_exp_seq := word_of_nat m\<rparr>)"
  by (simp add: follows_def)

text \<open>What \<open>feed\<close> does with a packet of the session it follows, whole or cut behind the header.\<close>

lemma mold_feed_packet:
  assumes "follows session e f" "length session = SESSION_SIZE" "\<And>i. length (stream i) < 2 ^ 16"
    "k + n < 2 ^ 64" "n < 2 ^ 16 - 1" "HEADER_SIZE \<le> j"
  defines "f1 \<equiv> in_session session f"
  shows "\<exists>r m f'. mold_feed (take j (mold_packet session stream k n)) f = Inr (r, map stream [e..<m], f')
    \<and> e \<le> m \<and> m \<le> max e (k + n)
    \<and> (if e < k then r = Inl Gap \<and> m = e \<and> f' = f1\<lparr>mf_gap_end := word_of_nat k\<rparr>
       else f' = f1\<lparr>mf_exp_seq := word_of_nat m\<rparr> \<and> r \<in> {Inr (), Inl Malformed}
         \<and> (length (mold_packet session stream k n) \<le> j \<longrightarrow> r = Inr () \<and> m = max e (k + n)))"
proof -
  let ?hdr = "\<lparr>mh_session = session, mh_seq_num = word_of_nat k :: u64, mh_msg_count = word_of_nat n :: u16\<rparr>"
  let ?j = "j - HEADER_SIZE"
  have hl: "length (header_bytes ?hdr) = HEADER_SIZE" by (rule length_mold_header [OF assms(2)])
  have tk: "take j (mold_packet session stream k n) = header_bytes ?hdr @ take ?j (stream_blocks stream k n)"
    using assms(6) hl by (simp add: mold_packet_def del: HEADER_SIZE_eq)
  have rd: "read_header (take j (mold_packet session stream k n)) = Inr (Some ?hdr, take ?j (stream_blocks stream k n))"
    unfolding tk by (rule read_header_bytes) (simp add: assms(2))
  have eof: "(word_of_nat n :: u16) \<noteq> END_OF_SESSION"
    using assms(5) unat_u16_of_nat [of n] by (auto simp: END_OF_SESSION_def)
  have n16: "unat (word_of_nat n :: u16) = n" using assms(5) by (intro unat_u16_of_nat) simp
  have e: "e < 2 ^ 64" "mf_exp_seq f = word_of_nat e" using assms(1) by (simp_all add: follows_def)
  have gap: "mf_exp_seq f < word_of_nat k \<longleftrightarrow> e < k"
    unfolding e(2) using e(1) assms(4) by (intro u64_less_iff) simp_all
  have "word_of_nat k + ucast (word_of_nat n :: u16) = (word_of_nat (k + n) :: u64)"
    using of_nat_unat [of "word_of_nat n :: u16", where ?'a = "64 word"] n16 by simp
  then have old: "word_of_nat k + ucast (word_of_nat n :: u16) \<le> mf_exp_seq f \<longleftrightarrow> k + n \<le> e"
    using u64_le_iff [OF assms(4) e(1)] e(2) by simp
  have f1: "(if \<not> mf_has_session f then f\<lparr>mf_last_session := mh_session ?hdr, mf_has_session := True\<rparr> else f) = f1"
    using assms(1) by (cases f) (simp add: follows_def f1_def in_session_def)
  have f1s: "mf_last_session f1 = session" "mf_exp_seq f1 = mf_exp_seq f" by (simp_all add: f1_def in_session_def)
  have feed: "mold_feed (take j (mold_packet session stream k n)) f =
     (if e < k then Inr (Inl Gap, [], f1\<lparr>mf_gap_end := word_of_nat k\<rparr>)
      else if k + n \<le> e then Inr (Inr (), [], f1)
      else mold_msg_loop n (word_of_nat k) (take ?j (stream_blocks stream k n)) [] f1)"
    unfolding mold_feed_def rd
    using f1 f1s gap old eof n16 by (simp add: Let_def split del: if_split cong: if_cong)
  have len: "length (mold_packet session stream k n) \<le> j \<longleftrightarrow> length (stream_blocks stream k n) \<le> ?j"
    using hl assms(6) by (auto simp: mold_packet_def)
  consider "e < k" | "k \<le> e" "k + n \<le> e" | "k \<le> e" "e < k + n" by linarith
  then show ?thesis
  proof cases
    case 1
    then show ?thesis by (intro exI [of _ "Inl Gap"] exI [of _ e]) (simp add: feed)
  next
    case 2
    have "f1\<lparr>mf_exp_seq := word_of_nat e\<rparr> = f1" using f1s(2) e(2) by simp
    with 2 show ?thesis by (intro exI [of _ "Inr ()"] exI [of _ e]) (simp add: feed)
  next
    case 3
    obtain r m where "mold_msg_loop n (word_of_nat k) (take ?j (stream_blocks stream k n)) [] f1
      = Inr (r, [] @ map stream [e..<m], f1\<lparr>mf_exp_seq := word_of_nat m\<rparr>)"
      "e \<le> m" "m \<le> max e (k + n)" "r \<in> {Inr (), Inl Malformed}"
      "length (stream_blocks stream k n) \<le> ?j \<longrightarrow> r = Inr () \<and> m = max e (k + n)"
      using mold_msg_loop_stream [where stream = stream and f = f1 and j = ?j and out = "[]", OF assms(3,4) 3(1) e(1)] f1s(2) e(2) by auto
    with 3 show ?thesis unfolding len by (intro exI [of _ r] exI [of _ m]) (simp add: feed)
  qed
qed

subsection \<open>Properties\<close>

text \<open>What a call of \<open>feed\<close> returns and changes, whatever the bytes.\<close>

lemma mold_feed_spec:
  "\<exists>r out f'. mold_feed data f = Inr (r, out, f')
    \<and> (case r of
        Inr _ \<Rightarrow> mold_expected f' = mold_expected f + word_of_nat (length out)
      | Inl Malformed \<Rightarrow> mold_expected f' = mold_expected f + word_of_nat (length out)
      | Inl Gap \<Rightarrow> out = [] \<and> mold_expected f' = mold_expected f \<and> mold_expected f' < mold_gap_end f'
      | Inl EndOfSession \<Rightarrow> out = [] \<and> mold_expected f' = mold_expected f
      | Inl SessionChanged \<Rightarrow> out = [] \<and> mold_expected f' = 1 \<and> mf_has_session f
          \<and> mold_session f' = take SESSION_SIZE data \<and> mold_session f' \<noteq> mold_session f)
    \<and> (mf_has_session f' \<longleftrightarrow> mf_has_session f \<or> HEADER_SIZE \<le> length data)"
proof (cases rule: read_header_cases [of data])
  case short
  then show ?thesis
    by (intro exI [of _ "Inl Malformed"] exI [of _ "[]"] exI [of _ f]) (simp add: mold_feed_def mold_expected_def)
next
  case (header hdr rest)
  have long: "HEADER_SIZE \<le> length data"
    using header(2) length_header_bytes [OF header(3)] by (simp del: HEADER_SIZE_eq)
  have sess: "take SESSION_SIZE data = mh_session hdr"
    using header(2,3) by (simp add: header_bytes_def)
  define f1 where "f1 = (if \<not> mf_has_session f then f\<lparr>mf_last_session := mh_session hdr, mf_has_session := True\<rparr> else f)"
  have f1: "mf_exp_seq f1 = mf_exp_seq f" "mf_has_session f1"
    "mf_last_session f1 \<noteq> mh_session hdr \<Longrightarrow> f1 = f"
    by (auto simp: f1_def)
  have feed: "mold_feed data f =
      (if mf_last_session f1 \<noteq> mh_session hdr
       then Inr (Inl SessionChanged, [], f1\<lparr>mf_last_session := mh_session hdr, mf_exp_seq := 1\<rparr>)
       else if mh_seq_num hdr > mf_exp_seq f1 then Inr (Inl Gap, [], f1\<lparr>mf_gap_end := mh_seq_num hdr\<rparr>)
       else if mh_msg_count hdr = END_OF_SESSION then Inr (Inl EndOfSession, [], f1)
       else if mh_seq_num hdr + ucast (mh_msg_count hdr) \<le> mf_exp_seq f1 then Inr (Inr (), [], f1)
       else mold_msg_loop (unat (mh_msg_count hdr)) (mh_seq_num hdr) rest [] f1)"
    unfolding mold_feed_def header(1) bind_res.simps prod.case option.case Let_def f1_def by (rule refl)
  note acc = mold_expected_def mold_session_def mold_gap_end_def
  consider "mf_last_session f1 \<noteq> mh_session hdr"
    | "mf_last_session f1 = mh_session hdr" "mf_exp_seq f1 < mh_seq_num hdr"
    | "mf_last_session f1 = mh_session hdr" "\<not> mf_exp_seq f1 < mh_seq_num hdr" "mh_msg_count hdr = END_OF_SESSION"
    | "mf_last_session f1 = mh_session hdr" "\<not> mf_exp_seq f1 < mh_seq_num hdr" "mh_msg_count hdr \<noteq> END_OF_SESSION"
      "mh_seq_num hdr + ucast (mh_msg_count hdr) \<le> mf_exp_seq f1"
    | "mf_last_session f1 = mh_session hdr" "\<not> mf_exp_seq f1 < mh_seq_num hdr" "mh_msg_count hdr \<noteq> END_OF_SESSION"
      "\<not> mh_seq_num hdr + ucast (mh_msg_count hdr) \<le> mf_exp_seq f1"
    by blast
  then show ?thesis
  proof cases
    case 1
    have "f1 = f" using f1(3) 1 .
    with 1 long sess f1(2) show ?thesis unfolding feed
      by (intro exI [of _ "Inl SessionChanged"] exI [of _ "[]"] exI) (auto simp: acc)
  next
    case 2
    with long f1(1,2) show ?thesis unfolding feed
      by (intro exI [of _ "Inl Gap"] exI [of _ "[]"] exI) (auto simp: acc)
  next
    case 3
    with long f1(1,2) show ?thesis unfolding feed
      by (intro exI [of _ "Inl EndOfSession"] exI [of _ "[]"] exI) (auto simp: acc)
  next
    case 4
    then have "mold_feed data f = Inr (Inr (), [], f1)" unfolding feed by (simp only: if_True if_False refl simp_thms)
    with long f1(1,2) show ?thesis
      by (intro exI [of _ "Inr ()"] exI [of _ "[]"] exI [of _ f1]) (simp add: acc)
  next
    case 5
    obtain r new f' where "mold_msg_loop (unat (mh_msg_count hdr)) (mh_seq_num hdr) rest [] f1 = Inr (r, [] @ new, f')"
      "r \<in> {Inr (), Inl Malformed}" "f' = f1\<lparr>mf_exp_seq := mf_exp_seq f1 + word_of_nat (length new)\<rparr>"
      using mold_msg_loop_total by blast
    moreover have "mold_feed data f = mold_msg_loop (unat (mh_msg_count hdr)) (mh_seq_num hdr) rest [] f1"
      using 5 unfolding feed by (simp only: if_True if_False refl simp_thms)
    ultimately show ?thesis using long f1(1,2)
      by (intro exI [of _ r] exI [of _ new] exI [of _ f']) (auto simp: acc)
  qed
qed

text \<open>
  On any bytes and in any state the framer returns without reading outside the packet. It
  moves the expected sequence number by the number of messages handed over; a gap hands over
  nothing and records an end beyond the expected number; a change of session starts over at 1
  with the new session; the end of a session changes nothing.
\<close>

lemma mold_feed_safe:
  "\<exists>r out f'. mold_feed data f = Inr (r, out, f')
    \<and> (case r of
        Inr _ \<Rightarrow> mold_expected f' = mold_expected f + word_of_nat (length out)
      | Inl Malformed \<Rightarrow> mold_expected f' = mold_expected f + word_of_nat (length out)
      | Inl Gap \<Rightarrow> out = [] \<and> mold_expected f' = mold_expected f \<and> mold_expected f' < mold_gap_end f'
      | Inl EndOfSession \<Rightarrow> out = [] \<and> mold_expected f' = mold_expected f
      | Inl SessionChanged \<Rightarrow> out = [] \<and> mold_expected f' = 1 \<and> mf_has_session f
          \<and> mold_session f' = take SESSION_SIZE data \<and> mold_session f' \<noteq> mold_session f)
    \<and> (mf_has_session f' \<longleftrightarrow> mf_has_session f \<or> HEADER_SIZE \<le> length data)"
  by (rule mold_feed_spec)

text \<open>Every state of the framer is fit for use, and every datagram.\<close>

lemma mold_feed_total: "\<exists>r out f'. mold_feed data f = Inr (r, out, f')"
  using mold_feed_spec [of data f] by blast

interpretation mold: framer mold_feed "\<lambda>_. True"
  by unfold_locales (simp add: mold_feed_total)

text \<open>
  The datagrams a receiver may see of a session: packets, cut off anywhere, and announcements
  of its end. They may be lost, repeated and reordered.
\<close>

inductive from_session :: "byte list \<Rightarrow> (nat \<Rightarrow> byte list) \<Rightarrow> byte list \<Rightarrow> bool"
  for session stream where
  packet: "k + n < 2 ^ 64 \<Longrightarrow> n < 2 ^ 16 - 1 \<Longrightarrow> from_session session stream (take j (mold_packet session stream k n))"
| finish: "from_session session stream
    (header_bytes \<lparr>mh_session = session, mh_seq_num = s, mh_msg_count = END_OF_SESSION\<rparr>)"

lemma mold_feed_short: "length data < HEADER_SIZE \<Longrightarrow> mold_feed data f = Inr (Inl Malformed, [], f)"
  by (simp add: mold_feed_def read_header_def remaining_def)

lemma mold_feed_finish:
  assumes "follows session e f" "length session = SESSION_SIZE"
  shows "\<exists>r f'. mold_feed (header_bytes \<lparr>mh_session = session, mh_seq_num = s, mh_msg_count = END_OF_SESSION\<rparr>) f
      = Inr (r, [], f') \<and> follows session e f'"
proof -
  let ?hdr = "\<lparr>mh_session = session, mh_seq_num = s, mh_msg_count = END_OF_SESSION\<rparr>"
  have "read_header (header_bytes ?hdr) = Inr (Some ?hdr, [])"
    using read_header_bytes [of ?hdr "[]"] assms(2) by simp
  with assms(1) show ?thesis by (auto simp: mold_feed_def follows_def Let_def)
qed

lemma mold_feed_from_session:
  assumes "from_session session stream d" "follows session e f" "length session = SESSION_SIZE"
    "\<And>i. length (stream i) < 2 ^ 16"
  shows "\<exists>r m f'. mold_feed d f = Inr (r, map stream [e..<m], f') \<and> e \<le> m \<and> follows session m f'"
  using assms(1)
proof cases
  case (packet k n j)
  show ?thesis
  proof (cases "HEADER_SIZE \<le> j")
    case True
    obtain r m f' where *: "mold_feed d f = Inr (r, map stream [e..<m], f')" "e \<le> m" "m \<le> max e (k + n)"
      "if e < k then r = Inl Gap \<and> m = e \<and> f' = in_session session f\<lparr>mf_gap_end := word_of_nat k\<rparr>
       else f' = in_session session f\<lparr>mf_exp_seq := word_of_nat m\<rparr> \<and> r \<in> {Inr (), Inl Malformed}
         \<and> (length (mold_packet session stream k n) \<le> j \<longrightarrow> r = Inr () \<and> m = max e (k + n))"
      using mold_feed_packet [where stream = stream, OF assms(2,3,4) packet(2,3) True] packet(1) by auto
    have m: "m < 2 ^ 64" using *(3) packet(2) assms(2) by (auto simp: follows_def)
    have "follows session m f'"
      using *(2,4) follows_exp [OF follows_in_session [OF assms(2)] *(2) m] assms(2)
      by (auto simp: follows_def in_session_def split: if_splits)
    with * show ?thesis by blast
  next
    case False
    then have "length d < HEADER_SIZE" using packet(1) by simp
    from mold_feed_short [OF this, of f] assms(2) show ?thesis by (intro exI [of _ "Inl Malformed"] exI [of _ e]) simp
  qed
next
  case (finish s)
  then show ?thesis using mold_feed_finish [OF assms(2,3), of s]
    by (metis list.map(1) order_refl upt_rec less_irrefl)
qed

lemma mold_feed_all_session:
  assumes "\<forall>d \<in> set ds. from_session session stream d" "follows session e f" "length session = SESSION_SIZE"
    "\<And>i. length (stream i) < 2 ^ 16"
  shows "\<exists>rs m f'. feed_all mold_feed ds f = Inr (rs, map stream [e..<m], f') \<and> e \<le> m \<and> follows session m f'"
  using assms(1,2)
proof (induction ds arbitrary: e f)
  case Nil
  then show ?case by (intro exI [of _ "[]"] exI [of _ e] exI [of _ f]) simp
next
  case (Cons d ds)
  obtain r m f1 where 1: "mold_feed d f = Inr (r, map stream [e..<m], f1)" "e \<le> m" "follows session m f1"
    using mold_feed_from_session [where stream = stream, OF _ Cons.prems(2) assms(3,4), of d] Cons.prems(1) by auto
  obtain rs m' f2 where 2: "feed_all mold_feed ds f1 = Inr (rs, map stream [m..<m'], f2)" "m \<le> m'" "follows session m' f2"
    using Cons.IH [OF _ 1(3)] Cons.prems(1) by auto
  have "[e..<m'] = [e..<m] @ [m..<m']" using 1(2) 2(2) by (metis le_Suc_ex upt_add_eq_append)
  with 1 2 show ?case by (intro exI [of _ "r # rs"] exI [of _ m'] exI [of _ f2]) simp
qed

text \<open>
  C10. Exactly once and in order: however the datagrams of a session are lost, repeated,
  reordered or cut short on the way, the messages a new framer hands over are the first messages
  of the session, each once, up to the one before the expected sequence number.
\<close>

theorem mold_exactly_once:
  assumes "length session = SESSION_SIZE" "\<forall>i. length (stream i) < 2 ^ 16"
    "\<forall>d \<in> set ds. from_session session stream d"
  shows "\<exists>rs f'. feed_all mold_feed ds (MoldUDP64Framer junk) = Inr (rs, map stream [1..<unat (mold_expected f')], f')"
proof -
  obtain rs m f' where "feed_all mold_feed ds (MoldUDP64Framer junk) = Inr (rs, map stream [1..<m], f')" "follows session m f'"
    using mold_feed_all_session [OF assms(3) follows_init assms(1)] assms(2) by blast
  moreover from this(2) have "unat (mold_expected f') = m"
    by (simp add: follows_def mold_expected_def unat_u64_of_nat)
  ultimately show ?thesis by blast
qed

theorem mold_exactly_once_witness:
  "\<exists>rs f'. feed_all mold_feed [mold_packet (replicate 10 65) (\<lambda>i. [word_of_nat i]) 1 2,
        mold_packet (replicate 10 65) (\<lambda>i. [word_of_nat i]) 2 2] (MoldUDP64Framer [])
     = Inr (rs, map (\<lambda>i. [word_of_nat i]) [1..<unat (mold_expected f')], f')"
proof (rule mold_exactly_once [where session = "replicate 10 65"])
  have "from_session s t (mold_packet s t k 2)" if "k < 5" for s t k
    using from_session.packet [of k 2 s t "length (mold_packet s t k 2)"] that by simp
  then show "\<forall>d\<in>set [mold_packet (replicate 10 65) (\<lambda>i. [word_of_nat i]) 1 2,
        mold_packet (replicate 10 65) (\<lambda>i. [word_of_nat i]) 2 2].
       from_session (replicate 10 65) (\<lambda>i. [word_of_nat i]) d"
    by simp
qed (simp_all add: SESSION_SIZE_def)

text \<open>A whole packet of the session the framer follows.\<close>

lemma mold_feed_whole:
  assumes "follows session e f" "length session = SESSION_SIZE" "\<forall>i. length (stream i) < 2 ^ 16"
    "k + n < 2 ^ 64" "n < 2 ^ 16 - 1"
  shows "\<exists>f'. mold_feed (mold_packet session stream k n) f =
      (if e < k then Inr (Inl Gap, [], f') else Inr (Inr (), map stream [e..<k + n], f'))
    \<and> follows session (if e < k then e else max e (k + n)) f' \<and> mold_session f' = session
    \<and> (e < k \<longrightarrow> mold_gap_end f' = word_of_nat k)"
proof -
  let ?j = "length (mold_packet session stream k n)"
  have "HEADER_SIZE \<le> ?j" using assms(2) by (simp add: mold_packet_def del: HEADER_SIZE_eq)
  from mold_feed_packet [where stream = stream and j = ?j, OF assms(1,2) _ assms(4,5) this] assms(3)
  obtain r m f' where *: "mold_feed (mold_packet session stream k n) f = Inr (r, map stream [e..<m], f')" "e \<le> m"
      "if e < k then r = Inl Gap \<and> m = e \<and> f' = in_session session f\<lparr>mf_gap_end := word_of_nat k\<rparr>
       else f' = in_session session f\<lparr>mf_exp_seq := word_of_nat m\<rparr> \<and> r \<in> {Inr (), Inl Malformed}
         \<and> (?j \<le> ?j \<longrightarrow> r = Inr () \<and> m = max e (k + n))"
    by auto
  have f1: "follows session e (in_session session f)" by (rule follows_in_session [OF assms(1)])
  have e: "1 \<le> e" "e < 2 ^ 64" using assms(1) by (simp_all add: follows_def)
  show ?thesis
  proof (cases "e < k")
    case True
    with * f1 show ?thesis by (intro exI [of _ f']) (simp add: follows_def in_session_def mold_session_def mold_gap_end_def)
  next
    case False
    with *(3) have m: "r = Inr ()" "m = max e (k + n)" "f' = in_session session f\<lparr>mf_exp_seq := word_of_nat m\<rparr>" by simp_all
    have "[e..<m] = [e..<k + n]" using m(2) by (cases "e \<le> k + n") (simp_all add: max_def)
    moreover have "follows session m f'" using follows_exp [OF f1 *(2)] m e assms(4) by simp
    ultimately show ?thesis using * False m
      by (intro exI [of _ f']) (simp add: in_session_def mold_session_def)
  qed
qed

text \<open>
  Progress: a framer that expects number \<open>e\<close> of a session answers a whole packet that
  starts at \<open>k\<close> and carries \<open>n\<close> messages with \<open>Gap\<close> exactly when \<open>k\<close> is beyond \<open>e\<close>,
  recording \<open>k\<close> as the end of the gap; otherwise it hands over all messages of the packet it
  had not handed over yet and expects the one after the packet.
\<close>

lemma mold_packet_progress:
  assumes "follows session e f" "length session = SESSION_SIZE" "\<forall>i. length (stream i) < 2 ^ 16"
    "k + n < 2 ^ 64" "n < 2 ^ 16 - 1"
  shows "\<exists>f'. mold_feed (mold_packet session stream k n) f =
      (if e < k then Inr (Inl Gap, [], f') else Inr (Inr (), map stream [e..<k + n], f'))
    \<and> follows session (if e < k then e else max e (k + n)) f' \<and> mold_session f' = session
    \<and> (e < k \<longrightarrow> mold_gap_end f' = word_of_nat k)"
  by (rule mold_feed_whole [OF assms])

lemma mold_packet_progress_witness:
  "\<exists>f'. mold_feed (mold_packet (replicate 10 65) (\<lambda>i. [word_of_nat i]) 1 2) (MoldUDP64Framer [])
     = Inr (Inr (), [[1], [2]], f') \<and> follows (replicate 10 65) 3 f'"
  using mold_packet_progress [OF follows_init, of "replicate 10 65" "\<lambda>i. [word_of_nat i]" 1 2 "[]"]
  by (auto simp: SESSION_SIZE_def upt_rec numeral_3_eq_3)

end
