(* ===== verification/Length_Prefix_Framer.thy ===== *)
theory Length_Prefix_Framer
  imports Framer
begin

section \<open>Length prefix framer (src/feed/length\_prefix\_framer.hpp)\<close>

text \<open>
  The framer of byte streams: every message is preceded by its 16-bit length. Over a stream
  transport a message may straddle two chunks; the start of it waits in a reassembly buffer of
  \<open>MaxPayload + 2\<close> bytes. Copies into the buffer are bounds-checked by the model.
\<close>

subsection \<open>State and operations\<close>

record lp_framer =
  lf_buf :: "byte list"
  lf_leftover :: u32

text \<open>The bytes of a new reassembly buffer are indeterminate: they are an argument.\<close>

definition LengthPrefixFramer :: "byte list \<Rightarrow> lp_framer" where
  "LengthPrefixFramer junk = \<lparr>lf_buf = junk, lf_leftover = 0\<rparr>"

definition copy_to :: "byte list \<Rightarrow> nat \<Rightarrow> byte list \<Rightarrow> byte list res" where
  "copy_to buf off bs = (if length buf < off + length bs then Inl Bad_Access
     else Inr (take off buf @ bs @ drop (off + length bs) buf))"

definition buf_span :: "byte list \<Rightarrow> nat \<Rightarrow> nat \<Rightarrow> byte list res" where
  "buf_span buf off n = (if length buf < off + n then Inl Bad_Access else Inr (take n (drop off buf)))"

text \<open>
  The tail of \<open>handle_leftover_bytes_\<close>, from the reading of the length on. The result is the
  message if it is complete, what is left of the data, the flag \<open>malformed\<close>, the framer.
\<close>

definition leftover_message ::
  "nat \<Rightarrow> byte list \<Rightarrow> lp_framer \<Rightarrow> (byte list option \<times> byte list \<times> bool \<times> lp_framer) res" where
  "leftover_message MaxPayload data f =
     bind_res (buf_span (lf_buf f) 0 (unat (lf_leftover f))) (\<lambda>reader.
     bind_res (read_num reader) (\<lambda>(msg_size :: u16, _).
       if unat msg_size > MaxPayload then Inr (None, data, True, f)
       else
         let needed = unat (2 + ucast msg_size - ucast (lf_leftover f) :: u64) in
         if length data \<ge> needed then
           bind_res (copy_to (lf_buf f) (unat (lf_leftover f)) (take needed data)) (\<lambda>buf.
           bind_res (buf_span buf 2 (unat msg_size)) (\<lambda>s.
             Inr (Some s, drop needed data, False, \<lparr>lf_buf = buf, lf_leftover = 0\<rparr>)))
         else
           bind_res (copy_to (lf_buf f) (unat (lf_leftover f)) data) (\<lambda>buf.
             Inr (None, [], False, \<lparr>lf_buf = buf, lf_leftover = lf_leftover f + word_of_nat (length data)\<rparr>))))"

definition handle_leftover_bytes ::
  "nat \<Rightarrow> byte list \<Rightarrow> lp_framer \<Rightarrow> (byte list option \<times> byte list \<times> bool \<times> lp_framer) res" where
  "handle_leftover_bytes MaxPayload data f =
     (if lf_leftover f < 2 then
        case data of
          [] \<Rightarrow> Inr (None, data, False, f)
        | b # data' \<Rightarrow>
            bind_res (copy_to (lf_buf f) (unat (lf_leftover f)) [b]) (\<lambda>buf.
              leftover_message MaxPayload data' \<lparr>lf_buf = buf, lf_leftover = lf_leftover f + 1\<rparr>)
      else leftover_message MaxPayload data f)"

type_synonym lpf_result = "(stream_error, lp_framer) feed_result"

text \<open>\<open>rem\<close> is the number of bytes left, truncated to 32 bits.\<close>

function lpf_loop :: "bool \<Rightarrow> nat \<Rightarrow> byte list \<Rightarrow> byte list list \<Rightarrow> lp_framer \<Rightarrow> lpf_result" where
  "lpf_loop MayStraddle MaxPayload reader out f =
     (if \<not> has_bytes reader then Inr (Inr (), out, f)
      else
        let save_bytes = reader; rem = word_of_nat (remaining reader) :: u32;
            save = bind_res (copy_to (lf_buf f) 0 (take (unat rem) save_bytes)) (\<lambda>buf.
              Inr (Inr (), out, \<lparr>lf_buf = buf, lf_leftover = rem\<rparr>)) in
        if rem < 2 then (if MayStraddle then save else Inr (Inl Stream_Malformed, out, f))
        else case read_num reader of
          Inl e \<Rightarrow> Inl e
        | Inr (msg_length :: u16, reader') \<Rightarrow>
            if unat msg_length > MaxPayload
            then Inr (Inl Stream_Malformed, out, if MayStraddle then f\<lparr>lf_leftover := 0\<rparr> else f)
            else if remaining reader' < unat msg_length
            then (if MayStraddle then save else Inr (Inl Stream_Malformed, out, f))
            else case take_n (unat msg_length) reader' of
              Inl e \<Rightarrow> Inl e
            | Inr (s, reader'') \<Rightarrow> lpf_loop MayStraddle MaxPayload reader'' (out @ [s]) f)"
  by pat_completeness auto
termination
proof (relation "measure (\<lambda>(_, _, reader, _, _). length reader)")
  show "((a, b, r'', c @ [s], f), (a, b, r, c, f)) \<in> measure (\<lambda>(_, _, reader, _, _). length reader)"
    if "\<not> \<not> has_bytes r" "read_num r = Inr p" "(w :: u16, r') = p" "take_n (unat w) r' = Inr q" "(s, r'') = q"
    for a b r'' c s f r p w r' q
    using that by (auto simp: has_bytes_def read_num_def take_n_def Let_def split: if_splits)
qed auto

declare lpf_loop.simps [simp del]

definition lpf_feed :: "bool \<Rightarrow> nat \<Rightarrow> byte list \<Rightarrow> lp_framer \<Rightarrow> lpf_result" where
  "lpf_feed MayStraddle MaxPayload data f =
     (if MayStraddle \<and> lf_leftover f > 0 then
        bind_res (handle_leftover_bytes MaxPayload data f) (\<lambda>(s, data, malformed, f).
          if malformed then Inr (Inl Stream_Malformed, [], f\<lparr>lf_leftover := 0\<rparr>)
          else case s of
            Some m \<Rightarrow> lpf_loop MayStraddle MaxPayload data [m] f
          | None \<Rightarrow> Inr (Inr (), [], f))
      else lpf_loop MayStraddle MaxPayload data [] f)"

subsection \<open>The frames of a byte stream\<close>

text \<open>
  The reference: the messages at the start of a stream and the incomplete frame behind them,
  or \<open>None\<close> when a length exceeds the limit.
\<close>

definition msg_len :: "byte list \<Rightarrow> nat" where
  "msg_len bs = le_val (rev (take 2 bs))"

fun parse_frames :: "nat \<Rightarrow> byte list \<Rightarrow> byte list list \<times> byte list option" where
  "parse_frames mp bs =
     (if length bs < 2 then ([], Some bs)
      else if mp < msg_len bs then ([], None)
      else if length bs < 2 + msg_len bs then ([], Some bs)
      else let (ms, r) = parse_frames mp (drop (2 + msg_len bs) bs) in (take (msg_len bs) (drop 2 bs) # ms, r))"

declare parse_frames.simps [simp del]

lemma msg_len_append: "2 \<le> length bs \<Longrightarrow> msg_len (bs @ cs) = msg_len bs"
  by (simp add: msg_len_def)

lemma msg_len_less: "2 \<le> length bs \<Longrightarrow> msg_len bs < 2 ^ 16"
  using le_val_less [of "rev (take 2 bs)"] by (simp add: msg_len_def)

lemma read_num_msg_len:
  "2 \<le> length bs \<Longrightarrow> \<exists>w :: u16. read_num bs = Inr (w, drop 2 bs) \<and> unat w = msg_len bs"
  using msg_len_less [of bs] by (auto simp: read_num_eq msg_len_def unsigned_of_nat take_bit_nat_eq_self)

lemma parse_frames_cons:
  assumes "2 \<le> length bs" "msg_len bs \<le> mp" "2 + msg_len bs \<le> length bs"
  shows "parse_frames mp bs = (take (msg_len bs) (drop 2 bs) # fst (parse_frames mp (drop (2 + msg_len bs) bs)),
    snd (parse_frames mp (drop (2 + msg_len bs) bs)))"
  using assms by (simp add: parse_frames.simps [of mp bs] split: prod.splits)

lemma parse_frames_short:
  assumes "length bs < 2 \<or> (msg_len bs \<le> mp \<and> length bs < 2 + msg_len bs)"
  shows "parse_frames mp bs = ([], Some bs)"
  using assms by (subst parse_frames.simps) auto

lemma parse_frames_append:
  "parse_frames mp (as @ bs) =
     (case parse_frames mp as of
       (ms, None) \<Rightarrow> (ms, None)
     | (ms, Some t) \<Rightarrow> (ms @ fst (parse_frames mp (t @ bs)), snd (parse_frames mp (t @ bs))))"
proof (induction mp as rule: parse_frames.induct)
  case (1 mp as)
  consider (short) "length as < 2 \<or> (msg_len as \<le> mp \<and> length as < 2 + msg_len as)"
    | (bad) "2 \<le> length as" "mp < msg_len as"
    | (ok) "2 \<le> length as" "msg_len as \<le> mp" "2 + msg_len as \<le> length as"
    by linarith
  then show ?case
  proof cases
    case short
    then have "parse_frames mp as = ([], Some as)" by (rule parse_frames_short)
    then show ?thesis by simp
  next
    case bad
    then show ?thesis by (simp add: parse_frames.simps [of mp as] parse_frames.simps [of mp "as @ bs"] msg_len_append)
  next
    case ok
    have IH: "parse_frames mp (drop (2 + msg_len as) as @ bs) =
        (case parse_frames mp (drop (2 + msg_len as) as) of
          (ms, None) \<Rightarrow> (ms, None)
        | (ms, Some t) \<Rightarrow> (ms @ fst (parse_frames mp (t @ bs)), snd (parse_frames mp (t @ bs))))"
      using ok by (intro 1) auto
    have "parse_frames mp (as @ bs) = (take (msg_len as) (drop 2 as) # fst (parse_frames mp (drop (2 + msg_len as) as @ bs)),
        snd (parse_frames mp (drop (2 + msg_len as) as @ bs)))"
      using parse_frames_cons [of "as @ bs" mp] ok by (simp add: msg_len_append)
    then show ?thesis
      unfolding parse_frames_cons [OF ok] IH by (auto split: prod.splits option.splits)
  qed
qed

lemma parse_frames_tail:
  assumes "parse_frames mp bs = (ms, Some t)"
  shows "parse_frames mp t = ([], Some t) \<and> length t < mp + 2 \<and> length t < 2 ^ 16 + 2
    \<and> (\<exists>pre. bs = pre @ t)"
  using assms
proof (induction mp bs arbitrary: ms rule: parse_frames.induct)
  case (1 mp bs)
  consider (short) "length bs < 2 \<or> (2 \<le> length bs \<and> msg_len bs \<le> mp \<and> length bs < 2 + msg_len bs)"
    | (bad) "2 \<le> length bs" "mp < msg_len bs"
    | (ok) "2 \<le> length bs" "msg_len bs \<le> mp" "2 + msg_len bs \<le> length bs"
    by linarith
  then show ?case
  proof cases
    case short
    then have "parse_frames mp bs = ([], Some bs)" by (intro parse_frames_short) auto
    moreover from short have "length bs < mp + 2 \<and> length bs < 2 ^ 16 + 2"
      using msg_len_less [of bs] by auto
    ultimately show ?thesis using "1.prems" by auto
  next
    case bad
    then show ?thesis using "1.prems" by (simp add: parse_frames.simps [of mp bs])
  next
    case ok
    then have "parse_frames mp (drop (2 + msg_len bs) bs) = (fst (parse_frames mp (drop (2 + msg_len bs) bs)), Some t)"
      using "1.prems" parse_frames_cons [OF ok] by (metis prod.collapse prod.inject)
    with ok have "parse_frames mp t = ([], Some t) \<and> length t < mp + 2 \<and> length t < 2 ^ 16 + 2
      \<and> (\<exists>pre. drop (2 + msg_len bs) bs = pre @ t)"
      by (intro "1.IH") auto
    then show ?thesis by (metis append_assoc append_take_drop_id)
  qed
qed

subsection \<open>One chunk\<close>

text \<open>The reassembly buffer holds the incomplete frame \<open>t\<close>.\<close>

definition lpf_holds :: "nat \<Rightarrow> byte list \<Rightarrow> lp_framer \<Rightarrow> bool" where
  "lpf_holds mp t f \<longleftrightarrow> length (lf_buf f) = mp + 2 \<and> lf_leftover f = word_of_nat (length t)
     \<and> take (length t) (lf_buf f) = t \<and> parse_frames mp t = ([], Some t)"

lemma lpf_holds_facts:
  assumes "lpf_holds mp t f"
  shows "length t < mp + 2" "length t < 2 ^ 16 + 2" "unat (lf_leftover f) = length t" "lf_leftover f > 0 \<longleftrightarrow> t \<noteq> []"
    "lf_leftover f < 2 \<longleftrightarrow> length t < 2"
proof -
  show l: "length t < mp + 2" "length t < 2 ^ 16 + 2"
    using assms parse_frames_tail [of mp t "[]" t] by (simp_all add: lpf_holds_def)
  then have u: "unat (word_of_nat (length t) :: u32) = length t" by (intro unat_u32_of_nat) simp
  then show "unat (lf_leftover f) = length t" using assms by (simp add: lpf_holds_def)
  with l show "lf_leftover f > 0 \<longleftrightarrow> t \<noteq> []" "lf_leftover f < 2 \<longleftrightarrow> length t < 2"
    by (auto simp: word_less_nat_alt)
qed

lemma copy_to_start:
  "length bs \<le> length buf \<Longrightarrow> copy_to buf 0 bs = Inr (bs @ drop (length bs) buf)"
  by (simp add: copy_to_def)

lemma lpf_loop_no_bytes: "lpf_loop ms mp [] out f = Inr (Inr (), out, f)"
  by (simp add: lpf_loop.simps has_bytes_def)

lemma lpf_loop_short:
  assumes "bs \<noteq> []" "length bs < 2 \<or> (msg_len bs \<le> mp \<and> length bs < 2 + msg_len bs)" "length bs < 2 ^ 32"
    "length bs \<le> length (lf_buf f) \<or> \<not> ms"
  shows "lpf_loop ms mp bs out f =
    (if ms then Inr (Inr (), out, \<lparr>lf_buf = bs @ drop (length bs) (lf_buf f), lf_leftover = word_of_nat (length bs)\<rparr>)
     else Inr (Inl Stream_Malformed, out, f))"
proof -
  have u: "unat (word_of_nat (length bs) :: u32) = length bs" using assms(3) by (rule unat_u32_of_nat)
  then have lt: "(word_of_nat (length bs) :: u32) < 2 \<longleftrightarrow> length bs < 2" by (simp add: word_less_nat_alt)
  show ?thesis
  proof (cases "length bs < 2")
    case True
    with assms u lt show ?thesis
      by (subst lpf_loop.simps) (auto simp: has_bytes_def remaining_def copy_to_start Let_def)
  next
    case False
    then obtain w :: u16 where "read_num bs = Inr (w, drop 2 bs)" "unat w = msg_len bs"
      using read_num_msg_len [of bs] by auto
    moreover have "length (drop 2 bs) < msg_len bs" "msg_len bs \<le> mp" using assms(2) False by auto
    ultimately show ?thesis using assms u lt False
      by (subst lpf_loop.simps) (auto simp: has_bytes_def remaining_def copy_to_start Let_def)
  qed
qed

lemma lpf_loop_bad:
  assumes "2 \<le> length bs" "mp < msg_len bs" "length bs < 2 ^ 32"
  shows "lpf_loop ms mp bs out f = Inr (Inl Stream_Malformed, out, if ms then f\<lparr>lf_leftover := 0\<rparr> else f)"
proof -
  have u: "unat (word_of_nat (length bs) :: u32) = length bs" using assms(3) by (rule unat_u32_of_nat)
  obtain w :: u16 where "read_num bs = Inr (w, drop 2 bs)" "unat w = msg_len bs"
    using read_num_msg_len [OF assms(1)] by auto
  then show ?thesis using assms u
    by (subst lpf_loop.simps) (auto simp: has_bytes_def remaining_def Let_def word_less_nat_alt)
qed

lemma lpf_loop_ok:
  assumes "2 \<le> length bs" "msg_len bs \<le> mp" "2 + msg_len bs \<le> length bs" "length bs < 2 ^ 32"
  shows "lpf_loop ms mp bs out f = lpf_loop ms mp (drop (2 + msg_len bs) bs) (out @ [take (msg_len bs) (drop 2 bs)]) f"
proof -
  have u: "unat (word_of_nat (length bs) :: u32) = length bs" using assms(4) by (rule unat_u32_of_nat)
  obtain w :: u16 where "read_num bs = Inr (w, drop 2 bs)" "unat w = msg_len bs"
    using read_num_msg_len [OF assms(1)] by auto
  moreover have "\<not> length (drop 2 bs) < msg_len bs" using assms(3) by simp
  ultimately show ?thesis using assms(1,2,3) u
    by (subst lpf_loop.simps) (auto simp: has_bytes_def remaining_def Let_def take_n_def word_less_nat_alt add.commute)
qed

lemmas lpf_loop_branches = lpf_loop_short lpf_loop_bad lpf_loop_ok

text \<open>The loop finds the frames of the chunk and keeps the incomplete one.\<close>

lemma lpf_loop_frames:
  assumes "length bs < 2 ^ 32" "length (lf_buf f) = mp + 2" "lf_leftover f = 0"
  shows "case parse_frames mp bs of
      (msgs, None) \<Rightarrow> lpf_loop True mp bs out f = Inr (Inl Stream_Malformed, out @ msgs, f)
    | (msgs, Some t) \<Rightarrow> \<exists>f'. lpf_loop True mp bs out f = Inr (Inr (), out @ msgs, f') \<and> lpf_holds mp t f'"
  using assms
proof (induction mp bs arbitrary: out rule: parse_frames.induct)
  case (1 mp bs)
  consider (none) "bs = []"
    | (short) "bs \<noteq> []" "length bs < 2 \<or> (msg_len bs \<le> mp \<and> length bs < 2 + msg_len bs)"
    | (bad) "2 \<le> length bs" "mp < msg_len bs"
    | (ok) "2 \<le> length bs" "msg_len bs \<le> mp" "2 + msg_len bs \<le> length bs"
    by fastforce
  then show ?case
  proof cases
    case none
    with "1.prems" show ?thesis by (simp add: lpf_loop_no_bytes parse_frames.simps lpf_holds_def)
  next
    case short
    have p: "parse_frames mp bs = ([], Some bs)" by (rule parse_frames_short [OF short(2)])
    have "length bs < mp + 2" using parse_frames_tail [OF p] by simp
    then have "lpf_loop True mp bs out f =
        Inr (Inr (), out, \<lparr>lf_buf = bs @ drop (length bs) (lf_buf f), lf_leftover = word_of_nat (length bs)\<rparr>)"
      using lpf_loop_short [OF short "1.prems"(1), of f True] "1.prems"(2) by simp
    with p \<open>length bs < mp + 2\<close> "1.prems"(2) show ?thesis by (simp add: lpf_holds_def)
  next
    case bad
    then show ?thesis using lpf_loop_bad [OF bad "1.prems"(1), of True out f] "1.prems"(3)
      by (simp add: parse_frames.simps [of mp bs])
  next
    case ok
    let ?d = "drop (2 + msg_len bs) bs" and ?m = "take (msg_len bs) (drop 2 bs)"
    have IH: "case parse_frames mp ?d of
        (msgs, None) \<Rightarrow> lpf_loop True mp ?d (out @ [?m]) f = Inr (Inl Stream_Malformed, (out @ [?m]) @ msgs, f)
      | (msgs, Some t) \<Rightarrow> \<exists>f'. lpf_loop True mp ?d (out @ [?m]) f = Inr (Inr (), (out @ [?m]) @ msgs, f') \<and> lpf_holds mp t f'"
      using ok "1.prems" by (intro "1.IH") auto
    obtain msgs r where d: "parse_frames mp ?d = (msgs, r)" by (cases "parse_frames mp ?d")
    have p: "parse_frames mp bs = (?m # msgs, r)" using parse_frames_cons [OF ok] d by simp
    show ?thesis
      using IH unfolding lpf_loop_ok [OF ok "1.prems"(1)] p d
      by (cases r) simp_all
  qed
qed

lemma needed_bytes:
  assumes "unat (w :: u16) = n" "unat (l :: u32) = m" "m \<le> 2 + n"
  shows "unat (2 + ucast w - ucast l :: u64) = 2 + n - m"
proof -
  have n: "n < 2 ^ 16" using unsigned_less [where 'a = nat, of w] assms(1) by simp
  have "(2 + ucast w :: u64) = word_of_nat (2 + n)" "(ucast l :: u64) = word_of_nat m"
    using assms(1,2) of_nat_unat [of w, where ?'a = "64 word"] of_nat_unat [of l, where ?'a = "64 word"] by auto
  then have "(2 + ucast w - ucast l :: u64) = word_of_nat (2 + n - m)"
    using assms(3) by (simp only: of_nat_diff)
  moreover have "unat (word_of_nat (2 + n - m) :: u64) = 2 + n - m" using n by (intro unat_u64_of_nat) simp
  ultimately show ?thesis by simp
qed

lemma leftover_message_frames:
  assumes "length (lf_buf f) = mp + 2" "lf_leftover f = word_of_nat (length t)" "take (length t) (lf_buf f) = t"
    "2 \<le> length t" "length t \<le> mp + 2" "length t < 2 ^ 32" "msg_len t \<le> mp \<longrightarrow> length t \<le> 2 + msg_len t"
  shows "leftover_message mp data f =
      (if mp < msg_len t then Inr (None, data, True, f)
       else if 2 + msg_len t \<le> length t + length data
       then let n = 2 + msg_len t - length t in
         Inr (Some (drop 2 t @ take n data), drop n data, False,
           \<lparr>lf_buf = t @ take n data @ drop (2 + msg_len t) (lf_buf f), lf_leftover = 0\<rparr>)
       else Inr (None, [], False, \<lparr>lf_buf = t @ data @ drop (length t + length data) (lf_buf f),
           lf_leftover = word_of_nat (length t + length data)\<rparr>))"
proof -
  have lo: "unat (lf_leftover f) = length t" using unat_u32_of_nat [OF assms(6)] assms(2) by simp
  obtain w :: u16 where w: "read_num t = Inr (w, drop 2 t)" "unat w = msg_len t"
    using read_num_msg_len [OF assms(4)] by auto
  have rd: "buf_span (lf_buf f) 0 (length t) = Inr t" using assms(1,3,5) by (simp add: buf_span_def)
  show ?thesis
  proof (cases "mp < msg_len t")
    case True
    then show ?thesis by (simp add: leftover_message_def lo rd w)
  next
    case False
    then have le: "length t \<le> 2 + msg_len t" using assms(7) by simp
    define n where "n = 2 + msg_len t - length t"
    have needed: "unat (2 + ucast w - ucast (lf_leftover f) :: u64) = n"
      unfolding n_def by (rule needed_bytes [OF w(2) lo le])
    show ?thesis
    proof (cases "n \<le> length data")
      case True
      have "copy_to (lf_buf f) (length t) (take n data) = Inr (t @ take n data @ drop (2 + msg_len t) (lf_buf f))"
        using True False le assms(1,3) by (simp add: copy_to_def n_def)
      moreover have "buf_span (t @ take n data @ drop (2 + msg_len t) (lf_buf f)) 2 (msg_len t) = Inr (drop 2 t @ take n data)"
        using True False le assms(1,4) by (simp add: buf_span_def n_def)
      moreover have "2 + msg_len t \<le> length t + length data" using True by (simp add: n_def)
      ultimately show ?thesis using False True needed
        by (simp add: leftover_message_def lo rd w Let_def) (simp add: n_def)
    next
      case short: False
      have "copy_to (lf_buf f) (length t) data = Inr (t @ data @ drop (length t + length data) (lf_buf f))"
        using short False le assms(1,3) by (simp add: copy_to_def n_def)
      moreover have "\<not> 2 + msg_len t \<le> length t + length data" using short by (simp add: n_def)
      ultimately show ?thesis using False short needed lo rd w
        by (simp add: leftover_message_def Let_def) (simp add: assms(2))
    qed
  qed
qed

text \<open>What the reassembly buffer and a chunk give together.\<close>

definition lpf_step_ok :: "nat \<Rightarrow> byte list \<Rightarrow> lpf_result \<Rightarrow> bool" where
  "lpf_step_ok mp bs res = (case parse_frames mp bs of
      (msgs, None) \<Rightarrow> \<exists>f'. res = Inr (Inl Stream_Malformed, msgs, f') \<and> lpf_holds mp [] f'
    | (msgs, Some t) \<Rightarrow> \<exists>f'. res = Inr (Inr (), msgs, f') \<and> lpf_holds mp t f')"

lemma lpf_holds_Nil: "lpf_holds mp [] f \<longleftrightarrow> length (lf_buf f) = mp + 2 \<and> lf_leftover f = 0"
  by (auto simp: lpf_holds_def parse_frames.simps)

lemma lpf_loop_step_ok:
  assumes "length bs < 2 ^ 32" "length (lf_buf f) = mp + 2" "lf_leftover f = 0"
  shows "lpf_step_ok mp bs (lpf_loop True mp bs [] f)"
  using lpf_loop_frames [OF assms, of "[]"] assms(2,3)
  by (auto simp: lpf_step_ok_def lpf_holds_Nil split: prod.splits option.splits)

text \<open>From a frame whose length is known on, the rest of \<open>feed\<close> completes it from the chunk.\<close>

definition lpf_after :: "nat \<Rightarrow> (byte list option \<times> byte list \<times> bool \<times> lp_framer) \<Rightarrow> lpf_result" where
  "lpf_after mp = (\<lambda>(s, data, malformed, f).
     if malformed then Inr (Inl Stream_Malformed, [], f\<lparr>lf_leftover := 0\<rparr>)
     else case s of Some m \<Rightarrow> lpf_loop True mp data [m] f | None \<Rightarrow> Inr (Inr (), [], f))"

lemma leftover_message_step_ok:
  assumes "length (lf_buf f) = mp + 2" "lf_leftover f = word_of_nat (length t)" "take (length t) (lf_buf f) = t"
    "2 \<le> length t" "length t \<le> mp + 2" "length t < 2 ^ 32" "msg_len t \<le> mp \<longrightarrow> length t \<le> 2 + msg_len t"
    "length data < 2 ^ 32"
  shows "lpf_step_ok mp (t @ data) (bind_res (leftover_message mp data f) (lpf_after mp))"
proof -
  have ml: "msg_len (t @ data) = msg_len t" by (rule msg_len_append [OF assms(4)])
  note msg = leftover_message_frames [OF assms(1-7), of data]
  consider (bad) "mp < msg_len t" | (whole) "msg_len t \<le> mp" "2 + msg_len t \<le> length t + length data"
    | (part) "msg_len t \<le> mp" "length t + length data < 2 + msg_len t" by linarith
  then show ?thesis
  proof cases
    case bad
    have "parse_frames mp (t @ data) = ([], None)"
      using bad assms(4) ml by (simp add: parse_frames.simps [of mp "t @ data"])
    moreover have "leftover_message mp data f = Inr (None, data, True, f)" using bad msg by simp
    ultimately show ?thesis using assms(1) by (simp add: lpf_step_ok_def lpf_after_def lpf_holds_Nil)
  next
    case whole
    define n where "n = 2 + msg_len t - length t"
    define f' where "f' = \<lparr>lf_buf = t @ take n data @ drop (2 + msg_len t) (lf_buf f), lf_leftover = 0\<rparr>"
    have le: "length t \<le> 2 + msg_len t" using assms(7) whole(1) by simp
    have n: "n \<le> length data" "length t + n = 2 + msg_len t" using whole le by (simp_all add: n_def)
    have eq: "bind_res (leftover_message mp data f) (lpf_after mp) = lpf_loop True mp (drop n data) [drop 2 t @ take n data] f'"
      using whole unfolding msg by (simp add: lpf_after_def Let_def f'_def n_def)
    have pf: "parse_frames mp (t @ data) = ((drop 2 t @ take n data) # fst (parse_frames mp (drop n data)),
        snd (parse_frames mp (drop n data)))"
    proof -
      have "take (msg_len t) (drop 2 (t @ data)) = drop 2 t @ take n data"
        using n le assms(4) by (simp add: n_def)
      moreover have "drop (2 + msg_len t) (t @ data) = drop n data" using n(2) le by (simp add: n_def)
      ultimately show ?thesis
        using parse_frames_cons [of "t @ data" mp] whole assms(4) unfolding ml by simp
    qed
    have "case parse_frames mp (drop n data) of
        (msgs, None) \<Rightarrow> lpf_loop True mp (drop n data) [drop 2 t @ take n data] f'
          = Inr (Inl Stream_Malformed, [drop 2 t @ take n data] @ msgs, f')
      | (msgs, Some t') \<Rightarrow> \<exists>f''. lpf_loop True mp (drop n data) [drop 2 t @ take n data] f'
          = Inr (Inr (), [drop 2 t @ take n data] @ msgs, f'') \<and> lpf_holds mp t' f''"
      by (rule lpf_loop_frames) (use assms(1,8) n whole in \<open>simp_all add: f'_def\<close>)
    moreover have "lpf_holds mp [] f'" using n assms(1) whole by (simp add: f'_def lpf_holds_Nil)
    ultimately show ?thesis unfolding eq lpf_step_ok_def pf
      by (auto split: prod.splits option.splits)
  next
    case part
    have p: "parse_frames mp (t @ data) = ([], Some (t @ data))"
      by (rule parse_frames_short) (use part ml in simp)
    have "length (t @ data) \<le> mp + 2" using part by simp
    with p assms(1) part show ?thesis unfolding msg
      by (simp add: lpf_step_ok_def lpf_after_def lpf_holds_def)
  qed
qed

text \<open>One call of \<open>feed\<close> on a chunk acts as the reference on the kept bytes and the chunk.\<close>

lemma lpf_feed_step:
  assumes "lpf_holds mp t f" "length data < 2 ^ 32"
  shows "lpf_step_ok mp (t @ data) (lpf_feed True mp data f)"
proof (cases "t = []")
  case True
  with assms show ?thesis
    using lpf_loop_step_ok [of data f mp] by (simp add: lpf_feed_def lpf_holds_Nil)
next
  case False
  note facts = lpf_holds_facts [OF assms(1)]
  have eq: "lpf_feed True mp data f = bind_res (handle_leftover_bytes mp data f) (lpf_after mp)"
    using facts(4) False by (simp add: lpf_feed_def lpf_after_def case_prod_unfold)
  have h: "length (lf_buf f) = mp + 2" "lf_leftover f = word_of_nat (length t)" "take (length t) (lf_buf f) = t"
    "parse_frames mp t = ([], Some t)"
    using assms(1) by (simp_all add: lpf_holds_def)
  show ?thesis
  proof (cases "length t < 2")
    case short: True
    with False obtain a where t: "t = [a]" by (cases t) auto
    show ?thesis
    proof (cases data)
      case Nil
      with short facts(5) assms(1) h(4) show ?thesis
        unfolding eq by (simp add: handle_leftover_bytes_def lpf_after_def lpf_step_ok_def)
    next
      case (Cons b data')
      let ?f = "\<lparr>lf_buf = [a, b] @ drop 2 (lf_buf f), lf_leftover = 2 :: u32\<rparr>"
      have one: "unat (lf_leftover f) = 1" "lf_leftover f + 1 = 2" using h(2) t facts(3) by simp_all
      have "copy_to (lf_buf f) 1 [b] = Inr ([a, b] @ drop 2 (lf_buf f))"
        using h(1,3) t by (simp add: copy_to_def numeral_2_eq_2)
      then have eq2: "handle_leftover_bytes mp data f = leftover_message mp data' ?f"
        using facts(5) short one Cons by (simp add: handle_leftover_bytes_def)
      have "lpf_step_ok mp ([a, b] @ data') (bind_res (leftover_message mp data' ?f) (lpf_after mp))"
        by (rule leftover_message_step_ok) (use h(1) assms(2) Cons in simp_all)
      then show ?thesis unfolding eq eq2 using t Cons by simp
    qed
  next
    case long: False
    have "length t \<le> 2 + msg_len t"
    proof (rule ccontr)
      assume "\<not> length t \<le> 2 + msg_len t"
      then have "parse_frames mp t \<noteq> ([], Some t)" using long by (subst parse_frames.simps) (simp split: prod.splits)
      with h(4) show False by simp
    qed
    moreover have "handle_leftover_bytes mp data f = leftover_message mp data f"
      using facts(5) long by (simp add: handle_leftover_bytes_def)
    ultimately show ?thesis unfolding eq
      using leftover_message_step_ok [OF h(1-3), of data] long facts(1,2) assms(2) by simp
  qed
qed

subsection \<open>Any bytes\<close>

text \<open>A buffer fit for use holds some incomplete frame.\<close>

definition lpf_ok :: "nat \<Rightarrow> lp_framer \<Rightarrow> bool" where
  "lpf_ok mp f \<longleftrightarrow> (\<exists>t. lpf_holds mp t f)"

lemma lpf_holds_one: "length (lf_buf f) = mp + 2 \<Longrightarrow> lf_leftover f = 1 \<Longrightarrow> lpf_ok mp f"
  by (auto simp: lpf_ok_def lpf_holds_def parse_frames_short intro!: exI [of _ "take 1 (lf_buf f)"])

text \<open>The loop on a chunk of any size: nothing is read or written out of bounds.\<close>

lemma lpf_loop_total:
  assumes "length (lf_buf f) = mp + 2" "lf_leftover f = 0"
  shows "\<exists>r msgs f'. lpf_loop True mp bs out f = Inr (r, out @ msgs, f') \<and> lpf_ok mp f'"
proof (induction bs arbitrary: out rule: length_induct)
  case (1 bs)
  have f0: "lpf_ok mp f" using assms by (auto simp: lpf_ok_def lpf_holds_Nil intro!: exI [of _ "[]"])
  let ?rem = "word_of_nat (length bs) :: u32"
  consider (none) "bs = []" | (wrap) "bs \<noteq> []" "?rem < 2" | (small) "\<not> ?rem < 2" by blast
  then show ?case
  proof cases
    case none
    then show ?thesis using f0 by (auto simp: lpf_loop_no_bytes)
  next
    case wrap
    let ?n = "unat ?rem"
    have n: "?n = 0 \<or> ?n = 1" "?n \<le> length bs" using wrap(2) by (auto simp: word_less_nat_alt unsigned_of_nat take_bit_nat_eq_self_iff take_bit_eq_mod)
    let ?f = "\<lparr>lf_buf = take ?n bs @ drop ?n (lf_buf f), lf_leftover = ?rem\<rparr>"
    have len: "length (lf_buf ?f) = mp + 2" using n assms(1) by auto
    have "lpf_loop True mp bs out f = Inr (Inr (), out, ?f)"
      using wrap n assms(1) by (subst lpf_loop.simps) (auto simp: has_bytes_def remaining_def Let_def copy_to_def)
    moreover have "lpf_ok mp ?f"
    proof (cases "?n = 0")
      case True
      then have "?rem = 0" by (simp add: unat_eq_0)
      with len show ?thesis by (auto simp: lpf_ok_def lpf_holds_Nil intro!: exI [of _ "[]"])
    next
      case False
      with n have "?rem = 1" by (metis unat_1 word_unat_eq_iff)
      with len show ?thesis by (intro lpf_holds_one) simp_all
    qed
    ultimately show ?thesis by auto
  next
    case small
    have "unat ?rem \<le> length bs" by (simp add: unsigned_of_nat take_bit_eq_mod)
    with small have two: "2 \<le> length bs" by (simp add: word_less_nat_alt)
    then obtain w :: u16 where w: "read_num bs = Inr (w, drop 2 bs)" "unat w = msg_len bs"
      using read_num_msg_len [of bs] by auto
    have ne: "bs \<noteq> []" using two by auto
    consider (bad) "mp < msg_len bs" | (part) "msg_len bs \<le> mp" "length bs < 2 + msg_len bs"
      | (whole) "msg_len bs \<le> mp" "2 + msg_len bs \<le> length bs" by linarith
    then show ?thesis
    proof cases
      case bad
      have "lpf_loop True mp bs out f = Inr (Inl Stream_Malformed, out, f\<lparr>lf_leftover := 0\<rparr>)"
        using bad w small ne by (subst lpf_loop.simps) (simp add: has_bytes_def remaining_def Let_def)
      moreover have "f\<lparr>lf_leftover := 0\<rparr> = f" using assms(2) by simp
      ultimately show ?thesis using f0 by auto
    next
      case part
      have "length bs < 2 ^ 32" using part(2) msg_len_less [OF two] by simp
      from lpf_loop_frames [OF this assms, of out] parse_frames_short [of bs mp] part
      show ?thesis by (auto simp: lpf_ok_def)
    next
      case whole
      have step: "lpf_loop True mp bs out f = lpf_loop True mp (drop (2 + msg_len bs) bs) (out @ [take (msg_len bs) (drop 2 bs)]) f"
        using whole w small ne
        by (subst lpf_loop.simps) (auto simp: has_bytes_def remaining_def Let_def take_n_def add.commute)
      have "length (drop (2 + msg_len bs) bs) < length bs" using two by simp
      from 1 [rule_format, OF this, of "out @ [take (msg_len bs) (drop 2 bs)]"]
      show ?thesis unfolding step by auto
    qed
  qed
qed

lemma leftover_message_total:
  assumes "length (lf_buf f) = mp + 2" "lf_leftover f = word_of_nat (length t)" "take (length t) (lf_buf f) = t"
    "2 \<le> length t" "length t \<le> mp + 2" "length t < 2 ^ 32" "msg_len t \<le> mp \<longrightarrow> length t \<le> 2 + msg_len t"
  shows "\<exists>r msgs f'. bind_res (leftover_message mp data f) (lpf_after mp) = Inr (r, msgs, f') \<and> lpf_ok mp f'"
proof -
  note msg = leftover_message_frames [OF assms, of data]
  consider (step) "length data < 2 ^ 32" | (bad) "mp < msg_len t"
    | (whole) "msg_len t \<le> mp" "2 ^ 32 \<le> length data" by linarith
  then show ?thesis
  proof cases
    case step
    from leftover_message_step_ok [OF assms step] show ?thesis
      unfolding lpf_step_ok_def lpf_ok_def by (auto split: prod.splits option.splits)
  next
    case bad
    then show ?thesis unfolding msg using assms(1)
      by (auto simp: lpf_after_def lpf_ok_def lpf_holds_Nil intro!: exI [of _ "[]"])
  next
    case whole
    define n where "n = 2 + msg_len t - length t"
    define f' where "f' = \<lparr>lf_buf = t @ take n data @ drop (2 + msg_len t) (lf_buf f), lf_leftover = 0 :: u32\<rparr>"
    have le: "length t \<le> 2 + msg_len t" "msg_len t < 2 ^ 16" using assms(7) whole(1) msg_len_less [OF assms(4)] by simp_all
    have "bind_res (leftover_message mp data f) (lpf_after mp) = lpf_loop True mp (drop n data) [drop 2 t @ take n data] f'"
      using whole le unfolding msg by (simp add: lpf_after_def Let_def f'_def n_def)
    moreover have "length (lf_buf f') = mp + 2" using whole le assms(1) by (simp add: f'_def n_def)
    ultimately show ?thesis using lpf_loop_total [of f' mp "drop n data" "[drop 2 t @ take n data]"] by (auto simp: f'_def)
  qed
qed

lemma lpf_holds_len:
  assumes "parse_frames mp t = ([], Some t)" "2 \<le> length t"
  shows "length t \<le> 2 + msg_len t"
proof (rule ccontr)
  assume "\<not> length t \<le> 2 + msg_len t"
  then have "parse_frames mp t \<noteq> ([], Some t)" using assms(2) by (subst parse_frames.simps) (simp split: prod.splits)
  with assms(1) show False by simp
qed

lemma lpf_feed_total:
  assumes "lpf_ok mp f"
  shows "\<exists>r msgs f'. lpf_feed True mp data f = Inr (r, msgs, f') \<and> lpf_ok mp f'"
proof -
  obtain t where t: "lpf_holds mp t f" using assms by (auto simp: lpf_ok_def)
  note facts = lpf_holds_facts [OF t]
  have h: "length (lf_buf f) = mp + 2" "lf_leftover f = word_of_nat (length t)" "take (length t) (lf_buf f) = t"
    "parse_frames mp t = ([], Some t)"
    using t by (simp_all add: lpf_holds_def)
  consider (none) "t = []" | (one) "length t = 1" | (more) "2 \<le> length t"
    by (metis One_nat_def length_0_conv less_2_cases_iff not_less)
  then show ?thesis
  proof cases
    case none
    with h lpf_loop_total [of f mp data "[]"] show ?thesis by (auto simp: lpf_feed_def)
  next
    case one
    show ?thesis
    proof (cases data)
      case Nil
      with lpf_feed_step [OF t, of data] show ?thesis
        unfolding lpf_step_ok_def lpf_ok_def by (auto split: prod.splits option.splits)
    next
      case (Cons b data')
      let ?f = "\<lparr>lf_buf = t @ [b] @ drop 2 (lf_buf f), lf_leftover = 2 :: u32\<rparr>"
      have lo: "unat (lf_leftover f) = 1" "lf_leftover f + 1 = 2" using h(2) one by simp_all
      have "copy_to (lf_buf f) 1 [b] = Inr (t @ [b] @ drop 2 (lf_buf f))"
        using h(1,3) one by (simp add: copy_to_def numeral_2_eq_2)
      then have "lpf_feed True mp data f = bind_res (leftover_message mp data' ?f) (lpf_after mp)"
        using facts(4,5) one lo Cons
        by (auto simp: lpf_feed_def handle_leftover_bytes_def lpf_after_def case_prod_unfold)
      moreover have "\<exists>r msgs f'. bind_res (leftover_message mp data' ?f) (lpf_after mp) = Inr (r, msgs, f') \<and> lpf_ok mp f'"
        by (rule leftover_message_total [where t = "t @ [b]"]) (use h(1) one in simp_all)
      ultimately show ?thesis by simp
    qed
  next
    case more
    have "lpf_feed True mp data f = bind_res (leftover_message mp data f) (lpf_after mp)"
      using facts(4,5) more by (auto simp: lpf_feed_def handle_leftover_bytes_def lpf_after_def case_prod_unfold)
    with leftover_message_total [OF h(1-3) more, of data] lpf_holds_len [OF h(4) more] facts(1,2)
    show ?thesis by simp
  qed
qed

interpretation lpf: framer "lpf_feed True mp" "lpf_ok mp" for mp
  by unfold_locales (rule lpf_feed_total)

subsection \<open>Streams\<close>

lemma lpf_feed_until_frames:
  assumes "\<forall>d \<in> set ds. length d < 2 ^ 32" "lpf_holds mp t f"
  shows "lpf_step_ok mp (t @ concat ds) (feed_until (lpf_feed True mp) ds f)"
  using assms
proof (induction ds arbitrary: t f)
  case Nil
  then show ?case by (auto simp: lpf_step_ok_def lpf_holds_def)
next
  case (Cons d ds)
  have d: "lpf_step_ok mp (t @ d) (lpf_feed True mp d f)"
    using Cons.prems by (intro lpf_feed_step) auto
  have app: "parse_frames mp (t @ concat (d # ds)) = (case parse_frames mp (t @ d) of
      (ms, None) \<Rightarrow> (ms, None)
    | (ms, Some t') \<Rightarrow> (ms @ fst (parse_frames mp (t' @ concat ds)), snd (parse_frames mp (t' @ concat ds))))"
    using parse_frames_append [of mp "t @ d" "concat ds"] by simp
  obtain msgs r where p: "parse_frames mp (t @ d) = (msgs, r)" by (cases "parse_frames mp (t @ d)")
  show ?case
  proof (cases r)
    case None
    with d p obtain f' where "lpf_feed True mp d f = Inr (Inl Stream_Malformed, msgs, f')" "lpf_holds mp [] f'"
      by (auto simp: lpf_step_ok_def)
    then show ?thesis unfolding lpf_step_ok_def app by (simp add: p None)
  next
    case (Some t')
    with d p obtain f' where f': "lpf_feed True mp d f = Inr (Inr (), msgs, f')" "lpf_holds mp t' f'"
      by (auto simp: lpf_step_ok_def)
    have "lpf_step_ok mp (t' @ concat ds) (feed_until (lpf_feed True mp) ds f')"
      using Cons.prems(1) f'(2) by (intro Cons.IH) auto
    with f'(1) show ?thesis unfolding lpf_step_ok_def app
      by (auto simp: p Some split: prod.splits option.splits)
  qed
qed

text \<open>
  C11. Chunking does not matter: a stream cut into chunks of less than 4 GiB in any way, empty
  chunks and cuts inside a length included, makes a new framer hand over exactly the messages of
  the stream and report \<open>Malformed\<close> exactly when the stream has an oversized length in it; what
  is left of an incomplete last message waits in the reassembly buffer, which never overflows.
\<close>

theorem lpf_chunking:
  assumes "length junk = MaxPayload + 2" "\<forall>d \<in> set ds. length d < 2 ^ 32"
  shows "\<exists>f'. feed_until (lpf_feed True MaxPayload) ds (LengthPrefixFramer junk) =
      (case parse_frames MaxPayload (concat ds) of
        (msgs, None) \<Rightarrow> Inr (Inl Stream_Malformed, msgs, f')
      | (msgs, Some t) \<Rightarrow> Inr (Inr (), msgs, f'))
    \<and> (\<forall>msgs t. parse_frames MaxPayload (concat ds) = (msgs, Some t) \<longrightarrow>
        take (unat (lf_leftover f')) (lf_buf f') = t \<and> length (lf_buf f') = MaxPayload + 2)"
proof -
  have "lpf_holds MaxPayload [] (LengthPrefixFramer junk)"
    using assms(1) by (simp add: lpf_holds_Nil LengthPrefixFramer_def)
  from lpf_feed_until_frames [OF assms(2) this]
  have step: "lpf_step_ok MaxPayload (concat ds) (feed_until (lpf_feed True MaxPayload) ds (LengthPrefixFramer junk))"
    by simp
  show ?thesis
  proof (cases "parse_frames MaxPayload (concat ds)")
    case (Pair msgs r)
    show ?thesis
    proof (cases r)
      case None
      with step Pair show ?thesis by (auto simp: lpf_step_ok_def)
    next
      case (Some t)
      with step Pair obtain f' where f': "feed_until (lpf_feed True MaxPayload) ds (LengthPrefixFramer junk) = Inr (Inr (), msgs, f')"
        "lpf_holds MaxPayload t f'" by (auto simp: lpf_step_ok_def)
      from lpf_holds_facts(3) [OF f'(2)] f' Pair Some show ?thesis
        by (intro exI [of _ f']) (simp add: lpf_holds_def)
    qed
  qed
qed

theorem lpf_chunking_witness:
  "\<exists>f'. feed_until (lpf_feed True 4) [[0], [], [2, 7], [8, 0, 1], [9, 0]] (LengthPrefixFramer (replicate 6 0))
     = Inr (Inr (), [[7, 8], [9]], f') \<and> take (unat (lf_leftover f')) (lf_buf f') = [0]"
proof -
  have "parse_frames 4 (concat [[0], [], [2, 7], [8, 0, 1], [9, 0]]) = ([[7, 8], [9]], Some [0])"
    by (simp add: parse_frames.simps msg_len_def)
  then show ?thesis
    using lpf_chunking [of "replicate 6 0" 4 "[[0], [], [2, 7], [8, 0, 1], [9, 0]]"] by auto
qed

text \<open>The frames of a stream of messages are these messages.\<close>

lemma parse_frames_blocks:
  assumes "\<forall>m \<in> set msgs. length m \<le> mp \<and> length m < 2 ^ 16"
  shows "parse_frames mp (concat (map msg_block msgs)) = (msgs, Some [])"
  using assms
proof (induction msgs)
  case Nil
  then show ?case by (simp add: parse_frames_short)
next
  case (Cons m msgs)
  let ?bs = "concat (map msg_block (m # msgs))"
  have len: "msg_len ?bs = length m"
  proof -
    have "read_num ?bs = Inr (word_of_nat (length m) :: u16, m @ concat (map msg_block msgs))"
      using Cons.prems read_num_msg_block [of m "concat (map msg_block msgs)"] by simp
    moreover obtain w :: u16 where "read_num ?bs = Inr (w, drop 2 ?bs)" "unat w = msg_len ?bs"
      using read_num_msg_len [of ?bs] by auto
    ultimately show ?thesis using Cons.prems unat_u16_of_nat [of "length m"] by auto
  qed
  have "?bs = be_bytes (word_of_nat (length m) :: u16) @ m @ concat (map msg_block msgs)"
    by (simp add: msg_block_def)
  then have "drop 2 ?bs = m @ concat (map msg_block msgs)"
    by (metis append_eq_conv_conj length_be_bytes num_bytes_simps(2))
  then have "take (length m) (drop 2 ?bs) = m" "drop (2 + length m) ?bs = concat (map msg_block msgs)"
    by (simp_all flip: drop_drop add: add.commute)
  with Cons show ?case using parse_frames_cons [of ?bs mp] len by simp
qed

text \<open>Messages written behind their lengths come out of the framer, however the stream is cut.\<close>

lemma lpf_roundtrip:
  assumes "length junk = MaxPayload + 2" "\<forall>d \<in> set ds. length d < 2 ^ 32"
    "\<forall>m \<in> set msgs. length m \<le> MaxPayload \<and> length m < 2 ^ 16" "concat ds = concat (map msg_block msgs)"
  shows "\<exists>f'. feed_until (lpf_feed True MaxPayload) ds (LengthPrefixFramer junk) = Inr (Inr (), msgs, f') \<and> lf_leftover f' = 0"
proof -
  have "lpf_holds MaxPayload [] (LengthPrefixFramer junk)"
    using assms(1) by (simp add: lpf_holds_Nil LengthPrefixFramer_def)
  from lpf_feed_until_frames [OF assms(2) this] parse_frames_blocks [OF assms(3)] assms(4)
  show ?thesis by (auto simp: lpf_step_ok_def lpf_holds_Nil)
qed

text \<open>
  C35. The 32-bit count of the bytes left: a chunk whose size is a positive multiple of 4 GiB,
  arriving at a message boundary, is dropped whole and reported as framed.
\<close>

theorem lpf_drops_huge_chunk:
  assumes "lf_leftover f = 0" "length data = k * 2 ^ 32" "0 < k"
  shows "lpf_feed True MaxPayload data f = Inr (Inr (), [], f)"
proof -
  have "unat (word_of_nat n :: u32) = n mod 2 ^ 32" for n by (simp add: unsigned_of_nat take_bit_eq_mod)
  then have "unat (word_of_nat (length data) :: u32) = 0" by (simp only: assms(2) mod_mult_self2_is_0)
  then have z: "(word_of_nat (length data) :: u32) = 0" by (simp only: unat_eq_0)
  have "data \<noteq> []" using assms(2,3) by auto
  with z assms(1) show ?thesis
    by (simp add: lpf_feed_def lpf_loop.simps [of True MaxPayload data] has_bytes_def remaining_def copy_to_def)
qed

theorem lpf_drops_huge_chunk_witness:
  "lpf_feed True 50 (replicate (1 * 2 ^ 32) 0) (LengthPrefixFramer (replicate 52 0))
     = Inr (Inr (), [], LengthPrefixFramer (replicate 52 0))"
  by (rule lpf_drops_huge_chunk [where k = 1]) (simp_all only: LengthPrefixFramer_def lp_framer.simps length_replicate zero_less_one)

text \<open>
  A packet transport, where no message straddles two buffers: a datagram of less than 4 GiB
  is handed over whole when it is a sequence of messages; otherwise it is reported as malformed
  behind the messages in front of the fault. The reassembly state is never touched.
\<close>

lemma lpf_datagram:
  assumes "length data < 2 ^ 32"
  shows "lpf_feed False MaxPayload data f =
    (case parse_frames MaxPayload data of
      (msgs, r) \<Rightarrow> Inr (if r = Some [] then Inr () else Inl Stream_Malformed, msgs, f))"
proof -
  have "lpf_loop False MaxPayload data out f =
      (case parse_frames MaxPayload data of (msgs, r) \<Rightarrow>
        Inr (if r = Some [] then Inr () else Inl Stream_Malformed, out @ msgs, f))" for out
    using assms
  proof (induction MaxPayload data arbitrary: out rule: parse_frames.induct)
    case (1 mp bs)
    consider (none) "bs = []"
      | (short) "bs \<noteq> []" "length bs < 2 \<or> (msg_len bs \<le> mp \<and> length bs < 2 + msg_len bs)"
      | (bad) "2 \<le> length bs" "mp < msg_len bs"
      | (ok) "2 \<le> length bs" "msg_len bs \<le> mp" "2 + msg_len bs \<le> length bs"
      by fastforce
    then show ?case
    proof cases
      case none
      then show ?thesis by (simp add: lpf_loop_no_bytes parse_frames_short)
    next
      case short
      with "1.prems" show ?thesis by (simp add: lpf_loop_short parse_frames_short)
    next
      case bad
      with "1.prems" show ?thesis by (simp add: lpf_loop_bad parse_frames.simps [of mp bs])
    next
      case ok
      let ?m = "take (msg_len bs) (drop 2 bs)"
      have "lpf_loop False mp (drop (2 + msg_len bs) bs) (out @ [?m]) f =
        (case parse_frames mp (drop (2 + msg_len bs) bs) of (msgs, r) \<Rightarrow>
          Inr (if r = Some [] then Inr () else Inl Stream_Malformed, (out @ [?m]) @ msgs, f))"
        using ok "1.prems" by (intro "1.IH") auto
      then show ?thesis unfolding lpf_loop_ok [OF ok "1.prems"] parse_frames_cons [OF ok]
        by (simp split: prod.splits)
    qed
  qed
  from this [of "[]"] show ?thesis by (simp add: lpf_feed_def)
qed

end
