(* ===== verification/Std_Text.thy ===== *)
theory Std_Text
  imports Fastbook_Prelude
begin

section \<open>Text: the standard library functions the sources call\<close>

text \<open>
  \<open>std::from_chars\<close> in base 10 for unsigned types, and the decimal printing it inverts.
  A result is the rest of the text, the error code and the variable after the call: the
  variable keeps its value unless the conversion succeeds.
\<close>

subsection \<open>Numbers\<close>

datatype errc = Errc_Ok | Invalid_Argument | Result_Out_Of_Range

definition is_digit :: "char \<Rightarrow> bool" where
  "is_digit c \<longleftrightarrow> of_char c \<ge> (48 :: nat) \<and> of_char c \<le> (57 :: nat)"

definition digit_val :: "char \<Rightarrow> nat" where
  "digit_val c = of_char c - 48"

definition dec_val :: "string \<Rightarrow> nat" where
  "dec_val ds = foldl (\<lambda>n c. 10 * n + digit_val c) 0 ds"

definition from_chars :: "string \<Rightarrow> 'a :: len word \<Rightarrow> string \<times> errc \<times> 'a word" where
  "from_chars s out =
     (let ds = takeWhile is_digit s; rest = dropWhile is_digit s in
      if ds = [] then (s, Invalid_Argument, out)
      else if 2 ^ LENGTH('a) \<le> dec_val ds then (rest, Result_Out_Of_Range, out)
      else (rest, Errc_Ok, word_of_nat (dec_val ds)))"

text \<open>Printing, as \<open>operator<<\<close> and \<open>std::format\<close> print an unsigned number.\<close>

definition digit_char :: "nat \<Rightarrow> char" where
  "digit_char d = char_of (48 + d)"

fun dec_string :: "nat \<Rightarrow> string" where
  "dec_string n = (if n < 10 then [digit_char n] else dec_string (n div 10) @ [digit_char (n mod 10)])"

declare dec_string.simps [simp del]

subsection \<open>Facts\<close>

lemma digit_char_props [simp]: "d < 10 \<Longrightarrow> is_digit (digit_char d)" "d < 10 \<Longrightarrow> digit_val (digit_char d) = d"
  by (simp_all add: is_digit_def digit_val_def digit_char_def of_char_of)

lemma dec_val_snoc [simp]: "dec_val (ds @ [c]) = 10 * dec_val ds + digit_val c"
  by (simp add: dec_val_def)

lemma dec_string_digits: "c \<in> set (dec_string n) \<Longrightarrow> is_digit c"
proof (induction n rule: dec_string.induct)
  case (1 n)
  then show ?case by (subst (asm) (2) dec_string.simps) (auto split: if_splits)
qed

lemma dec_string_nonempty [simp]: "dec_string n \<noteq> []"
  by (subst dec_string.simps) simp

lemma dec_val_dec_string [simp]: "dec_val (dec_string n) = n"
proof (induction n rule: dec_string.induct)
  case (1 n)
  show ?case
  proof (cases "n < 10")
    case True
    then show ?thesis by (subst dec_string.simps) (simp add: dec_val_def)
  next
    case False
    with 1 show ?thesis by (subst dec_string.simps) simp
  qed
qed

lemma from_chars_digits:
  assumes "\<forall>c \<in> set s. is_digit c"
  shows "from_chars s (out :: 'a :: len word) =
    (if s = [] then ([], Invalid_Argument, out)
     else if 2 ^ LENGTH('a) \<le> dec_val s then ([], Result_Out_Of_Range, out)
     else ([], Errc_Ok, word_of_nat (dec_val s)))"
proof -
  have w: "takeWhile is_digit s = s" "dropWhile is_digit s = []" using assms by (simp_all add: takeWhile_eq_all_conv)
  show ?thesis unfolding from_chars_def w Let_def by simp
qed

lemma from_chars_dec_string:
  assumes "n < 2 ^ LENGTH('a :: len)"
  shows "from_chars (dec_string n) (out :: 'a word) = ([], Errc_Ok, word_of_nat n)"
  using assms dec_string_digits by (subst from_chars_digits) auto

text \<open>The whole text is a number that fits: what the callers check.\<close>

lemma from_chars_all:
  "(\<exists>v. from_chars s (out :: 'a :: len word) = ([], Errc_Ok, v))
    \<longleftrightarrow> s \<noteq> [] \<and> (\<forall>c \<in> set s. is_digit c) \<and> dec_val s < 2 ^ LENGTH('a)"
proof (cases "\<forall>c \<in> set s. is_digit c")
  case True
  then show ?thesis by (auto simp: from_chars_digits not_le)
next
  case False
  then have "dropWhile is_digit s \<noteq> []" by simp
  with False show ?thesis by (auto simp: from_chars_def Let_def)
qed

end
