(* ===== verification/Mold_Replay.thy ===== *)
theory Mold_Replay
  imports Mold_Framer Length_Prefix_Framer Std_Text
begin

section \<open>Feed replay and retransmission server (tools/mold\_replay.cpp)\<close>

text \<open>
  The other end of the wire: a capture of length-prefixed messages is packed into MoldUDP64
  datagrams, some of which are dropped on purpose, and requests for retransmission are answered
  from the same capture. File offsets are natural numbers, far below \<open>2^64\<close>. The results of
  \<open>sendmsg\<close> are ignored by the program: the model records the datagrams handed to it. The
  requests waiting at each call of \<open>serve_requests\<close> and the readings of the clock are arguments.
\<close>

subsection \<open>Data\<close>

definition SESSION :: "byte list" where
  "SESSION = map of_char ''FASTBOOK01''"

definition MAX_DATAGRAM :: nat where
  "MAX_DATAGRAM = 1400"

record replay_options =
  ro_file :: "string option"
  ro_group :: string
  ro_port :: u16
  ro_iface :: string
  ro_rerequest_port :: u16
  ro_drop_every :: u64
  ro_drop_burst :: u64
  ro_rate :: u64
  ro_linger_s :: u64

definition Options :: replay_options where
  "Options = \<lparr>ro_file = None, ro_group = ''239.1.1.1'', ro_port = 5000, ro_iface = ''0.0.0.0'',
     ro_rerequest_port = 6000, ro_drop_every = 0, ro_drop_burst = 1, ro_rate = 20000, ro_linger_s = 5\<rparr>"

record index_entry =
  ie_first_seq :: u64
  ie_offset :: nat

record batch =
  b_begin :: nat
  b_end :: nat
  b_count :: u16

record replay_stats =
  st_datagrams :: u64
  st_dropped :: u64
  st_messages :: u64
  st_requests :: u64
  st_resent :: u64

definition Replay_Stats :: replay_stats where
  "Replay_Stats = \<lparr>st_datagrams = 0, st_dropped = 0, st_messages = 0, st_requests = 0, st_resent = 0\<rparr>"

text \<open>The capture: what \<open>open\<close>, \<open>fstat\<close> and \<open>mmap\<close> answer, and the bytes of the mapping.\<close>

datatype map_env = Open_Fails | Fstat_Fails | Mmap_Fails | Maps "byte list"

definition MappedFile :: "map_env \<Rightarrow> byte list" where
  "MappedFile env = (case env of Maps bytes \<Rightarrow> bytes | _ \<Rightarrow> [])"

subsection \<open>Packing\<close>

definition message_size :: "byte list \<Rightarrow> nat \<Rightarrow> nat option" where
  "message_size data pos =
     (if pos + 2 > length data then None
      else let len = push_bit 8 (unat (data ! pos)) OR unat (data ! (pos + 1)) in
        if pos + 2 + len > length data then None else Some (2 + len))"

lemma unat_ucast_u16: "unat (ucast (c :: u16) :: u64) = unat c"
  using unsigned_less [where 'a = nat, of c] by (simp add: unsigned_ucast_eq take_bit_nat_eq_self)

lemma unat_Suc_count: "(c :: u16) < END_OF_SESSION - 1 \<Longrightarrow> unat (c + 1) = unat c + 1 \<and> unat c < 65534"
  by (simp add: END_OF_SESSION_def word_less_nat_alt unat_word_ariths)

function pack_loop :: "byte list \<Rightarrow> u64 \<Rightarrow> nat \<Rightarrow> batch \<Rightarrow> batch" where
  "pack_loop data max_count bytes b =
     (if ucast (b_count b) < max_count \<and> b_count b < END_OF_SESSION - 1 then
        case message_size data (b_end b) of
          None \<Rightarrow> b
        | Some sz \<Rightarrow>
            if b_count b > 0 \<and> bytes + sz > MAX_DATAGRAM then b
            else pack_loop data max_count (bytes + sz) (b\<lparr>b_end := b_end b + sz, b_count := b_count b + 1\<rparr>)
      else b)"
  by pat_completeness auto
termination
  by (relation "measure (\<lambda>(data, m, bytes, b). 65534 - unat (b_count b))") (auto dest: unat_Suc_count)

declare pack_loop.simps [simp del]

definition pack :: "byte list \<Rightarrow> nat \<Rightarrow> u64 \<Rightarrow> batch" where
  "pack data pos max_count = pack_loop data max_count HEADER_SIZE \<lparr>b_begin = pos, b_end = pos, b_count = 0\<rparr>"

definition subspan :: "byte list \<Rightarrow> nat \<Rightarrow> nat \<Rightarrow> byte list" where
  "subspan data off n = take n (drop off data)"

definition send_datagram :: "u64 \<Rightarrow> u16 \<Rightarrow> byte list \<Rightarrow> byte list res" where
  "send_datagram seq count payload =
     bind_res (write_header \<lparr>mh_session = SESSION, mh_seq_num = seq, mh_msg_count = count\<rparr>
                 \<lparr>bw_out = [], bw_room = HEADER_SIZE\<rparr>) (\<lambda>writer.
     Inr (bw_out writer @ payload))"

text \<open>A batch never has more messages than asked for.\<close>

lemma pack_loop_count:
  "ucast (b_count b) \<le> max_count \<Longrightarrow> ucast (b_count (pack_loop data max_count bytes b)) \<le> max_count"
proof (induction data max_count bytes b rule: pack_loop.induct)
  case (1 data max_count bytes b)
  show ?case
  proof (cases "ucast (b_count b) < max_count \<and> b_count b < END_OF_SESSION - 1")
    case True
    then have le: "ucast (b_count b + 1) \<le> max_count"
      using unat_Suc_count [of "b_count b"] by (simp add: word_le_nat_alt word_less_nat_alt unat_ucast_u16)
    then show ?thesis
      using "1.IH" [OF True] "1.prems" by (subst pack_loop.simps) (auto split: option.splits)
  next
    case False
    with "1.prems" show ?thesis by (subst pack_loop.simps) auto
  qed
qed

lemma pack_count: "ucast (b_count (pack data pos max_count)) \<le> max_count"
  unfolding pack_def by (rule pack_loop_count) simp

subsection \<open>Answering requests\<close>

text \<open>The walk to a message inside a datagram; \<open>left\<close> is \<open>seq - s\<close>.\<close>

fun walk_loop :: "byte list \<Rightarrow> nat \<Rightarrow> nat \<Rightarrow> nat res" where
  "walk_loop data 0 pos = Inr pos"
| "walk_loop data (Suc left) pos = (case message_size data pos of
     None \<Rightarrow> Inl Bad_Access
   | Some sz \<Rightarrow> walk_loop data left (pos + sz))"

lemma unat_minus_count:
  assumes "(c :: u16) \<noteq> 0" "ucast c \<le> (r :: u64)"
  shows "unat (r - ucast c) = unat r - unat c" "unat c \<le> unat r" "0 < unat c"
  using assms by (simp_all add: unat_sub word_le_nat_alt unat_ucast_u16 unat_gt_0)

function reply_loop :: "byte list \<Rightarrow> u64 \<Rightarrow> u64 \<Rightarrow> nat \<Rightarrow> replay_stats \<Rightarrow> (byte list list \<times> replay_stats) res" where
  "reply_loop data seq rem pos stats =
     (if rem > 0 then
        let b = pack data pos rem in
        if b_count b = 0 then Inr ([], stats)
        else bind_res (send_datagram seq (b_count b) (subspan data (b_begin b) (b_end b - b_begin b))) (\<lambda>d.
          bind_res (reply_loop data (seq + ucast (b_count b)) (rem - ucast (b_count b)) (b_end b)
                      (stats\<lparr>st_resent := st_resent stats + ucast (b_count b)\<rparr>)) (\<lambda>(ds, stats).
          Inr (d # ds, stats)))
      else Inr ([], stats))"
  by pat_completeness auto
termination
proof (relation "measure (\<lambda>(data, seq, rem, pos, stats). unat rem)")
  fix data seq rem pos stats b d
  assume "(0 :: u64) < rem" "b = pack data pos rem" "b_count b \<noteq> 0"
  with unat_minus_count [of "b_count b" rem] pack_count [of data pos rem]
  show "((data, seq + ucast (b_count b), rem - ucast (b_count b), b_end b,
      stats\<lparr>st_resent := st_resent stats + ucast (b_count b)\<rparr>), data, seq, rem, pos, stats)
    \<in> measure (\<lambda>(data, seq, rem, pos, stats). unat rem)" by simp
qed simp

declare reply_loop.simps [simp del]

text \<open>One request, as \<open>recvfrom\<close> delivers it: at most 64 bytes.\<close>

definition serve_request :: "byte list \<Rightarrow> index_entry list \<Rightarrow> u64 \<Rightarrow> byte list \<Rightarrow> replay_stats
    \<Rightarrow> (byte list list \<times> replay_stats) res" where
  "serve_request data index next_seq req stats =
     bind_res (read_header (take 64 req)) (\<lambda>(hdr_opt, reader).
       case hdr_opt of
         None \<Rightarrow> Inr ([], stats)
       | Some hdr \<Rightarrow>
           if mh_session hdr \<noteq> SESSION \<or> mh_seq_num hdr = 0 \<or> mh_seq_num hdr \<ge> next_seq then Inr ([], stats)
           else
             let stats = stats\<lparr>st_requests := st_requests stats + 1\<rparr>;
                 seq = mh_seq_num hdr;
                 rem = min (ucast (mh_msg_count hdr)) (next_seq - seq);
                 it = partition_search (\<lambda>e. \<not> seq < ie_first_seq e) index 0 (length index) in
             if it = 0 then Inl Bad_Access
             else
               let e = index ! (it - 1) in
               bind_res (walk_loop data (unat seq - unat (ie_first_seq e)) (ie_offset e)) (\<lambda>pos.
               reply_loop data seq rem pos stats))"

fun serve_requests :: "byte list \<Rightarrow> index_entry list \<Rightarrow> u64 \<Rightarrow> byte list list \<Rightarrow> replay_stats
    \<Rightarrow> (byte list list \<times> replay_stats) res" where
  "serve_requests data index next_seq [] stats = Inr ([], stats)"
| "serve_requests data index next_seq (req # reqs) stats =
     bind_res (serve_request data index next_seq req stats) (\<lambda>(ds, stats).
     bind_res (serve_requests data index next_seq reqs stats) (\<lambda>(ds', stats).
     Inr (ds @ ds', stats)))"

subsection \<open>The options\<close>

definition parse_num :: "string \<Rightarrow> 'a :: len word \<Rightarrow> bool \<times> 'a word" where
  "parse_num s out = (let (rest, ec, v) = from_chars s out in (ec = Errc_Ok \<and> rest = [], v))"

text \<open>One option: whether its argument is valid, whether it is known, the options after it.\<close>

definition replay_parse_opt :: "char \<Rightarrow> string \<Rightarrow> replay_options \<Rightarrow> bool \<times> bool \<times> replay_options" where
  "replay_parse_opt c optarg opt =
     (if c = CHR ''f'' then (True, True, opt\<lparr>ro_file := Some optarg\<rparr>)
      else if c = CHR ''g'' then (True, True, opt\<lparr>ro_group := optarg\<rparr>)
      else if c = CHR ''p'' then let (ok, v) = parse_num optarg (ro_port opt) in (ok, True, opt\<lparr>ro_port := v\<rparr>)
      else if c = CHR ''i'' then (True, True, opt\<lparr>ro_iface := optarg\<rparr>)
      else if c = CHR ''r'' then let (ok, v) = parse_num optarg (ro_rerequest_port opt) in (ok, True, opt\<lparr>ro_rerequest_port := v\<rparr>)
      else if c = CHR ''d'' then let (ok, v) = parse_num optarg (ro_drop_every opt) in (ok, True, opt\<lparr>ro_drop_every := v\<rparr>)
      else if c = CHR ''b'' then let (ok, v) = parse_num optarg (ro_drop_burst opt) in (ok, True, opt\<lparr>ro_drop_burst := v\<rparr>)
      else if c = CHR ''R'' then let (ok, v) = parse_num optarg (ro_rate opt) in (ok, True, opt\<lparr>ro_rate := v\<rparr>)
      else if c = CHR ''l'' then let (ok, v) = parse_num optarg (ro_linger_s opt) in (ok, True, opt\<lparr>ro_linger_s := v\<rparr>)
      else (True, False, opt))"

text \<open>The options \<open>getopt_long\<close> reports, in order, each with its argument.\<close>

fun replay_parse_opts :: "(char \<times> string) list \<Rightarrow> replay_options \<Rightarrow> bool \<times> replay_options" where
  "replay_parse_opts [] opt = (ro_file opt \<noteq> None, opt)"
| "replay_parse_opts ((c, optarg) # os) opt =
     (let (ok, known, opt) = replay_parse_opt c optarg opt in
      if \<not> known \<or> \<not> ok then (False, opt) else replay_parse_opts os opt)"

definition replay_parse_args :: "(char \<times> string) list \<Rightarrow> bool \<times> replay_options" where
  "replay_parse_args os = replay_parse_opts os Options"

subsection \<open>The replay\<close>

text \<open>
  The variables of \<open>main\<close>, the datagrams sent to the group and the replies. The pacing between
  datagrams only sleeps and is left out.
\<close>

record replay_state =
  rp_stats :: replay_stats
  rp_index :: "index_entry list"
  rp_seq :: u64
  rp_pos :: nat
  rp_sent :: "byte list list"
  rp_replies :: "byte list list"

definition replay_start :: replay_state where
  "replay_start = \<lparr>rp_stats = Replay_Stats, rp_index = [], rp_seq = 1, rp_pos = 0, rp_sent = [], rp_replies = []\<rparr>"

definition drop_datagram :: "replay_options \<Rightarrow> u64 \<Rightarrow> bool" where
  "drop_datagram opt datagrams \<longleftrightarrow> ro_drop_every opt > 0 \<and> datagrams mod ro_drop_every opt < ro_drop_burst opt"

text \<open>One iteration for a batch that is not empty, with the requests waiting at its end.\<close>

definition replay_datagram :: "replay_options \<Rightarrow> byte list \<Rightarrow> byte list list \<Rightarrow> batch \<Rightarrow> replay_state \<Rightarrow> replay_state res" where
  "replay_datagram opt data reqs b s =
     (let index = rp_index s @ [\<lparr>ie_first_seq = rp_seq s, ie_offset = b_begin b\<rparr>];
          stats = (rp_stats s)\<lparr>st_datagrams := st_datagrams (rp_stats s) + 1\<rparr>;
          drop = drop_datagram opt (st_datagrams stats) in
      bind_res (if drop then Inr (rp_sent s)
                else bind_res (send_datagram (rp_seq s) (b_count b) (subspan data (b_begin b) (b_end b - b_begin b)))
                       (\<lambda>d. Inr (rp_sent s @ [d]))) (\<lambda>sent.
      let stats = (if drop then stats\<lparr>st_dropped := st_dropped stats + 1\<rparr> else stats);
          seq = rp_seq s + ucast (b_count b);
          stats = stats\<lparr>st_messages := st_messages stats + ucast (b_count b)\<rparr> in
      bind_res (serve_requests data index seq reqs stats) (\<lambda>(ds, stats).
      Inr \<lparr>rp_stats = stats, rp_index = index, rp_seq = seq, rp_pos = b_end b, rp_sent = sent,
           rp_replies = rp_replies s @ ds\<rparr>)))"

text \<open>The main loop; \<open>reqs i\<close> are the requests waiting after the datagram \<open>i\<close>.\<close>

partial_function (option) replay_loop ::
  "replay_options \<Rightarrow> byte list \<Rightarrow> (nat \<Rightarrow> byte list list) \<Rightarrow> nat \<Rightarrow> replay_state \<Rightarrow> replay_state res option" where
  "replay_loop opt data reqs i s =
     (let b = pack data (rp_pos s) (- 1) in
      if b_count b = 0 then Some (Inr s)
      else case replay_datagram opt data (reqs i) b s of
             Inl e \<Rightarrow> Some (Inl e)
           | Inr s' \<Rightarrow> replay_loop opt data reqs (Suc i) s')"

text \<open>
  The end of the session: an iteration reads the clock for the condition of the loop and, if it
  goes on, for the announcement; then the requests waiting are answered.
\<close>

fun linger_loop :: "byte list \<Rightarrow> nat \<Rightarrow> nat \<Rightarrow> (nat \<times> nat \<times> byte list list) list \<Rightarrow> replay_state \<Rightarrow> replay_state res" where
  "linger_loop data linger_end next_eos [] s = Inr s"
| "linger_loop data linger_end next_eos ((now, now', reqs) # its) s =
     (if now < linger_end then
        bind_res (if now' \<ge> next_eos then bind_res (send_datagram (rp_seq s) END_OF_SESSION []) (\<lambda>d.
                    Inr (next_eos + 1000000000, rp_sent s @ [d]))
                  else Inr (next_eos, rp_sent s)) (\<lambda>(next_eos, sent).
        bind_res (serve_requests data (rp_index s) (rp_seq s) reqs (rp_stats s)) (\<lambda>(ds, stats).
        linger_loop data linger_end next_eos its (s\<lparr>rp_stats := stats, rp_sent := sent, rp_replies := rp_replies s @ ds\<rparr>)))
      else Inr s)"

text \<open>What the system answers to \<open>main\<close>: the sockets, the addresses, the options, the port.\<close>

record replay_env =
  rv_map :: "string \<Rightarrow> map_env"
  rv_sockets :: bool
  rv_group :: "string \<Rightarrow> bool option"
  rv_iface :: "string \<Rightarrow> bool option"
  rv_multicast_if :: bool
  rv_bind :: "u16 \<Rightarrow> bool"
  rv_requests :: "nat \<Rightarrow> byte list list"
  rv_clock :: "nat \<times> nat"
  rv_linger :: "(nat \<times> nat \<times> byte list list) list"

text \<open>
  \<open>rv_group\<close> is \<open>Some\<close> for a valid address, with whether it is a multicast address,
  \<open>rv_iface\<close> with whether it is not the wildcard. The result is the exit code and, for 0, the
  final state; \<open>None\<close> if the main loop never ends.
\<close>

definition replay_main :: "replay_env \<Rightarrow> (char \<times> string) list \<Rightarrow> (nat \<times> replay_state) res option" where
  "replay_main env os =
     (let (ok, opt) = replay_parse_args os; failed = Some (Inr (1, replay_start)) in
      if \<not> ok then failed
      else let data = MappedFile (rv_map env (the (ro_file opt))) in
      if data = [] then failed
      else if \<not> rv_sockets env then failed
      else case rv_group env (ro_group opt) of
        None \<Rightarrow> failed
      | Some multicast \<Rightarrow>
          (case rv_iface env (ro_iface opt) of
             None \<Rightarrow> failed
           | Some not_any \<Rightarrow>
               if multicast \<and> not_any \<and> \<not> rv_multicast_if env then failed
               else if \<not> rv_bind env (ro_rerequest_port opt) then failed
               else case replay_loop opt data (rv_requests env) 0 replay_start of
                 None \<Rightarrow> None
               | Some (Inl e) \<Rightarrow> Some (Inl e)
               | Some (Inr s) \<Rightarrow>
                   let linger_end = fst (rv_clock env) + unat (ro_linger_s opt) * 1000000000 in
                   Some (bind_res (linger_loop data linger_end (snd (rv_clock env)) (rv_linger env) s) (\<lambda>s. Inr (0, s)))))"

subsection \<open>The messages of a capture\<close>

text \<open>
  The messages of a capture are the frames of its bytes; the session publishes them under the
  sequence numbers from 1 on. (Outside the range of the capture the function repeats its first
  or last message, which no packet carries.)
\<close>

definition capture_msgs :: "byte list \<Rightarrow> byte list list" where
  "capture_msgs data = fst (parse_frames 65535 data)"

definition capture_stream :: "byte list \<Rightarrow> nat \<Rightarrow> byte list" where
  "capture_stream data i =
     (if capture_msgs data = [] then [] else capture_msgs data ! min (i - 1) (length (capture_msgs data) - 1))"

text \<open>The message \<open>i\<close> of the capture, counted from 0, starts at \<open>pos\<close>.\<close>

definition msg_at :: "byte list \<Rightarrow> nat \<Rightarrow> nat \<Rightarrow> bool" where
  "msg_at data i pos \<longleftrightarrow> pos \<le> length data \<and> i \<le> length (capture_msgs data)
     \<and> capture_msgs (drop pos data) = drop i (capture_msgs data)"

lemma or_byte: "b < 256 \<Longrightarrow> push_bit 8 a OR b = 256 * a + (b :: nat)"
proof -
  assume b: "b < 256"
  have "bit (push_bit 8 a) n \<Longrightarrow> \<not> bit b n" for n
    using b bit_take_bit_iff [of 8 b n] take_bit_nat_eq_self [of b 8] by (simp add: bit_push_bit_iff)
  then have "push_bit 8 a + b = push_bit 8 a OR b" by (intro disjunctive_add_eq_or bit_eqI) (auto simp: bit_and_iff)
  then show ?thesis by (simp add: push_bit_eq_mult)
qed

lemma message_size_frames:
  "message_size data pos =
    (let bs = drop pos data in if length bs < 2 \<or> length bs < 2 + msg_len bs then None else Some (2 + msg_len bs))"
proof (cases "length data < pos + 2")
  case True
  then show ?thesis by (auto simp: message_size_def Let_def)
next
  case False
  then have "take 2 (drop pos data) = [data ! pos, data ! (pos + 1)]"
    by (simp add: take_Suc_conv_app_nth numeral_2_eq_2)
  moreover have "unat (data ! (pos + 1)) < 256" using unsigned_less [where 'a = nat, of "data ! (pos + 1)"] by simp
  ultimately have "push_bit 8 (unat (data ! pos)) OR unat (data ! (pos + 1)) = msg_len (drop pos data)"
    by (simp add: msg_len_def or_byte)
  with False show ?thesis by (auto simp: message_size_def Let_def)
qed

lemma msg_block_take:
  assumes "2 + msg_len bs \<le> length bs"
  shows "msg_block (take (msg_len bs) (drop 2 bs)) = take (2 + msg_len bs) bs"
proof -
  have l: "2 \<le> length bs" using assms by simp
  obtain w :: u16 where w: "read_num bs = Inr (w, drop 2 bs)" "take 2 bs = be_bytes w" by (rule read_num_u16 [OF l])
  with read_num_msg_len [OF l] have "unat w = msg_len bs" by auto
  then have "word_of_nat (msg_len bs) = w" by (metis of_nat_unat ucast_id)
  then have "be_bytes (word_of_nat (msg_len bs) :: u16) = take 2 bs" using w(2) by simp
  with assms show ?thesis unfolding take_add by (simp add: msg_block_def)
qed

lemma capture_msgs_cons:
  assumes "2 \<le> length bs" "2 + msg_len bs \<le> length bs"
  shows "capture_msgs bs = take (msg_len bs) (drop 2 bs) # capture_msgs (drop (2 + msg_len bs) bs)"
  using assms msg_len_less [OF assms(1)] by (simp add: capture_msgs_def parse_frames_cons)

lemma capture_msgs_short:
  assumes "length bs < 2 \<or> length bs < 2 + msg_len bs"
  shows "capture_msgs bs = []"
proof (cases "length bs < 2")
  case False
  with assms msg_len_less [of bs] show ?thesis by (simp add: capture_msgs_def parse_frames_short)
qed (simp add: capture_msgs_def parse_frames_short)

lemma msg_at_0: "msg_at data 0 0"
  by (simp add: msg_at_def)

text \<open>What \<open>message_size\<close> finds at the start of a message.\<close>

lemma message_size_at:
  assumes "msg_at data i pos"
  shows "if i < length (capture_msgs data)
    then \<exists>sz. message_size data pos = Some sz \<and> msg_at data (Suc i) (pos + sz)
      \<and> take sz (drop pos data) = msg_block (capture_stream data (Suc i))
    else message_size data pos = None"
proof -
  let ?bs = "drop pos data"
  have at: "capture_msgs ?bs = drop i (capture_msgs data)" "pos \<le> length data" using assms by (simp_all add: msg_at_def)
  show ?thesis
  proof (cases "length ?bs < 2 \<or> length ?bs < 2 + msg_len ?bs")
    case True
    then have "length (capture_msgs data) \<le> i" using capture_msgs_short [OF True] at(1) by simp
    with True show ?thesis by (simp add: message_size_frames Let_def)
  next
    case False
    then have f: "2 \<le> length ?bs" "2 + msg_len ?bs \<le> length ?bs" by auto
    let ?m = "take (msg_len ?bs) (drop 2 ?bs)" and ?sz = "2 + msg_len ?bs"
    have c: "drop i (capture_msgs data) = ?m # capture_msgs (drop (pos + ?sz) data)"
      using capture_msgs_cons [OF f] at(1) by (simp add: add.commute add.left_commute)
    then have i: "i < length (capture_msgs data)" by (metis drop_eq_Nil list.discI not_le)
    with c have "capture_msgs data ! i = ?m" "drop (Suc i) (capture_msgs data) = capture_msgs (drop (pos + ?sz) data)"
      by (simp_all add: Cons_nth_drop_Suc [symmetric])
    then have "msg_at data (Suc i) (pos + ?sz)" "capture_stream data (Suc i) = ?m"
      using f i at(2) by (auto simp: msg_at_def capture_stream_def min_def)
    moreover have "take ?sz ?bs = msg_block ?m" using msg_block_take [OF f(2)] by simp
    ultimately show ?thesis using i False by (auto simp: message_size_frames Let_def)
  qed
qed

lemma capture_msg_size: "m \<in> set (capture_msgs bs) \<Longrightarrow> length m < 2 ^ 16"
proof (induction "length bs" arbitrary: bs rule: less_induct)
  case less
  show ?case
  proof (cases "length bs < 2 \<or> length bs < 2 + msg_len bs")
    case True
    with less.prems show ?thesis by (simp add: capture_msgs_short)
  next
    case False
    then have f: "2 \<le> length bs" "2 + msg_len bs \<le> length bs" by auto
    from less.prems [unfolded capture_msgs_cons [OF f]] less.hyps [of "drop (2 + msg_len bs) bs"] msg_len_less [OF f(1)] f
    show ?thesis by auto
  qed
qed

lemma capture_stream_mem: "capture_msgs data \<noteq> [] \<Longrightarrow> capture_stream data i \<in> set (capture_msgs data)"
  by (auto simp: capture_stream_def intro!: nth_mem min.strict_coboundedI2)

lemma capture_stream_size: "length (capture_stream data i) < 2 ^ 16"
  using capture_msg_size [OF capture_stream_mem] by (cases "capture_msgs data = []") (simp_all add: capture_stream_def)

lemma capture_msgs_length: "2 * length (capture_msgs bs) \<le> length bs"
proof (induction "length bs" arbitrary: bs rule: less_induct)
  case less
  show ?case
  proof (cases "length bs < 2 \<or> length bs < 2 + msg_len bs")
    case True
    then show ?thesis by (simp add: capture_msgs_short)
  next
    case False
    then have f: "2 \<le> length bs" "2 + msg_len bs \<le> length bs" by auto
    have "2 * length (capture_msgs (drop (2 + msg_len bs) bs)) \<le> length (drop (2 + msg_len bs) bs)"
      by (rule less.hyps) (use f in simp)
    with f show ?thesis by (simp add: capture_msgs_cons [OF f])
  qed
qed

lemma capture_all: "map (capture_stream data) [1..<Suc (length (capture_msgs data))] = capture_msgs data"
  by (rule nth_equalityI) (auto simp: capture_stream_def min_def simp del: upt_Suc)

subsection \<open>Packing\<close>

lemma stream_blocks_snoc: "stream_blocks stream k (Suc n) = stream_blocks stream k n @ msg_block (stream (k + n))"
  by (simp add: stream_blocks_def)

text \<open>A batch under construction: \<open>n\<close> messages from the message \<open>i\<close> on.\<close>

definition batch_ok :: "byte list \<Rightarrow> nat \<Rightarrow> nat \<Rightarrow> batch \<Rightarrow> bool" where
  "batch_ok data i n b \<longleftrightarrow> b_count b = word_of_nat n \<and> n \<le> 65534 \<and> b_begin b \<le> b_end b \<and> msg_at data (i + n) (b_end b)
     \<and> subspan data (b_begin b) (b_end b - b_begin b) = stream_blocks (capture_stream data) (Suc i) n
     \<and> (n \<le> 1 \<or> HEADER_SIZE + (b_end b - b_begin b) \<le> MAX_DATAGRAM)"

lemma batch_ok_take:
  assumes "batch_ok data i n b" "i + n < length (capture_msgs data)" "message_size data (b_end b) = Some sz" "n < 65534"
    "n = 0 \<or> HEADER_SIZE + (b_end b - b_begin b) + sz \<le> MAX_DATAGRAM"
  shows "batch_ok data i (Suc n) (b\<lparr>b_end := b_end b + sz, b_count := b_count b + 1\<rparr>)"
proof -
  have b: "b_count b = word_of_nat n" "b_begin b \<le> b_end b" "msg_at data (i + n) (b_end b)"
    "subspan data (b_begin b) (b_end b - b_begin b) = stream_blocks (capture_stream data) (Suc i) n"
    using assms(1) by (simp_all add: batch_ok_def)
  from message_size_at [OF b(3)] assms(2,3) have sz: "msg_at data (Suc (i + n)) (b_end b + sz)"
    "take sz (drop (b_end b) data) = msg_block (capture_stream data (Suc (i + n)))" by auto
  have len: "b_end b + sz - b_begin b = (b_end b - b_begin b) + sz" using b(2) by simp
  have "subspan data (b_begin b) (b_end b + sz - b_begin b)
      = subspan data (b_begin b) (b_end b - b_begin b) @ take sz (drop (b_end b) data)"
    unfolding subspan_def len take_add using b(2) by simp
  with b sz assms(4,5) show ?thesis
    by (auto simp: batch_ok_def stream_blocks_snoc add.commute)
qed

lemma pack_loop_spec:
  assumes "batch_ok data i n b" "bytes = HEADER_SIZE + (b_end b - b_begin b)" "n \<le> unat max_count"
  shows "\<exists>n' b'. pack_loop data max_count bytes b = b' \<and> batch_ok data i n' b' \<and> b_begin b' = b_begin b
    \<and> n \<le> n' \<and> n' \<le> unat max_count
    \<and> (n = 0 \<and> i < length (capture_msgs data) \<and> max_count \<noteq> 0 \<longrightarrow> 0 < n')"
  using assms
proof (induction data max_count bytes b arbitrary: n rule: pack_loop.induct)
  case (1 data max_count bytes b)
  have b: "b_count b = word_of_nat n" "n \<le> 65534" "b_begin b \<le> b_end b" "msg_at data (i + n) (b_end b)"
    using "1.prems"(1) by (simp_all add: batch_ok_def)
  have c: "unat (b_count b) = n" using b(1,2) by (simp add: unat_u16_of_nat)
  have guard: "ucast (b_count b) < max_count \<and> b_count b < END_OF_SESSION - 1 \<longleftrightarrow> n < unat max_count \<and> n < 65534"
    using c by (simp add: word_less_nat_alt unat_ucast_u16 END_OF_SESSION_def)
  show ?case
  proof (cases "n < unat max_count \<and> n < 65534")
    case False
    have "pack_loop data max_count bytes b = b" using False guard by (subst pack_loop.simps) auto
    with False "1.prems" show ?thesis by (auto simp: unat_eq_zero)
  next
    case True
    then have g: "ucast (b_count b) < max_count \<and> b_count b < END_OF_SESSION - 1" using guard by simp
    show ?thesis
    proof (cases "message_size data (b_end b)")
      case None
      then have "pack_loop data max_count bytes b = b" by (subst pack_loop.simps) simp
      moreover have "\<not> i + n < length (capture_msgs data)" using message_size_at [OF b(4)] None by auto
      ultimately show ?thesis using "1.prems" by auto
    next
      case (Some sz)
      then have lt: "i + n < length (capture_msgs data)" using message_size_at [OF b(4)] by (auto split: if_splits)
      have pos: "b_count b > 0 \<longleftrightarrow> n > 0" using c by (auto simp: word_gt_0 unat_gt_0 [symmetric])
      show ?thesis
      proof (cases "b_count b > 0 \<and> bytes + sz > MAX_DATAGRAM")
        case True
        then have "pack_loop data max_count bytes b = b" using g Some by (subst pack_loop.simps) simp
        with "1.prems" True pos show ?thesis by auto
      next
        case fits: False
        let ?b = "b\<lparr>b_end := b_end b + sz, b_count := b_count b + 1\<rparr>"
        have step: "pack_loop data max_count bytes b = pack_loop data max_count (bytes + sz) ?b"
          using g Some fits by (subst pack_loop.simps) auto
        have "batch_ok data i (Suc n) ?b"
          by (rule batch_ok_take [OF "1.prems"(1) lt Some]) (use True fits pos "1.prems"(2) in auto)
        moreover have "bytes + sz = HEADER_SIZE + (b_end ?b - b_begin ?b)" using "1.prems"(2) b(3) by simp
        moreover have "Suc n \<le> unat max_count" using True by simp
        ultimately have "\<exists>n' b'. pack_loop data max_count (bytes + sz) ?b = b' \<and> batch_ok data i n' b' \<and> b_begin b' = b_begin ?b
            \<and> Suc n \<le> n' \<and> n' \<le> unat max_count \<and> (Suc n = 0 \<and> i < length (capture_msgs data) \<and> max_count \<noteq> 0 \<longrightarrow> 0 < n')"
          by (rule "1.IH" [OF g Some fits])
        then show ?thesis unfolding step by auto
      qed
    qed
  qed
qed

lemma pack_spec:
  assumes "msg_at data i pos"
  shows "\<exists>n. batch_ok data i n (pack data pos max_count) \<and> b_begin (pack data pos max_count) = pos \<and> n \<le> unat max_count
    \<and> (i < length (capture_msgs data) \<and> max_count \<noteq> 0 \<longrightarrow> 0 < n)"
proof -
  have "batch_ok data i 0 \<lparr>b_begin = pos, b_end = pos, b_count = 0\<rparr>"
    using assms by (simp add: batch_ok_def subspan_def)
  from pack_loop_spec [OF this, of HEADER_SIZE max_count] show ?thesis by (auto simp: pack_def)
qed

subsection \<open>Datagrams\<close>

lemma SESSION_length [simp]: "length SESSION = SESSION_SIZE"
  by (simp add: SESSION_def SESSION_SIZE_def)

lemma send_datagram_eq:
  "send_datagram seq count payload
    = Inr (header_bytes \<lparr>mh_session = SESSION, mh_seq_num = seq, mh_msg_count = count\<rparr> @ payload)"
  by (simp add: send_datagram_def write_header_bytes del: HEADER_SIZE_eq)

abbreviation capture_packet :: "byte list \<Rightarrow> nat \<times> nat \<Rightarrow> byte list" where
  "capture_packet data p \<equiv> mold_packet SESSION (capture_stream data) (fst p) (snd p)"

lemma send_batch:
  assumes "batch_ok data i n b"
  shows "send_datagram (word_of_nat (Suc i)) (b_count b) (subspan data (b_begin b) (b_end b - b_begin b))
    = Inr (capture_packet data (Suc i, n))"
  using assms by (simp add: send_datagram_eq mold_packet_def batch_ok_def)

text \<open>Packets that carry the messages from \<open>k\<close> up to, not including, \<open>e\<close>, one after the other.\<close>

fun covers :: "nat \<Rightarrow> (nat \<times> nat) list \<Rightarrow> nat \<Rightarrow> bool" where
  "covers k [] e \<longleftrightarrow> k = e"
| "covers k ((a, n) # ps) e \<longleftrightarrow> a = k \<and> 0 < n \<and> n \<le> 65534 \<and> covers (k + n) ps e"

lemma covers_append: "covers k ps m \<Longrightarrow> covers m qs e \<Longrightarrow> covers k (ps @ qs) e"
  by (induction k ps m rule: covers.induct) auto

lemma covers_le: "covers k ps e \<Longrightarrow> k \<le> e"
  by (induction k ps e rule: covers.induct) auto

lemma covers_packet: "covers k ps e \<Longrightarrow> p \<in> set ps \<Longrightarrow> k \<le> fst p \<and> fst p + snd p \<le> e \<and> snd p \<le> 65534"
proof (induction k ps e rule: covers.induct)
  case (2 k a n ps e)
  then show ?case using covers_le [of "k + n" ps e] by fastforce
qed simp

lemma from_session_packet:
  assumes "fst p + snd p < 2 ^ 64" "snd p \<le> 65534"
  shows "from_session SESSION (capture_stream data) (capture_packet data p)"
  using from_session.packet [of "fst p" "snd p" SESSION "capture_stream data" "length (capture_packet data p)"] assms by simp

subsection \<open>Answering requests\<close>

lemma walk_loop_at:
  assumes "msg_at data i pos" "i + left \<le> length (capture_msgs data)"
  shows "\<exists>pos'. walk_loop data left pos = Inr pos' \<and> msg_at data (i + left) pos'"
  using assms
proof (induction left arbitrary: i pos)
  case (Suc left)
  from message_size_at [OF Suc.prems(1)] Suc.prems(2) obtain sz where
    sz: "message_size data pos = Some sz" "msg_at data (Suc i) (pos + sz)" by auto
  from Suc.IH [OF sz(2)] Suc.prems(2) sz(1) show ?case by simp
qed simp

text \<open>The replies to a request for \<open>r\<close> messages of the capture are packets with these messages.\<close>

lemma reply_loop_spec:
  assumes "msg_at data i pos" "seq = word_of_nat (Suc i)" "i + unat rem \<le> length (capture_msgs data)"
  shows "\<exists>ps. reply_loop data seq rem pos stats = Inr (map (capture_packet data) ps, stats\<lparr>st_resent := st_resent stats + rem\<rparr>)
    \<and> covers (Suc i) ps (Suc i + unat rem)"
  using assms
proof (induction data seq rem pos stats arbitrary: i rule: reply_loop.induct)
  case (1 data seq rem pos stats)
  show ?case
  proof (cases "rem > 0")
    case False
    then have "rem = 0" by (simp add: word_gt_0)
    then show ?thesis by (subst reply_loop.simps) (auto intro!: exI [of _ "[]"])
  next
    case True
    then have r: "0 < unat rem" "rem \<noteq> 0" by (simp_all add: word_gt_0 unat_gt_0)
    define b where "b = pack data pos rem"
    from pack_spec [OF "1.prems"(1), of rem] r "1.prems"(3) obtain n where
      n: "batch_ok data i n b" "n \<le> unat rem" "0 < n" unfolding b_def by auto
    have un: "unat (b_count b) = n" using n(1) by (simp add: batch_ok_def unat_u16_of_nat)
    then have cnt: "unat (b_count b) = n" "b_count b \<noteq> 0" "ucast (b_count b) \<le> rem" "msg_at data (i + n) (b_end b)" "n \<le> 65534"
      using n pack_count [of data pos rem] by (auto simp: batch_ok_def b_def [symmetric])
    have seq': "seq + ucast (b_count b) = word_of_nat (Suc (i + n))"
      using n(1) "1.prems"(2) cnt(1) of_nat_unat [of "b_count b", where ?'a = "64 word"] by simp
    have rem': "unat (rem - ucast (b_count b)) = unat rem - n" using unat_minus_count(1) [OF cnt(2,3)] cnt(1) by simp
    let ?stats = "stats\<lparr>st_resent := st_resent stats + ucast (b_count b)\<rparr>"
    have send: "send_datagram seq (b_count b) (subspan data (b_begin b) (b_end b - b_begin b)) = Inr (capture_packet data (Suc i, n))"
      using send_batch [OF n(1)] "1.prems"(2) by simp
    have "\<exists>ps. reply_loop data (seq + ucast (b_count b)) (rem - ucast (b_count b)) (b_end b) ?stats
        = Inr (map (capture_packet data) ps, ?stats\<lparr>st_resent := st_resent ?stats + (rem - ucast (b_count b))\<rparr>)
      \<and> covers (Suc (i + n)) ps (Suc (i + n) + unat (rem - ucast (b_count b)))"
      by (rule "1.IH" [OF True b_def cnt(2) cnt(4) seq']) (use rem' n(2) "1.prems"(3) in simp)
    then obtain ps where ps: "reply_loop data (seq + ucast (b_count b)) (rem - ucast (b_count b)) (b_end b) ?stats
        = Inr (map (capture_packet data) ps, stats\<lparr>st_resent := st_resent stats + rem\<rparr>)"
      "covers (Suc (i + n)) ps (Suc i + unat rem)" using rem' n(2) by auto
    have "reply_loop data seq rem pos stats = Inr (map (capture_packet data) ((Suc i, n) # ps), stats\<lparr>st_resent := st_resent stats + rem\<rparr>)"
      using True cnt(2) send ps(1) by (subst reply_loop.simps) (simp add: b_def [symmetric] Let_def)
    with ps(2) n(3) cnt(5) show ?thesis by (intro exI [of _ "(Suc i, n) # ps"]) simp
  qed
qed

text \<open>The index after the messages before \<open>i\<close> have been packed.\<close>

definition index_ok :: "byte list \<Rightarrow> nat \<Rightarrow> index_entry list \<Rightarrow> bool" where
  "index_ok data i idx \<longleftrightarrow> (\<forall>e \<in> set idx. \<exists>j < i. ie_first_seq e = word_of_nat (Suc j) \<and> msg_at data j (ie_offset e))
     \<and> sorted_wrt (\<lambda>a b. ie_first_seq a \<le> ie_first_seq b) idx
     \<and> (0 < i \<longrightarrow> idx \<noteq> [] \<and> ie_first_seq (idx ! 0) = 1)"

lemma index_search:
  assumes "index_ok data i idx" "1 \<le> seq" "0 < i"
  defines "it \<equiv> partition_search (\<lambda>e. \<not> seq < ie_first_seq e) idx 0 (length idx)"
  shows "0 < it \<and> it - 1 < length idx \<and> ie_first_seq (idx ! (it - 1)) \<le> seq"
proof -
  have idx: "idx \<noteq> []" "ie_first_seq (idx ! 0) = 1" and srt: "sorted_wrt (\<lambda>a b. ie_first_seq a \<le> ie_first_seq b) idx"
    using assms(1,3) by (simp_all add: index_ok_def)
  have mono: "\<not> seq < ie_first_seq (idx ! b) \<Longrightarrow> \<not> seq < ie_first_seq (idx ! a)" if "a < b" "b < length idx" for a b
    using sorted_wrt_nth_less [OF srt that] by auto
  have spec: "it \<le> length idx" "\<forall>a. a < it \<longrightarrow> \<not> seq < ie_first_seq (idx ! a)"
      "\<forall>a. it \<le> a \<and> a < length idx \<longrightarrow> seq < ie_first_seq (idx ! a)"
    using partition_search_spec [of 0 "length idx" "\<lambda>e. \<not> seq < ie_first_seq e" idx] mono unfolding it_def by auto
  have "0 < it"
  proof (rule ccontr)
    assume "\<not> 0 < it"
    then have "seq < ie_first_seq (idx ! 0)" using spec(3) idx(1) by auto
    with idx(2) assms(2) show False by simp
  qed
  with spec(1,2) show ?thesis by (auto simp: not_less)
qed

text \<open>A request the server answers, and what it answers.\<close>

definition accepted :: "nat \<Rightarrow> byte list \<Rightarrow> mold_header \<Rightarrow> bool" where
  "accepted i req hdr \<longleftrightarrow> (\<exists>rest. take 64 req = header_bytes hdr @ rest) \<and> mh_session hdr = SESSION
     \<and> 1 \<le> unat (mh_seq_num hdr) \<and> unat (mh_seq_num hdr) \<le> i"

lemma serve_request_accepted:
  assumes idx: "index_ok data i idx" and i: "i \<le> length (capture_msgs data)" "Suc i < 2 ^ 64" and acc: "accepted i req hdr"
    and r: "r = min (unat (mh_msg_count hdr)) (Suc i - unat (mh_seq_num hdr))"
  shows "\<exists>ps. serve_request data idx (word_of_nat (Suc i)) req stats = Inr (map (capture_packet data) ps,
      stats\<lparr>st_requests := st_requests stats + 1, st_resent := st_resent stats + word_of_nat r\<rparr>)
    \<and> covers (unat (mh_seq_num hdr)) ps (unat (mh_seq_num hdr) + r)"
proof -
  define seq where "seq = mh_seq_num hdr"
  have s: "1 \<le> unat seq" "unat seq \<le> i" "mh_session hdr = SESSION" using acc by (simp_all add: accepted_def seq_def)
  have hdr: "\<exists>rest. read_header (take 64 req) = Inr (Some hdr, rest)"
    using acc read_header_bytes [of hdr] SESSION_length by (auto simp: accepted_def)
  have nx: "unat (word_of_nat (Suc i) :: u64) = Suc i" using i(2) by (rule unat_u64_of_nat)
  then have lt: "\<not> word_of_nat (Suc i) \<le> seq" "seq \<noteq> 0" "1 \<le> seq" using s(1,2)
    by (auto simp: word_le_nat_alt not_le unat_gt_0 [symmetric])
  let ?it = "partition_search (\<lambda>e. \<not> seq < ie_first_seq e) idx 0 (length idx)"
  have it: "0 < ?it" "?it - 1 < length idx" "ie_first_seq (idx ! (?it - 1)) \<le> seq"
    using index_search [OF idx lt(3)] s by simp_all
  let ?e = "idx ! (?it - 1)"
  have "?e \<in> set idx" using it(2) by simp
  then obtain j where j: "j < i" "ie_first_seq ?e = word_of_nat (Suc j)" "msg_at data j (ie_offset ?e)"
    using idx unfolding index_ok_def by blast
  have jl: "unat (ie_first_seq ?e) = Suc j" using j(1,2) i(2) unat_u64_of_nat [of "Suc j"] by simp
  then have js: "Suc j \<le> unat seq" using it(3) by (simp add: word_le_nat_alt)
  obtain pos where pos: "walk_loop data (unat seq - Suc j) (ie_offset ?e) = Inr pos" "msg_at data (unat seq - 1) pos"
    using walk_loop_at [OF j(3), of "unat seq - Suc j"] s(2) i(1) js by fastforce
  let ?rem = "min (ucast (mh_msg_count hdr)) (word_of_nat (Suc i) - seq) :: u64"
  have "unat (word_of_nat (Suc i) - seq :: u64) = Suc i - unat seq" using lt(1) nx by (simp add: unat_sub)
  then have rem: "unat ?rem = r" by (simp add: min_def word_le_nat_alt unat_ucast_u16 r seq_def)
  then have rw: "?rem = word_of_nat r" by (metis of_nat_unat ucast_id)
  have sq: "seq = word_of_nat (Suc (unat seq - 1))" using s(1) by simp
  have "unat seq - 1 + unat ?rem \<le> length (capture_msgs data)" using rem r s i(1) by (simp add: seq_def)
  from reply_loop_spec [OF pos(2) sq this, of "stats\<lparr>st_requests := st_requests stats + 1\<rparr>"] s(1) rem rw
  obtain ps where ps: "reply_loop data seq ?rem pos (stats\<lparr>st_requests := st_requests stats + 1\<rparr>) = Inr (map (capture_packet data) ps,
      stats\<lparr>st_requests := st_requests stats + 1, st_resent := st_resent stats + word_of_nat r\<rparr>)"
    "covers (unat seq) ps (unat seq + r)" by auto
  have "serve_request data idx (word_of_nat (Suc i)) req stats = reply_loop data seq ?rem pos (stats\<lparr>st_requests := st_requests stats + 1\<rparr>)"
    using hdr s(3) lt it(1) jl pos(1) by (auto simp: serve_request_def Let_def seq_def [symmetric])
  with ps show ?thesis by (auto simp: seq_def)
qed

lemma serve_request_ignored:
  assumes "\<nexists>hdr. accepted i req hdr" "Suc i < 2 ^ 64"
  shows "serve_request data idx (word_of_nat (Suc i)) req stats = Inr ([], stats)"
proof (cases rule: read_header_cases [of "take 64 req"])
  case short
  then show ?thesis by (simp add: serve_request_def)
next
  case (header hdr rest)
  have "unat (word_of_nat (Suc i) :: u64) = Suc i" using assms(2) by (rule unat_u64_of_nat)
  moreover have "\<not> accepted i req hdr" using assms(1) by blast
  ultimately have "mh_session hdr \<noteq> SESSION \<or> mh_seq_num hdr = 0 \<or> mh_seq_num hdr \<ge> word_of_nat (Suc i)"
    using header(2) by (auto simp: accepted_def word_le_nat_alt not_le Suc_le_eq unat_gt_0 unat_eq_zero)
  with header(1) show ?thesis by (auto simp: serve_request_def)
qed

text \<open>Any requests: the replies are packets of the session.\<close>

definition session_packets :: "byte list \<Rightarrow> nat \<Rightarrow> byte list list \<Rightarrow> bool" where
  "session_packets data i ds \<longleftrightarrow> (\<forall>d \<in> set ds. \<exists>p. d = capture_packet data p \<and> 1 \<le> fst p \<and> fst p + snd p \<le> Suc i \<and> snd p \<le> 65534)"

lemma session_packets_simps [simp]: "session_packets data i []"
  "session_packets data i (ds @ ds') \<longleftrightarrow> session_packets data i ds \<and> session_packets data i ds'"
  by (auto simp: session_packets_def)

lemma session_packets_mono: "session_packets data i ds \<Longrightarrow> i \<le> j \<Longrightarrow> session_packets data j ds"
  unfolding session_packets_def by (meson Suc_le_mono order_trans)

lemma serve_request_total:
  assumes "index_ok data i idx" "i \<le> length (capture_msgs data)" "Suc i < 2 ^ 64"
  shows "\<exists>ds stats'. serve_request data idx (word_of_nat (Suc i)) req stats = Inr (ds, stats') \<and> session_packets data i ds
    \<and> st_messages stats' = st_messages stats \<and> st_datagrams stats' = st_datagrams stats \<and> st_dropped stats' = st_dropped stats"
proof (cases "\<exists>hdr. accepted i req hdr")
  case True
  then obtain hdr where hdr: "accepted i req hdr" by blast
  from serve_request_accepted [OF assms this refl, of stats] obtain ps where
    ps: "\<exists>stats'. serve_request data idx (word_of_nat (Suc i)) req stats = Inr (map (capture_packet data) ps, stats')
      \<and> st_messages stats' = st_messages stats \<and> st_datagrams stats' = st_datagrams stats \<and> st_dropped stats' = st_dropped stats"
    "covers (unat (mh_seq_num hdr)) ps (unat (mh_seq_num hdr) + min (unat (mh_msg_count hdr)) (Suc i - unat (mh_seq_num hdr)))"
    by auto
  have "session_packets data i (map (capture_packet data) ps)"
    unfolding session_packets_def using covers_packet [OF ps(2)] hdr by (fastforce simp: accepted_def)
  with ps(1) show ?thesis by blast
next
  case False
  then show ?thesis using serve_request_ignored [OF False assms(3)] by auto
qed

lemma serve_requests_total:
  assumes "index_ok data i idx" "i \<le> length (capture_msgs data)" "Suc i < 2 ^ 64"
  shows "\<exists>ds stats'. serve_requests data idx (word_of_nat (Suc i)) reqs stats = Inr (ds, stats') \<and> session_packets data i ds
    \<and> st_messages stats' = st_messages stats \<and> st_datagrams stats' = st_datagrams stats \<and> st_dropped stats' = st_dropped stats"
proof (induction reqs arbitrary: stats)
  case (Cons req reqs)
  obtain ds stats1 where 1: "serve_request data idx (word_of_nat (Suc i)) req stats = Inr (ds, stats1)" "session_packets data i ds"
    "st_messages stats1 = st_messages stats" "st_datagrams stats1 = st_datagrams stats" "st_dropped stats1 = st_dropped stats"
    using serve_request_total [OF assms] by blast
  obtain ds' stats2 where "serve_requests data idx (word_of_nat (Suc i)) reqs stats1 = Inr (ds', stats2)" "session_packets data i ds'"
    "st_messages stats2 = st_messages stats1" "st_datagrams stats2 = st_datagrams stats1" "st_dropped stats2 = st_dropped stats1"
    using Cons.IH by blast
  with 1 show ?case by simp
qed simp

subsection \<open>The main loop\<close>

text \<open>The datagrams sent: the packets numbered from 1 on, without those dropped.\<close>

definition undropped :: "replay_options \<Rightarrow> (nat \<times> nat) list \<Rightarrow> (nat \<times> nat) list" where
  "undropped opt ps = map snd (filter (\<lambda>(d, p). \<not> drop_datagram opt (word_of_nat d)) (enumerate 1 ps))"

lemma undropped_snoc:
  "undropped opt (ps @ [p]) = undropped opt ps @ (if drop_datagram opt (word_of_nat (Suc (length ps))) then [] else [p])"
  by (simp add: undropped_def enumerate_append_eq)

lemma undropped_subset: "set (undropped opt ps) \<subseteq> set ps"
  by (auto simp: undropped_def in_set_enumerate_eq Suc_le_eq nth_mem dest!: sym [of "ps ! _"])

text \<open>Small datagrams: only a datagram with a single message may exceed the limit.\<close>

definition small :: "byte list \<Rightarrow> nat \<times> nat \<Rightarrow> bool" where
  "small data p \<longleftrightarrow> snd p \<le> 1 \<or> length (capture_packet data p) \<le> MAX_DATAGRAM"

definition replay_inv :: "replay_options \<Rightarrow> byte list \<Rightarrow> nat \<Rightarrow> (nat \<times> nat) list \<Rightarrow> replay_state \<Rightarrow> bool" where
  "replay_inv opt data i ps s \<longleftrightarrow> msg_at data i (rp_pos s) \<and> rp_seq s = word_of_nat (Suc i) \<and> index_ok data i (rp_index s)
     \<and> covers 1 ps (Suc i) \<and> (\<forall>p \<in> set ps. small data p) \<and> rp_sent s = map (capture_packet data) (undropped opt ps)
     \<and> session_packets data i (rp_replies s)
     \<and> st_datagrams (rp_stats s) = word_of_nat (length ps) \<and> st_messages (rp_stats s) = word_of_nat i"

lemma index_ok_snoc:
  assumes "index_ok data i idx" "msg_at data i pos" "0 < n" "Suc i < 2 ^ 64"
  shows "index_ok data (i + n) (idx @ [\<lparr>ie_first_seq = word_of_nat (Suc i), ie_offset = pos\<rparr>])"
proof -
  let ?e = "\<lparr>ie_first_seq = word_of_nat (Suc i), ie_offset = pos\<rparr>"
  have "ie_first_seq a \<le> ie_first_seq ?e" if a: "a \<in> set idx" for a
  proof -
    from a assms(1) obtain j where "j < i" "ie_first_seq a = word_of_nat (Suc j)" unfolding index_ok_def by blast
    with assms(4) show ?thesis using u64_le_iff [of "Suc j" "Suc i"] by simp
  qed
  moreover have "\<exists>j < i + n. ie_first_seq a = word_of_nat (Suc j) \<and> msg_at data j (ie_offset a)" if "a \<in> set idx" for a
    using that assms(1) unfolding index_ok_def by (meson trans_less_add1)
  moreover have "(idx @ [?e]) ! 0 = (if i = 0 \<and> idx = [] then ?e else idx ! 0)" "i = 0 \<longrightarrow> idx = []"
    using assms(1) by (auto simp: index_ok_def nth_append)
  moreover have "\<exists>j < i + n. ie_first_seq ?e = word_of_nat (Suc j) \<and> msg_at data j (ie_offset ?e)"
    using assms(2,3) by (intro exI [of _ i]) simp
  ultimately show ?thesis
    using assms(1,3) unfolding index_ok_def sorted_wrt_append by auto
qed

lemma length_capture_packet: "length (mold_packet SESSION (capture_stream data) k n) = HEADER_SIZE + length (stream_blocks (capture_stream data) k n)"
  by (simp add: mold_packet_def length_header_bytes del: HEADER_SIZE_eq)

lemma replay_datagram_inv:
  assumes inv: "replay_inv opt data i ps s" and b: "batch_ok data i n b" "b_begin b = rp_pos s" "0 < n"
    and len: "length data < 2 ^ 63"
  shows "\<exists>s'. replay_datagram opt data reqs b s = Inr s' \<and> replay_inv opt data (i + n) (ps @ [(Suc i, n)]) s'"
proof -
  have i: "msg_at data i (rp_pos s)" "rp_seq s = word_of_nat (Suc i)" "index_ok data i (rp_index s)" "covers 1 ps (Suc i)"
    "st_datagrams (rp_stats s) = word_of_nat (length ps)"
    using inv by (simp_all add: replay_inv_def)
  have bo: "b_count b = word_of_nat n" "n \<le> 65534" "msg_at data (i + n) (b_end b)" "b_begin b \<le> b_end b" using b(1) by (simp_all add: batch_ok_def)
  have cap: "i + n \<le> length (capture_msgs data)" using bo(3) by (simp add: msg_at_def)
  then have bound: "Suc (i + n) < 2 ^ 64" "Suc i < 2 ^ 64" using capture_msgs_length [of data] len by auto
  let ?idx = "rp_index s @ [\<lparr>ie_first_seq = rp_seq s, ie_offset = b_begin b\<rparr>]"
  have idx: "index_ok data (i + n) ?idx" using index_ok_snoc [OF i(3,1) b(3) bound(2)] i(2) b(2) by simp
  have seq: "rp_seq s + ucast (b_count b) = word_of_nat (Suc (i + n))"
    using i(2) bo(1,2) of_nat_unat [of "b_count b", where ?'a = "64 word"] unat_u16_of_nat [of n] by simp
  have cnt: "(ucast (b_count b) :: u64) = word_of_nat n"
    using bo(1,2) of_nat_unat [of "b_count b", where ?'a = "64 word"] unat_u16_of_nat [of n] by simp
  define dr where "dr = drop_datagram opt (st_datagrams (rp_stats s) + 1)"
  define stats where "stats = (let st = (rp_stats s)\<lparr>st_datagrams := st_datagrams (rp_stats s) + 1\<rparr>;
      st = (if dr then st\<lparr>st_dropped := st_dropped st + 1\<rparr> else st) in st\<lparr>st_messages := st_messages st + ucast (b_count b)\<rparr>)"
  obtain ds stats' where sv: "serve_requests data ?idx (word_of_nat (Suc (i + n))) reqs stats = Inr (ds, stats')"
    "session_packets data (i + n) ds" "st_messages stats' = st_messages stats" "st_datagrams stats' = st_datagrams stats"
    using serve_requests_total [OF idx cap bound(1)] by blast
  have st: "st_datagrams stats = word_of_nat (Suc (length ps))" "st_messages stats = word_of_nat (i + n)"
    using inv cnt by (auto simp: stats_def replay_inv_def Let_def)
  have dr': "dr \<longleftrightarrow> drop_datagram opt (word_of_nat (Suc (length ps)))" using i(5) by (simp add: dr_def add.commute)
  let ?p = "(Suc i, n)"
  let ?s = "\<lparr>rp_stats = stats', rp_index = ?idx, rp_seq = word_of_nat (Suc (i + n)), rp_pos = b_end b,
    rp_sent = rp_sent s @ (if dr then [] else [capture_packet data ?p]), rp_replies = rp_replies s @ ds\<rparr>"
  have send: "send_datagram (rp_seq s) (b_count b) (subspan data (b_begin b) (b_end b - b_begin b)) = Inr (capture_packet data ?p)"
    using send_batch [OF b(1)] i(2) by simp
  have run: "replay_datagram opt data reqs b s = Inr ?s"
    using send sv(1) seq unfolding replay_datagram_def dr_def [symmetric] Let_def by (cases dr) (simp_all add: stats_def dr_def [symmetric] Let_def)
  have "stream_blocks (capture_stream data) (Suc i) n = take (b_end b - b_begin b) (drop (b_begin b) data)" "b_end b \<le> length data"
    using b(1) bo(3) by (simp_all add: batch_ok_def subspan_def msg_at_def)
  then have "length (stream_blocks (capture_stream data) (Suc i) n) = b_end b - b_begin b" using bo(4) by simp
  then have "small data ?p" using b(1) by (auto simp: small_def length_capture_packet batch_ok_def)
  moreover have "covers 1 (ps @ [?p]) (Suc (i + n))" using covers_append [OF i(4), of "[?p]" "Suc (i + n)"] b(3) bo(2) by simp
  moreover have "rp_sent ?s = map (capture_packet data) (undropped opt (ps @ [?p]))"
    using inv dr' by (auto simp: undropped_snoc replay_inv_def)
  moreover have "session_packets data (i + n) (rp_replies s)" using inv session_packets_mono by (auto simp: replay_inv_def)
  ultimately have "replay_inv opt data (i + n) (ps @ [?p]) ?s"
    using inv idx bo(3) sv(2-4) st by (auto simp: replay_inv_def)
  with run show ?thesis by blast
qed

lemma replay_loop_inv:
  assumes "replay_inv opt data i ps s" "length data < 2 ^ 63"
  shows "\<exists>s' ps'. replay_loop opt data reqs k s = Some (Inr s') \<and> replay_inv opt data (length (capture_msgs data)) ps' s'"
  using assms(1)
proof (induction "length (capture_msgs data) - i" arbitrary: i ps s k rule: less_induct)
  case less
  let ?N = "length (capture_msgs data)"
  have at: "msg_at data i (rp_pos s)" using less.prems by (simp add: replay_inv_def)
  let ?b = "pack data (rp_pos s) (- 1)"
  from pack_spec [OF at, of "- 1"] obtain n where n: "batch_ok data i n ?b" "b_begin ?b = rp_pos s" "i < ?N \<longrightarrow> 0 < n" by auto
  have un: "unat (b_count ?b) = n" "i + n \<le> ?N" using n(1) by (simp_all add: batch_ok_def unat_u16_of_nat msg_at_def)
  show ?case
  proof (cases "i < ?N")
    case False
    then have "n = 0" "i = ?N" using un(2) at by (auto simp: msg_at_def)
    then have "replay_loop opt data reqs k s = Some (Inr s)"
      using un(1) by (subst replay_loop.simps) (simp add: unat_eq_zero Let_def)
    with less.prems \<open>i = ?N\<close> show ?thesis by blast
  next
    case True
    then have "0 < n" using n(3) by simp
    from replay_datagram_inv [OF less.prems n(1,2) this assms(2), of "reqs k"] obtain s1 where
      s1: "replay_datagram opt data (reqs k) ?b s = Inr s1" "replay_inv opt data (i + n) (ps @ [(Suc i, n)]) s1" by blast
    have "b_count ?b \<noteq> 0" using un(1) \<open>0 < n\<close> by auto
    then have "replay_loop opt data reqs k s = replay_loop opt data reqs (Suc k) s1"
      using s1(1) by (subst replay_loop.simps) (simp add: Let_def)
    with less.hyps [OF _ s1(2), of "Suc k"] True \<open>0 < n\<close> show ?thesis by simp
  qed
qed

lemma replay_inv_start: "replay_inv opt data 0 [] replay_start"
  by (simp add: replay_inv_def replay_start_def msg_at_0 index_ok_def Replay_Stats_def undropped_def)

subsection \<open>The end of the session\<close>

text \<open>
  Every packet is one of the session, under any numbering of messages that agrees with the
  capture as far as the capture goes.
\<close>

definition publishes :: "byte list \<Rightarrow> (nat \<Rightarrow> byte list) \<Rightarrow> bool" where
  "publishes data stream \<longleftrightarrow> (\<forall>i \<in> {1..length (capture_msgs data)}. stream i = capture_stream data i)"

lemma capture_packet_session:
  assumes "publishes data stream" "length data < 2 ^ 63" "1 \<le> fst p" "fst p + snd p \<le> Suc (length (capture_msgs data))" "snd p \<le> 65534"
  shows "from_session SESSION stream (capture_packet data p)"
proof -
  have "stream_blocks (capture_stream data) (fst p) (snd p) = stream_blocks stream (fst p) (snd p)"
    using assms(1,3,4) by (auto simp: stream_blocks_def publishes_def intro!: arg_cong [where f = concat] map_cong)
  then have eq: "capture_packet data p = mold_packet SESSION stream (fst p) (snd p)" by (simp add: mold_packet_def)
  have "fst p + snd p < 2 ^ 64" using assms(2,4) capture_msgs_length [of data] by simp
  with assms(5) show ?thesis unfolding eq
    using from_session.packet [of "fst p" "snd p" SESSION stream "length (mold_packet SESSION stream (fst p) (snd p))"] by simp
qed

lemma session_packets_session:
  assumes "session_packets data (length (capture_msgs data)) ds" "publishes data stream" "length data < 2 ^ 63"
  shows "\<forall>d \<in> set ds. from_session SESSION stream d"
proof
  fix d assume "d \<in> set ds"
  with assms(1) obtain p where "d = capture_packet data p" "1 \<le> fst p" "fst p + snd p \<le> Suc (length (capture_msgs data))" "snd p \<le> 65534"
    unfolding session_packets_def by blast
  then show "from_session SESSION stream d" by (simp only: capture_packet_session [OF assms(2,3)])
qed

lemma replay_inv_session:
  assumes "replay_inv opt data (length (capture_msgs data)) ps s"
  shows "session_packets data (length (capture_msgs data)) (rp_sent s @ rp_replies s)"
proof -
  have c: "covers 1 ps (Suc (length (capture_msgs data)))" using assms by (simp add: replay_inv_def)
  have "session_packets data (length (capture_msgs data)) (map (capture_packet data) (undropped opt ps))"
    unfolding session_packets_def
  proof
    fix d assume "d \<in> set (map (capture_packet data) (undropped opt ps))"
    then obtain p where "d = capture_packet data p" "p \<in> set ps" using undropped_subset by fastforce
    with covers_packet [OF c this(2)]
    show "\<exists>p. d = capture_packet data p \<and> 1 \<le> fst p \<and> fst p + snd p \<le> Suc (length (capture_msgs data)) \<and> snd p \<le> 65534"
      by blast
  qed
  with assms show ?thesis by (simp add: replay_inv_def)
qed

text \<open>The announcement of the end, which may be sent any number of times.\<close>

abbreviation capture_end :: "byte list \<Rightarrow> byte list" where
  "capture_end data \<equiv> header_bytes \<lparr>mh_session = SESSION, mh_seq_num = word_of_nat (Suc (length (capture_msgs data))),
     mh_msg_count = END_OF_SESSION\<rparr>"

lemma replay_parse_opts_file: "fst (replay_parse_opts os opt) \<Longrightarrow> ro_file (snd (replay_parse_opts os opt)) \<noteq> None"
proof (induction os arbitrary: opt)
  case (Cons x os)
  then show ?case by (cases x; cases "replay_parse_opt (fst x) (snd x) opt") (auto split: if_splits)
qed simp

lemma linger_loop_spec:
  assumes "rp_seq s = word_of_nat (Suc (length (capture_msgs data)))" "index_ok data (length (capture_msgs data)) (rp_index s)"
    "length data < 2 ^ 63" "session_packets data (length (capture_msgs data)) (rp_replies s)"
  shows "\<exists>m s'. linger_loop data linger_end next_eos its s = Inr s' \<and> rp_sent s' = rp_sent s @ replicate m (capture_end data)
    \<and> session_packets data (length (capture_msgs data)) (rp_replies s')"
  using assms(1,2,4)
proof (induction its arbitrary: s next_eos)
  case Nil
  then show ?case by (auto intro!: exI [of _ 0])
next
  case (Cons it its)
  obtain now now' reqs where it: "it = (now, now', reqs)" by (cases it)
  let ?N = "length (capture_msgs data)"
  show ?case
  proof (cases "now < linger_end")
    case False
    with Cons.prems it show ?thesis by (auto intro!: exI [of _ 0])
  next
    case True
    have b: "Suc ?N < 2 ^ 64" using capture_msgs_length [of data] assms(3) by simp
    obtain ds stats where sv: "serve_requests data (rp_index s) (rp_seq s) reqs (rp_stats s) = Inr (ds, stats)" "session_packets data ?N ds"
      using serve_requests_total [OF Cons.prems(2) order_refl b] Cons.prems(1) by metis
    define eos where "eos = (if now' \<ge> next_eos then [capture_end data] else [])"
    define nx where "nx = (if now' \<ge> next_eos then next_eos + 1000000000 else next_eos)"
    let ?s = "s\<lparr>rp_stats := stats, rp_sent := rp_sent s @ eos, rp_replies := rp_replies s @ ds\<rparr>"
    have "linger_loop data linger_end next_eos (it # its) s = linger_loop data linger_end nx its ?s"
      using True it sv(1) Cons.prems(1) by (simp add: send_datagram_eq eos_def nx_def)
    moreover obtain m s' where "linger_loop data linger_end nx its ?s = Inr s'"
        "rp_sent s' = rp_sent ?s @ replicate m (capture_end data)" "session_packets data ?N (rp_replies s')"
      using Cons.IH [of ?s nx] Cons.prems sv(2) by auto
    moreover have "eos = replicate (length eos) (capture_end data)" by (simp add: eos_def)
    ultimately show ?thesis
      by (intro exI [of _ "length eos + m"] exI [of _ s']) (simp add: replicate_add)
  qed
qed

lemma replay_run:
  assumes "length data < 2 ^ 63"
  shows "\<exists>s ps. replay_loop opt data reqs 0 replay_start = Some (Inr s) \<and> replay_inv opt data (length (capture_msgs data)) ps s"
  using replay_loop_inv [OF replay_inv_start assms] by blast

text \<open>A run of the program: it never faults, and what it sends is of the session.\<close>

lemma replay_main_session:
  assumes "\<And>f. length (MappedFile (rv_map env f)) < 2 ^ 63"
  shows "\<exists>code s. replay_main env os = Some (Inr (code, s)) \<and> (code = 0 \<longrightarrow> (\<exists>f. ro_file (snd (replay_parse_args os)) = Some f \<and>
    (\<forall>stream. publishes (MappedFile (rv_map env f)) stream \<longrightarrow>
      (\<forall>d \<in> set (rp_sent s @ rp_replies s). from_session SESSION stream d))))"
proof -
  obtain ok opt where opt: "replay_parse_args os = (ok, opt)" by (cases "replay_parse_args os")
  let ?data = "MappedFile (rv_map env (the (ro_file opt)))"
  obtain s ps where s: "replay_loop opt ?data (rv_requests env) 0 replay_start = Some (Inr s)"
    "replay_inv opt ?data (length (capture_msgs ?data)) ps s"
    using replay_run [OF assms] by blast
  let ?lend = "fst (rv_clock env) + unat (ro_linger_s opt) * 1000000000"
  obtain m s' where l: "linger_loop ?data ?lend (snd (rv_clock env)) (rv_linger env) s = Inr s'"
    "rp_sent s' = rp_sent s @ replicate m (capture_end ?data)" "session_packets ?data (length (capture_msgs ?data)) (rp_replies s')"
    using linger_loop_spec [OF _ _ assms, of s "the (ro_file opt)" ?lend "snd (rv_clock env)" "rv_linger env"] s(2)
    by (auto simp: replay_inv_def)
  have "\<forall>d \<in> set (rp_sent s' @ rp_replies s'). from_session SESSION stream d" if p: "publishes ?data stream" for stream
    using session_packets_session [OF replay_inv_session [OF s(2)] p assms] session_packets_session [OF l(3) p assms] l(2)
      from_session.finish by auto
  moreover have "ok \<Longrightarrow> ro_file opt \<noteq> None" using opt replay_parse_opts_file [of os Options] by (simp add: replay_parse_args_def)
  ultimately show ?thesis using opt s(1) l(1) by (cases "ro_file opt") (auto simp: replay_main_def Let_def split: option.splits)
qed

subsection \<open>Properties\<close>

text \<open>
  C28. The replay of any capture ends without a fault: it cuts the messages of the capture, the
  same that the length prefix framer finds in the file, into packets one after the other, each
  message in exactly one packet and in order, no packet above the size limit unless a single
  message is; it sends exactly the packets not dropped on purpose, and every reply to a
  request is a packet of the session.
\<close>

theorem replay_publishes:
  assumes "length data < 2 ^ 63" "parse_frames 65535 data = (msgs, t)"
  shows "\<exists>s ps. replay_loop opt data reqs 0 replay_start = Some (Inr s)
    \<and> covers 1 ps (Suc (length msgs)) \<and> (\<forall>p \<in> set ps. snd p \<le> 1 \<or> length (capture_packet data p) \<le> MAX_DATAGRAM)
    \<and> rp_sent s = map (capture_packet data) (undropped opt ps)
    \<and> rp_seq s = word_of_nat (Suc (length msgs)) \<and> st_messages (rp_stats s) = word_of_nat (length msgs)
    \<and> map (capture_stream data) [1..<Suc (length msgs)] = msgs
    \<and> (\<forall>d \<in> set (rp_replies s). from_session SESSION (capture_stream data) d)"
proof -
  have msgs: "capture_msgs data = msgs" using assms(2) by (simp add: capture_msgs_def)
  obtain s ps where s: "replay_loop opt data reqs 0 replay_start = Some (Inr s)" "replay_inv opt data (length msgs) ps s"
    using replay_run [OF assms(1), of opt reqs] msgs by auto
  moreover have "\<forall>d \<in> set (rp_replies s). from_session SESSION (capture_stream data) d"
    by (rule session_packets_session [OF _ _ assms(1)]) (use s(2) msgs in \<open>simp_all add: replay_inv_def publishes_def\<close>)
  moreover have "map (capture_stream data) [1..<Suc (length msgs)] = msgs" using capture_all [of data] msgs by (simp del: upt_Suc)
  ultimately show ?thesis unfolding replay_inv_def small_def by blast
qed

theorem replay_publishes_witness:
  "\<exists>s ps. replay_loop Options (concat (map msg_block [[1], [2, 3]])) (\<lambda>_. []) 0 replay_start = Some (Inr s)
    \<and> covers 1 ps 3 \<and> rp_sent s = map (capture_packet (concat (map msg_block [[1], [2, 3]]))) (undropped Options ps)"
proof -
  have "parse_frames 65535 (concat (map msg_block [[1], [2, 3]])) = ([[1], [2, 3]], Some [])"
    by (rule parse_frames_blocks) simp
  from replay_publishes [OF _ this, of Options "\<lambda>_. []"] show ?thesis by (auto simp: numeral_3_eq_3 simp del: upt_Suc)
qed

text \<open>
  C29. The retransmission server answers what it is asked: after the replay, a request for
  \<open>c\<close> messages from number \<open>k\<close> of the session on is answered by packets that carry exactly
  these messages, one after the other, up to the end of the session; whatever else arrives is
  ignored.
\<close>

theorem replay_serves:
  assumes "length data < 2 ^ 63" "replay_loop opt data reqs 0 replay_start = Some (Inr s)" "N = length (capture_msgs data)"
  shows "(1 \<le> unat k \<and> unat k \<le> N \<longrightarrow>
      (\<exists>ps stats'. serve_request data (rp_index s) (rp_seq s)
          (header_bytes \<lparr>mh_session = SESSION, mh_seq_num = k, mh_msg_count = c\<rparr>) stats = Inr (map (capture_packet data) ps, stats')
        \<and> covers (unat k) ps (unat k + min (unat c) (Suc N - unat k))))
    \<and> ((\<nexists>hdr rest. take 64 req = header_bytes hdr @ rest \<and> mh_session hdr = SESSION \<and> unat (mh_seq_num hdr) \<in> {1..N}) \<longrightarrow>
      serve_request data (rp_index s) (rp_seq s) req stats = Inr ([], stats))"
proof -
  obtain ps where "replay_inv opt data N ps s" using replay_run [OF assms(1), of opt reqs] assms(2,3) by auto
  then have s: "rp_seq s = word_of_nat (Suc N)" "index_ok data N (rp_index s)" by (simp_all add: replay_inv_def)
  have N: "N \<le> length (capture_msgs data)" "Suc N < 2 ^ 64" using capture_msgs_length [of data] assms(1,3) by auto
  let ?hdr = "\<lparr>mh_session = SESSION, mh_seq_num = k, mh_msg_count = c\<rparr>"
  have "accepted N (header_bytes ?hdr) ?hdr" if "1 \<le> unat k \<and> unat k \<le> N"
    using that length_header_bytes [of ?hdr] by (auto simp: accepted_def intro!: exI [of _ "[]"])
  then have "1 \<le> unat k \<and> unat k \<le> N \<longrightarrow> (\<exists>ps stats'. serve_request data (rp_index s) (rp_seq s) (header_bytes ?hdr) stats
      = Inr (map (capture_packet data) ps, stats') \<and> covers (unat k) ps (unat k + min (unat c) (Suc N - unat k)))"
    using serve_request_accepted [OF s(2) N _ refl, of "header_bytes ?hdr" ?hdr stats] s(1) by fastforce
  moreover have "(\<nexists>hdr rest. take 64 req = header_bytes hdr @ rest \<and> mh_session hdr = SESSION \<and> unat (mh_seq_num hdr) \<in> {1..N}) \<longrightarrow>
      serve_request data (rp_index s) (rp_seq s) req stats = Inr ([], stats)"
    using serve_request_ignored [OF _ N(2), of req data "rp_index s" stats] s(1) by (auto simp: accepted_def)
  ultimately show ?thesis by blast
qed

theorem replay_serves_witness:
  "\<exists>s ps stats'. replay_loop Options (concat (map msg_block [[1], [2, 3]])) (\<lambda>_. []) 0 replay_start = Some (Inr s)
    \<and> serve_request (concat (map msg_block [[1], [2, 3]])) (rp_index s) (rp_seq s)
        (header_bytes \<lparr>mh_session = SESSION, mh_seq_num = 2, mh_msg_count = 9\<rparr>) Replay_Stats
      = Inr (map (capture_packet (concat (map msg_block [[1], [2, 3]]))) ps, stats') \<and> covers 2 ps 3"
proof -
  let ?d = "concat (map msg_block [[1], [2, 3]])"
  have l: "length ?d < 2 ^ 63" by simp
  have "parse_frames 65535 ?d = ([[1], [2, 3]], Some [])" by (rule parse_frames_blocks) simp
  then have N: "2 = length (capture_msgs ?d)" unfolding capture_msgs_def by simp
  obtain s where s: "replay_loop Options ?d (\<lambda>_. []) 0 replay_start = Some (Inr s)" using replay_run [OF l] by blast
  from replay_serves [OF l s N, of 2 9 Replay_Stats "[]"] have
    "\<exists>ps stats'. serve_request ?d (rp_index s) (rp_seq s) (header_bytes \<lparr>mh_session = SESSION, mh_seq_num = 2, mh_msg_count = 9\<rparr>)
      Replay_Stats = Inr (map (capture_packet ?d) ps, stats') \<and> covers (unat (2 :: u64)) ps (unat (2 :: u64) + min (unat (9 :: u16)) (Suc 2 - unat (2 :: u64)))"
    by simp
  with s show ?thesis by (auto simp: numeral_3_eq_3)
qed

end
