(* ===== verification/Itch_Parser.thy ===== *)
theory Itch_Parser
  imports Framer
begin

section \<open>ITCH parser (src/feed/itch\_parser.hpp, src/feed/parser.hpp)\<close>

text \<open>
  The parser of NASDAQ ITCH messages: a message is read field by field from the bytes the framer
  delivered and turned into at most one event for the sink. The reader is threaded through the
  calls; a read past the end of the message is a fault (the assertion that guards it is not in
  a release build).
\<close>

subsection \<open>Reading in sequence\<close>

type_synonym 'a reader = "byte list \<Rightarrow> ('a \<times> byte list) res"

definition rd_bind :: "'a reader \<Rightarrow> ('a \<Rightarrow> 'b reader) \<Rightarrow> 'b reader" where
  "rd_bind m f = (\<lambda>reader. bind_res (m reader) (\<lambda>(a, reader). f a reader))"

definition rd_return :: "'a \<Rightarrow> 'a reader" where
  "rd_return a = (\<lambda>reader. Inr (a, reader))"

subsection \<open>Messages\<close>

record itch_add_order =
  ao_stock_locate :: u16
  ao_tracking_number :: u16
  ao_timestamp :: u64
  ao_order_ref_num :: u64
  ao_side :: byte
  ao_shares :: u32
  ao_stock :: "byte list"
  ao_price :: u32

record itch_add_order_mpid =
  am_stock_locate :: u16
  am_tracking_number :: u16
  am_timestamp :: u64
  am_order_ref_num :: u64
  am_side :: byte
  am_shares :: u32
  am_stock :: "byte list"
  am_price :: u32
  am_attribution :: "byte list"

record itch_order_executed =
  oe_stock_locate :: u16
  oe_tracking_number :: u16
  oe_timestamp :: u64
  oe_order_ref_num :: u64
  oe_executed_shares :: u32
  oe_match_number :: u64

record itch_order_executed_price =
  op_stock_locate :: u16
  op_tracking_number :: u16
  op_timestamp :: u64
  op_order_ref_num :: u64
  op_executed_shares :: u32
  op_match_number :: u64
  op_printable :: byte
  op_execution_price :: u32

record itch_order_cancel =
  oc_stock_locate :: u16
  oc_tracking_number :: u16
  oc_timestamp :: u64
  oc_order_ref_num :: u64
  oc_cancelled_shares :: u32

record itch_order_delete =
  od_stock_locate :: u16
  od_tracking_number :: u16
  od_timestamp :: u64
  od_order_ref_num :: u64

record itch_order_replace =
  or_stock_locate :: u16
  or_tracking_number :: u16
  or_timestamp :: u64
  or_orig_order_ref_num :: u64
  or_new_order_ref_num :: u64
  or_shares :: u32
  or_price :: u32

text \<open>The tagged union: the tag and the member that is set.\<close>

datatype itch_message =
    AddOrder itch_add_order
  | AddOrderMPID itch_add_order_mpid
  | OrderExecuted itch_order_executed
  | OrderExecutedPrice itch_order_executed_price
  | OrderCancel itch_order_cancel
  | OrderDelete itch_order_delete
  | OrderReplace itch_order_replace
  | Unknown

subsection \<open>Parsing\<close>

definition parse_add_order_msg :: "itch_message reader" where
  "parse_add_order_msg =
     rd_bind read_num (\<lambda>stock_locate.
     rd_bind read_num (\<lambda>tracking_number.
     rd_bind read_timestamp (\<lambda>timestamp.
     rd_bind read_num (\<lambda>order_ref_num.
     rd_bind read_num (\<lambda>side.
     rd_bind read_num (\<lambda>shares.
     rd_bind (read_chars 8) (\<lambda>stock.
     rd_bind read_num (\<lambda>price.
     rd_return (AddOrder \<lparr>ao_stock_locate = stock_locate, ao_tracking_number = tracking_number,
       ao_timestamp = timestamp, ao_order_ref_num = order_ref_num, ao_side = side, ao_shares = shares,
       ao_stock = stock, ao_price = price\<rparr>)))))))))"

definition parse_add_order_mpid_msg :: "itch_message reader" where
  "parse_add_order_mpid_msg =
     rd_bind read_num (\<lambda>stock_locate.
     rd_bind read_num (\<lambda>tracking_number.
     rd_bind read_timestamp (\<lambda>timestamp.
     rd_bind read_num (\<lambda>order_ref_num.
     rd_bind read_num (\<lambda>side.
     rd_bind read_num (\<lambda>shares.
     rd_bind (read_chars 8) (\<lambda>stock.
     rd_bind read_num (\<lambda>price.
     rd_bind (read_chars 4) (\<lambda>attribution.
     rd_return (AddOrderMPID \<lparr>am_stock_locate = stock_locate, am_tracking_number = tracking_number,
       am_timestamp = timestamp, am_order_ref_num = order_ref_num, am_side = side, am_shares = shares,
       am_stock = stock, am_price = price, am_attribution = attribution\<rparr>))))))))))"

definition parse_order_executed_msg :: "itch_message reader" where
  "parse_order_executed_msg =
     rd_bind read_num (\<lambda>stock_locate.
     rd_bind read_num (\<lambda>tracking_number.
     rd_bind read_timestamp (\<lambda>timestamp.
     rd_bind read_num (\<lambda>order_ref_num.
     rd_bind read_num (\<lambda>executed_shares.
     rd_bind read_num (\<lambda>match_number.
     rd_return (OrderExecuted \<lparr>oe_stock_locate = stock_locate, oe_tracking_number = tracking_number,
       oe_timestamp = timestamp, oe_order_ref_num = order_ref_num, oe_executed_shares = executed_shares,
       oe_match_number = match_number\<rparr>)))))))"

definition parse_order_executed_price_msg :: "itch_message reader" where
  "parse_order_executed_price_msg =
     rd_bind read_num (\<lambda>stock_locate.
     rd_bind read_num (\<lambda>tracking_number.
     rd_bind read_timestamp (\<lambda>timestamp.
     rd_bind read_num (\<lambda>order_ref_num.
     rd_bind read_num (\<lambda>executed_shares.
     rd_bind read_num (\<lambda>match_number.
     rd_bind read_num (\<lambda>printable.
     rd_bind read_num (\<lambda>execution_price.
     rd_return (OrderExecutedPrice \<lparr>op_stock_locate = stock_locate, op_tracking_number = tracking_number,
       op_timestamp = timestamp, op_order_ref_num = order_ref_num, op_executed_shares = executed_shares,
       op_match_number = match_number, op_printable = printable, op_execution_price = execution_price\<rparr>)))))))))"

definition parse_order_cancel_msg :: "itch_message reader" where
  "parse_order_cancel_msg =
     rd_bind read_num (\<lambda>stock_locate.
     rd_bind read_num (\<lambda>tracking_number.
     rd_bind read_timestamp (\<lambda>timestamp.
     rd_bind read_num (\<lambda>order_ref_num.
     rd_bind read_num (\<lambda>cancelled_shares.
     rd_return (OrderCancel \<lparr>oc_stock_locate = stock_locate, oc_tracking_number = tracking_number,
       oc_timestamp = timestamp, oc_order_ref_num = order_ref_num, oc_cancelled_shares = cancelled_shares\<rparr>))))))"

definition parse_order_delete_msg :: "itch_message reader" where
  "parse_order_delete_msg =
     rd_bind read_num (\<lambda>stock_locate.
     rd_bind read_num (\<lambda>tracking_number.
     rd_bind read_timestamp (\<lambda>timestamp.
     rd_bind read_num (\<lambda>order_ref_num.
     rd_return (OrderDelete \<lparr>od_stock_locate = stock_locate, od_tracking_number = tracking_number,
       od_timestamp = timestamp, od_order_ref_num = order_ref_num\<rparr>)))))"

definition parse_order_replace_msg :: "itch_message reader" where
  "parse_order_replace_msg =
     rd_bind read_num (\<lambda>stock_locate.
     rd_bind read_num (\<lambda>tracking_number.
     rd_bind read_timestamp (\<lambda>timestamp.
     rd_bind read_num (\<lambda>orig_order_ref_num.
     rd_bind read_num (\<lambda>new_order_ref_num.
     rd_bind read_num (\<lambda>shares.
     rd_bind read_num (\<lambda>price.
     rd_return (OrderReplace \<lparr>or_stock_locate = stock_locate, or_tracking_number = tracking_number,
       or_timestamp = timestamp, or_orig_order_ref_num = orig_order_ref_num,
       or_new_order_ref_num = new_order_ref_num, or_shares = shares, or_price = price\<rparr>))))))))"

text \<open>The first byte selects the type.\<close>

definition parse_msg_of :: "byte \<Rightarrow> itch_message reader" where
  "parse_msg_of msg_type =
     (if msg_type = of_char CHR ''A'' then parse_add_order_msg
      else if msg_type = of_char CHR ''F'' then parse_add_order_mpid_msg
      else if msg_type = of_char CHR ''E'' then parse_order_executed_msg
      else if msg_type = of_char CHR ''C'' then parse_order_executed_price_msg
      else if msg_type = of_char CHR ''X'' then parse_order_cancel_msg
      else if msg_type = of_char CHR ''D'' then parse_order_delete_msg
      else if msg_type = of_char CHR ''U'' then parse_order_replace_msg
      else rd_return Unknown)"

definition parse_msg :: "itch_message reader" where
  "parse_msg = rd_bind read_num parse_msg_of"

subsection \<open>Events\<close>

definition create_mbo_from_add_order :: "itch_add_order \<Rightarrow> mbo_event" where
  "create_mbo_from_add_order msg = MboEvent_init\<lparr>ev_etype := ADDED,
     ev_side := if ao_side msg = of_char CHR ''B'' then BID else ASK, ev_printable := True,
     ev_instrument := ucast (ao_stock_locate msg), ev_timestamp := ao_timestamp msg,
     ev_oid := ao_order_ref_num msg, ev_price := ao_price msg, ev_qty := ao_shares msg\<rparr>"

definition create_mbo_from_add_order_mpid :: "itch_add_order_mpid \<Rightarrow> mbo_event" where
  "create_mbo_from_add_order_mpid msg = MboEvent_init\<lparr>ev_etype := ADDED,
     ev_side := if am_side msg = of_char CHR ''B'' then BID else ASK, ev_printable := True,
     ev_instrument := ucast (am_stock_locate msg), ev_timestamp := am_timestamp msg,
     ev_oid := am_order_ref_num msg, ev_price := am_price msg, ev_qty := am_shares msg\<rparr>"

definition create_mbo_from_order_exec :: "itch_order_executed \<Rightarrow> mbo_event" where
  "create_mbo_from_order_exec msg = MboEvent_init\<lparr>ev_etype := EXECUTED, ev_printable := True,
     ev_instrument := ucast (oe_stock_locate msg), ev_timestamp := oe_timestamp msg,
     ev_oid := oe_order_ref_num msg, ev_qty := oe_executed_shares msg\<rparr>"

definition create_mbo_from_order_exec_price :: "itch_order_executed_price \<Rightarrow> mbo_event" where
  "create_mbo_from_order_exec_price msg = MboEvent_init\<lparr>ev_etype := EXECUTED,
     ev_printable := (op_printable msg = of_char CHR ''Y''),
     ev_instrument := ucast (op_stock_locate msg), ev_timestamp := op_timestamp msg,
     ev_oid := op_order_ref_num msg, ev_price := op_execution_price msg, ev_qty := op_executed_shares msg\<rparr>"

definition create_mbo_from_order_cancel :: "itch_order_cancel \<Rightarrow> mbo_event" where
  "create_mbo_from_order_cancel msg = MboEvent_init\<lparr>ev_etype := CANCELLED, ev_printable := True,
     ev_instrument := ucast (oc_stock_locate msg), ev_timestamp := oc_timestamp msg,
     ev_oid := oc_order_ref_num msg, ev_qty := oc_cancelled_shares msg\<rparr>"

definition create_mbo_from_order_delete :: "itch_order_delete \<Rightarrow> mbo_event" where
  "create_mbo_from_order_delete msg = MboEvent_init\<lparr>ev_etype := DELETED, ev_printable := True,
     ev_instrument := ucast (od_stock_locate msg), ev_timestamp := od_timestamp msg,
     ev_oid := od_order_ref_num msg\<rparr>"

definition create_mbo_from_order_replace :: "itch_order_replace \<Rightarrow> mbo_event" where
  "create_mbo_from_order_replace msg = MboEvent_init\<lparr>ev_etype := REPLACED, ev_printable := True,
     ev_instrument := ucast (or_stock_locate msg), ev_timestamp := or_timestamp msg,
     ev_oid := or_new_order_ref_num msg, ev_orig_oid := or_orig_order_ref_num msg,
     ev_price := or_price msg, ev_qty := or_shares msg\<rparr>"

text \<open>The events \<open>parse\<close> hands to the sink for a message, in order.\<close>

definition message_events :: "itch_message \<Rightarrow> mbo_event list" where
  "message_events msg = (case msg of
       AddOrder m \<Rightarrow> [create_mbo_from_add_order m]
     | AddOrderMPID m \<Rightarrow> [create_mbo_from_add_order_mpid m]
     | OrderExecuted m \<Rightarrow> [create_mbo_from_order_exec m]
     | OrderExecutedPrice m \<Rightarrow> [create_mbo_from_order_exec_price m]
     | OrderCancel m \<Rightarrow> [create_mbo_from_order_cancel m]
     | OrderDelete m \<Rightarrow> [create_mbo_from_order_delete m]
     | OrderReplace m \<Rightarrow> [create_mbo_from_order_replace m]
     | Unknown \<Rightarrow> [])"

definition itch_parse :: "byte list \<Rightarrow> mbo_event list res" where
  "itch_parse data = bind_res (parse_msg data) (\<lambda>(msg, _). Inr (message_events msg))"

subsection \<open>How far a reader reads\<close>

text \<open>A reader that takes exactly \<open>n\<close> bytes, and faults when there are fewer.\<close>

definition reads :: "nat \<Rightarrow> 'a reader \<Rightarrow> bool" where
  "reads n m \<longleftrightarrow> (\<forall>bs. if length bs < n then m bs = Inl Bad_Access else \<exists>a. m bs = Inr (a, drop n bs))"

lemma reads_return [intro]: "reads 0 (rd_return a)"
  by (simp add: reads_def rd_return_def)

lemma reads_bind [intro]:
  assumes "reads n m" "\<And>a. reads k (f a)"
  shows "reads (n + k) (rd_bind m f)"
  unfolding reads_def
proof (intro allI)
  fix bs
  show "if length bs < n + k then rd_bind m f bs = Inl Bad_Access else \<exists>a. rd_bind m f bs = Inr (a, drop (n + k) bs)"
  proof (cases "length bs < n")
    case True
    then show ?thesis using assms(1) by (simp add: reads_def rd_bind_def)
  next
    case False
    then obtain a where a: "m bs = Inr (a, drop n bs)" using assms(1) unfolding reads_def by meson
    have "if length (drop n bs) < k then f a (drop n bs) = Inl Bad_Access
        else \<exists>b. f a (drop n bs) = Inr (b, drop k (drop n bs))"
      using assms(2) [of a] unfolding reads_def by blast
    with False a show ?thesis by (auto simp: rd_bind_def add.commute split: if_splits)
  qed
qed

lemma reads_num [intro]: "byte_sized TYPE('a :: len) \<Longrightarrow> reads (num_bytes TYPE('a)) (read_num :: 'a word reader)"
  by (auto simp: reads_def read_num_def Let_def)

lemma reads_timestamp [intro]: "reads 6 read_timestamp"
  by (auto simp: reads_def read_timestamp_def)

lemma reads_chars [intro]: "reads n (read_chars n)"
  by (auto simp: reads_def read_chars_def)

lemma reads_u8: "reads 1 (read_num :: u8 reader)" and reads_u16: "reads 2 (read_num :: u16 reader)"
  and reads_u32: "reads 4 (read_num :: u32 reader)" and reads_u64: "reads 8 (read_num :: u64 reader)"
  using reads_num [where 'a = 8] reads_num [where 'a = 16] reads_num [where 'a = 32] reads_num [where 'a = 64] by simp_all

lemmas reads_fields = reads_bind reads_u8 reads_u16 reads_u32 reads_u64 reads_timestamp reads_chars reads_return

text \<open>The number of bytes behind the type byte.\<close>

definition body_size :: "byte \<Rightarrow> nat" where
  "body_size msg_type =
     (if msg_type = of_char CHR ''A'' then 35 else if msg_type = of_char CHR ''F'' then 39
      else if msg_type = of_char CHR ''E'' then 30 else if msg_type = of_char CHR ''C'' then 35
      else if msg_type = of_char CHR ''X'' then 22 else if msg_type = of_char CHR ''D'' then 18
      else if msg_type = of_char CHR ''U'' then 34 else 0)"

lemma reads_sum: "reads n m \<Longrightarrow> n = k \<Longrightarrow> reads k m"
  by simp

lemma reads_bodies:
  "reads 35 parse_add_order_msg" "reads 39 parse_add_order_mpid_msg" "reads 30 parse_order_executed_msg"
  "reads 35 parse_order_executed_price_msg" "reads 22 parse_order_cancel_msg" "reads 18 parse_order_delete_msg"
  "reads 34 parse_order_replace_msg"
  unfolding parse_add_order_msg_def parse_add_order_mpid_msg_def parse_order_executed_msg_def
    parse_order_executed_price_msg_def parse_order_cancel_msg_def parse_order_delete_msg_def parse_order_replace_msg_def
  by (rule reads_sum, (rule reads_fields)+, simp)+

lemma reads_parse_msg_of: "reads (body_size t) (parse_msg_of t)"
  unfolding parse_msg_of_def body_size_def using reads_bodies by (simp add: reads_return split del: if_split cong: if_cong) auto

subsection \<open>The wire format\<close>

definition ts_bytes :: "u64 \<Rightarrow> byte list" where
  "ts_bytes t = drop 2 (be_bytes t)"

fun itch_encode :: "itch_message \<Rightarrow> byte list" where
  "itch_encode (AddOrder m) = of_char CHR ''A'' # be_bytes (ao_stock_locate m) @ be_bytes (ao_tracking_number m)
     @ ts_bytes (ao_timestamp m) @ be_bytes (ao_order_ref_num m) @ be_bytes (ao_side m) @ be_bytes (ao_shares m)
     @ ao_stock m @ be_bytes (ao_price m)"
| "itch_encode (AddOrderMPID m) = of_char CHR ''F'' # be_bytes (am_stock_locate m) @ be_bytes (am_tracking_number m)
     @ ts_bytes (am_timestamp m) @ be_bytes (am_order_ref_num m) @ be_bytes (am_side m) @ be_bytes (am_shares m)
     @ am_stock m @ be_bytes (am_price m) @ am_attribution m"
| "itch_encode (OrderExecuted m) = of_char CHR ''E'' # be_bytes (oe_stock_locate m) @ be_bytes (oe_tracking_number m)
     @ ts_bytes (oe_timestamp m) @ be_bytes (oe_order_ref_num m) @ be_bytes (oe_executed_shares m)
     @ be_bytes (oe_match_number m)"
| "itch_encode (OrderExecutedPrice m) = of_char CHR ''C'' # be_bytes (op_stock_locate m) @ be_bytes (op_tracking_number m)
     @ ts_bytes (op_timestamp m) @ be_bytes (op_order_ref_num m) @ be_bytes (op_executed_shares m)
     @ be_bytes (op_match_number m) @ be_bytes (op_printable m) @ be_bytes (op_execution_price m)"
| "itch_encode (OrderCancel m) = of_char CHR ''X'' # be_bytes (oc_stock_locate m) @ be_bytes (oc_tracking_number m)
     @ ts_bytes (oc_timestamp m) @ be_bytes (oc_order_ref_num m) @ be_bytes (oc_cancelled_shares m)"
| "itch_encode (OrderDelete m) = of_char CHR ''D'' # be_bytes (od_stock_locate m) @ be_bytes (od_tracking_number m)
     @ ts_bytes (od_timestamp m) @ be_bytes (od_order_ref_num m)"
| "itch_encode (OrderReplace m) = of_char CHR ''U'' # be_bytes (or_stock_locate m) @ be_bytes (or_tracking_number m)
     @ ts_bytes (or_timestamp m) @ be_bytes (or_orig_order_ref_num m) @ be_bytes (or_new_order_ref_num m)
     @ be_bytes (or_shares m) @ be_bytes (or_price m)"
| "itch_encode Unknown = [0]"

text \<open>What the format can carry: 48-bit timestamps and character fields of fixed width.\<close>

fun itch_wf :: "itch_message \<Rightarrow> bool" where
  "itch_wf (AddOrder m) \<longleftrightarrow> unat (ao_timestamp m) < 2 ^ 48 \<and> length (ao_stock m) = 8"
| "itch_wf (AddOrderMPID m) \<longleftrightarrow> unat (am_timestamp m) < 2 ^ 48 \<and> length (am_stock m) = 8 \<and> length (am_attribution m) = 4"
| "itch_wf (OrderExecuted m) \<longleftrightarrow> unat (oe_timestamp m) < 2 ^ 48"
| "itch_wf (OrderExecutedPrice m) \<longleftrightarrow> unat (op_timestamp m) < 2 ^ 48"
| "itch_wf (OrderCancel m) \<longleftrightarrow> unat (oc_timestamp m) < 2 ^ 48"
| "itch_wf (OrderDelete m) \<longleftrightarrow> unat (od_timestamp m) < 2 ^ 48"
| "itch_wf (OrderReplace m) \<longleftrightarrow> unat (or_timestamp m) < 2 ^ 48"
| "itch_wf Unknown \<longleftrightarrow> True"

lemma le_bytes_append: "le_bytes (m + n) v = le_bytes m v @ le_bytes n (v div 256 ^ m)"
  by (induction m arbitrary: v) (simp_all add: div_mult2_eq)

lemma be_bytes_ts:
  assumes "unat t < 2 ^ 48"
  shows "be_bytes t = [0, 0] @ ts_bytes t"
proof -
  have "unat t div 256 ^ 6 = 0" using assms by simp
  then have "store_native t = le_bytes 6 (unat t) @ le_bytes 2 0"
    using le_bytes_append [of 6 2 "unat t"] by (simp add: store_native_def)
  then have "be_bytes t = [0, 0] @ rev (le_bytes 6 (unat t))" by (simp add: be_bytes_def numeral_2_eq_2)
  then show ?thesis by (simp add: ts_bytes_def)
qed

lemma length_ts_bytes [simp]: "length (ts_bytes t) = 6"
  by (simp add: ts_bytes_def)

lemma read_timestamp_ts:
  assumes "unat t < 2 ^ 48"
  shows "read_timestamp (ts_bytes t @ rest) = Inr (t, rest)"
proof -
  have "read_num (be_bytes t @ rest) = Inr (t, rest)" by (rule read_num_be_bytes) simp
  then have "from_big_endian (load_native ([0, 0] @ ts_bytes t)) = t"
    by (simp add: read_num_def be_bytes_ts [OF assms])
  then show ?thesis by (simp add: read_timestamp_def)
qed

lemma rd_bind_step: "m bs = Inr (a, bs') \<Longrightarrow> rd_bind m f bs = f a bs'"
  by (simp add: rd_bind_def)

lemma read_chars_append: "length cs = n \<Longrightarrow> read_chars n (cs @ rest) = Inr (cs, rest)"
  by (simp add: read_chars_def)

lemma rd_chars: "length cs = n \<Longrightarrow> rd_bind (read_chars n) f (cs @ rest) = f cs rest"
  by (rule rd_bind_step) (rule read_chars_append)

lemma rd_num: "byte_sized TYPE('a :: len) \<Longrightarrow> rd_bind read_num f (be_bytes (w :: 'a word) @ rest) = f w rest"
  by (rule rd_bind_step) (rule read_num_be_bytes)

lemma rd_nums: "rd_bind read_num f (be_bytes w8 @ rest) = f (w8 :: u8) rest"
  "rd_bind read_num g (be_bytes w16 @ rest) = g (w16 :: u16) rest"
  "rd_bind read_num h (be_bytes w32 @ rest) = h (w32 :: u32) rest"
  "rd_bind read_num k (be_bytes w64 @ rest) = k (w64 :: u64) rest"
  by (simp_all add: rd_num)

lemma rd_ts: "unat t < 2 ^ 48 \<Longrightarrow> rd_bind read_timestamp f (ts_bytes t @ rest) = f t rest"
  by (rule rd_bind_step) (rule read_timestamp_ts)

lemmas rd_fields = rd_chars rd_nums rd_ts

lemma parse_msg_Cons: "parse_msg (b # rest) = parse_msg_of b rest"
proof -
  have "be_bytes b = [b]" by (simp add: be_bytes_def store_native_def)
  with rd_nums(1) [of parse_msg_of b rest] show ?thesis by (simp add: parse_msg_def)
qed

lemma parse_msg_of_type:
  "parse_msg_of 65 = parse_add_order_msg" "parse_msg_of 70 = parse_add_order_mpid_msg"
  "parse_msg_of 69 = parse_order_executed_msg" "parse_msg_of 67 = parse_order_executed_price_msg"
  "parse_msg_of 88 = parse_order_cancel_msg" "parse_msg_of 68 = parse_order_delete_msg"
  "parse_msg_of 85 = parse_order_replace_msg" "parse_msg_of 0 = rd_return Unknown"
  by (simp_all add: parse_msg_of_def)

lemma parse_msg_encode:
  assumes "itch_wf m"
  shows "parse_msg (itch_encode m @ rest) = Inr (m, rest)"
proof (cases m)
  case (AddOrder x)
  with assms show ?thesis
    by (simp add: parse_msg_Cons parse_msg_of_type parse_add_order_msg_def rd_fields rd_return_def)
next
  case (AddOrderMPID x)
  with assms show ?thesis
    by (simp add: parse_msg_Cons parse_msg_of_type parse_add_order_mpid_msg_def rd_fields rd_return_def)
next
  case (OrderExecuted x)
  with assms show ?thesis
    by (simp add: parse_msg_Cons parse_msg_of_type parse_order_executed_msg_def rd_fields rd_return_def)
next
  case (OrderExecutedPrice x)
  with assms show ?thesis
    by (simp add: parse_msg_Cons parse_msg_of_type parse_order_executed_price_msg_def rd_fields rd_return_def)
next
  case (OrderCancel x)
  with assms show ?thesis
    by (simp add: parse_msg_Cons parse_msg_of_type parse_order_cancel_msg_def rd_fields rd_return_def)
next
  case (OrderDelete x)
  with assms show ?thesis
    by (simp add: parse_msg_Cons parse_msg_of_type parse_order_delete_msg_def rd_fields rd_return_def)
next
  case (OrderReplace x)
  with assms show ?thesis
    by (simp add: parse_msg_Cons parse_msg_of_type parse_order_replace_msg_def rd_fields rd_return_def)
next
  case Unknown
  then show ?thesis by (simp add: parse_msg_Cons parse_msg_of_type rd_return_def)
qed

subsection \<open>Properties\<close>

text \<open>
  C12. Round trip of the wire format: every message of the format, followed by any bytes, is
  parsed back field by field, leaving the bytes behind it; the sink gets exactly the events of
  the message.
\<close>

theorem itch_roundtrip:
  assumes "itch_wf m"
  shows "parse_msg (itch_encode m @ rest) = Inr (m, rest) \<and> itch_parse (itch_encode m @ rest) = Inr (message_events m)"
  using parse_msg_encode [OF assms] by (simp add: itch_parse_def)

theorem itch_roundtrip_witness:
  "itch_parse (itch_encode (OrderDelete \<lparr>od_stock_locate = 7, od_tracking_number = 0, od_timestamp = 9, od_order_ref_num = 11\<rparr>))
     = Inr [MboEvent_init\<lparr>ev_etype := DELETED, ev_printable := True, ev_instrument := 7, ev_timestamp := 9, ev_oid := 11\<rparr>]"
  using itch_roundtrip [of "OrderDelete \<lparr>od_stock_locate = 7, od_tracking_number = 0, od_timestamp = 9, od_order_ref_num = 11\<rparr>" "[]"]
  by (simp add: message_events_def create_mbo_from_order_delete_def)

text \<open>The kind of the events a type of message gives.\<close>

definition type_events :: "byte \<Rightarrow> event_type list" where
  "type_events t =
     (if t = of_char CHR ''A'' \<or> t = of_char CHR ''F'' then [ADDED]
      else if t = of_char CHR ''E'' \<or> t = of_char CHR ''C'' then [EXECUTED]
      else if t = of_char CHR ''X'' then [CANCELLED]
      else if t = of_char CHR ''D'' then [DELETED]
      else if t = of_char CHR ''U'' then [REPLACED] else [])"

lemma rd_bind_Inr: "rd_bind m f bs = Inr y \<longleftrightarrow> (\<exists>a bs'. m bs = Inr (a, bs') \<and> f a bs' = Inr y)"
  by (auto simp: rd_bind_def bind_res_Inr_iff)

lemmas create_mbo_defs = create_mbo_from_add_order_def create_mbo_from_add_order_mpid_def create_mbo_from_order_exec_def
  create_mbo_from_order_exec_price_def create_mbo_from_order_cancel_def create_mbo_from_order_delete_def
  create_mbo_from_order_replace_def

lemmas parse_body_defs = parse_add_order_msg_def parse_add_order_mpid_msg_def parse_order_executed_msg_def
  parse_order_executed_price_msg_def parse_order_cancel_msg_def parse_order_delete_msg_def parse_order_replace_msg_def

lemma parse_body_events:
  "parse_add_order_msg bs = Inr (m, r) \<Longrightarrow> map ev_etype (message_events m) = [ADDED]"
  "parse_add_order_mpid_msg bs = Inr (m, r) \<Longrightarrow> map ev_etype (message_events m) = [ADDED]"
  "parse_order_executed_msg bs = Inr (m, r) \<Longrightarrow> map ev_etype (message_events m) = [EXECUTED]"
  "parse_order_executed_price_msg bs = Inr (m, r) \<Longrightarrow> map ev_etype (message_events m) = [EXECUTED]"
  "parse_order_cancel_msg bs = Inr (m, r) \<Longrightarrow> map ev_etype (message_events m) = [CANCELLED]"
  "parse_order_delete_msg bs = Inr (m, r) \<Longrightarrow> map ev_etype (message_events m) = [DELETED]"
  "parse_order_replace_msg bs = Inr (m, r) \<Longrightarrow> map ev_etype (message_events m) = [REPLACED]"
  unfolding parse_body_defs
  by (auto simp: rd_bind_Inr rd_return_def message_events_def create_mbo_defs)

lemma parse_msg_of_events:
  assumes "parse_msg_of t bs = Inr (m, r)"
  shows "map ev_etype (message_events m) = type_events t"
  using assms parse_body_events unfolding parse_msg_of_def type_events_def
  by (auto simp: rd_return_def message_events_def split: if_splits)

text \<open>
  C36. The parser takes the type byte and the fixed number of bytes of that type: it reads
  outside the message exactly when the message is empty or shorter than its type requires;
  otherwise it hands over one event of the matching kind for the seven order messages and
  none for other types.
\<close>

theorem itch_parse_bounds:
  "if data = [] \<or> length data < 1 + body_size (hd data) then itch_parse data = Inl Bad_Access
   else \<exists>evs. itch_parse data = Inr evs \<and> map ev_etype evs = type_events (hd data)"
proof (cases data)
  case Nil
  then show ?thesis by (simp add: itch_parse_def parse_msg_def rd_bind_def read_num_def)
next
  case (Cons t body)
  have p: "itch_parse data = bind_res (parse_msg_of t body) (\<lambda>(msg, _). Inr (message_events msg))"
    using Cons by (simp add: itch_parse_def parse_msg_Cons)
  show ?thesis
  proof (cases "length body < body_size t")
    case True
    then have "parse_msg_of t body = Inl Bad_Access" using reads_parse_msg_of [of t] by (simp add: reads_def)
    with True p Cons show ?thesis by simp
  next
    case False
    then obtain m where "parse_msg_of t body = Inr (m, drop (body_size t) body)"
      using reads_parse_msg_of [of t] unfolding reads_def by meson
    with False p Cons parse_msg_of_events [OF this] show ?thesis by simp
  qed
qed

end
