(* ===== verification/File_Source.thy ===== *)
theory File_Source
  imports Length_Prefix_Framer
begin

section \<open>File source (src/transport/transport.hpp, src/transport/file\_source.hpp)\<close>

text \<open>
  The transport over a memory-mapped file: \<open>next\<close> hands out the file in slices of at most one
  mebibyte. The mapping is the contents of the file; \<open>open\<close>, \<open>fstat\<close> and \<open>mmap\<close> may fail in
  the constructor, which then throws.
\<close>

datatype transport_status = WouldBlock | Eof | TransportStatus_Error

record file_source =
  fs_start :: bool
  fs_remaining :: "byte list"
  fs_length :: nat

text \<open>The answers of the system to the constructor: each call may fail; the file has its bytes.\<close>

datatype file_env = Open_Fails | Fstat_Fails | Mmap_Fails "byte list" | File "byte list"

datatype file_exception = Open_Error | Fstat_Error | Mmap_Error

definition SLICE_SIZE :: nat where
  "SLICE_SIZE = 2 ^ 20"

lemma SLICE_SIZE_pos: "0 < SLICE_SIZE"
  by (simp add: SLICE_SIZE_def)

definition FileSource_init :: file_source where
  "FileSource_init = \<lparr>fs_start = False, fs_remaining = [], fs_length = 0\<rparr>"

definition FileSource :: "file_env \<Rightarrow> file_exception + file_source" where
  "FileSource env =
     (case env of
       Open_Fails \<Rightarrow> Inl Open_Error
     | Fstat_Fails \<Rightarrow> Inl Fstat_Error
     | Mmap_Fails bs \<Rightarrow> if bs = [] then Inr FileSource_init else Inl Mmap_Error
     | File bs \<Rightarrow> if bs = [] then Inr FileSource_init
         else Inr \<lparr>fs_start = True, fs_remaining = bs, fs_length = length bs\<rparr>)"

definition FileSource_move :: "file_source \<Rightarrow> file_source \<times> file_source" where
  "FileSource_move other = (other, FileSource_init)"

definition FileSource_assign :: "file_source \<Rightarrow> file_source \<Rightarrow> file_source \<times> file_source" where
  "FileSource_assign this rhs = (rhs, this)"

text \<open>The destructor unmaps the mapping, if there is one: the number of bytes given back.\<close>

definition FileSource_destroy :: "file_source \<Rightarrow> nat option" where
  "FileSource_destroy s = (if fs_start s then Some (fs_length s) else None)"

definition file_next :: "file_source \<Rightarrow> (transport_status + byte list) \<times> file_source" where
  "file_next s =
     (if fs_remaining s = [] then (Inl Eof, s)
      else let n = min (length (fs_remaining s)) SLICE_SIZE in
        (Inr (take n (fs_remaining s)), s\<lparr>fs_remaining := drop n (fs_remaining s)\<rparr>))"

text \<open>What the feed loop sees: the slices up to the end of the file.\<close>

function file_slices :: "file_source \<Rightarrow> byte list list" where
  "file_slices s = (case file_next s of (Inl _, _) \<Rightarrow> [] | (Inr b, s') \<Rightarrow> b # file_slices s')"
  by pat_completeness auto
termination
  by (relation "measure (\<lambda>s. length (fs_remaining s))")
    (auto simp: file_next_def SLICE_SIZE_pos Let_def split: if_splits)

declare file_slices.simps [simp del]

lemma file_slices_concat: "concat (file_slices s) = fs_remaining s \<and> (\<forall>b \<in> set (file_slices s). b \<noteq> [] \<and> length b \<le> SLICE_SIZE)"
proof (induction s rule: file_slices.induct)
  case (1 s)
  show ?case
  proof (cases "fs_remaining s = []")
    case True
    then show ?thesis by (simp add: file_slices.simps file_next_def)
  next
    case False
    define n where "n = min (length (fs_remaining s)) SLICE_SIZE"
    define s' where "s' = s\<lparr>fs_remaining := drop n (fs_remaining s)\<rparr>"
    have nx: "file_next s = (Inr (take n (fs_remaining s)), s')"
      using False by (simp add: file_next_def Let_def n_def s'_def)
    have IH: "concat (file_slices s') = fs_remaining s' \<and> (\<forall>b \<in> set (file_slices s'). b \<noteq> [] \<and> length b \<le> SLICE_SIZE)"
      by (rule 1 [OF nx [symmetric] refl])
    have eq: "file_slices s = take n (fs_remaining s) # file_slices s'"
      by (subst file_slices.simps) (simp add: nx)
    have "n \<noteq> 0" "n \<le> SLICE_SIZE" using False SLICE_SIZE_pos by (auto simp: n_def)
    then have "take n (fs_remaining s) \<noteq> []" "length (take n (fs_remaining s)) \<le> SLICE_SIZE" using False by auto
    moreover have "take n (fs_remaining s) @ fs_remaining s' = fs_remaining s" by (simp add: s'_def)
    ultimately show ?thesis unfolding eq using IH by simp
  qed
qed

text \<open>A file of messages, read slice by slice.\<close>

lemma file_feed_messages:
  assumes "length junk = MaxPayload + 2" "\<forall>m \<in> set msgs. length m \<le> MaxPayload \<and> length m < 2 ^ 16"
    "FileSource (File (concat (map msg_block msgs))) = Inr s"
  shows "\<exists>f'. feed_until (lpf_feed True MaxPayload) (file_slices s) (LengthPrefixFramer junk) = Inr (Inr (), msgs, f')
    \<and> lf_leftover f' = 0"
proof (rule lpf_roundtrip [OF assms(1) _ assms(2)])
  have "fs_remaining s = concat (map msg_block msgs)"
    using assms(3) by (auto simp: FileSource_def FileSource_init_def split: if_splits)
  then show "concat (file_slices s) = concat (map msg_block msgs)" using file_slices_concat by simp
  show "\<forall>d \<in> set (file_slices s). length d < 2 ^ 32" using file_slices_concat [of s] by (auto simp: SLICE_SIZE_def)
qed

text \<open>
  A file of messages, each written behind its length and none longer than \<open>MaxPayload\<close>, read
  through \<open>FileSource\<close> slice by slice into a new framer, gives exactly these messages in
  order, whatever its size, with nothing left over; the slices end with \<open>Eof\<close>.
\<close>

lemma file_feed_roundtrip:
  assumes "length junk = MaxPayload + 2" "\<forall>m \<in> set msgs. length m \<le> MaxPayload \<and> length m < 2 ^ 16"
    "FileSource (File (concat (map msg_block msgs))) = Inr s"
  shows "\<exists>f'. feed_until (lpf_feed True MaxPayload) (file_slices s) (LengthPrefixFramer junk) = Inr (Inr (), msgs, f')
    \<and> lf_leftover f' = 0"
  by (rule file_feed_messages [OF assms])

lemma file_feed_roundtrip_witness:
  "\<exists>s f'. FileSource (File (concat (map msg_block [[1, 2], [3]]))) = Inr s
    \<and> feed_until (lpf_feed True 50) (file_slices s) (LengthPrefixFramer (replicate 52 0)) = Inr (Inr (), [[1, 2], [3]], f')"
proof -
  let ?bs = "concat (map msg_block [[1, 2], [3]])"
  have "length ?bs = 7" by simp
  then have ne: "?bs \<noteq> []" by (metis list.size(3) zero_neq_numeral)
  let ?s = "\<lparr>fs_start = True, fs_remaining = ?bs, fs_length = length ?bs\<rparr>"
  have "FileSource (File ?bs) = Inr ?s" unfolding FileSource_def file_env.case using ne by (simp only: if_False)
  with file_feed_roundtrip [of "replicate 52 0" 50 "[[1, 2], [3]]" ?s] show ?thesis by auto
qed

end
