(* ===== verification/Retransmit_Recoverer.thy ===== *)
theory Retransmit_Recoverer
  imports Mold_Framer File_Source
begin

section \<open>Gap recovery (src/feed/recovery.hpp, src/feed/retransmit\_recoverer.hpp)\<close>

text \<open>
  When the framer reports a gap, the recoverer asks a retransmission server for the missing
  messages and feeds the replies to the framer until the end of the gap is reached. The clock and
  the outcome of a send are functions of the number of the reading or request; what a receive
  returns is a function of the requests sent before it and of its number, so that a server can answer what it was asked. The two nested loops are one loop over program points, \<open>None\<close>
  if it never ends.
\<close>

subsection \<open>State and operations\<close>

datatype recovery_error = RetriesExhausted | Timeout | TransportError | Recovery_SessionChanged
  | SessionEnded | Unsupported

text \<open>The recoverer of feeds without a retransmission server.\<close>

definition NoRecoverer_recover :: "'f \<Rightarrow> (recovery_error + unit) \<times> byte list list \<times> 'f" where
  "NoRecoverer_recover f = (Inl Unsupported, [], f)"

record recoverer =
  rc_max_attempts :: u32
  rc_max_per_request :: u16
  rc_max_recovery_time :: nat

record rec_env =
  re_now :: "nat \<Rightarrow> nat"
  re_send :: "nat \<Rightarrow> transport_status + unit"
  re_next :: "byte list list \<Rightarrow> nat \<Rightarrow> transport_status + byte list"

text \<open>
  The framer, the attempts, how often the clock was read and a reply asked for, the requests
  sent and the messages handed to the sink.
\<close>

record rec_state =
  rs_framer :: mold_framer
  rs_attempts :: u32
  rs_clock :: nat
  rs_replies :: nat
  rs_requests :: "byte list list"
  rs_out :: "byte list list"

text \<open>Where the loops are: at the head of the outer loop, or in the inner loop.\<close>

datatype rec_pc = Outer | Inner u64 u16

datatype rec_step = Continue rec_pc rec_state | Return "recovery_error + unit" rec_state

definition send_request :: "rec_env \<Rightarrow> u64 \<Rightarrow> u16 \<Rightarrow> rec_state \<Rightarrow> ((transport_status + unit) \<times> rec_state) res" where
  "send_request env seq count s =
     bind_res (write_header \<lparr>mh_session = mold_session (rs_framer s), mh_seq_num = seq, mh_msg_count = count\<rparr>
                 \<lparr>bw_out = [], bw_room = HEADER_SIZE\<rparr>) (\<lambda>writer.
     Inr (re_send env (length (rs_requests s)), s\<lparr>rs_requests := rs_requests s @ [bw_out writer]\<rparr>))"

definition request_count :: "recoverer \<Rightarrow> u64 \<Rightarrow> u64 \<Rightarrow> u16" where
  "request_count cfg target first = word_of_nat (min (unat (target - first)) (unat (rc_max_per_request cfg)))"

definition recover_outer :: "recoverer \<Rightarrow> rec_env \<Rightarrow> u64 \<Rightarrow> rec_state \<Rightarrow> rec_step res" where
  "recover_outer cfg env target s =
     (if \<not> mold_expected (rs_framer s) < target then Inr (Return (Inr ()) s)
      else if rs_attempts s = rc_max_attempts cfg then Inr (Return (Inl RetriesExhausted) s)
      else
        let first = mold_expected (rs_framer s); count = request_count cfg target first in
        bind_res (send_request env first count s) (\<lambda>(ret, s).
          case ret of
            Inl _ \<Rightarrow> Inr (Return (Inl TransportError) s)
          | Inr _ \<Rightarrow> Inr (Continue (Inner first count) (s\<lparr>rs_attempts := rs_attempts s + 1\<rparr>))))"

definition recover_inner :: "recoverer \<Rightarrow> rec_env \<Rightarrow> u64 \<Rightarrow> nat \<Rightarrow> u64 \<Rightarrow> u16 \<Rightarrow> rec_state \<Rightarrow> rec_step res" where
  "recover_inner cfg env target deadline first count s =
     (let now = re_now env (rs_clock s); s = s\<lparr>rs_clock := rs_clock s + 1\<rparr> in
      if now \<ge> deadline then Inr (Return (Inl Timeout) s)
      else
        let reply = re_next env (rs_requests s) (rs_replies s); s = s\<lparr>rs_replies := rs_replies s + 1\<rparr> in
        case reply of
          Inl WouldBlock \<Rightarrow> Inr (Continue Outer s)
        | Inl _ \<Rightarrow> Inr (Return (Inl TransportError) s)
        | Inr val \<Rightarrow>
            let prev_exp = mold_expected (rs_framer s) in
            bind_res (mold_feed val (rs_framer s)) (\<lambda>(res, out, framer).
              let s = s\<lparr>rs_framer := framer, rs_out := rs_out s @ out\<rparr> in
              case res of
                Inl Gap \<Rightarrow> Inr (Continue Outer s)
              | Inl Malformed \<Rightarrow> Inr (Continue (Inner first count) s)
              | Inl SessionChanged \<Rightarrow> Inr (Return (Inl Recovery_SessionChanged) s)
              | Inl EndOfSession \<Rightarrow> Inr (Return (Inl SessionEnded) s)
              | Inr _ \<Rightarrow>
                  if mold_expected framer \<ge> target then Inr (Return (Inr ()) s)
                  else
                    let s = (if mold_expected framer > prev_exp then s\<lparr>rs_attempts := 0\<rparr> else s) in
                    if mold_expected framer \<ge> first + ucast count then Inr (Continue Outer s)
                    else Inr (Continue (Inner first count) s)))"

definition recover_step :: "recoverer \<Rightarrow> rec_env \<Rightarrow> u64 \<Rightarrow> nat \<Rightarrow> rec_pc \<Rightarrow> rec_state \<Rightarrow> rec_step res" where
  "recover_step cfg env target deadline pc s = (case pc of
       Outer \<Rightarrow> recover_outer cfg env target s
     | Inner first count \<Rightarrow> recover_inner cfg env target deadline first count s)"

partial_function (option) recover_loop ::
  "recoverer \<Rightarrow> rec_env \<Rightarrow> u64 \<Rightarrow> nat \<Rightarrow> rec_pc \<Rightarrow> rec_state \<Rightarrow> ((recovery_error + unit) \<times> rec_state) res option" where
  "recover_loop cfg env target deadline pc s =
     (case recover_step cfg env target deadline pc s of
        Inl e \<Rightarrow> Some (Inl e)
      | Inr (Return r s') \<Rightarrow> Some (Inr (r, s'))
      | Inr (Continue pc' s') \<Rightarrow> recover_loop cfg env target deadline pc' s')"

definition recover_start :: "mold_framer \<Rightarrow> rec_state" where
  "recover_start f = \<lparr>rs_framer = f, rs_attempts = 0, rs_clock = 1, rs_replies = 0, rs_requests = [], rs_out = []\<rparr>"

definition recover :: "recoverer \<Rightarrow> rec_env \<Rightarrow> mold_framer \<Rightarrow> ((recovery_error + unit) \<times> rec_state) res option" where
  "recover cfg env f =
     (let target = mold_gap_end f; deadline = re_now env 0 + rc_max_recovery_time cfg in
      recover_loop cfg env target deadline Outer (recover_start f))"

subsection \<open>The steps never fault\<close>

text \<open>The session a framer has recorded has the size of a session.\<close>

definition session_ok :: "mold_framer \<Rightarrow> bool" where
  "session_ok f \<longleftrightarrow> length (mold_session f) = SESSION_SIZE"

lemma mold_feed_session_ok:
  assumes "session_ok f" "mold_feed d f = Inr (r, out, f')"
  shows "session_ok f'"
proof (cases rule: read_header_cases [of d])
  case short
  with assms show ?thesis by (simp add: mold_feed_def)
next
  case (header hdr rest)
  have loop: "mf_last_session f2 = mf_last_session f1"
    if "mold_msg_loop n c bs acc f1 = Inr (r, out, f2)" for n c bs acc f1 f2
    using mold_msg_loop_total [of n c bs acc f1] that by auto
  show ?thesis using assms header(1,3)
    by (auto simp: mold_feed_def session_ok_def mold_session_def Let_def split: if_splits dest: loop)
qed

lemma send_request_ok:
  assumes "session_ok (rs_framer s)"
  shows "\<exists>req. send_request env seq count s = Inr (re_send env (length (rs_requests s)), s\<lparr>rs_requests := rs_requests s @ [req]\<rparr>)
    \<and> read_header req = Inr (Some \<lparr>mh_session = mold_session (rs_framer s), mh_seq_num = seq, mh_msg_count = count\<rparr>, [])"
proof -
  let ?hdr = "\<lparr>mh_session = mold_session (rs_framer s), mh_seq_num = seq, mh_msg_count = count\<rparr>"
  have l: "length (mh_session ?hdr) = SESSION_SIZE" using assms by (simp add: session_ok_def)
  from write_header_bytes [OF l, of "\<lparr>bw_out = [], bw_room = HEADER_SIZE\<rparr>"] read_header_bytes [OF l, of "[]"]
  show ?thesis by (intro exI [of _ "header_bytes ?hdr"]) (simp add: send_request_def)
qed

lemma recover_outer_cases:
  assumes "session_ok (rs_framer s)"
  obtains (finished) "\<not> mold_expected (rs_framer s) < target" "recover_outer cfg env target s = Inr (Return (Inr ()) s)"
  | (fail) e reqs where "recover_outer cfg env target s = Inr (Return (Inl e) (s\<lparr>rs_requests := reqs\<rparr>))"
  | (ask) req where "mold_expected (rs_framer s) < target"
      "recover_outer cfg env target s = Inr (Continue (Inner (mold_expected (rs_framer s))
          (request_count cfg target (mold_expected (rs_framer s))))
        (s\<lparr>rs_requests := rs_requests s @ [req], rs_attempts := rs_attempts s + 1\<rparr>))"
proof -
  obtain req where req: "send_request env (mold_expected (rs_framer s)) (request_count cfg target (mold_expected (rs_framer s))) s
      = Inr (re_send env (length (rs_requests s)), s\<lparr>rs_requests := rs_requests s @ [req]\<rparr>)"
    using send_request_ok [OF assms] by blast
  have same: "s\<lparr>rs_requests := rs_requests s\<rparr> = s" by simp
  show ?thesis
  proof (cases "mold_expected (rs_framer s) < target")
    case False
    then show ?thesis using finished by (simp add: recover_outer_def)
  next
    case True
    show ?thesis
    proof (cases "rs_attempts s = rc_max_attempts cfg")
      case att: True
      with True have "recover_outer cfg env target s = Inr (Return (Inl RetriesExhausted) (s\<lparr>rs_requests := rs_requests s\<rparr>))"
        by (simp add: recover_outer_def same)
      then show ?thesis by (rule fail)
    next
      case False
      show ?thesis
      proof (cases "re_send env (length (rs_requests s))")
        case (Inl e)
        with True False req have "recover_outer cfg env target s = Inr (Return (Inl TransportError) (s\<lparr>rs_requests := rs_requests s @ [req]\<rparr>))"
          by (simp add: recover_outer_def Let_def)
        then show ?thesis by (rule fail)
      next
        case (Inr u)
        with True False req show ?thesis using ask [of req] by (simp add: recover_outer_def Let_def)
      qed
    qed
  qed
qed

text \<open>One step of the inner loop reads the clock once and keeps what the caller relies on.\<close>

lemma recover_inner_step:
  assumes "session_ok (rs_framer s)"
  shows "\<exists>st. recover_inner cfg env target deadline first count s = Inr st
    \<and> (case st of
        Continue pc s' \<Rightarrow> rs_clock s' = Suc (rs_clock s) \<and> session_ok (rs_framer s') \<and> re_now env (rs_clock s) < deadline
      | Return r s' \<Rightarrow> session_ok (rs_framer s') \<and> (r = Inr () \<longrightarrow> target \<le> mold_expected (rs_framer s')))"
proof -
  define s1 where "s1 = s\<lparr>rs_clock := rs_clock s + 1, rs_replies := rs_replies s + 1\<rparr>"
  show ?thesis
  proof (cases "deadline \<le> re_now env (rs_clock s)")
    case True
    then show ?thesis using assms by (simp add: recover_inner_def)
  next
    case early: False
    show ?thesis
    proof (cases "re_next env (rs_requests s) (rs_replies s)")
      case (Inl e)
      with early assms show ?thesis by (cases e) (simp_all add: recover_inner_def Let_def)
    next
      case (Inr val)
      obtain r out f' where feed: "mold_feed val (rs_framer s) = Inr (r, out, f')" using mold_feed_total by blast
      have ok: "session_ok f'" by (rule mold_feed_session_ok [OF assms feed])
      show ?thesis
      proof (cases r)
        case (Inl e)
        with early Inr feed ok show ?thesis by (cases e) (simp_all add: recover_inner_def Let_def)
      next
        case (Inr u)
        with early \<open>re_next env (rs_requests s) (rs_replies s) = Inr val\<close> feed ok show ?thesis by (simp add: recover_inner_def Let_def)
      qed
    qed
  qed
qed

text \<open>
  The loop ends when the clock reaches the deadline at some reading; what every step keeps holds
  at the end.
\<close>

lemma recover_loop_total:
  assumes start: "P pc s" "rs_clock s \<le> n" and clock: "deadline \<le> re_now env n"
    and step: "\<And>pc s. P pc s \<Longrightarrow> \<exists>st. recover_step cfg env target deadline pc s = Inr st
      \<and> (case st of
          Continue pc' s' \<Rightarrow> P pc' s' \<and> (if pc = Outer then pc' \<noteq> Outer \<and> rs_clock s' = rs_clock s
            else rs_clock s' = Suc (rs_clock s) \<and> re_now env (rs_clock s) < deadline)
        | Return r s' \<Rightarrow> R r s')"
  shows "\<exists>r s'. recover_loop cfg env target deadline pc s = Some (Inr (r, s')) \<and> R r s'"
  using start
proof (induction "2 * (n - rs_clock s) + (if pc = Outer then 1 else 0)" arbitrary: pc s rule: less_induct)
  case less
  obtain st where st: "recover_step cfg env target deadline pc s = Inr st"
    "case st of
      Continue pc' s' \<Rightarrow> P pc' s' \<and> (if pc = Outer then pc' \<noteq> Outer \<and> rs_clock s' = rs_clock s
        else rs_clock s' = Suc (rs_clock s) \<and> re_now env (rs_clock s) < deadline)
    | Return r s' \<Rightarrow> R r s'"
    using step [OF less.prems(1)] by blast
  show ?case
  proof (cases st)
    case (Return r s')
    with st show ?thesis by (subst recover_loop.simps) simp
  next
    case (Continue pc' s')
    have P: "P pc' s'" using st(2) Continue by simp
    have c: "rs_clock s' \<le> n"
    proof (cases "pc = Outer")
      case True
      with st(2) Continue less.prems(2) show ?thesis by simp
    next
      case False
      then have "re_now env (rs_clock s) < deadline" "rs_clock s' = Suc (rs_clock s)" using st(2) Continue by simp_all
      then show ?thesis using clock less.prems(2) by (metis Suc_leI le_neq_implies_less not_less)
    qed
    have "2 * (n - rs_clock s') + (if pc' = Outer then 1 else 0) < 2 * (n - rs_clock s) + (if pc = Outer then 1 else 0)"
      using st(2) Continue c by (auto split: if_splits)
    from less.hyps [OF this P c] st(1) Continue show ?thesis by (subst recover_loop.simps) simp
  qed
qed

subsection \<open>Filling a gap\<close>

text \<open>The framer follows the session and the sink got the messages from \<open>e\<close> on, each once.\<close>

definition rec_follows :: "byte list \<Rightarrow> (nat \<Rightarrow> byte list) \<Rightarrow> nat \<Rightarrow> rec_state \<Rightarrow> bool" where
  "rec_follows session stream e s \<longleftrightarrow> (\<exists>m. e \<le> m \<and> follows session m (rs_framer s) \<and> rs_out s = map stream [e..<m])
     \<and> session_ok (rs_framer s)"

lemma rec_follows_cong:
  "rs_framer s' = rs_framer s \<Longrightarrow> rs_out s' = rs_out s \<Longrightarrow> rec_follows session stream e s' = rec_follows session stream e s"
  by (simp add: rec_follows_def)

lemma rec_follows_feed:
  assumes "rec_follows session stream e s" "from_session session stream val" "length session = SESSION_SIZE"
    "\<And>i. length (stream i) < 2 ^ 16" "mold_feed val (rs_framer s) = Inr (r, out, f')"
  shows "rec_follows session stream e (s'\<lparr>rs_framer := f', rs_out := rs_out s @ out\<rparr>)"
proof -
  obtain m where m: "e \<le> m" "follows session m (rs_framer s)" "rs_out s = map stream [e..<m]"
    using assms(1) by (auto simp: rec_follows_def)
  obtain k where k: "out = map stream [m..<k]" "m \<le> k" "follows session k f'"
    using mold_feed_from_session [where stream = stream, OF assms(2) m(2) assms(3,4)] assms(5) by auto
  have "[e..<k] = [e..<m] @ [m..<k]" using m(1) k(2) by (metis le_Suc_ex upt_add_eq_append)
  with m k mold_feed_session_ok [OF _ assms(5)] assms(1) show ?thesis
    by (auto simp: rec_follows_def intro!: exI [of _ k])
qed

lemma recover_step_follows:
  assumes rf: "rec_follows session stream e s" and sess: "length session = SESSION_SIZE"
    and str: "\<And>i. length (stream i) < 2 ^ 16"
    and replies: "\<And>reqs j val. re_next env reqs j = Inr val \<Longrightarrow> from_session session stream val"
  shows "\<exists>st. recover_step cfg env target deadline pc s = Inr st
    \<and> (case st of
        Continue pc' s' \<Rightarrow> rec_follows session stream e s' \<and> (if pc = Outer then pc' \<noteq> Outer \<and> rs_clock s' = rs_clock s
          else rs_clock s' = Suc (rs_clock s) \<and> re_now env (rs_clock s) < deadline)
      | Return r s' \<Rightarrow> rec_follows session stream e s' \<and> (r = Inr () \<longrightarrow> target \<le> mold_expected (rs_framer s')))"
proof (cases pc)
  case Outer
  have "session_ok (rs_framer s)" using rf by (simp add: rec_follows_def)
  then show ?thesis
  proof (cases rule: recover_outer_cases [where target = target and cfg = cfg and env = env])
    case finished
    with rf Outer show ?thesis by (simp add: recover_step_def)
  next
    case (fail e' reqs)
    with rf Outer show ?thesis by (simp add: recover_step_def rec_follows_def)
  next
    case (ask req)
    with rf Outer show ?thesis by (simp add: recover_step_def rec_follows_def)
  qed
next
  case (Inner first count)
  define s1 where "s1 = s\<lparr>rs_clock := rs_clock s + 1, rs_replies := rs_replies s + 1\<rparr>"
  have rf1: "rec_follows session stream e (s\<lparr>rs_clock := x\<rparr>)" "rec_follows session stream e (s\<lparr>rs_clock := x, rs_replies := y\<rparr>)" for x y
    using rf by (simp_all add: rec_follows_def)
  show ?thesis
  proof (cases "deadline \<le> re_now env (rs_clock s)")
    case True
    then show ?thesis using rf1 Inner by (simp add: recover_step_def recover_inner_def)
  next
    case early: False
    show ?thesis
    proof (cases "re_next env (rs_requests s) (rs_replies s)")
      case (Inl err)
      with early rf1 Inner show ?thesis by (cases err) (simp_all add: recover_step_def recover_inner_def Let_def)
    next
      case (Inr val)
      obtain r out f' where feed: "mold_feed val (rs_framer s) = Inr (r, out, f')" using mold_feed_total by blast
      have rf2: "rec_follows session stream e (x\<lparr>rs_framer := f', rs_out := rs_out s @ out\<rparr>)" for x
        using rec_follows_feed [where stream = stream, OF rf replies [OF Inr] sess str feed] .
      then have rf3: "rec_follows session stream e (x\<lparr>rs_framer := f', rs_out := rs_out s @ out, rs_attempts := y\<rparr>)" for x y
        by (simp add: rec_follows_def)
      show ?thesis
      proof (cases r)
        case (Inl err)
        with early Inr feed rf2 Inner show ?thesis
          by (cases err) (simp_all add: recover_step_def recover_inner_def Let_def)
      next
        case ok: (Inr u)
        with early Inr feed rf2 rf3 Inner show ?thesis
          by (simp add: recover_step_def recover_inner_def Let_def not_le)
      qed
    qed
  qed
qed

lemma recover_follows:
  assumes "follows session e f" "mold_session f = session" "length session = SESSION_SIZE"
    "\<forall>i. length (stream i) < 2 ^ 16"
    "\<forall>reqs j val. re_next env reqs j = Inr val \<longrightarrow> from_session session stream val"
    "re_now env 0 + rc_max_recovery_time cfg \<le> re_now env (Suc n)"
  shows "\<exists>r s m. recover cfg env f = Some (Inr (r, s)) \<and> e \<le> m \<and> rs_out s = map stream [e..<m]
    \<and> follows session m (rs_framer s) \<and> (r = Inr () \<longrightarrow> unat (mold_gap_end f) \<le> m)"
proof -
  let ?target = "mold_gap_end f" and ?deadline = "re_now env 0 + rc_max_recovery_time cfg"
  have start: "rec_follows session stream e (recover_start f)"
    using assms(1,2,3) by (auto simp: rec_follows_def recover_start_def session_ok_def intro!: exI [of _ e])
  have clock: "rs_clock (recover_start f) \<le> Suc n" by (simp add: recover_start_def)
  have "\<exists>r s. recover_loop cfg env ?target ?deadline Outer (recover_start f) = Some (Inr (r, s))
      \<and> rec_follows session stream e s \<and> (r = Inr () \<longrightarrow> ?target \<le> mold_expected (rs_framer s))"
  proof (rule recover_loop_total [where P = "\<lambda>_. rec_follows session stream e", OF start clock assms(6)])
    show "\<exists>st. recover_step cfg env ?target ?deadline pc s = Inr st
      \<and> (case st of
        Continue pc' s' \<Rightarrow> rec_follows session stream e s' \<and> (if pc = Outer then pc' \<noteq> Outer \<and> rs_clock s' = rs_clock s
          else rs_clock s' = Suc (rs_clock s) \<and> re_now env (rs_clock s) < ?deadline)
      | Return r s' \<Rightarrow> rec_follows session stream e s' \<and> (r = Inr () \<longrightarrow> ?target \<le> mold_expected (rs_framer s')))"
      if "rec_follows session stream e s" for pc s
      by (rule recover_step_follows [OF that assms(3)]) (use assms(4,5) in blast)+
  qed
  then obtain r s where r: "recover_loop cfg env ?target ?deadline Outer (recover_start f) = Some (Inr (r, s))"
    "rec_follows session stream e s" "r = Inr () \<longrightarrow> ?target \<le> mold_expected (rs_framer s)"
    by blast
  obtain m where m: "e \<le> m" "follows session m (rs_framer s)" "rs_out s = map stream [e..<m]"
    using r(2) by (auto simp: rec_follows_def)
  have "unat (mold_expected (rs_framer s)) = m" using m(2) by (simp add: follows_def mold_expected_def unat_u64_of_nat)
  with r(3) have "r = Inr () \<longrightarrow> unat ?target \<le> m" by (simp add: word_le_nat_alt)
  with r(1) m show ?thesis by (auto simp: recover_def)
qed

text \<open>
  C26. Recovery ends and never corrupts the stream: when the clock reaches the deadline at some
  reading, \<open>recover\<close> returns, whatever the server does; if every datagram received comes from
  the session, lost, repeated, reordered or cut short as it may be, the messages handed to the
  sink are the next ones of the session, each once and in order, and a success means that
  the gap is filled.
\<close>

theorem recover_terminates:
  assumes "follows session e f" "mold_session f = session" "length session = SESSION_SIZE"
    "\<forall>i. length (stream i) < 2 ^ 16"
    "\<forall>reqs j val. re_next env reqs j = Inr val \<longrightarrow> from_session session stream val"
    "re_now env 0 + rc_max_recovery_time cfg \<le> re_now env (Suc n)"
  shows "\<exists>r s m. recover cfg env f = Some (Inr (r, s)) \<and> e \<le> m \<and> rs_out s = map stream [e..<m]
    \<and> follows session m (rs_framer s) \<and> (r = Inr () \<longrightarrow> unat (mold_gap_end f) \<le> m)"
  by (rule recover_follows [OF assms])

theorem recover_terminates_witness:
  "\<exists>r s. recover \<lparr>rc_max_attempts = 3, rc_max_per_request = 10, rc_max_recovery_time = 5\<rparr>
      \<lparr>re_now = (\<lambda>j. j), re_send = (\<lambda>_. Inr ()), re_next = (\<lambda>_ _. Inl WouldBlock)\<rparr>
      \<lparr>mf_last_session = replicate 10 65, mf_has_session = True, mf_exp_seq = 1, mf_gap_end = 4\<rparr> = Some (Inr (r, s))"
proof -
  let ?f = "\<lparr>mf_last_session = replicate 10 65, mf_has_session = True, mf_exp_seq = 1, mf_gap_end = 4\<rparr>"
  have "follows (replicate 10 65) 1 ?f" by (simp add: follows_def)
  from recover_terminates [OF this, where stream = "\<lambda>_. []" and n = 4 and cfg = "\<lparr>rc_max_attempts = 3, rc_max_per_request = 10, rc_max_recovery_time = 5\<rparr>"
      and env = "\<lparr>re_now = (\<lambda>j. j), re_send = (\<lambda>_. Inr ()), re_next = (\<lambda>_ _. Inl WouldBlock)\<rparr>"]
  show ?thesis by (auto simp: mold_session_def SESSION_SIZE_def)
qed

text \<open>
  A server that answers the requests: what is received after a request of the session, read from the
  bytes that were sent, is a packet with the messages it asks for.
\<close>

definition answers_requests :: "byte list \<Rightarrow> (nat \<Rightarrow> byte list) \<Rightarrow> rec_env \<Rightarrow> bool" where
  "answers_requests session stream env \<longleftrightarrow> (\<forall>reqs req hdr rest j. read_header req = Inr (Some hdr, rest) \<longrightarrow> mh_session hdr = session \<longrightarrow>
     re_next env (reqs @ [req]) j = Inr (mold_packet session stream (unat (mh_seq_num hdr)) (unat (mh_msg_count hdr))))"

lemma mold_feed_whole0:
  assumes "follows session x f" "length session = SESSION_SIZE" "\<forall>i. length (stream i) < 2 ^ 16"
    "x + n < 2 ^ 64" "n < 2 ^ 16 - 1"
  shows "\<exists>f'. mold_feed (mold_packet session stream x n) f = Inr (Inr (), map stream [x..<x + n], f')
    \<and> follows session (x + n) f' \<and> mold_session f' = session"
  using mold_feed_whole [OF assms] by auto

lemma recover_loop_served:
  assumes cfg: "rc_max_attempts cfg \<noteq> 0" "1 \<le> unat (rc_max_per_request cfg)" "unat (rc_max_per_request cfg) < 2 ^ 16 - 1"
    and sess: "length session = SESSION_SIZE" and str: "\<forall>i. length (stream i) < 2 ^ 16"
    and env: "\<forall>j. re_now env j < deadline" "\<forall>j. re_send env j = Inr ()" "answers_requests session stream env"
    and start: "follows session x (rs_framer s)" "mold_session (rs_framer s) = session" "x \<le> unat target" "rs_attempts s = 0"
  shows "\<exists>s'. recover_loop cfg env target deadline Outer s = Some (Inr (Inr (), s'))
    \<and> rs_out s' = rs_out s @ map stream [x..<unat target] \<and> follows session (unat target) (rs_framer s')"
  using start
proof (induction "unat target - x" arbitrary: x s rule: less_induct)
  case less
  let ?M = "unat (rc_max_per_request cfg)" and ?T = "unat target"
  have T: "?T < 2 ^ 64" using unsigned_less [where 'a = nat, of target] by simp
  have ex: "unat (mold_expected (rs_framer s)) = x" "mold_expected (rs_framer s) = word_of_nat x"
    using less.prems(1) by (simp_all add: follows_def mold_expected_def unat_u64_of_nat)
  have sok: "session_ok (rs_framer s)" using less.prems(2) sess by (simp add: session_ok_def)
  show ?case
  proof (cases "x = ?T")
    case True
    then have "recover_outer cfg env target s = Inr (Return (Inr ()) s)"
      using ex by (simp add: recover_outer_def word_less_nat_alt)
    with True less.prems(1) show ?thesis by (subst recover_loop.simps) (simp add: recover_step_def)
  next
    case False
    then have lt: "x < ?T" "mold_expected (rs_framer s) < target" using less.prems(3) ex by (simp_all add: word_less_nat_alt)
    define n where "n = min ?M (?T - x)"
    have n: "1 \<le> n" "n < 2 ^ 16 - 1" "x + n \<le> ?T" using cfg lt(1) by (simp_all add: n_def)
    have "unat (target - mold_expected (rs_framer s)) = ?T - x"
      using lt(2) ex(1) by (simp add: unat_sub less_imp_le)
    then have cnt: "request_count cfg target (mold_expected (rs_framer s)) = word_of_nat n"
      by (simp add: request_count_def n_def min.commute)
    obtain req where req: "send_request env (mold_expected (rs_framer s)) (word_of_nat n) s
        = Inr (Inr (), s\<lparr>rs_requests := rs_requests s @ [req]\<rparr>)"
      "read_header req = Inr (Some \<lparr>mh_session = session, mh_seq_num = word_of_nat x, mh_msg_count = word_of_nat n\<rparr>, [])"
      using send_request_ok [OF sok, of env "mold_expected (rs_framer s)" "word_of_nat n"] env(2) less.prems(2) ex(2) by auto
    have n16: "unat (word_of_nat n :: u16) = n" using n(2) by (intro unat_u16_of_nat) simp
    have x64: "unat (word_of_nat x :: u64) = x" using ex by simp
    define s1 where "s1 = s\<lparr>rs_requests := rs_requests s @ [req], rs_attempts := 1\<rparr>"
    have outer: "recover_step cfg env target deadline Outer s = Inr (Continue (Inner (word_of_nat x) (word_of_nat n)) s1)"
      using lt(2) cfg(1) less.prems(4) cnt req(1) ex(2) by (simp add: recover_step_def recover_outer_def Let_def s1_def)
    have reply: "re_next env (rs_requests s1) (rs_replies s1) = Inr (mold_packet session stream x n)"
      using env(3) [unfolded answers_requests_def, rule_format, OF req(2)] n16 x64 by (simp add: s1_def)
    have fol: "follows session x (rs_framer s1)" using less.prems(1) by (simp add: s1_def)
    have "x + n < 2 ^ 64" using n(3) T by simp
    from mold_feed_whole0 [OF fol sess str this n(2)] obtain f' where
      f': "mold_feed (mold_packet session stream x n) (rs_framer s1) = Inr (Inr (), map stream [x..<x + n], f')"
      "follows session (x + n) f'" "mold_session f' = session" by blast
    have ex'1: "mold_expected f' = word_of_nat (x + n)" using f'(2) by (simp add: follows_def mold_expected_def)
    have "unat (word_of_nat (x + n) :: u64) = x + n" using n(3) T by (intro unat_u64_of_nat) simp
    with ex'1 have ex': "mold_expected f' = word_of_nat (x + n)" "unat (mold_expected f') = x + n" by simp_all
    define s2 where "s2 = s1\<lparr>rs_clock := rs_clock s1 + 1, rs_replies := rs_replies s1 + 1, rs_framer := f',
        rs_out := rs_out s1 @ map stream [x..<x + n]\<rparr>"
    have clk: "\<not> deadline \<le> re_now env (rs_clock s1)" using env(1) by (simp add: not_le)
    show ?thesis
    proof (cases "x + n = ?T")
      case True
      have "recover_step cfg env target deadline (Inner (word_of_nat x) (word_of_nat n)) s1 = Inr (Return (Inr ()) s2)"
        using clk reply f'(1) ex'(2) True
        by (simp add: recover_step_def recover_inner_def Let_def word_le_nat_alt s2_def)
      then have "recover_loop cfg env target deadline Outer s = Some (Inr (Inr (), s2))"
        using outer by (simp add: recover_loop.simps)
      with f'(2) True show ?thesis by (simp add: s2_def s1_def)
    next
      case more: False
      then have "x + n < ?T" "n = ?M" using n(3) by (auto simp: n_def)
      have prog: "mold_expected (rs_framer s1) < mold_expected f'"
        using ex ex' n(1) by (simp add: word_less_nat_alt s1_def)
      have "word_of_nat x + ucast (word_of_nat n :: u16) = (word_of_nat (x + n) :: u64)"
        using of_nat_unat [of "word_of_nat n :: u16", where ?'a = "64 word"] n16 by simp
      then have full: "word_of_nat x + ucast (word_of_nat n :: u16) \<le> mold_expected f'" using ex'(1) by simp
      let ?s3 = "s2\<lparr>rs_attempts := 0\<rparr>"
      have "recover_step cfg env target deadline (Inner (word_of_nat x) (word_of_nat n)) s1 = Inr (Continue Outer ?s3)"
        using clk reply f'(1) ex'(2) \<open>x + n < ?T\<close> prog full
        by (simp add: recover_step_def recover_inner_def Let_def word_le_nat_alt [of target] s2_def not_le)
      then have run: "recover_loop cfg env target deadline Outer s = recover_loop cfg env target deadline Outer ?s3"
        using outer by (simp add: recover_loop.simps [of cfg env target deadline Outer s]
            recover_loop.simps [of cfg env target deadline "Inner (word_of_nat x) (word_of_nat n)" s1])
      have "\<exists>s'. recover_loop cfg env target deadline Outer ?s3 = Some (Inr (Inr (), s'))
          \<and> rs_out s' = rs_out ?s3 @ map stream [x + n..<?T] \<and> follows session ?T (rs_framer s')"
        by (rule less.hyps) (use f'(2,3) \<open>x + n < ?T\<close> n(1) in \<open>simp_all add: s2_def\<close>)
      moreover have "[x..<?T] = [x..<x + n] @ [x + n..<?T]" using \<open>x + n < ?T\<close> by (metis le_Suc_ex less_imp_le upt_add_eq_append le_add1)
      ultimately show ?thesis unfolding run by (auto simp: s2_def s1_def)
    qed
  qed
qed

text \<open>
  C27. With a server that answers, recovery succeeds: if every request can be sent and what is received after it is a
  packet with the messages that its bytes ask for, before the deadline, \<open>recover\<close> fills the whole gap, however many
  requests of at most \<open>max_per_request\<close> messages that takes, and hands over exactly the
  missing messages. The limit is between 1 and 65534, and at least one attempt is allowed.
\<close>

theorem recover_succeeds:
  assumes "rc_max_attempts cfg \<noteq> 0" "1 \<le> M" "M < 2 ^ 16 - 1" "unat (rc_max_per_request cfg) = M"
    "length session = SESSION_SIZE" "\<forall>i. length (stream i) < 2 ^ 16"
    "\<forall>j. re_now env j < re_now env 0 + rc_max_recovery_time cfg" "\<forall>j. re_send env j = Inr ()"
    "follows session e f" "mold_session f = session" "e \<le> g" "unat (mold_gap_end f) = g"
    "answers_requests session stream env"
  shows "\<exists>s. recover cfg env f = Some (Inr (Inr (), s)) \<and> rs_out s = map stream [e..<g] \<and> follows session g (rs_framer s)"
  using recover_loop_served [where cfg = cfg and session = session and stream = stream and env = env and x = e
      and s = "recover_start f" and target = "mold_gap_end f" and deadline = "re_now env 0 + rc_max_recovery_time cfg"] assms
  by (simp add: recover_def recover_start_def)

definition sample_server :: "byte list list \<Rightarrow> nat \<Rightarrow> transport_status + byte list" where
  "sample_server reqs j = (case read_header (last reqs) of
       Inr (Some hdr, rest) \<Rightarrow> Inr (mold_packet (replicate 10 65) (\<lambda>i. [word_of_nat i]) (unat (mh_seq_num hdr)) (unat (mh_msg_count hdr)))
     | _ \<Rightarrow> Inl WouldBlock)"

theorem recover_succeeds_witness:
  "\<exists>s. recover \<lparr>rc_max_attempts = 3, rc_max_per_request = 2, rc_max_recovery_time = 5\<rparr>
      \<lparr>re_now = (\<lambda>_. 0), re_send = (\<lambda>_. Inr ()), re_next = sample_server\<rparr>
      \<lparr>mf_last_session = replicate 10 65, mf_has_session = True, mf_exp_seq = 1, mf_gap_end = 4\<rparr> = Some (Inr (Inr (), s))
    \<and> rs_out s = [[1], [2], [3]]"
proof -
  let ?f = "\<lparr>mf_last_session = replicate 10 65, mf_has_session = True, mf_exp_seq = 1, mf_gap_end = 4\<rparr>"
  let ?env = "\<lparr>re_now = (\<lambda>_. 0), re_send = (\<lambda>_. Inr ()), re_next = sample_server\<rparr>"
  have "follows (replicate 10 65) 1 ?f" by (simp add: follows_def)
  moreover have "answers_requests (replicate 10 65) (\<lambda>i. [word_of_nat i]) ?env" by (simp add: answers_requests_def sample_server_def)
  ultimately show ?thesis
    using recover_succeeds [where M = 2 and g = 4 and e = 1 and f = ?f and session = "replicate 10 65" and stream = "\<lambda>i. [word_of_nat i]"
      and cfg = "\<lparr>rc_max_attempts = 3, rc_max_per_request = 2, rc_max_recovery_time = 5\<rparr>" and env = ?env]
    by (auto simp: mold_session_def mold_gap_end_def SESSION_SIZE_def upt_rec)
qed

subsection \<open>The contract of a recoverer\<close>

text \<open>
  What the feed relies on: called with the framer of a session, a recoverer returns and hands over
  the next messages of the session, each once and in order. It promises no success.
\<close>

locale gap_recoverer =
  fixes rcv :: "nat \<Rightarrow> mold_framer \<Rightarrow> ((recovery_error + unit) \<times> byte list list \<times> mold_framer) res"
    and session :: "byte list" and stream :: "nat \<Rightarrow> byte list"
  assumes session_size: "length session = SESSION_SIZE"
    and stream_size: "length (stream i) < 2 ^ 16"
    and rcv_ok: "follows session e f \<Longrightarrow> mold_session f = session \<Longrightarrow>
      \<exists>r m f'. rcv k f = Inr (r, map stream [e..<m], f') \<and> e \<le> m \<and> follows session m f'"

text \<open>The recoverer with the answers of the network to its calls.\<close>

definition mold_recover :: "recoverer \<Rightarrow> (nat \<Rightarrow> rec_env) \<Rightarrow> nat \<Rightarrow> mold_framer
    \<Rightarrow> ((recovery_error + unit) \<times> byte list list \<times> mold_framer) res" where
  "mold_recover cfg renv k f = (case recover cfg (renv k) f of
       None \<Rightarrow> Inl Diverged
     | Some (Inl e) \<Rightarrow> Inl e
     | Some (Inr (r, s)) \<Rightarrow> Inr (r, rs_out s, rs_framer s))"

text \<open>
  A network that delivers only datagrams of the session, and a clock that reaches every deadline.
\<close>

definition network_ok :: "byte list \<Rightarrow> (nat \<Rightarrow> byte list) \<Rightarrow> recoverer \<Rightarrow> rec_env \<Rightarrow> bool" where
  "network_ok session stream cfg env \<longleftrightarrow> (\<forall>reqs j val. re_next env reqs j = Inr val \<longrightarrow> from_session session stream val)
     \<and> (\<exists>n. re_now env 0 + rc_max_recovery_time cfg \<le> re_now env (Suc n))"

lemma mold_recoverer:
  assumes "length session = SESSION_SIZE" "\<forall>i. length (stream i) < 2 ^ 16" "\<forall>k. network_ok session stream cfg (renv k)"
  shows "gap_recoverer (mold_recover cfg renv) session stream"
proof
  show "length session = SESSION_SIZE" "length (stream i) < 2 ^ 16" for i using assms by simp_all
  fix e f k assume f: "follows session e f" "mold_session f = session"
  obtain n where n: "re_now (renv k) 0 + rc_max_recovery_time cfg \<le> re_now (renv k) (Suc n)"
    using assms(3) unfolding network_ok_def by blast
  have rep: "\<forall>reqs j val. re_next (renv k) reqs j = Inr val \<longrightarrow> from_session session stream val"
    using assms(3) by (auto simp: network_ok_def)
  from recover_follows [OF f assms(1,2) rep n] obtain r s m where
    "recover cfg (renv k) f = Some (Inr (r, s))" "e \<le> m" "rs_out s = map stream [e..<m]" "follows session m (rs_framer s)"
    by blast
  then show "\<exists>r m f'. mold_recover cfg renv k f = Inr (r, map stream [e..<m], f') \<and> e \<le> m \<and> follows session m f'"
    by (auto simp: mold_recover_def)
qed

interpretation no_recovery: gap_recoverer "\<lambda>_ f. Inr (NoRecoverer_recover f)" "replicate SESSION_SIZE 32" "\<lambda>_. []"
proof
  show "\<exists>r m f'. Inr (NoRecoverer_recover f) = (Inr (r, map (\<lambda>_. []) [e..<m], f') :: _ res) \<and> e \<le> m \<and> follows (replicate SESSION_SIZE 32) m f'"
    if "follows (replicate SESSION_SIZE 32) e f" for e f
    using that by (auto simp: NoRecoverer_recover_def intro!: exI [of _ e])
qed (simp_all)

end
