(* ===== verification/Venue_Feed.thy ===== *)
theory Venue_Feed
  imports Itch_Parser Spsc_Queue Retransmit_Recoverer
begin

section \<open>Venue feed (src/feed/venue\_feed.hpp, src/common/event\_queue.hpp)\<close>

text \<open>
  The feed thread of a venue: buffers from the transport go through the framer; every message is
  parsed and its events are stamped and pushed to the ring of their shard; framing errors are
  handled by recovery, by counting or by stopping. A feed is one record; the framer, its \<open>feed\<close>
  and the recoverer are template parameters of the class and arguments here. The messages handed
  to \<open>on_message\<close> and the events popped from each ring are kept as histories (\<open>vf_log\<close>,
  \<open>vf_popped\<close>), which the program does not have.
\<close>

subsection \<open>State and operations\<close>

definition N_SHARDS :: u32 where "N_SHARDS = 4"

definition QUEUE_SIZE :: nat where "QUEUE_SIZE = 4096"

definition MAX_RECOVERIES :: nat where "MAX_RECOVERIES = 3"

record 'f venue_feed =
  vf_framer :: 'f
  vf_producers :: "mbo_event spsc list"
  vf_stop_requested :: bool
  vf_finished :: bool
  vf_queue_full :: u64
  vf_malformed :: u64
  vf_rx_tsc :: u64
  vf_calls :: nat
  vf_recoveries :: nat
  vf_log :: "byte list list"
  vf_popped :: "nat \<Rightarrow> mbo_event list"

definition VenueFeed :: "'f \<Rightarrow> mbo_event spsc list \<Rightarrow> 'f venue_feed" where
  "VenueFeed f queues = \<lparr>vf_framer = f, vf_producers = queues, vf_stop_requested = False, vf_finished = False,
     vf_queue_full = 0, vf_malformed = 0, vf_rx_tsc = 0, vf_calls = 0, vf_recoveries = 0, vf_log = [],
     vf_popped = (\<lambda>_. [])\<rparr>"

definition vf_stop :: "'f venue_feed \<Rightarrow> 'f venue_feed" where
  "vf_stop vf = vf\<lparr>vf_stop_requested := True\<rparr>"

text \<open>
  A full ring: before every retry the consumer may have popped some events; after a failed retry
  the stop flag is read. Both are the environment's. What was popped is returned for the history.
\<close>

fun consume :: "nat \<Rightarrow> mbo_event spsc \<Rightarrow> (mbo_event list \<times> mbo_event spsc) res" where
  "consume 0 q = Inr ([], q)"
| "consume (Suc n) q = bind_res (pop (q_head q) q) (\<lambda>(r, q). bind_res (consume n q) (\<lambda>(es, q).
     Inr ((case r of None \<Rightarrow> es | Some e \<Rightarrow> e # es), q)))"

fun push_loop :: "(nat \<times> bool) list \<Rightarrow> mbo_event \<Rightarrow> mbo_event spsc \<Rightarrow> (bool \<times> mbo_event list \<times> mbo_event spsc) res" where
  "push_loop [] stamped q = Inl Diverged"
| "push_loop ((pops, stop) # env) stamped q =
     bind_res (consume pops q) (\<lambda>(es, q).
       case push (q_tail q) stamped q of
         (True, q) \<Rightarrow> Inr (True, es, q)
       | (False, q) \<Rightarrow> if stop then Inr (False, es, q)
           else bind_res (push_loop env stamped q) (\<lambda>(pushed, es', q). Inr (pushed, es @ es', q)))"

definition shard_of :: "mbo_event \<Rightarrow> nat" where
  "shard_of e = unat (ev_instrument e AND (N_SHARDS - 1))"

text \<open>\<open>penv\<close> gives the environment of the n-th call.\<close>

definition on_event :: "(nat \<Rightarrow> (nat \<times> bool) list) \<Rightarrow> mbo_event \<Rightarrow> 'f venue_feed \<Rightarrow> 'f venue_feed res" where
  "on_event penv e vf =
     (let stamped = e\<lparr>ev_rx_tsc := vf_rx_tsc vf\<rparr>; i = shard_of stamped; env = penv (vf_calls vf);
          vf = vf\<lparr>vf_calls := vf_calls vf + 1\<rparr> in
      if length (vf_producers vf) \<le> i then Inl Bad_Access
      else case push (q_tail (vf_producers vf ! i)) stamped (vf_producers vf ! i) of
        (True, q) \<Rightarrow> Inr (vf\<lparr>vf_producers := (vf_producers vf)[i := q]\<rparr>)
      | (False, q) \<Rightarrow>
          let vf = vf\<lparr>vf_queue_full := vf_queue_full vf + 1\<rparr> in
          bind_res (push_loop env stamped q) (\<lambda>(pushed, es, q).
            let vf = vf\<lparr>vf_producers := (vf_producers vf)[i := q], vf_popped := (vf_popped vf)(i := vf_popped vf i @ es)\<rparr> in
            Inr (if pushed then vf else vf_stop vf)))"

fun on_events :: "(nat \<Rightarrow> (nat \<times> bool) list) \<Rightarrow> mbo_event list \<Rightarrow> 'f venue_feed \<Rightarrow> 'f venue_feed res" where
  "on_events penv [] vf = Inr vf"
| "on_events penv (e # es) vf = bind_res (on_event penv e vf) (on_events penv es)"

definition on_message :: "(nat \<Rightarrow> (nat \<times> bool) list) \<Rightarrow> byte list \<Rightarrow> 'f venue_feed \<Rightarrow> 'f venue_feed res" where
  "on_message penv b vf = bind_res (itch_parse b) (\<lambda>evs. on_events penv evs (vf\<lparr>vf_log := vf_log vf @ [b]\<rparr>))"

fun on_messages :: "(nat \<Rightarrow> (nat \<times> bool) list) \<Rightarrow> byte list list \<Rightarrow> 'f venue_feed \<Rightarrow> 'f venue_feed res" where
  "on_messages penv [] vf = Inr vf"
| "on_messages penv (b # bs) vf = bind_res (on_message penv b vf) (on_messages penv bs)"

text \<open>A call of the framer or the recoverer with the feed as the sink.\<close>

definition vf_feed :: "(nat \<Rightarrow> (nat \<times> bool) list) \<Rightarrow> (byte list \<Rightarrow> 'f \<Rightarrow> ('e, 'f) feed_result) \<Rightarrow> byte list
    \<Rightarrow> 'f venue_feed \<Rightarrow> (('e + unit) \<times> 'f venue_feed) res" where
  "vf_feed penv feed buf vf =
     bind_res (feed buf (vf_framer vf)) (\<lambda>(r, msgs, f).
     bind_res (on_messages penv msgs (vf\<lparr>vf_framer := f\<rparr>)) (\<lambda>vf. Inr (r, vf)))"

type_synonym 'f recover_fun = "nat \<Rightarrow> 'f \<Rightarrow> ((recovery_error + unit) \<times> byte list list \<times> 'f) res"

definition vf_recover :: "(nat \<Rightarrow> (nat \<times> bool) list) \<Rightarrow> 'f recover_fun \<Rightarrow> 'f venue_feed
    \<Rightarrow> ((recovery_error + unit) \<times> 'f venue_feed) res" where
  "vf_recover penv rcv vf =
     bind_res (rcv (vf_recoveries vf) (vf_framer vf)) (\<lambda>(r, msgs, f).
     bind_res (on_messages penv msgs (vf\<lparr>vf_framer := f, vf_recoveries := vf_recoveries vf + 1\<rparr>)) (\<lambda>vf. Inr (r, vf)))"

definition on_stream_error :: "byte list \<Rightarrow> stream_error \<Rightarrow> 'f venue_feed \<Rightarrow> 'f venue_feed res" where
  "on_stream_error buf e vf = Inr (vf_stop vf)"

text \<open>The loop over the recoveries; \<open>left\<close> is \<open>MAX_RECOVERIES - i\<close>.\<close>

fun sequenced_error_loop :: "(nat \<Rightarrow> (nat \<times> bool) list) \<Rightarrow> (byte list \<Rightarrow> 'f \<Rightarrow> (sequenced_error, 'f) feed_result)
    \<Rightarrow> 'f recover_fun \<Rightarrow> byte list \<Rightarrow> nat \<Rightarrow> sequenced_error \<Rightarrow> 'f venue_feed \<Rightarrow> 'f venue_feed res" where
  "sequenced_error_loop penv feed rcv buf 0 e vf = Inr (vf_stop vf)"
| "sequenced_error_loop penv feed rcv buf (Suc left) e vf =
     (case e of
        Gap \<Rightarrow>
          bind_res (vf_recover penv rcv vf) (\<lambda>(rec, vf).
            case rec of
              Inl _ \<Rightarrow> Inr (vf_stop vf)
            | Inr _ \<Rightarrow> bind_res (vf_feed penv feed buf vf) (\<lambda>(ret, vf).
                case ret of
                  Inr _ \<Rightarrow> Inr vf
                | Inl e \<Rightarrow> sequenced_error_loop penv feed rcv buf left e vf))
      | Malformed \<Rightarrow> Inr (vf\<lparr>vf_malformed := vf_malformed vf + 1\<rparr>)
      | SessionChanged \<Rightarrow> Inr (vf_stop vf)
      | EndOfSession \<Rightarrow> Inr (vf_stop vf))"

definition on_sequenced_error :: "(nat \<Rightarrow> (nat \<times> bool) list) \<Rightarrow> (byte list \<Rightarrow> 'f \<Rightarrow> (sequenced_error, 'f) feed_result)
    \<Rightarrow> 'f recover_fun \<Rightarrow> byte list \<Rightarrow> sequenced_error \<Rightarrow> 'f venue_feed \<Rightarrow> 'f venue_feed res" where
  "on_sequenced_error penv feed rcv buf e vf = sequenced_error_loop penv feed rcv buf MAX_RECOVERIES e vf"

text \<open>
  The loop of \<open>run\<close> over the answers of the transport, each with the time stamp counter read
  for it; a run is observed up to the last answer given.
\<close>

definition run_iteration :: "(nat \<Rightarrow> (nat \<times> bool) list) \<Rightarrow> (byte list \<Rightarrow> 'f \<Rightarrow> ('e, 'f) feed_result)
    \<Rightarrow> (byte list \<Rightarrow> 'e \<Rightarrow> 'f venue_feed \<Rightarrow> 'f venue_feed res) \<Rightarrow> u64 \<Rightarrow> transport_status + byte list
    \<Rightarrow> 'f venue_feed \<Rightarrow> 'f venue_feed res" where
  "run_iteration penv feed on_error tsc buf vf =
     (case buf of
        Inl WouldBlock \<Rightarrow> Inr vf
      | Inl Eof \<Rightarrow> Inr (vf_stop vf)
      | Inl TransportStatus_Error \<Rightarrow> Inr (vf_stop vf)
      | Inr b \<Rightarrow> bind_res (vf_feed penv feed b (vf\<lparr>vf_rx_tsc := tsc\<rparr>)) (\<lambda>(ret, vf).
          case ret of Inr _ \<Rightarrow> Inr vf | Inl e \<Rightarrow> on_error b e vf))"

fun vf_run :: "(nat \<Rightarrow> (nat \<times> bool) list) \<Rightarrow> (byte list \<Rightarrow> 'f \<Rightarrow> ('e, 'f) feed_result)
    \<Rightarrow> (byte list \<Rightarrow> 'e \<Rightarrow> 'f venue_feed \<Rightarrow> 'f venue_feed res) \<Rightarrow> (u64 \<times> (transport_status + byte list)) list
    \<Rightarrow> 'f venue_feed \<Rightarrow> 'f venue_feed res" where
  "vf_run penv feed on_error [] vf = Inr (if vf_stop_requested vf then vf\<lparr>vf_finished := True\<rparr> else vf)"
| "vf_run penv feed on_error ((tsc, buf) # inputs) vf =
     (if vf_stop_requested vf then Inr (vf\<lparr>vf_finished := True\<rparr>)
      else bind_res (run_iteration penv feed on_error tsc buf vf) (vf_run penv feed on_error inputs))"

subsection \<open>Sharding\<close>

lemma shard_less: "shard_of e < 4"
proof -
  have "(3 :: u32) = mask 2" by (simp add: mask_eq_exp_minus_1)
  then have "ev_instrument e AND 3 = take_bit 2 (ev_instrument e)" by (simp add: take_bit_eq_mask)
  then have "unat (ev_instrument e AND 3) = take_bit 2 (unat (ev_instrument e))"
    by (simp only: unsigned_take_bit_eq)
  then have "unat (ev_instrument e AND 3) = unat (ev_instrument e) mod 4" by (simp add: take_bit_eq_mod)
  then show ?thesis by (simp add: shard_of_def N_SHARDS_def)
qed

lemma consume_holds:
  assumes "ring_holds (2 ^ c) q xs"
  shows "\<exists>q'. consume n q = Inr (take n xs, q') \<and> ring_holds (2 ^ c) q' (drop n xs)"
  using assms
proof (induction n arbitrary: q xs)
  case (Suc n)
  show ?case
  proof (cases xs)
    case Nil
    obtain q1 where "pop (q_head q) q = Inr (None, q1)" "ring_holds (2 ^ c) q1 []"
      using ring.deq_none Suc.prems Nil by blast
    with Suc.IH [of q1 "[]"] Nil show ?thesis by auto
  next
    case (Cons x ys)
    have "ring_holds (2 ^ c) q (x # ys)" using Suc.prems Cons by simp
    from ring.deq_some [OF this] obtain q1 where "pop (q_head q) q = Inr (Some x, q1)" "ring_holds (2 ^ c) q1 ys"
      by blast
    with Suc.IH [of q1 ys] Cons show ?thesis by auto
  qed
qed simp

text \<open>
  A retry loop that does not run out of answers either appends the event behind what the consumer
  has left, or gives up because the flag is set; what was there is what was popped and what is left.
\<close>

lemma push_loop_holds:
  assumes "ring_holds (2 ^ c) q xs" "push_loop env e q = Inr (ok, es, q')"
  shows "\<exists>ys. ring_holds (2 ^ c) q' ys \<and> (if ok then xs @ [e] else xs) = es @ ys"
  using assms
proof (induction env arbitrary: q xs es)
  case (Cons x env)
  obtain pops stop where x: "x = (pops, stop)" by (cases x)
  obtain q1 where q1: "consume pops q = Inr (take pops xs, q1)" "ring_holds (2 ^ c) q1 (drop pops xs)"
    using consume_holds [OF Cons.prems(1)] by blast
  show ?case
  proof (cases "length (drop pops xs) < 2 ^ c - 1")
    case True
    then obtain q2 where "push (q_tail q1) e q1 = (True, q2)" "ring_holds (2 ^ c) q2 (drop pops xs @ [e])"
      using ring.enq_room [OF q1(2)] by blast
    with q1(1) Cons.prems(2) x show ?thesis by (auto intro!: exI [of _ "drop pops xs @ [e]"])
  next
    case False
    then have "length (drop pops xs) = 2 ^ c - 1" using ring.holds_cap [OF q1(2)] by simp
    then obtain q2 where q2: "push (q_tail q1) e q1 = (False, q2)" "ring_holds (2 ^ c) q2 (drop pops xs)"
      using ring.enq_full [OF q1(2)] by blast
    show ?thesis
    proof (cases stop)
      case True
      with q1(1) q2 Cons.prems(2) x show ?thesis by (auto intro!: exI [of _ "drop pops xs"])
    next
      case nstop: False
      then obtain es' where l: "push_loop env e q2 = Inr (ok, es', q')" "es = take pops xs @ es'"
        using q1(1) q2(1) Cons.prems(2) x by (auto simp: bind_res_Inr_iff)
      from Cons.IH [OF q2(2) l(1)] obtain ys where
        "ring_holds (2 ^ c) q' ys" "(if ok then drop pops xs @ [e] else drop pops xs) = es' @ ys" by blast
      moreover have "xs @ [e] = take pops xs @ drop pops xs @ [e]" "xs = take pops xs @ drop pops xs" by simp_all
      ultimately show ?thesis unfolding l(2) append_assoc by metis
    qed
  qed
qed simp

text \<open>The events pushed so far, shard by shard: those the consumer popped, then those in the ring.\<close>

definition shards_hold :: "'f venue_feed \<Rightarrow> (nat \<Rightarrow> mbo_event list) \<Rightarrow> bool" where
  "shards_hold vf pushed \<longleftrightarrow> length (vf_producers vf) = 4
     \<and> (\<forall>i < 4. \<exists>xs. ring_holds QUEUE_SIZE (vf_producers vf ! i) xs \<and> pushed i = vf_popped vf i @ xs)"

lemma QUEUE_SIZE_power: "QUEUE_SIZE = 2 ^ 12"
  by (simp add: QUEUE_SIZE_def)

lemma shards_hold_upd:
  assumes "shards_hold vf pushed" "ring_holds QUEUE_SIZE q xs" "\<And>j. j \<noteq> i \<Longrightarrow> pushed' j = pushed j" "i < 4"
    "vf_producers vf' = (vf_producers vf)[i := q]" "vf_popped vf' = (vf_popped vf)(i := es)" "pushed' i = es @ xs"
  shows "shards_hold vf' pushed'"
proof -
  have len: "length (vf_producers vf) = 4" using assms(1) by (simp add: shards_hold_def)
  have "\<exists>xs. ring_holds QUEUE_SIZE (vf_producers vf' ! j) xs \<and> pushed' j = vf_popped vf' j @ xs" if "j < 4" for j
    using assms that len by (cases "j = i") (auto simp: shards_hold_def)
  with assms(5) len show ?thesis by (simp add: shards_hold_def)
qed

lemma on_event_shards:
  assumes "shards_hold vf pushed" "on_event penv e vf = Inr vf'" "vf_stop_requested vf = False"
    "i = shard_of e" "stamped = e\<lparr>ev_rx_tsc := vf_rx_tsc vf\<rparr>"
  shows "if vf_stop_requested vf' then shards_hold vf' pushed else shards_hold vf' (pushed(i := pushed i @ [stamped]))"
    "vf_framer vf' = vf_framer vf" "vf_rx_tsc vf' = vf_rx_tsc vf" "vf_log vf' = vf_log vf"
proof -
  have i: "shard_of stamped = i" "i < 4" using assms(4,5) shard_less by (simp_all add: shard_of_def)
  let ?q = "vf_producers vf ! i"
  have len: "length (vf_producers vf) = 4" using assms(1) by (simp add: shards_hold_def)
  obtain xs where h: "ring_holds (2 ^ 12) ?q xs" and p: "pushed i = vf_popped vf i @ xs"
    using assms(1) i(2) unfolding shards_hold_def QUEUE_SIZE_power by blast
  consider (room) q where "push (q_tail ?q) stamped ?q = (True, q)" "ring_holds (2 ^ 12) q (xs @ [stamped])"
    | (full) q where "push (q_tail ?q) stamped ?q = (False, q)" "ring_holds (2 ^ 12) q xs"
    using ring.enq_room [OF h, of stamped] ring.enq_full [OF h, of stamped] ring.holds_cap [OF h]
    by (auto simp only: le_less)
  then have "(if vf_stop_requested vf' then shards_hold vf' pushed else shards_hold vf' (pushed(i := pushed i @ [stamped])))
    \<and> vf_framer vf' = vf_framer vf \<and> vf_rx_tsc vf' = vf_rx_tsc vf \<and> vf_log vf' = vf_log vf"
  proof cases
    case room
    then have v: "vf' = vf\<lparr>vf_calls := vf_calls vf + 1, vf_producers := (vf_producers vf)[i := q]\<rparr>"
      using assms(2,5) i len by (simp add: on_event_def Let_def)
    have "shards_hold vf' (pushed(i := pushed i @ [stamped]))"
      using room(2) v p by (intro shards_hold_upd [OF assms(1), where xs = "xs @ [stamped]" and q = q and i = i and es = "vf_popped vf i"])
        (simp_all add: QUEUE_SIZE_power i(2))
    with v assms(3) show ?thesis by simp
  next
    case full
    obtain ok es q2 where loop: "push_loop (penv (vf_calls vf)) stamped q = Inr (ok, es, q2)"
      using assms(2,5) i len full(1) by (auto simp: on_event_def Let_def bind_res_Inr_iff)
    define vf1 where "vf1 = vf\<lparr>vf_calls := vf_calls vf + 1, vf_queue_full := vf_queue_full vf + 1, vf_producers := (vf_producers vf)[i := q2],
        vf_popped := (vf_popped vf)(i := vf_popped vf i @ es)\<rparr>"
    have v: "vf' = (if ok then vf1 else vf_stop vf1)"
      using assms(2,5) i len full(1) loop by (cases ok) (simp_all add: on_event_def Let_def vf1_def)
    obtain ys where ys: "ring_holds (2 ^ 12) q2 ys" "(if ok then xs @ [stamped] else xs) = es @ ys"
      using push_loop_holds [OF full(2) loop] by blast
    have upd: "shards_hold vf' pushed'" if "\<And>j. j \<noteq> i \<Longrightarrow> pushed' j = pushed j" "pushed' i = vf_popped vf i @ es @ ys" for pushed'
      using that v ys(1) by (intro shards_hold_upd [OF assms(1), where xs = ys and q = q2 and i = i and es = "vf_popped vf i @ es"])
        (simp_all add: QUEUE_SIZE_power i(2) vf1_def vf_stop_def)
    have "shards_hold vf' (if ok then pushed(i := pushed i @ [stamped]) else pushed)"
      using p ys(2) by (intro upd) (auto split: if_splits)
    with v assms(3) show ?thesis by (cases ok) (simp_all add: vf1_def vf_stop_def)
  qed
  then show "if vf_stop_requested vf' then shards_hold vf' pushed else shards_hold vf' (pushed(i := pushed i @ [stamped]))"
    "vf_framer vf' = vf_framer vf" "vf_rx_tsc vf' = vf_rx_tsc vf" "vf_log vf' = vf_log vf"
    by blast+
qed

subsection \<open>Nothing is lost on the way to the rings\<close>

text \<open>The consumers keep up: during every wait one pops at some point, and nobody sets the stop flag.\<close>

definition consumers_live :: "(nat \<Rightarrow> (nat \<times> bool) list) \<Rightarrow> bool" where
  "consumers_live penv \<longleftrightarrow> (\<forall>n. (\<exists>p. 0 < p \<and> (p, False) \<in> set (penv n)) \<and> (\<forall>p. (p, True) \<notin> set (penv n)))"

lemma push_loop_live:
  assumes "ring_holds (2 ^ c) q xs" "1 < c" "0 < p" "(p, False) \<in> set env" "\<forall>p. (p, True) \<notin> set env"
  shows "\<exists>es q'. push_loop env e q = Inr (True, es, q')"
  using assms(1,4,5)
proof (induction env arbitrary: q xs)
  case (Cons x env)
  obtain pops where x: "x = (pops, False)" using Cons.prems(3) by (cases x; cases "snd x") auto
  obtain q1 where q1: "consume pops q = Inr (take pops xs, q1)" "ring_holds (2 ^ c) q1 (drop pops xs)"
    using consume_holds [OF Cons.prems(1)] by blast
  show ?case
  proof (cases "length (drop pops xs) < 2 ^ c - 1")
    case True
    then obtain q2 where "push (q_tail q1) e q1 = (True, q2)" using ring.enq_room [OF q1(2)] by blast
    with q1(1) x show ?thesis by simp
  next
    case False
    then have full: "length (drop pops xs) = 2 ^ c - 1" using ring.holds_cap [OF q1(2)] by simp
    have "(2 :: nat) ^ 1 < 2 ^ c" using assms(2) by (intro power_strict_increasing) auto
    then have "pops = 0" using full ring.holds_cap [OF Cons.prems(1)] by auto
    then have p: "(p, False) \<in> set env" using Cons.prems(2) x assms(3) by auto
    obtain q2 where q2: "push (q_tail q1) e q1 = (False, q2)" "ring_holds (2 ^ c) q2 (drop pops xs)"
      using ring.enq_full [OF q1(2) full] by blast
    from Cons.IH [OF q2(2) p] Cons.prems(3) q1(1) q2(1) x show ?thesis by auto
  qed
qed simp

text \<open>What the feed keeps while it handles messages.\<close>

definition unstamp :: "mbo_event \<Rightarrow> mbo_event" where
  "unstamp e = e\<lparr>ev_rx_tsc := 0\<rparr>"

definition events_of :: "byte list list \<Rightarrow> mbo_event list" where
  "events_of msgs = concat (map (\<lambda>b. case itch_parse b of Inl _ \<Rightarrow> [] | Inr evs \<Rightarrow> evs) msgs)"

definition vf_holds :: "'f venue_feed \<Rightarrow> mbo_event list \<Rightarrow> bool" where
  "vf_holds vf evs \<longleftrightarrow> (\<exists>pushed. shards_hold vf pushed
     \<and> (\<forall>i < 4. map unstamp (pushed i) = filter (\<lambda>e. shard_of e = i) (map unstamp evs)))"

lemma shard_of_unstamp [simp]: "shard_of (unstamp e) = shard_of e" "unstamp (e\<lparr>ev_rx_tsc := t\<rparr>) = unstamp e"
  by (simp_all add: shard_of_def unstamp_def)

lemma on_event_live:
  assumes "vf_holds vf evs" "\<not> vf_stop_requested vf" "consumers_live penv"
  shows "\<exists>vf'. on_event penv e vf = Inr vf' \<and> vf_holds vf' (evs @ [e]) \<and> \<not> vf_stop_requested vf'
    \<and> vf_framer vf' = vf_framer vf \<and> vf_log vf' = vf_log vf"
proof -
  obtain pushed where p: "shards_hold vf pushed"
    "\<forall>i < 4. map unstamp (pushed i) = filter (\<lambda>e. shard_of e = i) (map unstamp evs)"
    using assms(1) by (auto simp: vf_holds_def)
  let ?st = "e\<lparr>ev_rx_tsc := vf_rx_tsc vf\<rparr>" and ?i = "shard_of e"
  have i: "shard_of ?st = ?i" "?i < 4" using shard_less by (simp_all add: shard_of_def)
  have len: "length (vf_producers vf) = 4" using p(1) by (simp add: shards_hold_def)
  let ?q = "vf_producers vf ! ?i"
  obtain xs where h: "ring_holds (2 ^ 12) ?q xs"
    using p(1) i(2) unfolding shards_hold_def QUEUE_SIZE_power by blast
  have "\<exists>vf'. on_event penv e vf = Inr vf' \<and> \<not> vf_stop_requested vf'"
  proof (cases "push (q_tail ?q) ?st ?q")
    case (Pair ok q)
    show ?thesis
    proof (cases ok)
      case True
      with Pair i len assms(2) show ?thesis by (simp add: on_event_def Let_def)
    next
      case False
      obtain n where n: "0 < n" "(n, False) \<in> set (penv (vf_calls vf))" "\<forall>p. (p, True) \<notin> set (penv (vf_calls vf))"
        using assms(3) unfolding consumers_live_def by blast
      have "length (xs) = 2 ^ 12 - 1"
        using ring.enq_room [OF h, of ?st] ring.holds_cap [OF h] Pair False by fastforce
      then obtain q' where "push (q_tail ?q) ?st ?q = (False, q')" "ring_holds (2 ^ 12) q' (xs)"
        using ring.enq_full [OF h] by blast
      then have "ring_holds (2 ^ 12) q (xs)" using Pair by simp
      from push_loop_live [OF this _ n, of ?st] obtain es q2 where "push_loop (penv (vf_calls vf)) ?st q = Inr (True, es, q2)" by auto
      with Pair False i len assms(2) show ?thesis by (simp add: on_event_def Let_def)
    qed
  qed
  then obtain vf' where vf': "on_event penv e vf = Inr vf'" "\<not> vf_stop_requested vf'" by blast
  note sh = on_event_shards [OF p(1) vf'(1) _ refl refl]
  have "shards_hold vf' (pushed(?i := pushed ?i @ [?st]))" using sh(1) assms(2) vf'(2) by simp
  moreover have "\<forall>j < 4. map unstamp ((pushed(?i := pushed ?i @ [?st])) j) = filter (\<lambda>e. shard_of e = j) (map unstamp (evs @ [e]))"
    using p(2) by auto
  ultimately have "vf_holds vf' (evs @ [e])" unfolding vf_holds_def by blast
  with vf' sh(2,4) assms(2) show ?thesis by simp
qed

lemma on_events_live:
  assumes "vf_holds vf evs" "\<not> vf_stop_requested vf" "consumers_live penv"
  shows "\<exists>vf'. on_events penv es vf = Inr vf' \<and> vf_holds vf' (evs @ es) \<and> \<not> vf_stop_requested vf'
    \<and> vf_framer vf' = vf_framer vf \<and> vf_log vf' = vf_log vf"
  using assms(1,2)
proof (induction es arbitrary: vf evs)
  case (Cons e es)
  obtain vf1 where 1: "on_event penv e vf = Inr vf1" "vf_holds vf1 (evs @ [e])" "\<not> vf_stop_requested vf1"
    "vf_framer vf1 = vf_framer vf" "vf_log vf1 = vf_log vf"
    using on_event_live [OF Cons.prems assms(3)] by blast
  from Cons.IH [OF 1(2,3)] 1 show ?case by simp
qed simp

lemma events_of_append [simp]: "events_of (xs @ ys) = events_of xs @ events_of ys"
  by (simp add: events_of_def)

lemma on_messages_live:
  assumes "vf_holds vf (events_of (vf_log vf))" "\<not> vf_stop_requested vf" "consumers_live penv"
    "\<forall>b \<in> set msgs. \<exists>evs. itch_parse b = Inr evs"
  shows "\<exists>vf'. on_messages penv msgs vf = Inr vf' \<and> vf_holds vf' (events_of (vf_log vf')) \<and> \<not> vf_stop_requested vf'
    \<and> vf_framer vf' = vf_framer vf \<and> vf_log vf' = vf_log vf @ msgs"
  using assms(1,2,4)
proof (induction msgs arbitrary: vf)
  case (Cons b msgs)
  obtain evs where evs: "itch_parse b = Inr evs" using Cons.prems(3) by auto
  let ?vf = "vf\<lparr>vf_log := vf_log vf @ [b]\<rparr>"
  have "vf_holds ?vf (events_of (vf_log vf))" "\<not> vf_stop_requested ?vf"
    using Cons.prems(1,2) by (simp_all add: vf_holds_def shards_hold_def)
  from on_events_live [OF this assms(3), of evs] obtain vf1 where
    1: "on_events penv evs ?vf = Inr vf1" "vf_holds vf1 (events_of (vf_log vf) @ evs)" "\<not> vf_stop_requested vf1"
    "vf_framer vf1 = vf_framer vf" "vf_log vf1 = vf_log vf @ [b]" by auto
  have "events_of (vf_log vf1) = events_of (vf_log vf) @ evs" using 1(5) evs by (simp add: events_of_def)
  with 1(2) have h: "vf_holds vf1 (events_of (vf_log vf1))" by simp
  from Cons.IH [OF h 1(3)] Cons.prems(3) 1 evs show ?case by (simp add: on_message_def)
qed simp

subsection \<open>A feed over MoldUDP64\<close>

text \<open>A gap is reported by a framer that knows its session.\<close>

lemma mold_gap_session:
  assumes "mold_feed d f = Inr (Inl Gap, out, f')" "follows session m f'"
  shows "mold_session f' = session"
proof -
  have "HEADER_SIZE \<le> length d"
  proof (rule ccontr)
    assume "\<not> HEADER_SIZE \<le> length d"
    then have "mold_feed d f = Inr (Inl Malformed, [], f)" by (intro mold_feed_short) simp
    with assms(1) show False by simp
  qed
  with mold_feed_spec [of d f] assms(1) have "mf_has_session f'" by auto
  with assms(2) show ?thesis by (simp add: follows_def mold_session_def)
qed

text \<open>The messages of the session the feed has handled, and where its framer is.\<close>

definition vf_follows :: "byte list \<Rightarrow> (nat \<Rightarrow> byte list) \<Rightarrow> mold_framer venue_feed \<Rightarrow> bool" where
  "vf_follows session stream vf \<longleftrightarrow> (\<exists>m. follows session m (vf_framer vf) \<and> vf_log vf = map stream [1..<m])
     \<and> vf_holds vf (events_of (vf_log vf))"

lemma vf_follows_fields [simp]:
  "vf_follows session stream (vf_stop vf) \<longleftrightarrow> vf_follows session stream vf"
  "vf_follows session stream (vf\<lparr>vf_malformed := n\<rparr>) \<longleftrightarrow> vf_follows session stream vf"
  "vf_follows session stream (vf\<lparr>vf_rx_tsc := t\<rparr>) \<longleftrightarrow> vf_follows session stream vf"
  "vf_follows session stream (vf\<lparr>vf_finished := b\<rparr>) \<longleftrightarrow> vf_follows session stream vf"
  by (simp_all add: vf_follows_def vf_holds_def shards_hold_def vf_stop_def)

context gap_recoverer
begin

lemma take_messages:
  assumes "vf_follows session stream vf" "follows session e (vf_framer vf)" "\<not> vf_stop_requested vf" "consumers_live penv"
    "\<forall>i. \<exists>evs. itch_parse (stream i) = Inr evs" "e \<le> m" "follows session m f'"
    "vf_log vf0 = vf_log vf" "vf_producers vf0 = vf_producers vf \<and> vf_popped vf0 = vf_popped vf" "vf_stop_requested vf0 = vf_stop_requested vf" "vf_framer vf0 = f'"
  shows "\<exists>vf'. on_messages penv (map stream [e..<m]) vf0 = Inr vf' \<and> vf_follows session stream vf'
    \<and> \<not> vf_stop_requested vf' \<and> vf_framer vf' = f'"
proof -
  obtain e' where e': "follows session e' (vf_framer vf)" "vf_log vf = map stream [1..<e']"
    using assms(1) by (auto simp: vf_follows_def)
  have "e' = e" using e'(1) assms(2) by (metis follows_def unat_u64_of_nat)
  then have log: "vf_log vf0 = map stream [1..<e]" using e'(2) assms(8) by simp
  have h: "vf_holds vf0 (events_of (vf_log vf0))"
    using assms(1,8,9) by (simp add: vf_follows_def vf_holds_def shards_hold_def)
  have st: "\<not> vf_stop_requested vf0" using assms(3,10) by simp
  have pa: "\<forall>b \<in> set (map stream [e..<m]). \<exists>evs. itch_parse b = Inr evs" using assms(5) by auto
  obtain vf' where v: "on_messages penv (map stream [e..<m]) vf0 = Inr vf'" "vf_holds vf' (events_of (vf_log vf'))"
    "\<not> vf_stop_requested vf'" "vf_framer vf' = vf_framer vf0" "vf_log vf' = vf_log vf0 @ map stream [e..<m]"
    using on_messages_live [OF h st assms(4) pa] by blast
  have "1 \<le> e" using assms(2) by (simp add: follows_def)
  then have "[1..<m] = [1..<e] @ [e..<m]" using assms(6) by (metis le_Suc_ex upt_add_eq_append)
  then have "vf_log vf' = map stream [1..<m]" using v(5) log by simp
  with v assms(7,11) show ?thesis by (auto simp: vf_follows_def)
qed

lemma vf_feed_follows:
  assumes "vf_follows session stream vf" "\<not> vf_stop_requested vf" "consumers_live penv"
    "\<forall>i. \<exists>evs. itch_parse (stream i) = Inr evs" "from_session session stream buf"
  shows "\<exists>r vf'. vf_feed penv mold_feed buf vf = Inr (r, vf') \<and> vf_follows session stream vf' \<and> \<not> vf_stop_requested vf'
    \<and> (r = Inl Gap \<longrightarrow> mold_session (vf_framer vf') = session)"
proof -
  obtain e where e: "follows session e (vf_framer vf)" using assms(1) by (auto simp: vf_follows_def)
  obtain r m f' where f': "mold_feed buf (vf_framer vf) = Inr (r, map stream [e..<m], f')" "e \<le> m" "follows session m f'"
    using mold_feed_from_session [where stream = stream, OF assms(5) e session_size stream_size] by blast
  from take_messages [OF assms(1) e assms(2,3,4) f'(2,3), of "vf\<lparr>vf_framer := f'\<rparr>"] obtain vf' where
    "on_messages penv (map stream [e..<m]) (vf\<lparr>vf_framer := f'\<rparr>) = Inr vf'" "vf_follows session stream vf'"
    "\<not> vf_stop_requested vf'" "vf_framer vf' = f'" by auto
  with f' mold_gap_session [of buf "vf_framer vf" "map stream [e..<m]" f' session m] show ?thesis
    by (auto simp: vf_feed_def)
qed

lemma vf_recover_follows:
  assumes "vf_follows session stream vf" "\<not> vf_stop_requested vf" "consumers_live penv"
    "\<forall>i. \<exists>evs. itch_parse (stream i) = Inr evs" "mold_session (vf_framer vf) = session"
  shows "\<exists>r vf'. vf_recover penv rcv vf = Inr (r, vf') \<and> vf_follows session stream vf' \<and> \<not> vf_stop_requested vf'"
proof -
  obtain e where e: "follows session e (vf_framer vf)" using assms(1) by (auto simp: vf_follows_def)
  obtain r m f' where f': "rcv (vf_recoveries vf) (vf_framer vf) = Inr (r, map stream [e..<m], f')" "e \<le> m" "follows session m f'"
    using rcv_ok [OF e assms(5)] by blast
  from take_messages [OF assms(1) e assms(2,3,4) f'(2,3), of "vf\<lparr>vf_framer := f', vf_recoveries := vf_recoveries vf + 1\<rparr>"]
  obtain vf' where "on_messages penv (map stream [e..<m]) (vf\<lparr>vf_framer := f', vf_recoveries := vf_recoveries vf + 1\<rparr>) = Inr vf'"
    "vf_follows session stream vf'" "\<not> vf_stop_requested vf'" by auto
  with f' show ?thesis by (auto simp: vf_recover_def)
qed

lemma sequenced_error_loop_follows:
  assumes "vf_follows session stream vf" "\<not> vf_stop_requested vf" "consumers_live penv"
    "\<forall>i. \<exists>evs. itch_parse (stream i) = Inr evs" "from_session session stream buf"
    "er = Gap \<longrightarrow> mold_session (vf_framer vf) = session"
  shows "\<exists>vf'. sequenced_error_loop penv mold_feed rcv buf n er vf = Inr vf' \<and> vf_follows session stream vf'"
  using assms(1,2,6)
proof (induction n arbitrary: er vf)
  case (Suc n)
  show ?case
  proof (cases er)
    case Gap
    obtain r vf1 where 1: "vf_recover penv rcv vf = Inr (r, vf1)" "vf_follows session stream vf1" "\<not> vf_stop_requested vf1"
      using vf_recover_follows [OF Suc.prems(1,2) assms(3,4)] Suc.prems(3) Gap by auto
    obtain r2 vf2 where 2: "vf_feed penv mold_feed buf vf1 = Inr (r2, vf2)" "vf_follows session stream vf2" "\<not> vf_stop_requested vf2"
      "r2 = Inl Gap \<longrightarrow> mold_session (vf_framer vf2) = session"
      using vf_feed_follows [OF 1(2,3) assms(3,4,5)] by blast
    show ?thesis
    proof (cases r)
      case (Inl e)
      with 1 Gap show ?thesis by simp
    next
      case (Inr u)
      with 1 2 Gap Suc.IH [OF 2(2,3)] show ?thesis by (cases r2) auto
    qed
  qed (use Suc.prems in simp_all)
qed simp

lemma vf_run_follows:
  assumes "vf_follows session stream vf" "consumers_live penv" "\<forall>i. \<exists>evs. itch_parse (stream i) = Inr evs"
    "\<forall>b. Inr b \<in> snd ` set inputs \<longrightarrow> from_session session stream b"
  shows "\<exists>vf'. vf_run penv mold_feed (on_sequenced_error penv mold_feed rcv) inputs vf = Inr vf' \<and> vf_follows session stream vf'"
  using assms(1,4)
proof (induction inputs arbitrary: vf)
  case (Cons x inputs)
  obtain tsc buf where x: "x = (tsc, buf)" by (cases x)
  have rest: "\<forall>b. Inr b \<in> snd ` set inputs \<longrightarrow> from_session session stream b" using Cons.prems(2) by auto
  show ?case
  proof (cases "vf_stop_requested vf")
    case True
    with Cons.prems(1) x show ?thesis by simp
  next
    case False
    have "\<exists>vf1. run_iteration penv mold_feed (on_sequenced_error penv mold_feed rcv) tsc buf vf = Inr vf1 \<and> vf_follows session stream vf1"
    proof (cases buf)
      case (Inl st)
      with Cons.prems(1) show ?thesis by (cases st) (simp_all add: run_iteration_def)
    next
      case (Inr b)
      have b: "from_session session stream b" using Cons.prems(2) x Inr by auto
      let ?vf = "vf\<lparr>vf_rx_tsc := tsc\<rparr>"
      have v: "vf_follows session stream ?vf" "\<not> vf_stop_requested ?vf" using Cons.prems(1) False by simp_all
      obtain r vf1 where 1: "vf_feed penv mold_feed b ?vf = Inr (r, vf1)" "vf_follows session stream vf1" "\<not> vf_stop_requested vf1"
        "r = Inl Gap \<longrightarrow> mold_session (vf_framer vf1) = session"
        using vf_feed_follows [OF v assms(2,3) b] by blast
      show ?thesis
      proof (cases r)
        case err: (Inl e)
        have "e = Gap \<longrightarrow> mold_session (vf_framer vf1) = session" using 1(4) err by simp
        from sequenced_error_loop_follows [OF 1(2,3) assms(2,3) b this] 1(1) err Inr show ?thesis
          by (simp add: run_iteration_def on_sequenced_error_def)
      next
        case (Inr u)
        with 1 \<open>buf = Inr b\<close> show ?thesis by (simp add: run_iteration_def)
      qed
    qed
    then obtain vf1 where "run_iteration penv mold_feed (on_sequenced_error penv mold_feed rcv) tsc buf vf = Inr vf1"
      "vf_follows session stream vf1" by blast
    with Cons.IH [OF _ rest, of vf1] False x show ?thesis by simp
  qed
qed simp

end

subsection \<open>A feed over a stream\<close>

lemma vf_holds_fields [simp]:
  "vf_holds (vf\<lparr>vf_rx_tsc := t\<rparr>) evs \<longleftrightarrow> vf_holds vf evs" "vf_holds (vf\<lparr>vf_framer := f\<rparr>) evs \<longleftrightarrow> vf_holds vf evs"
  "vf_holds (vf\<lparr>vf_finished := b\<rparr>) evs \<longleftrightarrow> vf_holds vf evs" "vf_holds (vf_stop vf) evs \<longleftrightarrow> vf_holds vf evs"
  by (simp_all add: vf_holds_def shards_hold_def vf_stop_def)

lemma feed_until_ConsE:
  assumes "feed_until feed (d # ds) f = Inr (Inr (), msgs, f')"
  obtains msgs1 f1 msgs2 where "feed d f = Inr (Inr (), msgs1, f1)" "msgs = msgs1 @ msgs2"
    "feed_until feed ds f1 = Inr (Inr (), msgs2, f')"
proof (cases "feed d f")
  case (Inl e)
  with assms show ?thesis by simp
next
  case (Inr t)
  obtain r msgs1 f1 where t: "t = (r, msgs1, f1)" by (cases t)
  show ?thesis
  proof (cases r)
    case (Inl e)
    with assms Inr t show ?thesis by simp
  next
    case ok: (Inr u)
    with assms Inr t that show ?thesis by (auto simp: bind_res_Inr_iff)
  qed
qed

text \<open>Buffers the framer accepts are handled one by one.\<close>

lemma vf_run_accepted:
  assumes "consumers_live penv" "feed_until feed ds (vf_framer vf) = Inr (Inr (), msgs, f')" "\<forall>b \<in> set msgs. \<exists>evs. itch_parse b = Inr evs"
    "vf_holds vf (events_of (vf_log vf))" "\<not> vf_stop_requested vf" "map snd ins = map Inr ds"
  shows "\<exists>vf'. vf_run penv feed on_error (ins @ rest) vf = vf_run penv feed on_error rest vf'
    \<and> vf_framer vf' = f' \<and> vf_log vf' = vf_log vf @ msgs \<and> vf_holds vf' (events_of (vf_log vf')) \<and> \<not> vf_stop_requested vf'"
  using assms(2-)
proof (induction ds arbitrary: vf msgs ins)
  case Nil
  then show ?case by auto
next
  case (Cons d ds)
  obtain tsc ins' where ins: "ins = (tsc, Inr d) # ins'" "map snd ins' = map Inr ds"
    using Cons.prems(5) by (cases ins) auto
  obtain msgs1 f1 msgs2 where 1: "feed d (vf_framer vf) = Inr (Inr (), msgs1, f1)" "msgs = msgs1 @ msgs2"
    "feed_until feed ds f1 = Inr (Inr (), msgs2, f')"
    using feed_until_ConsE [OF Cons.prems(1)] by blast
  let ?vf = "vf\<lparr>vf_rx_tsc := tsc, vf_framer := f1\<rparr>"
  have h: "vf_holds ?vf (events_of (vf_log ?vf))" "\<not> vf_stop_requested ?vf" using Cons.prems(3,4) by simp_all
  obtain vf1 where vf1: "on_messages penv msgs1 ?vf = Inr vf1" "vf_holds vf1 (events_of (vf_log vf1))" "\<not> vf_stop_requested vf1"
    "vf_framer vf1 = f1" "vf_log vf1 = vf_log vf @ msgs1"
    using on_messages_live [OF h assms(1), of msgs1] Cons.prems(2) 1(2) by auto
  have "run_iteration penv feed on_error tsc (Inr d) vf = Inr vf1"
    using 1(1) vf1(1) by (simp add: run_iteration_def vf_feed_def)
  then have "vf_run penv feed on_error (ins @ rest) vf = vf_run penv feed on_error (ins' @ rest) vf1"
    using ins(1) Cons.prems(4) by simp
  moreover have "\<exists>vf'. vf_run penv feed on_error (ins' @ rest) vf1 = vf_run penv feed on_error rest vf'
      \<and> vf_framer vf' = f' \<and> vf_log vf' = vf_log vf1 @ msgs2 \<and> vf_holds vf' (events_of (vf_log vf')) \<and> \<not> vf_stop_requested vf'"
    by (rule Cons.IH) (use 1 vf1 Cons.prems(2) ins(2) in auto)
  ultimately show ?case using vf1(5) 1(2) by auto
qed

text \<open>The rings of a new feed.\<close>

lemma new_feed_holds: "vf_holds (VenueFeed f (replicate 4 (SPSCQueue QUEUE_SIZE))) []"
proof -
  have "ring_holds QUEUE_SIZE (SPSCQueue QUEUE_SIZE) ([] :: mbo_event list)"
    by (rule SPSCQueue_holds [OF QUEUE_SIZE_power])
  then show ?thesis by (auto simp: vf_holds_def shards_hold_def VenueFeed_def intro!: exI [of _ "\<lambda>_. []"])
qed

text \<open>
  What reached the shards: what the consumer of a shard popped, followed by what is in its ring, are the events of
  the messages that belong to the shard, each once and in order.
\<close>

definition shards_got :: "'f venue_feed \<Rightarrow> byte list list \<Rightarrow> bool" where
  "shards_got vf msgs \<longleftrightarrow> (\<forall>i < 4. \<exists>xs. ring_holds QUEUE_SIZE (vf_producers vf ! i) xs
     \<and> map unstamp (vf_popped vf i @ xs) = filter (\<lambda>e. shard_of e = i) (map unstamp (events_of msgs)))"

lemma vf_holds_got: "vf_holds vf (events_of msgs) \<Longrightarrow> shards_got vf msgs"
  unfolding vf_holds_def shards_got_def shards_hold_def by metis

text \<open>A feed that has pushed nothing has got nothing.\<close>

lemma shards_got_new:
  assumes "shards_got (VenueFeed f (replicate 4 (SPSCQueue QUEUE_SIZE))) msgs"
  shows "events_of msgs = []"
proof -
  have "filter (\<lambda>e. shard_of e = i) (map unstamp (events_of msgs)) = []" if i: "i < 4" for i
  proof -
    obtain xs where xs: "ring_holds QUEUE_SIZE (SPSCQueue QUEUE_SIZE) xs" "map unstamp xs = filter (\<lambda>e. shard_of e = i) (map unstamp (events_of msgs))"
      using assms i unfolding shards_got_def by (auto simp: VenueFeed_def)
    then show ?thesis using SPSCQueue_holds_nothing [OF xs(1)] by (simp add: QUEUE_SIZE_def)
  qed
  then have none: "\<forall>x \<in> set (events_of msgs). shard_of x \<noteq> i" if "i < 4" for i using that by (simp add: filter_empty_conv)
  have "x \<notin> set (events_of msgs)" for x using none [OF shard_less [of x]] by blast
  then show ?thesis by (cases "events_of msgs") auto
qed

text \<open>The whole run, from a new feed.\<close>

lemma vf_run_session:
  assumes "length session = SESSION_SIZE" "\<forall>i. length (stream i) < 2 ^ 16" "\<forall>i. \<exists>evs. itch_parse (stream i) = Inr evs"
    "consumers_live penv" "\<forall>k. network_ok session stream cfg (renv k)"
    "\<forall>b. Inr b \<in> snd ` set inputs \<longrightarrow> from_session session stream b"
  shows "\<exists>vf. vf_run penv mold_feed (on_sequenced_error penv mold_feed (mold_recover cfg renv)) inputs
      (VenueFeed (MoldUDP64Framer junk) (replicate 4 (SPSCQueue QUEUE_SIZE))) = Inr vf
    \<and> vf_log vf = map stream [1..<unat (mold_expected (vf_framer vf))] \<and> shards_got vf (vf_log vf)"
proof -
  let ?vf = "VenueFeed (MoldUDP64Framer junk) (replicate 4 (SPSCQueue QUEUE_SIZE))"
  have start: "vf_follows session stream ?vf"
    using new_feed_holds follows_init unfolding vf_follows_def
    by (auto simp: VenueFeed_def events_of_def intro!: exI [of _ 1])
  obtain vf where vf: "vf_run penv mold_feed (on_sequenced_error penv mold_feed (mold_recover cfg renv)) inputs ?vf = Inr vf"
    "vf_follows session stream vf"
    using gap_recoverer.vf_run_follows [OF mold_recoverer [OF assms(1,2,5)] start assms(4,3,6)] by blast
  then obtain m where m: "follows session m (vf_framer vf)" "vf_log vf = map stream [1..<m]" by (auto simp: vf_follows_def)
  then have "unat (mold_expected (vf_framer vf)) = m" by (simp add: follows_def mold_expected_def unat_u64_of_nat)
  with vf m show ?thesis by (auto simp: vf_follows_def vf_holds_got)
qed

subsection \<open>Properties\<close>

text \<open>
  C3. From the network to the rings, exactly once: a feed over MoldUDP64 with the retransmit
  recoverer, on datagrams of a session that are lost, repeated, reordered or cut short on the
  multicast and on the recovery side, never faults or hangs; when it is done the messages handed
  to the parser are the first messages of the session, each once and in order, and every event
  in them was pushed once, in order, to the ring of its shard: what the consumer popped and what is still
  in the ring are together exactly the events of the shard. The consumers keep up, every message of
  the session is well-formed, and the clock reaches the deadline of every recovery.
\<close>

theorem venue_exactly_once:
  assumes "length session = SESSION_SIZE" "\<forall>i. length (stream i) < 2 ^ 16" "\<forall>i. \<exists>evs. itch_parse (stream i) = Inr evs"
    "consumers_live penv" "\<forall>k. network_ok session stream cfg (renv k)"
    "\<forall>b. Inr b \<in> snd ` set inputs \<longrightarrow> from_session session stream b"
  shows "\<exists>vf. vf_run penv mold_feed (on_sequenced_error penv mold_feed (mold_recover cfg renv)) inputs
      (VenueFeed (MoldUDP64Framer junk) (replicate 4 (SPSCQueue QUEUE_SIZE))) = Inr vf
    \<and> vf_log vf = map stream [1..<unat (mold_expected (vf_framer vf))] \<and> shards_got vf (vf_log vf)"
  by (rule vf_run_session [OF assms])

definition sample_msg :: "byte list" where
  "sample_msg = itch_encode (OrderDelete \<lparr>od_stock_locate = 7, od_tracking_number = 0, od_timestamp = 9, od_order_ref_num = 11\<rparr>)"

lemma sample_msg_ok: "\<exists>evs. itch_parse sample_msg = Inr evs" "length sample_msg = 19"
proof -
  have "parse_msg (sample_msg @ []) = Inr (OrderDelete \<lparr>od_stock_locate = 7, od_tracking_number = 0, od_timestamp = 9, od_order_ref_num = 11\<rparr>, [])"
    unfolding sample_msg_def by (rule parse_msg_encode) simp
  then show "\<exists>evs. itch_parse sample_msg = Inr evs" by (simp add: itch_parse_def)
  show "length sample_msg = 19" by (simp add: sample_msg_def)
qed

theorem venue_exactly_once_witness:
  "\<exists>vf. vf_run (\<lambda>_. [(1, False)]) mold_feed (on_sequenced_error (\<lambda>_. [(1, False)]) mold_feed
        (mold_recover \<lparr>rc_max_attempts = 3, rc_max_per_request = 2, rc_max_recovery_time = 5\<rparr>
          (\<lambda>_. \<lparr>re_now = (\<lambda>j. j), re_send = (\<lambda>_. Inr ()), re_next = (\<lambda>_ _. Inl WouldBlock)\<rparr>)))
      [(0, Inr (mold_packet (replicate 10 65) (\<lambda>_. sample_msg) 1 2)), (1, Inl WouldBlock)]
      (VenueFeed (MoldUDP64Framer []) (replicate 4 (SPSCQueue QUEUE_SIZE))) = Inr vf
    \<and> vf_log vf = map (\<lambda>_. sample_msg) [1..<unat (mold_expected (vf_framer vf))] \<and> shards_got vf (vf_log vf)"
proof (rule venue_exactly_once [where session = "replicate 10 65"])
  show "\<forall>i. length sample_msg < 2 ^ 16" "\<forall>i. \<exists>evs. itch_parse sample_msg = Inr evs" using sample_msg_ok by simp_all
  show "consumers_live (\<lambda>_. [(1, False)])" by (simp add: consumers_live_def)
  show "\<forall>k. network_ok (replicate 10 65) (\<lambda>_. sample_msg) \<lparr>rc_max_attempts = 3, rc_max_per_request = 2, rc_max_recovery_time = 5\<rparr>
      \<lparr>re_now = \<lambda>j. j, re_send = \<lambda>_. Inr (), re_next = \<lambda>_ _. Inl WouldBlock\<rparr>"
    by (auto simp: network_ok_def intro: exI [of _ 4])
  have "from_session (replicate 10 65) t (mold_packet (replicate 10 65) t 1 2)" for t
    using from_session.packet [of 1 2 "replicate 10 65" t "length (mold_packet (replicate 10 65) t 1 2)"] by simp
  then show "\<forall>b. Inr b \<in> snd ` set [(0, Inr (mold_packet (replicate 10 65) (\<lambda>_. sample_msg) 1 2)), (1, Inl WouldBlock)]
      \<longrightarrow> from_session (replicate 10 65) (\<lambda>_. sample_msg) b" by auto
qed (simp add: SESSION_SIZE_def)

text \<open>
  From a file to the rings: a feed over a file of well-formed messages, read in slices
  through the length prefix framer, handles every message of the file once and in order, pushes
  every event to the ring of its shard, and finishes at the end of the file.
\<close>

lemma venue_file:
  assumes "length junk = MaxPayload + 2" "\<forall>m \<in> set msgs. length m \<le> MaxPayload \<and> length m < 2 ^ 16"
    "FileSource (File (concat (map msg_block msgs))) = Inr s" "\<forall>m \<in> set msgs. \<exists>evs. itch_parse m = Inr evs"
    "consumers_live penv" "map snd inputs = map Inr (file_slices s)"
  shows "\<exists>vf. vf_run penv (lpf_feed True MaxPayload) on_stream_error (inputs @ [(tsc, Inl Eof)])
      (VenueFeed (LengthPrefixFramer junk) (replicate 4 (SPSCQueue QUEUE_SIZE))) = Inr vf
    \<and> vf_finished vf \<and> vf_log vf = msgs \<and> shards_got vf msgs"
proof -
  let ?vf = "VenueFeed (LengthPrefixFramer junk) (replicate 4 (SPSCQueue QUEUE_SIZE))"
  obtain f' where f': "feed_until (lpf_feed True MaxPayload) (file_slices s) (LengthPrefixFramer junk) = Inr (Inr (), msgs, f')"
    using file_feed_messages [OF assms(1-3)] by blast
  have h: "vf_holds ?vf (events_of (vf_log ?vf))" "\<not> vf_stop_requested ?vf" "vf_log ?vf = []" "vf_framer ?vf = LengthPrefixFramer junk"
    using new_feed_holds by (simp_all add: VenueFeed_def events_of_def)
  obtain vf where vf: "vf_run penv (lpf_feed True MaxPayload) on_stream_error (inputs @ [(tsc, Inl Eof)]) ?vf
      = vf_run penv (lpf_feed True MaxPayload) on_stream_error [(tsc, Inl Eof)] vf"
    "vf_log vf = msgs" "vf_holds vf (events_of msgs)" "\<not> vf_stop_requested vf"
    using vf_run_accepted [OF assms(5) _ assms(4) h(1,2) assms(6), of "lpf_feed True MaxPayload" f' on_stream_error "[(tsc, Inl Eof)]"]
      f' h(3,4) by auto
  let ?last = "vf_stop vf\<lparr>vf_finished := True\<rparr>"
  have "vf_run penv (lpf_feed True MaxPayload) on_stream_error [(tsc, Inl Eof)] vf = Inr ?last"
    using vf(4) by (simp add: run_iteration_def vf_stop_def)
  moreover have "shards_got ?last msgs" using vf(3) by (intro vf_holds_got) simp
  ultimately show ?thesis using vf(1,2) by (auto simp: vf_stop_def)
qed

lemma venue_file_witness:
  "\<exists>s vf. FileSource (File (concat (map msg_block [sample_msg]))) = Inr s
    \<and> vf_run (\<lambda>_. [(1, False)]) (lpf_feed True 50) on_stream_error (map (\<lambda>b. (0, Inr b)) (file_slices s) @ [(1, Inl Eof)])
      (VenueFeed (LengthPrefixFramer (replicate 52 0)) (replicate 4 (SPSCQueue QUEUE_SIZE))) = Inr vf \<and> vf_log vf = [sample_msg]"
proof -
  let ?bs = "concat (map msg_block [sample_msg])"
  have "length ?bs = 21" using sample_msg_ok(2) by simp
  then have ne: "?bs \<noteq> []" by (metis list.size(3) zero_neq_numeral)
  let ?s = "\<lparr>fs_start = True, fs_remaining = ?bs, fs_length = length ?bs\<rparr>"
  have s: "FileSource (File ?bs) = Inr ?s" unfolding FileSource_def file_env.case using ne by (simp only: if_False)
  have live: "consumers_live (\<lambda>_. [(1, False)])" by (simp add: consumers_live_def)
  have "map snd (map (\<lambda>b. (0, Inr b)) (file_slices ?s)) = map Inr (file_slices ?s)" by simp
  from venue_file [OF _ _ s _ live this, of "replicate 52 0" 50 1] s sample_msg_ok show ?thesis by auto
qed

end
