(* ===== verification/Thread_Config.thy ===== *)
theory Thread_Config
  imports Std_Text Venue_Feed
begin

section \<open>Thread configuration (src/pipeline/thread\_config.hpp, src/common/threading.hpp)\<close>

text \<open>
  The file that assigns the feed thread and the builder threads to cores. Parsing works on the
  text of the file; the exceptions are values, with the line they report. The answers of the
  file system and of \<open>sysconf\<close> are arguments.
\<close>

subsection \<open>Data\<close>

datatype sched_policy = FIFO | NORMAL

record thread_config =
  tc_feed_core :: u32
  tc_builder_cores :: "u32 list"
  tc_sched :: sched_policy

datatype config_error = Open_Failed | Expected_Role nat | Duplicate_Sched nat | Invalid_Sched nat | Invalid_Core nat
  | Duplicate_Feed nat | Too_Many_Builders nat | Unknown_Role nat | Read_Error | Missing_Feed | Builder_Entries nat
  | No_Cpus | No_Such_Core u32 | Core_Used_Twice u32

subsection \<open>Text\<close>

text \<open>\<open>find_first_not_of\<close>, \<open>find_last_not_of\<close>, \<open>find\<close> of a character, \<open>substr\<close>, \<open>std::getline\<close>.\<close>

definition find_first_not_of :: "char list \<Rightarrow> string \<Rightarrow> nat option" where
  "find_first_not_of ws s = (let n = length (takeWhile (\<lambda>c. c \<in> set ws) s) in if n = length s then None else Some n)"

definition find_last_not_of :: "char list \<Rightarrow> string \<Rightarrow> nat option" where
  "find_last_not_of ws s =
     (let n = length (takeWhile (\<lambda>c. c \<in> set ws) (rev s)) in if n = length s then None else Some (length s - 1 - n))"

definition find_char :: "char \<Rightarrow> string \<Rightarrow> nat option" where
  "find_char c s = (let n = length (takeWhile (\<lambda>x. x \<noteq> c) s) in if n = length s then None else Some n)"

definition substr :: "string \<Rightarrow> nat \<Rightarrow> nat \<Rightarrow> string" where
  "substr s pos n = take n (drop pos s)"

function getlines :: "string \<Rightarrow> string list" where
  "getlines s = (if s = [] then []
     else takeWhile (\<lambda>c. c \<noteq> CHR 0x0A) s # getlines (drop 1 (dropWhile (\<lambda>c. c \<noteq> CHR 0x0A) s)))"
  by pat_completeness auto
termination
proof (relation "measure length")
  fix s :: string
  assume "s \<noteq> []"
  then have "0 < length s" by simp
  with length_dropWhile_le [of "\<lambda>c. c \<noteq> CHR 0x0A" s] have "length (dropWhile (\<lambda>c. c \<noteq> CHR 0x0A) s) - 1 < length s" by linarith
  then show "(drop 1 (dropWhile (\<lambda>c. c \<noteq> CHR 0x0A) s), s) \<in> measure length" by simp
qed simp

declare getlines.simps [simp del]

definition trim :: "string \<Rightarrow> string" where
  "trim s = (let ws = [CHR '' '', CHR 0x09, CHR 0x0D] in
     case find_first_not_of ws s of
       None \<Rightarrow> []
     | Some first \<Rightarrow>
         (case find_last_not_of ws s of None \<Rightarrow> [] | Some lst \<Rightarrow> substr s first (lst - first + 1)))"

subsection \<open>Parsing\<close>

record config_entries =
  ce_feed :: "u32 option"
  ce_sched :: "sched_policy option"
  ce_builders :: "u32 list"

text \<open>One line, and the loop over the lines.\<close>

definition parse_line :: "nat \<Rightarrow> string \<Rightarrow> config_entries \<Rightarrow> config_error + config_entries" where
  "parse_line lineno line es =
     (let entry = trim line in
      if entry = [] \<or> hd entry = CHR ''#'' then Inr es
      else case find_char (CHR '':'') entry of
        None \<Rightarrow> Inl (Expected_Role lineno)
      | Some colon \<Rightarrow>
          let role = trim (substr entry 0 colon); val = trim (drop (colon + 1) entry) in
          if role = ''sched'' then
            if ce_sched es \<noteq> None then Inl (Duplicate_Sched lineno)
            else if val = ''fifo'' then Inr (es\<lparr>ce_sched := Some FIFO\<rparr>)
            else if val = ''normal'' then Inr (es\<lparr>ce_sched := Some NORMAL\<rparr>)
            else Inl (Invalid_Sched lineno)
          else
            let (rest, ec, core) = from_chars val (0 :: u32) in
            if val = [] \<or> ec \<noteq> Errc_Ok \<or> rest \<noteq> [] then Inl (Invalid_Core lineno)
            else if role = ''feed'' then
              if ce_feed es \<noteq> None then Inl (Duplicate_Feed lineno) else Inr (es\<lparr>ce_feed := Some core\<rparr>)
            else if role = ''builder'' then
              if length (ce_builders es) = unat N_SHARDS then Inl (Too_Many_Builders lineno)
              else Inr (es\<lparr>ce_builders := ce_builders es @ [core]\<rparr>)
            else Inl (Unknown_Role lineno))"

fun parse_lines :: "nat \<Rightarrow> string list \<Rightarrow> config_entries \<Rightarrow> config_error + config_entries" where
  "parse_lines lineno [] es = Inr es"
| "parse_lines lineno (line # lines) es =
     (case parse_line (lineno + 1) line es of
        Inl e \<Rightarrow> Inl e
      | Inr es \<Rightarrow> parse_lines (lineno + 1) lines es)"

definition no_entries :: config_entries where
  "no_entries = \<lparr>ce_feed = None, ce_sched = None, ce_builders = []\<rparr>"

text \<open>\<open>bad\<close>: reading the file failed after the text given.\<close>

definition config_parse :: "string \<Rightarrow> bool \<Rightarrow> config_error + thread_config" where
  "config_parse text bad = (case parse_lines 0 (getlines text) no_entries of
      Inl e \<Rightarrow> Inl e
    | Inr es \<Rightarrow>
        if bad then Inl Read_Error
        else case ce_feed es of
          None \<Rightarrow> Inl Missing_Feed
        | Some feed \<Rightarrow>
            if length (ce_builders es) \<noteq> unat N_SHARDS then Inl (Builder_Entries (length (ce_builders es)))
            else Inr \<lparr>tc_feed_core = feed, tc_builder_cores = ce_builders es,
                      tc_sched = (case ce_sched es of None \<Rightarrow> FIFO | Some p \<Rightarrow> p)\<rparr>)"

subsection \<open>Validation\<close>

fun adjacent_find :: "'a list \<Rightarrow> 'a option" where
  "adjacent_find (a # b # xs) = (if a = b then Some a else adjacent_find (b # xs))"
| "adjacent_find _ = None"

fun check_cores :: "u32 \<Rightarrow> u32 list \<Rightarrow> config_error + unit" where
  "check_cores n_cpus [] = Inr ()"
| "check_cores n_cpus (core # cores) = (if core \<ge> n_cpus then Inl (No_Such_Core core) else check_cores n_cpus cores)"

definition validate :: "int \<Rightarrow> thread_config \<Rightarrow> config_error + unit" where
  "validate configured cfg =
     (if configured \<le> 0 then Inl No_Cpus
      else let cores = tc_feed_core cfg # tc_builder_cores cfg in
        case check_cores (word_of_int configured) cores of
          Inl e \<Rightarrow> Inl e
        | Inr _ \<Rightarrow> (case adjacent_find (sort cores) of None \<Rightarrow> Inr () | Some core \<Rightarrow> Inl (Core_Used_Twice core)))"

text \<open>\<open>file\<close>: the text and whether reading failed, \<open>None\<close> if it cannot be opened.\<close>

definition config_load :: "(string \<times> bool) option \<Rightarrow> int \<Rightarrow> config_error + thread_config" where
  "config_load file configured = (case file of
      None \<Rightarrow> Inl Open_Failed
    | Some (text, bad) \<Rightarrow>
        (case config_parse text bad of
           Inl e \<Rightarrow> Inl e
         | Inr cfg \<Rightarrow> (case validate configured cfg of Inl e \<Rightarrow> Inl e | Inr _ \<Rightarrow> Inr cfg)))"

subsection \<open>Trimming and lines\<close>

definition blank :: "string \<Rightarrow> bool" where
  "blank s \<longleftrightarrow> set s \<subseteq> {CHR '' '', CHR 0x09, CHR 0x0D}"

definition solid :: "string \<Rightarrow> bool" where
  "solid s \<longleftrightarrow> s \<noteq> [] \<and> \<not> blank [hd s] \<and> \<not> blank [last s]"

lemma takeWhile_blank:
  assumes "blank p" "s \<noteq> []" "\<not> blank [hd s]"
  shows "takeWhile (\<lambda>c. c \<in> set [CHR '' '', CHR 0x09, CHR 0x0D]) (p @ s) = p"
proof -
  have "takeWhile (\<lambda>c. c \<in> set [CHR '' '', CHR 0x09, CHR 0x0D]) s = []" using assms(2,3) by (cases s) (auto simp: blank_def)
  with assms(1) show ?thesis by (subst takeWhile_append2) (auto simp: blank_def)
qed

lemma trim_pad:
  assumes "blank p" "solid s" "blank q"
  shows "trim (p @ s @ q) = s"
proof -
  let ?ws = "[CHR '' '', CHR 0x09, CHR 0x0D]"
  have s: "s \<noteq> []" "\<not> blank [hd s]" "\<not> blank [last s]" using assms(2) by (simp_all add: solid_def)
  have "takeWhile (\<lambda>c. c \<in> set ?ws) (p @ s @ q) = p"
    using s assms(1) by (intro takeWhile_blank) simp_all
  then have 1: "find_first_not_of ?ws (p @ s @ q) = Some (length p)"
    unfolding find_first_not_of_def Let_def using s(1) by simp
  have "takeWhile (\<lambda>c. c \<in> set ?ws) (rev q @ (rev s @ rev p)) = rev q"
    using s assms(3) by (intro takeWhile_blank) (simp_all add: blank_def hd_rev hd_append)
  then have "takeWhile (\<lambda>c. c \<in> set ?ws) (rev (p @ s @ q)) = rev q" by simp
  then have 2: "find_last_not_of ?ws (p @ s @ q) = Some (length p + length s - 1)"
    unfolding find_last_not_of_def Let_def using s(1) by simp
  show ?thesis using s(1) unfolding trim_def Let_def 1 2 by (simp add: substr_def Suc_diff_le le_diff_conv2 Suc_le_eq)
qed

lemma trim_blank: "blank p \<Longrightarrow> trim p = []"
proof -
  let ?ws = "[CHR '' '', CHR 0x09, CHR 0x0D]"
  assume "blank p"
  then have "takeWhile (\<lambda>c. c \<in> set ?ws) p = p" by (subst takeWhile_eq_all_conv) (auto simp: blank_def)
  then have "find_first_not_of ?ws p = None" unfolding find_first_not_of_def Let_def by (simp only: if_True refl)
  then show ?thesis unfolding trim_def Let_def by simp
qed

lemma trim_solid: "solid s \<Longrightarrow> trim s = s"
  using trim_pad [of "[]" s "[]"] by (simp add: blank_def)

lemma trim_hd:
  assumes "blank p" "\<not> blank [c]"
  shows "trim (p @ c # t) = [] \<or> hd (trim (p @ c # t)) = c"
proof -
  let ?ws = "[CHR '' '', CHR 0x09, CHR 0x0D]"
  have "takeWhile (\<lambda>c. c \<in> set ?ws) (p @ c # t) = p" using assms by (intro takeWhile_blank) simp_all
  then have "find_first_not_of ?ws (p @ c # t) = Some (length p)" unfolding find_first_not_of_def Let_def by simp
  then show ?thesis unfolding trim_def Let_def by (auto simp: substr_def split: option.splits)
qed

lemma getlines_line:
  assumes "CHR 0x0A \<notin> set l"
  shows "getlines (l @ CHR 0x0A # s) = l # getlines s"
proof -
  have "takeWhile (\<lambda>c. c \<noteq> CHR 0x0A) (l @ CHR 0x0A # s) = l" "dropWhile (\<lambda>c. c \<noteq> CHR 0x0A) (l @ CHR 0x0A # s) = CHR 0x0A # s"
    using assms by (auto simp: takeWhile_append dropWhile_append)
  then show ?thesis by (subst getlines.simps) simp
qed

definition file_text :: "string list \<Rightarrow> string" where
  "file_text ls = concat (map (\<lambda>l. l @ [CHR 0x0A]) ls)"

lemma getlines_text: "\<forall>l \<in> set ls. CHR 0x0A \<notin> set l \<Longrightarrow> getlines (file_text ls) = ls"
proof (induction ls)
  case Nil
  then show ?case by (simp add: file_text_def getlines.simps)
next
  case (Cons l ls)
  then show ?case by (simp add: file_text_def getlines_line)
qed

subsection \<open>What a line says\<close>

datatype config_item = Nothing | Feed u32 | Builder u32 | Sched sched_policy

fun item_role :: "config_item \<Rightarrow> string" where
  "item_role (Feed _) = ''feed''"
| "item_role (Builder _) = ''builder''"
| "item_role (Sched _) = ''sched''"
| "item_role Nothing = []"

fun item_value :: "config_item \<Rightarrow> string" where
  "item_value (Feed c) = dec_string (unat c)"
| "item_value (Builder c) = dec_string (unat c)"
| "item_value (Sched FIFO) = ''fifo''"
| "item_value (Sched NORMAL) = ''normal''"
| "item_value Nothing = []"

text \<open>
  A line says nothing if it is blank or a comment, and otherwise a role and a valueue around a
  colon, with blanks anywhere between them.
\<close>

definition says :: "string \<Rightarrow> config_item \<Rightarrow> bool" where
  "says line item \<longleftrightarrow> CHR 0x0A \<notin> set line \<and>
     (if item = Nothing then blank line \<or> (\<exists>p t. blank p \<and> line = p @ CHR ''#'' # t)
      else \<exists>p q r s. blank p \<and> blank q \<and> blank r \<and> blank s
        \<and> line = p @ item_role item @ q @ CHR '':'' # r @ item_value item @ s)"

fun item_entries :: "config_item \<Rightarrow> config_entries \<Rightarrow> config_entries" where
  "item_entries (Feed c) es = es\<lparr>ce_feed := Some c\<rparr>"
| "item_entries (Builder c) es = es\<lparr>ce_builders := ce_builders es @ [c]\<rparr>"
| "item_entries (Sched p) es = es\<lparr>ce_sched := Some p\<rparr>"
| "item_entries Nothing es = es"

fun item_fits :: "config_item \<Rightarrow> config_entries \<Rightarrow> bool" where
  "item_fits (Feed c) es \<longleftrightarrow> ce_feed es = None"
| "item_fits (Builder c) es \<longleftrightarrow> length (ce_builders es) < 4"
| "item_fits (Sched p) es \<longleftrightarrow> ce_sched es = None"
| "item_fits Nothing es \<longleftrightarrow> True"

lemma digit_not_blank: "is_digit c \<Longrightarrow> \<not> blank [c]"
  by (auto simp: blank_def is_digit_def)

lemma solid_dec_string [simp]: "solid (dec_string n)"
  using dec_string_digits [of _ n] digit_not_blank by (simp add: solid_def)

lemma solid_words: "solid ''feed''" "solid ''builder''" "solid ''sched''" "solid ''fifo''" "solid ''normal''"
  by (simp_all add: solid_def blank_def)

lemma item_solid:
  assumes "item \<noteq> Nothing"
  shows "solid (item_role item)" "solid (item_value item)" "CHR '':'' \<notin> set (item_role item)" "hd (item_role item) \<noteq> CHR ''#''"
    "item_value item \<noteq> []"
  using assms solid_words by (cases item rule: item_value.cases; simp)+

text \<open>The parts of a line with a role and a value.\<close>

lemma entry_parts:
  assumes "blank p" "blank q" "blank r" "blank s" "solid role" "solid val" "CHR '':'' \<notin> set role" "hd role \<noteq> CHR ''#''"
  defines "line \<equiv> p @ role @ q @ CHR '':'' # r @ val @ s"
  shows "\<exists>colon. trim line \<noteq> [] \<and> hd (trim line) \<noteq> CHR ''#'' \<and> find_char (CHR '':'') (trim line) = Some colon
    \<and> trim (substr (trim line) 0 colon) = role \<and> trim (drop (colon + 1) (trim line)) = val"
proof -
  let ?e = "role @ q @ CHR '':'' # r @ val"
  have ne: "role \<noteq> []" "val \<noteq> []" using assms(5,6) by (simp_all add: solid_def)
  have "solid ?e" using assms(5,6) ne by (simp add: solid_def)
  from trim_pad [OF assms(1) this assms(4)] have t: "trim line = ?e" by (simp add: line_def)
  have nc: "CHR '':'' \<notin> set (role @ q)" using assms(2,7) by (auto simp: blank_def)
  then have "takeWhile (\<lambda>x. x \<noteq> CHR '':'') ((role @ q) @ CHR '':'' # r @ val) = role @ q"
    by (subst takeWhile_append2) auto
  then have f: "find_char (CHR '':'') ?e = Some (length (role @ q))" by (simp add: find_char_def)
  have "trim (role @ q) = role" using trim_pad [of "[]" role q] assms(2,5) by (simp add: blank_def)
  moreover have "trim (r @ val) = val" using trim_pad [of r val "[]"] assms(3,6) by (simp add: blank_def)
  ultimately show ?thesis
    using t f ne(1) assms(8) by (intro exI [of _ "length (role @ q)"]) (simp add: substr_def)
qed

lemma parse_line_item:
  assumes "says line item" "item_fits item es"
  shows "parse_line n line es = Inr (item_entries item es)"
proof (cases "item = Nothing")
  case True
  with assms(1) consider "blank line" | p t where "blank p" "line = p @ CHR ''#'' # t" by (auto simp: says_def)
  then have "trim line = [] \<or> hd (trim line) = CHR ''#''"
  proof cases
    case 1
    then show ?thesis by (simp add: trim_blank)
  next
    case 2
    then show ?thesis using trim_hd [of p "CHR ''#''" t] by (auto simp: blank_def)
  qed
  with True show ?thesis by (auto simp: parse_line_def Let_def)
next
  case False
  then obtain p q r s where l: "blank p" "blank q" "blank r" "blank s" "line = p @ item_role item @ q @ CHR '':'' # r @ item_value item @ s"
    using assms(1) by (auto simp: says_def)
  from entry_parts [OF l(1-4) item_solid(1,2,3,4) [OF False]] l(5) obtain colon where
    c: "trim line \<noteq> []" "hd (trim line) \<noteq> CHR ''#''" "find_char (CHR '':'') (trim line) = Some colon"
      "trim (substr (trim line) 0 colon) = item_role item" "trim (drop (colon + 1) (trim line)) = item_value item" by auto
  have core: "from_chars (dec_string (unat (w :: u32))) (0 :: u32) = ([], Errc_Ok, w)" for w
    using from_chars_dec_string [of "unat w" "0 :: u32"] unsigned_less [where 'a = nat, of w] by simp
  show ?thesis
    using assms(2) c item_solid(5) [OF False] False unfolding parse_line_def Let_def
    by (cases item rule: item_value.cases) (simp_all add: core N_SHARDS_def)
qed

subsection \<open>Files\<close>

definition item_feeds :: "config_item list \<Rightarrow> u32 list" where
  "item_feeds items = concat (map (\<lambda>i. case i of Feed c \<Rightarrow> [c] | _ \<Rightarrow> []) items)"

definition item_builders :: "config_item list \<Rightarrow> u32 list" where
  "item_builders items = concat (map (\<lambda>i. case i of Builder c \<Rightarrow> [c] | _ \<Rightarrow> []) items)"

definition item_scheds :: "config_item list \<Rightarrow> sched_policy list" where
  "item_scheds items = concat (map (\<lambda>i. case i of Sched p \<Rightarrow> [p] | _ \<Rightarrow> []) items)"

text \<open>Lines that say at most one feed core, one policy and four builder cores in all.\<close>

lemma parse_lines_items:
  assumes "list_all2 says lines items"
    "length (item_feeds items) + (if ce_feed es = None then 0 else 1) \<le> 1"
    "length (item_scheds items) + (if ce_sched es = None then 0 else 1) \<le> 1"
    "length (ce_builders es) + length (item_builders items) \<le> 4"
  shows "parse_lines n lines es = Inr
    \<lparr>ce_feed = (if item_feeds items = [] then ce_feed es else Some (hd (item_feeds items))),
     ce_sched = (if item_scheds items = [] then ce_sched es else Some (hd (item_scheds items))),
     ce_builders = ce_builders es @ item_builders items\<rparr>"
  using assms
proof (induction lines items arbitrary: n es rule: list_all2_induct)
  case Nil
  then show ?case by (simp add: item_feeds_def item_scheds_def item_builders_def)
next
  case (Cons line lines item items)
  have fits: "item_fits item es"
    using Cons.prems by (cases item) (auto simp: item_feeds_def item_scheds_def item_builders_def split: if_splits)
  have "parse_lines n (line # lines) es = parse_lines (n + 1) lines (item_entries item es)"
    using parse_line_item [OF Cons.hyps(1) fits] by simp
  also have "\<dots> = Inr \<lparr>ce_feed = (if item_feeds items = [] then ce_feed (item_entries item es) else Some (hd (item_feeds items))),
     ce_sched = (if item_scheds items = [] then ce_sched (item_entries item es) else Some (hd (item_scheds items))),
     ce_builders = ce_builders (item_entries item es) @ item_builders items\<rparr>"
    using Cons.prems by (intro Cons.IH; cases item) (auto simp: item_feeds_def item_scheds_def item_builders_def split: if_splits)
  also have "\<dots> = Inr \<lparr>ce_feed = (if item_feeds (item # items) = [] then ce_feed es else Some (hd (item_feeds (item # items)))),
     ce_sched = (if item_scheds (item # items) = [] then ce_sched es else Some (hd (item_scheds (item # items)))),
     ce_builders = ce_builders es @ item_builders (item # items)\<rparr>"
    using Cons.prems by (cases item) (auto simp: item_feeds_def item_scheds_def item_builders_def split: if_splits)
  finally show ?case .
qed

subsection \<open>Validation\<close>

lemma check_cores_iff: "check_cores n cores = Inr () \<longleftrightarrow> (\<forall>c \<in> set cores. c < n)"
  by (induction n cores rule: check_cores.induct) (auto simp: not_le)

lemma adjacent_find_sorted: "sorted xs \<Longrightarrow> adjacent_find xs = None \<longleftrightarrow> distinct xs"
proof (induction xs rule: adjacent_find.induct)
  case (1 a b xs)
  have "distinct (a # b # xs) \<longleftrightarrow> a \<noteq> b \<and> distinct (b # xs)" using "1.prems" by auto
  with 1 show ?case by simp
qed simp_all

lemma validate_iff:
  "validate configured cfg = Inr () \<longleftrightarrow> 0 < configured
    \<and> (\<forall>c \<in> set (tc_feed_core cfg # tc_builder_cores cfg). c < word_of_int configured)
    \<and> distinct (tc_feed_core cfg # tc_builder_cores cfg)"
proof -
  let ?cs = "tc_feed_core cfg # tc_builder_cores cfg"
  have "adjacent_find (sort ?cs) = None \<longleftrightarrow> distinct ?cs" using adjacent_find_sorted [of "sort ?cs"] by (simp del: sort_key_simps)
  moreover have "check_cores (word_of_int configured) ?cs = Inr () \<or> (\<exists>e. check_cores (word_of_int configured) ?cs = Inl e)"
    by (cases "check_cores (word_of_int configured) ?cs") auto
  ultimately show ?thesis
    using check_cores_iff [of "word_of_int configured" ?cs] unfolding validate_def Let_def
    by (auto split: option.splits simp del: check_cores.simps sort_key_simps distinct.simps)
qed

lemma config_parse_builders:
  assumes "config_parse text bad = Inr cfg"
  shows "length (tc_builder_cores cfg) = 4"
  using assms by (auto simp: config_parse_def N_SHARDS_def split: sum.splits if_splits option.splits)

lemma config_load_items:
  assumes "list_all2 says lines items" "item_feeds items = [feed]" "item_builders items = builders" "length builders = 4"
    "item_scheds items = scheds" "length scheds \<le> 1" "0 < n" "\<forall>c \<in> set (feed # builders). c < word_of_int n"
    "distinct (feed # builders)"
  shows "config_load (Some (file_text lines, False)) n =
    Inr \<lparr>tc_feed_core = feed, tc_builder_cores = builders, tc_sched = (if scheds = [] then FIFO else hd scheds)\<rparr>"
proof -
  let ?cfg = "\<lparr>tc_feed_core = feed, tc_builder_cores = builders, tc_sched = (if scheds = [] then FIFO else hd scheds)\<rparr>"
  have "\<forall>l \<in> set lines. CHR 0x0A \<notin> set l"
    using assms(1) by (auto simp: list_all2_conv_all_nth in_set_conv_nth says_def)
  then have "getlines (file_text lines) = lines" by (rule getlines_text)
  moreover have "parse_lines 0 lines no_entries = Inr \<lparr>ce_feed = Some feed,
      ce_sched = (if scheds = [] then None else Some (hd scheds)), ce_builders = builders\<rparr>"
    using parse_lines_items [OF assms(1), of no_entries 0] assms(2-6) by (simp add: no_entries_def)
  ultimately have "config_parse (file_text lines) False = Inr ?cfg"
    using assms(4) by (simp add: config_parse_def N_SHARDS_def)
  moreover have "validate n ?cfg = Inr ()" using assms(7-9) by (simp add: validate_iff)
  ultimately show ?thesis by (simp add: config_load_def)
qed

text \<open>An example file.\<close>

lemma sample_says: "list_all2 says [''# cores'', ''feed: 2'', ''builder:3'', ''builder: 4 '', '' builder : 5'', ''builder: 6'']
    [Nothing, Feed 2, Builder 3, Builder 4, Builder 5, Builder 6]"
proof -
  have dec: "dec_string n = [digit_char n]" if "n < 10" for n using that by (simp add: dec_string.simps)
  have dg: "digit_char 2 = CHR ''2''" "digit_char 3 = CHR ''3''" "digit_char 4 = CHR ''4''" "digit_char 5 = CHR ''5''" "digit_char 6 = CHR ''6''"
    by code_simp+
  have "\<exists>p t. blank p \<and> ''# cores'' = p @ CHR ''#'' # t"
    by (intro exI [of _ "[]"] exI [of _ "'' cores''"]) (simp add: blank_def)
  then have 1: "says ''# cores'' Nothing" by (simp add: says_def)
  have 2: "says (p @ item_role i @ q @ CHR '':'' # r @ item_value i @ s) i"
    if "blank p" "blank q" "blank r" "blank s" "i \<noteq> Nothing" "CHR 0x0A \<notin> set (p @ item_role i @ q @ CHR '':'' # r @ item_value i @ s)"
    for p q r s i using that unfolding says_def by auto
  show ?thesis
    using 1 2 [of "[]" "[]" "'' ''" "[]" "Feed 2"] 2 [of "[]" "[]" "[]" "[]" "Builder 3"] 2 [of "[]" "[]" "'' ''" "'' ''" "Builder 4"]
      2 [of "'' ''" "'' ''" "'' ''" "[]" "Builder 5"] 2 [of "[]" "[]" "'' ''" "[]" "Builder 6"]
    by (simp add: dec blank_def dg)
qed

subsection \<open>Properties\<close>

text \<open>
  C39. The configuration is read as written: a file whose lines say one feed core, four builder
  cores and at most one policy, in any order, with comments, blank lines, Windows line ends and
  blanks around the words, is read as exactly that configuration (the default policy is FIFO),
  if the cores exist and no core is given twice.
\<close>

theorem config_reads:
  assumes "list_all2 says lines items" "item_feeds items = [feed]" "item_builders items = builders" "length builders = 4"
    "item_scheds items = scheds" "length scheds \<le> 1" "0 < n" "\<forall>c \<in> set (feed # builders). c < word_of_int n"
    "distinct (feed # builders)"
  shows "config_load (Some (file_text lines, False)) n =
    Inr \<lparr>tc_feed_core = feed, tc_builder_cores = builders, tc_sched = (if scheds = [] then FIFO else hd scheds)\<rparr>"
  by (rule config_load_items [OF assms])

theorem config_reads_witness:
  "config_load (Some (file_text [''# cores'', ''feed: 2'', ''builder:3'', ''builder: 4 '', '' builder : 5'', ''builder: 6''], False)) 8
    = Inr \<lparr>tc_feed_core = 2, tc_builder_cores = [3, 4, 5, 6], tc_sched = FIFO\<rparr>"
  using config_reads [OF sample_says, of 2 "[3, 4, 5, 6]" "[]" 8]
  by (simp add: item_feeds_def item_builders_def item_scheds_def)

text \<open>
  A configuration that loads is one the threads can be started with, whatever the file
  holds: it has a builder core for every shard, every core exists on the machine, and no two
  threads share a core.
\<close>

lemma config_load_sound:
  assumes "config_load file n = Inr cfg"
  shows "length (tc_builder_cores cfg) = 4 \<and> distinct (tc_feed_core cfg # tc_builder_cores cfg) \<and> 0 < n
    \<and> (\<forall>c \<in> set (tc_feed_core cfg # tc_builder_cores cfg). c < word_of_int n)"
proof -
  obtain inp bad where p: "config_parse inp bad = Inr cfg" "validate n cfg = Inr ()"
    using assms by (auto simp: config_load_def split: option.splits prod.splits sum.splits)
  with config_parse_builders [OF p(1)] show ?thesis by (auto simp: validate_iff)
qed

lemma config_load_sound_witness:
  "\<exists>cfg. config_load (Some (file_text [''# cores'', ''feed: 2'', ''builder:3'', ''builder: 4 '', '' builder : 5'', ''builder: 6''], False)) 8 = Inr cfg
    \<and> distinct (tc_feed_core cfg # tc_builder_cores cfg)"
proof -
  have "config_load (Some (file_text [''# cores'', ''feed: 2'', ''builder:3'', ''builder: 4 '', '' builder : 5'', ''builder: 6''], False)) 8
      = Inr \<lparr>tc_feed_core = 2, tc_builder_cores = [3, 4, 5, 6], tc_sched = FIFO\<rparr>"
    using config_load_items [OF sample_says, of 2 "[3, 4, 5, 6]" "[]" 8]
    by (simp add: item_feeds_def item_builders_def item_scheds_def)
  from config_load_sound [OF this] this show ?thesis by blast
qed

end
