(* ===== verification/Pipeline.thy ===== *)
theory Pipeline
  imports Venue_Feed
begin

section \<open>Starting and stopping the pipeline (src/pipeline/feed\_handler.hpp, src/main.cpp)\<close>

text \<open>
  The threads of the program: the main thread, which loads the configuration, creates the feed
  thread and one builder thread per shard, waits until all have reported, releases them, and at
  the end stops and joins them; and these threads, which report through the latches and the
  counter of \<open>StartGate\<close>. Each atomic operation on the latches, flags and rings is one step;
  a ring is the number of events in it. Thread 0 is the feed thread, thread \<open>i + 1\<close> the
  builder of the shard \<open>i\<close>.
\<close>

subsection \<open>States\<close>

datatype thread_pc = Not_Created | Begun | Failing | Waiting | Looping | Draining | Ended

text \<open>
  Where the main thread is: in \<open>init_and_pin_threads\<close> (\<open>Load\<close> to \<open>Release\<close>, with
  \<open>Abort\<close> the steps of \<open>stop_fn\<close>), in \<open>run_until_done\<close> (\<open>Poll\<close>), in \<open>stop_and_wait\<close>.
\<close>

datatype main_pc = Load | Create nat | Await_Ready | Release | Abort nat | Poll
  | Stop_Feed | Join_Feed | Stop_Builder nat | Join_Builder nat | Exit nat

record pipeline =
  pl_main :: main_pc
  pl_threads :: "thread_pc list"
  pl_ready :: nat
  pl_go :: nat
  pl_failed :: nat
  pl_feed_stop :: bool
  pl_builder_stop :: "bool list"
  pl_finished :: bool
  pl_rings :: "nat list"
  pl_start_ok :: bool

definition shards :: nat where
  "shards = unat N_SHARDS"

definition StartPipeline :: pipeline where
  "StartPipeline = \<lparr>pl_main = Load, pl_threads = replicate (shards + 1) Not_Created, pl_ready = shards + 1, pl_go = 1, pl_failed = 0,
     pl_feed_stop = False, pl_builder_stop = replicate shards False, pl_finished = False, pl_rings = replicate shards 0,
     pl_start_ok = False\<rparr>"

subsection \<open>Steps\<close>

text \<open>The main thread in \<open>init_and_pin_threads\<close>: the steps of \<open>start\<close>, with \<open>stop_fn\<close>.\<close>

inductive init_step :: "pipeline \<Rightarrow> pipeline \<Rightarrow> bool" where
  load_ok: "pl_main s = Load \<Longrightarrow> init_step s (s\<lparr>pl_main := Create 0\<rparr>)"
| load_throws: "pl_main s = Load \<Longrightarrow> init_step s (s\<lparr>pl_main := Abort 0\<rparr>)"
| create: "pl_main s = Create k \<Longrightarrow> k < shards + 1 \<Longrightarrow>
    init_step s (s\<lparr>pl_threads := (pl_threads s)[k := Begun], pl_main := Create (k + 1)\<rparr>)"
| create_throws: "pl_main s = Create k \<Longrightarrow> k < shards + 1 \<Longrightarrow> init_step s (s\<lparr>pl_main := Abort 0\<rparr>)"
| created: "pl_main s = Create (shards + 1) \<Longrightarrow> init_step s (s\<lparr>pl_main := Await_Ready\<rparr>)"
| all_ready: "pl_main s = Await_Ready \<Longrightarrow> pl_ready s = 0 \<Longrightarrow>
    init_step s (s\<lparr>pl_main := (if pl_failed s > 0 then Abort 0 else Release)\<rparr>)"
| release: "pl_main s = Release \<Longrightarrow> init_step s (s\<lparr>pl_go := pl_go s - 1, pl_start_ok := True, pl_main := Poll\<rparr>)"
| abort_feed: "pl_main s = Abort 0 \<Longrightarrow> init_step s (s\<lparr>pl_feed_stop := True, pl_main := Abort 1\<rparr>)"
| abort_builder: "pl_main s = Abort (Suc k) \<Longrightarrow> k < shards \<Longrightarrow>
    init_step s (s\<lparr>pl_builder_stop := (pl_builder_stop s)[k := True], pl_main := Abort (Suc (Suc k))\<rparr>)"
| abort_go: "pl_main s = Abort (Suc shards) \<Longrightarrow> init_step s (s\<lparr>pl_go := pl_go s - 1, pl_main := Stop_Feed\<rparr>)"

text \<open>The main thread in \<open>run_until_done\<close>: a signal arrives or the feed has finished.\<close>

inductive poll_step :: "pipeline \<Rightarrow> pipeline \<Rightarrow> bool" where
  signalled: "pl_main s = Poll \<Longrightarrow> poll_step s (s\<lparr>pl_main := Stop_Feed\<rparr>)"
| feed_finished: "pl_main s = Poll \<Longrightarrow> pl_finished s \<Longrightarrow> poll_step s (s\<lparr>pl_main := Stop_Feed\<rparr>)"

text \<open>The main thread in \<open>stop_and_wait\<close>, called by \<open>run_until_done\<close> or by the destructor.\<close>

inductive stop_step :: "pipeline \<Rightarrow> pipeline \<Rightarrow> bool" where
  stop_feed: "pl_main s = Stop_Feed \<Longrightarrow> stop_step s (s\<lparr>pl_feed_stop := True, pl_main := Join_Feed\<rparr>)"
| join_feed: "pl_main s = Join_Feed \<Longrightarrow> pl_threads s ! 0 \<in> {Not_Created, Ended} \<Longrightarrow> stop_step s (s\<lparr>pl_main := Stop_Builder 0\<rparr>)"
| stop_builder: "pl_main s = Stop_Builder k \<Longrightarrow> k < shards \<Longrightarrow>
    stop_step s (s\<lparr>pl_builder_stop := (pl_builder_stop s)[k := True], pl_main := Stop_Builder (k + 1)\<rparr>)"
| stopped: "pl_main s = Stop_Builder shards \<Longrightarrow> stop_step s (s\<lparr>pl_main := Join_Builder 0\<rparr>)"
| join_builder: "pl_main s = Join_Builder k \<Longrightarrow> k < shards \<Longrightarrow> pl_threads s ! Suc k \<in> {Not_Created, Ended} \<Longrightarrow>
    stop_step s (s\<lparr>pl_main := Join_Builder (k + 1)\<rparr>)"
| joined: "pl_main s = Join_Builder shards \<Longrightarrow> stop_step s (s\<lparr>pl_main := Exit (if pl_start_ok s then 0 else 1)\<rparr>)"

definition main_step :: "pipeline \<Rightarrow> pipeline \<Rightarrow> bool" where
  "main_step s s' \<longleftrightarrow> init_step s s' \<or> poll_step s s' \<or> stop_step s s'"

text \<open>A thread up to its loop: pinning or naming fails, or it reports and waits.\<close>

inductive start_step :: "nat \<Rightarrow> pipeline \<Rightarrow> pipeline \<Rightarrow> bool" where
  fails: "t < shards + 1 \<Longrightarrow> pl_threads s ! t = Begun \<Longrightarrow>
    start_step t s (s\<lparr>pl_failed := pl_failed s + 1, pl_threads := (pl_threads s)[t := Failing]\<rparr>)"
| failed: "t < shards + 1 \<Longrightarrow> pl_threads s ! t = Failing \<Longrightarrow>
    start_step t s (s\<lparr>pl_ready := pl_ready s - 1, pl_threads := (pl_threads s)[t := Ended]\<rparr>)"
| ready: "t < shards + 1 \<Longrightarrow> pl_threads s ! t = Begun \<Longrightarrow>
    start_step t s (s\<lparr>pl_ready := pl_ready s - 1, pl_threads := (pl_threads s)[t := Waiting]\<rparr>)"
| gone: "t < shards + 1 \<Longrightarrow> pl_threads s ! t = Waiting \<Longrightarrow> pl_go s = 0 \<Longrightarrow>
    start_step t s (s\<lparr>pl_threads := (pl_threads s)[t := Looping]\<rparr>)"

text \<open>The loop of the feed thread: it pushes events, requests its own stop, and ends when stopped.\<close>

inductive feed_step :: "pipeline \<Rightarrow> pipeline \<Rightarrow> bool" where
  push: "pl_threads s ! 0 = Looping \<Longrightarrow> i < shards \<Longrightarrow> pl_rings s ! i < QUEUE_SIZE - 1 \<Longrightarrow>
    feed_step s (s\<lparr>pl_rings := (pl_rings s)[i := pl_rings s ! i + 1]\<rparr>)"
| stop: "pl_threads s ! 0 = Looping \<Longrightarrow> feed_step s (s\<lparr>pl_feed_stop := True\<rparr>)"
| finish: "pl_threads s ! 0 = Looping \<Longrightarrow> pl_feed_stop s \<Longrightarrow>
    feed_step s (s\<lparr>pl_finished := True, pl_threads := (pl_threads s)[0 := Ended]\<rparr>)"

text \<open>The loop of a builder thread, and the loop that drains its ring.\<close>

inductive builder_step :: "nat \<Rightarrow> pipeline \<Rightarrow> pipeline \<Rightarrow> bool" where
  pop: "i < shards \<Longrightarrow> pl_threads s ! Suc i \<in> {Looping, Draining} \<Longrightarrow> pl_rings s ! i > 0 \<Longrightarrow>
    builder_step i s (s\<lparr>pl_rings := (pl_rings s)[i := pl_rings s ! i - 1]\<rparr>)"
| stop: "i < shards \<Longrightarrow> pl_threads s ! Suc i = Looping \<Longrightarrow> pl_builder_stop s ! i \<Longrightarrow>
    builder_step i s (s\<lparr>pl_threads := (pl_threads s)[Suc i := Draining]\<rparr>)"
| drained: "i < shards \<Longrightarrow> pl_threads s ! Suc i = Draining \<Longrightarrow> pl_rings s ! i = 0 \<Longrightarrow>
    builder_step i s (s\<lparr>pl_threads := (pl_threads s)[Suc i := Ended]\<rparr>)"

inductive pipeline_step :: "pipeline \<Rightarrow> pipeline \<Rightarrow> bool" where
  main: "main_step s s' \<Longrightarrow> pipeline_step s s'"
| start: "start_step t s s' \<Longrightarrow> pipeline_step s s'"
| feed: "feed_step s s' \<Longrightarrow> pipeline_step s s'"
| builder: "builder_step i s s' \<Longrightarrow> pipeline_step s s'"

inductive reachable :: "pipeline \<Rightarrow> bool" where
  init: "reachable StartPipeline"
| step: "reachable s \<Longrightarrow> pipeline_step s s' \<Longrightarrow> reachable s'"

lemma main_step_cases:
  assumes "main_step s s'"
  obtains (load_ok) "s' = s\<lparr>pl_main := Create 0\<rparr>" "pl_main s = Load"
  | (load_throws) "s' = s\<lparr>pl_main := Abort 0\<rparr>" "pl_main s = Load"
  | (create) k where "s' = s\<lparr>pl_threads := (pl_threads s)[k := Begun], pl_main := Create (k + 1)\<rparr>" "pl_main s = Create k" "k < shards + 1"
  | (create_throws) k where "s' = s\<lparr>pl_main := Abort 0\<rparr>" "pl_main s = Create k" "k < shards + 1"
  | (created) "s' = s\<lparr>pl_main := Await_Ready\<rparr>" "pl_main s = Create (shards + 1)"
  | (all_ready) "s' = s\<lparr>pl_main := (if pl_failed s > 0 then Abort 0 else Release)\<rparr>" "pl_main s = Await_Ready" "pl_ready s = 0"
  | (release) "s' = s\<lparr>pl_go := pl_go s - 1, pl_start_ok := True, pl_main := Poll\<rparr>" "pl_main s = Release"
  | (abort_feed) "s' = s\<lparr>pl_feed_stop := True, pl_main := Abort 1\<rparr>" "pl_main s = Abort 0"
  | (abort_builder) k where "s' = s\<lparr>pl_builder_stop := (pl_builder_stop s)[k := True], pl_main := Abort (Suc (Suc k))\<rparr>" "pl_main s = Abort (Suc k)" "k < shards"
  | (abort_go) "s' = s\<lparr>pl_go := pl_go s - 1, pl_main := Stop_Feed\<rparr>" "pl_main s = Abort (Suc shards)"
  | (signalled) "s' = s\<lparr>pl_main := Stop_Feed\<rparr>" "pl_main s = Poll"
  | (feed_finished) "s' = s\<lparr>pl_main := Stop_Feed\<rparr>" "pl_main s = Poll" "pl_finished s"
  | (stop_feed) "s' = s\<lparr>pl_feed_stop := True, pl_main := Join_Feed\<rparr>" "pl_main s = Stop_Feed"
  | (join_feed) "s' = s\<lparr>pl_main := Stop_Builder 0\<rparr>" "pl_main s = Join_Feed" "pl_threads s ! 0 \<in> {Not_Created, Ended}"
  | (stop_builder) k where "s' = s\<lparr>pl_builder_stop := (pl_builder_stop s)[k := True], pl_main := Stop_Builder (k + 1)\<rparr>" "pl_main s = Stop_Builder k" "k < shards"
  | (stopped) "s' = s\<lparr>pl_main := Join_Builder 0\<rparr>" "pl_main s = Stop_Builder shards"
  | (join_builder) k where "s' = s\<lparr>pl_main := Join_Builder (k + 1)\<rparr>" "pl_main s = Join_Builder k" "k < shards" "pl_threads s ! Suc k \<in> {Not_Created, Ended}"
  | (joined) "s' = s\<lparr>pl_main := Exit (if pl_start_ok s then 0 else 1)\<rparr>" "pl_main s = Join_Builder shards"
proof -
  from assms consider "init_step s s'" | "poll_step s s'" | "stop_step s s'" unfolding main_step_def by blast
  then show ?thesis
  proof cases
    case 1
    then show ?thesis by cases (rule that; assumption)+
  next
    case 2
    then show ?thesis by cases (rule that; assumption)+
  next
    case 3
    then show ?thesis by cases (rule that; assumption)+
  qed
qed

inductive_cases start_stepE: "start_step t s s'"
inductive_cases feed_stepE: "feed_step s s'"
inductive_cases builder_stepE: "builder_step i s s'"

subsection \<open>Invariants\<close>

lemma length_filter_update:
  "i < length xs \<Longrightarrow> length (filter P (xs[i := x])) + (if P (xs ! i) then 1 else 0) = length (filter P xs) + (if P x then 1 else 0)"
proof (induction xs arbitrary: i)
  case (Cons y ys)
  then show ?case by (cases i) auto
qed simp

text \<open>A thread that has not counted the latch \<open>ready\<close> down yet.\<close>

definition unready :: "thread_pc \<Rightarrow> bool" where
  "unready p \<longleftrightarrow> p \<in> {Not_Created, Begun, Failing}"

definition over :: "thread_pc \<Rightarrow> bool" where
  "over p \<longleftrightarrow> p \<in> {Not_Created, Ended}"

fun before_go :: "main_pc \<Rightarrow> bool" where
  "before_go Load = True"
| "before_go (Create _) = True"
| "before_go Await_Ready = True"
| "before_go Release = True"
| "before_go (Abort _) = True"
| "before_go _ = False"

definition inv_latch :: "pipeline \<Rightarrow> bool" where
  "inv_latch s \<longleftrightarrow> length (pl_threads s) = Suc shards \<and> length (pl_builder_stop s) = shards \<and> length (pl_rings s) = shards
     \<and> pl_ready s = length (filter unready (pl_threads s)) \<and> pl_go s = (if before_go (pl_main s) then 1 else 0)
     \<and> (\<forall>t \<le> shards. before_go (pl_main s) \<longrightarrow> pl_threads s ! t \<notin> {Looping, Draining}) \<and> pl_threads s ! 0 \<noteq> Draining"

fun created :: "main_pc \<Rightarrow> nat" where
  "created Load = 0"
| "created (Create k) = k"
| "created _ = Suc shards"

definition inv_created :: "pipeline \<Rightarrow> bool" where
  "inv_created s \<longleftrightarrow> created (pl_main s) \<le> Suc shards
     \<and> (\<forall>t \<le> shards. pl_main s = Load \<or> (\<exists>k. pl_main s = Create k) \<longrightarrow> (pl_threads s ! t = Not_Created \<longleftrightarrow> created (pl_main s) \<le> t))
     \<and> (\<forall>t \<le> shards. pl_main s \<in> {Await_Ready, Release, Poll} \<or> pl_start_ok s \<longrightarrow> pl_threads s ! t \<noteq> Not_Created)
     \<and> (before_go (pl_main s) \<longrightarrow> \<not> pl_start_ok s) \<and> (pl_main s = Poll \<longrightarrow> pl_start_ok s)"

definition inv_fail :: "pipeline \<Rightarrow> bool" where
  "inv_fail s \<longleftrightarrow> (\<forall>t \<le> shards. pl_threads s ! t = Failing \<longrightarrow> 0 < pl_failed s)
     \<and> (\<forall>t \<le> shards. before_go (pl_main s) \<and> pl_threads s ! t = Ended \<longrightarrow> 0 < pl_failed s)
     \<and> (pl_main s = Release \<or> pl_start_ok s \<longrightarrow> pl_failed s = 0 \<and> pl_ready s = 0)"

definition inv_stop :: "pipeline \<Rightarrow> bool" where
  "inv_stop s \<longleftrightarrow> (case pl_main s of
       Abort k \<Rightarrow> k \<le> Suc shards \<and> (0 < k \<longrightarrow> pl_feed_stop s) \<and> (\<forall>i < shards. Suc i < k \<longrightarrow> pl_builder_stop s ! i)
     | Join_Feed \<Rightarrow> pl_feed_stop s
     | Stop_Builder k \<Rightarrow> k \<le> shards \<and> pl_feed_stop s \<and> over (pl_threads s ! 0) \<and> (\<forall>i < k. pl_builder_stop s ! i)
     | Join_Builder k \<Rightarrow> k \<le> shards \<and> pl_feed_stop s \<and> over (pl_threads s ! 0) \<and> (\<forall>i < shards. pl_builder_stop s ! i)
         \<and> (\<forall>i < k. over (pl_threads s ! Suc i))
     | Exit c \<Rightarrow> over (pl_threads s ! 0) \<and> (\<forall>i < shards. over (pl_threads s ! Suc i)) \<and> c = (if pl_start_ok s then 0 else 1)
     | _ \<Rightarrow> True)
     \<and> (\<not> before_go (pl_main s) \<and> \<not> pl_start_ok s \<longrightarrow> pl_feed_stop s \<and> (\<forall>i < shards. pl_builder_stop s ! i))"

definition inv_drain :: "pipeline \<Rightarrow> bool" where
  "inv_drain s \<longleftrightarrow> (pl_main s \<in> {Load, Await_Ready, Release, Poll} \<or> (\<exists>k. pl_main s = Create k) \<longrightarrow> (\<forall>i < shards. \<not> pl_builder_stop s ! i))
     \<and> (pl_start_ok s \<and> pl_main s \<in> {Stop_Feed, Join_Feed} \<longrightarrow> (\<forall>i < shards. \<not> pl_builder_stop s ! i))
     \<and> (pl_start_ok s \<and> pl_threads s ! 0 = Ended \<longrightarrow> pl_finished s)
     \<and> (pl_start_ok s \<longrightarrow> (\<forall>i < shards. (pl_builder_stop s ! i \<longrightarrow> pl_threads s ! 0 = Ended)
          \<and> (pl_threads s ! Suc i = Draining \<longrightarrow> pl_builder_stop s ! i)
          \<and> (pl_threads s ! Suc i = Ended \<longrightarrow> pl_builder_stop s ! i \<and> pl_rings s ! i = 0)))"

lemma unready_simps [simp]: "unready Begun" "unready Not_Created" "unready Failing"
  "\<not> unready Waiting" "\<not> unready Looping" "\<not> unready Draining" "\<not> unready Ended"
  by (simp_all add: unready_def)

lemma over_simps [simp]: "over Not_Created" "over Ended" "\<not> over Begun" "\<not> over Failing" "\<not> over Waiting" "\<not> over Looping" "\<not> over Draining"
  by (simp_all add: over_def)

lemma ready_zero:
  assumes "inv_latch s" "pl_ready s = 0" "t \<le> shards"
  shows "\<not> unready (pl_threads s ! t)"
  using assms by (auto simp: inv_latch_def filter_empty_conv)

lemma ready_pos:
  assumes "inv_latch s" "unready (pl_threads s ! t)" "t \<le> shards"
  shows "0 < pl_ready s"
  using ready_zero assms by blast

lemma inv_latch_main:
  assumes "inv_latch s" "inv_created s" "main_step s s'"
  shows "inv_latch s'"
  using assms(3)
proof (cases rule: main_step_cases)
  case (create k)
  have "pl_threads s ! k = Not_Created" using assms(2) create by (auto simp: inv_created_def)
  with assms(1) create show ?thesis
    using length_filter_update [of k "pl_threads s" unready Begun] by (auto simp: inv_latch_def nth_list_update)
qed (use assms(1) in \<open>auto simp: inv_latch_def\<close>)

lemma inv_latch_start:
  assumes "inv_latch s" "start_step t s s'"
  shows "inv_latch s'"
  using assms(2)
proof cases
  case fails
  with assms(1) length_filter_update [of t "pl_threads s" unready Failing] show ?thesis by (auto simp: inv_latch_def nth_list_update)
next
  case failed
  with assms(1) length_filter_update [of t "pl_threads s" unready Ended] show ?thesis by (auto simp: inv_latch_def nth_list_update)
next
  case ready
  with assms(1) length_filter_update [of t "pl_threads s" unready Waiting] show ?thesis by (auto simp: inv_latch_def nth_list_update)
next
  case gone
  with assms(1) length_filter_update [of t "pl_threads s" unready Looping] show ?thesis
    by (auto simp: inv_latch_def nth_list_update split: if_splits)
qed

lemma inv_latch_feed:
  assumes "inv_latch s" "feed_step s s'"
  shows "inv_latch s'"
  using assms(2)
proof cases
  case finish
  with assms(1) length_filter_update [of 0 "pl_threads s" unready Ended] show ?thesis by (auto simp: inv_latch_def nth_list_update)
qed (use assms(1) in \<open>auto simp: inv_latch_def\<close>)

lemma inv_latch_builder:
  assumes "inv_latch s" "builder_step i s s'"
  shows "inv_latch s'"
  using assms(2)
proof cases
  case stop
  with assms(1) length_filter_update [of "Suc i" "pl_threads s" unready Draining] show ?thesis
    by (auto simp: inv_latch_def nth_list_update split: if_splits)
next
  case drained
  with assms(1) length_filter_update [of "Suc i" "pl_threads s" unready Ended] show ?thesis
    by (auto simp: inv_latch_def nth_list_update split: if_splits)
qed (use assms(1) in \<open>auto simp: inv_latch_def\<close>)

text \<open>The invariants together.\<close>

definition inv :: "pipeline \<Rightarrow> bool" where
  "inv s \<longleftrightarrow> inv_latch s \<and> inv_created s \<and> inv_fail s \<and> inv_stop s \<and> inv_drain s"

lemmas inv_defs = inv_def inv_latch_def inv_created_def inv_fail_def inv_stop_def inv_drain_def

lemma inv_init: "inv StartPipeline"
  by (auto simp: StartPipeline_def inv_defs nth_Cons split: nat.splits)

text \<open>What a step of a thread leaves alone.\<close>

definition thread_step :: "pipeline \<Rightarrow> pipeline \<Rightarrow> bool" where
  "thread_step s s' \<longleftrightarrow> (\<exists>t. start_step t s s') \<or> feed_step s s' \<or> (\<exists>i. builder_step i s s')"

lemma thread_step_frame:
  assumes "thread_step s s'"
  shows "pl_main s' = pl_main s" "pl_start_ok s' = pl_start_ok s" "pl_builder_stop s' = pl_builder_stop s" "pl_go s' = pl_go s"
    "pl_feed_stop s \<Longrightarrow> pl_feed_stop s'"
  using assms unfolding thread_step_def by (auto elim!: start_stepE feed_stepE builder_stepE)

lemma thread_step_nth:
  assumes "thread_step s s'" "length (pl_threads s) = Suc shards" "k \<le> shards"
  shows "over (pl_threads s ! k) \<Longrightarrow> pl_threads s' ! k = pl_threads s ! k" "pl_threads s' ! k = Not_Created \<longleftrightarrow> pl_threads s ! k = Not_Created"
proof -
  have "pl_threads s' ! k = pl_threads s ! k \<or> (\<not> over (pl_threads s ! k) \<and> pl_threads s' ! k \<noteq> Not_Created)"
    using assms unfolding thread_step_def
    by (auto elim!: start_stepE feed_stepE builder_stepE simp: nth_list_update split: if_splits)
  then show "over (pl_threads s ! k) \<Longrightarrow> pl_threads s' ! k = pl_threads s ! k" "pl_threads s' ! k = Not_Created \<longleftrightarrow> pl_threads s ! k = Not_Created"
    by auto
qed

lemma inv_created_threads:
  assumes "inv s" "thread_step s s'"
  shows "inv_created s'"
proof -
  have "length (pl_threads s) = Suc shards" using assms(1) by (simp add: inv_def inv_latch_def)
  with assms(1) show ?thesis
    unfolding inv_def inv_created_def thread_step_frame [OF assms(2)] by (simp add: thread_step_nth(2) [OF assms(2)])
qed

lemma inv_stop_threads:
  assumes "inv s" "thread_step s s'"
  shows "inv_stop s'"
proof -
  have l: "length (pl_threads s) = Suc shards" and i: "inv_stop s" using assms(1) by (simp_all add: inv_def inv_latch_def)
  have o: "over (pl_threads s ! k) \<Longrightarrow> over (pl_threads s' ! k)" if "k \<le> shards" for k
    using thread_step_nth(1) [OF assms(2) l that] by simp
  have n: "pl_threads s' ! k = Not_Created \<longleftrightarrow> pl_threads s ! k = Not_Created" if "k \<le> shards" for k
    by (rule thread_step_nth(2) [OF assms(2) l that])
  note f = thread_step_frame(1-4) [OF assms(2)] thread_step_frame(5) [OF assms(2)]
  show ?thesis
    using i unfolding inv_stop_def f(1-3) by (cases "pl_main s") (auto simp: n o f(5))
qed

lemma inv_created_main:
  assumes "inv s" "main_step s s'"
  shows "inv_created s'"
proof -
  have i: "inv_created s" "length (pl_threads s) = Suc shards" using assms(1) by (simp_all add: inv_def inv_latch_def)
  from assms(2) i show ?thesis by (cases rule: main_step_cases) (auto simp: inv_created_def nth_list_update)
qed


lemma inv_fail_main:
  assumes "inv s" "main_step s s'"
  shows "inv_fail s'"
proof -
  have i: "inv_fail s" "inv_created s" "length (pl_threads s) = Suc shards" using assms(1) by (simp_all add: inv_def inv_latch_def)
  from assms(2) i show ?thesis by (cases rule: main_step_cases) (auto simp: inv_fail_def inv_created_def nth_list_update)
qed

lemma inv_fail_threads:
  assumes "inv s" "thread_step s s'"
  shows "inv_fail s'"
proof -
  have i: "inv_fail s" "length (pl_threads s) = Suc shards" "pl_threads s ! 0 \<noteq> Draining"
    "\<forall>t \<le> shards. before_go (pl_main s) \<longrightarrow> pl_threads s ! t \<notin> {Looping, Draining}"
    using assms(1) by (simp_all add: inv_def inv_latch_def)
  have b: "pl_threads s ! k \<noteq> Begun" "pl_threads s ! k \<noteq> Failing" if "pl_main s = Release \<or> pl_start_ok s" "k \<le> shards" for k
    using that ready_zero [of s k] assms(1) by (auto simp: inv_def inv_fail_def)
  from assms(2) consider t where "start_step t s s'" | "feed_step s s'" | j where "builder_step j s s'" unfolding thread_step_def by blast
  then show ?thesis
  proof cases
    case 1
    then show ?thesis using i b by cases (auto simp: inv_fail_def nth_list_update)
  next
    case 2
    then show ?thesis using i b by cases (auto simp: inv_fail_def nth_list_update)
  next
    case 3
    then show ?thesis using i b by cases (auto simp: inv_fail_def nth_list_update)
  qed
qed

lemma inv_drain_main:
  assumes "inv s" "main_step s s'"
  shows "inv_drain s'"
proof -
  have i: "inv_drain s" "inv_created s" "inv_stop s" "length (pl_threads s) = Suc shards" "length (pl_builder_stop s) = shards"
    using assms(1) by (simp_all add: inv_def inv_latch_def)
  show ?thesis
    using assms(2)
  proof (cases rule: main_step_cases)
    case release
    have "pl_threads s ! t \<notin> {Ended, Draining}" if "t \<le> shards" for t
      using that assms(1) release by (auto simp: inv_def inv_latch_def inv_fail_def)
    with i release show ?thesis by (auto simp: inv_drain_def)
  next
    case (stop_builder k)
    have "pl_start_ok s \<longrightarrow> pl_threads s ! 0 = Ended" using i stop_builder by (auto simp: inv_stop_def inv_created_def over_def)
    with i stop_builder show ?thesis by (auto simp: inv_drain_def nth_list_update)
  qed (use i in \<open>auto simp: inv_drain_def inv_created_def nth_list_update\<close>)
qed

lemma inv_drain_threads:
  assumes "inv s" "thread_step s s'"
  shows "inv_drain s'"
proof -
  have i: "inv_drain s" "length (pl_threads s) = Suc shards" "length (pl_rings s) = shards" "pl_threads s ! 0 \<noteq> Draining"
    using assms(1) by (simp_all add: inv_def inv_latch_def)
  have b: "pl_threads s ! k \<noteq> Begun" "pl_threads s ! k \<noteq> Failing" if "pl_start_ok s" "k \<le> shards" for k
    using that ready_zero [of s k] assms(1) by (auto simp: inv_def inv_fail_def)
  from assms(2) consider t where "start_step t s s'" | "feed_step s s'" | j where "builder_step j s s'" unfolding thread_step_def by blast
  then show ?thesis
  proof cases
    case 1
    have k: "pl_threads s' ! k = Ended \<longleftrightarrow> pl_threads s ! k = Ended" "pl_threads s' ! k = Draining \<longleftrightarrow> pl_threads s ! k = Draining"
      if "pl_start_ok s" "k \<le> shards" for k
      using 1 b [OF that] i(2) that(2) by (cases; auto simp: nth_list_update)+
    have "pl_rings s' = pl_rings s" "pl_finished s' = pl_finished s" using 1 by (cases; simp)+
    with i(1) k show ?thesis unfolding inv_drain_def thread_step_frame [OF assms(2)] by (cases "pl_start_ok s") (simp_all add: Suc_le_eq)
  next
    case 2
    then show ?thesis using i b by cases (auto simp: inv_drain_def nth_list_update)
  next
    case 3
    have k: "(pl_threads s' ! Suc k = Draining \<longrightarrow> pl_builder_stop s ! k)
        \<and> (pl_threads s' ! Suc k = Ended \<longrightarrow> pl_builder_stop s ! k \<and> pl_rings s' ! k = 0)" if "pl_start_ok s" "k < shards" for k
    proof -
      have "(pl_threads s ! Suc k = Draining \<longrightarrow> pl_builder_stop s ! k)
          \<and> (pl_threads s ! Suc k = Ended \<longrightarrow> pl_builder_stop s ! k \<and> pl_rings s ! k = 0)"
        using i(1) that by (simp add: inv_drain_def)
      with 3 that i(2,3) show ?thesis by cases (auto simp: nth_list_update)
    qed
    have "pl_threads s' ! 0 = pl_threads s ! 0" "pl_finished s' = pl_finished s" using 3 by (cases; simp)+
    with i(1) k show ?thesis unfolding inv_drain_def thread_step_frame [OF assms(2)] by simp
  qed
qed

lemma inv_stop_main:
  assumes "inv s" "main_step s s'"
  shows "inv_stop s'"
proof -
  have i: "inv_stop s" "length (pl_builder_stop s) = shards" "before_go (pl_main s) \<longrightarrow> \<not> pl_start_ok s" "pl_main s = Poll \<longrightarrow> pl_start_ok s"
    using assms(1) by (simp_all add: inv_def inv_latch_def inv_created_def)
  show ?thesis
    using assms(2)
  proof (cases rule: main_step_cases)
    case abort_go
    with i show ?thesis by (auto simp: inv_stop_def)
  qed (use i in \<open>simp_all add: inv_stop_def over_def nth_list_update less_Suc_eq\<close>)
qed

lemma inv_latch_threads:
  assumes "inv_latch s" "thread_step s s'"
  shows "inv_latch s'"
  using assms inv_latch_start inv_latch_feed inv_latch_builder unfolding thread_step_def by blast

lemma pipeline_step_cases: "pipeline_step s s' \<Longrightarrow> main_step s s' \<or> thread_step s s'"
  by (auto elim: pipeline_step.cases simp: thread_step_def)

lemma inv_step:
  assumes "inv s" "pipeline_step s s'"
  shows "inv s'"
proof -
  have l: "inv_latch s" "inv_created s" using assms(1) by (simp_all add: inv_def)
  from pipeline_step_cases [OF assms(2)] show ?thesis
  proof
    assume m: "main_step s s'"
    from inv_latch_main [OF l m] inv_created_main [OF assms(1) m] inv_fail_main [OF assms(1) m] inv_stop_main [OF assms(1) m]
      inv_drain_main [OF assms(1) m]
    show ?thesis by (simp add: inv_def)
  next
    assume m: "thread_step s s'"
    from inv_latch_threads [OF l(1) m] inv_created_threads [OF assms(1) m] inv_fail_threads [OF assms(1) m]
      inv_stop_threads [OF assms(1) m] inv_drain_threads [OF assms(1) m]
    show ?thesis by (simp add: inv_def)
  qed
qed

lemma reachable_inv: "reachable s \<Longrightarrow> inv s"
  by (induction rule: reachable.induct) (auto intro: inv_init inv_step)

subsection \<open>A schedule\<close>

text \<open>The next step of the main thread and of a thread when nothing fails, to run the model.\<close>

definition main_next :: "pipeline \<Rightarrow> pipeline option" where
  "main_next s = (case pl_main s of
      Load \<Rightarrow> Some (s\<lparr>pl_main := Create 0\<rparr>)
    | Create k \<Rightarrow> if k < shards + 1 then Some (s\<lparr>pl_threads := (pl_threads s)[k := Begun], pl_main := Create (k + 1)\<rparr>)
        else if k = shards + 1 then Some (s\<lparr>pl_main := Await_Ready\<rparr>) else None
    | Await_Ready \<Rightarrow> if pl_ready s = 0 then Some (s\<lparr>pl_main := (if pl_failed s > 0 then Abort 0 else Release)\<rparr>) else None
    | Release \<Rightarrow> Some (s\<lparr>pl_go := pl_go s - 1, pl_start_ok := True, pl_main := Poll\<rparr>)
    | Abort k \<Rightarrow> None
    | Poll \<Rightarrow> Some (s\<lparr>pl_main := Stop_Feed\<rparr>)
    | Stop_Feed \<Rightarrow> Some (s\<lparr>pl_feed_stop := True, pl_main := Join_Feed\<rparr>)
    | Join_Feed \<Rightarrow> if pl_threads s ! 0 \<in> {Not_Created, Ended} then Some (s\<lparr>pl_main := Stop_Builder 0\<rparr>) else None
    | Stop_Builder k \<Rightarrow> if k < shards then Some (s\<lparr>pl_builder_stop := (pl_builder_stop s)[k := True], pl_main := Stop_Builder (k + 1)\<rparr>)
        else if k = shards then Some (s\<lparr>pl_main := Join_Builder 0\<rparr>) else None
    | Join_Builder k \<Rightarrow> if k < shards \<and> pl_threads s ! Suc k \<in> {Not_Created, Ended} then Some (s\<lparr>pl_main := Join_Builder (k + 1)\<rparr>)
        else if k = shards then Some (s\<lparr>pl_main := Exit (if pl_start_ok s then 0 else 1)\<rparr>) else None
    | Exit c \<Rightarrow> None)"

definition thread_next :: "nat \<Rightarrow> pipeline \<Rightarrow> pipeline option" where
  "thread_next t s = (case pl_threads s ! t of
      Begun \<Rightarrow> Some (s\<lparr>pl_ready := pl_ready s - 1, pl_threads := (pl_threads s)[t := Waiting]\<rparr>)
    | Waiting \<Rightarrow> if pl_go s = 0 then Some (s\<lparr>pl_threads := (pl_threads s)[t := Looping]\<rparr>) else None
    | Looping \<Rightarrow> (case t of
          0 \<Rightarrow> if pl_feed_stop s then Some (s\<lparr>pl_finished := True, pl_threads := (pl_threads s)[0 := Ended]\<rparr>) else None
        | Suc i \<Rightarrow> if pl_builder_stop s ! i then Some (s\<lparr>pl_threads := (pl_threads s)[Suc i := Draining]\<rparr>) else None)
    | Draining \<Rightarrow> (case t of 0 \<Rightarrow> None
        | Suc i \<Rightarrow> if pl_rings s ! i = 0 then Some (s\<lparr>pl_threads := (pl_threads s)[Suc i := Ended]\<rparr>)
            else Some (s\<lparr>pl_rings := (pl_rings s)[i := pl_rings s ! i - 1]\<rparr>))
    | _ \<Rightarrow> None)"

fun run_schedule :: "nat list \<Rightarrow> pipeline \<Rightarrow> pipeline option" where
  "run_schedule [] s = Some s"
| "run_schedule (t # ts) s = (case (if t = 0 then main_next s else if t \<le> shards + 1 then thread_next (t - 1) s else None) of
     None \<Rightarrow> None | Some s' \<Rightarrow> run_schedule ts s')"

lemma main_next_step: "main_next s = Some s' \<Longrightarrow> main_step s s'"
  using init_step.all_ready [of s] stop_step.joined [of s]
  by (auto simp: main_next_def main_step_def split: main_pc.splits if_splits
      intro: init_step.intros [simplified] poll_step.intros stop_step.intros [simplified])

lemma thread_next_step: "thread_next t s = Some s' \<Longrightarrow> t \<le> shards \<Longrightarrow> pipeline_step s s'"
  by (auto simp: thread_next_def split: thread_pc.splits nat.splits if_splits
      intro: pipeline_step.start [OF start_step.ready [simplified]] pipeline_step.start [OF start_step.gone [simplified]]
        pipeline_step.feed [OF feed_step.finish] pipeline_step.builder [OF builder_step.stop] pipeline_step.builder [OF builder_step.drained]
        pipeline_step.builder [OF builder_step.pop [simplified]])

lemma run_schedule_reachable: "run_schedule ts s = Some s' \<Longrightarrow> reachable s \<Longrightarrow> reachable s'"
proof (induction ts arbitrary: s)
  case (Cons t ts)
  from Cons.prems(1) obtain s1 where s1: "(if t = 0 then main_next s else if t \<le> shards + 1 then thread_next (t - 1) s else None) = Some s1"
    "run_schedule ts s1 = Some s'" by (auto split: option.splits)
  have "pipeline_step s s1"
  proof (cases "t = 0")
    case True
    with s1(1) show ?thesis by (auto intro: pipeline_step.main main_next_step)
  next
    case False
    with s1(1) have "thread_next (t - 1) s = Some s1" "t - 1 \<le> shards" by (auto split: if_splits)
    then show ?thesis by (rule thread_next_step)
  qed
  with Cons.IH [OF s1(2)] Cons.prems(2) show ?case by (blast intro: reachable.step)
qed simp

text \<open>A run from the start to the exit.\<close>

lemma sample_run: "map_option pl_main (run_schedule (replicate 7 0 @ [1, 2, 3, 4, 5] @ [0, 0] @ [1, 2, 3, 4, 5] @ [0, 0, 1] @ replicate 6 0 @ [2, 3, 4, 5, 2, 3, 4, 5] @ replicate 5 0)
    StartPipeline) = Some (Exit 0)"
  by code_simp

subsection \<open>Properties\<close>

text \<open>What a thread can do: only waiting for the main thread holds it up.\<close>

lemma thread_enabled:
  assumes "pl_threads s ! t \<notin> {Not_Created, Ended}" "t \<le> shards" "pl_threads s ! 0 \<noteq> Draining"
    "pl_threads s ! t = Waiting \<longrightarrow> pl_go s = 0"
    "pl_threads s ! t = Looping \<longrightarrow> (if t = 0 then pl_feed_stop s else pl_builder_stop s ! (t - 1))"
  shows "\<exists>s'. pipeline_step s s'"
proof (cases "pl_threads s ! t")
  case Begun
  with assms(2) show ?thesis using start_step.ready [of t s] pipeline_step.start by fastforce
next
  case Failing
  with assms(2) show ?thesis using start_step.failed [of t s] pipeline_step.start by fastforce
next
  case Waiting
  with assms(2,4) show ?thesis using start_step.gone [of t s] pipeline_step.start by fastforce
next
  case Looping
  show ?thesis
  proof (cases t)
    case 0
    with Looping assms(5) show ?thesis using feed_step.finish [of s] pipeline_step.feed by fastforce
  next
    case (Suc i)
    with Looping assms(2,5) show ?thesis using builder_step.stop [of i s] pipeline_step.builder by fastforce
  qed
next
  case Draining
  then obtain i where i: "t = Suc i" "i < shards" using assms(2,3) by (cases t) auto
  with Draining show ?thesis
    using builder_step.pop [of i s] builder_step.drained [of i s] pipeline_step.builder by (cases "pl_rings s ! i = 0") fastforce+
qed (use assms(1) in simp_all)

lemma main_enabled:
  assumes "inv s" "\<nexists>c. pl_main s = Exit c"
  shows "\<exists>s'. pipeline_step s s'"
proof -
  have l: "inv_latch s" "inv_created s" "inv_stop s" using assms(1) by (simp_all add: inv_def)
  then have d: "pl_threads s ! 0 \<noteq> Draining" and go: "\<not> before_go (pl_main s) \<longrightarrow> pl_go s = 0" by (auto simp: inv_latch_def)
  have m: "init_step s s' \<Longrightarrow> ?thesis" "poll_step s s' \<Longrightarrow> ?thesis" "stop_step s s' \<Longrightarrow> ?thesis" for s'
    using pipeline_step.main main_step_def by blast+
  show ?thesis
  proof (cases "pl_main s")
    case Load
    then show ?thesis using m init_step.load_ok by blast
  next
    case (Create k)
    then have "k \<le> Suc shards" using l(2) by (simp add: inv_created_def)
    with Create show ?thesis using m init_step.create [of s k] init_step.created [of s] by (cases "k = Suc shards") auto
  next
    case Await_Ready
    show ?thesis
    proof (cases "pl_ready s = 0")
      case True
      with Await_Ready show ?thesis using m init_step.all_ready by blast
    next
      case False
      then obtain t where t: "t \<le> shards" "unready (pl_threads s ! t)"
        using l(1) by (auto simp: inv_latch_def filter_empty_conv in_set_conv_nth less_Suc_eq_le)
      moreover have "pl_threads s ! t \<noteq> Not_Created" using t(1) l(2) Await_Ready by (auto simp: inv_created_def)
      ultimately show ?thesis using d by (intro thread_enabled [of s t]) (auto simp: unready_def)
    qed
  next
    case Release
    then show ?thesis using m init_step.release by blast
  next
    case (Abort k)
    then have "k \<le> Suc shards" using l(3) by (simp add: inv_stop_def)
    with Abort show ?thesis
      using m init_step.abort_feed [of s] init_step.abort_builder [of s "k - 1"] init_step.abort_go [of s]
      by (cases k; cases "k = Suc shards") auto
  next
    case Poll
    then show ?thesis using m poll_step.signalled by blast
  next
    case Stop_Feed
    then show ?thesis using m stop_step.stop_feed by blast
  next
    case Join_Feed
    show ?thesis
    proof (cases "pl_threads s ! 0 \<in> {Not_Created, Ended}")
      case True
      with Join_Feed show ?thesis using m stop_step.join_feed by blast
    next
      case False
      moreover have "pl_feed_stop s" using l(3) Join_Feed by (simp add: inv_stop_def)
      ultimately show ?thesis using Join_Feed d go by (intro thread_enabled [of s 0]) auto
    qed
  next
    case (Stop_Builder k)
    then have "k \<le> shards" using l(3) by (simp add: inv_stop_def)
    with Stop_Builder show ?thesis using m stop_step.stop_builder [of s k] stop_step.stopped [of s] by (cases "k = shards") auto
  next
    case (Join_Builder k)
    then have k: "k \<le> shards" "\<forall>i < shards. pl_builder_stop s ! i" using l(3) by (simp_all add: inv_stop_def)
    show ?thesis
    proof (cases "k = shards \<or> pl_threads s ! Suc k \<in> {Not_Created, Ended}")
      case True
      with Join_Builder k show ?thesis using m stop_step.join_builder [of s k] stop_step.joined [of s] by (cases "k = shards") auto
    next
      case False
      with Join_Builder k d go show ?thesis by (intro thread_enabled [of s "Suc k"]) auto
    qed
  qed (use assms(2) in simp)
qed

text \<open>
  C14. Starting and stopping never deadlocks: in every interleaving of the main thread, the feed
  thread and the builder threads, whatever fails while loading the configuration, creating,
  pinning or naming a thread, some thread can take a step until the program exits. The latch
  \<open>go\<close> is counted down once and the latch \<open>ready\<close> once by every thread, so neither is counted
  below zero.
\<close>

theorem pipeline_never_stuck:
  assumes "reachable s"
  shows "((\<nexists>c. pl_main s = Exit c) \<longrightarrow> (\<exists>s'. pipeline_step s s'))
    \<and> (pl_main s \<in> {Release, Abort (Suc shards)} \<longrightarrow> pl_go s = 1)
    \<and> (\<forall>t \<le> shards. pl_threads s ! t \<in> {Begun, Failing} \<longrightarrow> 0 < pl_ready s)"
proof -
  have i: "inv s" by (rule reachable_inv [OF assms])
  then have "inv_latch s" by (simp add: inv_def)
  then have "pl_main s \<in> {Release, Abort (Suc shards)} \<longrightarrow> pl_go s = 1" by (auto simp: inv_latch_def)
  moreover have "\<forall>t \<le> shards. pl_threads s ! t \<in> {Begun, Failing} \<longrightarrow> 0 < pl_ready s"
  proof (intro allI impI)
    fix t assume "t \<le> shards" "pl_threads s ! t \<in> {Begun, Failing}"
    then show "0 < pl_ready s" using ready_pos [OF \<open>inv_latch s\<close>, of t] by auto
  qed
  ultimately show ?thesis using main_enabled [OF i] by blast
qed

theorem pipeline_never_stuck_witness: "\<exists>s'. pipeline_step StartPipeline s'"
  using pipeline_never_stuck [OF reachable.init] by (simp add: StartPipeline_def)

text \<open>
  C13. Nothing is lost at shutdown: when the program exits every thread it created has ended;
  when it exits with 0, after a successful start, the feed has finished and the ring of every
  shard is empty, so every event that was pushed has been taken by its builder.
\<close>

theorem pipeline_drained:
  assumes "reachable s" "pl_main s = Exit c"
  shows "(\<forall>t \<le> shards. pl_threads s ! t \<in> {Not_Created, Ended})
    \<and> (c = 0 \<longrightarrow> (\<forall>t \<le> shards. pl_threads s ! t = Ended) \<and> pl_finished s \<and> (\<forall>i < shards. pl_rings s ! i = 0))"
proof -
  have i: "inv_created s" "inv_stop s" "inv_drain s" using reachable_inv [OF assms(1)] by (simp_all add: inv_def)
  then have s: "over (pl_threads s ! 0)" "\<forall>k < shards. over (pl_threads s ! Suc k)" "c = (if pl_start_ok s then 0 else 1)"
    using assms(2) by (simp_all add: inv_stop_def)
  have o: "over (pl_threads s ! t)" if "t \<le> shards" for t using s(1,2) that by (cases t) auto
  have e: "pl_threads s ! t = Ended" if "c = 0" "t \<le> shards" for t
    using o [OF that(2)] i(1) s(3) that by (auto simp: over_def inv_created_def split: if_splits)
  have "pl_finished s \<and> (\<forall>k < shards. pl_rings s ! k = 0)" if "c = 0"
    using i(3) s(3) e [OF that, of 0] e [OF that, of "Suc _"] that by (auto simp: inv_drain_def split: if_splits)
  with o e show ?thesis by (auto simp: over_def)
qed

theorem pipeline_drained_witness:
  "\<exists>s. reachable s \<and> pl_main s = Exit 0 \<and> (\<forall>i < shards. pl_rings s ! i = 0)"
proof -
  obtain s where "reachable s" "pl_main s = Exit 0" using sample_run run_schedule_reachable reachable.init by (auto simp: map_option_eq_Some)
  then show ?thesis using pipeline_drained [of s 0] by blast
qed

end
