(* ===== verification/Command_Line.thy ===== *)
theory Command_Line
  imports Std_Text Retransmit_Recoverer
begin

section \<open>Command line (src/main.cpp)\<close>

text \<open>
  The arguments of the program, as \<open>getopt_long\<close> reports them: a list of option characters
  with their arguments, where \<open>:\<close> stands for a missing argument and any other unknown
  character for an unknown option, and whether an argument that is no option is left over.
\<close>

record args =
  ar_config_fpath :: string
  ar_exchange :: "exchange option"
  ar_exchange_name :: "string option"
  ar_file :: "string option"
  ar_mcast_group :: "string option"
  ar_iface :: string
  ar_port :: u16
  ar_rerequest_ip :: string
  ar_rerequest_port :: u16

definition Args :: args where
  "Args = \<lparr>ar_config_fpath = [], ar_exchange = None, ar_exchange_name = None, ar_file = None, ar_mcast_group = None,
     ar_iface = ''0.0.0.0'', ar_port = 0, ar_rerequest_ip = ''127.0.0.1'', ar_rerequest_port = 0\<rparr>"

definition parse_port :: "string \<Rightarrow> u16 \<Rightarrow> bool \<times> u16" where
  "parse_port s out = (let (rest, ec, v) = from_chars s out in (ec = Errc_Ok \<and> rest = [] \<and> v \<noteq> 0, v))"

text \<open>One option: whether parsing goes on, and the arguments after it.\<close>

definition parse_opt :: "char \<Rightarrow> string \<Rightarrow> args \<Rightarrow> bool \<times> args" where
  "parse_opt opt optarg args =
     (if opt = CHR ''e'' then
        let args = args\<lparr>ar_exchange := str_to_exchange optarg, ar_exchange_name := Some optarg\<rparr> in (ar_exchange args \<noteq> None, args)
      else if opt = CHR ''c'' then (True, args\<lparr>ar_config_fpath := optarg\<rparr>)
      else if opt = CHR ''f'' then (True, args\<lparr>ar_file := Some optarg\<rparr>)
      else if opt = CHR ''g'' then (True, args\<lparr>ar_mcast_group := Some optarg\<rparr>)
      else if opt = CHR ''p'' then let (ok, v) = parse_port optarg (ar_port args) in (ok, args\<lparr>ar_port := v\<rparr>)
      else if opt = CHR ''i'' then (True, args\<lparr>ar_iface := optarg\<rparr>)
      else if opt = CHR ''R'' then (True, args\<lparr>ar_rerequest_ip := optarg\<rparr>)
      else if opt = CHR ''P'' then let (ok, v) = parse_port optarg (ar_rerequest_port args) in (ok, args\<lparr>ar_rerequest_port := v\<rparr>)
      else (False, args))"

fun parse_opts :: "(char \<times> string) list \<Rightarrow> args \<Rightarrow> bool \<times> args" where
  "parse_opts [] args = (True, args)"
| "parse_opts ((opt, optarg) # os) args =
     (let (ok, args) = parse_opt opt optarg args in if ok then parse_opts os args else (False, args))"

definition parse_args :: "(char \<times> string) list \<Rightarrow> bool \<Rightarrow> bool \<times> args" where
  "parse_args os extra =
     (let (ok, args) = parse_opts os Args; live = ar_mcast_group args \<noteq> None \<or> ar_port args \<noteq> 0 in
      if \<not> ok then (False, args)
      else if extra then (False, args)
      else if ar_exchange args = None \<or> ar_config_fpath args = [] then (False, args)
      else if (ar_file args \<noteq> None) = live then (False, args)
      else if live \<and> (ar_mcast_group args = None \<or> ar_port args = 0) then (False, args)
      else if live \<and> ar_rerequest_port args = 0 then (False, args)
      else (True, args))"

subsection \<open>The pipeline that is built\<close>

text \<open>Times are in nanoseconds.\<close>

definition REREQUEST_REPLY_TIMEOUT :: nat where "REREQUEST_REPLY_TIMEOUT = 100000000"
definition MAX_RECOVERY_TIME :: nat where "MAX_RECOVERY_TIME = 5000000000"
definition MAX_REREQUEST_ATTEMPTS :: u32 where "MAX_REREQUEST_ATTEMPTS = 5"
definition MAX_MESSAGES_PER_REREQUEST :: u16 where "MAX_MESSAGES_PER_REREQUEST = 1000"

datatype pipeline_kind = ItchFile string | NasdaqMoldUDP string u16 recoverer string string u16

text \<open>The pipeline for the arguments, or exit code 1.\<close>

definition build_pipeline :: "args \<Rightarrow> nat + pipeline_kind" where
  "build_pipeline args = (case ar_exchange args of
      Some NASDAQ \<Rightarrow>
        (case ar_file args of
           Some file \<Rightarrow> Inr (ItchFile file)
         | None \<Rightarrow> Inr (NasdaqMoldUDP (ar_rerequest_ip args) (ar_rerequest_port args)
             \<lparr>rc_max_attempts = MAX_REREQUEST_ATTEMPTS, rc_max_per_request = MAX_MESSAGES_PER_REREQUEST,
              rc_max_recovery_time = MAX_RECOVERY_TIME\<rparr>
             (ar_iface args) (the (ar_mcast_group args)) (ar_port args)))
    | _ \<Rightarrow> Inl 1)"

subsection \<open>Facts\<close>

text \<open>
  Exactly one source is chosen: accepted arguments name an exchange and a configuration, and
  either a file and no group and port, or a group, a port and a port for re-requests.
\<close>

lemma parse_args_accepted:
  assumes "parse_args os extra = (True, args)"
  shows "ar_exchange args \<noteq> None \<and> ar_config_fpath args \<noteq> [] \<and> \<not> extra
    \<and> (if ar_file args \<noteq> None then ar_mcast_group args = None \<and> ar_port args = 0
       else ar_mcast_group args \<noteq> None \<and> ar_port args \<noteq> 0 \<and> ar_rerequest_port args \<noteq> 0)"
  using assms by (auto simp: parse_args_def Let_def split: prod.splits if_splits)

lemma parse_port_digits:
  "fst (parse_port s out) \<longleftrightarrow> s \<noteq> [] \<and> (\<forall>c \<in> set s. is_digit c) \<and> dec_val s \<in> {1..65535}"
proof (cases "\<forall>c \<in> set s. is_digit c")
  case True
  have w: "(word_of_nat (dec_val s) :: u16) = 0 \<longleftrightarrow> dec_val s = 0" if "dec_val s < 65536"
    using that unat_u16_of_nat [of "dec_val s"] by (auto simp: unat_eq_zero [symmetric])
  from True show ?thesis by (auto simp: parse_port_def from_chars_digits w)
next
  case False
  then have "dropWhile is_digit s \<noteq> []" by simp
  with False show ?thesis by (auto simp: parse_port_def from_chars_def Let_def)
qed

text \<open>A pipeline over MoldUDP64 has what the recovery needs: attempts left and requests that end.\<close>

lemma build_pipeline_recoverer:
  assumes "parse_args os extra = (True, args)" "build_pipeline args = Inr (NasdaqMoldUDP ip rport cfg iface grp port)"
  shows "ar_mcast_group args = Some grp \<and> port \<noteq> 0 \<and> rport \<noteq> 0 \<and> rc_max_attempts cfg \<noteq> 0
    \<and> unat (rc_max_per_request cfg) \<in> {1..<2 ^ 16 - 1}"
  using parse_args_accepted [OF assms(1)] assms(2)
  by (auto simp: build_pipeline_def MAX_REREQUEST_ATTEMPTS_def MAX_MESSAGES_PER_REREQUEST_def split: option.splits exchange.splits)

end
