(* ===== verification/Treiber_Stack.thy ===== *)
theory Treiber_Stack
  imports Fastbook_Prelude
begin

section \<open>Lock-free stacks (src/common/treiber\_stack.hpp)\<close>

text \<open>
  A stack is a head word and the \<open>next\<close> fields of its nodes, a function from addresses to
  addresses. The head packs the address of the first node with a tag in its low bits that
  every update increments. The operations are given as they run undisturbed, where the
  compare-and-exchange succeeds at its first strong attempt, and, below, as an interleaving of
  any number of threads.
\<close>

subsection \<open>Packed heads\<close>

definition TAG_MASK :: "nat \<Rightarrow> u64" where
  "TAG_MASK TagBits = push_bit TagBits 1 - 1"

definition tagged :: "nat \<Rightarrow> bool" where
  "tagged TagBits \<longleftrightarrow> TagBits > 0"

definition pt_ptr :: "nat \<Rightarrow> u64 \<Rightarrow> ptr" where
  "pt_ptr TagBits r = unat (r AND NOT (TAG_MASK TagBits))"

definition pt_tag :: "nat \<Rightarrow> u64 \<Rightarrow> u64" where
  "pt_tag TagBits r = r AND TAG_MASK TagBits"

definition pt_pack :: "nat \<Rightarrow> ptr \<Rightarrow> u64 \<Rightarrow> u64" where
  "pt_pack TagBits p t = word_of_nat p OR (t AND TAG_MASK TagBits)"

text \<open>The wide representation, a pair of an address and a 64-bit tag.\<close>

record wide_repr =
  wr_ptr :: ptr
  wr_tag :: u64

definition wt_pack :: "ptr \<Rightarrow> u64 \<Rightarrow> wide_repr" where
  "wt_pack p t = \<lparr>wr_ptr = p, wr_tag = t\<rparr>"

subsection \<open>Operations\<close>

type_synonym next_map = "ptr \<Rightarrow> ptr"

definition TreiberStack :: "nat \<Rightarrow> u64" where
  "TreiberStack TagBits = pt_pack TagBits nullptr 0"

definition ts_push :: "nat \<Rightarrow> ptr \<Rightarrow> u64 \<times> next_map \<Rightarrow> u64 \<times> next_map" where
  "ts_push TagBits n = (\<lambda>(head, nx).
     let expected = head; nx = nx(n := pt_ptr TagBits expected) in
     (pt_pack TagBits n (pt_tag TagBits expected + 1), nx))"

definition ts_pop :: "nat \<Rightarrow> u64 \<times> next_map \<Rightarrow> ptr \<times> u64 \<times> next_map" where
  "ts_pop TagBits = (\<lambda>(head, nx).
     let old_head = head; old_head_ptr = pt_ptr TagBits old_head in
     if old_head_ptr = nullptr then (nullptr, head, nx)
     else (old_head_ptr, pt_pack TagBits (nx old_head_ptr) (pt_tag TagBits old_head + 1), nx))"

definition ts_push_chain :: "nat \<Rightarrow> ptr \<Rightarrow> ptr \<Rightarrow> u64 \<times> next_map \<Rightarrow> u64 \<times> next_map" where
  "ts_push_chain TagBits head_node tail_node = (\<lambda>(head, nx).
     let old_head = head; nx = nx(tail_node := pt_ptr TagBits old_head) in
     (pt_pack TagBits head_node (pt_tag TagBits old_head + 1), nx))"

definition ts_take_all :: "nat \<Rightarrow> u64 \<times> next_map \<Rightarrow> ptr \<times> u64 \<times> next_map" where
  "ts_take_all TagBits = (\<lambda>(head, nx).
     let old_head = head; desired = pt_pack TagBits nullptr (pt_tag TagBits old_head + 1) in
     (pt_ptr TagBits head, desired, nx))"

subsection \<open>Heads and chains\<close>

text \<open>Addresses a head can hold: their low bits are free for the tag.\<close>

definition aligned :: "nat \<Rightarrow> ptr \<Rightarrow> bool" where
  "aligned b p \<longleftrightarrow> p mod 2 ^ b = 0 \<and> p < 2 ^ 64"

lemma TAG_MASK_eq: "b < 64 \<Longrightarrow> TAG_MASK b = mask b"
  by (simp add: TAG_MASK_def mask_eq_exp_minus_1 push_bit_eq_mult)

lemma aligned_bits:
  assumes "aligned b p" "i < b"
  shows "\<not> bit (word_of_nat p :: u64) i"
proof -
  have "take_bit b p = 0" using assms(1) by (simp add: aligned_def take_bit_eq_mod)
  then have "\<not> bit p i" using assms(2) by (metis bit_0_eq bit_take_bit_iff bot_apply bot_bool_def)
  then show ?thesis by (simp add: bit_simps)
qed

lemma pt_ptr_pack:
  assumes "aligned b p" "b < 64"
  shows "pt_ptr b (pt_pack b p t) = p"
proof -
  have "pt_pack b p t AND NOT (TAG_MASK b) = word_of_nat p"
    by (rule bit_eqI) (use aligned_bits [OF assms(1)] in
      \<open>auto simp: pt_pack_def TAG_MASK_eq [OF assms(2)] bit_simps\<close>)
  moreover have "p < 2 ^ 64" using assms(1) by (simp add: aligned_def)
  ultimately show ?thesis by (simp add: pt_ptr_def unat_u64_of_nat)
qed

lemma pt_tag_pack:
  assumes "aligned b p" "b < 64"
  shows "pt_tag b (pt_pack b p t) = take_bit b t"
  by (rule bit_eqI) (use aligned_bits [OF assms(1)] in
      \<open>auto simp: pt_tag_def pt_pack_def TAG_MASK_eq [OF assms(2)] bit_simps\<close>)

lemma aligned_null [simp]: "aligned b 0"
  by (simp add: aligned_def)

text \<open>The nodes from an address on, ended by the null pointer.\<close>

fun chain :: "next_map \<Rightarrow> ptr \<Rightarrow> ptr list \<Rightarrow> bool" where
  "chain nx p [] \<longleftrightarrow> p = nullptr"
| "chain nx p (x # xs) \<longleftrightarrow> p = x \<and> x \<noteq> nullptr \<and> chain nx (nx x) xs"

lemma chain_upd: "n \<notin> set xs \<Longrightarrow> chain (nx(n := v)) p xs \<longleftrightarrow> chain nx p xs"
  by (induction xs arbitrary: p) auto

lemma chain_cong: "(\<And>x. x \<in> set xs \<Longrightarrow> nx x = nx' x) \<Longrightarrow> chain nx p xs \<longleftrightarrow> chain nx' p xs"
  by (induction xs arbitrary: p) auto

lemma chain_null: "chain nx p xs \<Longrightarrow> 0 \<notin> set xs"
  by (induction xs arbitrary: p) auto

lemma chain_append_upd:
  assumes "chain nx p (xs @ [t])" "chain nx q ys" "distinct (xs @ [t])" "t \<notin> set ys"
  shows "chain (nx(t := q)) p (xs @ [t] @ ys)"
  using assms
proof (induction xs arbitrary: p)
  case Nil
  then have "chain (nx(t := q)) q ys" using chain_upd [of t ys nx q q] by simp
  with Nil show ?case by (simp add: fun_upd_same del: fun_upd_apply)
next
  case (Cons x xs)
  then show ?case by auto
qed

text \<open>What the undisturbed operations do: a stack holds the nodes of its chain.\<close>

definition ts_holds :: "nat \<Rightarrow> u64 \<times> next_map \<Rightarrow> ptr list \<Rightarrow> bool" where
  "ts_holds b = (\<lambda>(head, nx) xs. chain nx (pt_ptr b head) xs \<and> (\<forall>x \<in> set xs. aligned b x) \<and> distinct xs)"

lemma ts_init: "b < 64 \<Longrightarrow> ts_holds b (TreiberStack b, nx) []"
  by (simp add: ts_holds_def TreiberStack_def pt_ptr_pack)

lemma ts_push_holds:
  assumes "ts_holds b (head, nx) xs" "aligned b n" "n \<noteq> 0" "n \<notin> set xs" "b < 64"
  shows "ts_holds b (ts_push b n (head, nx)) (n # xs)"
  using assms by (simp add: ts_holds_def ts_push_def Let_def pt_ptr_pack chain_upd)

lemma ts_pop_holds:
  assumes "ts_holds b (head, nx) xs" "b < 64"
  shows "case xs of [] \<Rightarrow> ts_pop b (head, nx) = (0, head, nx)
    | x # ys \<Rightarrow> \<exists>head'. ts_pop b (head, nx) = (x, head', nx) \<and> ts_holds b (head', nx) ys"
proof (cases xs)
  case Nil
  with assms show ?thesis by (simp add: ts_holds_def ts_pop_def Let_def)
next
  case (Cons x ys)
  with assms have a: "aligned b (nx x)" by (cases ys) (auto simp: ts_holds_def)
  with assms Cons show ?thesis by (simp add: ts_holds_def ts_pop_def Let_def pt_ptr_pack)
qed

lemma ts_push_chain_holds:
  assumes "ts_holds b (head, nx) ys" "chain nx h (xs @ [t])" "distinct (xs @ [t] @ ys)" "\<forall>x \<in> set (xs @ [t]). aligned b x" "b < 64"
  shows "ts_holds b (ts_push_chain b h t (head, nx)) (xs @ [t] @ ys)"
proof -
  have "h = hd (xs @ [t])" using assms(2) by (cases xs) auto
  then have "aligned b h" using assms(4) by (cases xs) auto
  with assms chain_append_upd [of nx h xs t "pt_ptr b head" ys] show ?thesis
    by (auto simp: ts_holds_def ts_push_chain_def Let_def pt_ptr_pack)
qed

lemma ts_take_all_holds:
  assumes "ts_holds b (head, nx) xs" "b < 64"
  shows "\<exists>p head'. ts_take_all b (head, nx) = (p, head', nx) \<and> chain nx p xs \<and> ts_holds b (head', nx) []"
  using assms by (simp add: ts_holds_def ts_take_all_def Let_def pt_ptr_pack)

subsection \<open>Concurrent pushes and takes\<close>

text \<open>
  Any number of threads on one stack without \<open>pop\<close>, as on the lists of free blocks of the
  buffer pool, where the tag may be empty. Each thread owns nodes it may write to. A push of a
  chain loads the head (any value, the load is relaxed), links the last node of the chain to
  it, and swaps the head if it still is the value loaded; the weak compare-and-exchange may fail
  at any time and loads the head again. \<open>take_all\<close> computes its new head from a load of the old one
  and exchanges it. \<open>push\<close> is the push of a chain of one node.
\<close>

datatype ts_pc = Ready | Link "ptr list" u64 | Swap "ptr list" u64 | Grab u64

record ts_state =
  cs_head :: u64
  cs_next :: next_map
  cs_pc :: "nat \<Rightarrow> ts_pc"
  cs_own :: "nat \<Rightarrow> ptr set"

fun linked :: "next_map \<Rightarrow> ptr list \<Rightarrow> bool" where
  "linked nx (x # y # ys) \<longleftrightarrow> nx x = y \<and> linked nx (y # ys)"
| "linked nx _ \<longleftrightarrow> True"

inductive ts_step :: "nat \<Rightarrow> nat \<Rightarrow> ts_state \<Rightarrow> ts_state \<Rightarrow> bool" for b i where
  own_write: "cs_pc s i = Ready \<Longrightarrow> p \<in> cs_own s i \<Longrightarrow> ts_step b i s (s\<lparr>cs_next := (cs_next s)(p := v)\<rparr>)"
| push_load: "cs_pc s i = Ready \<Longrightarrow> xs \<noteq> [] \<Longrightarrow> distinct xs \<Longrightarrow> set xs \<subseteq> cs_own s i \<Longrightarrow> linked (cs_next s) xs \<Longrightarrow>
    ts_step b i s (s\<lparr>cs_pc := (cs_pc s)(i := Link xs e)\<rparr>)"
| push_link: "cs_pc s i = Link xs e \<Longrightarrow>
    ts_step b i s (s\<lparr>cs_next := (cs_next s)(last xs := pt_ptr b e), cs_pc := (cs_pc s)(i := Swap xs e)\<rparr>)"
| push_swap: "cs_pc s i = Swap xs e \<Longrightarrow> cs_head s = e \<Longrightarrow>
    ts_step b i s (s\<lparr>cs_head := pt_pack b (hd xs) (pt_tag b e + 1), cs_pc := (cs_pc s)(i := Ready),
      cs_own := (cs_own s)(i := cs_own s i - set xs)\<rparr>)"
| push_retry: "cs_pc s i = Swap xs e \<Longrightarrow> ts_step b i s (s\<lparr>cs_pc := (cs_pc s)(i := Link xs (cs_head s))\<rparr>)"
| take_load: "cs_pc s i = Ready \<Longrightarrow> ts_step b i s (s\<lparr>cs_pc := (cs_pc s)(i := Grab (pt_pack b nullptr (pt_tag b e + 1)))\<rparr>)"
| take_swap: "cs_pc s i = Grab d \<Longrightarrow> chain (cs_next s) (pt_ptr b (cs_head s)) st \<Longrightarrow>
    ts_step b i s (s\<lparr>cs_head := d, cs_pc := (cs_pc s)(i := Ready), cs_own := (cs_own s)(i := cs_own s i \<union> set st)\<rparr>)"

inductive ts_run :: "nat \<Rightarrow> ts_state \<Rightarrow> ts_state \<Rightarrow> bool" for b where
  ts_none: "ts_run b s s"
| ts_more: "ts_run b s s' \<Longrightarrow> ts_step b i s' s'' \<Longrightarrow> ts_run b s s''"

text \<open>A new stack, with the nodes divided among the threads.\<close>

definition ts_new :: "nat \<Rightarrow> ts_state \<Rightarrow> bool" where
  "ts_new b s \<longleftrightarrow> cs_head s = TreiberStack b \<and> (\<forall>i. cs_pc s i = Ready) \<and> (\<forall>i j. i \<noteq> j \<longrightarrow> cs_own s i \<inter> cs_own s j = {})
     \<and> (\<forall>i. \<forall>p \<in> cs_own s i. aligned b p \<and> p \<noteq> nullptr)"

subsubsection \<open>Invariant\<close>

definition pc_ok :: "nat \<Rightarrow> ts_state \<Rightarrow> nat \<Rightarrow> bool" where
  "pc_ok b s i \<longleftrightarrow> (case cs_pc s i of
       Ready \<Rightarrow> True
     | Link xs e \<Rightarrow> xs \<noteq> [] \<and> distinct xs \<and> set xs \<subseteq> cs_own s i \<and> linked (cs_next s) xs
     | Swap xs e \<Rightarrow> xs \<noteq> [] \<and> distinct xs \<and> set xs \<subseteq> cs_own s i \<and> linked (cs_next s) xs \<and> cs_next s (last xs) = pt_ptr b e
     | Grab d \<Rightarrow> pt_ptr b d = nullptr)"

definition ts_inv :: "nat \<Rightarrow> ptr set \<Rightarrow> ts_state \<Rightarrow> ptr list \<Rightarrow> bool" where
  "ts_inv b nodes s st \<longleftrightarrow> chain (cs_next s) (pt_ptr b (cs_head s)) st \<and> distinct st
     \<and> (\<forall>i j. i \<noteq> j \<longrightarrow> cs_own s i \<inter> cs_own s j = {}) \<and> (\<forall>i. cs_own s i \<inter> set st = {})
     \<and> (\<Union>i. cs_own s i) \<union> set st = nodes \<and> (\<forall>p \<in> nodes. aligned b p \<and> p \<noteq> nullptr) \<and> (\<forall>i. pc_ok b s i)"

lemma linked_upd: "p \<notin> set (butlast xs) \<Longrightarrow> linked (nx(p := v)) xs \<longleftrightarrow> linked nx xs"
  by (induction nx xs rule: linked.induct) auto

lemma last_notin_butlast: "distinct xs \<Longrightarrow> xs \<noteq> [] \<Longrightarrow> last xs \<notin> set (butlast xs)"
  by (metis append_butlast_last_id distinct_append disjoint_insert(1) inf.commute list.simps(15))

lemma chain_linked:
  assumes "linked nx xs" "xs \<noteq> []" "0 \<notin> set xs" "chain nx (nx (last xs)) ys"
  shows "chain nx (hd xs) (xs @ ys)"
  using assms by (induction nx xs rule: linked.induct) auto

lemma chain_unique: "chain nx p xs \<Longrightarrow> chain nx p ys \<Longrightarrow> xs = ys"
proof (induction xs arbitrary: p ys)
  case Nil
  then show ?case by (cases ys) auto
next
  case (Cons x xs)
  then show ?case by (cases ys) auto
qed

text \<open>A write to a node another thread does not own does not disturb it.\<close>

lemma pc_ok_write:
  assumes "pc_ok b s j" "p \<notin> cs_own s j"
  shows "pc_ok b (s\<lparr>cs_next := (cs_next s)(p := v)\<rparr>) j"
proof (cases "cs_pc s j")
  case (Link xs e)
  with assms have "p \<notin> set (butlast xs)" by (auto simp: pc_ok_def dest: in_set_butlastD)
  with assms Link show ?thesis by (simp add: pc_ok_def linked_upd)
next
  case (Swap xs e)
  with assms have "p \<notin> set xs" "xs \<noteq> []" by (auto simp: pc_ok_def)
  then have "p \<notin> set (butlast xs)" "p \<noteq> last xs" by (auto dest: in_set_butlastD)
  with assms Swap show ?thesis by (simp add: pc_ok_def linked_upd)
qed (use assms in \<open>simp_all add: pc_ok_def\<close>)

lemma pc_ok_other:
  assumes "pc_ok b s j" "cs_pc s' j = cs_pc s j" "cs_next s' = cs_next s" "cs_own s' j = cs_own s j"
  shows "pc_ok b s' j"
  using assms by (cases "cs_pc s j") (simp_all add: pc_ok_def)

lemma ts_inv_step:
  assumes "ts_inv b nodes s st" "ts_step b i s s'" "b < 64"
  shows "\<exists>st'. ts_inv b nodes s' st'"
proof -
  have inv: "chain (cs_next s) (pt_ptr b (cs_head s)) st" "distinct st" "\<forall>i j. i \<noteq> j \<longrightarrow> cs_own s i \<inter> cs_own s j = {}"
    "\<forall>i. cs_own s i \<inter> set st = {}" "(\<Union>i. cs_own s i) \<union> set st = nodes" "\<forall>p \<in> nodes. aligned b p \<and> p \<noteq> nullptr" "\<forall>i. pc_ok b s i"
    using assms(1) by (simp_all add: ts_inv_def)
  have others: "pc_ok b s'' j" if "j \<noteq> i" "cs_pc s'' = (cs_pc s)(i := pc)" "cs_next s'' = cs_next s" "cs_own s'' = (cs_own s)(i := Q)" for s'' j pc Q
    using inv(7) pc_ok_other [of b s j s''] that by simp
  have writes: "ts_inv b nodes (s\<lparr>cs_next := (cs_next s)(p := v), cs_pc := (cs_pc s)(i := pc)\<rparr>) st"
    if "p \<in> cs_own s i" "pc_ok b (s\<lparr>cs_next := (cs_next s)(p := v), cs_pc := (cs_pc s)(i := pc)\<rparr>) i" for p v pc
  proof -
    have "pc_ok b (s\<lparr>cs_next := (cs_next s)(p := v), cs_pc := (cs_pc s)(i := pc)\<rparr>) j" if "j \<noteq> i" for j
    proof -
      have "p \<notin> cs_own s j" using inv(3) that \<open>p \<in> cs_own s i\<close> by blast
      from pc_ok_write [OF _ this, of b v] inv(7) have "pc_ok b (s\<lparr>cs_next := (cs_next s)(p := v)\<rparr>) j" by simp
      then show ?thesis by (rule pc_ok_other) (use that in simp_all)
    qed
    then have "\<forall>j. pc_ok b (s\<lparr>cs_next := (cs_next s)(p := v), cs_pc := (cs_pc s)(i := pc)\<rparr>) j" using that(2) by metis
    moreover have "p \<notin> set st" using inv(4) that(1) by blast
    ultimately show ?thesis using inv by (simp add: ts_inv_def chain_upd)
  qed
  from assms(2) show ?thesis
  proof cases
    case (own_write p v)
    then have "s' = s\<lparr>cs_next := (cs_next s)(p := v), cs_pc := (cs_pc s)(i := Ready)\<rparr>" by (simp add: fun_upd_idem)
    moreover have "pc_ok b s' i" using own_write by (simp add: pc_ok_def)
    ultimately show ?thesis using writes [where p = p and v = v and pc = Ready] own_write(3) by auto
  next
    case (push_load xs e)
    have "pc_ok b s' i" using push_load by (simp add: pc_ok_def)
    moreover have "pc_ok b s' j" if "j \<noteq> i" for j using others [OF that, of s' "Link xs e" "cs_own s i"] push_load(1) by (simp add: fun_upd_idem)
    ultimately have "\<forall>j. pc_ok b s' j" by metis
    with push_load(1) inv show ?thesis by (intro exI [of _ st]) (simp add: ts_inv_def)
  next
    case (push_link xs e)
    have xs: "xs \<noteq> []" "distinct xs" "set xs \<subseteq> cs_own s i" "linked (cs_next s) xs" using inv(7) push_link(2) by (auto simp: pc_ok_def dest!: spec [of _ i])
    then have "pc_ok b s' i" "last xs \<in> cs_own s i" using push_link(1) last_notin_butlast [OF xs(2,1)] by (auto simp: pc_ok_def linked_upd)
    then show ?thesis using writes [where p = "last xs" and v = "pt_ptr b e" and pc = "Swap xs e"] push_link(1) by auto
  next
    case (push_swap xs e)
    have xs: "xs \<noteq> []" "distinct xs" "set xs \<subseteq> cs_own s i" "linked (cs_next s) xs" "cs_next s (last xs) = pt_ptr b e"
      using inv(7) push_swap(2) by (auto simp: pc_ok_def dest!: spec [of _ i])
    have n: "set xs \<subseteq> nodes" using xs(3) inv(5) by blast
    then have "0 \<notin> set xs" using inv(6) by auto
    then have ch: "chain (cs_next s) (hd xs) (xs @ st)" using chain_linked [OF xs(4,1)] xs(5) inv(1) push_swap(3) by simp
    have "aligned b (hd xs)" using n xs(1) inv(6) by (auto dest: hd_in_set)
    then have "chain (cs_next s') (pt_ptr b (cs_head s')) (xs @ st)" using ch push_swap(1) assms(3) by (simp add: pt_ptr_pack)
    moreover have "distinct (xs @ st)" using xs(2,3) inv(2,4) by auto
    moreover have "\<forall>j. pc_ok b s' j"
    proof
      fix j
      show "pc_ok b s' j" using others [of j s' Ready "cs_own s i - set xs"] push_swap(1) by (cases "j = i") (simp_all add: pc_ok_def)
    qed
    moreover have "(\<Union>j. cs_own s' j) \<union> set (xs @ st) = nodes" using push_swap(1) xs(3) inv(5) by (auto split: if_splits)
    moreover have "\<forall>j k. j \<noteq> k \<longrightarrow> cs_own s' j \<inter> cs_own s' k = {}" using push_swap(1) inv(3) by (simp add: Diff_Int_distrib Diff_Int_distrib2)
    moreover have "cs_own s' j \<inter> set (xs @ st) = {}" for j
    proof (cases "j = i")
      case True
      then show ?thesis using push_swap(1) inv(4) by auto
    next
      case False
      then have "cs_own s i \<inter> cs_own s j = {}" using inv(3) by simp
      with False show ?thesis using push_swap(1) inv(4) xs(3) by auto
    qed
    ultimately show ?thesis using inv(6) by (intro exI [of _ "xs @ st"]) (simp add: ts_inv_def)
  next
    case (push_retry xs e)
    have "pc_ok b s' i" using inv(7) push_retry by (auto simp: pc_ok_def dest!: spec [of _ i])
    moreover have "pc_ok b s' j" if "j \<noteq> i" for j using others [OF that, of s' "Link xs (cs_head s)" "cs_own s i"] push_retry(1) by (simp add: fun_upd_idem)
    ultimately have "\<forall>j. pc_ok b s' j" by metis
    with push_retry(1) inv show ?thesis by (intro exI [of _ st]) (simp add: ts_inv_def)
  next
    case (take_load e)
    have "pc_ok b s' i" using take_load(1) assms(3) by (simp add: pc_ok_def pt_ptr_pack)
    moreover have "pc_ok b s' j" if "j \<noteq> i" for j
      using others [OF that, of s' "Grab (pt_pack b nullptr (pt_tag b e + 1))" "cs_own s i"] take_load(1) by (simp add: fun_upd_idem)
    ultimately have "\<forall>j. pc_ok b s' j" by metis
    with take_load(1) inv show ?thesis by (intro exI [of _ st]) (simp add: ts_inv_def)
  next
    case (take_swap d st')
    have st: "st' = st" using chain_unique [OF take_swap(3) inv(1)] .
    have d: "pt_ptr b d = 0" using inv(7) take_swap(2) by (auto simp: pc_ok_def dest!: spec [of _ i])
    have "\<forall>j. pc_ok b s' j"
    proof
      fix j
      show "pc_ok b s' j" using others [of j s' Ready "cs_own s i \<union> set st'"] take_swap(1) by (cases "j = i") (simp_all add: pc_ok_def)
    qed
    moreover have "(\<Union>j. cs_own s' j) \<union> set [] = nodes" using take_swap(1) st inv(5) by (auto split: if_splits)
    ultimately show ?thesis using take_swap(1) inv(3,4,6) st d by (intro exI [of _ "[]"]) (auto simp: ts_inv_def)
  qed
qed

lemma ts_run_inv:
  assumes "ts_run b s s'" "ts_new b s" "b < 64"
  shows "\<exists>st. ts_inv b (\<Union>i. cs_own s i) s' st"
  using assms(1,2)
proof (induction rule: ts_run.induct)
  case (ts_none s)
  then have "ts_inv b (\<Union>i. cs_own s i) s []"
    using assms(3) by (auto simp: ts_new_def ts_inv_def TreiberStack_def pt_ptr_pack pc_ok_def)
  then show ?case ..
next
  case (ts_more s s' i s'')
  then show ?case using ts_inv_step [OF _ ts_more.hyps(2) assms(3)] by blast
qed

text \<open>
  C18. Concurrent pushes and takes lose and duplicate nothing: in every interleaving of threads
  that push chains of nodes they own and take all nodes, with stale loads of the head and failing
  exchanges, the head always leads to a chain of distinct nodes ended by the null pointer, no node
  is owned by two threads or both owned and on the stack, and every node is somewhere. This needs
  no tag: a node that leaves the stack and comes back between the load and the swap of a push
  (the ABA problem) does no harm.
\<close>

theorem treiber_conserves:
  assumes "ts_new b s" "ts_run b s s'" "b < 64"
  shows "\<exists>st. chain (cs_next s') (pt_ptr b (cs_head s')) st \<and> distinct st
    \<and> (\<forall>i j. i \<noteq> j \<longrightarrow> cs_own s' i \<inter> cs_own s' j = {}) \<and> (\<forall>i. cs_own s' i \<inter> set st = {})
    \<and> (\<Union>i. cs_own s' i) \<union> set st = (\<Union>i. cs_own s i)"
  using ts_run_inv [OF assms(2,1,3)] by (auto simp: ts_inv_def)

theorem treiber_conserves_witness:
  "\<exists>st. ts_run 0 \<lparr>cs_head = TreiberStack 0, cs_next = (\<lambda>_. 0), cs_pc = (\<lambda>_. Ready), cs_own = (\<lambda>i. if i = 0 then {16} else {})\<rparr>
      \<lparr>cs_head = TreiberStack 0, cs_next = (\<lambda>_. 0), cs_pc = (\<lambda>_. Ready)(0 := Link [16] 0), cs_own = (\<lambda>i. if i = 0 then {16} else {})\<rparr>
    \<and> chain (\<lambda>_. 0) (pt_ptr 0 (TreiberStack 0)) st \<and> {16} \<union> set st = {16}"
proof -
  let ?s = "\<lparr>cs_head = TreiberStack 0, cs_next = (\<lambda>_. 0), cs_pc = (\<lambda>_. Ready), cs_own = (\<lambda>i. if i = 0 then {16} else {})\<rparr>"
  let ?t = "\<lparr>cs_head = TreiberStack 0, cs_next = (\<lambda>_. 0), cs_pc = (\<lambda>_. Ready)(0 := Link [16] 0), cs_own = (\<lambda>i. if i = 0 then {16} else {})\<rparr>"
  have new: "ts_new 0 ?s" by (auto simp: ts_new_def aligned_def split: if_splits)
  have "ts_step 0 0 ?s ?t" using ts_step.push_load [of ?s 0 "[16]" 0 0] by simp
  then have run: "ts_run 0 ?s ?t" using ts_more [OF ts_none] by blast
  have u: "(\<Union>i :: nat. if i = 0 then {16 :: nat} else {}) = {16}" by (auto split: if_splits)
  from treiber_conserves [OF new run] run u show ?thesis by auto
qed

end
