(* ===== verification/Buffer_Pool.thy ===== *)
theory Buffer_Pool
  imports Treiber_Stack "HOL-Library.Multiset"
begin

section \<open>Buffer pool (src/common/buffer\_pool.hpp)\<close>

text \<open>
  The allocator: chunks of 2 MiB are cut into runs of 64 KiB, a run into blocks of one size
  class. Free blocks are in the magazine of a thread, an array used as a stack, or on the shared
  lists of the classes. The model is the pool as one thread uses it: its magazine, the shared
  lists, the chunks, the \<open>next\<close> fields of blocks and chunks, and the addresses mapped into the
  process. The kernel's side of \<open>mmap\<close> and \<open>madvise\<close> is an argument. An index outside an array and a chunk descriptor that is not there are
  \<open>Bad_Access\<close>; the walk to the end of a list that never ends is \<open>Diverged\<close>.
\<close>

subsection \<open>Sizes and classes\<close>

definition MIN_CLASS_SIZE :: nat where "MIN_CLASS_SIZE = 16"
definition MAX_CLASS_SIZE :: nat where "MAX_CLASS_SIZE = 8192"
definition MIN_SHIFT :: nat where "MIN_SHIFT = countr_zero MIN_CLASS_SIZE"
definition MAX_SHIFT :: nat where "MAX_SHIFT = countr_zero MAX_CLASS_SIZE"
definition N_CLASSES :: nat where "N_CLASSES = MAX_SHIFT - MIN_SHIFT + 1"
definition CHUNK_SIZE :: nat where "CHUNK_SIZE = 2 * 1024 * 1024"
definition RUN_SIZE :: nat where "RUN_SIZE = 64 * 1024"
definition RUN_SHIFT :: nat where "RUN_SHIFT = countr_zero RUN_SIZE"
definition N_RUNS :: nat where "N_RUNS = CHUNK_SIZE div RUN_SIZE"
definition BATCH_SIZE :: nat where "BATCH_SIZE = 16"
definition N_BATCHES :: nat where "N_BATCHES = 64"
definition CACHE_SIZE :: nat where "CACHE_SIZE = BATCH_SIZE * N_BATCHES"
definition SIZEOF_CHUNK :: nat where "SIZEOF_CHUNK = 64"

text \<open>\<open>std::bit_ceil\<close> and \<open>std::countr_one\<close>.\<close>

fun bit_ceil :: "nat \<Rightarrow> nat" where
  "bit_ceil n = (if n \<le> 1 then 1 else 2 * bit_ceil ((n + 1) div 2))"

declare bit_ceil.simps [simp del]

function countr_one :: "nat \<Rightarrow> nat" where
  "countr_one n = (if odd n then Suc (countr_one (n div 2)) else 0)"
  by pat_completeness auto
termination by (relation "measure id") (auto elim: oddE)

declare countr_one.simps [simp del]

definition class_of :: "nat \<Rightarrow> nat" where
  "class_of sz = (let c = bit_ceil sz; ex = countr_zero c in if ex < MIN_SHIFT then 0 else ex - MIN_SHIFT)"

definition sizeof_class :: "nat \<Rightarrow> nat" where
  "sizeof_class class_idx = 2 ^ (class_idx + MIN_SHIFT)"

text \<open>A \<open>size_t\<close> addition wraps around; masking with \<open>~(CHUNK_SIZE - 1)\<close> rounds down.\<close>

definition round_to_cnk_sz :: "nat \<Rightarrow> nat" where
  "round_to_cnk_sz val = ((val + CHUNK_SIZE - 1) mod 2 ^ 64) div CHUNK_SIZE * CHUNK_SIZE"

subsection \<open>Chunks\<close>

definition clear_bit :: "u32 \<Rightarrow> nat \<Rightarrow> u32" where
  "clear_bit data i = data AND NOT (push_bit i 1)"

definition set_bit_at :: "u32 \<Rightarrow> nat \<Rightarrow> u32" where
  "set_bit_at data i = data OR push_bit i 1"

definition get_bit :: "u32 \<Rightarrow> nat \<Rightarrow> bool" where
  "get_bit data i \<longleftrightarrow> data AND push_bit i 1 \<noteq> 0"

definition first_empty :: "u32 \<Rightarrow> nat" where
  "first_empty data = countr_one (unat data)"

record chunk_desc =
  ck_run_class :: "nat list"
  ck_bmap :: u32
  ck_free_runs :: u32
  ck_is_large :: bool
  ck_sz :: nat

definition Chunk_init :: chunk_desc where
  "Chunk_init = \<lparr>ck_run_class = replicate N_RUNS 0, ck_bmap = 1, ck_free_runs = word_of_nat (N_RUNS - 1), ck_is_large = False, ck_sz = 0\<rparr>"

definition has_free_runs :: "chunk_desc \<Rightarrow> bool" where
  "has_free_runs ck \<longleftrightarrow> ck_free_runs ck > 0"

definition claim_run :: "ptr \<Rightarrow> nat \<Rightarrow> chunk_desc \<Rightarrow> ptr \<times> chunk_desc" where
  "claim_run this cls ck =
     (let first_free = first_empty (ck_bmap ck) in
      if first_free \<ge> N_RUNS then (nullptr, ck)
      else (this + first_free * RUN_SIZE,
            ck\<lparr>ck_run_class := (ck_run_class ck)[first_free := cls], ck_bmap := set_bit_at (ck_bmap ck) first_free,
               ck_free_runs := ck_free_runs ck - 1\<rparr>))"

subsection \<open>The pool\<close>

record class_state =
  mg_stk :: "ptr list"
  mg_top :: nat

record pool =
  bp_next :: next_map
  bp_classes :: "u64 list"
  bp_mag :: "class_state list"
  bp_chunks :: "ptr \<Rightarrow> chunk_desc option"
  bp_chunk_next :: next_map
  bp_chunk_head :: u64
  bp_vm :: "ptr set"

definition CHUNK_TAG_BITS :: nat where "CHUNK_TAG_BITS = countr_zero CHUNK_SIZE"

text \<open>The state of a program before its first allocation.\<close>

definition BufferPool :: "ptr set \<Rightarrow> pool" where
  "BufferPool vm = \<lparr>bp_next = (\<lambda>_. nullptr), bp_classes = replicate N_CLASSES (TreiberStack 0),
     bp_mag = replicate N_CLASSES \<lparr>mg_stk = replicate CACHE_SIZE nullptr, mg_top = 0\<rparr>, bp_chunks = (\<lambda>_. None),
     bp_chunk_next = (\<lambda>_. nullptr), bp_chunk_head = TreiberStack CHUNK_TAG_BITS, bp_vm = vm\<rparr>"

definition base_cls_from_ptr :: "ptr \<Rightarrow> pool \<Rightarrow> (ptr \<times> chunk_desc \<times> nat) res" where
  "base_cls_from_ptr p s =
     (let base = p div CHUNK_SIZE * CHUNK_SIZE; off = p - base; run = drop_bit RUN_SHIFT off in
      case bp_chunks s base of
        None \<Rightarrow> Inl Bad_Access
      | Some cnk \<Rightarrow> if length (ck_run_class cnk) \<le> run then Inl Bad_Access else Inr (base, cnk, ck_run_class cnk ! run))"

text \<open>The shared list of a class.\<close>

definition g_push_chain :: "nat \<Rightarrow> ptr \<Rightarrow> ptr \<Rightarrow> pool \<Rightarrow> pool" where
  "g_push_chain cls h t s = (let (head', nx) = ts_push_chain 0 h t (bp_classes s ! cls, bp_next s) in
     s\<lparr>bp_classes := (bp_classes s)[cls := head'], bp_next := nx\<rparr>)"

definition g_take_all :: "nat \<Rightarrow> pool \<Rightarrow> ptr \<times> pool" where
  "g_take_all cls s = (let (p, head', nx) = ts_take_all 0 (bp_classes s ! cls, bp_next s) in
     (p, s\<lparr>bp_classes := (bp_classes s)[cls := head'], bp_next := nx\<rparr>))"

subsection \<open>Magazines\<close>

definition mag_is_full :: "nat \<Rightarrow> pool \<Rightarrow> bool" where
  "mag_is_full cls s \<longleftrightarrow> mg_top (bp_mag s ! cls) \<ge> length (mg_stk (bp_mag s ! cls))"

text \<open>\<open>stk_[--top_]\<close> and \<open>stk_[top_++] = blk\<close>.\<close>

definition stk_pop :: "class_state \<Rightarrow> (ptr \<times> class_state) res" where
  "stk_pop st = (if mg_top st = 0 \<or> length (mg_stk st) < mg_top st then Inl Bad_Access
     else Inr (mg_stk st ! (mg_top st - 1), st\<lparr>mg_top := mg_top st - 1\<rparr>))"

definition stk_push :: "ptr \<Rightarrow> class_state \<Rightarrow> class_state res" where
  "stk_push blk st = (if length (mg_stk st) \<le> mg_top st then Inl Bad_Access
     else Inr (st\<lparr>mg_stk := (mg_stk st)[mg_top st := blk], mg_top := mg_top st + 1\<rparr>))"

text \<open>The loop that links blocks popped from the stack behind \<open>current\<close>.\<close>

fun link_loop :: "nat \<Rightarrow> ptr \<Rightarrow> next_map \<Rightarrow> class_state \<Rightarrow> (ptr \<times> next_map \<times> class_state) res" where
  "link_loop 0 current nx st = Inr (current, nx, st)"
| "link_loop (Suc n) current nx st =
     bind_res (stk_pop st) (\<lambda>(p, st). let nx = nx(current := p) in link_loop n (nx current) nx st)"

text \<open>The head popped, \<open>n\<close> more blocks linked behind it, and the chain pushed to the shared list.\<close>

definition donate :: "nat \<Rightarrow> nat \<Rightarrow> pool \<Rightarrow> pool res" where
  "donate cls n s =
     bind_res (stk_pop (bp_mag s ! cls)) (\<lambda>(h, st).
     bind_res (link_loop n h (bp_next s) st) (\<lambda>(current, nx, st).
       Inr (g_push_chain cls h current (s\<lparr>bp_next := nx(current := nullptr), bp_mag := (bp_mag s)[cls := st]\<rparr>))))"

definition donate_batch :: "nat \<Rightarrow> pool \<Rightarrow> pool res" where
  "donate_batch cls s = donate cls (BATCH_SIZE - 1) s"

fun donate_all_loop :: "nat list \<Rightarrow> pool \<Rightarrow> pool res" where
  "donate_all_loop [] s = Inr s"
| "donate_all_loop (cls # cs) s =
     (if mg_top (bp_mag s ! cls) > 0
      then bind_res (donate cls (mg_top (bp_mag s ! cls) - 1) s) (donate_all_loop cs)
      else donate_all_loop cs s)"

definition donate_all :: "pool \<Rightarrow> pool res" where
  "donate_all s = donate_all_loop [0..<N_CLASSES] s"

text \<open>Blocks moved from a chain to the stack, at most \<open>n\<close>; then the rest of the chain.\<close>

fun fill_loop :: "nat \<Rightarrow> next_map \<Rightarrow> ptr \<Rightarrow> class_state \<Rightarrow> (ptr \<times> class_state) res" where
  "fill_loop 0 nx h st = Inr (h, st)"
| "fill_loop (Suc n) nx h st =
     (if h = nullptr then Inr (h, st) else bind_res (stk_push h st) (\<lambda>st. fill_loop n nx (nx h) st))"

partial_function (option) find_tail :: "next_map \<Rightarrow> ptr \<Rightarrow> ptr option" where
  "find_tail nx p = (if nx p = nullptr then Some p else find_tail nx (nx p))"

definition give_back :: "nat \<Rightarrow> ptr \<Rightarrow> pool \<Rightarrow> pool res" where
  "give_back cls h s = (if h = nullptr then Inr s
     else case find_tail (bp_next s) h of None \<Rightarrow> Inl Diverged | Some rtail \<Rightarrow> Inr (g_push_chain cls h rtail s))"

text \<open>The loop of \<open>refill_from_chain\<close> goes on while there are blocks and room.\<close>

function refill_loop :: "next_map \<Rightarrow> ptr \<Rightarrow> class_state \<Rightarrow> ptr \<times> class_state" where
  "refill_loop nx h st =
     (if h \<noteq> nullptr \<and> mg_top st < length (mg_stk st)
      then refill_loop nx (nx h) (st\<lparr>mg_stk := (mg_stk st)[mg_top st := h], mg_top := mg_top st + 1\<rparr>)
      else (h, st))"
  by pat_completeness auto
termination by (relation "measure (\<lambda>(nx, h, st). length (mg_stk st) - mg_top st)") auto

declare refill_loop.simps [simp del]

definition refill_from_chain :: "nat \<Rightarrow> ptr \<Rightarrow> pool \<Rightarrow> pool res" where
  "refill_from_chain cls h s =
     (let (h, st) = refill_loop (bp_next s) h (bp_mag s ! cls) in give_back cls h (s\<lparr>bp_mag := (bp_mag s)[cls := st]\<rparr>))"

definition take_batch :: "nat \<Rightarrow> pool \<Rightarrow> (bool \<times> pool) res" where
  "take_batch cls s =
     (let (h, s) = g_take_all cls s; found = (h \<noteq> nullptr); st = bp_mag s ! cls;
          batch_size = min BATCH_SIZE (length (mg_stk st) - mg_top st) in
      bind_res (fill_loop batch_size (bp_next s) h st) (\<lambda>(h, st).
      bind_res (give_back cls h (s\<lparr>bp_mag := (bp_mag s)[cls := st]\<rparr>)) (\<lambda>s.
      Inr (found, s))))"

text \<open>\<open>thread_init\<close> only registers the destructor that calls \<open>donate_all\<close> at the end of the thread.\<close>

definition mag_pop :: "nat \<Rightarrow> pool \<Rightarrow> (ptr \<times> pool) res" where
  "mag_pop cls s =
     (if length (bp_mag s) \<le> cls then Inl Bad_Access
      else
        bind_res (if mg_top (bp_mag s ! cls) = 0 then take_batch cls s else Inr (True, s)) (\<lambda>(found, s).
          if \<not> found then Inr (nullptr, s)
          else bind_res (stk_pop (bp_mag s ! cls)) (\<lambda>(p, st). Inr (p, s\<lparr>bp_mag := (bp_mag s)[cls := st]\<rparr>))))"

definition mag_push :: "ptr \<Rightarrow> nat \<Rightarrow> pool \<Rightarrow> pool res" where
  "mag_push blk cls s =
     (if length (bp_mag s) \<le> cls then Inl Bad_Access
      else
        bind_res (if mg_top (bp_mag s ! cls) = length (mg_stk (bp_mag s ! cls)) then donate_batch cls s else Inr s) (\<lambda>s.
        bind_res (stk_push blk (bp_mag s ! cls)) (\<lambda>st. Inr (s\<lparr>bp_mag := (bp_mag s)[cls := st]\<rparr>))))"

subsection \<open>Runs and chunks\<close>

fun carve_loop :: "nat \<Rightarrow> nat \<Rightarrow> ptr \<Rightarrow> next_map \<Rightarrow> ptr \<times> next_map" where
  "carve_loop 0 class_sz current nx = (current, nx)"
| "carve_loop (Suc n) class_sz current nx = carve_loop n class_sz (current + class_sz) (nx(current := current + class_sz))"

definition carve_run_in_blocks :: "ptr \<Rightarrow> nat \<Rightarrow> next_map \<Rightarrow> (ptr \<times> ptr) \<times> next_map" where
  "carve_run_in_blocks base cls nx =
     (let class_sz = sizeof_class cls; n_blocks = RUN_SIZE div class_sz;
          (current, nx) = carve_loop (n_blocks - 1) class_sz base nx in
      ((base, current), nx(current := nullptr)))"

text \<open>
  The kernel: \<open>mmap\<close> with or without \<open>MAP_HUGETLB\<close>, for a number of bytes, given the addresses
  already mapped, and whether \<open>madvise\<close> succeeds on a range. \<open>munmap\<close> removes a range.
\<close>

record kernel =
  k_mmap :: "bool \<Rightarrow> nat \<Rightarrow> ptr set \<Rightarrow> ptr option"
  k_madvise :: "ptr \<Rightarrow> nat \<Rightarrow> bool"

definition mem_range :: "ptr \<Rightarrow> nat \<Rightarrow> ptr set" where
  "mem_range p n = {p..<p + n}"

text \<open>\<open>std::align\<close>: the next multiple of the alignment and the space left from there, if \<open>sz\<close> bytes fit.\<close>

definition std_align :: "nat \<Rightarrow> nat \<Rightarrow> ptr \<Rightarrow> nat \<Rightarrow> (ptr \<times> nat) option" where
  "std_align alignment sz p space =
     (let q = (p + alignment - 1) div alignment * alignment in
      if space < q - p + sz then None else Some (q, space - (q - p)))"

definition place_chunk :: "ptr \<Rightarrow> nat \<Rightarrow> pool \<Rightarrow> ptr \<times> pool" where
  "place_chunk chunk_aligned alloc_size s =
     (if chunk_aligned mod CHUNK_SIZE \<noteq> 0 then (nullptr, s\<lparr>bp_vm := bp_vm s - mem_range chunk_aligned alloc_size\<rparr>)
      else (chunk_aligned, s\<lparr>bp_chunks := (bp_chunks s)(chunk_aligned \<mapsto> Chunk_init)\<rparr>))"

definition allocate_new_chunk :: "kernel \<Rightarrow> nat \<Rightarrow> pool \<Rightarrow> (ptr \<times> pool) res" where
  "allocate_new_chunk K sz s =
     (case k_mmap K True sz (bp_vm s) of
        Some chunk_aligned \<Rightarrow> Inr (place_chunk chunk_aligned sz (s\<lparr>bp_vm := bp_vm s \<union> mem_range chunk_aligned sz\<rparr>))
      | None \<Rightarrow>
          let alloc_size = sz + CHUNK_SIZE in
          (case k_mmap K False alloc_size (bp_vm s) of
             None \<Rightarrow> Inr (nullptr, s)
           | Some chunk_raw \<Rightarrow>
               let s = s\<lparr>bp_vm := bp_vm s \<union> mem_range chunk_raw alloc_size\<rparr> in
               (case std_align CHUNK_SIZE sz chunk_raw alloc_size of
                  None \<Rightarrow> Inl Bad_Access
                | Some (chunk_aligned, space) \<Rightarrow>
                    if \<not> k_madvise K chunk_aligned sz then Inr (nullptr, s\<lparr>bp_vm := bp_vm s - mem_range chunk_raw alloc_size\<rparr>)
                    else
                      let head_slack = alloc_size - space; tail_slack = space - sz;
                          s = (if head_slack \<noteq> 0 then s\<lparr>bp_vm := bp_vm s - mem_range chunk_raw head_slack\<rparr> else s);
                          s = (if tail_slack \<noteq> 0 then s\<lparr>bp_vm := bp_vm s - mem_range (chunk_aligned + sz) tail_slack\<rparr> else s) in
                      Inr (place_chunk chunk_aligned alloc_size s))))"

definition bp_refill :: "kernel \<Rightarrow> nat \<Rightarrow> pool \<Rightarrow> (bool \<times> pool) res" where
  "bp_refill K cls s =
     (let (free_chunk, head', cnx) = ts_pop CHUNK_TAG_BITS (bp_chunk_head s, bp_chunk_next s);
          s = s\<lparr>bp_chunk_head := head', bp_chunk_next := cnx\<rparr> in
      bind_res (if free_chunk = nullptr then allocate_new_chunk K CHUNK_SIZE s else Inr (free_chunk, s)) (\<lambda>(free_chunk, s).
      if free_chunk = nullptr then Inr (False, s)
      else case bp_chunks s free_chunk of
        None \<Rightarrow> Inl Bad_Access
      | Some ck \<Rightarrow>
          let (base, ck) = claim_run free_chunk cls ck; s = s\<lparr>bp_chunks := (bp_chunks s)(free_chunk \<mapsto> ck)\<rparr> in
          if base = nullptr then Inr (False, s)
          else
            let ((h, _), nx) = carve_run_in_blocks base cls (bp_next s); s = s\<lparr>bp_next := nx\<rparr> in
            bind_res (refill_from_chain cls h s) (\<lambda>s.
              if has_free_runs ck then
                let (head', cnx) = ts_push CHUNK_TAG_BITS free_chunk (bp_chunk_head s, bp_chunk_next s) in
                Inr (True, s\<lparr>bp_chunk_head := head', bp_chunk_next := cnx\<rparr>)
              else Inr (True, s))))"

subsection \<open>The interface\<close>

definition bp_alloc :: "kernel \<Rightarrow> nat \<Rightarrow> pool \<Rightarrow> (ptr \<times> pool) res" where
  "bp_alloc K sz s =
     (if sz > MAX_CLASS_SIZE then
        let alloc_size = round_to_cnk_sz ((sz + SIZEOF_CHUNK) mod 2 ^ 64) in
        bind_res (allocate_new_chunk K alloc_size s) (\<lambda>(cnk, s).
        if cnk = nullptr then Inr (nullptr, s)
        else Inr (cnk + SIZEOF_CHUNK,
          s\<lparr>bp_chunks := (bp_chunks s)(cnk := map_option (\<lambda>ck. ck\<lparr>ck_is_large := True, ck_sz := alloc_size\<rparr>) (bp_chunks s cnk))\<rparr>))
      else
        let cls = class_of sz in
        bind_res (mag_pop cls s) (\<lambda>(p, s).
          if p = nullptr then
            bind_res (bp_refill K cls s) (\<lambda>(ok, s). if \<not> ok then Inr (nullptr, s) else mag_pop cls s)
          else Inr (p, s)))"

definition bp_free :: "ptr \<Rightarrow> pool \<Rightarrow> pool res" where
  "bp_free p s =
     bind_res (base_cls_from_ptr p s) (\<lambda>(base, cnk, cls).
       if ck_is_large cnk
       then Inr (s\<lparr>bp_chunks := (bp_chunks s)(base := None), bp_vm := bp_vm s - mem_range base (ck_sz cnk)\<rparr>)
       else mag_push p cls s)"

text \<open>\<open>reserve\<close>, with a bound on the number of iterations.\<close>

fun bp_reserve :: "nat \<Rightarrow> kernel \<Rightarrow> nat \<Rightarrow> pool \<Rightarrow> (bool \<times> pool) res" where
  "bp_reserve n K sz s =
     (let cls = class_of sz in
      if length (bp_mag s) \<le> cls then Inl Bad_Access
      else if mag_is_full cls s then Inr (True, s)
      else case n of 0 \<Rightarrow> Inl Diverged
      | Suc n \<Rightarrow>
        let (h, s) = g_take_all cls s in
        if h = nullptr then
          bind_res (bp_refill K cls s) (\<lambda>(ok, s). if \<not> ok then Inr (False, s) else bp_reserve n K sz s)
        else bind_res (refill_from_chain cls h s) (bp_reserve n K sz))"

declare bp_reserve.simps [simp del]

subsection \<open>Magazines as stacks, shared lists as chains\<close>

definition stk_holds :: "class_state \<Rightarrow> ptr list \<Rightarrow> bool" where
  "stk_holds st M \<longleftrightarrow> length (mg_stk st) = CACHE_SIZE \<and> mg_top st = length M \<and> take (mg_top st) (mg_stk st) = M"

lemma stk_holds_le: "stk_holds st M \<Longrightarrow> length M \<le> CACHE_SIZE"
  unfolding stk_holds_def by (metis length_take min.cobounded1)

lemma stk_pop_holds:
  assumes "stk_holds st (M @ [x])"
  shows "\<exists>st'. stk_pop st = Inr (x, st') \<and> stk_holds st' M"
proof -
  have le: "length M < CACHE_SIZE" using stk_holds_le [OF assms] by simp
  have t: "take (Suc (length M)) (mg_stk st) = M @ [x]" "mg_top st = Suc (length M)" "length (mg_stk st) = CACHE_SIZE"
    using assms by (auto simp: stk_holds_def)
  have "mg_stk st ! length M = take (Suc (length M)) (mg_stk st) ! length M" by simp
  then have "mg_stk st ! length M = x" unfolding t(1) by simp
  moreover have "take (length M) (mg_stk st) = take (length M) (take (Suc (length M)) (mg_stk st))" by simp
  then have "take (length M) (mg_stk st) = M" unfolding t(1) by simp
  ultimately show ?thesis using t(2,3) le by (simp add: stk_pop_def stk_holds_def)
qed

lemma stk_push_holds:
  assumes "stk_holds st M" "length M < CACHE_SIZE"
  shows "\<exists>st'. stk_push x st = Inr st' \<and> st' = st\<lparr>mg_stk := (mg_stk st)[mg_top st := x], mg_top := mg_top st + 1\<rparr> \<and> stk_holds st' (M @ [x])"
proof -
  have t: "take (length M) (mg_stk st) = M" "mg_top st = length M" "length (mg_stk st) = CACHE_SIZE"
    using assms(1) by (auto simp: stk_holds_def)
  have "take (Suc (length M)) ((mg_stk st)[length M := x]) = M @ [x]"
    using assms(2) t by (simp add: take_Suc_conv_app_nth)
  with t assms(2) show ?thesis by (simp add: stk_push_def stk_holds_def)
qed

lemma linked_cong: "(\<And>x. x \<in> set (butlast xs) \<Longrightarrow> nx x = nx' x) \<Longrightarrow> linked nx xs \<longleftrightarrow> linked nx' xs"
  by (induction nx xs rule: linked.induct) auto

lemma link_loop_spec:
  assumes "stk_holds st (M @ rev ys)" "distinct (cur # ys)"
  shows "\<exists>nx' st'. link_loop (length ys) cur nx st = Inr (last (cur # ys), nx', st') \<and> stk_holds st' M
    \<and> linked nx' (cur # ys) \<and> (\<forall>x. x \<notin> set (cur # ys) \<longrightarrow> nx' x = nx x)"
  using assms
proof (induction ys arbitrary: cur nx st)
  case Nil
  then show ?case by auto
next
  case (Cons y ys)
  then obtain st1 where st1: "stk_pop st = Inr (y, st1)" "stk_holds st1 (M @ rev ys)"
    using stk_pop_holds [of st "M @ rev ys" y] by auto
  obtain nx' st' where r: "link_loop (length ys) y (nx(cur := y)) st1 = Inr (last (y # ys), nx', st')" "stk_holds st' M"
    "linked nx' (y # ys)" "\<forall>x. x \<notin> set (y # ys) \<longrightarrow> nx' x = (nx(cur := y)) x"
    using Cons.IH [OF st1(2), of y "nx(cur := y)"] Cons.prems(2) by (auto simp del: fun_upd_apply)
  have "nx' cur = y" using r(4) Cons.prems(2) by auto
  with r st1(1) show ?case by (auto simp: Let_def)
qed

lemma fill_loop_spec:
  assumes "chain nx h xs" "stk_holds st M" "length M + n \<le> CACHE_SIZE"
  shows "\<exists>h' st'. fill_loop n nx h st = Inr (h', st') \<and> chain nx h' (drop n xs) \<and> stk_holds st' (M @ take n xs)"
  using assms
proof (induction n arbitrary: h xs st M)
  case 0
  then show ?case by auto
next
  case (Suc n)
  show ?case
  proof (cases xs)
    case Nil
    with Suc.prems show ?thesis by auto
  next
    case (Cons x ys)
    obtain st1 where st1: "stk_push x st = Inr st1" "stk_holds st1 (M @ [x])"
      using stk_push_holds [OF Suc.prems(2)] Suc.prems(3) by auto
    show ?thesis using Suc.IH [OF _ st1(2), of "nx x" ys] Suc.prems st1(1) Cons by simp
  qed
qed

lemma refill_loop_spec:
  assumes "chain nx h xs" "stk_holds st M" "k = CACHE_SIZE - length M"
  shows "\<exists>h' st'. refill_loop nx h st = (h', st') \<and> chain nx h' (drop k xs) \<and> stk_holds st' (M @ take k xs)"
  using assms
proof (induction k arbitrary: h xs st M)
  case 0
  then show ?case using stk_holds_le [OF 0(2)] by (subst refill_loop.simps) (auto simp: stk_holds_def)
next
  case (Suc k)
  show ?case
  proof (cases xs)
    case Nil
    with Suc.prems show ?thesis by (subst refill_loop.simps) auto
  next
    case (Cons x ys)
    have lt: "length M < CACHE_SIZE" using Suc.prems(3) by simp
    obtain st1 where st1: "st1 = st\<lparr>mg_stk := (mg_stk st)[mg_top st := x], mg_top := mg_top st + 1\<rparr>" "stk_holds st1 (M @ [x])"
      using stk_push_holds [OF Suc.prems(2) lt] by blast
    have "refill_loop nx h st = refill_loop nx (nx x) st1"
      using Suc.prems(1,2) Cons st1(1) lt by (subst refill_loop.simps) (auto simp: stk_holds_def)
    moreover have "chain nx (nx x) ys" "k = CACHE_SIZE - length (M @ [x])" using Suc.prems Cons by auto
    ultimately show ?thesis using Suc.IH [OF _ st1(2), of "nx x" ys] Cons by simp
  qed
qed

lemma find_tail_spec: "chain nx h xs \<Longrightarrow> xs \<noteq> [] \<Longrightarrow> find_tail nx h = Some (last xs)"
proof (induction xs arbitrary: h)
  case (Cons x xs)
  then show ?case by (cases xs) (subst find_tail.simps; auto)+
qed simp

subsection \<open>One class of blocks\<close>

text \<open>The magazine of a class holds \<open>M\<close>, its shared list \<open>G\<close>.\<close>

definition cls_rep :: "pool \<Rightarrow> nat \<Rightarrow> ptr list \<Rightarrow> ptr list \<Rightarrow> bool" where
  "cls_rep s c M G \<longleftrightarrow> c < length (bp_mag s) \<and> c < length (bp_classes s) \<and> stk_holds (bp_mag s ! c) M
     \<and> ts_holds 0 (bp_classes s ! c, bp_next s) G \<and> distinct (M @ G) \<and> (\<forall>x \<in> set (M @ G). x \<noteq> 0 \<and> aligned 0 x)"

text \<open>A step on a class changes its magazine, its list and the \<open>next\<close> fields of some blocks.\<close>

definition moves :: "ptr set \<Rightarrow> nat \<Rightarrow> pool \<Rightarrow> pool \<Rightarrow> bool" where
  "moves W c s s' \<longleftrightarrow> (\<exists>st head nx. s' = s\<lparr>bp_mag := (bp_mag s)[c := st], bp_classes := (bp_classes s)[c := head], bp_next := nx\<rparr>
     \<and> (\<forall>x. x \<notin> W \<longrightarrow> nx x = bp_next s x))"

lemma movesI:
  "s' = s\<lparr>bp_mag := (bp_mag s)[c := st], bp_classes := (bp_classes s)[c := head], bp_next := nx\<rparr> \<Longrightarrow>
   (\<And>x. x \<notin> W \<Longrightarrow> nx x = bp_next s x) \<Longrightarrow> moves W c s s'"
  unfolding moves_def by blast

lemma moves_trans:
  assumes "moves W c s s'" "moves W' c s' s''" "W' \<subseteq> V" "W \<subseteq> V"
  shows "moves V c s s''"
proof -
  obtain st head nx where 1: "s' = s\<lparr>bp_mag := (bp_mag s)[c := st], bp_classes := (bp_classes s)[c := head], bp_next := nx\<rparr>"
    "\<forall>x. x \<notin> W \<longrightarrow> nx x = bp_next s x" using assms(1) unfolding moves_def by blast
  obtain st' head' nx' where 2: "s'' = s'\<lparr>bp_mag := (bp_mag s')[c := st'], bp_classes := (bp_classes s')[c := head'], bp_next := nx'\<rparr>"
    "\<forall>x. x \<notin> W' \<longrightarrow> nx' x = bp_next s' x" using assms(2) unfolding moves_def by blast
  have "s'' = s\<lparr>bp_mag := (bp_mag s)[c := st'], bp_classes := (bp_classes s)[c := head'], bp_next := nx'\<rparr>"
    using 1(1) 2(1) by simp
  moreover have "nx' x = bp_next s x" if "x \<notin> V" for x
  proof -
    have "x \<notin> W" "x \<notin> W'" using assms(3,4) that by auto
    then show ?thesis using 1 2(2) by simp
  qed
  ultimately show ?thesis by (rule movesI)
qed

lemma moves_mono: "moves W c s s' \<Longrightarrow> W \<subseteq> V \<Longrightarrow> moves V c s s'"
  unfolding moves_def by blast

lemma moves_mag: "moves W c s (s\<lparr>bp_mag := (bp_mag s)[c := st]\<rparr>)"
  by (rule movesI [where st = st and head = "bp_classes s ! c" and nx = "bp_next s"]) simp_all

lemma moves_refl: "moves W c s s"
  using moves_mag [of W c s "bp_mag s ! c"] by simp

lemma cls_repD:
  assumes "cls_rep s c M G"
  shows "c < length (bp_mag s)" "c < length (bp_classes s)" "stk_holds (bp_mag s ! c) M"
    "ts_holds 0 (bp_classes s ! c, bp_next s) G" "distinct (M @ G)" "\<And>x. x \<in> set (M @ G) \<Longrightarrow> x \<noteq> 0 \<and> aligned 0 x"
  using assms unfolding cls_rep_def by auto

lemma cls_rep_mag:
  assumes "cls_rep s c M G" "stk_holds st M'" "distinct (M' @ G)" "\<And>x. x \<in> set M' \<Longrightarrow> x \<noteq> 0 \<and> aligned 0 x"
  shows "cls_rep (s\<lparr>bp_mag := (bp_mag s)[c := st]\<rparr>) c M' G"
  using assms unfolding cls_rep_def by auto

lemma g_push_chain_spec:
  assumes "cls_rep s c M G" "chain (bp_next s) h xs" "xs \<noteq> []" "distinct (M @ xs @ G)" "\<And>x. x \<in> set xs \<Longrightarrow> aligned 0 x"
  shows "cls_rep (g_push_chain c h (last xs) s) c M (xs @ G)" "moves {last xs} c s (g_push_chain c h (last xs) s)"
proof -
  obtain head nx where r: "ts_push_chain 0 h (last xs) (bp_classes s ! c, bp_next s) = (head, nx)" by force
  have nx: "nx = (bp_next s)(last xs := pt_ptr 0 (bp_classes s ! c))" using r by (auto simp: ts_push_chain_def Let_def)
  have g: "g_push_chain c h (last xs) s = s\<lparr>bp_classes := (bp_classes s)[c := head], bp_next := nx\<rparr>"
    by (simp add: g_push_chain_def r)
  have xs: "butlast xs @ [last xs] = xs" using assms(3) by simp
  have "ts_holds 0 (head, nx) (butlast xs @ [last xs] @ G)"
    using ts_push_chain_holds [OF cls_repD(4) [OF assms(1)], of h "butlast xs" "last xs"] assms(2,4,5) r unfolding xs append_assoc [symmetric] by auto
  then have "ts_holds 0 (head, nx) (xs @ G)" using xs by (metis append_assoc)
  with assms cls_repD [OF assms(1)] chain_null [OF assms(2)] show "cls_rep (g_push_chain c h (last xs) s) c M (xs @ G)"
    unfolding g cls_rep_def by auto
  show "moves {last xs} c s (g_push_chain c h (last xs) s)"
    unfolding g by (rule movesI [where st = "bp_mag s ! c" and head = head and nx = nx]) (auto simp: nx)
qed

lemma g_take_all_spec:
  assumes "cls_rep s c M G"
  shows "\<exists>h s'. g_take_all c s = (h, s') \<and> chain (bp_next s') h G \<and> cls_rep s' c M [] \<and> moves {} c s s' \<and> bp_mag s' = bp_mag s"
proof -
  obtain p head where t: "ts_take_all 0 (bp_classes s ! c, bp_next s) = (p, head, bp_next s)" "chain (bp_next s) p G"
    "ts_holds 0 (head, bp_next s) []"
    using ts_take_all_holds [OF cls_repD(4) [OF assms]] by auto
  have g: "g_take_all c s = (p, s\<lparr>bp_classes := (bp_classes s)[c := head], bp_next := bp_next s\<rparr>)"
    by (simp add: g_take_all_def t(1))
  have "moves {} c s (s\<lparr>bp_classes := (bp_classes s)[c := head], bp_next := bp_next s\<rparr>)"
    by (rule movesI [where st = "bp_mag s ! c" and head = head and nx = "bp_next s"]) auto
  moreover have "cls_rep (s\<lparr>bp_classes := (bp_classes s)[c := head], bp_next := bp_next s\<rparr>) c M []"
    using cls_repD [OF assms] t(3) unfolding cls_rep_def by auto
  ultimately show ?thesis using g t(2) by auto
qed

subsection \<open>Magazine operations\<close>

lemma donate_spec:
  assumes "cls_rep s c (M @ rev ys) G" "length ys = Suc n"
  shows "\<exists>s'. donate c n s = Inr s' \<and> cls_rep s' c M (ys @ G) \<and> moves (set ys) c s s'"
proof -
  obtain y zs where ys: "ys = y # zs" "length zs = n" using assms(2) by (cases ys) auto
  note rep = cls_repD [OF assms(1)]
  obtain st1 where st1: "stk_pop (bp_mag s ! c) = Inr (y, st1)" "stk_holds st1 (M @ rev zs)"
    using stk_pop_holds [of "bp_mag s ! c" "M @ rev zs" y] rep(3) ys by auto
  obtain nx st where l: "link_loop n y (bp_next s) st1 = Inr (last ys, nx, st)" "stk_holds st M" "linked nx ys"
    "\<forall>x. x \<notin> set ys \<longrightarrow> nx x = bp_next s x"
    using link_loop_spec [OF st1(2), of y "bp_next s"] rep(5) ys by auto
  let ?nx = "nx(last ys := nullptr)"
  let ?s = "s\<lparr>bp_next := ?nx, bp_mag := (bp_mag s)[c := st]\<rparr>"
  have ne: "ys \<noteq> []" "distinct ys" using ys rep(5) by auto
  have "0 \<notin> set ys" using rep(6) by force
  moreover have "linked ?nx ys" using l(3) linked_upd last_notin_butlast [OF ne(2,1)] by simp
  ultimately have ch: "chain ?nx y ys" using chain_linked [of ?nx ys "[]"] ne ys(1) by simp
  have al: "x \<in> set ys \<Longrightarrow> aligned 0 x" for x using rep(6) by auto
  have eq: "?nx x = bp_next s x" if "x \<notin> set ys" for x using l(4) that ne(1) by auto
  have G: "ts_holds 0 (bp_classes s ! c, ?nx) G"
  proof -
    have "chain ?nx p G = chain (bp_next s) p G" for p
    proof (rule chain_cong)
      fix x assume "x \<in> set G"
      then have "x \<notin> set ys" using rep(5) by auto
      then show "?nx x = bp_next s x" by (rule eq)
    qed
    then show ?thesis using rep(4) by (simp add: ts_holds_def)
  qed
  have "cls_rep ?s c M G" using rep l(2) G unfolding cls_rep_def by auto
  note p = g_push_chain_spec [OF this, of y ys]
  have d: "donate c n s = Inr (g_push_chain c y (last ys) ?s)"
    using st1(1) l(1) by (simp add: donate_def)
  have "cls_rep (g_push_chain c y (last ys) ?s) c M (ys @ G)" using p(1) ch ne rep(5) al by auto
  moreover have "moves {last ys} c ?s (g_push_chain c y (last ys) ?s)" using p(2) ch ne rep(5) al by auto
  moreover have "moves (set ys) c s ?s"
    by (rule movesI [where st = st and head = "bp_classes s ! c" and nx = ?nx]) (use eq in auto)
  ultimately show ?thesis using d moves_trans [of "set ys" c s ?s "{last ys}" _ "set ys"] ne by auto
qed

lemma give_back_spec:
  assumes "cls_rep s c M G" "chain (bp_next s) h xs" "distinct (M @ xs @ G)" "\<And>x. x \<in> set xs \<Longrightarrow> aligned 0 x"
  shows "\<exists>s'. give_back c h s = Inr s' \<and> cls_rep s' c M (xs @ G) \<and> moves (set xs) c s s'"
proof (cases "xs = []")
  case True
  with assms show ?thesis using moves_refl by (auto simp: give_back_def)
next
  case False
  then have "h \<noteq> 0" using assms(2) by (cases xs) auto
  moreover have "find_tail (bp_next s) h = Some (last xs)" using assms(2) False by (rule find_tail_spec)
  ultimately have "give_back c h s = Inr (g_push_chain c h (last xs) s)" by (simp add: give_back_def)
  with g_push_chain_spec [OF assms(1,2) False assms(3,4)] show ?thesis using moves_mono False by auto
qed

text \<open>Blocks moved from a chain to the magazine, and the rest of the chain to the shared list.\<close>

lemma move_chain:
  assumes "cls_rep s c M G" "chain (bp_next s) h xs" "distinct (M @ xs @ G)" "\<And>x. x \<in> set xs \<Longrightarrow> x \<noteq> 0 \<and> aligned 0 x"
    and "stk_holds st (M @ take k xs)" "chain (bp_next s) h' (drop k xs)"
  shows "\<exists>s'. give_back c h' (s\<lparr>bp_mag := (bp_mag s)[c := st]\<rparr>) = Inr s' \<and> cls_rep s' c (M @ take k xs) (drop k xs @ G)
    \<and> moves (set xs) c s s'"
proof -
  let ?s = "s\<lparr>bp_mag := (bp_mag s)[c := st]\<rparr>"
  have d: "distinct (M @ take k xs @ drop k xs @ G)" using assms(3) by (metis append_assoc append_take_drop_id)
  have al: "x \<in> set (M @ take k xs) \<Longrightarrow> x \<noteq> 0 \<and> aligned 0 x" for x
    using cls_repD(6) [OF assms(1)] assms(4) by (auto dest: in_set_takeD)
  have rep: "cls_rep ?s c (M @ take k xs) G"
    by (rule cls_rep_mag [OF assms(1,5)]) (use d al in auto)
  obtain s' where s': "give_back c h' ?s = Inr s'" "cls_rep s' c (M @ take k xs) (drop k xs @ G)" "moves (set (drop k xs)) c ?s s'"
    using give_back_spec [OF rep, of h' "drop k xs"] assms(6) d assms(4) by (auto dest: in_set_dropD)
  have "moves (set xs) c s s'"
    by (rule moves_trans [OF moves_mag s'(3)]) (auto dest: in_set_dropD)
  with s' show ?thesis by blast
qed

lemma refill_from_chain_spec:
  assumes "cls_rep s c M G" "chain (bp_next s) h xs" "distinct (M @ xs @ G)" "\<And>x. x \<in> set xs \<Longrightarrow> x \<noteq> 0 \<and> aligned 0 x"
    and "k = CACHE_SIZE - length M"
  shows "\<exists>s'. refill_from_chain c h s = Inr s' \<and> cls_rep s' c (M @ take k xs) (drop k xs @ G) \<and> moves (set xs) c s s'"
proof -
  obtain h' st where r: "refill_loop (bp_next s) h (bp_mag s ! c) = (h', st)" "chain (bp_next s) h' (drop k xs)" "stk_holds st (M @ take k xs)"
    using refill_loop_spec [OF assms(2) cls_repD(3) [OF assms(1)] assms(5)] by blast
  show ?thesis using move_chain [OF assms(1-4) r(3,2)] by (simp add: refill_from_chain_def r(1))
qed

lemma take_batch_spec:
  assumes "cls_rep s c M G" "k = min BATCH_SIZE (CACHE_SIZE - length M)"
  shows "\<exists>s'. take_batch c s = Inr (G \<noteq> [], s') \<and> cls_rep s' c (M @ take k G) (drop k G) \<and> moves (set G) c s s'"
proof -
  obtain h s1 where t: "g_take_all c s = (h, s1)" "chain (bp_next s1) h G" "cls_rep s1 c M []" "moves {} c s s1"
    using g_take_all_spec [OF assms(1)] by blast
  note rep = cls_repD [OF t(3)]
  have le: "length M + k \<le> CACHE_SIZE" using assms(2) stk_holds_le [OF rep(3)] by simp
  obtain h' st where f: "fill_loop k (bp_next s1) h (bp_mag s1 ! c) = Inr (h', st)" "chain (bp_next s1) h' (drop k G)"
    "stk_holds st (M @ take k G)" using fill_loop_spec [OF t(2) rep(3) le] by blast
  have k: "k = min BATCH_SIZE (length (mg_stk (bp_mag s1 ! c)) - mg_top (bp_mag s1 ! c))"
    using assms(2) rep(3) by (simp add: stk_holds_def)
  obtain s' where s': "give_back c h' (s1\<lparr>bp_mag := (bp_mag s1)[c := st]\<rparr>) = Inr s'" "cls_rep s' c (M @ take k G) (drop k G @ [])"
    "moves (set G) c s1 s'"
    using move_chain [OF t(3,2) _ _ f(3,2)] cls_repD(5,6) [OF assms(1)] by auto
  have "h \<noteq> 0 \<longleftrightarrow> G \<noteq> []" using t(2) by (cases G) auto
  then have "take_batch c s = Inr (G \<noteq> [], s')" using t(1) f(1) s'(1) by (simp add: take_batch_def Let_def k [symmetric])
  with s'(2) moves_trans [OF t(4) s'(3)] show ?thesis by auto
qed

lemma stk_top_0: "stk_holds st M \<Longrightarrow> mg_top st = 0 \<longleftrightarrow> M = []"
  by (auto simp: stk_holds_def)

lemma cls_pop_spec:
  assumes "cls_rep s c (M @ [x]) G"
  shows "\<exists>st. stk_pop (bp_mag s ! c) = Inr (x, st) \<and> cls_rep (s\<lparr>bp_mag := (bp_mag s)[c := st]\<rparr>) c M G"
proof -
  obtain st where st: "stk_pop (bp_mag s ! c) = Inr (x, st)" "stk_holds st M" using stk_pop_holds cls_repD(3) [OF assms] by blast
  have "cls_rep (s\<lparr>bp_mag := (bp_mag s)[c := st]\<rparr>) c M G"
    by (rule cls_rep_mag [OF assms st(2)]) (use cls_repD(5,6) [OF assms] in auto)
  with st show ?thesis by blast
qed

lemma mag_pop_spec:
  assumes "cls_rep s c M G"
  shows "\<exists>p s' M' G'. mag_pop c s = Inr (p, s') \<and> cls_rep s' c M' G' \<and> moves (set G) c s s'
    \<and> (if M @ G = [] then p = 0 \<and> M' @ G' = [] else mset (M @ G) = add_mset p (mset (M' @ G')) \<and> length M' \<le> length M + BATCH_SIZE)"
proof -
  note rep = cls_repD [OF assms]
  have bounds: "\<not> length (bp_mag s) \<le> c" using rep(1) by simp
  consider "M \<noteq> []" | "M = []" "G = []" | "M = []" "G \<noteq> []" by blast
  then show ?thesis
  proof cases
    case 1
    then obtain x N where M: "M = N @ [x]" by (metis append_butlast_last_id)
    obtain st where st: "stk_pop (bp_mag s ! c) = Inr (x, st)" "cls_rep (s\<lparr>bp_mag := (bp_mag s)[c := st]\<rparr>) c N G"
      using cls_pop_spec assms M by blast
    then have "mag_pop c s = Inr (x, s\<lparr>bp_mag := (bp_mag s)[c := st]\<rparr>)" using stk_top_0 [OF rep(3)] 1 bounds by (simp add: mag_pop_def)
    then show ?thesis using st(2) M moves_mag [of "set G" c s st] by (intro exI conjI) auto
  next
    case 2
    then obtain s' where "take_batch c s = Inr (False, s')" "cls_rep s' c [] []" "moves {} c s s'"
      using take_batch_spec [OF assms refl] by auto
    then have "mag_pop c s = Inr (0, s')" using stk_top_0 [OF rep(3)] 2 bounds by (simp add: mag_pop_def)
    then show ?thesis using \<open>cls_rep s' c [] []\<close> \<open>moves {} c s s'\<close> 2 by (intro exI conjI) auto
  next
    case 3
    let ?k = "min BATCH_SIZE CACHE_SIZE"
    obtain s1 where s1: "take_batch c s = Inr (True, s1)" "cls_rep s1 c (take ?k G) (drop ?k G)" "moves (set G) c s s1"
      using take_batch_spec [OF assms refl] 3 by auto
    have "?k > 0" by (simp add: BATCH_SIZE_def CACHE_SIZE_def N_BATCHES_def)
    then have "take ?k G \<noteq> []" using 3 by simp
    then obtain x N where N: "take ?k G = N @ [x]" by (metis append_butlast_last_id)
    obtain st where st: "stk_pop (bp_mag s1 ! c) = Inr (x, st)" "cls_rep (s1\<lparr>bp_mag := (bp_mag s1)[c := st]\<rparr>) c N (drop ?k G)"
      using cls_pop_spec s1(2) N by metis
    have pop: "mag_pop c s = Inr (x, s1\<lparr>bp_mag := (bp_mag s1)[c := st]\<rparr>)"
      using stk_top_0 [OF rep(3)] 3 s1(1) st(1) bounds by (simp add: mag_pop_def)
    have mv: "moves (set G) c s (s1\<lparr>bp_mag := (bp_mag s1)[c := st]\<rparr>)" using moves_trans [OF s1(3) moves_mag] by blast
    have "mset G = mset (take ?k G @ drop ?k G)" by simp
    also have "\<dots> = add_mset x (mset (N @ drop ?k G))" unfolding N by simp
    finally have m: "mset (M @ G) = add_mset x (mset (N @ drop ?k G))" using 3 by simp
    have "length (take ?k G) \<le> BATCH_SIZE" by simp
    then have "length N \<le> BATCH_SIZE" unfolding N by simp
    with pop mv m st(2) 3 show ?thesis by (intro exI conjI) auto
  qed
qed

lemma mag_push_spec:
  assumes "cls_rep s c M G" "p \<notin> set (M @ G)" "p \<noteq> 0" "aligned 0 p"
  shows "\<exists>s' M' G'. mag_push p c s = Inr s' \<and> cls_rep s' c M' G' \<and> moves (set M) c s s' \<and> mset (M' @ G') = add_mset p (mset (M @ G))"
proof -
  note rep = cls_repD [OF assms(1)]
  have bounds: "\<not> length (bp_mag s) \<le> c" using rep(1) by simp
  have full: "mg_top (bp_mag s ! c) = length (mg_stk (bp_mag s ! c)) \<longleftrightarrow> length M = CACHE_SIZE" using rep(3) by (simp add: stk_holds_def)
  have "\<exists>s1 M1 G1. (if mg_top (bp_mag s ! c) = length (mg_stk (bp_mag s ! c)) then donate_batch c s else Inr s) = Inr s1
      \<and> cls_rep s1 c M1 G1 \<and> moves (set M) c s s1 \<and> mset (M1 @ G1) = mset (M @ G) \<and> length M1 < CACHE_SIZE"
  proof (cases "length M = CACHE_SIZE")
    case True
    let ?n = "CACHE_SIZE - BATCH_SIZE"
    have M: "M = take ?n M @ rev (rev (drop ?n M))" by simp
    have l: "length (rev (drop ?n M)) = Suc (BATCH_SIZE - 1)" using True by (simp add: BATCH_SIZE_def CACHE_SIZE_def N_BATCHES_def)
    obtain s1 where s1: "donate_batch c s = Inr s1" "cls_rep s1 c (take ?n M) (rev (drop ?n M) @ G)" "moves (set (drop ?n M)) c s s1"
      using donate_spec [OF _ l] assms(1) M unfolding donate_batch_def by (metis set_rev)
    moreover have "mset (take ?n M @ rev (drop ?n M) @ G) = mset (M @ G)" 
    proof -
      have "mset (take ?n M @ rev (drop ?n M) @ G) = mset (take ?n M @ drop ?n M) + mset G" unfolding mset_append mset_rev by (simp only: union_assoc)
      then show ?thesis by simp
    qed
    moreover have "length (take ?n M) < CACHE_SIZE" by (simp add: BATCH_SIZE_def CACHE_SIZE_def N_BATCHES_def)
    ultimately show ?thesis using True full moves_mono [OF s1(3), of "set M"] set_drop_subset [of ?n M]
      by (intro exI [of _ s1] exI [of _ "take ?n M"] exI [of _ "rev (drop ?n M) @ G"]) simp
  next
    case False
    then have "length M < CACHE_SIZE" using stk_holds_le [OF rep(3)] by simp
    with False full assms(1) moves_refl show ?thesis by (intro exI conjI) auto
  qed
  then obtain s1 M1 G1 where s1: "(if mg_top (bp_mag s ! c) = length (mg_stk (bp_mag s ! c)) then donate_batch c s else Inr s) = Inr s1"
    "cls_rep s1 c M1 G1" "moves (set M) c s s1" "mset (M1 @ G1) = mset (M @ G)" "length M1 < CACHE_SIZE" by blast
  obtain st where st: "stk_push p (bp_mag s1 ! c) = Inr st" "stk_holds st (M1 @ [p])"
    using stk_push_holds [OF cls_repD(3) [OF s1(2)] s1(5)] by blast
  have "set (M1 @ G1) = set (M @ G)" using s1(4) by (metis set_mset_mset)
  then have "cls_rep (s1\<lparr>bp_mag := (bp_mag s1)[c := st]\<rparr>) c (M1 @ [p]) G1"
    using cls_rep_mag [OF s1(2) st(2)] cls_repD(5,6) [OF s1(2)] assms(2-4) by auto
  moreover have "mag_push p c s = Inr (s1\<lparr>bp_mag := (bp_mag s1)[c := st]\<rparr>)"
    using s1(1) st(1) bounds by (simp add: mag_push_def)
  moreover have "moves (set M) c s (s1\<lparr>bp_mag := (bp_mag s1)[c := st]\<rparr>)" using moves_trans [OF s1(3) moves_mag] by blast
  ultimately show ?thesis using s1(4) by (intro exI conjI) (assumption | simp)+
qed

end
