(* ===== verification/Pool_Invariant.thy ===== *)
theory Pool_Invariant
  imports Buffer_Pool
begin

section \<open>The invariant of the buffer pool\<close>

text \<open>
  Size classes, runs and chunks of \<open>buffer_pool.hpp\<close>, the invariant of the pool, and that every
  operation keeps it: for each class, the blocks in the magazine and on the shared list are exactly the
  blocks cut for the class that are not in use. The contract a client relies on is the locale
  \<open>allocator\<close>.
\<close>

subsection \<open>Sizes\<close>

lemma pool_sizes:
  "MIN_SHIFT = 4" "MAX_SHIFT = 13" "N_CLASSES = 10" "RUN_SHIFT = 16" "N_RUNS = 32" "CHUNK_SIZE = 2097152" "RUN_SIZE = 65536"
  "CHUNK_TAG_BITS = 21" "CACHE_SIZE = 1024" "BATCH_SIZE = 16" "SIZEOF_CHUNK = 64" "MAX_CLASS_SIZE = 8192"
proof -
  have z: "countr_zero 16 = 4" "countr_zero 8192 = 13" "countr_zero 65536 = 16" "countr_zero 2097152 = 21"
    using countr_zero_power [of 4] countr_zero_power [of 13] countr_zero_power [of 16] countr_zero_power [of 21] by simp_all
  show "MIN_SHIFT = 4" "MAX_SHIFT = 13" "RUN_SHIFT = 16" "CHUNK_TAG_BITS = 21"
    using z by (simp_all add: MIN_SHIFT_def MAX_SHIFT_def RUN_SHIFT_def CHUNK_TAG_BITS_def MIN_CLASS_SIZE_def MAX_CLASS_SIZE_def RUN_SIZE_def CHUNK_SIZE_def)
  then show "N_CLASSES = 10" by (simp add: N_CLASSES_def)
  show "N_RUNS = 32" "CHUNK_SIZE = 2097152" "RUN_SIZE = 65536" "CACHE_SIZE = 1024" "BATCH_SIZE = 16" "SIZEOF_CHUNK = 64" "MAX_CLASS_SIZE = 8192"
    by (simp_all add: N_RUNS_def CHUNK_SIZE_def RUN_SIZE_def CACHE_SIZE_def BATCH_SIZE_def N_BATCHES_def SIZEOF_CHUNK_def MAX_CLASS_SIZE_def)
qed

lemma bit_ceil_le_power: "n \<le> 2 ^ k \<Longrightarrow> \<exists>j \<le> k. bit_ceil n = 2 ^ j"
proof (induction k arbitrary: n)
  case 0
  then show ?case by (subst bit_ceil.simps) simp
next
  case (Suc k)
  show ?case
  proof (cases "n \<le> 1")
    case True
    then show ?thesis by (subst bit_ceil.simps) (auto intro!: exI [of _ 0])
  next
    case False
    from Suc.prems have "(n + 1) div 2 \<le> 2 ^ k" by simp
    then obtain j where "j \<le> k" "bit_ceil ((n + 1) div 2) = 2 ^ j" using Suc.IH by blast
    with False show ?thesis by (subst bit_ceil.simps) (auto intro!: exI [of _ "Suc j"])
  qed
qed

lemma bit_ceil_ge: "n \<le> bit_ceil n"
proof (induction n rule: bit_ceil.induct)
  case (1 n)
  then show ?case by (subst bit_ceil.simps) auto
qed

text \<open>A size of at most \<open>MAX_CLASS_SIZE\<close> bytes fits the blocks of its class.\<close>

lemma class_of_fits:
  assumes "sz \<le> MAX_CLASS_SIZE"
  shows "class_of sz < N_CLASSES" "sz \<le> sizeof_class (class_of sz)"
proof -
  obtain j where j: "j \<le> 13" "bit_ceil sz = 2 ^ j" using assms bit_ceil_le_power [of sz 13] by (auto simp: pool_sizes)
  then have c: "class_of sz = (if j < 4 then 0 else j - 4)" by (simp add: class_of_def pool_sizes)
  then show "class_of sz < N_CLASSES" using j by (auto simp: pool_sizes)
  have le: "sz \<le> 2 ^ j" using bit_ceil_ge [of sz] j by simp
  show "sz \<le> sizeof_class (class_of sz)"
  proof (cases "j < 4")
    case True
    then have "(2 :: nat) ^ j \<le> 2 ^ 4" by (intro power_increasing) auto
    with le c True show ?thesis by (simp add: sizeof_class_def pool_sizes)
  next
    case False
    with le c show ?thesis by (simp add: sizeof_class_def pool_sizes)
  qed
qed

text \<open>The class is the smallest that fits.\<close>

lemma bit_ceil_least: "n \<le> 2 ^ k \<Longrightarrow> bit_ceil n \<le> 2 ^ k"
  using bit_ceil_le_power [of n k] by (auto intro: power_increasing)

lemma class_of_least:
  assumes "sz \<le> MAX_CLASS_SIZE" "sz \<le> sizeof_class c"
  shows "class_of sz \<le> c"
proof -
  obtain j where j: "bit_ceil sz = 2 ^ j" using assms bit_ceil_le_power [of sz 13] by (auto simp: pool_sizes)
  have "(2 :: nat) ^ j \<le> 2 ^ (c + 4)" using bit_ceil_least [of sz "c + 4"] assms(2) j by (simp add: sizeof_class_def pool_sizes)
  then have "j \<le> c + 4" by simp
  then show ?thesis using j by (auto simp: class_of_def pool_sizes)
qed

lemma run_div_class:
  assumes "c < N_CLASSES"
  shows "RUN_SIZE div sizeof_class c * sizeof_class c = RUN_SIZE" "0 < sizeof_class c" "0 < RUN_SIZE div sizeof_class c"
proof -
  have "(2 :: nat) ^ 16 = 2 ^ (c + 4) * 2 ^ (12 - c)" using assms by (simp add: pool_sizes flip: power_add)
  then have "RUN_SIZE = sizeof_class c * 2 ^ (12 - c)" by (simp add: sizeof_class_def pool_sizes)
  moreover show pos: "0 < sizeof_class c" by (simp add: sizeof_class_def)
  ultimately have "RUN_SIZE div sizeof_class c = 2 ^ (12 - c)" by (metis less_numeral_extra(3) nonzero_mult_div_cancel_left)
  with \<open>RUN_SIZE = sizeof_class c * 2 ^ (12 - c)\<close> show "RUN_SIZE div sizeof_class c * sizeof_class c = RUN_SIZE"
    "0 < RUN_SIZE div sizeof_class c" by (metis mult.commute, simp)
qed

lemma round_to_cnk_sz_spec:
  assumes "v + CHUNK_SIZE \<le> 2 ^ 64"
  shows "v \<le> round_to_cnk_sz v" "round_to_cnk_sz v < v + CHUNK_SIZE" "CHUNK_SIZE dvd round_to_cnk_sz v"
  using assms by (simp_all add: round_to_cnk_sz_def pool_sizes)

subsection \<open>Runs\<close>

lemma countr_one_bits: "i < countr_one n \<Longrightarrow> bit n i" "\<not> bit n (countr_one n)"
proof (induction n arbitrary: i rule: countr_one.induct)
  case (1 n)
  {
    case 1
    then show ?case using "1.IH"(1) [of "i - 1"] by (cases i) (auto simp: bit_0 bit_Suc countr_one.simps [of n] split: if_splits)
  next
    case 2
    then show ?case using "1.IH"(2) by (subst countr_one.simps) (auto simp: bit_0 bit_Suc)
  }
qed

definition used_runs :: "chunk_desc \<Rightarrow> nat set" where
  "used_runs ck = {r. r < N_RUNS \<and> get_bit (ck_bmap ck) r}"

lemma get_bit_iff: "get_bit w r \<longleftrightarrow> bit w r"
  by (simp add: get_bit_def bit_iff_and_push_bit_not_eq_0)

lemma get_bit_set: "r < 32 \<Longrightarrow> get_bit (set_bit_at w r) i \<longleftrightarrow> i = r \<or> get_bit w i"
  by (auto simp: get_bit_iff set_bit_at_def bit_simps dest: bit_imp_le_length)

lemma first_empty_used:
  assumes "used_runs ck \<noteq> {r. r < N_RUNS}"
  shows "first_empty (ck_bmap ck) < N_RUNS" "first_empty (ck_bmap ck) \<notin> used_runs ck"
proof -
  let ?n = "first_empty (ck_bmap ck)"
  have b: "i < ?n \<Longrightarrow> bit (ck_bmap ck) i" for i
    using countr_one_bits(1) [of i "unat (ck_bmap ck)"] by (simp add: first_empty_def bit_simps)
  show n: "?n < N_RUNS"
  proof (rule ccontr)
    assume "\<not> ?n < N_RUNS"
    then have "used_runs ck = {r. r < N_RUNS}" using b by (auto simp: used_runs_def get_bit_iff)
    with assms show False by simp
  qed
  show "?n \<notin> used_runs ck"
    using countr_one_bits(2) [of "unat (ck_bmap ck)"] n by (simp add: used_runs_def get_bit_iff first_empty_def bit_simps pool_sizes)
qed

text \<open>The descriptor of a chunk of runs: run 0 is never claimed, and the runs not claimed are counted.\<close>

definition runs_ok :: "chunk_desc \<Rightarrow> bool" where
  "runs_ok ck \<longleftrightarrow> length (ck_run_class ck) = N_RUNS \<and> 0 \<in> used_runs ck \<and> unat (ck_free_runs ck) + card (used_runs ck) = N_RUNS
     \<and> (\<forall>r \<in> used_runs ck. ck_run_class ck ! r < N_CLASSES) \<and> \<not> ck_is_large ck"

lemma finite_used_runs [simp]: "finite (used_runs ck)"
  by (simp add: used_runs_def)

lemma Chunk_init_runs_ok: "runs_ok Chunk_init" "used_runs Chunk_init = {0}"
proof -
  show u: "used_runs Chunk_init = {0}" by (auto simp: used_runs_def Chunk_init_def get_bit_iff pool_sizes bit_1_iff)
  show "runs_ok Chunk_init" unfolding runs_ok_def u by (simp add: Chunk_init_def pool_sizes)
qed

lemma claim_run_spec:
  assumes "runs_ok ck" "has_free_runs ck" "cls < N_CLASSES"
  shows "\<exists>r ck'. claim_run this cls ck = (this + r * RUN_SIZE, ck') \<and> r < N_RUNS \<and> r \<notin> used_runs ck \<and> r \<noteq> 0
    \<and> used_runs ck' = insert r (used_runs ck) \<and> ck_run_class ck' = (ck_run_class ck)[r := cls] \<and> runs_ok ck'"
proof -
  let ?r = "first_empty (ck_bmap ck)"
  let ?ck = "ck\<lparr>ck_run_class := (ck_run_class ck)[?r := cls], ck_bmap := set_bit_at (ck_bmap ck) ?r, ck_free_runs := ck_free_runs ck - 1\<rparr>"
  have pos: "0 < unat (ck_free_runs ck)" using assms(2) by (simp add: has_free_runs_def unat_gt_0)
  then have "card (used_runs ck) \<noteq> card {r. r < N_RUNS}" using assms(1) by (simp add: runs_ok_def)
  then have "used_runs ck \<noteq> {r. r < N_RUNS}" by metis
  note r = first_empty_used [OF this]
  have u: "used_runs ?ck = insert ?r (used_runs ck)" using r(1) by (auto simp: used_runs_def get_bit_set pool_sizes)
  have f: "unat (ck_free_runs ck - 1) = unat (ck_free_runs ck) - 1" using pos by (simp add: unat_minus_one unat_gt_0)
  have z: "?r \<noteq> 0" using r(2) assms(1) by (metis runs_ok_def)
  have "runs_ok ?ck"
    unfolding runs_ok_def u using assms(1,3) pos r f by (auto simp: runs_ok_def nth_list_update)
  moreover have "claim_run this cls ck = (this + ?r * RUN_SIZE, ?ck)" using r(1) by (simp add: claim_run_def Let_def)
  ultimately show ?thesis using r u z by (intro exI [of _ ?r] exI [of _ ?ck]) simp
qed

text \<open>The blocks of a run.\<close>

definition run_blocks :: "ptr \<Rightarrow> nat \<Rightarrow> ptr list" where
  "run_blocks base c = map (\<lambda>k. base + k * sizeof_class c) [0..<RUN_SIZE div sizeof_class c]"

lemma carve_loop_spec:
  assumes "0 < sz"
  shows "\<exists>nx'. carve_loop n sz cur nx = (cur + n * sz, nx') \<and> linked nx' (map (\<lambda>k. cur + k * sz) [0..<Suc n])
    \<and> (\<forall>x. x \<notin> set (map (\<lambda>k. cur + k * sz) [0..<n]) \<longrightarrow> nx' x = nx x)"
proof (induction n arbitrary: cur nx)
  case 0
  then show ?case by simp
next
  case (Suc n)
  have m: "map (\<lambda>k. cur + k * sz) [0..<Suc m] = cur # map (\<lambda>k. (cur + sz) + k * sz) [0..<m]" for m
    by (subst upt_conv_Cons) (simp_all add: map_Suc_upt [symmetric] ac_simps del: upt_Suc)
  obtain nx' where r: "carve_loop n sz (cur + sz) (nx(cur := cur + sz)) = (cur + sz + n * sz, nx')"
    "linked nx' (map (\<lambda>k. (cur + sz) + k * sz) [0..<Suc n])"
    "\<forall>x. x \<notin> set (map (\<lambda>k. (cur + sz) + k * sz) [0..<n]) \<longrightarrow> nx' x = (nx(cur := cur + sz)) x"
    using Suc.IH by blast
  have "cur \<notin> set (map (\<lambda>k. (cur + sz) + k * sz) [0..<n])" using assms by auto
  then have "nx' cur = cur + sz" using r(3) by simp
  moreover have "map (\<lambda>k. (cur + sz) + k * sz) [0..<Suc n] = (cur + sz) # map (\<lambda>k. (cur + sz + sz) + k * sz) [0..<n]"
    by (subst upt_conv_Cons) (simp_all add: map_Suc_upt [symmetric] ac_simps del: upt_Suc)
  ultimately have "linked nx' (map (\<lambda>k. cur + k * sz) [0..<Suc (Suc n)])" using r(2) m [of "Suc n"] by simp
  moreover have "nx' x = nx x" if "x \<notin> set (map (\<lambda>k. cur + k * sz) [0..<Suc n])" for x
    using r(3) that unfolding m by auto
  ultimately show ?case using r(1) by (intro exI [of _ nx']) (simp add: ac_simps)
qed

lemma carve_run_spec:
  assumes "c < N_CLASSES" "0 < base"
  shows "\<exists>t nx'. carve_run_in_blocks base c nx = ((base, t), nx') \<and> chain nx' base (run_blocks base c)
    \<and> (\<forall>x. x \<notin> set (run_blocks base c) \<longrightarrow> nx' x = nx x)"
proof -
  note d = run_div_class [OF assms(1)]
  let ?n = "RUN_SIZE div sizeof_class c"
  obtain m where m: "?n = Suc m" using d(3) by (cases ?n) auto
  obtain nx1 where r: "carve_loop m (sizeof_class c) base nx = (base + m * sizeof_class c, nx1)"
    "linked nx1 (run_blocks base c)" "\<forall>x. x \<notin> set (map (\<lambda>k. base + k * sizeof_class c) [0..<m]) \<longrightarrow> nx1 x = nx x"
    using carve_loop_spec [OF d(2), of m base nx] unfolding run_blocks_def m by blast
  let ?t = "base + m * sizeof_class c"
  have b: "run_blocks base c = map (\<lambda>k. base + k * sizeof_class c) [0..<m] @ [?t]" by (simp add: run_blocks_def m)
  have h: "hd (run_blocks base c) = base" using m by (simp add: run_blocks_def hd_map upt_conv_Cons del: upt_Suc)
  have "?t \<notin> set (map (\<lambda>k. base + k * sizeof_class c) [0..<m])" using d(2) by auto
  then have "linked (nx1(?t := nullptr)) (run_blocks base c)" using r(2) by (simp add: b linked_upd)
  moreover have "0 \<notin> set (run_blocks base c)" using assms(2) by (auto simp: run_blocks_def)
  moreover have "last (run_blocks base c) = ?t" "run_blocks base c \<noteq> []" by (simp_all add: b)
  ultimately have "chain (nx1(?t := nullptr)) base (run_blocks base c)"
    using chain_linked [of "nx1(?t := nullptr)" "run_blocks base c" "[]"] h by simp
  moreover have "carve_run_in_blocks base c nx = ((base, ?t), nx1(?t := nullptr))" using r(1) m by (simp add: carve_run_in_blocks_def Let_def)
  ultimately show ?thesis using r(3) by (auto simp: b)
qed

lemma distinct_run_blocks: "c < N_CLASSES \<Longrightarrow> distinct (run_blocks base c)"
  using run_div_class(2) [of c] by (auto simp: run_blocks_def distinct_map inj_on_def)

subsection \<open>Well-formed pools\<close>

definition ck_extent :: "chunk_desc \<Rightarrow> nat" where
  "ck_extent ck = (if ck_is_large ck then ck_sz ck else CHUNK_SIZE)"

definition chunk_wf :: "pool \<Rightarrow> ptr \<Rightarrow> chunk_desc \<Rightarrow> bool" where
  "chunk_wf s b ck \<longleftrightarrow> b mod CHUNK_SIZE = 0 \<and> 0 < b \<and> b + ck_extent ck \<le> 2 ^ 64 \<and> CHUNK_SIZE \<le> ck_extent ck
     \<and> mem_range b (ck_extent ck) \<subseteq> bp_vm s \<and> length (ck_run_class ck) = N_RUNS \<and> (\<not> ck_is_large ck \<longrightarrow> runs_ok ck)"

definition chunks_wf :: "pool \<Rightarrow> bool" where
  "chunks_wf s \<longleftrightarrow> (\<forall>b ck. bp_chunks s b = Some ck \<longrightarrow> chunk_wf s b ck)
     \<and> (\<forall>b b' ck ck'. bp_chunks s b = Some ck \<longrightarrow> bp_chunks s b' = Some ck' \<longrightarrow> b \<noteq> b' \<longrightarrow>
          mem_range b (ck_extent ck) \<inter> mem_range b' (ck_extent ck') = {})"

text \<open>The blocks cut for a class, the large allocations, and the bytes of an allocation.\<close>

definition is_block :: "pool \<Rightarrow> nat \<Rightarrow> ptr \<Rightarrow> ptr \<Rightarrow> chunk_desc \<Rightarrow> nat \<Rightarrow> bool" where
  "is_block s c p b ck r \<longleftrightarrow> bp_chunks s b = Some ck \<and> \<not> ck_is_large ck \<and> r \<noteq> 0 \<and> r \<in> used_runs ck \<and> ck_run_class ck ! r = c
     \<and> p \<in> set (run_blocks (b + r * RUN_SIZE) c)"

definition class_blocks :: "pool \<Rightarrow> nat \<Rightarrow> ptr set" where
  "class_blocks s c = {p. \<exists>b ck r. is_block s c p b ck r}"

definition large_blocks :: "pool \<Rightarrow> ptr set" where
  "large_blocks s = {b + SIZEOF_CHUNK | b ck. bp_chunks s b = Some ck \<and> ck_is_large ck}"

text \<open>Chunks with runs to claim are on the list of chunks, except those in \<open>X\<close>.\<close>

definition open_chunks :: "pool \<Rightarrow> ptr set" where
  "open_chunks s = {b. \<exists>ck. bp_chunks s b = Some ck \<and> \<not> ck_is_large ck \<and> has_free_runs ck}"

definition chunks_listed :: "ptr set \<Rightarrow> pool \<Rightarrow> bool" where
  "chunks_listed X s \<longleftrightarrow> (\<exists>ks. ts_holds CHUNK_TAG_BITS (bp_chunk_head s, bp_chunk_next s) ks \<and> set ks = open_chunks s - X)"

text \<open>What is in the magazine and on the shared list of a class are its blocks that are not in use.\<close>

definition cached :: "pool \<Rightarrow> ptr set \<Rightarrow> nat \<Rightarrow> bool" where
  "cached s L c \<longleftrightarrow> (\<exists>M G. cls_rep s c M G \<and> set (M @ G) = class_blocks s c - L)"

definition pool_but :: "ptr set \<Rightarrow> pool \<Rightarrow> ptr set \<Rightarrow> bool" where
  "pool_but X s L \<longleftrightarrow> length (bp_mag s) = N_CLASSES \<and> length (bp_classes s) = N_CLASSES \<and> chunks_wf s \<and> chunks_listed X s
     \<and> (\<forall>c < N_CLASSES. cached s L c) \<and> large_blocks s \<subseteq> L \<and> L \<subseteq> (\<Union>c. class_blocks s c) \<union> large_blocks s"

definition pool_inv :: "pool \<Rightarrow> ptr set \<Rightarrow> bool" where
  "pool_inv s L \<longleftrightarrow> pool_but {} s L"

lemma pool_butD:
  assumes "pool_but X s L"
  shows "length (bp_mag s) = N_CLASSES" "length (bp_classes s) = N_CLASSES" "chunks_wf s" "chunks_listed X s"
    "\<And>c. c < N_CLASSES \<Longrightarrow> cached s L c" "large_blocks s \<subseteq> L" "L \<subseteq> (\<Union>c. class_blocks s c) \<union> large_blocks s"
  using assms unfolding pool_but_def by auto

lemmas pool_invD = pool_butD [where X = "{}", folded pool_inv_def]

subsection \<open>Where a block lies\<close>

lemma run_block_iff: "p \<in> set (run_blocks R c) \<longleftrightarrow> (\<exists>k < RUN_SIZE div sizeof_class c. p = R + k * sizeof_class c)"
  by (auto simp: run_blocks_def)

lemma run_block_in:
  assumes "p \<in> set (run_blocks R c)" "c < N_CLASSES"
  shows "R \<le> p" "p + sizeof_class c \<le> R + RUN_SIZE"
proof -
  obtain k where k: "k < RUN_SIZE div sizeof_class c" "p = R + k * sizeof_class c" using assms(1) run_block_iff by blast
  then have "Suc k * sizeof_class c \<le> RUN_SIZE div sizeof_class c * sizeof_class c" by (intro mult_right_mono) auto
  with k run_div_class(1) [OF assms(2)] show "R \<le> p" "p + sizeof_class c \<le> R + RUN_SIZE" by simp_all
qed

lemma is_blockD:
  assumes "is_block s c p b ck r" "chunks_wf s"
  shows "c < N_CLASSES" "0 < r" "r < N_RUNS" "chunk_wf s b ck" "b \<le> p" "b + r * RUN_SIZE \<le> p"
    "p + sizeof_class c \<le> b + r * RUN_SIZE + RUN_SIZE" "p + sizeof_class c \<le> b + CHUNK_SIZE" "p < 2 ^ 64" "0 < p"
proof -
  have c: "bp_chunks s b = Some ck" "\<not> ck_is_large ck" "r \<noteq> 0" "r \<in> used_runs ck" "ck_run_class ck ! r = c" "p \<in> set (run_blocks (b + r * RUN_SIZE) c)"
    using assms(1) by (auto simp: is_block_def)
  show wf: "chunk_wf s b ck" using assms(2) c(1) by (simp add: chunks_wf_def)
  then have ok: "runs_ok ck" using c(2) by (simp add: chunk_wf_def)
  show cls: "c < N_CLASSES" using ok c(4,5) by (auto simp: runs_ok_def)
  show r: "0 < r" "r < N_RUNS" using c(3,4) by (auto simp: used_runs_def)
  show in1: "b + r * RUN_SIZE \<le> p" "p + sizeof_class c \<le> b + r * RUN_SIZE + RUN_SIZE" using run_block_in [OF c(6) cls] by auto
  then show "b \<le> p" by simp
  have "Suc r * RUN_SIZE \<le> N_RUNS * RUN_SIZE" using r(2) by (intro mult_right_mono) auto
  then show in2: "p + sizeof_class c \<le> b + CHUNK_SIZE" using in1 by (simp add: pool_sizes)
  have "0 < sizeof_class c" by (simp add: sizeof_class_def)
  then show "p < 2 ^ 64" using in2 wf c(2) by (simp add: chunk_wf_def ck_extent_def)
  show "0 < p" using in1(1) wf by (simp add: chunk_wf_def)
qed

text \<open>\<open>base_cls_from_ptr\<close> finds the chunk and the class of a block.\<close>

lemma base_cls_block:
  assumes "is_block s c p b ck r" "chunks_wf s"
  shows "base_cls_from_ptr p s = Inr (b, ck, c)"
proof -
  note d = is_blockD [OF assms]
  have "0 < sizeof_class c" by (simp add: sizeof_class_def)
  then have lt: "p < b + CHUNK_SIZE" "p < b + r * RUN_SIZE + RUN_SIZE" using d by simp_all
  have "b mod CHUNK_SIZE = 0" using d(4) by (simp add: chunk_wf_def)
  then obtain q where q: "b = q * CHUNK_SIZE" by (metis dvd_def mod_0_imp_dvd mult.commute)
  have "p div CHUNK_SIZE = q" using lt(1) d(5) q by (intro div_nat_eqI) (simp_all add: pool_sizes)
  then have base: "p div CHUNK_SIZE * CHUNK_SIZE = b" using q by simp
  have run: "drop_bit RUN_SHIFT (p - b) = r"
    unfolding drop_bit_eq_div using lt(2) d(6) by (intro div_nat_eqI) (simp_all add: pool_sizes)
  show ?thesis using assms(1) d(3,4) by (simp add: base_cls_from_ptr_def base run Let_def is_block_def chunk_wf_def)
qed

lemma is_block_unique:
  assumes "is_block s c p b ck r" "is_block s c' p b' ck' r'" "chunks_wf s"
  shows "c = c'" "b = b'" "ck = ck'" "r = r'"
proof -
  show e: "c = c'" "b = b'" "ck = ck'" using base_cls_block [OF assms(1,3)] base_cls_block [OF assms(2,3)] by simp_all
  note d = is_blockD [OF assms(1,3)] and d' = is_blockD [OF assms(2,3)]
  have "0 < sizeof_class c" by (simp add: sizeof_class_def)
  then have "r = (p - b) div RUN_SIZE" "r' = (p - b) div RUN_SIZE"
    using d(6,7) d'(6,7) e by (auto intro!: div_nat_eqI [symmetric] simp: pool_sizes)
  then show "r = r'" by simp
qed

lemma class_blocks_disjoint: "chunks_wf s \<Longrightarrow> c \<noteq> d \<Longrightarrow> class_blocks s c \<inter> class_blocks s d = {}"
  using is_block_unique(1) unfolding class_blocks_def by blast

lemma N_RUNS_pos: "0 < N_RUNS"
  by (simp add: pool_sizes)

lemma large_block_base:
  assumes "bp_chunks s b = Some ck" "chunks_wf s"
  shows "base_cls_from_ptr (b + SIZEOF_CHUNK) s = Inr (b, ck, ck_run_class ck ! 0)"
proof -
  have wf: "chunk_wf s b ck" using assms by (simp add: chunks_wf_def)
  then obtain q where q: "b = q * CHUNK_SIZE" by (metis chunk_wf_def dvd_def mod_0_imp_dvd mult.commute)
  have "(b + SIZEOF_CHUNK) div CHUNK_SIZE = q" using q by (intro div_nat_eqI) (simp_all add: pool_sizes)
  then have base: "(b + SIZEOF_CHUNK) div CHUNK_SIZE * CHUNK_SIZE = b" using q by simp
  have run: "drop_bit RUN_SHIFT (b + SIZEOF_CHUNK - b) = 0" by (simp add: drop_bit_eq_div pool_sizes)
  show ?thesis using assms(1) wf N_RUNS_pos by (simp add: base_cls_from_ptr_def base run [simplified] Let_def chunk_wf_def)
qed

lemma class_large_disjoint: "chunks_wf s \<Longrightarrow> class_blocks s c \<inter> large_blocks s = {}"
proof -
  assume wf: "chunks_wf s"
  have False if "is_block s c p b ck r" "p = b' + SIZEOF_CHUNK" "bp_chunks s b' = Some ck'" "ck_is_large ck'" for p b ck r b' ck'
    using base_cls_block [OF that(1) wf] large_block_base [OF that(3) wf] that by (simp add: is_block_def)
  then show ?thesis unfolding class_blocks_def large_blocks_def by blast
qed

text \<open>Two blocks in use have no byte in common.\<close>

definition usable :: "pool \<Rightarrow> ptr \<Rightarrow> nat" where
  "usable s p = (case base_cls_from_ptr p s of Inl _ \<Rightarrow> 0
     | Inr (b, ck, c) \<Rightarrow> if ck_is_large ck then ck_sz ck - SIZEOF_CHUNK else sizeof_class c)"

lemma usable_block: "is_block s c p b ck r \<Longrightarrow> chunks_wf s \<Longrightarrow> usable s p = sizeof_class c"
  using base_cls_block [of s c p b ck r] is_block_def [of s c p b ck r] by (simp add: usable_def)

lemma usable_large: "bp_chunks s b = Some ck \<Longrightarrow> ck_is_large ck \<Longrightarrow> chunks_wf s \<Longrightarrow> usable s (b + SIZEOF_CHUNK) = ck_sz ck - SIZEOF_CHUNK"
  using large_block_base by (simp add: usable_def)

lemma usable_in_chunk:
  assumes "p \<in> class_blocks s c \<or> p \<in> large_blocks s" "chunks_wf s"
  shows "\<exists>b ck. bp_chunks s b = Some ck \<and> mem_range p (usable s p) \<subseteq> mem_range b (ck_extent ck)
    \<and> (ck_is_large ck \<longrightarrow> p = b + SIZEOF_CHUNK) \<and> (\<not> ck_is_large ck \<longrightarrow> (\<exists>r c. is_block s c p b ck r))"
proof (cases "p \<in> class_blocks s c")
  case True
  then obtain b ck r where b: "is_block s c p b ck r" by (auto simp: class_blocks_def)
  have "mem_range p (usable s p) \<subseteq> mem_range b (ck_extent ck)"
    using is_blockD(5,8) [OF b assms(2)] usable_block [OF b assms(2)] b by (auto simp: mem_range_def is_block_def ck_extent_def)
  with b show ?thesis by (auto simp: is_block_def)
next
  case False
  then obtain b ck where b: "p = b + SIZEOF_CHUNK" "bp_chunks s b = Some ck" "ck_is_large ck" using assms(1) by (auto simp: large_blocks_def)
  have "chunk_wf s b ck" using assms(2) b(2) by (simp add: chunks_wf_def)
  then have "mem_range p (usable s p) \<subseteq> mem_range b (ck_extent ck)"
    using usable_large [OF b(2,3) assms(2)] b by (auto simp: mem_range_def ck_extent_def chunk_wf_def pool_sizes)
  with b show ?thesis by blast
qed

lemma same_chunk_disjoint:
  assumes "is_block s c p b ck r" "is_block s d q b ck r'" "p \<noteq> q" "chunks_wf s"
  shows "mem_range p (sizeof_class c) \<inter> mem_range q (sizeof_class d) = {}"
proof (cases "r = r'")
  case False
  have "(Suc r) * RUN_SIZE \<le> r' * RUN_SIZE \<or> (Suc r') * RUN_SIZE \<le> r * RUN_SIZE"
    using False by (metis Suc_leI linorder_neqE_nat mult_le_mono1)
  then show ?thesis using is_blockD(6,7) [OF assms(1,4)] is_blockD(6,7) [OF assms(2,4)] by (auto simp: mem_range_def)
next
  case True
  then have c: "d = c" using assms(1,2) by (simp add: is_block_def)
  obtain k where k: "p = b + r * RUN_SIZE + k * sizeof_class c" using assms(1) by (auto simp: is_block_def run_block_iff)
  obtain j where j: "q = b + r * RUN_SIZE + j * sizeof_class c" using assms(2) True c by (auto simp: is_block_def run_block_iff)
  have "Suc j * sizeof_class c \<le> k * sizeof_class c \<or> Suc k * sizeof_class c \<le> j * sizeof_class c"
    using assms(3) k j by (metis Suc_leI linorder_neqE_nat mult_le_mono1)
  then show ?thesis using k j c by (auto simp: mem_range_def)
qed

lemma live_disjoint:
  assumes "pool_inv s L" "p \<in> L" "q \<in> L" "p \<noteq> q"
  shows "mem_range p (usable s p) \<inter> mem_range q (usable s q) = {}"
proof -
  note wf = pool_invD(3) [OF assms(1)]
  obtain b ck where b: "bp_chunks s b = Some ck" "mem_range p (usable s p) \<subseteq> mem_range b (ck_extent ck)"
    "ck_is_large ck \<longrightarrow> p = b + SIZEOF_CHUNK" "\<not> ck_is_large ck \<longrightarrow> (\<exists>r c. is_block s c p b ck r)"
    using usable_in_chunk [OF _ wf] pool_invD(7) [OF assms(1)] assms(2) by blast
  obtain b' ck' where b': "bp_chunks s b' = Some ck'" "mem_range q (usable s q) \<subseteq> mem_range b' (ck_extent ck')"
    "ck_is_large ck' \<longrightarrow> q = b' + SIZEOF_CHUNK" "\<not> ck_is_large ck' \<longrightarrow> (\<exists>r c. is_block s c q b' ck' r)"
    using usable_in_chunk [OF _ wf] pool_invD(7) [OF assms(1)] assms(3) by blast
  show ?thesis
  proof (cases "b = b'")
    case False
    then have "mem_range b (ck_extent ck) \<inter> mem_range b' (ck_extent ck') = {}" using wf b(1) b'(1) unfolding chunks_wf_def by blast
    with b(2) b'(2) show ?thesis by blast
  next
    case True
    then have ck: "ck' = ck" using b(1) b'(1) by simp
    then have small: "\<not> ck_is_large ck" using b(3) b'(3) assms(4) True by auto
    obtain r c r' c' where "is_block s c p b ck r" "is_block s c' q b ck r'" using small b(4) b'(4) True ck by blast
    then show ?thesis using same_chunk_disjoint [OF _ _ assms(4) wf] usable_block [OF _ wf] by simp
  qed
qed

lemma live_mapped:
  assumes "pool_inv s L" "p \<in> L"
  shows "mem_range p (usable s p) \<subseteq> bp_vm s"
proof -
  obtain b ck where "bp_chunks s b = Some ck" "mem_range p (usable s p) \<subseteq> mem_range b (ck_extent ck)"
    using usable_in_chunk [OF _ pool_invD(3) [OF assms(1)]] pool_invD(7) [OF assms(1)] assms(2) by blast
  then show ?thesis using pool_invD(3) [OF assms(1)] by (auto simp: chunks_wf_def chunk_wf_def)
qed

subsection \<open>Steps on one class keep the others\<close>

lemma moves_fields:
  assumes "moves W c s s'"
  shows "bp_chunks s' = bp_chunks s" "bp_vm s' = bp_vm s" "bp_chunk_head s' = bp_chunk_head s" "bp_chunk_next s' = bp_chunk_next s"
    "length (bp_mag s') = length (bp_mag s)" "length (bp_classes s') = length (bp_classes s)"
    "\<And>d. d \<noteq> c \<Longrightarrow> bp_mag s' ! d = bp_mag s ! d" "\<And>d. d \<noteq> c \<Longrightarrow> bp_classes s' ! d = bp_classes s ! d"
    "\<And>x. x \<notin> W \<Longrightarrow> bp_next s' x = bp_next s x"
  using assms unfolding moves_def by auto

text \<open>What only depends on the chunks.\<close>

lemma chunk_fields_cong:
  assumes "bp_chunks s' = bp_chunks s"
  shows "class_blocks s' = class_blocks s" "large_blocks s' = large_blocks s" "open_chunks s' = open_chunks s"
    "base_cls_from_ptr p s' = base_cls_from_ptr p s" "usable s' p = usable s p"
  using assms by (simp_all add: class_blocks_def is_block_def large_blocks_def open_chunks_def base_cls_from_ptr_def usable_def fun_eq_iff)

lemma chunks_wf_cong: "bp_chunks s' = bp_chunks s \<Longrightarrow> bp_vm s' = bp_vm s \<Longrightarrow> chunks_wf s' = chunks_wf s"
  by (simp add: chunks_wf_def chunk_wf_def)

lemma ts_holds_cong:
  assumes "ts_holds b (hd', nx) G" "\<And>x. x \<in> set G \<Longrightarrow> nx' x = nx x"
  shows "ts_holds b (hd', nx') G"
  using assms chain_cong [of G nx' nx] by (auto simp: ts_holds_def)

lemma cls_rep_frame:
  assumes "cls_rep s d M G" "moves W c s s'" "d \<noteq> c" "W \<inter> set G = {}"
  shows "cls_rep s' d M G"
proof -
  note m = moves_fields [OF assms(2)]
  have "ts_holds 0 (bp_classes s ! d, bp_next s') G"
    by (rule ts_holds_cong [OF cls_repD(4) [OF assms(1)]]) (use m(9) assms(4) in auto)
  then show ?thesis using assms(1,3) m by (simp add: cls_rep_def)
qed

lemma pool_step:
  assumes "pool_but X s L" "moves W c s s'" "W \<subseteq> class_blocks s c" "cls_rep s' c M' G'" "set (M' @ G') = class_blocks s c - L'"
    and "large_blocks s \<subseteq> L'" "L' \<subseteq> (\<Union>c. class_blocks s c) \<union> large_blocks s"
    and "\<And>d. d \<noteq> c \<Longrightarrow> class_blocks s d - L' = class_blocks s d - L"
  shows "pool_but X s' L'"
proof -
  note p = pool_butD [OF assms(1)] and m = moves_fields [OF assms(2)]
  note b = chunk_fields_cong [OF m(1)]
  have "cached s' L' d" if dN: "d < N_CLASSES" for d
  proof (cases "d = c")
    case True
    then show ?thesis using assms(4,5) b(1) by (auto simp: cached_def)
  next
    case False
    obtain M G where r: "cls_rep s d M G" "set (M @ G) = class_blocks s d - L" using p(5) [OF dN] by (auto simp: cached_def)
    have "W \<inter> set G = {}" using assms(3) r(2) class_blocks_disjoint [OF p(3), of c d] False by auto
    from cls_rep_frame [OF r(1) assms(2) False this] r(2) assms(8) [OF False] b(1) show ?thesis unfolding cached_def by metis
  qed
  then show ?thesis
    using p m assms(6,7) b chunks_wf_cong [OF m(1,2)] unfolding pool_but_def chunks_listed_def by simp
qed

lemma set_of_mset_add:
  assumes "mset xs = add_mset p (mset ys)" "distinct xs"
  shows "set ys = set xs - {p}" "p \<in> set xs"
proof -
  have "set xs = insert p (set ys)" using arg_cong [OF assms(1), of set_mset] by simp
  moreover have "distinct (p # ys)" using assms by (metis distinct_count_atmost_1 mset.simps(2) set_mset_mset set_mset_add_mset_insert mset_eq_setD mset_eq_imp_distinct_iff)
  ultimately show "set ys = set xs - {p}" "p \<in> set xs" by auto
qed

text \<open>Taking a block from the magazine of a class, which may take from its shared list.\<close>

lemma pool_pop:
  assumes "pool_inv s L" "c < N_CLASSES"
  shows "\<exists>p s'. mag_pop c s = Inr (p, s') \<and> bp_chunks s' = bp_chunks s \<and> bp_vm s' = bp_vm s
    \<and> (if class_blocks s c \<subseteq> L then p = 0 \<and> pool_inv s' L else p \<in> class_blocks s c - L \<and> pool_inv s' (insert p L))"
proof -
  note p = pool_invD [OF assms(1)]
  obtain M G where r: "cls_rep s c M G" "set (M @ G) = class_blocks s c - L" using p(5) [OF assms(2)] by (auto simp: cached_def)
  obtain x s' M' G' where s': "mag_pop c s = Inr (x, s')" "cls_rep s' c M' G'" "moves (set G) c s s'"
    "if M @ G = [] then x = 0 \<and> M' @ G' = [] else mset (M @ G) = add_mset x (mset (M' @ G')) \<and> length M' \<le> length M + BATCH_SIZE"
    using mag_pop_spec [OF r(1)] by blast
  have W: "set G \<subseteq> class_blocks s c" using r(2) by auto
  note m = moves_fields [OF s'(3)]
  show ?thesis
  proof (cases "class_blocks s c \<subseteq> L")
    case True
    then have "M @ G = []" using r(2) by (metis Diff_eq_empty_iff set_empty)
    then have x: "x = 0" "set (M' @ G') = class_blocks s c - L" using s'(4) r(2) by (simp, metis)
    have "pool_inv s' L" unfolding pool_inv_def
      by (rule pool_step [OF assms(1) [unfolded pool_inv_def] s'(3) W s'(2) x(2) p(6,7)]) simp
    with True x s'(1) m show ?thesis by auto
  next
    case False
    then have "M @ G \<noteq> []" using r(2) by (metis Diff_eq_empty_iff set_empty)
    then have "mset (M @ G) = add_mset x (mset (M' @ G'))" using s'(4) unfolding if_not_P [OF \<open>M @ G \<noteq> []\<close>] by blast
    note sx = set_of_mset_add [OF this cls_repD(5) [OF r(1)]]
    then have x: "x \<in> class_blocks s c - L" "set (M' @ G') = class_blocks s c - insert x L" using r(2) by auto
    have o: "class_blocks s d - insert x L = class_blocks s d - L" if "d \<noteq> c" for d
      using x(1) class_blocks_disjoint [OF p(3) that] by blast
    have "pool_inv s' (insert x L)" unfolding pool_inv_def
      by (rule pool_step [OF assms(1) [unfolded pool_inv_def] s'(3) W s'(2) x(2) _ _ o]) (use p(6,7) x in auto)
    with False x s'(1) m show ?thesis by auto
  qed
qed

lemma pool_push:
  assumes "pool_inv s L" "p \<in> L" "is_block s c p b ck r"
  shows "\<exists>s'. mag_push p c s = Inr s' \<and> bp_chunks s' = bp_chunks s \<and> bp_vm s' = bp_vm s \<and> pool_inv s' (L - {p})"
proof -
  note i = pool_invD [OF assms(1)] and d = is_blockD [OF assms(3) pool_invD(3) [OF assms(1)]]
  have blk: "p \<in> class_blocks s c" using assms(3) by (auto simp: class_blocks_def)
  obtain M G where r: "cls_rep s c M G" "set (M @ G) = class_blocks s c - L" using i(5) [OF d(1)] by (auto simp: cached_def)
  have "p \<notin> set (M @ G)" "aligned 0 p" using r(2) assms(2) d(9) by (auto simp: aligned_def)
  then obtain s' M' G' where s': "mag_push p c s = Inr s'" "cls_rep s' c M' G'" "moves (set M) c s s'" "mset (M' @ G') = add_mset p (mset (M @ G))"
    using mag_push_spec [OF r(1)] d(10) by blast
  have "set (M' @ G') = insert p (set (M @ G))" using arg_cong [OF s'(4), of set_mset] by simp
  then have x: "set (M' @ G') = class_blocks s c - (L - {p})" using r(2) blk by auto
  have W: "set M \<subseteq> class_blocks s c" using r(2) by auto
  have o: "class_blocks s d - (L - {p}) = class_blocks s d - L" if "d \<noteq> c" for d
    using blk class_blocks_disjoint [OF i(3) that] by blast
  have "p \<notin> large_blocks s" using blk class_large_disjoint [OF i(3)] by blast
  then have "pool_inv s' (L - {p})" unfolding pool_inv_def
    by (intro pool_step [OF assms(1) [unfolded pool_inv_def] s'(3) W s'(2) x _ _ o]) (use i(6,7) in auto)
  with s'(1) moves_fields [OF s'(3)] show ?thesis by auto
qed

subsection \<open>New chunks\<close>

text \<open>
  What is relied on of \<open>mmap\<close>: the pages it returns were not mapped before, do not start at the
  null pointer and lie within the address space.
\<close>

definition kernel_ok :: "kernel \<Rightarrow> bool" where
  "kernel_ok K \<longleftrightarrow> (\<forall>huge n vm p. k_mmap K huge n vm = Some p \<longrightarrow> 0 < p \<and> p + n \<le> 2 ^ 64 \<and> mem_range p n \<inter> vm = {})"

lemma range_split: "mem_range p (m + n) = mem_range p m \<union> mem_range (p + m) n"
  by (auto simp: mem_range_def)

lemma unmap_if: "(if n \<noteq> 0 then s\<lparr>bp_vm := bp_vm s - mem_range p n\<rparr> else s) = s\<lparr>bp_vm := bp_vm s - mem_range p n\<rparr>"
  by (simp add: mem_range_def)

text \<open>A failed allocation leaves nothing mapped; a successful one maps the chunk and nothing else.\<close>

lemma allocate_new_chunk_spec:
  assumes "kernel_ok K"
  shows "allocate_new_chunk K sz s = Inr (nullptr, s) \<or>
    (\<exists>p. allocate_new_chunk K sz s = Inr (p, s\<lparr>bp_vm := bp_vm s \<union> mem_range p sz, bp_chunks := (bp_chunks s)(p \<mapsto> Chunk_init)\<rparr>)
      \<and> 0 < p \<and> p mod CHUNK_SIZE = 0 \<and> p + sz \<le> 2 ^ 64 \<and> mem_range p sz \<inter> bp_vm s = {})"
proof (cases "k_mmap K True sz (bp_vm s)")
  case (Some p)
  then have k: "0 < p" "p + sz \<le> 2 ^ 64" "mem_range p sz \<inter> bp_vm s = {}" using assms unfolding kernel_ok_def by blast+
  then have "(bp_vm s \<union> mem_range p sz) - mem_range p sz = bp_vm s" by blast
  with Some k show ?thesis by (auto simp: allocate_new_chunk_def place_chunk_def)
next
  case huge: None
  let ?n = "sz + CHUNK_SIZE"
  show ?thesis
  proof (cases "k_mmap K False ?n (bp_vm s)")
    case None
    with huge show ?thesis by (simp add: allocate_new_chunk_def Let_def)
  next
    case (Some p)
    then have k: "0 < p" "p + ?n \<le> 2 ^ 64" "mem_range p ?n \<inter> bp_vm s = {}" using assms unfolding kernel_ok_def by blast+
    define q where "q = (p + CHUNK_SIZE - 1) div CHUNK_SIZE * CHUNK_SIZE"
    have q: "p \<le> q" "q < p + CHUNK_SIZE" "q mod CHUNK_SIZE = 0" by (simp_all add: q_def pool_sizes)
    have al: "std_align CHUNK_SIZE sz p ?n = Some (q, ?n - (q - p))"
      using q(1,2) unfolding std_align_def q_def [symmetric] Let_def by simp
    define t where "t = ?n - (q - p) - sz"
    have n: "?n = (q - p) + (sz + t)" using q(1,2) by (simp add: t_def)
    have R: "mem_range p ?n = mem_range p (q - p) \<union> mem_range q sz \<union> mem_range (q + sz) t"
      unfolding n range_split using q(1) by (simp add: Un_assoc)
    have d: "mem_range q sz \<inter> mem_range p (q - p) = {}" "mem_range q sz \<inter> mem_range (q + sz) m = {}" for m
      using q(1) by (auto simp: mem_range_def)
    have vm: "bp_vm s \<union> mem_range p ?n - mem_range p (q - p) - mem_range (q + sz) t = bp_vm s \<union> mem_range q sz"
      using R d k(3) by blast
    have v0: "bp_vm s \<union> mem_range p ?n - mem_range p ?n = bp_vm s" using k(3) by blast
    show ?thesis
    proof (cases "k_madvise K q sz")
      case False
      then show ?thesis using huge Some al v0 by (simp add: allocate_new_chunk_def Let_def)
    next
      case True
      let ?s = "s\<lparr>bp_vm := bp_vm s \<union> mem_range q sz\<rparr>"
      have "allocate_new_chunk K sz s = Inr (place_chunk q ?n ?s)"
        
      proof -
        have h: "?n - (?n - (q - p)) = q - p" using q(1,2) by simp
        show ?thesis using huge Some al True unfolding allocate_new_chunk_def Let_def unmap_if
          by (simp add: h vm [unfolded t_def] del: diff_diff_left diff_diff_right diff_diff_eq2)
      qed
      moreover have "mem_range q sz \<inter> bp_vm s = {}" using R k(3) by blast
      ultimately show ?thesis using q k by (auto simp: place_chunk_def)
    qed
  qed
qed

subsection \<open>Filling a magazine from a chunk\<close>

lemma chunks_wf_new:
  assumes "chunks_wf s" "mem_range p (ck_extent ck) \<inter> bp_vm s = {}"
    and s': "s' = s\<lparr>bp_vm := bp_vm s \<union> mem_range p (ck_extent ck), bp_chunks := (bp_chunks s)(p \<mapsto> ck)\<rparr>" and "chunk_wf s' p ck"
  shows "chunks_wf s'" "bp_chunks s p = None"
proof -
  have ex: "0 < ck_extent ck" using assms(4) by (simp add: chunk_wf_def pool_sizes)
  have old: "mem_range b (ck_extent c) \<subseteq> bp_vm s" "0 < ck_extent c" if "bp_chunks s b = Some c" for b c
  proof -
    have "chunk_wf s b c" using assms(1) that by (simp add: chunks_wf_def)
    then show "mem_range b (ck_extent c) \<subseteq> bp_vm s" "0 < ck_extent c" by (simp_all add: chunk_wf_def pool_sizes)
  qed
  have "p \<in> mem_range p (ck_extent ck)" using ex by (simp add: mem_range_def)
  moreover have "p \<in> mem_range p (ck_extent c)" if "bp_chunks s p = Some c" for c using old(2) [OF that] by (simp add: mem_range_def)
  ultimately show "bp_chunks s p = None" using old(1) assms(2) by (cases "bp_chunks s p") auto
  have "chunk_wf s' b c" if "bp_chunks s b = Some c" for b c
    using assms(1) that by (auto simp: chunks_wf_def chunk_wf_def s')
  then show "chunks_wf s'" using assms(1,2,4) old(1) unfolding chunks_wf_def by (auto simp: s' split: if_splits) blast+
qed

lemma pool_new_chunk:
  assumes "pool_but {} s L" "mem_range p CHUNK_SIZE \<inter> bp_vm s = {}" "0 < p" "p mod CHUNK_SIZE = 0" "p + CHUNK_SIZE \<le> 2 ^ 64"
    and s': "s' = s\<lparr>bp_vm := bp_vm s \<union> mem_range p CHUNK_SIZE, bp_chunks := (bp_chunks s)(p \<mapsto> Chunk_init)\<rparr>"
  shows "pool_but {p} s' L"
proof -
  note i = pool_butD [OF assms(1)]
  have ex: "ck_extent Chunk_init = CHUNK_SIZE" by (simp add: ck_extent_def Chunk_init_def)
  have ck: "chunk_wf s' p Chunk_init"
    using assms(3-5) Chunk_init_runs_ok(1) unfolding chunk_wf_def ex by (auto simp: s' runs_ok_def)
  note n = chunks_wf_new [OF i(3), of p Chunk_init s', unfolded ex, OF assms(2) s' ck]
  have lg: "\<not> ck_is_large Chunk_init" by (simp add: Chunk_init_def)
  have blk: "class_blocks s' = class_blocks s"
  proof -
    have "is_block s' c x b ck r \<longleftrightarrow> is_block s c x b ck r" for c x b ck r
    proof (cases "b = p")
      case True
      have "bp_chunks s' p = Some Chunk_init" by (simp add: s')
      then have "\<not> is_block s' c x p ck r" using Chunk_init_runs_ok(2) unfolding is_block_def by (metis option.inject singletonD)
      moreover have "\<not> is_block s c x p ck r" using n(2) by (simp add: is_block_def)
      ultimately show ?thesis using True by simp
    qed (simp add: is_block_def s')
    then show ?thesis by (simp add: class_blocks_def fun_eq_iff)
  qed
  have lrg: "large_blocks s' = large_blocks s"
  proof -
    have "bp_chunks s' b = Some ck \<and> ck_is_large ck \<longleftrightarrow> bp_chunks s b = Some ck \<and> ck_is_large ck" for b ck
      using n(2) lg by (cases "b = p") (auto simp: s')
    then show ?thesis by (simp add: large_blocks_def)
  qed
  have opn: "open_chunks s' - {p} = open_chunks s - {}"
    using n(2) by (auto simp: open_chunks_def s' split: if_splits)
  have "cached s' L c \<longleftrightarrow> cached s L c" for c unfolding cached_def blk by (simp add: cls_rep_def s')
  then show ?thesis
    using i n(1) blk lrg opn unfolding pool_but_def chunks_listed_def by (simp add: s')
qed

text \<open>A run claimed in a chunk adds its blocks to the class and changes no other block.\<close>

lemma claimed_blocks:
  assumes "chunks_wf s" "bp_chunks s b = Some ck" "runs_ok ck" "runs_ok ck'" "r < N_RUNS" "r \<notin> used_runs ck" "r \<noteq> 0"
    and "used_runs ck' = insert r (used_runs ck)" "ck_run_class ck' = (ck_run_class ck)[r := c]" "c < N_CLASSES"
    and s': "s' = s\<lparr>bp_chunks := (bp_chunks s)(b \<mapsto> ck'), bp_next := nx\<rparr>"
  defines "B \<equiv> set (run_blocks (b + r * RUN_SIZE) c)"
  shows "chunks_wf s'" "class_blocks s' c = class_blocks s c \<union> B" "\<And>d. d \<noteq> c \<Longrightarrow> class_blocks s' d = class_blocks s d"
    "\<And>d. B \<inter> class_blocks s d = {}" "large_blocks s' = large_blocks s" "B \<inter> large_blocks s = {}"
    "\<And>p. p \<in> B \<Longrightarrow> 0 < p \<and> aligned 0 p" "open_chunks s' - {b} = open_chunks s - {b}"
proof -
  have lg: "\<not> ck_is_large ck" "\<not> ck_is_large ck'" using assms(3,4) by (simp_all add: runs_ok_def)
  then have ex: "ck_extent ck' = ck_extent ck" by (simp add: ck_extent_def)
  have "chunk_wf s b ck" using assms(1,2) by (simp add: chunks_wf_def)
  then have "chunk_wf s' b ck'" using ex assms(4) lg by (simp add: chunk_wf_def s' runs_ok_def)
  then show wf: "chunks_wf s'" using assms(1,2) ex unfolding chunks_wf_def chunk_wf_def by (auto simp: s')
  have len: "r < length (ck_run_class ck)" using assms(3,5) by (simp add: runs_ok_def)
  have blk: "is_block s' d p b2 ck2' r2 \<longleftrightarrow>
      (\<exists>ck2. is_block s d p b2 ck2 r2 \<and> ck2' = (if b2 = b then ck' else ck2)) \<or> (b2 = b \<and> r2 = r \<and> d = c \<and> ck2' = ck' \<and> p \<in> B)" for d p b2 ck2' r2
    using assms(2,6-9) lg len by (cases "b2 = b"; cases "r2 = r") (auto simp: is_block_def s' B_def)
  have old: "p \<in> class_blocks s d \<longleftrightarrow> (\<exists>b2 ck2 r2. is_block s d p b2 ck2 r2)" for s d p by (auto simp: class_blocks_def)
  show "class_blocks s' c = class_blocks s c \<union> B" unfolding set_eq_iff Un_iff old blk by blast
  show "class_blocks s' d = class_blocks s d" if "d \<noteq> c" for d unfolding set_eq_iff old blk using that by blast
  have new: "is_block s' c p b ck' r" if "p \<in> B" for p using blk that by blast
  show "B \<inter> class_blocks s d = {}" for d
  proof -
    have False if p: "p \<in> B" "is_block s d p b2 ck2 r2" for p b2 ck2 r2
    proof -
      have "is_block s' d p b2 (if b2 = b then ck' else ck2) r2" using blk p(2) by blast
      then have "b2 = b" "r2 = r" using is_block_unique(2,4) [OF _ new [OF p(1)] wf] by blast+
      then show False using p(2) assms(2,6) by (simp add: is_block_def)
    qed
    then show ?thesis by (auto simp: old)
  qed
  have "bp_chunks s' b2 = Some x \<and> ck_is_large x \<longleftrightarrow> bp_chunks s b2 = Some x \<and> ck_is_large x" for b2 x
    using assms(2) lg by (cases "b2 = b") (auto simp: s')
  then show lrg: "large_blocks s' = large_blocks s" by (simp add: large_blocks_def)
  have "B \<subseteq> class_blocks s' c" using new by (auto simp: class_blocks_def)
  then show "B \<inter> large_blocks s = {}" using class_large_disjoint [OF wf, of c] lrg by blast
  show "0 < p \<and> aligned 0 p" if "p \<in> B" for p using is_blockD(9,10) [OF new [OF that] wf] by (simp add: aligned_def)
  show "open_chunks s' - {b} = open_chunks s - {b}" by (auto simp: open_chunks_def s')
qed

text \<open>Chunks stay where they are, and the runs claimed in them keep their class.\<close>

definition chunks_grow :: "pool \<Rightarrow> pool \<Rightarrow> bool" where
  "chunks_grow s s' \<longleftrightarrow> (\<forall>b ck. bp_chunks s b = Some ck \<longrightarrow> (\<exists>ck'. bp_chunks s' b = Some ck' \<and>
     (if ck_is_large ck then ck' = ck
      else \<not> ck_is_large ck' \<and> used_runs ck \<subseteq> used_runs ck' \<and> (\<forall>r \<in> used_runs ck. ck_run_class ck' ! r = ck_run_class ck ! r))))"

lemma chunks_grow_same: "bp_chunks s' = bp_chunks s \<Longrightarrow> chunks_grow s s'"
  by (simp add: chunks_grow_def)

lemma chunks_grow_trans:
  assumes "chunks_grow s s'" "chunks_grow s' s''"
  shows "chunks_grow s s''"
  unfolding chunks_grow_def
proof (intro allI impI)
  fix b ck
  assume "bp_chunks s b = Some ck"
  then obtain ck' where 1: "bp_chunks s' b = Some ck'" "if ck_is_large ck then ck' = ck
      else \<not> ck_is_large ck' \<and> used_runs ck \<subseteq> used_runs ck' \<and> (\<forall>r \<in> used_runs ck. ck_run_class ck' ! r = ck_run_class ck ! r)"
    using assms(1) unfolding chunks_grow_def by blast
  then obtain ck'' where 2: "bp_chunks s'' b = Some ck''" "if ck_is_large ck' then ck'' = ck'
      else \<not> ck_is_large ck'' \<and> used_runs ck' \<subseteq> used_runs ck'' \<and> (\<forall>r \<in> used_runs ck'. ck_run_class ck'' ! r = ck_run_class ck' ! r)"
    using assms(2) unfolding chunks_grow_def by blast
  show "\<exists>ck''. bp_chunks s'' b = Some ck'' \<and> (if ck_is_large ck then ck'' = ck
      else \<not> ck_is_large ck'' \<and> used_runs ck \<subseteq> used_runs ck'' \<and> (\<forall>r \<in> used_runs ck. ck_run_class ck'' ! r = ck_run_class ck ! r))"
  proof (cases "ck_is_large ck")
    case True
    then show ?thesis using 1 2 by simp
  next
    case False
    then have a: "\<not> ck_is_large ck'" "used_runs ck \<subseteq> used_runs ck'" "\<forall>r \<in> used_runs ck. ck_run_class ck' ! r = ck_run_class ck ! r" using 1(2) by simp_all
    then have "\<not> ck_is_large ck''" "used_runs ck' \<subseteq> used_runs ck''" "\<forall>r \<in> used_runs ck'. ck_run_class ck'' ! r = ck_run_class ck' ! r" using 2(2) by simp_all
    with a have "\<not> ck_is_large ck''" "used_runs ck \<subseteq> used_runs ck''" "\<forall>r \<in> used_runs ck. ck_run_class ck'' ! r = ck_run_class ck ! r" by auto
    with False 2(1) show ?thesis by simp
  qed
qed

text \<open>The part of \<open>refill\<close> after a chunk with free runs has been found.\<close>

lemma pool_claim:
  assumes "pool_but {b} s L" "bp_chunks s b = Some ck" "runs_ok ck" "has_free_runs ck" "c < N_CLASSES"
  shows "\<exists>base ck' h t nx s'. claim_run b c ck = (base, ck') \<and> base \<noteq> 0 \<and> carve_run_in_blocks base c (bp_next s) = ((h, t), nx)
    \<and> refill_from_chain c h (s\<lparr>bp_chunks := (bp_chunks s)(b \<mapsto> ck'), bp_next := nx\<rparr>) = Inr s' \<and> pool_but {b} s' L
    \<and> bp_chunks s' b = Some ck' \<and> runs_ok ck' \<and> bp_vm s' = bp_vm s
    \<and> mg_top (bp_mag s' ! c) = min CACHE_SIZE (mg_top (bp_mag s ! c) + RUN_SIZE div sizeof_class c) \<and> \<not> class_blocks s' c \<subseteq> L \<and> chunks_grow s s'"
proof -
  note i = pool_butD [OF assms(1)]
  obtain r ck' where cl: "claim_run b c ck = (b + r * RUN_SIZE, ck')" "r < N_RUNS" "r \<notin> used_runs ck" "r \<noteq> 0"
    "used_runs ck' = insert r (used_runs ck)" "ck_run_class ck' = (ck_run_class ck)[r := c]" "runs_ok ck'"
    using claim_run_spec [OF assms(3-5)] by blast
  let ?base = "b + r * RUN_SIZE" and ?B = "run_blocks (b + r * RUN_SIZE) c"
  have base: "0 < ?base" using cl(4) by (simp add: pool_sizes)
  obtain t nx where cv: "carve_run_in_blocks ?base c (bp_next s) = ((?base, t), nx)" "chain nx ?base ?B"
    "\<forall>x. x \<notin> set ?B \<longrightarrow> nx x = bp_next s x" using carve_run_spec [OF assms(5) base] by blast
  define s1 where "s1 = s\<lparr>bp_chunks := (bp_chunks s)(b \<mapsto> ck'), bp_next := nx\<rparr>"
  note n = claimed_blocks [OF i(3) assms(2,3) cl(7,2,3,4,5,6) assms(5) s1_def]
  have keep: "cls_rep s1 d M G" if "cls_rep s d M G" "set (M @ G) \<subseteq> class_blocks s d" for d M G
  proof -
    have "x \<notin> set ?B" if "x \<in> set G" for x using that n(4) [of d] \<open>set (M @ G) \<subseteq> class_blocks s d\<close> by auto
    then have "ts_holds 0 (bp_classes s ! d, nx) G" using ts_holds_cong [OF cls_repD(4) [OF that(1)]] cv(3) by blast
    then show ?thesis using that(1) by (simp add: cls_rep_def s1_def)
  qed
  obtain M G where r: "cls_rep s c M G" "set (M @ G) = class_blocks s c - L" using i(5) [OF assms(5)] by (auto simp: cached_def)
  have r1: "cls_rep s1 c M G" using keep [OF r(1)] r(2) by blast
  have dis: "distinct (M @ ?B @ G)" using cls_repD(5) [OF r(1)] r(2) n(4) [of c] distinct_run_blocks [OF assms(5)] by auto
  let ?k = "CACHE_SIZE - length M"
  have nz: "x \<noteq> 0 \<and> aligned 0 x" if "x \<in> set ?B" for x using n(7) [OF that] by simp
  have "chain (bp_next s1) ?base ?B" using cv(2) by (simp add: s1_def)
  then obtain s' where s': "refill_from_chain c ?base s1 = Inr s'" "cls_rep s' c (M @ take ?k ?B) (drop ?k ?B @ G)" "moves (set ?B) c s1 s'"
    using refill_from_chain_spec [OF r1 _ dis nz refl] by blast
  note m = moves_fields [OF s'(3)]
  have BL: "set ?B \<inter> L = {}" using i(7) n(4,6) by blast
  have set': "set ((M @ take ?k ?B) @ (drop ?k ?B @ G)) = class_blocks s1 c - L"
  proof -
    have "set (take ?k ?B) \<union> set (drop ?k ?B) = set ?B" by (metis append_take_drop_id set_append)
    then show ?thesis using r(2) n(2) BL by auto
  qed
  have "cached s' L d" if "d < N_CLASSES" for d
  proof (cases "d = c")
    case True
    then show ?thesis using s'(2) set' chunk_fields_cong(1) [OF m(1)] unfolding cached_def by metis
  next
    case False
    obtain Md Gd where rd: "cls_rep s d Md Gd" "set (Md @ Gd) = class_blocks s d - L" using i(5) [OF \<open>d < N_CLASSES\<close>] unfolding cached_def by blast
    have "set ?B \<inter> set Gd = {}" using n(4) [of d] rd(2) by auto
    then have "cls_rep s' d Md Gd" using cls_rep_frame [OF keep [OF rd(1)] s'(3) False] rd(2) by blast
    then show ?thesis using rd(2) n(3) [OF False] chunk_fields_cong(1) [OF m(1)] unfolding cached_def by metis
  qed
  moreover have "chunks_listed {b} s'" using i(4) n(8) chunk_fields_cong(3) [OF m(1)] m(3,4) by (simp add: chunks_listed_def s1_def)
  moreover have "chunks_wf s'" using chunks_wf_cong [OF m(1,2)] n(1) by simp
  moreover have "large_blocks s' = large_blocks s" "(\<Union>d. class_blocks s d) \<subseteq> (\<Union>d. class_blocks s' d)"
    using chunk_fields_cong(1,2) [OF m(1)] n(2,3,5) by (auto, metis UnI1)
  ultimately have "pool_but {b} s' L" using i m(5,6) unfolding pool_but_def by (auto simp: s1_def)
  moreover have "bp_chunks s' b = Some ck'" "bp_vm s' = bp_vm s" using m(1,2) by (simp_all add: s1_def)
  moreover have "mg_top (bp_mag s' ! c) = min CACHE_SIZE (mg_top (bp_mag s ! c) + RUN_SIZE div sizeof_class c)"
    using cls_repD(3) [OF s'(2)] cls_repD(3) [OF r(1)] stk_holds_le [OF cls_repD(3) [OF r(1)]] by (auto simp: stk_holds_def run_blocks_def)
  moreover have "\<not> class_blocks s' c \<subseteq> L"
  proof -
    have "?B \<noteq> []" using run_div_class(3) [OF assms(5)] by (simp add: run_blocks_def)
    then show ?thesis using n(2) BL chunk_fields_cong(1) [OF m(1)] by (metis Un_subset_iff inf.orderE inf_commute set_empty)
  qed
  moreover have "chunks_grow s s'"
  proof -
    have lg: "\<not> ck_is_large ck" "\<not> ck_is_large ck'" using assms(3) cl(7) by (simp_all add: runs_ok_def)
    have "\<forall>x \<in> used_runs ck. ck_run_class ck' ! x = ck_run_class ck ! x" 
      using cl(3,6) by (metis nth_list_update_neq)
    then have "chunks_grow s s1" using lg cl(5) assms(2) by (auto simp: chunks_grow_def s1_def)
    then show ?thesis using chunks_grow_trans chunks_grow_same [OF m(1)] by blast
  qed
  ultimately show ?thesis using cl(1,7) cv(1) s'(1) base unfolding s1_def by (intro exI conjI) (assumption | simp)+
qed

lemma pool_but_cong:
  assumes "pool_but X s L" "bp_mag s' = bp_mag s" "bp_classes s' = bp_classes s" "bp_next s' = bp_next s" "bp_chunks s' = bp_chunks s" "bp_vm s' = bp_vm s"
    and "chunks_listed Y s'"
  shows "pool_but Y s' L"
proof -
  have "cached s' L c \<longleftrightarrow> cached s L c" for c
    unfolding cached_def cls_rep_def chunk_fields_cong(1) [OF assms(5)] assms(2-4) ..
  then show ?thesis using assms chunks_wf_cong [OF assms(5,6)] chunk_fields_cong(1,2) [OF assms(5)] unfolding pool_but_def by simp
qed

lemma chunk_aligned: "chunk_wf s b ck \<Longrightarrow> aligned CHUNK_TAG_BITS b"
  by (simp add: chunk_wf_def aligned_def pool_sizes)

text \<open>A chunk goes back to the list when it has free runs left.\<close>

lemma pool_finish:
  assumes "pool_but {b} s L" "bp_chunks s b = Some ck" "runs_ok ck"
  shows "\<exists>s'. (if has_free_runs ck then
      let (head', cnx) = ts_push CHUNK_TAG_BITS b (bp_chunk_head s, bp_chunk_next s) in Inr (True, s\<lparr>bp_chunk_head := head', bp_chunk_next := cnx\<rparr>)
      else Inr (True, s)) = (Inr (True, s') :: (bool \<times> pool) res)
    \<and> pool_inv s' L \<and> bp_mag s' = bp_mag s \<and> bp_chunks s' = bp_chunks s \<and> bp_vm s' = bp_vm s"
proof (cases "has_free_runs ck")
  case False
  then have "open_chunks s - {b} = open_chunks s" using assms(2) by (auto simp: open_chunks_def)
  then have "pool_inv s L" using assms(1) unfolding pool_inv_def pool_but_def chunks_listed_def by simp
  with False show ?thesis by auto
next
  case True
  have wf: "chunk_wf s b ck" using pool_butD(3) [OF assms(1)] assms(2) by (simp add: chunks_wf_def)
  obtain ks where ks: "ts_holds CHUNK_TAG_BITS (bp_chunk_head s, bp_chunk_next s) ks" "set ks = open_chunks s - {b}"
    using pool_butD(4) [OF assms(1)] by (auto simp: chunks_listed_def)
  obtain head cnx where p: "ts_push CHUNK_TAG_BITS b (bp_chunk_head s, bp_chunk_next s) = (head, cnx)" by force
  let ?s = "s\<lparr>bp_chunk_head := head, bp_chunk_next := cnx\<rparr>"
  have "ts_holds CHUNK_TAG_BITS (head, cnx) (b # ks)"
    using ts_push_holds [OF ks(1) chunk_aligned [OF wf]] wf ks(2) p by (simp add: chunk_wf_def pool_sizes)
  moreover have "set (b # ks) = open_chunks ?s" using ks(2) True assms(2,3) by (auto simp: open_chunks_def runs_ok_def)
  ultimately have "chunks_listed {} ?s" unfolding chunks_listed_def by (intro exI [of _ "b # ks"]) simp
  then have "pool_inv ?s L" unfolding pool_inv_def by (intro pool_but_cong [OF assms(1)]) simp_all
  with True p show ?thesis by auto
qed

lemma bp_refill_spec:
  assumes "pool_inv s L" "kernel_ok K" "c < N_CLASSES"
  shows "(bp_refill K c s = Inr (False, s) \<and> allocate_new_chunk K CHUNK_SIZE s = Inr (nullptr, s)) \<or>
    (\<exists>s'. bp_refill K c s = Inr (True, s') \<and> pool_inv s' L \<and> bp_vm s \<subseteq> bp_vm s' \<and> \<not> class_blocks s' c \<subseteq> L \<and> chunks_grow s s'
      \<and> mg_top (bp_mag s' ! c) = min CACHE_SIZE (mg_top (bp_mag s ! c) + RUN_SIZE div sizeof_class c))"
proof -
  have fin: "\<exists>s'. bp_refill K c s = Inr (True, s') \<and> pool_inv s' L \<and> bp_vm s \<subseteq> bp_vm s' \<and> \<not> class_blocks s' c \<subseteq> L \<and> chunks_grow s s'
      \<and> mg_top (bp_mag s' ! c) = min CACHE_SIZE (mg_top (bp_mag s ! c) + RUN_SIZE div sizeof_class c)"
    if s0: "ts_pop CHUNK_TAG_BITS (bp_chunk_head s, bp_chunk_next s) = (fc, hd', cnx)"
      "(if fc = nullptr then allocate_new_chunk K CHUNK_SIZE (s\<lparr>bp_chunk_head := hd', bp_chunk_next := cnx\<rparr>)
        else Inr (fc, s\<lparr>bp_chunk_head := hd', bp_chunk_next := cnx\<rparr>)) = Inr (b, s1)"
      and s1: "b \<noteq> 0" "pool_but {b} s1 L" "bp_chunks s1 b = Some ck" "runs_ok ck" "has_free_runs ck" "bp_vm s \<subseteq> bp_vm s1" "bp_mag s1 = bp_mag s" "chunks_grow s s1"
    for fc hd' cnx b s1 ck
  proof -
    obtain base ck' h t nx s2 where c: "claim_run b c ck = (base, ck')" "base \<noteq> 0" "carve_run_in_blocks base c (bp_next s1) = ((h, t), nx)"
      "refill_from_chain c h (s1\<lparr>bp_chunks := (bp_chunks s1)(b \<mapsto> ck'), bp_next := nx\<rparr>) = Inr s2" "pool_but {b} s2 L"
      "bp_chunks s2 b = Some ck'" "runs_ok ck'" "bp_vm s2 = bp_vm s1"
      "mg_top (bp_mag s2 ! c) = min CACHE_SIZE (mg_top (bp_mag s1 ! c) + RUN_SIZE div sizeof_class c)" "\<not> class_blocks s2 c \<subseteq> L" "chunks_grow s1 s2"
      using pool_claim [OF s1(2-5) assms(3)] by blast
    obtain s' where s': "(if has_free_runs ck' then
        let (head', cnx) = ts_push CHUNK_TAG_BITS b (bp_chunk_head s2, bp_chunk_next s2) in Inr (True, s2\<lparr>bp_chunk_head := head', bp_chunk_next := cnx\<rparr>)
        else Inr (True, s2)) = (Inr (True, s') :: (bool \<times> pool) res)" "pool_inv s' L" "bp_mag s' = bp_mag s2" "bp_chunks s' = bp_chunks s2" "bp_vm s' = bp_vm s2"
      using pool_finish [OF c(5-7)] by blast
    have "bp_refill K c s = Inr (True, s')"
      using s0 s1(1,3) c(1-4) s'(1) by (simp add: bp_refill_def Let_def)
    moreover have "chunks_grow s s'" using chunks_grow_trans [OF s1(8) chunks_grow_trans [OF c(11) chunks_grow_same [OF s'(4)]]] .
    ultimately show ?thesis using s' c(8-10) s1(6,7) chunk_fields_cong(1) [OF s'(4)] by auto
  qed
  obtain ks where ks: "ts_holds CHUNK_TAG_BITS (bp_chunk_head s, bp_chunk_next s) ks" "set ks = open_chunks s - {}"
    using pool_invD(4) [OF assms(1)] by (auto simp: chunks_listed_def)
  note pop = ts_pop_holds [OF ks(1)]
  show ?thesis
  proof (cases ks)
    case (Cons k ks')
    then obtain hd' where p: "ts_pop CHUNK_TAG_BITS (bp_chunk_head s, bp_chunk_next s) = (k, hd', bp_chunk_next s)"
      "ts_holds CHUNK_TAG_BITS (hd', bp_chunk_next s) ks'" using pop by (auto simp: pool_sizes)
    let ?s = "s\<lparr>bp_chunk_head := hd', bp_chunk_next := bp_chunk_next s\<rparr>"
    obtain ck where ck: "bp_chunks s k = Some ck" "\<not> ck_is_large ck" "has_free_runs ck" using ks(2) Cons by (auto simp: open_chunks_def)
    have wf: "chunk_wf s k ck" using pool_invD(3) [OF assms(1)] ck(1) by (simp add: chunks_wf_def)
    have "set ks' = open_chunks ?s - {k}" using ks Cons by (auto simp: ts_holds_def open_chunks_def)
    then have "chunks_listed {k} ?s" using p(2) by (auto simp: chunks_listed_def)
    then have "pool_but {k} ?s L" by (intro pool_but_cong [OF assms(1) [unfolded pool_inv_def]]) simp_all
    moreover have "k \<noteq> 0" using wf by (simp add: chunk_wf_def)
    moreover have "runs_ok ck" using wf ck(2) by (simp add: chunk_wf_def)
    moreover have "chunks_grow s ?s" by (simp add: chunks_grow_same)
    ultimately show ?thesis using ck by (intro disjI2 fin [OF p(1), of k ?s ck]) simp_all
  next
    case Nil
    then have p: "ts_pop CHUNK_TAG_BITS (bp_chunk_head s, bp_chunk_next s) = (0, bp_chunk_head s, bp_chunk_next s)" using pop by (simp add: pool_sizes)
    from allocate_new_chunk_spec [OF assms(2), of CHUNK_SIZE s] show ?thesis
    proof
      assume "allocate_new_chunk K CHUNK_SIZE s = Inr (nullptr, s)"
      then show ?thesis using p by (simp add: bp_refill_def)
    next
      assume "\<exists>q. allocate_new_chunk K CHUNK_SIZE s = Inr (q, s\<lparr>bp_vm := bp_vm s \<union> mem_range q CHUNK_SIZE, bp_chunks := (bp_chunks s)(q \<mapsto> Chunk_init)\<rparr>)
        \<and> 0 < q \<and> q mod CHUNK_SIZE = 0 \<and> q + CHUNK_SIZE \<le> 2 ^ 64 \<and> mem_range q CHUNK_SIZE \<inter> bp_vm s = {}"
      then obtain q where q: "allocate_new_chunk K CHUNK_SIZE s = Inr (q, s\<lparr>bp_vm := bp_vm s \<union> mem_range q CHUNK_SIZE, bp_chunks := (bp_chunks s)(q \<mapsto> Chunk_init)\<rparr>)"
        "0 < q" "q mod CHUNK_SIZE = 0" "q + CHUNK_SIZE \<le> 2 ^ 64" "mem_range q CHUNK_SIZE \<inter> bp_vm s = {}"
        by (elim exE conjE) (rule that)
      let ?s = "s\<lparr>bp_vm := bp_vm s \<union> mem_range q CHUNK_SIZE, bp_chunks := (bp_chunks s)(q \<mapsto> Chunk_init)\<rparr>"
      have "pool_but {q} ?s L" using pool_new_chunk [OF assms(1) [unfolded pool_inv_def] q(5,2,3,4) refl] .
      moreover have "chunks_grow s ?s"
      proof -
        have "bp_chunks s q = None"
        proof (rule ccontr)
          assume "bp_chunks s q \<noteq> None"
          then obtain x where "chunk_wf s q x" using pool_invD(3) [OF assms(1)] by (auto simp: chunks_wf_def)
          then have "mem_range q (ck_extent x) \<subseteq> bp_vm s" "q \<in> mem_range q (ck_extent x)"
            by (simp_all add: chunk_wf_def mem_range_def pool_sizes)
          then have "q \<in> bp_vm s" by blast
          moreover have "q \<in> mem_range q CHUNK_SIZE" by (simp add: mem_range_def pool_sizes)
          ultimately show False using q(5) by blast
        qed
        then show ?thesis by (auto simp: chunks_grow_def)
      qed
      moreover have "has_free_runs Chunk_init" by (simp add: has_free_runs_def Chunk_init_def pool_sizes)
      ultimately show ?thesis using q(1,2) Chunk_init_runs_ok(1) by (intro disjI2 fin [OF p, of q ?s Chunk_init]) simp_all
    qed
  qed
qed

subsection \<open>Allocation and release\<close>

lemma usable_same:
  assumes "q \<in> (\<Union>c. class_blocks s c) \<union> large_blocks s" "chunks_wf s" "chunks_wf s'"
    and "\<And>b ck. bp_chunks s b = Some ck \<Longrightarrow> ck_is_large ck \<Longrightarrow> q = b + SIZEOF_CHUNK \<Longrightarrow> bp_chunks s' b = Some ck"
    and "\<And>c b ck r. is_block s c q b ck r \<Longrightarrow> \<exists>ck'. is_block s' c q b ck' r"
  shows "usable s' q = usable s q"
proof -
  consider b ck where "q = b + SIZEOF_CHUNK" "bp_chunks s b = Some ck" "ck_is_large ck" | c b ck r where "is_block s c q b ck r"
    using assms(1) by (auto simp: large_blocks_def class_blocks_def)
  then show ?thesis
  proof cases
    case 1
    then show ?thesis using usable_large [OF 1(2,3) assms(2)] usable_large [OF assms(4) [OF 1(2,3,1)] 1(3) assms(3)] by simp
  next
    case 2
    then obtain ck' where "is_block s' c q b ck' r" using assms(5) by blast
    then show ?thesis using usable_block [OF 2 assms(2)] usable_block [OF _ assms(3)] by simp
  qed
qed

lemma usable_grow:
  assumes "pool_inv s L" "pool_inv s' L'" "chunks_grow s s'" "q \<in> L"
  shows "usable s' q = usable s q"
proof (rule usable_same [OF _ pool_invD(3) [OF assms(1)] pool_invD(3) [OF assms(2)]])
  show "q \<in> (\<Union>c. class_blocks s c) \<union> large_blocks s" using pool_invD(7) [OF assms(1)] assms(4) by blast
  show "bp_chunks s' b = Some ck" if "bp_chunks s b = Some ck" "ck_is_large ck" for b ck
    using assms(3) that unfolding chunks_grow_def by fastforce
  show "\<exists>ck'. is_block s' c q b ck' r" if "is_block s c q b ck r" for c b ck r
  proof -
    have "bp_chunks s b = Some ck" "\<not> ck_is_large ck" using that by (simp_all add: is_block_def)
    then obtain ck' where "bp_chunks s' b = Some ck'" "\<not> ck_is_large ck'" "used_runs ck \<subseteq> used_runs ck'"
      "\<forall>r \<in> used_runs ck. ck_run_class ck' ! r = ck_run_class ck ! r" using assms(3) unfolding chunks_grow_def by fastforce
    with that show ?thesis by (auto simp: is_block_def)
  qed
qed

lemma pool_new_large:
  assumes "pool_inv s L" "mem_range p n \<inter> bp_vm s = {}" "0 < p" "p mod CHUNK_SIZE = 0" "p + n \<le> 2 ^ 64" "CHUNK_SIZE \<le> n"
    and ck: "ck = Chunk_init\<lparr>ck_is_large := True, ck_sz := n\<rparr>"
    and s': "s' = s\<lparr>bp_vm := bp_vm s \<union> mem_range p n, bp_chunks := (bp_chunks s)(p \<mapsto> ck)\<rparr>"
  shows "pool_inv s' (insert (p + SIZEOF_CHUNK) L)" "p + SIZEOF_CHUNK \<notin> L" "usable s' (p + SIZEOF_CHUNK) = n - SIZEOF_CHUNK"
    "chunks_grow s s'"
proof -
  note i = pool_invD [OF assms(1)]
  have ex: "ck_extent ck = n" and lg: "ck_is_large ck" by (simp_all add: ck ck_extent_def)
  have len: "length (ck_run_class ck) = N_RUNS" by (simp add: ck Chunk_init_def)
  have wf: "chunk_wf s' p ck" using assms(3-6) lg len by (auto simp: chunk_wf_def s' ex)
  note n = chunks_wf_new [OF i(3), of p ck s', unfolded ex, OF assms(2) s' wf]
  have other: "bp_chunks s' b = Some x \<longleftrightarrow> bp_chunks s b = Some x \<or> b = p \<and> x = ck" for b x using n(2) by (auto simp: s')
  have "is_block s' c x b y r \<longleftrightarrow> is_block s c x b y r" for c x b y r unfolding is_block_def other using lg by blast
  then have blk: "class_blocks s' = class_blocks s" by (simp add: class_blocks_def fun_eq_iff)
  have lrg: "large_blocks s' = insert (p + SIZEOF_CHUNK) (large_blocks s)" unfolding large_blocks_def other using lg by blast
  have opn: "open_chunks s' = open_chunks s" unfolding open_chunks_def other using lg by blast
  have "p + SIZEOF_CHUNK \<notin> large_blocks s" using n(2) by (auto simp: large_blocks_def)
  moreover have nc: "p + SIZEOF_CHUNK \<notin> class_blocks s c" for c using class_large_disjoint [OF n(1), of c] blk lrg by auto
  ultimately show "p + SIZEOF_CHUNK \<notin> L" using i(7) by blast
  have "cached s' (insert (p + SIZEOF_CHUNK) L) c \<longleftrightarrow> cached s L c" for c
    using nc [of c] unfolding cached_def blk by (simp add: cls_rep_def s')
  then show "pool_inv s' (insert (p + SIZEOF_CHUNK) L)"
    using i n(1) blk lrg opn unfolding pool_inv_def pool_but_def chunks_listed_def by (auto simp: s')
  show "usable s' (p + SIZEOF_CHUNK) = n - SIZEOF_CHUNK" using usable_large [OF _ lg n(1), of p] other [of p ck] by (simp add: ck)
  show "chunks_grow s s'" using n(2) unfolding chunks_grow_def other by auto
qed

lemma pool_drop_large:
  assumes "pool_inv s L" "bp_chunks s b = Some ck" "ck_is_large ck"
    and s': "s' = s\<lparr>bp_chunks := (bp_chunks s)(b := None), bp_vm := bp_vm s - mem_range b (ck_sz ck)\<rparr>"
  shows "pool_inv s' (L - {b + SIZEOF_CHUNK})" "\<And>q. q \<in> L - {b + SIZEOF_CHUNK} \<Longrightarrow> usable s' q = usable s q"
proof -
  note i = pool_invD [OF assms(1)]
  have other: "bp_chunks s' c = Some x \<longleftrightarrow> bp_chunks s c = Some x \<and> c \<noteq> b" for c x by (auto simp: s')
  have isb: "is_block s' c x d y r \<longleftrightarrow> is_block s c x d y r" for c x d y r unfolding is_block_def other using assms(2,3) by auto
  then have blk: "class_blocks s' = class_blocks s" by (simp add: class_blocks_def fun_eq_iff)
  have lrg: "large_blocks s' = large_blocks s - {b + SIZEOF_CHUNK}" unfolding large_blocks_def other by auto
  have opn: "open_chunks s' = open_chunks s" unfolding open_chunks_def other using assms(2,3) by auto
  have wf: "chunk_wf s' c x" if "bp_chunks s c = Some x" "c \<noteq> b" for c x
  proof -
    have "chunk_wf s c x" using i(3) that(1) by (simp add: chunks_wf_def)
    moreover have "mem_range c (ck_extent x) \<inter> mem_range b (ck_extent ck) = {}" using i(3) that assms(2) unfolding chunks_wf_def by blast
    moreover have "ck_extent ck = ck_sz ck" using assms(3) by (simp add: ck_extent_def)
    ultimately show ?thesis by (auto simp: chunk_wf_def s')
  qed
  have wf': "chunks_wf s'" using i(3) wf unfolding chunks_wf_def other by blast
  show "usable s' q = usable s q" if q: "q \<in> L - {b + SIZEOF_CHUNK}" for q
    by (rule usable_same [OF _ i(3) wf']) (use q i(7) isb other in auto)
  have nc: "b + SIZEOF_CHUNK \<notin> class_blocks s c" for c
    using class_large_disjoint [OF i(3), of c] assms(2,3) by (auto simp: large_blocks_def)
  have "cached s' (L - {b + SIZEOF_CHUNK}) c \<longleftrightarrow> cached s L c" for c
  proof -
    have "class_blocks s c - (L - {b + SIZEOF_CHUNK}) = class_blocks s c - L" using nc [of c] by blast
    then show ?thesis unfolding cached_def blk by (simp add: cls_rep_def s')
  qed
  then show "pool_inv s' (L - {b + SIZEOF_CHUNK})"
    using i wf' blk lrg opn unfolding pool_inv_def pool_but_def chunks_listed_def by (auto simp: s')
qed

text \<open>
  What an allocation promises: nothing happened, or a new block of at least the size, and the
  blocks in use are as before.
\<close>

definition alloc_result :: "pool \<Rightarrow> ptr set \<Rightarrow> nat \<Rightarrow> ptr \<Rightarrow> pool \<Rightarrow> bool" where
  "alloc_result s L sz p s' \<longleftrightarrow> (\<forall>q \<in> L. usable s' q = usable s q) \<and> (if p = nullptr then pool_inv s' L \<and> bp_vm s' = bp_vm s
     else p \<notin> L \<and> pool_inv s' (insert p L) \<and> sz \<le> usable s' p)"

lemma alloc_large:
  assumes "pool_inv s L" "kernel_ok K" "MAX_CLASS_SIZE < sz" "sz + SIZEOF_CHUNK + CHUNK_SIZE \<le> 2 ^ 64"
  shows "\<exists>p s'. bp_alloc K sz s = Inr (p, s') \<and> alloc_result s L sz p s'
    \<and> (p \<noteq> 0 \<longrightarrow> mem_range p sz \<inter> bp_vm s = {} \<and> mem_range p sz \<subseteq> bp_vm s' \<and> bp_vm s \<subseteq> bp_vm s' \<and> p + sz \<le> 2 ^ 64 \<and> SIZEOF_CHUNK < p)"
proof -
  have lt: "sz + SIZEOF_CHUNK < 2 ^ 64" using assms(4) by (simp add: pool_sizes)
  define n where "n = round_to_cnk_sz (sz + SIZEOF_CHUNK)"
  have n: "sz + SIZEOF_CHUNK \<le> n" "CHUNK_SIZE dvd n" using round_to_cnk_sz_spec [OF assms(4)] by (simp_all add: n_def)
  have "0 < n" using n(1) by (simp add: pool_sizes)
  then have ge: "CHUNK_SIZE \<le> n" using n(2) by (rule dvd_imp_le [rotated])
  from allocate_new_chunk_spec [OF assms(2), of n s] show ?thesis
  proof
    assume "allocate_new_chunk K n s = Inr (nullptr, s)"
    then show ?thesis using assms(1,3) lt by (simp add: bp_alloc_def n_def [symmetric] alloc_result_def)
  next
    assume "\<exists>p. allocate_new_chunk K n s = Inr (p, s\<lparr>bp_vm := bp_vm s \<union> mem_range p n, bp_chunks := (bp_chunks s)(p \<mapsto> Chunk_init)\<rparr>)
      \<and> 0 < p \<and> p mod CHUNK_SIZE = 0 \<and> p + n \<le> 2 ^ 64 \<and> mem_range p n \<inter> bp_vm s = {}"
    then obtain p where p: "allocate_new_chunk K n s = Inr (p, s\<lparr>bp_vm := bp_vm s \<union> mem_range p n, bp_chunks := (bp_chunks s)(p \<mapsto> Chunk_init)\<rparr>)"
      "0 < p" "p mod CHUNK_SIZE = 0" "p + n \<le> 2 ^ 64" "mem_range p n \<inter> bp_vm s = {}" by (elim exE conjE) (rule that)
    let ?s = "s\<lparr>bp_vm := bp_vm s \<union> mem_range p n, bp_chunks := (bp_chunks s)(p \<mapsto> Chunk_init\<lparr>ck_is_large := True, ck_sz := n\<rparr>)\<rparr>"
    have a: "bp_alloc K sz s = Inr (p + SIZEOF_CHUNK, ?s)" using p(1,2) assms(3) lt by (simp add: bp_alloc_def n_def [symmetric])
    note r = pool_new_large [OF assms(1) p(5,2,3,4) ge refl refl]
    have "alloc_result s L sz (p + SIZEOF_CHUNK) ?s" using r(1-3) p(2) n(1) usable_grow [OF assms(1) r(1,4)] by (simp add: alloc_result_def)
    moreover have sub: "mem_range (p + SIZEOF_CHUNK) sz \<subseteq> mem_range p n" using n(1) by (auto simp: mem_range_def)
    moreover have "mem_range (p + SIZEOF_CHUNK) sz \<inter> bp_vm s = {}" using sub p(5) by blast
    ultimately show ?thesis using a p(2,4) n(1) by (intro exI [of _ "p + SIZEOF_CHUNK"] exI [of _ ?s]) auto
  qed
qed

lemma alloc_small:
  assumes "pool_inv s L" "kernel_ok K" "sz \<le> MAX_CLASS_SIZE"
  shows "\<exists>p s'. bp_alloc K sz s = Inr (p, s') \<and> alloc_result s L sz p s' \<and> (class_blocks s (class_of sz) \<subseteq> L \<or> p \<noteq> 0)"
proof -
  note c = class_of_fits [OF assms(3)]
  have good: "alloc_result s L sz p s'" "p \<noteq> 0"
    if t: "pool_inv t L" "p \<in> class_blocks t (class_of sz) - L" "bp_chunks s' = bp_chunks t" "pool_inv s' (insert p L)" "chunks_grow s t" for p t s'
  proof -
    obtain b ck r where "is_block t (class_of sz) p b ck r" using t(2) by (auto simp: class_blocks_def)
    then have b: "is_block s' (class_of sz) p b ck r" using t(3) by (simp add: is_block_def)
    have "\<forall>q \<in> L. usable s' q = usable s q"
      using usable_grow [OF assms(1) t(4) chunks_grow_trans [OF t(5) chunks_grow_same [OF t(3)]]] by blast
    then show "p \<noteq> 0" "alloc_result s L sz p s'"
      using is_blockD(10) [OF b] usable_block [OF b] pool_invD(3) [OF t(4)] t(2,4) c(2) by (simp_all add: alloc_result_def)
  qed
  obtain p1 s1 where p1: "mag_pop (class_of sz) s = Inr (p1, s1)" "bp_chunks s1 = bp_chunks s" "bp_vm s1 = bp_vm s"
    "if class_blocks s (class_of sz) \<subseteq> L then p1 = 0 \<and> pool_inv s1 L else p1 \<in> class_blocks s (class_of sz) - L \<and> pool_inv s1 (insert p1 L)"
    using pool_pop [OF assms(1) c(1)] by blast
  show ?thesis
  proof (cases "class_blocks s (class_of sz) \<subseteq> L")
    case False
    then have p: "p1 \<in> class_blocks s (class_of sz) - L" "pool_inv s1 (insert p1 L)" using p1(4) by simp_all
    note g = good [OF assms(1) p(1) p1(2) p(2) chunks_grow_same [OF refl]]
    have "bp_alloc K sz s = Inr (p1, s1)" using p1(1) g(2) assms(3) by (simp add: bp_alloc_def)
    with g show ?thesis by blast
  next
    case True
    then have p: "p1 = 0" "pool_inv s1 L" using p1(4) by simp_all
    from bp_refill_spec [OF p(2) assms(2) c(1)] show ?thesis
    proof (elim disjE conjE exE)
      assume "bp_refill K (class_of sz) s1 = Inr (False, s1)"
      then have "bp_alloc K sz s = Inr (0, s1)" using p1(1) p(1) assms(3) by (simp add: bp_alloc_def)
      with p p1(3) True chunk_fields_cong(5) [OF p1(2)] show ?thesis by (simp add: alloc_result_def)
    next
      fix s2
      assume s2: "bp_refill K (class_of sz) s1 = Inr (True, s2)" "pool_inv s2 L" "\<not> class_blocks s2 (class_of sz) \<subseteq> L" "chunks_grow s1 s2"
      obtain q s3 where q: "mag_pop (class_of sz) s2 = Inr (q, s3)" "bp_chunks s3 = bp_chunks s2"
        "q \<in> class_blocks s2 (class_of sz) - L" "pool_inv s3 (insert q L)"
        using pool_pop [OF s2(2) c(1)] s2(3) by auto
      have "bp_alloc K sz s = Inr (q, s3)" using p1(1) p(1) s2(1) q(1) assms(3) by (simp add: bp_alloc_def)
      with good [OF s2(2) q(3,2,4) chunks_grow_trans [OF chunks_grow_same [OF p1(2)] s2(4)]] show ?thesis by blast
    qed
  qed
qed

lemma alloc_ok:
  assumes "pool_inv s L" "kernel_ok K" "sz + SIZEOF_CHUNK + CHUNK_SIZE \<le> 2 ^ 64"
  shows "\<exists>p s'. bp_alloc K sz s = Inr (p, s') \<and> alloc_result s L sz p s'"
  using alloc_small [OF assms(1,2), of sz] alloc_large [OF assms(1,2) _ assms(3)] by (meson not_le)

lemma free_ok:
  assumes "pool_inv s L" "p \<in> L"
  shows "\<exists>s'. bp_free p s = Inr s' \<and> pool_inv s' (L - {p}) \<and> (\<forall>q \<in> L - {p}. usable s' q = usable s q)"
proof -
  note wf = pool_invD(3) [OF assms(1)]
  consider b ck where "p = b + SIZEOF_CHUNK" "bp_chunks s b = Some ck" "ck_is_large ck" | c b ck r where "is_block s c p b ck r"
    using pool_invD(7) [OF assms(1)] assms(2) by (auto simp: large_blocks_def class_blocks_def)
  then show ?thesis
  proof cases
    case 1
    then have "bp_free p s = Inr (s\<lparr>bp_chunks := (bp_chunks s)(b := None), bp_vm := bp_vm s - mem_range b (ck_sz ck)\<rparr>)"
      using large_block_base [OF 1(2) wf] by (simp add: bp_free_def)
    with pool_drop_large [OF assms(1) 1(2,3) refl] 1(1) show ?thesis by blast
  next
    case 2
    then have "bp_free p s = mag_push p c s" using base_cls_block [OF 2 wf] by (simp add: bp_free_def is_block_def)
    moreover obtain s' where s': "mag_push p c s = Inr s'" "bp_chunks s' = bp_chunks s" "pool_inv s' (L - {p})"
      using pool_push [OF assms 2] by blast
    ultimately show ?thesis using chunk_fields_cong(5) [OF s'(2)] by simp
  qed
qed

subsection \<open>Reserving and giving everything back\<close>

lemma pool_refill_shared:
  assumes "pool_inv s L" "c < N_CLASSES" "g_take_all c s = (h, s1)"
  shows "bp_mag s1 = bp_mag s \<and> bp_vm s1 = bp_vm s \<and> bp_chunks s1 = bp_chunks s \<and>
    (if h = 0 then pool_inv s1 L
     else \<exists>s'. refill_from_chain c h s1 = Inr s' \<and> pool_inv s' L \<and> bp_vm s' = bp_vm s \<and> bp_chunks s' = bp_chunks s
       \<and> (mg_top (bp_mag s ! c) < CACHE_SIZE \<longrightarrow> mg_top (bp_mag s ! c) < mg_top (bp_mag s' ! c)))"
proof -
  note i = pool_invD [OF assms(1)]
  obtain M G where r: "cls_rep s c M G" "set (M @ G) = class_blocks s c - L" using i(5) [OF assms(2)] by (auto simp: cached_def)
  have t: "chain (bp_next s1) h G" "cls_rep s1 c M []" "moves {} c s s1" "bp_mag s1 = bp_mag s"
    using g_take_all_spec [OF r(1)] assms(3) by auto
  note m = moves_fields [OF t(3)]
  have h: "h = 0 \<longleftrightarrow> G = []" using t(1) by (cases G) auto
  show ?thesis
  proof (cases "h = 0")
    case True
    then have "set (M @ []) = class_blocks s c - L" using h r(2) by simp
    then have "pool_inv s1 L" unfolding pool_inv_def
      by (rule pool_step [OF assms(1) [unfolded pool_inv_def] t(3) empty_subsetI t(2) _ i(6,7)]) simp
    with True t(4) m show ?thesis by simp
  next
    case False
    let ?k = "CACHE_SIZE - length M"
    have d: "distinct (M @ G @ [])" using cls_repD(5) [OF r(1)] by simp
    have nz: "x \<noteq> 0 \<and> aligned 0 x" if "x \<in> set G" for x using cls_repD(6) [OF r(1), of x] that by simp
    obtain s' where s': "refill_from_chain c h s1 = Inr s'" "cls_rep s' c (M @ take ?k G) (drop ?k G @ [])" "moves (set G) c s1 s'"
      using refill_from_chain_spec [OF t(2,1) d nz refl] by blast
    have mv: "moves (set G) c s s'" by (rule moves_trans [OF t(3) s'(3)]) auto
    have "set (take ?k G) \<union> set (drop ?k G) = set G" by (metis append_take_drop_id set_append)
    then have st: "set ((M @ take ?k G) @ (drop ?k G @ [])) = class_blocks s c - L" using r(2) by auto
    have W: "set G \<subseteq> class_blocks s c" using r(2) by auto
    have "pool_inv s' L" unfolding pool_inv_def
      by (rule pool_step [OF assms(1) [unfolded pool_inv_def] mv W s'(2) st i(6,7)]) simp
    moreover have "mg_top (bp_mag s ! c) = length M" "mg_top (bp_mag s' ! c) = length (M @ take ?k G)"
      using cls_repD(3) [OF r(1)] cls_repD(3) [OF s'(2)] by (simp_all only: stk_holds_def)
    moreover have "G \<noteq> []" using False h by simp
    ultimately show ?thesis using False t(4) m s'(1) moves_fields(1,2) [OF mv] by auto
  qed
qed

lemma mag_is_full_iff: "pool_inv s L \<Longrightarrow> c < N_CLASSES \<Longrightarrow> mag_is_full c s \<longleftrightarrow> CACHE_SIZE \<le> mg_top (bp_mag s ! c)"
  using pool_invD(5) [of s L c] by (auto simp: cached_def cls_rep_def stk_holds_def mag_is_full_def)

text \<open>Each iteration puts at least one block into the magazine, so it is full after as many iterations as it has places.\<close>

lemma reserve_ok:
  assumes "pool_inv s L" "kernel_ok K" "sz \<le> MAX_CLASS_SIZE" "CACHE_SIZE - mg_top (bp_mag s ! class_of sz) \<le> n"
  shows "\<exists>ok s'. bp_reserve n K sz s = Inr (ok, s') \<and> pool_inv s' L \<and> chunks_grow s s'
    \<and> (if ok then mag_is_full (class_of sz) s' else allocate_new_chunk K CHUNK_SIZE s' = Inr (nullptr, s'))"
  using assms(1,4)
proof (induction n arbitrary: s)
  case 0
  note c = class_of_fits(1) [OF assms(3)]
  have "mag_is_full (class_of sz) s" using mag_is_full_iff [OF 0(1) c] 0(2) by simp
  then show ?case using 0(1) c pool_invD(1) [OF 0(1)] chunks_grow_same [of s s]
    by (intro exI [of _ True] exI [of _ s]) (simp add: bp_reserve.simps [of 0] Let_def)
next
  case (Suc n)
  note c = class_of_fits(1) [OF assms(3)]
  have b: "\<not> length (bp_mag s) \<le> class_of sz" using c pool_invD(1) [OF Suc.prems(1)] by simp
  show ?case
  proof (cases "mag_is_full (class_of sz) s")
    case True
    then show ?thesis using Suc.prems(1) b chunks_grow_same [of s s]
      by (intro exI [of _ True] exI [of _ s]) (simp add: bp_reserve.simps [of "Suc n"] Let_def)
  next
    case False
    then have lt: "mg_top (bp_mag s ! class_of sz) < CACHE_SIZE" using mag_is_full_iff [OF Suc.prems(1) c] by simp
    obtain h s1 where g: "g_take_all (class_of sz) s = (h, s1)" by force
    note p = pool_refill_shared [OF Suc.prems(1) c g]
    have go: ?thesis if "bp_reserve (Suc n) K sz s = bp_reserve n K sz s2" "pool_inv s2 L" "chunks_grow s s2"
      "mg_top (bp_mag s ! class_of sz) < mg_top (bp_mag s2 ! class_of sz)" for s2
    proof -
      have "CACHE_SIZE - mg_top (bp_mag s2 ! class_of sz) \<le> n" using that(4) Suc.prems(2) by simp
      from Suc.IH [OF that(2) this] show ?thesis using that(1,3) chunks_grow_trans by metis
    qed
    show ?thesis
    proof (cases "h = 0")
      case False
      then obtain s2 where "refill_from_chain (class_of sz) h s1 = Inr s2" "pool_inv s2 L" "bp_chunks s2 = bp_chunks s"
        "mg_top (bp_mag s ! class_of sz) < mg_top (bp_mag s2 ! class_of sz)" using p lt by auto
      then show ?thesis using go [of s2] g b False \<open>\<not> mag_is_full (class_of sz) s\<close> chunks_grow_same
        by (simp add: bp_reserve.simps [of "Suc n"] Let_def)
    next
      case True
      then have s1: "pool_inv s1 L" "bp_mag s1 = bp_mag s" "chunks_grow s s1" using p chunks_grow_same by simp_all
      from bp_refill_spec [OF s1(1) assms(2) c] show ?thesis
      proof (elim disjE conjE exE)
        assume "bp_refill K (class_of sz) s1 = Inr (False, s1)" "allocate_new_chunk K CHUNK_SIZE s1 = Inr (nullptr, s1)"
        then show ?thesis using s1 g b True \<open>\<not> mag_is_full (class_of sz) s\<close>
          by (intro exI [of _ False] exI [of _ s1]) (simp add: bp_reserve.simps [of "Suc n"] Let_def)
      next
        fix s2
        assume s2: "bp_refill K (class_of sz) s1 = Inr (True, s2)" "pool_inv s2 L" "chunks_grow s1 s2"
          "mg_top (bp_mag s2 ! class_of sz) = min CACHE_SIZE (mg_top (bp_mag s1 ! class_of sz) + RUN_SIZE div sizeof_class (class_of sz))"
        have "mg_top (bp_mag s ! class_of sz) < mg_top (bp_mag s2 ! class_of sz)" using s2(4) s1(2) lt run_div_class(3) [OF c] by simp
        then show ?thesis using go [of s2] s2 g b True \<open>\<not> mag_is_full (class_of sz) s\<close> chunks_grow_trans [OF s1(3) s2(3)]
          by (simp add: bp_reserve.simps [of "Suc n"] Let_def)
      qed
    qed
  qed
qed

text \<open>At the end of a thread its magazines are empty and every block is on a shared list.\<close>

lemma donate_all_loop_ok:
  assumes "pool_inv s L" "set cs \<subseteq> {c. c < N_CLASSES}" "distinct cs"
  shows "\<exists>s'. donate_all_loop cs s = Inr s' \<and> pool_inv s' L \<and> bp_chunks s' = bp_chunks s
    \<and> (\<forall>c < N_CLASSES. mg_top (bp_mag s' ! c) = (if c \<in> set cs then 0 else mg_top (bp_mag s ! c)))"
  using assms
proof (induction cs arbitrary: s)
  case Nil
  then show ?case by simp
next
  case (Cons c cs)
  note i = pool_invD [OF Cons.prems(1)]
  have c: "c < N_CLASSES" using Cons.prems(2) by simp
  obtain M G where r: "cls_rep s c M G" "set (M @ G) = class_blocks s c - L" using i(5) [OF c] by (auto simp: cached_def)
  have top: "mg_top (bp_mag s ! c) = length M" using cls_repD(3) [OF r(1)] by (simp add: stk_holds_def)
  have "\<exists>s1. (if mg_top (bp_mag s ! c) > 0 then donate c (mg_top (bp_mag s ! c) - 1) s else Inr s) = Inr s1 \<and> pool_inv s1 L
      \<and> bp_chunks s1 = bp_chunks s \<and> mg_top (bp_mag s1 ! c) = 0 \<and> (\<forall>d. d \<noteq> c \<longrightarrow> bp_mag s1 ! d = bp_mag s ! d)"
  proof (cases "M = []")
    case True
    then show ?thesis using top Cons.prems(1) by simp
  next
    case False
    obtain s1 where s1: "donate c (length M - 1) s = Inr s1" "cls_rep s1 c [] (rev M @ G)" "moves (set (rev M)) c s s1"
      using donate_spec [of s c "[]" "rev M" G "length M - 1"] r(1) False by auto
    have W: "set (rev M) \<subseteq> class_blocks s c" and st: "set ([] @ rev M @ G) = class_blocks s c - L" using r(2) by auto
    have "pool_inv s1 L" unfolding pool_inv_def
      by (rule pool_step [OF Cons.prems(1) [unfolded pool_inv_def] s1(3) W s1(2) st i(6,7)]) simp
    moreover have "mg_top (bp_mag s1 ! c) = 0" using cls_repD(3) [OF s1(2)] by (simp add: stk_holds_def)
    ultimately show ?thesis using s1(1) top False moves_fields(1,7) [OF s1(3)] by auto
  qed
  then obtain s1 where s1: "(if mg_top (bp_mag s ! c) > 0 then donate c (mg_top (bp_mag s ! c) - 1) s else Inr s) = Inr s1" "pool_inv s1 L"
    "bp_chunks s1 = bp_chunks s" "mg_top (bp_mag s1 ! c) = 0" "\<forall>d. d \<noteq> c \<longrightarrow> bp_mag s1 ! d = bp_mag s ! d" by blast
  have "donate_all_loop (c # cs) s = donate_all_loop cs s1" using s1(1) by (auto split: if_splits)
  moreover obtain s' where "donate_all_loop cs s1 = Inr s'" "pool_inv s' L" "bp_chunks s' = bp_chunks s1"
    "\<forall>c < N_CLASSES. mg_top (bp_mag s' ! c) = (if c \<in> set cs then 0 else mg_top (bp_mag s1 ! c))"
    using Cons.IH [OF s1(2)] Cons.prems(2,3) by auto
  ultimately show ?case using s1 Cons.prems(3) by (intro exI [of _ s']) auto
qed

lemma donate_all_ok:
  assumes "pool_inv s L"
  shows "\<exists>s'. donate_all s = Inr s' \<and> pool_inv s' L \<and> bp_chunks s' = bp_chunks s \<and> (\<forall>c < N_CLASSES. mg_top (bp_mag s' ! c) = 0)"
proof -
  have "set [0..<N_CLASSES] \<subseteq> {c. c < N_CLASSES}" by auto
  then show ?thesis using donate_all_loop_ok [OF assms, of "[0..<N_CLASSES]"] by (simp add: donate_all_def)
qed

subsection \<open>The contract of an allocator\<close>

text \<open>
  An allocator knows which blocks are in use. An allocation returns a block that is not, large
  enough, or the null pointer; a release returns; neither changes the room of the other blocks,
  and blocks in use have no byte in common.
\<close>

locale allocator =
  fixes inv :: "'s \<Rightarrow> ptr set \<Rightarrow> bool"
    and room :: "'s \<Rightarrow> ptr \<Rightarrow> nat"
    and alloc :: "nat \<Rightarrow> 's \<Rightarrow> (ptr \<times> 's) res"
    and release :: "ptr \<Rightarrow> 's \<Rightarrow> 's res"
    and limit :: nat
  assumes alloc_law: "inv s L \<Longrightarrow> n \<le> limit \<Longrightarrow> \<exists>p s'. alloc n s = Inr (p, s') \<and> (\<forall>q \<in> L. room s' q = room s q)
      \<and> (if p = nullptr then inv s' L else p \<notin> L \<and> inv s' (insert p L) \<and> n \<le> room s' p)"
    and release_law: "inv s L \<Longrightarrow> p \<in> L \<Longrightarrow> \<exists>s'. release p s = Inr s' \<and> inv s' (L - {p}) \<and> (\<forall>q \<in> L - {p}. room s' q = room s q)"
    and disjoint_law: "inv s L \<Longrightarrow> p \<in> L \<Longrightarrow> q \<in> L \<Longrightarrow> p \<noteq> q \<Longrightarrow> mem_range p (room s p) \<inter> mem_range q (room s q) = {}"
begin

text \<open>The blocks in use with the sizes asked for.\<close>

definition serves :: "'s \<Rightarrow> (ptr \<rightharpoonup> nat) \<Rightarrow> bool" where
  "serves s R \<longleftrightarrow> inv s (dom R) \<and> (\<forall>p n. R p = Some n \<longrightarrow> n \<le> room s p)"

lemma serves_alloc:
  assumes "serves s R" "n \<le> limit" "alloc n s = Inr (p, s')"
  shows "serves s' (if p = nullptr then R else R(p \<mapsto> n))"
proof -
  have a: "\<forall>q \<in> dom R. room s' q = room s q" "if p = nullptr then inv s' (dom R) else p \<notin> dom R \<and> inv s' (insert p (dom R)) \<and> n \<le> room s' p"
    using alloc_law [of s "dom R" n] assms by (auto simp: serves_def)
  have old: "m \<le> room s' q" if "R q = Some m" for q m
    using assms(1) a(1) domI [of R q m] that by (auto simp: serves_def)
  show ?thesis
  proof (cases "p = nullptr")
    case True
    then show ?thesis using a(2) old by (simp add: serves_def)
  next
    case False
    then have "m \<le> room s' q" if "(R(p \<mapsto> n)) q = Some m" for q m using that old [of q m] a(2) by (cases "q = p") auto
    then show ?thesis using a(2) False by (simp add: serves_def del: fun_upd_apply)
  qed
qed

lemma serves_release:
  assumes "serves s R" "p \<in> dom R" "release p s = Inr s'"
  shows "serves s' (R(p := None))"
proof -
  have r: "inv s' (dom R - {p})" "\<forall>q \<in> dom R - {p}. room s' q = room s q"
    using release_law [of s "dom R" p] assms by (auto simp: serves_def)
  have "m \<le> room s' q" if "(R(p := None)) q = Some m" for q m
  proof -
    have "R q = Some m" "q \<noteq> p" using that by (auto split: if_splits)
    then show ?thesis using r(2) assms(1) domI [of R q m] by (auto simp: serves_def)
  qed
  then show ?thesis using r(1) by (simp add: serves_def del: fun_upd_apply)
qed

lemma serves_disjoint:
  assumes "serves s R" "R p = Some m" "R q = Some n" "p \<noteq> q"
  shows "mem_range p m \<inter> mem_range q n = {}"
proof -
  have "mem_range p (room s p) \<inter> mem_range q (room s q) = {}" using disjoint_law assms by (metis domI serves_def)
  moreover have "m \<le> room s p" "n \<le> room s q" using assms by (auto simp: serves_def)
  ultimately show ?thesis by (auto simp: mem_range_def)
qed

end

interpretation bp: allocator "\<lambda>s L. kernel_ok K \<and> pool_inv s L" usable "bp_alloc K" bp_free "2 ^ 64 - SIZEOF_CHUNK - CHUNK_SIZE" for K
proof unfold_locales
  fix s L n
  assume "kernel_ok K \<and> pool_inv s L" "n \<le> 2 ^ 64 - SIZEOF_CHUNK - CHUNK_SIZE"
  then obtain p s' where "bp_alloc K n s = Inr (p, s')" "alloc_result s L n p s'" "kernel_ok K"
    using alloc_ok [of s L K n] by (auto simp: pool_sizes)
  then show "\<exists>p s'. bp_alloc K n s = Inr (p, s') \<and> (\<forall>q \<in> L. usable s' q = usable s q)
      \<and> (if p = nullptr then kernel_ok K \<and> pool_inv s' L else p \<notin> L \<and> (kernel_ok K \<and> pool_inv s' (insert p L)) \<and> n \<le> usable s' p)"
    by (intro exI [of _ p] exI [of _ s']) (simp add: alloc_result_def)
next
  fix s L p
  assume "kernel_ok K \<and> pool_inv s L" "p \<in> L"
  then show "\<exists>s'. bp_free p s = Inr s' \<and> (kernel_ok K \<and> pool_inv s' (L - {p})) \<and> (\<forall>q \<in> L - {p}. usable s' q = usable s q)"
    using free_ok [of s L p] by auto
next
  fix s L p q
  assume "kernel_ok K \<and> pool_inv s L" "p \<in> L" "q \<in> L" "p \<noteq> q"
  then show "mem_range p (usable s p) \<inter> mem_range q (usable s q) = {}" using live_disjoint by blast
qed

subsection \<open>Runs of the pool\<close>

lemma BufferPool_inv: "pool_inv (BufferPool vm) {}"
proof -
  have "cls_rep (BufferPool vm) c [] []" if "c < N_CLASSES" for c
    using that ts_init [of 0] by (simp add: cls_rep_def BufferPool_def stk_holds_def)
  moreover have "class_blocks (BufferPool vm) c = {}" for c by (simp add: class_blocks_def is_block_def BufferPool_def)
  ultimately have "cached (BufferPool vm) {} c" if "c < N_CLASSES" for c using that unfolding cached_def by fastforce
  moreover have "chunks_listed {} (BufferPool vm)"
    using ts_init [of CHUNK_TAG_BITS] by (auto simp: chunks_listed_def open_chunks_def BufferPool_def pool_sizes intro!: exI [of _ "[]"])
  ultimately show ?thesis
    by (simp add: pool_inv_def pool_but_def chunks_wf_def large_blocks_def BufferPool_def)
qed

text \<open>
  The states a pool can reach, with the blocks in use and the sizes asked for: allocations,
  releases of blocks in use, reservations, and the end of a thread.
\<close>

inductive pool_reach :: "kernel \<Rightarrow> ptr set \<Rightarrow> pool \<Rightarrow> (ptr \<rightharpoonup> nat) \<Rightarrow> bool" for K vm where
  new_pool: "pool_reach K vm (BufferPool vm) Map.empty"
| allocated: "pool_reach K vm s R \<Longrightarrow> sz + SIZEOF_CHUNK + CHUNK_SIZE \<le> 2 ^ 64 \<Longrightarrow> bp_alloc K sz s = Inr (p, s') \<Longrightarrow>
    pool_reach K vm s' (if p = nullptr then R else R(p \<mapsto> sz))"
| freed: "pool_reach K vm s R \<Longrightarrow> p \<in> dom R \<Longrightarrow> bp_free p s = Inr s' \<Longrightarrow> pool_reach K vm s' (R(p := None))"
| reserved: "pool_reach K vm s R \<Longrightarrow> sz \<le> MAX_CLASS_SIZE \<Longrightarrow> bp_reserve CACHE_SIZE K sz s = Inr (ok, s') \<Longrightarrow> pool_reach K vm s' R"
| flushed: "pool_reach K vm s R \<Longrightarrow> donate_all s = Inr s' \<Longrightarrow> pool_reach K vm s' R"

lemma pool_reach_serves:
  assumes "pool_reach K vm s R" "kernel_ok K"
  shows "bp.serves K s R"
  using assms(1)
proof (induction rule: pool_reach.induct)
  case new_pool
  then show ?case unfolding bp.serves_def using BufferPool_inv assms(2) by simp
next
  case (allocated s R sz p s')
  then show ?case using bp.serves_alloc [of K s R sz p s'] by (simp add: pool_sizes)
next
  case (freed s R p s')
  then show ?case using bp.serves_release by blast
next
  case (reserved s R sz ok s')
  then have inv: "pool_inv s (dom R)" unfolding bp.serves_def by blast
  have "pool_inv s' (dom R)" "chunks_grow s s'"
    using reserve_ok [OF inv assms(2) reserved.hyps(2), of CACHE_SIZE] reserved.hyps(3) by auto
  with reserved.IH usable_grow [OF inv] show ?case unfolding bp.serves_def by (metis domI)
next
  case (flushed s R s')
  then have inv: "pool_inv s (dom R)" unfolding bp.serves_def by blast
  have "pool_inv s' (dom R)" "bp_chunks s' = bp_chunks s" using donate_all_ok [OF inv] flushed.hyps(2) by auto
  with flushed.IH chunk_fields_cong(5) show ?case unfolding bp.serves_def by metis
qed

lemma pool_reach_inv: "pool_reach K vm s R \<Longrightarrow> kernel_ok K \<Longrightarrow> pool_inv s (dom R)"
  using pool_reach_serves unfolding bp.serves_def by blast

end
