(* ===== verification/Pool_Runs.thy ===== *)
theory Pool_Runs
  imports Pool_Invariant Order_Book_Runs
begin

section \<open>Runs of the buffer pool, and the order book on top of it\<close>

text \<open>
  What the pool guarantees over any sequence of its operations, and that what it hands out is
  what \<open>OrderBook::grow\<close> relies on.
\<close>

subsection \<open>Properties\<close>

text \<open>
  C17. Blocks in use never overlap: in every state the pool reaches by allocations, releases,
  reservations and ends of threads, with a kernel that maps fresh pages, each block in use has at least the
  number of bytes asked for, all of them mapped, and none shared with another block in use. The
  allocations are of sizes whose rounding to chunks does not wrap around \<open>2 ^ 64\<close>.
\<close>

theorem pool_blocks_disjoint:
  assumes "kernel_ok K" "pool_reach K vm s R" "R p = Some m" "R q = Some n" "p \<noteq> q"
  shows "mem_range p m \<inter> mem_range q n = {} \<and> mem_range p m \<subseteq> bp_vm s"
proof -
  have serves: "bp.serves K s R" using pool_reach_serves [OF assms(2,1)] .
  have "mem_range p m \<subseteq> mem_range p (usable s p)" using serves assms(3) unfolding bp.serves_def by (auto simp: mem_range_def)
  moreover have "mem_range p (usable s p) \<subseteq> bp_vm s" using live_mapped [OF pool_reach_inv [OF assms(2,1)]] assms(3) by auto
  ultimately show ?thesis using bp.serves_disjoint [OF serves assms(3-5)] by blast
qed

text \<open>A kernel with one huge page and some ordinary ones.\<close>

definition sample_kernel :: kernel where
  "sample_kernel = \<lparr>k_mmap = (\<lambda>huge n vm. let p = (if huge then 8388608 else 4096) in
     if 2 ^ 40 < n \<or> mem_range p n \<inter> vm \<noteq> {} then None else Some p), k_madvise = (\<lambda>p n. True)\<rparr>"

lemma sample_kernel_ok: "kernel_ok sample_kernel"
  by (auto simp: kernel_ok_def sample_kernel_def Let_def split: if_splits)

text \<open>The first large allocation gets the huge page, the second the next aligned chunk among the ordinary pages.\<close>

definition sample_large :: chunk_desc where
  "sample_large = Chunk_init\<lparr>ck_is_large := True, ck_sz := 2097152\<rparr>"

definition sample_pool1 :: pool where
  "sample_pool1 = (BufferPool {})\<lparr>bp_vm := mem_range 8388608 2097152, bp_chunks := [8388608 \<mapsto> sample_large]\<rparr>"

definition sample_pool2 :: pool where
  "sample_pool2 = sample_pool1\<lparr>bp_vm := mem_range 8388608 2097152 \<union> mem_range 2097152 2097152,
     bp_chunks := [8388608 \<mapsto> sample_large, 2097152 \<mapsto> sample_large]\<rparr>"

lemma sample_round: "sz \<le> 2097088 \<Longrightarrow> round_to_cnk_sz (sz + 64) = 2097152"
  unfolding round_to_cnk_sz_def pool_sizes by (simp add: div_nat_eqI)

lemma sample_alloc1: "bp_alloc sample_kernel 100000 (BufferPool {}) = Inr (8388672, sample_pool1)"
proof -
  have "allocate_new_chunk sample_kernel 2097152 (BufferPool {}) =
     Inr (8388608, (BufferPool {})\<lparr>bp_vm := mem_range 8388608 2097152, bp_chunks := [8388608 \<mapsto> Chunk_init]\<rparr>)"
    by (simp add: allocate_new_chunk_def sample_kernel_def place_chunk_def pool_sizes BufferPool_def)
  then show ?thesis using sample_round [of 100000] by (simp add: bp_alloc_def pool_sizes sample_pool1_def sample_large_def)
qed

lemma sample_alloc2:
  assumes "8192 < sz" "sz \<le> 2097088"
  shows "bp_alloc sample_kernel sz sample_pool1 = Inr (2097216, sample_pool2)"
proof -
  have f: "mem_range 8388608 2097152 \<inter> mem_range 8388608 2097152 \<noteq> {}" "mem_range 4096 4194304 \<inter> mem_range 8388608 2097152 = {}"
    by (auto simp: mem_range_def)
  have vm: "mem_range 8388608 2097152 \<union> mem_range 4096 4194304 - mem_range 4096 2093056 - mem_range 4194304 4096
      = mem_range 8388608 2097152 \<union> mem_range 2097152 2097152"
    by (auto simp: mem_range_def)
  have "allocate_new_chunk sample_kernel 2097152 sample_pool1 =
     Inr (2097152, sample_pool1\<lparr>bp_vm := mem_range 8388608 2097152 \<union> mem_range 2097152 2097152,
       bp_chunks := [8388608 \<mapsto> sample_large, 2097152 \<mapsto> Chunk_init]\<rparr>)"
    using f vm by (simp add: allocate_new_chunk_def sample_kernel_def sample_pool1_def std_align_def place_chunk_def pool_sizes)
  then show ?thesis using assms sample_round [of sz] by (simp add: bp_alloc_def pool_sizes sample_pool2_def sample_large_def)
qed

lemma sample_reach1: "pool_reach sample_kernel {} sample_pool1 [8388672 \<mapsto> 100000]"
  using allocated [OF new_pool _ sample_alloc1] by (simp add: pool_sizes)

lemma sample_reach: "pool_reach sample_kernel {} sample_pool2 [8388672 \<mapsto> 100000, 2097216 \<mapsto> 100000]"
  using allocated [OF sample_reach1 _ sample_alloc2 [of 100000]] by (simp add: pool_sizes)

theorem pool_blocks_disjoint_witness:
  "pool_reach sample_kernel {} sample_pool2 [8388672 \<mapsto> 100000, 2097216 \<mapsto> 100000]
   \<and> mem_range 8388672 100000 \<inter> mem_range 2097216 100000 = {} \<and> mem_range 8388672 100000 \<subseteq> bp_vm sample_pool2"
  using sample_reach pool_blocks_disjoint [OF sample_kernel_ok sample_reach, of 8388672 100000 2097216 100000] by simp

text \<open>
  C19. The pool always answers: in every state it reaches, an allocation of a size whose rounding
  to chunks does not wrap around \<open>2 ^ 64\<close> returns, with memory or with the
  null pointer and then nothing mapped that was not mapped before, and it does not return the null
  pointer while a block of the class is cached; a release of a block in use returns;
  \<open>reserve\<close> of a size with a class (at most \<open>MAX_CLASS_SIZE\<close>, which \<open>class_of\<close> asserts) ends within as many iterations as a magazine has places, with the magazine full or
  because the kernel has no memory; and the end of a thread leaves its magazines empty.
\<close>

theorem pool_answers:
  assumes "kernel_ok K" "pool_reach K vm s R"
  shows "(sz + SIZEOF_CHUNK + CHUNK_SIZE \<le> 2 ^ 64 \<longrightarrow> (\<exists>p s'. bp_alloc K sz s = Inr (p, s') \<and> (p = nullptr \<longrightarrow> bp_vm s' = bp_vm s)
      \<and> (sz \<le> MAX_CLASS_SIZE \<and> \<not> class_blocks s (class_of sz) \<subseteq> dom R \<longrightarrow> p \<noteq> nullptr)))
    \<and> (p \<in> dom R \<longrightarrow> (\<exists>s'. bp_free p s = Inr s'))
    \<and> (sz \<le> MAX_CLASS_SIZE \<longrightarrow> (\<exists>ok s'. bp_reserve CACHE_SIZE K sz s = Inr (ok, s')
        \<and> (if ok then mag_is_full (class_of sz) s' else allocate_new_chunk K CHUNK_SIZE s' = Inr (nullptr, s'))))
    \<and> (\<exists>s'. donate_all s = Inr s' \<and> (\<forall>c < N_CLASSES. mg_top (bp_mag s' ! c) = 0))"
proof (intro conjI impI)
  have inv: "pool_inv s (dom R)" using pool_reach_inv [OF assms(2,1)] .
  show "\<exists>p s'. bp_alloc K sz s = Inr (p, s') \<and> (p = nullptr \<longrightarrow> bp_vm s' = bp_vm s)
      \<and> (sz \<le> MAX_CLASS_SIZE \<and> \<not> class_blocks s (class_of sz) \<subseteq> dom R \<longrightarrow> p \<noteq> nullptr)" if le: "sz + SIZEOF_CHUNK + CHUNK_SIZE \<le> 2 ^ 64"
  proof -
    obtain p s' where a: "bp_alloc K sz s = Inr (p, s')" "alloc_result s (dom R) sz p s'" using alloc_ok [OF inv assms(1) le] by blast
    have "p \<noteq> nullptr" if "sz \<le> MAX_CLASS_SIZE" "\<not> class_blocks s (class_of sz) \<subseteq> dom R"
      using alloc_small [OF inv assms(1) that(1)] that(2) a(1) by auto
    with a show ?thesis by (auto simp: alloc_result_def)
  qed
  show "\<exists>s'. bp_free p s = Inr s'" if "p \<in> dom R" using free_ok [OF inv that] by blast
  show "\<exists>ok s'. bp_reserve CACHE_SIZE K sz s = Inr (ok, s')
        \<and> (if ok then mag_is_full (class_of sz) s' else allocate_new_chunk K CHUNK_SIZE s' = Inr (nullptr, s'))" if "sz \<le> MAX_CLASS_SIZE"
    using reserve_ok [OF inv assms(1) that, of CACHE_SIZE] by (metis diff_le_self)
  show "\<exists>s'. donate_all s = Inr s' \<and> (\<forall>c < N_CLASSES. mg_top (bp_mag s' ! c) = 0)" using donate_all_ok [OF inv] by blast
qed

theorem pool_answers_witness:
  "(\<exists>p s'. bp_alloc sample_kernel 5000 sample_pool2 = Inr (p, s')) \<and> (\<exists>s'. bp_free 2097216 sample_pool2 = Inr s')
   \<and> (\<exists>ok s'. bp_reserve CACHE_SIZE sample_kernel 5000 sample_pool2 = Inr (ok, s'))"
proof -
  have b: "(5000 :: nat) + SIZEOF_CHUNK + CHUNK_SIZE \<le> 2 ^ 64" "(5000 :: nat) \<le> MAX_CLASS_SIZE" by (simp_all add: pool_sizes)
  have "(2097216 :: nat) \<in> dom [8388672 \<mapsto> 100000, 2097216 \<mapsto> 100000 :: nat]" by simp
  with b pool_answers [OF sample_kernel_ok sample_reach, of 5000 2097216] show ?thesis by blast
qed

text \<open>
  A new chunk is all or nothing: with huge pages or with ordinary pages of which both ends are cut off,
  either no address more is mapped than before and the pool is unchanged, or exactly the bytes of
  one aligned chunk are, none of which was mapped before.
\<close>

lemma new_chunk_all_or_nothing:
  assumes "kernel_ok K"
  shows "\<exists>p s'. allocate_new_chunk K sz s = Inr (p, s') \<and> (if p = nullptr then s' = s
    else bp_vm s' = bp_vm s \<union> mem_range p sz \<and> mem_range p sz \<inter> bp_vm s = {} \<and> p mod CHUNK_SIZE = 0 \<and> p + sz \<le> 2 ^ 64
      \<and> bp_chunks s' = (bp_chunks s)(p \<mapsto> Chunk_init))"
  using allocate_new_chunk_spec [OF assms, of sz s]
proof (elim disjE exE conjE)
  fix p
  assume "allocate_new_chunk K sz s = Inr (p, s\<lparr>bp_vm := bp_vm s \<union> mem_range p sz, bp_chunks := (bp_chunks s)(p \<mapsto> Chunk_init)\<rparr>)"
    "0 < p" "p mod CHUNK_SIZE = 0" "p + sz \<le> 2 ^ 64" "mem_range p sz \<inter> bp_vm s = {}"
  then show ?thesis by (intro exI [of _ p] exI) auto
qed auto

lemma new_chunk_all_or_nothing_witness:
  "\<exists>p s'. allocate_new_chunk sample_kernel 2097152 sample_pool1 = Inr (p, s') \<and> (p \<noteq> nullptr \<longrightarrow> bp_vm s' = bp_vm sample_pool1 \<union> mem_range p 2097152)"
  using new_chunk_all_or_nothing [OF sample_kernel_ok, of 2097152 sample_pool1] by metis

text \<open>
  A request within 64 bytes of the largest \<open>size_t\<close> wraps around: the block returned is smaller than asked for.
\<close>

lemma alloc_wraps:
  "\<exists>p s'. bp_alloc sample_kernel (2 ^ 64 - 1) (BufferPool {}) = Inr (p, s') \<and> p \<noteq> nullptr \<and> bp_vm s' = mem_range (p - 64) 2097152"
proof -
  have r: "round_to_cnk_sz 63 = 2097152" by (simp add: round_to_cnk_sz_def pool_sizes)
  have "allocate_new_chunk sample_kernel 2097152 (BufferPool {}) =
     Inr (8388608, (BufferPool {})\<lparr>bp_vm := mem_range 8388608 2097152, bp_chunks := [8388608 \<mapsto> Chunk_init]\<rparr>)"
    by (simp add: allocate_new_chunk_def sample_kernel_def place_chunk_def pool_sizes BufferPool_def)
  then show ?thesis by (simp add: bp_alloc_def r pool_sizes)
qed

subsection \<open>The order book grows into memory of the pool\<close>

text \<open>
  C20. What the order book relies on when it grows is what the pool gives: a book whose orders
  lie in mapped memory, and which has at least its initial number of orders, asks the pool for
  as many again; if it gets memory, none of the new orders overlaps an order of the book, and all of them are mapped.
\<close>

theorem grow_gets_fresh_memory:
  assumes "kernel_ok K" "pool_reach K vm s R" "dom (ob_heap b) \<subseteq> bp_vm s" "unat MAX_ORDERS \<le> unat (ob_max_orders b)" "unat (ob_max_orders b) < 2 ^ 31"
    and "bp_alloc K (unat (ob_max_orders b) * sizeof_Order) s = Inr (mem, s')" "mem \<noteq> nullptr"
  shows "env_ok \<lparr>ge_mem = mem, ge_free_ok = True, ge_table_ok = True\<rparr> b
    \<and> set (chunk mem sizeof_Order (unat (ob_max_orders b))) \<subseteq> bp_vm s' \<and> dom (ob_heap b) \<subseteq> bp_vm s'"
proof -
  let ?n = "unat (ob_max_orders b)"
  have inv: "pool_inv s (dom R)" using pool_reach_inv [OF assms(2,1)] .
  have "unat MAX_ORDERS = 4096" by (simp add: MAX_ORDERS_def)
  then have sz: "MAX_CLASS_SIZE < ?n * sizeof_Order" "?n * sizeof_Order + SIZEOF_CHUNK + CHUNK_SIZE \<le> 2 ^ 64"
    using assms(4,5) by (simp_all add: sizeof_Order_def pool_sizes)
  have r: "mem_range mem (?n * sizeof_Order) \<inter> bp_vm s = {}" "mem_range mem (?n * sizeof_Order) \<subseteq> bp_vm s'" "bp_vm s \<subseteq> bp_vm s'" "SIZEOF_CHUNK < mem"
    using alloc_large [OF inv assms(1) sz] assms(6,7) by auto
  have c: "set (chunk mem sizeof_Order ?n) \<subseteq> mem_range mem (?n * sizeof_Order)"
    by (auto simp: chunk_def mem_range_def sizeof_Order_def)
  then have "\<forall>a \<in> set (chunk mem sizeof_Order ?n). ob_heap b a = None" using r(1) assms(3) by blast
  with r c assms(3,5) show ?thesis by (auto simp: env_ok_def pool_sizes)
qed

theorem grow_gets_fresh_memory_witness:
  "\<exists>b. OrderBook 2 1 8388672 (\<lambda>_. Order_init) True = Inr b
    \<and> env_ok \<lparr>ge_mem = 2097216, ge_free_ok = True, ge_table_ok = True\<rparr> b \<and> dom (ob_heap b) \<subseteq> bp_vm sample_pool2"
proof -
  obtain b where b: "OrderBook 2 1 8388672 (\<lambda>_. Order_init) True = Inr b" using OrderBook_spec [of 2 8388672 1] by auto
  have m: "ob_max_orders b = MAX_ORDERS" and h: "dom (ob_heap b) = set (chunk 8388672 sizeof_Order 4096)"
    using b unat_MAX_ORDERS by (auto simp: OrderBook_def Let_def dom_def split: sum.splits if_splits)
  have "dom (ob_heap b) \<subseteq> bp_vm sample_pool1"
    unfolding h by (auto simp: sample_pool1_def chunk_def mem_range_def sizeof_Order_def)
  moreover have "bp_alloc sample_kernel (unat (ob_max_orders b) * sizeof_Order) sample_pool1 = Inr (2097216, sample_pool2)"
    using sample_alloc2 [of 163840] m unat_MAX_ORDERS by (simp add: sizeof_Order_def)
  ultimately show ?thesis
    using grow_gets_fresh_memory [OF sample_kernel_ok sample_reach1, of b 2097216 sample_pool2] b m unat_MAX_ORDERS by simp
qed

end
