(* ===== verification/Logger.thy ===== *)
theory Logger
  imports Spsc_Queue Std_Text "HOL-Library.Multiset"
begin

section \<open>Logger (src/common/logger.hpp)\<close>

text \<open>
  A thread that logs writes a record with its arguments as bytes into the ring of its slot; the logger
  thread drains the rings, sorts what it finds by time stamp, decodes the arguments against
  the format string and writes the lines. A byte of a record is a \<open>char\<close>. How a double is
  printed (\<open>std::to_chars\<close>) is an argument of the decoding.
\<close>

datatype log_level = TRACE | DEBUG | INFO | WARN | ERROR | FATAL

fun level_to_str :: "log_level \<Rightarrow> string" where
  "level_to_str TRACE = ''TRACE''"
| "level_to_str DEBUG = ''DEBUG''"
| "level_to_str INFO = ''INFO''"
| "level_to_str WARN = ''WARN''"
| "level_to_str ERROR = ''ERROR''"
| "level_to_str FATAL = ''FATAL''"

definition RECORD_BYTES :: nat where "RECORD_BYTES = 256"
definition SIZEOF_RecordHeader :: nat where "SIZEOF_RecordHeader = 16"
definition PAYLOAD_BYTES :: nat where "PAYLOAD_BYTES = RECORD_BYTES - SIZEOF_RecordHeader"

text \<open>The length of a string is stored in one byte, as \<open>PAYLOAD_BYTES <= 255\<close>.\<close>

definition SIZEOF_StrLen :: nat where "SIZEOF_StrLen = (if PAYLOAD_BYTES \<le> 255 then 1 else 2)"

subsection \<open>Arguments\<close>

text \<open>The stored types, with their sizes: strings of any kind are stored as a \<open>string_view\<close>.\<close>

datatype arg_type = T_string | T_bool | T_char | T_unsigned nat | T_signed nat | T_double

datatype log_arg = A_string string | A_bool bool | A_char char | A_unsigned nat nat | A_signed nat int | A_double nat

fun type_of_arg :: "log_arg \<Rightarrow> arg_type" where
  "type_of_arg (A_string s) = T_string"
| "type_of_arg (A_bool b) = T_bool"
| "type_of_arg (A_char c) = T_char"
| "type_of_arg (A_unsigned k v) = T_unsigned k"
| "type_of_arg (A_signed k i) = T_signed k"
| "type_of_arg (A_double d) = T_double"

fun sizeof_type :: "arg_type \<Rightarrow> nat" where
  "sizeof_type T_string = 16"
| "sizeof_type T_bool = 1"
| "sizeof_type T_char = 1"
| "sizeof_type (T_unsigned k) = k"
| "sizeof_type (T_signed k) = k"
| "sizeof_type T_double = 8"

definition min_wire_size :: "arg_type \<Rightarrow> nat" where
  "min_wire_size t = (if t = T_string then SIZEOF_StrLen else sizeof_type t)"

text \<open>The bytes of a value in memory, lowest first.\<close>

definition bytes_of_nat :: "nat \<Rightarrow> nat \<Rightarrow> string" where
  "bytes_of_nat k n = map (\<lambda>i. char_of (n div 256 ^ i)) [0..<k]"

fun nat_of_bytes :: "string \<Rightarrow> nat" where
  "nat_of_bytes [] = 0"
| "nat_of_bytes (c # cs) = of_char c + 256 * nat_of_bytes cs"

fun value_bytes :: "log_arg \<Rightarrow> string" where
  "value_bytes (A_string s) = s"
| "value_bytes (A_bool b) = [char_of (of_bool b :: nat)]"
| "value_bytes (A_char c) = [c]"
| "value_bytes (A_unsigned k v) = bytes_of_nat k v"
| "value_bytes (A_signed k i) = bytes_of_nat k (nat (i mod 256 ^ k))"
| "value_bytes (A_double d) = bytes_of_nat 8 d"

fun value_of_bytes :: "arg_type \<Rightarrow> string \<Rightarrow> log_arg" where
  "value_of_bytes T_string bs = A_string bs"
| "value_of_bytes T_bool bs = A_bool (nat_of_bytes bs \<noteq> 0)"
| "value_of_bytes T_char bs = A_char (case bs of c # _ \<Rightarrow> c | [] \<Rightarrow> CHR 0x00)"
| "value_of_bytes (T_unsigned k) bs = A_unsigned k (nat_of_bytes bs)"
| "value_of_bytes (T_signed k) bs =
     (let n = int (nat_of_bytes bs) in A_signed k (if 2 * n < 256 ^ k then n else n - 256 ^ k))"
| "value_of_bytes T_double bs = A_double (nat_of_bytes bs)"

text \<open>\<open>memcpy\<close> into and out of the payload.\<close>

definition poke :: "string \<Rightarrow> nat \<Rightarrow> string \<Rightarrow> string res" where
  "poke mem off bs = (if off + length bs \<le> length mem then Inr (take off mem @ bs @ drop (off + length bs) mem) else Inl Bad_Access)"

definition peek :: "string \<Rightarrow> nat \<Rightarrow> nat \<Rightarrow> string res" where
  "peek mem off n = (if off + n \<le> length mem then Inr (take n (drop off mem)) else Inl Bad_Access)"

definition read_arg :: "string \<Rightarrow> nat \<Rightarrow> arg_type \<Rightarrow> (log_arg \<times> nat) res" where
  "read_arg payload pos t =
     (if t = T_string then
        bind_res (peek payload pos SIZEOF_StrLen) (\<lambda>l.
          let len = nat_of_bytes l; pos = pos + SIZEOF_StrLen in
          bind_res (peek payload pos len) (\<lambda>a. Inr (A_string a, pos + len)))
      else bind_res (peek payload pos (sizeof_type t)) (\<lambda>a. Inr (value_of_bytes t a, pos + sizeof_type t)))"

text \<open>The length a string is cut to: an unsigned subtraction, and a conversion to the length type.\<close>

definition write_len :: "nat \<Rightarrow> nat \<Rightarrow> nat" where
  "write_len sz off = min sz ((PAYLOAD_BYTES + 2 ^ 64 - off - SIZEOF_StrLen) mod 2 ^ 64) mod 256 ^ SIZEOF_StrLen"

definition write_arg :: "log_arg \<Rightarrow> string \<times> nat \<Rightarrow> (string \<times> nat) res" where
  "write_arg a = (\<lambda>(payload, off).
     case a of
       A_string s \<Rightarrow>
         let len = write_len (length s) off in
         bind_res (poke payload off (bytes_of_nat SIZEOF_StrLen len)) (\<lambda>payload.
           let off = off + SIZEOF_StrLen in
           bind_res (poke payload off (take len s)) (\<lambda>payload. Inr (payload, off + len)))
     | _ \<Rightarrow> bind_res (poke payload off (value_bytes a)) (\<lambda>payload. Inr (payload, off + sizeof_type (type_of_arg a))))"

fun write_args :: "log_arg list \<Rightarrow> string \<times> nat \<Rightarrow> (string \<times> nat) res" where
  "write_args [] s = Inr s"
| "write_args (a # as) s = bind_res (write_arg a s) (write_args as)"

subsection \<open>Format strings\<close>

fun count_fields :: "string \<Rightarrow> nat" where
  "count_fields [] = 0"
| "count_fields [c] = 0"
| "count_fields (c # d # cs) = (if c = CHR ''{'' \<and> d = CHR ''}'' then Suc (count_fields cs) else count_fields (d # cs))"

text \<open>The segments between the fields; \<open>None\<close> where the compilation fails. The first argument is the segment being read.\<close>

fun split_from :: "string \<Rightarrow> string \<Rightarrow> string list option" where
  "split_from seg [] = Some [seg]"
| "split_from seg (c # cs) =
     (if c = CHR ''{'' then
        (case cs of d # ds \<Rightarrow> if d = CHR ''}'' then map_option (\<lambda>segs. seg # segs) (split_from [] ds) else None | [] \<Rightarrow> None)
      else if c = CHR ''}'' then None
      else split_from (seg @ [c]) cs)"

definition split :: "string \<Rightarrow> string list option" where
  "split fmt = split_from [] fmt"

definition int_string :: "int \<Rightarrow> string" where
  "int_string i = (if i < 0 then CHR ''-'' # dec_string (nat (- i)) else dec_string (nat i))"

fun format_arg :: "(nat \<Rightarrow> string) \<Rightarrow> log_arg \<Rightarrow> string" where
  "format_arg fp (A_string s) = s"
| "format_arg fp (A_bool b) = (if b then ''true'' else ''false'')"
| "format_arg fp (A_char c) = [c]"
| "format_arg fp (A_unsigned k v) = dec_string v"
| "format_arg fp (A_signed k i) = int_string i"
| "format_arg fp (A_double d) = fp d"

fun read_args :: "string \<Rightarrow> nat \<Rightarrow> arg_type list \<Rightarrow> log_arg list res" where
  "read_args payload pos [] = Inr []"
| "read_args payload pos (t # ts) =
     bind_res (read_arg payload pos t) (\<lambda>(a, pos). bind_res (read_args payload pos ts) (\<lambda>as. Inr (a # as)))"

fun weave :: "string list \<Rightarrow> string list \<Rightarrow> string" where
  "weave (s # ss) (a # as) = s @ a @ weave ss as"
| "weave (s # ss) [] = s"
| "weave [] as = []"

definition decode :: "(nat \<Rightarrow> string) \<Rightarrow> string \<Rightarrow> arg_type list \<Rightarrow> string \<Rightarrow> string res" where
  "decode fp fmt ts payload =
     (case split fmt of None \<Rightarrow> Inl Bad_Access
      | Some segs \<Rightarrow> bind_res (read_args payload 0 ts) (\<lambda>as. Inr (weave segs (map (format_arg fp) as))))"

subsection \<open>What a line should read\<close>

text \<open>The text of a call: each \<open>{}\<close> replaced by the next argument.\<close>

fun fill_fields :: "string \<Rightarrow> string list \<Rightarrow> string" where
  "fill_fields [] as = []"
| "fill_fields [c] as = [c]"
| "fill_fields (c # d # cs) as =
     (if c = CHR ''{'' \<and> d = CHR ''}'' then (case as of a # as \<Rightarrow> a @ fill_fields cs as | [] \<Rightarrow> fill_fields cs []) else c # fill_fields (d # cs) as)"

text \<open>The arguments that a record has room for: a string is cut to the space left, but keeps no space for what follows.\<close>

fun clip :: "nat \<Rightarrow> log_arg list \<Rightarrow> log_arg list option" where
  "clip off [] = Some []"
| "clip off (A_string s # as) =
     (if off < PAYLOAD_BYTES
      then let len = min (length s) (PAYLOAD_BYTES - off - 1) in map_option (\<lambda>as. A_string (take len s) # as) (clip (off + 1 + len) as)
      else None)"
| "clip off (a # as) =
     (let k = sizeof_type (type_of_arg a) in
      if off + k \<le> PAYLOAD_BYTES then map_option (\<lambda>as. a # as) (clip (off + k) as) else None)"

text \<open>Values that fit their type.\<close>

fun arg_ok :: "log_arg \<Rightarrow> bool" where
  "arg_ok (A_unsigned k v) \<longleftrightarrow> v < 256 ^ k"
| "arg_ok (A_signed k i) \<longleftrightarrow> 0 < k \<and> - (256 ^ k) \<le> 2 * i \<and> 2 * i < 256 ^ k"
| "arg_ok (A_double d) \<longleftrightarrow> d < 2 ^ 64"
| "arg_ok _ \<longleftrightarrow> True"

subsection \<open>Facts\<close>

lemma log_sizes [simp]: "PAYLOAD_BYTES = 240" "SIZEOF_StrLen = 1"
  by (simp_all add: PAYLOAD_BYTES_def RECORD_BYTES_def SIZEOF_RecordHeader_def SIZEOF_StrLen_def)

lemma length_bytes_of_nat [simp]: "length (bytes_of_nat k n) = k"
  by (simp add: bytes_of_nat_def)

lemma bytes_of_nat_Suc: "bytes_of_nat (Suc k) n = char_of n # bytes_of_nat k (n div 256)"
  by (simp add: bytes_of_nat_def upt_conv_Cons map_Suc_upt [symmetric] div_mult2_eq del: upt_Suc)

lemma nat_of_bytes_of_nat: "nat_of_bytes (bytes_of_nat k n) = n mod 256 ^ k"
proof (induction k arbitrary: n)
  case 0
  then show ?case by (simp add: bytes_of_nat_def)
next
  case (Suc k)
  have "n mod (256 * 256 ^ k) = 256 * (n div 256 mod 256 ^ k) + n mod 256" by (rule mod_mult2_eq)
  with Suc show ?case by (simp add: bytes_of_nat_Suc of_char_of)
qed

lemma value_bytes_length: "type_of_arg a \<noteq> T_string \<Longrightarrow> length (value_bytes a) = sizeof_type (type_of_arg a)"
  by (cases a) auto

lemma value_roundtrip:
  assumes "arg_ok a"
  shows "value_of_bytes (type_of_arg a) (value_bytes a) = a"
proof (cases a)
  case (A_signed k i)
  then have r: "0 < k" "- (256 ^ k) \<le> 2 * i" "2 * i < 256 ^ k" using assms by auto
  have "nat (i mod 256 ^ k) < 256 ^ k" by (simp add: nat_less_iff)
  then have n: "int (nat_of_bytes (bytes_of_nat k (nat (i mod 256 ^ k)))) = i mod 256 ^ k"
    by (simp add: nat_of_bytes_of_nat)
  have "i mod 256 ^ k = (if i < 0 then i + 256 ^ k else i)"
  proof (cases "i < 0")
    case True
    then have "(i + 256 ^ k) mod 256 ^ k = i + 256 ^ k" using r by (intro mod_pos_pos_trivial) auto
    then show ?thesis using True by simp
  qed (use r in simp)
  then show ?thesis using A_signed n r by (auto simp: Let_def)
qed (use assms in \<open>auto simp: nat_of_bytes_of_nat\<close>)

subsection \<open>Writing and reading the arguments\<close>

lemma poke_ok:
  assumes "off + length bs \<le> length mem"
  shows "\<exists>m. poke mem off bs = Inr m \<and> length m = length mem \<and> take off m = take off mem \<and> peek m off (length bs) = Inr bs"
  using assms by (simp add: poke_def peek_def)

lemma peek_cong:
  assumes "length m' = length m" "take (off + k) m' = take (off + k) m"
  shows "peek m' off k = peek m off k"
proof -
  have "take k (drop off m') = take k (drop off m)" using assms(2) by (metis add.commute take_drop)
  then show ?thesis using assms(1) by (simp add: peek_def)
qed

lemma take_take_eq: "take (n + k) m' = take (n + k) m \<Longrightarrow> take n m' = take n m"
  by (metis le_add1 min.absorb1 take_take)

text \<open>One argument: where it goes, and that it is read back as long as the bytes before its end stay.\<close>

lemma write_string_spec:
  assumes "length mem = PAYLOAD_BYTES" "off < PAYLOAD_BYTES" "len = min (length s) (PAYLOAD_BYTES - off - 1)"
  shows "\<exists>m. write_arg (A_string s) (mem, off) = Inr (m, off + 1 + len) \<and> length m = PAYLOAD_BYTES \<and> take off m = take off mem
    \<and> (\<forall>m'. length m' = PAYLOAD_BYTES \<and> take (off + 1 + len) m' = take (off + 1 + len) m \<longrightarrow>
         read_arg m' off T_string = Inr (A_string (take len s), off + 1 + len))"
proof -
  have "(PAYLOAD_BYTES + 2 ^ 64 - off - SIZEOF_StrLen) mod 2 ^ 64 = PAYLOAD_BYTES - off - 1"
  proof -
    have "PAYLOAD_BYTES + 2 ^ 64 - off - SIZEOF_StrLen = (PAYLOAD_BYTES - off - 1) + 2 ^ 64" using assms(2) by simp
    then show ?thesis using assms(2) by (simp only: mod_add_self2) simp
  qed
  then have wl: "write_len (length s) off = len" using assms(2,3) unfolding write_len_def by simp
  obtain m1 where m1: "poke mem off (bytes_of_nat 1 len) = Inr m1" "length m1 = PAYLOAD_BYTES" "take off m1 = take off mem"
    "peek m1 off 1 = Inr (bytes_of_nat 1 len)"
    using poke_ok [of off "bytes_of_nat 1 len" mem] assms(1,2) by auto
  obtain m where m: "poke m1 (off + 1) (take len s) = Inr m" "length m = PAYLOAD_BYTES" "take (off + 1) m = take (off + 1) m1"
    "peek m (off + 1) len = Inr (take len s)"
  proof -
    have "length (take len s) = len" "off + 1 + len \<le> length m1" using assms(2,3) m1(2) by auto
    then show ?thesis using poke_ok [of "off + 1" "take len s" m1] m1(2) that by auto
  qed
  have nb: "nat_of_bytes (bytes_of_nat 1 len) = len" using assms(2,3) by (simp add: nat_of_bytes_of_nat)
  have "read_arg m' off T_string = Inr (A_string (take len s), off + 1 + len)"
    if "length m' = PAYLOAD_BYTES" "take (off + 1 + len) m' = take (off + 1 + len) m" for m'
  proof -
    have "peek m' off 1 = Inr (bytes_of_nat 1 len)"
      using peek_cong [of m' m1 off 1] take_take_eq [OF that(2)] m(3) m1(2,4) that(1) by simp
    moreover have "peek m' (off + 1) len = Inr (take len s)" using peek_cong [of m' m "off + 1" len] that m(2,4) by simp
    ultimately show ?thesis by (simp add: read_arg_def nb [simplified] Let_def)
  qed
  moreover have "take off m = take off mem" using take_take_eq [OF m(3)] m1(3) by simp
  moreover have "write_arg (A_string s) (mem, off) = Inr (m, off + 1 + len)"
    using m1(1) m(1) by (simp add: write_arg_def Let_def wl)
  ultimately show ?thesis using m(2) by blast
qed

lemma write_scalar_spec:
  assumes "length mem = PAYLOAD_BYTES" "type_of_arg a \<noteq> T_string" "k = sizeof_type (type_of_arg a)" "off + k \<le> PAYLOAD_BYTES" "arg_ok a"
  shows "\<exists>m. write_arg a (mem, off) = Inr (m, off + k) \<and> length m = PAYLOAD_BYTES \<and> take off m = take off mem
    \<and> (\<forall>m'. length m' = PAYLOAD_BYTES \<and> take (off + k) m' = take (off + k) m \<longrightarrow> read_arg m' off (type_of_arg a) = Inr (a, off + k))"
proof -
  have l: "length (value_bytes a) = k" using value_bytes_length [OF assms(2)] assms(3) by simp
  obtain m where m: "poke mem off (value_bytes a) = Inr m" "length m = PAYLOAD_BYTES" "take off m = take off mem" "peek m off k = Inr (value_bytes a)"
    using poke_ok [of off "value_bytes a" mem] assms(1,4) l by auto
  have "read_arg m' off (type_of_arg a) = Inr (a, off + k)" if "length m' = PAYLOAD_BYTES" "take (off + k) m' = take (off + k) m" for m'
    using peek_cong [of m' m off k] that m(2,4) assms(2,3) value_roundtrip [OF assms(5)] by (simp add: read_arg_def)
  moreover have "write_arg a (mem, off) = Inr (m, off + k)"
    using m(1) assms(2,3) by (cases a) (auto simp: write_arg_def)
  ultimately show ?thesis using m(2,3) by blast
qed

lemma write_args_cons:
  assumes "length mem = PAYLOAD_BYTES"
    and w: "write_arg a (mem, off) = Inr (m, e)" "length m = PAYLOAD_BYTES" "take off m = take off mem" "off \<le> e"
    and rd: "\<forall>m'. length m' = PAYLOAD_BYTES \<and> take e m' = take e m \<longrightarrow> read_arg m' off (type_of_arg a) = Inr (a', e)"
    and IH: "case clip e as of None \<Rightarrow> write_args as (m, e) = Inl Bad_Access
      | Some bs \<Rightarrow> \<exists>m' e'. write_args as (m, e) = Inr (m', e') \<and> length m' = PAYLOAD_BYTES \<and> take e m' = take e m
          \<and> read_args m' e (map type_of_arg as) = Inr bs"
  shows "case map_option (\<lambda>bs. a' # bs) (clip e as) of None \<Rightarrow> write_args (a # as) (mem, off) = Inl Bad_Access
    | Some bs \<Rightarrow> \<exists>m' e'. write_args (a # as) (mem, off) = Inr (m', e') \<and> length m' = PAYLOAD_BYTES \<and> take off m' = take off mem
        \<and> read_args m' off (map type_of_arg (a # as)) = Inr bs"
proof (cases "clip e as")
  case None
  then show ?thesis using IH w(1) by simp
next
  case (Some bs)
  then obtain m' e' where m': "write_args as (m, e) = Inr (m', e')" "length m' = PAYLOAD_BYTES" "take e m' = take e m"
    "read_args m' e (map type_of_arg as) = Inr bs" using IH by auto
  have "take off m' = take off mem" using m'(3) w(3,4) take_take_eq [of off "e - off" m' m] by simp
  moreover have "read_arg m' off (type_of_arg a) = Inr (a', e)" using rd m'(2,3) by blast
  ultimately show ?thesis using Some w(1) m' by simp
qed

lemma write_args_spec:
  assumes "length mem = PAYLOAD_BYTES" "\<forall>a \<in> set as. arg_ok a" "off \<le> PAYLOAD_BYTES"
  shows "case clip off as of None \<Rightarrow> write_args as (mem, off) = Inl Bad_Access
    | Some bs \<Rightarrow> \<exists>m e. write_args as (mem, off) = Inr (m, e) \<and> length m = PAYLOAD_BYTES \<and> take off m = take off mem
        \<and> read_args m off (map type_of_arg as) = Inr bs"
  using assms
proof (induction as arbitrary: off mem)
  case Nil
  then show ?case by simp
next
  case (Cons a as)
  show ?case
  proof (cases "type_of_arg a = T_string")
    case True
    then obtain s where a: "a = A_string s" by (cases a) auto
    show ?thesis
    proof (cases "off < PAYLOAD_BYTES")
      case False
      then have "poke mem off (bytes_of_nat 1 n) = Inl Bad_Access" for n using Cons.prems(1) by (simp add: poke_def)
      then show ?thesis using False a by (simp add: write_arg_def)
    next
      case lt: True
      define len where "len = min (length s) (PAYLOAD_BYTES - off - 1)"
      obtain m where m: "write_arg a (mem, off) = Inr (m, off + 1 + len)" "length m = PAYLOAD_BYTES" "take off m = take off mem"
        "\<forall>m'. length m' = PAYLOAD_BYTES \<and> take (off + 1 + len) m' = take (off + 1 + len) m \<longrightarrow>
           read_arg m' off (type_of_arg a) = Inr (A_string (take len s), off + 1 + len)"
        using write_string_spec [OF Cons.prems(1) lt len_def] a by auto
      have "off + 1 + len \<le> PAYLOAD_BYTES" using lt by (simp add: len_def)
      note IH = Cons.IH [OF m(2) _ this]
      have "clip off (a # as) = map_option (\<lambda>bs. A_string (take len s) # bs) (clip (off + 1 + len) as)" using lt a by (simp add: len_def Let_def)
      then show ?thesis using write_args_cons [OF Cons.prems(1) m(1-3) _ m(4) IH] Cons.prems(2) by simp
    qed
  next
    case False
    let ?k = "sizeof_type (type_of_arg a)"
    have c: "clip off (a # as) = (if off + ?k \<le> PAYLOAD_BYTES then map_option (\<lambda>bs. a # bs) (clip (off + ?k) as) else None)"
      using False by (cases a) (simp_all add: Let_def)
    show ?thesis
    proof (cases "off + ?k \<le> PAYLOAD_BYTES")
      case fits: True
      obtain m where m: "write_arg a (mem, off) = Inr (m, off + ?k)" "length m = PAYLOAD_BYTES" "take off m = take off mem"
        "\<forall>m'. length m' = PAYLOAD_BYTES \<and> take (off + ?k) m' = take (off + ?k) m \<longrightarrow> read_arg m' off (type_of_arg a) = Inr (a, off + ?k)"
        using write_scalar_spec [OF Cons.prems(1) False refl fits] Cons.prems(2) by auto
      note IH = Cons.IH [OF m(2) _ fits]
      show ?thesis using write_args_cons [OF Cons.prems(1) m(1-3) _ m(4) IH] Cons.prems(2) c fits by simp
    next
      case over: False
      then have "poke mem off (value_bytes a) = Inl Bad_Access"
        using Cons.prems(1) value_bytes_length [OF False] by (simp add: poke_def)
      then have "write_arg a (mem, off) = Inl Bad_Access" using False by (cases a) (auto simp: write_arg_def)
      then show ?thesis using c over by simp
    qed
  qed
qed

subsection \<open>Filling the format string\<close>

lemma split_count:
  assumes "split_from seg fmt = Some segs"
  shows "length segs = Suc (count_fields fmt)"
  using assms
proof (induction seg fmt arbitrary: segs rule: split_from.induct)
  case (1 seg)
  then show ?case by auto
next
  case (2 seg c cs)
  show ?case
  proof (cases "c = CHR ''{''")
    case True
    with 2(3) obtain ds segs' where d: "cs = CHR ''}'' # ds" "split_from [] ds = Some segs'" "segs = seg # segs'"
      by (auto split: list.splits if_splits)
    have "length segs' = Suc (count_fields ds)" using 2(1) [OF True d(1) refl d(2)] .
    with True d show ?thesis by simp
  next
    case False
    with 2(3) have sp: "split_from (seg @ [c]) cs = Some segs" "c \<noteq> CHR ''}''" by (auto split: if_splits)
    have "length segs = Suc (count_fields cs)" using 2(2) [OF False sp(2,1)] .
    then show ?thesis using False by (cases cs) auto
  qed
qed

lemma weave_split:
  assumes "split_from seg fmt = Some segs" "length as = count_fields fmt"
  shows "weave segs as = seg @ fill_fields fmt as"
  using assms
proof (induction seg fmt arbitrary: segs as rule: split_from.induct)
  case (1 seg)
  then show ?case by auto
next
  case (2 seg c cs)
  show ?case
  proof (cases "c = CHR ''{''")
    case True
    with 2(3) obtain ds segs' where d: "cs = CHR ''}'' # ds" "split_from [] ds = Some segs'" "segs = seg # segs'"
      by (auto split: list.splits if_splits)
    with 2(4) True obtain a as' where a: "as = a # as'" "length as' = count_fields ds" by (cases as) auto
    have "weave segs' as' = [] @ fill_fields ds as'" using 2(1) [OF True d(1) refl d(2) a(2)] .
    with True d a show ?thesis by simp
  next
    case False
    with 2(3) have s: "split_from (seg @ [c]) cs = Some segs" "c \<noteq> CHR ''}''" by (auto split: if_splits)
    have "length as = count_fields cs" using 2(4) False by (cases cs) auto
    with 2(2) [OF False s(2) s(1)] False show ?thesis by (cases cs) auto
  qed
qed

lemma clip_types: "clip off as = Some bs \<Longrightarrow> map type_of_arg bs = map type_of_arg as"
  by (induction off as arbitrary: bs rule: clip.induct) (auto simp: Let_def split: if_splits)

lemma log_line_decodes:
  assumes "length junk = PAYLOAD_BYTES" "\<forall>a \<in> set as. arg_ok a" "split fmt \<noteq> None" "count_fields fmt = length as"
  shows "case clip 0 as of None \<Rightarrow> write_args as (junk, 0) = Inl Bad_Access
    | Some bs \<Rightarrow> \<exists>payload e. write_args as (junk, 0) = Inr (payload, e) \<and> length payload = PAYLOAD_BYTES
        \<and> decode fp fmt (map type_of_arg as) payload = Inr (fill_fields fmt (map (format_arg fp) bs))"
proof -
  obtain segs where segs: "split_from [] fmt = Some segs" using assms(3) by (auto simp: split_def)
  show ?thesis
  proof (cases "clip 0 as")
    case None
    then show ?thesis using write_args_spec [OF assms(1,2), of 0] by simp
  next
    case (Some bs)
    then have "length bs = length as" using clip_types by (metis length_map)
    then have "weave segs (map (format_arg fp) bs) = fill_fields fmt (map (format_arg fp) bs)"
      using weave_split [OF segs, of "map (format_arg fp) bs"] assms(4) by simp
    with Some segs show ?thesis using write_args_spec [OF assms(1,2), of 0] by (auto simp: decode_def split_def)
  qed
qed

text \<open>Arguments that fit are not cut.\<close>

definition wire_size :: "log_arg \<Rightarrow> nat" where
  "wire_size a = (case a of A_string s \<Rightarrow> SIZEOF_StrLen + length s | _ \<Rightarrow> sizeof_type (type_of_arg a))"

lemma clip_fits: "off + sum_list (map wire_size as) \<le> PAYLOAD_BYTES \<Longrightarrow> clip off as = Some as"
  by (induction off as rule: clip.induct) (auto simp: wire_size_def Let_def add.assoc)

text \<open>
  The check of the sizes at compile time counts one byte for a string of any length: a call that
  passes it writes outside its record when a long string is followed by a number.
\<close>

lemma log_overflow:
  assumes "length junk = PAYLOAD_BYTES"
  shows "sum_list (map min_wire_size [T_string, T_unsigned 4]) \<le> PAYLOAD_BYTES
    \<and> write_args [A_string (replicate 239 CHR ''x''), A_unsigned 4 7] (junk, 0) = Inl Bad_Access"
proof
  show "sum_list (map min_wire_size [T_string, T_unsigned 4]) \<le> PAYLOAD_BYTES" by (simp add: min_wire_size_def)
  have "clip 0 [A_string (replicate 239 CHR ''x''), A_unsigned 4 7] = None" by (simp add: Let_def)
  then show "write_args [A_string (replicate 239 CHR ''x''), A_unsigned 4 7] (junk, 0) = Inl Bad_Access"
    using write_args_spec [OF assms, of "[A_string (replicate 239 CHR ''x''), A_unsigned 4 7]" 0] by simp
qed

subsection \<open>Slots and threads\<close>

definition N_SLOTS :: nat where "N_SLOTS = 64"
definition LOG_RING_SIZE :: nat where "LOG_RING_SIZE = 4096"

record log_meta =
  lm_fmt :: string
  lm_file :: string
  lm_line :: nat
  lm_level :: log_level
  lm_types :: "arg_type list"

record log_record =
  lr_meta :: log_meta
  lr_tsc :: u64
  lr_payload :: string

record ring_slot =
  sl_ring :: "log_record spsc option"
  sl_dropped :: u64

text \<open>The slots, the count of claimed slots, the slot of each thread, and what threads printed themselves.\<close>

record logger =
  lg_slots :: "ring_slot list"
  lg_so_far :: u32
  lg_slot :: "nat \<Rightarrow> nat option"
  lg_stderr :: "string list"

definition logger_start :: logger where
  "logger_start = \<lparr>lg_slots = replicate N_SLOTS \<lparr>sl_ring = None, sl_dropped = 0\<rparr>, lg_so_far = 0, lg_slot = (\<lambda>_. None), lg_stderr = []\<rparr>"

text \<open>\<open>thread_init\<close> of thread \<open>t\<close>; \<open>alloc_ok\<close> is the answer of \<open>aligned_alloc\<close>.\<close>

definition log_thread_init :: "bool \<Rightarrow> nat \<Rightarrow> logger \<Rightarrow> logger" where
  "log_thread_init alloc_ok t s =
     (if lg_slot s t \<noteq> None then s
      else
        let current = unat (lg_so_far s); s = s\<lparr>lg_so_far := lg_so_far s + 1\<rparr> in
        if current \<ge> N_SLOTS
        then s\<lparr>lg_stderr := lg_stderr s @ [''All slots are claimed, this thread logs via std::print'']\<rparr>
        else if \<not> alloc_ok then s\<lparr>lg_stderr := lg_stderr s @ [''logger: cannot allocate a ring'']\<rparr>
        else s\<lparr>lg_slots := (lg_slots s)[current := (lg_slots s ! current)\<lparr>sl_ring := Some (SPSCQueue LOG_RING_SIZE)\<rparr>],
               lg_slot := (lg_slot s)(t \<mapsto> current)\<rparr>)"

datatype emit_result = Printed | Refused | Queued log_record

definition line_prefix :: "log_meta \<Rightarrow> string" where
  "line_prefix meta = ''['' @ level_to_str (lm_level meta) @ ''] '' @ lm_file meta @ '':'' @ dec_string (lm_line meta) @ '' ''"

text \<open>\<open>emit\<close> in thread \<open>t\<close>, at time \<open>tsc\<close>; \<open>junk\<close> is what the slot of the ring holds before.\<close>

definition log_emit :: "(nat \<Rightarrow> string) \<Rightarrow> string \<Rightarrow> nat \<Rightarrow> u64 \<Rightarrow> log_meta \<Rightarrow> log_arg list \<Rightarrow> logger \<Rightarrow> (emit_result \<times> logger) res" where
  "log_emit fp junk t tsc meta args s =
     (case lg_slot s t of
        None \<Rightarrow> Inr (Printed, s\<lparr>lg_stderr := lg_stderr s @ [line_prefix meta @ fill_fields (lm_fmt meta) (map (format_arg fp) args)]\<rparr>)
      | Some i \<Rightarrow>
          let sl = lg_slots s ! i in
          (case sl_ring sl of
             None \<Rightarrow> Inl Bad_Access
           | Some ring \<Rightarrow>
               (case try_reserve (q_tail ring) ring of
                  (None, ring) \<Rightarrow>
                    Inr (Refused, s\<lparr>lg_slots := (lg_slots s)[i := sl\<lparr>sl_ring := Some ring, sl_dropped := sl_dropped sl + 1\<rparr>]\<rparr>)
                | (Some slot, ring) \<Rightarrow>
                    bind_res (write_args args (junk, 0)) (\<lambda>(payload, off).
                      let rec = \<lparr>lr_meta = meta, lr_tsc = tsc, lr_payload = payload\<rparr> in
                      Inr (Queued rec, s\<lparr>lg_slots := (lg_slots s)[i := sl\<lparr>sl_ring := Some (commit (write_slot slot rec ring))\<rparr>]\<rparr>)))))"

subsection \<open>The logger thread\<close>

text \<open>At most \<open>n\<close> records popped from a ring.\<close>

fun pop_records :: "nat \<Rightarrow> log_record spsc \<Rightarrow> (log_record list \<times> log_record spsc) res" where
  "pop_records 0 ring = Inr ([], ring)"
| "pop_records (Suc n) ring =
     bind_res (pop (q_head ring) ring) (\<lambda>(r, ring).
       case r of None \<Rightarrow> Inr ([], ring)
       | Some rec \<Rightarrow> bind_res (pop_records n ring) (\<lambda>(recs, ring). Inr (rec # recs, ring)))"

definition dropped_line :: "nat \<Rightarrow> u64 \<Rightarrow> string" where
  "dropped_line i n = ''[WARN] logger: slot '' @ dec_string i @ '' dropped '' @ dec_string (unat n) @ '' records\<newline>''"

text \<open>The loop over the slots: the records of each slot, the warnings, the counts seen and the slots.\<close>

fun drain_slots :: "nat list \<Rightarrow> u64 list \<Rightarrow> ring_slot list \<Rightarrow> (log_record list list \<times> string \<times> u64 list \<times> ring_slot list) res" where
  "drain_slots [] seen slots = Inr ([], [], seen, slots)"
| "drain_slots (i # is) seen slots =
     (case sl_ring (slots ! i) of
        None \<Rightarrow> bind_res (drain_slots is seen slots) (\<lambda>(rs, out, seen, slots). Inr ([] # rs, out, seen, slots))
      | Some ring \<Rightarrow>
          bind_res (pop_records LOG_RING_SIZE ring) (\<lambda>(recs, ring).
            let slots = slots[i := (slots ! i)\<lparr>sl_ring := Some ring\<rparr>]; dropped = sl_dropped (slots ! i);
                line = (if dropped \<noteq> seen ! i then dropped_line i (dropped - seen ! i) else []);
                seen = (if dropped \<noteq> seen ! i then seen[i := dropped] else seen) in
            bind_res (drain_slots is seen slots) (\<lambda>(rs, out, seen, slots). Inr (recs # rs, line @ out, seen, slots))))"

text \<open>
  The lines of the records; formatting may throw (\<open>fails\<close>), and then the record is only counted.
\<close>

fun format_records :: "(nat \<Rightarrow> string) \<Rightarrow> (log_record \<Rightarrow> bool) \<Rightarrow> log_record list \<Rightarrow> (string \<times> nat) res" where
  "format_records fp fails [] = Inr ([], 0)"
| "format_records fp fails (rec # recs) =
     (let meta = lr_meta rec in
      if fails rec then bind_res (format_records fp fails recs) (\<lambda>(out, failed). Inr (out, failed + 1))
      else bind_res (decode fp (lm_fmt meta) (lm_types meta) (lr_payload rec)) (\<lambda>text.
        bind_res (format_records fp fails recs) (\<lambda>(out, failed). Inr (line_prefix meta @ text @ ''\<newline>'' @ out, failed))))"

text \<open>
  The answers of \<open>write\<close>: a number of bytes, an interruption, or another error. \<open>None\<close> if the loop never ends.
\<close>

datatype write_answer = Wrote nat | Interrupted | Write_Failed

partial_function (option) write_loop :: "(nat \<Rightarrow> write_answer) \<Rightarrow> nat \<Rightarrow> string \<Rightarrow> nat \<Rightarrow> string option" where
  "write_loop ans k buf off =
     (if off < length buf then
        (case ans k of
           Wrote n \<Rightarrow> write_loop ans (Suc k) buf (off + n)
         | Interrupted \<Rightarrow> write_loop ans (Suc k) buf off
         | Write_Failed \<Rightarrow> Some (take off buf))
      else Some (take off buf))"

definition write_all :: "(nat \<Rightarrow> write_answer) \<Rightarrow> string \<Rightarrow> string option" where
  "write_all ans buf = write_loop ans 0 buf 0"

text \<open>
  \<open>drain_and_log\<close>, up to the call of \<open>write_all\<close>: \<open>srt\<close> is \<open>std::sort\<close> by time stamp. The result holds
  the records popped from each slot, the text to write and whether there were records.
\<close>

record drained =
  dr_pops :: "log_record list list"
  dr_recs :: "log_record list"
  dr_text :: string
  dr_any :: bool

definition drain_and_log :: "(nat \<Rightarrow> string) \<Rightarrow> (log_record list \<Rightarrow> log_record list) \<Rightarrow> (log_record \<Rightarrow> bool) \<Rightarrow> u64 list \<Rightarrow> logger \<Rightarrow>
    (drained \<times> u64 list \<times> logger) res" where
  "drain_and_log fp srt fails seen s =
     (let n_slots = min (unat (lg_so_far s)) N_SLOTS in
      bind_res (drain_slots [0..<n_slots] seen (lg_slots s)) (\<lambda>(pops, out, seen, slots).
      let recs = srt (concat pops) in
      bind_res (format_records fp fails recs) (\<lambda>(lines, failed).
      let tail = (if failed > 0 then ''[ERROR] logger: '' @ dec_string failed @ '' records failed to format\<newline>'' else []) in
      Inr (\<lparr>dr_pops = pops, dr_recs = recs, dr_text = out @ lines @ tail, dr_any = (recs \<noteq> [])\<rparr>, seen, s\<lparr>lg_slots := slots\<rparr>))))"

subsection \<open>Slots as queues\<close>

definition slot_holds :: "ring_slot \<Rightarrow> log_record list \<Rightarrow> bool" where
  "slot_holds sl xs \<longleftrightarrow> (case sl_ring sl of None \<Rightarrow> xs = [] | Some ring \<Rightarrow> ring_holds LOG_RING_SIZE ring xs)"

lemma LOG_RING_SIZE_power: "LOG_RING_SIZE = 2 ^ 12"
  by (simp add: LOG_RING_SIZE_def)

lemma ring_holds_less: "ring_holds LOG_RING_SIZE ring xs \<Longrightarrow> length xs < LOG_RING_SIZE"
  using ring.holds_cap [of 12 ring xs] by (simp add: LOG_RING_SIZE_def)

lemma slot_holds_less: "slot_holds sl xs \<Longrightarrow> length xs < LOG_RING_SIZE"
  using ring_holds_less by (auto simp: slot_holds_def LOG_RING_SIZE_def split: option.splits)

lemma pop_records_all:
  assumes "ring_holds N ring xs" "length xs < n"
  shows "\<exists>ring'. pop_records n ring = Inr (xs, ring') \<and> ring_holds N ring' []"
  using assms
proof (induction xs arbitrary: n ring)
  case Nil
  then obtain m where n: "n = Suc m" by (cases n) auto
  then show ?case using Nil pop_spec [OF Nil(1)] by (auto intro: exI [of _ ring])
next
  case (Cons x xs)
  then obtain m where n: "n = Suc m" "length xs < m" by (cases n) auto
  obtain q where q: "pop (q_head ring) ring = Inr (Some x, q)" "ring_holds N q xs" using pop_spec [OF Cons.prems(1)] by auto
  obtain ring' where "pop_records m q = Inr (xs, ring')" "ring_holds N ring' []" using Cons.IH [OF q(2) n(2)] by blast
  then show ?case using n q(1) by simp
qed

lemma drain_slots_spec:
  assumes "\<forall>i < length slots. slot_holds (slots ! i) (X i)" "\<forall>i \<in> set is. i < length slots" "distinct is"
  shows "\<exists>out seen' slots'. drain_slots is seen slots = Inr (map X is, out, seen', slots') \<and> length slots' = length slots
    \<and> (\<forall>i < length slots. slot_holds (slots' ! i) (if i \<in> set is then [] else X i)
        \<and> sl_dropped (slots' ! i) = sl_dropped (slots ! i) \<and> (sl_ring (slots' ! i) = None \<longleftrightarrow> sl_ring (slots ! i) = None))"
  using assms
proof (induction "is" arbitrary: seen slots X)
  case Nil
  then show ?case by simp
next
  case (Cons i "is")
  have i: "i < length slots" "i \<notin> set is" "distinct is" "\<forall>j \<in> set is. j < length slots" using Cons.prems(2,3) by auto
  show ?case
  proof (cases "sl_ring (slots ! i)")
    case None
    then have X: "X i = []" using Cons.prems(1) i(1) by (auto simp: slot_holds_def)
    obtain out seen' slots' where r: "drain_slots is seen slots = Inr (map X is, out, seen', slots')" "length slots' = length slots"
      "\<forall>j < length slots. slot_holds (slots' ! j) (if j \<in> set is then [] else X j)
        \<and> sl_dropped (slots' ! j) = sl_dropped (slots ! j) \<and> (sl_ring (slots' ! j) = None \<longleftrightarrow> sl_ring (slots ! j) = None)"
      using Cons.IH [OF Cons.prems(1) i(4,3)] by blast
    have "slot_holds (slots' ! j) (if j \<in> set (i # is) then [] else X j)" if "j < length slots" for j
      using r(3) that X i(2) by (cases "j = i") auto
    then show ?thesis using None r X by auto
  next
    case (Some ring)
    then have h: "ring_holds LOG_RING_SIZE ring (X i)" using Cons.prems(1) i(1) by (auto simp: slot_holds_def)
    obtain ring' where p: "pop_records LOG_RING_SIZE ring = Inr (X i, ring')" "ring_holds LOG_RING_SIZE ring' []"
      using pop_records_all [OF h ring_holds_less [OF h]] by blast
    define slots1 where "slots1 = slots[i := (slots ! i)\<lparr>sl_ring := Some ring'\<rparr>]"
    define seen1 where "seen1 = (if sl_dropped (slots1 ! i) \<noteq> seen ! i then seen[i := sl_dropped (slots1 ! i)] else seen)"
    have s1: "length slots1 = length slots" "\<forall>j < length slots1. slot_holds (slots1 ! j) ((X(i := [])) j)"
      using Cons.prems(1) p(2) by (auto simp: slots1_def slot_holds_def nth_list_update)
    obtain out seen' slots' where r: "drain_slots is seen1 slots1 = Inr (map (X(i := [])) is, out, seen', slots')" "length slots' = length slots1"
      "\<forall>j < length slots1. slot_holds (slots' ! j) (if j \<in> set is then [] else (X(i := [])) j)
        \<and> sl_dropped (slots' ! j) = sl_dropped (slots1 ! j) \<and> (sl_ring (slots' ! j) = None \<longleftrightarrow> sl_ring (slots1 ! j) = None)"
      using Cons.IH [OF s1(2)] i(3,4) s1(1) by (metis (no_types, lifting))
    have m: "map (X(i := [])) is = map X is" using i(2) by simp
    have "slot_holds (slots' ! j) (if j \<in> set (i # is) then [] else X j)
        \<and> sl_dropped (slots' ! j) = sl_dropped (slots ! j) \<and> (sl_ring (slots' ! j) = None \<longleftrightarrow> sl_ring (slots ! j) = None)" if "j < length slots" for j
      using r(3) that s1(1) i(2) Some by (cases "j = i") (auto simp: slots1_def)
    moreover have "drain_slots (i # is) seen slots = Inr (X i # map X is,
        (if sl_dropped (slots1 ! i) = seen ! i then [] else dropped_line i (sl_dropped (slots1 ! i) - seen ! i)) @ out, seen', slots')"
      using Some p(1) r(1) [unfolded seen1_def m]
      by (cases "sl_dropped (slots1 ! i) = seen ! i") (simp_all add: Let_def flip: slots1_def)
    ultimately show ?thesis using r(2) s1(1) unfolding list.map
      by (intro exI [of _ "(if sl_dropped (slots1 ! i) = seen ! i then [] else dropped_line i (sl_dropped (slots1 ! i) - seen ! i)) @ out"]
        exI [of _ seen'] exI [of _ slots']) metis
  qed
qed

lemma try_reserve_room:
  assumes "ring_holds N q xs" "Suc (length xs) < N"
  shows "\<exists>slot q'. try_reserve (q_tail q) q = (Some slot, q') \<and> (\<forall>v. ring_holds N (commit (write_slot slot v q')) (xs @ [v]))"
proof -
  obtain r q' where t: "try_reserve (q_tail q) q = (r, q')" by force
  have p: "\<exists>q''. push (q_tail q) v q = (True, q'') \<and> ring_holds N q'' (xs @ [v])" for v using push_spec [OF assms(1), of v] assms(2) by simp
  then obtain slot where r: "r = Some slot" using t by (cases r) (auto simp: push_def)
  then have "ring_holds N (commit (write_slot slot v q')) (xs @ [v])" for v using p [of v] t by (auto simp: push_def)
  with t r show ?thesis by blast
qed

lemma try_reserve_full:
  assumes "ring_holds N q xs" "\<not> Suc (length xs) < N"
  shows "try_reserve (q_tail q) q = (None, q)"
proof -
  obtain r q' where t: "try_reserve (q_tail q) q = (r, q')" by force
  have "push (q_tail q) undefined q = (False, q)" using push_spec [OF assms(1), of undefined] assms(2) by simp
  then show ?thesis using t by (cases r) (auto simp: push_def)
qed

subsection \<open>Runs of the logger\<close>

text \<open>A call of the logging macro that compiles, with arguments that find space in a record.\<close>

definition call_ok :: "log_meta \<Rightarrow> log_arg list \<Rightarrow> bool" where
  "call_ok meta args \<longleftrightarrow> split (lm_fmt meta) \<noteq> None \<and> count_fields (lm_fmt meta) = length args \<and> lm_types meta = map type_of_arg args
     \<and> (\<forall>a \<in> set args. arg_ok a) \<and> clip 0 args \<noteq> None"

text \<open>
  The states that threads and the logger thread reach, with the records accepted from each slot, the
  number refused, and the results of the drains so far.
\<close>

inductive log_reach :: "(nat \<Rightarrow> string) \<Rightarrow> (log_record list \<Rightarrow> log_record list) \<Rightarrow> (log_record \<Rightarrow> bool) \<Rightarrow>
    logger \<Rightarrow> u64 list \<Rightarrow> (nat \<Rightarrow> log_record list) \<Rightarrow> (nat \<Rightarrow> nat) \<Rightarrow> drained list \<Rightarrow> bool" for fp srt fails where
  log_begin: "log_reach fp srt fails logger_start (replicate N_SLOTS 0) (\<lambda>_. []) (\<lambda>_. 0) []"
| log_init: "log_reach fp srt fails s seen acc ref ds \<Longrightarrow> Suc (unat (lg_so_far s)) < 2 ^ 32 \<Longrightarrow>
    log_reach fp srt fails (log_thread_init ok t s) seen acc ref ds"
| log_printed: "log_reach fp srt fails s seen acc ref ds \<Longrightarrow> log_emit fp junk t tsc meta args s = Inr (Printed, s') \<Longrightarrow>
    log_reach fp srt fails s' seen acc ref ds"
| log_refused: "log_reach fp srt fails s seen acc ref ds \<Longrightarrow> log_emit fp junk t tsc meta args s = Inr (Refused, s') \<Longrightarrow> lg_slot s t = Some i \<Longrightarrow>
    log_reach fp srt fails s' seen acc (ref(i := Suc (ref i))) ds"
| log_queued: "log_reach fp srt fails s seen acc ref ds \<Longrightarrow> call_ok meta args \<Longrightarrow> length junk = PAYLOAD_BYTES \<Longrightarrow>
    log_emit fp junk t tsc meta args s = Inr (Queued r, s') \<Longrightarrow> lg_slot s t = Some i \<Longrightarrow>
    log_reach fp srt fails s' seen (acc(i := acc i @ [r])) ref ds"
| log_drained: "log_reach fp srt fails s seen acc ref ds \<Longrightarrow> drain_and_log fp srt fails seen s = Inr (d, seen', s') \<Longrightarrow>
    log_reach fp srt fails s' seen' acc ref (ds @ [d])"

definition pops_of :: "nat \<Rightarrow> drained \<Rightarrow> log_record list" where
  "pops_of i d = (if i < length (dr_pops d) then dr_pops d ! i else [])"

definition logged :: "nat \<Rightarrow> drained list \<Rightarrow> log_record list" where
  "logged i ds = concat (map (pops_of i) ds)"

definition rec_ok :: "(nat \<Rightarrow> string) \<Rightarrow> log_record \<Rightarrow> bool" where
  "rec_ok fp r \<longleftrightarrow> (\<exists>x. decode fp (lm_fmt (lr_meta r)) (lm_types (lr_meta r)) (lr_payload r) = Inr x)"

text \<open>What \<open>std::sort\<close> promises.\<close>

definition sorts :: "(log_record list \<Rightarrow> log_record list) \<Rightarrow> bool" where
  "sorts srt \<longleftrightarrow> (\<forall>rs. mset (srt rs) = mset rs \<and> sorted (map lr_tsc (srt rs)))"

definition log_inv :: "(nat \<Rightarrow> string) \<Rightarrow> logger \<Rightarrow> (nat \<Rightarrow> log_record list) \<Rightarrow> (nat \<Rightarrow> nat) \<Rightarrow> drained list \<Rightarrow> (nat \<Rightarrow> log_record list) \<Rightarrow> bool" where
  "log_inv fp s acc ref ds X \<longleftrightarrow> length (lg_slots s) = N_SLOTS
     \<and> (\<forall>i < N_SLOTS. slot_holds (lg_slots s ! i) (X i) \<and> acc i = logged i ds @ X i \<and> (\<forall>r \<in> set (X i). rec_ok fp r)
          \<and> sl_dropped (lg_slots s ! i) = word_of_nat (ref i) \<and> (sl_ring (lg_slots s ! i) \<noteq> None \<longrightarrow> i < unat (lg_so_far s)))
     \<and> (\<forall>t i. lg_slot s t = Some i \<longrightarrow> i < N_SLOTS \<and> sl_ring (lg_slots s ! i) \<noteq> None)
     \<and> (\<forall>t u i. lg_slot s t = Some i \<longrightarrow> lg_slot s u = Some i \<longrightarrow> t = u)"

lemma log_invD:
  assumes "log_inv fp s acc ref ds X"
  shows "length (lg_slots s) = N_SLOTS" "\<And>i. i < N_SLOTS \<Longrightarrow> slot_holds (lg_slots s ! i) (X i)"
    "\<And>i. i < N_SLOTS \<Longrightarrow> acc i = logged i ds @ X i" "\<And>i r. i < N_SLOTS \<Longrightarrow> r \<in> set (X i) \<Longrightarrow> rec_ok fp r"
    "\<And>i. i < N_SLOTS \<Longrightarrow> sl_dropped (lg_slots s ! i) = word_of_nat (ref i)"
    "\<And>i. i < N_SLOTS \<Longrightarrow> sl_ring (lg_slots s ! i) \<noteq> None \<Longrightarrow> i < unat (lg_so_far s)"
    "\<And>t i. lg_slot s t = Some i \<Longrightarrow> i < N_SLOTS \<and> sl_ring (lg_slots s ! i) \<noteq> None"
    "\<And>t u i. lg_slot s t = Some i \<Longrightarrow> lg_slot s u = Some i \<Longrightarrow> t = u"
  using assms unfolding log_inv_def by blast+

lemma log_inv_begin: "log_inv fp logger_start (\<lambda>_. []) (\<lambda>_. 0) [] (\<lambda>_. [])"
  by (auto simp: log_inv_def logger_start_def slot_holds_def logged_def)

lemma log_inv_init:
  assumes "log_inv fp s acc ref ds X" "Suc (unat (lg_so_far s)) < 2 ^ 32"
  shows "log_inv fp (log_thread_init ok t s) acc ref ds X"
proof -
  note i = log_invD [OF assms(1)]
  have inc: "unat (lg_so_far s + 1) = Suc (unat (lg_so_far s))" using assms(2) by (simp add: unat_word_ariths)
  let ?c = "unat (lg_so_far s)"
  consider "lg_slot s t \<noteq> None" | "lg_slot s t = None" "N_SLOTS \<le> ?c \<or> \<not> ok" | "lg_slot s t = None" "?c < N_SLOTS" ok by fastforce
  then show ?thesis
  proof cases
    case 1
    then show ?thesis using assms(1) by (simp add: log_thread_init_def)
  next
    case 2
    then have "\<exists>e. log_thread_init ok t s = s\<lparr>lg_so_far := lg_so_far s + 1, lg_stderr := e\<rparr>"
      by (cases "N_SLOTS \<le> ?c") (simp_all add: log_thread_init_def Let_def, blast+)
    then obtain e where "log_thread_init ok t s = s\<lparr>lg_so_far := lg_so_far s + 1, lg_stderr := e\<rparr>" ..
    then show ?thesis using assms(1) inc unfolding log_inv_def by auto
  next
    case 3
    let ?sl = "(lg_slots s ! ?c)\<lparr>sl_ring := Some (SPSCQueue LOG_RING_SIZE)\<rparr>"
    have e: "log_thread_init ok t s = s\<lparr>lg_so_far := lg_so_far s + 1, lg_slots := (lg_slots s)[?c := ?sl], lg_slot := (lg_slot s)(t \<mapsto> ?c)\<rparr>"
      using 3 by (simp add: log_thread_init_def Let_def)
    have free: "sl_ring (lg_slots s ! ?c) = None" using i(6) [OF 3(2)] by (metis less_irrefl)
    then have Xc: "X ?c = []" using i(2) [OF 3(2)] by (simp add: slot_holds_def)
    have "slot_holds ?sl (X ?c)" using Xc SPSCQueue_holds [OF LOG_RING_SIZE_power] by (simp add: slot_holds_def)
    moreover have "j \<noteq> ?c" if "lg_slot s u = Some j" for u j using i(7) [OF that] free by auto
    ultimately show ?thesis using i 3 inc unfolding log_inv_def e
      by (auto simp: nth_list_update split: if_splits) (use less_SucI in blast)+
  qed
qed

text \<open>A slot of the logger replaced by one with other contents.\<close>

lemma log_inv_slot:
  assumes "log_inv fp s acc ref ds X" "i < N_SLOTS" "slot_holds sl xs" "acc' i = logged i ds @ xs" "\<forall>r \<in> set xs. rec_ok fp r"
    "sl_dropped sl = word_of_nat (ref' i)" "sl_ring sl \<noteq> None" "sl_ring (lg_slots s ! i) \<noteq> None"
    "\<And>j. j \<noteq> i \<Longrightarrow> acc' j = acc j \<and> ref' j = ref j"
  shows "log_inv fp (s\<lparr>lg_slots := (lg_slots s)[i := sl]\<rparr>) acc' ref' ds (X(i := xs))"
proof -
  note v = log_invD [OF assms(1)]
  have "slot_holds ((lg_slots s)[i := sl] ! j) ((X(i := xs)) j) \<and> acc' j = logged j ds @ (X(i := xs)) j \<and> (\<forall>r \<in> set ((X(i := xs)) j). rec_ok fp r)
      \<and> sl_dropped ((lg_slots s)[i := sl] ! j) = word_of_nat (ref' j) \<and> (sl_ring ((lg_slots s)[i := sl] ! j) \<noteq> None \<longrightarrow> j < unat (lg_so_far s))"
    if "j < N_SLOTS" for j
    using v(2-6) [OF that] assms(2-9) v(1) v(6) [OF assms(2,8)] by (cases "j = i") auto
  moreover have "j < N_SLOTS \<and> sl_ring ((lg_slots s)[i := sl] ! j) \<noteq> None" if "lg_slot s u = Some j" for u j
    using v(7) [OF that] assms(7) v(1) by (cases "j = i") auto
  ultimately show ?thesis using v(1,8) unfolding log_inv_def by auto
qed

lemma log_emit_spec:
  assumes "log_inv fp s acc ref ds X" "lg_slot s t = Some i"
  shows "if Suc (length (X i)) < LOG_RING_SIZE
    then \<exists>sl. \<forall>v. slot_holds (sl v) (X i @ [v]) \<and> sl_ring (sl v) \<noteq> None \<and> sl_dropped (sl v) = sl_dropped (lg_slots s ! i)
      \<and> log_emit fp junk t tsc meta args s = bind_res (write_args args (junk, 0)) (\<lambda>(payload, off).
          let r = \<lparr>lr_meta = meta, lr_tsc = tsc, lr_payload = payload\<rparr> in Inr (Queued r, s\<lparr>lg_slots := (lg_slots s)[i := sl r]\<rparr>))
    else log_emit fp junk t tsc meta args s =
      Inr (Refused, s\<lparr>lg_slots := (lg_slots s)[i := (lg_slots s ! i)\<lparr>sl_dropped := sl_dropped (lg_slots s ! i) + 1\<rparr>]\<rparr>)"
proof -
  note v = log_invD [OF assms(1)]
  have i: "i < N_SLOTS" "sl_ring (lg_slots s ! i) \<noteq> None" using v(7) [OF assms(2)] by auto
  then obtain ring where r: "sl_ring (lg_slots s ! i) = Some ring" by blast
  then have h: "ring_holds LOG_RING_SIZE ring (X i)" using v(2) [OF i(1)] by (simp add: slot_holds_def)
  show ?thesis
  proof (cases "Suc (length (X i)) < LOG_RING_SIZE")
    case True
    obtain slot q' where t: "try_reserve (q_tail ring) ring = (Some slot, q')" "\<And>v. ring_holds LOG_RING_SIZE (commit (write_slot slot v q')) (X i @ [v])"
      using try_reserve_room [OF h True] by blast
    let ?sl = "\<lambda>v. (lg_slots s ! i)\<lparr>sl_ring := Some (commit (write_slot slot v q'))\<rparr>"
    have "log_emit fp junk t tsc meta args s = bind_res (write_args args (junk, 0)) (\<lambda>(payload, off).
          let r = \<lparr>lr_meta = meta, lr_tsc = tsc, lr_payload = payload\<rparr> in Inr (Queued r, s\<lparr>lg_slots := (lg_slots s)[i := ?sl r]\<rparr>))"
      using assms(2) r t(1) by (simp add: log_emit_def Let_def)
    with True t(2) show ?thesis by (intro if_P [THEN iffD2] exI [of _ ?sl]) (simp_all add: slot_holds_def)
  next
    case False
    then show ?thesis using try_reserve_full [OF h False] assms(2) r by (cases "lg_slots s ! i") (simp add: log_emit_def Let_def)
  qed
qed

lemma format_records_ok: "\<forall>r \<in> set rs. rec_ok fp r \<Longrightarrow> \<exists>out n. format_records fp fails rs = Inr (out, n)"
proof (induction rs)
  case (Cons r rs)
  obtain x where "decode fp (lm_fmt (lr_meta r)) (lm_types (lr_meta r)) (lr_payload r) = Inr x" using Cons.prems by (auto simp: rec_ok_def)
  moreover obtain out n where "format_records fp fails rs = Inr (out, n)" using Cons by auto
  ultimately show ?case by (cases "fails r") (simp_all add: Let_def)
qed simp

lemma drain_spec:
  assumes "log_inv fp s acc ref ds X" "sorts srt"
  shows "\<exists>d seen' s'. drain_and_log fp srt fails seen s = Inr (d, seen', s') \<and> log_inv fp s' acc ref (ds @ [d]) (\<lambda>_. [])
    \<and> dr_recs d = srt (concat (dr_pops d)) \<and> dr_any d = (dr_recs d \<noteq> [])"
proof -
  note v = log_invD [OF assms(1)]
  let ?n = "min (unat (lg_so_far s)) N_SLOTS"
  have hold: "\<forall>i < length (lg_slots s). slot_holds (lg_slots s ! i) (X i)" using v(1,2) by simp
  obtain out seen' slots where dr: "drain_slots [0..<?n] seen (lg_slots s) = Inr (map X [0..<?n], out, seen', slots)" "length slots = N_SLOTS"
    "\<forall>i < N_SLOTS. slot_holds (slots ! i) (if i \<in> set [0..<?n] then [] else X i)
        \<and> sl_dropped (slots ! i) = sl_dropped (lg_slots s ! i) \<and> (sl_ring (slots ! i) = None \<longleftrightarrow> sl_ring (lg_slots s ! i) = None)"
    using drain_slots_spec [OF hold, of "[0..<?n]" seen] v(1) by auto
  have X: "X i = []" if "i < N_SLOTS" "\<not> i < ?n" for i
  proof -
    have "sl_ring (lg_slots s ! i) = None" using v(6) [OF that(1)] that by (metis min_less_iff_conj)
    then show ?thesis using v(2) [OF that(1)] by (simp add: slot_holds_def)
  qed
  have ms: "mset (srt (concat (map X [0..<?n]))) = mset (concat (map X [0..<?n]))" using assms(2) by (simp add: sorts_def)
  have "\<forall>r \<in> set (srt (concat (map X [0..<?n]))). rec_ok fp r"
  proof
    fix r assume "r \<in> set (srt (concat (map X [0..<?n])))"
    then have "r \<in> set (concat (map X [0..<?n]))" using ms by (metis set_mset_mset)
    then obtain i where "i < ?n" "r \<in> set (X i)" by auto
    then show "rec_ok fp r" using v(4) [of i r] by simp
  qed
  then obtain ls n where f: "format_records fp fails (srt (concat (map X [0..<?n]))) = Inr (ls, n)" using format_records_ok by blast
  obtain d where d: "drain_and_log fp srt fails seen s = Inr (d, seen', s\<lparr>lg_slots := slots\<rparr>)" "dr_pops d = map X [0..<?n]"
    "dr_recs d = srt (concat (map X [0..<?n]))" "dr_any d = (dr_recs d \<noteq> [])"
    using dr(1) f by (simp add: drain_and_log_def Let_def)
  have "pops_of i d = X i" if "i < N_SLOTS" for i using X [OF that] d(2) by (cases "i < ?n") (simp_all add: pops_of_def)
  then have "acc i = logged i (ds @ [d]) @ []" if "i < N_SLOTS" for i using v(3) [OF that] that by (simp add: logged_def)
  moreover have "slot_holds (slots ! i) []" if "i < N_SLOTS" for i using dr(3) X [OF that] that by (cases "i < ?n") auto
  ultimately have "log_inv fp (s\<lparr>lg_slots := slots\<rparr>) acc ref (ds @ [d]) (\<lambda>_. [])"
    using v(5-8) dr(2,3) unfolding log_inv_def by auto
  with d show ?thesis by auto
qed

lemma queued_ok:
  assumes "call_ok meta args" "length junk = PAYLOAD_BYTES" "write_args args (junk, 0) = Inr (payload, e)"
  shows "rec_ok fp \<lparr>lr_meta = meta, lr_tsc = tsc, lr_payload = payload\<rparr>"
proof -
  obtain bs where "clip 0 args = Some bs" using assms(1) by (auto simp: call_ok_def)
  then show ?thesis using log_line_decodes [of junk args "lm_fmt meta" fp] assms by (auto simp: call_ok_def rec_ok_def)
qed

lemma log_reach_inv:
  assumes "log_reach fp srt fails s seen acc ref ds" "sorts srt"
  shows "\<exists>X. log_inv fp s acc ref ds X \<and> (\<forall>d \<in> set ds. dr_recs d = srt (concat (dr_pops d)))"
  using assms(1)
proof (induction rule: log_reach.induct)
  case log_begin
  then show ?case using log_inv_begin by auto
next
  case (log_init s seen acc ref ds ok t)
  then show ?case using log_inv_init by blast
next
  case (log_printed s seen acc ref ds junk t tsc meta args s')
  then obtain X where X: "log_inv fp s acc ref ds X" "\<forall>d \<in> set ds. dr_recs d = srt (concat (dr_pops d))" by blast
  have "lg_slot s t = None"
  proof (rule ccontr)
    assume "lg_slot s t \<noteq> None"
    then obtain i where i: "lg_slot s t = Some i" by blast
    show False using i log_printed.hyps(2)
      by (auto simp: log_emit_def Let_def bind_res_Inr_iff split: option.splits prod.splits)
  qed
  then obtain e where "s' = s\<lparr>lg_stderr := e\<rparr>" using log_printed.hyps(2) by (auto simp: log_emit_def)
  then have "log_inv fp s' acc ref ds X" using X(1) by (simp add: log_inv_def)
  with X(2) show ?case by blast
next
  case (log_refused s seen acc ref ds junk t tsc meta args s' i)
  then obtain X where X: "log_inv fp s acc ref ds X" "\<forall>d \<in> set ds. dr_recs d = srt (concat (dr_pops d))" by blast
  note v = log_invD [OF X(1)]
  have i: "i < N_SLOTS" "sl_ring (lg_slots s ! i) \<noteq> None" using v(7) [OF log_refused.hyps(3)] by auto
  let ?sl = "(lg_slots s ! i)\<lparr>sl_dropped := sl_dropped (lg_slots s ! i) + 1\<rparr>"
  have s': "s' = s\<lparr>lg_slots := (lg_slots s)[i := ?sl]\<rparr>"
  proof (cases "Suc (length (X i)) < LOG_RING_SIZE")
    case True
    then obtain sl where "log_emit fp junk t tsc meta args s = bind_res (write_args args (junk, 0)) (\<lambda>(payload, off).
          let r = \<lparr>lr_meta = meta, lr_tsc = tsc, lr_payload = payload\<rparr> in Inr (Queued r, s\<lparr>lg_slots := (lg_slots s)[i := sl r]\<rparr>))"
      using log_emit_spec [OF X(1) log_refused.hyps(3), of junk tsc meta args] by auto
    then show ?thesis using log_refused.hyps(2) by (cases "write_args args (junk, 0)") (auto simp: Let_def)
  next
    case False
    then show ?thesis using log_emit_spec [OF X(1) log_refused.hyps(3), of junk tsc meta args] log_refused.hyps(2) by simp
  qed
  have "log_inv fp s' acc (ref(i := Suc (ref i))) ds (X(i := X i))"
    unfolding s' by (rule log_inv_slot [OF X(1) i(1)]) (use v(2-5) [OF i(1)] i(2) in \<open>auto simp: slot_holds_def\<close>)
  with X(2) show ?case by blast
next
  case (log_queued s seen acc ref ds meta args junk t tsc r s' i)
  then obtain X where X: "log_inv fp s acc ref ds X" "\<forall>d \<in> set ds. dr_recs d = srt (concat (dr_pops d))" by blast
  note v = log_invD [OF X(1)]
  have i: "i < N_SLOTS" "sl_ring (lg_slots s ! i) \<noteq> None" using v(7) [OF log_queued.hyps(5)] by auto
  have room: "Suc (length (X i)) < LOG_RING_SIZE"
    using log_emit_spec [OF X(1) log_queued.hyps(5), of junk tsc meta args] log_queued.hyps(4) by (auto split: if_splits)
  then obtain sl where sl: "\<And>v. slot_holds (sl v) (X i @ [v])" "\<And>v. sl_ring (sl v) \<noteq> None" "\<And>v. sl_dropped (sl v) = sl_dropped (lg_slots s ! i)"
    "log_emit fp junk t tsc meta args s = bind_res (write_args args (junk, 0)) (\<lambda>(payload, off).
          let r = \<lparr>lr_meta = meta, lr_tsc = tsc, lr_payload = payload\<rparr> in Inr (Queued r, s\<lparr>lg_slots := (lg_slots s)[i := sl r]\<rparr>))"
    using log_emit_spec [OF X(1) log_queued.hyps(5), of junk tsc meta args] by auto
  then obtain payload e where w: "write_args args (junk, 0) = Inr (payload, e)" "r = \<lparr>lr_meta = meta, lr_tsc = tsc, lr_payload = payload\<rparr>"
    "s' = s\<lparr>lg_slots := (lg_slots s)[i := sl r]\<rparr>" using log_queued.hyps(4)
    by (cases "write_args args (junk, 0)") (auto simp: Let_def)
  have "rec_ok fp r" using queued_ok [OF log_queued.hyps(2,3) w(1)] w(2) by simp
  then have "log_inv fp s' (acc(i := acc i @ [r])) ref ds (X(i := X i @ [r]))"
    unfolding w(3) by (intro log_inv_slot [OF X(1) i(1) sl(1)]) (use v(3-5) [OF i(1)] i(2) sl(2,3) in auto)
  with X(2) show ?case by blast
next
  case (log_drained s seen acc ref ds d seen' s')
  then obtain X where X: "log_inv fp s acc ref ds X" "\<forall>d \<in> set ds. dr_recs d = srt (concat (dr_pops d))" by blast
  from drain_spec [OF X(1) assms(2), of fails seen] log_drained.hyps(2) X(2) show ?case by auto
qed

text \<open>
  C24. Nothing accepted is lost or logged twice: however threads and the logger thread interleave, the
  records accepted from a slot are those drained from it so far, in order, followed by what is
  still in its ring; what a drain formats is a permutation of what it popped, sorted by time
  stamp; the next drain returns and leaves the rings empty, so the last one logs everything;
  what was refused is counted; and no two threads write to the same ring.
\<close>

theorem log_nothing_lost:
  assumes "sorts srt" "log_reach fp srt fails s seen acc ref ds"
  shows "(\<forall>i < N_SLOTS. \<exists>xs. acc i = logged i ds @ xs \<and> length xs < LOG_RING_SIZE \<and> sl_dropped (lg_slots s ! i) = word_of_nat (ref i))
    \<and> (\<forall>d \<in> set ds. mset (dr_recs d) = mset (concat (dr_pops d)) \<and> sorted (map lr_tsc (dr_recs d)))
    \<and> (\<exists>d seen' s'. drain_and_log fp srt fails seen s = Inr (d, seen', s') \<and> (\<forall>i < N_SLOTS. acc i = logged i (ds @ [d])))
    \<and> (\<forall>t u i. lg_slot s t = Some i \<longrightarrow> lg_slot s u = Some i \<longrightarrow> t = u)"
proof -
  obtain X where X: "log_inv fp s acc ref ds X" "\<forall>d \<in> set ds. dr_recs d = srt (concat (dr_pops d))" using log_reach_inv [OF assms(2,1)] by blast
  note v = log_invD [OF X(1)]
  have "\<exists>xs. acc i = logged i ds @ xs \<and> length xs < LOG_RING_SIZE \<and> sl_dropped (lg_slots s ! i) = word_of_nat (ref i)" if "i < N_SLOTS" for i
    using v(2,3,5) [OF that] slot_holds_less by blast
  moreover have "mset (dr_recs d) = mset (concat (dr_pops d)) \<and> sorted (map lr_tsc (dr_recs d))" if "d \<in> set ds" for d
    using X(2) that assms(1) by (simp add: sorts_def)
  moreover obtain d seen' s' where d: "drain_and_log fp srt fails seen s = Inr (d, seen', s')" "log_inv fp s' acc ref (ds @ [d]) (\<lambda>_. [])"
    using drain_spec [OF X(1) assms(1)] by blast
  moreover have "acc i = logged i (ds @ [d])" if "i < N_SLOTS" for i using log_invD(3) [OF d(2) that] by simp
  ultimately show ?thesis using v(8) by blast
qed

subsection \<open>Writing the text\<close>

lemma write_loop_total:
  assumes "\<And>k. \<exists>j \<ge> k. (\<exists>n > 0. ans j = Wrote n) \<or> ans j = Write_Failed"
  shows "\<exists>out. write_loop ans k buf off = Some out \<and> (\<exists>m. out = take m buf) \<and> ((\<forall>j. ans j \<noteq> Write_Failed) \<longrightarrow> out = buf)"
proof (induction "length buf - off" arbitrary: k off rule: less_induct)
  case less
  show ?case
  proof (cases "off < length buf")
    case False
    then show ?thesis by (subst write_loop.simps) (auto intro: exI [of _ "length buf"])
  next
    case lt: True
    obtain j where j: "j \<ge> k" "(\<exists>n > 0. ans j = Wrote n) \<or> ans j = Write_Failed" using assms by blast
    have "\<exists>out. write_loop ans i buf off = Some out \<and> (\<exists>m. out = take m buf) \<and> ((\<forall>j. ans j \<noteq> Write_Failed) \<longrightarrow> out = buf)" if "i \<le> j" for i
      using that
    proof (induction "j - i" arbitrary: i)
      case 0
      then have "i = j" by simp
      then show ?case
      proof (cases "ans j")
        case (Wrote n)
        then have "0 < n" using j(2) by auto
        then have "length buf - (off + n) < length buf - off" using lt by simp
        from less [OF this, of "Suc j"] show ?thesis using Wrote \<open>i = j\<close> lt by (subst write_loop.simps) simp
      next
        case Write_Failed
        then show ?thesis using \<open>i = j\<close> lt by (subst write_loop.simps) auto
      qed (use j in auto)
    next
      case (Suc d)
      then have IH: "\<exists>out. write_loop ans (Suc i) buf off = Some out \<and> (\<exists>m. out = take m buf) \<and> ((\<forall>j. ans j \<noteq> Write_Failed) \<longrightarrow> out = buf)" by auto
      show ?case
      proof (cases "ans i")
        case (Wrote n)
        show ?thesis
        proof (cases "n = 0")
          case True
          then show ?thesis using IH Wrote lt by (subst write_loop.simps) simp
        next
          case False
          then have "length buf - (off + n) < length buf - off" using lt by simp
          from less [OF this, of "Suc i"] show ?thesis using Wrote lt by (subst write_loop.simps) simp
        qed
      next
        case Interrupted
        then show ?thesis using IH lt by (subst write_loop.simps) simp
      next
        case Write_Failed
        then show ?thesis using lt by (subst write_loop.simps) auto
      qed
    qed
    then show ?thesis using j(1) by blast
  qed
qed

text \<open>
  The text reaches the output whole unless a write fails, and then a prefix of it does; the loop
  ends if writes go on making progress.
\<close>

lemma write_all_total:
  assumes "\<And>k. \<exists>j \<ge> k. (\<exists>n > 0. ans j = Wrote n) \<or> ans j = Write_Failed"
  shows "\<exists>out. write_all ans buf = Some out \<and> (\<exists>m. out = take m buf) \<and> ((\<forall>j. ans j \<noteq> Write_Failed) \<longrightarrow> out = buf)"
  using write_loop_total [OF assms] by (simp add: write_all_def)

subsection \<open>Where the lines go\<close>

text \<open>
  \<open>out_fd\<close> and the descriptors the process holds; \<open>fd\<close> is the answer of \<open>open\<close>, negative if it failed.
\<close>

definition STDERR_FILENO :: int where "STDERR_FILENO = 2"

record log_output =
  out_fd :: int
  out_open :: "int set"

definition open_output :: "int \<Rightarrow> log_output \<Rightarrow> bool \<times> log_output" where
  "open_output fd w =
     (if fd < 0 then (False, w)
      else
        let old = out_fd w; w = w\<lparr>out_fd := fd, out_open := insert fd (out_open w)\<rparr> in
        (True, if old \<noteq> STDERR_FILENO then w\<lparr>out_open := out_open w - {old}\<rparr> else w))"

definition close_output :: "log_output \<Rightarrow> log_output" where
  "close_output w =
     (let old = out_fd w; w = w\<lparr>out_fd := STDERR_FILENO\<rparr> in
      if old \<noteq> STDERR_FILENO then w\<lparr>out_open := out_open w - {old}\<rparr> else w)"

text \<open>
  Whatever was opened and closed before, the descriptors the program held anyway stay open, the
  current output is open, and at most one more than these is: none is leaked.
\<close>

definition output_inv :: "int set \<Rightarrow> log_output \<Rightarrow> bool" where
  "output_inv others w \<longleftrightarrow> STDERR_FILENO \<in> others
     \<and> (out_fd w = STDERR_FILENO \<and> out_open w = others \<or> out_fd w \<notin> others \<and> out_open w = insert (out_fd w) others)"

lemma output_inv_open:
  assumes "output_inv others w" "0 \<le> fd \<longrightarrow> fd \<notin> out_open w"
  shows "output_inv others (snd (open_output fd w)) \<and> (fst (open_output fd w) \<longleftrightarrow> 0 \<le> fd)
    \<and> out_fd (snd (open_output fd w)) = (if 0 \<le> fd then fd else out_fd w)"
proof (cases "fd < 0")
  case True
  then show ?thesis using assms by (simp add: open_output_def)
next
  case False
  then have fd: "fd \<notin> out_open w" using assms(2) by simp
  from assms(1) have "STDERR_FILENO \<in> others" by (simp add: output_inv_def)
  from assms(1) consider "out_fd w = STDERR_FILENO" "out_open w = others" | "out_fd w \<notin> others" "out_open w = insert (out_fd w) others"
    unfolding output_inv_def by blast
  then show ?thesis
  proof cases
    case 1
    then show ?thesis using False fd assms(1) by (simp add: output_inv_def open_output_def Let_def)
  next
    case 2
    then have "out_fd w \<noteq> STDERR_FILENO" "fd \<notin> others" "fd \<noteq> out_fd w"
      using fd \<open>STDERR_FILENO \<in> others\<close> by (metis, metis insertI2, metis insertI1)
    then have "insert fd (out_open w) - {out_fd w} = insert fd others" using 2 by blast
    then show ?thesis using False \<open>out_fd w \<noteq> STDERR_FILENO\<close> \<open>fd \<notin> others\<close> \<open>STDERR_FILENO \<in> others\<close> by (simp add: output_inv_def open_output_def Let_def)
  qed
qed

lemma output_inv_close:
  assumes "output_inv others w"
  shows "output_inv others (close_output w) \<and> out_open (close_output w) = others"
proof (cases "out_fd w = STDERR_FILENO")
  case True
  then have "out_open w = others" "STDERR_FILENO \<in> others" using assms unfolding output_inv_def by metis+
  then show ?thesis using True by (simp add: output_inv_def close_output_def Let_def)
next
  case False
  then have "STDERR_FILENO \<in> others" "out_fd w \<notin> others" "out_open w = insert (out_fd w) others"
    using assms unfolding output_inv_def by metis+
  then have "out_open w - {out_fd w} = others" by (metis Diff_insert_absorb)
  then show ?thesis using False \<open>STDERR_FILENO \<in> others\<close> by (simp add: output_inv_def close_output_def Let_def)
qed

subsection \<open>Properties and examples\<close>

text \<open>
  C30. A log record says what was logged. The arguments of a call are written into the 240 bytes
  of a record and decoded from them as the format string with each field replaced by its argument, where
  strings are cut to the space left at their place; if an argument finds no space the bytes
  behind the record are overwritten.
\<close>

theorem log_line_roundtrip:
  assumes "length junk = PAYLOAD_BYTES" "\<forall>a \<in> set as. arg_ok a" "split fmt \<noteq> None" "count_fields fmt = length as"
  shows "case clip 0 as of None \<Rightarrow> write_args as (junk, 0) = Inl Bad_Access
    | Some bs \<Rightarrow> \<exists>payload e. write_args as (junk, 0) = Inr (payload, e) \<and> length payload = PAYLOAD_BYTES
        \<and> decode fp fmt (map type_of_arg as) payload = Inr (fill_fields fmt (map (format_arg fp) bs))"
  using log_line_decodes [OF assms] .

theorem log_line_roundtrip_witness:
  "\<exists>payload e. write_args [A_string ''eth0'', A_signed 4 (-7)] (replicate 240 CHR ''x'', 0) = Inr (payload, e)
    \<and> decode (\<lambda>_. []) ''if {} core {}!'' [T_string, T_signed 4] payload = Inr ''if eth0 core -7!''"
proof -
  have d: "dec_string 7 = ''7''" by code_simp
  have "clip 0 [A_string ''eth0'', A_signed 4 (-7)] = Some [A_string ''eth0'', A_signed 4 (-7)]" by simp
  then show ?thesis
    using log_line_roundtrip [of "replicate 240 CHR ''x''" "[A_string ''eth0'', A_signed 4 (-7)]" "''if {} core {}!''" "\<lambda>_. []"] d
    by (simp add: split_def int_string_def) blast
qed

text \<open>A thread that claims a slot and logs one line, which is then drained.\<close>

definition sample_meta :: log_meta where
  "sample_meta = \<lparr>lm_fmt = ''hello'', lm_file = ''a.cpp'', lm_line = 3, lm_level = INFO, lm_types = []\<rparr>"

lemma sample_log_reach:
  "\<exists>s r. log_reach fp (sort_key lr_tsc) (\<lambda>_. False) s (replicate N_SLOTS 0) ((\<lambda>_. [])(0 := [r])) (\<lambda>_. 0) [] \<and> lr_meta r = sample_meta"
proof -
  let ?s = "log_thread_init True 5 logger_start" and ?junk = "replicate 240 CHR ''x''"
  have reach: "log_reach fp (sort_key lr_tsc) (\<lambda>_. False) ?s (replicate N_SLOTS 0) (\<lambda>_. []) (\<lambda>_. 0) []"
    by (rule log_init [OF log_begin]) (simp add: logger_start_def)
  have slot: "lg_slot ?s 5 = Some 0" by (simp add: log_thread_init_def logger_start_def N_SLOTS_def)
  have inv: "log_inv fp ?s (\<lambda>_. []) (\<lambda>_. 0) [] (\<lambda>_. [])" by (rule log_inv_init [OF log_inv_begin]) (simp add: logger_start_def)
  have "Suc (length ((\<lambda>_. []) (0 :: nat) :: log_record list)) < LOG_RING_SIZE" by (simp add: LOG_RING_SIZE_def)
  then obtain s' where e: "log_emit fp ?junk 5 9 sample_meta [] ?s = Inr (Queued \<lparr>lr_meta = sample_meta, lr_tsc = 9, lr_payload = ?junk\<rparr>, s')"
    using log_emit_spec [OF inv slot, of ?junk 9 sample_meta "[]"] by (auto simp: Let_def)
  have "call_ok sample_meta []" by (simp add: call_ok_def sample_meta_def split_def)
  from log_queued [OF reach this _ e slot] show ?thesis by force
qed

lemma sort_key_sorts: "sorts (sort_key lr_tsc)"
  by (simp add: sorts_def)

theorem log_nothing_lost_witness:
  "\<exists>s r seen' s' d. log_reach (\<lambda>_. []) (sort_key lr_tsc) (\<lambda>_. False) s (replicate N_SLOTS 0) ((\<lambda>_. [])(0 := [r])) (\<lambda>_. 0) []
    \<and> lr_meta r = sample_meta \<and> drain_and_log (\<lambda>_. []) (sort_key lr_tsc) (\<lambda>_. False) (replicate N_SLOTS 0) s = Inr (d, seen', s')
    \<and> logged 0 [d] = [r]"
proof -
  obtain s r where s: "log_reach (\<lambda>_. []) (sort_key lr_tsc) (\<lambda>_. False) s (replicate N_SLOTS 0) ((\<lambda>_. [])(0 := [r])) (\<lambda>_. 0) []" "lr_meta r = sample_meta"
    using sample_log_reach by blast
  have "0 < N_SLOTS" by (simp add: N_SLOTS_def)
  moreover obtain d seen' s' where d: "drain_and_log (\<lambda>_. []) (sort_key lr_tsc) (\<lambda>_. False) (replicate N_SLOTS 0) s = Inr (d, seen', s')"
    "\<forall>i < N_SLOTS. ((\<lambda>_. [])(0 := [r])) i = logged i ([] @ [d])"
    using log_nothing_lost [OF sort_key_sorts s(1)] by blast
  ultimately have "logged 0 [d] = [r]" by fastforce
  with s d show ?thesis by blast
qed

end
