(* ===== verification/Pooled_Source.thy ===== *)
theory Pooled_Source
  imports Object_Pool File_Source "HOL-Library.Multiset" "HOL-Library.Sublist"
begin

section \<open>Sources of pooled buffers\<close>

text \<open>
  What \<open>McastUDPSource\<close> and \<open>TcpSource\<close> share: objects of bytes with a size in an \<open>ObjectPool\<close>, which resets
  the size of what is given back, and the owning handle (\<open>Buffer\<close>, \<open>PoolEntry\<close>) a client gets. A handle is the
  address it owns, null once moved from. The contract of such a transport is a locale; a
  client that takes and drops buffers in any order is proved once in it.
\<close>

record dgram =
  dg_buf :: "byte list"
  dg_sz :: nat

definition dg_reset :: "ptr \<Rightarrow> (ptr \<Rightarrow> dgram) \<Rightarrow> ptr \<Rightarrow> dgram" where
  "dg_reset d h = h(d := (h d)\<lparr>dg_sz := 0\<rparr>)"

definition buffer_destroy :: "obj_pool \<Rightarrow> (ptr \<Rightarrow> dgram) \<Rightarrow> ptr \<Rightarrow> ((ptr \<Rightarrow> dgram) \<times> obj_pool) res" where
  "buffer_destroy pool h dgram = (if dgram \<noteq> nullptr then op_restore dg_reset pool h dgram else Inr (h, pool))"

text \<open>The new handle and the one moved from; the two handles after an assignment.\<close>

definition buffer_move :: "ptr \<Rightarrow> ptr \<times> ptr" where
  "buffer_move other = (other, nullptr)"

definition buffer_assign :: "ptr \<Rightarrow> ptr \<Rightarrow> ptr \<times> ptr" where
  "buffer_assign this rhs = (rhs, this)"

definition buffer_bytes :: "(ptr \<Rightarrow> dgram) \<Rightarrow> ptr \<Rightarrow> byte list res" where
  "buffer_bytes h dgram =
     (if dgram = nullptr \<or> length (dg_buf (h dgram)) < dg_sz (h dgram) then Inl Bad_Access
      else Inr (take (dg_sz (h dgram)) (dg_buf (h dgram))))"

lemma buffer_bytes_cong: "h b = h' b \<Longrightarrow> buffer_bytes h b = buffer_bytes h' b"
  by (simp add: buffer_bytes_def)

text \<open>However handles are moved and assigned, what they own together stays the same.\<close>

lemma buffer_move_owns: "{#fst (buffer_move b), snd (buffer_move b)#} = {#b, nullptr#}"
  by (simp add: buffer_move_def)

lemma buffer_assign_owns: "{#fst (buffer_assign a b), snd (buffer_assign a b)#} = {#a, b#}"
  by (simp add: buffer_assign_def add_mset_commute)

lemma pool_ok_give:
  assumes "pool_ok used p" "a \<in> used"
  shows "\<exists>p'. op_restore reset p h a = Inr (reset a h, p') \<and> pool_ok (used - {a}) p'
    \<and> op_stack p' = a # op_stack p \<and> op_capacity p' = op_capacity p"
proof -
  obtain p' where p': "op_restore NoReset p h a = Inr (h, p')" "pool_ok (used - {a}) p'" "op_stack p' = a # op_stack p" "op_capacity p' = op_capacity p"
    using pool_ok_restore [OF assms, of h] by blast
  have "a \<noteq> nullptr" using assms by (auto simp: pool_ok_def)
  then have "op_restore reset p h a = Inr (reset a h, p')" using p'(1) by (auto simp: op_restore_def NoReset_def split: if_splits)
  with p' show ?thesis by blast
qed

lemma pool_ok_start:
  assumes "storage \<noteq> nullptr" "0 < sz"
  shows "pool_ok {} (ObjectPool storage sz n)"
  using ObjectPool_spec [of storage sz n] distinct_chunk [OF assms(2)] assms(1) length_op_stack [of "ObjectPool storage sz n"]
  by (auto simp: pool_ok_def set_chunk ObjectPool_def)

text \<open>No object is owned twice.\<close>

definition once :: "'a multiset \<Rightarrow> bool" where
  "once M \<longleftrightarrow> (\<forall>a. count M a \<le> 1)"

lemma once_empty [simp]: "once {#}"
  by (simp add: once_def)

lemma once_add_mset: "once (add_mset a M) \<longleftrightarrow> a \<notin># M \<and> once M"
proof
  assume once: "once (add_mset a M)"
  have le: "count (add_mset a M) b \<le> 1" for b using once unfolding once_def by blast
  have "count M b \<le> count (add_mset a M) b" for b by simp
  then have "count M b \<le> 1" for b using le [of b] by (rule order_trans)
  moreover have "count M a = 0" using le [of a] by simp
  ultimately show "a \<notin># M \<and> once M" by (simp add: once_def not_in_iff)
next
  assume "a \<notin># M \<and> once M"
  then show "once (add_mset a M)" by (simp add: once_def not_in_iff)
qed

lemma once_mset: "once (mset xs) \<longleftrightarrow> distinct xs"
  by (induction xs) (simp_all add: once_add_mset)

lemma once_add: "once (M + N) \<longleftrightarrow> once M \<and> once N \<and> set_mset M \<inter> set_mset N = {}"
  by (induction M) (auto simp: once_add_mset)

lemma once_size: "once M \<Longrightarrow> card (set_mset M) = size M"
  by (induction M) (simp_all add: once_add_mset)

subsection \<open>The contract of a transport\<close>

text \<open>
  A client of a transport: it takes the next buffer and reads it, or drops the \<open>i\<close>-th buffer it holds. The state
  of a run is the source, the buffers held with the bytes they had when they were taken, and all bytes taken.
\<close>

datatype client_op = Take_Next | Drop_Buffer nat

type_synonym 's client = "'s \<times> (ptr \<times> byte list) list \<times> byte list list"

fun client_step :: "('s \<Rightarrow> ((transport_status + ptr) \<times> 's) res) \<Rightarrow> (ptr \<Rightarrow> 's \<Rightarrow> 's res) \<Rightarrow> ('s \<Rightarrow> ptr \<Rightarrow> byte list res)
    \<Rightarrow> client_op \<Rightarrow> 's client \<Rightarrow> 's client res" where
  "client_step nxt release bytes Take_Next (s, held, got) =
     bind_res (nxt s) (\<lambda>(r, s). case r of
        Inl e \<Rightarrow> Inr (s, held, got)
      | Inr b \<Rightarrow> bind_res (bytes s b) (\<lambda>bs. Inr (s, held @ [(b, bs)], got @ [bs])))"
| "client_step nxt release bytes (Drop_Buffer i) (s, held, got) =
     (if i < length held then bind_res (release (fst (held ! i)) s) (\<lambda>s. Inr (s, take i held @ drop (Suc i) held, got))
      else Inr (s, held, got))"

fun client_run :: "('s \<Rightarrow> ((transport_status + ptr) \<times> 's) res) \<Rightarrow> (ptr \<Rightarrow> 's \<Rightarrow> 's res) \<Rightarrow> ('s \<Rightarrow> ptr \<Rightarrow> byte list res)
    \<Rightarrow> client_op list \<Rightarrow> 's client \<Rightarrow> 's client res" where
  "client_run nxt release bytes [] c = Inr c"
| "client_run nxt release bytes (oper # ops) c = bind_res (client_step nxt release bytes oper c) (client_run nxt release bytes ops)"

text \<open>The loop of a feed: it reads one buffer at a time and drops it before it asks for the next.\<close>

fun feed_inputs :: "('s \<Rightarrow> ((transport_status + ptr) \<times> 's) res) \<Rightarrow> (ptr \<Rightarrow> 's \<Rightarrow> 's res) \<Rightarrow> ('s \<Rightarrow> ptr \<Rightarrow> byte list res)
    \<Rightarrow> nat \<Rightarrow> 's \<Rightarrow> ((transport_status + byte list) list \<times> 's) res" where
  "feed_inputs nxt release bytes 0 s = Inr ([], s)"
| "feed_inputs nxt release bytes (Suc n) s =
     bind_res (nxt s) (\<lambda>(r, s). case r of
        Inl e \<Rightarrow> bind_res (feed_inputs nxt release bytes n s) (\<lambda>(rs, s). Inr (Inl e # rs, s))
      | Inr b \<Rightarrow> bind_res (bytes s b) (\<lambda>bs. bind_res (release b s) (\<lambda>s.
          bind_res (feed_inputs nxt release bytes n s) (\<lambda>(rs, s). Inr (Inr bs # rs, s)))))"

fun oks :: "('e + 'a) list \<Rightarrow> 'a list" where
  "oks [] = []"
| "oks (Inl e # rs) = oks rs"
| "oks (Inr a # rs) = a # oks rs"

lemma set_oks: "set (oks rs) = {a. Inr a \<in> set rs}"
  by (induction rs rule: oks.induct) auto

lemma mset_take_drop: "i < length xs \<Longrightarrow> mset xs = add_mset (xs ! i) (mset (take i xs @ drop (Suc i) xs))"
  by (subst id_take_nth_drop [of i xs]) simp_all

lemma feed_inputs_keep:
  assumes "\<And>s r s'. nxt s = Inr (r, s') \<Longrightarrow> Q s \<Longrightarrow> Q s'" "\<And>b s s'. release b s = Inr s' \<Longrightarrow> Q s \<Longrightarrow> Q s'"
    "feed_inputs nxt release bytes n s = Inr (rs, s')" "Q s"
  shows "Q s'"
  using assms(3,4)
proof (induction n arbitrary: s rs)
  case (Suc n)
  obtain r s1 where r: "nxt s = Inr (r, s1)" using Suc.prems(1) by (cases "nxt s") auto
  have Q: "Q s1" using assms(1) [OF r Suc.prems(2)] .
  show ?case
  proof (cases r)
    case (Inl e)
    then obtain rs1 where "feed_inputs nxt release bytes n s1 = Inr (rs1, s')"
      using Suc.prems(1) r by (auto simp: bind_res_Inr_iff)
    then show ?thesis using Suc.IH Q by blast
  next
    case (Inr b)
    then obtain s2 rs1 where "release b s1 = Inr s2" "feed_inputs nxt release bytes n s2 = Inr (rs1, s')"
      using Suc.prems(1) r by (auto simp: bind_res_Inr_iff)
    then show ?thesis using Suc.IH assms(2) Q by blast
  qed
qed simp

locale pooled_transport =
  fixes nxt :: "'s \<Rightarrow> ((transport_status + ptr) \<times> 's) res"
    and release :: "ptr \<Rightarrow> 's \<Rightarrow> 's res"
    and bytes :: "'s \<Rightarrow> ptr \<Rightarrow> byte list res"
    and inv :: "'s \<Rightarrow> (ptr \<times> byte list) multiset \<Rightarrow> byte list list \<Rightarrow> bool"
    and arrived :: "'s \<Rightarrow> byte list list"
  assumes next_ok: "inv s H got \<Longrightarrow> \<exists>r s'. nxt s = Inr (r, s') \<and>
      (case r of Inl e \<Rightarrow> inv s' H got | Inr b \<Rightarrow> \<exists>bs. bytes s' b = Inr bs \<and> inv s' (add_mset (b, bs) H) (got @ [bs]))"
    and release_ok: "inv s (add_mset (b, bs) H) got \<Longrightarrow> \<exists>s'. release b s = Inr s' \<and> inv s' H got"
    and held_bytes: "inv s H got \<Longrightarrow> (b, bs) \<in># H \<Longrightarrow> bytes s b = Inr bs"
    and held_once: "inv s (mset held) got \<Longrightarrow> distinct (map fst held)"
    and got_arrived: "inv s H got \<Longrightarrow> prefix got (arrived s)"
begin

lemma client_step_ok:
  assumes "inv s (mset held) got"
  shows "\<exists>s' held' got'. client_step nxt release bytes oper (s, held, got) = Inr (s', held', got') \<and> inv s' (mset held') got'"
proof (cases oper)
  case Take_Next
  obtain r s' where r: "nxt s = Inr (r, s')"
    "case r of Inl e \<Rightarrow> inv s' (mset held) got | Inr b \<Rightarrow> \<exists>bs. bytes s' b = Inr bs \<and> inv s' (add_mset (b, bs) (mset held)) (got @ [bs])"
    using next_ok [OF assms] by blast
  show ?thesis
  proof (cases r)
    case (Inl e)
    then show ?thesis using r Take_Next by simp
  next
    case (Inr b)
    then obtain bs where "bytes s' b = Inr bs" "inv s' (add_mset (b, bs) (mset held)) (got @ [bs])" using r(2) by auto
    then show ?thesis using r(1) Inr Take_Next by simp
  qed
next
  case (Drop_Buffer i)
  show ?thesis
  proof (cases "i < length held")
    case True
    then have "mset held = add_mset (fst (held ! i), snd (held ! i)) (mset (take i held @ drop (Suc i) held))"
      using mset_take_drop [OF True] by simp
    then obtain s' where "release (fst (held ! i)) s = Inr s'" "inv s' (mset (take i held @ drop (Suc i) held)) got"
      using release_ok assms by metis
    then show ?thesis using True Drop_Buffer by simp
  qed (use assms Drop_Buffer in simp)
qed

lemma client_run_ok:
  assumes "inv s (mset held) got"
  shows "\<exists>s' held' got'. client_run nxt release bytes ops (s, held, got) = Inr (s', held', got') \<and> inv s' (mset held') got'"
  using assms
proof (induction ops arbitrary: s held got)
  case (Cons oper ops)
  obtain s1 held1 got1 where "client_step nxt release bytes oper (s, held, got) = Inr (s1, held1, got1)" "inv s1 (mset held1) got1"
    using client_step_ok [OF Cons.prems] by blast
  then show ?case using Cons.IH by simp
qed auto

lemma feed_inputs_ok:
  assumes "inv s {#} got"
  shows "\<exists>rs s'. feed_inputs nxt release bytes n s = Inr (rs, s') \<and> length rs = n \<and> inv s' {#} (got @ oks rs)"
  using assms
proof (induction n arbitrary: s got)
  case (Suc n)
  obtain r s1 where r: "nxt s = Inr (r, s1)"
    "case r of Inl e \<Rightarrow> inv s1 {#} got | Inr b \<Rightarrow> \<exists>bs. bytes s1 b = Inr bs \<and> inv s1 (add_mset (b, bs) {#}) (got @ [bs])"
    using next_ok [OF Suc.prems] by blast
  show ?case
  proof (cases r)
    case (Inl e)
    then obtain rs s' where "feed_inputs nxt release bytes n s1 = Inr (rs, s')" "length rs = n" "inv s' {#} (got @ oks rs)"
      using Suc.IH [of s1 got] r(2) by auto
    then show ?thesis using r(1) Inl by simp
  next
    case (Inr b)
    then obtain bs where bs: "bytes s1 b = Inr bs" "inv s1 (add_mset (b, bs) {#}) (got @ [bs])" using r(2) by auto
    then obtain s2 where s2: "release b s1 = Inr s2" "inv s2 {#} (got @ [bs])" using release_ok by blast
    obtain rs s' where "feed_inputs nxt release bytes n s2 = Inr (rs, s')" "length rs = n" "inv s' {#} ((got @ [bs]) @ oks rs)"
      using Suc.IH [OF s2(2)] by blast
    then show ?thesis using r(1) Inr bs(1) s2(1) by simp
  qed
qed auto

end

end
