(* ===== verification/System_Calls.thy ===== *)
theory System_Calls
  imports Std_Text "HOL-Library.Multiset"
begin

section \<open>System wrappers (src/common/sys.hpp)\<close>

text \<open>
  A constructor that talks to the system is a function of its answers: the \<open>i\<close>-th call gets
  the \<open>i\<close>-th answer, a return code and \<open>errno\<close>. It yields the calls made so far and a value or an exception.
\<close>

datatype errno = EAGAIN | EINTR | Errno nat

text \<open>On Linux \<open>EWOULDBLOCK\<close> is the same number as \<open>EAGAIN\<close>.\<close>

abbreviation EWOULDBLOCK :: errno where
  "EWOULDBLOCK \<equiv> EAGAIN"


datatype syscall = Sys_socket | Sys_setsockopt string int | Sys_getsockopt string | Sys_bind u32 u16 | Sys_connect u32 u16
  | Sys_membership u32 u32 | Sys_dup int | Sys_ring_init | Sys_close int
  | Sys_mmap bool nat | Sys_munmap nat | Sys_if_nametoindex string | Sys_umem_create nat | Sys_umem_delete
  | Sys_xsk_create string int | Sys_xsk_delete | Sys_skel_open | Sys_skel_load u16 | Sys_skel_destroy
  | Sys_xskmap_update | Sys_xdp_attach int string | Sys_xdp_detach int string

datatype exn = System_Error nat string | Runtime_Error string

type_synonym answers = "nat \<Rightarrow> int \<times> nat"

type_synonym 'a sys = "syscall list \<Rightarrow> (exn + 'a) \<times> syscall list"

definition sys_call :: "answers \<Rightarrow> syscall \<Rightarrow> (int \<times> nat) sys" where
  "sys_call ans c calls = (Inr (ans (length calls)), calls @ [c])"

definition sys_throw :: "exn \<Rightarrow> 'a sys" where
  "sys_throw e calls = (Inl e, calls)"

definition sys_return :: "'a \<Rightarrow> 'a sys" where
  "sys_return a calls = (Inr a, calls)"

definition sys_bind :: "'a sys \<Rightarrow> ('a \<Rightarrow> 'b sys) \<Rightarrow> 'b sys" where
  "sys_bind f g calls = (case f calls of (Inl e, calls) \<Rightarrow> (Inl e, calls) | (Inr a, calls) \<Rightarrow> g a calls)"

definition check :: "int \<times> nat \<Rightarrow> string \<Rightarrow> int sys" where
  "check r what = (if fst r < 0 then sys_throw (System_Error (snd r) what) else sys_return (fst r))"

definition check_neg :: "int \<times> nat \<Rightarrow> string \<Rightarrow> int sys" where
  "check_neg r what = (if fst r < 0 then sys_throw (System_Error (nat (- fst r)) what) else sys_return (fst r))"

text \<open>\<open>check(call, what)\<close>.\<close>

definition checked :: "answers \<Rightarrow> syscall \<Rightarrow> string \<Rightarrow> int sys" where
  "checked ans c what = sys_bind (sys_call ans c) (\<lambda>r. check r what)"

text \<open>A descriptor wrapper is the descriptor it owns, or a negative number.\<close>

definition FdWrapper_destroy :: "int \<Rightarrow> syscall list \<Rightarrow> syscall list" where
  "FdWrapper_destroy fd calls = (if fd \<ge> 0 then calls @ [Sys_close fd] else calls)"

definition FdWrapper_move :: "int \<Rightarrow> int \<times> int" where
  "FdWrapper_move other = (other, -1)"

definition FdWrapper_swap :: "int \<Rightarrow> int \<Rightarrow> int \<times> int" where
  "FdWrapper_swap this rhs = (rhs, this)"

definition FdWrapper_assign :: "int \<Rightarrow> int \<Rightarrow> syscall list \<Rightarrow> int \<times> syscall list" where
  "FdWrapper_assign this fd calls = (fd, if this \<ge> 0 then calls @ [Sys_close this] else calls)"

definition FdWrapper_release :: "int \<Rightarrow> int \<times> int" where
  "FdWrapper_release fd = (fd, -1)"

text \<open>
  A constructor whose first member is a wrapper of a new socket: if the rest throws, the
  destructor of the member runs.
\<close>

definition with_socket :: "answers \<Rightarrow> (int \<times> nat \<Rightarrow> 'a sys) \<Rightarrow> 'a sys" where
  "with_socket ans body = sys_bind (sys_call ans Sys_socket) (\<lambda>r calls.
     case body r calls of (Inl e, calls) \<Rightarrow> (Inl e, FdWrapper_destroy (fst r) calls) | ok \<Rightarrow> ok)"

subsection \<open>What a constructor leaves open\<close>

fun closes :: "syscall list \<Rightarrow> int list" where
  "closes [] = []"
| "closes (Sys_close fd # calls) = fd # closes calls"
| "closes (_ # calls) = closes calls"

lemma closes_append [simp]: "closes (xs @ ys) = closes xs @ closes ys"
  by (induction xs rule: closes.induct) simp_all

text \<open>The descriptors the system handed out in answer to the calls from the \<open>i\<close>-th on.\<close>

fun obtained :: "answers \<Rightarrow> nat \<Rightarrow> syscall list \<Rightarrow> int list" where
  "obtained ans i [] = []"
| "obtained ans i (c # calls) =
     (case c of Sys_socket \<Rightarrow> if 0 \<le> fst (ans i) then [fst (ans i)] else []
      | Sys_dup _ \<Rightarrow> if 0 \<le> fst (ans i) then [fst (ans i)] else [] | _ \<Rightarrow> []) @ obtained ans (Suc i) calls"

definition leaks_nothing :: "answers \<Rightarrow> (exn + int list) \<times> syscall list \<Rightarrow> bool" where
  "leaks_nothing ans r = (case r of
       (Inl e, calls) \<Rightarrow> mset (closes calls) = mset (obtained ans 0 calls)
     | (Inr fds, calls) \<Rightarrow> closes calls = [] \<and> fds = obtained ans 0 calls)"

lemmas run_sys = sys_bind_def sys_call_def sys_throw_def sys_return_def checked_def check_def check_neg_def with_socket_def FdWrapper_destroy_def

text \<open>A value that was returned went through every check.\<close>

lemma sys_bind_Inr: "sys_bind f g calls = (Inr b, calls') \<longleftrightarrow> (\<exists>a mid. f calls = (Inr a, mid) \<and> g a mid = (Inr b, calls'))"
  by (auto simp: sys_bind_def split: prod.splits sum.splits)

lemma checked_Inr: "checked ans c what calls = (Inr a, calls') \<longleftrightarrow> calls' = calls @ [c] \<and> a = fst (ans (length calls)) \<and> 0 \<le> a"
  by (auto simp: checked_def sys_bind_def sys_call_def check_def sys_throw_def sys_return_def)

lemma check_Inr: "check r what calls = (Inr a, calls') \<longleftrightarrow> calls' = calls \<and> a = fst r \<and> 0 \<le> a"
  by (auto simp: check_def sys_throw_def sys_return_def)

lemma with_socket_Inr: "with_socket ans body [] = (Inr a, calls) \<longleftrightarrow> body (ans 0) [Sys_socket] = (Inr a, calls)"
  by (auto simp: with_socket_def sys_bind_def sys_call_def split: prod.splits sum.splits)

end
