(* ===== verification/Mcast_Source.thy ===== *)
theory Mcast_Source
  imports Pooled_Source System_Calls Mold_Framer
begin

section \<open>Multicast UDP source (src/transport/mcast\_udp\_source.hpp)\<close>

text \<open>
  Datagrams are received in batches into objects of a pool and handed out one at a time. The kernel is
  a script of answers, one per call of \<open>recvmmsg\<close>: datagrams, of which the call takes at most
  as many as it has vectors, each cut to the length of its vector, or an error. The
  kernel keeps a log of what it delivered.
\<close>

definition MSG_BUF_SZ :: nat where "MSG_BUF_SZ = 2048"
definition VLEN :: nat where "VLEN = 128"
definition POOL_SIZE :: nat where "POOL_SIZE = 4 * VLEN"
definition SIZEOF_Datagram :: nat where "SIZEOF_Datagram = MSG_BUF_SZ + 8"

datatype recv_answer = Received "byte list list" | Recv_Failed errno

record udp_kernel =
  uk_script :: "nat \<Rightarrow> recv_answer"
  uk_calls :: nat
  uk_log :: "byte list list"

definition recvmmsg :: "nat \<Rightarrow> udp_kernel \<Rightarrow> recv_answer \<times> udp_kernel" where
  "recvmmsg vlen kn =
     (case uk_script kn (uk_calls kn) of
        Recv_Failed e \<Rightarrow> (Recv_Failed e, kn\<lparr>uk_calls := Suc (uk_calls kn)\<rparr>)
      | Received ds \<Rightarrow> let ds = map (take MSG_BUF_SZ) (take vlen ds) in
          (Received ds, kn\<lparr>uk_calls := Suc (uk_calls kn), uk_log := uk_log kn @ ds\<rparr>))"

record mcast =
  mc_received :: nat
  mc_next :: nat
  mc_iovecs :: "(ptr \<times> nat) list"
  mc_msg_len :: "nat list"
  mc_batch :: "ptr list"
  mc_pool :: obj_pool
  mc_mem :: "ptr \<Rightarrow> dgram"

text \<open>What the kernel writes: each datagram to the address of its vector, and its length.\<close>

fun kernel_writes :: "byte list list \<Rightarrow> nat \<Rightarrow> mcast \<Rightarrow> mcast" where
  "kernel_writes [] i m = m"
| "kernel_writes (d # ds) i m =
     (let a = fst (mc_iovecs m ! i); buf = dg_buf (mc_mem m a) in
      kernel_writes ds (Suc i)
        (m\<lparr>mc_mem := (mc_mem m)(a := (mc_mem m a)\<lparr>dg_buf := d @ drop (length d) buf\<rparr>),
           mc_msg_len := (mc_msg_len m)[i := length d]\<rparr>))"

text \<open>The loop of \<open>refill_\<close> from index \<open>k\<close> on, \<open>n\<close> places before the end of the arrays.\<close>

fun mc_refill_loop :: "nat \<Rightarrow> nat \<Rightarrow> mcast \<Rightarrow> (nat \<times> mcast) res" where
  "mc_refill_loop 0 k m = Inr (k, m)"
| "mc_refill_loop (Suc n) k m =
     bind_res (op_get (mc_pool m)) (\<lambda>(d, pool).
       let m = m\<lparr>mc_pool := pool\<rparr> in
       if d = nullptr then Inr (k, m)
       else mc_refill_loop n (Suc k) (m\<lparr>mc_batch := (mc_batch m)[k := d], mc_iovecs := (mc_iovecs m)[k := (d, MSG_BUF_SZ)]\<rparr>))"

definition mc_refill :: "mcast \<Rightarrow> (nat option \<times> mcast) res" where
  "mc_refill m = bind_res (mc_refill_loop VLEN 0 m) (\<lambda>(k, m). Inr (if k = 0 then None else Some k, m))"

fun release_list :: "nat list \<Rightarrow> mcast \<Rightarrow> mcast res" where
  "release_list [] m = Inr m"
| "release_list (j # js) m =
     (if j < length (mc_batch m)
      then bind_res (op_restore dg_reset (mc_pool m) (mc_mem m) (mc_batch m ! j)) (\<lambda>(mem, pool).
        release_list js (m\<lparr>mc_mem := mem, mc_pool := pool\<rparr>))
      else Inl Bad_Access)"

definition release_range :: "nat \<Rightarrow> nat \<Rightarrow> mcast \<Rightarrow> mcast res" where
  "release_range from to m = release_list [from..<to] m"

definition mc_serve :: "mcast \<Rightarrow> (ptr \<times> mcast) res" where
  "mc_serve m =
     (if mc_next m < length (mc_batch m) then
        let d = mc_batch m ! mc_next m;
            m = m\<lparr>mc_mem := (mc_mem m)(d := (mc_mem m d)\<lparr>dg_sz := mc_msg_len m ! mc_next m\<rparr>), mc_next := Suc (mc_next m)\<rparr> in
        Inr (d, m)
      else Inl Bad_Access)"

text \<open>
  The members after the constructor; \<open>storage\<close> is where the pool's objects are, \<open>junk\<close> what uninitialised memory holds.
\<close>

definition McastUDPSource :: "ptr \<Rightarrow> (ptr \<Rightarrow> dgram) \<Rightarrow> (ptr \<times> nat) list \<times> ptr list \<Rightarrow> mcast" where
  "McastUDPSource storage mem junk =
     \<lparr>mc_received = 0, mc_next = 0, mc_iovecs = fst junk, mc_msg_len = replicate VLEN 0, mc_batch = snd junk,
      mc_pool = ObjectPool storage SIZEOF_Datagram POOL_SIZE, mc_mem = mem\<rparr>"

definition mcast_next :: "mcast \<times> udp_kernel \<Rightarrow> ((transport_status + ptr) \<times> mcast \<times> udp_kernel) res" where
  "mcast_next s =
     (case s of (m, kn) \<Rightarrow>
      if mc_next m < mc_received m then bind_res (mc_serve m) (\<lambda>(b, m). Inr (Inr b, m, kn))
      else bind_res (mc_refill m) (\<lambda>(claimed, m).
        case claimed of
          None \<Rightarrow> Inr (Inl WouldBlock, m, kn)
        | Some k \<Rightarrow>
            (case recvmmsg k kn of
               (Recv_Failed e, kn) \<Rightarrow> bind_res (release_range 0 k m) (\<lambda>m.
                 Inr (Inl (if e \<in> {EAGAIN, EWOULDBLOCK, EINTR} then WouldBlock else TransportStatus_Error), m, kn))
             | (Received ds, kn) \<Rightarrow>
                 let nrecv = length ds; m = kernel_writes ds 0 m in
                 if nrecv = 0 then bind_res (release_range 0 k m) (\<lambda>m. Inr (Inl WouldBlock, m, kn))
                 else bind_res (release_range nrecv k m) (\<lambda>m.
                   bind_res (mc_serve (m\<lparr>mc_received := nrecv, mc_next := 0\<rparr>)) (\<lambda>(b, m). Inr (Inr b, m, kn))))))"

definition mcast_release :: "ptr \<Rightarrow> mcast \<times> udp_kernel \<Rightarrow> (mcast \<times> udp_kernel) res" where
  "mcast_release b s =
     (case s of (m, kn) \<Rightarrow> bind_res (buffer_destroy (mc_pool m) (mc_mem m) b) (\<lambda>(mem, pool). Inr (m\<lparr>mc_mem := mem, mc_pool := pool\<rparr>, kn)))"

definition mcast_bytes :: "mcast \<times> udp_kernel \<Rightarrow> ptr \<Rightarrow> byte list res" where
  "mcast_bytes s b = buffer_bytes (mc_mem (fst s)) b"

subsection \<open>Invariant\<close>

text \<open>The objects received and not yet served, in order.\<close>

definition mc_queue :: "mcast \<Rightarrow> ptr list" where
  "mc_queue m = drop (mc_next m) (take (mc_received m) (mc_batch m))"

text \<open>
  The source between calls, with the objects \<open>used\<close> outside the pool and the datagrams waiting to be served.
\<close>

definition mc_shape :: "mcast \<Rightarrow> bool" where
  "mc_shape m \<longleftrightarrow> length (mc_batch m) = VLEN \<and> length (mc_iovecs m) = VLEN \<and> length (mc_msg_len m) = VLEN
     \<and> mc_next m \<le> mc_received m \<and> mc_received m \<le> VLEN"

definition mc_waits :: "mcast \<Rightarrow> byte list list \<Rightarrow> bool" where
  "mc_waits m P \<longleftrightarrow> drop (mc_next m) (take (mc_received m) (mc_msg_len m)) = map length P
     \<and> list_all2 (\<lambda>a p. take (length p) (dg_buf (mc_mem m a)) = p) (mc_queue m) P"

definition mc_sized :: "ptr set \<Rightarrow> mcast \<Rightarrow> bool" where
  "mc_sized used m \<longleftrightarrow> pool_ok used (mc_pool m) \<and> op_capacity (mc_pool m) = POOL_SIZE
     \<and> (\<forall>a \<in> used \<union> set (op_stack (mc_pool m)). length (dg_buf (mc_mem m a)) = MSG_BUF_SZ)"

text \<open>What clients hold and what waits to be served.\<close>

definition mc_owned :: "(ptr \<times> byte list) multiset \<Rightarrow> mcast \<Rightarrow> ptr multiset" where
  "mc_owned H m = image_mset fst H + mset (mc_queue m)"

definition mcast_inv :: "mcast \<times> udp_kernel \<Rightarrow> (ptr \<times> byte list) multiset \<Rightarrow> byte list list \<Rightarrow> bool" where
  "mcast_inv s H got \<longleftrightarrow>
     (case s of (m, kn) \<Rightarrow> mc_shape m \<and> once (mc_owned H m) \<and> mc_sized (set_mset (mc_owned H m)) m
      \<and> (\<forall>x \<in># H. buffer_bytes (mc_mem m) (fst x) = Inr (snd x))
      \<and> (\<exists>P. mc_waits m P \<and> uk_log kn = got @ P))"

subsection \<open>The loops\<close>

lemma mc_refill_loop_ok:
  assumes "pool_ok used (mc_pool m)" "k + n \<le> length (mc_batch m)" "length (mc_iovecs m) = length (mc_batch m)"
  shows "\<exists>ds m'. mc_refill_loop n k m = Inr (k + length ds, m') \<and> length ds \<le> n \<and> distinct ds \<and> set ds \<inter> used = {}
    \<and> take (k + length ds) (mc_batch m') = take k (mc_batch m) @ ds
    \<and> take (k + length ds) (map fst (mc_iovecs m')) = take k (map fst (mc_iovecs m)) @ ds
    \<and> pool_ok (used \<union> set ds) (mc_pool m') \<and> op_capacity (mc_pool m') = op_capacity (mc_pool m)
    \<and> set ds \<union> set (op_stack (mc_pool m')) = set (op_stack (mc_pool m))
    \<and> (\<exists>batch iovecs pool. m' = m\<lparr>mc_batch := batch, mc_iovecs := iovecs, mc_pool := pool\<rparr>
         \<and> length batch = length (mc_batch m) \<and> length iovecs = length (mc_iovecs m))"
  using assms
proof (induction n arbitrary: k m used)
  case 0
  show ?case
    by (rule exI [of _ "[]"], rule exI [of _ m]) (use 0 in \<open>auto intro!: exI [of _ "mc_batch m"] exI [of _ "mc_iovecs m"] exI [of _ "mc_pool m"]\<close>)
next
  case (Suc n)
  obtain a p where a: "op_get (mc_pool m) = Inr (a, p)" "pool_ok (if a = nullptr then used else insert a used) p" "a \<notin> used"
    "op_stack (mc_pool m) = (if a = nullptr then [] else a # op_stack p)" "op_capacity p = op_capacity (mc_pool m)" "a = nullptr \<longrightarrow> p = mc_pool m"
    using pool_ok_get [OF Suc.prems(1)] by blast
  show ?case
  proof (cases "a = nullptr")
    case True
    show ?thesis
      by (rule exI [of _ "[]"], rule exI [of _ "m\<lparr>mc_pool := p\<rparr>"])
        (use True a Suc.prems in \<open>auto intro!: exI [of _ "mc_batch m"] exI [of _ "mc_iovecs m"] exI [of _ p]\<close>)
  next
    case False
    let ?m = "m\<lparr>mc_pool := p, mc_batch := (mc_batch m)[k := a], mc_iovecs := (mc_iovecs m)[k := (a, MSG_BUF_SZ)]\<rparr>"
    have pre: "pool_ok (insert a used) (mc_pool ?m)" "Suc k + n \<le> length (mc_batch ?m)" "length (mc_iovecs ?m) = length (mc_batch ?m)"
      using a(2) False Suc.prems by simp_all
    from Suc.IH [OF pre] obtain ds m' batch iovecs pool where ds: "mc_refill_loop n (Suc k) ?m = Inr (Suc k + length ds, m')" "length ds \<le> n" "distinct ds"
      "set ds \<inter> insert a used = {}" "take (Suc k + length ds) (mc_batch m') = take (Suc k) (mc_batch ?m) @ ds"
      "take (Suc k + length ds) (map fst (mc_iovecs m')) = take (Suc k) (map fst (mc_iovecs ?m)) @ ds"
      "pool_ok (insert a used \<union> set ds) (mc_pool m')" "op_capacity (mc_pool m') = op_capacity (mc_pool ?m)"
      "set ds \<union> set (op_stack (mc_pool m')) = set (op_stack (mc_pool ?m))"
      "m' = ?m\<lparr>mc_batch := batch, mc_iovecs := iovecs, mc_pool := pool\<rparr>" "length batch = length (mc_batch ?m)" "length iovecs = length (mc_iovecs ?m)"
      by (elim exE conjE) (rule that)
    have "k < length (mc_batch m)" "k < length (mc_iovecs m)" using Suc.prems by simp_all
    then have "take (Suc k) (mc_batch ?m) = take k (mc_batch m) @ [a]" "take (Suc k) (map fst (mc_iovecs ?m)) = take k (map fst (mc_iovecs m)) @ [a]"
      by (simp_all add: take_Suc_conv_app_nth map_update)
    moreover have "\<exists>batch iovecs pool. m' = m\<lparr>mc_batch := batch, mc_iovecs := iovecs, mc_pool := pool\<rparr>
         \<and> length batch = length (mc_batch m) \<and> length iovecs = length (mc_iovecs m)"
      by (rule exI [of _ batch], rule exI [of _ iovecs], rule exI [of _ pool]) (use ds(10-12) in simp)
    ultimately show ?thesis using ds(1-9) a False
      by - (rule exI [of _ "a # ds"], rule exI [of _ m'], intro conjI, auto)
  qed
qed

lemma release_list_ok:
  assumes "mc_sized used m" "distinct (map ((!) (mc_batch m)) js)" "set (map ((!) (mc_batch m)) js) \<subseteq> used"
    "\<forall>j \<in> set js. j < length (mc_batch m)"
  shows "\<exists>mem pool. release_list js m = Inr (m\<lparr>mc_mem := mem, mc_pool := pool\<rparr>)
    \<and> mc_sized (used - set (map ((!) (mc_batch m)) js)) (m\<lparr>mc_mem := mem, mc_pool := pool\<rparr>)
    \<and> (\<forall>a. dg_buf (mem a) = dg_buf (mc_mem m a)) \<and> (\<forall>a. a \<notin> set (map ((!) (mc_batch m)) js) \<longrightarrow> mem a = mc_mem m a)"
  using assms
proof (induction js arbitrary: m used)
  case Nil
  show ?case by (rule exI [of _ "mc_mem m"], rule exI [of _ "mc_pool m"]) (use Nil in simp)
next
  case (Cons j js)
  let ?a = "mc_batch m ! j"
  have pool: "pool_ok used (mc_pool m)" and a: "?a \<in> used" "j < length (mc_batch m)" using Cons.prems by (simp_all add: mc_sized_def)
  obtain p where p: "op_restore dg_reset (mc_pool m) (mc_mem m) ?a = Inr (dg_reset ?a (mc_mem m), p)" "pool_ok (used - {?a}) p"
    "op_stack p = ?a # op_stack (mc_pool m)" "op_capacity p = op_capacity (mc_pool m)"
    using pool_ok_give [OF pool a(1), of dg_reset "mc_mem m"] by blast
  let ?m = "m\<lparr>mc_mem := dg_reset ?a (mc_mem m), mc_pool := p\<rparr>"
  have pre: "mc_sized (used - {?a}) ?m"
    using Cons.prems(1) p(2-4) a(1) by (auto simp: mc_sized_def dg_reset_def)
  have pre': "distinct (map ((!) (mc_batch ?m)) js)" "set (map ((!) (mc_batch ?m)) js) \<subseteq> used - {?a}" "\<forall>j \<in> set js. j < length (mc_batch ?m)"
    using Cons.prems(2-4) by (fastforce simp: image_iff)+
  from Cons.IH [OF pre pre'] obtain mem pool where r: "release_list js ?m = Inr (?m\<lparr>mc_mem := mem, mc_pool := pool\<rparr>)"
    "mc_sized (used - {?a} - set (map ((!) (mc_batch ?m)) js)) (?m\<lparr>mc_mem := mem, mc_pool := pool\<rparr>)"
    "\<forall>a. dg_buf (mem a) = dg_buf (mc_mem ?m a)" "\<forall>a. a \<notin> set (map ((!) (mc_batch ?m)) js) \<longrightarrow> mem a = mc_mem ?m a"
    by (elim exE conjE) (rule that)
  have "used - {?a} - set (map ((!) (mc_batch ?m)) js) = used - set (map ((!) (mc_batch m)) (j # js))" by auto
  moreover have "release_list (j # js) m = release_list js ?m" using a(2) p(1) by simp
  ultimately show ?case using r(1,2) r(3,4) by (intro exI [of _ mem] exI [of _ pool] conjI) (simp_all add: dg_reset_def)
qed

lemma kernel_writes_ok:
  assumes "i + length ds \<le> length (mc_iovecs m)" "length (mc_msg_len m) = length (mc_iovecs m)"
    "as = take (length ds) (drop i (map fst (mc_iovecs m)))" "distinct as"
  shows "\<exists>mem ml. kernel_writes ds i m = m\<lparr>mc_mem := mem, mc_msg_len := ml\<rparr> \<and> length ml = length (mc_msg_len m)
    \<and> take (i + length ds) ml = take i (mc_msg_len m) @ map length ds
    \<and> list_all2 (\<lambda>a p. take (length p) (dg_buf (mem a)) = p) as ds \<and> (\<forall>a. a \<notin> set as \<longrightarrow> mem a = mc_mem m a)
    \<and> (\<forall>a. (\<forall>d \<in> set ds. length d \<le> MSG_BUF_SZ) \<longrightarrow> length (dg_buf (mc_mem m a)) = MSG_BUF_SZ \<longrightarrow> length (dg_buf (mem a)) = MSG_BUF_SZ)"
  using assms
proof (induction ds arbitrary: i m as)
  case Nil
  show ?case by (rule exI [of _ "mc_mem m"], rule exI [of _ "mc_msg_len m"]) (use Nil in simp)
next
  case (Cons d ds)
  let ?a = "fst (mc_iovecs m ! i)"
  let ?m = "m\<lparr>mc_mem := (mc_mem m)(?a := (mc_mem m ?a)\<lparr>dg_buf := d @ drop (length d) (dg_buf (mc_mem m ?a))\<rparr>),
           mc_msg_len := (mc_msg_len m)[i := length d]\<rparr>"
  let ?as = "take (length ds) (drop (Suc i) (map fst (mc_iovecs m)))"
  have i: "i < length (mc_iovecs m)" "i < length (mc_msg_len m)" using Cons.prems by simp_all
  then have "drop i (map fst (mc_iovecs m)) = ?a # drop (Suc i) (map fst (mc_iovecs m))"
    by (metis Cons_nth_drop_Suc length_map nth_map)
  then have as: "as = ?a # ?as" using Cons.prems(3) by simp
  have pre: "Suc i + length ds \<le> length (mc_iovecs ?m)" "length (mc_msg_len ?m) = length (mc_iovecs ?m)"
    "?as = take (length ds) (drop (Suc i) (map fst (mc_iovecs ?m)))"
    using Cons.prems by simp_all
  have dist: "distinct ?as" using Cons.prems(4) as by (metis distinct.simps(2))
  from Cons.IH [OF pre dist] obtain mem ml where r: "kernel_writes ds (Suc i) ?m = ?m\<lparr>mc_mem := mem, mc_msg_len := ml\<rparr>" "length ml = length (mc_msg_len ?m)"
    "take (Suc i + length ds) ml = take (Suc i) (mc_msg_len ?m) @ map length ds"
    "list_all2 (\<lambda>a p. take (length p) (dg_buf (mem a)) = p) ?as ds" "\<forall>a. a \<notin> set ?as \<longrightarrow> mem a = mc_mem ?m a"
    "\<forall>a. (\<forall>d \<in> set ds. length d \<le> MSG_BUF_SZ) \<longrightarrow> length (dg_buf (mc_mem ?m a)) = MSG_BUF_SZ \<longrightarrow> length (dg_buf (mem a)) = MSG_BUF_SZ"
    by (elim exE conjE) (rule that)
  have "?a \<notin> set ?as" using Cons.prems(4) as by (metis distinct.simps(2))
  then have "dg_buf (mem ?a) = d @ drop (length d) (dg_buf (mc_mem m ?a))" using r(5) by simp
  then have "list_all2 (\<lambda>a p. take (length p) (dg_buf (mem a)) = p) as (d # ds)" using r(4) as by simp
  moreover have "take (i + length (d # ds)) ml = take i (mc_msg_len m) @ map length (d # ds)"
    using r(3) i(2) by (simp add: take_Suc_conv_app_nth)
  moreover have "mem a = mc_mem m a" if "a \<notin> set as" for a using r(5) that as by simp
  moreover have "length (dg_buf (mem a)) = MSG_BUF_SZ"
    if "\<forall>d \<in> set (d # ds). length d \<le> MSG_BUF_SZ" "length (dg_buf (mc_mem m a)) = MSG_BUF_SZ" for a
  proof -
    have "length (dg_buf (mc_mem ?m a)) = MSG_BUF_SZ" using that by (cases "a = ?a") simp_all
    then show ?thesis using r(6) that(1) by simp
  qed
  moreover have "kernel_writes (d # ds) i m = m\<lparr>mc_mem := mem, mc_msg_len := ml\<rparr>" using r(1) by (simp add: Let_def)
  ultimately show ?case using r(2) by - (rule exI [of _ mem], rule exI [of _ ml], simp)
qed

lemma waits_queue: "mc_waits m P \<Longrightarrow> length (mc_queue m) = length P"
  by (auto simp: mc_waits_def dest: list_all2_lengthD)

lemma mc_serve_ok:
  assumes "mc_shape m" "mc_waits m (p # P)" "mc_sized used m" "set (mc_queue m) \<subseteq> used"
  shows "\<exists>a m'. mc_serve m = Inr (a, m') \<and> mc_queue m = a # mc_queue m' \<and> mc_shape m' \<and> mc_waits m' P \<and> mc_sized used m'
    \<and> buffer_bytes (mc_mem m') a = Inr p \<and> (\<forall>b. b \<noteq> a \<longrightarrow> mc_mem m' b = mc_mem m b) \<and> mc_pool m' = mc_pool m"
proof -
  let ?n = "mc_next m" and ?r = "mc_received m"
  let ?a = "mc_batch m ! ?n"
  let ?m = "m\<lparr>mc_mem := (mc_mem m)(?a := (mc_mem m ?a)\<lparr>dg_sz := mc_msg_len m ! ?n\<rparr>), mc_next := Suc ?n\<rparr>"
  have "?n < ?r" using waits_queue [OF assms(2)] assms(1) by (auto simp: mc_queue_def mc_shape_def)
  then have n: "?n < length (mc_batch m)" "?n < length (mc_msg_len m)" using assms(1) by (simp_all add: mc_shape_def)
  have Q: "mc_queue ?m = drop (Suc ?n) (take ?r (mc_batch m))" by (simp add: mc_queue_def)
  from n have q: "mc_queue m = ?a # mc_queue ?m" "drop ?n (take ?r (mc_msg_len m)) = mc_msg_len m ! ?n # drop (Suc ?n) (take ?r (mc_msg_len m))"
    using \<open>?n < ?r\<close> unfolding Q by (simp_all add: mc_queue_def Cons_nth_drop_Suc [symmetric])
  then have w: "mc_msg_len m ! ?n = length p" "drop (Suc ?n) (take ?r (mc_msg_len m)) = map length P" "take (length p) (dg_buf (mc_mem m ?a)) = p"
    "list_all2 (\<lambda>a p. take (length p) (dg_buf (mc_mem m a)) = p) (drop (Suc ?n) (take ?r (mc_batch m))) P"
    using assms(2) unfolding mc_waits_def Q by simp_all
  have buf: "dg_buf (mc_mem ?m b) = dg_buf (mc_mem m b)" for b by simp
  have "mc_waits ?m P" unfolding mc_waits_def buf Q using w by simp
  moreover have "mc_sized used ?m" using assms(3) unfolding mc_sized_def buf by simp
  moreover have "?a \<in> used" using assms(4) q(1) by (metis list.set_intros(1) subsetD)
  then have "?a \<noteq> nullptr" using assms(3) by (auto simp: mc_sized_def pool_ok_def)
  moreover have "length p \<le> length (dg_buf (mc_mem m ?a))" using w(3) by (metis length_take min.cobounded1)
  ultimately show ?thesis using n(1) q(1) w(1,3) assms(1) \<open>?n < ?r\<close>
    by (intro exI [of _ ?a] exI [of _ ?m] conjI) (simp_all add: mc_serve_def mc_shape_def buffer_bytes_def Let_def)
qed

lemma mcast_invD:
  assumes "mcast_inv (m, kn) H got"
  shows "mc_shape m" "once (mc_owned H m)" "mc_sized (set_mset (mc_owned H m)) m"
    "\<And>x. x \<in># H \<Longrightarrow> buffer_bytes (mc_mem m) (fst x) = Inr (snd x)" "\<exists>P. mc_waits m P \<and> uk_log kn = got @ P"
  using assms by (auto simp: mcast_inv_def)

lemma mcast_served:
  assumes "mc_shape m" "once (mc_owned H m)" "mc_sized (set_mset (mc_owned H m)) m"
    "\<And>x. x \<in># H \<Longrightarrow> buffer_bytes (mc_mem m) (fst x) = Inr (snd x)" "mc_waits m P" "uk_log kn = got @ P" "P \<noteq> []"
  shows "\<exists>a bs m'. mc_serve m = Inr (a, m') \<and> mcast_bytes (m', kn) a = Inr bs \<and> mcast_inv (m', kn) (add_mset (a, bs) H) (got @ [bs])"
proof -
  obtain p P' where P: "P = p # P'" using assms(7) by (cases P) auto
  have "set (mc_queue m) \<subseteq> set_mset (mc_owned H m)" by (simp add: mc_owned_def)
  from mc_serve_ok [OF assms(1) assms(5) [unfolded P] assms(3) this]
  obtain a m' where a: "mc_serve m = Inr (a, m')" "mc_queue m = a # mc_queue m'" "mc_shape m'" "mc_waits m' P'" "mc_sized (set_mset (mc_owned H m)) m'"
    "buffer_bytes (mc_mem m') a = Inr p" "\<forall>b. b \<noteq> a \<longrightarrow> mc_mem m' b = mc_mem m b" by blast
  have own: "mc_owned (add_mset (a, p) H) m' = mc_owned H m" by (simp add: mc_owned_def a(2))
  have "buffer_bytes (mc_mem m') (fst x) = Inr (snd x)" if "x \<in># H" for x
  proof -
    have "fst x \<noteq> a" using assms(2) that by (auto simp: mc_owned_def a(2) once_add once_add_mset)
    then have "mc_mem m' (fst x) = mc_mem m (fst x)" using a(7) by blast
    from buffer_bytes_cong [of "mc_mem m'" "fst x" "mc_mem m", OF this] show ?thesis using assms(4) [OF that] by simp
  qed
  then have "mcast_inv (m', kn) (add_mset (a, p) H) (got @ [p])"
    unfolding mcast_inv_def using a(3-6) assms(2,6) by (auto simp: own P)
  then show ?thesis using a(1,6) by (auto simp: mcast_bytes_def)
qed

lemma mcast_inv_idle:
  assumes "mc_shape m" "mc_received m \<le> mc_next m" "once (image_mset fst H)" "mc_sized (fst ` set_mset H) m"
    "\<And>x. x \<in># H \<Longrightarrow> buffer_bytes (mc_mem m) (fst x) = Inr (snd x)" "uk_log kn = got"
  shows "mcast_inv (m, kn) H got"
proof -
  have "mc_queue m = []" using assms(2) by (simp add: mc_queue_def)
  moreover from this have "mc_waits m []" using assms(2) by (simp add: mc_waits_def)
  ultimately show ?thesis using assms by (auto simp: mcast_inv_def mc_owned_def)
qed

lemma map_nth_range: "k \<le> length xs \<Longrightarrow> map ((!) xs) [i..<k] = drop i (take k xs)"
  by (rule nth_equalityI) simp_all

text \<open>The objects a batch claims, and the release of those no datagram came for.\<close>

lemma mc_claim:
  assumes "mc_shape m" "mc_sized U m"
  shows "\<exists>ds m'. mc_refill m = Inr (if ds = [] then None else Some (length ds), m') \<and> distinct ds \<and> set ds \<inter> U = {} \<and> mc_shape m'
    \<and> take (length ds) (mc_batch m') = ds \<and> take (length ds) (map fst (mc_iovecs m')) = ds \<and> length ds \<le> VLEN
    \<and> mc_sized (U \<union> set ds) m' \<and> mc_mem m' = mc_mem m \<and> mc_received m' = mc_received m \<and> mc_next m' = mc_next m"
proof -
  have pre: "pool_ok U (mc_pool m)" "0 + VLEN \<le> length (mc_batch m)" "length (mc_iovecs m) = length (mc_batch m)"
    using assms by (simp_all add: mc_sized_def mc_shape_def)
  from mc_refill_loop_ok [OF pre] obtain ds m' batch iovecs pool where r: "mc_refill_loop VLEN 0 m = Inr (0 + length ds, m')" "length ds \<le> VLEN"
    "distinct ds" "set ds \<inter> U = {}" "take (0 + length ds) (mc_batch m') = take 0 (mc_batch m) @ ds"
    "take (0 + length ds) (map fst (mc_iovecs m')) = take 0 (map fst (mc_iovecs m)) @ ds" "pool_ok (U \<union> set ds) (mc_pool m')"
    "op_capacity (mc_pool m') = op_capacity (mc_pool m)" "set ds \<union> set (op_stack (mc_pool m')) = set (op_stack (mc_pool m))"
    "m' = m\<lparr>mc_batch := batch, mc_iovecs := iovecs, mc_pool := pool\<rparr>" "length batch = length (mc_batch m)" "length iovecs = length (mc_iovecs m)"
    by (elim exE conjE) (rule that)
  have "mc_mem m' = mc_mem m" "mc_received m' = mc_received m" "mc_next m' = mc_next m" "mc_shape m'"
    using r(10-12) assms(1) by (simp_all add: mc_shape_def)
  moreover from this have "mc_sized (U \<union> set ds) m'"
    using assms(2) r(7,8) r(9) [symmetric] by (simp add: mc_sized_def Un_assoc)
  ultimately show ?thesis using r(1-6) by (intro exI [of _ ds] exI [of _ m']) (simp add: mc_refill_def)
qed

lemma mc_release:
  assumes "mc_shape m" "mc_sized (U \<union> set ds) m" "take (length ds) (mc_batch m) = ds" "distinct ds" "set ds \<inter> U = {}" "length ds \<le> VLEN"
  shows "\<exists>mem pool. release_range i (length ds) m = Inr (m\<lparr>mc_mem := mem, mc_pool := pool\<rparr>)
    \<and> mc_sized (U \<union> set (take i ds)) (m\<lparr>mc_mem := mem, mc_pool := pool\<rparr>)
    \<and> (\<forall>a. dg_buf (mem a) = dg_buf (mc_mem m a)) \<and> (\<forall>a. a \<notin> set ds \<longrightarrow> mem a = mc_mem m a)"
proof -
  have rel: "map ((!) (mc_batch m)) [i..<length ds] = drop i ds"
    using map_nth_range [of "length ds" "mc_batch m" i] assms(1,3,6) by (simp add: mc_shape_def)
  have sub: "set (drop i ds) \<subseteq> U \<union> set ds" "\<forall>j \<in> set [i..<length ds]. j < length (mc_batch m)"
    using assms(1,6) set_drop_subset [of i ds] by (auto simp: mc_shape_def)
  from release_list_ok [OF assms(2), of "[i..<length ds]", unfolded rel, OF distinct_drop [OF assms(4)] sub]
  obtain mem pool where r: "release_list [i..<length ds] m = Inr (m\<lparr>mc_mem := mem, mc_pool := pool\<rparr>)"
    "mc_sized (U \<union> set ds - set (drop i ds)) (m\<lparr>mc_mem := mem, mc_pool := pool\<rparr>)"
    "\<forall>a. dg_buf (mem a) = dg_buf (mc_mem m a)" "\<forall>a. a \<notin> set (drop i ds) \<longrightarrow> mem a = mc_mem m a"
    by (elim exE conjE) (rule that)
  have "set ds = set (take i ds) \<union> set (drop i ds)" "set (take i ds) \<inter> set (drop i ds) = {}"
    using set_append [of "take i ds" "drop i ds"] assms(4) by (simp, metis distinct_append append_take_drop_id)
  then have "U \<union> set ds - set (drop i ds) = U \<union> set (take i ds)" using assms(5) by blast
  moreover have "\<forall>a. a \<notin> set ds \<longrightarrow> mem a = mc_mem m a" using r(4) set_drop_subset [of i ds] by blast
  ultimately show ?thesis using r(1-3) unfolding release_range_def by (intro exI [of _ mem] exI [of _ pool]) simp
qed

lemma mcast_blocked:
  assumes "mc_shape m" "mc_sized (fst ` set_mset H \<union> set ds) m" "take (length ds) (mc_batch m) = ds" "distinct ds" "set ds \<inter> fst ` set_mset H = {}"
    "length ds \<le> VLEN" "mc_received m \<le> mc_next m" "once (image_mset fst H)" "\<And>x. x \<in># H \<Longrightarrow> buffer_bytes (mc_mem m) (fst x) = Inr (snd x)"
    "uk_log kn = got"
  shows "\<exists>m'. release_range 0 (length ds) m = Inr m' \<and> mcast_inv (m', kn) H got"
proof -
  from mc_release [OF assms(1-6), of 0] obtain mem pool where r: "release_range 0 (length ds) m = Inr (m\<lparr>mc_mem := mem, mc_pool := pool\<rparr>)"
    "mc_sized (fst ` set_mset H \<union> set (take 0 ds)) (m\<lparr>mc_mem := mem, mc_pool := pool\<rparr>)" "\<forall>a. a \<notin> set ds \<longrightarrow> mem a = mc_mem m a"
    by (elim exE conjE) (rule that)
  have "buffer_bytes mem (fst x) = Inr (snd x)" if "x \<in># H" for x
  proof -
    have "fst x \<notin> set ds" using assms(5) that by blast
    then have "mem (fst x) = mc_mem m (fst x)" using r(3) by blast
    from buffer_bytes_cong [of mem "fst x" "mc_mem m", OF this] show ?thesis using assms(9) [OF that] by simp
  qed
  then have "mcast_inv (m\<lparr>mc_mem := mem, mc_pool := pool\<rparr>, kn) H got"
    using r(2) assms(1,7,8,10) by (intro mcast_inv_idle) (simp_all add: mc_shape_def)
  with r(1) show ?thesis by blast
qed

lemma mcast_batch:
  assumes "mc_shape m" "mc_sized (fst ` set_mset H \<union> set ds) m" "take (length ds) (mc_batch m) = ds" "take (length ds) (map fst (mc_iovecs m)) = ds"
    "distinct ds" "set ds \<inter> fst ` set_mset H = {}" "length ds \<le> VLEN" "once (image_mset fst H)"
    "\<And>x. x \<in># H \<Longrightarrow> buffer_bytes (mc_mem m) (fst x) = Inr (snd x)" "uk_log kn = got @ rs" "rs \<noteq> []" "length rs \<le> length ds"
    "\<forall>d \<in> set rs. length d \<le> MSG_BUF_SZ"
  shows "\<exists>m' a bs m''. release_range (length rs) (length ds) (kernel_writes rs 0 m) = Inr m'
    \<and> mc_serve (m'\<lparr>mc_received := length rs, mc_next := 0\<rparr>) = Inr (a, m'') \<and> mcast_bytes (m'', kn) a = Inr bs
    \<and> mcast_inv (m'', kn) (add_mset (a, bs) H) (got @ [bs])"
proof -
  let ?U = "fst ` set_mset H" and ?as = "take (length rs) ds"
  have iov: "?as = take (length rs) (drop 0 (map fst (mc_iovecs m)))"
    using arg_cong [OF assms(4), of "take (length rs)"] assms(12) by (simp add: min_def)
  have pre: "0 + length rs \<le> length (mc_iovecs m)" "length (mc_msg_len m) = length (mc_iovecs m)"
    using assms(1,7,12) by (simp_all add: mc_shape_def)
  from kernel_writes_ok [OF pre iov distinct_take [OF assms(5)]] obtain mem ml where w: "kernel_writes rs 0 m = m\<lparr>mc_mem := mem, mc_msg_len := ml\<rparr>"
    "length ml = length (mc_msg_len m)" "take (0 + length rs) ml = take 0 (mc_msg_len m) @ map length rs"
    "list_all2 (\<lambda>a p. take (length p) (dg_buf (mem a)) = p) ?as rs" "\<forall>a. a \<notin> set ?as \<longrightarrow> mem a = mc_mem m a"
    "\<forall>a. (\<forall>d \<in> set rs. length d \<le> MSG_BUF_SZ) \<longrightarrow> length (dg_buf (mc_mem m a)) = MSG_BUF_SZ \<longrightarrow> length (dg_buf (mem a)) = MSG_BUF_SZ"
    by (elim exE conjE) (rule that)
  let ?m = "m\<lparr>mc_mem := mem, mc_msg_len := ml\<rparr>"
  have rpre: "mc_shape ?m" "mc_sized (?U \<union> set ds) ?m" "take (length ds) (mc_batch ?m) = ds"
    using assms(1-3,13) w(2,6) by (simp_all add: mc_shape_def mc_sized_def)
  from mc_release [OF rpre assms(5-7), of "length rs"] obtain mem' pool where r:
    "release_range (length rs) (length ds) ?m = Inr (?m\<lparr>mc_mem := mem', mc_pool := pool\<rparr>)"
    "mc_sized (?U \<union> set ?as) (?m\<lparr>mc_mem := mem', mc_pool := pool\<rparr>)" "\<forall>a. dg_buf (mem' a) = dg_buf (mc_mem ?m a)" "\<forall>a. a \<notin> set ds \<longrightarrow> mem' a = mc_mem ?m a"
    by (elim exE conjE) (rule that)
  let ?m' = "?m\<lparr>mc_mem := mem', mc_pool := pool, mc_received := length rs, mc_next := 0\<rparr>"
  have shape: "mc_shape ?m'" using assms(1,7,12) w(2) by (simp add: mc_shape_def)
  have q: "mc_queue ?m' = ?as" using arg_cong [OF assms(3), of "take (length rs)"] assms(12) by (simp add: mc_queue_def min_def)
  have disj: "set ?as \<inter> ?U = {}" using assms(6) set_take_subset [of "length rs" ds] by blast
  have own: "once (mc_owned H ?m')" unfolding mc_owned_def q using assms(5,8) disj by (auto simp: once_add once_mset distinct_take)
  have sized: "mc_sized (set_mset (mc_owned H ?m')) ?m'" unfolding mc_owned_def q using r(2) by (simp add: mc_sized_def)
  have waits: "mc_waits ?m' rs" unfolding mc_waits_def q using w(3,4) r(3) by simp
  have held: "buffer_bytes (mc_mem ?m') (fst x) = Inr (snd x)" if "x \<in># H" for x
  proof -
    have "fst x \<notin> set ds" using assms(6) that by blast
    then have "mc_mem ?m' (fst x) = mc_mem m (fst x)" using r(4) w(5) set_take_subset [of "length rs" ds] by auto
    from buffer_bytes_cong [of "mc_mem ?m'" "fst x" "mc_mem m", OF this] show ?thesis using assms(9) [OF that] by simp
  qed
  from mcast_served [OF shape own sized held waits assms(10,11)] obtain a bs m'' where
    "mc_serve ?m' = Inr (a, m'')" "mcast_bytes (m'', kn) a = Inr bs" "mcast_inv (m'', kn) (add_mset (a, bs) H) (got @ [bs])" by blast
  then show ?thesis unfolding w(1) using r(1)
    by (intro exI [of _ "?m\<lparr>mc_mem := mem', mc_pool := pool\<rparr>"] exI [of _ a] exI [of _ bs] exI [of _ m'']) simp
qed

lemma recvmmsg_ok:
  assumes "recvmmsg k kn = (ans, kn')"
  shows "case ans of Received rs \<Rightarrow> length rs \<le> k \<and> (\<forall>d \<in> set rs. length d \<le> MSG_BUF_SZ) \<and> uk_log kn' = uk_log kn @ rs
    | Recv_Failed e \<Rightarrow> uk_log kn' = uk_log kn"
  using assms by (auto simp: recvmmsg_def Let_def split: recv_answer.splits)

lemma mcast_next_ok:
  assumes inv: "mcast_inv (m, kn) H got"
  shows "\<exists>r s'. mcast_next (m, kn) = Inr (r, s') \<and>
    (case r of Inl e \<Rightarrow> mcast_inv s' H got | Inr b \<Rightarrow> \<exists>bs. mcast_bytes s' b = Inr bs \<and> mcast_inv s' (add_mset (b, bs) H) (got @ [bs]))"
proof (cases "mc_next m < mc_received m")
  case True
  note v = mcast_invD [OF inv]
  obtain P where P: "mc_waits m P" "uk_log kn = got @ P" using v(5) by blast
  have "P \<noteq> []" using waits_queue [OF P(1)] True v(1) by (auto simp: mc_queue_def mc_shape_def)
  from mcast_served [OF v(1-4) P this] True show ?thesis by (force simp: mcast_next_def)
next
  case False
  let ?U = "fst ` set_mset H"
  note v = mcast_invD [OF inv]
  have q: "mc_queue m = []" using False by (simp add: mc_queue_def)
  then have U: "once (image_mset fst H)" "mc_sized ?U m" using v(2,3) by (simp_all add: mc_owned_def)
  have log: "uk_log kn = got" using v(5) waits_queue q by fastforce
  from mc_claim [OF v(1) U(2)] obtain ds m1 where c: "mc_refill m = Inr (if ds = [] then None else Some (length ds), m1)" "distinct ds"
    "set ds \<inter> ?U = {}" "mc_shape m1" "take (length ds) (mc_batch m1) = ds" "take (length ds) (map fst (mc_iovecs m1)) = ds" "length ds \<le> VLEN"
    "mc_sized (?U \<union> set ds) m1" "mc_mem m1 = mc_mem m" "mc_received m1 = mc_received m" "mc_next m1 = mc_next m"
    by (elim exE conjE) (rule that)
  have held: "buffer_bytes (mc_mem m1) (fst x) = Inr (snd x)" if "x \<in># H" for x using v(4) [OF that] c(9) by simp
  have idle: "mc_received m1 \<le> mc_next m1" using False c(10,11) by simp
  show ?thesis
  proof (cases "ds = []")
    case True
    then have "mcast_inv (m1, kn) H got" using c(4,8) idle U(1) held log by (intro mcast_inv_idle) simp_all
    then show ?thesis using True c(1) False by (simp add: mcast_next_def)
  next
    case ne: False
    obtain ans kn' where ans: "recvmmsg (length ds) kn = (ans, kn')" by (cases "recvmmsg (length ds) kn")
    note blocked = mcast_blocked [OF c(4,8,5,2,3,7) idle U(1) held]
    show ?thesis
    proof (cases ans)
      case (Recv_Failed e)
      then have "uk_log kn' = got" using recvmmsg_ok [OF ans] log by simp
      from blocked [OF _ this] obtain m2 where "release_range 0 (length ds) m1 = Inr m2" "mcast_inv (m2, kn') H got" by blast
      then show ?thesis using ne c(1) False ans Recv_Failed by (simp add: mcast_next_def)
    next
      case (Received rs)
      then have rs: "length rs \<le> length ds" "\<forall>d \<in> set rs. length d \<le> MSG_BUF_SZ" "uk_log kn' = got @ rs"
        using recvmmsg_ok [OF ans] log by simp_all
      show ?thesis
      proof (cases "rs = []")
        case True
        then have "uk_log kn' = got" using rs(3) by simp
        from blocked [OF _ this] obtain m2 where "release_range 0 (length ds) m1 = Inr m2" "mcast_inv (m2, kn') H got" by blast
        then show ?thesis using ne c(1) False ans Received True by (simp add: mcast_next_def)
      next
        case some: False
        from mcast_batch [OF c(4,8,5,6,2,3,7) U(1) held rs(3) some rs(1,2)] obtain m' a bs m'' where
          "release_range (length rs) (length ds) (kernel_writes rs 0 m1) = Inr m'" "mc_serve (m'\<lparr>mc_received := length rs, mc_next := 0\<rparr>) = Inr (a, m'')"
          "mcast_bytes (m'', kn') a = Inr bs" "mcast_inv (m'', kn') (add_mset (a, bs) H) (got @ [bs])" by blast
        then show ?thesis using ne c(1) False ans Received some by (simp add: mcast_next_def Let_def)
      qed
    qed
  qed
qed

lemma mcast_release_ok:
  assumes inv: "mcast_inv (m, kn) (add_mset (b, bs) H) got"
  shows "\<exists>s'. mcast_release b (m, kn) = Inr s' \<and> mcast_inv s' H got"
proof -
  note v = mcast_invD [OF inv]
  let ?M = "mc_owned H m"
  have own: "mc_owned (add_mset (b, bs) H) m = add_mset b ?M" by (simp add: mc_owned_def)
  have M: "b \<notin># ?M" "once ?M" using v(2) by (simp_all add: own once_add_mset)
  have pool: "pool_ok (insert b (set_mset ?M)) (mc_pool m)" "b \<noteq> nullptr" using v(3) by (auto simp: own mc_sized_def pool_ok_def)
  obtain p where p: "op_restore dg_reset (mc_pool m) (mc_mem m) b = Inr (dg_reset b (mc_mem m), p)" "pool_ok (insert b (set_mset ?M) - {b}) p"
    "op_stack p = b # op_stack (mc_pool m)" "op_capacity p = op_capacity (mc_pool m)"
    using pool_ok_give [OF pool(1), of b dg_reset "mc_mem m"] by blast
  let ?m = "m\<lparr>mc_mem := dg_reset b (mc_mem m), mc_pool := p\<rparr>"
  have q: "mc_queue ?m = mc_queue m" "mc_owned H ?m = ?M" by (simp_all add: mc_queue_def mc_owned_def)
  have buf: "dg_buf (mc_mem ?m a) = dg_buf (mc_mem m a)" for a by (simp add: dg_reset_def)
  have "mc_sized (set_mset ?M) ?m"
    using v(3) p(2-4) M(1) unfolding mc_sized_def buf by (simp add: own)
  moreover have "mc_waits ?m P = mc_waits m P" for P unfolding mc_waits_def buf q by simp
  moreover have "buffer_bytes (mc_mem ?m) (fst x) = Inr (snd x)" if "x \<in># H" for x
  proof -
    have "fst x \<noteq> b" using M(1) that by (auto simp: mc_owned_def)
    then have "mc_mem ?m (fst x) = mc_mem m (fst x)" by (simp add: dg_reset_def)
    from buffer_bytes_cong [of "mc_mem ?m" "fst x" "mc_mem m", OF this] show ?thesis using v(4) that by simp
  qed
  ultimately have "mcast_inv (?m, kn) H got"
    using v(1,5) M(2) by (simp add: mcast_inv_def q mc_shape_def)
  moreover have "mcast_release b (m, kn) = Inr (?m, kn)" using p(1) pool(2) by (simp add: mcast_release_def buffer_destroy_def)
  ultimately show ?thesis by blast
qed

interpretation mc: pooled_transport mcast_next mcast_release mcast_bytes mcast_inv "\<lambda>s. uk_log (snd s)"
proof unfold_locales
  show "mcast_inv s H got \<Longrightarrow> \<exists>r s'. mcast_next s = Inr (r, s') \<and>
    (case r of Inl e \<Rightarrow> mcast_inv s' H got | Inr b \<Rightarrow> \<exists>bs. mcast_bytes s' b = Inr bs \<and> mcast_inv s' (add_mset (b, bs) H) (got @ [bs]))" for s H got
    using mcast_next_ok by (cases s) blast
  show "mcast_inv s (add_mset (b, bs) H) got \<Longrightarrow> \<exists>s'. mcast_release b s = Inr s' \<and> mcast_inv s' H got" for s b bs H got
    using mcast_release_ok by (cases s) blast
  show "mcast_inv s H got \<Longrightarrow> (b, bs) \<in># H \<Longrightarrow> mcast_bytes s b = Inr bs" for s H got b bs
    by (cases s) (force simp: mcast_inv_def mcast_bytes_def)
  show "mcast_inv s (mset held) got \<Longrightarrow> distinct (map fst held)" for s held got
    by (cases s) (auto simp: mcast_inv_def mc_owned_def once_add once_mset simp flip: mset_map)
  show "mcast_inv s H got \<Longrightarrow> prefix got (uk_log (snd s))" for s H got
    by (cases s) (auto simp: mcast_inv_def)
qed

lemma mcast_start:
  assumes "storage \<noteq> nullptr" "length (fst junk) = VLEN" "length (snd junk) = VLEN" "\<forall>a. length (dg_buf (mem a)) = MSG_BUF_SZ"
  shows "mcast_inv (McastUDPSource storage mem junk, kn\<lparr>uk_log := []\<rparr>) {#} []"
proof (rule mcast_inv_idle)
  show "mc_sized (fst ` set_mset {#}) (McastUDPSource storage mem junk)"
    using pool_ok_start [OF assms(1), of SIZEOF_Datagram POOL_SIZE] assms(4)
    by (simp add: mc_sized_def McastUDPSource_def SIZEOF_Datagram_def ObjectPool_def)
qed (use assms in \<open>simp_all add: mc_shape_def McastUDPSource_def\<close>)

lemma mcast_counts:
  assumes "mcast_inv (m, kn) (mset held) got"
  shows "length held + (length (uk_log kn) - length got) + op_available (mc_pool m) = POOL_SIZE"
    "length (uk_log kn) - length got \<le> VLEN"
proof -
  note v = mcast_invD [OF assms]
  obtain P where P: "mc_waits m P" "uk_log kn = got @ P" using v(5) by blast
  have "card (set_mset (mc_owned (mset held) m)) = length held + length P"
    using once_size [OF v(2)] waits_queue [OF P(1)] by (simp add: mc_owned_def)
  then show "length held + (length (uk_log kn) - length got) + op_available (mc_pool m) = POOL_SIZE"
    using v(3) P(2) by (simp add: mc_sized_def pool_ok_def op_available_def)
  show "length (uk_log kn) - length got \<le> VLEN"
    using waits_queue [OF P(1)] P(2) v(1) by (auto simp: mc_queue_def mc_shape_def)
qed

subsection \<open>What the multicast source was given\<close>

text \<open>Everything delivered is a datagram of the script, cut to the size of a buffer.\<close>

definition log_from :: "(nat \<Rightarrow> recv_answer) \<Rightarrow> udp_kernel \<Rightarrow> bool" where
  "log_from script kn \<longleftrightarrow> uk_script kn = script
     \<and> (\<forall>x \<in> set (uk_log kn). \<exists>j ds d. script j = Received ds \<and> d \<in> set ds \<and> x = take MSG_BUF_SZ d)"

lemma recvmmsg_log_from:
  assumes "log_from script kn"
  shows "log_from script (snd (recvmmsg k kn))"
proof (cases "uk_script kn (uk_calls kn)")
  case (Received ds)
  have "\<exists>j ds d. script j = Received ds \<and> d \<in> set ds \<and> x = take MSG_BUF_SZ d" if x: "x \<in> take MSG_BUF_SZ ` set (take k ds)" for x
  proof -
    obtain d where "d \<in> set (take k ds)" "x = take MSG_BUF_SZ d" using x by blast
    then have "d \<in> set ds" by (meson in_set_takeD)
    then show ?thesis using Received assms \<open>x = _\<close> by (auto simp: log_from_def)
  qed
  then show ?thesis using assms Received by (auto simp: recvmmsg_def Let_def log_from_def)
next
  case (Recv_Failed e)
  then show ?thesis using assms by (simp add: recvmmsg_def log_from_def)
qed

lemma mcast_next_log_from:
  assumes "mcast_next s = Inr (r, s')" "log_from script (snd s)"
  shows "log_from script (snd s')"
proof -
  obtain m kn where s: "s = (m, kn)" by (cases s)
  have kn: "log_from script kn" using assms(2) s by simp
  show ?thesis
  proof (cases "mc_next m < mc_received m")
    case True
    then have "snd s' = kn" using assms(1) s by (auto simp: mcast_next_def bind_res_Inr_iff)
    then show ?thesis using kn by simp
  next
    case False
    obtain claimed m1 where c: "mc_refill m = Inr (claimed, m1)"
      using assms(1) s False by (cases "mc_refill m") (auto simp: mcast_next_def)
    show ?thesis
    proof (cases claimed)
      case None
      then have "snd s' = kn" using assms(1) s False c by (auto simp: mcast_next_def)
      then show ?thesis using kn by simp
    next
      case (Some k)
      obtain ans kn' where k: "recvmmsg k kn = (ans, kn')" by (cases "recvmmsg k kn")
      have "snd s' = kn'"
        using assms(1) s False c Some k by (cases ans) (auto simp: mcast_next_def Let_def bind_res_Inr_iff split: if_splits)
      then show ?thesis using recvmmsg_log_from [OF kn, of k] k by simp
    qed
  qed
qed

lemma mcast_release_log_from:
  assumes "mcast_release b s = Inr s'" "log_from script (snd s)"
  shows "log_from script (snd s')"
  using assms by (auto simp: mcast_release_def bind_res_Inr_iff split: prod.splits)

text \<open>A cut datagram of a session is a datagram of the session.\<close>

lemma from_session_cut:
  assumes "from_session session stream d" "length session = SESSION_SIZE"
  shows "from_session session stream (take MSG_BUF_SZ d)"
  using assms(1)
proof cases
  case (packet k n j)
  then show ?thesis using from_session.packet [of k n session stream "min MSG_BUF_SZ j"] by simp
next
  case (finish s)
  have "length d \<le> MSG_BUF_SZ" using finish assms(2) by (simp add: MSG_BUF_SZ_def HEADER_SIZE_def SESSION_SIZE_def)
  then show ?thesis using assms(1) by simp
qed

lemma mcast_inputs:
  assumes "storage \<noteq> nullptr" "length (fst junk) = VLEN" "length (snd junk) = VLEN" "\<forall>a. length (dg_buf (mem a)) = MSG_BUF_SZ"
    "\<forall>j ds d. uk_script kn j = Received ds \<longrightarrow> d \<in> set ds \<longrightarrow> from_session session stream d" "length session = SESSION_SIZE"
  shows "\<exists>rs s. feed_inputs mcast_next mcast_release mcast_bytes n (McastUDPSource storage mem junk, kn\<lparr>uk_log := []\<rparr>) = Inr (rs, s)
    \<and> length rs = n \<and> prefix (oks rs) (uk_log (snd s)) \<and> (\<forall>b. Inr b \<in> set rs \<longrightarrow> from_session session stream b)"
proof -
  let ?s = "(McastUDPSource storage mem junk, kn\<lparr>uk_log := []\<rparr>)"
  from mc.feed_inputs_ok [OF mcast_start [OF assms(1-4), of kn], of n] obtain rs s where
    r: "feed_inputs mcast_next mcast_release mcast_bytes n ?s = Inr (rs, s)" "length rs = n" "mcast_inv s {#} ([] @ oks rs)"
    by (elim exE conjE) (rule that)
  have "log_from (uk_script kn) (snd ?s)" by (simp add: log_from_def)
  from feed_inputs_keep [where Q = "\<lambda>s. log_from (uk_script kn) (snd s)", OF mcast_next_log_from mcast_release_log_from r(1) this]
  have lf: "log_from (uk_script kn) (snd s)" .
  have log: "from_session session stream x" if x: "x \<in> set (uk_log (snd s))" for x
  proof -
    obtain j ds d where "uk_script kn j = Received ds" "d \<in> set ds" "x = take MSG_BUF_SZ d"
      using lf x unfolding log_from_def by blast
    moreover from this have "from_session session stream d" using assms(5) by blast
    ultimately show ?thesis using from_session_cut [OF _ assms(6)] by blast
  qed
  have "prefix (oks rs) (uk_log (snd s))" using mc.got_arrived [OF r(3)] by simp
  moreover from this have "from_session session stream b" if "Inr b \<in> set rs" for b
  proof -
    have "b \<in> set (oks rs)" using that by (simp add: set_oks)
    then show ?thesis using \<open>prefix _ _\<close> log set_mono_prefix by blast
  qed
  ultimately show ?thesis using r(1,2) by blast
qed

subsection \<open>The constructor\<close>

definition MB :: nat where "MB = 1024 * 1024"

text \<open>
  \<open>pton\<close> is \<open>inet_pton\<close> and \<open>rcvbuf\<close> the buffer size the kernel reports. The result is the descriptor
  and whether the warning about the receive buffer was logged.
\<close>

definition mcast_open :: "(string \<Rightarrow> u32 option) \<Rightarrow> answers \<Rightarrow> nat \<Rightarrow> string \<Rightarrow> string \<Rightarrow> u16 \<Rightarrow> (int \<times> bool) sys" where
  "mcast_open pton ans rcvbuf ip mcast_ip port =
     with_socket ans (\<lambda>r.
     sys_bind (check r ''socket()'') (\<lambda>fd.
     sys_bind (checked ans (Sys_setsockopt ''SO_REUSEADDR'' 1) ''setsockopt()'') (\<lambda>_.
     sys_bind (checked ans (Sys_setsockopt ''SO_REUSEPORT'' 1) ''setsockopt()'') (\<lambda>_.
     sys_bind (checked ans (Sys_setsockopt ''SO_RXQ_OVFL'' 1) ''setsockopt()'') (\<lambda>_.
     sys_bind (checked ans (Sys_setsockopt ''SO_RCVBUF'' (int (16 * MB))) ''setsockopt()'') (\<lambda>_.
     sys_bind (checked ans (Sys_getsockopt ''SO_RCVBUF'') ''getsockopt()'') (\<lambda>_.
     let small = rcvbuf < 4 * MB in
     case pton mcast_ip of None \<Rightarrow> sys_throw (Runtime_Error mcast_ip) | Some maddr \<Rightarrow>
     sys_bind (checked ans (Sys_bind maddr port) ''bind()'') (\<lambda>_.
     case pton ip of None \<Rightarrow> sys_throw (Runtime_Error ip) | Some iface \<Rightarrow>
     sys_bind (checked ans (Sys_membership maddr iface) ''setsockopt()'') (\<lambda>_.
     sys_return (fd, small))))))))))"

lemma mcast_open_Inr:
  assumes "mcast_open pton ans rcvbuf ip mcast_ip port [] = (Inr (fd, small), calls)"
  shows "\<exists>maddr iface. pton mcast_ip = Some maddr \<and> pton ip = Some iface \<and> fd = fst (ans 0) \<and> small = (rcvbuf < 4 * MB)
    \<and> calls = [Sys_socket, Sys_setsockopt ''SO_REUSEADDR'' 1, Sys_setsockopt ''SO_REUSEPORT'' 1, Sys_setsockopt ''SO_RXQ_OVFL'' 1,
        Sys_setsockopt ''SO_RCVBUF'' (int (16 * MB)), Sys_getsockopt ''SO_RCVBUF'', Sys_bind maddr port, Sys_membership maddr iface]
    \<and> (\<forall>i < length calls. 0 \<le> fst (ans i))"
proof -
  from assms show ?thesis
    unfolding mcast_open_def Let_def with_socket_Inr sys_bind_Inr check_Inr checked_Inr
    by (auto simp: sys_bind_Inr checked_Inr sys_throw_def sys_return_def All_less_Suc numeral_eq_Suc less_Suc_eq split: option.splits)
qed

lemma mcast_open_leaks_nothing:
  "leaks_nothing ans (apfst (map_sum id (\<lambda>(fd, _). [fd])) (mcast_open pton ans rcvbuf ip mcast_ip port []))"
  by (simp add: mcast_open_def Let_def run_sys leaks_nothing_def split: option.split)

subsection \<open>Property\<close>

text \<open>
  C21. Datagrams received by multicast are handed out exactly once, in order, and stay put: whatever the
  kernel answers and however a client takes and drops buffers, no call faults; the datagrams handed out are
  a prefix of those received, less than one batch behind; the bytes of every buffer a client holds are
  still those of its datagram, no two buffers share memory, and every object of the pool is held, waiting
  or free.
\<close>

theorem mcast_exactly_once:
  assumes "storage \<noteq> nullptr" "length (fst junk) = VLEN" "length (snd junk) = VLEN" "\<forall>a. length (dg_buf (mem a)) = MSG_BUF_SZ"
  shows "\<exists>m kn' held got. client_run mcast_next mcast_release mcast_bytes ops ((McastUDPSource storage mem junk, kn\<lparr>uk_log := []\<rparr>), [], [])
      = Inr ((m, kn'), held, got)
    \<and> prefix got (uk_log kn') \<and> length (uk_log kn') - length got \<le> VLEN
    \<and> (\<forall>(b, bs) \<in> set held. mcast_bytes (m, kn') b = Inr bs) \<and> distinct (map fst held)
    \<and> length held + (length (uk_log kn') - length got) + op_available (mc_pool m) = POOL_SIZE"
proof -
  have "mcast_inv (McastUDPSource storage mem junk, kn\<lparr>uk_log := []\<rparr>) (mset []) []" using mcast_start [OF assms] by simp
  from mc.client_run_ok [OF this] obtain s held got where
    r: "client_run mcast_next mcast_release mcast_bytes ops ((McastUDPSource storage mem junk, kn\<lparr>uk_log := []\<rparr>), [], []) = Inr (s, held, got)"
      "mcast_inv s (mset held) got" by blast
  obtain m kn' where s: "s = (m, kn')" by (cases s)
  have "\<forall>(b, bs) \<in> set held. mcast_bytes (m, kn') b = Inr bs" using mc.held_bytes [OF r(2)] s by auto
  moreover have "prefix got (uk_log kn')" using mc.got_arrived [OF r(2)] s by simp
  moreover have "distinct (map fst held)" using mc.held_once [OF r(2)] .
  ultimately show ?thesis using mcast_counts [OF r(2) [unfolded s]] r(1) s by blast
qed

text \<open>Two datagrams arrive in one batch, then none; the client takes both and drops the first.\<close>

theorem mcast_exactly_once_witness:
  "\<exists>m kn' held got. client_run mcast_next mcast_release mcast_bytes [Take_Next, Take_Next, Drop_Buffer 0, Take_Next]
      ((McastUDPSource 4096 (\<lambda>_. \<lparr>dg_buf = replicate MSG_BUF_SZ 0, dg_sz = 0\<rparr>) (replicate VLEN (0, 0), replicate VLEN 0),
        \<lparr>uk_script = (\<lambda>j. if j = 0 then Received [[1, 2], [3]] else Recv_Failed EAGAIN), uk_calls = 0, uk_log = []\<rparr>), [], [])
      = Inr ((m, kn'), held, got)
    \<and> prefix got (uk_log kn') \<and> (\<forall>(b, bs) \<in> set held. mcast_bytes (m, kn') b = Inr bs)
    \<and> length held + (length (uk_log kn') - length got) + op_available (mc_pool m) = POOL_SIZE"
  using mcast_exactly_once [of 4096 "(replicate VLEN (0, 0), replicate VLEN 0)" "\<lambda>_. \<lparr>dg_buf = replicate MSG_BUF_SZ 0, dg_sz = 0\<rparr>"
      "[Take_Next, Take_Next, Drop_Buffer 0, Take_Next]"
      "\<lparr>uk_script = (\<lambda>j. if j = 0 then Received [[1, 2], [3]] else Recv_Failed EAGAIN), uk_calls = 0, uk_log = []\<rparr>"]
  by (auto simp del: client_run.simps)

end
