(* ===== verification/Unicast_Source.thy ===== *)
theory Unicast_Source
  imports System_Calls Retransmit_Recoverer
begin

section \<open>Unicast UDP source (src/transport/unicast\_udp\_source.hpp)\<close>

text \<open>
  The socket of the recoverer. What it hands over, and the environment of the recoverer made of the answers
  of its socket.
\<close>

definition UC_MAX_DATAGRAM :: nat where "UC_MAX_DATAGRAM = 2 ^ 16"

text \<open>
  \<open>recv\<close> with \<open>MSG_TRUNC\<close> says how long the datagram was, and writes what fits into the buffer.
\<close>

datatype recv_one = Datagram "byte list" | Recv_Error errno

definition unicast_next :: "recv_one \<Rightarrow> byte list \<Rightarrow> (transport_status + byte list) \<times> byte list" where
  "unicast_next ans buf =
     (case ans of
        Datagram d \<Rightarrow>
          let buf = take UC_MAX_DATAGRAM d @ drop (length d) buf; nrecv = length d in
          if nrecv > UC_MAX_DATAGRAM then (Inl TransportStatus_Error, buf)
          else if nrecv = 0 then (Inl WouldBlock, buf)
          else (Inr (take nrecv buf), buf)
      | Recv_Error e \<Rightarrow> (Inl (if e \<in> {EAGAIN, EWOULDBLOCK, EINTR} then WouldBlock else TransportStatus_Error), buf))"

datatype send_answer = Sent nat | Send_Error errno

definition unicast_send :: "send_answer \<Rightarrow> transport_status + unit" where
  "unicast_send ans =
     (case ans of
        Sent n \<Rightarrow> if n = 0 then Inl WouldBlock else Inr ()
      | Send_Error e \<Rightarrow> Inl (if e \<in> {EAGAIN, EWOULDBLOCK} then WouldBlock else TransportStatus_Error))"

definition unicast_open :: "(string \<Rightarrow> u32 option) \<Rightarrow> answers \<Rightarrow> string \<Rightarrow> u16 \<Rightarrow> nat \<Rightarrow> (int \<times> nat \<times> nat) sys" where
  "unicast_open pton ans ip port recv_timeout =
     with_socket ans (\<lambda>r.
     sys_bind (check r ''UnicastUDPSource::socket()'') (\<lambda>fd.
     case pton ip of None \<Rightarrow> sys_throw (Runtime_Error ip) | Some addr \<Rightarrow>
     sys_bind (checked ans (Sys_connect addr port) ''UnicastUDPSource::connect()'') (\<lambda>_.
     let secs = recv_timeout div 1000000; tv = (secs, recv_timeout - secs * 1000000) in
     sys_bind (checked ans (Sys_setsockopt ''SO_RCVTIMEO'' (int recv_timeout)) ''UnicastUDPSource::setsockopt()'') (\<lambda>_.
     sys_return (fd, tv)))))"

subsection \<open>What the unicast source hands over\<close>

lemma unicast_next_Inr: "fst (unicast_next ans buf) = Inr bs \<longleftrightarrow> ans = Datagram bs \<and> bs \<noteq> [] \<and> length bs \<le> UC_MAX_DATAGRAM"
  by (cases ans) (auto simp: unicast_next_def Let_def)

lemma unicast_next_Error: "fst (unicast_next ans buf) = Inl TransportStatus_Error \<longleftrightarrow>
    (case ans of Datagram d \<Rightarrow> UC_MAX_DATAGRAM < length d | Recv_Error e \<Rightarrow> e \<notin> {EAGAIN, EWOULDBLOCK, EINTR})"
  by (cases ans) (auto simp: unicast_next_def Let_def)

lemma unicast_timeout:
  assumes "unicast_open pton ans ip port t [] = (Inr (fd, secs, usecs), calls)"
  shows "secs * 1000000 + usecs = t \<and> usecs < 1000000"
proof -
  have "secs = t div 1000000" "usecs = t - t div 1000000 * 1000000"
    using assms unfolding unicast_open_def Let_def with_socket_Inr sys_bind_Inr check_Inr
    by (auto simp: sys_bind_Inr checked_Inr sys_throw_def sys_return_def split: option.splits)
  then show ?thesis by (simp add: minus_div_mult_eq_mod)
qed

text \<open>
  The environment of the recoverer made of the answers of its socket: the recoverer owns a
  \<open>UnicastUDPSource\<close> and sends and receives through it. What is received may depend on the requests sent.
\<close>

definition unicast_env :: "(nat \<Rightarrow> nat) \<Rightarrow> (nat \<Rightarrow> send_answer) \<Rightarrow> (byte list list \<Rightarrow> nat \<Rightarrow> recv_one) \<Rightarrow> rec_env" where
  "unicast_env now sends recvs =
     \<lparr>re_now = now, re_send = (\<lambda>j. unicast_send (sends j)), re_next = (\<lambda>reqs j. fst (unicast_next (recvs reqs j) []))\<rparr>"

lemma unicast_network_ok:
  assumes "\<And>reqs j d. recvs reqs j = Datagram d \<Longrightarrow> from_session session stream d" "now 0 + rc_max_recovery_time cfg \<le> now (Suc n)"
  shows "network_ok session stream cfg (unicast_env now sends recvs)"
  using assms unicast_next_Inr by (auto simp: network_ok_def unicast_env_def)


lemma unicast_open_leaks_nothing:
  "leaks_nothing ans (apfst (map_sum id (\<lambda>(fd, _). [fd])) (unicast_open pton ans ip port t []))"
  by (simp add: unicast_open_def Let_def run_sys leaks_nothing_def split: option.split)

end
