(* ===== verification/Tcp_Source.thy ===== *)
theory Tcp_Source
  imports Pooled_Source System_Calls
begin

section \<open>TCP source (src/transport/tcp\_source.hpp)\<close>

text \<open>
  One receive is in flight at a time: an object of the pool is handed to the ring, and when the ring
  completes it the client gets it. The ring and the kernel behind it are scripts of answers:
  whether there is a free submission entry, the result of a submission, and whether a completion is
  there, with its bytes (cut to the buffer, none at the end of the stream) or its error. The
  object in flight belongs to the kernel, which writes it before the completion.
\<close>

definition IO_URING_BUF_MAX_SZ :: nat where "IO_URING_BUF_MAX_SZ = 4096"
definition SIZEOF_io_uring_data :: nat where "SIZEOF_io_uring_data = IO_URING_BUF_MAX_SZ + 8"
definition TCP_POOL_SIZE :: nat where "TCP_POOL_SIZE = 16"

datatype completion = Completed "byte list" | Completed_Error errno

record uring =
  ur_sqe :: "nat \<Rightarrow> bool"
  ur_submit :: "nat \<Rightarrow> int"
  ur_peek :: "nat \<Rightarrow> completion option"
  ur_sqes :: nat
  ur_submits :: nat
  ur_peeks :: nat
  ur_flight :: "ptr option"
  ur_log :: "byte list list"

record tcp =
  tc_pool :: obj_pool
  tc_mem :: "ptr \<Rightarrow> dgram"
  tc_status :: transport_status
  tc_armed :: bool
  tc_shut :: bool

definition is_terminal :: "transport_status \<Rightarrow> bool" where
  "is_terminal s \<longleftrightarrow> s = Eof \<or> s = TransportStatus_Error"

text \<open>\<open>fail_\<close> shuts the socket down and stores the status.\<close>

definition tcp_fail :: "transport_status \<Rightarrow> tcp \<Rightarrow> tcp" where
  "tcp_fail err t = t\<lparr>tc_shut := True, tc_status := err\<rparr>"

definition tcp_restore :: "ptr \<Rightarrow> tcp \<Rightarrow> tcp res" where
  "tcp_restore data t = bind_res (buffer_destroy (tc_pool t) (tc_mem t) data) (\<lambda>(mem, pool). Inr (t\<lparr>tc_mem := mem, tc_pool := pool\<rparr>))"

definition rearm_recv :: "tcp \<times> uring \<Rightarrow> (bool \<times> tcp \<times> uring) res" where
  "rearm_recv s =
     (case s of (t, k) \<Rightarrow>
      bind_res (op_get (tc_pool t)) (\<lambda>(data, pool).
      let t = t\<lparr>tc_pool := pool\<rparr> in
      if data = nullptr then Inr (False, t, k)
      else
        let sqe = ur_sqe k (ur_sqes k); k = k\<lparr>ur_sqes := Suc (ur_sqes k)\<rparr> in
        if \<not> sqe then bind_res (tcp_restore data t) (\<lambda>t. Inr (False, t, k))
        else
          let ret = ur_submit k (ur_submits k); k = k\<lparr>ur_submits := Suc (ur_submits k)\<rparr> in
          if ret \<le> 0 then bind_res (tcp_restore data t) (\<lambda>t. Inr (False, tcp_fail TransportStatus_Error t, k))
          else Inr (True, t\<lparr>tc_armed := True\<rparr>, k\<lparr>ur_flight := Some data\<rparr>)))"

text \<open>
  \<open>io_uring_peek_cqe\<close>, \<open>io_uring_cqe_get_data\<close> and \<open>io_uring_cqe_seen\<close>: the completion, the object it is for, and what
  the kernel wrote there.
\<close>

definition peek_cqe :: "tcp \<times> uring \<Rightarrow> (completion \<times> ptr) option \<times> tcp \<times> uring" where
  "peek_cqe s =
     (case s of (t, k) \<Rightarrow>
      let c = ur_peek k (ur_peeks k); k = k\<lparr>ur_peeks := Suc (ur_peeks k)\<rparr> in
      case (c, ur_flight k) of
        (Some (Completed bs), Some d) \<Rightarrow>
          let bs = take IO_URING_BUF_MAX_SZ bs; buf = dg_buf (tc_mem t d) in
          (Some (Completed bs, d), t\<lparr>tc_mem := (tc_mem t)(d := (tc_mem t d)\<lparr>dg_buf := bs @ drop (length bs) buf\<rparr>)\<rparr>,
           k\<lparr>ur_flight := None, ur_log := (if bs = [] then ur_log k else ur_log k @ [bs])\<rparr>)
      | (Some (Completed_Error e), Some d) \<Rightarrow> (Some (Completed_Error e, d), t, k\<lparr>ur_flight := None\<rparr>)
      | _ \<Rightarrow> (None, t, k))"

text \<open>The part of \<open>next\<close> after the receive is armed.\<close>

definition tcp_complete :: "tcp \<times> uring \<Rightarrow> ((transport_status + ptr) \<times> tcp \<times> uring) res" where
  "tcp_complete s =
     (case peek_cqe s of
        (None, t, k) \<Rightarrow> Inr (Inl WouldBlock, t, k)
      | (Some (res, data), t, k) \<Rightarrow>
          let t = t\<lparr>tc_armed := False\<rparr> in
          (case res of
             Completed_Error e \<Rightarrow>
               if e = EAGAIN \<or> e = EINTR then bind_res (tcp_restore data t) (\<lambda>t. Inr (Inl WouldBlock, t, k))
               else bind_res (tcp_restore data (tcp_fail TransportStatus_Error t)) (\<lambda>t. Inr (Inl TransportStatus_Error, t, k))
           | Completed bs \<Rightarrow>
               if bs = [] then bind_res (tcp_restore data (tcp_fail Eof t)) (\<lambda>t. Inr (Inl Eof, t, k))
               else
                 let t = t\<lparr>tc_mem := (tc_mem t)(data := (tc_mem t data)\<lparr>dg_sz := length bs\<rparr>)\<rparr> in
                 bind_res (rearm_recv (t, k)) (\<lambda>(_, t, k). Inr (Inr data, t, k))))"

definition tcp_next :: "tcp \<times> uring \<Rightarrow> ((transport_status + ptr) \<times> tcp \<times> uring) res" where
  "tcp_next s =
     (case s of (t, k) \<Rightarrow>
      if is_terminal (tc_status t) then Inr (Inl (tc_status t), t, k)
      else if \<not> tc_armed t then
        bind_res (rearm_recv (t, k)) (\<lambda>(ok, t, k). if \<not> ok then Inr (Inl (tc_status t), t, k) else tcp_complete (t, k))
      else tcp_complete (t, k))"

definition tcp_release :: "ptr \<Rightarrow> tcp \<times> uring \<Rightarrow> (tcp \<times> uring) res" where
  "tcp_release b s = (case s of (t, k) \<Rightarrow> bind_res (tcp_restore b t) (\<lambda>t. Inr (t, k)))"

definition tcp_bytes :: "tcp \<times> uring \<Rightarrow> ptr \<Rightarrow> byte list res" where
  "tcp_bytes s b = buffer_bytes (tc_mem (fst s)) b"

text \<open>The members after the constructor, before the first receive is armed.\<close>

definition TcpSource :: "ptr \<Rightarrow> (ptr \<Rightarrow> dgram) \<Rightarrow> tcp" where
  "TcpSource storage mem =
     \<lparr>tc_pool = ObjectPool storage SIZEOF_io_uring_data TCP_POOL_SIZE, tc_mem = mem, tc_status = WouldBlock, tc_armed = False, tc_shut = False\<rparr>"

text \<open>
  The destructor: the socket is shut down, a receive in flight is waited for, and the ring goes. The
  result says whether an object was still in flight then.
\<close>

definition TcpSource_destroy :: "tcp \<times> uring \<Rightarrow> bool" where
  "TcpSource_destroy s =
     (case s of (t, k) \<Rightarrow> let k = (if tc_armed t then k\<lparr>ur_flight := None\<rparr> else k) in ur_flight k \<noteq> None)"

text \<open>The loop of \<open>send\<close> over the answers to its calls; \<open>None\<close> if it is interrupted forever.\<close>

datatype tcp_sent = Tcp_Sent nat | Tcp_Send_Error errno

partial_function (option) tcp_send_loop :: "(nat \<Rightarrow> tcp_sent) \<Rightarrow> nat \<Rightarrow> tcp_sent option" where
  "tcp_send_loop ans k = (case ans k of Tcp_Send_Error e \<Rightarrow> if e = EINTR then tcp_send_loop ans (Suc k) else Some (ans k) | r \<Rightarrow> Some r)"

definition tcp_send :: "(nat \<Rightarrow> tcp_sent) \<Rightarrow> byte list \<Rightarrow> tcp \<Rightarrow> ((transport_status + unit) \<times> tcp) option" where
  "tcp_send ans d t =
     (if is_terminal (tc_status t) then Some (Inl (tc_status t), t)
      else case tcp_send_loop ans 0 of
        None \<Rightarrow> None
      | Some (Tcp_Send_Error e) \<Rightarrow> Some (Inl TransportStatus_Error, tcp_fail TransportStatus_Error t)
      | Some (Tcp_Sent n) \<Rightarrow> if n \<noteq> length d then Some (Inl TransportStatus_Error, tcp_fail TransportStatus_Error t) else Some (Inr (), t))"

text \<open>
  The constructor: socket, address, connection, options, a second descriptor for sending, the ring. When it throws,
  the wrappers made so far close their descriptors, the last one first.
\<close>

definition tcp_open :: "(string \<Rightarrow> u32 option) \<Rightarrow> answers \<Rightarrow> string \<Rightarrow> u16 \<Rightarrow> (int \<times> int) sys" where
  "tcp_open pton ans ip port =
     with_socket ans (\<lambda>r.
     sys_bind (check r ''socket()'') (\<lambda>sockfd.
     case pton ip of None \<Rightarrow> sys_throw (Runtime_Error ip) | Some addr \<Rightarrow>
     sys_bind (checked ans (Sys_connect addr port) ''connect()'') (\<lambda>_.
     sys_bind (checked ans (Sys_setsockopt ''TCP_NODELAY'' 1) ''setsockopt(TCP_NODELAY)'') (\<lambda>_.
     sys_bind (sys_call ans (Sys_setsockopt ''TCP_QUICKACK'' 1)) (\<lambda>_.
     sys_bind (checked ans (Sys_dup sockfd) ''dup()'') (\<lambda>sendfd calls.
       (case sys_bind (sys_call ans Sys_ring_init) (\<lambda>r. check_neg r ''io_uring_queue_init_params()'') calls of
          (Inl e, calls) \<Rightarrow> (Inl e, FdWrapper_destroy sendfd calls)
        | (Inr _, calls) \<Rightarrow> (Inr (sockfd, sendfd), calls))))))))"

subsection \<open>Invariant\<close>

definition tcp_owned :: "(ptr \<times> byte list) multiset \<Rightarrow> uring \<Rightarrow> ptr multiset" where
  "tcp_owned H k = image_mset fst H + (case ur_flight k of None \<Rightarrow> {#} | Some d \<Rightarrow> {#d#})"

definition tcp_sized :: "ptr set \<Rightarrow> tcp \<Rightarrow> bool" where
  "tcp_sized used t \<longleftrightarrow> pool_ok used (tc_pool t) \<and> op_capacity (tc_pool t) = TCP_POOL_SIZE
     \<and> (\<forall>a \<in> used \<union> set (op_stack (tc_pool t)). length (dg_buf (tc_mem t a)) = IO_URING_BUF_MAX_SZ)"

definition tcp_inv :: "tcp \<times> uring \<Rightarrow> (ptr \<times> byte list) multiset \<Rightarrow> byte list list \<Rightarrow> bool" where
  "tcp_inv s H got \<longleftrightarrow>
     (case s of (t, k) \<Rightarrow> once (tcp_owned H k) \<and> tcp_sized (set_mset (tcp_owned H k)) t
      \<and> (tc_armed t \<longleftrightarrow> ur_flight k \<noteq> None)
      \<and> (\<forall>x \<in># H. buffer_bytes (tc_mem t) (fst x) = Inr (snd x)) \<and> ur_log k = got)"

lemma tcp_invD:
  assumes "tcp_inv (t, k) H got"
  shows "once (tcp_owned H k)" "tcp_sized (set_mset (tcp_owned H k)) t" "tc_armed t \<longleftrightarrow> ur_flight k \<noteq> None"
    "\<And>x. x \<in># H \<Longrightarrow> buffer_bytes (tc_mem t) (fst x) = Inr (snd x)" "ur_log k = got"
  using assms by (simp_all add: tcp_inv_def)

text \<open>Giving an object back.\<close>

lemma tcp_restore_ok:
  assumes "tcp_sized (insert d U) t" "d \<notin> U"
  shows "\<exists>mem pool. tcp_restore d t = Inr (t\<lparr>tc_mem := mem, tc_pool := pool\<rparr>) \<and> tcp_sized U (t\<lparr>tc_mem := mem, tc_pool := pool\<rparr>)
    \<and> (\<forall>a. a \<noteq> d \<longrightarrow> mem a = tc_mem t a)"
proof -
  have pool: "pool_ok (insert d U) (tc_pool t)" "d \<noteq> nullptr" using assms(1) by (auto simp: tcp_sized_def pool_ok_def)
  obtain p where p: "op_restore dg_reset (tc_pool t) (tc_mem t) d = Inr (dg_reset d (tc_mem t), p)" "pool_ok (insert d U - {d}) p"
    "op_stack p = d # op_stack (tc_pool t)" "op_capacity p = op_capacity (tc_pool t)"
    using pool_ok_give [OF pool(1), of d dg_reset "tc_mem t"] by blast
  let ?t = "t\<lparr>tc_mem := dg_reset d (tc_mem t), tc_pool := p\<rparr>"
  have buf: "dg_buf (tc_mem ?t a) = dg_buf (tc_mem t a)" for a by (simp add: dg_reset_def)
  have "tcp_sized U ?t" using assms p(2-4) unfolding tcp_sized_def buf by simp
  moreover have "tcp_restore d t = Inr ?t" using p(1) pool(2) by (simp add: tcp_restore_def buffer_destroy_def)
  ultimately show ?thesis by (intro exI [of _ "dg_reset d (tc_mem t)"] exI [of _ p]) (simp add: dg_reset_def)
qed

lemma held_elsewhere:
  assumes "\<forall>a. a \<noteq> d \<longrightarrow> mem a = mem' a" "d \<notin> fst ` set_mset H" "\<And>x. x \<in># H \<Longrightarrow> buffer_bytes mem' (fst x) = Inr (snd x)" "x \<in># H"
  shows "buffer_bytes mem (fst x) = Inr (snd x)"
proof -
  have "fst x \<noteq> d" using assms(2,4) by blast
  then have "mem (fst x) = mem' (fst x)" using assms(1) by blast
  from buffer_bytes_cong [of mem "fst x" mem', OF this] show ?thesis using assms(3,4) by simp
qed

lemma rearm_recv_ok:
  assumes inv: "tcp_inv (t, k) H got" and idle: "ur_flight k = None"
  shows "\<exists>ok t' k'. rearm_recv (t, k) = Inr (ok, t', k') \<and> tcp_inv (t', k') H got \<and> (ok \<longleftrightarrow> tc_armed t')
    \<and> (tc_status t' = tc_status t \<or> \<not> ok \<and> tc_status t' = TransportStatus_Error)"
proof -
  note v = tcp_invD [OF inv]
  let ?U = "fst ` set_mset H"
  have U: "once (image_mset fst H)" "tcp_sized ?U t" "\<not> tc_armed t" using v(1-3) idle by (simp_all add: tcp_owned_def)
  have "pool_ok ?U (tc_pool t)" using U(2) by (simp add: tcp_sized_def)
  from pool_ok_get [OF this] obtain d p where d: "op_get (tc_pool t) = Inr (d, p)" "pool_ok (if d = nullptr then ?U else insert d ?U) p"
    "d \<notin> ?U" "op_stack (tc_pool t) = (if d = nullptr then [] else d # op_stack p)" "op_capacity p = op_capacity (tc_pool t)" "d = nullptr \<longrightarrow> p = tc_pool t"
    by (elim exE conjE) (rule that)
  let ?t = "t\<lparr>tc_pool := p\<rparr>"
  show ?thesis
  proof (cases "d = nullptr")
    case True
    then have "?t = t" using d(6) by simp
    then show ?thesis using True d(1) inv U(3) by (simp add: rearm_recv_def) blast
  next
    case False
    then have sized: "tcp_sized (insert d ?U) ?t" using U(2) d(2,4,5) by (auto simp: tcp_sized_def)
    from tcp_restore_ok [OF this d(3)] obtain mem pool where r: "tcp_restore d ?t = Inr (?t\<lparr>tc_mem := mem, tc_pool := pool\<rparr>)"
      "tcp_sized ?U (?t\<lparr>tc_mem := mem, tc_pool := pool\<rparr>)" "\<forall>a. a \<noteq> d \<longrightarrow> mem a = tc_mem ?t a"
      by (elim exE conjE) (rule that)
    have mem: "\<forall>a. a \<noteq> d \<longrightarrow> mem a = tc_mem t a" using r(3) by simp
    have held: "buffer_bytes mem (fst x) = Inr (snd x)" if "x \<in># H" for x
      using held_elsewhere [OF mem d(3) v(4) that] by simp
    let ?t' = "?t\<lparr>tc_mem := mem, tc_pool := pool\<rparr>" and ?k = "k\<lparr>ur_sqes := Suc (ur_sqes k)\<rparr>"
    have given: "tcp_inv (?t'\<lparr>tc_shut := sh, tc_status := st\<rparr>, k\<lparr>ur_sqes := a, ur_submits := b\<rparr>) H got" for sh st a b
      using U(1,3) r(2) held v(5) idle by (simp add: tcp_inv_def tcp_owned_def tcp_sized_def)
    show ?thesis
    proof (cases "ur_sqe k (ur_sqes k)")
      case no: False
      have "rearm_recv (t, k) = Inr (False, ?t', ?k)" using d(1) False no r(1) by (simp add: rearm_recv_def)
      then show ?thesis using given [where sh = "tc_shut ?t'" and st = "tc_status ?t'" and a = "Suc (ur_sqes k)" and b = "ur_submits k"] U(3) by auto
    next
      case sqe: True
      show ?thesis
      proof (cases "ur_submit k (ur_submits k) \<le> 0")
        case True
        have "rearm_recv (t, k) = Inr (False, tcp_fail TransportStatus_Error ?t', ?k\<lparr>ur_submits := Suc (ur_submits k)\<rparr>)"
          using d(1) False sqe True r(1) by (simp add: rearm_recv_def Let_def)
        then show ?thesis
          using given [where sh = True and st = TransportStatus_Error and a = "Suc (ur_sqes k)" and b = "Suc (ur_submits k)"] U(3) by (auto simp: tcp_fail_def)
      next
        case submitted: False
        let ?k' = "?k\<lparr>ur_submits := Suc (ur_submits k), ur_flight := Some d\<rparr>"
        have "rearm_recv (t, k) = Inr (True, ?t\<lparr>tc_armed := True\<rparr>, ?k')"
          using d(1) False sqe submitted by (simp add: rearm_recv_def Let_def)
        moreover have "tcp_inv (?t\<lparr>tc_armed := True\<rparr>, ?k') H got"
          using U(1) d(3) sized v(4,5) by (simp add: tcp_inv_def tcp_owned_def tcp_sized_def once_add_mset)
        ultimately show ?thesis by auto
      qed
    qed
  qed
qed

lemma tcp_complete_ok:
  assumes inv: "tcp_inv (t, k) H got" and armed: "tc_armed t" and live: "tc_status t = WouldBlock"
  shows "\<exists>r t' k'. tcp_complete (t, k) = Inr (r, t', k') \<and>
    (case r of Inl e \<Rightarrow> tcp_inv (t', k') H got \<and> e = tc_status t'
     | Inr b \<Rightarrow> \<exists>bs. bs \<noteq> [] \<and> tcp_bytes (t', k') b = Inr bs \<and> tcp_inv (t', k') (add_mset (b, bs) H) (got @ [bs]))"
proof -
  note v = tcp_invD [OF inv]
  let ?U = "fst ` set_mset H"
  obtain d where d: "ur_flight k = Some d" using v(3) armed by auto
  then have U: "d \<notin> ?U" "once (image_mset fst H)" "tcp_sized (insert d ?U) t"
    using v(1,2) by (auto simp: tcp_owned_def once_add_mset)
  let ?k = "k\<lparr>ur_peeks := Suc (ur_peeks k), ur_flight := None\<rparr>"
  have give: "\<exists>t'. tcp_restore d (t\<lparr>tc_mem := mm, tc_armed := False, tc_shut := sh, tc_status := st\<rparr>) = Inr t'
      \<and> tcp_inv (t', ?k) H got \<and> tc_status t' = st"
    if mm: "\<forall>a. a \<noteq> d \<longrightarrow> mm a = tc_mem t a" "dg_buf (mm d) = dg_buf (tc_mem t d)" for mm sh st
  proof -
    let ?t = "t\<lparr>tc_mem := mm, tc_armed := False, tc_shut := sh, tc_status := st\<rparr>"
    have "dg_buf (mm a) = dg_buf (tc_mem t a)" for a using mm by (cases "a = d") simp_all
    then have "tcp_sized (insert d ?U) ?t" using U(3) by (simp add: tcp_sized_def)
    from tcp_restore_ok [OF this U(1)] obtain mem pool where r: "tcp_restore d ?t = Inr (?t\<lparr>tc_mem := mem, tc_pool := pool\<rparr>)"
      "tcp_sized ?U (?t\<lparr>tc_mem := mem, tc_pool := pool\<rparr>)" "\<forall>a. a \<noteq> d \<longrightarrow> mem a = tc_mem ?t a"
      by (elim exE conjE) (rule that)
    have mem: "\<forall>a. a \<noteq> d \<longrightarrow> mem a = tc_mem t a" using r(3) mm by simp
    have held: "buffer_bytes mem (fst x) = Inr (snd x)" if "x \<in># H" for x
      using held_elsewhere [OF mem U(1) v(4) that] by simp
    have "tcp_inv (?t\<lparr>tc_mem := mem, tc_pool := pool\<rparr>, ?k) H got"
      using U(2) r(2) held v(5) by (simp add: tcp_inv_def tcp_owned_def)
    then show ?thesis using r(1) by simp
  qed
  have eta: "t\<lparr>tc_armed := False\<rparr> = t\<lparr>tc_mem := tc_mem t, tc_armed := False, tc_shut := tc_shut t, tc_status := tc_status t\<rparr>"
    "tcp_fail e (t\<lparr>tc_mem := mm, tc_armed := False\<rparr>) = t\<lparr>tc_mem := mm, tc_armed := False, tc_shut := True, tc_status := e\<rparr>"
    "tcp_fail e (t\<lparr>tc_armed := False\<rparr>) = t\<lparr>tc_mem := tc_mem t, tc_armed := False, tc_shut := True, tc_status := e\<rparr>" for e mm
    by (simp_all add: tcp_fail_def)
  show ?thesis
  proof (cases "ur_peek k (ur_peeks k)")
    case None
    have "tcp_inv (t, k\<lparr>ur_peeks := Suc (ur_peeks k)\<rparr>) H got" using inv by (simp add: tcp_inv_def tcp_owned_def)
    then show ?thesis using None live by (simp add: tcp_complete_def peek_cqe_def Let_def)
  next
    case (Some c)
    show ?thesis
    proof (cases c)
      case (Completed_Error e)
      show ?thesis
      proof (cases "e = EAGAIN \<or> e = EINTR")
        case True
        from give [where mm = "tc_mem t" and sh = "tc_shut t" and st = "tc_status t"] obtain t' where t': "tcp_restore d (t\<lparr>tc_armed := False\<rparr>) = Inr t'"
          "tcp_inv (t', ?k) H got" "tc_status t' = tc_status t" unfolding eta(1) [symmetric] by blast
        have "tcp_complete (t, k) = Inr (Inl WouldBlock, t', ?k)"
          using Some Completed_Error d t'(1) True by (auto simp: tcp_complete_def peek_cqe_def Let_def)
        then show ?thesis using t' live by simp
      next
        case False
        from give [where mm = "tc_mem t" and sh = True and st = TransportStatus_Error] obtain t' where t': "tcp_restore d (tcp_fail TransportStatus_Error (t\<lparr>tc_armed := False\<rparr>)) = Inr t'"
          "tcp_inv (t', ?k) H got" "tc_status t' = TransportStatus_Error" unfolding eta(3) [symmetric] by blast
        have "tcp_complete (t, k) = Inr (Inl TransportStatus_Error, t', ?k)"
          using Some Completed_Error d t'(1) False by (simp add: tcp_complete_def peek_cqe_def Let_def)
        then show ?thesis using t' by simp
      qed
    next
      case (Completed bs0)
      define bs where "bs = take IO_URING_BUF_MAX_SZ bs0"
      define mm where "mm = (tc_mem t)(d := (tc_mem t d)\<lparr>dg_buf := bs @ drop (length bs) (dg_buf (tc_mem t d))\<rparr>)"
      show ?thesis
      proof (cases "bs = []")
        case True
        have mm': "\<forall>a. a \<noteq> d \<longrightarrow> mm a = tc_mem t a" "dg_buf (mm d) = dg_buf (tc_mem t d)" using True by (simp_all add: mm_def)
        from give [OF mm', where sh = True and st = Eof] obtain t' where t': "tcp_restore d (t\<lparr>tc_mem := mm, tc_armed := False, tc_shut := True, tc_status := Eof\<rparr>) = Inr t'"
          "tcp_inv (t', ?k) H got" "tc_status t' = Eof" by blast
        have "tcp_complete (t, k) = Inr (Inl Eof, t', ?k)"
          using Some Completed d t'(1) True by (simp add: tcp_complete_def peek_cqe_def Let_def bs_def [symmetric] mm_def tcp_fail_def)
        then show ?thesis using t' by simp
      next
        case False
        let ?mem = "mm(d := (mm d)\<lparr>dg_sz := length bs\<rparr>)"
        let ?t = "t\<lparr>tc_armed := False, tc_mem := ?mem\<rparr>" and ?k' = "?k\<lparr>ur_log := ur_log k @ [bs]\<rparr>"
        have len: "length (dg_buf (tc_mem t d)) = IO_URING_BUF_MAX_SZ" "length bs \<le> IO_URING_BUF_MAX_SZ"
          using U(3) by (simp_all add: tcp_sized_def bs_def)
        have buf: "length (dg_buf (?mem a)) = length (dg_buf (tc_mem t a))" for a
          using len by (cases "a = d") (simp_all add: mm_def)
        have sized: "tcp_sized (insert d ?U) ?t" using U(3) buf by (simp add: tcp_sized_def del: fun_upd_apply)
        have "d \<noteq> nullptr" using U(3) by (auto simp: tcp_sized_def pool_ok_def)
        then have bytes: "buffer_bytes ?mem d = Inr bs" using len by (simp add: buffer_bytes_def mm_def)
        have elsewhere: "\<forall>a. a \<noteq> d \<longrightarrow> ?mem a = tc_mem t a" by (simp add: mm_def)
        have held: "buffer_bytes ?mem (fst x) = Inr (snd x)" if "x \<in># H" for x
          using held_elsewhere [of d ?mem "tc_mem t" H x, OF elsewhere U(1) v(4) that] .
        have inv': "tcp_inv (?t, ?k') (add_mset (d, bs) H) (got @ [bs])"
          using U(1,2) sized bytes held v(5) by (auto simp: tcp_inv_def tcp_owned_def once_add_mset simp del: fun_upd_apply)
        have "ur_flight ?k' = None" by simp
        from rearm_recv_ok [OF inv' this] obtain ok t' k' where r: "rearm_recv (?t, ?k') = Inr (ok, t', k')" "tcp_inv (t', k') (add_mset (d, bs) H) (got @ [bs])"
          by (elim exE conjE) (rule that)
        have "tcp_bytes (t', k') d = Inr bs" using tcp_invD(4) [OF r(2), of "(d, bs)"] by (simp add: tcp_bytes_def)
        moreover have "tcp_complete (t, k) = Inr (Inr d, t', k')"
          using Some Completed d r(1) False by (simp add: tcp_complete_def peek_cqe_def Let_def bs_def [symmetric] mm_def)
        ultimately show ?thesis using r(2) False by auto
      qed
    qed
  qed
qed

lemma tcp_next_ok:
  assumes inv: "tcp_inv (t, k) H got"
  shows "\<exists>r t' k'. tcp_next (t, k) = Inr (r, t', k') \<and>
    (case r of Inl e \<Rightarrow> tcp_inv (t', k') H got \<and> e = tc_status t'
     | Inr b \<Rightarrow> \<exists>bs. bs \<noteq> [] \<and> tcp_bytes (t', k') b = Inr bs \<and> tcp_inv (t', k') (add_mset (b, bs) H) (got @ [bs]))"
proof (cases "is_terminal (tc_status t)")
  case True
  then show ?thesis using inv by (simp add: tcp_next_def)
next
  case False
  then have live: "tc_status t = WouldBlock" by (cases "tc_status t") (simp_all add: is_terminal_def)
  show ?thesis
  proof (cases "tc_armed t")
    case True
    then show ?thesis using tcp_complete_ok [OF inv True live] False by (simp add: tcp_next_def)
  next
    case idle: False
    then have "ur_flight k = None" using tcp_invD(3) [OF inv] by simp
    from rearm_recv_ok [OF inv this] obtain ok t1 k1 where r: "rearm_recv (t, k) = Inr (ok, t1, k1)" "tcp_inv (t1, k1) H got" "ok \<longleftrightarrow> tc_armed t1"
      "tc_status t1 = tc_status t \<or> \<not> ok \<and> tc_status t1 = TransportStatus_Error"
      by (elim exE conjE) (rule that)
    show ?thesis
    proof (cases ok)
      case True
      then have "tc_armed t1" "tc_status t1 = WouldBlock" using r(3,4) live by simp_all
      from tcp_complete_ok [OF r(2) this] show ?thesis using r(1) True False idle by (simp add: tcp_next_def)
    next
      case no: False
      then show ?thesis using r(1,2) False idle by (simp add: tcp_next_def)
    qed
  qed
qed

lemma tcp_release_ok:
  assumes inv: "tcp_inv (t, k) (add_mset (b, bs) H) got"
  shows "\<exists>s'. tcp_release b (t, k) = Inr s' \<and> tcp_inv s' H got"
proof -
  note v = tcp_invD [OF inv]
  have own: "tcp_owned (add_mset (b, bs) H) k = add_mset b (tcp_owned H k)" by (simp add: tcp_owned_def)
  have M: "b \<notin># tcp_owned H k" "once (tcp_owned H k)" "tcp_sized (insert b (set_mset (tcp_owned H k))) t"
    using v(1,2) by (simp_all add: own once_add_mset)
  from tcp_restore_ok [OF M(3,1)] obtain mem pool where r: "tcp_restore b t = Inr (t\<lparr>tc_mem := mem, tc_pool := pool\<rparr>)"
    "tcp_sized (set_mset (tcp_owned H k)) (t\<lparr>tc_mem := mem, tc_pool := pool\<rparr>)" "\<forall>a. a \<noteq> b \<longrightarrow> mem a = tc_mem t a"
    by (elim exE conjE) (rule that)
  have b: "b \<notin> fst ` set_mset H" using M(1) by (auto simp: tcp_owned_def)
  have bytes: "buffer_bytes (tc_mem t) (fst x) = Inr (snd x)" if "x \<in># H" for x using v(4) that by simp
  have "buffer_bytes mem (fst x) = Inr (snd x)" if "x \<in># H" for x
    using held_elsewhere [OF r(3) b bytes that] by simp
  then have "tcp_inv (t\<lparr>tc_mem := mem, tc_pool := pool\<rparr>, k) H got" using v(3,5) M(2) r(2) by (simp add: tcp_inv_def)
  then show ?thesis using r(1) by (simp add: tcp_release_def)
qed

interpretation tc: pooled_transport tcp_next tcp_release tcp_bytes tcp_inv "\<lambda>s. ur_log (snd s)"
proof unfold_locales
  show "\<exists>r s'. tcp_next s = Inr (r, s') \<and>
    (case r of Inl e \<Rightarrow> tcp_inv s' H got | Inr b \<Rightarrow> \<exists>bs. tcp_bytes s' b = Inr bs \<and> tcp_inv s' (add_mset (b, bs) H) (got @ [bs]))"
    if inv: "tcp_inv s H got" for s H got
  proof -
    obtain t k where s: "s = (t, k)" by (cases s)
    from tcp_next_ok [OF inv [unfolded s]] obtain r t' k' where r: "tcp_next (t, k) = Inr (r, t', k')"
      "case r of Inl e \<Rightarrow> tcp_inv (t', k') H got \<and> e = tc_status t'
       | Inr b \<Rightarrow> \<exists>bs. bs \<noteq> [] \<and> tcp_bytes (t', k') b = Inr bs \<and> tcp_inv (t', k') (add_mset (b, bs) H) (got @ [bs])"
      by (elim exE conjE) (rule that)
    then show ?thesis unfolding s by (cases r) auto
  qed
  show "tcp_inv s (add_mset (b, bs) H) got \<Longrightarrow> \<exists>s'. tcp_release b s = Inr s' \<and> tcp_inv s' H got" for s b bs H got
    using tcp_release_ok by (cases s) blast
  show "tcp_inv s H got \<Longrightarrow> (b, bs) \<in># H \<Longrightarrow> tcp_bytes s b = Inr bs" for s H got b bs
    by (cases s) (force simp: tcp_inv_def tcp_bytes_def)
  show "tcp_inv s (mset held) got \<Longrightarrow> distinct (map fst held)" for s held got
    by (cases s) (auto simp: tcp_inv_def tcp_owned_def once_add once_mset simp flip: mset_map)
  show "tcp_inv s H got \<Longrightarrow> prefix got (ur_log (snd s))" for s H got
    by (cases s) (auto simp: tcp_inv_def)
qed

text \<open>The end of the constructor: the first receive is armed.\<close>

definition TcpSource_start :: "ptr \<Rightarrow> (ptr \<Rightarrow> dgram) \<Rightarrow> uring \<Rightarrow> (tcp \<times> uring) res" where
  "TcpSource_start storage mem k = bind_res (rearm_recv (TcpSource storage mem, k)) (\<lambda>(_, s). Inr s)"

lemma tcp_start:
  assumes "storage \<noteq> nullptr" "\<forall>a. length (dg_buf (mem a)) = IO_URING_BUF_MAX_SZ"
  shows "\<exists>s. TcpSource_start storage mem (k\<lparr>ur_flight := None, ur_log := []\<rparr>) = Inr s \<and> tcp_inv s {#} []"
proof -
  let ?k = "k\<lparr>ur_flight := None, ur_log := []\<rparr>"
  have "tcp_inv (TcpSource storage mem, ?k) {#} []"
    using pool_ok_start [OF assms(1), of SIZEOF_io_uring_data TCP_POOL_SIZE] assms(2)
    by (simp add: tcp_inv_def tcp_owned_def tcp_sized_def TcpSource_def SIZEOF_io_uring_data_def ObjectPool_def)
  from rearm_recv_ok [OF this] obtain ok t' k' where "rearm_recv (TcpSource storage mem, ?k) = Inr (ok, t', k')" "tcp_inv (t', k') {#} []"
    by auto
  then show ?thesis by (simp add: TcpSource_start_def)
qed

lemma tcp_terminal: "is_terminal (tc_status t) \<Longrightarrow> tcp_next (t, k) = Inr (Inl (tc_status t), t, k)"
  by (simp add: tcp_next_def)

lemma tcp_send_terminal: "is_terminal (tc_status t) \<Longrightarrow> tcp_send ans d t = Some (Inl (tc_status t), t)"
  by (simp add: tcp_send_def)

lemma tcp_counts:
  assumes "tcp_inv (t, k) (mset held) got"
  shows "length held + (if tc_armed t then 1 else 0) + op_available (tc_pool t) = TCP_POOL_SIZE"
proof -
  note v = tcp_invD [OF assms]
  have "card (set_mset (tcp_owned (mset held) k)) = length held + (if tc_armed t then 1 else 0)"
    using once_size [OF v(1)] v(3) by (auto simp: tcp_owned_def split: option.splits)
  then show ?thesis using v(2) by (simp add: tcp_sized_def pool_ok_def op_available_def)
qed

text \<open>
  C22. The bytes of a TCP connection arrive exactly once and in order, and nobody writes into a buffer in use:
  whatever the ring answers and however a client takes and drops buffers, no call faults; what was handed
  out is what the ring completed, in order; the bytes of a held buffer do not change, no two buffers
  share memory, and the receive in flight uses none of them; a final status is returned for ever after, by
  receiving and by sending; and when the source goes, no receive is in flight.
\<close>

theorem tcp_exactly_once:
  assumes "storage \<noteq> nullptr" "\<forall>a. length (dg_buf (mem a)) = IO_URING_BUF_MAX_SZ"
  shows "\<exists>s t k held got. TcpSource_start storage mem (kn\<lparr>ur_flight := None, ur_log := []\<rparr>) = Inr s
    \<and> client_run tcp_next tcp_release tcp_bytes ops (s, [], []) = Inr ((t, k), held, got) \<and> got = ur_log k
    \<and> (\<forall>(b, bs) \<in> set held. tcp_bytes (t, k) b = Inr bs) \<and> distinct (map fst held) \<and> (\<forall>d. ur_flight k = Some d \<longrightarrow> d \<notin> set (map fst held))
    \<and> length held + (if tc_armed t then 1 else 0) + op_available (tc_pool t) = TCP_POOL_SIZE
    \<and> (\<exists>r t' k'. tcp_next (t, k) = Inr (r, t', k') \<and>
        (\<forall>e. r = Inl e \<longrightarrow> is_terminal e \<longrightarrow> tcp_next (t', k') = Inr (Inl e, t', k') \<and> tcp_send ans d t' = Some (Inl e, t')))
    \<and> \<not> TcpSource_destroy (t, k)"
proof -
  obtain s where s: "TcpSource_start storage mem (kn\<lparr>ur_flight := None, ur_log := []\<rparr>) = Inr s" "tcp_inv s {#} []"
    using tcp_start [OF assms] by blast
  have "tcp_inv s (mset []) []" using s(2) by simp
  from tc.client_run_ok [OF this] obtain s' held got where
    r: "client_run tcp_next tcp_release tcp_bytes ops (s, [], []) = Inr (s', held, got)" "tcp_inv s' (mset held) got" by blast
  obtain t k where s': "s' = (t, k)" by (cases s')
  note inv = r(2) [unfolded s'] and v = tcp_invD [OF r(2) [unfolded s']]
  have "\<forall>(b, bs) \<in> set held. tcp_bytes (t, k) b = Inr bs" using v(4) by (auto simp: tcp_bytes_def)
  moreover have "d \<notin> set (map fst held)" if "ur_flight k = Some d" for d using v(1) that by (auto simp: tcp_owned_def once_add_mset)
  moreover have "\<exists>r t' k'. tcp_next (t, k) = Inr (r, t', k') \<and>
      (\<forall>e. r = Inl e \<longrightarrow> is_terminal e \<longrightarrow> tcp_next (t', k') = Inr (Inl e, t', k') \<and> tcp_send ans d t' = Some (Inl e, t'))"
  proof -
    from tcp_next_ok [OF inv] obtain r t' k' where n: "tcp_next (t, k) = Inr (r, t', k')"
      "case r of Inl e \<Rightarrow> tcp_inv (t', k') (mset held) got \<and> e = tc_status t'
       | Inr b \<Rightarrow> \<exists>bs. bs \<noteq> [] \<and> tcp_bytes (t', k') b = Inr bs \<and> tcp_inv (t', k') (add_mset (b, bs) (mset held)) (got @ [bs])"
      by (elim exE conjE) (rule that)
    have "r = Inl e \<longrightarrow> e = tc_status t'" for e using n(2) by auto
    then show ?thesis using n(1) tcp_terminal tcp_send_terminal by (intro exI [of _ r] exI [of _ t'] exI [of _ k']) blast
  qed
  moreover have "\<not> TcpSource_destroy (t, k)" using v(3) by (simp add: TcpSource_destroy_def Let_def)
  ultimately show ?thesis using s(1) r(1) s' v(5) tc.held_once [OF r(2)] tcp_counts [OF inv] by blast
qed

subsection \<open>Sending and opening\<close>

lemma tcp_send_loop_ends:
  assumes "ans j \<noteq> Tcp_Send_Error EINTR" "\<forall>i < j. ans i = Tcp_Send_Error EINTR" "i \<le> j"
  shows "tcp_send_loop ans i = Some (ans j)"
  using assms(3)
proof (induction "j - i" arbitrary: i)
  case 0
  then have "i = j" by simp
  then show ?case using assms(1) by (subst tcp_send_loop.simps) (auto split: tcp_sent.splits)
next
  case (Suc n)
  then have "tcp_send_loop ans (Suc i) = Some (ans j)" "ans i = Tcp_Send_Error EINTR" using assms(2) by auto
  then show ?case by (subst tcp_send_loop.simps) simp
qed

text \<open>A message is reported as sent exactly when the first call that was not interrupted took all of it.\<close>

lemma tcp_send_spec:
  assumes "ans j \<noteq> Tcp_Send_Error EINTR" "\<forall>i < j. ans i = Tcp_Send_Error EINTR" "\<not> is_terminal (tc_status t)"
  shows "tcp_send ans d t = Some (if ans j = Tcp_Sent (length d) then (Inr (), t) else (Inl TransportStatus_Error, tcp_fail TransportStatus_Error t))"
  using tcp_send_loop_ends [OF assms(1,2), of 0] assms(3) by (cases "ans j") (simp_all add: tcp_send_def)

lemma tcp_open_leaks_nothing:
  "leaks_nothing ans (apfst (map_sum id (\<lambda>(fd, fd'). [fd, fd'])) (tcp_open pton ans ip port []))"
  by (simp add: tcp_open_def Let_def run_sys leaks_nothing_def split: option.split)

text \<open>A receive that completes with three bytes, and then the end of the stream.\<close>

theorem tcp_exactly_once_witness:
  "\<exists>s t k held got. TcpSource_start 4096 (\<lambda>_. \<lparr>dg_buf = replicate IO_URING_BUF_MAX_SZ 0, dg_sz = 0\<rparr>)
      \<lparr>ur_sqe = (\<lambda>_. True), ur_submit = (\<lambda>_. 1), ur_peek = (\<lambda>j. if j = 0 then Some (Completed [7, 8, 9]) else Some (Completed [])),
       ur_sqes = 0, ur_submits = 0, ur_peeks = 0, ur_flight = None, ur_log = []\<rparr> = Inr s
    \<and> client_run tcp_next tcp_release tcp_bytes [Take_Next, Take_Next] (s, [], []) = Inr ((t, k), held, got)
    \<and> got = ur_log k \<and> (\<forall>(b, bs) \<in> set held. tcp_bytes (t, k) b = Inr bs) \<and> \<not> TcpSource_destroy (t, k)"
  using tcp_exactly_once [where storage = 4096 and mem = "\<lambda>_. \<lparr>dg_buf = replicate IO_URING_BUF_MAX_SZ 0, dg_sz = 0\<rparr>"
      and kn = "\<lparr>ur_sqe = (\<lambda>_. True), ur_submit = (\<lambda>_. 1), ur_peek = (\<lambda>j. if j = 0 then Some (Completed [7, 8, 9]) else Some (Completed [])),
       ur_sqes = 0, ur_submits = 0, ur_peeks = 0, ur_flight = None, ur_log = []\<rparr>" and ops = "[Take_Next, Take_Next]"
      and ans = "\<lambda>_. Tcp_Sent 0" and d = "[]"]
  by (auto simp del: client_run.simps)

end
