(* ===== verification/Swiss_Group.thy ===== *)
theory Swiss_Group
  imports Linear_Probing_Table
begin

section \<open>Groups of control bytes (src/common/swiss\_table.hpp)\<close>

text \<open>
  A swiss table looks at a group of control bytes at a time: the top bit of a byte says that its slot is not
  in use, the other bits of a used slot are seven bits of the hash. The four group types of
  the code answer three questions about a group with a mask that has \<open>LANE_BITS\<close> bits per byte.
  The contract they share is a locale: \<open>match_empty\<close> and \<open>match_empty_or_deleted\<close> are exact, \<open>match\<close>
  finds every byte asked for and otherwise only bytes of used slots.
\<close>

definition EMPTY_CTRL :: u8 where "EMPTY_CTRL = 0x80"
definition DELETED_CTRL :: u8 where "DELETED_CTRL = 0xFE"

definition full_ctrl :: "u8 \<Rightarrow> u8" where
  "full_ctrl fprint = fprint AND 0x7F"

definition is_full :: "u8 \<Rightarrow> bool" where
  "is_full c \<longleftrightarrow> c AND 0x80 = 0"

record sgroup =
  sg_width :: nat
  sg_lane_bits :: nat
  sg_match :: "u8 list \<Rightarrow> u8 \<Rightarrow> nat"
  sg_match_empty :: "u8 list \<Rightarrow> nat"
  sg_match_eod :: "u8 list \<Rightarrow> nat"

subsection \<open>The scalar group\<close>

definition scalar_match :: "u8 list \<Rightarrow> u8 \<Rightarrow> nat" where
  "scalar_match ctrl b = foldl (\<lambda>m i. m OR push_bit i (of_bool (ctrl ! i = b))) 0 [0..<16]"

definition scalar_match_eod :: "u8 list \<Rightarrow> nat" where
  "scalar_match_eod ctrl = foldl (\<lambda>m i. m OR push_bit i (unat (drop_bit 7 (ctrl ! i)))) 0 [0..<16]"

definition ScalarGroup :: sgroup where
  "ScalarGroup = \<lparr>sg_width = 16, sg_lane_bits = 1, sg_match = scalar_match,
     sg_match_empty = (\<lambda>ctrl. scalar_match ctrl EMPTY_CTRL), sg_match_eod = scalar_match_eod\<rparr>"

subsection \<open>Eight bytes in a word\<close>

definition LSBS :: u64 where "LSBS = 0x0101010101010101"
definition MSBS :: u64 where "MSBS = 0x8080808080808080"

fun le_value :: "u8 list \<Rightarrow> nat" where
  "le_value [] = 0"
| "le_value (b # bs) = unat b OR push_bit 8 (le_value bs)"

definition swar_load :: "u8 list \<Rightarrow> u64" where
  "swar_load ctrl = word_of_nat (le_value ctrl)"

definition swar_match :: "u8 list \<Rightarrow> u8 \<Rightarrow> nat" where
  "swar_match ctrl b = (let test = ucast b * LSBS; x = swar_load ctrl XOR test in unat ((x - LSBS) AND NOT x AND MSBS))"

definition swar_match_empty :: "u8 list \<Rightarrow> nat" where
  "swar_match_empty ctrl = (let g = swar_load ctrl in unat (g AND NOT (push_bit 6 g) AND MSBS))"

definition swar_match_eod :: "u8 list \<Rightarrow> nat" where
  "swar_match_eod ctrl = unat (swar_load ctrl AND MSBS)"

definition SwarGroup :: sgroup where
  "SwarGroup = \<lparr>sg_width = 8, sg_lane_bits = 8, sg_match = swar_match,
     sg_match_empty = swar_match_empty, sg_match_eod = swar_match_eod\<rparr>"

subsection \<open>The vector groups\<close>

text \<open>\<open>_mm_cmpeq_epi8\<close> with a broadcast byte, and \<open>_mm_movemask_epi8\<close>; the wide ones differ in the number of bytes.\<close>

definition cmpeq_epi8 :: "u8 list \<Rightarrow> u8 \<Rightarrow> u8 list" where
  "cmpeq_epi8 ctrl b = map (\<lambda>c. if c = b then 0xFF else 0) ctrl"

definition movemask_epi8 :: "u8 list \<Rightarrow> nat" where
  "movemask_epi8 cs = foldl (\<lambda>m i. m OR push_bit i (unat (drop_bit 7 (cs ! i)))) 0 [0..<length cs]"

definition Sse2Group :: sgroup where
  "Sse2Group = \<lparr>sg_width = 16, sg_lane_bits = 1, sg_match = (\<lambda>ctrl b. movemask_epi8 (cmpeq_epi8 ctrl b)),
     sg_match_empty = (\<lambda>ctrl. movemask_epi8 (cmpeq_epi8 ctrl EMPTY_CTRL)), sg_match_eod = movemask_epi8\<rparr>"

definition Avx2Group :: sgroup where
  "Avx2Group = \<lparr>sg_width = 32, sg_lane_bits = 1, sg_match = (\<lambda>ctrl b. movemask_epi8 (cmpeq_epi8 ctrl b)),
     sg_match_empty = (\<lambda>ctrl. movemask_epi8 (cmpeq_epi8 ctrl EMPTY_CTRL)), sg_match_eod = movemask_epi8\<rparr>"

subsection \<open>Lanes of a mask\<close>

fun bit_length :: "nat \<Rightarrow> nat" where
  "bit_length n = (if n = 0 then 0 else Suc (bit_length (n div 2)))"

declare bit_length.simps [simp del]

definition countl_zero :: "nat \<Rightarrow> nat \<Rightarrow> nat" where
  "countl_zero digits m = digits - bit_length m"

definition first_lane :: "sgroup \<Rightarrow> nat \<Rightarrow> nat" where
  "first_lane g m = countr_zero m div sg_lane_bits g"

definition last_lanes_clear :: "sgroup \<Rightarrow> nat \<Rightarrow> nat" where
  "last_lanes_clear g m = countl_zero (sg_width g * sg_lane_bits g) m div sg_lane_bits g"

text \<open>The mask whose lanes are set where the flags say so; the set bit is the top bit of its lane.\<close>

fun mask_of :: "nat \<Rightarrow> bool list \<Rightarrow> nat" where
  "mask_of l [] = 0"
| "mask_of l (f # fs) = of_bool f * 2 ^ (l - 1) + 2 ^ l * mask_of l fs"

lemma mask_of_zero: "mask_of l fs = 0 \<longleftrightarrow> True \<notin> set fs"
  by (induction fs) auto

lemma countr_zero_shift: "0 < n \<Longrightarrow> countr_zero (2 ^ a * n) = a + countr_zero n"
proof (induction a)
  case (Suc a)
  then show ?case by (subst countr_zero.simps) (simp add: mult.assoc)
qed simp

lemma countr_zero_odd: "odd n \<Longrightarrow> countr_zero n = 0"
  by (subst countr_zero.simps) (auto dest: odd_pos)

text \<open>The first flag that is set.\<close>

fun first_set :: "bool list \<Rightarrow> nat" where
  "first_set [] = 0"
| "first_set (f # fs) = (if f then 0 else Suc (first_set fs))"

lemma first_set_nth: "True \<in> set fs \<Longrightarrow> first_set fs < length fs \<and> fs ! first_set fs \<and> (\<forall>i < first_set fs. \<not> fs ! i)"
proof (induction fs)
  case (Cons f fs)
  show ?case
  proof (cases f)
    case False
    then have "True \<in> set fs" using Cons.prems by auto
    from Cons.IH [OF this] False show ?thesis by (auto simp: less_Suc_eq_0_disj)
  qed simp
qed simp

lemma countr_zero_mask:
  assumes "0 < l" "True \<in> set fs"
  shows "countr_zero (mask_of l fs) = l * first_set fs + (l - 1)"
  using assms(2)
proof (induction fs)
  case (Cons f fs)
  show ?case
  proof (cases f)
    case True
    obtain m where l: "l = Suc m" using assms(1) by (cases l) auto
    have eq: "mask_of l (f # fs) = 2 ^ (l - 1) * (1 + 2 * mask_of l fs)" using True by (simp add: l algebra_simps)
    have "countr_zero (1 + 2 * mask_of l fs) = 0" by (rule countr_zero_odd) simp
    then show ?thesis unfolding eq using countr_zero_shift [of "1 + 2 * mask_of l fs" "l - 1"] True by simp
  next
    case False
    then have t: "True \<in> set fs" using Cons.prems by auto
    then have "0 < mask_of l fs" using mask_of_zero [of l fs] by simp
    then show ?thesis using countr_zero_shift [of "mask_of l fs" l] Cons.IH [OF t] False by simp
  qed
qed simp

lemma first_lane_mask: "0 < sg_lane_bits g \<Longrightarrow> True \<in> set fs \<Longrightarrow> first_lane g (mask_of (sg_lane_bits g) fs) = first_set fs"
  by (simp add: first_lane_def countr_zero_mask div_nat_eqI)

text \<open>Clearing the lowest bit clears the first flag.\<close>

fun clear_first :: "bool list \<Rightarrow> bool list" where
  "clear_first [] = []"
| "clear_first (f # fs) = (if f then False # fs else f # clear_first fs)"

lemma and_pred_odd: "(2 * q + 1) AND (2 * q + 1 - 1) = 2 * (q :: nat)"
  by (simp add: and_nat_unfold)

lemma and_pred_double: "0 < n \<Longrightarrow> (2 * n) AND (2 * n - 1) = 2 * (n AND (n - 1 :: nat))"
proof -
  assume "0 < n"
  then have "2 * n - 1 = 2 * (n - 1) + 1" by simp
  then show ?thesis by (simp add: and_nat_unfold)
qed

lemma and_pred_shift: "0 < n \<Longrightarrow> (2 ^ a * n) AND (2 ^ a * n - 1) = 2 ^ a * (n AND (n - 1 :: nat))"
proof (induction a)
  case (Suc a)
  then have "0 < 2 ^ a * n" by simp
  from and_pred_double [OF this] Suc show ?case by (simp only: power_Suc mult.assoc)
qed simp

lemma mask_clear_lowest:
  assumes "0 < l" "True \<in> set fs"
  shows "mask_of l fs AND (mask_of l fs - 1) = mask_of l (clear_first fs)"
  using assms(2)
proof (induction fs)
  case (Cons f fs)
  obtain m where l: "l = Suc m" using assms(1) by (cases l) auto
  show ?case
  proof (cases f)
    case True
    have eq: "mask_of l (f # fs) = 2 ^ (l - 1) * (2 * mask_of l fs + 1)" using True by (simp add: l algebra_simps)
    have "mask_of l (clear_first (f # fs)) = 2 ^ (l - 1) * (2 * mask_of l fs)" using True by (simp add: l)
    moreover have pos: "0 < 2 * mask_of l fs + 1" by simp
    ultimately show ?thesis unfolding eq and_pred_shift [OF pos] and_pred_odd by simp
  next
    case False
    then have t: "True \<in> set fs" using Cons.prems by auto
    then have "0 < mask_of l fs" using mask_of_zero [of l fs] by simp
    from and_pred_shift [OF this, of l] show ?thesis using Cons.IH [OF t] False by simp
  qed
qed simp

lemma set_clear_first: "i < length fs \<Longrightarrow> clear_first fs ! i \<longleftrightarrow> fs ! i \<and> i \<noteq> first_set fs"
  by (induction fs arbitrary: i) (auto simp: nth_Cons split: nat.splits)

lemma length_clear_first [simp]: "length (clear_first fs) = length fs"
  by (induction fs) auto

text \<open>The last flag that is set.\<close>

fun last_set :: "bool list \<Rightarrow> nat" where
  "last_set [] = 0"
| "last_set (f # fs) = (if True \<in> set fs then Suc (last_set fs) else 0)"

lemma last_set_nth: "True \<in> set fs \<Longrightarrow> last_set fs < length fs \<and> fs ! last_set fs"
  by (induction fs) auto

lemma bit_length_shift: "0 < n \<Longrightarrow> r < 2 ^ a \<Longrightarrow> bit_length (r + 2 ^ a * n) = a + bit_length n"
proof (induction a arbitrary: r)
  case (Suc a)
  have "(r + 2 ^ Suc a * n) div 2 = r div 2 + 2 ^ a * n" by simp
  moreover have "r div 2 < 2 ^ a" using Suc.prems by simp
  ultimately show ?case using Suc by (subst bit_length.simps) simp
qed simp

lemma bit_length_mask:
  assumes "0 < l" "True \<in> set fs"
  shows "bit_length (mask_of l fs) = l * last_set fs + l"
  using assms(2)
proof (induction fs)
  case (Cons f fs)
  obtain m where l: "l = Suc m" using assms(1) by (cases l) auto
  show ?case
  proof (cases "True \<in> set fs")
    case True
    then have "0 < mask_of l fs" using mask_of_zero [of l fs] by simp
    moreover have "of_bool f * 2 ^ (l - 1) < (2 :: nat) ^ l" by (simp add: l)
    ultimately show ?thesis using bit_length_shift [of "mask_of l fs" "of_bool f * 2 ^ (l - 1)" l] Cons.IH [OF True] True by simp
  next
    case False
    then have "f" "mask_of l fs = 0" using Cons.prems mask_of_zero [of l fs] by auto
    moreover have "bit_length (2 ^ m) = Suc m" using bit_length_shift [of 1 0 m] by (simp add: bit_length.simps)
    ultimately show ?thesis using False by (simp add: l)
  qed
qed simp

lemma last_lanes_clear_mask:
  assumes "0 < sg_lane_bits g" "True \<in> set fs" "length fs = sg_width g"
  shows "last_lanes_clear g (mask_of (sg_lane_bits g) fs) = sg_width g - 1 - last_set fs"
proof -
  let ?l = "sg_lane_bits g" and ?w = "sg_width g"
  have "last_set fs < ?w" using last_set_nth [OF assms(2)] assms(3) by simp
  then have "?w * ?l - (?l * last_set fs + ?l) = (?w - 1 - last_set fs) * ?l"
    by (simp add: algebra_simps diff_mult_distrib2)
  then show ?thesis using bit_length_mask [OF assms(1,2)] assms(1) by (simp add: last_lanes_clear_def countl_zero_def)
qed

subsection \<open>Bytes and bits\<close>

lemma is_full_bit: "is_full c \<longleftrightarrow> \<not> bit c 7"
proof -
  have "(0x80 :: u8) = push_bit 7 1" by simp
  then have "c AND 0x80 = 0 \<longleftrightarrow> \<not> bit c 7" by (metis and_exp_eq_0_iff_not_bit push_bit_of_1)
  then show ?thesis by (simp add: is_full_def)
qed

lemma drop7: "unat (drop_bit 7 c) = of_bool (\<not> is_full c)" for c :: u8
proof -
  have "bit (drop_bit 7 c) n \<longleftrightarrow> n = 0 \<and> bit c 7" for n
    using bit_imp_le_length [of c "7 + n"] by (cases n) (auto simp: bit_drop_bit_eq)
  then have "drop_bit 7 c = of_bool (bit c 7)" by (intro bit_eqI) (auto simp: bit_1_iff)
  then show ?thesis by (simp add: is_full_bit)
qed

lemma mask_of_less: "mask_of 1 fs < 2 ^ length fs"
  by (induction fs) auto

lemma mask_of_snoc: "mask_of 1 (fs @ [f]) = mask_of 1 fs + of_bool f * 2 ^ length fs"
  by (induction fs) simp_all

lemma or_power: "m < 2 ^ n \<Longrightarrow> m OR push_bit n (of_bool f) = m + of_bool f * 2 ^ n" for m :: nat
proof -
  assume m: "m < 2 ^ n"
  then have "\<not> bit m i" if "n \<le> i" for i
    using that by (metis take_bit_nat_eq_self bit_take_bit_iff not_le)
  then have "m + push_bit n (of_bool f) = m OR push_bit n (of_bool f)"
    by (intro disjunctive_add) (auto simp: bit_push_bit_iff bit_1_iff)
  then show ?thesis by (simp add: push_bit_eq_mult)
qed

text \<open>Collecting one bit per byte.\<close>

lemma collect_bits: "foldl (\<lambda>m i. m OR push_bit i (of_bool (P i))) 0 [0..<n] = mask_of 1 (map P [0..<n])"
proof (induction n)
  case (Suc n)
  have "mask_of 1 (map P [0..<n]) < 2 ^ n" using mask_of_less [of "map P [0..<n]"] by simp
  from or_power [OF this, of "P n"] have "mask_of 1 (map P [0..<n]) OR push_bit n (of_bool (P n)) = mask_of 1 (map P [0..<n] @ [P n])"
    unfolding mask_of_snoc by simp
  then show ?case using Suc by simp
qed simp

lemma flags_nth: "length xs = n \<Longrightarrow> mask_of 1 (map (\<lambda>i. P (xs ! i)) [0..<n]) = mask_of 1 (map P xs)"
  by (rule arg_cong [where f = "mask_of 1"], rule nth_equalityI) simp_all

lemma scalar_match_flags: "length ctrl = 16 \<Longrightarrow> scalar_match ctrl b = mask_of 1 (map (\<lambda>c. c = b) ctrl)"
  unfolding scalar_match_def collect_bits by (rule flags_nth)

lemma scalar_match_eod_flags: "length ctrl = 16 \<Longrightarrow> scalar_match_eod ctrl = mask_of 1 (map (\<lambda>c. \<not> is_full c) ctrl)"
  unfolding scalar_match_eod_def drop7 collect_bits by (rule flags_nth)

lemma movemask_flags: "movemask_epi8 cs = mask_of 1 (map (\<lambda>c. \<not> is_full c) cs)"
  unfolding movemask_epi8_def drop7 collect_bits by (rule flags_nth) simp

lemma cmpeq_flags: "mask_of 1 (map (\<lambda>c. \<not> is_full c) (cmpeq_epi8 ctrl b)) = mask_of 1 (map (\<lambda>c. c = b) ctrl)"
  by (rule arg_cong [where f = "mask_of 1"]) (simp add: cmpeq_epi8_def is_full_def)

subsection \<open>Lanes of a 64-bit word\<close>

lemma le_value_bit: "bit (le_value bs) n \<longleftrightarrow> n div 8 < length bs \<and> bit (bs ! (n div 8)) (n mod 8)"
proof (induction bs arbitrary: n)
  case (Cons b bs)
  show ?case
  proof (cases "n < 8")
    case True
    then show ?thesis by (auto simp: bit_or_iff bit_push_bit_iff bit_unsigned_iff)
  next
    case False
    then have "\<not> bit b n" using bit_imp_le_length [of b n] by auto
    moreover have "n div 8 = Suc ((n - 8) div 8)" "(n - 8) mod 8 = n mod 8" using False by (simp_all add: le_div_geq le_mod_geq)
    ultimately show ?thesis using Cons [of "n - 8"] False by (auto simp: bit_or_iff bit_push_bit_iff bit_unsigned_iff)
  qed
qed simp

lemma le_value_Cons: "le_value (b # bs) = unat b + 256 * le_value bs"
proof -
  have "unat b + push_bit 8 (le_value bs) = unat b OR push_bit 8 (le_value bs)"
    using bit_imp_le_length [of b] by (intro disjunctive_add) (auto simp: bit_push_bit_iff bit_unsigned_iff dest: bit_imp_le_length)
  then show ?thesis by (simp add: push_bit_eq_mult)
qed

lemma replicate_8: "replicate 8 x = [x, x, x, x, x, x, x, x]"
  by (simp add: eval_nat_numeral)

lemma load_bit: "length bs = 8 \<Longrightarrow> bit (swar_load bs) n \<longleftrightarrow> n < 64 \<and> bit (bs ! (n div 8)) (n mod 8)"
  by (auto simp: swar_load_def bit_of_nat_iff le_value_bit)

lemma MSBS_bit: "bit MSBS n \<longleftrightarrow> n < 64 \<and> n mod 8 = 7"
proof (cases "n < 64")
  case True
  have "MSBS = swar_load (replicate 8 0x80)" by (simp add: MSBS_def swar_load_def replicate_8 le_value_Cons del: le_value.simps(2))
  then have "bit MSBS n \<longleftrightarrow> bit (0x80 :: u8) (n mod 8)" using load_bit [of "replicate 8 0x80" n] True by simp
  moreover have "bit (0x80 :: u8) k \<longleftrightarrow> k = 7" for k
  proof -
    have "(0x80 :: u8) = push_bit 7 1" by simp
    then show ?thesis by (simp only: bit_push_bit_iff bit_1_iff) auto
  qed
  ultimately show ?thesis using True by metis
next
  case False
  then show ?thesis using bit_imp_le_length [of MSBS n] by auto
qed

lemma mask8_bit: "bit (mask_of 8 fs) n \<longleftrightarrow> n mod 8 = 7 \<and> n div 8 < length fs \<and> fs ! (n div 8)"
proof (induction fs arbitrary: n)
  case (Cons f fs)
  have "of_bool f * 2 ^ 7 + 2 ^ 8 * mask_of 8 fs = push_bit 7 (of_bool f) OR push_bit 8 (mask_of 8 fs)"
  proof -
    have "push_bit 7 (of_bool f) + push_bit 8 (mask_of 8 fs) = push_bit 7 (of_bool f) OR push_bit 8 (mask_of 8 fs)"
      by (intro disjunctive_add) (auto simp: bit_push_bit_iff bit_1_iff bit_Suc_0_iff)
    then show ?thesis by (simp add: push_bit_eq_mult)
  qed
  then have eq: "mask_of 8 (f # fs) = push_bit 7 (of_bool f) OR push_bit 8 (mask_of 8 fs)" by simp
  show ?case
  proof (cases "n < 8")
    case True
    then show ?thesis unfolding eq by (auto simp: bit_or_iff bit_push_bit_iff bit_1_iff bit_Suc_0_iff)
  next
    case False
    then have "n div 8 = Suc ((n - 8) div 8)" "(n - 8) mod 8 = n mod 8" by (simp_all add: le_div_geq le_mod_geq)
    then show ?thesis unfolding eq using Cons [of "n - 8"] False by (auto simp: bit_or_iff bit_push_bit_iff bit_1_iff bit_Suc_0_iff)
  qed
qed simp

text \<open>A word masked with \<open>MSBS\<close> as a mask of lanes.\<close>

lemma msbs_flags: "unat (x AND MSBS) = mask_of 8 (map (\<lambda>i. bit x (8 * i + 7)) [0..<8])"
proof (rule bit_eqI)
  fix n
  show "bit (unat (x AND MSBS)) n \<longleftrightarrow> bit (mask_of 8 (map (\<lambda>i. bit x (8 * i + 7)) [0..<8])) n"
  proof (cases "n < 64 \<and> n mod 8 = 7")
    case True
    then have "8 * (n div 8) + 7 = n" "n div 8 < 8" using mult_div_mod_eq [of 8 n] by simp_all
    then show ?thesis using True by (simp add: mask8_bit bit_unsigned_iff bit_and_iff MSBS_bit)
  next
    case False
    then have "n mod 8 = 7 \<Longrightarrow> \<not> n div 8 < 8" by auto
    then show ?thesis using False by (auto simp: mask8_bit bit_unsigned_iff bit_and_iff MSBS_bit)
  qed
qed

lemma swar_eod_flags:
  assumes "length ctrl = 8"
  shows "swar_match_eod ctrl = mask_of 8 (map (\<lambda>c. \<not> is_full c) ctrl)"
proof -
  have "map (\<lambda>i. bit (swar_load ctrl) (8 * i + 7)) [0..<8] = map (\<lambda>c. \<not> is_full c) ctrl"
    using assms by (intro nth_equalityI) (simp_all add: load_bit is_full_bit)
  then show ?thesis by (simp add: swar_match_eod_def msbs_flags)
qed

lemma swar_empty_flags:
  assumes "length ctrl = 8"
  shows "swar_match_empty ctrl = mask_of 8 (map (\<lambda>c. bit c 7 \<and> \<not> bit c 1) ctrl)"
proof -
  let ?g = "swar_load ctrl"
  have "bit (?g AND NOT (push_bit 6 ?g)) (8 * i + 7) \<longleftrightarrow> bit (ctrl ! i) 7 \<and> \<not> bit (ctrl ! i) 1" if "i < 8" for i
  proof -
    have "8 * i + 7 - 6 = 8 * i + 1" "(8 * i + 1) div 8 = i" "(8 * i + 1) mod 8 = 1" by simp_all
    then have "bit (push_bit 6 ?g) (8 * i + 7) \<longleftrightarrow> bit (ctrl ! i) 1"
      using that load_bit [OF assms, of "8 * i + 1"] by (simp add: bit_push_bit_iff)
    moreover have "bit ?g (8 * i + 7) \<longleftrightarrow> bit (ctrl ! i) 7" using that assms by (simp add: load_bit)
    ultimately show ?thesis using that by (simp add: bit_and_iff bit_not_iff)
  qed
  then have "map (\<lambda>i. bit (?g AND NOT (push_bit 6 ?g)) (8 * i + 7)) [0..<8] = map (\<lambda>c. bit c 7 \<and> \<not> bit c 1) ctrl"
    using assms by (intro nth_equalityI) simp_all
  then show ?thesis using msbs_flags [of "?g AND NOT (push_bit 6 ?g)"] by (simp add: swar_match_empty_def Let_def and.assoc)
qed

text \<open>Subtracting one from every lane: a lane gets its byte less one, and one less again if the lanes below borrow.\<close>

lemma div_diff_borrow:
  fixes X L P :: int
  assumes "0 < P"
  shows "(X - L) div P = X div P - L div P - (if X mod P < L mod P then 1 else 0)"
proof -
  have X: "X = X div P * P + X mod P" and L: "L = L div P * P + L mod P" by simp_all
  have "X - L = (X div P - L div P) * P + (X mod P - L mod P)" by (subst X, subst L) (simp add: algebra_simps)
  then have "(X - L) div P = X div P - L div P + (X mod P - L mod P) div P" using assms by simp
  moreover have "0 \<le> X mod P" "X mod P < P" "0 \<le> L mod P" "L mod P < P" using assms by simp_all
  then have "(X mod P - L mod P) div P = (if X mod P < L mod P then -1 else 0)"
  proof (cases "X mod P < L mod P")
    case True
    moreover have "0 \<le> X mod P - L mod P + P" "X mod P - L mod P + P < P" using True \<open>L mod P < P\<close> \<open>0 \<le> X mod P\<close> by linarith+
    then have "(X mod P - L mod P) div P = -1" using int_div_pos_eq [of "X mod P - L mod P" P "-1" "X mod P - L mod P + P"] by simp
    ultimately show ?thesis by simp
  next
    case False
    then have "0 \<le> X mod P - L mod P" "X mod P - L mod P < P" using \<open>0 \<le> L mod P\<close> \<open>X mod P < P\<close> by linarith+
    then show ?thesis using False by (simp add: div_pos_pos_trivial)
  qed
  ultimately show ?thesis by simp
qed

lemma mod_diff_twice: "(a - b - c) mod m = (a mod m - b mod m - c) mod m" for a b c m :: int
proof -
  have "(a - b - c) mod m = ((a - b) mod m - c) mod m" by (simp only: mod_diff_left_eq)
  also have "\<dots> = ((a mod m - b mod m) mod m - c) mod m" by (simp only: mod_diff_eq)
  also have "\<dots> = (a mod m - b mod m - c) mod m" by (rule mod_diff_left_eq)
  finally show ?thesis .
qed

lemma mod_mult_div: "0 < P \<Longrightarrow> 0 \<le> Q \<Longrightarrow> (Y mod (P * Q)) div P = Y div P mod Q" for Y P Q :: int
  by (simp add: zmod_zmult2_eq)

lemma unat_u8: "unat b < 256" for b :: u8
  using unsigned_less [where 'a = nat, of b] by simp

lemma le_value_lane: "i < length bs \<Longrightarrow> le_value bs div 2 ^ (8 * i) mod 256 = unat (bs ! i)"
proof (induction bs arbitrary: i)
  case (Cons b bs)
  note b = unat_u8 [of b]
  show ?case
  proof (cases i)
    case 0
    then show ?thesis using b by (simp add: le_value_Cons del: le_value.simps(2))
  next
    case (Suc j)
    have "2 ^ (8 * i) = (256 :: nat) * 2 ^ (8 * j)" by (simp add: Suc power_add)
    moreover have "(unat b + 256 * le_value bs) div 256 = le_value bs" using b by simp
    ultimately have "le_value (b # bs) div 2 ^ (8 * i) = le_value bs div 2 ^ (8 * j)"
      by (simp add: le_value_Cons div_mult2_eq del: le_value.simps(2))
    then show ?thesis using Cons Suc by simp
  qed
qed simp

lemma le_value_less: "le_value bs < 256 ^ length bs"
proof (induction bs)
  case (Cons b bs)
  show ?case using Cons unat_u8 [of b] by (simp add: le_value_Cons del: le_value.simps(2))
qed simp

lemma uint_load: "length bs = 8 \<Longrightarrow> uint (swar_load bs) = int (le_value bs)"
  using le_value_less [of bs] by (simp add: swar_load_def unsigned_of_nat take_bit_nat_eq_self)

lemma load_lane: "length bs = 8 \<Longrightarrow> i < 8 \<Longrightarrow> uint (swar_load bs) div 2 ^ (8 * i) mod 256 = uint (bs ! i)"
proof -
  assume "length bs = 8" "i < 8"
  moreover from this have "int (le_value bs div 2 ^ (8 * i) mod 256) = int (unat (bs ! i))" using le_value_lane [of i bs] by simp
  ultimately show ?thesis by (simp add: uint_load zdiv_int zmod_int)
qed

lemma LSBS_load: "swar_load (replicate 8 1) = LSBS"
  by (simp add: LSBS_def swar_load_def replicate_8 le_value_Cons del: le_value.simps(2))

lemma LSBS_lane: "i < 8 \<Longrightarrow> uint LSBS div 2 ^ (8 * i) mod 256 = 1"
  using load_lane [of "replicate 8 1" i] unfolding LSBS_load by simp

lemma swar_lane:
  assumes "i < 8"
  shows "\<exists>c \<in> {0, 1}. uint (x - LSBS) div 2 ^ (8 * i) mod 256 = (uint x div 2 ^ (8 * i) mod 256 - 1 - c) mod 256"
proof -
  let ?P = "2 ^ (8 * i) :: int"
  let ?c = "(if uint x mod ?P < uint LSBS mod ?P then 1 else 0) :: int"
  have "uint (x - LSBS) = (uint x - uint LSBS) mod 2 ^ 64" by (simp add: uint_word_arith_bintrs(2) take_bit_eq_mod)
  moreover have "(2 :: int) ^ 64 = ?P * 2 ^ (64 - 8 * i)" using assms by (simp only: flip: power_add) simp
  ultimately have "uint (x - LSBS) = (uint x - uint LSBS) mod (?P * 2 ^ (64 - 8 * i))" by metis
  then have "uint (x - LSBS) div ?P = (uint x - uint LSBS) div ?P mod 2 ^ (64 - 8 * i)" using mod_mult_div by simp
  moreover have "(256 :: int) dvd 2 ^ (64 - 8 * i)"
  proof -
    have "(2 :: int) ^ 8 dvd 2 ^ (64 - 8 * i)" using assms by (intro le_imp_power_dvd) simp
    then show ?thesis by simp
  qed
  ultimately have "uint (x - LSBS) div ?P mod 256 = (uint x - uint LSBS) div ?P mod 256" by (simp add: mod_mod_cancel)
  also have "\<dots> = (uint x div ?P - uint LSBS div ?P - ?c) mod 256" by (simp add: div_diff_borrow)
  also have "\<dots> = (uint x div ?P mod 256 - uint LSBS div ?P mod 256 - ?c) mod 256"
    by (rule mod_diff_twice)
  also have "\<dots> = (uint x div ?P mod 256 - 1 - ?c) mod 256" using LSBS_lane [OF assms] by simp
  finally show ?thesis by auto
qed

lemma lane_top: "i < 8 \<Longrightarrow> bit x (8 * i + 7) \<longleftrightarrow> 128 \<le> uint x div 2 ^ (8 * i) mod 256" for x :: u64
proof -
  assume i: "i < 8"
  have "bit x (8 * i + 7) \<longleftrightarrow> odd (uint x div 2 ^ (8 * i) div 128)"
  proof -
    from i have "bit x (8 * i + 7) \<longleftrightarrow> bit (uint x) (8 * i + 7)" by (simp add: bit_uint_iff)
    also have "\<dots> \<longleftrightarrow> odd (uint x div 2 ^ (8 * i) div 128)" by (simp add: bit_iff_odd power_add zdiv_zmult2_eq)
    finally show ?thesis .
  qed
  moreover have "odd (y div 128) \<longleftrightarrow> 128 \<le> y mod 256" for y :: int
    using zmod_zmult2_eq [of 2 y 128] by (cases "odd (y div 128)") (simp_all add: odd_iff_mod_2_eq_one even_iff_mod_2_eq_zero)
  ultimately show ?thesis by simp
qed

lemma load_xor: "length ctrl = 8 \<Longrightarrow> swar_load ctrl XOR (ucast b * LSBS) = swar_load (map (\<lambda>c. c XOR b) ctrl)"
proof -
  assume len: "length ctrl = 8"
  have "swar_load (replicate 8 b) = ucast b * LSBS"
  proof -
    have "le_value (replicate 8 b) = unat b * 0x0101010101010101"
      unfolding replicate_8 by (simp add: le_value_Cons del: le_value.simps(2))
    then have "swar_load (replicate 8 b) = word_of_nat (unat b) * word_of_nat 0x0101010101010101" by (simp add: swar_load_def)
    then show ?thesis by (simp add: LSBS_def)
  qed
  moreover have "swar_load ctrl XOR swar_load (replicate 8 b) = swar_load (map (\<lambda>c. c XOR b) ctrl)"
    using len by (intro bit_eqI) (auto simp: bit_xor_iff load_bit)
  ultimately show ?thesis by simp
qed

lemma swar_match_flags:
  assumes len: "length ctrl = 8"
  shows "\<exists>fs. swar_match ctrl b = mask_of 8 fs \<and> length fs = 8 \<and> (\<forall>i < 8. ctrl ! i = b \<longrightarrow> fs ! i)
    \<and> (\<forall>i < 8. fs ! i \<longrightarrow> ctrl ! i = b \<or> ctrl ! i = b XOR 1)"
proof -
  define x where "x = swar_load (map (\<lambda>c. c XOR b) ctrl)"
  let ?fs = "map (\<lambda>i. bit ((x - LSBS) AND NOT x) (8 * i + 7)) [0..<8]"
  have "swar_match ctrl b = mask_of 8 ?fs"
    using msbs_flags [of "(x - LSBS) AND NOT x"] load_xor [OF len, of b] by (simp add: swar_match_def Let_def x_def and.assoc)
  moreover have lane: "?fs ! i \<longleftrightarrow> 128 \<le> uint (x - LSBS) div 2 ^ (8 * i) mod 256 \<and> \<not> 128 \<le> uint (ctrl ! i XOR b)"
    "uint x div 2 ^ (8 * i) mod 256 = uint (ctrl ! i XOR b)" if "i < 8" for i
  proof -
    show l: "uint x div 2 ^ (8 * i) mod 256 = uint (ctrl ! i XOR b)" using load_lane [of "map (\<lambda>c. c XOR b) ctrl" i] len that by (simp add: x_def)
    show "?fs ! i \<longleftrightarrow> 128 \<le> uint (x - LSBS) div 2 ^ (8 * i) mod 256 \<and> \<not> 128 \<le> uint (ctrl ! i XOR b)"
      using that lane_top [OF that, of "x - LSBS"] lane_top [OF that, of x] l by (simp add: bit_and_iff bit_not_iff)
  qed
  moreover have "?fs ! i" if i: "i < 8" "ctrl ! i = b" for i
  proof -
    obtain c where "c \<in> {0, 1}" "uint (x - LSBS) div 2 ^ (8 * i) mod 256 = (uint (ctrl ! i XOR b) - 1 - c) mod 256"
      using swar_lane [OF i(1), of x] unfolding lane(2) [OF i(1)] by (elim bexE)
    then have "128 \<le> uint (x - LSBS) div 2 ^ (8 * i) mod 256" using i(2) by auto
    then show ?thesis using lane(1) [OF i(1)] i(2) by simp
  qed
  moreover have "ctrl ! i = b \<or> ctrl ! i = b XOR 1" if i: "i < 8" "?fs ! i" for i
  proof -
    let ?u = "uint (ctrl ! i XOR b)"
    obtain c where c: "c \<in> {0, 1}" "uint (x - LSBS) div 2 ^ (8 * i) mod 256 = (?u - 1 - c) mod 256"
      using swar_lane [OF i(1), of x] unfolding lane(2) [OF i(1)] by (elim bexE)
    have u: "0 \<le> ?u" "?u < 128" "128 \<le> (?u - 1 - c) mod 256" using lane(1) [OF i(1)] i(2) c(2) by simp_all
    have "?u = 0 \<or> ?u = 1"
    proof (rule ccontr)
      assume "\<not> (?u = 0 \<or> ?u = 1)"
      then have "2 \<le> ?u" using u(1) by linarith
      then have "0 \<le> ?u - 1 - c" "?u - 1 - c < 128" using u(2) c(1) by auto
      then show False using u(3) by simp
    qed
    then have "ctrl ! i XOR b = 0 \<or> ctrl ! i XOR b = 1" by (metis uint_0_eq uint_1_eq word_uint_eq_iff)
    moreover have "ctrl ! i = (ctrl ! i XOR b) XOR b" by (simp add: xor.assoc)
    ultimately show ?thesis by (metis xor.commute xor.left_neutral)
  qed
  ultimately show ?thesis by (intro exI [of _ ?fs]) simp
qed

text \<open>Such a false hit exists: the byte after a match that differs in the lowest bit.\<close>

lemma swar_match_false_hit: "swar_match [5, 4, 0, 0, 0, 0, 0, 0] 5 = 0x8080"
  by code_simp

subsection \<open>The contract\<close>

definition ctrl_ok :: "u8 \<Rightarrow> bool" where
  "ctrl_ok c \<longleftrightarrow> is_full c \<or> c = EMPTY_CTRL \<or> c = DELETED_CTRL"

locale group_ops =
  fixes g :: sgroup
  assumes width: "\<exists>w \<ge> 3. sg_width g = 2 ^ w"
    and lane_bits: "0 < sg_lane_bits g"
    and match_flags: "length ctrl = sg_width g \<Longrightarrow> is_full b \<Longrightarrow>
      \<exists>fs. sg_match g ctrl b = mask_of (sg_lane_bits g) fs \<and> length fs = sg_width g
        \<and> (\<forall>i < sg_width g. ctrl ! i = b \<longrightarrow> fs ! i) \<and> (\<forall>i < sg_width g. fs ! i \<longrightarrow> is_full (ctrl ! i))"
    and empty_flags: "length ctrl = sg_width g \<Longrightarrow> \<forall>c \<in> set ctrl. ctrl_ok c \<Longrightarrow>
      sg_match_empty g ctrl = mask_of (sg_lane_bits g) (map (\<lambda>c. c = EMPTY_CTRL) ctrl)"
    and eod_flags: "length ctrl = sg_width g \<Longrightarrow> sg_match_eod g ctrl = mask_of (sg_lane_bits g) (map (\<lambda>c. \<not> is_full c) ctrl)"

lemma is_full_EMPTY [simp]: "\<not> is_full EMPTY_CTRL" "\<not> is_full DELETED_CTRL"
  by (simp_all add: is_full_def EMPTY_CTRL_def DELETED_CTRL_def)

lemma EMPTY_DELETED [simp]: "DELETED_CTRL \<noteq> EMPTY_CTRL" "EMPTY_CTRL \<noteq> DELETED_CTRL"
  by (simp_all add: EMPTY_CTRL_def DELETED_CTRL_def)

lemma is_full_flip: "is_full b \<Longrightarrow> is_full (b XOR 1)"
  by (simp add: is_full_bit bit_xor_iff bit_1_iff)

lemma exact_flags:
  assumes "length ctrl = n" "is_full b"
  shows "\<exists>fs. mask_of l (map (\<lambda>c. c = b) ctrl) = mask_of l fs \<and> length fs = n
    \<and> (\<forall>i < n. ctrl ! i = b \<longrightarrow> fs ! i) \<and> (\<forall>i < n. fs ! i \<longrightarrow> is_full (ctrl ! i))"
  using assms by (intro exI [of _ "map (\<lambda>c. c = b) ctrl"]) simp

interpretation scalar: group_ops ScalarGroup
proof unfold_locales
  show "\<exists>w \<ge> 3. sg_width ScalarGroup = 2 ^ w" by (intro exI [of _ 4]) (simp add: ScalarGroup_def)
qed (simp_all add: ScalarGroup_def scalar_match_flags scalar_match_eod_flags exact_flags del: One_nat_def)

interpretation sse2: group_ops Sse2Group
proof unfold_locales
  show "\<exists>w \<ge> 3. sg_width Sse2Group = 2 ^ w" by (intro exI [of _ 4]) (simp add: Sse2Group_def)
qed (simp_all add: Sse2Group_def cmpeq_flags movemask_flags exact_flags del: One_nat_def)

interpretation avx2: group_ops Avx2Group
proof unfold_locales
  show "\<exists>w \<ge> 3. sg_width Avx2Group = 2 ^ w" by (intro exI [of _ 5]) (simp add: Avx2Group_def)
qed (simp_all add: Avx2Group_def cmpeq_flags movemask_flags exact_flags del: One_nat_def)

lemma swar_empty_exact:
  assumes "ctrl_ok c"
  shows "bit c 7 \<and> \<not> bit c 1 \<longleftrightarrow> c = EMPTY_CTRL"
proof -
  have "bit EMPTY_CTRL 7" "\<not> bit EMPTY_CTRL 1" "bit DELETED_CTRL 1" by (simp_all add: EMPTY_CTRL_def DELETED_CTRL_def)
  then show ?thesis using assms by (auto simp: ctrl_ok_def is_full_bit)
qed

interpretation swar: group_ops SwarGroup
proof unfold_locales
  show "\<exists>w \<ge> 3. sg_width SwarGroup = 2 ^ w" by (intro exI [of _ 3]) (simp add: SwarGroup_def)
  fix ctrl :: "u8 list" and b :: u8 assume c: "length ctrl = sg_width SwarGroup"
  then have len: "length ctrl = 8" by (simp add: SwarGroup_def)
  show "\<exists>fs. sg_match SwarGroup ctrl b = mask_of (sg_lane_bits SwarGroup) fs \<and> length fs = sg_width SwarGroup
        \<and> (\<forall>i < sg_width SwarGroup. ctrl ! i = b \<longrightarrow> fs ! i) \<and> (\<forall>i < sg_width SwarGroup. fs ! i \<longrightarrow> is_full (ctrl ! i))" if "is_full b"
    using swar_match_flags [OF len, of b] that is_full_flip [OF that] by (simp add: SwarGroup_def) metis
  show "sg_match_empty SwarGroup ctrl = mask_of (sg_lane_bits SwarGroup) (map (\<lambda>c. c = EMPTY_CTRL) ctrl)" if ok: "\<forall>c \<in> set ctrl. ctrl_ok c"
  proof -
    have "map (\<lambda>c. bit c 7 \<and> \<not> bit c 1) ctrl = map (\<lambda>c. c = EMPTY_CTRL) ctrl" using ok swar_empty_exact by (intro map_cong) auto
    from swar_empty_flags [OF len, unfolded this] show ?thesis by (simp add: SwarGroup_def)
  qed
  show "sg_match_eod SwarGroup ctrl = mask_of (sg_lane_bits SwarGroup) (map (\<lambda>c. \<not> is_full c) ctrl)"
    using swar_eod_flags [OF len] by (simp add: SwarGroup_def)
qed (simp add: SwarGroup_def)

end
