(* ===== verification/Swiss_Table.thy ===== *)
theory Swiss_Table
  imports Swiss_Group
begin

section \<open>Swiss table (src/common/swiss\_table.hpp)\<close>

text \<open>
  The control bytes are an array of \<open>capacity\<close> bytes and a copy of the first \<open>WIDTH\<close> of them behind it, so that a
  group can be read from every position. The probe sequence jumps by growing multiples of \<open>WIDTH\<close>. Keys, values and
  the hash are parameters, as is the group type. The endless loops of the code are partial functions; the
  invariant keeps an empty slot, and the strides visit every group of a table whose capacity is a power of two, so they end.
  A removed slot becomes empty again only if no search can have passed over it; otherwise it is marked deleted.
  Sizes are natural numbers: an array has at most \<open>2 ^ 56\<close> slots, and the products of \<open>insert\<close> stay below \<open>2 ^ 64\<close>.
\<close>

record ('k, 'v) swiss =
  st_ctrl :: "u8 list"
  st_data :: "('k \<times> 'v) list"
  st_size :: nat
  st_capacity :: nat
  st_growth_left :: nat
  st_shift :: nat

definition growth_for :: "nat \<Rightarrow> nat" where
  "growth_for capacity = capacity - capacity div 8"

definition st_mask :: "('k, 'v) swiss \<Rightarrow> nat" where
  "st_mask t = st_capacity t - 1"

text \<open>A group read from position \<open>pos\<close>.\<close>

definition read_group :: "sgroup \<Rightarrow> ('k, 'v) swiss \<Rightarrow> nat \<Rightarrow> u8 list res" where
  "read_group g t pos =
     (if pos + sg_width g \<le> length (st_ctrl t) then Inr (take (sg_width g) (drop pos (st_ctrl t))) else Inl Bad_Access)"

definition st_hash :: "('k \<Rightarrow> u64) \<Rightarrow> nat \<Rightarrow> 'k \<Rightarrow> nat \<times> u8" where
  "st_hash hash shift key =
     (let h = hash key in (unat (drop_bit shift h), ucast (drop_bit (shift - 7) h AND 0x7F)))"

definition copy_index :: "sgroup \<Rightarrow> ('k, 'v) swiss \<Rightarrow> nat \<Rightarrow> nat" where
  "copy_index g t pos = (if pos < sg_width g then st_capacity t + pos else pos)"

lemma and_le_nat: "m AND n \<le> (n :: nat)"
proof -
  have "int (m AND n) \<le> int n" using AND_upper2 [of "int n" "int m"] by (simp add: of_nat_and_eq)
  then show ?thesis by simp
qed

text \<open>The inner loop over the lanes of a mask.\<close>

function match_loop :: "sgroup \<Rightarrow> ('k, 'v) swiss \<Rightarrow> 'k \<Rightarrow> nat \<Rightarrow> nat \<Rightarrow> nat option" where
  "match_loop g t key pos m =
     (if m = 0 then None
      else let idx = (pos + first_lane g m) AND st_mask t in
        if fst (st_data t ! idx) = key then Some idx else match_loop g t key pos (m AND (m - 1)))"
  by pat_completeness auto
termination
proof (relation "measure (\<lambda>(_, _, _, _, m). m)")
  fix m :: nat assume "m \<noteq> 0"
  then have "m AND (m - 1) \<le> m - 1" "m - 1 < m" using and_le_nat by simp_all
  then have "m AND (m - 1) < m" by (rule le_less_trans)
  then show "((g, t, key, pos, m AND (m - 1)), (g, t, key, pos, m)) \<in> measure (\<lambda>(_, _, _, _, m). m)"
    for g :: sgroup and t :: "('k, 'v) swiss" and key :: 'k and pos :: nat by simp
qed simp

declare match_loop.simps [simp del]

partial_function (option) find_loop :: "sgroup \<Rightarrow> ('k, 'v) swiss \<Rightarrow> 'k \<Rightarrow> u8 \<Rightarrow> nat \<Rightarrow> nat \<Rightarrow> nat option res option" where
  "find_loop g t key h2 pos stride =
     (case read_group g t pos of
        Inl e \<Rightarrow> Some (Inl e)
      | Inr ctrl \<Rightarrow>
          (case match_loop g t key pos (sg_match g ctrl h2) of
             Some idx \<Rightarrow> Some (Inr (Some idx))
           | None \<Rightarrow>
               if sg_match_empty g ctrl \<noteq> 0 then Some (Inr None)
               else find_loop g t key h2 ((pos + (stride + sg_width g)) AND st_mask t) (stride + sg_width g)))"

definition find_index :: "sgroup \<Rightarrow> ('k, 'v) swiss \<Rightarrow> 'k \<Rightarrow> nat \<times> u8 \<Rightarrow> nat option res" where
  "find_index g t key h = (case find_loop g t key (snd h) (fst h) 0 of None \<Rightarrow> Inl Diverged | Some r \<Rightarrow> r)"

partial_function (option) prepare_loop :: "sgroup \<Rightarrow> ('k, 'v) swiss \<Rightarrow> nat \<Rightarrow> nat \<Rightarrow> nat res option" where
  "prepare_loop g t pos stride =
     (case read_group g t pos of
        Inl e \<Rightarrow> Some (Inl e)
      | Inr ctrl \<Rightarrow>
          let m = sg_match_eod g ctrl in
          if m \<noteq> 0 then Some (Inr ((pos + first_lane g m) AND st_mask t))
          else prepare_loop g t ((pos + (stride + sg_width g)) AND st_mask t) (stride + sg_width g))"

definition prepare_insert :: "sgroup \<Rightarrow> ('k, 'v) swiss \<Rightarrow> nat \<times> u8 \<Rightarrow> nat res" where
  "prepare_insert g t h = (case prepare_loop g t (fst h) 0 of None \<Rightarrow> Inl Diverged | Some r \<Rightarrow> r)"

definition find_or_prepare_insert :: "sgroup \<Rightarrow> ('k, 'v) swiss \<Rightarrow> 'k \<Rightarrow> nat \<times> u8 \<Rightarrow> (bool \<times> nat) res" where
  "find_or_prepare_insert g t key h =
     bind_res (find_index g t key h) (\<lambda>r. case r of
        Some idx \<Rightarrow> Inr (True, idx)
      | None \<Rightarrow> bind_res (prepare_insert g t h) (\<lambda>pos. Inr (False, pos)))"

text \<open>\<open>growth_left_--\<close> wraps around.\<close>

definition place :: "sgroup \<Rightarrow> nat \<Rightarrow> nat \<times> u8 \<Rightarrow> 'k \<times> 'v \<Rightarrow> ('k, 'v) swiss \<Rightarrow> ('k, 'v) swiss" where
  "place g pos h val t =
     (let t = (if st_ctrl t ! pos = EMPTY_CTRL then t\<lparr>st_growth_left := (st_growth_left t + (2 ^ 64 - 1)) mod 2 ^ 64\<rparr> else t);
          c = full_ctrl (snd h) in
      t\<lparr>st_ctrl := (st_ctrl t)[pos := c, copy_index g t pos := c], st_data := (st_data t)[pos := val], st_size := st_size t + 1\<rparr>)"

text \<open>The constructor; \<open>alloc_ok\<close> says which arrays the system has memory for, \<open>zero\<close> is what new slots hold.\<close>

definition SwissTable :: "sgroup \<Rightarrow> (nat \<Rightarrow> bool) \<Rightarrow> 'k \<times> 'v \<Rightarrow> nat \<Rightarrow> lp_exception + ('k, 'v) swiss" where
  "SwissTable g alloc_ok zero capacity =
     (if \<not> alloc_ok capacity then Inl Bad_Alloc
      else if \<not> has_single_bit capacity \<or> capacity < sg_width g then Inl Runtime_Error
      else Inr \<lparr>st_ctrl = replicate (capacity + sg_width g) EMPTY_CTRL, st_data = replicate capacity zero, st_size = 0,
                st_capacity = capacity, st_growth_left = growth_for capacity, st_shift = 64 - countr_zero capacity\<rparr>)"

fun st_rehash_loop :: "sgroup \<Rightarrow> ('k \<Rightarrow> u64) \<Rightarrow> ('k, 'v) swiss \<Rightarrow> nat list \<Rightarrow> ('k, 'v) swiss \<Rightarrow> ('k, 'v) swiss res" where
  "st_rehash_loop g hash t [] fresh = Inr fresh"
| "st_rehash_loop g hash t (i # is) fresh =
     (if is_full (st_ctrl t ! i) then
        let h = st_hash hash (st_shift fresh) (fst (st_data t ! i)) in
        bind_res (prepare_insert g fresh h) (\<lambda>pos. st_rehash_loop g hash t is (place g pos h (st_data t ! i) fresh))
      else st_rehash_loop g hash t is fresh)"

definition st_rehash :: "sgroup \<Rightarrow> ('k \<Rightarrow> u64) \<Rightarrow> (nat \<Rightarrow> bool) \<Rightarrow> 'k \<times> 'v \<Rightarrow> nat \<Rightarrow> ('k, 'v) swiss \<Rightarrow> (bool \<times> ('k, 'v) swiss) res" where
  "st_rehash g hash alloc_ok zero new_capacity t =
     (case SwissTable g alloc_ok zero new_capacity of
        Inl _ \<Rightarrow> Inr (False, t)
      | Inr fresh \<Rightarrow> bind_res (st_rehash_loop g hash t [0..<st_capacity t] fresh) (\<lambda>fresh. Inr (True, fresh)))"

definition st_insert :: "sgroup \<Rightarrow> ('k \<Rightarrow> u64) \<Rightarrow> (nat \<Rightarrow> bool) \<Rightarrow> 'k \<times> 'v \<Rightarrow> 'k \<Rightarrow> 'v \<Rightarrow> ('k, 'v) swiss \<Rightarrow> (bool \<times> ('k, 'v) swiss) res" where
  "st_insert g hash alloc_ok zero key val t =
     (let h = st_hash hash (st_shift t) key in
      bind_res (find_or_prepare_insert g t key h) (\<lambda>(found, pos).
      if found then Inr (False, t)
      else if st_growth_left t = 0 \<and> st_ctrl t ! pos = EMPTY_CTRL then
        let mostly_deleted = st_size t * 32 \<le> st_capacity t * 25 in
        bind_res (st_rehash g hash alloc_ok zero (if mostly_deleted then st_capacity t else st_capacity t * 2) t) (\<lambda>(ok, t).
        if \<not> ok then Inr (False, t)
        else
          let h = st_hash hash (st_shift t) key in
          bind_res (prepare_insert g t h) (\<lambda>pos. Inr (True, place g pos h (key, val) t)))
      else Inr (True, place g pos h (key, val) t)))"

definition st_find :: "sgroup \<Rightarrow> ('k \<Rightarrow> u64) \<Rightarrow> 'k \<Rightarrow> ('k, 'v) swiss \<Rightarrow> 'v option res" where
  "st_find g hash key t =
     bind_res (find_index g t key (st_hash hash (st_shift t) key)) (\<lambda>r. case r of
        None \<Rightarrow> Inr None | Some idx \<Rightarrow> Inr (Some (snd (st_data t ! idx))))"

text \<open>\<open>(pos - WIDTH) & mask()\<close> is a difference of unsigned 64-bit numbers.\<close>

definition group_before :: "sgroup \<Rightarrow> ('k, 'v) swiss \<Rightarrow> nat \<Rightarrow> nat" where
  "group_before g t pos = unat ((word_of_nat pos - word_of_nat (sg_width g) :: u64) AND word_of_nat (st_mask t))"

definition set_ctrl :: "sgroup \<Rightarrow> nat \<Rightarrow> u8 \<Rightarrow> ('k, 'v) swiss \<Rightarrow> ('k, 'v) swiss" where
  "set_ctrl g pos c t = t\<lparr>st_ctrl := (st_ctrl t)[pos := c, copy_index g t pos := c]\<rparr>"

definition st_erase :: "sgroup \<Rightarrow> ('k \<Rightarrow> u64) \<Rightarrow> 'k \<Rightarrow> ('k, 'v) swiss \<Rightarrow> (bool \<times> ('k, 'v) swiss) res" where
  "st_erase g hash key t =
     bind_res (find_index g t key (st_hash hash (st_shift t) key)) (\<lambda>r. case r of
        None \<Rightarrow> Inr (False, t)
      | Some pos \<Rightarrow>
          let t = t\<lparr>st_size := st_size t - 1\<rparr> in
          bind_res (read_group g t pos) (\<lambda>after.
          bind_res (read_group g t (group_before g t pos)) (\<lambda>before.
          let empty_after = sg_match_empty g after; empty_before = sg_match_empty g before;
              never_in_full_window = (empty_before \<noteq> 0 \<and> empty_after \<noteq> 0
                \<and> first_lane g empty_after + last_lanes_clear g empty_before < sg_width g) in
          Inr (True, if never_in_full_window then set_ctrl g pos EMPTY_CTRL t\<lparr>st_growth_left := st_growth_left t + 1\<rparr>
                     else set_ctrl g pos DELETED_CTRL t))))"

subsection \<open>The probe sequence\<close>

text \<open>The position of the \<open>k\<close>-th group: the strides add up to triangular numbers.\<close>

definition triangle :: "nat \<Rightarrow> nat" where
  "triangle k = k * Suc k div 2"

definition probe :: "nat \<Rightarrow> nat \<Rightarrow> nat \<Rightarrow> nat \<Rightarrow> nat" where
  "probe w cap h k = (h + w * triangle k) mod cap"

lemma triangle_double: "2 * triangle k = k * Suc k"
  unfolding triangle_def by (intro dvd_mult_div_cancel) simp

lemma triangle_Suc: "triangle (Suc k) = triangle k + Suc k"
proof -
  have "2 * triangle (Suc k) = 2 * (triangle k + Suc k)" unfolding triangle_double distrib_left by simp
  then show ?thesis by simp
qed

lemma triangle_mono: "a \<le> b \<Longrightarrow> triangle a \<le> triangle b"
  unfolding triangle_def by (intro div_le_mono mult_le_mono) simp_all

lemma probe_0: "h < cap \<Longrightarrow> probe w cap h 0 = h"
  by (simp add: probe_def triangle_def)

lemma probe_Suc: "(probe w cap h k + (w * k + w)) mod cap = probe w cap h (Suc k)"
proof -
  have "(probe w cap h k + (w * k + w)) mod cap = (h + w * triangle k + (w * k + w)) mod cap"
    unfolding probe_def by (simp only: mod_add_left_eq)
  also have "h + w * triangle k + (w * k + w) = h + w * triangle (Suc k)" by (simp add: triangle_Suc algebra_simps)
  finally show ?thesis unfolding probe_def .
qed

lemma triangle_inj:
  assumes "a < 2 ^ j" "b < 2 ^ j" "triangle a mod 2 ^ j = triangle b mod 2 ^ j" "a \<le> b"
  shows "a = b"
proof -
  have "2 ^ j dvd triangle b - triangle a" using assms(3) triangle_mono [OF assms(4)] by (metis mod_eq_dvd_iff_nat)
  then have "2 * 2 ^ j dvd 2 * (triangle b - triangle a)" by (rule mult_dvd_mono [OF dvd_refl])
  moreover have "2 * (triangle b - triangle a) = (b - a) * (a + b + 1)"
  proof -
    obtain d where "b = a + d" using assms(4) le_Suc_ex by blast
    then show ?thesis unfolding diff_mult_distrib2 triangle_double by (simp add: algebra_simps)
  qed
  ultimately have dvd: "2 ^ Suc j dvd (b - a) * (a + b + 1)" by (simp only: power_Suc)
  have "odd (b - a) \<or> odd (a + b + 1)" using assms(4) by (cases "odd a"; cases "odd b") auto
  then have "coprime (2 ^ Suc j) (b - a) \<or> coprime (2 ^ Suc j) (a + b + 1)" by (auto simp: coprime_left_2_iff_odd)
  then have "2 ^ Suc j dvd (a + b + 1) \<or> 2 ^ Suc j dvd (b - a)" using dvd coprime_dvd_mult_right_iff coprime_dvd_mult_left_iff by metis
  moreover have "\<not> 2 ^ Suc j dvd (a + b + 1)"
  proof
    assume "2 ^ Suc j dvd (a + b + 1)"
    then have "2 ^ Suc j \<le> a + b + 1" by (intro dvd_imp_le) simp_all
    then show False using assms(1,2) by simp
  qed
  ultimately have "b - a = 0" using dvd_imp_le [of "2 ^ Suc j" "b - a"] assms(2) by (cases "b - a = 0") auto
  then show ?thesis using assms(4) by simp
qed

lemma triangle_surj:
  assumes "q < 2 ^ j"
  shows "\<exists>k < 2 ^ j. triangle k mod 2 ^ j = q"
proof -
  let ?f = "\<lambda>k. triangle k mod 2 ^ j" and ?A = "{..<(2 :: nat) ^ j}"
  have "inj_on ?f ?A"
  proof (rule inj_onI)
    fix a b assume "a \<in> ?A" "b \<in> ?A" "?f a = ?f b"
    then show "a = b" using triangle_inj [of a j b] triangle_inj [of b j a] by (cases "a \<le> b") auto
  qed
  then have "?f ` ?A = ?A" by (intro endo_inj_surj) auto
  then have "q \<in> ?f ` ?A" using assms by simp
  then show ?thesis by auto
qed

text \<open>Every slot is in one of the groups of the probe sequence.\<close>

lemma probes_cover:
  assumes "cap = w * 2 ^ j" "0 < w" "i < cap" "h < cap"
  shows "\<exists>k r. r < w \<and> i = (probe w cap h k + r) mod cap"
proof -
  define d where "d = (i + cap - h) mod cap"
  have "d < cap" using assms(3) by (simp add: d_def)
  then have "d div w < 2 ^ j" using assms(1,2) by (simp add: less_mult_imp_div_less mult.commute)
  from triangle_surj [OF this] obtain k where k: "triangle k mod 2 ^ j = d div w" by blast
  have "w * triangle k mod cap = w * (triangle k mod 2 ^ j)" unfolding assms(1) by (rule mult_mod_right [symmetric])
  then have "w * triangle k mod cap = w * (d div w)" unfolding k .
  moreover have "(w * triangle k + d mod w) mod cap = (w * triangle k mod cap + d mod w) mod cap" by (simp only: mod_add_left_eq)
  ultimately have "(w * triangle k + d mod w) mod cap = (w * (d div w) + d mod w) mod cap" by (simp only:)
  then have "(w * triangle k + d mod w) mod cap = d mod cap" by simp
  then have "(h + (w * triangle k + d mod w)) mod cap = (h + d) mod cap" by (metis mod_add_right_eq)
  moreover have "(h + d) mod cap = (h + (i + cap - h)) mod cap" unfolding d_def by (simp only: mod_add_right_eq)
  moreover have "(h + (i + cap - h)) mod cap = i" using assms(3,4) by simp
  moreover have "(probe w cap h k + d mod w) mod cap = (h + (w * triangle k + d mod w)) mod cap"
    unfolding probe_def by (simp only: mod_add_left_eq add.assoc)
  ultimately show ?thesis using assms(2) by (metis mod_less_divisor)
qed

subsection \<open>Groups as windows of slots\<close>

definition st_shape :: "sgroup \<Rightarrow> ('k, 'v) swiss \<Rightarrow> bool" where
  "st_shape g t \<longleftrightarrow> (\<exists>c \<le> 56. st_capacity t = 2 ^ c \<and> st_shift t = 64 - c) \<and> sg_width g \<le> st_capacity t
     \<and> length (st_ctrl t) = st_capacity t + sg_width g \<and> length (st_data t) = st_capacity t
     \<and> (\<forall>i < sg_width g. st_ctrl t ! (st_capacity t + i) = st_ctrl t ! i) \<and> (\<forall>i < st_capacity t. ctrl_ok (st_ctrl t ! i))"

text \<open>The slots of the group at \<open>pos\<close>.\<close>

definition slots_at :: "sgroup \<Rightarrow> ('k, 'v) swiss \<Rightarrow> nat \<Rightarrow> nat set" where
  "slots_at g t pos = (\<lambda>r. (pos + r) mod st_capacity t) ` {..<sg_width g}"

definition empty_in :: "sgroup \<Rightarrow> ('k, 'v) swiss \<Rightarrow> nat \<Rightarrow> bool" where
  "empty_in g t pos \<longleftrightarrow> (\<exists>i \<in> slots_at g t pos. st_ctrl t ! i = EMPTY_CTRL)"

context group_ops
begin

lemma shape_mask: "st_shape g t \<Longrightarrow> x AND st_mask t = x mod st_capacity t"
  by (auto simp: st_shape_def st_mask_def)

lemma width_pos: "0 < sg_width g"
  using width by auto

lemma capacity_pos: "st_shape g t \<Longrightarrow> 0 < st_capacity t"
  by (auto simp: st_shape_def)

lemma capacity_groups: "st_shape g t \<Longrightarrow> \<exists>j. st_capacity t = sg_width g * 2 ^ j"
proof -
  assume shape: "st_shape g t"
  obtain c w where "st_capacity t = 2 ^ c" "sg_width g = 2 ^ w" "w \<le> c"
    using shape width unfolding st_shape_def by (metis power_le_imp_le_exp one_less_numeral_iff semiring_norm(76))
  then show ?thesis by (intro exI [of _ "c - w"]) (simp flip: power_add)
qed

lemma group_nth:
  assumes "st_shape g t" "pos < st_capacity t"
  shows "read_group g t pos = Inr (take (sg_width g) (drop pos (st_ctrl t)))" "length (take (sg_width g) (drop pos (st_ctrl t))) = sg_width g"
    "\<And>i. i < sg_width g \<Longrightarrow> take (sg_width g) (drop pos (st_ctrl t)) ! i = st_ctrl t ! ((pos + i) mod st_capacity t)"
proof -
  have len: "length (st_ctrl t) = st_capacity t + sg_width g" using assms(1) by (simp add: st_shape_def)
  show "read_group g t pos = Inr (take (sg_width g) (drop pos (st_ctrl t)))" "length (take (sg_width g) (drop pos (st_ctrl t))) = sg_width g"
    using len assms(2) by (simp_all add: read_group_def)
  show "take (sg_width g) (drop pos (st_ctrl t)) ! i = st_ctrl t ! ((pos + i) mod st_capacity t)" if "i < sg_width g" for i
  proof (cases "pos + i < st_capacity t")
    case True
    then show ?thesis using that len by simp
  next
    case False
    then have "(pos + i) mod st_capacity t = pos + i - st_capacity t" "pos + i - st_capacity t < sg_width g"
      using assms that False unfolding st_shape_def by (auto simp: le_mod_geq)
    moreover from this have "st_ctrl t ! (pos + i) = st_ctrl t ! (pos + i - st_capacity t)"
      using assms(1) False unfolding st_shape_def by (metis le_add_diff_inverse not_less)
    ultimately show ?thesis using that len assms(2) by simp
  qed
qed

lemma slots_less: "st_shape g t \<Longrightarrow> i \<in> slots_at g t pos \<Longrightarrow> i < st_capacity t"
  using capacity_pos [of t] by (auto simp: slots_at_def)

lemma group_ok:
  assumes "st_shape g t" "pos < st_capacity t"
  shows "\<forall>c \<in> set (take (sg_width g) (drop pos (st_ctrl t))). ctrl_ok c"
proof -
  have "ctrl_ok (take (sg_width g) (drop pos (st_ctrl t)) ! i)" if "i < sg_width g" for i
    using group_nth(3) [OF assms that] assms(1) capacity_pos [OF assms(1)] by (simp add: st_shape_def)
  then show ?thesis using group_nth(2) [OF assms] by (metis in_set_conv_nth)
qed

lemma match_loop_flags:
  assumes "length fs = sg_width g"
  shows "case match_loop g t key pos (mask_of (sg_lane_bits g) fs) of
      Some idx \<Rightarrow> \<exists>i < sg_width g. fs ! i \<and> idx = (pos + i) AND st_mask t \<and> fst (st_data t ! idx) = key
    | None \<Rightarrow> \<forall>i < sg_width g. fs ! i \<longrightarrow> fst (st_data t ! ((pos + i) AND st_mask t)) \<noteq> key"
  using assms
proof (induction "mask_of (sg_lane_bits g) fs" arbitrary: fs rule: less_induct)
  case less
  let ?m = "mask_of (sg_lane_bits g) fs"
  show ?case
  proof (cases "True \<in> set fs")
    case False
    then have "match_loop g t key pos ?m = None" using mask_of_zero [of "sg_lane_bits g" fs] by (subst match_loop.simps) simp
    moreover have "\<not> fs ! i" if "i < sg_width g" for i using False that less.prems nth_mem [of i fs] by (cases "fs ! i") auto
    ultimately show ?thesis by auto
  next
    case True
    let ?f = "first_set fs"
    have f: "?f < sg_width g" "fs ! ?f" using first_set_nth [OF True] less.prems by auto
    have m: "?m \<noteq> 0" "first_lane g ?m = ?f" "?m AND (?m - 1) = mask_of (sg_lane_bits g) (clear_first fs)"
      using True mask_of_zero [of "sg_lane_bits g" fs] first_lane_mask [OF lane_bits True] mask_clear_lowest [OF lane_bits True] by auto
    show ?thesis
    proof (cases "fst (st_data t ! ((pos + ?f) AND st_mask t)) = key")
      case found: True
      then have "match_loop g t key pos ?m = Some ((pos + ?f) AND st_mask t)" using m by (subst match_loop.simps) (simp add: Let_def)
      then show ?thesis using f found by auto
    next
      case other: False
      then have step: "match_loop g t key pos ?m = match_loop g t key pos (mask_of (sg_lane_bits g) (clear_first fs))"
        using m by (subst match_loop.simps) (simp add: Let_def)
      have "mask_of (sg_lane_bits g) (clear_first fs) < ?m" using m and_le_nat [of ?m "?m - 1"] by simp
      from less.hyps [OF this] less.prems have IH: "case match_loop g t key pos (mask_of (sg_lane_bits g) (clear_first fs)) of
          Some idx \<Rightarrow> \<exists>i < sg_width g. clear_first fs ! i \<and> idx = (pos + i) AND st_mask t \<and> fst (st_data t ! idx) = key
        | None \<Rightarrow> \<forall>i < sg_width g. clear_first fs ! i \<longrightarrow> fst (st_data t ! ((pos + i) AND st_mask t)) \<noteq> key" by simp
      have clear: "clear_first fs ! i \<longleftrightarrow> fs ! i \<and> i \<noteq> ?f" if "i < sg_width g" for i using set_clear_first [of i fs] that less.prems by simp
      show ?thesis
      proof (cases "match_loop g t key pos ?m")
        case None
        then show ?thesis using IH step clear other by (auto simp del: One_nat_def)
      next
        case (Some idx)
        then show ?thesis using IH step clear by auto
      qed
    qed
  qed
qed

end

context group_ops
begin

lemma empty_mask:
  assumes "st_shape g t" "pos < st_capacity t"
  shows "sg_match_empty g (take (sg_width g) (drop pos (st_ctrl t))) \<noteq> 0 \<longleftrightarrow> empty_in g t pos"
proof -
  let ?w = "take (sg_width g) (drop pos (st_ctrl t))"
  note n = group_nth [OF assms]
  have "sg_match_empty g ?w \<noteq> 0 \<longleftrightarrow> (\<exists>c \<in> set ?w. c = EMPTY_CTRL)"
    using empty_flags [OF n(2) group_ok [OF assms]] mask_of_zero by auto
  also have "\<dots> \<longleftrightarrow> (\<exists>i < sg_width g. ?w ! i = EMPTY_CTRL)" using n(2) by (metis in_set_conv_nth)
  also have "\<dots> \<longleftrightarrow> empty_in g t pos" using n(3) by (auto simp: empty_in_def slots_at_def)
  finally show ?thesis .
qed

text \<open>One group of a search: the key is found, or it is in no slot of the group with its bits.\<close>

lemma find_loop_group:
  assumes shape: "st_shape g t" and pos: "pos < st_capacity t" and h2: "is_full h2"
  shows "(\<exists>idx < st_capacity t. find_loop g t key h2 pos stride = Some (Inr (Some idx)) \<and> is_full (st_ctrl t ! idx) \<and> fst (st_data t ! idx) = key)
    \<or> (\<forall>i \<in> slots_at g t pos. st_ctrl t ! i = h2 \<longrightarrow> fst (st_data t ! i) \<noteq> key)
      \<and> find_loop g t key h2 pos stride =
        (if empty_in g t pos then Some (Inr None)
         else find_loop g t key h2 ((pos + (stride + sg_width g)) mod st_capacity t) (stride + sg_width g))"
proof -
  let ?w = "take (sg_width g) (drop pos (st_ctrl t))"
  note n = group_nth [OF shape pos] and mask = shape_mask [OF shape]
  obtain fs where fs: "sg_match g ?w h2 = mask_of (sg_lane_bits g) fs" "length fs = sg_width g"
    "\<forall>i < sg_width g. ?w ! i = h2 \<longrightarrow> fs ! i" "\<forall>i < sg_width g. fs ! i \<longrightarrow> is_full (?w ! i)"
    using match_flags [OF n(2) h2] by blast
  note loop = match_loop_flags [OF fs(2), where t = t and key = key and pos = pos]
  show ?thesis
  proof (cases "match_loop g t key pos (sg_match g ?w h2)")
    case (Some idx)
    then obtain i where i: "i < sg_width g" "fs ! i" "idx = (pos + i) mod st_capacity t" "fst (st_data t ! idx) = key"
      using loop fs(1) mask by auto
    then have "is_full (st_ctrl t ! idx)" "idx < st_capacity t" using fs(4) n(3) capacity_pos [OF shape] by auto
    moreover have "find_loop g t key h2 pos stride = Some (Inr (Some idx))" using n(1) Some by (subst find_loop.simps) simp
    ultimately show ?thesis using i(4) by blast
  next
    case None
    have "fst (st_data t ! i) \<noteq> key" if "i \<in> slots_at g t pos" "st_ctrl t ! i = h2" for i
    proof -
      obtain r where "r < sg_width g" "i = (pos + r) mod st_capacity t" using \<open>i \<in> _\<close> by (auto simp: slots_at_def)
      then show ?thesis using that(2) None loop fs(1,3) n(3) mask by auto
    qed
    moreover have "find_loop g t key h2 pos stride =
        (if empty_in g t pos then Some (Inr None) else find_loop g t key h2 ((pos + (stride + sg_width g)) mod st_capacity t) (stride + sg_width g))"
      using n(1) None empty_mask [OF shape pos] mask by (subst find_loop.simps) simp
    ultimately show ?thesis by blast
  qed
qed

lemma prepare_loop_group:
  assumes shape: "st_shape g t" and pos: "pos < st_capacity t"
  shows "(\<exists>idx \<in> slots_at g t pos. prepare_loop g t pos stride = Some (Inr idx) \<and> \<not> is_full (st_ctrl t ! idx))
    \<or> (\<forall>i \<in> slots_at g t pos. is_full (st_ctrl t ! i))
      \<and> prepare_loop g t pos stride = prepare_loop g t ((pos + (stride + sg_width g)) mod st_capacity t) (stride + sg_width g)"
proof -
  let ?w = "take (sg_width g) (drop pos (st_ctrl t))" and ?fs = "map (\<lambda>c. \<not> is_full c) (take (sg_width g) (drop pos (st_ctrl t)))"
  note n = group_nth [OF shape pos] and mask = shape_mask [OF shape]
  have m: "sg_match_eod g ?w = mask_of (sg_lane_bits g) ?fs" using eod_flags [OF n(2)] .
  have len: "length ?fs = sg_width g" using n(2) by simp
  show ?thesis
  proof (cases "True \<in> set ?fs")
    case True
    let ?i = "first_set ?fs"
    have i: "?i < sg_width g" "\<not> is_full (?w ! ?i)" using first_set_nth [OF True] n(2) by auto
    have "sg_match_eod g ?w \<noteq> 0" using m mask_of_zero [of "sg_lane_bits g" ?fs] True by simp
    then have "prepare_loop g t pos stride = Some (Inr ((pos + ?i) mod st_capacity t))"
      using n(1) m first_lane_mask [OF lane_bits True] mask by (subst prepare_loop.simps) (simp add: Let_def)
    moreover have "(pos + ?i) mod st_capacity t \<in> slots_at g t pos" using i(1) by (auto simp: slots_at_def)
    moreover have "\<not> is_full (st_ctrl t ! ((pos + ?i) mod st_capacity t))" using i n(3) by simp
    ultimately show ?thesis by blast
  next
    case False
    have "is_full (?w ! i)" if "i < sg_width g" for i using False that len nth_mem [of i ?fs] n(2) by (cases "is_full (?w ! i)") auto
    then have "\<forall>i \<in> slots_at g t pos. is_full (st_ctrl t ! i)" using n(3) by (auto simp: slots_at_def)
    moreover have "sg_match_eod g ?w = 0" using m mask_of_zero [of "sg_lane_bits g" ?fs] False by simp
    then have "prepare_loop g t pos stride = prepare_loop g t ((pos + (stride + sg_width g)) mod st_capacity t) (stride + sg_width g)"
      using n(1) mask by (subst prepare_loop.simps) (simp add: Let_def)
    ultimately show ?thesis by blast
  qed
qed

end

subsection \<open>Invariant\<close>

abbreviation st_probe :: "sgroup \<Rightarrow> ('k, 'v) swiss \<Rightarrow> nat \<Rightarrow> nat \<Rightarrow> nat" where
  "st_probe g t h k \<equiv> probe (sg_width g) (st_capacity t) h k"

text \<open>Slot \<open>i\<close> is found from the hash \<open>h\<close>: it is in a group of the probe sequence before which no group has an empty slot.\<close>

definition reaches :: "sgroup \<Rightarrow> ('k, 'v) swiss \<Rightarrow> nat \<Rightarrow> nat \<Rightarrow> bool" where
  "reaches g t h i \<longleftrightarrow> (\<exists>k. i \<in> slots_at g t (st_probe g t h k) \<and> (\<forall>k' < k. \<not> empty_in g t (st_probe g t h k')))"

definition used_slots :: "('k, 'v) swiss \<Rightarrow> nat set" where
  "used_slots t = {i. i < st_capacity t \<and> is_full (st_ctrl t ! i)}"

definition empty_slots :: "('k, 'v) swiss \<Rightarrow> nat set" where
  "empty_slots t = {i. i < st_capacity t \<and> st_ctrl t ! i = EMPTY_CTRL}"

definition slots_ok :: "sgroup \<Rightarrow> ('k \<Rightarrow> u64) \<Rightarrow> ('k, 'v) swiss \<Rightarrow> bool" where
  "slots_ok g hash t \<longleftrightarrow> (\<forall>i \<in> used_slots t. let h = st_hash hash (st_shift t) (fst (st_data t ! i)) in
     st_ctrl t ! i = snd h \<and> reaches g t (fst h) i)"

definition keys_once :: "('k, 'v) swiss \<Rightarrow> bool" where
  "keys_once t \<longleftrightarrow> inj_on (\<lambda>i. fst (st_data t ! i)) (used_slots t)"

definition st_inv :: "sgroup \<Rightarrow> ('k \<Rightarrow> u64) \<Rightarrow> ('k, 'v) swiss \<Rightarrow> bool" where
  "st_inv g hash t \<longleftrightarrow> st_shape g t \<and> slots_ok g hash t \<and> keys_once t \<and> st_size t = card (used_slots t)
     \<and> st_growth_left t + st_capacity t div 8 = card (empty_slots t)"

definition st_map :: "('k, 'v) swiss \<Rightarrow> 'k \<rightharpoonup> 'v" where
  "st_map t = map_of (map ((!) (st_data t)) (filter (\<lambda>i. is_full (st_ctrl t ! i)) [0..<st_capacity t]))"

lemma used_less: "i \<in> used_slots t \<Longrightarrow> i < st_capacity t"
  by (simp add: used_slots_def)

lemma finite_slots [simp]: "finite (used_slots t)" "finite (empty_slots t)"
  by (simp_all add: used_slots_def empty_slots_def)

lemma st_map_Some:
  assumes "keys_once t"
  shows "st_map t k = Some v \<longleftrightarrow> (\<exists>i \<in> used_slots t. st_data t ! i = (k, v))"
proof -
  let ?is = "filter (\<lambda>i. is_full (st_ctrl t ! i)) [0..<st_capacity t]"
  have set: "set ?is = used_slots t" by (auto simp: used_slots_def)
  have "distinct (map fst (map ((!) (st_data t)) ?is))"
    using assms unfolding keys_once_def distinct_map map_map set [symmetric] by (simp add: comp_def)
  from map_of_eq_Some_iff [OF this, of k v] have "st_map t k = Some v \<longleftrightarrow> (k, v) \<in> (!) (st_data t) ` used_slots t"
    unfolding st_map_def set_map set .
  also have "\<dots> \<longleftrightarrow> (\<exists>i \<in> used_slots t. st_data t ! i = (k, v))" unfolding image_iff by (rule bex_cong) auto
  finally show ?thesis .
qed

lemma st_map_None:
  assumes "keys_once t"
  shows "st_map t k = None \<longleftrightarrow> (\<forall>i \<in> used_slots t. fst (st_data t ! i) \<noteq> k)"
proof -
  have "st_map t k = Some v \<longleftrightarrow> (\<exists>i \<in> used_slots t. st_data t ! i = (k, v))" for v using st_map_Some [OF assms] .
  then have "(\<exists>v. st_map t k = Some v) \<longleftrightarrow> (\<exists>i \<in> used_slots t. \<exists>v. st_data t ! i = (k, v))" by (simp only:) blast
  moreover have "(\<exists>v. p = (k, v)) \<longleftrightarrow> fst p = k" for p :: "'a \<times> 'b" by (cases p) auto
  ultimately show ?thesis by (cases "st_map t k") auto
qed

lemma st_hash_full: "is_full (snd (st_hash hash shift key))"
proof -
  have "\<not> bit (ucast (x AND 0x7F) :: u8) 7" for x :: u64
  proof -
    have "(0x7F :: u64) = mask 7" by (simp add: mask_eq_exp_minus_1)
    then have "\<not> bit (x AND 0x7F) 7" by (simp only: bit_and_iff bit_mask_iff) simp
    then show ?thesis by (simp add: bit_unsigned_iff)
  qed
  then show ?thesis by (simp add: st_hash_def Let_def is_full_bit)
qed

lemma full_ctrl_id: "is_full c \<Longrightarrow> full_ctrl c = c"
proof -
  assume full: "is_full c"
  have m: "(0x7F :: u8) = mask 7" by (simp add: mask_eq_exp_minus_1)
  show ?thesis unfolding full_ctrl_def m
  proof (rule bit_word_eqI)
    fix n assume "n < LENGTH(8)"
    then show "bit (c AND mask 7) n = bit c n" using full by (cases "n = 7") (auto simp: bit_and_iff bit_mask_iff is_full_bit)
  qed
qed

lemma st_hash_less:
  assumes "st_shape g t"
  shows "fst (st_hash hash (st_shift t) key) < st_capacity t"
proof -
  obtain c where c: "c \<le> 56" "st_capacity t = 2 ^ c" "st_shift t = 64 - c" using assms by (auto simp: st_shape_def)
  have "unat (drop_bit (64 - c) h) < 2 ^ c" for h :: u64
  proof -
    have "unat (drop_bit (64 - c) h) = drop_bit (64 - c) (unat h)" by (rule unat_drop_bit_eq)
    then have "unat (drop_bit (64 - c) h) = unat h div 2 ^ (64 - c)" unfolding drop_bit_eq_div [where a = "unat h"] .
    moreover have "unat h < 2 ^ c * 2 ^ (64 - c)"
      using unsigned_less [where 'a = nat, of h] c(1) by (simp flip: power_add)
    ultimately show ?thesis by (simp add: less_mult_imp_div_less)
  qed
  then show ?thesis using c by (simp add: st_hash_def Let_def)
qed

subsection \<open>Searching\<close>

context group_ops
begin

lemma st_invD:
  assumes "st_inv g hash t"
  shows "st_shape g t" "slots_ok g hash t" "keys_once t" "st_size t = card (used_slots t)"
    "st_growth_left t + st_capacity t div 8 = card (empty_slots t)"
  using assms by (simp_all add: st_inv_def)

lemma empty_exists: "st_inv g hash t \<Longrightarrow> empty_slots t \<noteq> {}"
proof -
  assume inv: "st_inv g hash t"
  note v = st_invD [OF inv]
  obtain w where "w \<ge> 3" "sg_width g = 2 ^ w" using width by blast
  then have "8 \<le> sg_width g" using power_increasing [of 3 w "2 :: nat"] by simp
  then have "1 \<le> st_capacity t div 8" using v(1) by (simp add: st_shape_def div_greater_zero_iff Suc_le_eq)
  then have "0 < card (empty_slots t)" using v(5) by linarith
  then show ?thesis by (auto simp: card_gt_0_iff)
qed

lemma probes_find:
  assumes "st_shape g t" "h < st_capacity t" "i < st_capacity t"
  shows "\<exists>k. i \<in> slots_at g t (st_probe g t h k)"
proof -
  obtain j where j: "st_capacity t = sg_width g * 2 ^ j" using capacity_groups [OF assms(1)] by blast
  from probes_cover [OF j width_pos assms(3,2)] show ?thesis by (auto simp: slots_at_def)
qed

lemma probes_empty:
  assumes "st_shape g t" "h < st_capacity t" "empty_slots t \<noteq> {}"
  shows "\<exists>K. empty_in g t (st_probe g t h K)"
proof -
  obtain e where e: "e < st_capacity t" "st_ctrl t ! e = EMPTY_CTRL" using assms(3) by (auto simp: empty_slots_def)
  from probes_find [OF assms(1,2) e(1)] show ?thesis using e(2) unfolding empty_in_def by blast
qed

lemma probe_less: "st_shape g t \<Longrightarrow> st_probe g t h k < st_capacity t"
  using capacity_pos [of t] by (simp add: probe_def)

lemma find_search:
  assumes shape: "st_shape g t" and h2: "is_full h2" and K: "empty_in g t (st_probe g t h K)" and "k \<le> K"
    and "\<forall>k' < k. \<forall>i \<in> slots_at g t (st_probe g t h k'). st_ctrl t ! i = h2 \<longrightarrow> fst (st_data t ! i) \<noteq> key"
  shows "\<exists>r. find_loop g t key h2 (st_probe g t h k) (sg_width g * k) = Some (Inr r) \<and>
    (case r of Some idx \<Rightarrow> idx \<in> used_slots t \<and> fst (st_data t ! idx) = key
     | None \<Rightarrow> \<exists>m. empty_in g t (st_probe g t h m) \<and>
         (\<forall>k' \<le> m. \<forall>i \<in> slots_at g t (st_probe g t h k'). st_ctrl t ! i = h2 \<longrightarrow> fst (st_data t ! i) \<noteq> key))"
  using assms(4,5)
proof (induction "K - k" arbitrary: k)
  case 0
  then have "k = K" by simp
  then show ?case using find_loop_group [OF shape probe_less [OF shape] h2, of key h k "sg_width g * k"] K 0
    by (elim disjE) (force simp: used_slots_def, auto simp: le_less intro!: exI [of _ K])
next
  case (Suc d)
  let ?p = "st_probe g t h k"
  from find_loop_group [OF shape probe_less [OF shape] h2, of key h k "sg_width g * k"] show ?case
  proof (elim disjE)
    assume "\<exists>idx < st_capacity t. find_loop g t key h2 ?p (sg_width g * k) = Some (Inr (Some idx)) \<and> is_full (st_ctrl t ! idx) \<and> fst (st_data t ! idx) = key"
    then show ?thesis by (force simp: used_slots_def)
  next
    assume n: "(\<forall>i \<in> slots_at g t ?p. st_ctrl t ! i = h2 \<longrightarrow> fst (st_data t ! i) \<noteq> key) \<and> find_loop g t key h2 ?p (sg_width g * k) =
        (if empty_in g t ?p then Some (Inr None) else find_loop g t key h2 ((?p + (sg_width g * k + sg_width g)) mod st_capacity t) (sg_width g * k + sg_width g))"
    show ?thesis
    proof (cases "empty_in g t ?p")
      case True
      then show ?thesis using n Suc.prems(2) by (auto simp: le_less intro!: exI [of _ k])
    next
      case False
      then have step: "find_loop g t key h2 ?p (sg_width g * k) = find_loop g t key h2 (st_probe g t h (Suc k)) (sg_width g * Suc k)"
        using n probe_Suc [of "sg_width g" "st_capacity t" h k] by (simp add: add.commute [of "sg_width g"])
      have "d = K - Suc k" "Suc k \<le> K" using Suc.hyps(2) by simp_all
      moreover have "\<forall>k' < Suc k. \<forall>i \<in> slots_at g t (st_probe g t h k'). st_ctrl t ! i = h2 \<longrightarrow> fst (st_data t ! i) \<noteq> key"
        using n Suc.prems(2) by (auto simp: less_Suc_eq)
      ultimately show ?thesis unfolding step by (rule Suc.hyps(1))
    qed
  qed
qed

lemma find_index_ok:
  assumes inv: "st_inv g hash t"
  shows "\<exists>r. find_index g t key (st_hash hash (st_shift t) key) = Inr r \<and>
    (case r of Some idx \<Rightarrow> idx \<in> used_slots t \<and> fst (st_data t ! idx) = key | None \<Rightarrow> \<forall>i \<in> used_slots t. fst (st_data t ! i) \<noteq> key)"
proof -
  note v = st_invD [OF inv]
  let ?h = "fst (st_hash hash (st_shift t) key)" and ?h2 = "snd (st_hash hash (st_shift t) key)"
  have h: "?h < st_capacity t" using st_hash_less [OF v(1)] .
  obtain K where K: "empty_in g t (st_probe g t ?h K)" using probes_empty [OF v(1) h empty_exists [OF inv]] by blast
  from find_search [OF v(1) st_hash_full [of hash "st_shift t" key] K, where k = 0 and key = key] obtain r where
    r: "find_loop g t key ?h2 (st_probe g t ?h 0) (sg_width g * 0) = Some (Inr r)"
      "case r of Some idx \<Rightarrow> idx \<in> used_slots t \<and> fst (st_data t ! idx) = key
       | None \<Rightarrow> \<exists>m. empty_in g t (st_probe g t ?h m) \<and>
         (\<forall>k' \<le> m. \<forall>i \<in> slots_at g t (st_probe g t ?h k'). st_ctrl t ! i = ?h2 \<longrightarrow> fst (st_data t ! i) \<noteq> key)" by blast
  have "find_index g t key (st_hash hash (st_shift t) key) = Inr r" using r(1) probe_0 [OF h] by (simp add: find_index_def)
  moreover have "\<forall>i \<in> used_slots t. fst (st_data t ! i) \<noteq> key" if None: "r = None"
  proof (intro ballI notI)
    fix i assume i: "i \<in> used_slots t" "fst (st_data t ! i) = key"
    then have ci: "st_ctrl t ! i = ?h2" "reaches g t ?h i" using v(2) by (auto simp: slots_ok_def Let_def)
    then obtain k where k: "i \<in> slots_at g t (st_probe g t ?h k)" "\<forall>k' < k. \<not> empty_in g t (st_probe g t ?h k')" by (auto simp: reaches_def)
    obtain m where m: "empty_in g t (st_probe g t ?h m)"
      "\<forall>k' \<le> m. \<forall>i \<in> slots_at g t (st_probe g t ?h k'). st_ctrl t ! i = ?h2 \<longrightarrow> fst (st_data t ! i) \<noteq> key" using r(2) None by auto
    then have "k \<le> m" using k(2) not_less by blast
    then show False using m(2) k(1) ci(1) i(2) by blast
  qed
  ultimately show ?thesis using r(2) by (intro exI [of _ r]) (auto split: option.splits)
qed

lemma prepare_search:
  assumes shape: "st_shape g t" and K: "empty_in g t (st_probe g t h K)" and "k \<le> K"
    and "\<forall>k' < k. \<not> empty_in g t (st_probe g t h k')"
  shows "\<exists>idx. prepare_loop g t (st_probe g t h k) (sg_width g * k) = Some (Inr idx) \<and> idx < st_capacity t \<and> \<not> is_full (st_ctrl t ! idx) \<and> reaches g t h idx"
  using assms(3,4)
proof (induction "K - k" arbitrary: k)
  case 0
  then have "k = K" by simp
  then show ?case using prepare_loop_group [OF shape probe_less [OF shape], of h k "sg_width g * k"] K 0 slots_less [OF shape]
    by (elim disjE) (force simp: reaches_def, auto simp: empty_in_def)
next
  case (Suc d)
  let ?p = "st_probe g t h k"
  from prepare_loop_group [OF shape probe_less [OF shape], of h k "sg_width g * k"] show ?case
  proof (elim disjE)
    assume "\<exists>idx \<in> slots_at g t ?p. prepare_loop g t ?p (sg_width g * k) = Some (Inr idx) \<and> \<not> is_full (st_ctrl t ! idx)"
    then show ?thesis using Suc.prems(2) slots_less [OF shape] by (force simp: reaches_def)
  next
    assume n: "(\<forall>i \<in> slots_at g t ?p. is_full (st_ctrl t ! i)) \<and>
      prepare_loop g t ?p (sg_width g * k) = prepare_loop g t ((?p + (sg_width g * k + sg_width g)) mod st_capacity t) (sg_width g * k + sg_width g)"
    then have step: "prepare_loop g t ?p (sg_width g * k) = prepare_loop g t (st_probe g t h (Suc k)) (sg_width g * Suc k)"
      using probe_Suc [of "sg_width g" "st_capacity t" h k] by (simp add: add.commute [of "sg_width g"])
    have "\<not> empty_in g t ?p" using n by (auto simp: empty_in_def)
    then have "\<forall>k' < Suc k. \<not> empty_in g t (st_probe g t h k')" using Suc.prems(2) by (auto simp: less_Suc_eq)
    moreover have "d = K - Suc k" "Suc k \<le> K" using Suc.hyps(2) by simp_all
    ultimately show ?thesis unfolding step using Suc.hyps(1) by blast
  qed
qed

lemma prepare_insert_ok:
  assumes "st_shape g t" "fst h < st_capacity t" "empty_slots t \<noteq> {}"
  shows "\<exists>idx. prepare_insert g t h = Inr idx \<and> idx < st_capacity t \<and> \<not> is_full (st_ctrl t ! idx) \<and> reaches g t (fst h) idx"
proof -
  obtain K where "empty_in g t (st_probe g t (fst h) K)" using probes_empty [OF assms] by blast
  from prepare_search [OF assms(1) this, of 0] show ?thesis using probe_0 [OF assms(2)] by (auto simp: prepare_insert_def)
qed

end

subsection \<open>Changing a slot\<close>

lemma ctrl_ok_full: "is_full c \<Longrightarrow> ctrl_ok c"
  by (simp add: ctrl_ok_def)

context group_ops
begin

lemma set_ctrl_ok:
  assumes shape: "st_shape g t" and pos: "pos < st_capacity t" and c: "ctrl_ok c"
  shows "st_shape g (set_ctrl g pos c t)"
    "\<And>i. i < st_capacity t \<Longrightarrow> st_ctrl (set_ctrl g pos c t) ! i = (if i = pos then c else st_ctrl t ! i)"
proof -
  let ?ctrl = "(st_ctrl t)[pos := c, copy_index g t pos := c]"
  have s: "length (st_ctrl t) = st_capacity t + sg_width g" "\<forall>i < sg_width g. st_ctrl t ! (st_capacity t + i) = st_ctrl t ! i"
    "\<forall>i < st_capacity t. ctrl_ok (st_ctrl t ! i)" "sg_width g \<le> st_capacity t" using shape by (simp_all add: st_shape_def)
  have nth: "?ctrl ! i = (if i = pos then c else st_ctrl t ! i)" if "i < st_capacity t" for i
    using that pos s(1) by (auto simp: copy_index_def nth_list_update)
  have mirror: "?ctrl ! (st_capacity t + i) = ?ctrl ! i" if "i < sg_width g" for i
  proof -
    have "?ctrl ! i = (if i = pos then c else st_ctrl t ! i)" using nth that s(4) by simp
    moreover have "?ctrl ! (st_capacity t + i) = (if i = pos then c else st_ctrl t ! (st_capacity t + i))"
      using that pos s(1) by (auto simp: copy_index_def nth_list_update)
    ultimately show ?thesis using s(2) that by simp
  qed
  show "st_ctrl (set_ctrl g pos c t) ! i = (if i = pos then c else st_ctrl t ! i)" if "i < st_capacity t" for i
    using nth [OF that] by (simp add: set_ctrl_def)
  show "st_shape g (set_ctrl g pos c t)"
    using shape mirror nth s(1,3) c unfolding st_shape_def set_ctrl_def by simp
qed

text \<open>Fewer empty slots make nothing harder to find.\<close>

lemma reaches_mono:
  assumes "st_capacity t' = st_capacity t" "st_shape g t" "empty_slots t' \<subseteq> empty_slots t" "reaches g t h i"
  shows "reaches g t' h i"
proof -
  have slots: "slots_at g t' p = slots_at g t p" for p using assms(1) by (simp add: slots_at_def)
  have "empty_in g t p" if e: "empty_in g t' p" for p
  proof -
    obtain i where "i \<in> slots_at g t p" "st_ctrl t' ! i = EMPTY_CTRL" using e unfolding empty_in_def slots by (elim bexE)
    moreover from this have "i \<in> empty_slots t'" using slots_less [OF assms(2)] assms(1) by (auto simp: empty_slots_def)
    ultimately show ?thesis using assms(3) by (auto simp: empty_in_def empty_slots_def)
  qed
  then show ?thesis using assms(4) unfolding reaches_def slots assms(1) by blast
qed

lemma growth_bound: "st_inv g hash t \<Longrightarrow> st_growth_left t < 2 ^ 64"
proof -
  assume inv: "st_inv g hash t"
  note v = st_invD [OF inv]
  have "card (empty_slots t) \<le> card {..<st_capacity t}" by (rule card_mono) (auto simp: empty_slots_def)
  moreover obtain c where "c \<le> 56" "st_capacity t = 2 ^ c" using v(1) by (auto simp: st_shape_def)
  moreover from this have "(2 :: nat) ^ c \<le> 2 ^ 56" by (intro power_increasing) simp_all
  ultimately show ?thesis using v(5) by simp
qed

lemma place_eq:
  "place g pos h val t = (set_ctrl g pos (full_ctrl (snd h)) t)
     \<lparr>st_growth_left := (if st_ctrl t ! pos = EMPTY_CTRL then (st_growth_left t + (2 ^ 64 - 1)) mod 2 ^ 64 else st_growth_left t),
      st_data := (st_data t)[pos := val], st_size := st_size t + 1\<rparr>"
  by (simp add: place_def set_ctrl_def copy_index_def Let_def)

lemma place_ok:
  assumes inv: "st_inv g hash t" and pos: "pos < st_capacity t" "\<not> is_full (st_ctrl t ! pos)"
    and h: "h = st_hash hash (st_shift t) (fst val)" and reach: "reaches g t (fst h) pos"
    and new: "\<forall>i \<in> used_slots t. fst (st_data t ! i) \<noteq> fst val" and room: "st_ctrl t ! pos = EMPTY_CTRL \<Longrightarrow> 0 < st_growth_left t"
  shows "st_inv g hash (place g pos h val t)" "used_slots (place g pos h val t) = insert pos (used_slots t)"
    "st_map (place g pos h val t) = (st_map t)(fst val \<mapsto> snd val)" "st_capacity (place g pos h val t) = st_capacity t"
    "st_shift (place g pos h val t) = st_shift t"
proof -
  note v = st_invD [OF inv]
  let ?t = "place g pos h val t"
  have full: "is_full (snd h)" unfolding h by (rule st_hash_full)
  then have c: "full_ctrl (snd h) = snd h" by (rule full_ctrl_id)
  note sc = set_ctrl_ok [OF v(1) pos(1) ctrl_ok_full [OF full]]
  have ctrl: "st_ctrl ?t ! i = (if i = pos then snd h else st_ctrl t ! i)" if "i < st_capacity t" for i
    using sc(2) [OF that] unfolding place_eq c by simp
  show cap: "st_capacity ?t = st_capacity t" and shift: "st_shift ?t = st_shift t" unfolding place_eq by (simp_all add: set_ctrl_def)
  have len: "length (st_data t) = st_capacity t" using v(1) by (simp add: st_shape_def)
  have data: "st_data ?t ! i = (if i = pos then val else st_data t ! i)" if "i < st_capacity t" for i
    using that len pos(1) unfolding place_eq by (simp add: nth_list_update)
  have shape: "st_shape g ?t" using sc(1) unfolding st_shape_def place_eq c by (simp add: set_ctrl_def)
  show used: "used_slots ?t = insert pos (used_slots t)" using ctrl pos(1) full cap by (auto simp: used_slots_def)
  have notin: "pos \<notin> used_slots t" using pos(2) by (simp add: used_slots_def)
  have "snd h \<noteq> EMPTY_CTRL" using full is_full_EMPTY(1) by metis
  then have sub: "empty_slots ?t = empty_slots t - {pos}" using ctrl cap by (auto simp: empty_slots_def split: if_splits)
  have old: "st_data ?t ! i = st_data t ! i" if "i \<in> used_slots t" for i using data [OF used_less [OF that]] notin that by auto
  have slots: "slots_ok g hash ?t"
    unfolding slots_ok_def used
  proof
    fix i assume i: "i \<in> insert pos (used_slots t)"
    then have less: "i < st_capacity t" using pos(1) used_less by auto
    have "st_ctrl t ! i = snd (st_hash hash (st_shift t) (fst (st_data t ! i))) \<and> reaches g t (fst (st_hash hash (st_shift t) (fst (st_data t ! i)))) i" if "i \<noteq> pos"
      using v(2) i that by (auto simp: slots_ok_def Let_def)
    then show "let h = st_hash hash (st_shift ?t) (fst (st_data ?t ! i)) in st_ctrl ?t ! i = snd h \<and> reaches g ?t (fst h) i"
      using ctrl [OF less] data [OF less] reach h shift reaches_mono [OF cap v(1), of "fst (st_hash hash (st_shift t) (fst (st_data ?t ! i)))" i] sub
      by (cases "i = pos") (auto simp: Let_def)
  qed
  have keys: "keys_once ?t"
    unfolding keys_once_def used inj_on_insert
  proof
    have eq: "fst (st_data ?t ! i) = fst (st_data t ! i)" if "i \<in> used_slots t" for i using data used_less [OF that] notin that by auto
    have "inj_on (\<lambda>i. fst (st_data ?t ! i)) (used_slots t) \<longleftrightarrow> inj_on (\<lambda>i. fst (st_data t ! i)) (used_slots t)" using eq by (rule inj_on_cong)
    then show "inj_on (\<lambda>i. fst (st_data ?t ! i)) (used_slots t)" using v(3) by (simp add: keys_once_def)
    show "fst (st_data ?t ! pos) \<notin> (\<lambda>i. fst (st_data ?t ! i)) ` (used_slots t - {pos})" using eq data [OF pos(1)] new by auto
  qed
  have "st_size ?t = card (used_slots ?t)" using used notin v(4) by (simp add: place_eq)
  moreover have "st_growth_left ?t + st_capacity ?t div 8 = card (empty_slots ?t)"
  proof (cases "st_ctrl t ! pos = EMPTY_CTRL")
    case True
    then have "(st_growth_left t + (2 ^ 64 - 1)) mod 2 ^ 64 = st_growth_left t - 1" using room growth_bound [OF inv] by (simp add: mod_if)
    moreover have "pos \<in> empty_slots t" using True pos(1) by (simp add: empty_slots_def)
    then have "card (empty_slots ?t) = card (empty_slots t) - 1" using sub by simp
    ultimately show ?thesis using True v(5) room cap by (simp add: place_eq)
  next
    case False
    then have "empty_slots ?t = empty_slots t" using sub by (auto simp: empty_slots_def)
    then show ?thesis using False v(5) cap by (simp add: place_eq)
  qed
  ultimately show "st_inv g hash ?t" using shape slots keys by (simp add: st_inv_def)
  show "st_map ?t = (st_map t)(fst val \<mapsto> snd val)"
  proof
    fix k
    have "st_map ?t k = Some w \<longleftrightarrow> ((st_map t)(fst val \<mapsto> snd val)) k = Some w" for w
    proof -
      have "st_map ?t k = Some w \<longleftrightarrow> val = (k, w) \<or> (\<exists>i \<in> used_slots t. st_data t ! i = (k, w))"
        unfolding st_map_Some [OF keys] used bex_simps(5) using old data [OF pos(1)] by (simp cong: bex_cong)
      also have "\<dots> \<longleftrightarrow> ((st_map t)(fst val \<mapsto> snd val)) k = Some w"
      proof (cases "k = fst val")
        case True
        then show ?thesis using new by (cases val) force
      next
        case False
        then show ?thesis using st_map_Some [OF v(3), of k w] by auto
      qed
      finally show ?thesis .
    qed
    then show "st_map ?t k = ((st_map t)(fst val \<mapsto> snd val)) k" by (metis not_None_eq)
  qed
qed

end

subsection \<open>Erasing\<close>

context group_ops
begin

lemma group_before_mod:
  assumes shape: "st_shape g t" and pos: "pos < st_capacity t"
  shows "group_before g t pos = (pos + st_capacity t - sg_width g) mod st_capacity t"
proof -
  obtain c where c: "c \<le> 56" "st_capacity t = 2 ^ c" and w: "sg_width g \<le> 2 ^ c" using shape by (auto simp: st_shape_def)
  let ?n = "pos + 2 ^ 64 - sg_width g"
  have big: "(2 :: nat) ^ 64 = 2 ^ c * 2 ^ (64 - c)" using c(1) by (simp flip: power_add)
  have le: "(2 :: nat) ^ c \<le> 2 ^ 64" using c(1) by (intro power_increasing) simp_all
  have m: "(word_of_nat (2 ^ c - 1) :: u64) = mask c" by (simp add: mask_eq_exp_minus_1 of_nat_diff)
  have "(word_of_nat (pos + 2 ^ 64) :: u64) = word_of_nat pos" by simp
  then have "(word_of_nat pos - word_of_nat (sg_width g) :: u64) = word_of_nat ?n" using le w by (subst of_nat_diff) simp_all
  then have "group_before g t pos = unat (take_bit c (word_of_nat ?n :: u64))"
    unfolding group_before_def st_mask_def c(2) m by (simp only: take_bit_eq_mask)
  also have "\<dots> = take_bit (min c 64) ?n" by (simp only: unsigned_take_bit_eq unsigned_of_nat take_bit_take_bit) simp
  also have "\<dots> = ?n mod 2 ^ c" using c(1) by (simp add: take_bit_eq_mod)
  also have "?n = pos + 2 ^ c - sg_width g + 2 ^ c * (2 ^ (64 - c) - 1)" using w le unfolding big by (simp add: diff_mult_distrib2)
  finally show ?thesis using c(2) by simp
qed

text \<open>A group with the slot \<open>pos\<close> in it also has one of the two empty slots around \<open>pos\<close>.\<close>

lemma window_empty:
  assumes shape: "st_shape g t" and pos: "pos < st_capacity t" and near: "a + b < sg_width g"
    and after: "st_ctrl t ! ((pos + a) mod st_capacity t) = EMPTY_CTRL"
    and before: "st_ctrl t ! ((pos + st_capacity t - Suc b) mod st_capacity t) = EMPTY_CTRL"
    and slot: "pos \<in> slots_at g t p"
  shows "empty_in g t p"
proof -
  let ?C = "st_capacity t"
  obtain r where r: "r < sg_width g" "pos = (p + r) mod ?C" using slot by (auto simp: slots_at_def)
  have W: "sg_width g \<le> ?C" using shape by (simp add: st_shape_def)
  have "\<exists>s < sg_width g. st_ctrl t ! ((p + s) mod ?C) = EMPTY_CTRL"
  proof (cases "r + a < sg_width g")
    case True
    have "(pos + a) mod ?C = (p + (r + a)) mod ?C" unfolding r(2) by (simp only: mod_add_left_eq add.assoc)
    then show ?thesis using after True by auto
  next
    case False
    then have b: "Suc b \<le> r" "Suc b \<le> ?C" using near W by simp_all
    have "(pos + ?C - Suc b) mod ?C = (pos + (?C - Suc b)) mod ?C" using b(2) by simp
    also have "\<dots> = (p + r + (?C - Suc b)) mod ?C" unfolding r(2) by (simp only: mod_add_left_eq)
    also have "p + r + (?C - Suc b) = p + (r - Suc b) + ?C" using b by simp
    finally have "(pos + ?C - Suc b) mod ?C = (p + (r - Suc b)) mod ?C" by simp
    then show ?thesis using before r(1) by (intro exI [of _ "r - Suc b"]) (simp add: less_imp_diff_less)
  qed
  then show ?thesis by (auto simp: empty_in_def slots_at_def)
qed

text \<open>The test of the code: the slot may become empty when every group it is in has an empty slot already.\<close>

lemma empty_lanes:
  assumes shape: "st_shape g t" and pos: "p < st_capacity t" and some: "sg_match_empty g (take (sg_width g) (drop p (st_ctrl t))) \<noteq> 0"
  shows "st_ctrl t ! ((p + first_lane g (sg_match_empty g (take (sg_width g) (drop p (st_ctrl t))))) mod st_capacity t) = EMPTY_CTRL"
    "\<exists>l < sg_width g. last_lanes_clear g (sg_match_empty g (take (sg_width g) (drop p (st_ctrl t)))) = sg_width g - 1 - l
       \<and> st_ctrl t ! ((p + l) mod st_capacity t) = EMPTY_CTRL"
proof -
  let ?w = "take (sg_width g) (drop p (st_ctrl t))" and ?fs = "map (\<lambda>c. c = EMPTY_CTRL) (take (sg_width g) (drop p (st_ctrl t)))"
  note n = group_nth [OF shape pos]
  have m: "sg_match_empty g ?w = mask_of (sg_lane_bits g) ?fs" using empty_flags [OF n(2) group_ok [OF shape pos]] .
  then have t: "True \<in> set ?fs" using some mask_of_zero [of "sg_lane_bits g" ?fs] by simp
  have len: "length ?fs = sg_width g" using n(2) by simp
  have fs: "?fs ! i \<longleftrightarrow> st_ctrl t ! ((p + i) mod st_capacity t) = EMPTY_CTRL" if "i < sg_width g" for i using that n(2,3) by simp
  show "st_ctrl t ! ((p + first_lane g (sg_match_empty g ?w)) mod st_capacity t) = EMPTY_CTRL"
    using first_set_nth [OF t] len fs unfolding m first_lane_mask [OF lane_bits t] by metis
  show "\<exists>l < sg_width g. last_lanes_clear g (sg_match_empty g ?w) = sg_width g - 1 - l \<and> st_ctrl t ! ((p + l) mod st_capacity t) = EMPTY_CTRL"
    using last_set_nth [OF t] len fs last_lanes_clear_mask [OF lane_bits t len] unfolding m by metis
qed

lemma never_full:
  assumes shape: "st_shape g t" and pos: "pos < st_capacity t"
    and after: "m = sg_match_empty g (take (sg_width g) (drop pos (st_ctrl t)))" "m \<noteq> 0"
    and before: "n = sg_match_empty g (take (sg_width g) (drop (group_before g t pos) (st_ctrl t)))" "n \<noteq> 0"
    and near: "first_lane g m + last_lanes_clear g n < sg_width g" and slot: "pos \<in> slots_at g t p"
  shows "empty_in g t p"
proof -
  let ?C = "st_capacity t" and ?B = "group_before g t pos"
  have B: "?B = (pos + ?C - sg_width g) mod ?C" "?B < ?C" using group_before_mod [OF shape pos] capacity_pos [OF shape] by simp_all
  obtain l where l: "l < sg_width g" "last_lanes_clear g n = sg_width g - 1 - l" "st_ctrl t ! ((?B + l) mod ?C) = EMPTY_CTRL"
    using empty_lanes(2) [OF shape B(2)] before by blast
  have "sg_width g \<le> ?C" using shape by (simp add: st_shape_def)
  then have "pos + ?C - sg_width g + l = pos + ?C - Suc (last_lanes_clear g n)" using l(1,2) by simp
  then have "(?B + l) mod ?C = (pos + ?C - Suc (last_lanes_clear g n)) mod ?C" unfolding B(1) by (simp only: mod_add_left_eq)
  then show ?thesis using window_empty [OF shape pos near _ _ slot] empty_lanes(1) [OF shape pos] after l(3) by simp
qed

lemma unset_ok:
  assumes inv: "st_inv g hash t" and pos: "pos \<in> used_slots t" and c: "c = EMPTY_CTRL \<or> c = DELETED_CTRL"
    and safe: "\<And>p. c = EMPTY_CTRL \<Longrightarrow> pos \<in> slots_at g t p \<Longrightarrow> empty_in g t p"
    and t': "t' = (set_ctrl g pos c t)\<lparr>st_size := st_size t - 1, st_growth_left := st_growth_left t + of_bool (c = EMPTY_CTRL)\<rparr>"
  shows "st_inv g hash t'" "st_map t' = (st_map t)(fst (st_data t ! pos) := None)"
proof -
  note v = st_invD [OF inv]
  have less: "pos < st_capacity t" using used_less [OF pos] .
  have nf: "\<not> is_full c" and ok: "ctrl_ok c" using c by (auto simp: ctrl_ok_def)
  note sc = set_ctrl_ok [OF v(1) less ok]
  have fields: "st_capacity t' = st_capacity t" "st_shift t' = st_shift t" "st_data t' = st_data t" "st_ctrl t' = st_ctrl (set_ctrl g pos c t)"
    unfolding t' by (simp_all add: set_ctrl_def)
  have ctrl: "st_ctrl t' ! i = (if i = pos then c else st_ctrl t ! i)" if "i < st_capacity t" for i using sc(2) [OF that] fields by simp
  have shape: "st_shape g t'" using sc(1) unfolding st_shape_def t' by (simp add: set_ctrl_def)
  have used: "used_slots t' = used_slots t - {pos}" using ctrl nf fields by (auto simp: used_slots_def split: if_splits)
  have full: "st_ctrl t ! pos \<noteq> EMPTY_CTRL" using pos is_full_EMPTY(1) by (auto simp: used_slots_def)
  have empties: "empty_slots t' = (if c = EMPTY_CTRL then insert pos (empty_slots t) else empty_slots t)"
    using ctrl fields less full by (auto simp: empty_slots_def split: if_splits)
  have slots_at: "slots_at g t' p = slots_at g t p" for p using fields by (simp add: slots_at_def)
  have same: "empty_in g t p" if "empty_in g t' p" for p
  proof (rule ccontr)
    assume no: "\<not> empty_in g t p"
    obtain i where i: "i \<in> slots_at g t p" "st_ctrl t' ! i = EMPTY_CTRL" using \<open>empty_in g t' p\<close> unfolding empty_in_def slots_at by (elim bexE)
    then have "i = pos" using ctrl [OF slots_less [OF v(1) i(1)]] no by (auto simp: empty_in_def split: if_splits)
    then show False using i ctrl [OF less] safe no by auto
  qed
  have "reaches g t' h i" if "reaches g t h i" for h i
    using that same unfolding reaches_def slots_at fields by blast
  moreover have "st_ctrl t' ! i = st_ctrl t ! i" if "i \<in> used_slots t - {pos}" for i using ctrl [of i] that used_less by auto
  ultimately have slots: "slots_ok g hash t'" using v(2) unfolding slots_ok_def used fields(2,3) by (simp add: Let_def)
  have keys: "keys_once t'" using v(3) unfolding keys_once_def used fields by (rule inj_on_diff)
  have "card (empty_slots t') = card (empty_slots t) + of_bool (c = EMPTY_CTRL)" using full unfolding empties by (simp add: empty_slots_def)
  then have "st_growth_left t' + st_capacity t' div 8 = card (empty_slots t')" using v(5) fields(1) unfolding t' by simp
  moreover have "st_size t' = card (used_slots t')" using v(4) pos unfolding used by (simp add: t')
  ultimately show "st_inv g hash t'" using shape slots keys by (simp add: st_inv_def)
  show "st_map t' = (st_map t)(fst (st_data t ! pos) := None)"
  proof
    fix k
    have "st_map t' k = Some w \<longleftrightarrow> ((st_map t)(fst (st_data t ! pos) := None)) k = Some w" for w
    proof -
      have "st_map t' k = Some w \<longleftrightarrow> (\<exists>i \<in> used_slots t - {pos}. st_data t ! i = (k, w))" unfolding st_map_Some [OF keys] used fields ..
      also have "\<dots> \<longleftrightarrow> k \<noteq> fst (st_data t ! pos) \<and> (\<exists>i \<in> used_slots t. st_data t ! i = (k, w))"
        using v(3) pos unfolding keys_once_def inj_on_def by (metis DiffD1 DiffD2 DiffI empty_iff fst_conv insert_iff)
      finally show ?thesis using st_map_Some [OF v(3), of k w] by simp
    qed
    then show "st_map t' k = ((st_map t)(fst (st_data t ! pos) := None)) k" by (metis not_None_eq)
  qed
qed

lemma st_erase_ok:
  assumes inv: "st_inv g hash t"
  shows "\<exists>t'. st_erase g hash key t = Inr (st_map t key \<noteq> None, t') \<and> st_inv g hash t' \<and> st_map t' = (st_map t)(key := None)
    \<and> st_capacity t' = st_capacity t"
proof -
  note v = st_invD [OF inv]
  obtain r where r: "find_index g t key (st_hash hash (st_shift t) key) = Inr r"
    "case r of Some idx \<Rightarrow> idx \<in> used_slots t \<and> fst (st_data t ! idx) = key | None \<Rightarrow> \<forall>i \<in> used_slots t. fst (st_data t ! i) \<noteq> key"
    using find_index_ok [OF inv, of key] by blast
  show ?thesis
  proof (cases r)
    case None
    then have "st_map t key = None" using r(2) st_map_None [OF v(3)] by simp
    moreover from this have "(st_map t)(key := None) = st_map t" by (auto simp: fun_eq_iff)
    ultimately show ?thesis using r(1) None inv by (simp add: st_erase_def)
  next
    case (Some pos)
    then have pos: "pos \<in> used_slots t" "fst (st_data t ! pos) = key" using r(2) by simp_all
    have less: "pos < st_capacity t" using used_less [OF pos(1)] .
    let ?t = "t\<lparr>st_size := st_size t - 1\<rparr>"
    let ?after = "sg_match_empty g (take (sg_width g) (drop pos (st_ctrl t)))"
    let ?before = "sg_match_empty g (take (sg_width g) (drop (group_before g t pos) (st_ctrl t)))"
    let ?never = "?before \<noteq> 0 \<and> ?after \<noteq> 0 \<and> first_lane g ?after + last_lanes_clear g ?before < sg_width g"
    let ?c = "if ?never then EMPTY_CTRL else DELETED_CTRL"
    let ?t' = "(set_ctrl g pos ?c t)\<lparr>st_size := st_size t - 1, st_growth_left := st_growth_left t + of_bool (?c = EMPTY_CTRL)\<rparr>"
    have B: "group_before g t pos < st_capacity t" using group_before_mod [OF v(1) less] capacity_pos [OF v(1)] by simp
    have "read_group g ?t pos = read_group g t pos" "group_before g ?t pos = group_before g t pos"
      "read_group g ?t (group_before g t pos) = read_group g t (group_before g t pos)"
      by (simp_all add: read_group_def group_before_def st_mask_def)
    then have "st_erase g hash key t = Inr (True, ?t')"
      using r(1) Some group_nth(1) [OF v(1) less] group_nth(1) [OF v(1) B]
      by (simp add: st_erase_def Let_def set_ctrl_def copy_index_def)
    moreover have "empty_in g t p" if "?c = EMPTY_CTRL" "pos \<in> slots_at g t p" for p
    proof -
      have "?never" using that(1) by (auto split: if_splits)
      then show ?thesis using never_full [OF v(1) less refl _ refl _ _ that(2)] by blast
    qed
    from unset_ok [OF inv pos(1) _ this refl] have "st_inv g hash ?t'" "st_map ?t' = (st_map t)(key := None)" using pos(2) by simp_all
    moreover have "st_map t key \<noteq> None" using pos st_map_None [OF v(3)] by auto
    moreover have "st_capacity ?t' = st_capacity t" by (simp add: set_ctrl_def)
    ultimately show ?thesis by (intro exI [of _ ?t']) simp
  qed
qed

lemma st_find_ok: "st_inv g hash t \<Longrightarrow> st_find g hash key t = Inr (st_map t key)"
proof -
  assume inv: "st_inv g hash t"
  note v = st_invD [OF inv]
  obtain r where r: "find_index g t key (st_hash hash (st_shift t) key) = Inr r"
    "case r of Some idx \<Rightarrow> idx \<in> used_slots t \<and> fst (st_data t ! idx) = key | None \<Rightarrow> \<forall>i \<in> used_slots t. fst (st_data t ! i) \<noteq> key"
    using find_index_ok [OF inv, of key] by blast
  show ?thesis
  proof (cases r)
    case None
    then have "st_map t key = None" using r(2) st_map_None [OF v(3)] by simp
    then show ?thesis using r(1) None by (simp add: st_find_def)
  next
    case (Some pos)
    then have "pos \<in> used_slots t" "st_data t ! pos = (key, snd (st_data t ! pos))" using r(2) by (simp_all add: prod_eq_iff)
    then have "st_map t key = Some (snd (st_data t ! pos))" using st_map_Some [OF v(3)] by blast
    then show ?thesis using r(1) Some by (simp add: st_find_def)
  qed
qed

end

subsection \<open>New tables and rehashing\<close>

definition alloc_bounded :: "(nat \<Rightarrow> bool) \<Rightarrow> bool" where
  "alloc_bounded alloc_ok \<longleftrightarrow> (\<forall>n. alloc_ok n \<longrightarrow> n \<le> 2 ^ 56)"

context group_ops
begin

lemma new_ok:
  assumes new: "SwissTable g alloc_ok zero capacity = Inr t" and b: "alloc_bounded alloc_ok"
  shows "st_inv g hash t" "st_map t = Map.empty" "st_capacity t = capacity" "used_slots t = {}" "st_growth_left t = growth_for capacity"
proof -
  have ok: "alloc_ok capacity" "has_single_bit capacity" "sg_width g \<le> capacity"
    and t: "t = \<lparr>st_ctrl = replicate (capacity + sg_width g) EMPTY_CTRL, st_data = replicate capacity zero, st_size = 0,
                st_capacity = capacity, st_growth_left = growth_for capacity, st_shift = 64 - countr_zero capacity\<rparr>"
    using new by (auto simp: SwissTable_def split: if_splits)
  obtain c where c: "capacity = 2 ^ c" using ok(2) by (auto simp: has_single_bit_iff)
  have "(2 :: nat) ^ c \<le> 2 ^ 56" using ok(1) b c by (auto simp: alloc_bounded_def)
  then have "c \<le> 56" by (rule power_le_imp_le_exp [rotated]) simp
  then have shape: "st_shape g t" using c ok(3) by (auto simp: st_shape_def t countr_zero_power ctrl_ok_def)
  show cap: "st_capacity t = capacity" "st_growth_left t = growth_for capacity" by (simp_all add: t)
  show used: "used_slots t = {}" by (auto simp: used_slots_def t)
  have "empty_slots t = {..<capacity}" by (auto simp: empty_slots_def t)
  then show "st_inv g hash t" using shape used by (simp add: st_inv_def slots_ok_def keys_once_def t growth_for_def)
  show "st_map t = Map.empty" using used st_map_None [of t] by (simp add: fun_eq_iff keys_once_def)
qed

lemma place_growth:
  assumes "st_inv g hash t" "0 < st_growth_left t"
  shows "st_growth_left t \<le> Suc (st_growth_left (place g pos h val t))"
proof -
  have "(st_growth_left t + (2 ^ 64 - 1)) mod 2 ^ 64 = st_growth_left t - 1" using assms(2) growth_bound [OF assms(1)] by (simp add: mod_if)
  then show ?thesis using assms(2) by (simp add: place_eq)
qed

text \<open>A key that is not in the table goes into the slot that \<open>prepare_insert\<close> chooses.\<close>

lemma prepare_place:
  assumes inv: "st_inv g hash t" and new: "st_map t (fst val) = None" and room: "0 < st_growth_left t"
    and h: "h = st_hash hash (st_shift t) (fst val)"
  obtains pos where "prepare_insert g t h = Inr pos" "st_inv g hash (place g pos h val t)"
    "st_map (place g pos h val t) = (st_map t)(fst val \<mapsto> snd val)" "st_capacity (place g pos h val t) = st_capacity t"
proof -
  note v = st_invD [OF inv]
  have "fst h < st_capacity t" unfolding h by (rule st_hash_less [OF v(1)])
  from prepare_insert_ok [OF v(1) this empty_exists [OF inv]] obtain pos where
    p: "prepare_insert g t h = Inr pos" "pos < st_capacity t" "\<not> is_full (st_ctrl t ! pos)" "reaches g t (fst h) pos" by blast
  have "\<forall>i \<in> used_slots t. fst (st_data t ! i) \<noteq> fst val" using new st_map_None [OF v(3)] by blast
  from place_ok [OF inv p(2,3) h p(4) this] room p(1) show ?thesis by (intro that)
qed

lemma rehash_loop_ok:
  assumes "st_inv g hash fresh" "keys_once t" "distinct is" "set is \<subseteq> {..<st_capacity t}"
    and "\<forall>i \<in> set is \<inter> used_slots t. st_map fresh (fst (st_data t ! i)) = None"
    and "card (set is \<inter> used_slots t) \<le> st_growth_left fresh"
  shows "\<exists>f. st_rehash_loop g hash t is fresh = Inr f \<and> st_inv g hash f \<and> st_capacity f = st_capacity fresh
    \<and> st_growth_left fresh \<le> st_growth_left f + card (set is \<inter> used_slots t)
    \<and> (\<forall>k v. st_map f k = Some v \<longleftrightarrow> st_map fresh k = Some v \<or> (\<exists>i \<in> set is \<inter> used_slots t. st_data t ! i = (k, v)))"
  using assms
proof (induction "is" arbitrary: fresh)
  case Nil
  then show ?case by simp
next
  case (Cons i "is")
  show ?case
  proof (cases "i \<in> used_slots t")
    case False
    then have "set (i # is) \<inter> used_slots t = set is \<inter> used_slots t" "st_rehash_loop g hash t (i # is) fresh = st_rehash_loop g hash t is fresh"
      using Cons.prems(4) by (auto simp: used_slots_def)
    then show ?thesis using Cons.IH [OF Cons.prems(1,2)] Cons.prems(3-6) by simp
  next
    case True
    let ?e = "st_data t ! i" and ?R = "set is \<inter> used_slots t"
    let ?h = "st_hash hash (st_shift fresh) (fst ?e)"
    have R: "set (i # is) \<inter> used_slots t = insert i ?R" "i \<notin> ?R" using True Cons.prems(3) by auto
    then have card: "card (set (i # is) \<inter> used_slots t) = Suc (card ?R)" by simp
    then have room: "0 < st_growth_left fresh" using Cons.prems(6) by linarith
    have "st_map fresh (fst ?e) = None" using Cons.prems(5) R(1) by simp
    from prepare_place [OF Cons.prems(1) this room refl] obtain pos where
      p: "prepare_insert g fresh ?h = Inr pos" "st_inv g hash (place g pos ?h ?e fresh)"
        "st_map (place g pos ?h ?e fresh) = (st_map fresh)(fst ?e \<mapsto> snd ?e)" "st_capacity (place g pos ?h ?e fresh) = st_capacity fresh" .
    let ?f = "place g pos ?h ?e fresh"
    have step: "st_rehash_loop g hash t (i # is) fresh = st_rehash_loop g hash t is ?f" using p(1) True by (simp add: used_slots_def Let_def)
    have growth: "st_growth_left fresh \<le> Suc (st_growth_left ?f)" by (rule place_growth [OF Cons.prems(1) room])
    have "fst (st_data t ! j) \<noteq> fst ?e" if "j \<in> ?R" for j using that True R(2) Cons.prems(2) unfolding keys_once_def inj_on_def by auto
    then have fresh: "\<forall>j \<in> ?R. st_map ?f (fst (st_data t ! j)) = None" unfolding p(3) using Cons.prems(5) R(1) by simp
    have "card ?R \<le> st_growth_left ?f" using Cons.prems(6) growth card by linarith
    from Cons.IH [OF p(2) Cons.prems(2) _ _ fresh this] Cons.prems(3,4) obtain f where
      f: "st_rehash_loop g hash t is ?f = Inr f" "st_inv g hash f" "st_capacity f = st_capacity ?f"
        "st_growth_left ?f \<le> st_growth_left f + card ?R"
        "\<forall>k v. st_map f k = Some v \<longleftrightarrow> st_map ?f k = Some v \<or> (\<exists>j \<in> ?R. st_data t ! j = (k, v))" by auto
    have "st_map ?f k = Some v \<longleftrightarrow> st_map fresh k = Some v \<or> ?e = (k, v)" for k v
      unfolding p(3) using Cons.prems(5) R(1) by (cases ?e) auto
    then have "\<forall>k v. st_map f k = Some v \<longleftrightarrow> st_map fresh k = Some v \<or> (\<exists>j \<in> insert i ?R. st_data t ! j = (k, v))" using f(5) by auto
    moreover have "st_growth_left fresh \<le> st_growth_left f + Suc (card ?R)" using growth f(4) by linarith
    ultimately show ?thesis unfolding step R(1) card [unfolded R(1)] using f(1,2,3) p(4) by (intro exI [of _ f]) simp
  qed
qed

lemma st_rehash_ok:
  assumes inv: "st_inv g hash t" and b: "alloc_bounded alloc_ok" and cap: "has_single_bit capacity" "sg_width g \<le> capacity"
    and room: "st_size t \<le> growth_for capacity"
  shows "\<exists>t'. st_rehash g hash alloc_ok zero capacity t = Inr (alloc_ok capacity, t') \<and> st_inv g hash t' \<and> st_map t' = st_map t
    \<and> (if alloc_ok capacity then st_capacity t' = capacity \<and> growth_for capacity \<le> st_growth_left t' + st_size t else t' = t)"
proof (cases "alloc_ok capacity")
  case False
  then show ?thesis using inv by (simp add: st_rehash_def SwissTable_def)
next
  case True
  note v = st_invD [OF inv]
  obtain fresh where new: "SwissTable g alloc_ok zero capacity = Inr fresh" using True cap by (simp add: SwissTable_def)
  note n = new_ok [OF new b]
  have all: "set [0..<st_capacity t] \<inter> used_slots t = used_slots t" by (auto simp: used_slots_def)
  have sub: "set [0..<st_capacity t] \<subseteq> {..<st_capacity t}" by auto
  from rehash_loop_ok [OF n(1) [of hash] v(3) distinct_upt sub, unfolded all] obtain f where
    f: "st_rehash_loop g hash t [0..<st_capacity t] fresh = Inr f" "st_inv g hash f" "st_capacity f = st_capacity fresh"
      "st_growth_left fresh \<le> st_growth_left f + card (used_slots t)"
      "\<forall>k v. st_map f k = Some v \<longleftrightarrow> st_map fresh k = Some v \<or> (\<exists>i \<in> used_slots t. st_data t ! i = (k, v))"
    using n(2,5) room v(4) by auto
  have "st_map f k = st_map t k" for k
  proof -
    have "st_map f k = Some v \<longleftrightarrow> st_map t k = Some v" for v using f(5) n(2) st_map_Some [OF v(3)] by simp
    then show ?thesis by (metis not_None_eq)
  qed
  then have "st_map f = st_map t" by (rule ext)
  then show ?thesis using True new f n(3,5) v(4) by (intro exI [of _ f]) (simp add: st_rehash_def)
qed

subsection \<open>Inserting\<close>

lemma st_size_le: "st_inv g hash t \<Longrightarrow> st_size t \<le> st_capacity t"
proof -
  assume inv: "st_inv g hash t"
  have "card (used_slots t) \<le> card {..<st_capacity t}" by (rule card_mono) (auto simp: used_slots_def)
  then show ?thesis using st_invD(4) [OF inv] by simp
qed

text \<open>Either way of growing leaves room for the new key.\<close>

lemma grown_room:
  assumes inv: "st_inv g hash t" and cap: "capacity = (if st_size t * 32 \<le> st_capacity t * 25 then st_capacity t else st_capacity t * 2)"
  shows "st_size t < growth_for capacity" "has_single_bit capacity" "sg_width g \<le> capacity" "capacity \<le> max (st_capacity t) (3 * st_size t)"
proof -
  note v = st_invD [OF inv]
  obtain c where c: "st_capacity t = 2 ^ c" using v(1) by (auto simp: st_shape_def)
  show "has_single_bit capacity" unfolding cap has_single_bit_iff c by (metis power_Suc2)
  show "sg_width g \<le> capacity" using v(1) unfolding cap by (simp add: st_shape_def)
  show "capacity \<le> max (st_capacity t) (3 * st_size t)" unfolding cap by simp
  have "0 < st_capacity t" using capacity_pos [OF v(1)] .
  then show "st_size t < growth_for capacity" using st_size_le [OF inv] unfolding cap growth_for_def by (cases "st_size t * 32 \<le> st_capacity t * 25") auto
qed

lemma st_insert_ok:
  assumes inv: "st_inv g hash t" and b: "alloc_bounded alloc_ok"
  shows "\<exists>ok t'. st_insert g hash alloc_ok zero key val t = Inr (ok, t') \<and> st_inv g hash t'
    \<and> (if ok then st_map t key = None \<and> st_map t' = (st_map t)(key \<mapsto> val) \<and> st_capacity t' \<le> max (st_capacity t) (3 * st_size t)
       else t' = t \<and> (st_map t key \<noteq> None \<or> (\<exists>n \<le> max (st_capacity t) (3 * st_size t). \<not> alloc_ok n)))"
proof -
  note v = st_invD [OF inv]
  let ?h = "st_hash hash (st_shift t) key"
  have less: "fst ?h < st_capacity t" by (rule st_hash_less [OF v(1)])
  obtain r where r: "find_index g t key ?h = Inr r"
    "case r of Some idx \<Rightarrow> idx \<in> used_slots t \<and> fst (st_data t ! idx) = key | None \<Rightarrow> \<forall>i \<in> used_slots t. fst (st_data t ! i) \<noteq> key"
    using find_index_ok [OF inv, of key] by blast
  obtain pos where p: "prepare_insert g t ?h = Inr pos" "pos < st_capacity t" "\<not> is_full (st_ctrl t ! pos)" "reaches g t (fst ?h) pos"
    using prepare_insert_ok [OF v(1) less empty_exists [OF inv]] by blast
  show ?thesis
  proof (cases r)
    case (Some idx)
    then have "st_map t key \<noteq> None" using r(2) st_map_None [OF v(3)] by auto
    then show ?thesis using Some r(1) inv by (intro exI [of _ False] exI [of _ t]) (simp add: st_insert_def find_or_prepare_insert_def Let_def)
  next
    case None
    then have new: "st_map t key = None" using r(2) st_map_None [OF v(3)] by simp
    have fp: "find_or_prepare_insert g t key ?h = Inr (False, pos)" using None r(1) p(1) by (simp add: find_or_prepare_insert_def)
    show ?thesis
    proof (cases "st_growth_left t = 0 \<and> st_ctrl t ! pos = EMPTY_CTRL")
      case False
      have "\<forall>i \<in> used_slots t. fst (st_data t ! i) \<noteq> fst (key, val)" using None r(2) by simp
      from place_ok [OF inv p(2,3) _ p(4) this] False have "st_inv g hash (place g pos ?h (key, val) t)"
        "st_map (place g pos ?h (key, val) t) = (st_map t)(key \<mapsto> val)" "st_capacity (place g pos ?h (key, val) t) = st_capacity t" by auto
      moreover have "st_insert g hash alloc_ok zero key val t = Inr (True, place g pos ?h (key, val) t)"
        using fp False by (auto simp: st_insert_def Let_def)
      ultimately show ?thesis using new by (intro exI [of _ True] exI [of _ "place g pos ?h (key, val) t"]) simp
    next
      case True
      define cap where "cap = (if st_size t * 32 \<le> st_capacity t * 25 then st_capacity t else st_capacity t * 2)"
      note room = grown_room [OF inv cap_def]
      obtain t1 where t1: "st_rehash g hash alloc_ok zero cap t = Inr (alloc_ok cap, t1)" "st_inv g hash t1" "st_map t1 = st_map t"
        "if alloc_ok cap then st_capacity t1 = cap \<and> growth_for cap \<le> st_growth_left t1 + st_size t else t1 = t"
        using st_rehash_ok [OF inv b room(2,3)] room(1) by (meson less_imp_le)
      let ?h1 = "st_hash hash (st_shift t1) key"
      have step: "st_insert g hash alloc_ok zero key val t = (if \<not> alloc_ok cap then Inr (False, t1)
          else bind_res (prepare_insert g t1 ?h1) (\<lambda>pos. Inr (True, place g pos ?h1 (key, val) t1)))"
        using fp True t1(1) by (simp add: st_insert_def Let_def flip: cap_def)
      show ?thesis
      proof (cases "alloc_ok cap")
        case False
        then have "\<exists>n \<le> max (st_capacity t) (3 * st_size t). \<not> alloc_ok n" using room(4) by blast
        then show ?thesis using False t1 unfolding step by (intro exI [of _ False] exI [of _ t]) simp
      next
        case True
        have "0 < st_growth_left t1" using True t1(4) room(1) by simp
        moreover have "st_map t1 (fst (key, val)) = None" using new t1(3) by simp
        ultimately obtain pos1 where "prepare_insert g t1 ?h1 = Inr pos1" "st_inv g hash (place g pos1 ?h1 (key, val) t1)"
          "st_map (place g pos1 ?h1 (key, val) t1) = (st_map t1)(key \<mapsto> val)" "st_capacity (place g pos1 ?h1 (key, val) t1) = st_capacity t1"
          using prepare_place [OF t1(2), of "(key, val)" ?h1] by auto
        then show ?thesis using True t1(3,4) new room(4) unfolding step by (intro exI [of _ True] exI [of _ "place g pos1 ?h1 (key, val) t1"]) simp
      qed
    qed
  qed
qed

end

subsection \<open>Sequences of operations\<close>

datatype ('k, 'v) swiss_op = St_Insert 'k 'v | St_Find 'k | St_Erase 'k
datatype 'v swiss_out = Did bool | Found "'v option"

fun run_swiss :: "sgroup \<Rightarrow> ('k \<Rightarrow> u64) \<Rightarrow> (nat \<Rightarrow> bool) \<Rightarrow> 'k \<times> 'v \<Rightarrow> ('k, 'v) swiss_op list \<Rightarrow> ('k, 'v) swiss \<Rightarrow>
    ('v swiss_out list \<times> ('k, 'v) swiss) res" where
  "run_swiss g hash alloc_ok zero [] t = Inr ([], t)"
| "run_swiss g hash alloc_ok zero (St_Insert k v # ops) t =
     bind_res (st_insert g hash alloc_ok zero k v t) (\<lambda>(b, t).
     bind_res (run_swiss g hash alloc_ok zero ops t) (\<lambda>(os, t). Inr (Did b # os, t)))"
| "run_swiss g hash alloc_ok zero (St_Find k # ops) t =
     bind_res (st_find g hash k t) (\<lambda>r.
     bind_res (run_swiss g hash alloc_ok zero ops t) (\<lambda>(os, t). Inr (Found r # os, t)))"
| "run_swiss g hash alloc_ok zero (St_Erase k # ops) t =
     bind_res (st_erase g hash k t) (\<lambda>(b, t).
     bind_res (run_swiss g hash alloc_ok zero ops t) (\<lambda>(os, t). Inr (Did b # os, t)))"

fun spec_swiss :: "('k, 'v) swiss_op list \<Rightarrow> ('k \<rightharpoonup> 'v) \<Rightarrow> 'v swiss_out list \<times> ('k \<rightharpoonup> 'v)" where
  "spec_swiss [] m = ([], m)"
| "spec_swiss (St_Insert k v # ops) m =
     (let (os, m') = spec_swiss ops (if m k = None then m(k \<mapsto> v) else m) in (Did (m k = None) # os, m'))"
| "spec_swiss (St_Find k # ops) m = (let (os, m') = spec_swiss ops m in (Found (m k) # os, m'))"
| "spec_swiss (St_Erase k # ops) m = (let (os, m') = spec_swiss ops (m(k := None)) in (Did (m k \<noteq> None) # os, m'))"

context group_ops
begin

lemma st_size_dom: "st_inv g hash t \<Longrightarrow> finite (dom (st_map t)) \<and> st_size t = card (dom (st_map t))"
proof -
  assume inv: "st_inv g hash t"
  note v = st_invD [OF inv]
  have "k \<in> dom (st_map t) \<longleftrightarrow> k \<in> (\<lambda>i. fst (st_data t ! i)) ` used_slots t" for k
    using st_map_None [OF v(3), of k] unfolding domIff image_iff by metis
  then have "dom (st_map t) = (\<lambda>i. fst (st_data t ! i)) ` used_slots t" by blast
  then show ?thesis using v(3,4) unfolding keys_once_def by (simp add: card_image)
qed

lemma run_swiss_ok:
  assumes "st_inv g hash t" "alloc_bounded alloc_ok" "\<forall>n \<le> max c (3 * N). alloc_ok n"
    and "st_capacity t \<le> max c (3 * N)" "st_size t + length ops \<le> N"
  shows "\<exists>t'. run_swiss g hash alloc_ok zero ops t = Inr (fst (spec_swiss ops (st_map t)), t') \<and> st_inv g hash t'
    \<and> st_map t' = snd (spec_swiss ops (st_map t))"
  using assms(1,4,5)
proof (induction ops arbitrary: t)
  case Nil
  then show ?case by simp
next
  case (Cons op ops)
  note size = st_size_dom [OF Cons.prems(1)]
  show ?case
  proof (cases op)
    case (St_Insert k v)
    obtain ok t1 where i: "st_insert g hash alloc_ok zero k v t = Inr (ok, t1)" "st_inv g hash t1"
      "if ok then st_map t k = None \<and> st_map t1 = (st_map t)(k \<mapsto> v) \<and> st_capacity t1 \<le> max (st_capacity t) (3 * st_size t)
       else t1 = t \<and> (st_map t k \<noteq> None \<or> (\<exists>n \<le> max (st_capacity t) (3 * st_size t). \<not> alloc_ok n))"
      using st_insert_ok [OF Cons.prems(1) assms(2), of zero k v] by blast
    have "max (st_capacity t) (3 * st_size t) \<le> max c (3 * N)" using Cons.prems(2,3) by simp
    then have ok: "ok \<longleftrightarrow> st_map t k = None" and cap: "st_capacity t1 \<le> max c (3 * N)"
      using i(3) assms(3) Cons.prems(2) by (auto split: if_splits)
    have m: "st_map t1 = (if st_map t k = None then (st_map t)(k \<mapsto> v) else st_map t)" using i(3) ok by (auto split: if_splits)
    then have "st_size t1 \<le> Suc (st_size t)" using st_size_dom [OF i(2)] size by (simp add: card_insert_if)
    then have "st_size t1 + length ops \<le> N" using Cons.prems(3) by simp
    from Cons.IH [OF i(2) cap this] show ?thesis using i(1) ok m by (auto simp: St_Insert Let_def simp del: fun_upd_apply split: prod.splits)
  next
    case (St_Find k)
    from Cons.IH [OF Cons.prems(1,2)] Cons.prems(3) st_find_ok [OF Cons.prems(1)] show ?thesis
      by (auto simp: St_Find Let_def split: prod.splits)
  next
    case (St_Erase k)
    obtain t1 where e: "st_erase g hash k t = Inr (st_map t k \<noteq> None, t1)" "st_inv g hash t1" "st_map t1 = (st_map t)(k := None)"
      "st_capacity t1 = st_capacity t"
      using st_erase_ok [OF Cons.prems(1)] by blast
    have "card (dom (st_map t1)) \<le> card (dom (st_map t))" unfolding e(3) using size by (intro card_mono) auto
    then have "st_size t1 + length ops \<le> N" using st_size_dom [OF e(2)] size Cons.prems(3) by simp
    moreover have "st_capacity t1 \<le> max c (3 * N)" using e(4) Cons.prems(2) by simp
    ultimately show ?thesis using Cons.IH [OF e(2)] e(1,3) by (auto simp: St_Erase Let_def simp del: fun_upd_apply split: prod.splits)
  qed
qed

lemma table_refines_map:
  assumes "alloc_bounded alloc_ok" "SwissTable g alloc_ok zero capacity = Inr t" "\<forall>n \<le> max capacity (3 * length ops). alloc_ok n"
  shows "\<exists>t'. run_swiss g hash alloc_ok zero ops t = Inr (fst (spec_swiss ops Map.empty), t') \<and> st_map t' = snd (spec_swiss ops Map.empty)
    \<and> st_size t' = card (dom (snd (spec_swiss ops Map.empty)))"
proof -
  note n = new_ok [OF assms(2,1)]
  have "st_size t = 0" using st_size_dom [OF n(1)] n(2) by simp
  then have "\<exists>t'. run_swiss g hash alloc_ok zero ops t = Inr (fst (spec_swiss ops Map.empty), t') \<and> st_inv g hash t'
      \<and> st_map t' = snd (spec_swiss ops Map.empty)"
    using run_swiss_ok [OF n(1) [of hash] assms(1,3), where ops = ops] n(2,3) by simp
  then show ?thesis using st_size_dom by metis
qed

end

text \<open>
  C8. The swiss table is a finite map, whichever of the four group types it is built with: for every hash function and
  every sequence of insertions, searches and removals on a new table, every call returns (the probe loops end, no
  group is read out of bounds) with the answer the map gives, and the size is the number of keys, provided there is memory for a table of the
  first capacity and of three times the number of operations.
\<close>

theorem swiss_refines_map:
  fixes hash :: "'k \<Rightarrow> u64" and zero :: "'k \<times> 'v"
  assumes "g \<in> {ScalarGroup, SwarGroup, Sse2Group, Avx2Group}" "alloc_bounded alloc_ok"
    and "SwissTable g alloc_ok zero capacity = Inr t" "\<forall>n \<le> max capacity (3 * length ops). alloc_ok n"
  shows "\<exists>t'. run_swiss g hash alloc_ok zero ops t = Inr (fst (spec_swiss ops Map.empty), t') \<and> st_map t' = snd (spec_swiss ops Map.empty)
    \<and> st_size t' = card (dom (snd (spec_swiss ops Map.empty)))"
  using assms scalar.table_refines_map swar.table_refines_map sse2.table_refines_map avx2.table_refines_map by (elim insertE) simp_all

theorem swiss_refines_map_witness:
  "\<exists>t t'. SwissTable SwarGroup (\<lambda>n. n \<le> 2 ^ 20) (0, 0) 8 = Inr t
    \<and> run_swiss SwarGroup (\<lambda>k :: u64. k * 0x9E3779B97F4A7C15) (\<lambda>n. n \<le> 2 ^ 20) (0, 0 :: nat)
        [St_Insert 5 50, St_Insert 5 51, St_Find 5, St_Erase 5, St_Find 5] t = Inr ([Did True, Did False, Found (Some 50), Did True, Found None], t')
    \<and> st_size t' = 0"
proof -
  let ?ops = "[St_Insert 5 50, St_Insert 5 51, St_Find 5, St_Erase 5, St_Find 5] :: (u64, nat) swiss_op list"
  have spec: "spec_swiss ?ops Map.empty = ([Did True, Did False, Found (Some 50), Did True, Found None], Map.empty)" by (simp add: fun_upd_idem_iff)
  have bit: "has_single_bit 8" unfolding has_single_bit_iff by (intro exI [of _ 3]) simp
  obtain t where t: "SwissTable SwarGroup (\<lambda>n. n \<le> 2 ^ 20) (0 :: u64, 0 :: nat) 8 = Inr t" using bit by (simp add: SwissTable_def SwarGroup_def)
  have "alloc_bounded (\<lambda>n. n \<le> 2 ^ 20)" by (simp add: alloc_bounded_def)
  from swiss_refines_map [OF _ this t, of ?ops "\<lambda>k. k * 0x9E3779B97F4A7C15"] t show ?thesis unfolding spec by auto
qed

end
