(* ===== verification/Af_Xdp_Source.thy ===== *)
theory Af_Xdp_Source
  imports System_Calls Pooled_Source Buf_IO
begin

section \<open>AF\_XDP transport (src/transport/af\_xdp\_source.hpp, src/transport/feed\_filter.bpf.c)\<close>

text \<open>
  A program in the kernel passes the UDP packets of one port to a socket that shares an area of frames with the process. Two
  rings of libxdp carry the addresses of free frames to the kernel and descriptors of received
  packets back. libxdp and the kernel are arguments; what is relied on of them is stated in \<open>umem_ok\<close>,
  \<open>rx_ok\<close> and \<open>fill_ok\<close>. A packet is in the frames, a descriptor says where.
\<close>

subsection \<open>The filter in the kernel\<close>

datatype xdp_action = XDP_PASS | XDP_REDIRECT

definition htons :: "u16 \<Rightarrow> u16" where
  "htons x = byteswap x"

text \<open>A 16-bit field of a frame, as it is in memory.\<close>

definition field16 :: "byte list \<Rightarrow> nat \<Rightarrow> u16" where
  "field16 f off = load_native (take 2 (drop off f))"

definition ETH_P_IP :: u16 where "ETH_P_IP = 0x0800"
definition IPPROTO_UDP :: byte where "IPPROTO_UDP = 17"
definition sizeof_ethhdr :: nat where "sizeof_ethhdr = 14"
definition sizeof_iphdr :: nat where "sizeof_iphdr = 20"
definition sizeof_udphdr :: nat where "sizeof_udphdr = 8"

definition feed_filter :: "u16 \<Rightarrow> xdp_action \<Rightarrow> byte list \<Rightarrow> xdp_action" where
  "feed_filter feed_port redirect data =
     (let ip = sizeof_ethhdr; udp = ip + sizeof_iphdr in
      if length data < sizeof_ethhdr \<or> field16 data 12 \<noteq> htons ETH_P_IP then XDP_PASS
      else if length data < ip + sizeof_iphdr \<or> data ! (ip + 9) \<noteq> IPPROTO_UDP \<or> data ! ip AND 0x0F \<noteq> 5
        \<or> field16 data (ip + 6) AND htons 0x3FFF \<noteq> 0 then XDP_PASS
      else if length data < udp + sizeof_udphdr \<or> field16 data (udp + 2) \<noteq> htons feed_port then XDP_PASS
      else redirect)"

subsection \<open>The rings of libxdp\<close>

text \<open>
  libxdp is used through these functions: the bytes of an address in the shared area, the consumer's end of the ring
  of received descriptors, the producer's end of the ring of free frames, and what the
  kernel does at the other ends.
\<close>

record xdp_desc =
  xd_addr :: nat
  xd_len :: nat

record ('c, 'p) xdp_lib =
  xl_get_data :: "nat \<Rightarrow> nat"
  xl_extract_addr :: "nat \<Rightarrow> nat"
  xl_peek :: "nat \<Rightarrow> 'c \<Rightarrow> (nat \<times> u32) \<times> 'c"
  xl_release :: "nat \<Rightarrow> 'c \<Rightarrow> 'c"
  xl_rx_desc :: "'c \<Rightarrow> u32 \<Rightarrow> xdp_desc"
  xl_reserve :: "nat \<Rightarrow> 'p \<Rightarrow> (nat \<times> u32) \<times> 'p"
  xl_fill_addr :: "u32 \<Rightarrow> nat \<Rightarrow> 'p \<Rightarrow> 'p"
  xl_submit :: "nat \<Rightarrow> 'p \<Rightarrow> 'p"
  xl_kernel_rx :: "xdp_desc \<Rightarrow> 'c \<Rightarrow> 'c"
  xl_kernel_fill :: "'p \<Rightarrow> (nat \<times> 'p) option"

definition N_FRAMES :: nat where "N_FRAMES = 4096"
definition FRAME_SIZE :: nat where "FRAME_SIZE = 4096"
definition XDP_BATCH_SIZE :: nat where "XDP_BATCH_SIZE = 32"

subsection \<open>The source\<close>

text \<open>The counts of a batch are at most \<open>XDP_BATCH_SIZE\<close>; the index \<open>next_rx_\<close> wraps around.\<close>

record ('c, 'p) afxdp =
  ax_fq :: 'p
  ax_rx :: 'c
  ax_peeked :: nat
  ax_next :: u32
  ax_batch :: nat
  ax_umem :: "byte list"
  ax_ifindex :: int
  ax_flags :: string

definition rearm_batch :: "('c, 'p) xdp_lib \<Rightarrow> ('c, 'p) afxdp \<Rightarrow> (transport_status + unit) \<times> ('c, 'p) afxdp" where
  "rearm_batch lib s =
     (let s = (if ax_peeked s \<noteq> 0 then s\<lparr>ax_rx := xl_release lib (ax_peeked s) (ax_rx s)\<rparr> else s) in
      case xl_peek lib XDP_BATCH_SIZE (ax_rx s) of ((n, idx), rx) \<Rightarrow>
        let s = s\<lparr>ax_rx := rx, ax_peeked := n, ax_next := (if n = 0 then ax_next s else idx), ax_batch := 0\<rparr> in
        if n = 0 then (Inl WouldBlock, s) else (Inr (), s))"

text \<open>A buffer is null or a descriptor; its area and its ring are those of the source.\<close>

type_synonym xbuf = "xdp_desc option"

definition xbuf_move :: "xbuf \<Rightarrow> xbuf \<times> xbuf" where
  "xbuf_move other = (other, None)"

definition xbuf_assign :: "xbuf \<Rightarrow> xbuf \<Rightarrow> xbuf \<times> xbuf" where
  "xbuf_assign this rhs = (rhs, this)"

definition afxdp_next :: "('c, 'p) xdp_lib \<Rightarrow> ('c, 'p) afxdp \<Rightarrow> (transport_status + xbuf) \<times> ('c, 'p) afxdp" where
  "afxdp_next lib s =
     (case (if ax_batch s = ax_peeked s then rearm_batch lib s else (Inr (), s)) of
        (Inl e, s) \<Rightarrow> (Inl e, s)
      | (Inr _, s) \<Rightarrow> (Inr (Some (xl_rx_desc lib (ax_rx s) (ax_next s))), s\<lparr>ax_batch := ax_batch s + 1, ax_next := ax_next s + 1\<rparr>))"

text \<open>Reading the umem outside of it, or through a null buffer, is \<open>Bad_Access\<close>.\<close>

definition xbuf_bytes :: "('c, 'p) xdp_lib \<Rightarrow> byte list \<Rightarrow> xbuf \<Rightarrow> byte list res" where
  "xbuf_bytes lib umem b =
     (case b of None \<Rightarrow> Inl Bad_Access
      | Some desc \<Rightarrow>
          let data = xl_get_data lib (xd_addr desc); ip = data + sizeof_ethhdr in
          if length umem \<le> ip then Inl Bad_Access
          else
            let ihl = unat (umem ! ip AND 0x0F); udp = ip + ihl * 4 in
            if length umem < udp + sizeof_udphdr then Inl Bad_Access
            else
              let udp_len = unat (byteswap (field16 umem (udp + 4))); payload = udp + sizeof_udphdr in
              if udp_len < sizeof_udphdr \<or> (payload - data) + (udp_len - 8) > xd_len desc then Inr []
              else let sz = udp_len - sizeof_udphdr in
                if length umem < payload + sz then Inl Bad_Access else Inr (take sz (drop payload umem)))"

text \<open>The index stays uninitialised if no entry could be reserved.\<close>

definition xbuf_destroy :: "('c, 'p) xdp_lib \<Rightarrow> xbuf \<Rightarrow> ('c, 'p) afxdp \<Rightarrow> ('c, 'p) afxdp res" where
  "xbuf_destroy lib b s =
     (case b of None \<Rightarrow> Inr s
      | Some desc \<Rightarrow>
          (case xl_reserve lib 1 (ax_fq s) of ((ret, idx), fq) \<Rightarrow>
             if ret \<noteq> 1 then Inl Bad_Access
             else Inr (s\<lparr>ax_fq := xl_submit lib 1 (xl_fill_addr lib idx (xl_extract_addr lib (xd_addr desc)) fq)\<rparr>)))"

subsection \<open>Construction and destruction\<close>

definition ax_fill :: "('c, 'p) xdp_lib \<Rightarrow> 'p \<Rightarrow> 'p option" where
  "ax_fill lib fq =
     (case xl_reserve lib N_FRAMES fq of ((n, idx), fq) \<Rightarrow>
        if n \<noteq> N_FRAMES then None
        else Some (xl_submit lib N_FRAMES (foldl (\<lambda>fq i. xl_fill_addr lib (idx + word_of_nat i) (i * FRAME_SIZE) fq) fq [0..<N_FRAMES])))"

definition ax_mmap :: "answers \<Rightarrow> unit sys" where
  "ax_mmap ans =
     (let mem_size = N_FRAMES * FRAME_SIZE in
      sys_bind (sys_call ans (Sys_mmap True mem_size)) (\<lambda>r.
      if 0 \<le> fst r then sys_return ()
      else sys_bind (sys_call ans (Sys_mmap False mem_size)) (\<lambda>r.
        if 0 \<le> fst r then sys_return () else sys_throw (Runtime_Error ''mmap() failed''))))"

definition ax_attach :: "answers \<Rightarrow> int \<Rightarrow> string sys" where
  "ax_attach ans ifindex =
     sys_bind (sys_call ans (Sys_xdp_attach ifindex ''XDP_FLAGS_DRV_MODE'')) (\<lambda>r.
     if fst r \<noteq> 0 then
       sys_bind (sys_call ans (Sys_xdp_attach ifindex ''XDP_FLAGS_SKB_MODE'')) (\<lambda>r.
       sys_bind (check_neg r ''bpf_xdp_attach'') (\<lambda>_. sys_return ''XDP_FLAGS_SKB_MODE''))
     else sys_return ''XDP_FLAGS_DRV_MODE'')"

text \<open>
  Zero stands for the answer of \<open>if_nametoindex\<close> and \<open>feed_filter__open\<close> that means failure. The members that are set up by
  libxdp (the rings, the memory of the mapping) are arguments.
\<close>

definition AfXDPSource :: "('c, 'p) xdp_lib \<Rightarrow> answers \<Rightarrow> 'p \<Rightarrow> 'c \<Rightarrow> byte list \<Rightarrow> string \<Rightarrow> int \<Rightarrow> u16 \<Rightarrow> ('c, 'p) afxdp sys" where
  "AfXDPSource lib ans fq rx umem ifname queue port =
     sys_bind (ax_mmap ans) (\<lambda>_.
     sys_bind (sys_call ans (Sys_if_nametoindex ifname)) (\<lambda>ifindex.
     if fst ifindex = 0 then sys_throw (Runtime_Error ''if_nametoindex() failed'')
     else sys_bind (sys_call ans (Sys_umem_create (N_FRAMES * FRAME_SIZE))) (\<lambda>r.
     if fst r \<noteq> 0 then sys_throw (Runtime_Error ''xsk_umem__create() failed'')
     else sys_bind (sys_call ans (Sys_xsk_create ifname queue)) (\<lambda>r.
     if fst r \<noteq> 0 then sys_throw (Runtime_Error ''xsk_socket__create() failed'')
     else case ax_fill lib fq of
       None \<Rightarrow> sys_throw (Runtime_Error ''xsk_ring_prod__reserve() failed'')
     | Some fq \<Rightarrow>
         sys_bind (sys_call ans Sys_skel_open) (\<lambda>r.
         if fst r = 0 then sys_throw (Runtime_Error ''feed_filter__open()'')
         else sys_bind (sys_call ans (Sys_skel_load port)) (\<lambda>r.
         sys_bind (check_neg r ''feed_filter_load'') (\<lambda>_.
         sys_bind (sys_call ans Sys_xskmap_update) (\<lambda>r.
         sys_bind (check_neg r ''xsk_socket__update_xskmap'') (\<lambda>_.
         sys_bind (ax_attach ans (fst ifindex)) (\<lambda>flags.
         sys_return \<lparr>ax_fq = fq, ax_rx = rx, ax_peeked = 0, ax_next = 0, ax_batch = 0, ax_umem = umem,
           ax_ifindex = fst ifindex, ax_flags = flags\<rparr>))))))))))"

definition AfXDPSource_destroy :: "('c, 'p) afxdp \<Rightarrow> syscall list \<Rightarrow> syscall list" where
  "AfXDPSource_destroy s calls = calls @ [Sys_xdp_detach (ax_ifindex s) (ax_flags s), Sys_skel_destroy, Sys_xsk_delete,
     Sys_umem_delete, Sys_munmap (N_FRAMES * FRAME_SIZE)]"

lemmas hdr_sizes = sizeof_ethhdr_def sizeof_iphdr_def sizeof_udphdr_def

subsection \<open>The payload of a frame\<close>

definition frame_payload :: "byte list \<Rightarrow> byte list" where
  "frame_payload f =
     (let len = unat (byteswap (field16 f 38)) in if len < 8 \<or> 42 + (len - 8) > length f then [] else take (len - 8) (drop 42 f))"

text \<open>The frame \<open>f\<close> is in the umem where the descriptor says, inside one frame of the area.\<close>

definition frame_at :: "byte list \<Rightarrow> xdp_desc \<Rightarrow> byte list \<Rightarrow> bool" where
  "frame_at umem d f \<longleftrightarrow> xd_addr d mod FRAME_SIZE + xd_len d \<le> FRAME_SIZE \<and> xd_addr d + xd_len d \<le> length umem
     \<and> take (xd_len d) (drop (xd_addr d) umem) = f"

lemma frame_at_len: "frame_at umem d f \<Longrightarrow> xd_len d = length f"
  by (auto simp: frame_at_def)

lemma filter_passes: "feed_filter port redirect f = XDP_REDIRECT \<Longrightarrow> 42 \<le> length f \<and> f ! 14 AND 0x0F = 5"
  by (auto simp: feed_filter_def Let_def hdr_sizes split: if_splits)

lemma frame_field:
  assumes "frame_at umem d f" "off + 2 \<le> length f"
  shows "field16 umem (xd_addr d + off) = field16 f off"
proof -
  have "take 2 (drop off (take (xd_len d) (drop (xd_addr d) umem))) = take 2 (drop (xd_addr d + off) umem)"
    using assms(2) frame_at_len [OF assms(1)] by (simp add: drop_take add.commute)
  then show ?thesis using assms(1) by (simp add: frame_at_def field16_def)
qed

lemma frame_nth: "frame_at umem d f \<Longrightarrow> i < length f \<Longrightarrow> umem ! (xd_addr d + i) = f ! i"
  by (auto simp: frame_at_def)

text \<open>A frame that passed the filter is read inside its own bytes.\<close>

lemma xbuf_bytes_frame:
  assumes at: "frame_at umem d f" and filter: "feed_filter port redirect f = XDP_REDIRECT" and data: "xl_get_data lib (xd_addr d) = xd_addr d"
  shows "xbuf_bytes lib umem (Some d) = Inr (frame_payload f)"
proof -
  let ?a = "xd_addr d" and ?len = "unat (byteswap (field16 f 38))"
  have len: "42 \<le> length f" "xd_len d = length f" and ihl: "f ! 14 AND 0x0F = 5"
    using filter_passes [OF filter] frame_at_len [OF at] by auto
  have room: "?a + length f \<le> length umem" using at len(2) by (simp add: frame_at_def)
  have n: "umem ! (?a + 14) = f ! 14" "field16 umem (?a + 38) = field16 f 38" using frame_nth [OF at] frame_field [OF at] len(1) by simp_all
  have "take k (drop (?a + 42) umem) = take k (drop 42 f)" if "42 + k \<le> length f" for k
  proof -
    have "take k (drop 42 (take (xd_len d) (drop ?a umem))) = take k (drop (?a + 42) umem)" using that len by (simp add: drop_take add.commute)
    then show ?thesis using at by (simp add: frame_at_def)
  qed
  then show ?thesis
    using room len n ihl data by (auto simp: xbuf_bytes_def frame_payload_def Let_def hdr_sizes add.assoc)
qed

subsection \<open>Frames on the wire\<close>

record udp_headers =
  uh_mac :: "byte list"
  uh_tos :: byte
  uh_len_id :: "byte list"
  uh_df :: bool
  uh_ttl :: byte
  uh_addrs :: "byte list"
  uh_sport :: "byte list"
  uh_csum :: "byte list"

definition headers_ok :: "udp_headers \<Rightarrow> bool" where
  "headers_ok h \<longleftrightarrow> length (uh_mac h) = 12 \<and> length (uh_len_id h) = 4 \<and> length (uh_addrs h) = 10 \<and> length (uh_sport h) = 2
     \<and> length (uh_csum h) = 2"

definition udp_frame :: "udp_headers \<Rightarrow> u16 \<Rightarrow> byte list \<Rightarrow> byte list \<Rightarrow> byte list" where
  "udp_frame h port payload padding =
     uh_mac h @ be_bytes ETH_P_IP
     @ [0x45, uh_tos h] @ uh_len_id h @ [if uh_df h then 0x40 else 0, 0, uh_ttl h, IPPROTO_UDP] @ uh_addrs h
     @ uh_sport h @ be_bytes port @ be_bytes (word_of_nat (8 + length payload) :: u16) @ uh_csum h
     @ payload @ padding"

lemma field16_at: "length pre = off \<Longrightarrow> field16 (pre @ be_bytes w @ post) off = htons w"
proof -
  assume "length pre = off"
  then have "take 2 (drop off (pre @ be_bytes w @ post)) = be_bytes w" by simp
  then show ?thesis by (simp add: field16_def htons_def byteswap_def be_bytes_def)
qed

lemma htons_frag: "htons 0x3FFF = 0xFF3F"
proof -
  have two: "le_bytes 2 v = [word_of_nat v, word_of_nat (v div 256)]" for v by (simp add: numeral_2_eq_2)
  have "store_native (0x3FFF :: u16) = [0xFF, 0x3F]" by (simp add: store_native_def two)
  then show ?thesis by (simp add: htons_def byteswap_def load_native_def)
qed

lemma udp_frame_parts:
  assumes "headers_ok h"
  shows "length (udp_frame h port payload padding) = 42 + length payload + length padding"
    "field16 (udp_frame h port payload padding) 12 = htons ETH_P_IP" "udp_frame h port payload padding ! 14 = 0x45"
    "field16 (udp_frame h port payload padding) 20 AND htons 0x3FFF = 0" "udp_frame h port payload padding ! 23 = IPPROTO_UDP"
    "field16 (udp_frame h port payload padding) 36 = htons port"
    "field16 (udp_frame h port payload padding) 38 = htons (word_of_nat (8 + length payload))"
    "drop 42 (udp_frame h port payload padding) = payload @ padding"
proof -
  have l: "length (uh_mac h) = 12" "length (uh_len_id h) = 4" "length (uh_addrs h) = 10" "length (uh_sport h) = 2" "length (uh_csum h) = 2"
    using assms by (simp_all add: headers_ok_def)
  let ?a = "uh_mac h @ be_bytes ETH_P_IP @ [0x45, uh_tos h] @ uh_len_id h"
  let ?b = "?a @ [if uh_df h then 0x40 else 0, 0, uh_ttl h, IPPROTO_UDP] @ uh_addrs h @ uh_sport h"
  show "length (udp_frame h port payload padding) = 42 + length payload + length padding" by (simp add: udp_frame_def l)
  show "field16 (udp_frame h port payload padding) 12 = htons ETH_P_IP" unfolding udp_frame_def by (rule field16_at) (simp add: l)
  show "udp_frame h port payload padding ! 14 = 0x45" "udp_frame h port payload padding ! 23 = IPPROTO_UDP"
    by (simp_all add: udp_frame_def nth_append l)
  have "take 2 (drop 20 (udp_frame h port payload padding)) = [if uh_df h then 0x40 else 0, 0]" by (simp add: udp_frame_def l)
  then have "field16 (udp_frame h port payload padding) 20 = (if uh_df h then 0x40 else 0)"
    by (simp add: field16_def load_native_def)
  moreover have "htons 0x3FFF = 0xFF3F" by (rule htons_frag)
  ultimately show "field16 (udp_frame h port payload padding) 20 AND htons 0x3FFF = 0" by simp
  have eq: "udp_frame h port payload padding = ?b @ be_bytes port @ (be_bytes (word_of_nat (8 + length payload) :: u16) @ uh_csum h @ payload @ padding)"
    by (simp add: udp_frame_def)
  show "field16 (udp_frame h port payload padding) 36 = htons port" unfolding eq by (rule field16_at) (simp add: l)
  have eq': "udp_frame h port payload padding = (?b @ be_bytes port) @ be_bytes (word_of_nat (8 + length payload) :: u16) @ (uh_csum h @ payload @ padding)"
    by (simp add: udp_frame_def)
  show "field16 (udp_frame h port payload padding) 38 = htons (word_of_nat (8 + length payload))" unfolding eq' by (rule field16_at) (simp add: l)
  show "drop 42 (udp_frame h port payload padding) = payload @ padding" by (simp add: udp_frame_def l)
qed

lemma udp_frame_ok:
  assumes "headers_ok h" "length payload \<le> 65527"
  shows "feed_filter port redirect (udp_frame h port payload padding) = redirect"
    "frame_payload (udp_frame h port payload padding) = payload"
proof -
  note p = udp_frame_parts [OF assms(1), of port payload padding]
  show "feed_filter port redirect (udp_frame h port payload padding) = redirect"
    using p by (simp add: feed_filter_def Let_def hdr_sizes)
  have "unat (byteswap (field16 (udp_frame h port payload padding) 38)) = 8 + length payload"
    using assms(2) by (simp only: p(7) htons_def byteswap_byteswap [OF byte_sizes(2)]) (simp add: unsigned_of_nat take_bit_nat_eq_self del: of_nat_add)
  then show "frame_payload (udp_frame h port payload padding) = payload" using p(1,8) by (simp add: frame_payload_def)
qed

subsection \<open>What libxdp promises\<close>

text \<open>
  The consumer's end of a ring is seen as all descriptors the kernel has put there, how many of them were released and how
  many were peeked at; the producer's end as the addresses the kernel has not taken yet and the room that is left.
  Peeking may return fewer than are there, but not none of some. A descriptor can be read between peeking and releasing it, as long as it is less than a ring ahead of what was released, under
  its number modulo \<open>2 ^ 32\<close>. Entries that are reserved, filled and submitted are seen by the kernel in order.
\<close>

definition RX_SIZE :: nat where "RX_SIZE = 2048"

definition umem_ok :: "('c, 'p) xdp_lib \<Rightarrow> bool" where
  "umem_ok lib \<longleftrightarrow> (\<forall>a. xl_get_data lib a = a) \<and> (\<forall>a < 2 ^ 48. xl_extract_addr lib a = a)"

definition rx_ok :: "('c, 'p) xdp_lib \<Rightarrow> ('c \<Rightarrow> xdp_desc list \<times> nat \<times> nat) \<Rightarrow> bool" where
  "rx_ok lib rxv \<longleftrightarrow> (\<forall>c ds rel pk. rxv c = (ds, rel, pk) \<longrightarrow> pk \<le> length ds \<longrightarrow>
     (\<forall>n k idx c'. xl_peek lib n c = ((k, idx), c') \<longrightarrow> k \<le> n \<and> pk + k \<le> length ds \<and> rxv c' = (ds, rel, pk + k)
        \<and> (0 < k \<longrightarrow> idx = word_of_nat pk) \<and> (0 < n \<and> pk < length ds \<longrightarrow> 0 < k))
     \<and> (\<forall>n. rel + n \<le> pk \<longrightarrow> rxv (xl_release lib n c) = (ds, rel + n, pk))
     \<and> (\<forall>i. rel \<le> i \<and> i < pk \<and> i < rel + RX_SIZE \<longrightarrow> xl_rx_desc lib c (word_of_nat i) = ds ! i)
     \<and> (\<forall>d. rxv (xl_kernel_rx lib d c) = (ds @ [d], rel, pk)))"

definition fill_ok :: "('c, 'p) xdp_lib \<Rightarrow> ('p \<Rightarrow> nat list \<times> nat) \<Rightarrow> bool" where
  "fill_ok lib fqv \<longleftrightarrow> (\<forall>p as free. fqv p = (as, free) \<longrightarrow>
     (\<forall>n. n \<le> free \<and> n \<le> N_FRAMES \<longrightarrow> (\<exists>idx p'. xl_reserve lib n p = ((n, idx), p') \<and> (\<forall>addrs. length addrs = n \<longrightarrow>
        fqv (xl_submit lib n (foldl (\<lambda>p i. xl_fill_addr lib (idx + word_of_nat i) (addrs ! i) p) p' [0..<n])) = (as @ addrs, free - n))))
     \<and> (\<forall>a p'. xl_kernel_fill lib p = Some (a, p') \<longrightarrow> (\<exists>as'. as = a # as' \<and> fqv p' = (as', free + 1))))"

lemma rx_okD:
  assumes "rx_ok lib rxv" "rxv c = (ds, rel, pk)" "pk \<le> length ds"
  shows "\<And>n k idx c'. xl_peek lib n c = ((k, idx), c') \<Longrightarrow> k \<le> n \<and> pk + k \<le> length ds \<and> rxv c' = (ds, rel, pk + k)
      \<and> (0 < k \<longrightarrow> idx = word_of_nat pk) \<and> (0 < n \<and> pk < length ds \<longrightarrow> 0 < k)"
    "\<And>n. rel + n \<le> pk \<Longrightarrow> rxv (xl_release lib n c) = (ds, rel + n, pk)"
    "\<And>i. rel \<le> i \<Longrightarrow> i < pk \<Longrightarrow> i < rel + RX_SIZE \<Longrightarrow> xl_rx_desc lib c (word_of_nat i) = ds ! i"
    "\<And>d. rxv (xl_kernel_rx lib d c) = (ds @ [d], rel, pk)"
  using assms unfolding rx_ok_def by blast+

lemma fill_okD:
  assumes "fill_ok lib fqv" "fqv p = (as, free)"
  shows "\<And>n. n \<le> free \<Longrightarrow> n \<le> N_FRAMES \<Longrightarrow> \<exists>idx p'. xl_reserve lib n p = ((n, idx), p') \<and> (\<forall>addrs. length addrs = n \<longrightarrow>
        fqv (xl_submit lib n (foldl (\<lambda>p i. xl_fill_addr lib (idx + word_of_nat i) (addrs ! i) p) p' [0..<n])) = (as @ addrs, free - n))"
    "\<And>a p'. xl_kernel_fill lib p = Some (a, p') \<Longrightarrow> \<exists>as'. as = a # as' \<and> fqv p' = (as', free + 1)"
  using assms unfolding fill_ok_def by blast+

subsection \<open>Packets, buffers and the kernel\<close>

text \<open>
  A packet that the kernel keeps for the socket: it takes a free frame, writes the packet behind the headroom and puts a
  descriptor into the ring. Its choice to drop a packet (no room in a ring) is part of the event.
\<close>

datatype xdp_event = Xdp_Packet bool "byte list" | Xdp_Next | Xdp_Drop nat

definition frame_of :: "nat \<Rightarrow> nat" where
  "frame_of a = a div FRAME_SIZE"

definition umem_write :: "nat \<Rightarrow> byte list \<Rightarrow> byte list \<Rightarrow> byte list" where
  "umem_write a f umem = take a umem @ f @ drop (a + length f) umem"

definition xdp_arrive :: "('c, 'p) xdp_lib \<Rightarrow> nat \<Rightarrow> u16 \<Rightarrow> xdp_action \<Rightarrow> bool \<Rightarrow> byte list \<Rightarrow> ('c, 'p) afxdp \<Rightarrow> byte list list \<times> ('c, 'p) afxdp" where
  "xdp_arrive lib head port redirect keep f s =
     (if \<not> keep \<or> feed_filter port redirect f \<noteq> XDP_REDIRECT \<or> FRAME_SIZE < head + length f then ([], s)
      else case xl_kernel_fill lib (ax_fq s) of
        None \<Rightarrow> ([], s)
      | Some (a, fq) \<Rightarrow>
          let d = \<lparr>xd_addr = frame_of a * FRAME_SIZE + head, xd_len = length f\<rparr> in
          ([f], s\<lparr>ax_fq := fq, ax_rx := xl_kernel_rx lib d (ax_rx s), ax_umem := umem_write (xd_addr d) f (ax_umem s)\<rparr>))"

text \<open>A run: the source, the buffers the client holds with the bytes read from them, all bytes read, all packets kept.\<close>

type_synonym ('c, 'p) xdp_run_state = "('c, 'p) afxdp \<times> (xbuf \<times> byte list) list \<times> byte list list \<times> byte list list"

fun xdp_step :: "('c, 'p) xdp_lib \<Rightarrow> nat \<Rightarrow> u16 \<Rightarrow> xdp_action \<Rightarrow> xdp_event \<Rightarrow> ('c, 'p) xdp_run_state \<Rightarrow> ('c, 'p) xdp_run_state res" where
  "xdp_step lib head port redirect (Xdp_Packet keep f) (s, held, got, arrived) =
     (case xdp_arrive lib head port redirect keep f s of (new, s) \<Rightarrow> Inr (s, held, got, arrived @ new))"
| "xdp_step lib head port redirect Xdp_Next (s, held, got, arrived) =
     (case afxdp_next lib s of
        (Inl e, s) \<Rightarrow> Inr (s, held, got, arrived)
      | (Inr b, s) \<Rightarrow> bind_res (xbuf_bytes lib (ax_umem s) b) (\<lambda>bs. Inr (s, held @ [(b, bs)], got @ [bs], arrived)))"
| "xdp_step lib head port redirect (Xdp_Drop i) (s, held, got, arrived) =
     (if i < length held then bind_res (xbuf_destroy lib (fst (held ! i)) s) (\<lambda>s. Inr (s, take i held @ drop (Suc i) held, got, arrived))
      else Inr (s, held, got, arrived))"

fun xdp_run :: "('c, 'p) xdp_lib \<Rightarrow> nat \<Rightarrow> u16 \<Rightarrow> xdp_action \<Rightarrow> xdp_event list \<Rightarrow> ('c, 'p) xdp_run_state \<Rightarrow> ('c, 'p) xdp_run_state res" where
  "xdp_run lib head port redirect [] st = Inr st"
| "xdp_run lib head port redirect (ev # evs) st = bind_res (xdp_step lib head port redirect ev st) (xdp_run lib head port redirect evs)"

subsection \<open>Invariant\<close>

text \<open>Every frame of the area is in one place: free, waiting in the ring, or in a buffer of the client.\<close>

definition owned_frames :: "nat list \<Rightarrow> xdp_desc list \<Rightarrow> (xbuf \<times> byte list) list \<Rightarrow> nat list" where
  "owned_frames as waiting held = map frame_of as @ map (\<lambda>d. frame_of (xd_addr d)) waiting @ map (\<lambda>b. frame_of (xd_addr (the (fst b)))) held"

definition buffer_ok :: "u16 \<Rightarrow> xdp_action \<Rightarrow> byte list \<Rightarrow> xbuf \<times> byte list \<Rightarrow> bool" where
  "buffer_ok port redirect umem b \<longleftrightarrow> (\<exists>d f. fst b = Some d \<and> frame_at umem d f \<and> feed_filter port redirect f = XDP_REDIRECT \<and> snd b = frame_payload f)"

definition xdp_state :: "('c \<Rightarrow> xdp_desc list \<times> nat \<times> nat) \<Rightarrow> ('p \<Rightarrow> nat list \<times> nat) \<Rightarrow> u16 \<Rightarrow> xdp_action
    \<Rightarrow> xdp_desc list \<Rightarrow> nat \<Rightarrow> nat list \<Rightarrow> ('c, 'p) xdp_run_state \<Rightarrow> bool" where
  "xdp_state rxv fqv port redirect ds rel as st \<longleftrightarrow> (case st of (s, held, got, arrived) \<Rightarrow>
     rxv (ax_rx s) = (ds, rel, rel + ax_peeked s) \<and> fqv (ax_fq s) = (as, N_FRAMES - length as)
     \<and> rel + ax_peeked s \<le> length ds \<and> ax_batch s \<le> ax_peeked s \<and> (ax_batch s < ax_peeked s \<longrightarrow> ax_next s = word_of_nat (rel + ax_batch s))
     \<and> length arrived = length ds \<and> length (ax_umem s) = N_FRAMES * FRAME_SIZE
     \<and> got = map frame_payload (take (rel + ax_batch s) arrived)
     \<and> (\<forall>f \<in> set arrived. feed_filter port redirect f = XDP_REDIRECT)
     \<and> (\<forall>i. rel + ax_batch s \<le> i \<longrightarrow> i < length ds \<longrightarrow> frame_at (ax_umem s) (ds ! i) (arrived ! i))
     \<and> (\<forall>b \<in> set held. buffer_ok port redirect (ax_umem s) b)
     \<and> mset (owned_frames as (drop (rel + ax_batch s) ds) held) = mset [0..<N_FRAMES]
     \<and> ax_peeked s \<le> XDP_BATCH_SIZE)"

definition xdp_inv :: "('c \<Rightarrow> xdp_desc list \<times> nat \<times> nat) \<Rightarrow> ('p \<Rightarrow> nat list \<times> nat) \<Rightarrow> u16 \<Rightarrow> xdp_action \<Rightarrow> ('c, 'p) xdp_run_state \<Rightarrow> bool" where
  "xdp_inv rxv fqv port redirect st \<longleftrightarrow> (\<exists>ds rel as. xdp_state rxv fqv port redirect ds rel as st)"

lemma xdp_stateD:
  assumes "xdp_state rxv fqv port redirect ds rel as (s, held, got, arrived)"
  shows "rxv (ax_rx s) = (ds, rel, rel + ax_peeked s)" "fqv (ax_fq s) = (as, N_FRAMES - length as)"
    "rel + ax_peeked s \<le> length ds" "ax_batch s \<le> ax_peeked s" "ax_batch s < ax_peeked s \<Longrightarrow> ax_next s = word_of_nat (rel + ax_batch s)"
    "length arrived = length ds" "length (ax_umem s) = N_FRAMES * FRAME_SIZE" "got = map frame_payload (take (rel + ax_batch s) arrived)"
    "\<forall>f \<in> set arrived. feed_filter port redirect f = XDP_REDIRECT"
    "\<And>i. rel + ax_batch s \<le> i \<Longrightarrow> i < length ds \<Longrightarrow> frame_at (ax_umem s) (ds ! i) (arrived ! i)"
    "\<forall>b \<in> set held. buffer_ok port redirect (ax_umem s) b"
    "mset (owned_frames as (drop (rel + ax_batch s) ds) held) = mset [0..<N_FRAMES]" "ax_peeked s \<le> XDP_BATCH_SIZE"
  using assms by (simp_all add: xdp_state_def)

lemma frame_pos [simp]: "0 < FRAME_SIZE" "0 < N_FRAMES"
  by (simp_all add: FRAME_SIZE_def N_FRAMES_def)

lemma length_umem_write [simp]: "a + length f \<le> length umem \<Longrightarrow> length (umem_write a f umem) = length umem"
  by (simp add: umem_write_def)

text \<open>Writing one frame leaves the packets in others alone.\<close>

lemma frame_at_other:
  assumes at: "frame_at umem d f" and room: "a + length p \<le> length umem" "a mod FRAME_SIZE + length p \<le> FRAME_SIZE"
    and other: "frame_of (xd_addr d) \<noteq> frame_of a"
  shows "frame_at (umem_write a p umem) d f"
proof -
  let ?x = "xd_addr d" and ?n = "xd_len d"
  have x: "?x = frame_of ?x * FRAME_SIZE + ?x mod FRAME_SIZE" and a: "a = frame_of a * FRAME_SIZE + a mod FRAME_SIZE" by (simp_all add: frame_of_def)
  have in_x: "?x mod FRAME_SIZE + ?n \<le> FRAME_SIZE" "?x + ?n \<le> length umem" "take ?n (drop ?x umem) = f" using at by (simp_all add: frame_at_def)
  have "?x + ?n \<le> a \<or> a + length p \<le> ?x"
  proof (cases "frame_of ?x < frame_of a")
    case True
    then have "Suc (frame_of ?x) * FRAME_SIZE \<le> frame_of a * FRAME_SIZE" by (intro mult_le_mono) simp_all
    then show ?thesis using x a in_x(1) by simp
  next
    case False
    then have "Suc (frame_of a) * FRAME_SIZE \<le> frame_of ?x * FRAME_SIZE" using other by (intro mult_le_mono) simp_all
    then show ?thesis using x a room(2) by simp
  qed
  then have "take ?n (drop ?x (umem_write a p umem)) = take ?n (drop ?x umem)"
  proof
    assume "?x + ?n \<le> a"
    then show ?thesis using room(1) by (simp add: umem_write_def take_drop min_def add.commute)
  next
    assume "a + length p \<le> ?x"
    then show ?thesis using room(1) by (simp add: umem_write_def)
  qed
  then show ?thesis using in_x room(1) by (simp add: frame_at_def)
qed

lemma frame_at_new: "a + length f \<le> length umem \<Longrightarrow> a mod FRAME_SIZE + length f \<le> FRAME_SIZE \<Longrightarrow> frame_at (umem_write a f umem) \<lparr>xd_addr = a, xd_len = length f\<rparr> f"
  by (simp add: frame_at_def umem_write_def)

subsection \<open>Steps keep the invariant\<close>

lemma arrive_keeps:
  assumes ok: "rx_ok lib rxv" "fill_ok lib fqv" and st: "xdp_state rxv fqv port redirect ds rel as (s, held, got, arrived)"
    and arr: "xdp_arrive lib head port redirect keep f s = (new, s')"
  shows "xdp_inv rxv fqv port redirect (s', held, got, arrived @ new)"
proof (cases "new = []")
  case True
  then have "s' = s" using arr by (auto simp: xdp_arrive_def Let_def split: if_splits option.splits)
  then show ?thesis using st True by (auto simp: xdp_inv_def)
next
  case False
  note v = xdp_stateD [OF st]
  obtain a fq where k: "feed_filter port redirect f = XDP_REDIRECT" "head + length f \<le> FRAME_SIZE" "xl_kernel_fill lib (ax_fq s) = Some (a, fq)"
    using arr False by (auto simp: xdp_arrive_def split: if_splits option.splits)
  define d where "d = \<lparr>xd_addr = frame_of a * FRAME_SIZE + head, xd_len = length f\<rparr>"
  have new: "new = [f]" and s': "s' = s\<lparr>ax_fq := fq, ax_rx := xl_kernel_rx lib d (ax_rx s), ax_umem := umem_write (xd_addr d) f (ax_umem s)\<rparr>"
    using arr k False by (auto simp: xdp_arrive_def Let_def d_def split: if_splits)
  obtain as' where as: "as = a # as'" "fqv fq = (as', N_FRAMES - length as + 1)" using fill_okD(2) [OF ok(2) v(2) k(3)] by blast
  let ?W = "drop (rel + ax_batch s) ds" and ?u = "umem_write (xd_addr d) f (ax_umem s)"
  have le: "rel + ax_batch s \<le> length ds" using v(3,4) by simp
  have "42 \<le> length f" using filter_passes [OF k(1)] by simp
  then have head: "head < FRAME_SIZE" using k(2) by simp
  have fd: "frame_of (xd_addr d) = frame_of a" "xd_addr d mod FRAME_SIZE = head" using head by (simp_all add: d_def frame_of_def)
  have "mset (frame_of a # owned_frames as' ?W held) = mset [0..<N_FRAMES]" using v(12) as(1) by (simp add: owned_frames_def)
  then have dist: "distinct (frame_of a # owned_frames as' ?W held)" and mem: "set (frame_of a # owned_frames as' ?W held) = {0..<N_FRAMES}"
    using mset_eq_imp_distinct_iff mset_eq_setD by (metis distinct_upt, metis atLeastLessThan_upt)
  have "length (owned_frames as ?W held) = N_FRAMES" using mset_eq_length [OF v(12)] by simp
  then have len_as: "length as \<le> N_FRAMES" by (simp add: owned_frames_def)
  have "frame_of a < N_FRAMES" using mem by auto
  then have "Suc (frame_of a) * FRAME_SIZE \<le> N_FRAMES * FRAME_SIZE" by (intro mult_le_mono) simp_all
  then have room: "xd_addr d + length f \<le> length (ax_umem s)" using k(2) v(7) by (simp add: d_def)
  have frame: "xd_addr d mod FRAME_SIZE + length f \<le> FRAME_SIZE" using fd(2) k(2) by simp
  have other: "frame_at ?u d' f'" if "frame_at (ax_umem s) d' f'" "frame_of (xd_addr d') \<in> set (owned_frames as' ?W held)" for d' f'
  proof (rule frame_at_other [OF that(1) room frame])
    show "frame_of (xd_addr d') \<noteq> frame_of (xd_addr d)" using that(2) dist unfolding fd(1) by (metis distinct.simps(2))
  qed
  have new_at: "frame_at ?u d f" using frame_at_new [OF room frame] by (simp add: d_def)
  have wait: "frame_at ?u ((ds @ [d]) ! i) ((arrived @ [f]) ! i)" if i: "rel + ax_batch s \<le> i" "i < Suc (length ds)" for i
  proof (cases "i < length ds")
    case True
    then have "ds ! i \<in> set ?W" using i(1) nth_mem [of "i - (rel + ax_batch s)" ?W] by (simp add: add.commute)
    then have "frame_of (xd_addr (ds ! i)) \<in> set (owned_frames as' ?W held)" by (auto simp: owned_frames_def)
    then show ?thesis using other [OF v(10) [OF i(1) True]] True v(6) by (simp add: nth_append)
  next
    case False
    then show ?thesis using i(2) new_at v(6) by (simp add: nth_append)
  qed
  have "buffer_ok port redirect ?u b" if b: "b \<in> set held" for b
  proof -
    obtain d' f' where *: "fst b = Some d'" "frame_at (ax_umem s) d' f'" "feed_filter port redirect f' = XDP_REDIRECT" "snd b = frame_payload f'"
      using v(11) b unfolding buffer_ok_def by blast
    have "frame_of (xd_addr d') \<in> set (owned_frames as' ?W held)" using b *(1) by (force simp: owned_frames_def)
    then show ?thesis using other [OF *(2)] * unfolding buffer_ok_def by blast
  qed
  moreover have "mset (owned_frames as' (drop (rel + ax_batch s) (ds @ [d])) held) = mset [0..<N_FRAMES]"
    using v(12) as(1) fd(1) le by (simp add: owned_frames_def)
  moreover have "fqv fq = (as', N_FRAMES - length as')" using as len_as by simp
  ultimately have "xdp_state rxv fqv port redirect (ds @ [d]) rel as' (s', held, got, arrived @ [f])"
    using v wait k(1) room le rx_okD(4) [OF ok(1) v(1,3)] unfolding xdp_state_def s' by simp
  then show ?thesis unfolding xdp_inv_def new by blast
qed

lemma rearm_keeps:
  assumes ok: "rx_ok lib rxv" and st: "xdp_state rxv fqv port redirect ds rel as (s, held, got, arrived)"
    and "ax_batch s = ax_peeked s" and arm: "rearm_batch lib s = (r, s')"
  shows "\<exists>rel. xdp_state rxv fqv port redirect ds rel as (s', held, got, arrived)" "r = Inr () \<Longrightarrow> ax_batch s' < ax_peeked s'"
    "r = Inl e \<Longrightarrow> got = map frame_payload arrived"
proof -
  note v = xdp_stateD [OF st]
  let ?rx = "if ax_peeked s \<noteq> 0 then xl_release lib (ax_peeked s) (ax_rx s) else ax_rx s" and ?rel = "rel + ax_peeked s"
  have released: "rxv ?rx = (ds, ?rel, ?rel)" using rx_okD(2) [OF ok v(1,3), of "ax_peeked s"] v(1) by (cases "ax_peeked s = 0") simp_all
  obtain n idx rx where p: "xl_peek lib XDP_BATCH_SIZE ?rx = ((n, idx), rx)" by (metis prod.collapse)
  note n = rx_okD(1) [OF ok released v(3) p]
  have s': "s' = s\<lparr>ax_rx := rx, ax_peeked := n, ax_next := (if n = 0 then ax_next s else idx), ax_batch := 0\<rparr>"
    and r: "r = (if n = 0 then Inl WouldBlock else Inr ())"
    using arm p by (auto simp: rearm_batch_def Let_def split: if_splits)
  show "r = Inr () \<Longrightarrow> ax_batch s' < ax_peeked s'" using r s' by (simp split: if_splits)
  show "r = Inl e \<Longrightarrow> got = map frame_payload arrived" using r n v(3,6,8) assms(3) by (simp add: XDP_BATCH_SIZE_def split: if_splits)
  have "xdp_state rxv fqv port redirect ds ?rel as (s', held, got, arrived)"
    using v n assms(3) unfolding xdp_state_def s' by simp
  then show "\<exists>rel. xdp_state rxv fqv port redirect ds rel as (s', held, got, arrived)" by blast
qed

lemma serve_keeps:
  assumes ok: "umem_ok lib" "rx_ok lib rxv" and st: "xdp_state rxv fqv port redirect ds rel as (s, held, got, arrived)"
    and more: "ax_batch s < ax_peeked s"
    and s': "s' = s\<lparr>ax_batch := ax_batch s + 1, ax_next := ax_next s + 1\<rparr>" and b: "b = Some (xl_rx_desc lib (ax_rx s) (ax_next s))"
  shows "\<exists>bs. xbuf_bytes lib (ax_umem s') b = Inr bs \<and> xdp_inv rxv fqv port redirect (s', held @ [(b, bs)], got @ [bs], arrived)"
proof -
  note v = xdp_stateD [OF st]
  let ?i = "rel + ax_batch s"
  have i: "?i < length ds" "?i < length arrived" using v(3,6) more by simp_all
  have d: "b = Some (ds ! ?i)" using rx_okD(3) [OF ok(2) v(1,3), of ?i] more v(5,13) b by (simp add: XDP_BATCH_SIZE_def RX_SIZE_def)
  have at: "frame_at (ax_umem s) (ds ! ?i) (arrived ! ?i)" and pass: "feed_filter port redirect (arrived ! ?i) = XDP_REDIRECT"
    using v(9,10) i by simp_all
  have bytes: "xbuf_bytes lib (ax_umem s') b = Inr (frame_payload (arrived ! ?i))"
  proof -
    have "xl_get_data lib (xd_addr (ds ! ?i)) = xd_addr (ds ! ?i)" using ok(1) by (simp add: umem_ok_def)
    from xbuf_bytes_frame [OF at pass this] show ?thesis using d s' by simp
  qed
  have W: "drop ?i ds = ds ! ?i # drop (Suc ?i) ds" using i(1) by (rule Cons_nth_drop_Suc [symmetric])
  have "buffer_ok port redirect (ax_umem s) (b, frame_payload (arrived ! ?i))" using at pass d by (auto simp: buffer_ok_def)
  moreover have "mset (owned_frames as (drop (Suc ?i) ds) (held @ [(b, frame_payload (arrived ! ?i))])) = mset [0..<N_FRAMES]"
    using v(12) unfolding W by (simp add: owned_frames_def d)
  moreover have "got @ [frame_payload (arrived ! ?i)] = map frame_payload (take (Suc ?i) arrived)"
    using v(8) i(2) by (simp add: take_Suc_conv_app_nth)
  moreover have "ax_next s + 1 = word_of_nat (rel + Suc (ax_batch s))" using v(5) [OF more] by simp
  ultimately have "xdp_state rxv fqv port redirect ds rel as (s', held @ [(b, frame_payload (arrived ! ?i))], got @ [frame_payload (arrived ! ?i)], arrived)"
    using v more unfolding xdp_state_def s' by (simp del: of_nat_add of_nat_Suc)
  then show ?thesis using bytes unfolding xdp_inv_def by blast
qed

lemma next_keeps:
  assumes ok: "umem_ok lib" "rx_ok lib rxv" and inv: "xdp_inv rxv fqv port redirect (s, held, got, arrived)"
  shows "\<exists>st. xdp_step lib head port redirect Xdp_Next (s, held, got, arrived) = Inr st \<and> xdp_inv rxv fqv port redirect st"
proof -
  obtain ds rel as where st: "xdp_state rxv fqv port redirect ds rel as (s, held, got, arrived)" using inv unfolding xdp_inv_def by blast
  define r s1 where "r = fst (if ax_batch s = ax_peeked s then rearm_batch lib s else (Inr (), s))"
    and "s1 = snd (if ax_batch s = ax_peeked s then rearm_batch lib s else (Inr (), s))"
  then have rs: "(if ax_batch s = ax_peeked s then rearm_batch lib s else (Inr (), s)) = (r, s1)" by simp
  have "(\<exists>rel. xdp_state rxv fqv port redirect ds rel as (s1, held, got, arrived)) \<and> (r = Inr () \<longrightarrow> ax_batch s1 < ax_peeked s1)"
  proof (cases "ax_batch s = ax_peeked s")
    case True
    then have "rearm_batch lib s = (r, s1)" using rs by simp
    from rearm_keeps [OF ok(2) st True this] show ?thesis by blast
  next
    case False
    then show ?thesis using rs st xdp_stateD(4) [OF st] by auto
  qed
  then obtain rel1 where st1: "xdp_state rxv fqv port redirect ds rel1 as (s1, held, got, arrived)" "r = Inr () \<longrightarrow> ax_batch s1 < ax_peeked s1" by blast
  show ?thesis
  proof (cases r)
    case (Inl e)
    then have "xdp_step lib head port redirect Xdp_Next (s, held, got, arrived) = Inr (s1, held, got, arrived)"
      using rs by (simp add: afxdp_next_def del: split_paired_All)
    then show ?thesis using st1(1) unfolding xdp_inv_def by blast
  next
    case (Inr u)
    from serve_keeps [OF ok st1(1) _ refl refl] st1(2) Inr obtain bs where
      b: "xbuf_bytes lib (ax_umem (s1\<lparr>ax_batch := ax_batch s1 + 1, ax_next := ax_next s1 + 1\<rparr>)) (Some (xl_rx_desc lib (ax_rx s1) (ax_next s1))) = Inr bs"
        "xdp_inv rxv fqv port redirect (s1\<lparr>ax_batch := ax_batch s1 + 1, ax_next := ax_next s1 + 1\<rparr>,
          held @ [(Some (xl_rx_desc lib (ax_rx s1) (ax_next s1)), bs)], got @ [bs], arrived)" by (cases u) blast
    have "afxdp_next lib s = (Inr (Some (xl_rx_desc lib (ax_rx s1) (ax_next s1))), s1\<lparr>ax_batch := ax_batch s1 + 1, ax_next := ax_next s1 + 1\<rparr>)"
      unfolding afxdp_next_def rs using Inr by simp
    then show ?thesis using b by simp
  qed
qed

lemma drop_keeps:
  assumes ok: "umem_ok lib" "fill_ok lib fqv" and inv: "xdp_inv rxv fqv port redirect (s, held, got, arrived)" and i: "i < length held"
  shows "\<exists>st. xdp_step lib head port redirect (Xdp_Drop i) (s, held, got, arrived) = Inr st \<and> xdp_inv rxv fqv port redirect st"
proof -
  obtain ds rel as where st: "xdp_state rxv fqv port redirect ds rel as (s, held, got, arrived)" using inv unfolding xdp_inv_def by blast
  note v = xdp_stateD [OF st]
  let ?W = "drop (rel + ax_batch s) ds" and ?rest = "take i held @ drop (Suc i) held"
  have "buffer_ok port redirect (ax_umem s) (held ! i)" using v(11) i by simp
  then obtain d f where d: "fst (held ! i) = Some d" "frame_at (ax_umem s) d f" unfolding buffer_ok_def by blast
  have "length (owned_frames as ?W held) = N_FRAMES" using mset_eq_length [OF v(12)] by simp
  then have free: "1 \<le> N_FRAMES - length as" "1 \<le> N_FRAMES" using i by (simp_all add: owned_frames_def)
  obtain idx p' where p: "xl_reserve lib 1 (ax_fq s) = ((1, idx), p')"
    "\<forall>addrs. length addrs = 1 \<longrightarrow> fqv (xl_submit lib 1 (foldl (\<lambda>p i. xl_fill_addr lib (idx + word_of_nat i) (addrs ! i) p) p' [0..<1])) = (as @ addrs, N_FRAMES - length as - 1)"
    using fill_okD(1) [OF ok(2) v(2) free] by blast
  have "xd_addr d < 2 ^ 48" using d(2) v(7) by (simp add: frame_at_def N_FRAMES_def FRAME_SIZE_def)
  then have ext: "xl_extract_addr lib (xd_addr d) = xd_addr d" using ok(1) by (simp add: umem_ok_def)
  let ?fq = "xl_submit lib 1 (xl_fill_addr lib idx (xd_addr d) p')"
  have fq: "fqv ?fq = (as @ [xd_addr d], N_FRAMES - length (as @ [xd_addr d]))"
    using p(2) [rule_format, of "[xd_addr d]"] by simp
  have step: "xdp_step lib head port redirect (Xdp_Drop i) (s, held, got, arrived) = Inr (s\<lparr>ax_fq := ?fq\<rparr>, ?rest, got, arrived)"
    using i d(1) p(1) ext by (simp add: xbuf_destroy_def)
  have "mset held = add_mset (held ! i) (mset ?rest)" by (rule mset_take_drop [OF i])
  then have "mset (owned_frames (as @ [xd_addr d]) ?W ?rest) = mset (owned_frames as ?W held)"
    using d(1) by (simp add: owned_frames_def flip: mset_map) (simp add: d(1))
  moreover have "\<forall>b \<in> set ?rest. buffer_ok port redirect (ax_umem s) b" using v(11) by (auto dest: in_set_takeD in_set_dropD)
  ultimately have "xdp_state rxv fqv port redirect ds rel (as @ [xd_addr d]) (s\<lparr>ax_fq := ?fq\<rparr>, ?rest, got, arrived)"
    using v fq unfolding xdp_state_def by simp
  then show ?thesis using step unfolding xdp_inv_def by blast
qed

lemma run_keeps:
  assumes "umem_ok lib" "rx_ok lib rxv" "fill_ok lib fqv" "xdp_inv rxv fqv port redirect st"
  shows "\<exists>st'. xdp_run lib head port redirect evs st = Inr st' \<and> xdp_inv rxv fqv port redirect st'"
  using assms(4)
proof (induction evs arbitrary: st)
  case (Cons ev evs)
  obtain s held got arrived where st: "st = (s, held, got, arrived)" by (cases st)
  have "\<exists>st1. xdp_step lib head port redirect ev st = Inr st1 \<and> xdp_inv rxv fqv port redirect st1"
  proof (cases ev)
    case (Xdp_Packet keep f)
    obtain new s' where a: "xdp_arrive lib head port redirect keep f s = (new, s')" by (cases "xdp_arrive lib head port redirect keep f s")
    obtain ds rel as where "xdp_state rxv fqv port redirect ds rel as (s, held, got, arrived)" using Cons.prems st unfolding xdp_inv_def by blast
    from arrive_keeps [OF assms(2,3) this a] show ?thesis using a by (simp add: st Xdp_Packet)
  next
    case Xdp_Next
    then show ?thesis using next_keeps [OF assms(1,2)] Cons.prems st by simp
  next
    case (Xdp_Drop i)
    then show ?thesis using drop_keeps [OF assms(1,3) Cons.prems [unfolded st]] Cons.prems st by (cases "i < length held") simp_all
  qed
  then show ?case using Cons.IH by auto
qed simp

text \<open>The constructor puts every frame into the fill ring.\<close>

lemma ax_fill_all:
  assumes "fill_ok lib fqv" "fqv fq = ([], N_FRAMES)"
  shows "\<exists>fq'. ax_fill lib fq = Some fq' \<and> fqv fq' = (map (\<lambda>i. i * FRAME_SIZE) [0..<N_FRAMES], 0)"
proof -
  let ?addrs = "map (\<lambda>i. i * FRAME_SIZE) [0..<N_FRAMES]"
  obtain idx p' where p: "xl_reserve lib N_FRAMES fq = ((N_FRAMES, idx), p')"
    "\<forall>addrs. length addrs = N_FRAMES \<longrightarrow> fqv (xl_submit lib N_FRAMES (foldl (\<lambda>p i. xl_fill_addr lib (idx + word_of_nat i) (addrs ! i) p) p' [0..<N_FRAMES])) = ([] @ addrs, N_FRAMES - N_FRAMES)"
    using fill_okD(1) [OF assms order_refl order_refl] by blast
  have "foldl (\<lambda>p i. xl_fill_addr lib (idx + word_of_nat i) (?addrs ! i) p) p' [0..<N_FRAMES] =
      foldl (\<lambda>p i. xl_fill_addr lib (idx + word_of_nat i) (i * FRAME_SIZE) p) p' [0..<N_FRAMES]"
    by (rule foldl_cong) simp_all
  then show ?thesis using p(1) p(2) [rule_format, of ?addrs] by (simp add: ax_fill_def)
qed

lemma AfXDPSource_starts:
  assumes "fill_ok lib fqv" "fqv fq = ([], N_FRAMES)" "rxv rx = ([], 0, 0)" "length umem = N_FRAMES * FRAME_SIZE"
    and opened: "AfXDPSource lib ans fq rx umem ifname queue port calls = (Inr s, calls')"
  shows "xdp_inv rxv fqv p redirect (s, [], [], [])"
proof -
  obtain fq' where fq': "ax_fill lib fq = Some fq'" "fqv fq' = (map (\<lambda>i. i * FRAME_SIZE) [0..<N_FRAMES], 0)" using ax_fill_all [OF assms(1,2)] by blast
  have s: "ax_fq s = fq'" "ax_rx s = rx" "ax_peeked s = 0" "ax_batch s = 0" "ax_umem s = umem"
    using opened fq'(1) unfolding AfXDPSource_def by (auto simp: sys_bind_Inr sys_return_def sys_throw_def split: if_splits)
  have "map (frame_of \<circ> (\<lambda>i. i * FRAME_SIZE)) [0..<N_FRAMES] = map id [0..<N_FRAMES]" by (rule map_cong) (simp_all add: frame_of_def)
  then have "owned_frames (map (\<lambda>i. i * FRAME_SIZE) [0..<N_FRAMES]) [] [] = [0..<N_FRAMES]" by (simp add: owned_frames_def)
  then have "xdp_state rxv fqv p redirect [] 0 (map (\<lambda>i. i * FRAME_SIZE) [0..<N_FRAMES]) (s, [], [], [])"
    using s fq'(2) assms(3,4) by (simp add: xdp_state_def)
  then show ?thesis unfolding xdp_inv_def by blast
qed

lemma inv_result:
  assumes "umem_ok lib" "xdp_inv rxv fqv port redirect (s, held, got, arrived)"
  shows "prefix got (map frame_payload arrived)" "\<forall>(b, bs) \<in> set held. xbuf_bytes lib (ax_umem s) b = Inr bs"
    "\<forall>f \<in> set arrived. feed_filter port redirect f = XDP_REDIRECT"
proof -
  obtain ds rel as where st: "xdp_state rxv fqv port redirect ds rel as (s, held, got, arrived)" using assms(2) unfolding xdp_inv_def by blast
  note v = xdp_stateD [OF st]
  show "prefix got (map frame_payload arrived)" unfolding v(8) take_map [symmetric] by (rule take_is_prefix)
  show "\<forall>f \<in> set arrived. feed_filter port redirect f = XDP_REDIRECT" by (rule v(9))
  show "\<forall>(b, bs) \<in> set held. xbuf_bytes lib (ax_umem s) b = Inr bs"
  proof
    fix x assume "x \<in> set held"
    then obtain d f where x: "fst x = Some d" "frame_at (ax_umem s) d f" "feed_filter port redirect f = XDP_REDIRECT" "snd x = frame_payload f"
      using v(11) unfolding buffer_ok_def by blast
    have "xl_get_data lib (xd_addr d) = xd_addr d" using assms(1) by (simp add: umem_ok_def)
    from xbuf_bytes_frame [OF x(2,3) this] show "case x of (b, bs) \<Rightarrow> xbuf_bytes lib (ax_umem s) b = Inr bs" using x(1,4) by (cases x) simp
  qed
qed

text \<open>The source is out of buffers only when everything that arrived was handed out.\<close>

lemma next_blocks:
  assumes "rx_ok lib rxv" "xdp_inv rxv fqv port redirect (s, held, got, arrived)" "afxdp_next lib s = (Inl e, s')"
  shows "got = map frame_payload arrived"
proof -
  obtain ds rel as where st: "xdp_state rxv fqv port redirect ds rel as (s, held, got, arrived)" using assms(2) unfolding xdp_inv_def by blast
  have "ax_batch s = ax_peeked s" "rearm_batch lib s = (Inl e, s')"
    using assms(3) by (auto simp: afxdp_next_def split: if_splits prod.splits sum.splits)
  from rearm_keeps(3) [OF assms(1) st this] show ?thesis by simp
qed

subsection \<open>A pair of rings\<close>

text \<open>Rings that behave as documented: lists with counts.\<close>

definition list_rings :: "(xdp_desc list \<times> nat \<times> nat, nat list \<times> nat \<times> nat list) xdp_lib" where
  "list_rings = \<lparr>xl_get_data = id, xl_extract_addr = id,
     xl_peek = (\<lambda>n (ds, rel, pk). let k = min n (length ds - pk) in ((k, word_of_nat pk), (ds, rel, pk + k))),
     xl_release = (\<lambda>n (ds, rel, pk). (ds, rel + n, pk)),
     xl_rx_desc = (\<lambda>(ds, rel, pk) idx. ds ! (rel + unat (idx - word_of_nat rel))),
     xl_reserve = (\<lambda>n (as, free, pend). if n \<le> free then ((n, 0), (as, free - n, replicate n 0)) else ((0, 0), (as, free, pend))),
     xl_fill_addr = (\<lambda>idx a (as, free, pend). (as, free, pend[unat idx := a])),
     xl_submit = (\<lambda>n (as, free, pend). (as @ take n pend, free, [])),
     xl_kernel_rx = (\<lambda>d (ds, rel, pk). (ds @ [d], rel, pk)),
     xl_kernel_fill = (\<lambda>(as, free, pend). case as of [] \<Rightarrow> None | a # as' \<Rightarrow> Some (a, as', free + 1, pend))\<rparr>"

lemma list_rings_umem: "umem_ok list_rings"
  by (simp add: umem_ok_def list_rings_def)

lemma list_rings_rx: "rx_ok list_rings id"
proof -
  have "rel + unat (word_of_nat i - word_of_nat rel :: u32) = i" if "rel \<le> i" "i < rel + RX_SIZE" for rel i
  proof -
    have eq: "(word_of_nat i - word_of_nat rel :: u32) = word_of_nat (i - rel)" using that(1) by (simp add: of_nat_diff)
    have "i - rel < 2 ^ 32" using that by (simp add: RX_SIZE_def)
    then have u: "unat (word_of_nat (i - rel) :: u32) = i - rel" by (simp only: unsigned_of_nat) (simp add: take_bit_nat_eq_self)
    show ?thesis unfolding eq u using that(1) by simp
  qed
  then show ?thesis by (auto simp: rx_ok_def list_rings_def Let_def)
qed

lemma list_rings_write:
  assumes "length addrs = n" "n \<le> N_FRAMES" "k \<le> n"
  shows "foldl (\<lambda>p i. xl_fill_addr list_rings (0 + word_of_nat i) (addrs ! i) p) (as, free, replicate n 0) [0..<k] =
    (as, free, take k addrs @ replicate (n - k) 0)"
  using assms(3)
proof (induction k)
  case (Suc k)
  have "unat (word_of_nat k :: u32) = k" using Suc.prems assms(2) by (simp add: unsigned_of_nat take_bit_nat_eq_self N_FRAMES_def)
  moreover have "(take k addrs @ replicate (n - k) 0)[k := addrs ! k] = take (Suc k) addrs @ replicate (n - Suc k) 0"
  proof -
    have "replicate (n - k) (0 :: nat) = 0 # replicate (n - Suc k) 0" using Suc.prems by (simp flip: replicate_Suc add: Suc_diff_Suc)
    then show ?thesis using Suc.prems assms(1) by (simp add: list_update_append take_Suc_conv_app_nth)
  qed
  ultimately show ?case using Suc by (simp add: list_rings_def)
qed (simp add: list_rings_def)

lemma list_rings_fill: "fill_ok list_rings (\<lambda>(as, free, pend). (as, free))"
proof -
  have "\<exists>idx p'. xl_reserve list_rings n (as, free, pend) = ((n, idx), p') \<and> (\<forall>addrs. length addrs = n \<longrightarrow>
      (case xl_submit list_rings n (foldl (\<lambda>p i. xl_fill_addr list_rings (idx + word_of_nat i) (addrs ! i) p) p' [0..<n]) of
        (as, free, pend) \<Rightarrow> (as, free)) = (as @ addrs, free - n))"
    if n: "n \<le> free" "n \<le> N_FRAMES" for n as free pend
  proof (rule exI [of _ 0], rule exI [of _ "(as, free - n, replicate n 0)"], intro conjI allI impI)
    show "xl_reserve list_rings n (as, free, pend) = ((n, 0), as, free - n, replicate n 0)" using n by (simp add: list_rings_def)
    fix addrs :: "nat list" assume len: "length addrs = n"
    show "(case xl_submit list_rings n (foldl (\<lambda>p i. xl_fill_addr list_rings (0 + word_of_nat i) (addrs ! i) p) (as, free - n, replicate n 0) [0..<n]) of
        (as, free, pend) \<Rightarrow> (as, free)) = (as @ addrs, free - n)"
      unfolding list_rings_write [OF len n(2) order_refl] using len by (simp add: list_rings_def)
  qed
  moreover have "\<exists>as'. as = a # as' \<and> (case p' of (as, free, pend) \<Rightarrow> (as, free)) = (as', free + 1)"
    if "xl_kernel_fill list_rings (as, free, pend) = Some (a, p')" for as free pend a p'
    using that by (auto simp: list_rings_def split: list.splits)
  ultimately show ?thesis unfolding fill_ok_def by (auto split: prod.splits)
qed

text \<open>
  C23. The AF\_XDP source hands out every packet once and in order: whatever packets arrive at the interface and
  however a client takes and drops buffers, for every libxdp whose rings behave as documented, no call
  faults, no frame is read outside its bytes, the bytes read are the payloads of the packets that passed the filter, in the
  order of their arrival, \<open>next\<close> has nothing to hand out only when all of them were, a buffer a client holds keeps its bytes until it is dropped, and the payload of a UDP frame
  to the port of the feed is what was sent, whatever the other header fields and the padding are.
\<close>

theorem xdp_exactly_once:
  assumes "umem_ok lib" "rx_ok lib rxv" "fill_ok lib fqv" "fqv fq = ([], N_FRAMES)" "rxv rx = ([], 0, 0)" "length umem = N_FRAMES * FRAME_SIZE"
    and "AfXDPSource lib ans fq rx umem ifname queue port [] = (Inr s, calls)"
  shows "(\<exists>s' held got arrived. xdp_run lib head port XDP_REDIRECT evs (s, [], [], []) = Inr (s', held, got, arrived)
      \<and> prefix got (map frame_payload arrived) \<and> (\<forall>(b, bs) \<in> set held. xbuf_bytes lib (ax_umem s') b = Inr bs)
      \<and> (\<forall>f \<in> set arrived. feed_filter port XDP_REDIRECT f = XDP_REDIRECT)
      \<and> (\<forall>e s''. afxdp_next lib s' = (Inl e, s'') \<longrightarrow> got = map frame_payload arrived))
    \<and> (headers_ok h \<and> length payload \<le> 65527 \<longrightarrow> feed_filter port XDP_REDIRECT (udp_frame h port payload padding) = XDP_REDIRECT
      \<and> frame_payload (udp_frame h port payload padding) = payload)"
proof -
  have "xdp_inv rxv fqv port XDP_REDIRECT (s, [], [], [])"
    by (rule AfXDPSource_starts [where rxv = rxv and fqv = fqv and fq = fq and rx = rx, OF assms(3-7)])
  from run_keeps [OF assms(1-3) this, of head evs] obtain s' held got arrived where
    r: "xdp_run lib head port XDP_REDIRECT evs (s, [], [], []) = Inr (s', held, got, arrived)" "xdp_inv rxv fqv port XDP_REDIRECT (s', held, got, arrived)"
    by (metis prod.collapse)
  show ?thesis using r(1) inv_result [OF assms(1) r(2)] next_blocks [OF assms(2) r(2)] udp_frame_ok by blast
qed

definition sample_headers :: udp_headers where
  "sample_headers = \<lparr>uh_mac = replicate 12 1, uh_tos = 0, uh_len_id = replicate 4 0, uh_df = True, uh_ttl = 64, uh_addrs = replicate 10 9,
     uh_sport = [1, 2], uh_csum = [0, 0]\<rparr>"

lemma sample_opens:
  "\<exists>s calls. AfXDPSource list_rings (\<lambda>i. (if i \<in> {0, 1, 4} then 1 else 0, 0)) ([], N_FRAMES, []) ([], 0, 0) (replicate (N_FRAMES * FRAME_SIZE) 0) ''eth0'' 0 26477 []
     = (Inr s, calls)"
proof -
  obtain fq where "ax_fill list_rings ([], N_FRAMES, []) = Some fq"
    using ax_fill_all [OF list_rings_fill, of "([], N_FRAMES, [])"] by auto
  then show ?thesis by (simp add: AfXDPSource_def ax_mmap_def ax_attach_def run_sys Let_def)
qed

theorem xdp_exactly_once_witness:
  "\<exists>s s' held got arrived. xdp_run list_rings 256 26477 XDP_REDIRECT
      [Xdp_Packet True (udp_frame sample_headers 26477 [7, 8, 9] [0]), Xdp_Next, Xdp_Drop 0] (s, [], [], []) = Inr (s', held, got, arrived)
    \<and> prefix got (map frame_payload arrived) \<and> frame_payload (udp_frame sample_headers 26477 [7, 8, 9] [0]) = [7, 8, 9]"
proof -
  obtain s calls where s: "AfXDPSource list_rings (\<lambda>i. (if i \<in> {0, 1, 4} then 1 else 0, 0)) ([], N_FRAMES, []) ([], 0, 0)
      (replicate (N_FRAMES * FRAME_SIZE) 0) ''eth0'' 0 26477 [] = (Inr s, calls)" using sample_opens by blast
  have h: "headers_ok sample_headers" by (simp add: headers_ok_def sample_headers_def)
  from xdp_exactly_once [OF list_rings_umem list_rings_rx list_rings_fill _ _ _ s, of 256
      "[Xdp_Packet True (udp_frame sample_headers 26477 [7, 8, 9] [0]), Xdp_Next, Xdp_Drop 0]" sample_headers "[7, 8, 9]" "[0]"]
  have "(\<exists>s' held got arrived. xdp_run list_rings 256 26477 XDP_REDIRECT
      [Xdp_Packet True (udp_frame sample_headers 26477 [7, 8, 9] [0]), Xdp_Next, Xdp_Drop 0] (s, [], [], []) = Inr (s', held, got, arrived)
      \<and> prefix got (map frame_payload arrived)) \<and> frame_payload (udp_frame sample_headers 26477 [7, 8, 9] [0]) = [7, 8, 9]"
    using h by (simp only: id_apply prod.case length_replicate simp_thms) auto
  then show ?thesis by blast
qed

subsection \<open>What a failed constructor leaves behind\<close>

definition releases :: "syscall \<Rightarrow> bool" where
  "releases c = (case c of Sys_skel_destroy \<Rightarrow> True | Sys_xsk_delete \<Rightarrow> True | Sys_umem_delete \<Rightarrow> True | Sys_munmap n \<Rightarrow> True
     | Sys_xdp_detach i f \<Rightarrow> True | _ \<Rightarrow> False)"

text \<open>Code that gives nothing back, and keeps the calls made before it.\<close>

definition quiet :: "'a sys \<Rightarrow> bool" where
  "quiet f \<longleftrightarrow> (\<forall>calls. \<exists>more. snd (f calls) = calls @ more \<and> (\<forall>c \<in> set more. \<not> releases c))"

lemma quiet_return: "quiet (sys_return a)"
  by (simp add: quiet_def sys_return_def)

lemma quiet_throw: "quiet (sys_throw e)"
  by (simp add: quiet_def sys_throw_def)

lemma quiet_call: "\<not> releases c \<Longrightarrow> quiet (sys_call ans c)"
  by (simp add: quiet_def sys_call_def)

lemma quiet_check_neg: "quiet (check_neg r what)"
  by (simp add: check_neg_def quiet_return quiet_throw)

lemma quiet_bind:
  assumes "quiet f" "\<And>a. quiet (g a)"
  shows "quiet (sys_bind f g)"
  unfolding quiet_def
proof
  fix calls
  obtain r mid where f: "f calls = (r, mid)" by (cases "f calls")
  obtain m1 where m1: "mid = calls @ m1" "\<forall>c \<in> set m1. \<not> releases c" using assms(1) f unfolding quiet_def by (metis snd_conv)
  show "\<exists>more. snd (sys_bind f g calls) = calls @ more \<and> (\<forall>c \<in> set more. \<not> releases c)"
  proof (cases r)
    case (Inl e)
    then show ?thesis using f m1 by (simp add: sys_bind_def)
  next
    case (Inr a)
    obtain m2 where "snd (g a mid) = mid @ m2" "\<forall>c \<in> set m2. \<not> releases c" using assms(2) unfolding quiet_def by blast
    then show ?thesis using f m1 Inr by (intro exI [of _ "m1 @ m2"]) (auto simp: sys_bind_def)
  qed
qed

lemmas quiet_intros = quiet_return quiet_throw quiet_call quiet_check_neg quiet_bind

lemma AfXDPSource_quiet: "\<exists>g. AfXDPSource lib ans fq rx umem ifname queue port = sys_bind (ax_mmap ans) g \<and> (\<forall>a. quiet (g a))"
  unfolding AfXDPSource_def
  by (intro exI conjI, rule refl) (auto simp: releases_def ax_attach_def split: option.splits intro!: quiet_intros)

lemma ax_mmap_calls:
  "0 \<le> fst (ans 0) \<or> 0 \<le> fst (ans 1) \<Longrightarrow> ax_mmap ans [] = (Inr (), Sys_mmap True (N_FRAMES * FRAME_SIZE)
     # (if 0 \<le> fst (ans 0) then [] else [Sys_mmap False (N_FRAMES * FRAME_SIZE)]))"
  by (auto simp: ax_mmap_def run_sys Let_def)

text \<open>
  C40. A constructor of the AF\_XDP source that throws after the memory was mapped, with huge pages or, when the
  system has none, with ordinary ones, gives nothing back: whatever the system answers, it starts with the call that
  mapped the memory, and no call that unmaps, deletes, destroys or detaches is made, so the mapping stays, and with it
  the umem, the socket and the skeleton as far as they were made (the destructor of an object whose constructor throws
  does not run).
\<close>

theorem afxdp_failed_open_leaks:
  assumes "0 \<le> fst (ans 0) \<or> 0 \<le> fst (ans 1)" "AfXDPSource lib ans fq rx umem ifname queue port [] = (Inl e, calls)"
  shows "prefix (Sys_mmap True (N_FRAMES * FRAME_SIZE) # (if 0 \<le> fst (ans 0) then [] else [Sys_mmap False (N_FRAMES * FRAME_SIZE)])) calls
    \<and> (\<forall>c \<in> set calls. \<not> releases c)"
proof -
  let ?m = "Sys_mmap True (N_FRAMES * FRAME_SIZE) # (if 0 \<le> fst (ans 0) then [] else [Sys_mmap False (N_FRAMES * FRAME_SIZE)])"
  obtain g where g: "AfXDPSource lib ans fq rx umem ifname queue port = sys_bind (ax_mmap ans) g" "\<forall>a. quiet (g a)"
    using AfXDPSource_quiet [of lib ans fq rx umem ifname queue port] by blast
  have "g () ?m = (Inl e, calls)" using assms(2) unfolding g(1) by (simp add: sys_bind_def ax_mmap_calls [OF assms(1)])
  moreover obtain more where "snd (g () ?m) = ?m @ more" "\<forall>c \<in> set more. \<not> releases c" using g(2) unfolding quiet_def by blast
  ultimately have "calls = ?m @ more" "\<forall>c \<in> set more. \<not> releases c" by simp_all
  moreover have "\<forall>c \<in> set ?m. \<not> releases c" by (simp add: releases_def)
  ultimately show ?thesis by auto
qed

theorem afxdp_failed_open_leaks_witness:
  "(\<exists>e calls. AfXDPSource list_rings (\<lambda>i. (if i = 0 then 1 else 0, 19)) ([], N_FRAMES, []) ([], 0, 0) [] ''nosuch0'' 0 26477 [] = (Inl e, calls)
      \<and> prefix [Sys_mmap True (N_FRAMES * FRAME_SIZE)] calls \<and> (\<forall>c \<in> set calls. \<not> releases c))
   \<and> (\<exists>e calls. AfXDPSource list_rings (\<lambda>i. (if i = 0 then - 1 else if i = 1 then 1 else 0, 19)) ([], N_FRAMES, []) ([], 0, 0) [] ''nosuch0'' 0 26477 []
        = (Inl e, calls)
      \<and> prefix [Sys_mmap True (N_FRAMES * FRAME_SIZE), Sys_mmap False (N_FRAMES * FRAME_SIZE)] calls \<and> (\<forall>c \<in> set calls. \<not> releases c))"
proof -
  have huge: "AfXDPSource list_rings (\<lambda>i. (if i = 0 then 1 else 0, 19)) ([], N_FRAMES, []) ([], 0, 0) [] ''nosuch0'' 0 26477 [] =
     (Inl (exn.Runtime_Error ''if_nametoindex() failed''), [Sys_mmap True (N_FRAMES * FRAME_SIZE), Sys_if_nametoindex ''nosuch0''])"
    by (simp add: AfXDPSource_def ax_mmap_def run_sys Let_def)
  have ordinary: "AfXDPSource list_rings (\<lambda>i. (if i = 0 then - 1 else if i = 1 then 1 else 0, 19)) ([], N_FRAMES, []) ([], 0, 0) [] ''nosuch0'' 0 26477 [] =
     (Inl (exn.Runtime_Error ''if_nametoindex() failed''),
      [Sys_mmap True (N_FRAMES * FRAME_SIZE), Sys_mmap False (N_FRAMES * FRAME_SIZE), Sys_if_nametoindex ''nosuch0''])"
    by (simp add: AfXDPSource_def ax_mmap_def run_sys Let_def)
  show ?thesis using afxdp_failed_open_leaks [OF _ huge] afxdp_failed_open_leaks [OF _ ordinary] huge ordinary by simp
qed

end
