(* ===== verification/Spec2Isabelle.thy ===== *)
theory Spec2Isabelle
  imports Book_Builder Mold_Replay Thread_Config Pipeline Command_Line Pool_Runs Logger Mcast_Source Unicast_Source
    Tcp_Source Swiss_Table Af_Xdp_Source
begin

text \<open>
  Verification development for fastbook, a C++23 market data feed handler (sources under
  \<open>src/\<close> of the repository, file names below relative to it).

  \<^bold>\<open>The program.\<close> A transport (a capture file, a multicast socket) delivers buffers to the feed
  thread. A framer cuts them into messages: \<open>LengthPrefixFramer\<close> for byte streams,
  \<open>MoldUDP64Framer\<close> for sequenced datagrams, whose gaps \<open>MoldRetransmitRecoverer\<close> fills from a
  retransmission server. \<open>ITCHParser\<close> turns messages into order events, which \<open>VenueFeed\<close>
  stamps and pushes to one SPSC ring per shard. One \<open>BookBuilder\<close> thread per shard pops them and
  keeps an \<open>OrderBook\<close> per instrument: a hash table from order ids to orders, an object pool,
  and per side a two-tier array of price levels with FIFO queues. \<open>FeedHandler\<close> and \<open>main\<close>
  start, pin, stop and join the threads. \<open>tools/mold_replay.cpp\<close> is the other end of the wire: it
  publishes a capture as a MoldUDP64 session and answers requests for retransmission.

  \<^bold>\<open>Theories\<close>, in the order of their imports:
  \<^item> \<open>Fastbook_Prelude\<close>: machine integers, pointers, faults (\<open>Bad_Access\<close> for undefined
    behaviour, \<open>Terminated\<close>, \<open>Diverged\<close>), standard algorithms and their facts. \<open>Std_Text\<close>:
    \<open>std::from_chars\<close> and decimal printing. \<open>Market_Types\<close>: \<open>common/types.hpp\<close>.
  \<^item> \<open>Two_Tier_Levels\<close> (\<open>orderbook/two_tier_levels.hpp\<close>): refinement of a map from prices to
    levels, the best level, the loss at the price reserved for "empty".
    \<open>Linear_Probing_Table\<close> (\<open>common/linear_probing_table.hpp\<close>): refinement of a map in both
    erase modes; the locale of pointer tables the book relies on. \<open>Object_Pool\<close>
    (\<open>common/object_pool.hpp\<close>): no address is handed out twice.
  \<^item> \<open>Order_Book\<close>, \<open>Order_Book_Runs\<close> (\<open>orderbook/order_book.hpp\<close>): the book over an explicit
    heap of doubly linked orders, written against the interfaces of table and pool; every run
    without orders at the price reserved for "empty", which the book does not refuse, refines
    price-time priority, never faults, has exact totals and the best price.
  \<^item> \<open>Spsc_Queue\<close> (\<open>common/spsc_queue.hpp\<close>): the ring sequentially and as an interleaving of
    producer and consumer with stale index loads. \<open>Profiling\<close> (\<open>common/profiling.hpp\<close>): the
    latency histogram. \<open>Book_Builder\<close> (\<open>bookbuilder/book_builder.hpp\<close>): handlers, counters,
    shutdown; one specification book per instrument.
  \<^item> \<open>Buf_IO\<close> (\<open>feed/buf_reader.hpp\<close>, \<open>feed/buf_writer.hpp\<close>, \<open>feed/mold_udp64.hpp\<close>),
    \<open>Framer\<close> (\<open>feed/framer.hpp\<close>, the interface as a locale), \<open>Mold_Framer\<close>,
    \<open>Length_Prefix_Framer\<close>, \<open>File_Source\<close> (\<open>transport/file_source.hpp\<close>), \<open>Itch_Parser\<close>
    (\<open>feed/itch_parser.hpp\<close>), \<open>Retransmit_Recoverer\<close> (\<open>feed/recovery.hpp\<close>,
    \<open>feed/retransmit_recoverer.hpp\<close>), \<open>Venue_Feed\<close> (\<open>feed/venue_feed.hpp\<close>,
    \<open>common/event_queue.hpp\<close>): exactly-once and in-order delivery through losses, chunking as
    a reference parser, round trips, bounds of every read, termination of recovery, and their
    composition up to the rings.
  \<^item> \<open>Mold_Replay\<close> (\<open>tools/mold_replay.cpp\<close>): what is published and what is answered.
    \<open>Thread_Config\<close> (\<open>pipeline/thread_config.hpp\<close>), \<open>Command_Line\<close> (\<open>main.cpp\<close>),
    \<open>Pipeline\<close> (\<open>pipeline/feed_handler.hpp\<close>, \<open>common/threading.hpp\<close>, the \<open>run\<close> functions): the
    threads as a step relation; no deadlock, nothing lost at shutdown.
  \<^item> \<open>Treiber_Stack\<close> (\<open>common/treiber_stack.hpp\<close>): the lock-free stacks undisturbed, and pushes and
    takes of any number of threads interleaved; no node is lost or owned twice. \<open>Buffer_Pool\<close>,
    \<open>Pool_Invariant\<close> (\<open>common/buffer_pool.hpp\<close>): magazines, shared lists, runs and chunks as one
    thread uses them, over a kernel that is an argument; the contract of an allocator as a locale.
    \<open>Pool_Runs\<close>: blocks in use never overlap, every call returns, a failed call leaves nothing
    mapped, and what the pool hands out is what the order book relies on when it grows.
  \<^item> \<open>Logger\<close> (\<open>common/logger.hpp\<close>): arguments to bytes and back through the format string, with
    the overflow of a record by a long string; calls of many threads and drains interleaved, nothing
    accepted is lost or logged twice.
  \<^item> \<open>Swiss_Group\<close>, \<open>Swiss_Table\<close> (\<open>common/swiss_table.hpp\<close>): the contract of a group of
    control bytes as a locale, interpreted by the scalar, 64-bit, SSE2 and AVX2 groups; the table over it
    refines a map, through tombstones and rehashing.
  \<^item> \<open>System_Calls\<close> (\<open>common/sys.hpp\<close>): checked calls, descriptors and what a constructor leaves open.
    \<open>Pooled_Source\<close>: buffers owned by clients over an object pool, and the contract of a
    transport as a locale, interpreted by \<open>Mcast_Source\<close> (\<open>transport/mcast_udp_source.hpp\<close>) and
    \<open>Tcp_Source\<close> (\<open>transport/tcp_source.hpp\<close>): everything received is handed out once and in order, and
    nobody writes into a buffer in use. \<open>Unicast_Source\<close> (\<open>transport/unicast_udp_source.hpp\<close>): the
    socket of the recoverer. \<open>Af_Xdp_Source\<close> (\<open>transport/af_xdp_source.hpp\<close>, \<open>transport/feed_filter.bpf.c\<close>):
    the filter and the source over the rings of libxdp, and what its constructor leaks.
  \<^item> This theory: the replay tool and the feed together; the feed over its own sockets.

  \<^bold>\<open>Correspondence.\<close> Structs and classes are records, enumerations datatypes, member functions
  functions of the same name (with a prefix where a name clashes) from state to state; a call
  that returns an error is a value of a sum type, a call that leaves the language's defined
  behaviour, terminates the process or never returns is an \<open>Inl\<close> of \<open>fault\<close>. Assertions do nothing,
  as in the release build. Integers have their width where they can wrap; sizes and offsets bounded
  by memory are natural numbers. Concurrent parts are step relations over the atomic operations;
  the rings tolerate stale loads of the indices, which is what acquire and release allow.
  What the system answers (allocation, sockets, clock, files, thread creation) is an argument or a
  choice of the step relation; kernels are scripts of answers, so every behaviour is one of some script.
  Code outside the repository is used only through these arguments. What the retransmission server
  answers may depend on the requests sent to it. Some records carry a history for the statements: the requests sent
  (\<open>rs_requests\<close>), the messages handed over (\<open>vf_log\<close>), and the events the consumer of each shard popped
  (\<open>vf_popped\<close>), which with those still in its ring are the events pushed.

  \<^bold>\<open>Fuel and termination.\<close> Loops over data are structural or have a measure; \<open>lp_shift_loop\<close>,
  \<open>find_loop\<close> and \<open>prepare_loop\<close> of the swiss table, \<open>recover_loop\<close> and \<open>replay_loop\<close> are partial functions whose termination is proved (the
  tables keep an empty slot, the clock reaches the deadline, the file is finite). \<open>bb_drain\<close> takes
  one environment per event: one more than the ring holds is enough. \<open>bp_reserve\<close> takes a number of
  iterations: as many as a magazine has places are enough.

  \<^bold>\<open>Not modelled.\<close> Several threads on one buffer pool at a time, and \<open>pop\<close> of a lock-free stack
  interleaved with other operations; the old order book (not used by the program, only by
  benchmarks), the level macro of the logger and the sleep of its thread, the performance counters, clock calibration and all formatting of reports, benchmarks
  and tests. Two simplifications: a receive submission left in the ring by a failed \<open>io_uring_submit\<close> is forgotten,
  and the time the replay tool lingers is a natural number of nanoseconds.
\<close>

section \<open>From a capture to the rings\<close>


text \<open>Two numberings of the messages of a capture that differ only beyond its end.\<close>

definition continued :: "byte list \<Rightarrow> byte list \<Rightarrow> nat \<Rightarrow> byte list" where
  "continued data m i = (if i \<le> length (capture_msgs data) \<and> 1 \<le> i then capture_stream data i else m)"

lemma continued_publishes [simp]: "publishes data (continued data m)"
  by (simp add: publishes_def continued_def)

lemma continued_same:
  assumes "map (continued data m) [1..<k] = map (continued data m') [1..<k]" "m \<noteq> m'"
  shows "map (continued data m) [1..<k] = take (k - 1) (capture_msgs data)"
proof -
  let ?N = "length (capture_msgs data)"
  have "k \<le> Suc ?N"
  proof (rule ccontr)
    assume "\<not> k \<le> Suc ?N"
    then have "map (continued data m) [1..<k] ! ?N = m" "map (continued data m') [1..<k] ! ?N = m'"
      by (simp_all add: continued_def)
    with assms show False by metis
  qed
  then have "take (k - 1) [1..<Suc ?N] = [1..<k]" by (cases k) (simp_all add: take_upt del: upt_Suc)
  moreover have "map (continued data m) [1..<k] = map (capture_stream data) [1..<k]"
    using \<open>k \<le> Suc ?N\<close> by (simp add: continued_def)
  ultimately have "map (continued data m) [1..<k] = map (capture_stream data) (take (k - 1) [1..<Suc ?N])" by simp
  then show ?thesis using capture_all [of data] by (metis take_map)
qed

text \<open>Two well-formed messages.\<close>

definition spare_msg :: "u64 \<Rightarrow> byte list" where
  "spare_msg ref = itch_encode (OrderDelete \<lparr>od_stock_locate = 7, od_tracking_number = 0, od_timestamp = 9, od_order_ref_num = ref\<rparr>)"

lemma spare_msg_ok: "\<exists>evs. itch_parse (spare_msg ref) = Inr evs" "length (spare_msg ref) = 19" "spare_msg 1 \<noteq> spare_msg 2"
proof -
  have e: "parse_msg (spare_msg ref @ []) = Inr (OrderDelete \<lparr>od_stock_locate = 7, od_tracking_number = 0, od_timestamp = 9, od_order_ref_num = ref\<rparr>, [])" for ref
    unfolding spare_msg_def by (rule parse_msg_encode) simp
  then show "\<exists>evs. itch_parse (spare_msg ref) = Inr evs" by (simp add: itch_parse_def)
  show "length (spare_msg ref) = 19" by (simp add: spare_msg_def)
  from e [of 1] e [of 2] show "spare_msg 1 \<noteq> spare_msg 2" by auto
qed

lemma replay_feed_run:
  assumes "\<forall>d \<in> set sent \<union> set replies. \<forall>stream. publishes data stream \<longrightarrow> from_session SESSION stream d"
    "\<forall>m \<in> set (capture_msgs data). \<exists>evs. itch_parse m = Inr evs" "consumers_live penv"
    "\<forall>k reqs j val. re_next (renv k) reqs j = Inr val \<longrightarrow> val \<in> set replies"
    "\<forall>k. \<exists>n. re_now (renv k) 0 + rc_max_recovery_time cfg \<le> re_now (renv k) (Suc n)"
    "\<forall>b. Inr b \<in> snd ` set inputs \<longrightarrow> b \<in> set sent"
  shows "\<exists>vf. vf_run penv mold_feed (on_sequenced_error penv mold_feed (mold_recover cfg renv)) inputs
      (VenueFeed (MoldUDP64Framer junk) (replicate 4 (SPSCQueue QUEUE_SIZE))) = Inr vf
    \<and> vf_log vf = take (unat (mold_expected (vf_framer vf)) - 1) (capture_msgs data) \<and> shards_got vf (vf_log vf)"
proof -
  have run: "\<exists>vf. vf_run penv mold_feed (on_sequenced_error penv mold_feed (mold_recover cfg renv)) inputs
      (VenueFeed (MoldUDP64Framer junk) (replicate 4 (SPSCQueue QUEUE_SIZE))) = Inr vf
    \<and> vf_log vf = map (continued data (spare_msg ref)) [1..<unat (mold_expected (vf_framer vf))] \<and> shards_got vf (vf_log vf)" for ref
  proof (rule vf_run_session [OF _ _ _ assms(3)])
    have pub: "publishes data (continued data (spare_msg ref))" by simp
    have mem: "capture_stream data i \<in> set (capture_msgs data)" if "1 \<le> i" "i \<le> length (capture_msgs data)" for i
      using that by (intro capture_stream_mem) auto
    show "length SESSION = SESSION_SIZE" by simp
    show "\<forall>i. length (continued data (spare_msg ref) i) < 2 ^ 16"
      using capture_stream_size spare_msg_ok(2) by (simp add: continued_def)
    show "\<forall>i. \<exists>evs. itch_parse (continued data (spare_msg ref) i) = Inr evs"
      using assms(2) mem spare_msg_ok(1) by (auto simp: continued_def)
    show "\<forall>k. network_ok SESSION (continued data (spare_msg ref)) cfg (renv k)"
      using assms(1,4,5) pub by (auto simp: network_ok_def)
    show "\<forall>b. Inr b \<in> snd ` set inputs \<longrightarrow> from_session SESSION (continued data (spare_msg ref)) b"
      using assms(1,6) pub by blast
  qed
  obtain vf where vf: "vf_run penv mold_feed (on_sequenced_error penv mold_feed (mold_recover cfg renv)) inputs
      (VenueFeed (MoldUDP64Framer junk) (replicate 4 (SPSCQueue QUEUE_SIZE))) = Inr vf"
    "vf_log vf = map (continued data (spare_msg 1)) [1..<unat (mold_expected (vf_framer vf))]"
    "vf_log vf = map (continued data (spare_msg 2)) [1..<unat (mold_expected (vf_framer vf))]" "shards_got vf (vf_log vf)"
    using run [of 1] run [of 2] by (metis sum.inject(2))
  then have "vf_log vf = take (unat (mold_expected (vf_framer vf)) - 1) (capture_msgs data)"
    using continued_same [OF _ spare_msg_ok(3)] by metis
  with vf show ?thesis by blast
qed

text \<open>
  C4. End to end: a capture replayed by the replay tool, with datagrams dropped on purpose or
  lost, repeated and reordered on the way, received by a feed over MoldUDP64 that asks the
  tool for what it misses. The feed never faults; when it is done, the messages it handled are
  the first messages of the capture, each once and in order, and what the consumer of each shard popped followed by what is in
  its ring are exactly their events of that shard, in order. Every message of the capture is
  well-formed, the consumers keep up, and the clock reaches the deadline of every recovery.
\<close>

theorem replay_to_rings:
  assumes "replay_main env os = Some (Inr (0, s))" "\<forall>f. length (MappedFile (rv_map env f)) < 2 ^ 63"
    "ro_file (snd (replay_parse_args os)) = Some f" "parse_frames 65535 (MappedFile (rv_map env f)) = (msgs, t)"
    "\<forall>m \<in> set msgs. \<exists>evs. itch_parse m = Inr evs" "consumers_live penv"
    "\<forall>k reqs j val. re_next (renv k) reqs j = Inr val \<longrightarrow> val \<in> set (rp_replies s)"
    "\<forall>k. \<exists>n. re_now (renv k) 0 + rc_max_recovery_time cfg \<le> re_now (renv k) (Suc n)"
    "\<forall>b. Inr b \<in> snd ` set inputs \<longrightarrow> b \<in> set (rp_sent s)"
  shows "\<exists>vf. vf_run penv mold_feed (on_sequenced_error penv mold_feed (mold_recover cfg renv)) inputs
      (VenueFeed (MoldUDP64Framer junk) (replicate 4 (SPSCQueue QUEUE_SIZE))) = Inr vf
    \<and> vf_log vf = take (unat (mold_expected (vf_framer vf)) - 1) msgs \<and> shards_got vf (vf_log vf)"
proof -
  have msgs: "capture_msgs (MappedFile (rv_map env f)) = msgs" using assms(4) by (simp add: capture_msgs_def)
  have "\<forall>d \<in> set (rp_sent s) \<union> set (rp_replies s). \<forall>stream. publishes (MappedFile (rv_map env f)) stream \<longrightarrow> from_session SESSION stream d"
    using replay_main_session [of env os] assms(1-3) by auto
  from replay_feed_run [OF this _ assms(6-9)] assms(5) msgs show ?thesis by simp
qed

theorem replay_to_rings_witness:
  "\<exists>s vf. replay_main \<lparr>rv_map = \<lambda>_. Maps (concat (map msg_block [spare_msg 5])), rv_sockets = True, rv_group = \<lambda>_. Some True,
      rv_iface = \<lambda>_. Some False, rv_multicast_if = True, rv_bind = \<lambda>_. True, rv_requests = \<lambda>_. [], rv_clock = (0, 0), rv_linger = []\<rparr>
      [(CHR ''f'', ''x'')] = Some (Inr (0, s))
    \<and> vf_run (\<lambda>_. [(1, False)]) mold_feed (on_sequenced_error (\<lambda>_. [(1, False)]) mold_feed
        (mold_recover \<lparr>rc_max_attempts = 3, rc_max_per_request = 2, rc_max_recovery_time = 5\<rparr>
          (\<lambda>_. \<lparr>re_now = (\<lambda>j. j), re_send = (\<lambda>_. Inr ()), re_next = (\<lambda>_ _. Inl WouldBlock)\<rparr>)))
      (map (\<lambda>d. (0, Inr d)) (rp_sent s)) (VenueFeed (MoldUDP64Framer []) (replicate 4 (SPSCQueue QUEUE_SIZE))) = Inr vf
    \<and> vf_log vf = take (unat (mold_expected (vf_framer vf)) - 1) [spare_msg 5] \<and> shards_got vf (vf_log vf)"
proof -
  let ?bs = "concat (map msg_block [spare_msg 5])"
  let ?env = "\<lparr>rv_map = \<lambda>_. Maps ?bs, rv_sockets = True, rv_group = \<lambda>_. Some True,
      rv_iface = \<lambda>_. Some False, rv_multicast_if = True, rv_bind = \<lambda>_. True, rv_requests = \<lambda>_. [], rv_clock = (0, 0), rv_linger = []\<rparr>"
  have bs: "parse_frames 65535 ?bs = ([spare_msg 5], Some [])" by (rule parse_frames_blocks) (simp add: spare_msg_ok)
  have len: "length ?bs = 21" using spare_msg_ok(2) by simp
  then have ne: "?bs \<noteq> []" by (metis list.size(3) zero_neq_numeral)
  have opt: "replay_parse_args [(CHR ''f'', ''x'')] = (True, Options\<lparr>ro_file := Some ''x''\<rparr>)"
    by (simp add: replay_parse_args_def replay_parse_opt_def Options_def)
  obtain s where s: "replay_loop (Options\<lparr>ro_file := Some ''x''\<rparr>) ?bs (\<lambda>_. []) 0 replay_start = Some (Inr s)"
    using replay_run [of ?bs "Options\<lparr>ro_file := Some ''x''\<rparr>" "\<lambda>_. []"] len by auto
  have main: "replay_main ?env [(CHR ''f'', ''x'')] = Some (Inr (0, s))"
    using opt s ne by (simp add: replay_main_def MappedFile_def Let_def del: list.map concat.simps)
  have live: "consumers_live (\<lambda>_. [(1, False)])" by (simp add: consumers_live_def)
  have "\<forall>f. length (MappedFile (rv_map ?env f)) < 2 ^ 63" "ro_file (snd (replay_parse_args [(CHR ''f'', ''x'')])) = Some ''x''"
    "parse_frames 65535 (MappedFile (rv_map ?env ''x'')) = ([spare_msg 5], Some [])"
    using len opt bs by (simp_all add: MappedFile_def del: list.map concat.simps)
  moreover have "\<exists>n. 0 + 5 \<le> Suc n" "\<forall>b. Inr b \<in> snd ` set (map (\<lambda>d. (0 :: u64, Inr d)) (rp_sent s)) \<longrightarrow> b \<in> set (rp_sent s)"
    by (auto intro: exI [of _ 4])
  ultimately have ex: "\<exists>vf. vf_run (\<lambda>_. [(1, False)]) mold_feed (on_sequenced_error (\<lambda>_. [(1, False)]) mold_feed
        (mold_recover \<lparr>rc_max_attempts = 3, rc_max_per_request = 2, rc_max_recovery_time = 5\<rparr>
          (\<lambda>_. \<lparr>re_now = (\<lambda>j. j), re_send = (\<lambda>_. Inr ()), re_next = (\<lambda>_ _. Inl WouldBlock)\<rparr>)))
      (map (\<lambda>d. (0, Inr d)) (rp_sent s)) (VenueFeed (MoldUDP64Framer []) (replicate 4 (SPSCQueue QUEUE_SIZE))) = Inr vf
    \<and> vf_log vf = take (unat (mold_expected (vf_framer vf)) - 1) [spare_msg 5] \<and> shards_got vf (vf_log vf)"
    using spare_msg_ok(1) by (intro replay_to_rings [OF main _ _ _ _ live]) simp_all
  with main show ?thesis by blast
qed

section \<open>From the sockets to the rings\<close>

text \<open>
  C5. The feed over its own sockets: the inputs of the feed are what \<open>next\<close> of the multicast source answers, one
  buffer read and dropped at a time, and the recoverer talks through the unicast source. If every datagram
  the kernel delivers on either socket is one of the session, whole or cut, then however it batches, fails,
  loses and repeats them, no call of either source faults, the buffers read are the datagrams received, each once
  and in order, and the feed hands the first messages of the session, each once and in order, to the
  parser and their events to the rings: what the consumer of each shard popped followed by what is in its ring are
  exactly the events of that shard, in order. Every message of the session is well-formed, the consumers keep up, and the
  clock reaches the deadline of every recovery.
\<close>

theorem sockets_to_rings:
  assumes "length session = SESSION_SIZE" "\<forall>i. length (stream i) < 2 ^ 16" "\<forall>i. \<exists>evs. itch_parse (stream i) = Inr evs" "consumers_live penv"
    "storage \<noteq> nullptr" "length (fst raw) = VLEN" "length (snd raw) = VLEN" "\<forall>a. length (dg_buf (mem a)) = MSG_BUF_SZ"
    "\<forall>j ds d. uk_script kn j = Received ds \<longrightarrow> d \<in> set ds \<longrightarrow> from_session session stream d"
    "\<forall>k reqs j d. recvs k reqs j = Datagram d \<longrightarrow> from_session session stream d" "\<forall>k. \<exists>n. now k 0 + rc_max_recovery_time cfg \<le> now k (Suc n)"
  shows "\<exists>rs m kn' vf. feed_inputs mcast_next mcast_release mcast_bytes (length tscs) (McastUDPSource storage mem raw, kn\<lparr>uk_log := []\<rparr>) = Inr (rs, m, kn')
    \<and> prefix (oks rs) (uk_log kn')
    \<and> vf_run penv mold_feed (on_sequenced_error penv mold_feed (mold_recover cfg (\<lambda>k. unicast_env (now k) (sends k) (recvs k)))) (zip tscs rs)
        (VenueFeed (MoldUDP64Framer junk) (replicate 4 (SPSCQueue QUEUE_SIZE))) = Inr vf
    \<and> vf_log vf = map stream [1..<unat (mold_expected (vf_framer vf))] \<and> shards_got vf (vf_log vf)"
proof -
  from mcast_inputs [OF assms(5-8) assms(9) assms(1), where n = "length tscs"] obtain rs s where
    rs: "feed_inputs mcast_next mcast_release mcast_bytes (length tscs) (McastUDPSource storage mem raw, kn\<lparr>uk_log := []\<rparr>) = Inr (rs, s)"
      "length rs = length tscs" "prefix (oks rs) (uk_log (snd s))" "\<forall>b. Inr b \<in> set rs \<longrightarrow> from_session session stream b"
    by (elim exE conjE) (rule that)
  have net: "\<forall>k. network_ok session stream cfg (unicast_env (now k) (sends k) (recvs k))"
    using assms(10,11) unicast_network_ok by metis
  have "\<forall>b. Inr b \<in> snd ` set (zip tscs rs) \<longrightarrow> from_session session stream b"
    using rs(4) by (auto dest: set_zip_rightD)
  from vf_run_session [OF assms(1-4) net this] rs(1,3) show ?thesis by (cases s) auto
qed

theorem sockets_to_rings_witness:
  "\<exists>rs m kn' vf. feed_inputs mcast_next mcast_release mcast_bytes (length [5, 6 :: u64])
      (McastUDPSource 4096 (\<lambda>_. \<lparr>dg_buf = replicate MSG_BUF_SZ 0, dg_sz = 0\<rparr>) (replicate VLEN (0, 0), replicate VLEN 0),
       \<lparr>uk_script = (\<lambda>j. if j = 0 then Received [mold_packet (replicate 10 65) (\<lambda>_. sample_msg) 1 2] else Recv_Failed EAGAIN), uk_calls = 0, uk_log = []\<rparr>)
      = Inr (rs, m, kn')
    \<and> vf_run (\<lambda>_. [(1, False)]) mold_feed (on_sequenced_error (\<lambda>_. [(1, False)]) mold_feed
        (mold_recover \<lparr>rc_max_attempts = 3, rc_max_per_request = 2, rc_max_recovery_time = 5\<rparr>
          (\<lambda>k. unicast_env (\<lambda>j. j) (\<lambda>_. Sent 20) (\<lambda>_ _. Recv_Error EAGAIN)))) (zip [5, 6] rs)
        (VenueFeed (MoldUDP64Framer []) (replicate 4 (SPSCQueue QUEUE_SIZE))) = Inr vf
    \<and> vf_log vf = map (\<lambda>_. sample_msg) [1..<unat (mold_expected (vf_framer vf))] \<and> shards_got vf (vf_log vf)"
proof -
  let ?kn = "\<lparr>uk_script = (\<lambda>j. if j = 0 then Received [mold_packet (replicate 10 65) (\<lambda>_. sample_msg) 1 2] else Recv_Failed EAGAIN), uk_calls = 0, uk_log = []\<rparr>"
  have kn: "?kn\<lparr>uk_log := []\<rparr> = ?kn" by simp
  have "consumers_live (\<lambda>_. [(1, False)])" by (simp add: consumers_live_def)
  moreover have "from_session (replicate 10 65) t (mold_packet (replicate 10 65) t 1 2)" for t
    using from_session.packet [of 1 2 "replicate 10 65" t "length (mold_packet (replicate 10 65) t 1 2)"] by simp
  moreover have "\<exists>n. 0 + 5 \<le> Suc n" by (rule exI [of _ 4]) simp
  ultimately have "\<exists>rs m kn' vf. feed_inputs mcast_next mcast_release mcast_bytes (length [5, 6 :: u64])
      (McastUDPSource 4096 (\<lambda>_. \<lparr>dg_buf = replicate MSG_BUF_SZ 0, dg_sz = 0\<rparr>) (replicate VLEN (0, 0), replicate VLEN 0), ?kn\<lparr>uk_log := []\<rparr>)
      = Inr (rs, m, kn')
    \<and> prefix (oks rs) (uk_log kn')
    \<and> vf_run (\<lambda>_. [(1, False)]) mold_feed (on_sequenced_error (\<lambda>_. [(1, False)]) mold_feed
        (mold_recover \<lparr>rc_max_attempts = 3, rc_max_per_request = 2, rc_max_recovery_time = 5\<rparr>
          (\<lambda>k. unicast_env (\<lambda>j. j) (\<lambda>_. Sent 20) (\<lambda>_ _. Recv_Error EAGAIN)))) (zip [5, 6] rs)
        (VenueFeed (MoldUDP64Framer []) (replicate 4 (SPSCQueue QUEUE_SIZE))) = Inr vf
    \<and> vf_log vf = map (\<lambda>_. sample_msg) [1..<unat (mold_expected (vf_framer vf))] \<and> shards_got vf (vf_log vf)"
    by (intro sockets_to_rings [where session = "replicate 10 65"])
      (use sample_msg_ok in \<open>auto simp: SESSION_SIZE_def split: if_splits\<close>)
  then show ?thesis unfolding kn by (elim exE conjE) (intro exI conjI, assumption+)
qed


end
